(* ===== verification/Prelude.thy ===== *)
theory Prelude
  imports Main "HOL-Library.Word"
begin

unbundle bit_operations_syntax

text \<open>
  Shared ground of the development: the machine integer types, the error values of
  \<^verbatim>\<open>std::io::Error\<close>, the sequencing combinators that stand for Rust's
  \<^verbatim>\<open>?\<close> operator, checked \<open>u64\<close> arithmetic, the little-endian codec that
  every on-disk integer goes through, and lemmas on reading and overwriting a slice
  of a list. The collections \<open>codec\<close>, \<open>seq_simps\<close> and \<open>slice_simps\<close>
  gather the facts the component proofs pass to the simplifier.
\<close>

named_theorems evaluate
named_theorems codec \<comment> \<open>length and round-trip facts of the byte codecs\<close>
named_theorems seq_simps \<comment> \<open>unfolding of the error-sequencing combinators\<close>
named_theorems slice_simps \<comment> \<open>reads and overwrites of byte slices\<close>

section \<open>Machine integers\<close>

type_synonym u8 = "8 word"
type_synonym u16 = "16 word"
type_synonym u32 = "32 word"
type_synonym u64 = "64 word"

abbreviation u64_limit :: nat where
  "u64_limit \<equiv> 18446744073709551616"

lemma unat_u64_bound [simp]: "unat (w :: u64) < u64_limit"
  using unsigned_less [of w] by simp

lemma unat_u32_bound [simp]: "unat (w :: u32) < 4294967296"
  using unsigned_less [of w] by simp

lemma unat_u8_bound [simp]: "unat (w :: u8) < 256"
  using unsigned_less [of w] by simp

lemma unat_of_nat_u64: "n < u64_limit \<Longrightarrow> unat (of_nat n :: u64) = n"
  by (simp add: unat_of_nat take_bit_nat_eq_self)

lemma u64_eq_iff_unat: "(a :: u64) = b \<longleftrightarrow> unat a = unat b"
  by (simp add: word_unat_eq_iff)

text \<open>\<^verbatim>\<open>u64::checked_add\<close>, \<^verbatim>\<open>checked_mul\<close>, \<^verbatim>\<open>checked_sub\<close>,
  \<^verbatim>\<open>saturating_mul\<close> of the standard library.\<close>

definition checked_add64 :: "u64 \<Rightarrow> u64 \<Rightarrow> u64 option" where
  "checked_add64 a b = (if unat a + unat b < u64_limit then Some (a + b) else None)"

definition checked_mul64 :: "u64 \<Rightarrow> u64 \<Rightarrow> u64 option" where
  "checked_mul64 a b = (if unat a * unat b < u64_limit then Some (a * b) else None)"

definition checked_sub64 :: "u64 \<Rightarrow> u64 \<Rightarrow> u64 option" where
  "checked_sub64 a b = (if unat b \<le> unat a then Some (a - b) else None)"

definition saturating_mul64 :: "u64 \<Rightarrow> u64 \<Rightarrow> u64" where
  "saturating_mul64 a b = (if unat a * unat b < u64_limit then a * b else - 1)"

lemma unat_plus_u64: "unat a + unat b < u64_limit \<Longrightarrow> unat (a + b :: u64) = unat a + unat b"
  by (subst unat_plus_if') simp

lemma unat_mult_u64: "unat a * unat b < u64_limit \<Longrightarrow> unat (a * b :: u64) = unat a * unat b"
  by (simp add: unat_word_ariths)

lemma checked_add64_Some:
  "checked_add64 a b = Some c \<longleftrightarrow> unat a + unat b < u64_limit \<and> c = a + b"
  by (auto simp: checked_add64_def)

lemma checked_mul64_Some:
  "checked_mul64 a b = Some c \<longleftrightarrow> unat a * unat b < u64_limit \<and> c = a * b"
  by (auto simp: checked_mul64_def)

lemma checked_sub64_Some:
  "checked_sub64 a b = Some c \<longleftrightarrow> unat b \<le> unat a \<and> c = a - b"
  by (auto simp: checked_sub64_def)

section \<open>Errors\<close>

text \<open>\<^verbatim>\<open>std::io::ErrorKind\<close>, the kinds the crate constructs, and
  \<^verbatim>\<open>OtherKind\<close> for the ones an underlying call reports.\<close>

datatype error_kind = InvalidData | WouldBlock | InvalidInput | NotFound | OtherKind

datatype io_error = IoError error_kind string

type_synonym 'a res = "io_error + 'a"

text \<open>\<^verbatim>\<open>?\<close> on a pure result, and on a call that threads the store: an error
  returns at once, keeping the store the failed call left.\<close>

definition try_r :: "'e + 'a \<Rightarrow> ('a \<Rightarrow> 'e + 'b) \<Rightarrow> 'e + 'b" where
  "try_r m f = (case m of Inl e \<Rightarrow> Inl e | Inr x \<Rightarrow> f x)"

definition try_s :: "'a res \<times> 's \<Rightarrow> ('a \<Rightarrow> 's \<Rightarrow> 'b res \<times> 's) \<Rightarrow> 'b res \<times> 's" where
  "try_s m f = (case m of (Inl e, s) \<Rightarrow> (Inl e, s) | (Inr x, s) \<Rightarrow> f x s)"

text \<open>\<^verbatim>\<open>?\<close> on a pure result inside a call that threads the store.\<close>

definition try_in :: "'a res \<Rightarrow> 's \<Rightarrow> ('a \<Rightarrow> 'b res \<times> 's) \<Rightarrow> 'b res \<times> 's" where
  "try_in m s f = (case m of Inl e \<Rightarrow> (Inl e, s) | Inr x \<Rightarrow> f x)"

text \<open>\<^verbatim>\<open>Option::ok_or_else\<close>.\<close>

definition ok_or :: "'e \<Rightarrow> 'a option \<Rightarrow> 'e + 'a" where
  "ok_or e v = (case v of None \<Rightarrow> Inl e | Some x \<Rightarrow> Inr x)"

lemma try_r_simps [simp, seq_simps]:
  "try_r (Inl e) f = Inl e"
  "try_r (Inr x) f = f x"
  by (simp_all add: try_r_def)

lemma try_s_simps [simp, seq_simps]:
  "try_s (Inl e, s) f = (Inl e, s)"
  "try_s (Inr x, s) f = f x s"
  by (simp_all add: try_s_def)

lemma try_in_simps [simp, seq_simps]:
  "try_in (Inl e) s f = (Inl e, s)"
  "try_in (Inr x) s f = f x"
  by (simp_all add: try_in_def)

lemma ok_or_simps [simp, seq_simps]:
  "ok_or e None = Inl e"
  "ok_or e (Some x) = Inr x"
  by (simp_all add: ok_or_def)

lemma try_r_cong [fundef_cong]:
  "m = m' \<Longrightarrow> (\<And>x. m' = Inr x \<Longrightarrow> f x = g x) \<Longrightarrow> try_r m f = try_r m' g"
  by (cases m') auto

lemma try_r_Inr: "try_r m f = Inr y \<longleftrightarrow> (\<exists>x. m = Inr x \<and> f x = Inr y)"
  by (auto simp: try_r_def split: sum.splits)

lemma ok_or_Inr: "ok_or e v = Inr x \<longleftrightarrow> v = Some x"
  by (cases v) auto

lemma try_s_Inr:
  "try_s m f = (Inr y, s') \<longleftrightarrow> (\<exists>x s1. m = (Inr x, s1) \<and> f x s1 = (Inr y, s'))"
  by (auto simp: try_s_def split: sum.splits prod.splits)

lemma try_in_Inr:
  "try_in m s f = (Inr y, s') \<longleftrightarrow> (\<exists>x. m = Inr x \<and> f x = (Inr y, s'))"
  by (auto simp: try_in_def split: sum.splits)

lemma try_s_cases:
  assumes "try_s m f = (r, s')"
  obtains (Err) e where "m = (Inl e, s')" and "r = Inl e"
  | (Ok) x s1 where "m = (Inr x, s1)" and "f x s1 = (r, s')"
  using assms by (auto simp: try_s_def split: sum.splits prod.splits)

lemma try_in_cases:
  assumes "try_in m s f = (r, s')"
  obtains (Err) e where "m = Inl e" and "r = Inl e" and "s' = s"
  | (Ok) x where "m = Inr x" and "f x = (r, s')"
  using assms by (auto simp: try_in_def split: sum.splits)

section \<open>The little-endian codec\<close>

text \<open>\<open>le_enc n v\<close> is the low \<open>n\<close> bytes of \<open>v\<close>, least significant first;
  \<open>le_dec\<close> reads such a run back.\<close>

fun le_enc :: "nat \<Rightarrow> nat \<Rightarrow> u8 list" where
  "le_enc 0 v = []"
| "le_enc (Suc n) v = of_nat (v mod 256) # le_enc n (v div 256)"

fun le_dec :: "u8 list \<Rightarrow> nat" where
  "le_dec [] = 0"
| "le_dec (b # bs) = unat b + 256 * le_dec bs"

lemma length_le_enc [simp, codec]: "length (le_enc n v) = n"
  by (induction n arbitrary: v) auto

lemma le_dec_bound: "le_dec bs < 256 ^ length bs"
proof (induction bs)
  case (Cons b bs)
  have "unat b < 256" by simp
  with Cons have "unat b + 256 * le_dec bs < 256 + 256 * (256 ^ length bs - 1)"
    by (intro add_less_le_mono mult_le_mono2) auto
  also have "\<dots> = 256 ^ length (b # bs)"
    by (simp add: algebra_simps)
  finally show ?case by simp
qed simp

lemma unat_of_nat_byte: "unat (of_nat (v mod 256) :: u8) = v mod 256"
  by (simp add: unat_of_nat)

lemma le_dec_enc [codec]: "le_dec (le_enc n v) = v mod 256 ^ n"
proof (induction n arbitrary: v)
  case (Suc n)
  have "v mod 256 + 256 * (v div 256 mod 256 ^ n) = v mod (256 * 256 ^ n)"
    by (simp add: mod_mult2_eq)
  then show ?case
    by (simp add: Suc unat_of_nat_byte del: of_nat_mod)
qed simp

lemma le_enc_dec [codec]: "le_enc (length bs) (le_dec bs) = bs"
proof (induction bs)
  case (Cons b bs)
  have b: "unat b < 256" by simp
  have "(unat b + 256 * le_dec bs) div 256 = le_dec bs"
    using b by simp
  moreover have "(of_nat ((unat b + 256 * le_dec bs) mod 256) :: u8) = b"
    using b by (simp del: of_nat_mod)
  ultimately show ?case
    using Cons by (simp del: of_nat_mod)
qed simp

definition to_le64 :: "u64 \<Rightarrow> u8 list" where
  "to_le64 w = le_enc 8 (unat w)"

definition from_le64 :: "u8 list \<Rightarrow> u64" where
  "from_le64 bs = of_nat (le_dec bs)"

definition to_le32 :: "u32 \<Rightarrow> u8 list" where
  "to_le32 w = le_enc 4 (unat w)"

definition from_le32 :: "u8 list \<Rightarrow> u32" where
  "from_le32 bs = of_nat (le_dec bs)"

definition to_le16 :: "u16 \<Rightarrow> u8 list" where
  "to_le16 w = le_enc 2 (unat w)"

definition from_le16 :: "u8 list \<Rightarrow> u16" where
  "from_le16 bs = of_nat (le_dec bs)"

lemma length_to_le [simp, codec]:
  "length (to_le64 a) = 8" "length (to_le32 b) = 4" "length (to_le16 c) = 2"
  by (simp_all add: to_le64_def to_le32_def to_le16_def)

lemma from_to_le64 [simp, codec]: "from_le64 (to_le64 w) = w"
  by (simp add: from_le64_def to_le64_def le_dec_enc)

lemma from_to_le32 [simp, codec]: "from_le32 (to_le32 w) = w"
  by (simp add: from_le32_def to_le32_def le_dec_enc)

lemma from_to_le16 [simp, codec]: "from_le16 (to_le16 w) = w"
proof -
  have "unat w < 65536" using unsigned_less [of w] by simp
  then show ?thesis by (simp add: from_le16_def to_le16_def le_dec_enc)
qed

lemma to_from_le64 [codec]: "length bs = 8 \<Longrightarrow> to_le64 (from_le64 bs) = bs"
proof -
  assume l: "length bs = 8"
  then have "le_dec bs < u64_limit" using le_dec_bound [of bs] by simp
  then have "unat (from_le64 bs) = le_dec bs"
    by (simp add: from_le64_def unat_of_nat_u64)
  then show ?thesis using le_enc_dec [of bs] l by (simp add: to_le64_def)
qed

lemma to_from_le32 [codec]: "length bs = 4 \<Longrightarrow> to_le32 (from_le32 bs) = bs"
proof -
  assume l: "length bs = 4"
  then have "le_dec bs < 4294967296" using le_dec_bound [of bs] by simp
  then have "unat (from_le32 bs) = le_dec bs"
    by (simp add: from_le32_def unat_of_nat take_bit_nat_eq_self)
  then show ?thesis using le_enc_dec [of bs] l by (simp add: to_le32_def)
qed

lemma to_le64_inject [simp, codec]: "to_le64 a = to_le64 b \<longleftrightarrow> a = b"
  using from_to_le64 by metis

section \<open>Slices of a byte sequence\<close>

text \<open>\<^verbatim>\<open>&xs[off..off + n]\<close> and the sequence in which that run is replaced.\<close>

definition slice :: "nat \<Rightarrow> nat \<Rightarrow> 'a list \<Rightarrow> 'a list" where
  "slice off n xs = take n (drop off xs)"

definition overwrite :: "nat \<Rightarrow> 'a list \<Rightarrow> 'a list \<Rightarrow> 'a list" where
  "overwrite off bs xs = take off xs @ bs @ drop (off + length bs) xs"

lemma length_slice [simp, slice_simps]: "off + n \<le> length xs \<Longrightarrow> length (slice off n xs) = n"
  by (simp add: slice_def)

lemma length_overwrite [simp, slice_simps]:
  "off + length bs \<le> length xs \<Longrightarrow> length (overwrite off bs xs) = length xs"
  by (simp add: overwrite_def)

lemma nth_slice: "i < n \<Longrightarrow> off + n \<le> length xs \<Longrightarrow> slice off n xs ! i = xs ! (off + i)"
  by (simp add: slice_def)

lemma nth_overwrite:
  assumes "off + length bs \<le> length xs" and "i < length xs"
  shows "overwrite off bs xs ! i =
    (if off \<le> i \<and> i < off + length bs then bs ! (i - off) else xs ! i)"
  using assms by (auto simp: overwrite_def nth_append min_def)

lemma slice_eqI:
  assumes "off + n \<le> length xs" and "off' + n \<le> length ys"
    and "\<And>i. i < n \<Longrightarrow> xs ! (off + i) = ys ! (off' + i)"
  shows "slice off n xs = slice off' n ys"
  using assms by (intro nth_equalityI) (auto simp: nth_slice)

lemma slice_overwrite_same [slice_simps]:
  "off + length bs \<le> length xs \<Longrightarrow> n = length bs \<Longrightarrow> slice off n (overwrite off bs xs) = bs"
  by (simp add: slice_def overwrite_def)

lemma slice_overwrite_disjoint [slice_simps]:
  assumes "off + length bs \<le> length xs" and "a + n \<le> length xs"
    and "a + n \<le> off \<or> off + length bs \<le> a"
  shows "slice a n (overwrite off bs xs) = slice a n xs"
  using assms by (intro slice_eqI) (auto simp: nth_overwrite)

lemma slice_overwrite_inside:
  assumes "off + length bs \<le> length xs" and "off \<le> a" and "a + n \<le> off + length bs"
  shows "slice a n (overwrite off bs xs) = slice (a - off) n bs"
  using assms by (intro slice_eqI) (auto simp: nth_overwrite)

lemma slice_overwrite_around:
  assumes "off + length bs \<le> length xs" and "a \<le> off" and "off + length bs \<le> a + n"
    and "a + n \<le> length xs"
  shows "slice a n (overwrite off bs xs) = overwrite (off - a) bs (slice a n xs)"
  using assms by (intro nth_equalityI) (auto simp: nth_overwrite nth_slice add.commute [of _ a])

lemma slice_slice [slice_simps]:
  "a + m \<le> n \<Longrightarrow> slice a m (slice off n xs) = slice (off + a) m xs"
  by (simp add: slice_def drop_take min_def add.commute [of a off])

lemma slice_append_split:
  "slice off (m + n) xs = slice off m xs @ slice (off + m) n xs"
  by (simp add: slice_def take_add add.commute [of m off])

lemma slice_0 [simp, slice_simps]: "slice off 0 xs = []"
  by (simp add: slice_def)

lemma slice_full [simp, slice_simps]: "n = length xs \<Longrightarrow> slice 0 n xs = xs"
  by (simp add: slice_def)

lemma slice_append1 [slice_simps]: "a + n \<le> length xs \<Longrightarrow> slice a n (xs @ ys) = slice a n xs"
  by (simp add: slice_def)

lemma slice_append2 [slice_simps]:
  "length xs \<le> a \<Longrightarrow> slice a n (xs @ ys) = slice (a - length xs) n ys"
  by (simp add: slice_def)

lemma slice_mono_eq:
  assumes "slice off n xs = slice off n ys" and "off \<le> a" and "a + m \<le> off + n"
  shows "slice a m xs = slice a m ys"
proof -
  have "slice a m zs = slice (a - off) m (slice off n zs)" for zs :: "'a list"
    using assms(2,3) by (simp add: slice_slice)
  then show ?thesis using assms(1) by metis
qed

section \<open>Evaluation on concrete bytes\<close>

lemma le_enc_numeral [evaluate]:
  "le_enc (numeral k) v = of_nat (v mod 256) # le_enc (pred_numeral k) (v div 256)"
  by (subst numeral_eq_Suc) (rule le_enc.simps(2))

lemma replicate_numeral [evaluate]: "replicate (numeral k) x = x # replicate (pred_numeral k) x"
  by (subst numeral_eq_Suc) (rule replicate_Suc)

lemmas [evaluate] = to_le64_def to_le32_def to_le16_def from_le64_def from_le32_def from_le16_def

end
