(* ===== verification/Hash.thy ===== *)
theory Hash
  imports Prelude
begin

text \<open>
  The FNV-1a digests: \<^verbatim>\<open>src/stdlib/hash.rs\<close> (the bucket hash of the hash
  containers and the double hash of the Bloom filter) and the 8-byte block tag
  \<^verbatim>\<open>EightCC\<close> of \<^verbatim>\<open>src/primitives/eightcc.rs\<close>, whose mixing operations
  fold a digest into the high-bit-set bytes of the tag.
\<close>

section \<open>FNV-1a\<close>

definition FNV_BASIS :: u64 where
  "FNV_BASIS = 0xcbf29ce484222325"

definition FNV_PRIME :: u64 where
  "FNV_PRIME = 0x00000100000001b3"

definition fnv_step :: "u64 \<Rightarrow> u8 \<Rightarrow> u64" where
  "fnv_step h b = (h XOR ucast b) * FNV_PRIME"

definition fnv1a :: "u8 list \<Rightarrow> u64" where
  "fnv1a bytes = foldl fnv_step FNV_BASIS bytes"

definition double_hash :: "u8 list \<Rightarrow> u64 \<times> u64" where
  "double_hash bytes =
     (let h1 = fnv1a bytes; h2 = fnv1a (to_le64 h1) OR 1 in (h1, h2))"

lemma fnv1a_append: "fnv1a (xs @ ys) = foldl fnv_step (fnv1a xs) ys"
  by (simp add: fnv1a_def)

lemma double_hash_odd: "odd (unat (snd (double_hash bytes)))"
proof -
  have "bit (snd (double_hash bytes)) 0"
    by (simp add: double_hash_def Let_def bit_or_iff bit_1_iff)
  then have "bit (unat (snd (double_hash bytes))) 0"
    by (simp add: bit_unsigned_iff)
  then show ?thesis
    by (simp only: bit_0 simp_thms)
qed

section \<open>Block tags\<close>

text \<open>The wrapped \<^verbatim>\<open>[u8; 8]\<close>; \<open>wf_eightcc\<close> is the array length.\<close>

datatype eightcc = EightCC (cc_bytes: "u8 list")

definition wf_eightcc :: "eightcc \<Rightarrow> bool" where
  "wf_eightcc t \<longleftrightarrow> length (cc_bytes t) = 8"

definition eightcc_from_name :: "u8 list \<Rightarrow> eightcc" where
  "eightcc_from_name name =
     EightCC (map (\<lambda>i. if i < length name then name ! i else 0) [0..<8])"

text \<open>The perturbation loop \<^verbatim>\<open>mix\<close> and \<^verbatim>\<open>mix_str\<close> share: a byte with its
  high bit set takes the digest's byte and keeps that bit, any other byte is left alone.\<close>

definition mix_byte :: "u8 \<Rightarrow> u8 \<Rightarrow> u8" where
  "mix_byte out d = (if out AND 0x80 \<noteq> 0 then (out XOR d) OR 0x80 else out)"

definition eightcc_mix :: "eightcc \<Rightarrow> eightcc \<Rightarrow> eightcc" where
  "eightcc_mix self other =
     (let d = foldl fnv_step FNV_BASIS (cc_bytes self);
          d' = foldl fnv_step d (cc_bytes other);
          db = to_le64 d'
      in EightCC (map2 mix_byte (cc_bytes self) db))"

definition eightcc_mix_str :: "eightcc \<Rightarrow> u8 list \<Rightarrow> eightcc" where
  "eightcc_mix_str self s =
     (let d = foldl fnv_step FNV_BASIS (cc_bytes self);
          d' = foldl fnv_step d s;
          db = to_le64 d'
      in EightCC (map2 mix_byte (cc_bytes self) db))"

definition eightcc_with_ctrl_bit :: "eightcc \<Rightarrow> eightcc" where
  "eightcc_with_ctrl_bit self =
     (let out = cc_bytes self in EightCC (out[7 := (out ! 7) XOR 0x40]))"

lemma wf_eightcc_ops:
  "wf_eightcc (eightcc_from_name name)"
  "wf_eightcc t \<Longrightarrow> wf_eightcc (eightcc_mix t u)"
  "wf_eightcc t \<Longrightarrow> wf_eightcc (eightcc_mix_str t s)"
  "wf_eightcc t \<Longrightarrow> wf_eightcc (eightcc_with_ctrl_bit t)"
  by (simp_all add: wf_eightcc_def eightcc_from_name_def eightcc_mix_def eightcc_mix_str_def
      eightcc_with_ctrl_bit_def Let_def)

text \<open>\<^verbatim>\<open>mix\<close> with another tag is \<^verbatim>\<open>mix_str\<close> with that tag's bytes.\<close>

lemma eightcc_mix_conv: "eightcc_mix t u = eightcc_mix_str t (cc_bytes u)"
  by (simp add: eightcc_mix_def eightcc_mix_str_def)

lemma bit_0x80: "bit (0x80 :: u8) n \<longleftrightarrow> n = 7"
proof -
  have "(0x80 :: u8) = push_bit 7 1" by simp
  then have "bit (0x80 :: u8) n \<longleftrightarrow> bit (push_bit 7 (1 :: u8)) n" by (rule arg_cong)
  then show ?thesis by (simp only: bit_push_bit_iff) (auto simp: bit_1_iff)
qed

lemma high_bit_iff: "b AND 0x80 \<noteq> (0 :: u8) \<longleftrightarrow> bit b 7" for b :: u8
proof
  assume "bit b 7"
  then have "bit (b AND 0x80) 7" by (simp only: bit_and_iff bit_0x80)
  then show "b AND 0x80 \<noteq> 0" by (metis bit_0_eq bot_apply bot_bool_def)
next
  assume "b AND 0x80 \<noteq> 0"
  then have "\<exists>n. bit (b AND 0x80) n \<noteq> bit (0 :: u8) n" by (meson bit_eqI)
  then obtain n where "bit (b AND 0x80) n" by (auto simp only: bit_0_eq bot_apply bot_bool_def)
  then show "bit b 7" by (auto simp only: bit_and_iff bit_0x80)
qed

lemma mix_byte_low: "\<not> bit b 7 \<Longrightarrow> mix_byte b d = b"
  by (simp only: mix_byte_def high_bit_iff if_False)

lemma bit_mix_byte:
  "bit (mix_byte b d) n \<longleftrightarrow> (if bit b 7 \<and> n < 8 then n = 7 \<or> bit b n \<noteq> bit d n else bit b n)"
proof -
  have "bit (d :: u8) n \<Longrightarrow> n < 8" "bit (b :: u8) n \<Longrightarrow> n < 8" for d b
    using bit_imp_le_length [of _ n, where ?'a = 8] by auto
  then show ?thesis
    by (auto simp only: mix_byte_def high_bit_iff bit_or_iff bit_xor_iff bit_0x80 split: if_splits)
qed

lemma nth_eightcc_mix_str:
  assumes "wf_eightcc t" and "i < 8"
  shows "cc_bytes (eightcc_mix_str t s) ! i
    = mix_byte (cc_bytes t ! i) (to_le64 (fnv1a (cc_bytes t @ s)) ! i)"
  using assms by (simp add: eightcc_mix_str_def wf_eightcc_def fnv1a_def Let_def)

section \<open>Properties\<close>

text \<open>Mixing a tag (with a type argument's tag or with a module path) perturbs only its
  non-readable bytes: a byte without the high bit, the readable prefix, is left alone, and the set
  of bytes with the high bit does not change.\<close>

lemma eightcc_mix_readable:
  assumes "wf_eightcc t" and "i < 8"
  shows "bit (cc_bytes (eightcc_mix t u) ! i) 7 = bit (cc_bytes t ! i) 7
     \<and> (\<not> bit (cc_bytes t ! i) 7 \<longrightarrow> cc_bytes (eightcc_mix t u) ! i = cc_bytes t ! i)"
  using assms
  by (auto simp: eightcc_mix_conv nth_eightcc_mix_str bit_mix_byte intro: mix_byte_low)

text \<open>A control block's tag always differs from the tag of its data block.\<close>

lemma ctrl_tag_differs: "wf_eightcc t \<Longrightarrow> eightcc_with_ctrl_bit t \<noteq> t"
proof
  assume wf: "wf_eightcc t" and e: "eightcc_with_ctrl_bit t = t"
  let ?x = "cc_bytes t ! 7"
  have "cc_bytes (eightcc_with_ctrl_bit t) ! 7 = ?x XOR 0x40"
    using wf by (simp add: eightcc_with_ctrl_bit_def wf_eightcc_def Let_def)
  with e have "?x XOR 0x40 = ?x" by simp
  then have "?x XOR (?x XOR 0x40) = ?x XOR ?x" by simp
  then show False by (simp flip: xor.assoc)
qed

end
