(* ===== verification/Cursor.thy ===== *)
theory Cursor
  imports Hash "HOL-Library.Sublist"
begin

text \<open>
  The byte cursors of \<^verbatim>\<open>src/util/reader.rs\<close> and \<^verbatim>\<open>src/util/writer.rs\<close>:
  an append-only little-endian \<^verbatim>\<open>Writer\<close> and its bounds-checked mirror
  \<^verbatim>\<open>Reader\<close>. A writer is the bytes written so far. \<open>None\<close> is the reader's
  own underrun report. The locale \<open>wire_format\<close> is the interface the schema codec
  relies on: an item that is written by one function and read back by another at the same
  position; the round trip of a sequence of items is proved once inside it.
\<close>

section \<open>Writer\<close>

type_synonym writer = "u8 list"

definition writer_u8 :: "u8 \<Rightarrow> writer \<Rightarrow> writer" where
  "writer_u8 v buf = buf @ [v]"

definition writer_u16 :: "u16 \<Rightarrow> writer \<Rightarrow> writer" where
  "writer_u16 v buf = buf @ to_le16 v"

definition writer_u32 :: "u32 \<Rightarrow> writer \<Rightarrow> writer" where
  "writer_u32 v buf = buf @ to_le32 v"

definition writer_u64 :: "u64 \<Rightarrow> writer \<Rightarrow> writer" where
  "writer_u64 v buf = buf @ to_le64 v"

text \<open>An \<^verbatim>\<open>i64\<close> is its two's-complement word.\<close>

definition writer_i64 :: "u64 \<Rightarrow> writer \<Rightarrow> writer" where
  "writer_i64 v buf = buf @ to_le64 v"

definition writer_eightcc :: "eightcc \<Rightarrow> writer \<Rightarrow> writer" where
  "writer_eightcc v buf = buf @ cc_bytes v"

definition writer_bytes :: "u8 list \<Rightarrow> writer \<Rightarrow> writer" where
  "writer_bytes b buf = buf @ b"

text \<open>\<^verbatim>\<open>(len + mask) & !mask\<close> with \<^verbatim>\<open>mask = a - 1\<close>, then
  \<^verbatim>\<open>Vec::resize\<close> with zeros. A \<^verbatim>\<open>usize\<close> length is at most
  \<^verbatim>\<open>isize::MAX\<close>, so the sum does not wrap and is taken over the integers.\<close>

definition round_up :: "nat \<Rightarrow> nat \<Rightarrow> nat" where
  "round_up a len = (let msk = int a - 1 in nat ((int len + msk) AND NOT msk))"

definition vec_resize :: "nat \<Rightarrow> 'a \<Rightarrow> 'a list \<Rightarrow> 'a list" where
  "vec_resize n x xs = take n xs @ replicate (n - length xs) x"

definition writer_align :: "nat \<Rightarrow> writer \<Rightarrow> writer" where
  "writer_align a buf = vec_resize (round_up a (length buf)) 0 buf"

section \<open>Reader\<close>

record reader =
  rd_buf :: "u8 list"
  rd_pos :: nat

definition reader_new :: "u8 list \<Rightarrow> reader" where
  "reader_new buf = \<lparr>rd_buf = buf, rd_pos = 0\<rparr>"

definition reader_take :: "nat \<Rightarrow> reader \<Rightarrow> (u8 list \<times> reader) option" where
  "reader_take n r =
     (let e = rd_pos r + n
      in if e < u64_limit \<and> e \<le> length (rd_buf r)
         then Some (slice (rd_pos r) n (rd_buf r), r\<lparr>rd_pos := e\<rparr>)
         else None)"

definition reader_u8 :: "reader \<Rightarrow> (u8 \<times> reader) option" where
  "reader_u8 r = map_option (\<lambda>(b, r'). (b ! 0, r')) (reader_take 1 r)"

definition reader_u16 :: "reader \<Rightarrow> (u16 \<times> reader) option" where
  "reader_u16 r = map_option (\<lambda>(b, r'). (from_le16 b, r')) (reader_take 2 r)"

definition reader_u32 :: "reader \<Rightarrow> (u32 \<times> reader) option" where
  "reader_u32 r = map_option (\<lambda>(b, r'). (from_le32 b, r')) (reader_take 4 r)"

definition reader_u64 :: "reader \<Rightarrow> (u64 \<times> reader) option" where
  "reader_u64 r = map_option (\<lambda>(b, r'). (from_le64 b, r')) (reader_take 8 r)"

definition reader_i64 :: "reader \<Rightarrow> (u64 \<times> reader) option" where
  "reader_i64 r = map_option (\<lambda>(b, r'). (from_le64 b, r')) (reader_take 8 r)"

definition reader_eightcc :: "reader \<Rightarrow> (eightcc \<times> reader) option" where
  "reader_eightcc r = map_option (\<lambda>(b, r'). (EightCC b, r')) (reader_take 8 r)"

text \<open>\<^verbatim>\<open>skip_pad\<close> reports \<^verbatim>\<open>false\<close> (\<open>None\<close> here) and leaves the
  cursor alone when rounding up overflows or passes the end.\<close>

definition reader_skip_pad :: "nat \<Rightarrow> reader \<Rightarrow> reader option" where
  "reader_skip_pad a r =
     (if rd_pos r + (a - 1) < u64_limit \<and> round_up a (rd_pos r) \<le> length (rd_buf r)
      then Some (r\<lparr>rd_pos := round_up a (rd_pos r)\<rparr>) else None)"

subsection \<open>Rounding to a power of two\<close>

lemma and_not_mask_int: "(i :: int) AND NOT (2 ^ k - 1) = push_bit k (drop_bit k i)"
  by (rule bit_eqI) (auto simp: bit_simps simp flip: mask_eq_exp_minus_1)

lemma round_up_pow2: "round_up (2 ^ k) len = (len + (2 ^ k - 1)) div 2 ^ k * 2 ^ k"
proof -
  have "int (2 ^ k - 1) = 2 ^ k - 1"
    by (simp add: of_nat_diff)
  then have i: "int len + (2 ^ k - 1) = int (len + (2 ^ k - 1))"
    by (simp only: of_nat_add)
  have "round_up (2 ^ k) len = nat (push_bit k (drop_bit k (int (len + (2 ^ k - 1)))))"
    unfolding round_up_def Let_def of_nat_power of_nat_numeral and_not_mask_int i ..
  also have "\<dots> = push_bit k (drop_bit k (len + (2 ^ k - 1)))"
    by (metis drop_bit_of_nat nat_int push_bit_of_nat)
  finally show ?thesis by (simp add: push_bit_eq_mult drop_bit_eq_div)
qed

lemma round_up_ge: "len \<le> round_up (2 ^ k) len"
proof -
  let ?m = "len + (2 ^ k - 1)"
  have "?m mod 2 ^ k \<le> 2 ^ k - 1"
    using mod_less_divisor [of "2 ^ k" ?m] by (simp add: less_eq_Suc_le)
  moreover have "?m div 2 ^ k * 2 ^ k + ?m mod 2 ^ k = ?m" by (rule div_mult_mod_eq)
  ultimately have "len \<le> ?m div 2 ^ k * 2 ^ k" by linarith
  then show ?thesis by (simp only: round_up_pow2)
qed

lemma round_up_le: "round_up (2 ^ k) len \<le> len + (2 ^ k - 1)"
  by (simp only: round_up_pow2) simp

lemma round_up_dvd: "2 ^ k dvd round_up (2 ^ k) len"
  by (simp only: round_up_pow2) simp

lemma round_up_id: "2 ^ k dvd len \<Longrightarrow> round_up (2 ^ k) len = len"
proof -
  assume "2 ^ k dvd len"
  then obtain q where q: "len = q * 2 ^ k" by (metis dvd_def mult.commute)
  have "1 \<le> (2 :: nat) ^ k" by simp
  then have "(q * 2 ^ k + (2 ^ k - 1)) div 2 ^ k = q"
    by (intro div_nat_eqI) (auto simp only: mult.commute mult_Suc_right mult_Suc)
  then show ?thesis by (simp only: round_up_pow2 q)
qed

lemma writer_align_pad:
  "writer_align (2 ^ k) buf
     = buf @ replicate (round_up (2 ^ k) (length buf) - length buf) 0"
  using round_up_ge [of "length buf" k] by (simp add: writer_align_def vec_resize_def)

lemma length_writer_align: "length (writer_align (2 ^ k) buf) = round_up (2 ^ k) (length buf)"
  using round_up_ge [of "length buf" k] by (simp add: writer_align_pad)

section \<open>Reading back what was written\<close>

text \<open>\<open>at buf i\<close> is a reader over \<open>buf\<close> standing at \<open>i\<close>. A Rust allocation never
  exceeds \<^verbatim>\<open>isize::MAX\<close> bytes, which \<open>fits\<close> states.\<close>

abbreviation at :: "u8 list \<Rightarrow> nat \<Rightarrow> reader" where
  "at buf i \<equiv> \<lparr>rd_buf = buf, rd_pos = i\<rparr>"

definition fits :: "u8 list \<Rightarrow> bool" where
  "fits buf \<longleftrightarrow> length buf < 2 ^ 63"

text \<open>Reading at the position a writer stood at, over any buffer that extends what the
  writer then wrote, yields the written value and moves to where the writer ended. The
  facts are stated on \<open>prefix\<close>, so that a whole record is read back by chaining
  them along the writer's own states.\<close>

lemma prefix_slice: "prefix (w @ ws) B \<Longrightarrow> slice (length w) (length ws) B = ws"
  by (auto simp: prefix_def slice_def)

lemma reader_take_put:
  assumes "prefix (writer_bytes ws w) B" and "fits B" and "n = length ws"
  shows "reader_take n (at B (length w)) = Some (ws, at B (length (writer_bytes ws w)))"
  using assms prefix_length_le [OF assms(1)] prefix_slice [of w ws B]
  by (auto simp: reader_take_def writer_bytes_def fits_def Let_def)

lemmas writer_defs = writer_u8_def writer_u16_def writer_u32_def writer_u64_def writer_i64_def
  writer_eightcc_def writer_bytes_def

lemma reader_u8_put:
  "prefix (writer_u8 v w) B \<Longrightarrow> fits B \<Longrightarrow>
    reader_u8 (at B (length w)) = Some (v, at B (length (writer_u8 v w)))"
  using reader_take_put [of "[v]" w B 1] by (simp add: reader_u8_def writer_defs)

lemma reader_u16_put:
  "prefix (writer_u16 v w) B \<Longrightarrow> fits B \<Longrightarrow>
    reader_u16 (at B (length w)) = Some (v, at B (length (writer_u16 v w)))"
  using reader_take_put [of "to_le16 v" w B 2] by (simp add: reader_u16_def writer_defs)

lemma reader_u32_put:
  "prefix (writer_u32 v w) B \<Longrightarrow> fits B \<Longrightarrow>
    reader_u32 (at B (length w)) = Some (v, at B (length (writer_u32 v w)))"
  using reader_take_put [of "to_le32 v" w B 4] by (simp add: reader_u32_def writer_defs)

lemma reader_u64_put:
  "prefix (writer_u64 v w) B \<Longrightarrow> fits B \<Longrightarrow>
    reader_u64 (at B (length w)) = Some (v, at B (length (writer_u64 v w)))"
  using reader_take_put [of "to_le64 v" w B 8] by (simp add: reader_u64_def writer_defs)

lemma reader_i64_put:
  "prefix (writer_i64 v w) B \<Longrightarrow> fits B \<Longrightarrow>
    reader_i64 (at B (length w)) = Some (v, at B (length (writer_i64 v w)))"
  using reader_take_put [of "to_le64 v" w B 8] by (simp add: reader_i64_def writer_defs)

lemma reader_eightcc_put:
  "prefix (writer_eightcc v w) B \<Longrightarrow> fits B \<Longrightarrow> wf_eightcc v \<Longrightarrow>
    reader_eightcc (at B (length w)) = Some (v, at B (length (writer_eightcc v w)))"
  using reader_take_put [of "cc_bytes v" w B 8]
  by (simp add: reader_eightcc_def writer_defs wf_eightcc_def)

lemma reader_skip_pad_put:
  assumes "prefix (writer_align (2 ^ k) w) B" and "fits B" and "k < 32"
  shows "reader_skip_pad (2 ^ k) (at B (length w)) = Some (at B (length (writer_align (2 ^ k) w)))"
proof -
  have le: "round_up (2 ^ k) (length w) \<le> length B"
    using prefix_length_le [OF assms(1)] by (simp add: length_writer_align)
  have "(2 :: nat) ^ k \<le> 2 ^ 32"
    using assms(3) by (intro power_increasing) auto
  moreover have "length w < 2 ^ 63"
    using assms(2) le round_up_ge [of "length w" k] by (simp add: fits_def)
  ultimately have "length w + (2 ^ k - 1) < u64_limit" by simp
  then show ?thesis using le by (simp add: reader_skip_pad_def length_writer_align)
qed

lemmas reader_put = reader_u8_put reader_u16_put reader_u32_put reader_u64_put reader_i64_put
  reader_eightcc_put reader_take_put reader_skip_pad_put

lemma prefix_writer [intro]:
  "prefix w (writer_u8 v1 w)" "prefix w (writer_u16 v2 w)" "prefix w (writer_u32 v3 w)"
  "prefix w (writer_u64 v4 w)" "prefix w (writer_i64 v5 w)" "prefix w (writer_eightcc v6 w)"
  "prefix w (writer_bytes v7 w)" "prefix w (writer_align (2 ^ k) w)"
  by (simp_all add: writer_defs writer_align_pad)

lemma prefix_fwd:
  "prefix x w \<Longrightarrow> prefix x (writer_u8 v1 w)" "prefix x w \<Longrightarrow> prefix x (writer_u16 v2 w)"
  "prefix x w \<Longrightarrow> prefix x (writer_u32 v3 w)" "prefix x w \<Longrightarrow> prefix x (writer_u64 v4 w)"
  "prefix x w \<Longrightarrow> prefix x (writer_i64 v5 w)" "prefix x w \<Longrightarrow> prefix x (writer_eightcc v6 w)"
  "prefix x w \<Longrightarrow> prefix x (writer_bytes v7 w)" "prefix x w \<Longrightarrow> prefix x (writer_align (2 ^ k) w)"
  by (blast intro: prefix_order.trans)+

lemma prefix_writer_trans:
  "prefix (writer_u8 v1 w) B \<Longrightarrow> prefix w B" "prefix (writer_u16 v2 w) B \<Longrightarrow> prefix w B"
  "prefix (writer_u32 v3 w) B \<Longrightarrow> prefix w B" "prefix (writer_u64 v4 w) B \<Longrightarrow> prefix w B"
  "prefix (writer_i64 v5 w) B \<Longrightarrow> prefix w B" "prefix (writer_eightcc v6 w) B \<Longrightarrow> prefix w B"
  "prefix (writer_bytes v7 w) B \<Longrightarrow> prefix w B" "prefix (writer_align (2 ^ k) w) B \<Longrightarrow> prefix w B"
  by (blast intro: prefix_order.trans)+

section \<open>Sequences of items\<close>

text \<open>\<^verbatim>\<open>for it in items { it.encode(w)? }\<close> and
  \<^verbatim>\<open>(0..k).map(|_| decode(r)).collect::<Result<..>>()\<close>: both stop at the first
  error.\<close>

fun put_all :: "('a \<Rightarrow> writer \<Rightarrow> 'e + writer) \<Rightarrow> 'a list \<Rightarrow> writer \<Rightarrow> 'e + writer" where
  "put_all put [] w = Inr w"
| "put_all put (v # vs) w = try_r (put v w) (\<lambda>w'. put_all put vs w')"

fun get_n :: "(reader \<Rightarrow> 'e + ('a \<times> reader)) \<Rightarrow> nat \<Rightarrow> reader \<Rightarrow> 'e + ('a list \<times> reader)" where
  "get_n get 0 r = Inr ([], r)"
| "get_n get (Suc k) r =
     try_r (get r) (\<lambda>(v, r'). try_r (get_n get k r') (\<lambda>(vs, r''). Inr (v # vs, r'')))"

lemma put_all_cong [fundef_cong]:
  "vs = vs' \<Longrightarrow> w = w' \<Longrightarrow> (\<And>v w. v \<in> set vs' \<Longrightarrow> put v w = put' v w) \<Longrightarrow> put_all put vs w = put_all put' vs' w'"
proof (induction vs arbitrary: vs' w w')
  case (Cons v vs)
  then have "put_all put vs x = put_all put' vs x" for x by auto
  then show ?case using Cons.prems by (auto intro!: try_r_cong)
qed auto

lemma get_n_cong [fundef_cong]:
  "k = k' \<Longrightarrow> r = r' \<Longrightarrow> (\<And>r. get r = get' r) \<Longrightarrow> get_n get k r = get_n get' k' r'"
proof -
  assume "k = k'" "r = r'" "\<And>r. get r = get' r"
  then show ?thesis by (metis ext)
qed

text \<open>What the round trip of a sequence needs of its items.\<close>

definition extends :: "('a \<Rightarrow> writer \<Rightarrow> 'e + writer) \<Rightarrow> 'a \<Rightarrow> bool" where
  "extends put v \<longleftrightarrow> (\<forall>w w'. put v w = Inr w' \<longrightarrow> prefix w w')"

definition reads_back ::
    "('a \<Rightarrow> writer \<Rightarrow> 'e + writer) \<Rightarrow> (reader \<Rightarrow> 'e + ('a \<times> reader)) \<Rightarrow> 'a \<Rightarrow> bool" where
  "reads_back put get v \<longleftrightarrow> (\<forall>w w' B. put v w = Inr w' \<longrightarrow> prefix w' B \<longrightarrow> fits B \<longrightarrow>
     get (at B (length w)) = Inr (v, at B (length w')))"

lemma extendsD: "extends put v \<Longrightarrow> put v w = Inr w' \<Longrightarrow> prefix w w'"
  by (auto simp: extends_def)

lemma reads_backD:
  "reads_back put get v \<Longrightarrow> put v w = Inr w' \<Longrightarrow> prefix w' B \<Longrightarrow> fits B \<Longrightarrow>
    get (at B (length w)) = Inr (v, at B (length w'))"
  by (auto simp: reads_back_def)

lemma reads_backI:
  "(\<And>w w' B. put v w = Inr w' \<Longrightarrow> prefix w' B \<Longrightarrow> fits B \<Longrightarrow>
      get (at B (length w)) = Inr (v, at B (length w'))) \<Longrightarrow> reads_back put get v"
  by (simp add: reads_back_def)

lemma put_all_extends:
  "\<forall>v \<in> set vs. extends put v \<Longrightarrow> put_all put vs w = Inr w' \<Longrightarrow> prefix w w'"
proof (induction vs arbitrary: w)
  case (Cons v vs)
  then obtain w1 where "put v w = Inr w1" "put_all put vs w1 = Inr w'"
    by (auto simp: try_r_Inr)
  then show ?case
    using Cons extendsD [of put v w w1] by (auto intro: prefix_order.trans)
qed auto

lemma get_n_put_all:
  assumes "\<forall>v \<in> set vs. extends put v" and "\<forall>v \<in> set vs. reads_back put get v"
    and "put_all put vs w = Inr w'" and "prefix w' B" and "fits B"
  shows "get_n get (length vs) (at B (length w)) = Inr (vs, at B (length w'))"
  using assms
proof (induction vs arbitrary: w)
  case (Cons v vs)
  then obtain w1 where p: "put v w = Inr w1" "put_all put vs w1 = Inr w'"
    by (auto simp: try_r_Inr)
  have "prefix w1 B"
    using put_all_extends [OF _ p(2)] Cons.prems(1,4) by (auto intro: prefix_order.trans)
  then have "get (at B (length w)) = Inr (v, at B (length w1))"
    using Cons.prems(2,5) p(1) by (intro reads_backD [where put = put]) auto
  then show ?case
    using Cons.IH [OF _ _ p(2)] Cons.prems by simp
qed simp

text \<open>The interface of a wire format: an encoder that only appends, and a decoder that
  reads every valid item back from where it was written. Sequences of items inherit both.\<close>

locale wire_format =
  fixes put :: "'a \<Rightarrow> writer \<Rightarrow> 'e + writer"
    and get :: "reader \<Rightarrow> 'e + ('a \<times> reader)"
    and valid :: "'a \<Rightarrow> bool"
  assumes put_extends: "extends put v"
    and put_get: "valid v \<Longrightarrow> reads_back put get v"
begin

lemma seq_extends: "extends (put_all put) vs"
  using put_all_extends [of vs put] put_extends by (auto simp: extends_def)

lemma seq_reads_back:
  "list_all valid vs \<Longrightarrow> length vs = n \<Longrightarrow> reads_back (put_all put) (get_n get n) vs"
  using get_n_put_all [of vs put get] put_extends put_get
  by (auto simp: reads_back_def list_all_iff)

end

end
