(* ===== verification/Pointers.thy ===== *)
theory Pointers
  imports Prelude
begin

text \<open>
  The wide-pointer primitives of \<^verbatim>\<open>src/primitives\<close>: the nullable \<open>Offset\<close>
  and its non-null refinement, the checked offset arithmetic every on-disk address goes
  through, \<open>FileId\<close>, \<open>TypeId\<close>, \<open>OwnershipKind\<close>, and the 16-byte \<open>WidePtr\<close>
  record that composes them. A panic of the source is \<open>None\<close>; an
  \<^verbatim>\<open>io::Error\<close> is \<open>Inl\<close>. A \<^verbatim>\<open>BStackRange\<close> is the pair of its
  start and length.
\<close>

section \<open>Offsets\<close>

type_synonym range = "u64 \<times> u64"

datatype offset = Offset u64

definition OFFSET_NULL :: offset where
  "OFFSET_NULL = Offset 0"

fun offset_is_null :: "offset \<Rightarrow> bool" where
  "offset_is_null (Offset v) = (v = 0)"

fun offset_get :: "offset \<Rightarrow> u64" where
  "offset_get (Offset v) = v"

definition offset_overflow :: io_error where
  "offset_overflow = IoError InvalidData ''on-disk offset arithmetic overflow''"

fun offset_checked_add :: "offset \<Rightarrow> u64 \<Rightarrow> offset res" where
  "offset_checked_add (Offset v) delta =
     ok_or offset_overflow (map_option Offset (checked_add64 v delta))"

definition offset_checked_add_mul :: "offset \<Rightarrow> u64 \<Rightarrow> u64 \<Rightarrow> offset res" where
  "offset_checked_add_mul self index stride =
     try_r (ok_or offset_overflow (checked_mul64 index stride)) (\<lambda>delta.
       offset_checked_add self delta)"

text \<open>\<open>NonNullOffset\<close> wraps a \<^verbatim>\<open>NonZeroU64\<close>; \<open>nn_valid\<close> is that type's
  invariant, which every safe constructor below establishes.\<close>

datatype non_null_offset = NonNullOffset u64

fun nn_valid :: "non_null_offset \<Rightarrow> bool" where
  "nn_valid (NonNullOffset v) = (v \<noteq> 0)"

fun nn_new :: "offset \<Rightarrow> non_null_offset option" where
  "nn_new (Offset v) = (if v \<noteq> 0 then Some (NonNullOffset v) else None)"

definition offset_to_non_null :: "offset \<Rightarrow> non_null_offset option" where
  "offset_to_non_null self = nn_new self"

fun nn_as_u64 :: "non_null_offset \<Rightarrow> u64" where
  "nn_as_u64 (NonNullOffset v) = v"

definition nn_get :: "non_null_offset \<Rightarrow> offset" where
  "nn_get self = Offset (nn_as_u64 self)"

fun nn_checked_add :: "non_null_offset \<Rightarrow> u64 \<Rightarrow> non_null_offset res" where
  "nn_checked_add (NonNullOffset v) delta =
     ok_or offset_overflow (map_option NonNullOffset (checked_add64 v delta))"

definition offset_from_range :: "range \<Rightarrow> offset" where
  "offset_from_range r = Offset (fst r)"

definition nn_from_range :: "range \<Rightarrow> non_null_offset option" where
  "nn_from_range r = nn_new (offset_from_range r)"

definition nn_from_field :: "u64 \<Rightarrow> non_null_offset res" where
  "nn_from_field off =
     ok_or (IoError InvalidData ''field offset resolved to null'') (nn_new (Offset off))"

datatype null_offset_error = NullOffsetError

definition nn_try_from :: "offset \<Rightarrow> null_offset_error + non_null_offset" where
  "nn_try_from off = (case nn_new off of None \<Rightarrow> Inl NullOffsetError | Some n \<Rightarrow> Inr n)"

definition block_offset_overflow :: io_error where
  "block_offset_overflow = IoError InvalidData ''block offset overflow''"

definition checked_off :: "u64 \<Rightarrow> u64 \<Rightarrow> u64 res" where
  "checked_off base delta = ok_or block_offset_overflow (checked_add64 base delta)"

definition checked_off_mul :: "u64 \<Rightarrow> u64 \<Rightarrow> u64 \<Rightarrow> u64 res" where
  "checked_off_mul base index stride =
     try_r (offset_checked_add_mul (Offset base) index stride) (\<lambda>o1. Inr (offset_get o1))"

lemma checked_off_Inr [simp]:
  "checked_off base delta = Inr v \<longleftrightarrow> unat base + unat delta < u64_limit \<and> v = base + delta"
  by (auto simp: checked_off_def ok_or_Inr checked_add64_Some)

lemma checked_off_mul_Inr [simp]:
  "checked_off_mul base i st = Inr v \<longleftrightarrow>
     unat i * unat st < u64_limit \<and> unat base + unat (i * st) < u64_limit \<and> v = base + i * st"
  by (auto simp: checked_off_mul_def offset_checked_add_mul_def try_r_Inr ok_or_Inr
      checked_mul64_Some checked_add64_Some)

lemma checked_off_mul_ok:
  assumes "unat base + unat i * unat st < u64_limit"
  shows "checked_off_mul base i st = Inr (base + i * st)"
    and "unat (base + i * st) = unat base + unat i * unat st"
proof -
  have m: "unat (i * st) = unat i * unat st"
    using assms by (intro unat_mult_u64) simp
  with assms show "checked_off_mul base i st = Inr (base + i * st)"
    by simp
  from assms m show "unat (base + i * st) = unat base + unat i * unat st"
    by (subst unat_plus_u64) simp_all
qed

text \<open>The checked arithmetic is exact over the natural numbers: it succeeds iff the true
  value fits, and then returns it.\<close>

lemma checked_off_mul_unat:
  "checked_off_mul base i st = Inr v \<Longrightarrow> unat v = unat base + unat i * unat st"
proof -
  assume "checked_off_mul base i st = Inr v"
  then have h: "unat i * unat st < u64_limit" "unat base + unat (i * st) < u64_limit"
    "v = base + i * st" by auto
  then show ?thesis by (simp add: unat_plus_u64 unat_mult_u64)
qed

lemma nn_new_valid: "nn_new off = Some n \<Longrightarrow> nn_valid n"
  by (cases off) (auto split: if_splits)

lemma nn_checked_add_valid: "nn_valid n \<Longrightarrow> nn_checked_add n d = Inr m \<Longrightarrow> nn_valid m"
  by (cases n) (auto simp: ok_or_Inr checked_add64_Some u64_eq_iff_unat unat_plus_u64)

lemma nn_from_field_valid: "nn_from_field off = Inr n \<longleftrightarrow> off \<noteq> 0 \<and> n = NonNullOffset off"
  by (auto simp: nn_from_field_def ok_or_Inr)

section \<open>File identities\<close>

datatype file_id = FileId u32

definition FILE_SELF :: file_id where
  "FILE_SELF = FileId 0"

definition SPECIAL_FLOOR :: u32 where
  "SPECIAL_FLOOR = 0xFFFFFFFF - 0xFFFF"

fun file_get :: "file_id \<Rightarrow> u32" where
  "file_get (FileId v) = v"

fun file_is_self :: "file_id \<Rightarrow> bool" where
  "file_is_self (FileId v) = (v = 0)"

fun file_is_special :: "file_id \<Rightarrow> bool" where
  "file_is_special (FileId v) = (v \<ge> SPECIAL_FLOOR)"

fun file_as_u64 :: "file_id \<Rightarrow> u64" where
  "file_as_u64 (FileId v) = ucast v"

definition file_from_u64 :: "u64 \<Rightarrow> file_id option" where
  "file_from_u64 v = (if v \<le> 0xFFFFFFFF then Some (FileId (ucast v)) else None)"

fun file_table_index :: "file_id \<Rightarrow> nat option" where
  "file_table_index (FileId v) =
     (if v \<ge> 1 \<and> \<not> file_is_special (FileId v) then Some (unat (v - 1)) else None)"

datatype resolved_file_id = ResolvedFileId u32

fun resolved_file_new :: "file_id \<Rightarrow> resolved_file_id option" where
  "resolved_file_new (FileId v) =
     (if file_is_self (FileId v) \<or> file_is_special (FileId v) then None
      else if v \<noteq> 0 then Some (ResolvedFileId v) else None)"

definition file_resolve :: "file_id \<Rightarrow> resolved_file_id option" where
  "file_resolve self = resolved_file_new self"

fun resolved_file_get :: "resolved_file_id \<Rightarrow> file_id" where
  "resolved_file_get (ResolvedFileId v) = FileId v"

fun resolved_file_table_index :: "resolved_file_id \<Rightarrow> nat" where
  "resolved_file_table_index (ResolvedFileId v) = unat (v - 1)"

lemma file_resolve_iff:
  "file_resolve (FileId v) = Some r \<longleftrightarrow> 0 < unat v \<and> unat v < 0xFFFF0000 \<and> r = ResolvedFileId v"
  by (auto simp: file_resolve_def SPECIAL_FLOOR_def word_le_nat_alt not_le unat_gt_0)

lemma file_table_index_resolve:
  "file_table_index f = map_option resolved_file_table_index (file_resolve f)"
  by (cases f) (auto simp: file_resolve_def word_le_nat_alt word_less_nat_alt
      unat_gt_0 Suc_le_eq)

lemma file_from_as_u64: "file_from_u64 (file_as_u64 f) = Some f"
proof (cases f)
  case (FileId v)
  have "unat (ucast v :: u64) = unat v"
    by (simp add: unsigned_ucast_eq)
      (rule take_bit_nat_eq_self, rule less_trans [OF unat_u32_bound], simp)
  moreover have "unat v \<le> 4294967295"
    using unat_u32_bound [of v] by linarith
  ultimately show ?thesis
    by (simp add: FileId file_from_u64_def word_le_nat_alt ucast_down_ucast_id is_down)
qed

section \<open>Type identities\<close>

datatype type_id = TypeId u32

definition TYPE_UNTYPED :: type_id where
  "TYPE_UNTYPED = TypeId 0"

definition type_from_ordinal :: "u32 \<Rightarrow> type_id option" where
  "type_from_ordinal ordinal =
     (if unat ordinal + 1 < 4294967296 then Some (TypeId (ordinal + 1)) else None)"

fun type_ordinal :: "type_id \<Rightarrow> u32 option" where
  "type_ordinal (TypeId n) = (if n = 0 then None else Some (n - 1))"

fun type_is_typed :: "type_id \<Rightarrow> bool" where
  "type_is_typed (TypeId n) = (n \<noteq> 0)"

fun type_get :: "type_id \<Rightarrow> u32" where
  "type_get (TypeId n) = n"

datatype resolved_type_id = ResolvedTypeId u32

fun resolved_type_new :: "type_id \<Rightarrow> resolved_type_id option" where
  "resolved_type_new (TypeId n) = (if n \<noteq> 0 then Some (ResolvedTypeId n) else None)"

definition type_resolve :: "type_id \<Rightarrow> resolved_type_id option" where
  "type_resolve self = resolved_type_new self"

fun resolved_type_ordinal :: "resolved_type_id \<Rightarrow> u32" where
  "resolved_type_ordinal (ResolvedTypeId n) = n - 1"

definition resolved_type_from_ordinal :: "u32 \<Rightarrow> resolved_type_id option" where
  "resolved_type_from_ordinal ordinal =
     (if ordinal + 1 \<noteq> 0 then Some (ResolvedTypeId (ordinal + 1)) else None)"

lemma type_from_ordinal_None: "type_from_ordinal n = None \<longleftrightarrow> n = - 1"
proof -
  have "unat n + 1 < 4294967296 \<or> unat n = 4294967295"
    using unat_u32_bound [of n] by linarith
  moreover have "unat n = 4294967295 \<longleftrightarrow> n = - 1"
    by (simp add: word_unat_eq_iff unsigned_minus_1_eq_mask mask_eq_exp_minus_1)
  ultimately show ?thesis
    by (auto simp: type_from_ordinal_def)
qed

lemma type_ordinal_from: "type_from_ordinal n = Some t \<Longrightarrow> type_ordinal t = Some n"
proof -
  assume a: "type_from_ordinal n = Some t"
  then have t: "t = TypeId (n + 1)" and b: "unat n + 1 < 4294967296"
    by (auto simp: type_from_ordinal_def split: if_splits)
  from b have "unat (n + 1) = unat n + 1"
    by (subst unat_plus_if') simp
  then have "n + 1 \<noteq> 0" by (metis add_is_0 one_neq_zero unat_0)
  then show ?thesis by (simp add: t)
qed

section \<open>Ownership kinds\<close>

datatype ownership_kind = Owned | Strong | Weak | Ref

fun ownership_as_u8 :: "ownership_kind \<Rightarrow> u8" where
  "ownership_as_u8 Owned = 0"
| "ownership_as_u8 Strong = 1"
| "ownership_as_u8 Weak = 2"
| "ownership_as_u8 Ref = 3"

definition ownership_from_u8 :: "u8 \<Rightarrow> ownership_kind option" where
  "ownership_from_u8 v =
     (if v = 0 then Some Owned else if v = 1 then Some Strong
      else if v = 2 then Some Weak else if v = 3 then Some Ref else None)"

fun ownership_is_owning :: "ownership_kind \<Rightarrow> bool" where
  "ownership_is_owning k = (k = Owned \<or> k = Strong)"

lemma ownership_from_as: "ownership_from_u8 (ownership_as_u8 k) = Some k"
  by (cases k) (simp_all add: ownership_from_u8_def)

lemma ownership_as_from: "ownership_from_u8 v = Some k \<Longrightarrow> ownership_as_u8 k = v"
  by (auto simp: ownership_from_u8_def split: if_splits)

section \<open>Wide pointers\<close>

record wide_ptr =
  wp_file :: file_id
  wp_ty :: type_id
  wp_offset :: offset

definition WIDE_NULL :: wide_ptr where
  "WIDE_NULL = \<lparr>wp_file = FILE_SELF, wp_ty = TYPE_UNTYPED, wp_offset = OFFSET_NULL\<rparr>"

definition wide_new :: "file_id \<Rightarrow> offset \<Rightarrow> wide_ptr" where
  "wide_new file off = \<lparr>wp_file = file, wp_ty = TYPE_UNTYPED, wp_offset = off\<rparr>"

definition wide_with_type :: "wide_ptr \<Rightarrow> type_id \<Rightarrow> wide_ptr" where
  "wide_with_type self ty = self\<lparr>wp_ty := ty\<rparr>"

text \<open>\<^verbatim>\<open>file_id as u32\<close> keeps the low 32 bits.\<close>

definition wide_from_raw :: "u64 \<Rightarrow> u32 \<Rightarrow> u64 \<Rightarrow> wide_ptr" where
  "wide_from_raw file_id type_index off =
     \<lparr>wp_file = FileId (ucast file_id), wp_ty = TypeId type_index, wp_offset = Offset off\<rparr>"

text \<open>\<^verbatim>\<open>WidePtr::decode\<close>: slicing a buffer of fewer than 16 bytes panics.\<close>

definition wide_decode :: "u8 list \<Rightarrow> wide_ptr option" where
  "wide_decode b =
     (if 16 \<le> length b then
        let file_id = (ucast (from_le32 (slice 0 4 b)) :: u64);
            type_index = from_le32 (slice 4 4 b);
            off = from_le64 (slice 8 8 b)
        in Some (wide_from_raw file_id type_index off)
      else None)"

text \<open>The \<^verbatim>\<open>#[repr(C)]\<close> image of the record: \<open>file\<close> at 0, \<open>ty\<close> at 4,
  \<open>offset\<close> at 8.\<close>

definition wide_bytes :: "wide_ptr \<Rightarrow> u8 list" where
  "wide_bytes p = to_le32 (file_get (wp_file p)) @ to_le32 (type_get (wp_ty p))
     @ to_le64 (offset_get (wp_offset p))"

definition wide_is_self :: "wide_ptr \<Rightarrow> bool" where
  "wide_is_self p = file_is_self (wp_file p)"

definition wide_is_null :: "wide_ptr \<Rightarrow> bool" where
  "wide_is_null p = offset_is_null (wp_offset p)"

definition wide_resolved_file :: "wide_ptr \<Rightarrow> resolved_file_id option" where
  "wide_resolved_file p = file_resolve (wp_file p)"

definition wide_resolved_type :: "wide_ptr \<Rightarrow> resolved_type_id option" where
  "wide_resolved_type p = type_resolve (wp_ty p)"

lemma length_wide_bytes [simp, codec]: "length (wide_bytes p) = 16"
  by (simp add: wide_bytes_def)

lemma ucast_u32_u64_u32: "(ucast (ucast (w :: u32) :: u64) :: u32) = w"
  by (simp add: ucast_down_ucast_id is_down)

lemma wide_decode_bytes: "wide_decode (wide_bytes p @ rest) = Some p"
proof -
  obtain f t v where p: "p = \<lparr>wp_file = FileId f, wp_ty = TypeId t, wp_offset = Offset v\<rparr>"
    by (metis file_id.exhaust offset.exhaust type_id.exhaust wide_ptr.cases)
  show ?thesis
    by (simp add: p wide_decode_def wide_bytes_def wide_from_raw_def slice_simps
        ucast_u32_u64_u32 slice_def)
qed

lemma wide_bytes_decode:
  assumes "wide_decode b = Some p"
  shows "wide_bytes p = slice 0 16 b"
proof -
  have l: "16 \<le> length b"
    using assms by (auto simp: wide_decode_def split: if_splits)
  then have p: "p = wide_from_raw (ucast (from_le32 (slice 0 4 b))) (from_le32 (slice 4 4 b))
      (from_le64 (slice 8 8 b))"
    using assms by (simp add: wide_decode_def)
  have "slice 0 16 b = slice 0 4 b @ slice 4 4 b @ slice 8 8 b"
    using slice_append_split [of 0 4 12 b] slice_append_split [of 4 4 8 b] by simp
  with l show ?thesis
    by (simp add: p wide_bytes_def wide_from_raw_def ucast_u32_u64_u32 to_from_le32 to_from_le64)
qed

section \<open>Addresses and wide pointers\<close>

text \<open>Bucket and node addresses computed from untrusted on-disk pointers are exact:
  \<^verbatim>\<open>checked_off_mul\<close> returns the true value \<open>base + index * stride\<close> when it fits a
  \<open>u64\<close>, and an error, never a wrapped address, when it does not.\<close>

lemma checked_off_mul_exact:
  "case checked_off_mul base i st of
     Inr v \<Rightarrow> unat v = unat base + unat i * unat st
   | Inl e \<Rightarrow> u64_limit \<le> unat base + unat i * unat st"
proof (cases "checked_off_mul base i st")
  case (Inl e)
  then have "\<not> unat base + unat i * unat st < u64_limit"
    using checked_off_mul_ok(1) [of base i st] by auto
  with Inl show ?thesis by simp
next
  case (Inr v)
  with checked_off_mul_unat [OF Inr] show ?thesis by (simp del: checked_off_mul_Inr)
qed

text \<open>A wide pointer survives its sixteen on-disk bytes: whatever follows them, decoding
  yields the file, the type and the offset that were written.\<close>

lemma wide_ptr_roundtrip: "wide_decode (wide_bytes p @ rest) = Some p"
  by (rule wide_decode_bytes)

end
