(* ===== verification/Schema.thy ===== *)
theory Schema
  imports Cursor Pointers
begin

text \<open>
  The RTTI schema vocabulary and its wire codec, \<^verbatim>\<open>src/rtti/schema.rs\<close>, the
  structural predicates on shapes of \<^verbatim>\<open>src/rtti/shape.rs\<close> and the error codes of
  \<^verbatim>\<open>src/rtti/error.rs\<close>. An \<open>RttiError\<close> is its kind; the message text is not
  modelled. A \<^verbatim>\<open>String\<close> is its UTF-8 bytes.
\<close>

section \<open>Errors\<close>

datatype rtti_error =
    Malformed | OrdinalRange | Utf8 | UnknownTag | Truncated | ShapeLenMismatch | Collision
  | Budget | NoVariant | Interpret | UntypedPointer | UnregisteredTag | SetErr | CloneErr
  | ForeignFile | SwapErr | Unsupported | ClassErr | VecLen | SchemaMismatch | Mutator
  | DiscWidth | TooLarge | Depth | SharedMove | OffsetOverflow | Io error_kind

fun rtti_code :: "rtti_error \<Rightarrow> nat" where
  "rtti_code Malformed = 0x0800"
| "rtti_code OrdinalRange = 0x0801"
| "rtti_code Utf8 = 0x0802"
| "rtti_code UnknownTag = 0x0803"
| "rtti_code Truncated = 0x0804"
| "rtti_code ShapeLenMismatch = 0x0805"
| "rtti_code Collision = 0x0806"
| "rtti_code Budget = 0x0807"
| "rtti_code NoVariant = 0x0808"
| "rtti_code Interpret = 0x0809"
| "rtti_code UntypedPointer = 0x080A"
| "rtti_code UnregisteredTag = 0x080B"
| "rtti_code SetErr = 0x080D"
| "rtti_code CloneErr = 0x080E"
| "rtti_code ForeignFile = 0x080F"
| "rtti_code SwapErr = 0x0810"
| "rtti_code Unsupported = 0x0811"
| "rtti_code ClassErr = 0x0812"
| "rtti_code VecLen = 0x0813"
| "rtti_code SchemaMismatch = 0x0814"
| "rtti_code Mutator = 0x0815"
| "rtti_code DiscWidth = 0x0816"
| "rtti_code TooLarge = 0x0817"
| "rtti_code Depth = 0x0818"
| "rtti_code SharedMove = 0x0819"
| "rtti_code OffsetOverflow = 0x081A"
| "rtti_code (Io k) = 0x081B"

type_synonym 'a rtti = "rtti_error + 'a"

section \<open>Cursor framing\<close>

definition need :: "'a option \<Rightarrow> 'a rtti" where
  "need v = ok_or Truncated v"

text \<open>\<^verbatim>\<open>String::from_utf8\<close> accepts exactly the well-formed UTF-8 sequences.\<close>

definition utf8_cont :: "u8 \<Rightarrow> bool" where
  "utf8_cont b \<longleftrightarrow> 0x80 \<le> b \<and> b \<le> 0xBF"

fun utf8_valid :: "u8 list \<Rightarrow> bool" where
  "utf8_valid [] = True"
| "utf8_valid (a # bs) =
    (if a \<le> 0x7F then utf8_valid bs
     else case bs of [] \<Rightarrow> False | b # cs \<Rightarrow>
       if 0xC2 \<le> a \<and> a \<le> 0xDF then utf8_cont b \<and> utf8_valid cs
       else case cs of [] \<Rightarrow> False | c # ds \<Rightarrow>
         if a = 0xE0 then 0xA0 \<le> b \<and> b \<le> 0xBF \<and> utf8_cont c \<and> utf8_valid ds
         else if a = 0xED then 0x80 \<le> b \<and> b \<le> 0x9F \<and> utf8_cont c \<and> utf8_valid ds
         else if 0xE1 \<le> a \<and> a \<le> 0xEF then utf8_cont b \<and> utf8_cont c \<and> utf8_valid ds
         else case ds of [] \<Rightarrow> False | d # es \<Rightarrow>
           if a = 0xF0 then 0x90 \<le> b \<and> b \<le> 0xBF \<and> utf8_cont c \<and> utf8_cont d \<and> utf8_valid es
           else if 0xF1 \<le> a \<and> a \<le> 0xF3 then utf8_cont b \<and> utf8_cont c \<and> utf8_cont d \<and> utf8_valid es
           else if a = 0xF4 then 0x80 \<le> b \<and> b \<le> 0x8F \<and> utf8_cont c \<and> utf8_cont d \<and> utf8_valid es
           else False)"

definition read_string :: "nat \<Rightarrow> reader \<Rightarrow> (u8 list \<times> reader) rtti" where
  "read_string n r =
     try_r (need (reader_take n r)) (\<lambda>(bs, r').
       if utf8_valid bs then Inr (bs, r') else Inl Utf8)"

definition align_to :: "nat \<Rightarrow> reader \<Rightarrow> reader rtti" where
  "align_to a r = (case reader_skip_pad a r of Some r' \<Rightarrow> Inr r' | None \<Rightarrow> Inl Truncated)"

text \<open>\<^verbatim>\<open>u8::try_from\<close>, \<^verbatim>\<open>u16::try_from\<close>, \<^verbatim>\<open>u32::try_from\<close> of a
  length, with the \<^verbatim>\<open>too_large\<close> error.\<close>

definition try_u8 :: "nat \<Rightarrow> u8 rtti" where
  "try_u8 n = (if n < 256 then Inr (of_nat n) else Inl TooLarge)"

definition try_u16 :: "nat \<Rightarrow> u16 rtti" where
  "try_u16 n = (if n < 65536 then Inr (of_nat n) else Inl TooLarge)"

definition try_u32 :: "nat \<Rightarrow> u32 rtti" where
  "try_u32 n = (if n < 4294967296 then Inr (of_nat n) else Inl TooLarge)"

lemma try_u8_Inr: "try_u8 n = Inr v \<longleftrightarrow> n < 256 \<and> v = of_nat n"
  by (auto simp: try_u8_def)

lemma try_u16_Inr: "try_u16 n = Inr v \<longleftrightarrow> n < 65536 \<and> v = of_nat n"
  by (auto simp: try_u16_def)

lemma try_u32_Inr: "try_u32 n = Inr v \<longleftrightarrow> n < 4294967296 \<and> v = of_nat n"
  by (auto simp: try_u32_def)

lemma unat_of_nat_small:
  "n < 256 \<Longrightarrow> unat (of_nat n :: u8) = n"
  "n < 65536 \<Longrightarrow> unat (of_nat n :: u16) = n"
  "n < 4294967296 \<Longrightarrow> unat (of_nat n :: u32) = n"
  by (simp_all add: unat_of_nat take_bit_nat_eq_self)

section \<open>Shapes\<close>

datatype shape =
    SPod u32
  | SOwned eightcc
  | SStrong eightcc
  | SWeak eightcc
  | SRef eightcc
  | SEmbed eightcc
  | SForeign eightcc ownership_kind
  | SOption shape
  | SArray u32 shape
  | SVec shape
  | STuple "shape list"
  | SClass bool shape "u8 list"

definition TAG_POD :: u8 where "TAG_POD = 0x00"
definition TAG_OWNED :: u8 where "TAG_OWNED = 0x01"
definition TAG_STRONG :: u8 where "TAG_STRONG = 0x02"
definition TAG_WEAK :: u8 where "TAG_WEAK = 0x03"
definition TAG_REF :: u8 where "TAG_REF = 0x04"
definition TAG_EMBED :: u8 where "TAG_EMBED = 0x05"
definition TAG_FOREIGN :: u8 where "TAG_FOREIGN = 0x06"
definition TAG_OPTION :: u8 where "TAG_OPTION = 0x10"
definition TAG_ARRAY :: u8 where "TAG_ARRAY = 0x11"
definition TAG_VEC :: u8 where "TAG_VEC = 0x12"
definition TAG_TUPLE :: u8 where "TAG_TUPLE = 0x13"
definition TAG_CLASS :: u8 where "TAG_CLASS = 0x20"

lemmas shape_tags = TAG_POD_def TAG_OWNED_def TAG_STRONG_def TAG_WEAK_def TAG_REF_def
  TAG_EMBED_def TAG_FOREIGN_def TAG_OPTION_def TAG_ARRAY_def TAG_VEC_def TAG_TUPLE_def
  TAG_CLASS_def

definition MAX_SHAPE_DEPTH :: nat where
  "MAX_SHAPE_DEPTH = 64"

fun peel_option :: "shape \<Rightarrow> shape" where
  "peel_option (SOption inner) = peel_option inner"
| "peel_option other = other"

definition is_vec_element_leaf :: "shape \<Rightarrow> bool" where
  "is_vec_element_leaf s =
     (case peel_option s of
        SPod _ \<Rightarrow> True | SRef _ \<Rightarrow> True | SOwned _ \<Rightarrow> True | SStrong _ \<Rightarrow> True
      | SWeak _ \<Rightarrow> True | SForeign _ _ \<Rightarrow> True | _ \<Rightarrow> False)"

fun has_reference :: "shape \<Rightarrow> bool" where
  "has_reference (SPod _) = False"
| "has_reference (SClass _ _ _) = False"
| "has_reference (SOwned _) = True"
| "has_reference (SStrong _) = True"
| "has_reference (SWeak _) = True"
| "has_reference (SRef _) = True"
| "has_reference (SEmbed _) = True"
| "has_reference (SForeign _ _) = True"
| "has_reference (SOption inner) = has_reference inner"
| "has_reference (SVec inner) = has_reference inner"
| "has_reference (SArray _ inner) = has_reference inner"
| "has_reference (STuple items) = list_ex has_reference items"

fun element_ref_tag :: "shape \<Rightarrow> eightcc option" where
  "element_ref_tag (SOwned t) = Some t"
| "element_ref_tag (SStrong t) = Some t"
| "element_ref_tag (SWeak t) = Some t"
| "element_ref_tag (SRef t) = Some t"
| "element_ref_tag (SOption inner) = element_ref_tag inner"
| "element_ref_tag _ = None"

fun weak_element_tag :: "shape \<Rightarrow> eightcc option" where
  "weak_element_tag (SWeak t) = Some t"
| "weak_element_tag (SOption inner) = weak_element_tag inner"
| "weak_element_tag _ = None"

fun foreign_leaf :: "shape \<Rightarrow> (eightcc \<times> ownership_kind) option" where
  "foreign_leaf (SForeign t k) = Some (t, k)"
| "foreign_leaf (SOption inner) = foreign_leaf inner"
| "foreign_leaf _ = None"

fun shape_encode :: "shape \<Rightarrow> writer \<Rightarrow> writer rtti" where
  "shape_encode (SPod width) w = Inr (writer_u32 width (writer_u8 TAG_POD w))"
| "shape_encode (SOwned cc) w = Inr (writer_eightcc cc (writer_u8 TAG_OWNED w))"
| "shape_encode (SStrong cc) w = Inr (writer_eightcc cc (writer_u8 TAG_STRONG w))"
| "shape_encode (SWeak cc) w = Inr (writer_eightcc cc (writer_u8 TAG_WEAK w))"
| "shape_encode (SRef cc) w = Inr (writer_eightcc cc (writer_u8 TAG_REF w))"
| "shape_encode (SEmbed cc) w = Inr (writer_eightcc cc (writer_u8 TAG_EMBED w))"
| "shape_encode (SForeign tag kind) w =
     Inr (writer_u8 (ownership_as_u8 kind) (writer_eightcc tag (writer_u8 TAG_FOREIGN w)))"
| "shape_encode (SOption inner) w = shape_encode inner (writer_u8 TAG_OPTION w)"
| "shape_encode (SArray n inner) w = shape_encode inner (writer_u32 n (writer_u8 TAG_ARRAY w))"
| "shape_encode (SVec inner) w = shape_encode inner (writer_u8 TAG_VEC w)"
| "shape_encode (STuple items) w =
     try_r (try_u8 (length items)) (\<lambda>arity.
       put_all shape_encode items (writer_u8 arity (writer_u8 TAG_TUPLE w)))"
| "shape_encode (SClass mutable inner val) w =
     try_r (shape_encode inner (writer_u8 (if mutable then 1 else 0) (writer_u8 TAG_CLASS w)))
       (\<lambda>w1. try_r (try_u32 (length val)) (\<lambda>value_len.
          Inr (writer_bytes val (writer_u32 value_len w1))))"

function shape_decode_at :: "nat \<Rightarrow> reader \<Rightarrow> (shape \<times> reader) rtti" where
  "shape_decode_at depth r =
    (if depth \<ge> MAX_SHAPE_DEPTH then Inl Depth
     else try_r (need (reader_u8 r)) (\<lambda>(tag, r1).
       if tag = TAG_POD then try_r (need (reader_u32 r1)) (\<lambda>(v, r2). Inr (SPod v, r2))
       else if tag = TAG_OWNED then try_r (need (reader_eightcc r1)) (\<lambda>(v, r2). Inr (SOwned v, r2))
       else if tag = TAG_STRONG then try_r (need (reader_eightcc r1)) (\<lambda>(v, r2). Inr (SStrong v, r2))
       else if tag = TAG_WEAK then try_r (need (reader_eightcc r1)) (\<lambda>(v, r2). Inr (SWeak v, r2))
       else if tag = TAG_REF then try_r (need (reader_eightcc r1)) (\<lambda>(v, r2). Inr (SRef v, r2))
       else if tag = TAG_EMBED then try_r (need (reader_eightcc r1)) (\<lambda>(v, r2). Inr (SEmbed v, r2))
       else if tag = TAG_FOREIGN then
         try_r (need (reader_eightcc r1)) (\<lambda>(cc, r2).
         try_r (need (reader_u8 r2)) (\<lambda>(kb, r3).
         try_r (ok_or UnknownTag (ownership_from_u8 kb)) (\<lambda>kind. Inr (SForeign cc kind, r3))))
       else if tag = TAG_OPTION then
         try_r (shape_decode_at (depth + 1) r1) (\<lambda>(s, r2). Inr (SOption s, r2))
       else if tag = TAG_ARRAY then
         try_r (need (reader_u32 r1)) (\<lambda>(n, r2).
         try_r (shape_decode_at (depth + 1) r2) (\<lambda>(s, r3). Inr (SArray n s, r3)))
       else if tag = TAG_VEC then
         try_r (shape_decode_at (depth + 1) r1) (\<lambda>(s, r2).
           if \<not> is_vec_element_leaf s then Inl Malformed else Inr (SVec s, r2))
       else if tag = TAG_TUPLE then
         try_r (need (reader_u8 r1)) (\<lambda>(k, r2).
         try_r (get_n (shape_decode_at (depth + 1)) (unat k) r2) (\<lambda>(items, r3). Inr (STuple items, r3)))
       else if tag = TAG_CLASS then
         try_r (need (reader_u8 r1)) (\<lambda>(m, r2).
         try_r (shape_decode_at (depth + 1) r2) (\<lambda>(s, r3).
         try_r (need (reader_u32 r3)) (\<lambda>(value_len, r4).
         try_r (need (reader_take (unat value_len) r4)) (\<lambda>(val, r5).
           Inr (SClass (m \<noteq> 0) s val, r5)))))
       else Inl UnknownTag))"
  by pat_completeness auto
termination
  by (relation "measure (\<lambda>(depth, r). MAX_SHAPE_DEPTH - depth)") (auto simp: MAX_SHAPE_DEPTH_def)

declare shape_decode_at.simps [simp del]

definition shape_decode :: "reader \<Rightarrow> (shape \<times> reader) rtti" where
  "shape_decode r = shape_decode_at 0 r"

subsection \<open>Round trip of shapes\<close>

text \<open>The shapes the decoder accepts at nesting depth \<open>d\<close>: less than
  \<open>MAX_SHAPE_DEPTH\<close> levels, tags of eight bytes, and leaf elements in a \<open>Vec\<close>.\<close>

fun shape_ok :: "nat \<Rightarrow> shape \<Rightarrow> bool" where
  "shape_ok d (SPod _) = (d < MAX_SHAPE_DEPTH)"
| "shape_ok d (SOwned cc) = (d < MAX_SHAPE_DEPTH \<and> wf_eightcc cc)"
| "shape_ok d (SStrong cc) = (d < MAX_SHAPE_DEPTH \<and> wf_eightcc cc)"
| "shape_ok d (SWeak cc) = (d < MAX_SHAPE_DEPTH \<and> wf_eightcc cc)"
| "shape_ok d (SRef cc) = (d < MAX_SHAPE_DEPTH \<and> wf_eightcc cc)"
| "shape_ok d (SEmbed cc) = (d < MAX_SHAPE_DEPTH \<and> wf_eightcc cc)"
| "shape_ok d (SForeign cc _) = (d < MAX_SHAPE_DEPTH \<and> wf_eightcc cc)"
| "shape_ok d (SOption s) = (d < MAX_SHAPE_DEPTH \<and> shape_ok (d + 1) s)"
| "shape_ok d (SArray _ s) = (d < MAX_SHAPE_DEPTH \<and> shape_ok (d + 1) s)"
| "shape_ok d (SVec s) = (d < MAX_SHAPE_DEPTH \<and> shape_ok (d + 1) s \<and> is_vec_element_leaf s)"
| "shape_ok d (STuple ss) = (d < MAX_SHAPE_DEPTH \<and> list_all (shape_ok (d + 1)) ss)"
| "shape_ok d (SClass _ s _) = (d < MAX_SHAPE_DEPTH \<and> shape_ok (d + 1) s)"

lemma need_Some [simp]: "need (Some x) = Inr x"
  by (simp add: need_def)

lemma shape_encode_extends: "extends shape_encode s"
proof (induction s)
  case (STuple items)
  show ?case
    unfolding extends_def
  proof (intro allI impI)
    fix w w' assume "shape_encode (STuple items) w = Inr w'"
    then obtain k where "put_all shape_encode items (writer_u8 k (writer_u8 TAG_TUPLE w)) = Inr w'"
      by (auto simp: try_r_Inr)
    then have "prefix (writer_u8 k (writer_u8 TAG_TUPLE w)) w'"
      using STuple by (intro put_all_extends) auto
    then show "prefix w w'" by (blast dest: prefix_writer_trans)
  qed
next
  case (SClass m s v)
  show ?case
    unfolding extends_def
  proof (intro allI impI)
    fix w w' assume "shape_encode (SClass m s v) w = Inr w'"
    then obtain w3 k where
        w3: "shape_encode s (writer_u8 (if m then 1 else 0) (writer_u8 TAG_CLASS w)) = Inr w3"
      and w': "w' = writer_bytes v (writer_u32 k w3)"
      by (auto simp: try_r_Inr)
    have "prefix w w3"
      using extendsD [OF SClass w3] by (blast dest: prefix_writer_trans)
    then show "prefix w w'" by (auto simp: w' writer_defs)
  qed
qed (fastforce simp: extends_def writer_defs dest: append_prefixD)+

lemma shape_decode_tags:
  assumes "d < MAX_SHAPE_DEPTH"
  shows
    "reader_u8 r = Some (TAG_POD, r1) \<Longrightarrow> shape_decode_at d r = try_r (need (reader_u32 r1)) (\<lambda>(v, r2). Inr (SPod v, r2))"
    "reader_u8 r = Some (TAG_OWNED, r1) \<Longrightarrow> shape_decode_at d r = try_r (need (reader_eightcc r1)) (\<lambda>(v, r2). Inr (SOwned v, r2))"
    "reader_u8 r = Some (TAG_STRONG, r1) \<Longrightarrow> shape_decode_at d r = try_r (need (reader_eightcc r1)) (\<lambda>(v, r2). Inr (SStrong v, r2))"
    "reader_u8 r = Some (TAG_WEAK, r1) \<Longrightarrow> shape_decode_at d r = try_r (need (reader_eightcc r1)) (\<lambda>(v, r2). Inr (SWeak v, r2))"
    "reader_u8 r = Some (TAG_REF, r1) \<Longrightarrow> shape_decode_at d r = try_r (need (reader_eightcc r1)) (\<lambda>(v, r2). Inr (SRef v, r2))"
    "reader_u8 r = Some (TAG_EMBED, r1) \<Longrightarrow> shape_decode_at d r = try_r (need (reader_eightcc r1)) (\<lambda>(v, r2). Inr (SEmbed v, r2))"
    "reader_u8 r = Some (TAG_FOREIGN, r1) \<Longrightarrow> shape_decode_at d r = try_r (need (reader_eightcc r1)) (\<lambda>(cc, r2).
         try_r (need (reader_u8 r2)) (\<lambda>(kb, r3).
         try_r (ok_or UnknownTag (ownership_from_u8 kb)) (\<lambda>kind. Inr (SForeign cc kind, r3))))"
    "reader_u8 r = Some (TAG_OPTION, r1) \<Longrightarrow> shape_decode_at d r = try_r (shape_decode_at (d + 1) r1) (\<lambda>(s, r2). Inr (SOption s, r2))"
    "reader_u8 r = Some (TAG_ARRAY, r1) \<Longrightarrow> shape_decode_at d r = try_r (need (reader_u32 r1)) (\<lambda>(n, r2).
         try_r (shape_decode_at (d + 1) r2) (\<lambda>(s, r3). Inr (SArray n s, r3)))"
    "reader_u8 r = Some (TAG_VEC, r1) \<Longrightarrow> shape_decode_at d r = try_r (shape_decode_at (d + 1) r1) (\<lambda>(s, r2).
           if \<not> is_vec_element_leaf s then Inl Malformed else Inr (SVec s, r2))"
    "reader_u8 r = Some (TAG_TUPLE, r1) \<Longrightarrow> shape_decode_at d r = try_r (need (reader_u8 r1)) (\<lambda>(k, r2).
         try_r (get_n (shape_decode_at (d + 1)) (unat k) r2) (\<lambda>(items, r3). Inr (STuple items, r3)))"
    "reader_u8 r = Some (TAG_CLASS, r1) \<Longrightarrow> shape_decode_at d r = try_r (need (reader_u8 r1)) (\<lambda>(m, r2).
         try_r (shape_decode_at (d + 1) r2) (\<lambda>(s, r3).
         try_r (need (reader_u32 r3)) (\<lambda>(value_len, r4).
         try_r (need (reader_take (unat value_len) r4)) (\<lambda>(val, r5).
           Inr (SClass (m \<noteq> 0) s val, r5)))))"
  using assms by (simp_all add: shape_decode_at.simps [of d r] shape_tags)

lemma leaf_reads_back:
  assumes dec: "\<And>r r1. reader_u8 r = Some (tag, r1) \<Longrightarrow>
      shape_decode_at d r = try_r (need (reader_eightcc r1)) (\<lambda>(v, r2). Inr (C v, r2))"
    and "wf_eightcc cc" and "prefix (writer_eightcc cc (writer_u8 tag w)) B" and "fits B"
  shows "shape_decode_at d (at B (length w))
    = Inr (C cc, at B (length (writer_eightcc cc (writer_u8 tag w))))"
  using assms prefix_writer_trans(6) [OF assms(3)]
  by (simp add: dec [OF reader_u8_put] reader_put)

lemma shape_reads_back: "shape_ok d s \<Longrightarrow> reads_back shape_encode (shape_decode_at d) s"
proof (induction s arbitrary: d)
  case (SPod x)
  show ?case
  proof (rule reads_backI)
    fix w w' B
    assume "shape_encode (SPod x) w = Inr w'" and p: "prefix w' B" and f: "fits B"
    then have w': "w' = writer_u32 x (writer_u8 TAG_POD w)" by simp
    from p have "prefix (writer_u8 TAG_POD w) B"
      unfolding w' by (rule prefix_writer_trans)
    with SPod p f w' show "shape_decode_at d (at B (length w)) = Inr (SPod x, at B (length w'))"
      by (simp add: shape_decode_tags(1) [OF _ reader_u8_put] reader_put)
  qed
next
  case (SForeign cc k)
  show ?case
  proof (rule reads_backI)
    fix w w' B
    assume "shape_encode (SForeign cc k) w = Inr w'" and p: "prefix w' B" and f: "fits B"
    then have w': "w' = writer_u8 (ownership_as_u8 k) (writer_eightcc cc (writer_u8 TAG_FOREIGN w))"
      by simp
    from p have p2: "prefix (writer_eightcc cc (writer_u8 TAG_FOREIGN w)) B"
      unfolding w' by (rule prefix_writer_trans)
    then have "prefix (writer_u8 TAG_FOREIGN w) B" by (rule prefix_writer_trans)
    with SForeign p p2 f w'
    show "shape_decode_at d (at B (length w)) = Inr (SForeign cc k, at B (length w'))"
      by (simp add: shape_decode_tags(7) [OF _ reader_u8_put] reader_put ownership_from_as)
  qed
next
  case (SOption s)
  show ?case
  proof (rule reads_backI)
    fix w w' B
    assume e: "shape_encode (SOption s) w = Inr w'" and p: "prefix w' B" and f: "fits B"
    have "prefix (writer_u8 TAG_OPTION w) B"
      using extendsD [OF shape_encode_extends, of s] e p by (auto intro: prefix_order.trans)
    moreover have "shape_decode_at (d + 1) (at B (length (writer_u8 TAG_OPTION w))) = Inr (s, at B (length w'))"
      using SOption e p f by (intro reads_backD [of shape_encode]) auto
    ultimately
    show "shape_decode_at d (at B (length w)) = Inr (SOption s, at B (length w'))"
      using SOption.prems f by (simp add: shape_decode_tags(8) [OF _ reader_u8_put])
  qed
next
  case (SArray n s)
  show ?case
  proof (rule reads_backI)
    fix w w' B
    assume e: "shape_encode (SArray n s) w = Inr w'" and p: "prefix w' B" and f: "fits B"
    have p2: "prefix (writer_u32 n (writer_u8 TAG_ARRAY w)) B"
      using extendsD [OF shape_encode_extends, of s] e p by (auto intro: prefix_order.trans)
    then have "prefix (writer_u8 TAG_ARRAY w) B" by (rule prefix_writer_trans)
    moreover have "shape_decode_at (d + 1) (at B (length (writer_u32 n (writer_u8 TAG_ARRAY w)))) = Inr (s, at B (length w'))"
      using SArray e p f by (intro reads_backD [of shape_encode]) auto
    ultimately
    show "shape_decode_at d (at B (length w)) = Inr (SArray n s, at B (length w'))"
      using SArray.prems p2 f by (simp add: shape_decode_tags(9) [OF _ reader_u8_put] reader_put)
  qed
next
  case (SVec s)
  show ?case
  proof (rule reads_backI)
    fix w w' B
    assume e: "shape_encode (SVec s) w = Inr w'" and p: "prefix w' B" and f: "fits B"
    have "prefix (writer_u8 TAG_VEC w) B"
      using extendsD [OF shape_encode_extends, of s] e p by (auto intro: prefix_order.trans)
    moreover have "shape_decode_at (d + 1) (at B (length (writer_u8 TAG_VEC w))) = Inr (s, at B (length w'))"
      using SVec e p f by (intro reads_backD [of shape_encode]) auto
    ultimately
    show "shape_decode_at d (at B (length w)) = Inr (SVec s, at B (length w'))"
      using SVec.prems f by (simp add: shape_decode_tags(10) [OF _ reader_u8_put])
  qed
next
  case (STuple ss)
  show ?case
  proof (rule reads_backI)
    fix w w' B
    assume e: "shape_encode (STuple ss) w = Inr w'" and p: "prefix w' B" and f: "fits B"
    then obtain k where k: "length ss < 256" "k = of_nat (length ss)"
      and pa: "put_all shape_encode ss (writer_u8 k (writer_u8 TAG_TUPLE w)) = Inr w'"
      by (auto simp: try_r_Inr try_u8_Inr)
    have p2: "prefix (writer_u8 k (writer_u8 TAG_TUPLE w)) B"
      using put_all_extends [OF _ pa] shape_encode_extends p by (auto intro: prefix_order.trans)
    then have p1: "prefix (writer_u8 TAG_TUPLE w) B" by (rule prefix_writer_trans)
    have "get_n (shape_decode_at (d + 1)) (length ss)
        (at B (length (writer_u8 k (writer_u8 TAG_TUPLE w)))) = Inr (ss, at B (length w'))"
      using STuple shape_encode_extends pa p f by (intro get_n_put_all) (auto simp: list_all_iff)
    with STuple.prems p1 p2 f k
    show "shape_decode_at d (at B (length w)) = Inr (STuple ss, at B (length w'))"
      by (simp add: shape_decode_tags(11) [OF _ reader_u8_put] reader_put unat_of_nat_small)
  qed
next
  case (SClass m s v)
  show ?case
  proof (rule reads_backI)
    fix w w' B
    assume e: "shape_encode (SClass m s v) w = Inr w'" and p: "prefix w' B" and f: "fits B"
    let ?w2 = "writer_u8 (if m then 1 else 0) (writer_u8 TAG_CLASS w)"
    from e obtain w3 where w3: "shape_encode s ?w2 = Inr w3" and len: "length v < 4294967296"
      and w': "w' = writer_bytes v (writer_u32 (of_nat (length v)) w3)"
      by (auto simp: try_r_Inr try_u32_Inr)
    from p have p4: "prefix (writer_u32 (of_nat (length v)) w3) B"
      unfolding w' by (rule prefix_writer_trans)
    then have p3: "prefix w3 B" by (rule prefix_writer_trans)
    then have p2: "prefix ?w2 B"
      using extendsD [OF shape_encode_extends w3] by (rule prefix_order.trans [rotated])
    then have p1: "prefix (writer_u8 TAG_CLASS w) B" by (rule prefix_writer_trans)
    have "shape_decode_at (d + 1) (at B (length ?w2)) = Inr (s, at B (length w3))"
      using SClass p3 f w3 by (intro reads_backD [of shape_encode]) auto
    with SClass.prems p p1 p2 p4 f len
    show "shape_decode_at d (at B (length w)) = Inr (SClass m s v, at B (length w'))"
      by (cases m) (simp_all add: shape_decode_tags(12) [OF _ reader_u8_put] reader_put
          unat_of_nat_small w')
  qed
qed (auto simp: reads_back_def intro: leaf_reads_back shape_decode_tags)

end
