(* ===== verification/SchemaType.thy ===== *)
theory SchemaType
  imports Schema
begin

text \<open>
  Type records of the RTTI schema stack, \<^verbatim>\<open>src/rtti/schema.rs\<close>: fields, enum
  variants and the type descriptor with their record codecs, the record framing, the layout
  comparison, and the in-place class-variable slot. The interface \<open>wire_format\<close> is
  interpreted for shapes, fields and variants, so a field list and a variant list round-trip
  by the one sequence lemma.
\<close>

section \<open>Fields and variants\<close>

record rtti_field =
  fld_name :: "u8 list"
  fld_offset :: u32
  fld_shape :: shape

definition field_encode :: "rtti_field \<Rightarrow> writer \<Rightarrow> writer rtti" where
  "field_encode f w =
     try_r (shape_encode (fld_shape f) []) (\<lambda>sw.
     try_r (try_u16 (length (fld_name f))) (\<lambda>name_len.
     try_r (try_u16 (length sw)) (\<lambda>shape_len.
       let w1 = writer_u32 (fld_offset f) w;
           w2 = writer_u16 name_len w1;
           w3 = writer_u16 shape_len w2;
           w4 = writer_align 4 (writer_bytes (fld_name f) w3)
       in Inr (writer_align 4 (writer_bytes sw w4)))))"

definition field_decode :: "reader \<Rightarrow> (rtti_field \<times> reader) rtti" where
  "field_decode r =
     try_r (need (reader_u32 r)) (\<lambda>(off, r1).
     try_r (need (reader_u16 r1)) (\<lambda>(name_len, r2).
     try_r (need (reader_u16 r2)) (\<lambda>(shape_len, r3).
     try_r (read_string (unat name_len) r3) (\<lambda>(name, r4).
     try_r (align_to 4 r4) (\<lambda>r5.
       let shape_start = rd_pos r5 in
       try_r (shape_decode r5) (\<lambda>(s, r6).
         if rd_pos r6 - shape_start \<noteq> unat shape_len then Inl ShapeLenMismatch
         else try_r (align_to 4 r6) (\<lambda>r7.
           Inr (\<lparr>fld_name = name, fld_offset = off, fld_shape = s\<rparr>, r7))))))))"

record rtti_variant =
  var_name :: "u8 list"
  var_disc :: u64
  var_fields :: "rtti_field list"

definition variant_encode :: "rtti_variant \<Rightarrow> writer \<Rightarrow> writer rtti" where
  "variant_encode v w =
     (let w1 = writer_i64 (var_disc v) (writer_align 8 w) in
      try_r (try_u16 (length (var_name v))) (\<lambda>name_len.
      try_r (try_u16 (length (var_fields v))) (\<lambda>field_count.
        let w2 = writer_u32 0 (writer_u16 field_count (writer_u16 name_len w1));
            w3 = writer_align 8 (writer_bytes (var_name v) w2)
        in put_all field_encode (var_fields v) w3)))"

definition variant_decode :: "reader \<Rightarrow> (rtti_variant \<times> reader) rtti" where
  "variant_decode r =
     try_r (align_to 8 r) (\<lambda>r1.
     try_r (need (reader_i64 r1)) (\<lambda>(disc, r2).
     try_r (need (reader_u16 r2)) (\<lambda>(name_len, r3).
     try_r (need (reader_u16 r3)) (\<lambda>(field_count, r4).
     try_r (need (reader_u32 r4)) (\<lambda>(pad, r5).
     try_r (read_string (unat name_len) r5) (\<lambda>(name, r6).
     try_r (align_to 8 r6) (\<lambda>r7.
     try_r (get_n field_decode (unat field_count) r7) (\<lambda>(flds, r8).
       Inr (\<lparr>var_name = name, var_disc = disc, var_fields = flds\<rparr>, r8)))))))))"

section \<open>Type descriptors\<close>

record rtti_enum =
  en_disc_width :: u8
  en_disc_off :: u16
  en_payload_off :: u16
  en_variants :: "rtti_variant list"

datatype rtti_body = BStruct "rtti_field list" | BEnum rtti_enum

record rtti_type =
  ty_tag :: eightcc
  ty_name :: "u8 list"
  ty_rc :: bool
  ty_weak :: bool
  ty_ctrl_tag :: "eightcc option"
  ty_ondisk_size :: u64
  ty_body :: rtti_body

definition FLAG_ENUM :: u8 where "FLAG_ENUM = 1"
definition FLAG_RC :: u8 where "FLAG_RC = 2"
definition FLAG_WEAK :: u8 where "FLAG_WEAK = 4"

fun body_count :: "rtti_body \<Rightarrow> nat" where
  "body_count (BStruct flds) = length flds"
| "body_count (BEnum e) = length (en_variants e)"

fun body_header :: "rtti_body \<Rightarrow> u8 \<times> u8 \<times> u16 \<times> u16" where
  "body_header (BStruct flds) = (0, 0, 0, 0)"
| "body_header (BEnum e) = (FLAG_ENUM, en_disc_width e, en_disc_off e, en_payload_off e)"

definition type_flags :: "rtti_type \<Rightarrow> u8" where
  "type_flags ty = (fst (body_header (ty_body ty))
     OR (if ty_rc ty then FLAG_RC else 0)) OR (if ty_weak ty then FLAG_WEAK else 0)"

definition encode_type :: "rtti_type \<Rightarrow> u8 list rtti" where
  "encode_type ty =
     try_r (try_u16 (body_count (ty_body ty))) (\<lambda>count.
     let (flags_kind, disc_width, disc_off, payload_off) = body_header (ty_body ty) in
     try_r (try_u16 (length (ty_name ty))) (\<lambda>name_len.
       let w1 = writer_u8 disc_width (writer_u8 (type_flags ty) []);
           w2 = writer_u16 count (writer_u16 name_len w1);
           w3 = writer_u16 payload_off (writer_u16 disc_off w2);
           w4 = writer_u64 (ty_ondisk_size ty) w3;
           w5 = writer_eightcc (case ty_ctrl_tag ty of Some t \<Rightarrow> t | None \<Rightarrow> EightCC (replicate 8 0)) w4;
           w6 = writer_align 8 (writer_bytes (ty_name ty) w5)
       in case ty_body ty of
            BStruct flds \<Rightarrow> put_all field_encode flds w6
          | BEnum e \<Rightarrow> put_all variant_encode (en_variants e) w6))"

definition decode_type :: "eightcc \<Rightarrow> u8 list \<Rightarrow> rtti_type rtti" where
  "decode_type tag bs =
     try_r (need (reader_u8 (reader_new bs))) (\<lambda>(flags, r1).
     try_r (need (reader_u8 r1)) (\<lambda>(disc_width, r2).
     try_r (need (reader_u16 r2)) (\<lambda>(name_len, r3).
     try_r (need (reader_u16 r3)) (\<lambda>(count, r4).
     try_r (need (reader_u16 r4)) (\<lambda>(disc_off, r5).
     try_r (need (reader_u16 r5)) (\<lambda>(payload_off, r6).
     try_r (need (reader_u64 r6)) (\<lambda>(ondisk_size, r7).
     try_r (need (reader_eightcc r7)) (\<lambda>(ctrl_tag_raw, r8).
     try_r (read_string (unat name_len) r8) (\<lambda>(name, r9).
     try_r (align_to 8 r9) (\<lambda>r10.
       let weak = (flags AND FLAG_WEAK \<noteq> 0) in
       try_r
         (if flags AND FLAG_ENUM \<noteq> 0 then
            if disc_width > 8 then Inl DiscWidth
            else if disc_width = 0 then Inl DiscWidth
            else try_r (get_n variant_decode (unat count) r10) (\<lambda>(vs, r11).
              Inr (BEnum \<lparr>en_disc_width = disc_width, en_disc_off = disc_off,
                en_payload_off = payload_off, en_variants = vs\<rparr>))
          else try_r (get_n field_decode (unat count) r10) (\<lambda>(fs, r11). Inr (BStruct fs)))
         (\<lambda>body. Inr \<lparr>ty_tag = tag, ty_name = name, ty_rc = (flags AND FLAG_RC \<noteq> 0),
            ty_weak = weak, ty_ctrl_tag = (if weak then Some ctrl_tag_raw else None),
            ty_ondisk_size = ondisk_size, ty_body = body\<rparr>)))))))))))"

definition frame_record :: "eightcc \<Rightarrow> u8 list \<Rightarrow> (u8 list \<times> u32) rtti" where
  "frame_record tag body =
     try_r (try_u32 (length body)) (\<lambda>body_len.
       Inr (writer_align 8 (writer_bytes body (writer_u32 0 (writer_u32 body_len (writer_eightcc tag [])))),
            body_len))"

section \<open>Layout comparison\<close>

fun strip_shape :: "shape \<Rightarrow> shape" where
  "strip_shape (SClass mutable inner val) =
     SClass mutable (strip_shape inner) (if mutable then [] else val)"
| "strip_shape (SOption inner) = SOption (strip_shape inner)"
| "strip_shape (SVec inner) = SVec (strip_shape inner)"
| "strip_shape (SArray n inner) = SArray n (strip_shape inner)"
| "strip_shape (STuple items) = STuple (map strip_shape items)"
| "strip_shape s = s"

definition strip_field :: "rtti_field \<Rightarrow> rtti_field" where
  "strip_field f = f\<lparr>fld_shape := strip_shape (fld_shape f)\<rparr>"

definition strip_type :: "rtti_type \<Rightarrow> rtti_type" where
  "strip_type ty = ty\<lparr>ty_body :=
     (case ty_body ty of
        BStruct flds \<Rightarrow> BStruct (map strip_field flds)
      | BEnum e \<Rightarrow> BEnum (e\<lparr>en_variants :=
          map (\<lambda>v. v\<lparr>var_fields := map strip_field (var_fields v)\<rparr>) (en_variants e)\<rparr>))\<rparr>"

definition layouts_match :: "rtti_type \<Rightarrow> rtti_type \<Rightarrow> bool" where
  "layouts_match a b = (strip_type a = strip_type b)"

section \<open>The class-variable slot\<close>

definition class_value_within_shape :: "reader \<Rightarrow> (nat \<times> nat \<times> bool) option rtti" where
  "class_value_within_shape r =
     try_r (need (reader_u8 r)) (\<lambda>(tag, r1).
       if tag \<noteq> TAG_CLASS then Inr None
       else try_r (need (reader_u8 r1)) (\<lambda>(m, r2).
         try_r (shape_decode r2) (\<lambda>(inner, r3).
         try_r (need (reader_u32 r3)) (\<lambda>(value_len, r4).
           if \<not> (rd_pos r4 + unat value_len < u64_limit \<and> rd_pos r4 + unat value_len \<le> length (rd_buf r4))
           then Inl ClassErr
           else Inr (Some (rd_pos r4, unat value_len, m \<noteq> 0))))))"

fun class_slot_loop :: "nat \<Rightarrow> u8 list \<Rightarrow> reader \<Rightarrow> (nat \<times> nat \<times> bool) option rtti" where
  "class_slot_loop 0 target r = Inr None"
| "class_slot_loop (Suc k) target r =
     try_r (need (reader_u32 r)) (\<lambda>(off, r1).
     try_r (need (reader_u16 r1)) (\<lambda>(fname_len, r2).
     try_r (need (reader_u16 r2)) (\<lambda>(shape_len, r3).
     try_r (read_string (unat fname_len) r3) (\<lambda>(fname, r4).
     try_r (align_to 4 r4) (\<lambda>r5.
       if fname = target then class_value_within_shape r5
       else try_r (shape_decode r5) (\<lambda>(s, r6).
         try_r (align_to 4 r6) (\<lambda>r7. class_slot_loop k target r7)))))))"

definition class_value_slot :: "u8 list \<Rightarrow> u8 list \<Rightarrow> (nat \<times> nat \<times> bool) option rtti" where
  "class_value_slot bs target =
     try_r (need (reader_u8 (reader_new bs))) (\<lambda>(flags, r1).
     try_r (need (reader_u8 r1)) (\<lambda>(disc_width, r2).
     try_r (need (reader_u16 r2)) (\<lambda>(name_len, r3).
     try_r (need (reader_u16 r3)) (\<lambda>(count, r4).
     try_r (need (reader_u16 r4)) (\<lambda>(disc_off, r5).
     try_r (need (reader_u16 r5)) (\<lambda>(payload_off, r6).
     try_r (need (reader_u64 r6)) (\<lambda>(ondisk_size, r7).
     try_r (need (reader_eightcc r7)) (\<lambda>(ctrl_tag, r8).
     try_r (read_string (unat name_len) r8) (\<lambda>(name, r9).
     try_r (align_to 8 r9) (\<lambda>r10.
       if flags AND FLAG_ENUM \<noteq> 0 then Inr None
       else class_slot_loop (unat count) target r10))))))))))"

section \<open>Round trips\<close>

lemma read_string_put:
  "prefix (writer_bytes bs w) B \<Longrightarrow> fits B \<Longrightarrow> utf8_valid bs \<Longrightarrow> n = length bs \<Longrightarrow>
    read_string n (at B (length w)) = Inr (bs, at B (length (writer_bytes bs w)))"
  by (simp add: read_string_def reader_take_put)

lemma align_to_put:
  "prefix (writer_align 4 w) B \<Longrightarrow> fits B \<Longrightarrow>
    align_to 4 (at B (length w)) = Inr (at B (length (writer_align 4 w)))"
  "prefix (writer_align 8 w) B \<Longrightarrow> fits B \<Longrightarrow>
    align_to 8 (at B (length w)) = Inr (at B (length (writer_align 8 w)))"
  using reader_skip_pad_put [of 2 w B] reader_skip_pad_put [of 3 w B] by (simp_all add: align_to_def)

lemma prefix_align_fwd:
  "prefix x w \<Longrightarrow> prefix x (writer_align 4 w)" "prefix x w \<Longrightarrow> prefix x (writer_align 8 w)"
  using prefix_fwd(8) [of x w 2] prefix_fwd(8) [of x w 3] by simp_all

lemmas prefix_step = prefix_fwd(1-7) prefix_align_fwd

text \<open>Shape bytes do not depend on where they are written.\<close>

lemma put_all_shift:
  assumes "\<And>v x w'. v \<in> set vs \<Longrightarrow> put v x = Inr w' \<Longrightarrow> put v (u @ x) = Inr (u @ w')"
    and "put_all put vs w = Inr w'"
  shows "put_all put vs (u @ w) = Inr (u @ w')"
  using assms
proof (induction vs arbitrary: w)
  case (Cons v vs)
  then obtain w1 where "put v w = Inr w1" "put_all put vs w1 = Inr w'"
    by (auto simp: try_r_Inr)
  then show ?case using Cons by simp
qed auto

lemma shape_encode_shift: "shape_encode s w = Inr w' \<Longrightarrow> shape_encode s (u @ w) = Inr (u @ w')"
proof (induction s arbitrary: w w')
  case (STuple ss)
  then show ?case
    by (auto simp: try_r_Inr writer_defs intro!: put_all_shift [where w = "_ @ _", simplified])
next
  case (SClass m s v)
  then obtain w1 k where "shape_encode s (w @ [TAG_CLASS, if m then 1 else 0]) = Inr w1"
      and "try_u32 (length v) = Inr k" and w': "w' = w1 @ to_le32 k @ v"
    by (auto simp: try_r_Inr writer_defs)
  then show ?case
    using SClass.IH [of "w @ [TAG_CLASS, if m then 1 else 0]" w1] by (simp add: writer_defs)
qed (fastforce simp: writer_defs)+

lemma shape_encode_at:
  "shape_encode s [] = Inr sw \<Longrightarrow> shape_encode s w = Inr (writer_bytes sw w)"
  using shape_encode_shift [of s "[]" sw w] by (simp add: writer_bytes_def)

definition field_ok :: "rtti_field \<Rightarrow> bool" where
  "field_ok f \<longleftrightarrow> utf8_valid (fld_name f) \<and> shape_ok 0 (fld_shape f)"

definition variant_ok :: "rtti_variant \<Rightarrow> bool" where
  "variant_ok v \<longleftrightarrow> utf8_valid (var_name v) \<and> list_all field_ok (var_fields v)"

lemma field_encode_Inr:
  "field_encode f w = Inr w' \<longleftrightarrow> (\<exists>sw. shape_encode (fld_shape f) [] = Inr sw
     \<and> length (fld_name f) < 65536 \<and> length sw < 65536
     \<and> w' = writer_align 4 (writer_bytes sw (writer_align 4 (writer_bytes (fld_name f)
         (writer_u16 (of_nat (length sw)) (writer_u16 (of_nat (length (fld_name f)))
           (writer_u32 (fld_offset f) w)))))))"
  by (auto simp: field_encode_def try_r_Inr try_u16_Inr Let_def)

lemma field_extends: "extends field_encode f"
  unfolding extends_def field_encode_Inr by (auto intro!: prefix_step)

lemma field_reads_back: "field_ok f \<Longrightarrow> reads_back field_encode field_decode f"
proof (rule reads_backI)
  fix w w' B
  assume ok: "field_ok f" and e: "field_encode f w = Inr w'" and p: "prefix w' B" and fit: "fits B"
  from e obtain sw where sw: "shape_encode (fld_shape f) [] = Inr sw"
    and len: "length (fld_name f) < 65536" "length sw < 65536"
    and w': "w' = writer_align 4 (writer_bytes sw (writer_align 4 (writer_bytes (fld_name f)
         (writer_u16 (of_nat (length sw)) (writer_u16 (of_nat (length (fld_name f)))
           (writer_u32 (fld_offset f) w))))))"
    by (auto simp: field_encode_Inr)
  let ?w1 = "writer_u32 (fld_offset f) w"
  let ?w2 = "writer_u16 (of_nat (length (fld_name f))) ?w1"
  let ?w3 = "writer_u16 (of_nat (length sw)) ?w2"
  let ?w4 = "writer_bytes (fld_name f) ?w3"
  let ?w5 = "writer_align 4 ?w4"
  have sub: "prefix x w' \<Longrightarrow> prefix x B" for x
    using p by (rule prefix_order.trans [rotated])
  have ps: "prefix ?w1 B" "prefix ?w2 B" "prefix ?w3 B" "prefix ?w4 B" "prefix ?w5 B"
      "prefix (writer_bytes sw ?w5) B" "prefix (writer_align 4 (writer_bytes sw ?w5)) B"
    unfolding w' by (rule sub, simp add: w' prefix_step)+
  have "shape_decode_at 0 (at B (length ?w5)) = Inr (fld_shape f, at B (length (writer_bytes sw ?w5)))"
    using ok fit shape_encode_at [OF sw, of ?w5] ps
    by (intro reads_backD [of shape_encode] shape_reads_back) (auto simp: field_ok_def)
  then have d: "shape_decode (at B (length ?w5)) = Inr (fld_shape f, at B (length (writer_bytes sw ?w5)))"
    by (simp add: shape_decode_def)
  have l: "length (writer_bytes sw ?w5) - length ?w5 = length sw"
    by (simp add: writer_bytes_def)
  show "field_decode (at B (length w)) = Inr (f, at B (length w'))"
    using ok fit len d l ps
    by (simp add: field_decode_def reader_put read_string_put align_to_put w'
        field_ok_def unat_of_nat_small)
qed

interpretation shape_wire: wire_format shape_encode shape_decode "shape_ok 0"
  using shape_encode_extends shape_reads_back
  by unfold_locales (auto simp: reads_back_def shape_decode_def)

interpretation field_wire: wire_format field_encode field_decode field_ok
  using field_extends field_reads_back by unfold_locales auto

lemma variant_encode_Inr:
  "variant_encode v w = Inr w' \<longleftrightarrow> length (var_name v) < 65536 \<and> length (var_fields v) < 65536
     \<and> put_all field_encode (var_fields v) (writer_align 8 (writer_bytes (var_name v)
         (writer_u32 0 (writer_u16 (of_nat (length (var_fields v)))
           (writer_u16 (of_nat (length (var_name v))) (writer_i64 (var_disc v) (writer_align 8 w))))))) = Inr w'"
  by (auto simp: variant_encode_def try_r_Inr try_u16_Inr Let_def)

lemma variant_extends: "extends variant_encode v"
  unfolding extends_def variant_encode_Inr
proof (intro allI impI, elim conjE)
  fix w w'
  assume "put_all field_encode (var_fields v) (writer_align 8 (writer_bytes (var_name v)
         (writer_u32 0 (writer_u16 (of_nat (length (var_fields v)))
           (writer_u16 (of_nat (length (var_name v))) (writer_i64 (var_disc v) (writer_align 8 w))))))) = Inr w'"
  from extendsD [OF field_wire.seq_extends this] show "prefix w w'"
    by (rule prefix_order.trans [rotated]) (auto intro!: prefix_step)
qed

lemma variant_reads_back: "variant_ok v \<Longrightarrow> reads_back variant_encode variant_decode v"
proof (rule reads_backI)
  fix w w' B
  assume ok: "variant_ok v" and e: "variant_encode v w = Inr w'" and p: "prefix w' B" and fit: "fits B"
  let ?w0 = "writer_align 8 w"
  let ?w1 = "writer_i64 (var_disc v) ?w0"
  let ?w2 = "writer_u16 (of_nat (length (var_name v))) ?w1"
  let ?w3 = "writer_u16 (of_nat (length (var_fields v))) ?w2"
  let ?w4 = "writer_u32 0 ?w3"
  let ?w5 = "writer_bytes (var_name v) ?w4"
  let ?w6 = "writer_align 8 ?w5"
  have len: "length (var_name v) < 65536" "length (var_fields v) < 65536"
    and pa: "put_all field_encode (var_fields v) ?w6 = Inr w'"
    using e by (auto simp: variant_encode_Inr)
  have "prefix ?w6 B"
    using extendsD [OF field_wire.seq_extends pa] p by (rule prefix_order.trans)
  then have sub: "prefix x ?w6 \<Longrightarrow> prefix x B" for x
    by (rule prefix_order.trans [rotated])
  have ps: "prefix ?w0 B" "prefix ?w1 B" "prefix ?w2 B" "prefix ?w3 B" "prefix ?w4 B" "prefix ?w5 B"
      "prefix ?w6 B"
    by (rule sub, simp add: prefix_step)+
  have "get_n field_decode (length (var_fields v)) (at B (length ?w6)) = Inr (var_fields v, at B (length w'))"
    using ok pa p fit by (intro reads_backD [OF field_wire.seq_reads_back]) (auto simp: variant_ok_def)
  then show "variant_decode (at B (length w)) = Inr (v, at B (length w'))"
    using ok fit len ps
    by (simp add: variant_decode_def reader_put read_string_put align_to_put
        variant_ok_def unat_of_nat_small)
qed

interpretation variant_wire: wire_format variant_encode variant_decode variant_ok
  using variant_extends variant_reads_back by unfold_locales auto

text \<open>What the decoder accepts: the invariant of a decoded type descriptor.\<close>

fun body_ok :: "rtti_body \<Rightarrow> bool" where
  "body_ok (BStruct flds) = list_all field_ok flds"
| "body_ok (BEnum e) =
     (1 \<le> en_disc_width e \<and> en_disc_width e \<le> 8 \<and> list_all variant_ok (en_variants e))"

definition type_ok :: "rtti_type \<Rightarrow> bool" where
  "type_ok ty \<longleftrightarrow> utf8_valid (ty_name ty) \<and> body_ok (ty_body ty)
     \<and> (case ty_ctrl_tag ty of None \<Rightarrow> \<not> ty_weak ty | Some t \<Rightarrow> ty_weak ty \<and> wf_eightcc t)"

definition ctrl_raw :: "rtti_type \<Rightarrow> eightcc" where
  "ctrl_raw ty = (case ty_ctrl_tag ty of Some t \<Rightarrow> t | None \<Rightarrow> EightCC (replicate 8 0))"

text \<open>The writer states of the fixed header, one after the other.\<close>

definition type_prologue :: "rtti_type \<Rightarrow> writer" where
  "type_prologue ty = writer_eightcc (ctrl_raw ty) (writer_u64 (ty_ondisk_size ty)
     (writer_u16 (snd (snd (snd (body_header (ty_body ty)))))
     (writer_u16 (fst (snd (snd (body_header (ty_body ty)))))
     (writer_u16 (of_nat (body_count (ty_body ty)))
     (writer_u16 (of_nat (length (ty_name ty)))
     (writer_u8 (fst (snd (body_header (ty_body ty))))
     (writer_u8 (type_flags ty) [])))))))"

definition put_body :: "rtti_body \<Rightarrow> writer \<Rightarrow> writer rtti" where
  "put_body b w = (case b of BStruct flds \<Rightarrow> put_all field_encode flds w
     | BEnum e \<Rightarrow> put_all variant_encode (en_variants e) w)"

lemma encode_type_Inr:
  "encode_type ty = Inr bs \<longleftrightarrow> body_count (ty_body ty) < 65536 \<and> length (ty_name ty) < 65536
     \<and> put_body (ty_body ty) (writer_align 8 (writer_bytes (ty_name ty) (type_prologue ty))) = Inr bs"
  by (cases "ty_body ty")
    (auto simp: encode_type_def try_r_Inr try_u16_Inr Let_def type_prologue_def put_body_def ctrl_raw_def
      split: prod.splits)

lemma put_body_extends: "put_body b w = Inr w' \<Longrightarrow> prefix w w'"
  using extendsD [OF field_wire.seq_extends] extendsD [OF variant_wire.seq_extends]
  by (cases b) (auto simp: put_body_def)

lemma type_flags_bits:
  "(type_flags ty AND FLAG_ENUM = 0) = (\<exists>flds. ty_body ty = BStruct flds)"
  "(type_flags ty AND FLAG_RC = 0) = (\<not> ty_rc ty)"
  "(type_flags ty AND FLAG_WEAK = 0) = (\<not> ty_weak ty)"
  by (cases "ty_body ty"; cases "ty_rc ty"; cases "ty_weak ty";
      simp add: type_flags_def FLAG_ENUM_def FLAG_RC_def FLAG_WEAK_def)+

lemma wf_ctrl_raw: "type_ok ty \<Longrightarrow> wf_eightcc (ctrl_raw ty)"
  by (auto simp: type_ok_def ctrl_raw_def wf_eightcc_def split: option.splits)

lemma ctrl_tag_raw: "type_ok ty \<Longrightarrow> (if ty_weak ty then Some (ctrl_raw ty) else None) = ty_ctrl_tag ty"
  by (auto simp: type_ok_def ctrl_raw_def split: option.splits)

lemma get_body_put:
  assumes "body_ok b" and "put_body b w = Inr w'" and "fits w'"
  shows "b = BStruct flds \<Longrightarrow>
      get_n field_decode (length flds) (at w' (length w)) = Inr (flds, at w' (length w'))"
    and "b = BEnum e \<Longrightarrow>
      get_n variant_decode (length (en_variants e)) (at w' (length w))
        = Inr (en_variants e, at w' (length w'))"
  using assms
  by (auto simp: put_body_def
      intro: reads_backD [OF field_wire.seq_reads_back] reads_backD [OF variant_wire.seq_reads_back])

lemma ty_update_fields:
  "ty\<lparr>ty_tag := t, ty_body := b\<rparr> = \<lparr>ty_tag = t, ty_name = ty_name ty, ty_rc = ty_rc ty,
     ty_weak = ty_weak ty, ty_ctrl_tag = ty_ctrl_tag ty, ty_ondisk_size = ty_ondisk_size ty,
     ty_body = b\<rparr>"
  by (cases ty) simp

lemma en_update_fields:
  "e\<lparr>en_variants := vs\<rparr> = \<lparr>en_disc_width = en_disc_width e, en_disc_off = en_disc_off e,
     en_payload_off = en_payload_off e, en_variants = vs\<rparr>"
  by (cases e) simp

text \<open>The header is read back field by field, at the writer states of \<open>type_prologue\<close>.\<close>

lemma type_header_reads:
  assumes ok: "type_ok ty" and e: "encode_type ty = Inr bs" and fit: "fits bs"
  defines "w6 \<equiv> writer_align 8 (writer_bytes (ty_name ty) (type_prologue ty))"
  obtains r1 r2 r3 r4 r5 r6 r7 r8 r9 where
    "reader_u8 (reader_new bs) = Some (type_flags ty, r1)"
    "reader_u8 r1 = Some (fst (snd (body_header (ty_body ty))), r2)"
    "reader_u16 r2 = Some (of_nat (length (ty_name ty)), r3)"
    "reader_u16 r3 = Some (of_nat (body_count (ty_body ty)), r4)"
    "reader_u16 r4 = Some (fst (snd (snd (body_header (ty_body ty)))), r5)"
    "reader_u16 r5 = Some (snd (snd (snd (body_header (ty_body ty)))), r6)"
    "reader_u64 r6 = Some (ty_ondisk_size ty, r7)"
    "reader_eightcc r7 = Some (ctrl_raw ty, r8)"
    "read_string (length (ty_name ty)) r8 = Inr (ty_name ty, r9)"
    "align_to 8 r9 = Inr (at bs (length w6))"
proof -
  have pb: "put_body (ty_body ty) w6 = Inr bs"
    using e by (auto simp: encode_type_Inr w6_def)
  have p6: "prefix w6 bs" using pb by (rule put_body_extends)
  let ?h = "body_header (ty_body ty)"
  define w0 where "w0 = writer_u8 (type_flags ty) []"
  define w1 where "w1 = writer_u8 (fst (snd ?h)) w0"
  define w2 where "w2 = writer_u16 (of_nat (length (ty_name ty))) w1"
  define w2' where "w2' = writer_u16 (of_nat (body_count (ty_body ty))) w2"
  define w3 where "w3 = writer_u16 (fst (snd (snd ?h))) w2'"
  define w3' where "w3' = writer_u16 (snd (snd (snd ?h))) w3"
  define w4 where "w4 = writer_u64 (ty_ondisk_size ty) w3'"
  define w5 where "w5 = writer_eightcc (ctrl_raw ty) w4"
  define w5' where "w5' = writer_bytes (ty_name ty) w5"
  have w6': "w6 = writer_align 8 w5'"
    by (simp add: w6_def w5'_def w5_def w4_def w3'_def w3_def w2'_def w2_def w1_def w0_def type_prologue_def)
  have q: "prefix w5' w6" "prefix w5 w6" "prefix w4 w6" "prefix w3' w6" "prefix w3 w6"
      "prefix w2' w6" "prefix w2 w6" "prefix w1 w6" "prefix w0 w6"
    unfolding w6' w5'_def w5_def w4_def w3'_def w3_def w2'_def w2_def w1_def w0_def
    by (simp_all add: prefix_step)
  note ps = q [THEN prefix_order.trans, OF p6]
  have rn: "reader_new bs = at bs (length ([] :: writer))" by (simp add: reader_new_def)
  have
    "reader_u8 (reader_new bs) = Some (type_flags ty, at bs (length w0))"
    "reader_u8 (at bs (length w0)) = Some (fst (snd ?h), at bs (length w1))"
    "reader_u16 (at bs (length w1)) = Some (of_nat (length (ty_name ty)), at bs (length w2))"
    "reader_u16 (at bs (length w2)) = Some (of_nat (body_count (ty_body ty)), at bs (length w2'))"
    "reader_u16 (at bs (length w2')) = Some (fst (snd (snd ?h)), at bs (length w3))"
    "reader_u16 (at bs (length w3)) = Some (snd (snd (snd ?h)), at bs (length w3'))"
    "reader_u64 (at bs (length w3')) = Some (ty_ondisk_size ty, at bs (length w4))"
    "reader_eightcc (at bs (length w4)) = Some (ctrl_raw ty, at bs (length w5))"
    "read_string (length (ty_name ty)) (at bs (length w5)) = Inr (ty_name ty, at bs (length w5'))"
    "align_to 8 (at bs (length w5')) = Inr (at bs (length w6))"
    subgoal unfolding rn w0_def using ps fit by (intro reader_put) (simp_all add: w0_def)
    subgoal using ps fit by (simp add: w1_def reader_put)
    subgoal using ps fit by (simp add: w2_def reader_put)
    subgoal using ps fit by (simp add: w2'_def reader_put)
    subgoal using ps fit by (simp add: w3_def reader_put)
    subgoal using ps fit by (simp add: w3'_def reader_put)
    subgoal using ps fit by (simp add: w4_def reader_put)
    subgoal using ps fit wf_ctrl_raw [OF ok] by (simp add: w5_def reader_put)
    subgoal using ps fit ok by (simp add: w5'_def read_string_put type_ok_def)
    subgoal using p6 fit by (simp add: w6' align_to_put)
    done
  then show ?thesis by (rule that)
qed

lemma decode_type_header:
  assumes ok: "type_ok ty" and e: "encode_type ty = Inr bs" and fit: "fits bs"
  defines "w6 \<equiv> writer_align 8 (writer_bytes (ty_name ty) (type_prologue ty))"
  shows "decode_type tag bs = try_r
     (case ty_body ty of
        BEnum e \<Rightarrow> try_r (get_n variant_decode (length (en_variants e)) (at bs (length w6))) (\<lambda>(vs, r11).
              Inr (BEnum (e\<lparr>en_variants := vs\<rparr>)))
      | BStruct flds \<Rightarrow> try_r (get_n field_decode (length flds) (at bs (length w6))) (\<lambda>(fs, r11). Inr (BStruct fs)))
     (\<lambda>body. Inr (ty\<lparr>ty_tag := tag, ty_body := body\<rparr>))"
proof -
  have len: "body_count (ty_body ty) < 65536" "length (ty_name ty) < 65536"
    using e by (auto simp: encode_type_Inr)
  from type_header_reads [OF ok e fit] obtain r1 r2 r3 r4 r5 r6 r7 r8 r9 where reads:
    "reader_u8 (reader_new bs) = Some (type_flags ty, r1)"
    "reader_u8 r1 = Some (fst (snd (body_header (ty_body ty))), r2)"
    "reader_u16 r2 = Some (of_nat (length (ty_name ty)), r3)"
    "reader_u16 r3 = Some (of_nat (body_count (ty_body ty)), r4)"
    "reader_u16 r4 = Some (fst (snd (snd (body_header (ty_body ty)))), r5)"
    "reader_u16 r5 = Some (snd (snd (snd (body_header (ty_body ty)))), r6)"
    "reader_u64 r6 = Some (ty_ondisk_size ty, r7)"
    "reader_eightcc r7 = Some (ctrl_raw ty, r8)"
    "read_string (length (ty_name ty)) r8 = Inr (ty_name ty, r9)"
    "align_to 8 r9 = Inr (at bs (length w6))"
    unfolding w6_def by blast
  show ?thesis
  proof (cases "ty_body ty")
    case (BStruct flds)
    then show ?thesis
      using len ctrl_tag_raw [OF ok]
      by (simp add: decode_type_def reads unat_of_nat_small type_flags_bits Let_def
          ty_update_fields en_update_fields)
  next
    case (BEnum e)
    then have "1 \<le> en_disc_width e" "en_disc_width e \<le> 8"
      using ok by (auto simp: type_ok_def)
    then have "en_disc_width e \<noteq> 0" "\<not> 8 < en_disc_width e" by auto
    then show ?thesis
      using len ctrl_tag_raw [OF ok] BEnum
      by (simp add: decode_type_def reads unat_of_nat_small type_flags_bits Let_def
          ty_update_fields en_update_fields)
  qed
qed

lemma decode_encode:
  assumes "type_ok ty" and "encode_type ty = Inr bs" and "fits bs"
  shows "decode_type (ty_tag ty) bs = Inr ty"
proof -
  have b: "body_ok (ty_body ty)" using assms(1) by (simp add: type_ok_def)
  have pb: "put_body (ty_body ty) (writer_align 8 (writer_bytes (ty_name ty) (type_prologue ty))) = Inr bs"
    using assms(2) by (simp add: encode_type_Inr)
  show ?thesis
    using get_body_put [OF b pb assms(3)]
    by (cases "ty_body ty") (simp_all add: decode_type_header [OF assms])
qed

text \<open>C27: Round trip of schema records: the bytes the encoder produces for a valid type
  descriptor (valid UTF-8 names, shapes within the decoder's nesting bound, a discriminant width
  of 1 to 8, a control tag exactly when weak) decode, under the tag the record is filed with, to
  that same descriptor.\<close>

theorem decode_encode_type:
  assumes "type_ok ty" and "encode_type ty = Inr bs" and "fits bs"
  shows "decode_type (ty_tag ty) bs = Inr ty"
  using assms by (rule decode_encode)

section \<open>A sample type\<close>

definition sample_type :: rtti_type where
  "sample_type = \<lparr>ty_tag = EightCC [80, 111, 105, 110, 116, 32, 32, 32], ty_name = [80, 116],
     ty_rc = False, ty_weak = False, ty_ctrl_tag = None, ty_ondisk_size = 16,
     ty_body = BStruct [\<lparr>fld_name = [120], fld_offset = 0, fld_shape = SOption (SPod 4)\<rparr>,
       \<lparr>fld_name = [99], fld_offset = 4, fld_shape = SClass True (SPod 2) [7, 9]\<rparr>]\<rparr>"

definition sample_bytes :: "u8 list" where
  "sample_bytes = [0, 0, 2, 0, 2, 0, 0, 0, 0, 0, 16, 0, 0, 0, 0, 0, 0, 0, 0, 0, 0, 0, 0, 0, 0, 0,
     80, 116, 0, 0, 0, 0, 0, 0, 0, 0, 1, 0, 6, 0, 120, 0, 0, 0, 16, 0, 4, 0, 0, 0, 0, 0,
     4, 0, 0, 0, 1, 0, 13, 0, 99, 0, 0, 0, 32, 1, 0, 2, 0, 0, 0, 2, 0, 0, 0, 7, 9, 0, 0, 0]"

text \<open>Evaluation rules that do not unfold an encoder under a bound variable.\<close>

lemma field_encode_eval:
  "shape_encode s [] = Inr sw \<Longrightarrow> length n < 65536 \<Longrightarrow> length sw < 65536 \<Longrightarrow>
   field_encode \<lparr>fld_name = n, fld_offset = off, fld_shape = s\<rparr> w
     = Inr (writer_align 4 (writer_bytes sw (writer_align 4 (writer_bytes n
         (writer_u16 (of_nat (length sw)) (writer_u16 (of_nat (length n)) (writer_u32 off w)))))))"
  by (simp add: field_encode_Inr)

lemma encode_type_struct:
  "ty_body ty = BStruct fs \<Longrightarrow> length fs < 65536 \<Longrightarrow> length (ty_name ty) < 65536 \<Longrightarrow>
   encode_type ty = put_all field_encode fs
     (writer_align 8 (writer_bytes (ty_name ty) (type_prologue ty)))"
  by (simp add: encode_type_def try_u16_def type_prologue_def ctrl_raw_def Let_def)

lemmas encode_eval = encode_type_struct field_encode_eval type_prologue_def ctrl_raw_def
  type_flags_def writer_defs evaluate writer_align_def vec_resize_def round_up_def shape_tags
  try_u32_def

lemma sample_encodes: "encode_type sample_type = Inr sample_bytes"
  by (simp add: sample_type_def sample_bytes_def encode_eval)

lemma sample_ok: "type_ok sample_type"
  by (simp add: type_ok_def sample_type_def field_ok_def MAX_SHAPE_DEPTH_def)

lemma sample_fits: "fits sample_bytes"
  by (simp add: fits_def sample_bytes_def)

lemma decode_encode_type_witness: "decode_type (ty_tag sample_type) sample_bytes = Inr sample_type"
  by (rule decode_encode_type [OF sample_ok sample_encodes sample_fits])

end
