(* ===== verification/SchemaSafety.thy ===== *)
theory SchemaSafety
  imports SchemaType
begin

text \<open>
  What the decoder of \<^verbatim>\<open>src/rtti/schema.rs\<close> guarantees on untrusted bytes: whatever
  it accepts satisfies the invariant \<open>type_ok\<close>, and the in-place class-variable slot it
  reports lies inside the record body. For the bytes of a valid type, the slot is exactly where
  the value of the first field of that name stands, and overwriting it yields the encoding of the
  type with the new value.
\<close>

section \<open>Accepted input is well formed\<close>

lemma need_Inr [simp]: "need v = Inr x \<longleftrightarrow> v = Some x"
  by (cases v) (auto simp: need_def ok_or_def)

declare ok_or_Inr [simp]

lemma reader_take_SomeD:
  "reader_take n r = Some (bs, r') \<Longrightarrow> length bs = n \<and> bs = slice (rd_pos r) n (rd_buf r)
     \<and> r' = r\<lparr>rd_pos := rd_pos r + n\<rparr> \<and> rd_pos r + n \<le> length (rd_buf r)"
  by (auto simp: reader_take_def Let_def split: if_splits)

lemma reader_eightcc_wf: "reader_eightcc r = Some (cc, r') \<Longrightarrow> wf_eightcc cc"
  by (auto simp: reader_eightcc_def wf_eightcc_def dest: reader_take_SomeD)

lemma read_string_Inr:
  "read_string n r = Inr (bs, r') \<longleftrightarrow> reader_take n r = Some (bs, r') \<and> utf8_valid bs"
  by (auto simp: read_string_def try_r_Inr split: if_splits)

lemma get_n_all:
  assumes "\<And>r v r'. get r = Inr (v, r') \<Longrightarrow> P v"
  shows "get_n get k r = Inr (vs, r') \<Longrightarrow> list_all P vs \<and> length vs = k"
  by (induction k arbitrary: r vs) (auto simp: try_r_Inr dest: assms)

lemma shape_decode_at_ok: "shape_decode_at d r = Inr (s, r') \<Longrightarrow> shape_ok d s"
proof (induction "MAX_SHAPE_DEPTH - d" arbitrary: d r s r' rule: less_induct)
  case less
  show ?case
  proof (cases "d < MAX_SHAPE_DEPTH")
    case True
    then have IH: "shape_decode_at (d + 1) r = Inr (s, r') \<Longrightarrow> shape_ok (d + 1) s" for r s r'
      by (intro less.hyps) auto
    then have IHn: "get_n (shape_decode_at (d + 1)) k r = Inr (ss, r') \<Longrightarrow> list_all (shape_ok (d + 1)) ss"
      for k r ss r'
      using get_n_all [of "shape_decode_at (d + 1)" "shape_ok (d + 1)"] by blast
    show ?thesis
      using less.prems True
      by (auto simp: shape_decode_at.simps [of d] try_r_Inr split: if_splits
          dest: reader_eightcc_wf IH IHn simp del: One_nat_def add_Suc_right add_0_right)
  next
    case False
    with less.prems show ?thesis by (simp add: shape_decode_at.simps)
  qed
qed

lemma field_decode_ok: "field_decode r = Inr (f, r') \<Longrightarrow> field_ok f"
  by (auto simp: field_decode_def try_r_Inr Let_def read_string_Inr field_ok_def shape_decode_def
      split: if_splits dest: shape_decode_at_ok)

lemma fields_decode_ok:
  "get_n field_decode k r = Inr (fs, r') \<Longrightarrow> list_all field_ok fs \<and> length fs = k"
  by (rule get_n_all) (rule field_decode_ok)

lemma variant_decode_ok: "variant_decode r = Inr (v, r') \<Longrightarrow> variant_ok v"
  by (auto simp: variant_decode_def try_r_Inr read_string_Inr variant_ok_def
      dest!: fields_decode_ok)

lemma variants_decode_ok:
  "get_n variant_decode k r = Inr (vs, r') \<Longrightarrow> list_all variant_ok vs \<and> length vs = k"
  by (rule get_n_all) (rule variant_decode_ok)

lemma decode_type_accepts:
  assumes "decode_type tag bs = Inr ty"
  shows "type_ok ty \<and> ty_tag ty = tag \<and> body_count (ty_body ty) < 65536"
proof -
  have c: "unat (c :: u16) < 65536" for c using unsigned_less [of c] by simp
  have d: "(w :: u8) \<noteq> 0 \<Longrightarrow> 1 \<le> w" for w by (simp add: word_le_nat_alt unat_gt_0 Suc_le_eq)
  show ?thesis
    using assms c d
    by (auto simp: decode_type_def try_r_Inr read_string_Inr Let_def type_ok_def not_less
        split: if_splits dest!: fields_decode_ok variants_decode_ok dest: reader_eightcc_wf)
qed

text \<open>C28: Whatever bytes the schema decoder accepts, it returns a descriptor that satisfies
  the invariant: UTF-8 names, shapes nested less than 64 deep with leaf \<open>Vec\<close> elements, a
  discriminant width of 1 to 8, a control tag exactly for weak types, and the tag it was asked
  for; so the interpreters never see an unbounded shape from untrusted data.\<close>

theorem decode_type_ok: "decode_type tag bs = Inr ty \<Longrightarrow> type_ok ty \<and> ty_tag ty = tag"
  using decode_type_accepts by blast

lemma decode_type_ok_witness:
  "\<exists>ty. decode_type (EightCC [80, 111, 105, 110, 116, 32, 32, 32]) sample_bytes = Inr ty \<and> type_ok ty"
proof -
  have d: "decode_type (ty_tag sample_type) sample_bytes = Inr sample_type"
    by (rule decode_encode [OF sample_ok sample_encodes sample_fits])
  show ?thesis using decode_type_ok [OF d] d by (auto simp: sample_type_def)
qed

section \<open>The slot of an untrusted record\<close>

text \<open>Reading never changes the buffer, so the bound the slot is checked against is that
  of the whole record body.\<close>

lemma reader_buf:
  "reader_take n r = Some (x0, r') \<Longrightarrow> rd_buf r' = rd_buf r"
  "reader_u8 r = Some (x1, r') \<Longrightarrow> rd_buf r' = rd_buf r"
  "reader_u16 r = Some (x2, r') \<Longrightarrow> rd_buf r' = rd_buf r"
  "reader_u32 r = Some (x3, r') \<Longrightarrow> rd_buf r' = rd_buf r"
  "reader_u64 r = Some (x4, r') \<Longrightarrow> rd_buf r' = rd_buf r"
  "reader_eightcc r = Some (x5, r') \<Longrightarrow> rd_buf r' = rd_buf r"
  "align_to a r = Inr r' \<Longrightarrow> rd_buf r' = rd_buf r"
  by (auto simp: reader_u8_def reader_u16_def reader_u32_def reader_u64_def reader_eightcc_def
      align_to_def reader_skip_pad_def dest!: reader_take_SomeD split: if_splits)

lemma get_n_buf:
  assumes "\<And>r v r'. get r = Inr (v, r') \<Longrightarrow> rd_buf r' = rd_buf r"
  shows "get_n get k r = Inr (vs, r') \<Longrightarrow> rd_buf r' = rd_buf r"
  by (induction k arbitrary: r vs) (auto simp: try_r_Inr dest: assms)

lemma shape_decode_at_buf: "shape_decode_at d r = Inr (s, r') \<Longrightarrow> rd_buf r' = rd_buf r"
proof (induction "MAX_SHAPE_DEPTH - d" arbitrary: d r s r' rule: less_induct)
  case less
  show ?case
  proof (cases "d < MAX_SHAPE_DEPTH")
    case True
    then have IH: "shape_decode_at (d + 1) r = Inr (s, r') \<Longrightarrow> rd_buf r' = rd_buf r" for r s r'
      by (intro less.hyps) auto
    then have IHn: "get_n (shape_decode_at (d + 1)) k r = Inr (ss, r') \<Longrightarrow> rd_buf r' = rd_buf r"
      for k r ss r'
      using get_n_buf [of "shape_decode_at (d + 1)"] by blast
    show ?thesis
      using less.prems True
      by (auto simp: shape_decode_at.simps [of d] try_r_Inr split: if_splits
          dest!: reader_buf IH IHn simp del: One_nat_def add_Suc_right add_0_right)
  next
    case False
    with less.prems show ?thesis by (simp add: shape_decode_at.simps)
  qed
qed

lemma class_value_within_shape_bound:
  "class_value_within_shape r = Inr (Some (off, len, m)) \<Longrightarrow> off + len \<le> length (rd_buf r)"
  by (auto simp: class_value_within_shape_def try_r_Inr shape_decode_def split: if_splits
      dest!: reader_buf shape_decode_at_buf)

lemma class_slot_loop_bound:
  "class_slot_loop k target r = Inr (Some (off, len, m)) \<Longrightarrow> off + len \<le> length (rd_buf r)"
proof (induction k arbitrary: r)
  case (Suc k)
  from Suc.prems show ?case
    by (auto simp: try_r_Inr shape_decode_def read_string_Inr split: if_splits
      dest!: class_value_within_shape_bound Suc.IH reader_buf shape_decode_at_buf)
qed simp

lemma class_value_slot_inside:
  "class_value_slot bs target = Inr (Some (off, len, m)) \<Longrightarrow> off + len \<le> length bs"
  by (auto simp: class_value_slot_def try_r_Inr read_string_Inr reader_new_def split: if_splits
      dest!: class_slot_loop_bound reader_buf)

section \<open>The slot of a valid type\<close>

text \<open>What a field list holds under a name: the first field of that name, when it is a
  class variable.\<close>

fun class_lookup :: "u8 list \<Rightarrow> rtti_field list \<Rightarrow> (bool \<times> u8 list) option" where
  "class_lookup target [] = None"
| "class_lookup target (f # fs) =
     (if fld_name f = target
      then (case fld_shape f of SClass m inner v \<Rightarrow> Some (m, v) | _ \<Rightarrow> None)
      else class_lookup target fs)"

fun class_update :: "u8 list \<Rightarrow> u8 list \<Rightarrow> rtti_field list \<Rightarrow> rtti_field list" where
  "class_update target v [] = []"
| "class_update target v (f # fs) =
     (if fld_name f = target
      then (case fld_shape f of SClass m inner u \<Rightarrow> f\<lparr>fld_shape := SClass m inner v\<rparr> | _ \<Rightarrow> f) # fs
      else f # class_update target v fs)"

text \<open>What an encoder appends depends only on the length of what it appends to.\<close>

lemma writer_align_len:
  "length x = length y \<Longrightarrow> \<exists>z. writer_align (2 ^ k) x = x @ z \<and> writer_align (2 ^ k) y = y @ z"
  by (simp add: writer_align_pad)

lemma align_append_len:
  "length x = length y \<Longrightarrow> writer_align 4 x = x @ z \<Longrightarrow> writer_align 4 y = y @ z"
  using writer_align_len [of x y 2] by auto

lemma field_encode_len:
  assumes "field_encode f x = Inr x'" and "length x = length y"
  shows "\<exists>z. x' = x @ z \<and> field_encode f y = Inr (y @ z)"
proof -
  obtain sw where sw: "shape_encode (fld_shape f) [] = Inr sw"
    and len: "length (fld_name f) < 65536" "length sw < 65536"
    and x': "x' = writer_align 4 (writer_bytes sw (writer_align 4 (writer_bytes (fld_name f)
         (writer_u16 (of_nat (length sw)) (writer_u16 (of_nat (length (fld_name f)))
           (writer_u32 (fld_offset f) x))))))"
    using assms(1) by (auto simp: field_encode_Inr)
  let ?h = "to_le32 (fld_offset f) @ to_le16 (of_nat (length (fld_name f)))
    @ to_le16 (of_nat (length sw)) @ fld_name f"
  obtain z1 where z1: "writer_align 4 (x @ ?h) = x @ ?h @ z1" "writer_align 4 (y @ ?h) = y @ ?h @ z1"
    using writer_align_len [of "x @ ?h" "y @ ?h" 2] assms(2) by auto
  obtain z2 where z2: "writer_align 4 (x @ ?h @ z1 @ sw) = x @ ?h @ z1 @ sw @ z2"
      "writer_align 4 (y @ ?h @ z1 @ sw) = y @ ?h @ z1 @ sw @ z2"
    using writer_align_len [of "x @ ?h @ z1 @ sw" "y @ ?h @ z1 @ sw" 2] assms(2) by auto
  have "x' = x @ ?h @ z1 @ sw @ z2"
    using z1(1) z2(1) by (simp add: x' writer_defs)
  moreover have "field_encode f y = Inr (y @ ?h @ z1 @ sw @ z2)"
    using z1(2) z2(2) sw len by (auto simp: field_encode_Inr writer_defs)
  ultimately show ?thesis by blast
qed

lemma put_all_field_len:
  "put_all field_encode fs x = Inr x' \<Longrightarrow> length x = length y \<Longrightarrow>
    \<exists>z. x' = x @ z \<and> put_all field_encode fs y = Inr (y @ z)"
proof (induction fs arbitrary: x y)
  case (Cons f fs)
  then obtain x1 where e: "field_encode f x = Inr x1" and r: "put_all field_encode fs x1 = Inr x'"
    by (auto simp: try_r_Inr)
  from field_encode_len [OF e Cons.prems(2)] obtain z1 where
    z1: "x1 = x @ z1" "field_encode f y = Inr (y @ z1)" by blast
  with Cons.IH [OF r, of "y @ z1"] Cons.prems(2) show ?case by auto
qed auto

definition field_prologue :: "rtti_field \<Rightarrow> nat \<Rightarrow> writer \<Rightarrow> writer" where
  "field_prologue f n w = writer_align 4 (writer_bytes (fld_name f)
     (writer_u16 (of_nat n) (writer_u16 (of_nat (length (fld_name f))) (writer_u32 (fld_offset f) w))))"

text \<open>A class field is a prologue, its value, and padding; the prologue and the padding depend
  on the value only through its length.\<close>

lemma class_field_encode:
  assumes "field_encode f w = Inr w'" and "fld_shape f = SClass m s v"
  shows "\<exists>p z. w' = w @ p @ v @ z
     \<and> (\<forall>v'. length v' = length v \<longrightarrow>
          field_encode (f\<lparr>fld_shape := SClass m s v'\<rparr>) w = Inr (w @ p @ v' @ z))
     \<and> (\<forall>sw. shape_encode (fld_shape f) [] = Inr sw \<longrightarrow>
          length (field_prologue f (length sw) w) + length sw = length (w @ p) + length v)"
proof -
  obtain sw where sw: "shape_encode (SClass m s v) [] = Inr sw"
    and len: "length (fld_name f) < 65536" "length sw < 65536"
    and w': "w' = writer_align 4 (writer_bytes sw (writer_align 4 (writer_bytes (fld_name f)
         (writer_u16 (of_nat (length sw)) (writer_u16 (of_nat (length (fld_name f)))
           (writer_u32 (fld_offset f) w))))))"
    using assms by (auto simp: field_encode_Inr)
  obtain q where q: "shape_encode s (writer_u8 (if m then 1 else 0) (writer_u8 TAG_CLASS [])) = Inr q"
    and lv: "length v < 4294967296" and sw': "sw = q @ to_le32 (of_nat (length v)) @ v"
    using sw by (auto simp: try_r_Inr try_u32_Inr writer_defs)
  let ?q = "q @ to_le32 (of_nat (length v))"
  have enc: "shape_encode (SClass m s v') [] = Inr (?q @ v')" if "length v' = length v" for v'
    using q lv that by (auto simp: try_r_Inr try_u32_Inr writer_defs)
  let ?h = "w @ to_le32 (fld_offset f) @ to_le16 (of_nat (length (fld_name f)))
    @ to_le16 (of_nat (length sw)) @ fld_name f"
  obtain z1 where z1: "writer_align 4 ?h = ?h @ z1"
    using writer_align_len [of ?h ?h 2] by auto
  obtain z2 where z2: "\<And>v'. length v' = length v \<Longrightarrow>
      writer_align 4 (?h @ z1 @ ?q @ v') = (?h @ z1 @ ?q @ v') @ z2"
  proof -
    obtain z2 where z: "writer_align 4 (?h @ z1 @ ?q @ v) = (?h @ z1 @ ?q @ v) @ z2"
      using writer_align_len [of "?h @ z1 @ ?q @ v" "?h @ z1 @ ?q @ v" 2] by auto
    have "writer_align 4 (?h @ z1 @ ?q @ v') = (?h @ z1 @ ?q @ v') @ z2" if "length v' = length v" for v'
      by (rule align_append_len [OF _ z]) (simp add: that)
    then show ?thesis using that by blast
  qed
  let ?p = "to_le32 (fld_offset f) @ to_le16 (of_nat (length (fld_name f)))
    @ to_le16 (of_nat (length sw)) @ fld_name f @ z1 @ ?q"
  have "w' = w @ ?p @ v @ z2"
    using z1 z2 [of v] by (simp add: w' sw' writer_defs)
  moreover have "field_encode (f\<lparr>fld_shape := SClass m s v'\<rparr>) w = Inr (w @ ?p @ v' @ z2)"
    if "length v' = length v" for v'
    unfolding field_encode_Inr
    using z1 z2 [OF that] enc [OF that] len that by (simp add: sw' writer_defs)
  moreover have "length (field_prologue f (length sw) w) + length sw = length (w @ ?p) + length v"
    using z1 by (simp add: field_prologue_def writer_defs sw')
  ultimately show ?thesis
    using sw unfolding assms(2) by (intro exI [of _ ?p] exI [of _ z2]) simp
qed

lemma slot_loop_step:
  assumes "prefix (field_prologue f n w) B" and "fits B" and "utf8_valid (fld_name f)"
    and "length (fld_name f) < 65536"
  defines "r5 \<equiv> at B (length (field_prologue f n w))"
  shows "class_slot_loop (Suc k) target (at B (length w)) =
     (if fld_name f = target then class_value_within_shape r5
      else try_r (shape_decode r5) (\<lambda>(s, r6). try_r (align_to 4 r6) (\<lambda>r7. class_slot_loop k target r7)))"
proof -
  let ?w1 = "writer_u32 (fld_offset f) w"
  let ?w2 = "writer_u16 (of_nat (length (fld_name f))) ?w1"
  let ?w3 = "writer_u16 (of_nat n) ?w2"
  let ?w4 = "writer_bytes (fld_name f) ?w3"
  have sub: "prefix x (field_prologue f n w) \<Longrightarrow> prefix x B" for x
    using assms(1) by (rule prefix_order.trans [rotated])
  have "prefix ?w1 B" "prefix ?w2 B" "prefix ?w3 B" "prefix ?w4 B" "prefix (writer_align 4 ?w4) B"
    by (rule sub, simp add: field_prologue_def prefix_step)+
  then show ?thesis
    using assms(2-4)
    by (simp add: r5_def field_prologue_def reader_put read_string_put align_to_put unat_of_nat_small)
qed

lemma shape_ok_mono: "shape_ok (Suc d) s \<Longrightarrow> shape_ok d s"
  by (induction s arbitrary: d) (auto simp: list_all_iff)

fun shape_tag :: "shape \<Rightarrow> u8" where
  "shape_tag (SPod _) = TAG_POD"
| "shape_tag (SOwned _) = TAG_OWNED"
| "shape_tag (SStrong _) = TAG_STRONG"
| "shape_tag (SWeak _) = TAG_WEAK"
| "shape_tag (SRef _) = TAG_REF"
| "shape_tag (SEmbed _) = TAG_EMBED"
| "shape_tag (SForeign _ _) = TAG_FOREIGN"
| "shape_tag (SOption _) = TAG_OPTION"
| "shape_tag (SArray _ _) = TAG_ARRAY"
| "shape_tag (SVec _) = TAG_VEC"
| "shape_tag (STuple _) = TAG_TUPLE"
| "shape_tag (SClass _ _ _) = TAG_CLASS"

lemma shape_encode_starts: "shape_encode s w = Inr w' \<Longrightarrow> prefix (writer_u8 (shape_tag s) w) w'"
proof (cases s)
  case (SArray n t)
  assume "shape_encode s w = Inr w'"
  then have "prefix (writer_u32 n (writer_u8 TAG_ARRAY w)) w'"
    using SArray extendsD [OF shape_encode_extends, of t] by simp
  with SArray show ?thesis by (simp add: prefix_writer_trans(3))
next
  case (STuple ts)
  assume "shape_encode s w = Inr w'"
  with STuple obtain k where "put_all shape_encode ts (writer_u8 k (writer_u8 TAG_TUPLE w)) = Inr w'"
    by (auto simp: try_r_Inr)
  then have "prefix (writer_u8 k (writer_u8 TAG_TUPLE w)) w'"
    by (rule extendsD [OF shape_wire.seq_extends])
  with STuple show ?thesis by (simp add: prefix_writer_trans(1))
next
  case (SClass m t v)
  assume "shape_encode s w = Inr w'"
  with SClass obtain w3 k where
      w3: "shape_encode t (writer_u8 (if m then 1 else 0) (writer_u8 TAG_CLASS w)) = Inr w3"
    and w': "w' = writer_bytes v (writer_u32 k w3)"
    by (auto simp: try_r_Inr)
  have "prefix (writer_u8 TAG_CLASS w) w3"
    using extendsD [OF shape_encode_extends w3] by (rule prefix_writer_trans)
  with SClass show ?thesis by (simp add: w' prefix_fwd)
qed (auto simp: writer_defs dest: extendsD [OF shape_encode_extends, unfolded writer_defs])

lemma shape_tag_class: "shape_tag s = TAG_CLASS \<longleftrightarrow> (\<exists>m i v. s = SClass m i v)"
  by (cases s) (simp_all add: shape_tags)

lemma shape_encode_tag:
  assumes "shape_encode s w = Inr w'" and "prefix w' B" and "fits B" and "\<And>m i v. s \<noteq> SClass m i v"
  shows "\<exists>t r1. reader_u8 (at B (length w)) = Some (t, r1) \<and> t \<noteq> TAG_CLASS"
proof -
  have "prefix (writer_u8 (shape_tag s) w) B"
    using shape_encode_starts [OF assms(1)] assms(2) by (rule prefix_order.trans)
  from reader_u8_put [OF this assms(3)] assms(4) show ?thesis
    by (auto simp: shape_tag_class)
qed

lemma value_within_other:
  assumes "shape_encode s w = Inr w'" and "prefix w' B" and "fits B" and "\<And>m i v. s \<noteq> SClass m i v"
  shows "class_value_within_shape (at B (length w)) = Inr None"
  using shape_encode_tag [OF assms] by (auto simp: class_value_within_shape_def)

lemma value_within_class:
  assumes e: "shape_encode (SClass m s v) w = Inr w'" and p: "prefix w' B" and f: "fits B"
    and ok: "shape_ok 0 (SClass m s v)"
  shows "class_value_within_shape (at B (length w)) = Inr (Some (length w' - length v, length v, m))"
proof -
  let ?w2 = "writer_u8 (if m then 1 else 0) (writer_u8 TAG_CLASS w)"
  from e obtain w3 where w3: "shape_encode s ?w2 = Inr w3" and len: "length v < 4294967296"
    and w': "w' = writer_bytes v (writer_u32 (of_nat (length v)) w3)"
    by (auto simp: try_r_Inr try_u32_Inr)
  from p have p4: "prefix (writer_u32 (of_nat (length v)) w3) B"
    unfolding w' by (rule prefix_writer_trans)
  then have p3: "prefix w3 B" by (rule prefix_writer_trans)
  then have p2: "prefix ?w2 B"
    using extendsD [OF shape_encode_extends w3] by (rule prefix_order.trans [rotated])
  then have p1: "prefix (writer_u8 TAG_CLASS w) B" by (rule prefix_writer_trans)
  have "shape_ok 0 s" using ok shape_ok_mono by simp
  then have d: "shape_decode (at B (length ?w2)) = Inr (s, at B (length w3))"
    using p3 f w3 by (intro reads_backD [OF shape_wire.put_get])
  have l: "length (writer_u32 (of_nat (length v)) w3) + length v = length w'"
    by (simp add: w' writer_defs)
  have "length B < 2 ^ 63" using f by (simp add: fits_def)
  then have lt: "length w' < u64_limit" "length w' \<le> length B"
    using prefix_length_le [OF p] by auto
  show ?thesis
    using p1 p2 p4 f d l lt len
    by (cases m) (simp_all add: class_value_within_shape_def reader_put unat_of_nat_small)
qed

text \<open>The slot of a class variable in encoded bytes: where it is, what it holds, and that
  writing through it is encoding the updated field list.\<close>

definition slot_of ::
    "(bool \<times> u8 list) option \<Rightarrow> (u8 list \<Rightarrow> u8 list rtti) \<Rightarrow> u8 list \<Rightarrow> (nat \<times> nat \<times> bool) option \<Rightarrow> bool" where
  "slot_of found encode_with bs r \<longleftrightarrow>
     (case found of None \<Rightarrow> r = None
      | Some (m, v) \<Rightarrow> (\<exists>off. r = Some (off, length v, m) \<and> off + length v \<le> length bs
          \<and> slice off (length v) bs = v
          \<and> (\<forall>v'. length v' = length v \<longrightarrow> encode_with v' = Inr (overwrite off v' bs))))"

lemma slot_ofI:
  "bs = p @ v @ z \<Longrightarrow> (\<And>v'. length v' = length v \<Longrightarrow> encode_with v' = Inr (p @ v' @ z)) \<Longrightarrow>
    slot_of (Some (m, v)) encode_with bs (Some (length p, length v, m))"
  by (auto simp: slot_of_def slice_def overwrite_def)

lemma field_encode_prologue:
  "field_encode f w = Inr w' \<Longrightarrow> \<exists>sw. shape_encode (fld_shape f) [] = Inr sw
     \<and> length (fld_name f) < 65536 \<and> length sw < 65536
     \<and> w' = writer_align 4 (writer_bytes sw (field_prologue f (length sw) w))"
  by (auto simp: field_encode_Inr field_prologue_def)

lemma slot_loop_put:
  assumes "list_all field_ok fs" and "put_all field_encode fs w = Inr B" and "fits B"
  shows "\<exists>r. class_slot_loop (length fs) target (at B (length w)) = Inr r
     \<and> slot_of (class_lookup target fs) (\<lambda>v'. put_all field_encode (class_update target v' fs) w) B r"
  using assms(1,2)
proof (induction fs arbitrary: w)
  case Nil
  then show ?case by (simp add: slot_of_def)
next
  case (Cons f fs)
  from Cons.prems obtain w1 where e: "field_encode f w = Inr w1" and r: "put_all field_encode fs w1 = Inr B"
    by (auto simp: try_r_Inr)
  have ok: "field_ok f" "list_all field_ok fs" using Cons.prems by auto
  have p1: "prefix w1 B" using extendsD [OF field_wire.seq_extends r] .
  obtain sw where sw: "shape_encode (fld_shape f) [] = Inr sw" and len: "length (fld_name f) < 65536"
    and w1: "w1 = writer_align 4 (writer_bytes sw (field_prologue f (length sw) w))"
    using field_encode_prologue [OF e] by blast
  let ?w5 = "field_prologue f (length sw) w"
  have enc: "shape_encode (fld_shape f) ?w5 = Inr (writer_bytes sw ?w5)"
    using sw by (rule shape_encode_at)
  have p6: "prefix (writer_bytes sw ?w5) B"
    using p1 prefix_align_fwd(1) [of "writer_bytes sw ?w5" "writer_bytes sw ?w5"]
    unfolding w1 by (auto intro: prefix_order.trans)
  then have p5: "prefix ?w5 B" by (rule prefix_writer_trans)
  note step = slot_loop_step [OF p5 assms(3) _ len, of "length fs" target]
  show ?case
  proof (cases "fld_name f = target")
    case False
    have "shape_decode (at B (length ?w5)) = Inr (fld_shape f, at B (length (writer_bytes sw ?w5)))"
      using reads_backD [OF shape_wire.put_get enc p6 assms(3)] ok by (simp add: field_ok_def)
    then have "class_slot_loop (length (f # fs)) target (at B (length w))
        = class_slot_loop (length fs) target (at B (length w1))"
      using False step ok p1 assms(3) by (simp add: field_ok_def align_to_put w1)
    with Cons.IH [OF ok(2) r] e False show ?thesis by simp
  next
    case True
    show ?thesis
    proof (cases "\<exists>m s v. fld_shape f = SClass m s v")
      case False
      then have "class_value_within_shape (at B (length ?w5)) = Inr None"
        using value_within_other [OF enc p6 assms(3)] by blast
      moreover have "class_lookup target (f # fs) = None"
        using True False by (cases "fld_shape f") auto
      ultimately show ?thesis
        using True step ok by (simp add: field_ok_def slot_of_def)
    next
      case cls: True
      then obtain m s v where f: "fld_shape f = SClass m s v" by blast
      have vw: "class_value_within_shape (at B (length ?w5))
          = Inr (Some (length (writer_bytes sw ?w5) - length v, length v, m))"
        using enc p6 assms(3) ok unfolding f by (intro value_within_class) (auto simp: field_ok_def f)
      from class_field_encode [OF e f] obtain p z where w1': "w1 = w @ p @ v @ z"
        and upd: "\<And>v'. length v' = length v \<Longrightarrow>
           field_encode (f\<lparr>fld_shape := SClass m s v'\<rparr>) w = Inr (w @ p @ v' @ z)"
        and pos: "length ?w5 + length sw = length (w @ p) + length v"
        using sw by blast
      from put_all_field_len [OF r refl] obtain t where t: "B = w1 @ t" by blast
      have tail: "put_all field_encode fs (w @ p @ v' @ z) = Inr (w @ p @ v' @ z @ t)"
        if "length v' = length v" for v'
        using put_all_field_len [OF r, of "w @ p @ v' @ z"] that by (auto simp: w1' t)
      have "slot_of (Some (m, v)) (\<lambda>v'. put_all field_encode (class_update target v' (f # fs)) w) B
          (Some (length (w @ p), length v, m))"
        using upd tail True by (intro slot_ofI [where z = "z @ t"]) (simp_all add: t w1' f)
      moreover have "length (writer_bytes sw ?w5) - length v = length (w @ p)"
        using pos by (simp add: writer_bytes_def)
      ultimately show ?thesis
        using True step vw ok by (simp add: field_ok_def f)
    qed
  qed
qed

lemma class_value_slot_header:
  assumes ok: "type_ok ty" and e: "encode_type ty = Inr bs" and fit: "fits bs"
  shows "class_value_slot bs target =
     (case ty_body ty of BEnum e \<Rightarrow> Inr None
      | BStruct flds \<Rightarrow> class_slot_loop (length flds) target
          (at bs (length (writer_align 8 (writer_bytes (ty_name ty) (type_prologue ty))))))"
proof -
  have len: "body_count (ty_body ty) < 65536" "length (ty_name ty) < 65536"
    using e by (auto simp: encode_type_Inr)
  from type_header_reads [OF ok e fit] obtain r1 r2 r3 r4 r5 r6 r7 r8 r9 where reads:
    "reader_u8 (reader_new bs) = Some (type_flags ty, r1)"
    "reader_u8 r1 = Some (fst (snd (body_header (ty_body ty))), r2)"
    "reader_u16 r2 = Some (of_nat (length (ty_name ty)), r3)"
    "reader_u16 r3 = Some (of_nat (body_count (ty_body ty)), r4)"
    "reader_u16 r4 = Some (fst (snd (snd (body_header (ty_body ty)))), r5)"
    "reader_u16 r5 = Some (snd (snd (snd (body_header (ty_body ty)))), r6)"
    "reader_u64 r6 = Some (ty_ondisk_size ty, r7)"
    "reader_eightcc r7 = Some (ctrl_raw ty, r8)"
    "read_string (length (ty_name ty)) r8 = Inr (ty_name ty, r9)"
    "align_to 8 r9 = Inr (at bs (length (writer_align 8 (writer_bytes (ty_name ty) (type_prologue ty)))))"
    by blast
  show ?thesis
    using len by (cases "ty_body ty")
      (simp_all add: class_value_slot_def reads unat_of_nat_small type_flags_bits)
qed

lemma length_class_update [simp]: "length (class_update target v fs) = length fs"
  by (induction fs) auto

lemma class_value_slot_of_struct:
  assumes ok: "type_ok ty" and b: "ty_body ty = BStruct fs" and e: "encode_type ty = Inr bs"
    and fit: "fits bs"
  shows "\<exists>r. class_value_slot bs target = Inr r
     \<and> slot_of (class_lookup target fs)
         (\<lambda>v'. encode_type (ty\<lparr>ty_body := BStruct (class_update target v' fs)\<rparr>)) bs r"
proof -
  let ?w6 = "writer_align 8 (writer_bytes (ty_name ty) (type_prologue ty))"
  have pa: "put_all field_encode fs ?w6 = Inr bs" and len: "length fs < 65536" "length (ty_name ty) < 65536"
    using e b by (auto simp: encode_type_Inr put_body_def)
  have "list_all field_ok fs" using ok b by (simp add: type_ok_def)
  from slot_loop_put [OF this pa fit, of target] obtain r where
      "class_slot_loop (length fs) target (at bs (length ?w6)) = Inr r"
    and so: "slot_of (class_lookup target fs) (\<lambda>v'. put_all field_encode (class_update target v' fs) ?w6) bs r"
    by blast
  then have r: "class_value_slot bs target = Inr r"
    by (simp add: class_value_slot_header [OF ok e fit] b)
  have "encode_type (ty\<lparr>ty_body := BStruct (class_update target v' fs)\<rparr>) = Inr y"
    if "put_all field_encode (class_update target v' fs) ?w6 = Inr y" for v' y
    using that len b
    by (simp add: encode_type_Inr put_body_def type_prologue_def type_flags_def ctrl_raw_def)
  then have "slot_of (class_lookup target fs)
      (\<lambda>v'. encode_type (ty\<lparr>ty_body := BStruct (class_update target v' fs)\<rparr>)) bs r"
    using so by (auto simp: slot_of_def split: option.splits)
  with r show ?thesis by blast
qed

lemma sample_slot:
  "\<exists>off. class_value_slot sample_bytes [99] = Inr (Some (off, 2, True))"
  using class_value_slot_of_struct [OF sample_ok _ sample_encodes sample_fits, of _ "[99]"]
  by (auto simp: sample_type_def slot_of_def)

text \<open>C30: The class-variable slot found in untrusted record bytes lies inside the record body,
  whatever the bytes: the in-place write that \<^verbatim>\<open>Registry\<close> then makes through it never
  leaves the record.\<close>

theorem class_value_slot_bound:
  "class_value_slot bs target = Inr (Some (off, len, m)) \<Longrightarrow> off + len \<le> length bs"
  by (rule class_value_slot_inside)

lemma class_value_slot_bound_witness:
  "\<exists>off. class_value_slot sample_bytes [99] = Inr (Some (off, 2, True)) \<and> off + 2 \<le> length sample_bytes"
  using sample_slot class_value_slot_bound [of sample_bytes "[99]" _ 2 True] by blast

text \<open>C29: In the record of a valid struct, the slot reported for a name is that of the first
  field of the name when it is a class variable, and no slot otherwise. It holds exactly the class
  value, and overwriting it in place with another value of the same length yields the record that
  encoding the descriptor with the new value produces.\<close>

theorem class_value_slot_struct:
  assumes "type_ok ty" and "ty_body ty = BStruct fs" and "encode_type ty = Inr bs" and "fits bs"
  shows "\<exists>r. class_value_slot bs target = Inr r
     \<and> slot_of (class_lookup target fs)
         (\<lambda>v'. encode_type (ty\<lparr>ty_body := BStruct (class_update target v' fs)\<rparr>)) bs r"
  using assms by (rule class_value_slot_of_struct)

lemma class_value_slot_struct_witness:
  "\<exists>off. class_value_slot sample_bytes [99] = Inr (Some (off, 2, True)) \<and> slice off 2 sample_bytes = [7, 9]"
  using class_value_slot_struct [OF sample_ok _ sample_encodes sample_fits, of _ "[99]"]
  by (auto simp: sample_type_def slot_of_def simp flip: numeral_2_eq_2)

section \<open>Layout comparison\<close>

lemma strip_shape_idem [simp]: "strip_shape (strip_shape s) = strip_shape s"
  by (induction s) (auto cong: map_cong)

lemma strip_shape_references: "has_reference (strip_shape s) = has_reference s"
  by (induction s) (auto simp: list_ex_iff)

text \<open>Two descriptors of one layout may differ in the values of their mutable class variables
  and in nothing else.\<close>

fun shape_agrees :: "shape \<Rightarrow> shape \<Rightarrow> bool" where
  "shape_agrees (SClass m s v) (SClass m' s' v') = (m = m' \<and> shape_agrees s s' \<and> (m \<or> v = v'))"
| "shape_agrees (SOption s) (SOption s') = shape_agrees s s'"
| "shape_agrees (SVec s) (SVec s') = shape_agrees s s'"
| "shape_agrees (SArray n s) (SArray n' s') = (n = n' \<and> shape_agrees s s')"
| "shape_agrees (STuple ss) (STuple ss') = list_all2 shape_agrees ss ss'"
| "shape_agrees s s' = (s = s')"

lemma strip_shape_leaf:
  "strip_shape s = SPod n \<longleftrightarrow> s = SPod n" "strip_shape s = SOwned c \<longleftrightarrow> s = SOwned c"
  "strip_shape s = SStrong c \<longleftrightarrow> s = SStrong c" "strip_shape s = SWeak c \<longleftrightarrow> s = SWeak c"
  "strip_shape s = SRef c \<longleftrightarrow> s = SRef c" "strip_shape s = SEmbed c \<longleftrightarrow> s = SEmbed c"
  "strip_shape s = SForeign c k \<longleftrightarrow> s = SForeign c k"
  by (cases s; simp)+

lemmas strip_shape_leaves = strip_shape_leaf strip_shape_leaf [THEN eq_iff_swap]

lemma strip_shape_agrees: "strip_shape s = strip_shape s' \<longleftrightarrow> shape_agrees s s'"
proof (induction s s' rule: shape_agrees.induct)
  case (5 ss ss')
  then show ?case
    by (auto simp: list_eq_iff_nth_eq list_all2_conv_all_nth)
qed (auto simp: strip_shape_leaves)

definition field_agrees :: "rtti_field \<Rightarrow> rtti_field \<Rightarrow> bool" where
  "field_agrees f g \<longleftrightarrow> fld_name f = fld_name g \<and> fld_offset f = fld_offset g
     \<and> shape_agrees (fld_shape f) (fld_shape g)"

definition variant_agrees :: "rtti_variant \<Rightarrow> rtti_variant \<Rightarrow> bool" where
  "variant_agrees u v \<longleftrightarrow> var_name u = var_name v \<and> var_disc u = var_disc v
     \<and> list_all2 field_agrees (var_fields u) (var_fields v)"

fun body_agrees :: "rtti_body \<Rightarrow> rtti_body \<Rightarrow> bool" where
  "body_agrees (BStruct fs) (BStruct gs) = list_all2 field_agrees fs gs"
| "body_agrees (BEnum d) (BEnum e) = (en_disc_width d = en_disc_width e \<and> en_disc_off d = en_disc_off e
     \<and> en_payload_off d = en_payload_off e
     \<and> list_all2 variant_agrees (en_variants d) (en_variants e))"
| "body_agrees _ _ = False"

lemma map_eq_all2: "(\<And>x y. f x = f y \<longleftrightarrow> P x y) \<Longrightarrow> map f xs = map f ys \<longleftrightarrow> list_all2 P xs ys"
  by (auto simp: list_eq_iff_nth_eq list_all2_conv_all_nth)

lemma strip_field_agrees: "strip_field f = strip_field g \<longleftrightarrow> field_agrees f g"
  by (cases f; cases g) (auto simp: strip_field_def field_agrees_def strip_shape_agrees)

lemma strip_variant_agrees:
  "u\<lparr>var_fields := map strip_field (var_fields u)\<rparr> = v\<lparr>var_fields := map strip_field (var_fields v)\<rparr>
     \<longleftrightarrow> variant_agrees u v"
  by (cases u; cases v)
    (auto simp: variant_agrees_def map_eq_all2 [of strip_field, OF strip_field_agrees])

text \<open>C31: Two type descriptors match in layout exactly when they agree in every part (tag, name,
  flags, control tag, size, discriminant geometry, fields with offsets and shapes) except for the
  values of mutable class variables.\<close>

theorem layouts_match_iff:
  "layouts_match a b \<longleftrightarrow> ty_tag a = ty_tag b \<and> ty_name a = ty_name b \<and> ty_rc a = ty_rc b
     \<and> ty_weak a = ty_weak b \<and> ty_ctrl_tag a = ty_ctrl_tag b
     \<and> ty_ondisk_size a = ty_ondisk_size b \<and> body_agrees (ty_body a) (ty_body b)"
proof -
  have e: "e\<lparr>en_variants := us\<rparr> = e'\<lparr>en_variants := us'\<rparr> \<longleftrightarrow> en_disc_width e = en_disc_width e'
      \<and> en_disc_off e = en_disc_off e' \<and> en_payload_off e = en_payload_off e' \<and> us = us'"
    for e e' :: rtti_enum and us us'
    by (cases e; cases e') auto
  show ?thesis
    by (cases a; cases b; cases "ty_body a"; cases "ty_body b")
      (auto simp: layouts_match_def strip_type_def e map_eq_all2 [of strip_field, OF strip_field_agrees]
        map_eq_all2 [of "\<lambda>v. v\<lparr>var_fields := map strip_field (var_fields v)\<rparr>", OF strip_variant_agrees])
qed

end
