(* ===== verification/Stack.thy ===== *)
theory Stack
  imports Pointers
begin

text \<open>
  The interface of the \<^verbatim>\<open>bstack\<close> store and allocator the crate is written against
  (\<^verbatim>\<open>BStack\<close>, \<^verbatim>\<open>BStackOwnedSliceAllocator\<close>,
  \<^verbatim>\<open>BStackBulkAllocator\<close>, and the crate's own bound
  \<^verbatim>\<open>BStackRaiiAllocator\<close> of \<^verbatim>\<open>src/types/alloc/mod.rs\<close>). The store is not
  code of this repository: its operations are a record of parameters over an abstract state, and
  what the crate relies on is the locale \<open>stack_laws\<close>, stated over a view of the state (the
  payload bytes, the live allocations). Every operation may fail. A byte-array store with
  injected faults, \<open>mem_io\<close>, is an instance.
\<close>

section \<open>Operations\<close>

text \<open>\<^verbatim>\<open>BStack::inplace_gen\<close> runs a generator of reads and writes under the store's
  write lock and commits the writes as one batch. Its reads are \<open>op_read\<close>, and the batch it
  ends with is \<open>op_commit\<close>. \<open>op_process\<close> applies a function to a range and reports the
  bytes it saw. \<open>op_host_free\<close> frees a range in an attached foreign file, or reports
  \<open>None\<close> when no such file is attached.\<close>

type_synonym writes = "(u64 \<times> u8 list) list"

record 's stack_ops =
  op_read :: "u64 \<Rightarrow> nat \<Rightarrow> 's \<Rightarrow> u8 list res \<times> 's"
  op_set :: "u64 \<Rightarrow> u8 list \<Rightarrow> 's \<Rightarrow> unit res \<times> 's"
  op_commit :: "writes \<Rightarrow> 's \<Rightarrow> unit res \<times> 's"
  op_process :: "u64 \<Rightarrow> u64 \<Rightarrow> (u8 list \<Rightarrow> u8 list) \<Rightarrow> 's \<Rightarrow> u8 list res \<times> 's"
  op_cas :: "u64 \<Rightarrow> u8 list \<Rightarrow> u8 list \<Rightarrow> 's \<Rightarrow> bool res \<times> 's"
  op_alloc :: "u64 \<Rightarrow> 's \<Rightarrow> range res \<times> 's"
  op_dealloc :: "range \<Rightarrow> 's \<Rightarrow> unit res \<times> 's"
  op_alloc_bulk :: "u64 list \<Rightarrow> 's \<Rightarrow> range list res \<times> 's"
  op_dealloc_bulk :: "range list \<Rightarrow> 's \<Rightarrow> unit res \<times> 's"
  op_host_free :: "file_id \<Rightarrow> range \<Rightarrow> 's \<Rightarrow> unit res option \<times> 's"
  op_coalesce :: "'s \<Rightarrow> unit res \<times> 's"
  op_anchor :: "u64 option"
  op_atomic_bulk :: bool

text \<open>What an observer sees of a store: its payload, its live allocations, that it is consistent,
  and that no operation on it fails for a reason other than its arguments.\<close>

record 's stack_view =
  v_bytes :: "'s \<Rightarrow> u8 list"
  v_live :: "'s \<Rightarrow> range set"
  v_good :: "'s \<Rightarrow> bool"
  v_calm :: "'s \<Rightarrow> bool"

section \<open>Ranges and writes\<close>

definition range_end :: "range \<Rightarrow> nat" where
  "range_end r = unat (fst r) + unat (snd r)"

definition apart :: "range \<Rightarrow> range \<Rightarrow> bool" where
  "apart p q \<longleftrightarrow> range_end p \<le> unat (fst q) \<or> range_end q \<le> unat (fst p)"

text \<open>The word at offset 0 is the null niche and \<open>[8, 16)\<close> the WAL anchor.\<close>

definition reserved :: range where
  "reserved = (0, 16)"

definition content :: "u8 list \<Rightarrow> range \<Rightarrow> u8 list" where
  "content b r = slice (unat (fst r)) (unat (snd r)) b"

definition same_on :: "range set \<Rightarrow> u8 list \<Rightarrow> u8 list \<Rightarrow> bool" where
  "same_on R b b' \<longleftrightarrow> (\<forall>r \<in> R. content b' r = content b r)"

fun apply_writes :: "writes \<Rightarrow> u8 list \<Rightarrow> u8 list" where
  "apply_writes [] b = b"
| "apply_writes ((off, d) # ws) b = apply_writes ws (overwrite (unat off) d b)"

definition in_bounds :: "u8 list \<Rightarrow> writes \<Rightarrow> bool" where
  "in_bounds b ws \<longleftrightarrow> (\<forall>(off, d) \<in> set ws. unat off + length d \<le> length b)"

lemma in_bounds_simps [simp]:
  "in_bounds b []"
  "in_bounds b ((off, d) # ws) \<longleftrightarrow> unat off + length d \<le> length b \<and> in_bounds b ws"
  by (auto simp: in_bounds_def)

lemma length_apply_writes [simp]: "in_bounds b ws \<Longrightarrow> length (apply_writes ws b) = length b"
  by (induction ws b rule: apply_writes.induct) (auto simp: in_bounds_def)

text \<open>Bytes a batch does not touch.\<close>

lemma slice_apply_writes:
  "in_bounds b ws \<Longrightarrow> a + n \<le> length b \<Longrightarrow>
    (\<And>off d. (off, d) \<in> set ws \<Longrightarrow> a + n \<le> unat off \<or> unat off + length d \<le> a) \<Longrightarrow>
    slice a n (apply_writes ws b) = slice a n b"
proof (induction ws b rule: apply_writes.induct)
  case (2 off d ws b)
  have "slice a n (apply_writes ws (overwrite (unat off) d b)) = slice a n (overwrite (unat off) d b)"
    using 2 by (intro "2.IH") (auto simp: in_bounds_def)
  with 2 show ?case by (simp add: slice_overwrite_disjoint)
qed simp

definition inside :: "nat \<Rightarrow> nat \<Rightarrow> range \<Rightarrow> bool" where
  "inside a n r \<longleftrightarrow> unat (fst r) \<le> a \<and> a + n \<le> range_end r"

lemma inside_apart:
  "inside a n r \<Longrightarrow> apart r q \<Longrightarrow> a + n \<le> unat (fst q) \<or> range_end q \<le> a"
  by (auto simp: inside_def apart_def)

section \<open>What the crate relies on\<close>

definition unchanged :: "'s stack_view \<Rightarrow> 's \<Rightarrow> 's \<Rightarrow> bool" where
  "unchanged vw s s' \<longleftrightarrow> v_good vw s' \<and> v_bytes vw s' = v_bytes vw s \<and> v_live vw s' = v_live vw s"

definition written :: "'s stack_view \<Rightarrow> 's \<Rightarrow> u8 list \<Rightarrow> 's \<Rightarrow> bool" where
  "written vw s b s' \<longleftrightarrow> v_good vw s' \<and> v_bytes vw s' = b \<and> v_live vw s' = v_live vw s"

text \<open>The reserved words and the allocations of \<open>R\<close> keep their bytes, and \<open>L\<close> are the
  live allocations afterwards.\<close>

definition relived :: "'s stack_view \<Rightarrow> 's \<Rightarrow> range set \<Rightarrow> range set \<Rightarrow> 's \<Rightarrow> bool" where
  "relived vw s R L s' \<longleftrightarrow> v_good vw s' \<and> v_live vw s' = L
     \<and> same_on (insert reserved R) (v_bytes vw s) (v_bytes vw s')"

locale stack_laws =
  fixes io :: "'s stack_ops" and vw :: "'s stack_view"
  assumes good_store: "v_good vw s \<Longrightarrow> 16 \<le> length (v_bytes vw s) \<and> length (v_bytes vw s) < 2 ^ 63"
    and good_live: "v_good vw s \<Longrightarrow> q \<in> v_live vw s \<Longrightarrow>
      16 \<le> unat (fst q) \<and> 0 < unat (snd q) \<and> range_end q \<le> length (v_bytes vw s)"
    and good_apart: "v_good vw s \<Longrightarrow> p \<in> v_live vw s \<Longrightarrow> q \<in> v_live vw s \<Longrightarrow> p \<noteq> q \<Longrightarrow> apart p q"
    and read_law: "v_good vw s \<Longrightarrow> op_read io off n s = (rb, s') \<Longrightarrow> unchanged vw s s'
      \<and> (\<forall>b. rb = Inr b \<longrightarrow> unat off + n \<le> length (v_bytes vw s) \<and> b = slice (unat off) n (v_bytes vw s))"
    and set_law: "v_good vw s \<Longrightarrow> op_set io off d s = (ru, s') \<Longrightarrow>
      (case ru of Inl e \<Rightarrow> unchanged vw s s'
       | Inr _ \<Rightarrow> unat off + length d \<le> length (v_bytes vw s)
           \<and> written vw s (overwrite (unat off) d (v_bytes vw s)) s')"
    and commit_law: "v_good vw s \<Longrightarrow> op_commit io ws s = (ru, s') \<Longrightarrow>
      (case ru of Inl e \<Rightarrow> unchanged vw s s'
       | Inr _ \<Rightarrow> in_bounds (v_bytes vw s) ws \<and> written vw s (apply_writes ws (v_bytes vw s)) s')"
    and process_law: "v_good vw s \<Longrightarrow> op_process io a z f s = (rb, s') \<Longrightarrow>
      (\<And>b. length b = unat z - unat a \<Longrightarrow> length (f b) = length b) \<Longrightarrow>
      (case rb of Inl e \<Rightarrow> unchanged vw s s'
       | Inr b \<Rightarrow> unat a \<le> unat z \<and> unat z \<le> length (v_bytes vw s)
           \<and> b = slice (unat a) (unat z - unat a) (v_bytes vw s)
           \<and> written vw s (overwrite (unat a) (f b) (v_bytes vw s)) s')"
    and cas_law: "v_good vw s \<Longrightarrow> op_cas io off old new s = (rt, s') \<Longrightarrow> length old = length new \<Longrightarrow>
      (case rt of Inl e \<Rightarrow> unchanged vw s s'
       | Inr swapped \<Rightarrow> unat off + length new \<le> length (v_bytes vw s)
           \<and> swapped = (slice (unat off) (length old) (v_bytes vw s) = old)
           \<and> written vw s (if swapped then overwrite (unat off) new (v_bytes vw s) else v_bytes vw s) s')"
    and alloc_law: "v_good vw s \<Longrightarrow> op_alloc io sz s = (rq, s') \<Longrightarrow> sz \<noteq> 0 \<Longrightarrow>
      (case rq of Inl e \<Rightarrow> relived vw s (v_live vw s) (v_live vw s) s'
       | Inr q \<Rightarrow> snd q = sz \<and> q \<notin> v_live vw s \<and> relived vw s (v_live vw s) (insert q (v_live vw s)) s')"
    and dealloc_law: "v_good vw s \<Longrightarrow> q \<in> v_live vw s \<Longrightarrow> op_dealloc io q s = (ru, s') \<Longrightarrow>
      relived vw s (v_live vw s - {q}) (v_live vw s - {q}) s'
      \<or> (\<exists>e. ru = Inl e) \<and> relived vw s (v_live vw s - {q}) (v_live vw s) s'"
    and alloc_bulk_law: "v_good vw s \<Longrightarrow> op_alloc_bulk io ns s = (rqs, s') \<Longrightarrow> 0 \<notin> set ns \<Longrightarrow>
      (case rqs of Inl e \<Rightarrow> relived vw s (v_live vw s) (v_live vw s) s'
       | Inr qs \<Rightarrow> map snd qs = ns \<and> distinct qs \<and> set qs \<inter> v_live vw s = {}
           \<and> relived vw s (v_live vw s) (set qs \<union> v_live vw s) s')"
    and dealloc_bulk_law: "v_good vw s \<Longrightarrow> set qs \<subseteq> v_live vw s \<Longrightarrow> distinct qs \<Longrightarrow>
      op_dealloc_bulk io qs s = (ru, s') \<Longrightarrow>
      (case ru of Inl e \<Rightarrow> relived vw s (v_live vw s) (v_live vw s) s'
       | Inr _ \<Rightarrow> relived vw s (v_live vw s - set qs) (v_live vw s - set qs) s')"
    and host_law: "v_good vw s \<Longrightarrow> op_host_free io fid q s = (rh, s') \<Longrightarrow> unchanged vw s s'"
    and coalesce_law: "v_good vw s \<Longrightarrow> op_coalesce io s = (ru, s') \<Longrightarrow>
      relived vw s (v_live vw s) (v_live vw s) s'"
    and anchor_law: "op_anchor io = Some a \<Longrightarrow> a = 8"
    and calm_read: "v_good vw s \<Longrightarrow> v_calm vw s \<Longrightarrow> unat off + n \<le> length (v_bytes vw s) \<Longrightarrow>
      \<exists>b s'. op_read io off n s = (Inr b, s') \<and> v_calm vw s'"
    and calm_set: "v_good vw s \<Longrightarrow> v_calm vw s \<Longrightarrow> unat off + length d \<le> length (v_bytes vw s) \<Longrightarrow>
      \<exists>s'. op_set io off d s = (Inr (), s') \<and> v_calm vw s'"
    and calm_commit: "v_good vw s \<Longrightarrow> v_calm vw s \<Longrightarrow> in_bounds (v_bytes vw s) ws \<Longrightarrow>
      \<exists>s'. op_commit io ws s = (Inr (), s') \<and> v_calm vw s'"
    and calm_process: "v_good vw s \<Longrightarrow> v_calm vw s \<Longrightarrow> unat a \<le> unat z \<Longrightarrow> unat z \<le> length (v_bytes vw s) \<Longrightarrow>
      \<exists>b s'. op_process io a z f s = (Inr b, s') \<and> v_calm vw s'"
    and calm_cas: "v_good vw s \<Longrightarrow> v_calm vw s \<Longrightarrow> unat off + length new \<le> length (v_bytes vw s) \<Longrightarrow>
      \<exists>t s'. op_cas io off old new s = (Inr t, s') \<and> v_calm vw s'"
    and calm_alloc: "v_good vw s \<Longrightarrow> v_calm vw s \<Longrightarrow> op_alloc io sz s = (rq, s') \<Longrightarrow> v_calm vw s'"
    and calm_dealloc: "v_good vw s \<Longrightarrow> v_calm vw s \<Longrightarrow> q \<in> v_live vw s \<Longrightarrow>
      \<exists>s'. op_dealloc io q s = (Inr (), s') \<and> v_calm vw s'"
    and calm_alloc_bulk: "v_good vw s \<Longrightarrow> v_calm vw s \<Longrightarrow> op_alloc_bulk io ns s = (rqs, s') \<Longrightarrow> v_calm vw s'"
    and calm_dealloc_bulk: "v_good vw s \<Longrightarrow> v_calm vw s \<Longrightarrow> set qs \<subseteq> v_live vw s \<Longrightarrow> distinct qs \<Longrightarrow>
      \<exists>s'. op_dealloc_bulk io qs s = (Inr (), s') \<and> v_calm vw s'"
    and calm_host: "v_good vw s \<Longrightarrow> v_calm vw s \<Longrightarrow> op_host_free io fid q s = (rh, s') \<Longrightarrow>
      v_calm vw s' \<and> (\<forall>e. rh \<noteq> Some (Inl e))"

section \<open>A byte-array store with faults\<close>

record mem =
  m_bytes :: "u8 list"
  m_live :: "range list"
  m_faults :: "bool list"

definition mem_fault :: io_error where
  "mem_fault = IoError OtherKind ''fault''"

text \<open>Each call uses up one fault flag; a call that is faulted or not allowed fails.\<close>

definition mem_step :: "bool \<Rightarrow> (mem \<Rightarrow> 'a \<times> mem) \<Rightarrow> mem \<Rightarrow> 'a res \<times> mem" where
  "mem_step allowed act s =
     (let s' = s\<lparr>m_faults := tl (m_faults s)\<rparr> in
      if (m_faults s \<noteq> [] \<and> hd (m_faults s)) \<or> \<not> allowed then (Inl mem_fault, s')
      else (let (x, s'') = act s' in (Inr x, s'')))"

definition mem_extend :: "nat \<Rightarrow> mem \<Rightarrow> range \<times> mem" where
  "mem_extend n s =
     (let q = (of_nat (length (m_bytes s)), of_nat n) in
      (q, s\<lparr>m_bytes := m_bytes s @ replicate n 0, m_live := q # m_live s\<rparr>))"

fun mem_extends :: "nat list \<Rightarrow> mem \<Rightarrow> range list \<times> mem" where
  "mem_extends [] s = ([], s)"
| "mem_extends (n # ns) s =
     (let (q, s1) = mem_extend n s; (qs, s2) = mem_extends ns s1 in (q # qs, s2))"

definition mem_io :: "mem stack_ops" where
  "mem_io = \<lparr>
     op_read = (\<lambda>off n s. mem_step (unat off + n \<le> length (m_bytes s))
       (\<lambda>s. (slice (unat off) n (m_bytes s), s)) s),
     op_set = (\<lambda>off d s. mem_step (unat off + length d \<le> length (m_bytes s))
       (\<lambda>s. ((), s\<lparr>m_bytes := overwrite (unat off) d (m_bytes s)\<rparr>)) s),
     op_commit = (\<lambda>ws s. mem_step (in_bounds (m_bytes s) ws)
       (\<lambda>s. ((), s\<lparr>m_bytes := apply_writes ws (m_bytes s)\<rparr>)) s),
     op_process = (\<lambda>a z f s. mem_step (unat a \<le> unat z \<and> unat z \<le> length (m_bytes s))
       (\<lambda>s. let b = slice (unat a) (unat z - unat a) (m_bytes s) in
         (b, s\<lparr>m_bytes := overwrite (unat a) (f b) (m_bytes s)\<rparr>)) s),
     op_cas = (\<lambda>off old new s. mem_step (unat off + length new \<le> length (m_bytes s))
       (\<lambda>s. if slice (unat off) (length old) (m_bytes s) = old
         then (True, s\<lparr>m_bytes := overwrite (unat off) new (m_bytes s)\<rparr>) else (False, s)) s),
     op_alloc = (\<lambda>n s. mem_step (n \<noteq> 0 \<and> length (m_bytes s) + unat n < 2 ^ 63) (mem_extend (unat n)) s),
     op_dealloc = (\<lambda>q s. mem_step (q \<in> set (m_live s))
       (\<lambda>s. ((), s\<lparr>m_live := remove1 q (m_live s)\<rparr>)) s),
     op_alloc_bulk = (\<lambda>ns s. mem_step (0 \<notin> set ns \<and> length (m_bytes s) + sum_list (map unat ns) < 2 ^ 63)
       (mem_extends (map unat ns)) s),
     op_dealloc_bulk = (\<lambda>qs s. mem_step (set qs \<subseteq> set (m_live s))
       (\<lambda>s. ((), s\<lparr>m_live := filter (\<lambda>q. q \<notin> set qs) (m_live s)\<rparr>)) s),
     op_host_free = (\<lambda>f q s. (None, s)),
     op_coalesce = mem_step True (\<lambda>s. ((), s)),
     op_anchor = Some 8,
     op_atomic_bulk = False\<rparr>"

definition mem_good :: "mem \<Rightarrow> bool" where
  "mem_good s \<longleftrightarrow> 16 \<le> length (m_bytes s) \<and> length (m_bytes s) < 2 ^ 63 \<and> distinct (m_live s)
     \<and> (\<forall>q \<in> set (m_live s). 16 \<le> unat (fst q) \<and> 0 < unat (snd q) \<and> range_end q \<le> length (m_bytes s))
     \<and> (\<forall>p \<in> set (m_live s). \<forall>q \<in> set (m_live s). p \<noteq> q \<longrightarrow> apart p q)"

definition mem_view :: "mem stack_view" where
  "mem_view = \<lparr>v_bytes = m_bytes, v_live = (\<lambda>s. set (m_live s)), v_good = mem_good,
     v_calm = (\<lambda>s. True \<notin> set (m_faults s))\<rparr>"

lemmas mem_view_simps = mem_view_def stack_view.simps

lemma mem_step_cases:
  assumes "mem_step allowed act s = (r, s')"
  obtains (Fault) "r = Inl mem_fault" and "s' = s\<lparr>m_faults := tl (m_faults s)\<rparr>"
  | (Run) x where "allowed" and "r = Inr x" and "act (s\<lparr>m_faults := tl (m_faults s)\<rparr>) = (x, s')"
  using assms by (auto simp: mem_step_def Let_def split: if_splits prod.splits)

lemma mem_step_calm:
  assumes "True \<notin> set (m_faults s)" and "allowed"
  shows "mem_step allowed act s =
    (let (x, s') = act (s\<lparr>m_faults := tl (m_faults s)\<rparr>) in (Inr x, s'))"
  using assms by (cases "m_faults s") (auto simp: mem_step_def Let_def)

lemma mem_good_faults [simp]: "mem_good (s\<lparr>m_faults := f\<rparr>) = mem_good s"
  by (simp add: mem_good_def)

lemma mem_good_bytes:
  "mem_good s \<Longrightarrow> length b = length (m_bytes s) \<Longrightarrow> mem_good (s\<lparr>m_bytes := b\<rparr>)"
  by (simp add: mem_good_def)

lemma same_on_append:
  assumes "\<forall>q \<in> R. range_end q \<le> length b"
  shows "same_on R b (b @ c)"
  using assms by (auto simp: same_on_def content_def range_end_def slice_append1)

lemma same_on_refl [simp]: "same_on R b b"
  by (simp add: same_on_def)

lemma same_on_trans: "same_on R a b \<Longrightarrow> same_on S b c \<Longrightarrow> R \<subseteq> S \<Longrightarrow> same_on R a c"
  by (auto simp: same_on_def subset_eq)

lemma mem_extend_good:
  assumes g: "mem_good s" and n: "0 < n" "length (m_bytes s) + n < 2 ^ 63" and e: "mem_extend n s = (q, s')"
  shows "mem_good s' \<and> unat (snd q) = n \<and> q \<notin> set (m_live s) \<and> set (m_live s') = insert q (set (m_live s))
     \<and> m_bytes s' = m_bytes s @ replicate n 0"
proof -
  have l: "length (m_bytes s) < u64_limit" "n < u64_limit" using n by auto
  have q: "unat (fst q) = length (m_bytes s)" "unat (snd q) = n"
    using e l by (auto simp: mem_extend_def Let_def unat_of_nat_u64)
  have s': "s' = s\<lparr>m_bytes := m_bytes s @ replicate n 0, m_live := q # m_live s\<rparr>"
    using e by (auto simp: mem_extend_def Let_def)
  have new: "q \<notin> set (m_live s)"
    using g n(1) q by (fastforce simp: mem_good_def range_end_def)
  have ap: "apart q p \<and> apart p q" if "p \<in> set (m_live s)" for p
    using g that q by (fastforce simp: mem_good_def apart_def range_end_def)
  have re: "range_end q = length (m_bytes s) + n" using q by (simp add: range_end_def)
  have "mem_good s'"
    using g n new ap q re by (fastforce simp: mem_good_def s')
  then show ?thesis using q new by (simp add: s')
qed

lemma mem_extends_good:
  "mem_good s \<Longrightarrow> 0 \<notin> set ns \<Longrightarrow> length (m_bytes s) + sum_list ns < 2 ^ 63 \<Longrightarrow>
    mem_extends ns s = (qs, s') \<Longrightarrow> mem_good s' \<and> map (unat \<circ> snd) qs = ns \<and> distinct qs
      \<and> set qs \<inter> set (m_live s) = {} \<and> set (m_live s') = set qs \<union> set (m_live s)
      \<and> (\<exists>c. m_bytes s' = m_bytes s @ c)"
proof (induction ns arbitrary: s qs)
  case (Cons n ns)
  obtain q s1 where e1: "mem_extend n s = (q, s1)" by (cases "mem_extend n s")
  obtain qs' s2 where e2: "mem_extends ns s1 = (qs', s2)" by (cases "mem_extends ns s1")
  have qs: "qs = q # qs'" "s' = s2" using Cons.prems(4) e1 e2 by auto
  have h1: "mem_good s1 \<and> unat (snd q) = n \<and> q \<notin> set (m_live s) \<and> set (m_live s1) = insert q (set (m_live s))
     \<and> m_bytes s1 = m_bytes s @ replicate n 0"
    using Cons.prems e1 by (intro mem_extend_good) auto
  then have "mem_good s' \<and> map (unat \<circ> snd) qs' = ns \<and> distinct qs'
      \<and> set qs' \<inter> set (m_live s1) = {} \<and> set (m_live s') = set qs' \<union> set (m_live s1)
      \<and> (\<exists>c. m_bytes s' = m_bytes s1 @ c)"
    using Cons.prems e2 qs by (intro Cons.IH) auto
  with h1 show ?case by (auto simp: qs(1))
qed auto

lemmas mem_defs = mem_io_def mem_view_def unchanged_def written_def

lemma mem_reserved: "mem_good s \<Longrightarrow> range_end reserved \<le> length (m_bytes s)"
  by (simp add: mem_good_def reserved_def range_end_def)

lemma mem_within:
  "mem_good s \<Longrightarrow> R \<subseteq> set (m_live s) \<Longrightarrow> \<forall>q \<in> insert reserved R. range_end q \<le> length (m_bytes s)"
  using mem_reserved [of s] by (auto simp: mem_good_def)

lemma mem_drop_live:
  assumes "mem_good s" and "distinct l" and "set l \<subseteq> set (m_live s)"
  shows "mem_good (s\<lparr>m_live := l\<rparr>)"
  using assms by (auto simp: mem_good_def subset_eq)

lemma mem_alloc_law:
  assumes g: "v_good mem_view s" and a: "op_alloc mem_io n s = (r, s')" and n: "n \<noteq> 0"
  shows "case r of Inl e \<Rightarrow> relived mem_view s (v_live mem_view s) (v_live mem_view s) s'
    | Inr q \<Rightarrow> snd q = n \<and> q \<notin> v_live mem_view s
        \<and> relived mem_view s (v_live mem_view s) (insert q (v_live mem_view s)) s'"
proof -
  have g': "mem_good s" using g by (simp add: mem_view_simps)
  have a': "mem_step (n \<noteq> 0 \<and> length (m_bytes s) + unat n < 2 ^ 63) (mem_extend (unat n)) s = (r, s')"
    using a by (simp add: mem_io_def)
  then show ?thesis
  proof (cases rule: mem_step_cases)
    case Fault
    with g' show ?thesis by (simp add: relived_def mem_view_simps)
  next
    case (Run q)
    have "mem_good s' \<and> unat (snd q) = unat n \<and> q \<notin> set (m_live s)
        \<and> set (m_live s') = insert q (set (m_live s)) \<and> m_bytes s' = m_bytes s @ replicate (unat n) 0"
      using mem_extend_good [OF _ _ _ Run(3)] g' Run(1) by (simp add: unat_gt_0)
    moreover have "same_on (insert reserved (set (m_live s))) (m_bytes s) (m_bytes s @ replicate (unat n) 0)"
      using mem_within [OF g' subset_refl] by (rule same_on_append)
    ultimately show ?thesis
      using Run(2) by (simp add: relived_def mem_view_simps word_unat_eq_iff)
  qed
qed

lemma mem_alloc_bulk_law:
  assumes g: "v_good mem_view s" and a: "op_alloc_bulk mem_io ns s = (r, s')" and n: "0 \<notin> set ns"
  shows "case r of Inl e \<Rightarrow> relived mem_view s (v_live mem_view s) (v_live mem_view s) s'
    | Inr qs \<Rightarrow> map snd qs = ns \<and> distinct qs \<and> set qs \<inter> v_live mem_view s = {}
        \<and> relived mem_view s (v_live mem_view s) (set qs \<union> v_live mem_view s) s'"
proof -
  have g': "mem_good s" using g by (simp add: mem_view_simps)
  have a': "mem_step (0 \<notin> set ns \<and> length (m_bytes s) + sum_list (map unat ns) < 2 ^ 63)
       (mem_extends (map unat ns)) s = (r, s')"
    using a by (simp add: mem_io_def)
  then show ?thesis
  proof (cases rule: mem_step_cases)
    case Fault
    with g' show ?thesis by (simp add: relived_def mem_view_simps)
  next
    case (Run qs)
    have "0 \<notin> set (map unat ns)" using n by auto (metis unat_eq_0)
    with Run(1) have h: "mem_good s' \<and> map (unat \<circ> snd) qs = map unat ns \<and> distinct qs
        \<and> set qs \<inter> set (m_live s) = {} \<and> set (m_live s') = set qs \<union> set (m_live s)
        \<and> (\<exists>c. m_bytes s' = m_bytes s @ c)"
      using mem_extends_good [OF _ _ _ Run(3)] g' by simp
    then have "map unat (map snd qs) = map unat ns" by simp
    then have "map snd qs = ns" by (rule map_injective) (simp add: inj_def word_unat_eq_iff)
    moreover have "same_on (insert reserved (set (m_live s))) (m_bytes s) (m_bytes s @ c)" for c
      using mem_within [OF g' subset_refl] by (rule same_on_append)
    ultimately show ?thesis
      using h Run(2) by (auto simp: relived_def mem_view_simps)
  qed
qed

lemma mem_dealloc_law:
  assumes g: "v_good mem_view s" and q: "q \<in> v_live mem_view s" and a: "op_dealloc mem_io q s = (r, s')"
  shows "relived mem_view s (v_live mem_view s - {q}) (v_live mem_view s - {q}) s'
    \<or> (\<exists>e. r = Inl e) \<and> relived mem_view s (v_live mem_view s - {q}) (v_live mem_view s) s'"
proof -
  have g': "mem_good s" using g by (simp add: mem_view_simps)
  then have d: "distinct (m_live s)" by (simp add: mem_good_def)
  have "mem_good (s\<lparr>m_live := remove1 q (m_live s)\<rparr>)"
    using g' d by (intro mem_drop_live) (auto simp: distinct_remove1 dest: notin_set_remove1)
  with g' a d show ?thesis
    by (auto simp: mem_io_def relived_def mem_view_simps elim!: mem_step_cases)
      (simp_all add: mem_good_def)
qed

lemma mem_dealloc_bulk_law:
  assumes g: "v_good mem_view s" and q: "set qs \<subseteq> v_live mem_view s" and "distinct qs"
    and a: "op_dealloc_bulk mem_io qs s = (r, s')"
  shows "case r of Inl e \<Rightarrow> relived mem_view s (v_live mem_view s) (v_live mem_view s) s'
    | Inr _ \<Rightarrow> relived mem_view s (v_live mem_view s - set qs) (v_live mem_view s - set qs) s'"
proof -
  have g': "mem_good s" using g by (simp add: mem_view_simps)
  then have "mem_good (s\<lparr>m_live := filter (\<lambda>q. q \<notin> set qs) (m_live s)\<rparr>)"
    by (intro mem_drop_live) (auto simp: mem_good_def)
  with g' a show ?thesis
    by (auto simp: mem_io_def relived_def mem_view_simps elim!: mem_step_cases)
      (auto simp: mem_good_def)
qed

lemma mem_view_store:
  "v_good mem_view s \<Longrightarrow> 16 \<le> length (v_bytes mem_view s) \<and> length (v_bytes mem_view s) < 2 ^ 63"
  by (simp add: mem_view_simps mem_good_def)

lemma mem_view_live:
  "v_good mem_view s \<Longrightarrow> q \<in> v_live mem_view s \<Longrightarrow>
    16 \<le> unat (fst q) \<and> 0 < unat (snd q) \<and> range_end q \<le> length (v_bytes mem_view s)"
  by (simp add: mem_view_simps mem_good_def)

lemma mem_view_apart:
  "v_good mem_view s \<Longrightarrow> p \<in> v_live mem_view s \<Longrightarrow> q \<in> v_live mem_view s \<Longrightarrow> p \<noteq> q \<Longrightarrow> apart p q"
  by (simp add: mem_view_simps mem_good_def)

lemma calm_tl: "True \<notin> set xs \<Longrightarrow> True \<notin> set (tl xs)"
  by (cases xs) auto

lemma mem_extends_faults: "mem_extends ns s = (qs, s') \<Longrightarrow> m_faults s' = m_faults s"
  by (induction ns arbitrary: s qs) (auto simp: mem_extend_def Let_def split: prod.splits)

interpretation mem: stack_laws mem_io mem_view
proof unfold_locales
  fix s r s' off n assume "v_good mem_view s" "op_read mem_io off n s = (r, s')"
  then show "unchanged mem_view s s' \<and> (\<forall>b. r = Inr b \<longrightarrow>
      unat off + n \<le> length (v_bytes mem_view s) \<and> b = slice (unat off) n (v_bytes mem_view s))"
    by (auto simp: mem_defs elim!: mem_step_cases)
next
  fix s r s' off d assume "v_good mem_view s" "op_set mem_io off d s = (r, s')"
  then show "case r of Inl e \<Rightarrow> unchanged mem_view s s'
       | Inr _ \<Rightarrow> unat off + length d \<le> length (v_bytes mem_view s)
           \<and> written mem_view s (overwrite (unat off) d (v_bytes mem_view s)) s'"
    by (auto simp: mem_defs mem_good_bytes elim!: mem_step_cases)
next
  fix s r s' ws assume "v_good mem_view s" "op_commit mem_io ws s = (r, s')"
  then show "case r of Inl e \<Rightarrow> unchanged mem_view s s'
       | Inr _ \<Rightarrow> in_bounds (v_bytes mem_view s) ws
           \<and> written mem_view s (apply_writes ws (v_bytes mem_view s)) s'"
    by (auto simp: mem_defs mem_good_bytes elim!: mem_step_cases)
next
  fix s a z f r s' assume "v_good mem_view s" "op_process mem_io a z f s = (r, s')"
    "\<And>b. length b = unat z - unat a \<Longrightarrow> length (f b) = length b"
  then show "case r of Inl e \<Rightarrow> unchanged mem_view s s'
       | Inr b \<Rightarrow> unat a \<le> unat z \<and> unat z \<le> length (v_bytes mem_view s)
           \<and> b = slice (unat a) (unat z - unat a) (v_bytes mem_view s)
           \<and> written mem_view s (overwrite (unat a) (f b) (v_bytes mem_view s)) s'"
    by (auto simp: mem_defs Let_def mem_good_bytes elim!: mem_step_cases)
next
  fix s off old new r s' assume "v_good mem_view s" "op_cas mem_io off old new s = (r, s')"
    "length old = length new"
  then show "case r of Inl e \<Rightarrow> unchanged mem_view s s'
       | Inr b \<Rightarrow> unat off + length new \<le> length (v_bytes mem_view s)
           \<and> b = (slice (unat off) (length old) (v_bytes mem_view s) = old)
           \<and> written mem_view s (if b then overwrite (unat off) new (v_bytes mem_view s) else v_bytes mem_view s) s'"
    by (auto simp: mem_defs mem_good_bytes elim!: mem_step_cases split: if_splits)
next
  show "op_anchor mem_io = Some a \<Longrightarrow> a = 8" for a by (simp add: mem_io_def)
next
  fix s r s' fid q assume "v_good mem_view s" "op_host_free mem_io fid q s = (r, s')"
  then show "unchanged mem_view s s'" by (simp add: mem_defs)
next
  fix s r s' assume "v_good mem_view s" "op_coalesce mem_io s = (r, s')"
  then show "relived mem_view s (v_live mem_view s) (v_live mem_view s) s'"
    by (auto simp: mem_io_def relived_def mem_view_simps elim!: mem_step_cases)
next
  fix s and off :: u64 and n assume "v_calm mem_view s" "unat off + n \<le> length (v_bytes mem_view s)"
  then show "\<exists>b s'. op_read mem_io off n s = (Inr b, s') \<and> v_calm mem_view s'"
    by (simp add: mem_io_def mem_view_simps mem_step_calm calm_tl)
next
  fix s and off :: u64 and d :: "u8 list" assume "v_calm mem_view s" "unat off + length d \<le> length (v_bytes mem_view s)"
  then show "\<exists>s'. op_set mem_io off d s = (Inr (), s') \<and> v_calm mem_view s'"
    by (simp add: mem_io_def mem_view_simps mem_step_calm calm_tl)
next
  fix s ws assume "v_calm mem_view s" "in_bounds (v_bytes mem_view s) ws"
  then show "\<exists>s'. op_commit mem_io ws s = (Inr (), s') \<and> v_calm mem_view s'"
    by (simp add: mem_io_def mem_view_simps mem_step_calm calm_tl)
next
  fix s and a z :: u64 and f assume "v_calm mem_view s" "unat a \<le> unat z" "unat z \<le> length (v_bytes mem_view s)"
  then show "\<exists>b s'. op_process mem_io a z f s = (Inr b, s') \<and> v_calm mem_view s'"
    by (simp add: mem_io_def mem_view_simps mem_step_calm calm_tl Let_def)
next
  fix s and off :: u64 and old new :: "u8 list"
  assume "v_calm mem_view s" "unat off + length new \<le> length (v_bytes mem_view s)"
  then show "\<exists>t s'. op_cas mem_io off old new s = (Inr t, s') \<and> v_calm mem_view s'"
    by (cases "slice (unat off) (length old) (m_bytes s) = old")
      (simp_all add: mem_io_def mem_view_simps mem_step_calm calm_tl ex_bool_eq)
next
  fix s s' n r assume "v_calm mem_view s" "op_alloc mem_io n s = (r, s')"
  then show "v_calm mem_view s'"
    by (auto simp: mem_io_def mem_view_simps mem_extend_def Let_def calm_tl elim!: mem_step_cases)
next
  fix s q assume "v_calm mem_view s" "q \<in> v_live mem_view s"
  then show "\<exists>s'. op_dealloc mem_io q s = (Inr (), s') \<and> v_calm mem_view s'"
    by (simp add: mem_io_def mem_view_simps mem_step_calm calm_tl)
next
  fix s s' ns r assume "v_calm mem_view s" "op_alloc_bulk mem_io ns s = (r, s')"
  then show "v_calm mem_view s'"
    by (auto simp: mem_io_def mem_view_simps mem_extends_faults calm_tl elim!: mem_step_cases)
next
  fix s qs assume "v_calm mem_view s" "set qs \<subseteq> v_live mem_view s"
  then show "\<exists>s'. op_dealloc_bulk mem_io qs s = (Inr (), s') \<and> v_calm mem_view s'"
    by (simp add: mem_io_def mem_view_simps mem_step_calm calm_tl)
next
  fix s s' fid q r assume "v_calm mem_view s" "op_host_free mem_io fid q s = (r, s')"
  then show "v_calm mem_view s' \<and> (\<forall>e. r \<noteq> Some (Inl e))" by (auto simp: mem_io_def)
qed (fact mem_alloc_law mem_alloc_bulk_law mem_dealloc_law mem_dealloc_bulk_law mem_view_store
  mem_view_live mem_view_apart)+

end
