(* ===== verification/OpenAddr.thy ===== *)
theory OpenAddr
  imports Prelude
begin

text \<open>
  The abstract open-addressing table that \<^verbatim>\<open>src/stdlib/map.rs\<close> and
  \<^verbatim>\<open>src/stdlib/hashset.rs\<close> implement on disk: a list of buckets probed linearly
  from a hash, with tombstones. This is the specification level: \<open>scan\<close> is what a probe
  computes, \<open>table_map\<close> is the finite map a table stands for, \<open>wf_table\<close> is the
  invariant that makes probing sound, and the three bucket updates are shown to be the three
  map operations.
\<close>

section \<open>Tables\<close>

datatype ('k, 'v) bucket = Empty | Occupied 'k 'v | Tombstone

fun entry :: "('k, 'v) bucket \<Rightarrow> ('k \<times> 'v) option" where
  "entry (Occupied k v) = Some (k, v)"
| "entry _ = None"

definition entries :: "('k, 'v) bucket list \<Rightarrow> ('k \<times> 'v) list" where
  "entries bs = List.map_filter entry bs"

definition table_map :: "('k, 'v) bucket list \<Rightarrow> 'k \<rightharpoonup> 'v" where
  "table_map bs = map_of (entries bs)"

definition live_count :: "('k, 'v) bucket list \<Rightarrow> nat" where
  "live_count bs = length (entries bs)"

definition used_count :: "('k, 'v) bucket list \<Rightarrow> nat" where
  "used_count bs = length (filter (\<lambda>b. b \<noteq> Empty) bs)"

text \<open>The \<open>d\<close>-th position probed for a key.\<close>

definition probe_pos :: "('k \<Rightarrow> nat) \<Rightarrow> ('k, 'v) bucket list \<Rightarrow> 'k \<Rightarrow> nat \<Rightarrow> nat" where
  "probe_pos h bs k d = (h k + d) mod length bs"

definition reachable :: "('k \<Rightarrow> nat) \<Rightarrow> ('k, 'v) bucket list \<Rightarrow> 'k \<Rightarrow> nat \<Rightarrow> bool" where
  "reachable h bs k i \<longleftrightarrow> (\<exists>d < length bs. i = probe_pos h bs k d
     \<and> (\<forall>d' < d. bs ! probe_pos h bs k d' \<noteq> Empty))"

definition wf_table :: "('k \<Rightarrow> nat) \<Rightarrow> ('k, 'v) bucket list \<Rightarrow> bool" where
  "wf_table h bs \<longleftrightarrow>
     (\<forall>i < length bs. \<forall>k v. bs ! i = Occupied k v \<longrightarrow> reachable h bs k i)
     \<and> (\<forall>i < length bs. \<forall>j < length bs. \<forall>k v v'.
          bs ! i = Occupied k v \<longrightarrow> bs ! j = Occupied k v' \<longrightarrow> i = j)"

text \<open>What one probe decides.\<close>

datatype scan_result = Found nat | Vacant nat bool | Full

fun vacant_or :: "nat option \<Rightarrow> scan_result \<Rightarrow> scan_result" where
  "vacant_or (Some t) r = Vacant t False"
| "vacant_or None r = r"

fun scan :: "('k, 'v) bucket list \<Rightarrow> 'k \<Rightarrow> nat \<Rightarrow> nat \<Rightarrow> nat option \<Rightarrow> scan_result" where
  "scan bs k idx 0 tomb = vacant_or tomb Full"
| "scan bs k idx (Suc n) tomb =
     (case bs ! idx of
        Empty \<Rightarrow> vacant_or tomb (Vacant idx True)
      | Occupied k' v \<Rightarrow> if k' = k then Found idx else scan bs k (Suc idx mod length bs) n tomb
      | Tombstone \<Rightarrow> scan bs k (Suc idx mod length bs) n (case tomb of None \<Rightarrow> Some idx | Some t \<Rightarrow> Some t))"

definition probe :: "('k \<Rightarrow> nat) \<Rightarrow> ('k, 'v) bucket list \<Rightarrow> 'k \<Rightarrow> scan_result" where
  "probe h bs k = scan bs k (h k mod length bs) (length bs) None"

section \<open>Positions\<close>

lemma probe_pos_less: "bs \<noteq> [] \<Longrightarrow> probe_pos h bs k d < length bs"
  by (simp add: probe_pos_def)

lemma probe_pos_0: "probe_pos h bs k 0 = h k mod length bs"
  by (simp add: probe_pos_def)

lemma probe_pos_Suc: "Suc (probe_pos h bs k d) mod length bs = probe_pos h bs k (Suc d)"
  by (simp add: probe_pos_def mod_Suc_eq)

lemma probe_pos_surj:
  assumes "i < length bs"
  shows "\<exists>d < length bs. i = probe_pos h bs k d"
proof -
  let ?n = "length bs"
  let ?a = "h k mod ?n"
  have n: "0 < ?n" using assms by linarith
  show ?thesis
  proof (cases "?a \<le> i")
    case True
    have "probe_pos h bs k (i - ?a) = (?a + (i - ?a)) mod ?n"
      by (simp add: probe_pos_def mod_add_left_eq)
    with True assms have "i = probe_pos h bs k (i - ?a)" by simp
    with assms show ?thesis by (intro exI [of _ "i - ?a"]) auto
  next
    case False
    have "?a < ?n" using n by simp
    have "probe_pos h bs k (i + ?n - ?a) = (?a + (i + ?n - ?a)) mod ?n"
      by (simp add: probe_pos_def mod_add_left_eq)
    also have "?a + (i + ?n - ?a) = i + ?n" using \<open>?a < ?n\<close> by simp
    finally have "i = probe_pos h bs k (i + ?n - ?a)" using assms by simp
    then show ?thesis using False \<open>?a < ?n\<close> by (intro exI [of _ "i + ?n - ?a"]) auto
  qed
qed

lemma probe_pos_update [simp]: "probe_pos h (bs[i := b]) k d = probe_pos h bs k d"
  by (simp add: probe_pos_def)

section \<open>The map of a table\<close>

lemma in_entries: "(k, v) \<in> set (entries bs) \<longleftrightarrow> (\<exists>i < length bs. bs ! i = Occupied k v)"
proof -
  have "entry b = Some (k, v) \<longleftrightarrow> b = Occupied k v" for b
    by (cases b) auto
  then show ?thesis
    by (auto simp: entries_def List.map_filter_def in_set_conv_nth image_iff
        intro!: bexI [of _ "Occupied k v"])
qed

lemma wf_uniq:
  "wf_table h bs \<Longrightarrow> i < length bs \<Longrightarrow> j < length bs \<Longrightarrow> bs ! i = Occupied k v \<Longrightarrow>
    bs ! j = Occupied k v' \<Longrightarrow> i = j"
  unfolding wf_table_def by blast

lemma wf_distinct_keys:
  "wf_table h bs \<Longrightarrow> (k, v) \<in> set (entries bs) \<Longrightarrow> (k, v') \<in> set (entries bs) \<Longrightarrow> v = v'"
  unfolding in_entries wf_table_def by (metis bucket.inject)

lemma table_map_Some:
  assumes "wf_table h bs"
  shows "table_map bs k = Some v \<longleftrightarrow> (\<exists>i < length bs. bs ! i = Occupied k v)"
proof
  assume "table_map bs k = Some v"
  then have "(k, v) \<in> set (entries bs)" by (simp add: table_map_def map_of_SomeD)
  then show "\<exists>i < length bs. bs ! i = Occupied k v" by (simp add: in_entries)
next
  assume "\<exists>i < length bs. bs ! i = Occupied k v"
  then have m: "(k, v) \<in> set (entries bs)" by (simp add: in_entries)
  then obtain v' where v': "table_map bs k = Some v'"
    by (metis domIff dom_map_of_conv_image_fst fst_conv imageI option.exhaust table_map_def)
  then have "(k, v') \<in> set (entries bs)" by (simp add: table_map_def map_of_SomeD)
  with wf_distinct_keys [OF assms m] v' show "table_map bs k = Some v" by simp
qed

lemma table_map_None:
  "table_map bs k = None \<longleftrightarrow> (\<forall>i < length bs. \<forall>v. bs ! i \<noteq> Occupied k v)"
proof -
  have "table_map bs k = None \<longleftrightarrow> (\<forall>v. (k, v) \<notin> set (entries bs))"
    by (force simp: table_map_def map_of_eq_None_iff)
  then show ?thesis by (auto simp: in_entries)
qed

lemma table_map_eqI:
  assumes "wf_table h bs"
    and "\<And>k v. f k = Some v \<longleftrightarrow> (\<exists>i < length bs. bs ! i = Occupied k v)"
  shows "table_map bs = f"
proof
  fix k
  show "table_map bs k = f k"
    using assms(2) [of k] table_map_Some [OF assms(1), of k] by (metis not_None_eq)
qed

lemma reachable_mono:
  assumes "reachable h bs k i" and "length bs' = length bs"
    and "\<And>j. j < length bs \<Longrightarrow> bs ! j \<noteq> Empty \<Longrightarrow> bs' ! j \<noteq> Empty"
  shows "reachable h bs' k i"
proof -
  from assms(1) obtain d where d: "d < length bs" "i = probe_pos h bs k d"
      "\<forall>d' < d. bs ! probe_pos h bs k d' \<noteq> Empty"
    by (auto simp: reachable_def)
  have pos: "probe_pos h bs' k d' = probe_pos h bs k d'" for d'
    using assms(2) by (simp add: probe_pos_def)
  have "bs \<noteq> []" using d(1) by auto
  then have "bs' ! probe_pos h bs k d' \<noteq> Empty" if "d' < d" for d'
    using d(3) that assms(3) [OF probe_pos_less] by blast
  then show ?thesis
    unfolding reachable_def using d(1,2) assms(2) by (intro exI [of _ d]) (simp add: pos)
qed

subsection \<open>The three updates\<close>

text \<open>Placing a new key at a reachable free bucket.\<close>

lemma place_wf:
  assumes wf: "wf_table h bs" and i: "i < length bs" and free: "\<And>k v. bs ! i \<noteq> Occupied k v"
    and r: "reachable h bs k i" and new: "table_map bs k = None"
  shows "wf_table h (bs[i := Occupied k v])"
    and "table_map (bs[i := Occupied k v]) = (table_map bs)(k \<mapsto> v)"
proof -
  let ?bs = "bs[i := Occupied k v]"
  have ne: "j < length bs \<Longrightarrow> bs ! j \<noteq> Empty \<Longrightarrow> ?bs ! j \<noteq> Empty" for j
    by (cases "j = i") (use i in auto)
  have other: "k' \<noteq> k" if "j < length bs" "bs ! j = Occupied k' v'" for j k' v'
    using new that by (auto simp: table_map_None)
  show wf': "wf_table h ?bs"
    unfolding wf_table_def
  proof (intro conjI allI impI)
    fix j k' v' assume j: "j < length ?bs" and o: "?bs ! j = Occupied k' v'"
    show "reachable h ?bs k' j"
    proof (cases "j = i")
      case True
      with o i have "k' = k" by simp
      with True show ?thesis using reachable_mono [OF r, of ?bs] ne by simp
    next
      case False
      with o have "bs ! j = Occupied k' v'" by simp
      with wf j have "reachable h bs k' j" by (simp add: wf_table_def)
      then show ?thesis using reachable_mono [of h bs k' j ?bs] ne by simp
    qed
  next
    fix a b k' v1 v2 assume a: "a < length ?bs" and b: "b < length ?bs"
      and o: "?bs ! a = Occupied k' v1" "?bs ! b = Occupied k' v2"
    show "a = b"
      using a b o i other wf_uniq [OF wf, of a b k' v1 v2]
      by (cases "a = i"; cases "b = i") auto
  qed
  show "table_map ?bs = (table_map bs)(k \<mapsto> v)"
  proof (rule table_map_eqI [OF wf'])
    fix k' v'
    show "((table_map bs)(k \<mapsto> v)) k' = Some v' \<longleftrightarrow> (\<exists>j < length ?bs. ?bs ! j = Occupied k' v')"
      using i free other table_map_Some [OF wf]
      by (auto simp: nth_list_update) (metis, metis)
  qed
qed

text \<open>Replacing the value of a present key.\<close>

lemma replace_wf:
  assumes wf: "wf_table h bs" and i: "i < length bs" and cur: "bs ! i = Occupied k u"
  shows "wf_table h (bs[i := Occupied k v])"
    and "table_map (bs[i := Occupied k v]) = (table_map bs)(k \<mapsto> v)"
proof -
  let ?bs = "bs[i := Occupied k v]"
  have ne: "j < length bs \<Longrightarrow> bs ! j \<noteq> Empty \<Longrightarrow> ?bs ! j \<noteq> Empty" for j
    by (cases "j = i") (use i in auto)
  have old: "\<exists>v''. bs ! j = Occupied k' v''" if "j < length bs" "?bs ! j = Occupied k' v'" for j k' v'
    using that cur by (cases "j = i") auto
  have uniq: "j = i" if "j < length bs" "bs ! j = Occupied k v'" for j v'
    using wf cur i that unfolding wf_table_def by blast
  show wf': "wf_table h ?bs"
    unfolding wf_table_def
  proof (intro conjI allI impI)
    fix j k' v' assume j: "j < length ?bs" and o: "?bs ! j = Occupied k' v'"
    then have "reachable h bs k' j" using old wf by (fastforce simp: wf_table_def)
    then show "reachable h ?bs k' j" using reachable_mono [of h bs k' j ?bs] ne by simp
  next
    fix a b k' v1 v2 assume "a < length ?bs" "b < length ?bs"
      "?bs ! a = Occupied k' v1" "?bs ! b = Occupied k' v2"
    then show "a = b" using old wf_uniq [OF wf, of a b k'] by (metis length_list_update)
  qed
  show "table_map ?bs = (table_map bs)(k \<mapsto> v)"
  proof (rule table_map_eqI [OF wf'])
    fix k' v'
    show "((table_map bs)(k \<mapsto> v)) k' = Some v' \<longleftrightarrow> (\<exists>j < length ?bs. ?bs ! j = Occupied k' v')"
    proof (cases "k' = k")
      case True
      have "?bs ! j = Occupied k v' \<longleftrightarrow> j = i \<and> v' = v" if "j < length bs" for j
        using uniq [OF that, of v'] i by (cases "j = i") auto
      then show ?thesis using True i by auto
    next
      case False
      then have "?bs ! j = Occupied k' v' \<longleftrightarrow> bs ! j = Occupied k' v'" for j
        using i cur by (cases "j = i") auto
      with False show ?thesis using table_map_Some [OF wf, of k' v'] by simp
    qed
  qed
qed

text \<open>Turning an entry into a tombstone.\<close>

lemma remove_wf:
  assumes wf: "wf_table h bs" and i: "i < length bs" and cur: "bs ! i = Occupied k u"
  shows "wf_table h (bs[i := Tombstone])"
    and "table_map (bs[i := Tombstone]) = (table_map bs)(k := None)"
proof -
  let ?bs = "bs[i := Tombstone]"
  have ne: "j < length bs \<Longrightarrow> bs ! j \<noteq> Empty \<Longrightarrow> ?bs ! j \<noteq> Empty" for j
    by (cases "j = i") (use i in auto)
  have old: "bs ! j = Occupied k' v'" if "j < length bs" "?bs ! j = Occupied k' v'" for j k' v'
    using that i by (cases "j = i") auto
  have uniq: "j = i" if "j < length bs" "bs ! j = Occupied k v'" for j v'
    using wf cur i that unfolding wf_table_def by blast
  show wf': "wf_table h ?bs"
    unfolding wf_table_def
  proof (intro conjI allI impI)
    fix j k' v' assume j: "j < length ?bs" and o: "?bs ! j = Occupied k' v'"
    then have "reachable h bs k' j" using old wf by (fastforce simp: wf_table_def)
    then show "reachable h ?bs k' j" using reachable_mono [of h bs k' j ?bs] ne by simp
  next
    fix a b k' v1 v2 assume "a < length ?bs" "b < length ?bs"
      "?bs ! a = Occupied k' v1" "?bs ! b = Occupied k' v2"
    then show "a = b" using old wf_uniq [OF wf, of a b k'] by (metis length_list_update)
  qed
  show "table_map ?bs = (table_map bs)(k := None)"
  proof (rule table_map_eqI [OF wf'])
    fix k' v'
    show "((table_map bs)(k := None)) k' = Some v' \<longleftrightarrow> (\<exists>j < length ?bs. ?bs ! j = Occupied k' v')"
    proof (cases "k' = k")
      case True
      have "?bs ! j \<noteq> Occupied k v'" if "j < length bs" for j
        using uniq [OF that, of v'] i by (cases "j = i") auto
      then show ?thesis using True by auto
    next
      case False
      then have "?bs ! j = Occupied k' v' \<longleftrightarrow> bs ! j = Occupied k' v'" for j
        using i cur by (cases "j = i") auto
      with False show ?thesis using table_map_Some [OF wf, of k' v'] by simp
    qed
  qed
qed

section \<open>What a probe finds\<close>

text \<open>The state of a probe after \<open>d\<close> buckets: none of them was empty or held the key, and the
  remembered tombstone is one of them.\<close>

definition probed :: "('k \<Rightarrow> nat) \<Rightarrow> ('k, 'v) bucket list \<Rightarrow> 'k \<Rightarrow> nat \<Rightarrow> nat option \<Rightarrow> bool" where
  "probed h bs k d tomb \<longleftrightarrow> d \<le> length bs
     \<and> (\<forall>d' < d. bs ! probe_pos h bs k d' \<noteq> Empty \<and> (\<forall>v. bs ! probe_pos h bs k d' \<noteq> Occupied k v))
     \<and> (\<forall>t. tomb = Some t \<longrightarrow> bs ! t = Tombstone \<and> (\<exists>d' < d. t = probe_pos h bs k d'))
     \<and> (tomb = None \<longrightarrow> (\<forall>d' < d. bs ! probe_pos h bs k d' \<noteq> Tombstone))"

definition scan_ok :: "('k \<Rightarrow> nat) \<Rightarrow> ('k, 'v) bucket list \<Rightarrow> 'k \<Rightarrow> scan_result \<Rightarrow> bool" where
  "scan_ok h bs k r \<longleftrightarrow>
     (case r of
        Found i \<Rightarrow> i < length bs \<and> (\<exists>v. bs ! i = Occupied k v)
      | Vacant t fresh \<Rightarrow> t < length bs \<and> bs ! t = (if fresh then Empty else Tombstone)
          \<and> reachable h bs k t \<and> table_map bs k = None
      | Full \<Rightarrow> (\<forall>i < length bs. bs ! i \<noteq> Empty) \<and> table_map bs k = None)"

lemma absent_at_empty:
  assumes wf: "wf_table h bs" and pr: "probed h bs k d tomb" and d: "d < length bs"
    and e: "bs ! probe_pos h bs k d = Empty"
  shows "table_map bs k = None"
  unfolding table_map_None
proof (intro allI impI notI)
  fix i v assume i: "i < length bs" "bs ! i = Occupied k v"
  with wf have "reachable h bs k i" by (simp add: wf_table_def)
  then obtain d' where d': "d' < length bs" "i = probe_pos h bs k d'"
      "\<forall>d'' < d'. bs ! probe_pos h bs k d'' \<noteq> Empty"
    by (auto simp: reachable_def)
  have "\<not> d' < d" using pr i d'(2) by (auto simp: probed_def)
  moreover have "\<not> d < d'" using d'(3) e by blast
  ultimately have "d' = d" by simp
  with e i d'(2) show False by simp
qed

lemma absent_at_end:
  assumes "probed h bs k (length bs) tomb"
  shows "table_map bs k = None"
  unfolding table_map_None
proof (intro allI impI notI)
  fix i v assume i: "i < length bs" "bs ! i = Occupied k v"
  from probe_pos_surj [OF i(1), of h k]
  obtain d where d: "d < length bs" and p: "i = probe_pos h bs k d" by blast
  have "bs ! probe_pos h bs k d \<noteq> Occupied k v" using assms d unfolding probed_def by blast
  with i(2) show False by (simp add: p)
qed

lemma probed_reachable:
  assumes "probed h bs k d tomb" and "d' < d"
  shows "reachable h bs k (probe_pos h bs k d')"
  unfolding reachable_def
proof (intro exI conjI allI impI)
  show "d' < length bs" using assms by (auto simp: probed_def)
  show "bs ! probe_pos h bs k e \<noteq> Empty" if "e < d'" for e
    using assms that by (auto simp: probed_def)
qed (rule refl)

lemma scan_ok_vacant_tomb:
  assumes "probed h bs k d (Some t)" and "bs \<noteq> []" and "table_map bs k = None"
  shows "scan_ok h bs k (Vacant t False)"
proof -
  from assms(1) obtain d' where "bs ! t = Tombstone" "d' < d" "t = probe_pos h bs k d'"
    unfolding probed_def by blast
  then show ?thesis
    using probed_reachable [OF assms(1), of d'] probe_pos_less [OF assms(2), of h k d'] assms(3)
    by (simp add: scan_ok_def)
qed

lemma scan_correct:
  assumes wf: "wf_table h bs" and ne: "bs \<noteq> []"
  shows "probed h bs k d tomb \<Longrightarrow> d + n = length bs \<Longrightarrow>
    scan_ok h bs k (scan bs k (probe_pos h bs k d) n tomb)"
proof (induction n arbitrary: d tomb)
  case 0
  then have pr: "probed h bs k (length bs) tomb" by simp
  note absent = absent_at_end [OF pr]
  show ?case
  proof (cases tomb)
    case None
    have "bs ! i \<noteq> Empty" if "i < length bs" for i
      using probe_pos_surj [OF that, of h k] pr by (auto simp: probed_def)
    with None absent show ?thesis by (simp add: scan_ok_def)
  next
    case (Some t)
    with pr ne absent show ?thesis by (auto intro: scan_ok_vacant_tomb)
  qed
next
  case (Suc n)
  let ?i = "probe_pos h bs k d"
  have d: "d < length bs" using Suc.prems by simp
  have i: "?i < length bs" using ne by (rule probe_pos_less)
  show ?case
  proof (cases "bs ! ?i")
    case Empty
    note absent = absent_at_empty [OF wf Suc.prems(1) d Empty]
    show ?thesis
    proof (cases tomb)
      case None
      have "reachable h bs k ?i"
        unfolding reachable_def using d Suc.prems(1)
        by (intro exI [of _ d]) (auto simp: probed_def)
      with None Empty absent i show ?thesis by (simp add: scan_ok_def)
    next
      case (Some t)
      with Suc.prems(1) ne absent Empty show ?thesis by (auto intro: scan_ok_vacant_tomb)
    qed
  next
    case (Occupied k' v)
    show ?thesis
    proof (cases "k' = k")
      case True
      with Occupied i show ?thesis by (simp add: scan_ok_def)
    next
      case False
      have "probed h bs k (Suc d) tomb"
        using Suc.prems(1) d Occupied False by (auto simp: probed_def less_Suc_eq)
      then have "scan_ok h bs k (scan bs k (probe_pos h bs k (Suc d)) n tomb)"
        using Suc.prems(2) by (intro Suc.IH) auto
      with Occupied False show ?thesis by (simp add: probe_pos_Suc)
    qed
  next
    case Tombstone
    let ?t = "case tomb of None \<Rightarrow> Some ?i | Some t \<Rightarrow> Some t"
    have "probed h bs k (Suc d) ?t"
      using Suc.prems(1) d Tombstone by (auto simp: probed_def less_Suc_eq split: option.splits)
    then have "scan_ok h bs k (scan bs k (probe_pos h bs k (Suc d)) n ?t)"
      using Suc.prems(2) by (intro Suc.IH) auto
    with Tombstone show ?thesis by (simp add: probe_pos_Suc)
  qed
qed

lemma probe_correct: "wf_table h bs \<Longrightarrow> bs \<noteq> [] \<Longrightarrow> scan_ok h bs k (probe h bs k)"
  using scan_correct [of h bs k 0 None "length bs"]
  by (simp add: probe_def probe_pos_0 probed_def)

text \<open>A lookup stops at the first empty bucket or at the key.\<close>

fun seek :: "('k, 'v) bucket list \<Rightarrow> 'k \<Rightarrow> nat \<Rightarrow> nat \<Rightarrow> 'v option" where
  "seek bs k idx 0 = None"
| "seek bs k idx (Suc n) =
     (case bs ! idx of
        Empty \<Rightarrow> None
      | Occupied k' v \<Rightarrow> if k' = k then Some v else seek bs k (Suc idx mod length bs) n
      | Tombstone \<Rightarrow> seek bs k (Suc idx mod length bs) n)"

lemma seek_scan:
  "seek bs k idx n = (case scan bs k idx n tomb of
     Found i \<Rightarrow> (case bs ! i of Occupied k' v \<Rightarrow> Some v | _ \<Rightarrow> None) | _ \<Rightarrow> None)"
proof (induction n arbitrary: idx tomb)
  case 0
  then show ?case by (cases tomb) simp_all
next
  case (Suc n)
  show ?case
  proof (cases "bs ! idx")
    case Empty
    then show ?thesis by (cases tomb) simp_all
  next
    case (Occupied k' v)
    with Suc show ?thesis by simp
  next
    case Tombstone
    with Suc show ?thesis by (simp split: option.splits)
  qed
qed

lemma seek_correct:
  assumes wf: "wf_table h bs" and ne: "bs \<noteq> []"
  shows "seek bs k (h k mod length bs) (length bs) = table_map bs k"
proof -
  have ok: "scan_ok h bs k (probe h bs k)" using assms by (rule probe_correct)
  show ?thesis
  proof (cases "probe h bs k")
    case (Found i)
    with ok obtain v where i: "i < length bs" "bs ! i = Occupied k v" by (auto simp: scan_ok_def)
    then have "table_map bs k = Some v" using table_map_Some [OF wf] by blast
    with Found i show ?thesis
      by (simp add: seek_scan [where tomb = None] probe_def [symmetric])
  qed (use ok in \<open>simp_all add: seek_scan [where tomb = None] probe_def [symmetric] scan_ok_def\<close>)
qed

section \<open>Counting\<close>

lemma length_filter_update:
  "i < length xs \<Longrightarrow> length (filter P (xs[i := x])) + (if P (xs ! i) then 1 else 0)
     = length (filter P xs) + (if P x then 1 else 0)"
proof (induction xs arbitrary: i)
  case (Cons y ys)
  then show ?case by (cases i) (simp, use Cons.IH in fastforce)
qed simp

lemma live_count_filter: "live_count bs = length (filter (\<lambda>b. entry b \<noteq> None) bs)"
  by (induction bs) (auto simp: live_count_def entries_def List.map_filter_def)

lemma live_count_update:
  "i < length bs \<Longrightarrow> live_count (bs[i := b]) + (if entry (bs ! i) \<noteq> None then 1 else 0)
     = live_count bs + (if entry b \<noteq> None then 1 else 0)"
  unfolding live_count_filter by (rule length_filter_update)

lemma used_count_update:
  "i < length bs \<Longrightarrow> used_count (bs[i := b]) + (if bs ! i \<noteq> Empty then 1 else 0)
     = used_count bs + (if b \<noteq> Empty then 1 else 0)"
  unfolding used_count_def by (rule length_filter_update)

lemma live_le_used: "live_count bs \<le> used_count bs"
proof -
  have "entry b \<noteq> None \<Longrightarrow> b \<noteq> Empty" for b :: "('a, 'b) bucket" by auto
  then show ?thesis
    unfolding live_count_filter used_count_def by (induction bs) auto
qed

lemma used_full: "used_count bs = length bs \<Longrightarrow> i < length bs \<Longrightarrow> bs ! i \<noteq> Empty"
  using length_filter_less [of "bs ! i" bs "\<lambda>b. b \<noteq> Empty"] by (auto simp: used_count_def)

lemma not_full:
  assumes "\<forall>i < length bs. bs ! i \<noteq> Empty"
  shows "used_count bs = length bs"
proof -
  have "filter (\<lambda>b. b \<noteq> Empty) bs = bs"
    using assms by (auto simp: filter_id_conv in_set_conv_nth)
  then show ?thesis by (simp add: used_count_def)
qed

section \<open>Rehashing\<close>

fun first_empty :: "('k, 'v) bucket list \<Rightarrow> nat \<Rightarrow> nat \<Rightarrow> nat option" where
  "first_empty bs idx 0 = None"
| "first_empty bs idx (Suc n) =
     (if bs ! idx = Empty then Some idx else first_empty bs (Suc idx mod length bs) n)"

fun rehash :: "('k \<Rightarrow> nat) \<Rightarrow> ('k, 'v) bucket list \<Rightarrow> ('k, 'v) bucket list \<Rightarrow> ('k, 'v) bucket list option" where
  "rehash h new [] = Some new"
| "rehash h new (b # bs) =
     (case b of
        Occupied k v \<Rightarrow>
          (case first_empty new (h k mod length new) (length new) of
             None \<Rightarrow> None
           | Some i \<Rightarrow> rehash h (new[i := Occupied k v]) bs)
      | _ \<Rightarrow> rehash h new bs)"

lemma first_empty_correct:
  assumes "\<forall>d' < d. bs ! probe_pos h bs k d' \<noteq> Empty" and "d + n = length bs" and "bs \<noteq> []"
  shows "(case first_empty bs (probe_pos h bs k d) n of
      None \<Rightarrow> (\<forall>i < length bs. bs ! i \<noteq> Empty)
    | Some i \<Rightarrow> i < length bs \<and> bs ! i = Empty \<and> reachable h bs k i)"
  using assms
proof (induction n arbitrary: d)
  case 0
  have "bs ! i \<noteq> Empty" if "i < length bs" for i
    using probe_pos_surj [OF that, of h k] 0 by auto
  then show ?case by simp
next
  case (Suc n)
  show ?case
  proof (cases "bs ! probe_pos h bs k d = Empty")
    case True
    have "reachable h bs k (probe_pos h bs k d)"
      unfolding reachable_def using Suc.prems by (intro exI [of _ d]) auto
    with True Suc.prems(3) show ?thesis by (simp add: probe_pos_less)
  next
    case False
    with Suc.prems have "\<forall>d' < Suc d. bs ! probe_pos h bs k d' \<noteq> Empty"
      by (simp add: less_Suc_eq)
    from Suc.IH [OF this] Suc.prems False show ?thesis by (simp add: probe_pos_Suc)
  qed
qed

lemma first_empty_room:
  assumes "used_count bs < length bs"
  shows "\<exists>i. first_empty bs (h k mod length bs) (length bs) = Some i
     \<and> i < length bs \<and> bs ! i = Empty \<and> reachable h bs k i"
proof -
  have ne: "bs \<noteq> []" using assms by auto
  have "first_empty bs (h k mod length bs) (length bs) \<noteq> None"
    using first_empty_correct [of 0 bs h k "length bs"] ne not_full [of bs] assms
    by (cases "first_empty bs (h k mod length bs) (length bs)") (auto simp: probe_pos_0)
  then show ?thesis
    using first_empty_correct [of 0 bs h k "length bs"] ne by (auto simp: probe_pos_0)
qed

lemma table_map_Cons:
  "table_map (b # bs) = (case entry b of None \<Rightarrow> table_map bs | Some (k, v) \<Rightarrow> (table_map bs)(k \<mapsto> v))"
  by (auto simp: table_map_def entries_def List.map_filter_def split: option.splits)

lemma live_count_Cons:
  "live_count (b # bs) = (case entry b of None \<Rightarrow> 0 | Some _ \<Rightarrow> 1) + live_count bs"
  by (simp add: live_count_filter split: option.splits)

text \<open>Re-inserting the entries of a list with distinct keys into a table with room.\<close>

lemma rehash_correct:
  assumes "wf_table h new" and "\<forall>b \<in> set new. b \<noteq> Tombstone"
    and "distinct (map fst (entries bs))" and "dom (table_map new) \<inter> fst ` set (entries bs) = {}"
    and "used_count new + live_count bs < length new"
  shows "\<exists>new'. rehash h new bs = Some new' \<and> wf_table h new' \<and> length new' = length new
     \<and> table_map new' = table_map new ++ map_of (entries bs)
     \<and> used_count new' = used_count new + live_count bs
     \<and> live_count new' = live_count new + live_count bs
     \<and> (\<forall>b \<in> set new'. b \<noteq> Tombstone)"
  using assms
proof (induction bs arbitrary: new)
  case Nil
  then show ?case by (simp add: entries_def List.map_filter_def live_count_def)
next
  case (Cons b bs)
  show ?case
  proof (cases "entry b")
    case None
    then have e: "entries (b # bs) = entries bs"
      by (simp add: entries_def List.map_filter_def)
    from None have "rehash h new (b # bs) = rehash h new bs" by (cases b) auto
    with Cons None e show ?thesis by (simp add: live_count_def)
  next
    case (Some kv)
    then obtain k v where b: "b = Occupied k v" by (cases b) auto
    have e: "entries (b # bs) = (k, v) # entries bs"
      by (simp add: b entries_def List.map_filter_def)
    have lc: "live_count (b # bs) = Suc (live_count bs)" by (simp add: live_count_def e)
    have "used_count new < length new" using Cons.prems(5) by simp
    from first_empty_room [OF this, of h k] obtain i where
      i: "first_empty new (h k mod length new) (length new) = Some i" "i < length new"
        "new ! i = Empty" "reachable h new k i" by blast
    let ?new = "new[i := Occupied k v]"
    have absent: "table_map new k = None" using Cons.prems(4) e by auto
    note placed = place_wf [OF Cons.prems(1) i(2) _ i(4) absent, of v]
    have wf: "wf_table h ?new" and tm: "table_map ?new = (table_map new)(k \<mapsto> v)"
      using placed i(3) by simp_all
    have uc: "used_count ?new = Suc (used_count new)"
      using used_count_update [OF i(2), of "Occupied k v"] i(3) by simp
    have lcn: "live_count ?new = Suc (live_count new)"
      using live_count_update [OF i(2), of "Occupied k v"] i(3) by simp
    have nt: "\<forall>b \<in> set ?new. b \<noteq> Tombstone"
      using Cons.prems(2) set_update_subset_insert [of new i "Occupied k v"] by auto
    have d: "distinct (map fst (entries bs))" "k \<notin> fst ` set (entries bs)"
      using Cons.prems(3) e by auto
    have dj: "dom (table_map ?new) \<inter> fst ` set (entries bs) = {}"
      using Cons.prems(4) e d(2) by (auto simp: tm)
    have room: "used_count ?new + live_count bs < length ?new"
      using Cons.prems(5) lc uc by simp
    obtain new' where n': "rehash h ?new bs = Some new'" "wf_table h new'" "length new' = length ?new"
      "table_map new' = table_map ?new ++ map_of (entries bs)"
      "used_count new' = used_count ?new + live_count bs"
      "live_count new' = live_count ?new + live_count bs" "\<forall>b \<in> set new'. b \<noteq> Tombstone"
      using Cons.IH [OF wf nt d(1) dj room] by blast
    have "k \<notin> dom (map_of (entries bs))" using d(2) by (simp add: dom_map_of_conv_image_fst)
    then have "(table_map new)(k \<mapsto> v) ++ map_of (entries bs)
        = table_map new ++ map_of (entries (b # bs))"
      by (auto simp: e map_add_def fun_eq_iff split: option.splits)
    then show ?thesis
      using n' i uc lcn lc b tm by simp
  qed
qed

lemma wf_entries_distinct:
  assumes "wf_table h bs"
  shows "distinct (map fst (entries bs))"
proof -
  have gen: "distinct (map fst (entries cs))"
    if "\<And>i j k v v'. i < length cs \<Longrightarrow> j < length cs \<Longrightarrow> cs ! i = Occupied k v \<Longrightarrow> cs ! j = Occupied k v' \<Longrightarrow> i = j"
    for cs :: "('a, 'b) bucket list"
    using that
  proof (induction cs)
    case Nil
    then show ?case by (simp add: entries_def List.map_filter_def)
  next
    case (Cons b cs)
    have "distinct (map fst (entries cs))"
    proof (rule Cons.IH)
      fix i j k v v'
      assume "i < length cs" "j < length cs" "cs ! i = Occupied k v" "cs ! j = Occupied k v'"
      then show "i = j" using Cons.prems [of "Suc i" "Suc j" k v v'] by simp
    qed
    moreover have "k \<notin> fst ` set (entries cs)" if "b = Occupied k v" for k v
    proof
      assume "k \<in> fst ` set (entries cs)"
      then obtain v' i where "i < length cs" "cs ! i = Occupied k v'"
        by (auto simp: in_entries)
      then show False using Cons.prems [of 0 "Suc i" k v v'] that by simp
    qed
    ultimately show ?case
      by (cases b) (auto simp: entries_def List.map_filter_def)
  qed
  show ?thesis
    by (rule gen) (rule wf_uniq [OF assms])
qed

lemma wf_replicate: "wf_table h (replicate n Empty)"
  by (simp add: wf_table_def)

lemma rehash_fresh:
  assumes "wf_table h bs" and "live_count bs < n"
  shows "\<exists>new. rehash h (replicate n Empty) bs = Some new \<and> wf_table h new \<and> length new = n
     \<and> table_map new = table_map bs \<and> used_count new = live_count bs
     \<and> live_count new = live_count bs \<and> (\<forall>b \<in> set new. b \<noteq> Tombstone)"
proof -
  have e: "entries (replicate n Empty) = ([] :: ('a \<times> 'b) list)"
    by (induction n) (simp_all add: entries_def List.map_filter_def)
  then have t: "table_map (replicate n Empty :: ('a, 'b) bucket list) = Map.empty"
    by (simp add: table_map_def)
  have u: "used_count (replicate n Empty :: ('a, 'b) bucket list) = 0"
    by (simp add: used_count_def)
  show ?thesis
    using rehash_correct [OF wf_replicate, of n bs h] wf_entries_distinct [OF assms(1)] assms(2)
    by (simp add: t u e live_count_def table_map_def)
qed

end
