(* ===== verification/Probing.thy ===== *)
theory Probing
  imports Stack Hash OpenAddr
begin

text \<open>
  The on-disk plumbing of the collections, \<^verbatim>\<open>src/stdlib/util.rs\<close> with
  \<^verbatim>\<open>src/util/bytes.rs\<close>: field reads, block allocation, the atomic read-modify-write
  and the probe of an open-addressing table inside one \<^verbatim>\<open>inplace_gen\<close>, and table
  growth. A generator is unrolled into its reads, in the order it issues them, and the batch it
  ends with; a generator that aborts commits nothing. A closure that assigns captured
  \<^verbatim>\<open>Cell\<close>s is a function that threads their values. Outside a teardown,
  \<^verbatim>\<open>dealloc_range\<close> is the allocator's \<^verbatim>\<open>dealloc\<close>.
\<close>

definition HEADER_SIZE :: u64 where
  "HEADER_SIZE = 16"

section \<open>Fields and blocks\<close>

definition get_u64 :: "u8 list \<Rightarrow> u64" where
  "get_u64 buf = from_le64 (take 8 buf)"

definition read_u64 :: "'s stack_ops \<Rightarrow> u64 \<Rightarrow> 's \<Rightarrow> u64 res \<times> 's" where
  "read_u64 io off s = try_s (op_read io off 8 s) (\<lambda>b s. (Inr (from_le64 b), s))"

definition fields_of :: "nat \<Rightarrow> u8 list \<Rightarrow> u64 list" where
  "fields_of n b = map (\<lambda>i. from_le64 (slice (8 * i) 8 b)) [0..<n]"

definition read_fields :: "'s stack_ops \<Rightarrow> nat \<Rightarrow> u64 \<Rightarrow> 's \<Rightarrow> u64 list res \<times> 's" where
  "read_fields io n off s = try_s (op_read io off (n * 8) s) (\<lambda>b s. (Inr (fields_of n b), s))"

definition w8 :: "u64 \<Rightarrow> u64 \<Rightarrow> u64 \<times> u8 list" where
  "w8 off v = (off, to_le64 v)"

definition alloc_image :: "'s stack_ops \<Rightarrow> u8 list \<Rightarrow> 's \<Rightarrow> range res \<times> 's" where
  "alloc_image io bs s =
     try_s (op_alloc io (of_nat (length bs)) s) (\<lambda>q s1.
       case op_set io (fst q) bs s1 of
         (Inl e, s2) \<Rightarrow> (Inl e, snd (op_dealloc io q s2))
       | (Inr _, s2) \<Rightarrow> (Inr q, s2))"

text \<open>An operation that fails after taking a value hands it back to the caller.\<close>

definition finish_handback :: "u64 \<Rightarrow> 'a res \<Rightarrow> (io_error \<times> u64) + 'a" where
  "finish_handback val outcome = (case outcome of Inr r \<Rightarrow> Inr r | Inl e \<Rightarrow> Inl (e, val))"

section \<open>The atomic read-modify-write\<close>

fun read_each :: "'s stack_ops \<Rightarrow> u64 list \<Rightarrow> 's \<Rightarrow> u64 list res \<times> 's" where
  "read_each io [] s = (Inr [], s)"
| "read_each io (off # offs) s =
     try_s (op_read io off 8 s) (\<lambda>b s1.
     try_s (read_each io offs s1) (\<lambda>vs s2. (Inr (from_le64 b # vs), s2)))"

definition atomic_update ::
    "'s stack_ops \<Rightarrow> u64 list \<Rightarrow> (u64 list \<Rightarrow> u64 list res) \<Rightarrow> (u64 list \<Rightarrow> u64 list \<Rightarrow> (writes \<times> 'c) res)
      \<Rightarrow> 's \<Rightarrow> 'c res \<times> 's" where
  "atomic_update io reads1 reads2 plan s =
     try_s (read_each io reads1 s) (\<lambda>vals1 s1.
     try_in (reads2 vals1) s1 (\<lambda>offs2.
     try_s (read_each io offs2 s1) (\<lambda>vals2 s2.
     try_in (plan vals1 vals2) s2 (\<lambda>(ws, c).
     try_s (op_commit io ws s2) (\<lambda>_ s3. (Inr c, s3))))))"

section \<open>Probing\<close>

record meta =
  m_table :: u64
  m_cap :: u64
  m_len :: u64
  m_used :: u64

definition parse_meta :: "u8 list \<Rightarrow> meta" where
  "parse_meta b = \<lparr>m_table = get_u64 (slice 0 8 b), m_cap = get_u64 (slice 8 8 b),
     m_len = get_u64 (slice 16 8 b), m_used = get_u64 (slice 24 8 b)\<rparr>"

datatype probe_step = Continue | Stop "writes res"

text \<open>The number of buckets still to be probed is the first argument.\<close>

fun probe_loop ::
    "nat \<Rightarrow> 's stack_ops \<Rightarrow> meta \<Rightarrow> u64 \<Rightarrow> u64 \<Rightarrow> (meta \<Rightarrow> u64 \<Rightarrow> u8 list \<Rightarrow> 'c \<Rightarrow> probe_step \<times> 'c)
      \<Rightarrow> (meta \<Rightarrow> 'c \<Rightarrow> writes res \<times> 'c) \<Rightarrow> u64 \<Rightarrow> 'c \<Rightarrow> 's \<Rightarrow> (writes \<times> 'c) res \<times> 's" where
  "probe_loop 0 io m stride msk inspect exhausted cur c s =
     (case exhausted m c of (ws, c') \<Rightarrow> try_in ws s (\<lambda>ws. (Inr (ws, c'), s)))"
| "probe_loop (Suc n) io m stride msk inspect exhausted cur c s =
     try_in (checked_off_mul (m_table m) cur stride) s (\<lambda>off.
     try_s (op_read io off (unat stride) s) (\<lambda>buf s1.
       case inspect m cur buf c of
         (Stop ws, c') \<Rightarrow> try_in ws s1 (\<lambda>ws. (Inr (ws, c'), s1))
       | (Continue, c') \<Rightarrow>
           probe_loop n io m stride msk inspect exhausted ((cur + 1) AND msk) c' s1))"

definition probe_commit ::
    "'s stack_ops \<Rightarrow> u64 \<Rightarrow> u64 \<Rightarrow> u64 \<Rightarrow> (meta \<Rightarrow> u64 \<Rightarrow> u8 list \<Rightarrow> 'c \<Rightarrow> probe_step \<times> 'c)
      \<Rightarrow> (meta \<Rightarrow> 'c \<Rightarrow> writes res \<times> 'c) \<Rightarrow> 'c \<Rightarrow> 's \<Rightarrow> 'c res \<times> 's" where
  "probe_commit io handle stride hash inspect exhausted c s =
     try_s (op_read io (handle + HEADER_SIZE) 32 s) (\<lambda>b s1.
       let m = parse_meta b; msk = m_cap m - 1; cur = (if m_cap m = 0 then 0 else hash AND msk) in
       try_s (probe_loop (unat (m_cap m)) io m stride msk inspect exhausted cur c s1) (\<lambda>(ws, c') s2.
       try_s (op_commit io ws s2) (\<lambda>_ s3. (Inr c', s3))))"

section \<open>Growing a table\<close>

text \<open>The load-factor test of the insertions, in 128-bit arithmetic.\<close>

definition over_loaded :: "u64 \<Rightarrow> u64 \<Rightarrow> bool" where
  "over_loaded cap used \<longleftrightarrow> cap = 0 \<or> (unat used + 1) * 4 > unat cap * 3"


definition bad_capacity :: io_error where
  "bad_capacity = IoError InvalidData ''corrupt bucket table capacity''"

definition capacity_changed :: io_error where
  "capacity_changed = IoError InvalidData ''bucket table capacity changed during grow''"

text \<open>Snapshot of the old buckets, into a buffer sized for the capacity read before.\<close>

fun snapshot_loop ::
    "nat \<Rightarrow> 's stack_ops \<Rightarrow> meta \<Rightarrow> u64 \<Rightarrow> u64 \<Rightarrow> u8 list \<Rightarrow> 's \<Rightarrow> u8 list res \<times> 's" where
  "snapshot_loop 0 io m stride i buf s = (Inr buf, s)"
| "snapshot_loop (Suc n) io m stride i buf s =
     (let lo = unat (i * stride); hi = lo + unat stride in
      if hi > length buf then (Inl capacity_changed, s)
      else try_in (checked_off_mul (m_table m) i stride) s (\<lambda>off.
           try_s (op_read io off (unat stride) s) (\<lambda>b s1.
             snapshot_loop n io m stride (i + 1) (overwrite lo b buf) s1)))"

text \<open>Placing one bucket image in the new table. The source's loop walks the slots until it finds
  an empty one; after as many steps as there are slots it would only revisit them, so
  \<open>None\<close> is the loop that never ends.\<close>

fun place_loop :: "nat \<Rightarrow> u64 \<Rightarrow> u64 \<Rightarrow> u8 list \<Rightarrow> u64 \<Rightarrow> u8 list \<Rightarrow> u8 list option" where
  "place_loop 0 stride msk item idx img = None"
| "place_loop (Suc n) stride msk item idx img =
     (let nlo = unat (idx * stride) in
      if get_u64 (slice nlo 8 img) = 0 then Some (overwrite nlo item img)
      else place_loop n stride msk item ((idx + 1) AND msk) img)"

fun rebuild_loop ::
    "nat \<Rightarrow> u64 \<Rightarrow> nat \<Rightarrow> u64 \<Rightarrow> u64 \<Rightarrow> u8 list \<Rightarrow> u64 \<Rightarrow> u8 list \<Rightarrow> u8 list option" where
  "rebuild_loop 0 stride ksz occupied newcap old j img = Some img"
| "rebuild_loop (Suc n) stride ksz occupied newcap old j img =
     (let lo = unat (j * stride) in
      if get_u64 (slice lo 8 old) \<noteq> occupied then rebuild_loop n stride ksz occupied newcap old (j + 1) img
      else
        let kb = slice (lo + 8) ksz old;
            rest = slice (lo + 8 + ksz) (unat stride - 8 - ksz) old in
        case place_loop (unat newcap) stride (newcap - 1) (to_le64 occupied @ kb @ rest)
               (fnv1a kb AND (newcap - 1)) img of
          None \<Rightarrow> None
        | Some img' \<Rightarrow> rebuild_loop n stride ksz occupied newcap old (j + 1) img')"

text \<open>What the generator of \<^verbatim>\<open>grow_table\<close> ends with: an error, no growth because
  another writer grew the table, or the batch that swaps the table.\<close>

datatype grow_step = NotGrown | Grown u64 u64 "u8 list"

definition grow_reads ::
    "'s stack_ops \<Rightarrow> u64 \<Rightarrow> u64 \<Rightarrow> u64 \<Rightarrow> u64 \<Rightarrow> 's \<Rightarrow> (meta \<times> u8 list) option res \<times> 's" where
  "grow_reads io handle stride old_size newcap s =
     try_s (op_read io (handle + HEADER_SIZE) 32 s) (\<lambda>b s1.
       let m = parse_meta b in
       if newcap \<le> m_cap m then (Inr None, s1)
       else try_s (snapshot_loop (unat (m_cap m)) io m stride 0 (replicate (unat old_size) 0) s1)
              (\<lambda>old s2. (Inr (Some (m, old)), s2)))"

definition grow_writes :: "u64 \<Rightarrow> u64 \<Rightarrow> u64 \<Rightarrow> meta \<Rightarrow> u8 list \<Rightarrow> writes" where
  "grow_writes handle newtable newcap m img =
     [(newtable, img), w8 (handle + HEADER_SIZE) newtable, w8 (handle + HEADER_SIZE + 8) newcap,
      w8 (handle + HEADER_SIZE + 24) (m_len m)]"

text \<open>\<open>None\<close> is a rebuild that never ends.\<close>

definition grow_with ::
    "'s stack_ops \<Rightarrow> u64 \<Rightarrow> u64 \<Rightarrow> nat \<Rightarrow> u64 \<Rightarrow> u64 \<Rightarrow> u64 \<Rightarrow> u64 \<Rightarrow> u64 \<Rightarrow> 's \<Rightarrow> (unit res \<times> 's) option" where
  "grow_with io handle stride ksz occupied newcap new_size old_size newtable s =
     (case grow_reads io handle stride old_size newcap s of
        (Inl e, s1) \<Rightarrow> Some (Inl e, snd (op_dealloc io (newtable, new_size) s1))
      | (Inr None, s1) \<Rightarrow> Some (Inr (), snd (op_dealloc io (newtable, new_size) s1))
      | (Inr (Some (m, old)), s1) \<Rightarrow>
          (case rebuild_loop (unat (m_cap m)) stride ksz occupied newcap old 0
                  (replicate (unat new_size) 0) of
             None \<Rightarrow> None
           | Some img \<Rightarrow> Some (try_s (op_commit io (grow_writes handle newtable newcap m img) s1) (\<lambda>_ s2.
               if m_cap m > 0
               then (Inr (), snd (op_dealloc io (m_table m, saturating_mul64 (m_cap m) stride) s2))
               else (Inr (), s2)))))"

definition grow_table ::
    "'s stack_ops \<Rightarrow> u64 \<Rightarrow> u64 \<Rightarrow> nat \<Rightarrow> u64 \<Rightarrow> u64 \<Rightarrow> 's \<Rightarrow> (unit res \<times> 's) option" where
  "grow_table io handle stride ksz occupied min_cap s =
     (case read_u64 io (handle + HEADER_SIZE + 8) s of
        (Inl e, s1) \<Rightarrow> Some (Inl e, s1)
      | (Inr cap0, s1) \<Rightarrow>
          let newcap = (if cap0 = 0 then min_cap else saturating_mul64 cap0 2) in
          (case checked_mul64 newcap stride of
             None \<Rightarrow> Some (Inl bad_capacity, s1)
           | Some new_size \<Rightarrow>
               (case op_alloc io new_size s1 of
                  (Inl e, s2) \<Rightarrow> Some (Inl e, s2)
                | (Inr q, s2) \<Rightarrow>
                    (case checked_mul64 cap0 stride of
                       None \<Rightarrow> Some (Inl bad_capacity, s2)
                     | Some old_size \<Rightarrow>
                         grow_with io handle stride ksz occupied newcap new_size old_size (fst q) s2))))"

end
