(* ===== verification/Blocks.thy ===== *)
theory Blocks
  imports Probing
begin

text \<open>
  Facts about any store that meets \<open>stack_laws\<close>: reads change nothing, a batch inside some
  live allocations leaves the bytes of the others alone, and \<open>alloc_image\<close> yields a fresh block
  with the given bytes or, failing, leaves every allocation as it was.
\<close>

context stack_laws
begin

lemma unchanged_trans: "unchanged vw a b \<Longrightarrow> unchanged vw b c \<Longrightarrow> unchanged vw a c"
  by (simp add: unchanged_def)

lemma read_bytes:
  assumes "v_good vw s" and "op_read io off n s = (r, s')"
  shows "unchanged vw s s'" and "r = Inr b \<Longrightarrow> b = slice (unat off) n (v_bytes vw s)"
    and "r = Inr b \<Longrightarrow> unat off + n \<le> length (v_bytes vw s)"
  using read_law [OF assms] by auto

lemma unchanged_good: "unchanged vw s s' \<Longrightarrow> v_good vw s'"
  by (simp add: unchanged_def)

lemma written_after_unchanged:
  "unchanged vw s s1 \<Longrightarrow> written vw s1 b s2 \<Longrightarrow> written vw s b s2"
  by (simp add: unchanged_def written_def)

text \<open>Bytes outside a set of live allocations that holds every write.\<close>

lemma same_on_writes:
  assumes g: "v_good vw s" and ib: "in_bounds (v_bytes vw s) ws" and R: "R \<subseteq> v_live vw s"
    and ins: "\<forall>(off, d) \<in> set ws. \<exists>q \<in> R. inside (unat off) (length d) q"
  shows "same_on (insert reserved (v_live vw s - R)) (v_bytes vw s) (apply_writes ws (v_bytes vw s))"
  unfolding same_on_def content_def
proof (intro ballI slice_apply_writes [OF ib])
  fix p assume p: "p \<in> insert reserved (v_live vw s - R)"
  show "unat (fst p) + unat (snd p) \<le> length (v_bytes vw s)"
    using p good_live [OF g, of p] good_store [OF g] by (auto simp: reserved_def range_end_def)
  fix off d assume "(off, d) \<in> set ws"
  then obtain q where q: "q \<in> R" "inside (unat off) (length d) q" using ins by blast
  show "unat (fst p) + unat (snd p) \<le> unat off \<or> unat off + length d \<le> unat (fst p)"
  proof (cases "p = reserved")
    case True
    with q R good_live [OF g, of q] show ?thesis
      by (auto simp: reserved_def inside_def)
  next
    case False
    then have "apart q p" using good_apart [OF g, of q p] p q(1) R by auto
    with inside_apart [OF q(2), of p] show ?thesis by (auto simp: range_end_def)
  qed
qed

lemma same_on_set:
  assumes g: "v_good vw s" and q: "q \<in> v_live vw s" and i: "inside (unat (off :: u64)) (length d) q"
  shows "same_on (insert reserved (v_live vw s - {q})) (v_bytes vw s) (overwrite (unat off) d (v_bytes vw s))"
  using same_on_writes [OF g, of "[(off, d)]" "{q}"] q i good_live [OF g q]
  by (simp add: inside_def)

lemma unchanged_relived: "v_good vw s \<Longrightarrow> unchanged vw s s' \<Longrightarrow> relived vw s R (v_live vw s) s'"
  by (simp add: unchanged_def relived_def)

lemma alloc_image_ok:
  assumes g: "v_good vw s" and bs: "bs \<noteq> []" "length bs < 2 ^ 63" and run: "alloc_image io bs s = (r, s')"
  shows "case r of
      Inr q \<Rightarrow> unat (snd q) = length bs \<and> q \<notin> v_live vw s \<and> content (v_bytes vw s') q = bs
        \<and> relived vw s (v_live vw s) (insert q (v_live vw s)) s'
    | Inl e \<Rightarrow> \<exists>L. v_live vw s \<subseteq> L \<and> relived vw s (v_live vw s) L s'"
proof -
  have n: "unat (of_nat (length bs) :: u64) = length bs" using bs(2) by (intro unat_of_nat_u64) simp
  then have nz: "(of_nat (length bs) :: u64) \<noteq> 0" using bs(1) by (metis length_0_conv unat_0)
  obtain ra s1 where al: "op_alloc io (of_nat (length bs)) s = (ra, s1)" by (cases "op_alloc io (of_nat (length bs)) s")
  note law = alloc_law [OF g al nz]
  show ?thesis
  proof (cases ra)
    case (Inl e)
    with law run al show ?thesis by (auto simp: alloc_image_def)
  next
    case (Inr q)
    then have q: "unat (snd q) = length bs" "q \<notin> v_live vw s"
      and r1: "relived vw s (v_live vw s) (insert q (v_live vw s)) s1" using law n by auto
    have g1: "v_good vw s1" and l1: "v_live vw s1 = insert q (v_live vw s)"
      and so1: "same_on (insert reserved (v_live vw s)) (v_bytes vw s) (v_bytes vw s1)"
      using r1 by (simp_all add: relived_def)
    obtain ru s2 where st: "op_set io (fst q) bs s1 = (ru, s2)" by (cases "op_set io (fst q) bs s1")
    note sl = set_law [OF g1 st]
    show ?thesis
    proof (cases ru)
      case (Inl e)
      obtain rd s3 where d: "op_dealloc io q s2 = (rd, s3)" by (cases "op_dealloc io q s2")
      have u: "unchanged vw s1 s2" using sl Inl by simp
      have q2: "q \<in> v_live vw s2" and l2: "v_live vw s2 = insert q (v_live vw s)"
        using u l1 by (simp_all add: unchanged_def)
      obtain L where L: "v_live vw s2 - {q} \<subseteq> L" "relived vw s2 (v_live vw s2 - {q}) L s3"
        using dealloc_law [OF unchanged_good [OF u] q2 d] by blast
      have "relived vw s (v_live vw s) L s3"
        using L(2) so1 u q(2) l2 by (auto simp: relived_def unchanged_def same_on_def)
      moreover have "v_live vw s \<subseteq> L" using L(1) l2 q(2) by auto
      moreover have "r = Inl e" "s' = s3" using run al \<open>ra = Inr q\<close> st Inl d by (simp_all add: alloc_image_def)
      ultimately show ?thesis by auto
    next
      case ok: (Inr u)
      have w: "written vw s1 (overwrite (unat (fst q)) bs (v_bytes vw s1)) s2"
        and le: "unat (fst q) + length bs \<le> length (v_bytes vw s1)" using sl ok by auto
      have "inside (unat (fst q)) (length bs) q" using q(1) by (simp add: inside_def range_end_def)
      from same_on_set [OF g1 _ this] have so2: "same_on (insert reserved (v_live vw s)) (v_bytes vw s1)
          (overwrite (unat (fst q)) bs (v_bytes vw s1))"
        using l1 q(2) by (simp add: insert_Diff_if)
      have "relived vw s (v_live vw s) (insert q (v_live vw s)) s2"
        using so1 so2 w l1 same_on_trans [OF so1 so2] by (simp add: relived_def written_def)
      moreover have "content (v_bytes vw s2) q = bs"
        using w le q(1) by (simp add: content_def written_def slice_overwrite_same)
      moreover have "r = Inr q" "s' = s2" using run al Inr st ok by (simp_all add: alloc_image_def)
      ultimately show ?thesis using q by simp
    qed
  qed
qed

end

end
