(* ===== verification/Bulk.thy ===== *)
theory Bulk
  imports Blocks
begin

text \<open>
  Allocating and freeing many blocks, \<^verbatim>\<open>src/io_core/bulk.rs\<close> and the dispatch of
  \<^verbatim>\<open>BStackRaiiAllocator::alloc_many\<close> / \<^verbatim>\<open>free_many\<close> in
  \<^verbatim>\<open>src/types/alloc/mod.rs\<close>: the sequential fallbacks, which undo a partial
  allocation and go on past a failing free, and the atomic bulk calls. The context proves that a
  failed allocation keeps every older block and leaves only blocks whose free was refused, and that
  the ranges a failed free names cover every block that is still live.
\<close>

section \<open>The error of a partial free\<close>

record free_many_error =
  fme_source :: io_error
  fme_unfreed :: "range list"

definition fme_from_parts :: "io_error \<Rightarrow> range list \<Rightarrow> free_many_error" where
  "fme_from_parts source unfreed = \<lparr>fme_source = source, fme_unfreed = unfreed\<rparr>"

fun show_nat :: "nat \<Rightarrow> string" where
  "show_nat n = (if n < 10 then [char_of (48 + n)] else show_nat (n div 10) @ [char_of (48 + n mod 10)])"

declare show_nat.simps [simp del]

fun io_kind :: "io_error \<Rightarrow> error_kind" where
  "io_kind (IoError k m) = k"

fun io_message :: "io_error \<Rightarrow> string" where
  "io_message (IoError k m) = m"

definition fme_display :: "free_many_error \<Rightarrow> string" where
  "fme_display e = ''free_many freed all it could; '' @ show_nat (length (fme_unfreed e))
     @ '' range(s) left unfreed: '' @ io_message (fme_source e)"

definition fme_into_io :: "free_many_error \<Rightarrow> io_error" where
  "fme_into_io e = IoError (io_kind (fme_source e)) (fme_display e)"

section \<open>Sequential fallbacks\<close>

fun free_ignoring :: "'s stack_ops \<Rightarrow> range list \<Rightarrow> 's \<Rightarrow> 's" where
  "free_ignoring io [] s = s"
| "free_ignoring io (q # qs) s = free_ignoring io qs (snd (op_dealloc io q s))"

text \<open>\<open>out\<close> holds the ranges allocated so far, oldest first.\<close>

fun alloc_each :: "'s stack_ops \<Rightarrow> range list \<Rightarrow> u64 list \<Rightarrow> 's \<Rightarrow> range list res \<times> 's" where
  "alloc_each io out [] s = (Inr out, s)"
| "alloc_each io out (sz # szs) s =
     (case op_alloc io sz s of
        (Inr q, s1) \<Rightarrow> alloc_each io (out @ [q]) szs s1
      | (Inl e, s1) \<Rightarrow> (Inl e, free_ignoring io (rev out) s1))"

definition seq_alloc_many :: "'s stack_ops \<Rightarrow> u64 list \<Rightarrow> 's \<Rightarrow> range list res \<times> 's" where
  "seq_alloc_many io sizes s = alloc_each io [] sizes s"

fun free_each ::
    "'s stack_ops \<Rightarrow> io_error option \<Rightarrow> range list \<Rightarrow> range list \<Rightarrow> 's \<Rightarrow> (io_error option \<times> range list) \<times> 's" where
  "free_each io first_err unfreed [] s = ((first_err, unfreed), s)"
| "free_each io first_err unfreed (q # qs) s =
     (case op_dealloc io q s of
        (Inl e, s1) \<Rightarrow>
          free_each io (case first_err of None \<Rightarrow> Some e | Some f \<Rightarrow> Some f) (unfreed @ [q]) qs s1
      | (Inr _, s1) \<Rightarrow> free_each io first_err unfreed qs s1)"

definition seq_free_many :: "'s stack_ops \<Rightarrow> range list \<Rightarrow> 's \<Rightarrow> (free_many_error + unit) \<times> 's" where
  "seq_free_many io ranges s =
     (case free_each io None [] ranges s of
        ((None, unfreed), s') \<Rightarrow> (Inr (), s')
      | ((Some e, unfreed), s') \<Rightarrow> (Inl \<lparr>fme_source = e, fme_unfreed = unfreed\<rparr>, s'))"

section \<open>Bulk calls\<close>

definition bulk_alloc_many :: "'s stack_ops \<Rightarrow> u64 list \<Rightarrow> 's \<Rightarrow> range list res \<times> 's" where
  "bulk_alloc_many io sizes s = op_alloc_bulk io sizes s"

definition bulk_free_many :: "'s stack_ops \<Rightarrow> range list \<Rightarrow> 's \<Rightarrow> (free_many_error + unit) \<times> 's" where
  "bulk_free_many io ranges s =
     (case op_dealloc_bulk io ranges s of
        (Inr u, s') \<Rightarrow> (Inr u, s')
      | (Inl e, s') \<Rightarrow> (Inl (fme_from_parts e ranges), s'))"

text \<open>The methods of \<^verbatim>\<open>BStackRaiiAllocator\<close>: an allocator with atomic bulk
  operations overrides the sequential defaults.\<close>

definition alloc_many :: "'s stack_ops \<Rightarrow> u64 list \<Rightarrow> 's \<Rightarrow> range list res \<times> 's" where
  "alloc_many io sizes s =
     (if op_atomic_bulk io then bulk_alloc_many io sizes s else seq_alloc_many io sizes s)"

definition free_many :: "'s stack_ops \<Rightarrow> range list \<Rightarrow> 's \<Rightarrow> (free_many_error + unit) \<times> 's" where
  "free_many io ranges s =
     (if op_atomic_bulk io then bulk_free_many io ranges s else seq_free_many io ranges s)"

text \<open>\<^verbatim>\<open>?\<close> on a call whose error is a \<^verbatim>\<open>FreeManyError\<close>.\<close>

definition fme_res :: "(free_many_error + unit) \<times> 's \<Rightarrow> unit res \<times> 's" where
  "fme_res m = (case m of (Inl e, s) \<Rightarrow> (Inl (fme_into_io e), s) | (Inr u, s) \<Rightarrow> (Inr u, s))"

lemma fme_res_simps [simp]:
  "fme_res (Inl e, s) = (Inl (fme_into_io e), s)"
  "fme_res (Inr u, s) = (Inr u, s)"
  by (simp_all add: fme_res_def)

section \<open>What they promise\<close>

text \<open>\<open>freed vw s qs keep L s'\<close>: from \<open>s\<close> to \<open>s'\<close> no block but those of \<open>qs\<close> is freed or
  written, and \<open>L\<close> is live afterwards; of \<open>qs\<close> at most \<open>left\<close> survive.\<close>

definition freed :: "'s stack_view \<Rightarrow> 's \<Rightarrow> range set \<Rightarrow> range set \<Rightarrow> 's \<Rightarrow> bool" where
  "freed vw s qs left s' \<longleftrightarrow> (\<exists>L. relived vw s (v_live vw s - qs) L s'
     \<and> v_live vw s - qs \<subseteq> L \<and> L \<subseteq> (v_live vw s - qs) \<union> left)"

lemma freed_mono: "freed vw s qs left s' \<Longrightarrow> left \<subseteq> left' \<Longrightarrow> freed vw s qs left' s'"
  unfolding freed_def by blast

lemma freed_good: "freed vw s qs left s' \<Longrightarrow> v_good vw s'"
  by (auto simp: freed_def relived_def)

lemma freed_live:
  "freed vw s qs left s' \<Longrightarrow> v_live vw s - qs \<subseteq> v_live vw s' \<and> v_live vw s' \<subseteq> (v_live vw s - qs) \<union> left"
  by (auto simp: freed_def relived_def)

lemma freed_trans:
  assumes "freed vw s A L s1" and "freed vw s1 B M s2"
  shows "freed vw s (A \<union> B) (L \<union> M) s2"
  using assms unfolding freed_def relived_def same_on_def by (auto 0 4)

context stack_laws
begin

lemma freed_unchanged: "unchanged vw s s' \<Longrightarrow> freed vw s {} {} s'"
  by (simp add: freed_def unchanged_def relived_def)

lemma dealloc_freed:
  assumes "v_good vw s" and "q \<in> v_live vw s" and "op_dealloc io q s = (r, s')"
  shows "freed vw s {q} (case r of Inl e \<Rightarrow> {q} | Inr _ \<Rightarrow> {}) s'"
  using dealloc_law [OF assms] assms(2) by (auto simp: freed_def split: sum.splits)

lemma free_ignoring_ok:
  "v_good vw s \<Longrightarrow> distinct qs \<Longrightarrow> set qs \<subseteq> v_live vw s \<Longrightarrow> freed vw s (set qs) (set qs) (free_ignoring io qs s)"
proof (induction qs arbitrary: s)
  case Nil
  then show ?case by (simp add: freed_unchanged unchanged_def)
next
  case (Cons q qs)
  obtain r s1 where d: "op_dealloc io q s = (r, s1)" by (cases "op_dealloc io q s")
  have f1: "freed vw s {q} {q} s1"
    using dealloc_freed [OF Cons.prems(1) _ d] Cons.prems(3) by (auto intro: freed_mono split: sum.splits)
  have "set qs \<subseteq> v_live vw s1" using freed_live [OF f1] Cons.prems by auto
  from freed_trans [OF f1 Cons.IH [OF freed_good [OF f1] _ this]] Cons.prems d show ?case by simp
qed

lemma free_each_ok:
  "v_good vw s \<Longrightarrow> distinct qs \<Longrightarrow> set qs \<subseteq> v_live vw s \<Longrightarrow> free_each io fe un qs s = ((fe', un'), s') \<Longrightarrow>
    \<exists>bad. un' = un @ bad \<and> set bad \<subseteq> set qs \<and> (fe' = None \<longleftrightarrow> fe = None \<and> bad = [])
      \<and> freed vw s (set qs) (set bad) s'"
proof (induction qs arbitrary: s fe un)
  case Nil
  then show ?case by (auto simp: freed_unchanged unchanged_def)
next
  case (Cons q qs)
  obtain r s1 where d: "op_dealloc io q s = (r, s1)" by (cases "op_dealloc io q s")
  note f1 = dealloc_freed [OF Cons.prems(1) _ d]
  have q: "q \<in> v_live vw s" using Cons.prems by simp
  have sub: "set qs \<subseteq> v_live vw s1"
    using freed_live [OF f1 [OF q]] Cons.prems by auto
  show ?case
  proof (cases r)
    case (Inr u)
    with Cons.prems d obtain bad where b: "un' = un @ bad" "set bad \<subseteq> set qs"
        "fe' = None \<longleftrightarrow> fe = None \<and> bad = []" "freed vw s1 (set qs) (set bad) s'"
      using Cons.IH [OF freed_good [OF f1 [OF q]] _ sub, of fe un] by auto
    with freed_trans [OF f1 [OF q] b(4)] Inr show ?thesis by auto
  next
    case (Inl e)
    with Cons.prems d obtain bad where b: "un' = (un @ [q]) @ bad" "set bad \<subseteq> set qs"
        "fe' \<noteq> None" "freed vw s1 (set qs) (set bad) s'"
      using Cons.IH [OF freed_good [OF f1 [OF q]] _ sub, of "case fe of None \<Rightarrow> Some e | Some f \<Rightarrow> Some f" "un @ [q]"]
      by (cases fe) auto
    with freed_trans [OF f1 [OF q] b(4)] Inl show ?thesis by (intro exI [of _ "q # bad"]) auto
  qed
qed

lemma free_many_ok:
  assumes g: "v_good vw s" and d: "distinct qs" and l: "set qs \<subseteq> v_live vw s"
    and run: "free_many io qs s = (r, s')"
  shows "freed vw s (set qs) (case r of Inl e \<Rightarrow> set (fme_unfreed e) | Inr _ \<Rightarrow> {}) s'
    \<and> (case r of Inl e \<Rightarrow> set (fme_unfreed e) \<subseteq> set qs | Inr _ \<Rightarrow> True)"
proof (cases "op_atomic_bulk io")
  case True
  obtain r1 s1 where b: "op_dealloc_bulk io qs s = (r1, s1)" by (cases "op_dealloc_bulk io qs s")
  from dealloc_bulk_law [OF g l d b] run True b l show ?thesis
    by (auto simp: free_many_def bulk_free_many_def freed_def fme_from_parts_def relived_def same_on_def
        split: sum.splits)
next
  case False
  obtain fe un s1 where f: "free_each io None [] qs s = ((fe, un), s1)" by (metis surj_pair)
  from free_each_ok [OF g d l f] run False f show ?thesis
    by (auto simp: free_many_def seq_free_many_def split: option.splits)
qed

text \<open>In a store that does not fail on its own, freeing succeeds.\<close>

lemma free_ignoring_calm:
  "v_good vw s \<Longrightarrow> v_calm vw s \<Longrightarrow> distinct qs \<Longrightarrow> set qs \<subseteq> v_live vw s \<Longrightarrow>
    freed vw s (set qs) {} (free_ignoring io qs s) \<and> v_calm vw (free_ignoring io qs s)"
proof (induction qs arbitrary: s)
  case Nil
  then show ?case by (simp add: freed_unchanged unchanged_def)
next
  case (Cons q qs)
  then obtain s1 where d: "op_dealloc io q s = (Inr (), s1)" and c: "v_calm vw s1"
    using calm_dealloc by (metis insert_subset list.simps(15))
  have f1: "freed vw s {q} {} s1" using dealloc_freed [OF Cons.prems(1) _ d] Cons.prems(4) by simp
  have "set qs \<subseteq> v_live vw s1" using freed_live [OF f1] Cons.prems by auto
  with Cons.IH [OF freed_good [OF f1] c] Cons.prems have "freed vw s1 (set qs) {} (free_ignoring io qs s1)
      \<and> v_calm vw (free_ignoring io qs s1)" by simp
  with freed_trans [OF f1] d show ?case by (metis free_ignoring.simps(2) insert_is_Un list.simps(15) snd_conv sup_bot.right_neutral)
qed

text \<open>The unwinding of a failed sequence frees the blocks it has, newest first; \<open>free_each\<close> makes the same
  calls and names the blocks whose free was refused.\<close>

lemma free_each_state: "free_each io fe un qs s = (x, s') \<Longrightarrow> s' = free_ignoring io qs s"
  by (induction qs arbitrary: fe un s) (auto split: prod.splits sum.splits)

lemma free_ignoring_left:
  assumes g: "v_good vw s" and d: "distinct qs" and l: "set qs \<subseteq> v_live vw s"
  shows "\<exists>fe un. free_each io None [] qs s = ((fe, un), free_ignoring io qs s) \<and> set un \<subseteq> set qs
    \<and> freed vw s (set qs) (set un) (free_ignoring io qs s)"
proof -
  obtain fe un s1 where f: "free_each io None [] qs s = ((fe, un), s1)" by (metis surj_pair)
  from free_each_ok [OF g d l f] free_each_state [OF f] f show ?thesis by auto
qed

text \<open>Allocation. On success the ranges are fresh and of the requested sizes. On failure every block
  that was live still is, with its bytes, and a block that is live besides is one the sequence had
  allocated before the failing call and could not free again.\<close>

lemma alloc_each_Inr:
  "v_good vw s \<Longrightarrow> 0 \<notin> set szs \<Longrightarrow> alloc_each io out szs s = (Inr qs, s') \<Longrightarrow> distinct out \<Longrightarrow>
    set out \<subseteq> v_live vw s \<Longrightarrow>
    \<exists>new. qs = out @ new \<and> map snd new = szs \<and> distinct qs \<and> set new \<inter> v_live vw s = {}
      \<and> relived vw s (v_live vw s) (set new \<union> v_live vw s) s' \<and> (v_calm vw s \<longrightarrow> v_calm vw s')"
proof (induction szs arbitrary: s out)
  case Nil
  then show ?case by (auto simp: relived_def)
next
  case (Cons sz szs)
  have nz: "sz \<noteq> 0" using Cons.prems(2) by auto
  obtain q s1 where a: "op_alloc io sz s = (Inr q, s1)"
    using Cons.prems(3) by (auto split: prod.splits sum.splits)
  from alloc_law [OF Cons.prems(1) a nz]
  have r1: "relived vw s (v_live vw s) (insert q (v_live vw s)) s1" "snd q = sz" "q \<notin> v_live vw s" by auto
  have run: "alloc_each io (out @ [q]) szs s1 = (Inr qs, s')" using Cons.prems(3) a by simp
  have pre: "v_good vw s1" "0 \<notin> set szs" "distinct (out @ [q])" "set (out @ [q]) \<subseteq> v_live vw s1"
    using r1 Cons.prems by (auto simp: relived_def)
  from Cons.IH [OF pre(1,2) run pre(3,4)] obtain new where n: "qs = (out @ [q]) @ new" "map snd new = szs" "distinct qs"
    "set new \<inter> v_live vw s1 = {}" "relived vw s1 (v_live vw s1) (set new \<union> v_live vw s1) s'"
    "v_calm vw s1 \<longrightarrow> v_calm vw s'" by auto
  with r1 calm_alloc [OF Cons.prems(1) _ a] show ?case
    by (auto simp: relived_def same_on_def intro!: exI [of _ "q # new"])
qed

lemma alloc_each_Inl:
  "alloc_each io out szs s = (Inl e, s') \<Longrightarrow>
    \<exists>n got s1 s2. n < length szs \<and> alloc_each io out (take n szs) s = (Inr got, s1)
      \<and> op_alloc io (szs ! n) s1 = (Inl e, s2) \<and> s' = free_ignoring io (rev got) s2"
proof (induction szs arbitrary: s out)
  case (Cons sz szs)
  obtain ra s1 where a: "op_alloc io sz s = (ra, s1)" by (cases "op_alloc io sz s")
  show ?case
  proof (cases ra)
    case (Inl e')
    with Cons.prems a show ?thesis by (intro exI [of _ 0]) auto
  next
    case (Inr q)
    with Cons.prems a have "alloc_each io (out @ [q]) szs s1 = (Inl e, s')" by simp
    from Cons.IH [OF this] obtain n got s2 s3 where "n < length szs"
      "alloc_each io (out @ [q]) (take n szs) s1 = (Inr got, s2)" "op_alloc io (szs ! n) s2 = (Inl e, s3)"
      "s' = free_ignoring io (rev got) s3" by auto
    with a Inr show ?thesis by (intro exI [of _ "Suc n"] exI [of _ got] exI [of _ s2] exI [of _ s3]) simp
  qed
qed simp

lemma seq_alloc_failed:
  assumes g: "v_good vw s" and nz: "0 \<notin> set szs" and run: "seq_alloc_many io szs s = (Inl e, s')"
  shows "relived vw s (v_live vw s) (v_live vw s') s' \<and> v_live vw s \<subseteq> v_live vw s'
    \<and> (v_calm vw s \<longrightarrow> v_live vw s' = v_live vw s)
    \<and> (\<exists>n got s1 s2 fe un. n < length szs \<and> seq_alloc_many io (take n szs) s = (Inr got, s1)
        \<and> op_alloc io (szs ! n) s1 = (Inl e, s2) \<and> free_each io None [] (rev got) s2 = ((fe, un), s')
        \<and> set un \<subseteq> set got \<and> v_live vw s' \<subseteq> v_live vw s \<union> set un)"
proof -
  from run have "alloc_each io [] szs s = (Inl e, s')" by (simp add: seq_alloc_many_def)
  from alloc_each_Inl [OF this] obtain n got s1 s2 where n: "n < length szs"
    and all: "alloc_each io [] (take n szs) s = (Inr got, s1)" and bad: "op_alloc io (szs ! n) s1 = (Inl e, s2)"
    and s': "s' = free_ignoring io (rev got) s2" by blast
  have "0 \<notin> set (take n szs)" using nz by (meson in_set_takeD)
  from alloc_each_Inr [OF g this all] have ok: "distinct got" "set got \<inter> v_live vw s = {}"
    "relived vw s (v_live vw s) (set got \<union> v_live vw s) s1" "v_calm vw s \<longrightarrow> v_calm vw s1" by auto
  have g1: "v_good vw s1" and lv1: "v_live vw s1 = set got \<union> v_live vw s" using ok(3) by (simp_all add: relived_def)
  have "szs ! n \<noteq> 0" using nz n by (metis nth_mem)
  from alloc_law [OF g1 bad this] have r2: "relived vw s1 (v_live vw s1) (v_live vw s1) s2" by simp
  then have g2: "v_good vw s2" and lv2: "v_live vw s2 = v_live vw s1" by (simp_all add: relived_def)
  have pre: "distinct (rev got)" "set (rev got) \<subseteq> v_live vw s2" using ok(1) lv1 lv2 by auto
  from free_ignoring_left [OF g2 pre] s' obtain fe un where f: "free_each io None [] (rev got) s2 = ((fe, un), s')"
    "set un \<subseteq> set got" "freed vw s2 (set got) (set un) s'" by auto
  have df: "v_live vw s2 - set got = v_live vw s" using lv1 lv2 ok(2) by auto
  have rel: "relived vw s (v_live vw s) (v_live vw s') s'"
    using ok(3) r2 f(3) lv1 unfolding freed_def df by (auto simp: relived_def same_on_def)
  have live: "v_live vw s \<subseteq> v_live vw s'" "v_live vw s' \<subseteq> v_live vw s \<union> set un"
    using freed_live [OF f(3)] lv1 lv2 ok(2) by auto
  have "v_live vw s' = v_live vw s" if c: "v_calm vw s"
  proof -
    have "v_calm vw s2" using calm_alloc [OF g1 _ bad] ok(4) c by simp
    from free_ignoring_calm [OF g2 this pre] s' have "freed vw s2 (set got) {} s'" by simp
    from freed_live [OF this] lv1 lv2 ok(2) show ?thesis by auto
  qed
  with rel live n all bad f(1,2) show ?thesis unfolding seq_alloc_many_def by blast
qed

lemma alloc_many_ok:
  assumes g: "v_good vw s" and nz: "0 \<notin> set szs" and run: "alloc_many io szs s = (r, s')"
  shows "case r of
      Inr qs \<Rightarrow> map snd qs = szs \<and> distinct qs \<and> set qs \<inter> v_live vw s = {}
        \<and> relived vw s (v_live vw s) (set qs \<union> v_live vw s) s'
    | Inl e \<Rightarrow> relived vw s (v_live vw s) (v_live vw s') s' \<and> v_live vw s \<subseteq> v_live vw s'
        \<and> (op_atomic_bulk io \<or> v_calm vw s \<longrightarrow> v_live vw s' = v_live vw s)
        \<and> (v_live vw s' = v_live vw s \<or>
            (\<exists>n got s1 s2 fe un. n < length szs \<and> seq_alloc_many io (take n szs) s = (Inr got, s1)
              \<and> op_alloc io (szs ! n) s1 = (Inl e, s2) \<and> free_each io None [] (rev got) s2 = ((fe, un), s')
              \<and> set un \<subseteq> set got \<and> v_live vw s' \<subseteq> v_live vw s \<union> set un))"
proof (cases "op_atomic_bulk io")
  case True
  then have "op_alloc_bulk io szs s = (r, s')" using run by (simp add: alloc_many_def bulk_alloc_many_def)
  from alloc_bulk_law [OF g this nz] show ?thesis by (cases r) (auto simp: relived_def)
next
  case False
  then have run': "seq_alloc_many io szs s = (r, s')" using run by (simp add: alloc_many_def)
  show ?thesis
  proof (cases r)
    case (Inl e)
    from seq_alloc_failed [OF g nz] run' Inl False show ?thesis by simp
  next
    case (Inr qs)
    with run' have "alloc_each io [] szs s = (Inr qs, s')" by (simp add: seq_alloc_many_def)
    from alloc_each_Inr [OF g nz this] Inr show ?thesis by auto
  qed
qed

lemma free_each_calm:
  "v_good vw s \<Longrightarrow> v_calm vw s \<Longrightarrow> distinct qs \<Longrightarrow> set qs \<subseteq> v_live vw s \<Longrightarrow>
    \<exists>s'. free_each io fe un qs s = ((fe, un), s') \<and> v_calm vw s'"
proof (induction qs arbitrary: s)
  case (Cons q qs)
  then obtain s1 where d: "op_dealloc io q s = (Inr (), s1)" and c: "v_calm vw s1"
    using calm_dealloc by (metis insert_subset list.simps(15))
  have f1: "freed vw s {q} {} s1" using dealloc_freed [OF Cons.prems(1) _ d] Cons.prems(4) by simp
  have "set qs \<subseteq> v_live vw s1" using freed_live [OF f1] Cons.prems by auto
  with Cons.IH [OF freed_good [OF f1] c] Cons.prems d show ?case by simp
qed simp

lemma free_many_calm:
  assumes "v_good vw s" and "v_calm vw s" and "distinct qs" and "set qs \<subseteq> v_live vw s"
  shows "\<exists>s'. free_many io qs s = (Inr (), s') \<and> v_calm vw s'"
proof (cases "op_atomic_bulk io")
  case True
  with calm_dealloc_bulk [OF assms(1,2,4,3)] show ?thesis by (auto simp: free_many_def bulk_free_many_def)
next
  case False
  with free_each_calm [OF assms, of None "[]"] show ?thesis by (auto simp: free_many_def seq_free_many_def)
qed

end

end
