(* ===== verification/Wal.thy ===== *)
theory Wal
  imports Bulk
begin

text \<open>
  The write-ahead log of \<^verbatim>\<open>src/io_core/wal.rs\<close>: the entry and header records and
  their bytes, the persistent block reached through the allocator's anchor slot, staging and
  completion of a transaction, the growing transaction of a deep clone, and the commit of a batch
  of frees. The methods of \<^verbatim>\<open>HeldLock\<close> run with the file's lock held; where the
  source acquires it, the outcome is an argument \<open>lock\<close> (the lock itself is \<open>WalLock\<close>).
  Machine arithmetic wraps, as in a release build. Frees happen outside a teardown, so
  \<^verbatim>\<open>dealloc_range\<close> is the allocator's \<^verbatim>\<open>dealloc\<close>.
\<close>

definition WAL_MAGIC :: u64 where "WAL_MAGIC = 0x62737461636b5741"
definition WAL_MIN_CAP :: u64 where "WAL_MIN_CAP = 8"
definition WAL_MAX_CAP :: u64 where "WAL_MAX_CAP = push_bit 20 1"
definition WAL_STATUS_OFFSET :: u64 where "WAL_STATUS_OFFSET = 8"
definition WAL_COUNT_OFFSET :: u64 where "WAL_COUNT_OFFSET = 16"
definition STD_WAL_ANCHOR :: non_null_offset where "STD_WAL_ANCHOR = NonNullOffset 8"

section \<open>Status and operation\<close>

datatype wal_status = WNone | WPending | WComplete | WAbandon

fun status_advance :: "wal_status \<Rightarrow> wal_status" where
  "status_advance WNone = WPending"
| "status_advance WPending = WComplete"
| "status_advance st = st"

fun status_recover :: "wal_status \<Rightarrow> wal_status" where
  "status_recover WPending = WAbandon"
| "status_recover st = st"

fun status_byte :: "wal_status \<Rightarrow> u8" where
  "status_byte WNone = 0"
| "status_byte WPending = 1"
| "status_byte WComplete = 2"
| "status_byte WAbandon = 3"

definition status_from_u8 :: "u8 \<Rightarrow> wal_status" where
  "status_from_u8 v = (if v = 0 then WNone else if v = 1 then WPending else if v = 2 then WComplete else WAbandon)"

datatype wal_op = WAlloc | WDealloc

fun op_byte :: "wal_op \<Rightarrow> u8" where
  "op_byte WAlloc = 0"
| "op_byte WDealloc = 1"

definition op_from_u8 :: "u8 \<Rightarrow> wal_op option" where
  "op_from_u8 v = (if v = 0 then Some WAlloc else if v = 1 then Some WDealloc else None)"

section \<open>Entries\<close>

record wal_entry =
  we_status :: u8
  we_op :: u8
  we_pad :: "u8 list"
  we_file :: file_id
  we_obj :: u32
  we_a :: u64
  we_b :: u64

definition entry_alloc_in :: "wal_status \<Rightarrow> file_id \<Rightarrow> range \<Rightarrow> wal_entry" where
  "entry_alloc_in st file q = \<lparr>we_status = status_byte st, we_op = op_byte WAlloc, we_pad = replicate 6 0,
     we_file = file, we_obj = 0, we_a = fst q, we_b = snd q\<rparr>"

definition entry_alloc :: "wal_status \<Rightarrow> range \<Rightarrow> wal_entry" where
  "entry_alloc st q = entry_alloc_in st FILE_SELF q"

definition entry_dealloc_in :: "wal_status \<Rightarrow> file_id \<Rightarrow> range \<Rightarrow> wal_entry" where
  "entry_dealloc_in st file q = \<lparr>we_status = status_byte st, we_op = op_byte WDealloc, we_pad = replicate 6 0,
     we_file = file, we_obj = 0, we_a = fst q, we_b = snd q\<rparr>"

definition entry_dealloc :: "wal_status \<Rightarrow> range \<Rightarrow> wal_entry" where
  "entry_dealloc st q = entry_dealloc_in st FILE_SELF q"

definition entry_status :: "wal_entry \<Rightarrow> wal_status" where
  "entry_status e = status_from_u8 (we_status e)"

definition entry_op :: "wal_entry \<Rightarrow> wal_op option" where
  "entry_op e = op_from_u8 (we_op e)"

definition entry_file_id :: "wal_entry \<Rightarrow> u64" where
  "entry_file_id e = file_as_u64 (we_file e)"

definition entry_as_alloc :: "wal_entry \<Rightarrow> range option" where
  "entry_as_alloc e = (case entry_op e of Some WAlloc \<Rightarrow> Some (we_a e, we_b e) | _ \<Rightarrow> None)"

definition entry_as_dealloc :: "wal_entry \<Rightarrow> range option" where
  "entry_as_dealloc e = (case entry_op e of Some WDealloc \<Rightarrow> Some (we_a e, we_b e) | _ \<Rightarrow> None)"

text \<open>The \<^verbatim>\<open>repr(C)\<close> image: little-endian, 32 bytes.\<close>

definition entry_bytes :: "wal_entry \<Rightarrow> u8 list" where
  "entry_bytes e = [we_status e, we_op e] @ we_pad e @ to_le32 (file_get (we_file e)) @ to_le32 (we_obj e)
     @ to_le64 (we_a e) @ to_le64 (we_b e)"

definition entry_of :: "u8 list \<Rightarrow> wal_entry" where
  "entry_of b = \<lparr>we_status = b ! 0, we_op = b ! 1, we_pad = slice 2 6 b, we_file = FileId (from_le32 (slice 8 4 b)),
     we_obj = from_le32 (slice 12 4 b), we_a = from_le64 (slice 16 8 b), we_b = from_le64 (slice 24 8 b)\<rparr>"

section \<open>The log in memory\<close>

record wal_log =
  wl_entries :: "wal_entry list"
  wl_next_id :: u64

definition log_with_capacity :: wal_log where
  "log_with_capacity = \<lparr>wl_entries = [], wl_next_id = 0\<rparr>"

definition log_fresh_id :: "wal_log \<Rightarrow> u64 \<times> wal_log" where
  "log_fresh_id l = (wl_next_id l, l\<lparr>wl_next_id := wl_next_id l + 1\<rparr>)"

definition log_append :: "wal_log \<Rightarrow> wal_entry \<Rightarrow> wal_log" where
  "log_append l e = l\<lparr>wl_entries := wl_entries l @ [e]\<rparr>"

definition log_as_bytes :: "wal_log \<Rightarrow> u8 list" where
  "log_as_bytes l = concat (map entry_bytes (wl_entries l))"

definition entries_from_bytes :: "u8 list \<Rightarrow> wal_entry list" where
  "entries_from_bytes b = map (\<lambda>i. entry_of (slice (i * 32) 32 b)) [0..<length b div 32]"

section \<open>The header\<close>

record wal_header =
  wh_magic :: u64
  wh_status :: u8
  wh_pad :: "u8 list"
  wh_count :: u64
  wh_capacity :: u64

definition header_txn_status :: "wal_header \<Rightarrow> wal_status" where
  "header_txn_status h = status_from_u8 (wh_status h)"

definition header_bytes :: "wal_header \<Rightarrow> u8 list" where
  "header_bytes h = to_le64 (wh_magic h) @ [wh_status h] @ wh_pad h @ to_le64 (wh_count h) @ to_le64 (wh_capacity h)"

definition header_of :: "u8 list \<Rightarrow> wal_header" where
  "header_of b = \<lparr>wh_magic = from_le64 (slice 0 8 b), wh_status = b ! 8, wh_pad = slice 9 7 b,
     wh_count = from_le64 (slice 16 8 b), wh_capacity = from_le64 (slice 24 8 b)\<rparr>"

definition wal_header_new :: "wal_status \<Rightarrow> u64 \<Rightarrow> u64 \<Rightarrow> wal_header" where
  "wal_header_new st n cap =
     \<lparr>wh_magic = WAL_MAGIC, wh_status = status_byte st, wh_pad = replicate 7 0, wh_count = n, wh_capacity = cap\<rparr>"

definition block_image :: "wal_log \<Rightarrow> wal_status \<Rightarrow> u64 \<Rightarrow> u8 list" where
  "block_image l st capacity =
     header_bytes (wal_header_new st (of_nat (length (wl_entries l))) capacity) @ log_as_bytes l"

section \<open>The persistent block\<close>

definition corrupt_wal_capacity :: io_error where
  "corrupt_wal_capacity = IoError InvalidData ''corrupt persistent WAL block: capacity/count out of range''"

definition no_anchor_slot :: io_error where
  "no_anchor_slot = IoError OtherKind ''allocator names no WAL anchor slot''"

definition read_anchor :: "'s stack_ops \<Rightarrow> 's \<Rightarrow> non_null_offset option res \<times> 's" where
  "read_anchor io s =
     (case op_anchor io of
        None \<Rightarrow> (Inr None, s)
      | Some slot \<Rightarrow> try_s (read_u64 io slot s) (\<lambda>raw s1. (Inr (offset_to_non_null (Offset raw)), s1)))"

text \<open>\<^verbatim>\<open>u64::next_power_of_two\<close>; past the largest power of two the release build
  returns 0.\<close>

function pow2_from :: "nat \<Rightarrow> nat \<Rightarrow> nat" where
  "pow2_from p n = (if n \<le> p \<or> p = 0 then p else pow2_from (2 * p) n)"
  by auto
termination by (relation "measure (\<lambda>(p, n). n - p)") auto

declare pow2_from.simps [simp del]

definition next_power_of_two :: "u64 \<Rightarrow> u64" where
  "next_power_of_two n = of_nat (pow2_from 1 (unat n))"

record wal_block =
  wb_range :: range
  wb_capacity :: u64

definition ensure_new ::
    "'s stack_ops \<Rightarrow> u64 \<Rightarrow> range option \<Rightarrow> u64 \<Rightarrow> 's \<Rightarrow> wal_block res \<times> 's" where
  "ensure_new io slot old_to_free needed s =
     (let capacity = next_power_of_two (max needed WAL_MIN_CAP) in
      try_s (op_alloc io (32 + capacity * 32) s) (\<lambda>q s1.
        case op_set io (fst q) (header_bytes (wal_header_new WNone 0 capacity)) s1 of
          (Inl e, s2) \<Rightarrow> (Inl e, snd (op_dealloc io q s2))
        | (Inr _, s2) \<Rightarrow>
            try_s (op_set io slot (to_le64 (fst q)) s2) (\<lambda>_ s3.
            try_s (case old_to_free of None \<Rightarrow> (Inr (), s3) | Some old \<Rightarrow> op_dealloc io old s3) (\<lambda>_ s4.
            (Inr \<lparr>wb_range = (fst q, 32 + capacity * 32), wb_capacity = capacity\<rparr>, s4)))))"

definition ensure_block :: "'s stack_ops \<Rightarrow> u64 \<Rightarrow> 's \<Rightarrow> wal_block res \<times> 's" where
  "ensure_block io needed s =
     try_in (ok_or no_anchor_slot (op_anchor io)) s (\<lambda>slot.
     try_s (read_anchor io s) (\<lambda>off s1.
       case off of
         None \<Rightarrow> ensure_new io slot None needed s1
       | Some o1 \<Rightarrow>
           let off = nn_as_u64 o1 in
           try_s (op_read io off 32 s1) (\<lambda>hbuf s2.
             let h = header_of hbuf in
             if wh_magic h \<noteq> WAL_MAGIC then ensure_new io slot None needed s2
             else if wh_capacity h > WAL_MAX_CAP then (Inl corrupt_wal_capacity, s2)
             else if wh_capacity h \<ge> needed then
               (Inr \<lparr>wb_range = (off, 32 + wh_capacity h * 32), wb_capacity = wh_capacity h\<rparr>, s2)
             else ensure_new io slot (Some (off, 32 + wh_capacity h * 32)) needed s2)))"

definition persist :: "'s stack_ops \<Rightarrow> wal_log \<Rightarrow> wal_status \<Rightarrow> 's \<Rightarrow> range res \<times> 's" where
  "persist io l st s =
     try_s (ensure_block io (of_nat (length (wl_entries l))) s) (\<lambda>blk s1.
     try_s (op_set io (fst (wb_range blk)) (block_image l st (wb_capacity blk)) s1) (\<lambda>_ s2.
     (Inr (wb_range blk), s2)))"

definition wal_load :: "'s stack_ops \<Rightarrow> 's \<Rightarrow> (range \<times> wal_header \<times> wal_entry list) option res \<times> 's" where
  "wal_load io s =
     try_s (read_anchor io s) (\<lambda>off s1.
       case off of
         None \<Rightarrow> (Inr None, s1)
       | Some o1 \<Rightarrow>
           let wal_off = nn_as_u64 o1 in
           try_s (op_read io wal_off 32 s1) (\<lambda>hbuf s2.
             let h = header_of hbuf in
             if wh_magic h \<noteq> WAL_MAGIC then (Inr None, s2)
             else if wh_capacity h > WAL_MAX_CAP \<or> wh_count h > wh_capacity h then (Inl corrupt_wal_capacity, s2)
             else try_s (op_read io (wal_off + 32) (unat (wh_count h) * 32) s2) (\<lambda>ebuf s3.
               (Inr (Some ((wal_off, 32 + wh_capacity h * 32), h, entries_from_bytes ebuf)), s3))))"

definition set_idle :: "'s stack_ops \<Rightarrow> u64 \<Rightarrow> 's \<Rightarrow> unit res \<times> 's" where
  "set_idle io block_off s = op_set io (block_off + WAL_STATUS_OFFSET) [status_byte WNone] s"

definition mark_complete :: "'s stack_ops \<Rightarrow> u64 \<Rightarrow> 's \<Rightarrow> unit res \<times> 's" where
  "mark_complete io block_off s =
     op_commit io [(block_off + WAL_STATUS_OFFSET, [status_byte WComplete])] s"

definition append_alloc :: "'s stack_ops \<Rightarrow> u64 \<Rightarrow> u64 \<Rightarrow> range \<Rightarrow> 's \<Rightarrow> unit res \<times> 's" where
  "append_alloc io block_off index q s =
     try_s (op_set io (block_off + 32 + index * 32) (entry_bytes (entry_alloc WPending q)) s) (\<lambda>_ s1.
     try_s (op_set io (block_off + WAL_COUNT_OFFSET) (to_le64 (index + 1)) s1) (\<lambda>_ s2.
     (Inr (), s2)))"

section \<open>Completion\<close>

definition free_recorded :: "'s stack_ops \<Rightarrow> u64 \<Rightarrow> range \<Rightarrow> 's \<Rightarrow> unit res \<times> 's" where
  "free_recorded io file q s =
     (if file = 0 then op_dealloc io q s
      else case file_from_u64 file of
        None \<Rightarrow> (Inr (), s)
      | Some f \<Rightarrow> (case op_host_free io f q s of (Some r, s1) \<Rightarrow> (r, s1) | (None, s1) \<Rightarrow> (Inr (), s1)))"

text \<open>The slice an entry makes \<^verbatim>\<open>finish\<close> free, if any.\<close>

definition orphan_of :: "bool \<Rightarrow> wal_entry \<Rightarrow> range option" where
  "orphan_of committed e =
     (if entry_status e \<noteq> WPending then None
      else if committed then entry_as_dealloc e else entry_as_alloc e)"

fun mark_each ::
    "'s stack_ops \<Rightarrow> u64 \<Rightarrow> bool \<Rightarrow> u64 \<Rightarrow> wal_entry list \<Rightarrow> range list \<Rightarrow> (u64 \<times> range) list \<Rightarrow> nat \<Rightarrow> 's
      \<Rightarrow> (range list \<times> (u64 \<times> range) list \<times> nat) res \<times> 's" where
  "mark_each io base committed i [] loc far n s = (Inr (loc, far, n), s)"
| "mark_each io base committed i (e # es) loc far n s =
     (case orphan_of committed e of
        None \<Rightarrow> mark_each io base committed (i + 1) es loc far n s
      | Some q \<Rightarrow>
          try_s (op_set io (base + i * 32) [status_byte WComplete] s) (\<lambda>_ s1.
            if entry_file_id e = 0
            then mark_each io base committed (i + 1) es (loc @ [q]) far (n + 1) s1
            else mark_each io base committed (i + 1) es loc (far @ [(entry_file_id e, q)]) (n + 1) s1))"

fun free_far :: "'s stack_ops \<Rightarrow> (u64 \<times> range) list \<Rightarrow> 's \<Rightarrow> unit res \<times> 's" where
  "free_far io [] s = (Inr (), s)"
| "free_far io ((f, q) # fs) s = try_s (free_recorded io f q s) (\<lambda>_ s1. free_far io fs s1)"

fun finish_each ::
    "'s stack_ops \<Rightarrow> u64 \<Rightarrow> bool \<Rightarrow> u64 \<Rightarrow> wal_entry list \<Rightarrow> nat \<Rightarrow> 's \<Rightarrow> nat res \<times> 's" where
  "finish_each io base committed i [] n s = (Inr n, s)"
| "finish_each io base committed i (e # es) n s =
     (case orphan_of committed e of
        None \<Rightarrow> finish_each io base committed (i + 1) es n s
      | Some q \<Rightarrow>
          try_s (op_set io (base + i * 32) [status_byte WComplete] s) (\<lambda>_ s1.
          try_s (free_recorded io (entry_file_id e) q s1) (\<lambda>_ s2.
          finish_each io base committed (i + 1) es (n + 1) s2)))"

definition finish_bulk :: "'s stack_ops \<Rightarrow> u64 \<Rightarrow> bool \<Rightarrow> wal_entry list \<Rightarrow> 's \<Rightarrow> nat res \<times> 's" where
  "finish_bulk io base committed es s =
     try_s (mark_each io base committed 0 es [] [] 0 s) (\<lambda>(loc, far, n) s1.
     try_s (if loc \<noteq> [] then fme_res (free_many io loc s1) else (Inr (), s1)) (\<lambda>_ s2.
     try_s (free_far io far s2) (\<lambda>_ s3. (Inr n, s3))))"

definition finish :: "'s stack_ops \<Rightarrow> 's \<Rightarrow> nat res \<times> 's" where
  "finish io s =
     try_s (wal_load io s) (\<lambda>x s1.
       case x of
         None \<Rightarrow> (Inr 0, s1)
       | Some (q, h, es) \<Rightarrow>
           if header_txn_status h = WNone then (Inr 0, s1)
           else
             let committed = (header_txn_status h = WComplete); base = fst q + 32 in
             try_s (if op_atomic_bulk io then finish_bulk io base committed es s1
                    else finish_each io base committed 0 es 0 s1) (\<lambda>n s2.
             try_s (set_idle io (fst q) s2) (\<lambda>_ s3. (Inr n, s3))))"

definition wal_finish :: "'s stack_ops \<Rightarrow> unit res \<Rightarrow> 's \<Rightarrow> nat res \<times> 's" where
  "wal_finish io lock s = try_in lock s (\<lambda>_. finish io s)"

section \<open>The transaction of a deep clone\<close>

record wal_txn =
  wt_block_off :: u64
  wt_capacity :: u64
  wt_logged :: u64

definition capacity_of :: "range \<Rightarrow> u64" where
  "capacity_of q = (snd q - 32) div 32"

definition alloc_log :: "range list \<Rightarrow> wal_log" where
  "alloc_log qs = foldl (\<lambda>l q. log_append l (entry_alloc WPending q)) log_with_capacity qs"

definition txn_begin_many :: "'s stack_ops \<Rightarrow> unit res \<Rightarrow> range list \<Rightarrow> 's \<Rightarrow> wal_txn res \<times> 's" where
  "txn_begin_many io lock qs s =
     try_in lock s (\<lambda>_. try_s (persist io (alloc_log qs) WPending s) (\<lambda>blk s1.
       (Inr \<lparr>wt_block_off = fst blk, wt_capacity = capacity_of blk, wt_logged = of_nat (length qs)\<rparr>, s1)))"

definition txn_begin :: "'s stack_ops \<Rightarrow> unit res \<Rightarrow> range \<Rightarrow> 's \<Rightarrow> wal_txn res \<times> 's" where
  "txn_begin io lock q s = txn_begin_many io lock [q] s"

text \<open>The updated transaction; a failed append leaves it as it was.\<close>

definition txn_append :: "'s stack_ops \<Rightarrow> wal_txn \<Rightarrow> range list \<Rightarrow> range \<Rightarrow> 's \<Rightarrow> wal_txn res \<times> 's" where
  "txn_append io w logged_so_far q s =
     (if wt_logged w < wt_capacity w then
        try_s (append_alloc io (wt_block_off w) (wt_logged w) q s) (\<lambda>_ s1.
          (Inr (w\<lparr>wt_logged := wt_logged w + 1\<rparr>), s1))
      else
        try_s (persist io (log_append (alloc_log logged_so_far) (entry_alloc WPending q)) WPending s) (\<lambda>blk s1.
          (Inr \<lparr>wt_block_off = fst blk, wt_capacity = capacity_of blk,
             wt_logged = of_nat (length logged_so_far) + 1\<rparr>, s1)))"

definition commit_marker_off :: "wal_txn \<Rightarrow> u64" where
  "commit_marker_off w = wt_block_off w + WAL_STATUS_OFFSET"

definition txn_set_idle :: "'s stack_ops \<Rightarrow> wal_txn \<Rightarrow> 's \<Rightarrow> unit res \<times> 's" where
  "txn_set_idle io w s = set_idle io (wt_block_off w) s"

definition txn_finish :: "'s stack_ops \<Rightarrow> wal_txn \<Rightarrow> 's \<Rightarrow> nat res \<times> 's" where
  "txn_finish io w s = finish io s"

definition log_alloc ::
    "'s stack_ops \<Rightarrow> unit res \<Rightarrow> wal_txn option \<Rightarrow> range list \<Rightarrow> range \<Rightarrow> 's \<Rightarrow> wal_txn res \<times> 's" where
  "log_alloc io lock wal allocated q s =
     (case wal of
        None \<Rightarrow> txn_begin io lock q s
      | Some w \<Rightarrow> txn_append io w allocated q s)"

text \<open>The fresh range with the two in-out arguments \<open>wal\<close> and \<open>allocated\<close> as the call leaves
  them.\<close>

definition alloc_logged ::
    "'s stack_ops \<Rightarrow> unit res \<Rightarrow> wal_txn option \<Rightarrow> range list \<Rightarrow> u64 \<Rightarrow> 's
      \<Rightarrow> (range res \<times> wal_txn option \<times> range list) \<times> 's" where
  "alloc_logged io lock wal allocated sz s =
     (case op_alloc io sz s of
        (Inl e, s1) \<Rightarrow> ((Inl e, wal, allocated), s1)
      | (Inr q, s1) \<Rightarrow>
          if op_anchor io = None then ((Inr q, wal, allocated @ [q]), s1)
          else (case log_alloc io lock wal allocated q s1 of
              (Inl e, s2) \<Rightarrow> ((Inl e, wal, allocated), snd (op_dealloc io q s2))
            | (Inr w, s2) \<Rightarrow> ((Inr q, Some w, allocated @ [q]), s2)))"

section \<open>Committing a batch of frees\<close>

definition coalesce_best_effort :: "'s stack_ops \<Rightarrow> 's \<Rightarrow> 's" where
  "coalesce_best_effort io s = snd (op_coalesce io s)"

definition dealloc_log :: "(file_id \<times> range) list \<Rightarrow> wal_log" where
  "dealloc_log slices =
     foldl (\<lambda>l (f, q). log_append l (entry_dealloc_in WPending f q)) log_with_capacity slices"

definition commit_frees :: "'s stack_ops \<Rightarrow> unit res \<Rightarrow> (file_id \<times> range) list \<Rightarrow> 's \<Rightarrow> unit res \<times> 's" where
  "commit_frees io lock slices s =
     (if slices = [] then (Inr (), s)
      else if op_atomic_bulk io \<and> list_all (\<lambda>(f, q). f = FILE_SELF) slices then
        try_s (fme_res (free_many io (map snd slices) s)) (\<lambda>_ s1. (Inr (), coalesce_best_effort io s1))
      else
        try_in lock s (\<lambda>_.
        try_s (persist io (dealloc_log slices) WPending s) (\<lambda>q s1.
        try_s (mark_complete io (fst q) s1) (\<lambda>_ s2.
        try_s (finish io s2) (\<lambda>_ s3. (Inr (), coalesce_best_effort io s3))))))"

definition commit_home_frees :: "'s stack_ops \<Rightarrow> unit res \<Rightarrow> range list \<Rightarrow> 's \<Rightarrow> unit res \<times> 's" where
  "commit_home_frees io lock qs s = commit_frees io lock (map (\<lambda>q. (FILE_SELF, q)) qs) s"

end
