(* ===== verification/WalBlock.thy ===== *)
theory WalBlock
  imports Wal
begin

text \<open>
  The bytes of the log: entries and headers survive their images, and \<open>block_holds c h es\<close> says
  that the bytes \<open>c\<close> of a WAL block hold the header \<open>h\<close> and the live entries \<open>es\<close>. Each write
  the log makes is shown to change exactly the part of this picture it means to.
\<close>

section \<open>Images\<close>

lemma length_entry_bytes [simp]: "length (we_pad e) = 6 \<Longrightarrow> length (entry_bytes e) = 32"
  by (simp add: entry_bytes_def)

lemma entry_of_bytes: "length (we_pad e) = 6 \<Longrightarrow> entry_of (entry_bytes e) = e"
  by (cases "we_file e") (simp add: entry_of_def entry_bytes_def slice_def nth_append)

lemma entry_pads [simp]:
  "length (we_pad (entry_alloc_in st f q)) = 6" "length (we_pad (entry_dealloc_in st f q)) = 6"
  "length (we_pad (entry_alloc st q)) = 6" "length (we_pad (entry_dealloc st q)) = 6"
  by (simp_all add: entry_alloc_in_def entry_dealloc_in_def entry_alloc_def entry_dealloc_def)

lemma length_header_bytes [simp]: "length (wh_pad h) = 7 \<Longrightarrow> length (header_bytes h) = 32"
  by (simp add: header_bytes_def)

lemma header_of_bytes: "length (wh_pad h) = 7 \<Longrightarrow> header_of (header_bytes h) = h"
  by (simp add: header_of_def header_bytes_def slice_def nth_append)

lemma header_new_simps [simp]:
  "wh_magic (wal_header_new st n cap) = WAL_MAGIC" "wh_count (wal_header_new st n cap) = n"
  "wh_capacity (wal_header_new st n cap) = cap" "length (wh_pad (wal_header_new st n cap)) = 7"
  "wh_status (wal_header_new st n cap) = status_byte st"
  by (simp_all add: wal_header_new_def)

lemma status_from_byte [simp]: "status_from_u8 (status_byte st) = st"
  by (cases st) (simp_all add: status_from_u8_def)

lemma op_from_byte [simp]: "op_from_u8 (op_byte x) = Some x"
  by (cases x) (simp_all add: op_from_u8_def)

lemma length_log_bytes:
  "\<forall>e \<in> set es. length (we_pad e) = 6 \<Longrightarrow> length (concat (map entry_bytes es)) = 32 * length es"
  by (induction es) auto

lemma slice_log_bytes:
  "\<forall>e \<in> set es. length (we_pad e) = 6 \<Longrightarrow> i < length es \<Longrightarrow>
    slice (i * 32) 32 (concat (map entry_bytes es)) = entry_bytes (es ! i)"
proof (induction es arbitrary: i)
  case (Cons e es)
  show ?case
  proof (cases i)
    case 0
    with Cons.prems show ?thesis by (simp add: slice_def)
  next
    case (Suc j)
    with Cons show ?thesis by (simp add: slice_append2)
  qed
qed simp

text \<open>The image of a log parses back to its entries.\<close>

lemma entries_from_log:
  assumes "\<forall>e \<in> set es. length (we_pad e) = 6"
  shows "entries_from_bytes (concat (map entry_bytes es)) = es"
  using assms by (intro nth_equalityI)
    (auto simp: entries_from_bytes_def length_log_bytes slice_log_bytes entry_of_bytes)

lemma length_entries_from_bytes [simp]: "length (entries_from_bytes b) = length b div 32"
  by (simp add: entries_from_bytes_def)

lemma nth_entries_from_bytes:
  "i < length b div 32 \<Longrightarrow> entries_from_bytes b ! i = entry_of (slice (i * 32) 32 b)"
  by (simp add: entries_from_bytes_def)

section \<open>Single writes\<close>

lemma slice_overwrite_head: "length b = 32 \<Longrightarrow> a + n \<le> 32 \<Longrightarrow> 0 < a \<Longrightarrow> slice a n (overwrite 0 [x] b) = slice a n b"
  by (simp add: slice_overwrite_disjoint)

lemma entry_of_status:
  "length b = 32 \<Longrightarrow> entry_of (overwrite 0 [x] b) = (entry_of b)\<lparr>we_status := x\<rparr>"
  by (simp add: entry_of_def slice_overwrite_head nth_overwrite)

lemma header_of_status:
  "length b = 32 \<Longrightarrow> header_of (overwrite 8 [x] b) = (header_of b)\<lparr>wh_status := x\<rparr>"
  by (simp add: header_of_def slice_overwrite_disjoint nth_overwrite)

lemma header_of_count:
  "length b = 32 \<Longrightarrow> header_of (overwrite 16 (to_le64 n) b) = (header_of b)\<lparr>wh_count := n\<rparr>"
  by (simp add: header_of_def slice_overwrite_disjoint slice_overwrite_same nth_overwrite)

section \<open>The block\<close>

definition block_holds :: "u8 list \<Rightarrow> wal_header \<Rightarrow> wal_entry list \<Rightarrow> bool" where
  "block_holds c h es \<longleftrightarrow> length c = 32 + 32 * unat (wh_capacity h) \<and> header_of (slice 0 32 c) = h
     \<and> wh_magic h = WAL_MAGIC \<and> wh_capacity h \<le> WAL_MAX_CAP \<and> wh_count h \<le> wh_capacity h
     \<and> entries_from_bytes (slice 32 (unat (wh_count h) * 32) c) = es"

lemma cap_bound: "cap \<le> WAL_MAX_CAP \<Longrightarrow> unat cap \<le> 1048576"
  by (simp add: WAL_MAX_CAP_def word_le_nat_alt push_bit_eq_mult)

lemma count_bound: "block_holds c h es \<Longrightarrow> unat (wh_count h) \<le> unat (wh_capacity h)"
  by (simp add: block_holds_def word_le_nat_alt)

lemma holds_length: "block_holds c h es \<Longrightarrow> length es = unat (wh_count h)"
  using count_bound [of c h es] by (auto simp: block_holds_def)

lemma holds_status:
  assumes "block_holds c h es"
  shows "block_holds (overwrite 8 [x] c) (h\<lparr>wh_status := x\<rparr>) es"
proof -
  have l: "length c = 32 + 32 * unat (wh_capacity h)" and n: "unat (wh_count h) \<le> unat (wh_capacity h)"
    using assms count_bound [OF assms] by (simp_all add: block_holds_def)
  have "slice 0 32 (overwrite 8 [x] c) = overwrite 8 [x] (slice 0 32 c)"
    using l by (simp add: slice_overwrite_around)
  moreover have "slice 32 (unat (wh_count h) * 32) (overwrite 8 [x] c) = slice 32 (unat (wh_count h) * 32) c"
    using l n by (intro slice_overwrite_disjoint) auto
  ultimately show ?thesis
    using assms l by (simp add: block_holds_def header_of_status)
qed

lemma holds_mark:
  assumes h: "block_holds c h es" and i: "i < length es"
  shows "block_holds (overwrite (32 + 32 * i) [x] c) h (es[i := (es ! i)\<lparr>we_status := x\<rparr>])"
proof -
  let ?n = "unat (wh_count h)"
  have l: "length c = 32 + 32 * unat (wh_capacity h)" and n: "?n \<le> unat (wh_capacity h)" and e: "i < ?n"
    and es: "entries_from_bytes (slice 32 (?n * 32) c) = es"
    using assms count_bound [OF h] holds_length [OF h] by (simp_all add: block_holds_def)
  have hd: "slice 0 32 (overwrite (32 + 32 * i) [x] c) = slice 0 32 c"
    using l n e by (intro slice_overwrite_disjoint) auto
  have "slice 32 (?n * 32) (overwrite (32 + 32 * i) [x] c) = overwrite (32 * i) [x] (slice 32 (?n * 32) c)"
    using l n e by (subst slice_overwrite_around) auto
  moreover have "entries_from_bytes (overwrite (32 * i) [x] (slice 32 (?n * 32) c)) =
      es[i := (es ! i)\<lparr>we_status := x\<rparr>]"
  proof (rule nth_equalityI)
    fix j assume "j < length (entries_from_bytes (overwrite (32 * i) [x] (slice 32 (?n * 32) c)))"
    then have j: "j < ?n" using l n e by simp
    let ?b = "slice 32 (?n * 32) c"
    have lb: "length ?b = ?n * 32" using l n by simp
    show "entries_from_bytes (overwrite (32 * i) [x] ?b) ! j = es[i := (es ! i)\<lparr>we_status := x\<rparr>] ! j"
    proof (cases "j = i")
      case True
      have "slice (i * 32) 32 (overwrite (32 * i) [x] ?b) = overwrite 0 [x] (slice (i * 32) 32 ?b)"
        using lb e by (subst slice_overwrite_around) auto
      then show ?thesis
        using True e lb by (simp add: es [symmetric] nth_entries_from_bytes entry_of_status)
    next
      case False
      then have "slice (j * 32) 32 (overwrite (32 * i) [x] ?b) = slice (j * 32) 32 ?b"
        using lb e j by (intro slice_overwrite_disjoint) auto
      then show ?thesis using False e j lb by (simp add: es [symmetric] nth_entries_from_bytes)
    qed
  qed (use l n e es holds_length [OF h] in simp)
  ultimately show ?thesis using h hd l n e by (simp add: block_holds_def)
qed

text \<open>A write past the live entries is not seen; counting it makes it the last entry.\<close>

lemma holds_unseen:
  assumes h: "block_holds c h es" and i: "wh_count h < wh_capacity h" and l: "length b = 32"
  shows "block_holds (overwrite (32 + 32 * unat (wh_count h)) b c) h es"
proof -
  have c: "length c = 32 + 32 * unat (wh_capacity h)" and n: "unat (wh_count h) < unat (wh_capacity h)"
    using assms by (simp_all add: block_holds_def word_less_nat_alt)
  have "slice 0 32 (overwrite (32 + 32 * unat (wh_count h)) b c) = slice 0 32 c"
    using c n l by (intro slice_overwrite_disjoint) auto
  moreover have "slice 32 (unat (wh_count h) * 32) (overwrite (32 + 32 * unat (wh_count h)) b c)
      = slice 32 (unat (wh_count h) * 32) c"
    using c n l by (intro slice_overwrite_disjoint) auto
  ultimately show ?thesis using h c n l by (simp add: block_holds_def)
qed

lemma holds_append:
  assumes h: "block_holds c h es" and i: "wh_count h < wh_capacity h" and p: "length (we_pad e) = 6"
  shows "block_holds (overwrite 16 (to_le64 (wh_count h + 1)) (overwrite (32 + 32 * unat (wh_count h)) (entry_bytes e) c))
    (h\<lparr>wh_count := wh_count h + 1\<rparr>) (es @ [e])"
proof -
  let ?n = "unat (wh_count h)"
  let ?c = "overwrite (32 + 32 * ?n) (entry_bytes e) c"
  have c: "length c = 32 + 32 * unat (wh_capacity h)" and n: "?n < unat (wh_capacity h)"
    and le: "wh_capacity h \<le> WAL_MAX_CAP" and es: "entries_from_bytes (slice 32 (?n * 32) c) = es"
    using assms by (simp_all add: block_holds_def word_less_nat_alt)
  have lc: "length ?c = length c" using c n p by (intro length_overwrite) auto
  have n1: "unat (wh_count h + 1) = ?n + 1"
    using n cap_bound [OF le] by (subst unat_plus_u64) auto
  have hh: "block_holds ?c h es" using p by (intro holds_unseen [OF h i]) simp
  have s0: "slice 0 32 (overwrite 16 (to_le64 (wh_count h + 1)) ?c) = overwrite 16 (to_le64 (wh_count h + 1)) (slice 0 32 ?c)"
    using lc c by (subst slice_overwrite_around) auto
  have "slice 32 ((?n + 1) * 32) (overwrite 16 (to_le64 (wh_count h + 1)) ?c) = slice 32 ((?n + 1) * 32) ?c"
    using lc c n by (intro slice_overwrite_disjoint) auto
  also have "\<dots> = slice 32 (?n * 32) ?c @ slice (32 + ?n * 32) 32 ?c"
    using slice_append_split [of 32 "?n * 32" 32 ?c] by (simp add: add.commute)
  also have "slice 32 (?n * 32) ?c = slice 32 (?n * 32) c"
    using c n p by (intro slice_overwrite_disjoint) auto
  also have "slice (32 + ?n * 32) 32 ?c = entry_bytes e"
    unfolding mult.commute [of ?n 32] by (rule slice_overwrite_same) (use c n p in simp_all)
  finally have b: "slice 32 ((?n + 1) * 32) (overwrite 16 (to_le64 (wh_count h + 1)) ?c)
      = slice 32 (?n * 32) c @ entry_bytes e" .
  have "entries_from_bytes (slice 32 (?n * 32) c @ entry_bytes e) = es @ [e]"
  proof (rule nth_equalityI)
    fix j assume "j < length (entries_from_bytes (slice 32 (?n * 32) c @ entry_bytes e))"
    then have j: "j < ?n + 1" using c n p by simp
    show "entries_from_bytes (slice 32 (?n * 32) c @ entry_bytes e) ! j = (es @ [e]) ! j"
    proof (cases "j = ?n")
      case True
      then show ?thesis using c n p
        by (simp add: es [symmetric] nth_entries_from_bytes nth_append slice_append2 entry_of_bytes)
    next
      case False
      then show ?thesis using c n p j
        by (simp add: es [symmetric] nth_entries_from_bytes nth_append slice_append1)
    qed
  qed (use c n p es holds_length [OF h] in simp)
  moreover have "header_of (slice 0 32 ?c) = h" "length (slice 0 32 ?c) = 32"
    using hh lc c by (simp_all add: block_holds_def)
  then have "header_of (slice 0 32 (overwrite 16 (to_le64 (wh_count h + 1)) ?c)) = h\<lparr>wh_count := wh_count h + 1\<rparr>"
    by (simp add: s0 header_of_count)
  ultimately show ?thesis
    using hh c lc n n1 b by (simp add: block_holds_def word_le_nat_alt)
qed

text \<open>A staged image.\<close>

lemma length_block_image:
  "\<forall>e \<in> set (wl_entries l). length (we_pad e) = 6 \<Longrightarrow>
    length (block_image l st cap) = 32 + 32 * length (wl_entries l)"
  by (simp add: block_image_def log_as_bytes_def length_log_bytes)

lemma holds_image:
  assumes p: "\<forall>e \<in> set (wl_entries l). length (we_pad e) = 6"
    and n: "length (wl_entries l) \<le> unat cap" and cap: "cap \<le> WAL_MAX_CAP"
    and c: "length c = 32 + 32 * unat cap"
  shows "block_holds (overwrite 0 (block_image l st cap) c)
    (wal_header_new st (of_nat (length (wl_entries l))) cap) (wl_entries l)"
proof -
  let ?n = "length (wl_entries l)"
  let ?img = "block_image l st cap"
  let ?h = "wal_header_new st (of_nat ?n) cap"
  have un: "unat (of_nat ?n :: u64) = ?n"
    using n cap_bound [OF cap] by (intro unat_of_nat_u64) simp
  have li: "length ?img = 32 + 32 * ?n" using p by (rule length_block_image)
  have "slice 0 32 (overwrite 0 ?img c) = slice 0 32 ?img"
    using c n li by (subst slice_overwrite_inside) auto
  also have "\<dots> = header_bytes ?h" by (simp add: block_image_def slice_def)
  finally have hd: "slice 0 32 (overwrite 0 ?img c) = header_bytes ?h" .
  have "slice 32 (?n * 32) (overwrite 0 ?img c) = slice 32 (?n * 32) ?img"
    using c n li by (subst slice_overwrite_inside) auto
  also have "\<dots> = concat (map entry_bytes (wl_entries l))"
    using p by (simp add: block_image_def log_as_bytes_def slice_append2 length_log_bytes)
  finally have bd: "slice 32 (?n * 32) (overwrite 0 ?img c) = concat (map entry_bytes (wl_entries l))" .
  show ?thesis
    using c n li cap un by (simp add: block_holds_def hd bd header_of_bytes entries_from_log [OF p] word_le_nat_alt)
qed

lemma holds_new:
  assumes cap: "cap \<le> WAL_MAX_CAP" and c: "length c = 32 + 32 * unat cap"
  shows "block_holds (overwrite 0 (header_bytes (wal_header_new WNone 0 cap)) c) (wal_header_new WNone 0 cap) []"
  using holds_image [of "log_with_capacity" cap c WNone] cap c
  by (simp add: log_with_capacity_def block_image_def log_as_bytes_def)

section \<open>The logs that are staged\<close>

lemma log_append_entries [simp]: "wl_entries (log_append l e) = wl_entries l @ [e]"
  by (simp add: log_append_def)

lemma alloc_log_entries: "wl_entries (alloc_log qs) = map (entry_alloc WPending) qs"
  by (induction qs rule: rev_induct) (simp_all add: alloc_log_def log_with_capacity_def)

lemma dealloc_log_entries: "wl_entries (dealloc_log qs) = map (\<lambda>(f, q). entry_dealloc_in WPending f q) qs"
  by (induction qs rule: rev_induct) (auto simp: dealloc_log_def log_with_capacity_def)

lemma pow2_from_ge: "0 < p \<Longrightarrow> n \<le> pow2_from p n"
  by (induction p n rule: pow2_from.induct) (subst pow2_from.simps, auto)

lemma pow2_from_le: "p = 2 ^ i \<Longrightarrow> n \<le> 2 ^ k \<Longrightarrow> i \<le> k \<Longrightarrow> pow2_from p n \<le> 2 ^ k"
proof (induction p n arbitrary: i rule: pow2_from.induct)
  case (1 p n)
  show ?case
  proof (cases "n \<le> p")
    case True
    with 1 show ?thesis by (subst pow2_from.simps) simp
  next
    case False
    with 1 have "i < k" by (metis nat_less_le nle_le)
    then have "pow2_from (2 * p) n \<le> 2 ^ k" using 1 False by (intro "1.IH" [of "Suc i"]) auto
    with False "1.prems" show ?thesis by (subst pow2_from.simps) simp
  qed
qed

lemma next_power_of_two_le:
  assumes "n \<le> WAL_MAX_CAP"
  shows "n \<le> next_power_of_two n" and "next_power_of_two n \<le> WAL_MAX_CAP"
proof -
  have n: "unat n \<le> 2 ^ 20" using cap_bound [OF assms] by simp
  have ge: "unat n \<le> pow2_from 1 (unat n)" by (rule pow2_from_ge) simp
  have le: "pow2_from 1 (unat n) \<le> 2 ^ 20" by (rule pow2_from_le [where i = 0]) (use n in auto)
  have u: "unat (next_power_of_two n) = pow2_from 1 (unat n)"
    unfolding next_power_of_two_def by (rule unat_of_nat_u64) (use le in simp)
  show "n \<le> next_power_of_two n" using ge u by (simp add: word_le_nat_alt)
  show "next_power_of_two n \<le> WAL_MAX_CAP"
    using le u by (simp add: word_le_nat_alt WAL_MAX_CAP_def push_bit_eq_mult)
qed

end
