(* ===== verification/WalFinish.thy ===== *)
theory WalFinish
  imports WalBlock
begin

text \<open>
  Completion of a staged transaction. \<open>wal_at\<close> is the persistent block as the anchor names it;
  \<open>recoverable\<close> adds that the slices \<^verbatim>\<open>finish\<close> would free are live, distinct and not
  the block itself, so that running it frees nothing twice. \<^verbatim>\<open>finish\<close> keeps that state
  at whatever call it fails, and frees exactly those slices when it succeeds.
\<close>

section \<open>The block in the store\<close>

definition wal_at :: "'s stack_view \<Rightarrow> 's \<Rightarrow> range \<Rightarrow> wal_header \<Rightarrow> wal_entry list \<Rightarrow> bool" where
  "wal_at vw s q h es \<longleftrightarrow> q \<in> v_live vw s \<and> from_le64 (slice 8 8 (v_bytes vw s)) = fst q
     \<and> unat (snd q) = 32 + 32 * unat (wh_capacity h) \<and> block_holds (content (v_bytes vw s) q) h es"

definition orphans :: "bool \<Rightarrow> wal_entry list \<Rightarrow> range list" where
  "orphans committed es =
     map (\<lambda>e. the (orphan_of committed e))
       (filter (\<lambda>e. orphan_of committed e \<noteq> None \<and> entry_file_id e = 0) es)"

definition orphan_count :: "bool \<Rightarrow> wal_entry list \<Rightarrow> nat" where
  "orphan_count committed es = length (filter (\<lambda>e. orphan_of committed e \<noteq> None) es)"

definition committed_txn :: "wal_header \<Rightarrow> bool" where
  "committed_txn h \<longleftrightarrow> header_txn_status h = WComplete"

definition staged :: "wal_header \<Rightarrow> wal_entry list \<Rightarrow> range list" where
  "staged h es = (if header_txn_status h = WNone then [] else orphans (committed_txn h) es)"

definition recoverable :: "'s stack_view \<Rightarrow> 's \<Rightarrow> range \<Rightarrow> wal_header \<Rightarrow> wal_entry list \<Rightarrow> bool" where
  "recoverable vw s q h es \<longleftrightarrow> wal_at vw s q h es \<and> distinct (staged h es)
     \<and> set (staged h es) \<subseteq> v_live vw s - {q}"

text \<open>From \<open>s\<close> to \<open>s'\<close> only the blocks of \<open>W\<close> may be written and only those of \<open>A\<close> freed, of which
  at most \<open>left\<close> survive.\<close>

definition settles :: "'s stack_view \<Rightarrow> 's \<Rightarrow> range set \<Rightarrow> range set \<Rightarrow> range set \<Rightarrow> 's \<Rightarrow> bool" where
  "settles vw s W A left s' \<longleftrightarrow> (\<exists>L. relived vw s (v_live vw s - A - W) L s'
     \<and> v_live vw s - A \<subseteq> L \<and> L \<subseteq> (v_live vw s - A) \<union> left)"

lemma settles_good: "settles vw s W A left s' \<Longrightarrow> v_good vw s'"
  by (auto simp: settles_def relived_def)

lemma settles_live:
  "settles vw s W A left s' \<Longrightarrow> v_live vw s - A \<subseteq> v_live vw s' \<and> v_live vw s' \<subseteq> (v_live vw s - A) \<union> left"
  by (auto simp: settles_def relived_def)

lemma settles_refl: "v_good vw s \<Longrightarrow> settles vw s W {} {} s"
  by (auto simp: settles_def relived_def same_on_def)

lemma settles_mono: "settles vw s W A left s' \<Longrightarrow> left \<subseteq> left' \<Longrightarrow> settles vw s W A left' s'"
  unfolding settles_def by blast

lemma settles_trans:
  assumes "settles vw s W A L s1" and "settles vw s1 W B M s2"
  shows "settles vw s W (A \<union> B) (L \<union> M) s2"
  using assms unfolding settles_def relived_def same_on_def by (auto 0 4)

lemma freed_settles: "freed vw s A left s' \<Longrightarrow> settles vw s W A left s'"
  unfolding freed_def settles_def relived_def same_on_def by auto

lemma same_on_word:
  assumes "same_on (insert reserved R) b b'"
  shows "slice 8 8 b' = slice 8 8 b"
proof (rule slice_mono_eq [of 0 16])
  show "slice 0 16 b' = slice 0 16 b" using assms by (simp add: same_on_def content_def reserved_def)
qed simp_all

lemma wal_at_relived:
  assumes "wal_at vw s q h es" and "relived vw s R L s'" and "q \<in> R" and "q \<in> L"
  shows "wal_at vw s' q h es"
  using assms same_on_word [of R "v_bytes vw s" "v_bytes vw s'"]
  by (auto simp: wal_at_def relived_def same_on_def)

lemma wal_at_freed:
  assumes "wal_at vw s q h es" and "freed vw s A left s'" and "q \<notin> A"
  shows "wal_at vw s' q h es"
proof -
  obtain L where L: "relived vw s (v_live vw s - A) L s'" "v_live vw s - A \<subseteq> L"
    using assms(2) by (auto simp: freed_def)
  have "q \<in> v_live vw s" using assms(1) by (simp add: wal_at_def)
  with wal_at_relived [OF assms(1) L(1)] L(2) assms(3) show ?thesis by blast
qed

section \<open>Orphans\<close>

lemma orphans_simps [simp]:
  "orphans c [] = []"
  "orphans c (e # es) = (case orphan_of c e of
     Some q \<Rightarrow> if entry_file_id e = 0 then q # orphans c es else orphans c es | None \<Rightarrow> orphans c es)"
  "orphans c (es @ es') = orphans c es @ orphans c es'"
  by (auto simp: orphans_def split: option.splits)

lemma orphan_count_simps [simp]:
  "orphan_count c [] = 0"
  "orphan_count c (e # es) = (if orphan_of c e = None then 0 else 1) + orphan_count c es"
  by (simp_all add: orphan_count_def)

lemma orphan_marked [simp]: "orphan_of c (e\<lparr>we_status := 2\<rparr>) = None"
  by (simp add: orphan_of_def entry_status_def status_from_u8_def)

lemma status_byte_complete [simp]: "status_byte WComplete = 2"
  by simp

section \<open>Writes into the block\<close>

lemma content_overwrite:
  assumes "unat (fst q) + k + length d \<le> unat (fst q) + unat (snd q)"
    and "unat (fst q) + unat (snd q) \<le> length b"
  shows "content (overwrite (unat (fst q) + k) d b) q = overwrite k d (content b q)"
  using assms by (simp add: content_def slice_overwrite_around)

context stack_laws
begin

lemma block_written:
  assumes g: "v_good vw s" and q: "q \<in> v_live vw s" and k: "k + length d \<le> unat (snd q)"
    and off: "unat (off :: u64) = unat (fst q) + k" and w: "written vw s (overwrite (unat off) d (v_bytes vw s)) s'"
  shows "relived vw s (v_live vw s - {q}) (v_live vw s) s'
    \<and> content (v_bytes vw s') q = overwrite k d (content (v_bytes vw s) q)"
proof -
  have e: "range_end q \<le> length (v_bytes vw s)" using good_live [OF g q] by simp
  have i: "inside (unat off) (length d) q" using k off by (simp add: inside_def range_end_def)
  have "same_on (insert reserved (v_live vw s - {q})) (v_bytes vw s) (overwrite (unat off) d (v_bytes vw s))"
    by (rule same_on_set [OF g q i])
  moreover have "content (overwrite (unat off) d (v_bytes vw s)) q = overwrite k d (content (v_bytes vw s) q)"
    unfolding off by (rule content_overwrite) (use k e in \<open>auto simp: range_end_def\<close>)
  ultimately show ?thesis using w by (auto simp: relived_def written_def)
qed

lemma set_in_block:
  assumes "v_good vw s" and "q \<in> v_live vw s" and "k + length d \<le> unat (snd q)"
    and "unat off = unat (fst q) + k" and "op_set io off d s = (r, s')"
  shows "case r of
      Inl e \<Rightarrow> unchanged vw s s'
    | Inr _ \<Rightarrow> relived vw s (v_live vw s - {q}) (v_live vw s) s'
        \<and> content (v_bytes vw s') q = overwrite k d (content (v_bytes vw s) q)"
  using set_law [OF assms(1,5)] block_written [OF assms(1-4), of s'] by (auto split: sum.splits)

lemma commit_in_block:
  assumes "v_good vw s" and "q \<in> v_live vw s" and "k + length d \<le> unat (snd q)"
    and "unat off = unat (fst q) + k" and "op_commit io [(off, d)] s = (r, s')"
  shows "case r of
      Inl e \<Rightarrow> unchanged vw s s'
    | Inr _ \<Rightarrow> relived vw s (v_live vw s - {q}) (v_live vw s) s'
        \<and> content (v_bytes vw s') q = overwrite k d (content (v_bytes vw s) q)"
  using commit_law [OF assms(1,5)] block_written [OF assms(1-4), of s'] by (auto split: sum.splits)

lemma relived_settles:
  "relived vw s (v_live vw s - {q}) (v_live vw s) s' \<Longrightarrow> settles vw s {q} {} {} s'"
  by (auto simp: settles_def)

lemma unchanged_settles: "unchanged vw s s' \<Longrightarrow> settles vw s W {} {} s'"
  by (auto simp: settles_def unchanged_def relived_def)

lemma wal_at_unchanged: "wal_at vw s q h es \<Longrightarrow> unchanged vw s s' \<Longrightarrow> wal_at vw s' q h es"
  by (simp add: wal_at_def unchanged_def)

lemma wal_at_write:
  assumes at: "wal_at vw s q h es" and r: "relived vw s (v_live vw s - {q}) (v_live vw s) s'"
    and c: "block_holds (content (v_bytes vw s') q) h' es'" and cap: "wh_capacity h' = wh_capacity h"
  shows "wal_at vw s' q h' es'"
  using at r c cap same_on_word [of "v_live vw s - {q}" "v_bytes vw s" "v_bytes vw s'"]
  by (auto simp: wal_at_def relived_def)

lemma block_bounds:
  assumes g: "v_good vw s" and at: "wal_at vw s q h es"
  shows "unat (snd q) = 32 + 32 * unat (wh_capacity h)" and "unat (wh_capacity h) \<le> 1048576"
    and "unat (fst q) + unat (snd q) \<le> length (v_bytes vw s)" and "16 \<le> unat (fst q)"
    and "unat (fst q) + unat (snd q) < 2 ^ 63" and "length es = unat (wh_count h)"
    and "unat (wh_count h) \<le> unat (wh_capacity h)"
  using at good_live [OF g, of q] good_store [OF g] holds_length [of _ h es] count_bound [of _ h es] cap_bound [of "wh_capacity h"]
  by (auto simp: wal_at_def block_holds_def range_end_def)

lemma set_entry_status:
  assumes g: "v_good vw s" and at: "wal_at vw s q h (done @ e # es)"
    and run: "op_set io (fst q + 32 + of_nat (length done) * 32) [x] s = (r, s')"
  shows "case r of
      Inl e' \<Rightarrow> unchanged vw s s'
    | Inr _ \<Rightarrow> relived vw s (v_live vw s - {q}) (v_live vw s) s'
        \<and> wal_at vw s' q h (done @ e\<lparr>we_status := x\<rparr> # es)"
proof -
  note b = block_bounds [OF g at]
  have q: "q \<in> v_live vw s" using at by (simp add: wal_at_def)
  have n: "unat (of_nat (length done) :: u64) = length done"
    using b by (intro unat_of_nat_u64) simp
  have m: "unat (of_nat (length done) * 32 :: u64) = 32 * length done"
    using b n by (subst unat_mult_u64) simp_all
  have a: "unat (fst q + 32 :: u64) = unat (fst q) + 32" using b by (subst unat_plus_u64) simp_all
  have off: "unat (fst q + 32 + of_nat (length done) * 32) = unat (fst q) + (32 + 32 * length done)"
    using b a m by (subst unat_plus_u64) simp_all
  have k: "32 + 32 * length done + length [x] \<le> unat (snd q)" using b by simp
  have "block_holds (overwrite (32 + 32 * length done) [x] (content (v_bytes vw s) q)) h
      ((done @ e # es)[length done := ((done @ e # es) ! length done)\<lparr>we_status := x\<rparr>])"
    using at by (intro holds_mark) (simp_all add: wal_at_def)
  with set_in_block [OF g q k off run] wal_at_write [OF at, of s' h] show ?thesis
    by (auto split: sum.splits)
qed

section \<open>Reading the block\<close>

lemma read_anchor_ok:
  assumes g: "v_good vw s" and an: "op_anchor io = Some 8" and run: "read_anchor io s = (r, s')"
  shows "unchanged vw s s' \<and> (\<forall>o1. r = Inr o1 \<longrightarrow>
    o1 = nn_new (Offset (from_le64 (slice 8 8 (v_bytes vw s)))))"
proof -
  obtain rb s1 where rd: "op_read io 8 8 s = (rb, s1)" by (cases "op_read io 8 8 s")
  from read_law [OF g rd] run an rd show ?thesis
    by (cases rb) (auto simp: read_anchor_def read_u64_def offset_to_non_null_def)
qed

lemma wal_load_ok:
  assumes g: "v_good vw s" and an: "op_anchor io = Some 8" and at: "wal_at vw s q h es"
    and run: "wal_load io s = (r, s')"
  shows "unchanged vw s s' \<and> (\<forall>x. r = Inr x \<longrightarrow> x = Some (q, h, es))"
proof -
  note b = block_bounds [OF g at]
  have bh: "block_holds (content (v_bytes vw s) q) h es" and af: "from_le64 (slice 8 8 (v_bytes vw s)) = fst q"
    using at by (simp_all add: wal_at_def)
  have nz: "fst q \<noteq> 0" using b(4) by auto
  obtain ra s1 where ra: "read_anchor io s = (ra, s1)" by (cases "read_anchor io s")
  note l0 = read_anchor_ok [OF g an ra]
  show ?thesis
  proof (cases ra)
    case (Inl e)
    with run ra l0 show ?thesis by (auto simp: wal_load_def)
  next
    case (Inr o1)
    have o1: "o1 = Some (NonNullOffset (fst q))" using l0 Inr af nz by simp
    have u1: "unchanged vw s s1" and g1: "v_good vw s1" using l0 by (auto simp: unchanged_def)
    have a: "unat (fst q + 32 :: u64) = unat (fst q) + 32" using b by (subst unat_plus_u64) simp_all
    obtain rb s2 where rb: "op_read io (fst q) 32 s1 = (rb, s2)" by (cases "op_read io (fst q) 32 s1")
    note l1 = read_law [OF g1 rb]
    have u2: "unchanged vw s s2" and g2: "v_good vw s2"
      using u1 l1 unchanged_trans by (blast, auto simp: unchanged_def)
    have run1: "wal_load io s = try_s (rb, s2) (\<lambda>hbuf s2.
             let h = header_of hbuf in
             if wh_magic h \<noteq> WAL_MAGIC then (Inr None, s2)
             else if wh_capacity h > WAL_MAX_CAP \<or> wh_count h > wh_capacity h then (Inl corrupt_wal_capacity, s2)
             else try_s (op_read io (fst q + 32) (unat (wh_count h) * 32) s2) (\<lambda>ebuf s3.
               (Inr (Some ((fst q, 32 + wh_capacity h * 32), h, entries_from_bytes ebuf)), s3)))"
      by (simp add: wal_load_def ra Inr o1 rb Let_def)
    show ?thesis
    proof (cases rb)
      case (Inl e)
      with run run1 u2 show ?thesis by auto
    next
      case hb: (Inr hbuf)
      have by1: "v_bytes vw s1 = v_bytes vw s" using u1 by (simp add: unchanged_def)
      have hbuf: "hbuf = slice (unat (fst q)) 32 (v_bytes vw s)" using l1 hb by1 by simp
      have h0: "slice 0 32 (content (v_bytes vw s) q) = hbuf"
        using b by (simp add: hbuf content_def slice_slice)
      have h: "header_of hbuf = h" "wh_magic h = WAL_MAGIC" "wh_capacity h \<le> WAL_MAX_CAP" "wh_count h \<le> wh_capacity h"
        using bh by (simp_all add: block_holds_def h0)
      obtain re s3 where re: "op_read io (fst q + 32) (unat (wh_count h) * 32) s2 = (re, s3)" by (cases "op_read io (fst q + 32) (unat (wh_count h) * 32) s2")
      note l2 = read_law [OF g2 re]
      have "slice (unat (fst q + 32)) (unat (wh_count h) * 32) (v_bytes vw s2)
          = slice 32 (unat (wh_count h) * 32) (content (v_bytes vw s) q)"
        using b u2 a by (simp add: content_def slice_slice unchanged_def)
      then have es: "entries_from_bytes (slice (unat (fst q + 32)) (unat (wh_count h) * 32) (v_bytes vw s2)) = es"
        using bh by (simp add: block_holds_def)
      have "unat (32 + wh_capacity h * 32 :: u64) = unat (snd q)"
        using b by (subst unat_plus_u64; subst unat_mult_u64) simp_all
      then have q: "(fst q, 32 + wh_capacity h * 32) = q" by (simp add: prod_eq_iff word_unat_eq_iff)
      have u3: "unchanged vw s s3" using u2 l2 unchanged_trans by blast
      show ?thesis
        using run run1 hb h re l2 es u3 q by (cases re) (auto simp: not_less [symmetric])
    qed
  qed
qed

section \<open>Freeing the orphans\<close>

lemma free_recorded_ok:
  assumes g: "v_good vw s" and q: "f = 0 \<Longrightarrow> q \<in> v_live vw s" and run: "free_recorded io f q s = (r, s')"
  shows "freed vw s (if f = 0 then {q} else {}) (if f = 0 then (case r of Inl e \<Rightarrow> {q} | Inr _ \<Rightarrow> {}) else {}) s'"
proof (cases "f = 0")
  case True
  with dealloc_freed [OF g q [OF True], of r s'] run show ?thesis by (simp add: free_recorded_def)
next
  case False
  have "unchanged vw s s'"
  proof (cases "file_from_u64 f")
    case None
    with False run g show ?thesis by (simp add: free_recorded_def unchanged_def)
  next
    case (Some fid)
    obtain rh s1 where h: "op_host_free io fid q s = (rh, s1)" by (cases "op_host_free io fid q s")
    from host_law [OF g h] run False Some h show ?thesis
      by (auto simp: free_recorded_def split: option.splits)
  qed
  with False show ?thesis by (simp add: freed_unchanged)
qed

text \<open>The sequential loop. \<open>done\<close> are the entries already passed.\<close>

lemma finish_each_ok:
  assumes "v_good vw s" and "wal_at vw s q h (done @ es)" and "orphans c done = []"
    and "distinct (orphans c es)" and "set (orphans c es) \<subseteq> v_live vw s - {q}"
    and "finish_each io (fst q + 32) c (of_nat (length done)) es n s = (r, s')"
  shows "\<exists>es'. wal_at vw s' q h es' \<and> distinct (orphans c es') \<and> set (orphans c es') \<subseteq> v_live vw s' - {q}
    \<and> set (orphans c es') \<subseteq> set (orphans c es) \<and> settles vw s {q} (set (orphans c es)) (case r of Inl e \<Rightarrow> set (orphans c es) | Inr _ \<Rightarrow> {}) s'
    \<and> (\<forall>m. r = Inr m \<longrightarrow> m = n + orphan_count c es)"
  using assms
proof (induction es arbitrary: "done" n s)
  case Nil
  then show ?case
    by (intro exI [of _ "done"]) (auto simp: settles_refl)
next
  case (Cons e es)
  note g = Cons.prems(1)
  have len: "of_nat (length done) + 1 = (of_nat (length (done @ [e'])) :: u64)" for e' :: wal_entry by simp
  show ?case
  proof (cases "orphan_of c e")
    case None
    with Cons.prems len [of e] have "orphans c (done @ [e]) = []"
      "finish_each io (fst q + 32) c (of_nat (length (done @ [e]))) es n s = (r, s')"
      "wal_at vw s q h ((done @ [e]) @ es)" by simp_all
    note step = this
    have eq: "orphans c (e # es) = orphans c es" "orphan_count c (e # es) = orphan_count c es"
      using None by simp_all
    from Cons.IH [OF g step(3,1) _ _ step(2)] Cons.prems(4,5) show ?thesis unfolding eq by blast
  next
    case (Some p)
    let ?e = "e\<lparr>we_status := 2\<rparr>"
    obtain r1 s1 where st: "op_set io (fst q + 32 + of_nat (length done) * 32) [2] s = (r1, s1)"
      by (cases "op_set io (fst q + 32 + of_nat (length done) * 32) [2] s")
    note l1 = set_entry_status [OF g Cons.prems(2) st]
    show ?thesis
    proof (cases r1)
      case (Inl err)
      with l1 have "unchanged vw s s1" by simp
      moreover have "r = Inl err" "s' = s1" using Cons.prems(6) Some st Inl by simp_all
      ultimately show ?thesis
        using Cons.prems(2-5) settles_mono [OF unchanged_settles [of s s1 "{q}"]]
        by (intro exI [of _ "done @ e # es"])
          (auto intro: wal_at_unchanged simp: unchanged_def settles_def relived_def)
    next
      case (Inr u)
      with l1 have w: "relived vw s (v_live vw s - {q}) (v_live vw s) s1" "wal_at vw s1 q h (done @ ?e # es)" by auto
      have g1: "v_good vw s1" and lv1: "v_live vw s1 = v_live vw s" using w(1) by (auto simp: relived_def)
      obtain r2 s2 where fr: "free_recorded io (entry_file_id e) p s1 = (r2, s2)" by (cases "free_recorded io (entry_file_id e) p s1")
      let ?A = "if entry_file_id e = 0 then {p} else {}"
      have pin: "entry_file_id e = 0 \<Longrightarrow> p \<in> v_live vw s1 \<and> p \<noteq> q \<and> p \<notin> set (orphans c es)"
        using Cons.prems(4,5) Some lv1 by auto
      then have f: "freed vw s1 ?A (if entry_file_id e = 0 then (case r2 of Inl e \<Rightarrow> {p} | Inr _ \<Rightarrow> {}) else {}) s2"
        using free_recorded_ok [OF g1 _ fr] by blast
      have at2: "wal_at vw s2 q h ((done @ [?e]) @ es)"
        using wal_at_freed [OF w(2) f] pin by (cases "entry_file_id e = 0") auto
      have se: "settles vw s {q} ?A (if entry_file_id e = 0 then (case r2 of Inl e \<Rightarrow> {p} | Inr _ \<Rightarrow> {}) else {}) s2"
        using settles_trans [OF relived_settles [OF w(1)] freed_settles [OF f]] by simp
      have lv2: "set (orphans c es) \<subseteq> v_live vw s2 - {q}"
        using settles_live [OF se] Cons.prems(5) Some pin by (auto split: if_splits)
      have d: "orphans c (done @ [?e]) = []" using Cons.prems(3) by simp
      have ds: "distinct (orphans c es)" using Cons.prems(4) Some by (auto split: if_splits)
      have g2: "v_good vw s2" by (rule settles_good [OF se])
      have os: "set (orphans c (e # es)) = ?A \<union> set (orphans c es)" using Some by simp
      show ?thesis
      proof (cases r2)
        case (Inl err)
        then have "r = Inl err" "s' = s2" using Cons.prems(6) Some st Inr fr by simp_all
        moreover have "settles vw s {q} (set (orphans c (e # es))) (set (orphans c (e # es))) s2"
        proof -
          have "v_live vw s - ?A \<subseteq> v_live vw s2 \<and> v_live vw s2 \<subseteq> v_live vw s"
            using settles_live [OF se] Cons.prems(5) Some by (auto split: if_splits sum.splits)
          with se os Cons.prems(5) show ?thesis
            unfolding settles_def relived_def same_on_def by (auto 0 3)
        qed
        ultimately show ?thesis using at2 d ds lv2 os by (intro exI [of _ "(done @ [?e]) @ es"]) auto
      next
        case ok: (Inr u2)
        have "finish_each io (fst q + 32) c (of_nat (length (done @ [?e]))) es (n + 1) s2 = (r, s')"
          using Cons.prems(6) Some st Inr fr ok by (simp add: add.commute)
        from Cons.IH [OF g2 at2 d ds lv2 this] obtain es' where
          t: "wal_at vw s' q h es'" "distinct (orphans c es')" "set (orphans c es') \<subseteq> v_live vw s' - {q}"
            "set (orphans c es') \<subseteq> set (orphans c es)"
            "settles vw s2 {q} (set (orphans c es)) (case r of Inl e \<Rightarrow> set (orphans c es) | Inr _ \<Rightarrow> {}) s'"
            "\<forall>m. r = Inr m \<longrightarrow> m = n + 1 + orphan_count c es" by blast
        have "settles vw s {q} (set (orphans c (e # es))) (case r of Inl e \<Rightarrow> set (orphans c es) | Inr _ \<Rightarrow> {}) s'"
          using settles_trans [OF se t(5)] ok os by (simp split: if_splits)
        then have "settles vw s {q} (set (orphans c (e # es))) (case r of Inl e' \<Rightarrow> set (orphans c (e # es)) | Inr _ \<Rightarrow> {}) s'"
          by (rule settles_mono) (use os in \<open>auto split: sum.splits\<close>)
        with t Some show ?thesis by (intro exI [of _ es']) auto
      qed
    qed
  qed
qed

text \<open>The bulk path: every orphan is marked first, then the local ones are freed together.\<close>

lemma mark_each_ok:
  assumes "v_good vw s" and "wal_at vw s q h (done @ es)" and "orphans c done = []"
    and "mark_each io (fst q + 32) c (of_nat (length done)) es loc far n s = (r, s')"
  shows "\<exists>es'. wal_at vw s' q h es' \<and> settles vw s {q} {} {} s' \<and> v_live vw s' = v_live vw s
    \<and> (case r of
         Inl e \<Rightarrow> \<exists>k. orphans c es' = drop k (orphans c es)
       | Inr (loc', far', m) \<Rightarrow> orphans c es' = [] \<and> loc' = loc @ orphans c es \<and> m = n + orphan_count c es
           \<and> (\<forall>(f, p) \<in> set far'. f \<noteq> 0 \<or> (f, p) \<in> set far))"
  using assms
proof (induction es arbitrary: "done" loc far n s)
  case Nil
  then show ?case by (intro exI [of _ "done"]) (auto simp: settles_refl)
next
  case (Cons e es)
  note g = Cons.prems(1)
  have len: "of_nat (length done) + 1 = (of_nat (length (done @ [e'])) :: u64)" for e' :: wal_entry by simp
  show ?case
  proof (cases "orphan_of c e")
    case None
    with Cons.prems have "orphans c (done @ [e]) = []"
      "mark_each io (fst q + 32) c (of_nat (length (done @ [e]))) es loc far n s = (r, s')"
      "wal_at vw s q h ((done @ [e]) @ es)" by (simp_all add: add.commute)
    note step = this
    have eq: "orphans c (e # es) = orphans c es" "orphan_count c (e # es) = orphan_count c es"
      using None by simp_all
    from Cons.IH [OF g step(3,1,2)] show ?thesis unfolding eq .
  next
    case (Some p)
    let ?e = "e\<lparr>we_status := 2\<rparr>"
    obtain r1 s1 where st: "op_set io (fst q + 32 + of_nat (length done) * 32) [2] s = (r1, s1)"
      by (cases "op_set io (fst q + 32 + of_nat (length done) * 32) [2] s")
    note l1 = set_entry_status [OF g Cons.prems(2) st]
    show ?thesis
    proof (cases r1)
      case (Inl err)
      with l1 have u: "unchanged vw s s1" by simp
      moreover have "r = Inl err" "s' = s1" using Cons.prems(4) Some st Inl by simp_all
      ultimately show ?thesis
        using Cons.prems(2,3) unchanged_settles [OF u, of "{q}"] wal_at_unchanged [OF Cons.prems(2) u]
        by (intro exI [of _ "done @ e # es"]) (auto simp: unchanged_def intro: exI [of _ 0])
    next
      case (Inr u)
      with l1 have w: "relived vw s (v_live vw s - {q}) (v_live vw s) s1"
        "wal_at vw s1 q h ((done @ [?e]) @ es)" by auto
      have g1: "v_good vw s1" and lv1: "v_live vw s1 = v_live vw s" using w(1) by (auto simp: relived_def)
      have d: "orphans c (done @ [?e]) = []" using Cons.prems(3) by simp
      let ?loc = "if entry_file_id e = 0 then loc @ [p] else loc"
      let ?far = "if entry_file_id e = 0 then far else far @ [(entry_file_id e, p)]"
      have run: "mark_each io (fst q + 32) c (of_nat (length (done @ [?e]))) es ?loc ?far (n + 1) s1 = (r, s')"
        using Cons.prems(4) Some st Inr by (simp add: add.commute split: if_splits)
      from Cons.IH [OF g1 w(2) d run] obtain es' where
        t: "wal_at vw s' q h es'" "settles vw s1 {q} {} {} s'" "v_live vw s' = v_live vw s1"
          "case r of Inl e \<Rightarrow> \<exists>k. orphans c es' = drop k (orphans c es)
           | Inr (loc', far', m) \<Rightarrow> orphans c es' = [] \<and> loc' = ?loc @ orphans c es \<and> m = (n + 1) + orphan_count c es
             \<and> (\<forall>(f, p) \<in> set far'. f \<noteq> 0 \<or> (f, p) \<in> set ?far)" by blast
      have se: "settles vw s {q} {} {} s'" using settles_trans [OF relived_settles [OF w(1)] t(2)] by simp
      show ?thesis
      proof (cases r)
        case (Inl err)
        with t(4) obtain k where k: "orphans c es' = drop k (orphans c es)" by auto
        then have "orphans c es' = drop (if entry_file_id e = 0 then Suc k else k) (orphans c (e # es))"
          using Some by simp
        with Inl t se lv1 show ?thesis by (intro exI [of _ es']) auto
      next
        case ok: (Inr x)
        with t se lv1 Some show ?thesis by (intro exI [of _ es']) (auto split: if_splits)
      qed
    qed
  qed
qed

lemma free_far_ok:
  "v_good vw s \<Longrightarrow> \<forall>(f, p) \<in> set fs. f \<noteq> 0 \<Longrightarrow> free_far io fs s = (r, s') \<Longrightarrow> freed vw s {} {} s'"
proof (induction fs arbitrary: s)
  case Nil
  then show ?case by (simp add: freed_unchanged unchanged_def)
next
  case (Cons x fs)
  obtain f p where x: "x = (f, p)" "f \<noteq> 0" using Cons.prems(2) by auto
  obtain r1 s1 where fr: "free_recorded io f p s = (r1, s1)" by (cases "free_recorded io f p s")
  have f1: "freed vw s {} {} s1" using free_recorded_ok [OF Cons.prems(1) _ fr] x(2) by simp
  show ?case
  proof (cases r1)
    case (Inl e)
    with Cons.prems(3) fr x f1 show ?thesis by simp
  next
    case (Inr u)
    with Cons.prems fr x have "freed vw s1 {} {} s'" by (intro Cons.IH [OF freed_good [OF f1]]) auto
    from freed_trans [OF f1 this] show ?thesis by simp
  qed
qed

lemma fme_res_split:
  assumes "fme_res m = (r, s')"
  obtains r0 where "m = (r0, s')" and "isl r \<longleftrightarrow> isl r0"
  using assms by (auto simp: fme_res_def split: prod.splits sum.splits)

lemma finish_bulk_ok:
  assumes g: "v_good vw s" and at: "wal_at vw s q h es"
    and d: "distinct (orphans c es)" and sub: "set (orphans c es) \<subseteq> v_live vw s - {q}"
    and run: "finish_bulk io (fst q + 32) c es s = (r, s')"
  shows "\<exists>es'. wal_at vw s' q h es' \<and> distinct (orphans c es') \<and> set (orphans c es') \<subseteq> v_live vw s' - {q}
    \<and> set (orphans c es') \<subseteq> set (orphans c es) \<and> settles vw s {q} (set (orphans c es)) (case r of Inl e \<Rightarrow> set (orphans c es) | Inr _ \<Rightarrow> {}) s'
    \<and> (\<forall>m. r = Inr m \<longrightarrow> m = orphan_count c es)"
proof -
  let ?A = "set (orphans c es)"
  obtain rm s1 where mk: "mark_each io (fst q + 32) c 0 es [] [] 0 s = (rm, s1)"
    by (cases "mark_each io (fst q + 32) c 0 es [] [] 0 s")
  have "mark_each io (fst q + 32) c (of_nat (length ([] :: wal_entry list))) es [] [] 0 s = (rm, s1)"
    "wal_at vw s q h ([] @ es)" using mk at by simp_all
  from mark_each_ok [OF g this(2) orphans_simps(1) this(1)] obtain es1 where
    m: "wal_at vw s1 q h es1" "settles vw s {q} {} {} s1" "v_live vw s1 = v_live vw s"
    "case rm of Inl e \<Rightarrow> \<exists>k. orphans c es1 = drop k (orphans c es)
       | Inr (loc', far', k) \<Rightarrow> orphans c es1 = [] \<and> loc' = [] @ orphans c es \<and> k = 0 + orphan_count c es
           \<and> (\<forall>(f, p) \<in> set far'. f \<noteq> 0 \<or> (f, p) \<in> set [])" by blast
  have weak: "settles vw s {q} ?A ?A t" if "settles vw s {q} {} {} t" for t
    using that sub unfolding settles_def relived_def same_on_def by (auto 0 3)
  show ?thesis
  proof (cases rm)
    case (Inl e)
    with m(4) obtain k where k: "orphans c es1 = drop k (orphans c es)" by auto
    have "set (orphans c es1) \<subseteq> ?A" by (simp add: k set_drop_subset)
    moreover have "r = Inl e" "s' = s1" using run mk Inl by (simp_all add: finish_bulk_def)
    ultimately show ?thesis using m k d sub weak by (intro exI [of _ es1]) auto
  next
    case (Inr x)
    obtain loc far k where x: "x = (loc, far, k)" by (cases x)
    with Inr m(4) have o1: "orphans c es1 = []" "loc = orphans c es" "k = orphan_count c es"
      "\<forall>(f, p) \<in> set far. f \<noteq> 0" by auto
    have g1: "v_good vw s1" by (rule settles_good [OF m(2)])
    let ?free = "if loc \<noteq> [] then fme_res (free_many io loc s1) else (Inr (), s1)"
    obtain r2 s2 where fr: "?free = (r2, s2)" by (cases ?free)
    have f: "freed vw s1 ?A (case r2 of Inl e \<Rightarrow> ?A | Inr _ \<Rightarrow> {}) s2"
    proof (cases "loc = []")
      case True
      with fr o1(2) g1 show ?thesis by (auto simp: freed_unchanged unchanged_def)
    next
      case False
      with fr have "fme_res (free_many io loc s1) = (r2, s2)" by simp
      then obtain r0 where r0: "free_many io loc s1 = (r0, s2)" and i: "isl r2 \<longleftrightarrow> isl r0"
        by (rule fme_res_split)
      have "set loc \<subseteq> v_live vw s1" using sub o1(2) m(3) by auto
      from free_many_ok [OF g1 _ this r0] d o1(2) i show ?thesis
        by (auto elim: freed_mono split: sum.splits)
    qed
    have at2: "wal_at vw s2 q h es1" using wal_at_freed [OF m(1) f] sub by auto
    have se: "settles vw s {q} ?A (case r2 of Inl e \<Rightarrow> ?A | Inr _ \<Rightarrow> {}) s2"
      using settles_trans [OF m(2) freed_settles [OF f]] by simp
    show ?thesis
    proof (cases r2)
      case (Inl e)
      with run mk Inr x fr have "r = Inl e" "s' = s2" by (simp_all add: finish_bulk_def)
      with at2 se o1 Inl show ?thesis by (intro exI [of _ es1]) simp
    next
      case ok: (Inr u)
      obtain r3 s3 where ff: "free_far io far s2 = (r3, s3)" by (cases "free_far io far s2")
      have f3: "freed vw s2 {} {} s3" by (rule free_far_ok [OF settles_good [OF se] o1(4) ff])
      have at3: "wal_at vw s3 q h es1" using wal_at_freed [OF at2 f3] by simp
      have se3: "settles vw s {q} ?A {} s3"
        using settles_trans [OF se freed_settles [OF f3]] ok by simp
      have "s' = s3" "r = (case r3 of Inl e \<Rightarrow> Inl e | Inr _ \<Rightarrow> Inr (orphan_count c es))"
        using run mk Inr x fr ok ff o1 by (cases r3; auto simp: finish_bulk_def)+
      with at3 o1 settles_mono [OF se3] show ?thesis
        by (intro exI [of _ es1]) (auto split: sum.splits)
    qed
  qed
qed

text \<open>The whole call.\<close>

lemma staged_idle: "wh_status h = 0 \<Longrightarrow> staged h es = []"
  by (simp add: staged_def header_txn_status_def status_from_u8_def)

lemma set_status_ok:
  assumes g: "v_good vw s" and at: "wal_at vw s q h es" and run: "op_set io (fst q + 8) [x] s = (r, s')"
  shows "case r of
      Inl e \<Rightarrow> unchanged vw s s'
    | Inr _ \<Rightarrow> relived vw s (v_live vw s - {q}) (v_live vw s) s' \<and> wal_at vw s' q (h\<lparr>wh_status := x\<rparr>) es"
proof -
  note b = block_bounds [OF g at]
  have q: "q \<in> v_live vw s" and bh: "block_holds (content (v_bytes vw s) q) h es" using at by (simp_all add: wal_at_def)
  have off: "unat (fst q + 8) = unat (fst q) + 8" using b by (subst unat_plus_u64) simp_all
  have k: "8 + length [x] \<le> unat (snd q)" using b by simp
  from set_in_block [OF g q k off run] wal_at_write [OF at, of s' "h\<lparr>wh_status := x\<rparr>" es] holds_status [OF bh]
  show ?thesis by (auto split: sum.splits)
qed

lemma finish_ok:
  assumes g: "v_good vw s" and an: "op_anchor io = Some 8" and rec: "recoverable vw s q h es"
    and run: "finish io s = (r, s')"
  shows "\<exists>h' es'. recoverable vw s' q h' es'
    \<and> settles vw s {q} (set (staged h es)) (case r of Inl e \<Rightarrow> set (staged h es) | Inr _ \<Rightarrow> {}) s'
    \<and> (\<forall>n. r = Inr n \<longrightarrow> header_txn_status h' = WNone
         \<and> n = (if header_txn_status h = WNone then 0 else orphan_count (committed_txn h) es))
    \<and> (\<forall>e. r = Inl e \<longrightarrow> h' = h \<and> set (staged h' es') \<subseteq> set (staged h es))
    \<and> wh_capacity h' = wh_capacity h"
proof -
  have at: "wal_at vw s q h es" and d: "distinct (staged h es)" and sub: "set (staged h es) \<subseteq> v_live vw s - {q}"
    using rec by (simp_all add: recoverable_def)
  obtain rl s1 where ld: "wal_load io s = (rl, s1)" by (cases "wal_load io s")
  note l = wal_load_ok [OF g an at ld]
  have u1: "unchanged vw s s1" and g1: "v_good vw s1" and lv1: "v_live vw s1 = v_live vw s"
    and at1: "wal_at vw s1 q h es" using l wal_at_unchanged [OF at] by (auto simp: unchanged_def)
  have rec1: "recoverable vw s1 q h es" using at1 d sub lv1 by (simp add: recoverable_def)
  have se1: "settles vw s {q} {} {} s1" by (rule unchanged_settles [OF u1])
  have weak: "settles vw s {q} (set (staged h es)) (set (staged h es)) t" if "settles vw s {q} {} {} t" for t
    using that sub unfolding settles_def relived_def same_on_def by (auto 0 3)
  show ?thesis
  proof (cases rl)
    case (Inl e)
    with run ld have "r = Inl e" "s' = s1" by (simp_all add: finish_def)
    with rec1 weak [OF se1] show ?thesis by auto
  next
    case (Inr x)
    with l have x: "x = Some (q, h, es)" by simp
    show ?thesis
    proof (cases "header_txn_status h = WNone")
      case True
      with run ld Inr x have "r = Inr 0" "s' = s1" by (simp_all add: finish_def)
      with True rec1 se1 show ?thesis by (intro exI [of _ h] exI [of _ es]) (simp add: staged_def)
    next
      case False
      let ?c = "committed_txn h"
      let ?A = "set (orphans ?c es)"
      have st: "staged h es = orphans ?c es" using False by (simp add: staged_def)
      let ?body = "if op_atomic_bulk io then finish_bulk io (fst q + 32) ?c es s1 else finish_each io (fst q + 32) ?c 0 es 0 s1"
      obtain rb s2 where bd: "?body = (rb, s2)" by (cases ?body)
      have d1: "distinct (orphans ?c es)" "set (orphans ?c es) \<subseteq> v_live vw s1 - {q}" using d sub st lv1 by auto
      have "\<exists>es'. wal_at vw s2 q h es' \<and> distinct (orphans ?c es') \<and> set (orphans ?c es') \<subseteq> v_live vw s2 - {q}
        \<and> set (orphans ?c es') \<subseteq> ?A \<and> settles vw s1 {q} ?A (case rb of Inl e \<Rightarrow> ?A | Inr _ \<Rightarrow> {}) s2
        \<and> (\<forall>m. rb = Inr m \<longrightarrow> m = orphan_count ?c es)"
        using finish_bulk_ok [OF g1 at1 d1, of rb s2] finish_each_ok [OF g1, of q h "[]" es ?c 0 rb s2] at1 d1 bd
        by (cases "op_atomic_bulk io") auto
      then obtain es' where b: "wal_at vw s2 q h es'" "distinct (orphans ?c es')" "set (orphans ?c es') \<subseteq> v_live vw s2 - {q}"
        "set (orphans ?c es') \<subseteq> ?A" "settles vw s1 {q} ?A (case rb of Inl e \<Rightarrow> ?A | Inr _ \<Rightarrow> {}) s2" "\<forall>m. rb = Inr m \<longrightarrow> m = orphan_count ?c es" by blast
      have se2: "settles vw s {q} ?A (case rb of Inl e \<Rightarrow> ?A | Inr _ \<Rightarrow> {}) s2"
        using settles_trans [OF se1 b(5)] by simp
      have rec2: "recoverable vw s2 q h es'" using b False by (simp add: recoverable_def staged_def)
      have run1: "finish io s = try_s (rb, s2) (\<lambda>n s2. try_s (set_idle io (fst q) s2) (\<lambda>_ s3. (Inr n, s3)))"
        using False bd by (cases "op_atomic_bulk io") (simp_all add: finish_def ld Inr x committed_txn_def Let_def)
      show ?thesis
      proof (cases rb)
        case (Inl e)
        with run run1 have "r = Inl e" "s' = s2" by simp_all
        moreover have "set (staged h es') \<subseteq> set (staged h es)" using b(4) st by (simp add: staged_def)
        ultimately show ?thesis using rec2 se2 st Inl by auto
      next
        case ok: (Inr m)
        obtain r3 s3 where si: "op_set io (fst q + 8) [0] s2 = (r3, s3)" by (cases "op_set io (fst q + 8) [0] s2")
        note l3 = set_status_ok [OF settles_good [OF se2] b(1) si]
        have idle: "set_idle io (fst q) s2 = (r3, s3)" using si by (simp add: set_idle_def WAL_STATUS_OFFSET_def)
        show ?thesis
        proof (cases r3)
          case (Inl e)
          with l3 have u3: "unchanged vw s2 s3" by simp
          have "settles vw s {q} ?A {} s3" using settles_trans [OF se2 unchanged_settles [OF u3]] ok by simp
          moreover have "recoverable vw s3 q h es'"
            using rec2 wal_at_unchanged [OF b(1) u3] u3 by (simp add: recoverable_def unchanged_def)
          moreover have "r = Inl e" "s' = s3" using run run1 ok idle Inl by simp_all
          moreover have "set (staged h es') \<subseteq> set (staged h es)" using b(4) st by (simp add: staged_def)
          ultimately show ?thesis using settles_mono [of vw s "{q}" ?A "{}" s3 ?A] st by auto
        next
          case (Inr u)
          with l3 have w: "relived vw s2 (v_live vw s2 - {q}) (v_live vw s2) s3" "wal_at vw s3 q (h\<lparr>wh_status := 0\<rparr>) es'" by auto
          have "settles vw s {q} ?A {} s3" using settles_trans [OF se2 relived_settles [OF w(1)]] ok by simp
          moreover have "recoverable vw s3 q (h\<lparr>wh_status := 0\<rparr>) es'"
            using w(2) by (simp add: recoverable_def staged_idle)
          moreover have "r = Inr m" "s' = s3" "m = orphan_count ?c es" using run run1 ok idle Inr b(6) by simp_all
          moreover have "header_txn_status (h\<lparr>wh_status := 0\<rparr>) = WNone" "wh_capacity (h\<lparr>wh_status := 0\<rparr>) = wh_capacity h"
            by (simp_all add: header_txn_status_def status_from_u8_def)
          ultimately show ?thesis using False st by auto
        qed
      qed
    qed
  qed
qed

end

end
