(* ===== verification/WalCommit.thy ===== *)
theory WalCommit
  imports WalFinish
begin

text \<open>
  Staging and committing. \<open>wal_safe vw s B A\<close> is the state of the log that recovery may meet: no
  block, or a recoverable block whose staged slices are among \<open>A\<close>. \<open>guarded vw s X s'\<close> says that
  no live block outside \<open>X\<close> was freed or written. A failure while a transaction is staged leaves
  the log safe; the commit of a batch of frees has freed nothing when it fails before its
  commit point.
\<close>

definition no_block :: "'s stack_view \<Rightarrow> 's \<Rightarrow> bool" where
  "no_block vw s \<longleftrightarrow> from_le64 (slice 8 8 (v_bytes vw s)) = 0"

definition wal_safe :: "'s stack_view \<Rightarrow> 's \<Rightarrow> range set \<Rightarrow> range set \<Rightarrow> bool" where
  "wal_safe vw s B A \<longleftrightarrow> (B = {} \<and> no_block vw s)
     \<or> (\<exists>q h es. B = {q} \<and> recoverable vw s q h es \<and> set (staged h es) \<subseteq> A)"

definition wal_idle :: "'s stack_view \<Rightarrow> 's \<Rightarrow> range set \<Rightarrow> bool" where
  "wal_idle vw s B \<longleftrightarrow> (B = {} \<and> no_block vw s)
     \<or> (\<exists>q h es. B = {q} \<and> wal_at vw s q h es \<and> header_txn_status h = WNone)"

definition guarded :: "'s stack_view \<Rightarrow> 's \<Rightarrow> range set \<Rightarrow> 's \<Rightarrow> bool" where
  "guarded vw s X s' \<longleftrightarrow> v_good vw s' \<and> v_live vw s - X \<subseteq> v_live vw s'
     \<and> same_on (v_live vw s - X) (v_bytes vw s) (v_bytes vw s')"

lemma wal_idle_safe: "wal_idle vw s B \<Longrightarrow> wal_safe vw s B A"
  by (auto simp: wal_idle_def wal_safe_def recoverable_def staged_def)

lemma wal_safe_mono: "wal_safe vw s B A \<Longrightarrow> A \<subseteq> A' \<Longrightarrow> wal_safe vw s B A'"
proof -
  assume safe: "wal_safe vw s B A" and le: "A \<subseteq> A'"
  from safe consider "B = {}" "no_block vw s"
    | q h es where "B = {q}" "recoverable vw s q h es" "set (staged h es) \<subseteq> A"
    by (auto simp: wal_safe_def)
  then show ?thesis
  proof cases
    case 2
    then have "set (staged h es) \<subseteq> A'" using le by simp
    with 2 show ?thesis unfolding wal_safe_def by blast
  qed (simp add: wal_safe_def)
qed

lemma wal_idle_new: "wal_at vw s q (wal_header_new WNone n c) es \<Longrightarrow> wal_idle vw s {q}"
  unfolding wal_idle_def header_txn_status_def
  by (intro disjI2 exI [of _ q] exI [of _ "wal_header_new WNone n c"] exI [of _ es]) (simp add: status_from_u8_def)

lemma guarded_good: "guarded vw s X s' \<Longrightarrow> v_good vw s'"
  by (simp add: guarded_def)

lemma guarded_mono: "guarded vw s X s' \<Longrightarrow> X \<subseteq> Y \<Longrightarrow> guarded vw s Y s'"
  by (auto simp: guarded_def same_on_def)

lemma guarded_trans:
  assumes "guarded vw s X s1" and "guarded vw s1 Y s2" and "v_live vw s \<inter> Y \<subseteq> X"
  shows "guarded vw s X s2"
proof -
  have "v_live vw s - X \<subseteq> v_live vw s1 - Y" using assms by (auto simp: guarded_def)
  with assms(1,2) show ?thesis by (auto simp: guarded_def same_on_def subset_eq)
qed

lemma guarded_settles: "settles vw s W A left s' \<Longrightarrow> guarded vw s (A \<union> W) s'"
  unfolding settles_def guarded_def relived_def same_on_def by auto

lemma guarded_relived: "relived vw s (v_live vw s - X) L s' \<Longrightarrow> v_live vw s - X \<subseteq> L \<Longrightarrow> guarded vw s X s'"
  by (auto simp: guarded_def relived_def same_on_def)

lemma guarded_unchanged: "unchanged vw s s' \<Longrightarrow> guarded vw s X s'"
  by (auto simp: guarded_def unchanged_def)

lemma no_block_relived: "relived vw s R L s' \<Longrightarrow> no_block vw s' = no_block vw s"
  using same_on_word [of R "v_bytes vw s" "v_bytes vw s'"] by (simp add: relived_def no_block_def)

lemma no_block_unchanged: "unchanged vw s s' \<Longrightarrow> no_block vw s' = no_block vw s"
  by (simp add: unchanged_def no_block_def)

lemma recoverable_relived:
  assumes "recoverable vw s q h es" and "relived vw s R L s'" and "insert q (set (staged h es)) \<subseteq> L" and "q \<in> R"
  shows "recoverable vw s' q h es"
  using assms wal_at_relived [of vw s q h es R L s'] by (auto simp: recoverable_def relived_def)

lemma wal_safe_relived:
  assumes "wal_safe vw s B A" and "relived vw s R L s'" and "B \<subseteq> R" and "v_live vw s \<subseteq> L"
  shows "wal_safe vw s' B A"
proof -
  from assms(1) consider "B = {}" "no_block vw s"
    | q h es where "B = {q}" "recoverable vw s q h es" "set (staged h es) \<subseteq> A"
    by (auto simp: wal_safe_def)
  then show ?thesis
  proof cases
    case 1
    with no_block_relived [OF assms(2)] show ?thesis by (simp add: wal_safe_def)
  next
    case 2
    then have "insert q (set (staged h es)) \<subseteq> L" using assms(4) by (auto simp: recoverable_def wal_at_def)
    with recoverable_relived [OF 2(2) assms(2)] 2 assms(3) show ?thesis by (auto simp: wal_safe_def)
  qed
qed

lemma wal_safe_unchanged: "wal_safe vw s B A \<Longrightarrow> unchanged vw s s' \<Longrightarrow> wal_safe vw s' B A"
  by (auto simp: wal_safe_def recoverable_def wal_at_def unchanged_def no_block_def)

lemma wal_safe_live: "wal_safe vw s B A \<Longrightarrow> B \<subseteq> v_live vw s"
  by (auto simp: wal_safe_def recoverable_def wal_at_def)

context stack_laws
begin

section \<open>The block\<close>

lemma set_anchor_ok:
  assumes g: "v_good vw s" and run: "op_set io 8 (to_le64 v) s = (r, s')"
  shows "case r of
      Inl e \<Rightarrow> unchanged vw s s'
    | Inr _ \<Rightarrow> v_good vw s' \<and> v_live vw s' = v_live vw s \<and> from_le64 (slice 8 8 (v_bytes vw s')) = v
        \<and> same_on (v_live vw s) (v_bytes vw s) (v_bytes vw s')"
proof -
  have "same_on (v_live vw s) (v_bytes vw s) (overwrite 8 (to_le64 v) (v_bytes vw s))"
    using good_live [OF g] good_store [OF g]
    by (auto simp: same_on_def content_def range_end_def intro!: slice_overwrite_disjoint)
  with set_law [OF g run] good_store [OF g] show ?thesis
    by (auto simp: written_def slice_overwrite_same split: sum.splits)
qed

text \<open>A fresh block. \<open>old\<close> is the block the anchor named before.\<close>

lemma ensure_new_ok:
  assumes g: "v_good vw s" and safe: "wal_safe vw s B A" and old: "set_option old = B"
    and n: "needed \<le> WAL_MAX_CAP" and run: "ensure_new io 8 old needed s = (r, s')"
  shows "guarded vw s B s' \<and> (case r of
      Inl e \<Rightarrow> \<exists>B'. wal_safe vw s' B' A \<and> B' \<inter> (v_live vw s - B) = {}
    | Inr blk \<Rightarrow> wal_at vw s' (wb_range blk) (wal_header_new WNone 0 (wb_capacity blk)) []
        \<and> needed \<le> wb_capacity blk \<and> wb_range blk \<notin> v_live vw s
        \<and> v_live vw s' = insert (wb_range blk) (v_live vw s - B))"
proof -
  define cap where "cap = next_power_of_two (max needed WAL_MIN_CAP)"
  have mx: "max needed WAL_MIN_CAP \<le> WAL_MAX_CAP"
    using n by (simp add: WAL_MIN_CAP_def WAL_MAX_CAP_def push_bit_eq_mult)
  have cap: "needed \<le> cap" "cap \<le> WAL_MAX_CAP"
    using next_power_of_two_le [OF mx] by (auto simp: cap_def)
  have uc: "unat cap \<le> 1048576" by (rule cap_bound [OF cap(2)])
  have sz: "unat (32 + cap * 32) = 32 + 32 * unat cap"
    using uc by (subst unat_plus_u64; subst unat_mult_u64) simp_all
  then have nz: "32 + cap * 32 \<noteq> 0" by (metis add_gr_0 unat_0 zero_less_numeral less_irrefl)
  let ?hdr = "wal_header_new WNone 0 cap"
  obtain ra s1 where al: "op_alloc io (32 + cap * 32) s = (ra, s1)" by (cases "op_alloc io (32 + cap * 32) s")
  note law = alloc_law [OF g al nz]
  note unf = ensure_new_def cap_def [symmetric] Let_def
  show ?thesis
  proof (cases ra)
    case (Inl e)
    with law have r1: "relived vw s (v_live vw s) (v_live vw s) s1" by simp
    moreover have "r = Inl e" "s' = s1" using run al Inl by (simp_all add: unf)
    ultimately show ?thesis
      using wal_safe_relived [OF safe r1 wal_safe_live [OF safe]] guarded_relived [of vw s B _ s1]
      by (auto simp: guarded_def relived_def same_on_def)
  next
    case (Inr q)
    with law have q: "snd q = 32 + cap * 32" "q \<notin> v_live vw s"
      and r1: "relived vw s (v_live vw s) (insert q (v_live vw s)) s1" by auto
    have g1: "v_good vw s1" and lv1: "v_live vw s1 = insert q (v_live vw s)" using r1 by (auto simp: relived_def)
    have q1: "q \<in> v_live vw s1" using lv1 by simp
    have uq: "unat (snd q) = 32 + 32 * unat cap" using q sz by simp
    have safe1: "wal_safe vw s1 B A" using wal_safe_relived [OF safe r1 wal_safe_live [OF safe]] by auto
    obtain rh s2 where st: "op_set io (fst q) (header_bytes ?hdr) s1 = (rh, s2)"
      by (cases "op_set io (fst q) (header_bytes ?hdr) s1")
    have k: "0 + length (header_bytes ?hdr) \<le> unat (snd q)" using uq by simp
    note l2 = set_in_block [OF g1 q1 k _ st, simplified]
    show ?thesis
    proof (cases rh)
      case (Inl e)
      with l2 have u: "unchanged vw s1 s2" by simp
      obtain rd s3 where de: "op_dealloc io q s2 = (rd, s3)" by (cases "op_dealloc io q s2")
      have q2: "q \<in> v_live vw s2" "v_good vw s2" using u q1 by (auto simp: unchanged_def)
      from dealloc_law [OF q2(2,1) de] obtain L where L: "v_live vw s2 - {q} \<subseteq> L" "relived vw s2 (v_live vw s2 - {q}) L s3" by blast
      have "relived vw s (v_live vw s) L s3" using r1 u L q(2) by (auto simp: relived_def unchanged_def same_on_def)
      moreover have "v_live vw s \<subseteq> L" using L(1) u lv1 q(2) by (auto simp: unchanged_def)
      moreover have "r = Inl e" "s' = s3" using run al Inr st Inl de by (simp_all add: unf)
      ultimately show ?thesis
        using wal_safe_relived [OF safe _ wal_safe_live [OF safe]] by (auto simp: guarded_def relived_def same_on_def)
    next
      case ok: (Inr u)
      with l2 have w2: "relived vw s1 (v_live vw s1 - {q}) (v_live vw s1) s2"
        "content (v_bytes vw s2) q = overwrite 0 (header_bytes ?hdr) (content (v_bytes vw s1) q)" by auto
      have r2: "relived vw s (v_live vw s) (insert q (v_live vw s)) s2"
        using r1 w2(1) q(2) by (auto simp: relived_def same_on_def)
      have g2: "v_good vw s2" and lv2: "v_live vw s2 = insert q (v_live vw s)" using r2 by (auto simp: relived_def)
      have lc: "length (content (v_bytes vw s1) q) = 32 + 32 * unat cap"
        using good_live [OF g1 q1] uq by (simp add: content_def range_end_def)
      have bh: "block_holds (content (v_bytes vw s2) q) ?hdr []"
        unfolding w2(2) by (rule holds_new [OF cap(2) lc])
      have safe2: "wal_safe vw s2 B A" using wal_safe_relived [OF safe r2 wal_safe_live [OF safe]] by auto
      obtain ra s3 where an: "op_set io 8 (to_le64 (fst q)) s2 = (ra, s3)" by (cases "op_set io 8 (to_le64 (fst q)) s2")
      note l3 = set_anchor_ok [OF g2 an]
      show ?thesis
      proof (cases ra)
        case (Inl e)
        with l3 have u: "unchanged vw s2 s3" by simp
        moreover have "r = Inl e" "s' = s3" using run al Inr st ok an Inl by (simp_all add: unf)
        ultimately show ?thesis
          using wal_safe_unchanged [OF safe2 u] r2 by (auto simp: guarded_def relived_def same_on_def unchanged_def)
      next
        case an_ok: (Inr u)
        with l3 have w3: "v_good vw s3" "v_live vw s3 = insert q (v_live vw s)"
          "from_le64 (slice 8 8 (v_bytes vw s3)) = fst q" "same_on (v_live vw s2) (v_bytes vw s2) (v_bytes vw s3)"
          using lv2 by auto
        have at3: "wal_at vw s3 q ?hdr []"
          using w3 bh uq lv2 by (auto simp: wal_at_def same_on_def)
        have gd3: "guarded vw s B s3" using r2 w3 lv2 by (auto simp: guarded_def relived_def same_on_def)
        have idle: "wal_idle vw t {q}" if "wal_at vw t q ?hdr []" for t
          using that by (rule wal_idle_new)
        have run3: "ensure_new io 8 old needed s = try_s (case old of None \<Rightarrow> (Inr (), s3) | Some o1 \<Rightarrow> op_dealloc io o1 s3)
            (\<lambda>_ s4. (Inr \<lparr>wb_range = (fst q, 32 + cap * 32), wb_capacity = cap\<rparr>, s4))"
          using al Inr st ok an an_ok by (simp add: unf)
        have qq: "(fst q, 32 + cap * 32) = q" using q(1) by (metis prod.collapse)
        show ?thesis
        proof (cases old)
          case None
          with run run3 at3 gd3 qq cap(1) q(2) w3 old show ?thesis by auto
        next
          case (Some o1)
          have o1: "o1 \<in> v_live vw s3" "o1 \<noteq> q" "B = {o1}"
            using wal_safe_live [OF safe] old Some w3(2) q(2) by auto
          obtain rd s4 where de: "op_dealloc io o1 s3 = (rd, s4)" by (cases "op_dealloc io o1 s3")
          note f4 = dealloc_freed [OF w3(1) o1(1) de]
          have at4: "wal_at vw s4 q ?hdr []" using wal_at_freed [OF at3 f4] o1(2) by simp
          have "guarded vw s3 {o1} s4" using guarded_settles [OF freed_settles [OF f4, of "{}"]] by simp
          then have gd4: "guarded vw s B s4" using guarded_trans [OF gd3] o1(3) by blast
          have lv4: "v_live vw s4 = insert q (v_live vw s - B)" if "rd = Inr u'" for u'
            using freed_live [OF f4] that w3(2) o1 q(2) by auto
          show ?thesis
          proof (cases rd)
            case (Inl e)
            with run run3 Some de have "r = Inl e" "s' = s4" by simp_all
            with gd4 wal_idle_safe [OF idle [OF at4], of A] q(2) show ?thesis by (auto intro!: exI [of _ "{q}"])
          next
            case rd: (Inr u')
            with run run3 Some de gd4 at4 lv4 qq cap(1) q(2) show ?thesis by auto
          qed
        qed
      qed
    qed
  qed
qed

lemma ensure_block_ok:
  assumes g: "v_good vw s" and an: "op_anchor io = Some 8" and safe: "wal_safe vw s B A"
    and n: "needed \<le> WAL_MAX_CAP" and run: "ensure_block io needed s = (r, s')"
  shows "guarded vw s B s' \<and> (case r of
      Inl e \<Rightarrow> \<exists>B'. wal_safe vw s' B' A \<and> B' \<inter> (v_live vw s - B) = {}
    | Inr blk \<Rightarrow> (\<exists>h es. wal_at vw s' (wb_range blk) h es \<and> wb_capacity blk = wh_capacity h)
        \<and> wal_safe vw s' {wb_range blk} A \<and> needed \<le> wb_capacity blk \<and> wb_range blk \<notin> v_live vw s - B
        \<and> v_live vw s' = insert (wb_range blk) (v_live vw s - B))"
proof -
  have idle: "wal_safe vw t {q} A" if "wal_at vw t q (wal_header_new WNone 0 c) []" for t q c
    using that by (intro wal_idle_safe wal_idle_new)
  have wrap: ?thesis if "guarded vw s B s'"
    and "case r of Inl e \<Rightarrow> \<exists>B'. wal_safe vw s' B' A \<and> B' \<inter> (v_live vw s - B) = {}
      | Inr blk \<Rightarrow> wal_at vw s' (wb_range blk) (wal_header_new WNone 0 (wb_capacity blk)) []
        \<and> needed \<le> wb_capacity blk \<and> wb_range blk \<notin> v_live vw s
        \<and> v_live vw s' = insert (wb_range blk) (v_live vw s - B)"
  proof (cases r)
    case (Inl e)
    with that show ?thesis by simp
  next
    case (Inr blk)
    then have at: "wal_at vw s' (wb_range blk) (wal_header_new WNone 0 (wb_capacity blk)) []" using that by simp
    have "\<exists>h es. wal_at vw s' (wb_range blk) h es \<and> wb_capacity blk = wh_capacity h"
      using at by (metis header_new_simps(3))
    with that idle [OF at] Inr show ?thesis by simp
  qed
  obtain ra s1 where ra: "read_anchor io s = (ra, s1)" by (cases "read_anchor io s")
  note l1 = read_anchor_ok [OF g an ra]
  have u1: "unchanged vw s s1" and g1: "v_good vw s1" using l1 by (auto simp: unchanged_def)
  have safe1: "wal_safe vw s1 B A" by (rule wal_safe_unchanged [OF safe u1])
  have lift: "guarded vw s B s'" if "guarded vw s1 B s'" using that u1 by (simp add: guarded_def unchanged_def)
  have lv1: "v_live vw s1 = v_live vw s" using u1 by (simp add: unchanged_def)
  show ?thesis
  proof (cases ra)
    case (Inl e)
    with run ra an have "r = Inl e" "s' = s1" by (simp_all add: ensure_block_def)
    with safe1 guarded_unchanged [OF u1] show ?thesis by auto
  next
    case (Inr o1)
    from safe1 consider (none) "B = {}" "no_block vw s1"
      | (some) q h es where "B = {q}" "recoverable vw s1 q h es" "set (staged h es) \<subseteq> A"
      by (auto simp: wal_safe_def)
    then show ?thesis
    proof cases
      case none
      then have "o1 = None" using l1 Inr u1 by (simp add: no_block_def unchanged_def)
      then have run1: "ensure_new io 8 None needed s1 = (r, s')" using run ra Inr an by (simp add: ensure_block_def)
      note new = ensure_new_ok [OF g1 safe1 _ n run1]
      show ?thesis by (rule wrap) (use new [unfolded lv1] none(1) lift in auto)
    next
      case some
      have at: "wal_at vw s1 q h es" using some by (simp add: recoverable_def)
      note b = block_bounds [OF g1 at]
      have "from_le64 (slice 8 8 (v_bytes vw s)) = fst q" using at u1 by (simp add: wal_at_def unchanged_def)
      then have o1: "o1 = Some (NonNullOffset (fst q))" using l1 Inr b(4) by auto
      obtain rb s2 where rb: "op_read io (fst q) 32 s1 = (rb, s2)" by (cases "op_read io (fst q) 32 s1")
      note l2 = read_law [OF g1 rb]
      have u2: "unchanged vw s s2" and u12: "unchanged vw s1 s2" using unchanged_trans u1 l2 by blast+
      have g2: "v_good vw s2" and lv2: "v_live vw s2 = v_live vw s" using u2 by (auto simp: unchanged_def)
      have safe2: "wal_safe vw s2 B A" by (rule wal_safe_unchanged [OF safe u2])
      have lift2: "guarded vw s B s'" if "guarded vw s2 B s'" using that u2 by (simp add: guarded_def unchanged_def)
      show ?thesis
      proof (cases rb)
        case (Inl e)
        with run ra Inr an o1 rb have "r = Inl e" "s' = s2" by (simp_all add: ensure_block_def Let_def)
        with safe2 guarded_unchanged [OF u2] show ?thesis by auto
      next
        case hb: (Inr hbuf)
        have bh: "block_holds (content (v_bytes vw s1) q) h es" using at by (simp add: wal_at_def)
        have "slice 0 32 (content (v_bytes vw s1) q) = hbuf"
          using l2 hb b by (simp add: content_def slice_slice)
        with bh have h: "header_of hbuf = h" "wh_magic h = WAL_MAGIC" "wh_capacity h \<le> WAL_MAX_CAP"
          by (simp_all add: block_holds_def)
        have "unat (32 + wh_capacity h * 32 :: u64) = unat (snd q)"
          using b by (subst unat_plus_u64; subst unat_mult_u64) simp_all
        then have qq: "(fst q, 32 + wh_capacity h * 32) = q" by (simp add: prod_eq_iff word_unat_eq_iff)
        have run2: "(if wh_capacity h \<ge> needed then (Inr \<lparr>wb_range = q, wb_capacity = wh_capacity h\<rparr>, s2)
            else ensure_new io 8 (Some q) needed s2) = (r, s')"
          using run h by (simp add: ensure_block_def ra Inr an o1 rb hb Let_def qq not_less [symmetric] split: if_splits)
        show ?thesis
        proof (cases "wh_capacity h \<ge> needed")
          case True
          with run2 have "r = Inr \<lparr>wb_range = q, wb_capacity = wh_capacity h\<rparr>" "s' = s2" by auto
          moreover have "wal_at vw s2 q h es" by (rule wal_at_unchanged [OF at u12])
          moreover have "q \<in> v_live vw s" using at lv1 by (simp add: wal_at_def)
          ultimately show ?thesis using True safe2 guarded_unchanged [OF u2] some(1) lv2 by auto
        next
          case False
          with run2 have run3: "ensure_new io 8 (Some q) needed s2 = (r, s')" by simp
          note new = ensure_new_ok [OF g2 safe2 _ n run3]
          show ?thesis by (rule wrap) (use new [unfolded lv2] some(1) lift2 in auto)
        qed
      qed
    qed
  qed
qed

section \<open>Staging\<close>

lemma persist_ok:
  assumes g: "v_good vw s" and an: "op_anchor io = Some 8" and safe: "wal_safe vw s B A"
    and n: "length (wl_entries l) \<le> 1048576" and p: "\<forall>e \<in> set (wl_entries l). length (we_pad e) = 6"
    and run: "persist io l st s = (r, s')"
  shows "guarded vw s B s' \<and> (case r of
      Inl e \<Rightarrow> \<exists>B'. wal_safe vw s' B' A \<and> B' \<inter> (v_live vw s - B) = {}
    | Inr q \<Rightarrow> \<exists>cap. wal_at vw s' q (wal_header_new st (of_nat (length (wl_entries l))) cap) (wl_entries l)
        \<and> q \<notin> v_live vw s - B \<and> v_live vw s' = insert q (v_live vw s - B))"
proof -
  let ?n = "of_nat (length (wl_entries l)) :: u64"
  have un: "unat ?n = length (wl_entries l)" using n by (intro unat_of_nat_u64) simp
  then have le: "?n \<le> WAL_MAX_CAP" using n by (simp add: word_le_nat_alt WAL_MAX_CAP_def push_bit_eq_mult)
  obtain re s1 where en: "ensure_block io ?n s = (re, s1)" by (cases "ensure_block io ?n s")
  note l1 = ensure_block_ok [OF g an safe le en]
  show ?thesis
  proof (cases re)
    case (Inl e)
    with run en l1 show ?thesis by (auto simp: persist_def)
  next
    case (Inr blk)
    let ?q = "wb_range blk" and ?cap = "wb_capacity blk"
    obtain h es where at: "wal_at vw s1 ?q h es" and hc: "?cap = wh_capacity h" using l1 Inr by auto
    have gd: "guarded vw s B s1" and safe1: "wal_safe vw s1 {?q} A" and nc: "?n \<le> ?cap"
      and fresh: "?q \<notin> v_live vw s - B" and lv: "v_live vw s1 = insert ?q (v_live vw s - B)" using l1 Inr by auto
    have g1: "v_good vw s1" by (rule guarded_good [OF gd])
    note b = block_bounds [OF g1 at]
    have nn: "length (wl_entries l) \<le> unat ?cap" using nc un by (simp add: word_le_nat_alt)
    have cm: "?cap \<le> WAL_MAX_CAP" using at hc by (simp add: wal_at_def block_holds_def)
    have q1: "?q \<in> v_live vw s1" using lv by simp
    have lc: "length (content (v_bytes vw s1) ?q) = 32 + 32 * unat ?cap"
      using good_live [OF g1 q1] b hc by (simp add: content_def range_end_def)
    obtain rs s2 where st: "op_set io (fst ?q) (block_image l st ?cap) s1 = (rs, s2)"
      by (cases "op_set io (fst ?q) (block_image l st ?cap) s1")
    have k: "0 + length (block_image l st ?cap) \<le> unat (snd ?q)"
      using b hc nn by (simp add: length_block_image [OF p])
    note l2 = set_in_block [OF g1 q1 k _ st, simplified]
    show ?thesis
    proof (cases rs)
      case (Inl e)
      with l2 have u: "unchanged vw s1 s2" by simp
      moreover have "r = Inl e" "s' = s2" using run en Inr st Inl by (simp_all add: persist_def)
      moreover have "guarded vw s B s2" using gd u by (simp add: guarded_def unchanged_def)
      ultimately show ?thesis using wal_safe_unchanged [OF safe1 u] fresh by (auto intro!: exI [of _ "{?q}"])
    next
      case ok: (Inr u)
      with l2 have w: "relived vw s1 (v_live vw s1 - {?q}) (v_live vw s1) s2"
        "content (v_bytes vw s2) ?q = overwrite 0 (block_image l st ?cap) (content (v_bytes vw s1) ?q)" by auto
      have "block_holds (content (v_bytes vw s2) ?q) (wal_header_new st ?n ?cap) (wl_entries l)"
        unfolding w(2) by (rule holds_image [OF p nn cm lc])
      then have "wal_at vw s2 ?q (wal_header_new st ?n ?cap) (wl_entries l)"
        by (rule wal_at_write [OF at w(1)]) (simp add: hc)
      moreover have "guarded vw s B s2"
        using gd w(1) fresh lv by (auto simp: guarded_def relived_def same_on_def)
      moreover have "r = Inr ?q" "s' = s2" using run en Inr st ok by (simp_all add: persist_def)
      moreover have "v_live vw s2 = insert ?q (v_live vw s - B)" using w(1) lv by (simp add: relived_def)
      ultimately show ?thesis using fresh by auto
    qed
  qed
qed

end

end
