(* ===== verification/WalAtomic.thy ===== *)
theory WalAtomic
  imports WalCommit
begin

text \<open>
  The log as its callers use it: completion from any safe state, completion on a store that does
  not fail, the commit of a batch of frees, and the logged allocations of a deep clone.
\<close>

context stack_laws
begin

section \<open>Completion\<close>

lemma finish_none:
  assumes g: "v_good vw s" and an: "op_anchor io = Some 8" and nb: "no_block vw s" and run: "finish io s = (r, s')"
  shows "unchanged vw s s' \<and> (\<forall>n. r = Inr n \<longrightarrow> n = 0)"
proof -
  obtain ra s1 where ra: "read_anchor io s = (ra, s1)" by (cases "read_anchor io s")
  from read_anchor_ok [OF g an ra] nb run ra show ?thesis
    by (cases ra) (auto simp: finish_def wal_load_def no_block_def)
qed

text \<open>From any safe state: nothing outside \<open>A\<close> is freed, the state stays safe, and success makes
  the log idle.\<close>

lemma finish_safe:
  assumes g: "v_good vw s" and an: "op_anchor io = Some 8" and safe: "wal_safe vw s B A"
    and run: "finish io s = (r, s')"
  shows "guarded vw s (B \<union> A) s' \<and> wal_safe vw s' B A \<and> (\<forall>n. r = Inr n \<longrightarrow> wal_idle vw s' B)
    \<and> v_live vw s' \<subseteq> v_live vw s"
proof -
  from safe consider (none) "B = {}" "no_block vw s"
    | (some) q h es where "B = {q}" "recoverable vw s q h es" "set (staged h es) \<subseteq> A"
    by (auto simp: wal_safe_def)
  then show ?thesis
  proof cases
    case none
    with finish_none [OF g an none(2) run] show ?thesis
      using guarded_unchanged [of vw s s' "B \<union> A"] no_block_unchanged [of vw s s']
      by (auto simp: wal_safe_def wal_idle_def unchanged_def)
  next
    case some
    from finish_ok [OF g an some(2) run] obtain h' es' where f: "recoverable vw s' q h' es'"
      "settles vw s {q} (set (staged h es)) (case r of Inl e \<Rightarrow> set (staged h es) | Inr _ \<Rightarrow> {}) s'"
      "\<forall>n. r = Inr n \<longrightarrow> header_txn_status h' = WNone"
      "\<forall>e. r = Inl e \<longrightarrow> h' = h \<and> set (staged h' es') \<subseteq> set (staged h es)" by blast
    have st: "set (staged h' es') \<subseteq> A"
      using f(3,4) some(3) by (cases r) (auto simp: staged_def)
    have "guarded vw s (B \<union> A) s'"
      using guarded_settles [OF f(2)] some(1,3) by (auto elim!: guarded_mono)
    moreover have "wal_safe vw s' B A" unfolding wal_safe_def using some(1) f(1) st by blast
    moreover have "wal_idle vw s' B" if "r = Inr n" for n
      unfolding wal_idle_def using some(1) f(1,3) that by (auto simp: recoverable_def)
    moreover have "set (staged h es) \<subseteq> v_live vw s" using some(2) by (auto simp: recoverable_def)
    then have "v_live vw s' \<subseteq> v_live vw s"
      using settles_live [OF f(2)] by (auto split: sum.splits)
    ultimately show ?thesis by blast
  qed
qed

section \<open>Completion on a store that does not fail\<close>

lemma free_recorded_calm:
  assumes "v_good vw s" and "v_calm vw s" and "f = 0 \<Longrightarrow> q \<in> v_live vw s"
  shows "\<exists>s'. free_recorded io f q s = (Inr (), s') \<and> v_calm vw s'"
proof (cases "f = 0")
  case True
  with calm_dealloc [OF assms(1,2) assms(3) [OF True]] show ?thesis by (simp add: free_recorded_def)
next
  case False
  show ?thesis
  proof (cases "file_from_u64 f")
    case None
    with False assms show ?thesis by (simp add: free_recorded_def)
  next
    case (Some fid)
    obtain rh s1 where h: "op_host_free io fid q s = (rh, s1)" by (cases "op_host_free io fid q s")
    from calm_host [OF assms(1,2) h] have "v_calm vw s1" "\<And>e. rh \<noteq> Some (Inl e)" by auto
    with False Some h show ?thesis
      by (cases rh; cases "the rh") (auto simp: free_recorded_def)
  qed
qed

lemma entry_bound:
  assumes g: "v_good vw s" and at: "wal_at vw s q h (done @ e # es)"
  shows "unat (fst q + 32 + of_nat (length done) * 32) + length [x] \<le> length (v_bytes vw s)"
proof -
  note b = block_bounds [OF g at]
  have n: "unat (of_nat (length done) :: u64) = length done" using b by (intro unat_of_nat_u64) simp
  have m: "unat (of_nat (length done) * 32 :: u64) = 32 * length done"
    using b n by (subst unat_mult_u64) simp_all
  have a: "unat (fst q + 32 :: u64) = unat (fst q) + 32" using b by (subst unat_plus_u64) simp_all
  have "unat (fst q + 32 + of_nat (length done) * 32) = unat (fst q) + (32 + 32 * length done)"
    using b a m by (subst unat_plus_u64) simp_all
  with b show ?thesis by simp
qed

lemma set_entry_calm:
  assumes g: "v_good vw s" and c: "v_calm vw s" and at: "wal_at vw s q h (done @ e # es)"
  obtains s1 where "op_set io (fst q + 32 + of_nat (length done) * 32) [x] s = (Inr (), s1)" and "v_calm vw s1"
    and "v_good vw s1" and "v_live vw s1 = v_live vw s" and "wal_at vw s1 q h ((done @ [e\<lparr>we_status := x\<rparr>]) @ es)"
proof -
  obtain s1 where s1: "op_set io (fst q + 32 + of_nat (length done) * 32) [x] s = (Inr (), s1)" "v_calm vw s1"
    using calm_set [OF g c entry_bound [OF g at]] by blast
  with set_entry_status [OF g at s1(1)] show ?thesis by (intro that [of s1]) (auto simp: relived_def)
qed

lemma finish_each_calm:
  assumes "v_good vw s" and "v_calm vw s" and "wal_at vw s q h (done @ es)" and "distinct (orphans c es)"
    and "set (orphans c es) \<subseteq> v_live vw s - {q}"
  shows "\<exists>m s' es'. finish_each io (fst q + 32) c (of_nat (length done)) es n s = (Inr m, s')
    \<and> v_calm vw s' \<and> v_good vw s' \<and> wal_at vw s' q h es'"
  using assms
proof (induction es arbitrary: "done" n s)
  case Nil
  then show ?case by auto
next
  case (Cons e es)
  have len: "of_nat (length done) + 1 = (of_nat (length (done @ [e'])) :: u64)" for e' :: wal_entry by simp
  show ?case
  proof (cases "orphan_of c e")
    case None
    with Cons.IH [of s "done @ [e]" n] Cons.prems show ?thesis by (simp add: add.commute)
  next
    case (Some p)
    from set_entry_calm [OF Cons.prems(1-3), of 2] obtain s1 where s1:
      "op_set io (fst q + 32 + of_nat (length done) * 32) [2] s = (Inr (), s1)" "v_calm vw s1" "v_good vw s1"
      "v_live vw s1 = v_live vw s" "wal_at vw s1 q h ((done @ [e\<lparr>we_status := 2\<rparr>]) @ es)" by blast
    have pin: "entry_file_id e = 0 \<Longrightarrow> p \<in> v_live vw s1 \<and> p \<noteq> q \<and> p \<notin> set (orphans c es)"
      using Cons.prems(4,5) Some s1(4) by auto
    then obtain s2 where s2: "free_recorded io (entry_file_id e) p s1 = (Inr (), s2)" "v_calm vw s2"
      using free_recorded_calm [OF s1(3,2)] by blast
    have f: "freed vw s1 (if entry_file_id e = 0 then {p} else {}) {} s2"
      using free_recorded_ok [OF s1(3) _ s2(1)] pin by (cases "entry_file_id e = 0") simp_all
    have at2: "wal_at vw s2 q h ((done @ [e\<lparr>we_status := 2\<rparr>]) @ es)"
      using wal_at_freed [OF s1(5) f] pin by (cases "entry_file_id e = 0") auto
    have ds: "distinct (orphans c es)" using Cons.prems(4) Some by (auto split: if_splits)
    have lv: "set (orphans c es) \<subseteq> v_live vw s2 - {q}"
      using freed_live [OF f] Cons.prems(5) Some pin s1(4) by (auto split: if_splits)
    from Cons.IH [OF freed_good [OF f] s2(2) at2 ds lv, of "n + 1"] Some s1(1) s2(1) show ?thesis
      by (simp add: add.commute)
  qed
qed

lemma mark_each_calm:
  assumes "v_good vw s" and "v_calm vw s" and "wal_at vw s q h (done @ es)"
  shows "\<exists>x s'. mark_each io (fst q + 32) c (of_nat (length done)) es loc far n s = (Inr x, s') \<and> v_calm vw s'"
  using assms
proof (induction es arbitrary: "done" loc far n s)
  case Nil
  then show ?case by auto
next
  case (Cons e es)
  show ?case
  proof (cases "orphan_of c e")
    case None
    with Cons.IH [of s "done @ [e]"] Cons.prems show ?thesis by (simp add: add.commute)
  next
    case (Some p)
    from set_entry_calm [OF Cons.prems(1-3), of 2] obtain s1 where s1:
      "op_set io (fst q + 32 + of_nat (length done) * 32) [2] s = (Inr (), s1)" "v_calm vw s1" "v_good vw s1"
      "wal_at vw s1 q h ((done @ [e\<lparr>we_status := 2\<rparr>]) @ es)" by blast
    from Cons.IH [OF s1(3,2,4)] Some s1(1) show ?thesis
      by (cases "entry_file_id e = 0") (auto simp: add.commute)
  qed
qed

lemma free_far_calm:
  "v_good vw s \<Longrightarrow> v_calm vw s \<Longrightarrow> \<forall>(f, p) \<in> set fs. f \<noteq> 0 \<Longrightarrow> \<exists>s'. free_far io fs s = (Inr (), s') \<and> v_calm vw s'"
proof (induction fs arbitrary: s)
  case (Cons x fs)
  obtain f p where x: "x = (f, p)" "f \<noteq> 0" using Cons.prems(3) by auto
  obtain s1 where fr: "free_recorded io f p s = (Inr (), s1)" "v_calm vw s1"
    using free_recorded_calm [OF Cons.prems(1,2), of f p] x(2) by blast
  have "freed vw s {} {} s1" using free_recorded_ok [OF Cons.prems(1) _ fr(1)] x(2) by simp
  from Cons.IH [OF freed_good [OF this] fr(2)] Cons.prems(3) x fr(1) show ?case by simp
qed simp

lemma finish_bulk_calm:
  assumes g: "v_good vw s" and c: "v_calm vw s" and at: "wal_at vw s q h es" and d: "distinct (orphans b es)"
    and sub: "set (orphans b es) \<subseteq> v_live vw s - {q}"
  shows "\<exists>m s'. finish_bulk io (fst q + 32) b es s = (Inr m, s') \<and> v_calm vw s'"
proof -
  have at': "wal_at vw s q h ([] @ es)" using at by simp
  obtain x s1 where mk: "mark_each io (fst q + 32) b (of_nat (length ([] :: wal_entry list))) es [] [] 0 s = (Inr x, s1)"
    and c1: "v_calm vw s1" using mark_each_calm [OF g c at'] by blast
  obtain loc far k where x: "x = (loc, far, k)" by (cases x)
  from mark_each_ok [OF g at' orphans_simps(1) mk] x obtain es1 where m: "wal_at vw s1 q h es1"
    "settles vw s {q} {} {} s1" "v_live vw s1 = v_live vw s" "loc = orphans b es" "\<forall>(f, p) \<in> set far. f \<noteq> 0" by auto
  have g1: "v_good vw s1" by (rule settles_good [OF m(2)])
  have l: "distinct loc" "set loc \<subseteq> v_live vw s1" using d sub m(3,4) by auto
  obtain s2 where fm: "free_many io loc s1 = (Inr (), s2)" and c2: "v_calm vw s2"
    using free_many_calm [OF g1 c1 l] by blast
  have g2: "v_good vw s2" using free_many_ok [OF g1 l fm] by (auto dest: freed_good)
  obtain s3 s4 where "free_far io far s2 = (Inr (), s3)" "v_calm vw s3" "free_far io far s1 = (Inr (), s4)" "v_calm vw s4"
    using free_far_calm [OF g2 c2 m(5)] free_far_calm [OF g1 c1 m(5)] by blast
  with mk x fm show ?thesis by (cases "loc = []") (simp_all add: finish_bulk_def)
qed

lemma read_anchor_calm:
  assumes "v_good vw s" and "v_calm vw s" and an: "op_anchor io = Some 8"
  shows "\<exists>o1 s'. read_anchor io s = (Inr o1, s') \<and> v_calm vw s'"
proof -
  have "unat (8 :: u64) + 8 \<le> length (v_bytes vw s)" using good_store [OF assms(1)] by simp
  from calm_read [OF assms(1,2) this] an show ?thesis by (auto simp: read_anchor_def read_u64_def)
qed

lemma wal_load_calm:
  assumes g: "v_good vw s" and c: "v_calm vw s" and an: "op_anchor io = Some 8" and at: "wal_at vw s q h es"
  shows "\<exists>s'. wal_load io s = (Inr (Some (q, h, es)), s') \<and> v_calm vw s'"
proof -
  note b = block_bounds [OF g at]
  have bh: "block_holds (content (v_bytes vw s) q) h es" using at by (simp add: wal_at_def)
  obtain o1 s1 where r1: "read_anchor io s = (Inr o1, s1)" "v_calm vw s1" using read_anchor_calm [OF g c an] by blast
  have l1: "unchanged vw s s1" "o1 = Some (NonNullOffset (fst q))"
    using read_anchor_ok [OF g an r1(1)] at b(4) by (auto simp: wal_at_def)
  have g1: "v_good vw s1" and b1: "v_bytes vw s1 = v_bytes vw s" using l1 by (auto simp: unchanged_def)
  obtain hb s2 where r2: "op_read io (fst q) 32 s1 = (Inr hb, s2)" "v_calm vw s2"
    using calm_read [OF g1 r1(2), of "fst q" 32] b b1 by auto
  have l2: "unchanged vw s1 s2" "hb = slice (unat (fst q)) 32 (v_bytes vw s)" using read_law [OF g1 r2(1)] b1 by auto
  have g2: "v_good vw s2" and b2: "v_bytes vw s2 = v_bytes vw s" using l2 b1 by (auto simp: unchanged_def)
  have "slice 0 32 (content (v_bytes vw s) q) = hb" using l2 b by (simp add: content_def slice_slice)
  with bh have h: "header_of hb = h" "wh_magic h = WAL_MAGIC" "wh_capacity h \<le> WAL_MAX_CAP" "wh_count h \<le> wh_capacity h"
    by (simp_all add: block_holds_def)
  have a: "unat (fst q + 32 :: u64) = unat (fst q) + 32" using b by (subst unat_plus_u64) simp_all
  obtain eb s3 where r3: "op_read io (fst q + 32) (unat (wh_count h) * 32) s2 = (Inr eb, s3)" "v_calm vw s3"
    using calm_read [OF g2 r2(2), of "fst q + 32" "unat (wh_count h) * 32"] b b2 a by auto
  have ld: "\<exists>x. wal_load io s = (Inr x, s3)"
    using r1(1) r2(1) r3(1) l1(2) h by (simp add: wal_load_def Let_def not_less [symmetric])
  then obtain x where "wal_load io s = (Inr x, s3)" by blast
  with wal_load_ok [OF g an at this] r3(2) show ?thesis by auto
qed

lemma finish_calm:
  assumes g: "v_good vw s" and c: "v_calm vw s" and an: "op_anchor io = Some 8" and rec: "recoverable vw s q h es"
  shows "\<exists>n s'. finish io s = (Inr n, s')"
proof -
  have at: "wal_at vw s q h es" and d: "distinct (staged h es)" and sub: "set (staged h es) \<subseteq> v_live vw s - {q}"
    using rec by (simp_all add: recoverable_def)
  obtain s1 where ld: "wal_load io s = (Inr (Some (q, h, es)), s1)" "v_calm vw s1"
    using wal_load_calm [OF g c an at] by blast
  have u: "unchanged vw s s1" using wal_load_ok [OF g an at ld(1)] by simp
  then have g1: "v_good vw s1" and at1: "wal_at vw s1 q h es" and lv1: "v_live vw s1 = v_live vw s"
    using wal_at_unchanged [OF at] by (auto simp: unchanged_def)
  show ?thesis
  proof (cases "header_txn_status h = WNone")
    case True
    with ld show ?thesis by (simp add: finish_def)
  next
    case False
    let ?b = "header_txn_status h = WComplete"
    have d1: "distinct (orphans ?b es)" "set (orphans ?b es) \<subseteq> v_live vw s1 - {q}"
      using d sub False lv1 by (auto simp: staged_def committed_txn_def)
    let ?body = "if op_atomic_bulk io then finish_bulk io (fst q + 32) ?b es s1 else finish_each io (fst q + 32) ?b 0 es 0 s1"
    obtain m s2 where bd: "?body = (Inr m, s2)" "v_calm vw s2"
      using finish_bulk_calm [OF g1 ld(2) at1 d1] finish_each_calm [OF g1 ld(2), of q h "[]" es ?b 0] at1 d1
      by (cases "op_atomic_bulk io") auto
    have "v_good vw s2 \<and> (\<exists>es'. wal_at vw s2 q h es')"
      using finish_bulk_ok [OF g1 at1 d1, of "Inr m" s2] finish_each_ok [OF g1, of q h "[]" es ?b 0 "Inr m" s2] at1 d1 bd(1)
      by (cases "op_atomic_bulk io") (auto dest: settles_good)
    then obtain es' where g2: "v_good vw s2" and at2: "wal_at vw s2 q h es'" by blast
    note b2 = block_bounds [OF g2 at2]
    have a: "unat (fst q + 8 :: u64) = unat (fst q) + 8" using b2 by (subst unat_plus_u64) simp_all
    obtain s3 where "op_set io (fst q + 8) [0] s2 = (Inr (), s3)"
      using calm_set [OF g2 bd(2), of "fst q + 8" "[0]"] b2 a by auto
    with ld(1) False bd(1) show ?thesis
      by (cases "op_atomic_bulk io") (simp_all add: finish_def set_idle_def WAL_STATUS_OFFSET_def Let_def)
  qed
qed

end

end
