(* ===== verification/WalProps.thy ===== *)
theory WalProps
  imports WalAtomic
begin

text \<open>
  The contract of the log's entry points: \<^verbatim>\<open>finish\<close>, \<^verbatim>\<open>commit_frees\<close>, and the
  logged allocations of a deep clone with their rollback.
\<close>

section \<open>Committing a batch of frees\<close>

definition home_ranges :: "(file_id \<times> range) list \<Rightarrow> range list" where
  "home_ranges slices = map snd (filter (\<lambda>(f, q). f = FILE_SELF) slices)"

lemma file_as_u64_self: "file_as_u64 f = 0 \<longleftrightarrow> f = FILE_SELF"
proof (cases f)
  case (FileId v)
  have "ucast v = (0 :: u64) \<longleftrightarrow> v = 0"
    by (metis ucast_0 ucast_u32_u64_u32)
  with FileId show ?thesis by (simp add: FILE_SELF_def)
qed

lemma orphan_dealloc: "orphan_of c (entry_dealloc_in WPending f q) = (if c then Some q else None)"
  by (simp add: orphan_of_def entry_status_def entry_dealloc_in_def entry_as_dealloc_def entry_as_alloc_def
      entry_op_def status_from_u8_def op_from_u8_def)

lemma orphan_alloc: "orphan_of c (entry_alloc WPending q) = (if c then None else Some q)"
  by (simp add: orphan_of_def entry_status_def entry_alloc_def entry_alloc_in_def entry_as_dealloc_def entry_as_alloc_def
      entry_op_def status_from_u8_def op_from_u8_def)

lemma entry_file_dealloc: "entry_file_id (entry_dealloc_in st f q) = 0 \<longleftrightarrow> f = FILE_SELF"
  by (simp add: entry_file_id_def entry_dealloc_in_def file_as_u64_self)

lemma entry_file_alloc: "entry_file_id (entry_alloc st q) = 0"
  by (simp add: entry_file_id_def entry_alloc_def entry_alloc_in_def file_as_u64_self)

lemma orphans_dealloc_log:
  "orphans c (map (\<lambda>(f, q). entry_dealloc_in WPending f q) slices) = (if c then home_ranges slices else [])"
  by (induction slices) (auto simp: orphan_dealloc entry_file_dealloc home_ranges_def)

lemma orphans_alloc_log: "orphans c (map (entry_alloc WPending) qs) = (if c then [] else qs)"
  by (induction qs) (auto simp: orphan_alloc entry_file_alloc)

lemma home_ranges_all: "list_all (\<lambda>(f, q). f = FILE_SELF) slices \<Longrightarrow> home_ranges slices = map snd slices"
  by (induction slices) (auto simp: home_ranges_def)

lemma staged_new: "staged (wal_header_new st n cap) es = (if st = WNone then [] else orphans (st = WComplete) es)"
  by (simp add: staged_def header_txn_status_def committed_txn_def)

lemma header_new_status: "(wal_header_new st n cap)\<lparr>wh_status := status_byte st'\<rparr> = wal_header_new st' n cap"
  by (simp add: wal_header_new_def)

lemma wal_safe_pending:
  assumes "wal_at vw s q (wal_header_new WPending n cap) es" and "orphans False es = []"
  shows "wal_safe vw s {q} A"
  unfolding wal_safe_def recoverable_def using assms
  by (intro disjI2 exI [of _ q] exI [of _ "wal_header_new WPending n cap"] exI [of _ es]) (simp add: staged_new)

context stack_laws
begin

lemma mark_complete_ok:
  assumes g: "v_good vw s" and at: "wal_at vw s q (wal_header_new st n cap) es" and run: "mark_complete io (fst q) s = (r, s')"
  shows "case r of
      Inl e \<Rightarrow> unchanged vw s s'
    | Inr _ \<Rightarrow> relived vw s (v_live vw s - {q}) (v_live vw s) s' \<and> wal_at vw s' q (wal_header_new WComplete n cap) es"
proof -
  note b = block_bounds [OF g at]
  have q: "q \<in> v_live vw s" and bh: "block_holds (content (v_bytes vw s) q) (wal_header_new st n cap) es"
    using at by (simp_all add: wal_at_def)
  have off: "unat (fst q + 8) = unat (fst q) + 8" using b by (subst unat_plus_u64) simp_all
  have k: "8 + length [status_byte WComplete] \<le> unat (snd q)" using b by simp
  have "op_commit io [(fst q + 8, [status_byte WComplete])] s = (r, s')"
    using run by (simp add: mark_complete_def WAL_STATUS_OFFSET_def)
  from commit_in_block [OF g q k off this] wal_at_write [OF at, of s' "wal_header_new WComplete n cap" es]
    holds_status [OF bh, of "status_byte WComplete", unfolded header_new_status]
  show ?thesis by (auto split: sum.splits)
qed

lemma coalesce_ok:
  assumes "v_good vw s"
  shows "relived vw s (v_live vw s) (v_live vw s) (coalesce_best_effort io s)"
  by (cases "op_coalesce io s") (use coalesce_law [OF assms] in \<open>simp add: coalesce_best_effort_def\<close>)

lemma wal_idle_relived:
  assumes "wal_idle vw s B" and "relived vw s (v_live vw s) (v_live vw s) s'"
  shows "wal_idle vw s' B"
proof -
  from assms(1) consider "B = {}" "no_block vw s"
    | q h es where "B = {q}" "wal_at vw s q h es" "header_txn_status h = WNone"
    by (auto simp: wal_idle_def)
  then show ?thesis
  proof cases
    case 1
    with no_block_relived [OF assms(2)] show ?thesis by (simp add: wal_idle_def)
  next
    case 2
    then have "q \<in> v_live vw s" by (simp add: wal_at_def)
    with wal_at_relived [OF 2(2) assms(2)] 2 show ?thesis unfolding wal_idle_def by blast
  qed
qed

text \<open>On a store that fails only for lack of space, whatever \<^verbatim>\<open>persist\<close> did, the store still does.\<close>

lemma set_calm_after:
  assumes "v_good vw s" and "v_calm vw s" and "op_set io off d s = (Inr u, s')"
  shows "v_calm vw s'"
  using set_law [OF assms(1,3)] calm_set [OF assms(1,2), of off d] assms(3) by auto

lemma ensure_new_calm:
  assumes g: "v_good vw s" and c: "v_calm vw s" and old: "set_option old \<subseteq> v_live vw s"
    and n: "needed \<le> WAL_MAX_CAP" and run: "ensure_new io 8 old needed s = (Inr blk, s')"
  shows "v_calm vw s'"
proof -
  define cap where "cap = next_power_of_two (max needed WAL_MIN_CAP)"
  have "max needed WAL_MIN_CAP \<le> WAL_MAX_CAP"
    using n by (simp add: WAL_MIN_CAP_def WAL_MAX_CAP_def push_bit_eq_mult)
  from cap_bound [OF next_power_of_two_le(2) [OF this]] have uc: "unat cap \<le> 1048576" by (simp add: cap_def)
  have sz: "unat (32 + cap * 32) = 32 + 32 * unat cap"
    using uc by (subst unat_plus_u64; subst unat_mult_u64) simp_all
  then have nz: "32 + cap * 32 \<noteq> 0" by (metis add_gr_0 unat_0 zero_less_numeral less_irrefl)
  note unf = ensure_new_def cap_def [symmetric] Let_def
  obtain q s1 where al: "op_alloc io (32 + cap * 32) s = (Inr q, s1)"
    using run by (cases "op_alloc io (32 + cap * 32) s"; cases "fst (op_alloc io (32 + cap * 32) s)") (auto simp: unf)
  have r1: "relived vw s (v_live vw s) (insert q (v_live vw s)) s1" "snd q = 32 + cap * 32" "q \<notin> v_live vw s"
    using alloc_law [OF g al nz] by auto
  have g1: "v_good vw s1" and q1: "q \<in> v_live vw s1" using r1(1) by (auto simp: relived_def)
  let ?hdr = "header_bytes (wal_header_new WNone 0 cap)"
  obtain rh s2 where st: "op_set io (fst q) ?hdr s1 = (rh, s2)" by (cases "op_set io (fst q) ?hdr s1")
  then obtain u where st2: "op_set io (fst q) ?hdr s1 = (Inr u, s2)" and rh: "rh = Inr u"
    using run al by (cases rh) (auto simp: unf)
  have k: "0 + length ?hdr \<le> unat (snd q)" using r1(2) sz by simp
  have w2: "v_good vw s2" "v_live vw s2 = v_live vw s1"
    using set_in_block [OF g1 q1 k _ st2, simplified] by (auto simp: relived_def)
  obtain ra s3 where an: "op_set io 8 (to_le64 (fst q)) s2 = (ra, s3)" by (cases "op_set io 8 (to_le64 (fst q)) s2")
  then obtain v where an2: "op_set io 8 (to_le64 (fst q)) s2 = (Inr v, s3)" and ra: "ra = Inr v"
    using run al st2 by (cases ra) (auto simp: unf)
  have w3: "v_good vw s3" "v_live vw s3 = v_live vw s2" using set_anchor_ok [OF w2(1) an2] by auto
  have c1: "v_calm vw s1" by (rule calm_alloc [OF g c al])
  have c3: "v_calm vw s3" by (rule set_calm_after [OF w2(1) set_calm_after [OF g1 c1 st2] an2])
  have rest: "try_s (case old of None \<Rightarrow> (Inr (), s3) | Some o1 \<Rightarrow> op_dealloc io o1 s3)
      (\<lambda>_ s4. (Inr \<lparr>wb_range = (fst q, 32 + cap * 32), wb_capacity = cap\<rparr>, s4)) = (Inr blk, s')"
    using run al st2 an2 by (simp add: unf)
  show ?thesis
  proof (cases old)
    case None
    with rest c3 show ?thesis by simp
  next
    case (Some o1)
    then have "o1 \<in> v_live vw s3" using old w2(2) w3(2) r1(1) by (auto simp: relived_def)
    then obtain s4 where "op_dealloc io o1 s3 = (Inr (), s4)" "v_calm vw s4" using calm_dealloc [OF w3(1) c3] by blast
    with rest Some show ?thesis by simp
  qed
qed

lemma ensure_block_calm:
  assumes g: "v_good vw s" and c: "v_calm vw s" and an: "op_anchor io = Some 8" and safe: "wal_safe vw s B A"
    and n: "needed \<le> WAL_MAX_CAP" and run: "ensure_block io needed s = (Inr blk, s')"
  shows "v_calm vw s'"
proof -
  obtain o1 s1 where ra: "read_anchor io s = (Inr o1, s1)" and c1: "v_calm vw s1" using read_anchor_calm [OF g c an] by blast
  note l1 = read_anchor_ok [OF g an ra]
  have u1: "unchanged vw s s1" and g1: "v_good vw s1" using l1 by (auto simp: unchanged_def)
  from safe consider (none) "B = {}" "no_block vw s"
    | (some) q h es where "B = {q}" "recoverable vw s q h es"
    by (auto simp: wal_safe_def)
  then show ?thesis
  proof cases
    case none
    then have "o1 = None" using l1 by (simp add: no_block_def)
    then have "ensure_new io 8 None needed s1 = (Inr blk, s')" using run ra an by (simp add: ensure_block_def)
    from ensure_new_calm [OF g1 c1 _ n this] show ?thesis by simp
  next
    case some
    have at: "wal_at vw s q h es" using some by (simp add: recoverable_def)
    note b = block_bounds [OF g at]
    have o1: "o1 = Some (NonNullOffset (fst q))" using l1 at b(4) by (auto simp: wal_at_def)
    have "unat (fst q) + 32 \<le> length (v_bytes vw s1)" using b u1 by (auto simp: unchanged_def)
    from calm_read [OF g1 c1 this] obtain hbuf s2 where rb: "op_read io (fst q) 32 s1 = (Inr hbuf, s2)" and c2: "v_calm vw s2"
      by blast
    note l2 = read_law [OF g1 rb]
    have u2: "unchanged vw s s2" and g2: "v_good vw s2" using unchanged_trans [OF u1] l2 by (auto simp: unchanged_def)
    have "block_holds (content (v_bytes vw s) q) h es" using at by (simp add: wal_at_def)
    moreover have "slice 0 32 (content (v_bytes vw s) q) = hbuf"
      using l2 b u1 by (simp add: content_def slice_slice unchanged_def)
    ultimately have h: "header_of hbuf = h" "wh_magic h = WAL_MAGIC" "wh_capacity h \<le> WAL_MAX_CAP"
      by (simp_all add: block_holds_def)
    have "unat (32 + wh_capacity h * 32 :: u64) = unat (snd q)"
      using b by (subst unat_plus_u64; subst unat_mult_u64) simp_all
    then have qq: "(fst q, 32 + wh_capacity h * 32) = q" by (simp add: prod_eq_iff word_unat_eq_iff)
    have run2: "(if wh_capacity h \<ge> needed then (Inr \<lparr>wb_range = q, wb_capacity = wh_capacity h\<rparr>, s2)
        else ensure_new io 8 (Some q) needed s2) = (Inr blk, s')"
      using run h by (simp add: ensure_block_def ra an o1 rb Let_def qq not_less [symmetric] split: if_splits)
    have q2: "set_option (Some q) \<subseteq> v_live vw s2" using at u2 by (simp add: wal_at_def unchanged_def)
    show ?thesis
    proof (cases "wh_capacity h \<ge> needed")
      case True
      with run2 c2 show ?thesis by simp
    next
      case False
      with run2 have "ensure_new io 8 (Some q) needed s2 = (Inr blk, s')" by simp
      from ensure_new_calm [OF g2 c2 q2 n this] show ?thesis .
    qed
  qed
qed

lemma persist_calm:
  assumes g: "v_good vw s" and c: "v_calm vw s" and an: "op_anchor io = Some 8" and safe: "wal_safe vw s B A"
    and n: "length (wl_entries l) \<le> 1048576" and run: "persist io l st s = (Inr q, s')"
  shows "v_calm vw s'"
proof -
  let ?n = "of_nat (length (wl_entries l)) :: u64"
  have "unat ?n = length (wl_entries l)" using n by (intro unat_of_nat_u64) simp
  then have le: "?n \<le> WAL_MAX_CAP" using n by (simp add: word_le_nat_alt WAL_MAX_CAP_def push_bit_eq_mult)
  obtain re s1 where en: "ensure_block io ?n s = (re, s1)" by (cases "ensure_block io ?n s")
  then obtain blk where en2: "ensure_block io ?n s = (Inr blk, s1)" and re: "re = Inr blk"
    using run by (cases re) (auto simp: persist_def)
  have g1: "v_good vw s1" using ensure_block_ok [OF g an safe le en] by (auto dest: guarded_good)
  note c1 = ensure_block_calm [OF g c an safe le en2]
  obtain u where "op_set io (fst (wb_range blk)) (block_image l st (wb_capacity blk)) s1 = (Inr u, s')"
    using run en2 by (cases "op_set io (fst (wb_range blk)) (block_image l st (wb_capacity blk)) s1";
      cases "fst (op_set io (fst (wb_range blk)) (block_image l st (wb_capacity blk)) s1)") (auto simp: persist_def)
  from set_calm_after [OF g1 c1 this] show ?thesis .
qed

lemma mark_complete_calm:
  assumes g: "v_good vw s" and c: "v_calm vw s" and at: "wal_at vw s q h es" and run: "mark_complete io (fst q) s = (r, s')"
  shows "v_calm vw s'"
proof -
  note b = block_bounds [OF g at]
  have "unat (fst q + 8) = unat (fst q) + 8" using b by (subst unat_plus_u64) simp_all
  then have "in_bounds (v_bytes vw s) [(fst q + 8, [status_byte WComplete])]" using b by (simp add: in_bounds_def)
  from calm_commit [OF g c this] run show ?thesis by (auto simp: mark_complete_def WAL_STATUS_OFFSET_def)
qed

text \<open>The atomic path frees all or nothing.\<close>

lemma commit_bulk_ok:
  assumes g: "v_good vw s" and idle: "wal_idle vw s B" and d: "distinct qs" and sub: "set qs \<subseteq> v_live vw s - B"
    and bulk: "op_atomic_bulk io"
    and run: "try_s (fme_res (free_many io qs s)) (\<lambda>_ s1. (Inr (), coalesce_best_effort io s1)) = (r, s')"
  shows "case r of
      Inr _ \<Rightarrow> guarded vw s (B \<union> set qs) s' \<and> wal_idle vw s' B \<and> v_live vw s' - B = v_live vw s - B - set qs
    | Inl e \<Rightarrow> guarded vw s B s' \<and> wal_safe vw s' B {}"
proof -
  have safe: "wal_safe vw s B {}" by (rule wal_idle_safe [OF idle])
  have BL: "B \<subseteq> v_live vw s" by (rule wal_safe_live [OF safe])
  obtain rd sd where db: "op_dealloc_bulk io qs s = (rd, sd)" by (cases "op_dealloc_bulk io qs s")
  have "set qs \<subseteq> v_live vw s" using sub by auto
  note law = dealloc_bulk_law [OF g this d db]
  show ?thesis
  proof (cases rd)
    case (Inl e)
    with law have r1: "relived vw s (v_live vw s) (v_live vw s) sd" by simp
    have "s' = sd" "\<exists>e. r = Inl e" using run db Inl bulk by (auto simp: free_many_def bulk_free_many_def)
    moreover have "guarded vw s B sd" using r1 by (auto simp: guarded_def relived_def same_on_def)
    ultimately show ?thesis using wal_safe_relived [OF safe r1 BL] by auto
  next
    case (Inr u)
    with law have r1: "relived vw s (v_live vw s - set qs) (v_live vw s - set qs) sd" by simp
    have gd: "v_good vw sd" and lvd: "v_live vw sd = v_live vw s - set qs" using r1 by (auto simp: relived_def)
    have out: "s' = coalesce_best_effort io sd" "r = Inr ()"
      using run db Inr bulk by (auto simp: free_many_def bulk_free_many_def)
    note co = coalesce_ok [OF gd]
    have "B \<subseteq> v_live vw s - set qs" using BL sub by auto
    with r1 idle have "wal_idle vw sd B"
      using wal_at_relived [OF _ r1] no_block_relived [OF r1] by (fastforce simp: wal_idle_def)
    from wal_idle_relived [OF this co] have "wal_idle vw s' B" using out by simp
    moreover have "v_live vw s' - B = v_live vw s - B - set qs" using co lvd out by (auto simp: relived_def)
    moreover have "guarded vw s (B \<union> set qs) s'"
      using r1 co lvd out by (auto simp: guarded_def relived_def same_on_def)
    ultimately show ?thesis using out by simp
  qed
qed

text \<open>The logged path up to its commit point. \<open>slices\<close> is staged by the first two steps.\<close>

lemma dealloc_log_staged:
  "staged (wal_header_new WComplete n cap) (map (\<lambda>(f, q). entry_dealloc_in WPending f q) slices) = home_ranges slices"
  "staged (wal_header_new WPending n cap) (map (\<lambda>(f, q). entry_dealloc_in WPending f q) slices) = []"
  by (simp_all add: staged_new orphans_dealloc_log)

lemma stage_frees_ok:
  assumes g: "v_good vw s" and an: "op_anchor io = Some 8" and idle: "wal_idle vw s B"
    and d: "distinct (home_ranges slices)" and sub: "set (home_ranges slices) \<subseteq> v_live vw s - B"
    and n: "length slices \<le> 1048576"
    and run: "try_s (persist io (dealloc_log slices) WPending s) (\<lambda>q s1.
      try_s (mark_complete io (fst q) s1) (\<lambda>_ s2. (Inr q, s2))) = (r, s')"
  shows "guarded vw s B s' \<and> (case r of
      Inl e \<Rightarrow> \<exists>B'. wal_safe vw s' B' {}
    | Inr q \<Rightarrow> q \<notin> v_live vw s - B \<and> v_live vw s' = insert q (v_live vw s - B)
        \<and> (v_calm vw s \<longrightarrow> v_calm vw s')
        \<and> (\<exists>h es. recoverable vw s' q h es \<and> committed_txn h \<and> staged h es = home_ranges slices))"
proof -
  let ?es = "map (\<lambda>(f, q). entry_dealloc_in WPending f q) slices"
  have safe: "wal_safe vw s B {}" by (rule wal_idle_safe [OF idle])
  obtain rp s1 where pe: "persist io (dealloc_log slices) WPending s = (rp, s1)" by (cases "persist io (dealloc_log slices) WPending s")
  have pads: "\<forall>e \<in> set (wl_entries (dealloc_log slices)). length (we_pad e) = 6" by (auto simp: dealloc_log_entries)
  have len: "length (wl_entries (dealloc_log slices)) \<le> 1048576" using n by (simp add: dealloc_log_entries)
  note p = persist_ok [OF g an safe len pads pe, unfolded dealloc_log_entries]
  have g1: "v_good vw s1" using p by (auto dest: guarded_good)
  show ?thesis
  proof (cases rp)
    case (Inl e)
    with run pe p show ?thesis by auto
  next
    case q: (Inr q)
    obtain cap where at1: "wal_at vw s1 q (wal_header_new WPending (of_nat (length ?es)) cap) ?es"
      and fresh: "q \<notin> v_live vw s - B" and lv1: "v_live vw s1 = insert q (v_live vw s - B)" using p q by auto
    have gd1: "guarded vw s B s1" using p by simp
    have safe1: "wal_safe vw s1 {q} {}" by (rule wal_safe_pending [OF at1]) (simp add: orphans_dealloc_log)
    obtain rm s2 where mc: "mark_complete io (fst q) s1 = (rm, s2)" by (cases "mark_complete io (fst q) s1")
    note m = mark_complete_ok [OF g1 at1 mc]
    show ?thesis
    proof (cases rm)
      case (Inl e)
      with m have u: "unchanged vw s1 s2" by simp
      have "r = Inl e" "s' = s2" using run pe q mc Inl by simp_all
      moreover have "guarded vw s B s2" using gd1 u by (simp add: guarded_def unchanged_def)
      ultimately show ?thesis using wal_safe_unchanged [OF safe1 u] by auto
    next
      case ok: (Inr u)
      let ?h = "wal_header_new WComplete (of_nat (length ?es)) cap"
      from m ok have w: "relived vw s1 (v_live vw s1 - {q}) (v_live vw s1) s2" "wal_at vw s2 q ?h ?es" by auto
      have lv2: "v_live vw s2 = insert q (v_live vw s - B)" using w(1) lv1 by (auto simp: relived_def)
      have gd2: "guarded vw s B s2" using gd1 w(1) fresh lv1 by (auto simp: guarded_def relived_def same_on_def)
      have out: "r = Inr q" "s' = s2" using run pe q mc ok by simp_all
      have "recoverable vw s2 q ?h ?es"
        unfolding recoverable_def dealloc_log_staged using w(2) d sub fresh lv2 by auto
      moreover have "committed_txn ?h" by (simp add: committed_txn_def header_txn_status_def status_from_u8_def)
      ultimately have ex: "\<exists>h es. recoverable vw s2 q h es \<and> committed_txn h \<and> staged h es = home_ranges slices"
        using dealloc_log_staged(1) by blast
      have "v_calm vw s2" if "v_calm vw s"
        using mark_complete_calm [OF g1 persist_calm [OF g that an safe len] at1 mc] pe q by simp
      with out fresh lv2 gd2 ex show ?thesis by simp
    qed
  qed
qed

text \<open>Success frees the home ranges and nothing else. A failure before the commit point frees nothing,
  then and in a later replay; a failure after it leaves a committed log, and only on a store with
  faults of its own.\<close>

lemma commit_frees_ok:
  assumes g: "v_good vw s" and an: "op_anchor io = Some 8" and idle: "wal_idle vw s B"
    and d: "distinct (home_ranges slices)" and sub: "set (home_ranges slices) \<subseteq> v_live vw s - B"
    and n: "length slices \<le> 1048576" and run: "commit_frees io lock slices s = (r, s')"
  shows "guarded vw s (B \<union> set (home_ranges slices)) s' \<and> (case r of
      Inr _ \<Rightarrow> \<exists>B'. wal_idle vw s' B' \<and> v_live vw s' - B' = v_live vw s - B - set (home_ranges slices)
    | Inl e \<Rightarrow> guarded vw s B s' \<and> (\<exists>B'. wal_safe vw s' B' {})
        \<or> \<not> v_calm vw s \<and> (\<exists>q h es. recoverable vw s' q h es \<and> committed_txn h
            \<and> set (staged h es) \<subseteq> set (home_ranges slices)))"
proof -
  let ?A = "set (home_ranges slices)"
  have safe: "wal_safe vw s B {}" by (rule wal_idle_safe [OF idle])
  have fail: ?thesis if "r = Inl e" "guarded vw s B s'" "wal_safe vw s' B' {}" for e B'
    using that guarded_mono [OF that(2), of "B \<union> ?A"] by auto
  consider (empty) "slices = []"
    | (bulk) "slices \<noteq> []" "op_atomic_bulk io" "list_all (\<lambda>(f, q). f = FILE_SELF) slices"
    | (wal) "slices \<noteq> []" "\<not> (op_atomic_bulk io \<and> list_all (\<lambda>(f, q). f = FILE_SELF) slices)" by blast
  then show ?thesis
  proof cases
    case empty
    with run idle g show ?thesis
      by (auto simp: commit_frees_def home_ranges_def guarded_def same_on_def)
  next
    case bulk
    have hr: "home_ranges slices = map snd slices" by (rule home_ranges_all [OF bulk(3)])
    have "try_s (fme_res (free_many io (home_ranges slices) s)) (\<lambda>_ s1. (Inr (), coalesce_best_effort io s1)) = (r, s')"
      using bulk run unfolding hr by (simp add: commit_frees_def)
    from commit_bulk_ok [OF g idle d sub bulk(2) this] fail show ?thesis by (cases r) auto
  next
    case wal
    let ?stage = "try_s (persist io (dealloc_log slices) WPending s) (\<lambda>q s1.
        try_s (mark_complete io (fst q) s1) (\<lambda>_ s2. (Inr q, s2)))"
    have run0: "commit_frees io lock slices s = try_in lock s (\<lambda>_.
        try_s ?stage (\<lambda>_ s2. try_s (finish io s2) (\<lambda>_ s3. (Inr (), coalesce_best_effort io s3))))"
      by (simp only: commit_frees_def if_not_P [OF wal(1)] if_not_P [OF wal(2)])
        (auto simp: try_s_def split: sum.splits prod.splits intro!: arg_cong [where f = "try_in lock s"])
    show ?thesis
    proof (cases lock)
      case (Inl e)
      with run run0 have "r = Inl e" "s' = s" by simp_all
      with fail [OF this(1) _ _] g safe show ?thesis by (auto simp: guarded_def same_on_def)
    next
      case (Inr u)
      obtain rp s2 where stg: "?stage = (rp, s2)" by (cases ?stage)
      note p = stage_frees_ok [OF g an idle d sub n stg]
      show ?thesis
      proof (cases rp)
        case (Inl e)
        with run run0 Inr stg have "r = Inl e" "s' = s2" by simp_all
        with p Inl fail show ?thesis by auto
      next
        case q: (Inr q)
        obtain h es where rec2: "recoverable vw s2 q h es" and com: "committed_txn h" and st: "staged h es = home_ranges slices"
          using p q by auto
        have gd2: "guarded vw s B s2" and fresh: "q \<notin> v_live vw s - B" and lv2: "v_live vw s2 = insert q (v_live vw s - B)"
          using p q by auto
        have g2: "v_good vw s2" by (rule guarded_good [OF gd2])
        obtain rf s3 where fi: "finish io s2 = (rf, s3)" by (cases "finish io s2")
        from finish_ok [OF g2 an rec2 fi, unfolded st] obtain h' es' where f: "recoverable vw s3 q h' es'"
          "settles vw s2 {q} ?A (case rf of Inl e \<Rightarrow> ?A | Inr _ \<Rightarrow> {}) s3"
          "\<forall>n. rf = Inr n \<longrightarrow> header_txn_status h' = WNone"
          "\<forall>e. rf = Inl e \<longrightarrow> h' = h \<and> set (staged h' es') \<subseteq> ?A" by blast
        have gd3: "guarded vw s (B \<union> ?A) s3"
        proof (rule guarded_trans [OF guarded_mono [OF gd2] guarded_settles [OF f(2)]])
          show "v_live vw s \<inter> (?A \<union> {q}) \<subseteq> B \<union> ?A" using fresh by auto
        qed simp
        show ?thesis
        proof (cases rf)
          case (Inl e)
          have "r = Inl e" "s' = s3" using run run0 Inr stg q fi Inl by simp_all
          moreover have "\<not> v_calm vw s" using finish_calm [OF g2 _ an rec2] p q fi Inl by auto
          ultimately show ?thesis using gd3 f(1,4) Inl com by (simp del: split_paired_Ex) blast
        next
          case fin: (Inr k)
          have out: "s' = coalesce_best_effort io s3" "r = Inr ()" using run run0 Inr stg q fi fin by simp_all
          note co = coalesce_ok [OF settles_good [OF f(2)]]
          have "wal_idle vw s3 {q}" using f(1,3) fin by (auto simp: wal_idle_def recoverable_def)
          from wal_idle_relived [OF this co] have "wal_idle vw s' {q}" using out by simp
          moreover have "v_live vw s3 = v_live vw s2 - ?A" using settles_live [OF f(2)] fin by auto
          then have "v_live vw s' - {q} = v_live vw s - B - ?A"
            using co lv2 fresh out by (auto simp: relived_def)
          moreover have "guarded vw s (B \<union> ?A) s'"
            using guarded_trans [OF gd3, of "{}" s'] guarded_relived [of vw s3 "{}" _ s'] co out by simp
          ultimately show ?thesis using out by auto
        qed
      qed
    qed
  qed
qed

lemma commit_frees_safe:
  assumes "v_good vw s" and "op_anchor io = Some 8" and "wal_idle vw s B"
    and "distinct (home_ranges slices)" and "set (home_ranges slices) \<subseteq> v_live vw s - B"
    and "length slices \<le> 1048576" and "commit_frees io lock slices s = (r, s')"
  shows "guarded vw s (B \<union> set (home_ranges slices)) s' \<and> (case r of
      Inr _ \<Rightarrow> \<exists>B'. wal_idle vw s' B' \<and> v_live vw s' - B' = v_live vw s - B - set (home_ranges slices)
    | Inl e \<Rightarrow> \<exists>B'. wal_safe vw s' B' (set (home_ranges slices)))"
proof -
  note ok = commit_frees_ok [OF assms]
  show ?thesis
  proof (cases r)
    case (Inl e)
    with ok consider (before) B' where "wal_safe vw s' B' {}"
      | (after) q h es where "recoverable vw s' q h es" "set (staged h es) \<subseteq> set (home_ranges slices)" by auto
    then have "\<exists>B'. wal_safe vw s' B' (set (home_ranges slices))"
    proof cases
      case before
      from wal_safe_mono [OF this empty_subsetI] show ?thesis by blast
    next
      case after
      then show ?thesis unfolding wal_safe_def by blast
    qed
    with ok Inl show ?thesis by simp
  qed (use ok in simp)
qed

end

end
