(* ===== verification/Teardown.thy ===== *)
theory Teardown
  imports WalProps
begin

text \<open>
  Teardown of owned subtrees, \<^verbatim>\<open>src/io_core/teardown.rs\<close> with
  \<^verbatim>\<open>drop_block\<close> and \<^verbatim>\<open>AutoDrop\<close> of \<^verbatim>\<open>src/types/traits/drop.rs\<close> and the owned
  handles of \<^verbatim>\<open>src/types/compiled/owned.rs\<close>. The two thread-locals, the sink that collects
  frees and the nesting depth, are fields of a thread's state next to the store. A guard whose
  \<^verbatim>\<open>Drop\<close> resets a thread-local is the reset at every way out of its scope. The generated
  \<^verbatim>\<open>__bstack_drop_children\<close> of a type is a function argument.
\<close>

section \<open>Thread state and allocators\<close>

text \<open>A file's \<^verbatim>\<open>BStack\<close> is identified by its address.\<close>

type_synonym stack_id = u64

record 's thread =
  th_store :: 's
  th_sink :: "(stack_id \<times> (file_id \<times> range) list) option"
  th_depth :: u32

record 's allocator =
  al_io :: "'s stack_ops"
  al_stack :: stack_id
  al_file :: file_id

type_synonym 's dropper = "range \<Rightarrow> 's thread \<Rightarrow> unit res \<times> 's thread"

definition on_store :: "('s \<Rightarrow> 'a \<times> 's) \<Rightarrow> 's thread \<Rightarrow> 'a \<times> 's thread" where
  "on_store f t = (case f (th_store t) of (x, s) \<Rightarrow> (x, t\<lparr>th_store := s\<rparr>))"

section \<open>The sink\<close>

definition sink_is_active :: "'s thread \<Rightarrow> bool" where
  "sink_is_active t \<longleftrightarrow> th_sink t \<noteq> None"

definition sink_install :: "stack_id \<Rightarrow> 's thread \<Rightarrow> 's thread" where
  "sink_install i t = t\<lparr>th_sink := Some (i, [])\<rparr>"

definition sink_collect :: "'s allocator \<Rightarrow> range \<Rightarrow> 's thread \<Rightarrow> bool \<times> 's thread" where
  "sink_collect al q t =
     (case th_sink t of
        Some (installer, xs) \<Rightarrow>
          if al_file al \<noteq> FILE_SELF \<or> al_stack al = installer
          then (True, t\<lparr>th_sink := Some (installer, xs @ [(al_file al, q)])\<rparr>)
          else (False, t)
      | None \<Rightarrow> (False, t))"

definition sink_dealloc :: "'s allocator \<Rightarrow> 's dropper" where
  "sink_dealloc al q t =
     (case sink_collect al q t of
        (True, t1) \<Rightarrow> (Inr (), t1)
      | (False, t1) \<Rightarrow> on_store (op_dealloc (al_io al) q) t1)"

definition dealloc_range :: "'s allocator \<Rightarrow> 's dropper" where
  "dealloc_range al q t = sink_dealloc al q t"

definition sink_take :: "'s thread \<Rightarrow> (file_id \<times> range) list \<times> 's thread" where
  "sink_take t = ((case th_sink t of Some (i, xs) \<Rightarrow> xs | None \<Rightarrow> []), t\<lparr>th_sink := None\<rparr>)"

definition sink_clear :: "'s thread \<Rightarrow> 's thread" where
  "sink_clear t = t\<lparr>th_sink := None\<rparr>"

section \<open>The depth guard\<close>

definition MAX_TEARDOWN_DEPTH :: u32 where "MAX_TEARDOWN_DEPTH = 500"

definition too_deep :: io_error where
  "too_deep = IoError InvalidData ''teardown recursion too deep (an owned-reference cycle?)''"

definition depth_enter :: "'s thread \<Rightarrow> unit res \<times> 's thread" where
  "depth_enter t =
     (let depth = th_depth t + 1; t1 = t\<lparr>th_depth := depth\<rparr> in
      if depth > MAX_TEARDOWN_DEPTH then (Inl too_deep, t1\<lparr>th_depth := th_depth t1 - 1\<rparr>)
      else (Inr (), t1))"

definition depth_leave :: "'s thread \<Rightarrow> 's thread" where
  "depth_leave t = t\<lparr>th_depth := (if th_depth t = 0 then 0 else th_depth t - 1)\<rparr>"

definition with_depth :: "('s thread \<Rightarrow> 'a res \<times> 's thread) \<Rightarrow> 's thread \<Rightarrow> 'a res \<times> 's thread" where
  "with_depth body t =
     try_s (depth_enter t) (\<lambda>_ t1. case body t1 of (r, t2) \<Rightarrow> (r, depth_leave t2))"

section \<open>Teardown\<close>

definition wal_teardown ::
    "unit res \<Rightarrow> 's allocator \<Rightarrow> ('s thread \<Rightarrow> unit res \<times> 's thread) \<Rightarrow> 's thread \<Rightarrow> unit res \<times> 's thread" where
  "wal_teardown lock al handle_drop t =
     (if sink_is_active t then handle_drop t
      else if op_anchor (al_io al) = None then handle_drop t
      else
        (case handle_drop (sink_install (al_stack al) t) of
           (result, t1) \<Rightarrow>
             (case sink_take t1 of
                (slices, t2) \<Rightarrow>
                  (case result of
                     Inl e \<Rightarrow> (Inl e, sink_clear t2)
                   | Inr _ \<Rightarrow>
                       (case on_store (commit_frees (al_io al) lock slices) t2 of
                          (r, t3) \<Rightarrow> (r, sink_clear t3))))))"

definition drop_block :: "'s allocator \<Rightarrow> 's dropper \<Rightarrow> 's dropper" where
  "drop_block al drop_children q t =
     try_s (drop_children q t) (\<lambda>_ t1. dealloc_range al q t1)"

definition block_shell_drop :: "'s allocator \<Rightarrow> 's dropper \<Rightarrow> 's dropper" where
  "block_shell_drop al drop_children q t = drop_block al drop_children q t"

definition owned_drop :: "unit res \<Rightarrow> 's allocator \<Rightarrow> 's dropper \<Rightarrow> 's dropper" where
  "owned_drop lock al drop_children q t = wal_teardown lock al (block_shell_drop al drop_children q) t"

definition owned_ref_drop :: "'s allocator \<Rightarrow> 's dropper \<Rightarrow> 's dropper" where
  "owned_ref_drop al drop_children q t = with_depth (drop_block al drop_children q) t"

text \<open>\<^verbatim>\<open>AutoDrop\<close>: the error of the inner teardown is dropped.\<close>

definition auto_drop :: "('s thread \<Rightarrow> unit res \<times> 's thread) \<Rightarrow> 's thread \<Rightarrow> 's thread" where
  "auto_drop inner_drop t = snd (inner_drop t)"

section \<open>Subtrees\<close>

text \<open>An owned block with the owned blocks its fields refer to, in field order; for such a type
  the generated teardown drops each child through \<^verbatim>\<open>OwnedRef\<close>.\<close>

datatype owned = Owned range "owned list"

fun drop_tree :: "'s allocator \<Rightarrow> owned \<Rightarrow> 's thread \<Rightarrow> unit res \<times> 's thread"
and drop_trees :: "'s allocator \<Rightarrow> owned list \<Rightarrow> 's thread \<Rightarrow> unit res \<times> 's thread" where
  "drop_tree al (Owned q kids) t = owned_ref_drop al (\<lambda>_. drop_trees al kids) q t"
| "drop_trees al [] t = (Inr (), t)"
| "drop_trees al (k # ks) t = try_s (drop_tree al k t) (\<lambda>_ t1. drop_trees al ks t1)"

fun frees_of :: "owned \<Rightarrow> range list" where
  "frees_of (Owned q kids) = concat (map frees_of kids) @ [q]"

fun height :: "owned \<Rightarrow> nat" where
  "height (Owned q kids) = Suc (Max (insert 0 (height ` set kids)))"

definition heights :: "owned list \<Rightarrow> nat" where
  "heights kids = Max (insert 0 (height ` set kids))"

lemma heights_simps [simp]:
  "heights [] = 0"
  "heights (k # ks) = max (height k) (heights ks)"
  by (simp_all add: heights_def insert_commute [of 0])

lemma height_Owned [simp]: "height (Owned q kids) = Suc (heights kids)"
  by (simp add: heights_def)

declare height.simps [simp del]

lemma sink_dealloc_collects:
  "th_sink t = Some (al_stack al, xs) \<Longrightarrow>
    sink_dealloc al q t = (Inr (), t\<lparr>th_sink := Some (al_stack al, xs @ [(al_file al, q)])\<rparr>)"
  by (simp add: sink_dealloc_def sink_collect_def)

text \<open>Without a sink on the thread a range is freed at once: this is how the operations outside a
  teardown call \<^verbatim>\<open>dealloc_range\<close>.\<close>

lemma dealloc_range_direct: "th_sink t = None \<Longrightarrow> dealloc_range al q t = on_store (op_dealloc (al_io al) q) t"
  by (simp add: dealloc_range_def sink_dealloc_def sink_collect_def)

lemma depth_enter_ok:
  assumes "unat (th_depth t) < 500"
  shows "depth_enter t = (Inr (), t\<lparr>th_depth := th_depth t + 1\<rparr>)" and "unat (th_depth t + 1) = unat (th_depth t) + 1"
proof -
  show u: "unat (th_depth t + 1) = unat (th_depth t) + 1"
    using assms by (simp add: unat_word_ariths)
  show "depth_enter t = (Inr (), t\<lparr>th_depth := th_depth t + 1\<rparr>)"
    using assms u by (simp add: depth_enter_def MAX_TEARDOWN_DEPTH_def Let_def word_less_nat_alt)
qed

lemma depth_enter_full: "unat (th_depth t) = 500 \<Longrightarrow> depth_enter t = (Inl too_deep, t)"
proof -
  assume "unat (th_depth t) = 500"
  then have "th_depth t = 500" by (simp add: word_unat_eq_iff)
  then show ?thesis by (cases t) (simp add: depth_enter_def MAX_TEARDOWN_DEPTH_def Let_def)
qed

lemma depth_leave_enter [simp]:
  "unat (th_depth t) < 500 \<Longrightarrow> depth_leave (t\<lparr>th_depth := th_depth t + 1, th_sink := x\<rparr>) = t\<lparr>th_sink := x\<rparr>"
  using depth_enter_ok(2) [of t] by (cases t) (auto simp: depth_leave_def)

text \<open>Inside a sink of the same file a whole subtree is collected, children first, and the store is
  not touched; a subtree nested too deep is refused.\<close>

definition collects :: "'s allocator \<Rightarrow> nat \<Rightarrow> range list \<Rightarrow> ('s thread \<Rightarrow> unit res \<times> 's thread) \<Rightarrow> bool" where
  "collects al h qs f \<longleftrightarrow>
     (\<forall>t xs. th_sink t = Some (al_stack al, xs) \<longrightarrow> unat (th_depth t) \<le> 500 \<longrightarrow>
       (if unat (th_depth t) + h \<le> 500
        then f t = (Inr (), t\<lparr>th_sink := Some (al_stack al, xs @ map (Pair (al_file al)) qs)\<rparr>)
        else \<exists>ys. f t = (Inl too_deep, t\<lparr>th_sink := Some (al_stack al, ys)\<rparr>)))"

lemma collectsD:
  assumes "collects al h qs f" and "th_sink t = Some (al_stack al, xs)" and "unat (th_depth t) \<le> 500"
  shows "unat (th_depth t) + h \<le> 500 \<Longrightarrow>
      f t = (Inr (), t\<lparr>th_sink := Some (al_stack al, xs @ map (Pair (al_file al)) qs)\<rparr>)"
    and "500 < unat (th_depth t) + h \<Longrightarrow> \<exists>ys. f t = (Inl too_deep, t\<lparr>th_sink := Some (al_stack al, ys)\<rparr>)"
  using assms by (auto simp: collects_def)

lemma collects_dealloc: "collects al 0 [q] (dealloc_range al q)"
  by (simp add: collects_def dealloc_range_def sink_dealloc_collects)

lemma collects_none: "collects al 0 [] (\<lambda>t. (Inr (), t))"
  unfolding collects_def
proof (intro allI impI)
  fix t :: "'a thread" and xs
  assume "th_sink t = Some (al_stack al, xs)"
  then have "t = t\<lparr>th_sink := Some (al_stack al, xs @ map (Pair (al_file al)) [])\<rparr>" by (cases t) simp
  then show "if unat (th_depth t) + 0 \<le> 500
      then (Inr (), t) = (Inr (), t\<lparr>th_sink := Some (al_stack al, xs @ map (Pair (al_file al)) [])\<rparr>)
      else \<exists>ys. (Inr (), t) = (Inl too_deep, t\<lparr>th_sink := Some (al_stack al, ys)\<rparr>)"
    if "unat (th_depth t) \<le> 500" using that by simp
qed

lemma collects_seq:
  assumes f: "collects al h qs f" and g: "collects al h' qs' g"
  shows "collects al (max h h') (qs @ qs') (\<lambda>t. try_s (f t) (\<lambda>_ t1. g t1))"
  unfolding collects_def
proof (intro allI impI)
  fix t :: "'a thread" and xs
  assume t: "th_sink t = Some (al_stack al, xs)" "unat (th_depth t) \<le> 500"
  show "if unat (th_depth t) + max h h' \<le> 500
      then try_s (f t) (\<lambda>_ t1. g t1) = (Inr (), t\<lparr>th_sink := Some (al_stack al, xs @ map (Pair (al_file al)) (qs @ qs'))\<rparr>)
      else \<exists>ys. try_s (f t) (\<lambda>_ t1. g t1) = (Inl too_deep, t\<lparr>th_sink := Some (al_stack al, ys)\<rparr>)"
  proof (cases "unat (th_depth t) + h \<le> 500")
    case True
    let ?t = "t\<lparr>th_sink := Some (al_stack al, xs @ map (Pair (al_file al)) qs)\<rparr>"
    have "th_sink ?t = Some (al_stack al, xs @ map (Pair (al_file al)) qs)" "unat (th_depth ?t) \<le> 500" using t by simp_all
    from collectsD [OF g this] collectsD(1) [OF f t True] True show ?thesis by auto
  next
    case False
    with collectsD(2) [OF f t] show ?thesis by auto
  qed
qed

lemma collects_depth:
  assumes f: "collects al h qs f"
  shows "collects al (Suc h) qs (with_depth f)"
  unfolding collects_def
proof (intro allI impI)
  fix t :: "'a thread" and xs
  assume t: "th_sink t = Some (al_stack al, xs)" "unat (th_depth t) \<le> 500"
  show "if unat (th_depth t) + Suc h \<le> 500
      then with_depth f t = (Inr (), t\<lparr>th_sink := Some (al_stack al, xs @ map (Pair (al_file al)) qs)\<rparr>)
      else \<exists>ys. with_depth f t = (Inl too_deep, t\<lparr>th_sink := Some (al_stack al, ys)\<rparr>)"
  proof (cases "unat (th_depth t) < 500")
    case True
    let ?t = "t\<lparr>th_depth := th_depth t + 1\<rparr>"
    have "th_sink ?t = Some (al_stack al, xs)" "unat (th_depth ?t) \<le> 500" "unat (th_depth ?t) = unat (th_depth t) + 1"
      using t depth_enter_ok(2) [OF True] True by simp_all
    note f' = collectsD [OF f this(1,2)]
    show ?thesis
    proof (cases "unat (th_depth t) + Suc h \<le> 500")
      case fits: True
      with f'(1) depth_enter_ok [OF True] True show ?thesis by (simp add: with_depth_def)
    next
      case False
      then obtain ys where "f ?t = (Inl too_deep, ?t\<lparr>th_sink := Some (al_stack al, ys)\<rparr>)"
        using f'(2) depth_enter_ok(2) [OF True] by auto
      then have "with_depth f t = (Inl too_deep, t\<lparr>th_sink := Some (al_stack al, ys)\<rparr>)"
        using depth_enter_ok(1) [OF True] True by (simp add: with_depth_def)
      with False show ?thesis by auto
    qed
  next
    case False
    then have "with_depth f t = (Inl too_deep, t)" using depth_enter_full [of t] t by (simp add: with_depth_def)
    moreover have "t = t\<lparr>th_sink := Some (al_stack al, xs)\<rparr>" using t by (cases t) simp
    ultimately show ?thesis using False by auto
  qed
qed

lemma collects_block: "collects al h qs dc \<Longrightarrow> collects al h (qs @ [q]) (drop_block al (\<lambda>_. dc) q)"
  using collects_seq [OF _ collects_dealloc, of al h qs dc q] by (simp add: drop_block_def [abs_def])

lemma collects_trees:
  "(\<And>k. k \<in> set ks \<Longrightarrow> collects al (height k) (frees_of k) (drop_tree al k)) \<Longrightarrow>
    collects al (heights ks) (concat (map frees_of ks)) (drop_trees al ks)"
proof (induction ks)
  case Nil
  then show ?case using collects_none by (simp add: drop_trees.simps [abs_def])
next
  case (Cons k ks)
  have "drop_trees al (k # ks) = (\<lambda>t. try_s (drop_tree al k t) (\<lambda>_ t1. drop_trees al ks t1))"
    by (intro ext) simp
  then show ?case using collects_seq [OF Cons.prems [of k] Cons.IH] Cons.prems by simp
qed

lemma collects_tree: "collects al (height k) (frees_of k) (drop_tree al k)"
proof (induction k)
  case (Owned q kids)
  have "drop_tree al (Owned q kids) = with_depth (drop_block al (\<lambda>_. drop_trees al kids) q)"
    by (intro ext) (simp add: owned_ref_drop_def)
  then show ?case
    using collects_depth [OF collects_block [OF collects_trees [OF Owned]]] by simp
qed

text \<open>The outermost teardown is one transaction.\<close>

lemma owned_drop_tree:
  assumes "op_anchor (al_io al) \<noteq> None" and "th_sink t = None" and "th_depth t = 0"
  shows "owned_drop lock al (\<lambda>_. drop_trees al kids) q t =
    (if heights kids \<le> 500
     then (case commit_frees (al_io al) lock (map (Pair (al_file al)) (frees_of (Owned q kids))) (th_store t) of
             (r, s') \<Rightarrow> (r, t\<lparr>th_store := s'\<rparr>))
     else (Inl too_deep, t))"
proof -
  let ?t = "sink_install (al_stack al) t"
  have t: "th_sink ?t = Some (al_stack al, [])" "unat (th_depth ?t) \<le> 500" "th_depth ?t = 0"
    using assms(3) by (simp_all add: sink_install_def)
  have c: "collects al (heights kids) (frees_of (Owned q kids)) (drop_block al (\<lambda>_. drop_trees al kids) q)"
    using collects_block [OF collects_trees [OF collects_tree]] by simp
  have tt: "t\<lparr>th_sink := None\<rparr> = t" using assms(2) by (cases t) simp
  then have tt': "t\<lparr>th_sink := None, th_store := x\<rparr> = t\<lparr>th_store := x\<rparr>" for x by (cases t) simp
  show ?thesis
    using collectsD [OF c t(1,2)] assms tt
    by (auto simp: owned_drop_def wal_teardown_def sink_is_active_def block_shell_drop_def t(3) sink_install_def
        sink_take_def sink_clear_def on_store_def tt' split: prod.splits)
qed

end
