(* ===== verification/HashMap.thy ===== *)
theory HashMap
  imports Probing Teardown
begin

text \<open>
  \<^verbatim>\<open>BStackHashMap\<close> of \<^verbatim>\<open>src/stdlib/map.rs\<close>: every operation over the
  store, parameterised by the key size \<open>ksz\<close> (\<^verbatim>\<open>size_of::<K>()\<close>). A key is its
  bytes, a value block is the offset the bucket records, and the teardown of a value
  (\<^verbatim>\<open>V::bstack_drop\<close>) is a parameter. \<open>u64\<close> arithmetic wraps, as in a release
  build. Cells captured by the closures of \<^verbatim>\<open>insert\<close> are the record
  \<open>insert_cells\<close>.
\<close>

section \<open>Layout\<close>

definition TABLE_OFF :: u64 where "TABLE_OFF = HEADER_SIZE"
definition CAP_OFF :: u64 where "CAP_OFF = HEADER_SIZE + 8"
definition LEN_OFF :: u64 where "LEN_OFF = HEADER_SIZE + 16"
definition USED_OFF :: u64 where "USED_OFF = HEADER_SIZE + 24"
definition MAP_SIZE :: u64 where "MAP_SIZE = 48"
definition MIN_CAP :: u64 where "MIN_CAP = 4"
definition EMPTY :: u64 where "EMPTY = 0"
definition OCCUPIED :: u64 where "OCCUPIED = 1"
definition TOMBSTONE :: u64 where "TOMBSTONE = 2"

lemmas map_offsets = TABLE_OFF_def CAP_OFF_def LEN_OFF_def USED_OFF_def HEADER_SIZE_def

definition map_stride :: "nat \<Rightarrow> u64" where
  "map_stride ksz = 16 + of_nat ksz"

text \<open>The tag: the \<^verbatim>\<open>"Map"\<close> prefix mixed with the key size and the value's tag.\<close>

definition map_eightcc :: "nat \<Rightarrow> eightcc \<Rightarrow> eightcc" where
  "map_eightcc ksz vtag =
     eightcc_mix (eightcc_mix (EightCC [77, 97, 112, 0x80, 0x81, 0x82, 0x83, 0x84])
       (EightCC (to_le64 (of_nat ksz)))) vtag"

definition map_image :: "nat \<Rightarrow> eightcc \<Rightarrow> u8 list" where
  "map_image ksz vtag = to_le64 MAP_SIZE @ cc_bytes (map_eightcc ksz vtag)
     @ to_le64 0 @ to_le64 0 @ to_le64 0 @ to_le64 0"

definition map_new :: "'s stack_ops \<Rightarrow> nat \<Rightarrow> eightcc \<Rightarrow> 's \<Rightarrow> range res \<times> 's" where
  "map_new io ksz vtag s = alloc_image io (map_image ksz vtag) s"

definition map_len :: "'s stack_ops \<Rightarrow> u64 \<Rightarrow> 's \<Rightarrow> u64 res \<times> 's" where
  "map_len io handle s = read_u64 io (handle + LEN_OFF) s"

definition map_is_empty :: "'s stack_ops \<Rightarrow> u64 \<Rightarrow> 's \<Rightarrow> bool res \<times> 's" where
  "map_is_empty io handle s = try_s (map_len io handle s) (\<lambda>n s. (Inr (n = 0), s))"

section \<open>Insertion\<close>

definition new_bucket_writes ::
    "u64 \<Rightarrow> u64 \<Rightarrow> u8 list \<Rightarrow> u64 \<Rightarrow> meta \<Rightarrow> u64 \<Rightarrow> bool \<Rightarrow> writes res" where
  "new_bucket_writes handle stride key val m target slot_was_empty =
     try_r (checked_off_mul (m_table m) target stride) (\<lambda>off.
       Inr ([(off, to_le64 OCCUPIED @ key @ to_le64 val), w8 (handle + LEN_OFF) (m_len m + 1)]
         @ (if slot_was_empty then [w8 (handle + USED_OFF) (m_used m + 1)] else [])))"

record insert_cells =
  ic_tomb :: "u64 option"
  ic_new :: bool
  ic_grow :: bool
  ic_old :: u64

definition insert_cells_init :: insert_cells where
  "insert_cells_init = \<lparr>ic_tomb = None, ic_new = False, ic_grow = False, ic_old = 0\<rparr>"

definition insert_inspect ::
    "u64 \<Rightarrow> u64 \<Rightarrow> nat \<Rightarrow> u8 list \<Rightarrow> u64 \<Rightarrow> meta \<Rightarrow> u64 \<Rightarrow> u8 list \<Rightarrow> insert_cells \<Rightarrow> probe_step \<times> insert_cells" where
  "insert_inspect handle stride ksz key val m idx buf c =
     (let state = get_u64 (slice 0 8 buf) in
      if state = EMPTY then
        (Stop (new_bucket_writes handle stride key val m
           (case ic_tomb c of Some t \<Rightarrow> t | None \<Rightarrow> idx) (ic_tomb c = None)), c\<lparr>ic_new := True\<rparr>)
      else if state = OCCUPIED \<and> slice 8 ksz buf = key then
        (Stop (try_r (checked_off_mul (m_table m) idx stride) (\<lambda>b.
           try_r (checked_off b (8 + of_nat ksz)) (\<lambda>value_off. Inr [w8 value_off val]))),
         c\<lparr>ic_old := get_u64 (slice (8 + ksz) 8 buf), ic_new := False\<rparr>)
      else (Continue,
        if state = TOMBSTONE \<and> ic_tomb c = None then c\<lparr>ic_tomb := Some idx\<rparr> else c))"

definition insert_exhausted ::
    "u64 \<Rightarrow> u64 \<Rightarrow> u8 list \<Rightarrow> u64 \<Rightarrow> meta \<Rightarrow> insert_cells \<Rightarrow> writes res \<times> insert_cells" where
  "insert_exhausted handle stride key val m c =
     (case ic_tomb c of
        Some t \<Rightarrow> (new_bucket_writes handle stride key val m t False, c\<lparr>ic_new := True\<rparr>)
      | None \<Rightarrow> (Inr [], c\<lparr>ic_grow := True\<rparr>))"

definition map_grow :: "'s stack_ops \<Rightarrow> nat \<Rightarrow> u64 \<Rightarrow> 's \<Rightarrow> (unit res \<times> 's) option" where
  "map_grow io ksz handle s = grow_table io handle (map_stride ksz) ksz OCCUPIED MIN_CAP s"

text \<open>The retry loop with a bound on its iterations; \<open>None\<close> is a loop that has not ended.\<close>

fun map_insert_loop ::
    "nat \<Rightarrow> 's stack_ops \<Rightarrow> nat \<Rightarrow> u64 \<Rightarrow> u8 list \<Rightarrow> u64 \<Rightarrow> 's \<Rightarrow> (u64 option res \<times> 's) option" where
  "map_insert_loop 0 io ksz handle key val s = None"
| "map_insert_loop (Suc fuel) io ksz handle key val s =
     (case read_fields io 3 (handle + CAP_OFF) s of
        (Inl e, s1) \<Rightarrow> Some (Inl e, s1)
      | (Inr fs, s1) \<Rightarrow>
          if over_loaded (fs ! 0) (fs ! 2) then
            (case map_grow io ksz handle s1 of
               None \<Rightarrow> None
             | Some (Inl e, s2) \<Rightarrow> Some (Inl e, s2)
             | Some (Inr _, s2) \<Rightarrow> map_insert_loop fuel io ksz handle key val s2)
          else
            (case probe_commit io handle (map_stride ksz) (fnv1a key)
                    (insert_inspect handle (map_stride ksz) ksz key val)
                    (insert_exhausted handle (map_stride ksz) key val) insert_cells_init s1 of
               (Inl e, s2) \<Rightarrow> Some (Inl e, s2)
             | (Inr c, s2) \<Rightarrow>
                 if ic_grow c then
                   (case map_grow io ksz handle s2 of
                      None \<Rightarrow> None
                    | Some (Inl e, s3) \<Rightarrow> Some (Inl e, s3)
                    | Some (Inr _, s3) \<Rightarrow> map_insert_loop fuel io ksz handle key val s3)
                 else if ic_new c then Some (Inr None, s2)
                 else Some (Inr (Some (ic_old c)), s2)))"

definition map_insert ::
    "nat \<Rightarrow> 's stack_ops \<Rightarrow> nat \<Rightarrow> u64 \<Rightarrow> u8 list \<Rightarrow> u64 \<Rightarrow> 's \<Rightarrow> (((io_error \<times> u64) + u64 option) \<times> 's) option" where
  "map_insert fuel io ksz handle key val s =
     map_option (\<lambda>(r, s'). (finish_handback val r, s')) (map_insert_loop fuel io ksz handle key val s)"

section \<open>Removal and lookup\<close>

definition remove_inspect ::
    "u64 \<Rightarrow> u64 \<Rightarrow> nat \<Rightarrow> u8 list \<Rightarrow> meta \<Rightarrow> u64 \<Rightarrow> u8 list \<Rightarrow> u64 option \<Rightarrow> probe_step \<times> u64 option" where
  "remove_inspect handle stride ksz key m idx buf c =
     (let state = get_u64 (slice 0 8 buf) in
      if state = EMPTY then (Stop (Inr []), c)
      else if state = OCCUPIED \<and> slice 8 ksz buf = key then
        (Stop (try_r (checked_off_mul (m_table m) idx stride) (\<lambda>off.
           Inr [w8 off TOMBSTONE, w8 (handle + LEN_OFF) (m_len m - 1)])),
         Some (get_u64 (slice (8 + ksz) 8 buf)))
      else (Continue, c))"

definition map_remove ::
    "'s stack_ops \<Rightarrow> nat \<Rightarrow> u64 \<Rightarrow> u8 list \<Rightarrow> 's \<Rightarrow> u64 option res \<times> 's" where
  "map_remove io ksz handle key s =
     probe_commit io handle (map_stride ksz) (fnv1a key)
       (remove_inspect handle (map_stride ksz) ksz key) (\<lambda>m c. (Inr [], c)) None s"

fun get_loop ::
    "nat \<Rightarrow> 's stack_ops \<Rightarrow> nat \<Rightarrow> u8 list \<Rightarrow> u64 \<Rightarrow> u64 \<Rightarrow> u64 \<Rightarrow> 's \<Rightarrow> u64 option res \<times> 's" where
  "get_loop 0 io ksz key table msk idx s = (Inr None, s)"
| "get_loop (Suc n) io ksz key table msk idx s =
     try_in (checked_off_mul table idx (map_stride ksz)) s (\<lambda>bucket.
     try_s (op_read io bucket (unat (map_stride ksz)) s) (\<lambda>buf s1.
       let state = get_u64 (slice 0 8 buf) in
       if state = EMPTY then (Inr None, s1)
       else if state = OCCUPIED \<and> slice 8 ksz buf = key
         then (Inr (Some (get_u64 (slice (8 + ksz) 8 buf))), s1)
       else get_loop n io ksz key table msk ((idx + 1) AND msk) s1))"

definition map_get :: "'s stack_ops \<Rightarrow> nat \<Rightarrow> u64 \<Rightarrow> u8 list \<Rightarrow> 's \<Rightarrow> u64 option res \<times> 's" where
  "map_get io ksz handle key s =
     try_s (read_fields io 2 (handle + TABLE_OFF) s) (\<lambda>fs s1.
       let table = fs ! 0; cap = fs ! 1 in
       if cap = 0 then (Inr None, s1)
       else get_loop (unat cap) io ksz key table (cap - 1) (fnv1a key AND (cap - 1)) s1)"

definition map_contains_key :: "'s stack_ops \<Rightarrow> nat \<Rightarrow> u64 \<Rightarrow> u8 list \<Rightarrow> 's \<Rightarrow> bool res \<times> 's" where
  "map_contains_key io ksz handle key s =
     try_s (map_get io ksz handle key s) (\<lambda>v s1. (Inr (v \<noteq> None), s1))"

section \<open>The fused entry operations\<close>

text \<open>\<open>drop_value\<close> frees a value block and \<open>mk\<close> produces one; \<^verbatim>\<open>discard_freeing\<close>
  frees the value that a failed insertion hands back.\<close>

definition insert_absent ::
    "nat \<Rightarrow> 's stack_ops \<Rightarrow> nat \<Rightarrow> (u64 \<Rightarrow> 's \<Rightarrow> unit res \<times> 's) \<Rightarrow> u64 \<Rightarrow> u8 list \<Rightarrow> u64 \<Rightarrow> 's
      \<Rightarrow> ((u64 \<times> bool) res \<times> 's) option" where
  "insert_absent fuel io ksz drop_value handle key val s =
     (case map_insert fuel io ksz handle key val s of
        None \<Rightarrow> None
      | Some (Inl (e, v), s1) \<Rightarrow> Some (Inl e, snd (drop_value v s1))
      | Some (Inr None, s1) \<Rightarrow> Some (Inr (val, True), s1)
      | Some (Inr (Some old), s1) \<Rightarrow> Some (try_s (drop_value old s1) (\<lambda>_ s2. (Inr (val, True), s2))))"

definition map_get_or_insert_with ::
    "nat \<Rightarrow> 's stack_ops \<Rightarrow> nat \<Rightarrow> (u64 \<Rightarrow> 's \<Rightarrow> unit res \<times> 's) \<Rightarrow> u64 \<Rightarrow> u8 list
      \<Rightarrow> ('s \<Rightarrow> u64 res \<times> 's) \<Rightarrow> 's \<Rightarrow> ((u64 \<times> bool) res \<times> 's) option" where
  "map_get_or_insert_with fuel io ksz drop_value handle key mk s =
     (case map_get io ksz handle key s of
        (Inl e, s1) \<Rightarrow> Some (Inl e, s1)
      | (Inr (Some v), s1) \<Rightarrow> Some (Inr (v, False), s1)
      | (Inr None, s1) \<Rightarrow>
          (case mk s1 of
             (Inl e, s2) \<Rightarrow> Some (Inl e, s2)
           | (Inr val, s2) \<Rightarrow> insert_absent fuel io ksz drop_value handle key val s2))"

definition map_get_or_insert ::
    "nat \<Rightarrow> 's stack_ops \<Rightarrow> nat \<Rightarrow> (u64 \<Rightarrow> 's \<Rightarrow> unit res \<times> 's) \<Rightarrow> u64 \<Rightarrow> u8 list \<Rightarrow> u64 \<Rightarrow> 's
      \<Rightarrow> ((u64 \<times> bool) res \<times> 's) option" where
  "map_get_or_insert fuel io ksz drop_value handle key dflt s =
     (case map_get io ksz handle key s of
        (Inl e, s1) \<Rightarrow> Some (Inl e, s1)
      | (Inr (Some v), s1) \<Rightarrow> Some (try_s (drop_value dflt s1) (\<lambda>_ s2. (Inr (v, False), s2)))
      | (Inr None, s1) \<Rightarrow> insert_absent fuel io ksz drop_value handle key dflt s1)"

section \<open>Iteration\<close>

record map_iter =
  it_block :: u64
  it_table :: u64
  it_cap :: u64
  it_len :: u64
  it_idx :: u64

definition map_iter_new :: "'s stack_ops \<Rightarrow> u64 \<Rightarrow> 's \<Rightarrow> map_iter res \<times> 's" where
  "map_iter_new io handle s =
     try_s (read_fields io 3 (handle + TABLE_OFF) s) (\<lambda>fs s1.
       (Inr \<lparr>it_block = handle, it_table = fs ! 0, it_cap = fs ! 1, it_len = fs ! 2, it_idx = 0\<rparr>, s1))"

definition iter_mutated :: io_error where
  "iter_mutated = IoError InvalidData ''BStackHashMap was mutated during iteration (its table/len changed); the iterator is invalidated''"

fun iter_scan ::
    "nat \<Rightarrow> 's stack_ops \<Rightarrow> nat \<Rightarrow> map_iter \<Rightarrow> 's \<Rightarrow> (u8 list \<times> u64) res option \<times> map_iter \<times> 's" where
  "iter_scan 0 io ksz it s = (None, it, s)"
| "iter_scan (Suc n) io ksz it s =
     (let it' = it\<lparr>it_idx := it_idx it + 1\<rparr> in
      case checked_off_mul (it_table it) (it_idx it) (map_stride ksz) of
        Inl e \<Rightarrow> (Some (Inl e), it\<lparr>it_idx := it_cap it\<rparr>, s)
      | Inr bucket \<Rightarrow>
          (case op_read io bucket (unat (map_stride ksz)) s of
             (Inl e, s1) \<Rightarrow> (Some (Inl e), it\<lparr>it_idx := it_cap it\<rparr>, s1)
           | (Inr buf, s1) \<Rightarrow>
               if get_u64 (slice 0 8 buf) = OCCUPIED
               then (Some (Inr (slice 8 ksz buf, get_u64 (slice (8 + ksz) 8 buf))), it', s1)
               else iter_scan n io ksz it' s1))"

definition map_iter_next ::
    "'s stack_ops \<Rightarrow> nat \<Rightarrow> map_iter \<Rightarrow> 's \<Rightarrow> (u8 list \<times> u64) res option \<times> map_iter \<times> 's" where
  "map_iter_next io ksz it s =
     (if it_idx it < it_cap it then
        (case read_fields io 3 (it_block it + TABLE_OFF) s of
           (Inl e, s1) \<Rightarrow> (Some (Inl e), it\<lparr>it_idx := it_cap it\<rparr>, s1)
         | (Inr fs, s1) \<Rightarrow>
             if fs ! 0 = it_table it \<and> fs ! 1 = it_cap it \<and> fs ! 2 = it_len it
             then iter_scan (unat (it_cap it) - unat (it_idx it)) io ksz it s1
             else (Some (Inl iter_mutated), it\<lparr>it_idx := it_cap it\<rparr>, s1))
      else (None, it, s))"

section \<open>Teardown\<close>

definition map_capacity_overflow :: io_error where
  "map_capacity_overflow = IoError InvalidData ''hash map capacity overflow''"

definition map_block_too_large :: io_error where
  "map_block_too_large = IoError InvalidData ''hash map bucket block larger than the stack''"

fun drop_values ::
    "nat \<Rightarrow> (u64 \<Rightarrow> 's \<Rightarrow> unit res \<times> 's) \<Rightarrow> nat \<Rightarrow> u8 list \<Rightarrow> nat \<Rightarrow> 's \<Rightarrow> unit res \<times> 's" where
  "drop_values 0 drop_value ksz img j s = (Inr (), s)"
| "drop_values (Suc n) drop_value ksz img j s =
     (let lo = j * unat (map_stride ksz); vref = get_u64 (slice (lo + 8 + ksz) 8 img) in
      if get_u64 (slice lo 8 img) = OCCUPIED \<and> vref \<noteq> 0
      then try_s (drop_value vref s) (\<lambda>_ s1. drop_values n drop_value ksz img (Suc j) s1)
      else drop_values n drop_value ksz img (Suc j) s)"

text \<open>\<open>stack_len\<close> is the allocator's length query.\<close>

definition map_drop_children ::
    "'s allocator \<Rightarrow> ('s \<Rightarrow> u64 res \<times> 's) \<Rightarrow> nat \<Rightarrow> (u64 \<Rightarrow> 's thread \<Rightarrow> unit res \<times> 's thread) \<Rightarrow> 's dropper" where
  "map_drop_children al stack_len ksz drop_value q t =
     try_s (on_store (read_fields (al_io al) 2 (fst q + TABLE_OFF)) t) (\<lambda>fs t1.
       let table = fs ! 0; cap = fs ! 1 in
       if table = 0 then (Inr (), t1)
       else try_in (ok_or map_capacity_overflow (checked_mul64 cap (map_stride ksz))) t1 (\<lambda>table_size.
         try_s (on_store stack_len t1) (\<lambda>len t2.
           if table_size > len then (Inl map_block_too_large, t2)
           else try_s (on_store (op_read (al_io al) table (unat table_size)) t2) (\<lambda>img t3.
             try_s (drop_values (unat cap) drop_value ksz img 0 t3) (\<lambda>_ t4.
               dealloc_range al (table, table_size) t4)))))"

end
