(* ===== verification/TableOps.thy ===== *)
theory TableOps
  imports Blocks
begin

text \<open>
  The open-addressing table on disk: how a bucket block stands for an abstract table, the
  invariant that ties the metadata words to it, and the facts both collections share: a probe
  inside the store computes the same as a probe over the bytes (\<open>probe_loop_pure\<close>), and
  growing (\<open>grow_table\<close>) returns, keeps the map and makes room.
\<close>

section \<open>Masks\<close>

lemma unat_and_mask:
  assumes "unat (cap :: u64) = 2 ^ k"
  shows "unat (x AND (cap - 1)) = unat x mod 2 ^ k"
proof -
  have k: "k < 64"
  proof (rule ccontr)
    assume "\<not> k < 64"
    then have "(2 :: nat) ^ 64 \<le> 2 ^ k" by (intro power_increasing) auto
    with assms unat_u64_bound [of cap] show False by simp
  qed
  have "cap = of_nat (2 ^ k)"
    unfolding assms [symmetric] by simp
  then have "cap = 2 ^ k" by simp
  then have "x AND (cap - 1) = take_bit k x"
    by (simp add: take_bit_eq_mask mask_eq_exp_minus_1)
  then show ?thesis by (simp only: unsigned_take_bit_eq take_bit_eq_mod [of k "unat x"])
qed

lemma unat_step_mask:
  assumes "unat (cap :: u64) = 2 ^ k" and "unat cur < 2 ^ k"
  shows "unat ((cur + 1) AND (cap - 1)) = Suc (unat cur) mod 2 ^ k"
proof -
  have "Suc (unat cur) < u64_limit" using assms unat_u64_bound [of cap] by linarith
  then have "unat (cur + 1) = Suc (unat cur)" by (simp add: unat_plus_u64)
  with unat_and_mask [OF assms(1)] show ?thesis by simp
qed

section \<open>Tables in bytes\<close>

definition decode_bucket :: "nat \<Rightarrow> u8 list \<Rightarrow> (u8 list, u8 list) bucket" where
  "decode_bucket ksz buf =
     (if get_u64 buf = 0 then Empty
      else if get_u64 buf = 1 then Occupied (slice 8 ksz buf) (drop (8 + ksz) buf)
      else Tombstone)"

definition bucket_state_ok :: "u8 list \<Rightarrow> bool" where
  "bucket_state_ok buf \<longleftrightarrow> get_u64 buf = 0 \<or> get_u64 buf = 1 \<or> get_u64 buf = 2"

definition table_of :: "nat \<Rightarrow> nat \<Rightarrow> nat \<Rightarrow> nat \<Rightarrow> u8 list \<Rightarrow> (u8 list, u8 list) bucket list" where
  "table_of stride ksz cap base b = map (\<lambda>j. decode_bucket ksz (slice (base + j * stride) stride b)) [0..<cap]"

lemma length_table_of [simp]: "length (table_of stride ksz cap base b) = cap"
  by (simp add: table_of_def)

lemma nth_table_of:
  "j < cap \<Longrightarrow> table_of stride ksz cap base b ! j = decode_bucket ksz (slice (base + j * stride) stride b)"
  by (simp add: table_of_def)

definition key_hash :: "u8 list \<Rightarrow> nat" where
  "key_hash k = unat (fnv1a k)"

definition meta_at :: "u64 \<Rightarrow> u8 list \<Rightarrow> meta" where
  "meta_at handle b = parse_meta (slice (unat handle + 16) 32 b)"

definition meta_table :: "u64 \<Rightarrow> nat \<Rightarrow> meta \<Rightarrow> u8 list \<Rightarrow> (u8 list, u8 list) bucket list" where
  "meta_table stride ksz m b = table_of (unat stride) ksz (unat (m_cap m)) (unat (m_table m)) b"

text \<open>The invariant of a table with buckets.\<close>

definition table_ok :: "u64 \<Rightarrow> nat \<Rightarrow> meta \<Rightarrow> u8 list \<Rightarrow> bool" where
  "table_ok stride ksz m b \<longleftrightarrow>
     (\<exists>k \<ge> 2. unat (m_cap m) = 2 ^ k)
     \<and> unat (m_table m) + unat (m_cap m) * unat stride \<le> length b
     \<and> (\<forall>j < unat (m_cap m). bucket_state_ok (slice (unat (m_table m) + j * unat stride) (unat stride) b))
     \<and> wf_table key_hash (meta_table stride ksz m b)
     \<and> unat (m_len m) = live_count (meta_table stride ksz m b)
     \<and> unat (m_used m) = used_count (meta_table stride ksz m b)
     \<and> 4 * unat (m_used m) \<le> 3 * unat (m_cap m)"

text \<open>The handle block \<open>[handle, handle + 48)\<close> lies in the live allocation \<open>H\<close>; a bucket block
  is a live allocation of its own.\<close>

definition table_range :: "u64 \<Rightarrow> meta \<Rightarrow> range" where
  "table_range stride m = (m_table m, m_cap m * stride)"

definition tbl_inv :: "'s stack_view \<Rightarrow> u64 \<Rightarrow> nat \<Rightarrow> u64 \<Rightarrow> range \<Rightarrow> 's \<Rightarrow> bool" where
  "tbl_inv vw stride ksz handle H s \<longleftrightarrow>
     v_good vw s \<and> H \<in> v_live vw s \<and> inside (unat handle) 48 H \<and> 8 + ksz \<le> unat stride
     \<and> (let m = meta_at handle (v_bytes vw s) in
        if m_cap m = 0 then m_len m = 0 \<and> m_used m = 0
        else table_range stride m \<in> v_live vw s \<and> table_range stride m \<noteq> H
          \<and> table_ok stride ksz m (v_bytes vw s))"

definition tbl_abs :: "'s stack_view \<Rightarrow> u64 \<Rightarrow> nat \<Rightarrow> u64 \<Rightarrow> 's \<Rightarrow> u8 list \<rightharpoonup> u8 list" where
  "tbl_abs vw stride ksz handle s =
     table_map (meta_table stride ksz (meta_at handle (v_bytes vw s)) (v_bytes vw s))"

section \<open>A probe over bytes\<close>

fun pure_probe ::
    "nat \<Rightarrow> meta \<Rightarrow> u64 \<Rightarrow> u64 \<Rightarrow> (meta \<Rightarrow> u64 \<Rightarrow> u8 list \<Rightarrow> 'c \<Rightarrow> probe_step \<times> 'c)
      \<Rightarrow> (meta \<Rightarrow> 'c \<Rightarrow> writes res \<times> 'c) \<Rightarrow> u8 list \<Rightarrow> u64 \<Rightarrow> 'c \<Rightarrow> (writes \<times> 'c) res" where
  "pure_probe 0 m stride msk inspect exhausted b cur c =
     (case exhausted m c of (ws, c') \<Rightarrow> try_r ws (\<lambda>ws. Inr (ws, c')))"
| "pure_probe (Suc n) m stride msk inspect exhausted b cur c =
     (case inspect m cur (slice (unat (m_table m) + unat cur * unat stride) (unat stride) b) c of
        (Stop ws, c') \<Rightarrow> try_r ws (\<lambda>ws. Inr (ws, c'))
      | (Continue, c') \<Rightarrow> pure_probe n m stride msk inspect exhausted b ((cur + 1) AND msk) c')"

lemma try_in_Inr_state: "try_in ws s (\<lambda>w. (Inr (f w), s)) = (try_r ws (\<lambda>w. Inr (f w)), s)"
  by (cases ws) simp_all

lemma bucket_in_block:
  assumes "j < cap" and "base + cap * st \<le> n"
  shows "base + j * st + st \<le> (n :: nat)"
proof -
  have "Suc j * st \<le> cap * st" using assms(1) by (intro mult_right_mono) auto
  with assms(2) show ?thesis by simp
qed

context stack_laws
begin

lemma bucket_offset:
  assumes "v_good vw s" and "unat base + cap * unat stride \<le> length (v_bytes vw s)" and "unat i < cap"
  shows "checked_off_mul base i stride = Inr (base + i * stride)"
    and "unat (base + i * stride) = unat base + unat i * unat stride"
proof -
  have "unat base + unat i * unat stride + unat stride \<le> length (v_bytes vw s)"
    using assms(3,2) by (rule bucket_in_block)
  then have "unat base + unat i * unat stride < u64_limit"
    using good_store [OF assms(1)] by simp
  then show "checked_off_mul base i stride = Inr (base + i * stride)"
    by (rule checked_off_mul_ok)
  then show "unat (base + i * stride) = unat base + unat i * unat stride"
    by (rule checked_off_mul_unat)
qed

lemma probe_loop_pure:
  assumes "v_good vw s" and "unat (m_cap m) = 2 ^ k" and "unat cur < 2 ^ k"
    and "unat (m_table m) + unat (m_cap m) * unat stride \<le> length (v_bytes vw s)"
    and "probe_loop n io m stride (m_cap m - 1) inspect exhausted cur c s = (r, s')"
  shows "unchanged vw s s' \<and> ((\<exists>e. r = Inl e)
        \<or> r = pure_probe n m stride (m_cap m - 1) inspect exhausted (v_bytes vw s) cur c)
     \<and> (v_calm vw s \<longrightarrow> v_calm vw s'
        \<and> r = pure_probe n m stride (m_cap m - 1) inspect exhausted (v_bytes vw s) cur c)"
  using assms
proof (induction n arbitrary: s cur c)
  case 0
  then show ?case
    by (auto simp: unchanged_def try_in_Inr_state split: prod.splits)
next
  case (Suc n)
  let ?off = "m_table m + cur * stride"
  have cur: "unat cur < unat (m_cap m)" using Suc.prems(2,3) by simp
  note off = bucket_offset [OF Suc.prems(1,4) cur]
  have len: "unat ?off + unat stride \<le> length (v_bytes vw s)"
    using bucket_in_block [OF cur Suc.prems(4)] off(2) by simp
  obtain rb s1 where rd: "op_read io ?off (unat stride) s = (rb, s1)" by (cases "op_read io ?off (unat stride) s")
  note u1 = read_bytes [OF Suc.prems(1) rd]
  have calm: "v_calm vw s \<Longrightarrow> (\<exists>b. rb = Inr b) \<and> v_calm vw s1"
    using calm_read [OF Suc.prems(1) _ len] rd by auto
  show ?case
  proof (cases rb)
    case (Inl e)
    with Suc.prems(5) rd off(1) have "r = Inl e" "s' = s1" by auto
    with u1(1) calm Inl show ?thesis by auto
  next
    case (Inr b)
    have b: "b = slice (unat (m_table m) + unat cur * unat stride) (unat stride) (v_bytes vw s)"
      using u1(2) [OF Inr] off(2) by simp
    obtain step c' where ins: "inspect m cur b c = (step, c')" by (cases "inspect m cur b c")
    show ?thesis
    proof (cases step)
      case (Stop ws)
      with Suc.prems(5) rd Inr off(1) ins have "s' = s1" "r = try_r ws (\<lambda>ws. Inr (ws, c'))"
        by (auto simp: try_in_Inr_state)
      with Stop ins b u1(1) calm show ?thesis by auto
    next
      case Continue
      have run: "probe_loop n io m stride (m_cap m - 1) inspect exhausted ((cur + 1) AND (m_cap m - 1)) c' s1 = (r, s')"
        using Suc.prems(5) rd Inr off(1) ins Continue by simp
      have g1: "v_good vw s1" and b1: "v_bytes vw s1 = v_bytes vw s"
        using u1(1) by (simp_all add: unchanged_def)
      have nxt: "unat ((cur + 1) AND (m_cap m - 1)) < 2 ^ k"
        using unat_step_mask [OF Suc.prems(2,3)] by simp
      have "unchanged vw s1 s' \<and> ((\<exists>e. r = Inl e)
          \<or> r = pure_probe n m stride (m_cap m - 1) inspect exhausted (v_bytes vw s1) ((cur + 1) AND (m_cap m - 1)) c')
        \<and> (v_calm vw s1 \<longrightarrow> v_calm vw s'
          \<and> r = pure_probe n m stride (m_cap m - 1) inspect exhausted (v_bytes vw s1) ((cur + 1) AND (m_cap m - 1)) c')"
        using Suc.prems(4) b1 by (intro Suc.IH [OF g1 Suc.prems(2) nxt _ run]) simp
      moreover have "pure_probe (Suc n) m stride (m_cap m - 1) inspect exhausted (v_bytes vw s) cur c
          = pure_probe n m stride (m_cap m - 1) inspect exhausted (v_bytes vw s) ((cur + 1) AND (m_cap m - 1)) c'"
        using ins Continue b by simp
      ultimately show ?thesis
        using unchanged_trans [OF u1(1)] calm by (auto simp: b1)
    qed
  qed
qed

end

section \<open>Writes to a table\<close>

text \<open>Where the handle block and the bucket block stand: within the payload and apart.\<close>

definition geom :: "nat \<Rightarrow> nat \<Rightarrow> nat \<Rightarrow> nat \<Rightarrow> u8 list \<Rightarrow> bool" where
  "geom h base cap st b \<longleftrightarrow> h + 48 \<le> length b \<and> base + cap * st \<le> length b
     \<and> (h + 48 \<le> base \<or> base + cap * st \<le> h)"

lemma get_u64_take [simp]: "get_u64 (take 8 b) = get_u64 b"
  by (simp add: get_u64_def)

lemma get_u64_slice8 [simp]: "get_u64 (slice a 8 b) = from_le64 (slice a 8 b)"
  by (simp add: get_u64_def slice_def)

lemma meta_at_fields:
  "meta_at h b = \<lparr>m_table = from_le64 (slice (unat h + 16) 8 b), m_cap = from_le64 (slice (unat h + 24) 8 b),
     m_len = from_le64 (slice (unat h + 32) 8 b), m_used = from_le64 (slice (unat h + 40) 8 b)\<rparr>"
  by (simp add: meta_at_def parse_meta_def slice_slice add.assoc del: slice_0)

lemma meta_at_cong:
  assumes "slice (unat h + 16) 32 b' = slice (unat h + 16) 32 b"
  shows "meta_at h b' = meta_at h b"
  using assms by (simp add: meta_at_def)

lemma meta_at_len:
  assumes "unat h + 48 \<le> length b"
  shows "meta_at h (overwrite (unat h + 32) (to_le64 v) b) = (meta_at h b)\<lparr>m_len := v\<rparr>"
  using assms by (simp add: meta_at_fields slice_overwrite_same slice_overwrite_disjoint)

lemma meta_at_used:
  assumes "unat h + 48 \<le> length b"
  shows "meta_at h (overwrite (unat h + 40) (to_le64 v) b) = (meta_at h b)\<lparr>m_used := v\<rparr>"
  using assms by (simp add: meta_at_fields slice_overwrite_same slice_overwrite_disjoint)

lemma table_of_cong:
  assumes "\<And>j. j < cap \<Longrightarrow> slice (base + j * st) st b' = slice (base + j * st) st b"
  shows "table_of st ksz cap base b' = table_of st ksz cap base b"
  using assms by (simp add: table_of_def)

text \<open>A metadata word does not touch the buckets.\<close>

lemma bucket_meta_write:
  assumes g: "geom h base cap st b" and d: "length d = 8" and o: "16 \<le> w" "w + 8 \<le> 48" and j: "j < cap"
  shows "slice (base + j * st) st (overwrite (h + w) d b) = slice (base + j * st) st b"
proof -
  have "base + j * st + st \<le> base + cap * st" using j by (rule bucket_in_block) simp
  with g d o show ?thesis
    by (intro slice_overwrite_disjoint) (auto simp: geom_def)
qed

lemma geom_overwrite:
  "geom h base cap st b \<Longrightarrow> a + length d \<le> length b \<Longrightarrow> geom h base cap st (overwrite a d b)"
  by (simp add: geom_def)

lemma geom_counter:
  "geom h base cap st b \<Longrightarrow> w + 8 \<le> 48 \<Longrightarrow> geom h base cap st (overwrite (h + w) (to_le64 v) b)"
  by (simp add: geom_def)

text \<open>A write inside bucket \<open>i\<close> changes that bucket alone, and no metadata.\<close>

lemma geom_block: "geom h base cap st b \<Longrightarrow> base + cap * st \<le> length b"
  by (simp add: geom_def)

lemma bucket_write_other:
  assumes g: "base + cap * st \<le> length b" and i: "i < cap" and o: "w + length d \<le> st" and j: "j < cap"
  shows "slice (base + j * st) st (overwrite (base + i * st + w) d b) =
    (if j = i then overwrite w d (slice (base + i * st) st b) else slice (base + j * st) st b)"
proof -
  have bi: "base + i * st + st \<le> length b" and bj: "base + j * st + st \<le> length b"
    using g i j by (auto intro: bucket_in_block)
  show ?thesis
  proof (cases "j = i")
    case True
    have "slice (base + i * st) st (overwrite (base + i * st + w) d b)
        = overwrite (base + i * st + w - (base + i * st)) d (slice (base + i * st) st b)"
      using bi o by (intro slice_overwrite_around) auto
    with True show ?thesis by simp
  next
    case False
    have "j * st + st \<le> i * st \<or> i * st + st \<le> j * st"
    proof (cases "j < i")
      case True
      then have "Suc j * st \<le> i * st" by (intro mult_right_mono) auto
      then show ?thesis by simp
    next
      case False
      then have "Suc i * st \<le> j * st" using \<open>j \<noteq> i\<close> by (intro mult_right_mono) auto
      then show ?thesis by simp
    qed
    with False bi bj o show ?thesis by (auto intro: slice_overwrite_disjoint)
  qed
qed

lemma bucket_write_meta:
  assumes g: "geom (unat h) base cap st b" and i: "i < cap" and o: "w + length d \<le> st"
  shows "meta_at h (overwrite (base + i * st + w) d b) = meta_at h b"
proof -
  have "base + i * st + st \<le> base + cap * st" using i by (rule bucket_in_block) simp
  with g o show ?thesis
    by (intro meta_at_cong slice_overwrite_disjoint) (auto simp: geom_def)
qed

lemma bucket_write_table:
  assumes g: "base + cap * st \<le> length b" and i: "i < cap" and o: "w + length d \<le> st"
  shows "table_of st ksz cap base (overwrite (base + i * st + w) d b) =
    (table_of st ksz cap base b)[i := decode_bucket ksz (overwrite w d (slice (base + i * st) st b))]"
  using bucket_write_other [OF g i o] i
  by (intro nth_equalityI) (simp_all add: nth_table_of nth_list_update)

text \<open>The effect of a batch on the metadata and on the abstract table.\<close>

definition states_ok :: "u64 \<Rightarrow> meta \<Rightarrow> u8 list \<Rightarrow> bool" where
  "states_ok stride m b \<longleftrightarrow>
     (\<forall>j < unat (m_cap m). bucket_state_ok (slice (unat (m_table m) + j * unat stride) (unat stride) b))"

definition batch_effect ::
    "u64 \<Rightarrow> nat \<Rightarrow> u64 \<Rightarrow> meta \<Rightarrow> (u8 list, u8 list) bucket list \<Rightarrow> u8 list \<Rightarrow> meta
      \<Rightarrow> (u8 list, u8 list) bucket list \<Rightarrow> u8 list \<Rightarrow> bool" where
  "batch_effect stride ksz h m T b m' T' b' \<longleftrightarrow>
     length b' = length b \<and> meta_at h b' = m' \<and> meta_table stride ksz m b' = T' \<and> states_ok stride m b'"

abbreviation meta_geom :: "u64 \<Rightarrow> u64 \<Rightarrow> meta \<Rightarrow> u8 list \<Rightarrow> bool" where
  "meta_geom stride h m b \<equiv> geom (unat h) (unat (m_table m)) (unat (m_cap m)) (unat stride) b"

lemma effect_bucket:
  assumes "meta_geom stride h m b" and "states_ok stride m b" and "meta_at h b = m'"
    and "i < unat (m_cap m)" and "w + length d \<le> unat stride"
    and "bucket_state_ok (overwrite w d (slice (unat (m_table m) + i * unat stride) (unat stride) b))"
  shows "batch_effect stride ksz h m (meta_table stride ksz m b) b m'
     ((meta_table stride ksz m b)[i := decode_bucket ksz
        (overwrite w d (slice (unat (m_table m) + i * unat stride) (unat stride) b))])
     (overwrite (unat (m_table m) + i * unat stride + w) d b)"
proof -
  have "unat (m_table m) + i * unat stride + unat stride \<le> length b"
    using assms(1,4) by (auto simp: geom_def intro: bucket_in_block)
  with assms bucket_write_other [OF geom_block [OF assms(1)] assms(4,5)] show ?thesis
    by (simp add: batch_effect_def bucket_write_meta bucket_write_table geom_block meta_table_def states_ok_def)
qed

lemma effect_counter:
  assumes "meta_geom stride h m b" and "batch_effect stride ksz h m T b0 m1 T1 b"
  shows "batch_effect stride ksz h m T b0 (m1\<lparr>m_len := v\<rparr>) T1 (overwrite (unat h + 32) (to_le64 v) b)"
    and "batch_effect stride ksz h m T b0 (m1\<lparr>m_used := v\<rparr>) T1 (overwrite (unat h + 40) (to_le64 v) b)"
proof -
  have h: "unat h + 48 \<le> length b" using assms(1) by (simp add: geom_def)
  have same: "slice (unat (m_table m) + j * unat stride) (unat stride) (overwrite (unat h + w) (to_le64 v) b)
      = slice (unat (m_table m) + j * unat stride) (unat stride) b"
    if "j < unat (m_cap m)" "w = 32 \<or> w = 40" for j w
    using bucket_meta_write [OF assms(1), of "to_le64 v" w j] that by auto
  then have "table_of (unat stride) ksz (unat (m_cap m)) (unat (m_table m)) (overwrite (unat h + w) (to_le64 v) b)
      = table_of (unat stride) ksz (unat (m_cap m)) (unat (m_table m)) b" if "w = 32 \<or> w = 40" for w
    using that by (intro table_of_cong) blast
  with same h assms(2) show
    "batch_effect stride ksz h m T b0 (m1\<lparr>m_len := v\<rparr>) T1 (overwrite (unat h + 32) (to_le64 v) b)"
    "batch_effect stride ksz h m T b0 (m1\<lparr>m_used := v\<rparr>) T1 (overwrite (unat h + 40) (to_le64 v) b)"
    by (auto simp: batch_effect_def states_ok_def meta_table_def meta_at_len meta_at_used)
qed

section \<open>The invariant\<close>

context stack_laws
begin

lemma inv_geom:
  assumes "tbl_inv vw stride ksz handle H s" and "m = meta_at handle (v_bytes vw s)" and "m_cap m \<noteq> 0"
  shows "geom (unat handle) (unat (m_table m)) (unat (m_cap m)) (unat stride) (v_bytes vw s)"
proof -
  have g: "v_good vw s" and H: "H \<in> v_live vw s" "inside (unat handle) 48 H"
    and T: "table_range stride m \<in> v_live vw s" "table_range stride m \<noteq> H"
    and ok: "table_ok stride ksz m (v_bytes vw s)"
    using assms by (auto simp: tbl_inv_def Let_def)
  have re: "range_end H \<le> length (v_bytes vw s)" using good_live [OF g H(1)] by simp
  have tb: "unat (m_table m) + unat (m_cap m) * unat stride \<le> length (v_bytes vw s)"
    using ok by (simp add: table_ok_def)
  then have "unat (m_cap m) * unat stride < u64_limit" using good_store [OF g] by simp
  then have "unat (m_cap m * stride) = unat (m_cap m) * unat stride" by (rule unat_mult_u64)
  then have "apart H (m_table m, m_cap m * stride)"
      "range_end (m_table m, m_cap m * stride) = unat (m_table m) + unat (m_cap m) * unat stride"
    using good_apart [OF g H(1) T(1)] T(2) by (auto simp: range_end_def table_range_def)
  with inside_apart [OF H(2), of "(m_table m, m_cap m * stride)"] re tb H(2) show ?thesis
    by (auto simp: geom_def inside_def)
qed

lemma inv_handle:
  assumes "tbl_inv vw stride ksz handle H s"
  shows "unat handle + 48 \<le> length (v_bytes vw s)" and "length (v_bytes vw s) < 2 ^ 63"
    and "v_good vw s"
  using assms good_live [of s H] good_store [of s] by (auto simp: tbl_inv_def inside_def Let_def)

lemma handle_off:
  assumes "tbl_inv vw stride ksz handle H s" and "unat w \<le> 48"
  shows "unat (handle + w) = unat handle + unat w"
  using inv_handle [OF assms(1)] assms(2) by (intro unat_plus_u64) simp

text \<open>An operation that changes only the counters and one bucket keeps the invariant when the
  abstract table it leaves is well formed and counted.\<close>

lemma inv_update:
  assumes inv: "tbl_inv vw stride ksz handle H s" and m: "m = meta_at handle (v_bytes vw s)" "m_cap m \<noteq> 0"
    and w: "written vw s b' s'"
    and eff: "batch_effect stride ksz handle m T (v_bytes vw s) (m\<lparr>m_len := l, m_used := u\<rparr>) T' b'"
    and wf: "wf_table key_hash T'" and cnt: "unat l = live_count T'" "unat u = used_count T'"
    and lf: "4 * unat u \<le> 3 * unat (m_cap m)"
  shows "tbl_inv vw stride ksz handle H s'" and "tbl_abs vw stride ksz handle s' = table_map T'"
proof -
  have len: "length b' = length (v_bytes vw s)" and m': "meta_at handle b' = m\<lparr>m_len := l, m_used := u\<rparr>"
    and T': "meta_table stride ksz m b' = T'"
    and st: "\<forall>j < unat (m_cap m). bucket_state_ok (slice (unat (m_table m) + j * unat stride) (unat stride) b')"
    using eff by (simp_all add: batch_effect_def states_ok_def)
  have mt: "meta_table stride ksz (m\<lparr>m_len := l, m_used := u\<rparr>) b' = T'"
    using T' by (simp add: meta_table_def)
  show "tbl_inv vw stride ksz handle H s'"
    using inv m w len m' mt st wf cnt lf
    by (auto simp: tbl_inv_def Let_def written_def table_ok_def table_range_def)
  show "tbl_abs vw stride ksz handle s' = table_map T'"
    using w m' mt by (simp add: tbl_abs_def written_def)
qed

text \<open>Reading the metadata words.\<close>

lemma read_meta:
  assumes inv: "tbl_inv vw stride ksz handle H s" and r: "op_read io (handle + HEADER_SIZE) 32 s = (rb, s1)"
  shows "unchanged vw s s1" and "rb = Inr b \<Longrightarrow> parse_meta b = meta_at handle (v_bytes vw s)"
    and "v_calm vw s \<Longrightarrow> (\<exists>b. rb = Inr b) \<and> v_calm vw s1"
proof -
  have off: "unat (handle + HEADER_SIZE) = unat handle + 16"
    using handle_off [OF inv, of HEADER_SIZE] by (simp add: HEADER_SIZE_def)
  have g: "v_good vw s" and len: "unat (handle + HEADER_SIZE) + 32 \<le> length (v_bytes vw s)"
    using inv_handle [OF inv] off by simp_all
  show "unchanged vw s s1" using read_bytes [OF g r] by simp
  show "parse_meta b = meta_at handle (v_bytes vw s)" if "rb = Inr b"
    using read_bytes(2) [OF g r that] off by (simp add: meta_at_def)
  show "(\<exists>b. rb = Inr b) \<and> v_calm vw s1" if "v_calm vw s"
    using calm_read [OF g that len] r by auto
qed

lemma probe_commit_pure:
  assumes inv: "tbl_inv vw stride ksz handle H s" and m: "m = meta_at handle (v_bytes vw s)" "m_cap m \<noteq> 0"
    and run: "probe_commit io handle stride hash inspect exhausted c s = (r, s')"
  defines "x \<equiv> pure_probe (unat (m_cap m)) m stride (m_cap m - 1) inspect exhausted (v_bytes vw s)
      (hash AND (m_cap m - 1)) c"
  shows "(case r of Inl e \<Rightarrow> unchanged vw s s'
      | Inr c' \<Rightarrow> \<exists>ws. x = Inr (ws, c') \<and> in_bounds (v_bytes vw s) ws
          \<and> written vw s (apply_writes ws (v_bytes vw s)) s')"
    and "v_calm vw s \<Longrightarrow> x = Inr (ws, c') \<Longrightarrow> in_bounds (v_bytes vw s) ws \<Longrightarrow> r = Inr c' \<and> v_calm vw s'"
proof -
  obtain rb s1 where rd: "op_read io (handle + HEADER_SIZE) 32 s = (rb, s1)"
    by (cases "op_read io (handle + HEADER_SIZE) 32 s")
  note rm = read_meta [OF inv rd]
  have g1: "v_good vw s1" and b1: "v_bytes vw s1 = v_bytes vw s"
    using rm(1) by (simp_all add: unchanged_def)
  have ok: "table_ok stride ksz m (v_bytes vw s)" using inv m by (auto simp: tbl_inv_def Let_def)
  then obtain k where cap: "unat (m_cap m) = 2 ^ k"
      and tb: "unat (m_table m) + unat (m_cap m) * unat stride \<le> length (v_bytes vw s)"
    by (auto simp: table_ok_def)
  have cur: "unat (hash AND (m_cap m - 1)) < 2 ^ k" by (simp add: unat_and_mask [OF cap])
  define pl where "pl = probe_loop (unat (m_cap m)) io m stride (m_cap m - 1) inspect exhausted
      (hash AND (m_cap m - 1)) c s1"
  obtain rp s2 where p: "pl = (rp, s2)" by (cases pl)
  have tb1: "unat (m_table m) + unat (m_cap m) * unat stride \<le> length (v_bytes vw s1)"
    using tb b1 by simp
  have pl: "unchanged vw s1 s2" "(\<exists>e. rp = Inl e) \<or> rp = x" "v_calm vw s1 \<Longrightarrow> v_calm vw s2 \<and> rp = x"
    using probe_loop_pure [OF g1 cap cur tb1 p [unfolded pl_def]] by (auto simp: x_def b1)
  have u2: "unchanged vw s s2" using rm(1) pl(1) by (rule unchanged_trans)
  have run': "(r, s') = (case rb of Inl e \<Rightarrow> (Inl e, s1)
      | Inr _ \<Rightarrow> (case rp of Inl e \<Rightarrow> (Inl e, s2)
          | Inr (ws, c') \<Rightarrow> (case op_commit io ws s2 of (Inl e, s3) \<Rightarrow> (Inl e, s3) | (Inr _, s3) \<Rightarrow> (Inr c', s3))))"
  proof (cases rb)
    case (Inl e)
    with run rd show ?thesis by (simp add: probe_commit_def)
  next
    case (Inr b)
    have pm: "parse_meta b = m" using rm(2) [OF Inr] m(1) by simp
    have "probe_commit io handle stride hash inspect exhausted c s
        = try_s pl (\<lambda>(ws, c') s2. try_s (op_commit io ws s2) (\<lambda>_ s3. (Inr c', s3)))"
      using rd Inr m(2) by (simp add: probe_commit_def Let_def pl_def pm)
    with run p Inr show ?thesis
      by (auto simp: try_s_def split: sum.splits prod.splits)
  qed
  show "case r of Inl e \<Rightarrow> unchanged vw s s'
      | Inr c' \<Rightarrow> \<exists>ws. x = Inr (ws, c') \<and> in_bounds (v_bytes vw s) ws
          \<and> written vw s (apply_writes ws (v_bytes vw s)) s'"
  proof (cases rb)
    case (Inl e)
    with run' rm(1) show ?thesis by simp
  next
    case rb: (Inr b)
    show ?thesis
    proof (cases rp)
      case (Inl e)
      with rb run' u2 show ?thesis by simp
    next
      case (Inr y)
      obtain ws c' where y: "y = (ws, c')" by (cases y)
      have x: "x = Inr (ws, c')" using pl(2) Inr y by auto
      obtain rc s3 where cm: "op_commit io ws s2 = (rc, s3)" by (cases "op_commit io ws s2")
      have b2: "v_bytes vw s2 = v_bytes vw s" using u2 by (simp add: unchanged_def)
      note cl = commit_law [OF unchanged_good [OF u2] cm]
      show ?thesis
      proof (cases rc)
        case (Inl e)
        with cl rb Inr y cm run' unchanged_trans [OF u2] show ?thesis by simp
      next
        case rc: (Inr u)
        with cl rb Inr y cm run' x b2 written_after_unchanged [OF u2] show ?thesis by simp
      qed
    qed
  qed
  assume calm: "v_calm vw s" and x: "x = Inr (ws, c')" and ib: "in_bounds (v_bytes vw s) ws"
  obtain b where rb: "rb = Inr b" and c1: "v_calm vw s1" using rm(3) [OF calm] by blast
  have c2: "v_calm vw s2" and rp: "rp = Inr (ws, c')" using pl(3) [OF c1] x by auto
  have "in_bounds (v_bytes vw s2) ws" using u2 ib by (simp add: unchanged_def)
  from calm_commit [OF unchanged_good [OF u2] c2 this] show "r = Inr c' \<and> v_calm vw s'"
    using run' rb rp by auto
qed

end

end
