(* ===== verification/TableSteps.thy ===== *)
theory TableSteps
  imports TableOps
begin

text \<open>
  The three probes of an open-addressing table, once for the map and the set. The closures each
  collection hands to \<^verbatim>\<open>probe_commit\<close> satisfy one of the interfaces
  \<open>insert_probe\<close> and \<open>remove_probe\<close>; inside them the probe is shown to compute the
  abstract \<open>scan\<close>, and the batch it ends with to be a \<open>table_step\<close>. A committed
  \<open>table_step\<close> keeps the invariant of the table (\<open>commit_step\<close>).
\<close>

section \<open>Buckets\<close>

lemma decode_bucket_cases:
  "decode_bucket ksz buf = Empty \<longleftrightarrow> get_u64 buf = 0"
  "decode_bucket ksz buf = Occupied k v \<longleftrightarrow>
     get_u64 buf = 1 \<and> k = slice 8 ksz buf \<and> v = drop (8 + ksz) buf"
  "decode_bucket ksz buf = Tombstone \<longleftrightarrow> get_u64 buf \<noteq> 0 \<and> get_u64 buf \<noteq> 1"
  by (auto simp: decode_bucket_def)

lemma get_u64_state: "8 \<le> length buf \<Longrightarrow> get_u64 (slice 0 8 buf) = get_u64 buf"
  by (simp add: get_u64_def slice_def)

lemma get_u64_rest: "get_u64 (slice (8 + ksz) 8 buf) = get_u64 (drop (8 + ksz) buf)"
  by (simp add: get_u64_def slice_def)

lemma get_u64_item [simp]: "get_u64 (to_le64 v @ rest) = v"
  by (simp add: get_u64_def)

lemma decode_item:
  "length key = ksz \<Longrightarrow> decode_bucket ksz (to_le64 1 @ key @ rest) = Occupied key rest"
  by (simp add: decode_bucket_def slice_def)

lemma decode_tombstone:
  assumes "8 \<le> length buf"
  shows "decode_bucket ksz (overwrite 0 (to_le64 2) buf) = Tombstone"
  using assms by (simp add: decode_bucket_def overwrite_def)

lemma decode_new_rest:
  assumes "length buf = 8 + ksz + length rest" and "get_u64 buf = 1"
  shows "decode_bucket ksz (overwrite (8 + ksz) rest buf) = Occupied (slice 8 ksz buf) rest"
proof -
  let ?b = "overwrite (8 + ksz) rest buf"
  have "take 8 ?b = take 8 buf" using assms by (simp add: overwrite_def)
  then have st: "get_u64 ?b = 1" using assms(2) by (simp add: get_u64_def)
  have k: "slice 8 ksz ?b = slice 8 ksz buf"
    using assms by (intro slice_overwrite_disjoint) auto
  have "drop (8 + ksz) ?b = rest"
    using assms by (simp add: overwrite_def)
  with st k show ?thesis by (simp add: decode_bucket_def)
qed

lemma state_item [simp]: "bucket_state_ok (to_le64 1 @ rest)"
  by (simp add: bucket_state_ok_def)

lemma state_tombstone: "8 \<le> length buf \<Longrightarrow> bucket_state_ok (overwrite 0 (to_le64 2) buf)"
  by (simp add: bucket_state_ok_def overwrite_def)

lemma state_new_rest:
  "bucket_state_ok buf \<Longrightarrow> length buf = 8 + ksz + length rest \<Longrightarrow>
    bucket_state_ok (overwrite (8 + ksz) rest buf)"
  by (simp add: bucket_state_ok_def get_u64_def overwrite_def)

lemma overwrite_whole: "length d = length b \<Longrightarrow> overwrite 0 d b = d"
  by (simp add: overwrite_def)

section \<open>The effects of the three batches\<close>

lemma vacant_effect:
  assumes g: "meta_geom stride h m b" and m: "m = meta_at h b" and st: "states_ok stride m b"
    and stride: "unat stride = 8 + ksz + length rest" and key: "length key = ksz"
    and t: "t < unat (m_cap m)"
    and b1_def: "b1 = overwrite (unat h + 32) (to_le64 l)
      (overwrite (unat (m_table m) + t * unat stride) (to_le64 1 @ key @ rest) b)"
  shows "batch_effect stride ksz h m (meta_table stride ksz m b) b (m\<lparr>m_len := l\<rparr>)
      ((meta_table stride ksz m b)[t := Occupied key rest]) b1"
    and "batch_effect stride ksz h m (meta_table stride ksz m b) b (m\<lparr>m_len := l, m_used := u\<rparr>)
      ((meta_table stride ksz m b)[t := Occupied key rest])
      (overwrite (unat h + 40) (to_le64 u) b1)"
proof -
  let ?item = "to_le64 1 @ key @ rest"
  have il: "length ?item = unat stride" using key stride by simp
  have blk: "unat (m_table m) + t * unat stride + unat stride \<le> length b"
    using g t by (auto simp: geom_def intro: bucket_in_block)
  then have ow: "overwrite 0 ?item (slice (unat (m_table m) + t * unat stride) (unat stride) b) = ?item"
    using il by (intro overwrite_whole) simp
  let ?b0 = "overwrite (unat (m_table m) + t * unat stride) ?item b"
  have e0: "batch_effect stride ksz h m (meta_table stride ksz m b) b m
      ((meta_table stride ksz m b)[t := Occupied key rest]) ?b0"
    using effect_bucket [OF g st m [symmetric] t, of 0 ?item ksz] il ow key
    by (simp add: decode_item)
  have g0: "meta_geom stride h m ?b0" using g blk il by (intro geom_overwrite) auto
  show e1: "batch_effect stride ksz h m (meta_table stride ksz m b) b (m\<lparr>m_len := l\<rparr>)
      ((meta_table stride ksz m b)[t := Occupied key rest]) b1"
    unfolding b1_def by (rule effect_counter(1) [OF g0 e0])
  have g1: "meta_geom stride h m b1"
    unfolding b1_def using g0 by (rule geom_counter) simp
  show "batch_effect stride ksz h m (meta_table stride ksz m b) b (m\<lparr>m_len := l, m_used := u\<rparr>)
      ((meta_table stride ksz m b)[t := Occupied key rest])
      (overwrite (unat h + 40) (to_le64 u) b1)"
    using effect_counter(2) [OF g1 e1, of u] by simp
qed

lemma replace_effect:
  assumes g: "meta_geom stride h m b" and m: "m = meta_at h b" and st: "states_ok stride m b"
    and stride: "unat stride = 8 + ksz + length rest" and i: "i < unat (m_cap m)"
    and cur: "meta_table stride ksz m b ! i = Occupied key v"
  shows "batch_effect stride ksz h m (meta_table stride ksz m b) b m
      ((meta_table stride ksz m b)[i := Occupied key rest])
      (overwrite (unat (m_table m) + i * unat stride + (8 + ksz)) rest b)"
proof -
  let ?buf = "slice (unat (m_table m) + i * unat stride) (unat stride) b"
  have "unat (m_table m) + i * unat stride + unat stride \<le> length b"
    using g i by (auto simp: geom_def intro: bucket_in_block)
  then have lb: "length ?buf = 8 + ksz + length rest" using stride by simp
  have "decode_bucket ksz ?buf = Occupied key v"
    using cur i by (simp add: meta_table_def nth_table_of)
  then have o: "get_u64 ?buf = 1" "slice 8 ksz ?buf = key" by (simp_all add: decode_bucket_cases)
  have "bucket_state_ok (overwrite (8 + ksz) rest ?buf)"
    using lb o(1) by (intro state_new_rest) (simp_all add: bucket_state_ok_def)
  then show ?thesis
    using effect_bucket [OF g st m [symmetric] i, of "8 + ksz" rest ksz] stride
      decode_new_rest [OF lb o(1)] o(2) by simp
qed

lemma remove_effect:
  assumes g: "meta_geom stride h m b" and m: "m = meta_at h b" and st: "states_ok stride m b"
    and stride: "8 \<le> unat stride" and i: "i < unat (m_cap m)"
  shows "batch_effect stride ksz h m (meta_table stride ksz m b) b (m\<lparr>m_len := l\<rparr>)
      ((meta_table stride ksz m b)[i := Tombstone])
      (overwrite (unat h + 32) (to_le64 l)
        (overwrite (unat (m_table m) + i * unat stride) (to_le64 2) b))"
proof -
  let ?buf = "slice (unat (m_table m) + i * unat stride) (unat stride) b"
  have blk: "unat (m_table m) + i * unat stride + unat stride \<le> length b"
    using g i by (auto simp: geom_def intro: bucket_in_block)
  then have lb: "8 \<le> length ?buf" using stride by simp
  let ?b0 = "overwrite (unat (m_table m) + i * unat stride) (to_le64 2) b"
  have e0: "batch_effect stride ksz h m (meta_table stride ksz m b) b m
      ((meta_table stride ksz m b)[i := Tombstone]) ?b0"
    using effect_bucket [OF g st m [symmetric] i, of 0 "to_le64 2" ksz] stride
      decode_tombstone [OF lb, of ksz] state_tombstone [OF lb] by simp
  have g0: "meta_geom stride h m ?b0" using g blk stride by (intro geom_overwrite) auto
  show ?thesis by (rule effect_counter(1) [OF g0 e0])
qed

section \<open>Steps of a table\<close>

text \<open>A batch that takes the table with metadata \<open>m\<close> to the abstract table \<open>T'\<close>, writing
  only in the handle block and in the bucket block.\<close>

definition within_table :: "u64 \<Rightarrow> u64 \<Rightarrow> meta \<Rightarrow> writes \<Rightarrow> bool" where
  "within_table stride h m ws \<longleftrightarrow> (\<forall>(off, d) \<in> set ws.
     unat h \<le> unat off \<and> unat off + length d \<le> unat h + 48
     \<or> unat (m_table m) \<le> unat off
       \<and> unat off + length d \<le> unat (m_table m) + unat (m_cap m) * unat stride)"

definition table_step ::
    "u64 \<Rightarrow> nat \<Rightarrow> u64 \<Rightarrow> meta \<Rightarrow> u8 list \<Rightarrow> writes \<Rightarrow> (u8 list, u8 list) bucket list \<Rightarrow> bool" where
  "table_step stride ksz h m b ws T' \<longleftrightarrow>
     in_bounds b ws \<and> within_table stride h m ws
     \<and> (\<exists>l u. batch_effect stride ksz h m (meta_table stride ksz m b) b
            (m\<lparr>m_len := l, m_used := u\<rparr>) T' (apply_writes ws b)
          \<and> unat l = live_count T' \<and> unat u = used_count T' \<and> 4 * unat u \<le> 3 * unat (m_cap m))
     \<and> wf_table key_hash T'"

definition table_blocks :: "u64 \<Rightarrow> u64 \<Rightarrow> range \<Rightarrow> u8 list \<Rightarrow> range set" where
  "table_blocks stride h H b =
     insert H (let m = meta_at h b in if m_cap m = 0 then {} else {table_range stride m})"

text \<open>The bytes of \<open>H\<close> around the metadata, where another type may have embedded the table.\<close>

definition outer_kept :: "u64 \<Rightarrow> range \<Rightarrow> u8 list \<Rightarrow> u8 list \<Rightarrow> bool" where
  "outer_kept h H b b' \<longleftrightarrow>
     (\<forall>a n. inside a n H \<and> (a + n \<le> unat h \<or> unat h + 48 \<le> a) \<longrightarrow> slice a n b' = slice a n b)"

lemma outer_kept_refl [simp]: "outer_kept h H b b"
  by (simp add: outer_kept_def)

lemma outer_kept_trans: "outer_kept h H b b1 \<Longrightarrow> outer_kept h H b1 b2 \<Longrightarrow> outer_kept h H b b2"
  by (simp add: outer_kept_def)

lemma outer_kept_same_on:
  assumes "same_on R b b'" and "H \<in> R"
  shows "outer_kept h H b b'"
  unfolding outer_kept_def
proof (intro allI impI)
  fix a n assume "inside a n H \<and> (a + n \<le> unat h \<or> unat h + 48 \<le> a)"
  then obtain k where a: "a = unat (fst H) + k" and k: "k + n \<le> unat (snd H)"
    by (auto simp: inside_def range_end_def dest!: le_Suc_ex)
  have "content b' H = content b H" using assms by (simp add: same_on_def)
  then have "slice k n (content b' H) = slice k n (content b H)" by simp
  then show "slice a n b' = slice a n b" using k by (simp add: content_def slice_slice a)
qed

lemma outer_kept_writes:
  assumes ib: "in_bounds b ws" and H: "range_end H \<le> length b"
    and ws: "\<forall>(off, d) \<in> set ws. unat h \<le> unat off \<and> unat off + length d \<le> unat h + 48
      \<or> unat off + length d \<le> unat (fst H) \<or> range_end H \<le> unat off"
  shows "outer_kept h H b (apply_writes ws b)"
  unfolding outer_kept_def
proof (intro allI impI slice_apply_writes [OF ib])
  fix a n assume i: "inside a n H \<and> (a + n \<le> unat h \<or> unat h + 48 \<le> a)"
  then show "a + n \<le> length b" using H by (simp add: inside_def)
  fix off d assume "(off, d) \<in> set ws"
  with ws have "unat h \<le> unat off \<and> unat off + length d \<le> unat h + 48
      \<or> unat off + length d \<le> unat (fst H) \<or> range_end H \<le> unat off" by blast
  with i show "a + n \<le> unat off \<or> unat off + length d \<le> a" by (auto simp: inside_def)
qed

text \<open>An operation of a table leaves every other allocation alone: it stays live, is not taken over
  by the table, and keeps its bytes.\<close>

definition tbl_frame :: "'s stack_view \<Rightarrow> u64 \<Rightarrow> u64 \<Rightarrow> range \<Rightarrow> 's \<Rightarrow> 's \<Rightarrow> bool" where
  "tbl_frame vw stride h H s s' \<longleftrightarrow>
     (let others = v_live vw s - table_blocks stride h H (v_bytes vw s) in
      others \<subseteq> v_live vw s' - table_blocks stride h H (v_bytes vw s')
      \<and> same_on (insert reserved others) (v_bytes vw s) (v_bytes vw s'))
     \<and> outer_kept h H (v_bytes vw s) (v_bytes vw s')"

lemma tbl_frame_trans:
  assumes "tbl_frame vw stride h H s s1" and "tbl_frame vw stride h H s1 s2"
  shows "tbl_frame vw stride h H s s2"
proof -
  have "outer_kept h H (v_bytes vw s) (v_bytes vw s2)"
    using assms outer_kept_trans unfolding tbl_frame_def by blast
  with assms same_on_trans show ?thesis unfolding tbl_frame_def Let_def by blast
qed

lemma tbl_frame_unchanged: "unchanged vw s s' \<Longrightarrow> tbl_frame vw stride h H s s'"
  by (simp add: tbl_frame_def unchanged_def)

lemma tbl_frame_refl: "tbl_frame vw stride h H s s"
  by (simp add: tbl_frame_def)

lemma tbl_inv_unchanged:
  "unchanged vw s s' \<Longrightarrow> tbl_inv vw stride ksz h H s' = tbl_inv vw stride ksz h H s \<or> \<not> v_good vw s"
  "unchanged vw s s' \<Longrightarrow> tbl_abs vw stride ksz h s' = tbl_abs vw stride ksz h s"
  by (auto simp: tbl_inv_def tbl_abs_def unchanged_def)

context stack_laws
begin

lemma inv_parts:
  assumes "tbl_inv vw stride ksz handle H s" and "m = meta_at handle (v_bytes vw s)" and "m_cap m \<noteq> 0"
  shows "table_ok stride ksz m (v_bytes vw s)" and "states_ok stride m (v_bytes vw s)"
    and "meta_geom stride handle m (v_bytes vw s)"
    and "wf_table key_hash (meta_table stride ksz m (v_bytes vw s))"
    and "length (meta_table stride ksz m (v_bytes vw s)) = unat (m_cap m)"
    and "table_blocks stride handle H (v_bytes vw s) = {H, table_range stride m}"
    and "table_blocks stride handle H (v_bytes vw s) \<subseteq> v_live vw s"
    and "range_end (table_range stride m) = unat (m_table m) + unat (m_cap m) * unat stride"
proof -
  show ok: "table_ok stride ksz m (v_bytes vw s)"
    using assms by (auto simp: tbl_inv_def Let_def)
  then show "states_ok stride m (v_bytes vw s)" and "wf_table key_hash (meta_table stride ksz m (v_bytes vw s))"
    by (auto simp: table_ok_def states_ok_def)
  show "meta_geom stride handle m (v_bytes vw s)" using inv_geom [OF assms] .
  show "length (meta_table stride ksz m (v_bytes vw s)) = unat (m_cap m)" by (simp add: meta_table_def)
  show tb: "table_blocks stride handle H (v_bytes vw s) = {H, table_range stride m}"
    using assms(2,3) by (auto simp: table_blocks_def Let_def)
  show "table_blocks stride handle H (v_bytes vw s) \<subseteq> v_live vw s"
    unfolding tb using assms by (auto simp: tbl_inv_def Let_def)
  have "unat (m_table m) + unat (m_cap m) * unat stride \<le> length (v_bytes vw s)"
    using ok by (simp add: table_ok_def)
  then have "unat (m_cap m) * unat stride < u64_limit"
    using inv_handle [OF assms(1)] by simp
  then show "range_end (table_range stride m) = unat (m_table m) + unat (m_cap m) * unat stride"
    by (simp add: range_end_def table_range_def unat_mult_u64)
qed

text \<open>A probe whose batch is a step of the table.\<close>

lemma commit_step:
  assumes inv: "tbl_inv vw stride ksz handle H s" and m: "m = meta_at handle (v_bytes vw s)" "m_cap m \<noteq> 0"
    and run: "probe_commit io handle stride hash inspect exhausted c s = (r, s')"
    and x: "pure_probe (unat (m_cap m)) m stride (m_cap m - 1) inspect exhausted (v_bytes vw s)
      (hash AND (m_cap m - 1)) c = Inr (ws, c')"
    and step: "table_step stride ksz handle m (v_bytes vw s) ws T'"
  shows "case r of Inl e \<Rightarrow> unchanged vw s s'
    | Inr c'' \<Rightarrow> c'' = c' \<and> tbl_inv vw stride ksz handle H s' \<and> tbl_abs vw stride ksz handle s' = table_map T'
        \<and> tbl_frame vw stride handle H s s'"
    and "v_calm vw s \<Longrightarrow> r = Inr c' \<and> v_calm vw s'"
proof -
  note P = inv_parts [OF inv m]
  have ib: "in_bounds (v_bytes vw s) ws" and wt: "within_table stride handle m ws"
    and wf: "wf_table key_hash T'" using step by (simp_all add: table_step_def)
  obtain l u where lu: "batch_effect stride ksz handle m (meta_table stride ksz m (v_bytes vw s)) (v_bytes vw s)
            (m\<lparr>m_len := l, m_used := u\<rparr>) T' (apply_writes ws (v_bytes vw s))"
      "unat l = live_count T'" "unat u = used_count T'" "4 * unat u \<le> 3 * unat (m_cap m)"
    using step by (auto simp: table_step_def)
  have "inside (unat handle) 48 H" using inv by (simp add: tbl_inv_def)
  then have "\<forall>(off, d) \<in> set ws. \<exists>q \<in> {H, table_range stride m}. inside (unat off) (length d) q"
    using wt P(8) by (fastforce simp: within_table_def inside_def table_range_def)
  then have so: "same_on (insert reserved (v_live vw s - table_blocks stride handle H (v_bytes vw s)))
      (v_bytes vw s) (apply_writes ws (v_bytes vw s))"
    using inv_handle(3) [OF inv] ib P(6,7) by (intro same_on_writes) auto
  have "H \<in> v_live vw s" "table_range stride m \<in> v_live vw s" "table_range stride m \<noteq> H"
    using inv m by (auto simp: tbl_inv_def Let_def)
  then have ap: "apart H (table_range stride m)" and He: "range_end H \<le> length (v_bytes vw s)"
    using good_apart [OF inv_handle(3) [OF inv]] good_live [OF inv_handle(3) [OF inv]] by auto
  have T: "fst (table_range stride m) = m_table m" by (simp add: table_range_def)
  have "unat handle \<le> unat off \<and> unat off + length d \<le> unat handle + 48
      \<or> unat off + length d \<le> unat (fst H) \<or> range_end H \<le> unat off" if "(off, d) \<in> set ws" for off d
  proof -
    have "unat handle \<le> unat off \<and> unat off + length d \<le> unat handle + 48
      \<or> unat (m_table m) \<le> unat off \<and> unat off + length d \<le> range_end (table_range stride m)"
      using wt that unfolding within_table_def P(8) by blast
    then show ?thesis using ap unfolding apart_def T by linarith
  qed
  then have ok: "outer_kept handle H (v_bytes vw s) (apply_writes ws (v_bytes vw s))"
    by (intro outer_kept_writes [OF ib He]) blast
  note cp = probe_commit_pure [OF inv m run]
  show "case r of Inl e \<Rightarrow> unchanged vw s s'
    | Inr c'' \<Rightarrow> c'' = c' \<and> tbl_inv vw stride ksz handle H s' \<and> tbl_abs vw stride ksz handle s' = table_map T'
        \<and> tbl_frame vw stride handle H s s'"
  proof (cases r)
    case (Inl e)
    with cp(1) show ?thesis by simp
  next
    case (Inr c'')
    with cp(1) x have c: "c'' = c'" and w: "written vw s (apply_writes ws (v_bytes vw s)) s'" by auto
    note iu = inv_update [OF inv m w lu(1) wf lu(2-4)]
    have "meta_at handle (v_bytes vw s') = m\<lparr>m_len := l, m_used := u\<rparr>"
      using w lu(1) by (simp add: written_def batch_effect_def)
    then have "table_blocks stride handle H (v_bytes vw s') = table_blocks stride handle H (v_bytes vw s)"
      by (simp add: table_blocks_def table_range_def m(1) [symmetric])
    with w so ok have "tbl_frame vw stride handle H s s'" by (simp add: tbl_frame_def written_def)
    with Inr c iu show ?thesis by simp
  qed
  show "r = Inr c' \<and> v_calm vw s'" if "v_calm vw s"
    using cp(2) [OF that x ib] .
qed

end

section \<open>Insertion\<close>

lemma bucket_offset_word:
  assumes "unat base + cap * unat stride \<le> n" and "n < 2 ^ 63" and "unat i < cap"
  shows "checked_off_mul base i stride = Inr (base + i * stride)"
    and "unat (base + i * stride) = unat base + unat i * unat stride"
proof -
  have "unat base + unat i * unat stride + unat stride \<le> n"
    using assms(3,1) by (rule bucket_in_block)
  then have "unat base + unat i * unat stride < u64_limit" using assms(2) by simp
  then show "checked_off_mul base i stride = Inr (base + i * stride)"
    by (rule checked_off_mul_ok)
  then show "unat (base + i * stride) = unat base + unat i * unat stride"
    by (rule checked_off_mul_unat)
qed

definition place_batch ::
    "u64 \<Rightarrow> u64 \<Rightarrow> meta \<Rightarrow> u8 list \<Rightarrow> u8 list \<Rightarrow> u64 \<Rightarrow> bool \<Rightarrow> writes" where
  "place_batch h stride m key rest t fresh =
     [(m_table m + t * stride, to_le64 1 @ key @ rest), w8 (h + (HEADER_SIZE + 16)) (m_len m + 1)]
     @ (if fresh then [w8 (h + (HEADER_SIZE + 24)) (m_used m + 1)] else [])"

text \<open>The three batches are steps.\<close>

lemma meta_geom_bounds:
  assumes "meta_geom stride h m b" and "length b < 2 ^ 63"
  shows "unat (m_table m) + unat (m_cap m) * unat stride \<le> length b"
    and "unat w \<le> 48 \<Longrightarrow> unat (h + w) = unat h + unat w"
  using assms by (auto simp: geom_def intro!: unat_plus_u64)

lemma of_nat_bucket:
  assumes "t < unat (m_cap m)"
  shows "unat (of_nat t :: u64) = t"
  by (rule unat_of_nat_u64 [OF less_trans [OF assms unat_u64_bound]])

lemma table_step_off:
  assumes "meta_geom stride h m b" and "length b < 2 ^ 63" and "t < unat (m_cap m)"
  shows "checked_off_mul (m_table m) (of_nat t) stride = Inr (m_table m + of_nat t * stride)"
    and "unat (m_table m + of_nat t * stride) = unat (m_table m) + t * unat stride"
    and "unat (m_table m) + t * unat stride + unat stride \<le> unat (m_table m) + unat (m_cap m) * unat stride"
    and "unat (m_table m) + t * unat stride + unat stride \<le> length b"
proof -
  note B = meta_geom_bounds(1) [OF assms(1,2)]
  have i: "unat (of_nat t :: u64) < unat (m_cap m)" using assms(3) of_nat_bucket [OF assms(3)] by simp
  show "checked_off_mul (m_table m) (of_nat t) stride = Inr (m_table m + of_nat t * stride)"
    by (rule bucket_offset_word [OF B assms(2) i])
  show "unat (m_table m + of_nat t * stride) = unat (m_table m) + t * unat stride"
    using bucket_offset_word(2) [OF B assms(2) i] of_nat_bucket [OF assms(3)] by simp
  show "unat (m_table m) + t * unat stride + unat stride \<le> unat (m_table m) + unat (m_cap m) * unat stride"
    using assms(3) by (rule bucket_in_block) simp
  with B show "unat (m_table m) + t * unat stride + unat stride \<le> length b" by simp
qed

lemma unat_Suc_cap: "unat (x :: u64) < unat (c :: u64) \<Longrightarrow> unat (x + 1) = unat x + 1"
  using order.strict_trans1 [OF Suc_leI unat_u64_bound, of "unat x" c] by (subst unat_plus_u64) simp_all

lemma room_less: "4 * (u + 1) \<le> 3 * (c :: nat) \<Longrightarrow> l \<le> u \<Longrightarrow> l < c"
  by presburger

lemma unat_pred: "0 < unat (x :: u64) \<Longrightarrow> unat (x - 1) = unat x - 1"
  by (subst unat_sub) (simp_all add: word_le_nat_alt)

lemma place_step:
  assumes ok: "table_ok stride ksz m b" and g: "meta_geom stride h m b" and m: "m = meta_at h b"
    and len: "length b < 2 ^ 63" and sz: "unat stride = 8 + ksz + length rest" "length key = ksz"
    and room: "4 * (unat (m_used m) + 1) \<le> 3 * unat (m_cap m)"
    and T: "T = meta_table stride ksz m b" and t: "t < unat (m_cap m)"
    and cur: "T ! t = (if fresh then Empty else Tombstone)"
    and r: "reachable key_hash T key t" and new: "table_map T key = None"
  shows "table_step stride ksz h m b (place_batch h stride m key rest (of_nat t) fresh) (T[t := Occupied key rest])"
proof -
  note off = table_step_off [OF g len t]
  note hoff = meta_geom_bounds(2) [OF g len]
  have lT: "length T = unat (m_cap m)" and wf: "wf_table key_hash T"
    and cnt: "unat (m_len m) = live_count T" "unat (m_used m) = used_count T"
    and st: "states_ok stride m b"
    using ok by (auto simp: table_ok_def T states_ok_def meta_table_def)
  have free: "T ! t \<noteq> Occupied k v" for k v using cur by (simp split: if_splits)
  have wf': "wf_table key_hash (T[t := Occupied key rest])"
    using place_wf(1) [OF wf _ free r new] t lT by simp
  have live: "unat (m_len m + 1) = live_count (T[t := Occupied key rest])"
  proof -
    have "unat (m_len m) < unat (m_cap m)" using room_less [OF room] cnt live_le_used [of T] by simp
    from unat_Suc_cap [OF this] live_count_update [of t T "Occupied key rest"] t lT cnt(1) cur show ?thesis
      by (simp split: if_splits)
  qed
  have used: "unat (if fresh then m_used m + 1 else m_used m) = used_count (T[t := Occupied key rest])"
  proof -
    have "unat (m_used m) < unat (m_cap m)" using room_less [OF room] by simp
    from unat_Suc_cap [OF this] used_count_update [of t T "Occupied key rest"] t lT cnt(2) cur show ?thesis
      by (simp split: if_splits)
  qed
  have ld: "4 * unat (if fresh then m_used m + 1 else m_used m) \<le> 3 * unat (m_cap m)"
    using room room_less [OF room order.refl] unat_Suc_cap [of "m_used m" "m_cap m"] by simp
  let ?b1 = "overwrite (unat h + 32) (to_le64 (m_len m + 1))
      (overwrite (unat (m_table m) + t * unat stride) (to_le64 1 @ key @ rest) b)"
  note ve = vacant_effect(1) [OF g m st sz t refl, where l = "m_len m + 1"]
    vacant_effect(2) [OF g m st sz t refl, where l = "m_len m + 1" and u = "m_used m + 1"]
  have hb: "unat h + 48 \<le> length b" using g by (simp add: geom_def)
  have aw: "apply_writes (place_batch h stride m key rest (of_nat t) fresh) b =
      (if fresh then overwrite (unat h + 40) (to_le64 (m_used m + 1)) ?b1 else ?b1)"
    by (simp add: place_batch_def w8_def off(2) hoff HEADER_SIZE_def)
  have eff: "batch_effect stride ksz h m T b
      (m\<lparr>m_len := m_len m + 1, m_used := if fresh then m_used m + 1 else m_used m\<rparr>)
      (T[t := Occupied key rest]) (apply_writes (place_batch h stride m key rest (of_nat t) fresh) b)"
    using ve unfolding aw T by (cases fresh) simp_all
  have "in_bounds b (place_batch h stride m key rest (of_nat t) fresh)"
    "within_table stride h m (place_batch h stride m key rest (of_nat t) fresh)"
    using off(3,4) hb sz by (auto simp: place_batch_def w8_def off(2) hoff HEADER_SIZE_def within_table_def)
  then show ?thesis
    using eff live used ld wf' unfolding table_step_def T by blast
qed

lemma replace_step:
  assumes ok: "table_ok stride ksz m b" and g: "meta_geom stride h m b" and m: "m = meta_at h b"
    and len: "length b < 2 ^ 63" and sz: "unat stride = 8 + ksz + length rest" "length key = ksz"
    and T: "T = meta_table stride ksz m b" and i: "i < unat (m_cap m)" and cur: "T ! i = Occupied key v"
  shows "table_step stride ksz h m b [(m_table m + of_nat i * stride + (8 + of_nat ksz), rest)] (T[i := Occupied key rest])"
    and "checked_off (m_table m + of_nat i * stride) (8 + of_nat ksz)
      = Inr (m_table m + of_nat i * stride + (8 + of_nat ksz))"
proof -
  note off = table_step_off [OF g len i]
  have lT: "length T = unat (m_cap m)" and wf: "wf_table key_hash T"
    and cnt: "unat (m_len m) = live_count T" "unat (m_used m) = used_count T"
      "4 * unat (m_used m) \<le> 3 * unat (m_cap m)"
    and st: "states_ok stride m b"
    using ok by (auto simp: table_ok_def T states_ok_def meta_table_def)
  have uk: "unat (8 + of_nat ksz :: u64) = 8 + ksz"
  proof -
    have k: "8 + ksz < u64_limit" using sz(1) unat_u64_bound [of stride] by simp
    then have "unat (of_nat ksz :: u64) = ksz" by (intro unat_of_nat_u64) simp
    with k show ?thesis by (subst unat_plus_u64) simp_all
  qed
  have o: "unat (m_table m) + i * unat stride + (8 + ksz) < u64_limit" using off(4) sz len by simp
  then have uo: "unat (m_table m + of_nat i * stride + (8 + of_nat ksz)) = unat (m_table m) + i * unat stride + (8 + ksz)"
    using uk off(2) by (subst unat_plus_u64) simp_all
  show "checked_off (m_table m + of_nat i * stride) (8 + of_nat ksz)
      = Inr (m_table m + of_nat i * stride + (8 + of_nat ksz))"
    using o uk off(2) by simp
  have "wf_table key_hash (T[i := Occupied key rest])"
    using replace_wf(1) [OF wf _ cur] i lT by simp
  moreover have "live_count (T[i := Occupied key rest]) = live_count T"
    "used_count (T[i := Occupied key rest]) = used_count T"
    using live_count_update [of i T "Occupied key rest"] used_count_update [of i T "Occupied key rest"] i lT cur
    by simp_all
  moreover have "batch_effect stride ksz h m T b (m\<lparr>m_len := m_len m, m_used := m_used m\<rparr>) (T[i := Occupied key rest])
      (apply_writes [(m_table m + of_nat i * stride + (8 + of_nat ksz), rest)] b)"
    using replace_effect [OF g m st sz(1) i] cur by (simp add: uo T)
  ultimately show "table_step stride ksz h m b [(m_table m + of_nat i * stride + (8 + of_nat ksz), rest)] (T[i := Occupied key rest])"
    using cnt off(3,4) sz unfolding table_step_def T
    by (intro conjI exI [of _ "m_len m"] exI [of _ "m_used m"]) (auto simp: within_table_def uo)
qed

lemma no_step:
  assumes ok: "table_ok stride ksz m b" and m: "m = meta_at h b"
  shows "table_step stride ksz h m b [] (meta_table stride ksz m b)"
  using assms unfolding table_step_def
  by (intro conjI exI [of _ "m_len m"] exI [of _ "m_used m"])
    (auto simp: table_ok_def within_table_def batch_effect_def states_ok_def)

lemma tombstone_step:
  assumes ok: "table_ok stride ksz m b" and g: "meta_geom stride h m b" and m: "m = meta_at h b"
    and len: "length b < 2 ^ 63" and sz: "8 \<le> unat stride"
    and T: "T = meta_table stride ksz m b" and i: "i < unat (m_cap m)" and cur: "T ! i = Occupied key v"
  shows "table_step stride ksz h m b
     [w8 (m_table m + of_nat i * stride) 2, w8 (h + (HEADER_SIZE + 16)) (m_len m - 1)] (T[i := Tombstone])"
proof -
  note off = table_step_off [OF g len i]
  note hoff = meta_geom_bounds(2) [OF g len]
  have lT: "length T = unat (m_cap m)" and wf: "wf_table key_hash T"
    and cnt: "unat (m_len m) = live_count T" "unat (m_used m) = used_count T"
      "4 * unat (m_used m) \<le> 3 * unat (m_cap m)"
    and st: "states_ok stride m b"
    using ok by (auto simp: table_ok_def T states_ok_def meta_table_def)
  have hb: "unat h + 48 \<le> length b" using g by (simp add: geom_def)
  have "wf_table key_hash (T[i := Tombstone])"
    using remove_wf(1) [OF wf _ cur] i lT by simp
  moreover have "unat (m_len m - 1) = live_count (T[i := Tombstone])"
    "used_count (T[i := Tombstone]) = used_count T"
    using live_count_update [of i T Tombstone] used_count_update [of i T Tombstone] i lT cur cnt(1) unat_pred [of "m_len m"]
    by simp_all
  moreover have "batch_effect stride ksz h m T b (m\<lparr>m_len := m_len m - 1, m_used := m_used m\<rparr>) (T[i := Tombstone])
      (apply_writes [w8 (m_table m + of_nat i * stride) 2, w8 (h + (HEADER_SIZE + 16)) (m_len m - 1)] b)"
    using remove_effect [OF g m st sz i] by (simp add: T w8_def off(2) hoff HEADER_SIZE_def)
  ultimately show ?thesis
    using cnt off(3,4) sz hb unfolding table_step_def T
    by (intro conjI exI [of _ "m_len m - 1"] exI [of _ "m_used m"])
      (auto simp: within_table_def w8_def off(2) hoff HEADER_SIZE_def)
qed

text \<open>The laws of the closures of an insertion: \<open>place\<close> writes a new entry, \<open>hit\<close> handles
  an entry with the same key (overwriting its payload or not), and the captured cells remember the
  first tombstone.\<close>

locale insert_probe =
  fixes inspect :: "meta \<Rightarrow> u64 \<Rightarrow> u8 list \<Rightarrow> 'c \<Rightarrow> probe_step \<times> 'c"
    and exhausted :: "meta \<Rightarrow> 'c \<Rightarrow> writes res \<times> 'c"
    and place :: "meta \<Rightarrow> u64 \<Rightarrow> bool \<Rightarrow> writes res" and hit :: "meta \<Rightarrow> u64 \<Rightarrow> writes res"
    and tomb :: "'c \<Rightarrow> u64 option" and set_tomb :: "u64 option \<Rightarrow> 'c \<Rightarrow> 'c"
    and mark_new :: "'c \<Rightarrow> 'c" and mark_hit :: "u8 list \<Rightarrow> 'c \<Rightarrow> 'c" and mark_full :: "'c \<Rightarrow> 'c"
    and handle :: u64 and stride :: u64 and ksz :: nat and key :: "u8 list" and rest :: "u8 list"
    and overwrites :: bool
  assumes on_empty: "8 \<le> length buf \<Longrightarrow> get_u64 buf = 0 \<Longrightarrow> inspect m i buf c =
      (Stop (place m (case tomb c of Some t \<Rightarrow> t | None \<Rightarrow> i) (tomb c = None)), mark_new c)"
    and on_key: "8 \<le> length buf \<Longrightarrow> get_u64 buf = 1 \<Longrightarrow> slice 8 ksz buf = key \<Longrightarrow>
      inspect m i buf c = (Stop (hit m i), mark_hit (drop (8 + ksz) buf) c)"
    and on_other: "8 \<le> length buf \<Longrightarrow> get_u64 buf = 1 \<Longrightarrow> slice 8 ksz buf \<noteq> key \<Longrightarrow>
      inspect m i buf c = (Continue, c)"
    and on_tomb: "8 \<le> length buf \<Longrightarrow> get_u64 buf = 2 \<Longrightarrow>
      inspect m i buf c = (Continue, if tomb c = None then set_tomb (Some i) c else c)"
    and at_end: "exhausted m c = (case tomb c of Some t \<Rightarrow> (place m t False, mark_new c)
      | None \<Rightarrow> (Inr [], mark_full c))"
    and tomb_set: "tomb (set_tomb tm c) = tm" and set_set: "set_tomb tm (set_tomb tm' c) = set_tomb tm c"
    and set_same: "set_tomb (tomb c) c = c"
    and place_ok: "checked_off_mul (m_table m) t stride = Inr off \<Longrightarrow>
      place m t fresh = Inr (place_batch handle stride m key rest t fresh)"
    and hit_ok: "checked_off_mul (m_table m) t stride = Inr off \<Longrightarrow>
      checked_off off (8 + of_nat ksz) = Inr off' \<Longrightarrow>
      hit m t = Inr (if overwrites then [(off', rest)] else [])"
begin

definition probe_result :: "meta \<Rightarrow> (u8 list, u8 list) bucket list \<Rightarrow> 'c \<Rightarrow> scan_result \<Rightarrow> (writes \<times> 'c) res \<Rightarrow> bool" where
  "probe_result m T c r x \<longleftrightarrow>
     (case r of
        Found i \<Rightarrow> (\<exists>t v. T ! i = Occupied key v
          \<and> x = try_r (hit m (of_nat i)) (\<lambda>ws. Inr (ws, mark_hit v (set_tomb t c))))
      | Vacant i fresh \<Rightarrow> (\<exists>t. x = try_r (place m (of_nat i) fresh) (\<lambda>ws. Inr (ws, mark_new (set_tomb t c))))
      | Full \<Rightarrow> (\<exists>t. x = Inr ([], mark_full (set_tomb t c))))"

lemma probe_result_shift: "probe_result m T (set_tomb t c) r x = probe_result m T c r x"
  by (simp add: probe_result_def set_set split: scan_result.splits)

lemma probe_resultI:
  "T ! i = Occupied key v \<Longrightarrow> x = try_r (hit m (of_nat i)) (\<lambda>ws. Inr (ws, mark_hit v c)) \<Longrightarrow>
    probe_result m T c (Found i) x"
  "x = try_r (place m (of_nat i) fresh) (\<lambda>ws. Inr (ws, mark_new c)) \<Longrightarrow> probe_result m T c (Vacant i fresh) x"
  "x = Inr ([], mark_full c) \<Longrightarrow> probe_result m T c Full x"
  using set_same [of c] by (auto simp: probe_result_def) metis+

lemma probe_scan:
  assumes cap: "unat (m_cap m) = 2 ^ p"
    and blk: "unat (m_table m) + unat (m_cap m) * unat stride \<le> length b"
    and st: "states_ok stride m b" and T: "T = meta_table stride ksz m b" and st8: "8 \<le> unat stride"
  shows "unat cur < 2 ^ p \<Longrightarrow>
    probe_result m T c (scan T key (unat cur) n (map_option unat (tomb c)))
      (pure_probe n m stride (m_cap m - 1) inspect exhausted b cur c)"
proof (induction n arbitrary: cur c)
  case 0
  then show ?case
    by (cases "tomb c") (simp_all add: at_end probe_resultI)
next
  case (Suc n)
  have len: "length T = 2 ^ p" using cap by (simp add: T meta_table_def)
  let ?buf = "slice (unat (m_table m) + unat cur * unat stride) (unat stride) b"
  have cur: "unat cur < unat (m_cap m)" using Suc.prems cap by simp
  have lb: "8 \<le> length ?buf"
    using bucket_in_block [OF cur blk] st8 by simp
  have Tc: "T ! unat cur = decode_bucket ksz ?buf"
    using cur by (simp add: T meta_table_def nth_table_of)
  have nxt: "unat ((cur + 1) AND (m_cap m - 1)) = Suc (unat cur) mod length T"
    using unat_step_mask [OF cap Suc.prems] len by simp
  then have nxt_less: "unat ((cur + 1) AND (m_cap m - 1)) < 2 ^ p" using len by simp
  have sok: "bucket_state_ok ?buf" using st cur by (simp add: states_ok_def)
  show ?case
  proof (cases "T ! unat cur")
    case Empty
    then have "get_u64 ?buf = 0" by (simp add: Tc decode_bucket_cases)
    from on_empty [OF lb this] Empty show ?thesis
      by (cases "tomb c") (auto intro: probe_resultI)
  next
    case (Occupied k v)
    then have o: "get_u64 ?buf = 1" "k = slice 8 ksz ?buf" "v = drop (8 + ksz) ?buf"
      by (simp_all add: Tc decode_bucket_cases)
    show ?thesis
    proof (cases "k = key")
      case True
      have "inspect m cur ?buf c = (Stop (hit m cur), mark_hit v c)"
        using on_key [OF lb o(1)] True o(2,3) by simp
      with True Occupied show ?thesis by (simp add: probe_resultI(1))
    next
      case False
      from on_other [OF lb o(1)] False o(2) Occupied nxt Suc.IH [OF nxt_less] show ?thesis by simp
    qed
  next
    case Tombstone
    then have "get_u64 ?buf = 2" using sok by (auto simp: Tc decode_bucket_cases bucket_state_ok_def)
    from on_tomb [OF lb this] Tombstone nxt Suc.IH [OF nxt_less, of c]
      Suc.IH [OF nxt_less, of "set_tomb (Some cur) c"] show ?thesis
      by (cases "tomb c") (simp_all add: tomb_set probe_result_shift)
  qed
qed

text \<open>An insertion probe ends with a step that inserts the key, or hits it.\<close>

lemma insert_step:
  assumes ok: "table_ok stride ksz m b" and g: "meta_geom stride handle m b" and m: "m = meta_at handle b"
    and len: "length b < 2 ^ 63" and room: "4 * (unat (m_used m) + 1) \<le> 3 * unat (m_cap m)"
    and sizes: "unat stride = 8 + ksz + length rest" "length key = ksz"
    and T: "T = meta_table stride ksz m b"
  obtains ws t T' c' where "pure_probe (unat (m_cap m)) m stride (m_cap m - 1) inspect exhausted b
      (fnv1a key AND (m_cap m - 1)) (set_tomb None c) = Inr (ws, c')"
    and "table_step stride ksz handle m b ws T'"
    and "table_map T key = None \<Longrightarrow> c' = mark_new (set_tomb t c)
      \<and> table_map T' = (table_map T)(key \<mapsto> rest)"
    and "\<And>v. table_map T key = Some v \<Longrightarrow> c' = mark_hit v (set_tomb t c)
      \<and> table_map T' = (if overwrites then (table_map T)(key \<mapsto> rest) else table_map T)"
proof -
  obtain p where cap: "unat (m_cap m) = 2 ^ p" using ok by (auto simp: table_ok_def)
  have blk: "unat (m_table m) + unat (m_cap m) * unat stride \<le> length b" and wf: "wf_table key_hash T"
    and st: "states_ok stride m b" and used: "unat (m_used m) = used_count T"
    and lT: "length T = unat (m_cap m)"
    using ok by (auto simp: table_ok_def T states_ok_def meta_table_def)
  have cur: "unat (fnv1a key AND (m_cap m - 1)) = key_hash key mod length T"
    by (simp add: unat_and_mask [OF cap] cap lT key_hash_def)
  have ne: "T \<noteq> []" using lT cap by auto
  define x where "x = pure_probe (unat (m_cap m)) m stride (m_cap m - 1) inspect exhausted b
      (fnv1a key AND (m_cap m - 1)) (set_tomb None c)"
  have pr: "probe_result m T c (probe key_hash T key) x"
    using probe_scan [OF cap blk st T _, of "fnv1a key AND (m_cap m - 1)" "set_tomb None c" "unat (m_cap m)"] cap sizes(1)
    by (simp add: x_def probe_def tomb_set probe_result_shift cur lT)
  have sok: "scan_ok key_hash T key (probe key_hash T key)" using wf ne by (rule probe_correct)
  show thesis
  proof (cases "probe key_hash T key")
    case (Found i)
    with sok obtain v where i: "i < unat (m_cap m)" "T ! i = Occupied key v" by (auto simp: scan_ok_def lT)
    note rs = replace_step [OF ok g m len sizes T i]
    have hit: "hit m (of_nat i) = Inr (if overwrites
        then [(m_table m + of_nat i * stride + (8 + of_nat ksz), rest)] else [])"
      using hit_ok [OF table_step_off(1) [OF g len i(1)] rs(2)] .
    have tm: "table_map T key = Some v" unfolding table_map_Some [OF wf] using i lT by (intro exI [of _ i]) simp
    obtain t where x: "x = Inr (if overwrites
        then [(m_table m + of_nat i * stride + (8 + of_nat ksz), rest)] else [], mark_hit v (set_tomb t c))"
      using pr Found i(2) hit by (auto simp: probe_result_def)
    have rm: "table_map (T[i := Occupied key rest]) = (table_map T)(key \<mapsto> rest)"
      using replace_wf(2) [OF wf _ i(2)] i(1) lT by simp
    show thesis
    proof (cases overwrites)
      case True
      then have x': "x = Inr ([(m_table m + of_nat i * stride + (8 + of_nat ksz), rest)], mark_hit v (set_tomb t c))"
        using x by simp
      show thesis by (rule that [folded x_def, OF x' rs(1)]) (simp_all add: tm rm True)
    next
      case False
      then have x': "x = Inr ([], mark_hit v (set_tomb t c))" using x by simp
      show thesis by (rule that [folded x_def, OF x' no_step [OF ok m]]) (simp_all add: tm False T [symmetric])
    qed
  next
    case (Vacant i fresh)
    with sok have i: "i < unat (m_cap m)" and cu: "T ! i = (if fresh then Empty else Tombstone)"
      and r: "reachable key_hash T key i" and new: "table_map T key = None"
      by (auto simp: scan_ok_def lT)
    have free: "T ! i \<noteq> Occupied k v" for k v using cu by (simp split: if_splits)
    have pl: "place m (of_nat i) fresh = Inr (place_batch handle stride m key rest (of_nat i) fresh)"
      using place_ok [OF table_step_off(1) [OF g len i]] .
    obtain t where x: "x = Inr (place_batch handle stride m key rest (of_nat i) fresh, mark_new (set_tomb t c))"
      using pr Vacant pl by (auto simp: probe_result_def)
    have tm: "table_map (T[i := Occupied key rest]) = (table_map T)(key \<mapsto> rest)"
      using place_wf(2) [OF wf _ free r new] i lT by simp
    show thesis
      by (rule that [folded x_def, OF x place_step [OF ok g m len sizes room T i cu r new]])
        (simp_all add: new tm)
  next
    case Full
    with sok have "used_count T = length T" by (intro not_full) (simp add: scan_ok_def)
    with used lT room room_less [OF room order.refl] show thesis by simp
  qed
qed

end

section \<open>Removal\<close>

text \<open>The laws of the closures of a removal.\<close>

locale remove_probe =
  fixes inspect :: "meta \<Rightarrow> u64 \<Rightarrow> u8 list \<Rightarrow> 'c \<Rightarrow> probe_step \<times> 'c"
    and exhausted :: "meta \<Rightarrow> 'c \<Rightarrow> writes res \<times> 'c" and mark_found :: "u8 list \<Rightarrow> 'c \<Rightarrow> 'c"
    and handle :: u64 and stride :: u64 and ksz :: nat and key :: "u8 list"
  assumes on_empty: "8 \<le> length buf \<Longrightarrow> get_u64 buf = 0 \<Longrightarrow> inspect m i buf c = (Stop (Inr []), c)"
    and on_key: "8 \<le> length buf \<Longrightarrow> get_u64 buf = 1 \<Longrightarrow> slice 8 ksz buf = key \<Longrightarrow>
      checked_off_mul (m_table m) i stride = Inr off \<Longrightarrow>
      inspect m i buf c = (Stop (Inr [w8 off 2, w8 (handle + (HEADER_SIZE + 16)) (m_len m - 1)]),
        mark_found (drop (8 + ksz) buf) c)"
    and on_other: "8 \<le> length buf \<Longrightarrow> get_u64 buf \<noteq> 0 \<Longrightarrow> get_u64 buf \<noteq> 1 \<or> slice 8 ksz buf \<noteq> key \<Longrightarrow>
      inspect m i buf c = (Continue, c)"
    and at_end: "exhausted m c = (Inr [], c)"
begin

definition remove_result :: "meta \<Rightarrow> (u8 list, u8 list) bucket list \<Rightarrow> 'c \<Rightarrow> scan_result \<Rightarrow> (writes \<times> 'c) res \<Rightarrow> bool" where
  "remove_result m T c r x \<longleftrightarrow>
     (case r of
        Found i \<Rightarrow> (\<exists>v. T ! i = Occupied key v
          \<and> x = Inr ([w8 (m_table m + of_nat i * stride) 2, w8 (handle + (HEADER_SIZE + 16)) (m_len m - 1)], mark_found v c))
      | _ \<Rightarrow> x = Inr ([], c))"

lemma remove_result_vacant [simp]:
  "remove_result m T c (vacant_or tm (Vacant i f)) x = (x = Inr ([], c))"
  "remove_result m T c (vacant_or tm Full) x = (x = Inr ([], c))"
  by (cases tm; simp add: remove_result_def)+

lemma remove_scan:
  assumes cap: "unat (m_cap m) = 2 ^ p" and len: "length b < 2 ^ 63"
    and g: "meta_geom stride handle m b" and T: "T = meta_table stride ksz m b" and st8: "8 \<le> unat stride"
  shows "unat cur < 2 ^ p \<Longrightarrow>
    remove_result m T c (scan T key (unat cur) n tm)
      (pure_probe n m stride (m_cap m - 1) inspect exhausted b cur c)"
proof (induction n arbitrary: cur tm)
  case 0
  then show ?case by (simp add: at_end)
next
  case (Suc n)
  have lT: "length T = 2 ^ p" using cap by (simp add: T meta_table_def)
  let ?buf = "slice (unat (m_table m) + unat cur * unat stride) (unat stride) b"
  have cur: "unat cur < unat (m_cap m)" using Suc.prems cap by simp
  note off = table_step_off [OF g len cur]
  have lb: "8 \<le> length ?buf" using off(4) st8 by simp
  have Tc: "T ! unat cur = decode_bucket ksz ?buf"
    using cur by (simp add: T meta_table_def nth_table_of)
  have nxt: "unat ((cur + 1) AND (m_cap m - 1)) = Suc (unat cur) mod length T"
    using unat_step_mask [OF cap Suc.prems] lT by simp
  then have nxt_less: "unat ((cur + 1) AND (m_cap m - 1)) < 2 ^ p" using lT by simp
  show ?case
  proof (cases "T ! unat cur")
    case Empty
    then have "get_u64 ?buf = 0" by (simp add: Tc decode_bucket_cases)
    from on_empty [OF lb this] Empty show ?thesis by simp
  next
    case (Occupied k v)
    then have o: "get_u64 ?buf = 1" "k = slice 8 ksz ?buf" "v = drop (8 + ksz) ?buf"
      by (simp_all add: Tc decode_bucket_cases)
    show ?thesis
    proof (cases "k = key")
      case True
      from on_key [OF lb o(1) _ off(1)] True o(2,3) Occupied show ?thesis
        by (simp add: remove_result_def)
    next
      case False
      from on_other [OF lb] False o(1,2) Occupied nxt Suc.IH [OF nxt_less] show ?thesis by simp
    qed
  next
    case Tombstone
    then have "get_u64 ?buf \<noteq> 0" "get_u64 ?buf \<noteq> 1" by (simp_all add: Tc decode_bucket_cases)
    with on_other [OF lb] Tombstone nxt Suc.IH [OF nxt_less] show ?thesis by simp
  qed
qed

lemma remove_step:
  assumes ok: "table_ok stride ksz m b" and g: "meta_geom stride handle m b" and m: "m = meta_at handle b"
    and len: "length b < 2 ^ 63" and T: "T = meta_table stride ksz m b" and s8: "8 \<le> unat stride"
  obtains ws T' c' where "pure_probe (unat (m_cap m)) m stride (m_cap m - 1) inspect exhausted b
      (fnv1a key AND (m_cap m - 1)) c = Inr (ws, c')"
    and "table_step stride ksz handle m b ws T'" and "table_map T' = (table_map T)(key := None)"
    and "c' = (case table_map T key of None \<Rightarrow> c | Some v \<Rightarrow> mark_found v c)"
proof -
  obtain p where cap: "unat (m_cap m) = 2 ^ p" using ok by (auto simp: table_ok_def)
  have wf: "wf_table key_hash T" and lT: "length T = unat (m_cap m)"
    using ok by (auto simp: table_ok_def T meta_table_def)
  have cur: "unat (fnv1a key AND (m_cap m - 1)) = key_hash key mod length T"
    by (simp add: unat_and_mask [OF cap] cap lT key_hash_def)
  have ne: "T \<noteq> []" using lT cap by auto
  define x where "x = pure_probe (unat (m_cap m)) m stride (m_cap m - 1) inspect exhausted b
      (fnv1a key AND (m_cap m - 1)) c"
  have pr: "remove_result m T c (probe key_hash T key) x"
    using remove_scan [OF cap len g T s8, of "fnv1a key AND (m_cap m - 1)" c "unat (m_cap m)" None] cap
    by (simp add: x_def probe_def cur lT)
  have sok: "scan_ok key_hash T key (probe key_hash T key)" using wf ne by (rule probe_correct)
  show thesis
  proof (cases "\<exists>i. probe key_hash T key = Found i")
    case True
    with sok obtain i v where f: "probe key_hash T key = Found i" and i: "i < unat (m_cap m)"
      and cu: "T ! i = Occupied key v" by (auto simp: scan_ok_def lT)
    have tm: "table_map T key = Some v" unfolding table_map_Some [OF wf] using i cu lT by (intro exI [of _ i]) simp
    have rm: "table_map (T[i := Tombstone]) = (table_map T)(key := None)"
      using remove_wf(2) [OF wf _ cu] i lT by simp
    have x: "x = Inr ([w8 (m_table m + of_nat i * stride) 2, w8 (handle + (HEADER_SIZE + 16)) (m_len m - 1)],
        mark_found v c)"
      using pr f cu by (simp add: remove_result_def)
    show thesis
      by (rule that [folded x_def, OF x tombstone_step [OF ok g m len s8 T i cu] rm]) (simp add: tm)
  next
    case False
    then have "table_map T key = None" and "x = Inr ([], c)"
      using sok pr by (cases "probe key_hash T key"; simp add: scan_ok_def remove_result_def)+
    then show thesis
      by (intro that [folded x_def, OF _ no_step [OF ok m]]) (simp_all add: T [symmetric] fun_upd_idem)
  qed
qed

end

end
