(* ===== verification/TableGrow.thy ===== *)
theory TableGrow
  imports TableSteps
begin

text \<open>
  Growth of an open-addressing table. The snapshot that \<^verbatim>\<open>grow_table\<close> takes is the old
  bucket block, the image it builds is the abstract \<open>rehash\<close> of it, and the batch that swaps
  the blocks keeps the map, drops the tombstones and leaves room for an insertion; an early
  return or an error keeps everything. Also here: a lookup loop that computes \<open>seek\<close>.
\<close>

section \<open>Snapshot\<close>

lemma unat_times_less:
  assumes "unat (c :: u64) * unat (stride :: u64) < u64_limit" and "unat (i :: u64) < unat c"
  shows "unat (i * stride) = unat i * unat stride"
proof -
  have "unat i * unat stride \<le> unat c * unat stride" using assms(2) by (intro mult_right_mono) auto
  from unat_mult_u64 [OF le_less_trans [OF this assms(1)]] show ?thesis .
qed

lemma overwrite_front:
  assumes "length d = st" and "lo + st \<le> length b"
  shows "take (lo + st) (overwrite lo d b) = take lo b @ d"
  using assms by (simp add: overwrite_def)

context stack_laws
begin

lemma snapshot_ok:
  assumes "v_good vw s" and "unat (m_table m) + unat (m_cap m) * unat stride \<le> length (v_bytes vw s)"
    and "length buf = unat (m_cap m) * unat stride" and "unat i + n = unat (m_cap m)"
    and "snapshot_loop n io m stride i buf s = (r, s')"
  shows "unchanged vw s s' \<and> (\<forall>old. r = Inr old \<longrightarrow> old = take (unat i * unat stride) buf
    @ slice (unat (m_table m) + unat i * unat stride) (n * unat stride) (v_bytes vw s))"
  using assms
proof (induction n arbitrary: i buf s)
  case 0
  then have "r = Inr buf" "s' = s" "unat i = unat (m_cap m)" by simp_all
  with 0 show ?case by (simp add: unchanged_def)
next
  case (Suc n)
  let ?st = "unat stride"
  have i: "unat i < unat (m_cap m)" using Suc.prems(4) by simp
  have lim: "unat (m_cap m) * ?st < u64_limit"
    using Suc.prems(2) good_store [OF Suc.prems(1)] by simp
  have lo: "unat (i * stride) = unat i * ?st" using lim i by (rule unat_times_less)
  have hi: "unat i * ?st + ?st \<le> length buf"
    using bucket_in_block [OF i, of 0 ?st "length buf"] Suc.prems(3) by simp
  note off = bucket_offset [OF Suc.prems(1,2) i]
  let ?off = "m_table m + i * stride"
  obtain rb s1 where rd: "op_read io ?off ?st s = (rb, s1)" by (cases "op_read io ?off ?st s")
  note u1 = read_bytes [OF Suc.prems(1) rd]
  show ?case
  proof (cases rb)
    case (Inl e)
    with Suc.prems(5) rd off(1) lo hi u1(1) show ?thesis by (auto simp: Let_def)
  next
    case (Inr b)
    have b: "b = slice (unat (m_table m) + unat i * ?st) ?st (v_bytes vw s)"
      using u1(2) [OF Inr] off(2) by simp
    have lb: "length b = ?st"
      using u1(3) [OF Inr] off(2) by (simp add: b)
    have g1: "v_good vw s1" and b1: "v_bytes vw s1 = v_bytes vw s"
      using u1(1) by (simp_all add: unchanged_def)
    have run: "snapshot_loop n io m stride (i + 1) (overwrite (unat i * ?st) b buf) s1 = (r, s')"
      using Suc.prems(5) rd off(1) lo hi Inr by (simp add: Let_def)
    have i1: "unat (i + 1) = unat i + 1" using i by (rule unat_Suc_cap)
    have "unchanged vw s1 s' \<and> (\<forall>old. r = Inr old \<longrightarrow> old = take (unat (i + 1) * ?st) (overwrite (unat i * ?st) b buf)
        @ slice (unat (m_table m) + unat (i + 1) * ?st) (n * ?st) (v_bytes vw s1))"
      using Suc.prems(2-4) b1 hi lb i1 by (intro Suc.IH [OF g1 _ _ _ run]) simp_all
    moreover have "take (unat (i + 1) * ?st) (overwrite (unat i * ?st) b buf) = take (unat i * ?st) buf @ b"
    proof -
      have "unat (i + 1) * ?st = unat i * ?st + ?st" by (simp only: i1) simp
      with overwrite_front [OF lb hi] show ?thesis by (simp only:)
    qed
    moreover have "slice (unat (m_table m) + unat i * ?st) (Suc n * ?st) (v_bytes vw s)
        = b @ slice (unat (m_table m) + unat (i + 1) * ?st) (n * ?st) (v_bytes vw s)"
    proof -
      have "Suc n * ?st = ?st + n * ?st" "unat (m_table m) + unat (i + 1) * ?st = unat (m_table m) + unat i * ?st + ?st"
        by (simp_all only: i1) simp_all
      then show ?thesis by (simp only: slice_append_split b)
    qed
    ultimately show ?thesis using unchanged_trans [OF u1(1)] b1 by auto
  qed
qed

end

section \<open>Rebuilding\<close>

lemma drop_slice: "drop k (slice a n b) = slice (a + k) (n - k) b"
  by (simp add: slice_def drop_take add.commute [of a k])

text \<open>A bucket image of a table is a list of buckets, each in a known state.\<close>

definition states_in :: "nat \<Rightarrow> nat \<Rightarrow> u8 list \<Rightarrow> bool" where
  "states_in st cap img \<longleftrightarrow> (\<forall>j < cap. bucket_state_ok (slice (j * st) st img))"

abbreviation image_table :: "nat \<Rightarrow> nat \<Rightarrow> nat \<Rightarrow> u8 list \<Rightarrow> (u8 list, u8 list) bucket list" where
  "image_table st ksz cap img \<equiv> table_of st ksz cap 0 img"

lemma get_u64_slice_long: "8 \<le> n \<Longrightarrow> get_u64 (slice a n b) = get_u64 (slice a 8 b)"
  by (simp add: get_u64_def slice_def)

lemma image_item:
  assumes img: "length img = cap * st" and i: "i < cap" and item: "length item = st"
    and d: "decode_bucket ksz item = B" and ok: "bucket_state_ok item" and st: "states_in st cap img"
  shows "image_table st ksz cap (overwrite (i * st) item img) = (image_table st ksz cap img)[i := B]"
    and "states_in st cap (overwrite (i * st) item img)"
    and "length (overwrite (i * st) item img) = cap * st"
proof -
  have blk: "i * st + st \<le> cap * st" using bucket_in_block [OF i, of 0 st "cap * st"] by simp
  have ow: "overwrite 0 item (slice (i * st) st img) = item"
    using img blk item by (intro overwrite_whole) simp
  have g: "0 + cap * st \<le> length img" using img by simp
  show "image_table st ksz cap (overwrite (i * st) item img) = (image_table st ksz cap img)[i := B]"
    using bucket_write_table [OF g i, of 0 item ksz] item ow d by simp
  show "states_in st cap (overwrite (i * st) item img)"
    using bucket_write_other [OF g i, of 0 item] item ow ok st by (simp add: states_in_def)
  show "length (overwrite (i * st) item img) = cap * st"
    using img blk item by simp
qed

lemma place_loop_first:
  assumes cap: "unat newcap = 2 ^ p" and lim: "unat newcap * unat stride < u64_limit"
    and st: "8 \<le> unat stride" and img: "length img = unat newcap * unat stride"
  shows "unat idx < 2 ^ p \<Longrightarrow> place_loop n stride (newcap - 1) item idx img =
    map_option (\<lambda>i. overwrite (i * unat stride) item img)
      (first_empty (image_table (unat stride) ksz (unat newcap) img) (unat idx) n)"
proof (induction n arbitrary: idx)
  case (Suc n)
  have i: "unat idx < unat newcap" using Suc.prems cap by simp
  have lo: "unat (idx * stride) = unat idx * unat stride" using lim i by (rule unat_times_less)
  have nxt: "unat ((idx + 1) AND (newcap - 1)) = Suc (unat idx) mod unat newcap"
    using unat_step_mask [OF cap Suc.prems] cap by simp
  let ?T = "image_table (unat stride) ksz (unat newcap) img"
  have e: "(get_u64 (slice (unat (idx * stride)) 8 img) = 0) = (?T ! unat idx = Empty)"
    using i st by (simp add: nth_table_of decode_bucket_cases lo get_u64_slice_long [of "unat stride"] del: get_u64_slice8)
  have less: "unat ((idx + 1) AND (newcap - 1)) < 2 ^ p" by (simp only: unat_and_mask [OF cap]) simp
  have "place_loop (Suc n) stride (newcap - 1) item idx img =
      (if ?T ! unat idx = Empty then Some (overwrite (unat idx * unat stride) item img)
       else place_loop n stride (newcap - 1) item ((idx + 1) AND (newcap - 1)) img)"
    unfolding place_loop.simps Let_def e [symmetric] lo ..
  with Suc.IH [OF less] show ?case
    by (cases "?T ! unat idx = Empty") (simp_all only: first_empty.simps nxt length_table_of option.map if_True if_False simp_thms)
qed simp

lemma rebuild_rehash:
  assumes newcap: "unat newcap = 2 ^ p" and lim: "unat newcap * unat stride < u64_limit"
    and st: "8 + ksz \<le> unat stride" and old: "length old = unat cap * unat stride"
    and olim: "unat (cap :: u64) * unat stride < u64_limit"
    and T: "T = image_table (unat stride) ksz (unat cap) old"
  shows "unat j + n = unat cap \<Longrightarrow> length img = unat newcap * unat stride \<Longrightarrow>
    states_in (unat stride) (unat newcap) img \<Longrightarrow>
    rehash key_hash (image_table (unat stride) ksz (unat newcap) img) (drop (unat j) T) = Some T' \<Longrightarrow>
    \<exists>img'. rebuild_loop n stride ksz 1 newcap old j img = Some img'
      \<and> image_table (unat stride) ksz (unat newcap) img' = T'
      \<and> states_in (unat stride) (unat newcap) img' \<and> length img' = unat newcap * unat stride"
proof (induction n arbitrary: j img)
  case 0
  then show ?case by (simp add: T)
next
  case (Suc n)
  let ?st = "unat stride"
  have j: "unat j < unat cap" using Suc.prems(1) by simp
  have lo: "unat (j * stride) = unat j * ?st" using olim j by (rule unat_times_less)
  have j1: "unat (j + 1) = unat j + 1" using j by (rule unat_Suc_cap)
  have blk: "unat j * ?st + ?st \<le> length old"
    using bucket_in_block [OF j, of 0 ?st "length old"] old by simp
  let ?kb = "slice (unat j * ?st + 8) ksz old"
  let ?rest = "slice (unat j * ?st + 8 + ksz) (?st - 8 - ksz) old"
  have Tj: "T ! unat j = decode_bucket ksz (slice (unat j * ?st) ?st old)"
    using j by (simp add: T nth_table_of)
  have g8: "get_u64 (slice (unat j * ?st) ?st old) = get_u64 (slice (unat j * ?st) 8 old)"
    using st by (intro get_u64_slice_long) simp
  have dr: "drop (unat j) T = T ! unat j # drop (unat (j + 1)) T"
    using j by (simp add: Cons_nth_drop_Suc j1 T)
  show ?case
  proof (cases "get_u64 (slice (unat j * ?st) 8 old) = 1")
    case False
    then have "\<forall>k v. T ! unat j \<noteq> Occupied k v" using g8 by (simp add: Tj decode_bucket_cases del: get_u64_slice8)
    with Suc.prems dr have "rehash key_hash (image_table ?st ksz (unat newcap) img) (drop (unat (j + 1)) T) = Some T'"
      by (cases "T ! unat j") auto
    with Suc.IH [of "j + 1" img] Suc.prems(1-3) j1 False lo show ?thesis by (simp add: Let_def del: get_u64_slice8)
  next
    case True
    have occ: "T ! unat j = Occupied ?kb ?rest"
      using True g8 st blk
      by (simp add: Tj decode_bucket_cases slice_slice drop_slice ac_simps del: get_u64_slice8)
    let ?TI = "image_table ?st ksz (unat newcap) img"
    have hash: "unat (fnv1a ?kb AND (newcap - 1)) = key_hash ?kb mod unat newcap"
      using unat_and_mask [OF newcap] newcap by (simp add: key_hash_def)
    then have hl: "unat (fnv1a ?kb AND (newcap - 1)) < 2 ^ p" using newcap by simp
    have ln: "length ?kb = ksz" "length (to_le64 1 @ ?kb @ ?rest) = ?st" using blk st by simp_all
    obtain i where fe: "first_empty ?TI (key_hash ?kb mod unat newcap) (unat newcap) = Some i"
      and rh: "rehash key_hash (?TI[i := Occupied ?kb ?rest]) (drop (unat (j + 1)) T) = Some T'"
      using Suc.prems(4) unfolding dr occ by (auto split: option.splits)
    have "?TI \<noteq> []" using newcap by (simp add: table_of_def)
    then have il: "i < unat newcap"
      using first_empty_correct [of 0 ?TI key_hash ?kb "unat newcap"] fe by (simp add: probe_pos_0)
    let ?img = "overwrite (i * ?st) (to_le64 1 @ ?kb @ ?rest) img"
    have "place_loop (unat newcap) stride (newcap - 1) (to_le64 1 @ ?kb @ ?rest) (fnv1a ?kb AND (newcap - 1)) img = Some ?img"
      using place_loop_first [OF newcap lim _ Suc.prems(2) hl, where ksz = ksz and n = "unat newcap"] st fe hash by simp
    then have step: "rebuild_loop (Suc n) stride ksz 1 newcap old j img = rebuild_loop n stride ksz 1 newcap old (j + 1) ?img"
      using True lo by (simp add: Let_def del: get_u64_slice8)
    note im = image_item [OF Suc.prems(2) il ln(2) decode_item [OF ln(1)] state_item Suc.prems(3)]
    have "\<exists>img'. rebuild_loop n stride ksz 1 newcap old (j + 1) ?img = Some img'
      \<and> image_table ?st ksz (unat newcap) img' = T'
      \<and> states_in ?st (unat newcap) img' \<and> length img' = unat newcap * ?st"
      using Suc.prems(1) j1 im rh by (intro Suc.IH) simp_all
    with step show ?thesis by simp
  qed
qed

section \<open>The image of a grown table\<close>

lemma image_fresh:
  "image_table st ksz cap (replicate (cap * st) 0) = replicate cap Empty"
  "states_in st cap (replicate (cap * st) 0)"
proof -
  have z: "get_u64 (replicate n 0) = 0" for n
  proof -
    have "le_dec (replicate k 0) = 0" for k by (induction k) simp_all
    then show ?thesis by (simp add: get_u64_def from_le64_def min_def)
  qed
  have sl: "slice (j * st) st (replicate (cap * st) 0) = replicate (min st (cap * st - j * st)) (0 :: u8)" for j
    by (simp add: slice_def min_def)
  show "image_table st ksz cap (replicate (cap * st) 0) = replicate cap Empty"
    by (intro nth_equalityI) (simp_all add: nth_table_of sl decode_bucket_def z)
  show "states_in st cap (replicate (cap * st) 0)"
    by (simp add: states_in_def sl bucket_state_ok_def z)
qed

lemma meta_table_snapshot:
  "meta_table stride ksz m b = image_table (unat stride) ksz (unat (m_cap m))
     (slice (unat (m_table m)) (unat (m_cap m) * unat stride) b)"
proof -
  have "slice (j * unat stride) (unat stride) (slice (unat (m_table m)) (unat (m_cap m) * unat stride) b)
      = slice (unat (m_table m) + j * unat stride) (unat stride) b" if "j < unat (m_cap m)" for j
    using bucket_in_block [OF that, of 0 "unat stride" "unat (m_cap m) * unat stride"]
    by (simp add: slice_slice)
  then show ?thesis by (simp add: meta_table_def table_of_def)
qed

lemma grow_image:
  assumes newcap: "unat newcap = 2 ^ p" and lim: "unat newcap * unat stride < u64_limit"
    and st: "8 + ksz \<le> unat stride" and blk: "unat (m_table m) + unat (m_cap m) * unat stride \<le> length b"
    and olim: "length b < u64_limit" and wf: "wf_table key_hash (meta_table stride ksz m b)"
    and live: "live_count (meta_table stride ksz m b) < unat newcap"
  shows "\<exists>img. rebuild_loop (unat (m_cap m)) stride ksz 1 newcap
        (slice (unat (m_table m)) (unat (m_cap m) * unat stride) b) 0
        (replicate (unat newcap * unat stride) 0) = Some img
      \<and> length img = unat newcap * unat stride \<and> states_in (unat stride) (unat newcap) img
      \<and> wf_table key_hash (image_table (unat stride) ksz (unat newcap) img)
      \<and> table_map (image_table (unat stride) ksz (unat newcap) img) = table_map (meta_table stride ksz m b)
      \<and> used_count (image_table (unat stride) ksz (unat newcap) img) = live_count (meta_table stride ksz m b)
      \<and> live_count (image_table (unat stride) ksz (unat newcap) img) = live_count (meta_table stride ksz m b)"
proof -
  obtain T' where T': "rehash key_hash (replicate (unat newcap) Empty) (meta_table stride ksz m b) = Some T'"
    "wf_table key_hash T'" "table_map T' = table_map (meta_table stride ksz m b)"
    "used_count T' = live_count (meta_table stride ksz m b)" "live_count T' = live_count (meta_table stride ksz m b)"
    using rehash_fresh [OF wf live] by blast
  have "length (slice (unat (m_table m)) (unat (m_cap m) * unat stride) b) = unat (m_cap m) * unat stride"
    using blk by simp
  moreover have "unat (m_cap m) * unat stride < u64_limit" using blk olim by simp
  ultimately obtain img where "rebuild_loop (unat (m_cap m)) stride ksz 1 newcap
        (slice (unat (m_table m)) (unat (m_cap m) * unat stride) b) 0
        (replicate (unat newcap * unat stride) 0) = Some img"
    "image_table (unat stride) ksz (unat newcap) img = T'"
    "states_in (unat stride) (unat newcap) img" "length img = unat newcap * unat stride"
    using rebuild_rehash [OF newcap lim st _ _ meta_table_snapshot, of m b 0 "unat (m_cap m)"
        "replicate (unat newcap * unat stride) 0" T'] T'(1) image_fresh by auto
  with T' show ?thesis by blast
qed

text \<open>The batch that swaps the blocks.\<close>

lemma swap_bytes:
  assumes h: "unat h + 48 \<le> length b" and len: "length b < 2 ^ 63"
    and blk: "unat nt + unat ncap * unat stride \<le> length b"
    and ap: "unat h + 48 \<le> unat nt \<or> unat nt + unat ncap * unat stride \<le> unat h"
    and img: "length img = unat ncap * unat stride"
    and b': "b' = apply_writes (grow_writes h nt ncap m img) b" and m: "m = meta_at h b"
  shows "in_bounds b (grow_writes h nt ncap m img)" and "length b' = length b"
    and "meta_at h b' = \<lparr>m_table = nt, m_cap = ncap, m_len = m_len m, m_used = m_len m\<rparr>"
    and "j < unat ncap \<Longrightarrow> slice (unat nt + j * unat stride) (unat stride) b' = slice (j * unat stride) (unat stride) img"
proof -
  have off: "unat (h + HEADER_SIZE) = unat h + 16" "unat (h + HEADER_SIZE + 8) = unat h + 24"
    "unat (h + HEADER_SIZE + 24) = unat h + 40"
    using h len by (simp_all add: HEADER_SIZE_def unat_plus_u64)
  show ib: "in_bounds b (grow_writes h nt ncap m img)"
    using h blk img by (simp add: grow_writes_def w8_def off)
  then show "length b' = length b" by (simp add: b')
  have b'_def: "b' = overwrite (unat h + 40) (to_le64 (m_len m)) (overwrite (unat h + 24) (to_le64 ncap)
      (overwrite (unat h + 16) (to_le64 nt) (overwrite (unat nt) img b)))"
    by (simp add: b' grow_writes_def w8_def off)
  have len_field: "from_le64 (slice (unat h + 32) 8 b) = m_len m" by (simp add: m meta_at_fields)
  have "slice (unat h + 32) 8 (overwrite (unat nt) img b) = slice (unat h + 32) 8 b"
    using h blk ap img by (intro slice_overwrite_disjoint) auto
  then show "meta_at h b' = \<lparr>m_table = nt, m_cap = ncap, m_len = m_len m, m_used = m_len m\<rparr>"
    using h blk img len_field
    by (simp add: b'_def meta_at_fields slice_overwrite_same slice_overwrite_disjoint)
  show "slice (unat nt + j * unat stride) (unat stride) b' = slice (j * unat stride) (unat stride) img"
    if j: "j < unat ncap"
  proof -
    have jb: "unat nt + j * unat stride + unat stride \<le> unat nt + unat ncap * unat stride"
      using j by (rule bucket_in_block) simp
    have "slice (unat nt + j * unat stride) (unat stride) b'
        = slice (unat nt + j * unat stride) (unat stride) (overwrite (unat nt) img b)"
      unfolding b'_def using h blk ap img jb by (subst slice_overwrite_disjoint; fastforce?)+
    also have "\<dots> = slice (j * unat stride) (unat stride) img"
      using blk img jb by (subst slice_overwrite_inside) auto
    finally show ?thesis .
  qed
qed

section \<open>Growth\<close>

definition has_room :: "'s stack_view \<Rightarrow> u64 \<Rightarrow> 's \<Rightarrow> bool" where
  "has_room vw handle s \<longleftrightarrow> (let m = meta_at handle (v_bytes vw s) in
     m_cap m \<noteq> 0 \<and> 4 * (unat (m_used m) + 1) \<le> 3 * unat (m_cap m))"

text \<open>What every outcome of a growth keeps.\<close>

definition tbl_kept :: "'s stack_view \<Rightarrow> u64 \<Rightarrow> nat \<Rightarrow> u64 \<Rightarrow> range \<Rightarrow> 's \<Rightarrow> 's \<Rightarrow> bool" where
  "tbl_kept vw stride ksz handle H s s' \<longleftrightarrow>
     tbl_inv vw stride ksz handle H s' \<and> tbl_abs vw stride ksz handle s' = tbl_abs vw stride ksz handle s
     \<and> tbl_frame vw stride handle H s s'"

lemma tbl_kept_trans:
  "tbl_kept vw stride ksz h H s s1 \<Longrightarrow> tbl_kept vw stride ksz h H s1 s2 \<Longrightarrow> tbl_kept vw stride ksz h H s s2"
  using tbl_frame_trans by (fastforce simp: tbl_kept_def)

lemma tbl_kept_refl: "tbl_inv vw stride ksz h H s \<Longrightarrow> tbl_kept vw stride ksz h H s s"
  by (simp add: tbl_kept_def tbl_frame_refl)

context stack_laws
begin

lemma kept_unchanged:
  assumes "tbl_inv vw stride ksz handle H s" and "unchanged vw s s'"
  shows "tbl_kept vw stride ksz handle H s s'"
  using assms tbl_inv_unchanged [OF assms(2)] inv_handle(3) [OF assms(1)] tbl_frame_unchanged [OF assms(2)]
  by (auto simp: tbl_kept_def)

text \<open>Allocation and release around a table.\<close>

lemma relived_meta:
  assumes inv: "tbl_inv vw stride ksz handle H s" and r: "relived vw s R L s'"
    and R: "table_blocks stride handle H (v_bytes vw s) \<subseteq> R"
  shows "meta_at handle (v_bytes vw s') = meta_at handle (v_bytes vw s)"
proof -
  have so: "same_on (insert reserved R) (v_bytes vw s) (v_bytes vw s')" using r by (simp add: relived_def)
  have "H \<in> R" using R by (auto simp: table_blocks_def)
  then have "content (v_bytes vw s') H = content (v_bytes vw s) H" using so by (simp add: same_on_def)
  moreover have "unat (fst H) \<le> unat handle + 16" "unat handle + 16 + 32 \<le> unat (fst H) + unat (snd H)"
    using inv by (auto simp: tbl_inv_def inside_def range_end_def)
  ultimately show ?thesis
    by (intro meta_at_cong) (auto simp: content_def intro: slice_mono_eq)
qed

lemma relived_kept:
  assumes inv: "tbl_inv vw stride ksz handle H s" and r: "relived vw s R L s'"
    and R: "R \<subseteq> v_live vw s" and B: "table_blocks stride handle H (v_bytes vw s) \<subseteq> R \<inter> L"
  shows "tbl_inv vw stride ksz handle H s'" and "tbl_abs vw stride ksz handle s' = tbl_abs vw stride ksz handle s"
    and "table_blocks stride handle H (v_bytes vw s') = table_blocks stride handle H (v_bytes vw s)"
proof -
  define m where "m = meta_at handle (v_bytes vw s)"
  have m': "meta_at handle (v_bytes vw s') = m"
    using relived_meta [OF inv r] B by (simp add: m_def)
  have g': "v_good vw s'" and L: "v_live vw s' = L"
    and so: "same_on (insert reserved R) (v_bytes vw s) (v_bytes vw s')"
    using r by (simp_all add: relived_def)
  have H: "H \<in> L" using B by (auto simp: table_blocks_def)
  show "table_blocks stride handle H (v_bytes vw s') = table_blocks stride handle H (v_bytes vw s)"
    using m' by (simp add: table_blocks_def m_def)
  have both: "tbl_inv vw stride ksz handle H s' \<and> tbl_abs vw stride ksz handle s' = tbl_abs vw stride ksz handle s"
  proof (cases "m_cap m = 0")
    case True
    then show ?thesis
      using inv g' L H by (simp add: tbl_inv_def tbl_abs_def m' m_def [symmetric] Let_def meta_table_def table_of_def)
  next
    case False
    note P = inv_parts [OF inv m_def False]
    let ?q = "table_range stride m"
    have q: "?q \<in> R" "?q \<in> L" "?q \<noteq> H" using B P(6) inv False by (auto simp: m_def tbl_inv_def Let_def)
    have c: "content (v_bytes vw s') ?q = content (v_bytes vw s) ?q" using so q(1) by (simp add: same_on_def)
    have re: "unat (fst ?q) = unat (m_table m)" "unat (snd ?q) = unat (m_cap m) * unat stride"
      using P(8) by (auto simp: table_range_def range_end_def)
    have c': "slice (unat (m_table m)) (unat (m_cap m) * unat stride) (v_bytes vw s')
        = slice (unat (m_table m)) (unat (m_cap m) * unat stride) (v_bytes vw s)"
      using c by (simp only: content_def re)
    have sl: "slice (unat (m_table m) + j * unat stride) (unat stride) (v_bytes vw s')
        = slice (unat (m_table m) + j * unat stride) (unat stride) (v_bytes vw s)" if "j < unat (m_cap m)" for j
      by (rule slice_mono_eq [OF c' le_add1 bucket_in_block [OF that order.refl]])
    then have mt: "meta_table stride ksz m (v_bytes vw s') = meta_table stride ksz m (v_bytes vw s)"
      by (simp add: meta_table_def table_of_def)
    have "unat (m_table m) + unat (m_cap m) * unat stride \<le> length (v_bytes vw s')"
      using good_live [OF g', of ?q] q(2) L P(8) by (simp add: range_end_def re)
    then have "table_ok stride ksz m (v_bytes vw s')"
      using P(1) mt sl by (simp add: table_ok_def)
    then show ?thesis
      using inv g' L H q mt by (simp add: tbl_inv_def tbl_abs_def m' m_def [symmetric] Let_def False)
  qed
  from both show "tbl_inv vw stride ksz handle H s'" and "tbl_abs vw stride ksz handle s' = tbl_abs vw stride ksz handle s"
    by simp_all
qed

lemma blocks_live:
  "tbl_inv vw stride ksz handle H s \<Longrightarrow> table_blocks stride handle H (v_bytes vw s) \<subseteq> v_live vw s"
  by (auto simp: tbl_inv_def table_blocks_def Let_def)

text \<open>Releasing or keeping an allocation that is not the table's.\<close>

lemma dealloc_kept:
  assumes inv: "tbl_inv vw stride ksz handle H s" and q: "q \<in> v_live vw s"
    and nq: "q \<notin> table_blocks stride handle H (v_bytes vw s)"
    and d: "op_dealloc io q s = (ru, s')"
  shows "tbl_inv vw stride ksz handle H s'" and "tbl_abs vw stride ksz handle s' = tbl_abs vw stride ksz handle s"
    and "table_blocks stride handle H (v_bytes vw s') = table_blocks stride handle H (v_bytes vw s)"
    and "v_live vw s - {q} \<subseteq> v_live vw s'"
    and "same_on (insert reserved (v_live vw s - {q})) (v_bytes vw s) (v_bytes vw s')"
    and "outer_kept handle H (v_bytes vw s) (v_bytes vw s')"
proof -
  obtain L where r: "relived vw s (v_live vw s - {q}) L s'" and L: "v_live vw s - {q} \<subseteq> L"
    using dealloc_law [OF inv_handle(3) [OF inv] q d] by blast
  have B: "table_blocks stride handle H (v_bytes vw s) \<subseteq> (v_live vw s - {q}) \<inter> L"
    using blocks_live [OF inv] nq L by blast
  note k = relived_kept [OF inv r Diff_subset B]
  from k show "tbl_inv vw stride ksz handle H s'" "tbl_abs vw stride ksz handle s' = tbl_abs vw stride ksz handle s"
    "table_blocks stride handle H (v_bytes vw s') = table_blocks stride handle H (v_bytes vw s)" by simp_all
  from r L show "v_live vw s - {q} \<subseteq> v_live vw s'"
    "same_on (insert reserved (v_live vw s - {q})) (v_bytes vw s) (v_bytes vw s')"
    by (simp_all add: relived_def)
  have "same_on (insert reserved (v_live vw s - {q})) (v_bytes vw s) (v_bytes vw s')"
    using r by (simp add: relived_def)
  then show "outer_kept handle H (v_bytes vw s) (v_bytes vw s')"
    by (rule outer_kept_same_on) (use B in \<open>auto simp: table_blocks_def\<close>)
qed

text \<open>The table as it is, with or without buckets.\<close>

lemma inv_counts:
  assumes inv: "tbl_inv vw stride ksz handle H s" and m: "m = meta_at handle (v_bytes vw s)"
  shows "wf_table key_hash (meta_table stride ksz m (v_bytes vw s))"
    and "unat (m_len m) = live_count (meta_table stride ksz m (v_bytes vw s))"
    and "4 * unat (m_len m) \<le> 3 * unat (m_cap m)"
proof -
  have "wf_table key_hash (meta_table stride ksz m (v_bytes vw s))
      \<and> unat (m_len m) = live_count (meta_table stride ksz m (v_bytes vw s))
      \<and> 4 * unat (m_len m) \<le> 3 * unat (m_cap m)"
  proof (cases "m_cap m = 0")
    case True
    then have "meta_table stride ksz m (v_bytes vw s) = []" by (simp add: meta_table_def table_of_def)
    with True inv m show ?thesis
      by (simp add: tbl_inv_def Let_def wf_table_def live_count_def entries_def List.map_filter_def)
  next
    case False
    with inv m have "table_ok stride ksz m (v_bytes vw s)" by (auto simp: tbl_inv_def Let_def)
    then show ?thesis
      using live_le_used [of "meta_table stride ksz m (v_bytes vw s)"] by (auto simp: table_ok_def)
  qed
  then show "wf_table key_hash (meta_table stride ksz m (v_bytes vw s))"
    and "unat (m_len m) = live_count (meta_table stride ksz m (v_bytes vw s))"
    and "4 * unat (m_len m) \<le> 3 * unat (m_cap m)" by simp_all
qed

lemma swap_ok:
  assumes inv: "tbl_inv vw stride ksz handle H s" and m: "m = meta_at handle (v_bytes vw s)"
    and q: "q = (nt, ncap * stride)" "q \<in> v_live vw s" "q \<notin> table_blocks stride handle H (v_bytes vw s)"
    and lim: "unat ncap * unat stride < u64_limit" and pow: "unat ncap = 2 ^ p" "2 \<le> p"
    and img: "length img = unat ncap * unat stride" "states_in (unat stride) (unat ncap) img"
      "wf_table key_hash (image_table (unat stride) ksz (unat ncap) img)"
      "table_map (image_table (unat stride) ksz (unat ncap) img) = tbl_abs vw stride ksz handle s"
      "used_count (image_table (unat stride) ksz (unat ncap) img) = unat (m_len m)"
      "live_count (image_table (unat stride) ksz (unat ncap) img) = unat (m_len m)"
    and room: "4 * (unat (m_len m) + 1) \<le> 3 * unat ncap"
    and w: "written vw s (apply_writes (grow_writes handle nt ncap m img) (v_bytes vw s)) s'"
  shows "tbl_inv vw stride ksz handle H s'" and "tbl_abs vw stride ksz handle s' = tbl_abs vw stride ksz handle s"
    and "has_room vw handle s'" and "table_blocks stride handle H (v_bytes vw s') = {H, q}"
    and "same_on (insert reserved (v_live vw s - {H, q})) (v_bytes vw s) (v_bytes vw s')"
    and "outer_kept handle H (v_bytes vw s) (v_bytes vw s')"
proof -
  define b' where "b' = apply_writes (grow_writes handle nt ncap m img) (v_bytes vw s)"
  have w': "v_good vw s'" "v_bytes vw s' = b'" "v_live vw s' = v_live vw s"
    using w by (simp_all add: written_def b'_def)
  note g = inv_handle [OF inv]
  have Hl: "H \<in> v_live vw s" "inside (unat handle) 48 H" using inv by (simp_all add: tbl_inv_def)
  have qH: "q \<noteq> H" using q(3) by (auto simp: table_blocks_def)
  have uq: "unat (fst q) = unat nt" "unat (snd q) = unat ncap * unat stride"
    using q(1) lim by (simp_all add: unat_mult_u64)
  have blk: "unat nt + unat ncap * unat stride \<le> length (v_bytes vw s)"
    using good_live [OF g(3) q(2)] uq by (simp add: range_end_def)
  have ap: "unat handle + 48 \<le> unat nt \<or> unat nt + unat ncap * unat stride \<le> unat handle"
    using good_apart [OF g(3) Hl(1) q(2)] qH inside_apart [OF Hl(2), of q] uq by (auto simp: range_end_def)
  note sw = swap_bytes [OF g(1,2) blk ap img(1) b'_def m]
  have mt: "meta_at handle b' = \<lparr>m_table = nt, m_cap = ncap, m_len = m_len m, m_used = m_len m\<rparr>" by (rule sw(3))
  have tab: "meta_table stride ksz (meta_at handle b') b' = image_table (unat stride) ksz (unat ncap) img"
    using sw(4) by (simp add: meta_table_def table_of_def mt)
  have c0: "ncap \<noteq> 0" using pow by auto
  have st: "\<forall>j < unat ncap. bucket_state_ok (slice (unat nt + j * unat stride) (unat stride) b')"
    using sw(4) img(2) by (simp add: states_in_def)
  have "\<exists>k \<ge> 2. unat ncap = 2 ^ k" using pow by blast
  then have "table_ok stride ksz (meta_at handle b') b'"
    using blk sw(2) tab img(3,5,6) st room unfolding table_ok_def by (simp add: mt)
  then show "tbl_inv vw stride ksz handle H s'"
    using inv w' q(1,2) qH c0 by (simp add: tbl_inv_def Let_def mt table_range_def)
  show "tbl_abs vw stride ksz handle s' = tbl_abs vw stride ksz handle s"
    using tab img(4) by (simp add: tbl_abs_def w'(2))
  show "has_room vw handle s'" using room c0 by (simp add: has_room_def w'(2) mt)
  show "table_blocks stride handle H (v_bytes vw s') = {H, q}"
    using c0 q(1) by (auto simp: table_blocks_def w'(2) mt table_range_def)
  have off: "unat (handle + HEADER_SIZE) = unat handle + 16" "unat (handle + HEADER_SIZE + 8) = unat handle + 24"
      "unat (handle + HEADER_SIZE + 24) = unat handle + 40"
    using g(1,2) by (simp_all add: HEADER_SIZE_def unat_plus_u64)
  have "\<forall>(off, d) \<in> set (grow_writes handle nt ncap m img). \<exists>r \<in> {H, q}. inside (unat off) (length d) r"
    using Hl(2) uq img(1) off by (auto simp: grow_writes_def w8_def inside_def range_end_def)
  then show "same_on (insert reserved (v_live vw s - {H, q})) (v_bytes vw s) (v_bytes vw s')"
    using same_on_writes [OF g(3) sw(1), of "{H, q}"] Hl(1) q(2) w'(2) by (simp add: b'_def)
  have "apart H q" "range_end H \<le> length (v_bytes vw s)"
    using good_apart [OF g(3) Hl(1) q(2)] good_live [OF g(3) Hl(1)] qH by auto
  then show "outer_kept handle H (v_bytes vw s) (v_bytes vw s')"
    unfolding w'(2) b'_def
    by (intro outer_kept_writes [OF sw(1)])
      (auto simp: grow_writes_def w8_def off img(1) apart_def uq range_end_def)
qed

lemma grow_reads_ok:
  assumes inv: "tbl_inv vw stride ksz handle H s" and m: "m = meta_at handle (v_bytes vw s)"
    and more: "unat (m_cap m) < unat newcap" and osz: "unat old_size = unat (m_cap m) * unat stride"
    and run: "grow_reads io handle stride old_size newcap s = (r, s')"
  shows "unchanged vw s s'" and "r \<noteq> Inr None"
    and "r = Inr (Some (m', old)) \<Longrightarrow> m' = m
      \<and> old = slice (unat (m_table m)) (unat (m_cap m) * unat stride) (v_bytes vw s)"
proof -
  obtain rb s1 where rd: "op_read io (handle + HEADER_SIZE) 32 s = (rb, s1)"
    by (cases "op_read io (handle + HEADER_SIZE) 32 s")
  note rm = read_meta [OF inv rd]
  have "unchanged vw s s' \<and> r \<noteq> Inr None \<and> (r = Inr (Some (m', old)) \<longrightarrow> m' = m
      \<and> old = slice (unat (m_table m)) (unat (m_cap m) * unat stride) (v_bytes vw s))"
  proof (cases rb)
    case (Inl e)
    with run rd rm(1) show ?thesis by (auto simp: grow_reads_def)
  next
    case (Inr b)
    obtain ro s2 where sn: "snapshot_loop (unat (m_cap m)) io m stride 0 (replicate (unat old_size) 0) s1 = (ro, s2)"
      by (cases "snapshot_loop (unat (m_cap m)) io m stride 0 (replicate (unat old_size) 0) s1")
    have "\<not> newcap \<le> m_cap m" using more by (simp add: word_le_nat_alt)
    with run rd Inr sn rm(2) [OF Inr] m have res: "(r, s') = (case ro of Inl e \<Rightarrow> (Inl e, s2) | Inr old \<Rightarrow> (Inr (Some (m, old)), s2))"
      by (cases ro) (simp_all add: grow_reads_def Let_def)
    have sp: "unchanged vw s1 s2 \<and> (\<forall>old. ro = Inr old \<longrightarrow>
        old = slice (unat (m_table m)) (unat (m_cap m) * unat stride) (v_bytes vw s))"
    proof (cases "m_cap m = 0")
      case True
      with sn rm(1) osz show ?thesis by (auto simp: unchanged_def)
    next
      case False
      have g1: "v_good vw s1" and b1: "v_bytes vw s1 = v_bytes vw s" using rm(1) by (simp_all add: unchanged_def)
      have "unat (m_table m) + unat (m_cap m) * unat stride \<le> length (v_bytes vw s1)"
        using inv_parts(1) [OF inv m False] b1 by (simp add: table_ok_def)
      from snapshot_ok [OF g1 this _ _ sn] osz b1 show ?thesis by simp
    qed
    have "unchanged vw s s2" using rm(1) sp unchanged_trans by blast
    with res sp show ?thesis by (cases ro) auto
  qed
  then show "unchanged vw s s'" and "r \<noteq> Inr None"
    and "r = Inr (Some (m', old)) \<Longrightarrow> m' = m
      \<and> old = slice (unat (m_table m)) (unat (m_cap m) * unat stride) (v_bytes vw s)" by blast+
qed

text \<open>Outcome of a growth into a spare block \<open>q\<close> that is not part of the table.\<close>

lemma spare_frame:
  assumes "q \<notin> table_blocks stride h H (v_bytes vw s)"
    and "table_blocks stride h H (v_bytes vw s') \<subseteq> insert q (table_blocks stride h H (v_bytes vw s))"
    and "v_live vw s - insert q (table_blocks stride h H (v_bytes vw s)) \<subseteq> v_live vw s'"
    and "same_on (insert reserved (v_live vw s - insert q (table_blocks stride h H (v_bytes vw s))))
      (v_bytes vw s) (v_bytes vw s')"
    and r: "relived vw s0 (v_live vw s0) (insert q (v_live vw s0)) s" and q: "q \<notin> v_live vw s0"
    and b: "table_blocks stride h H (v_bytes vw s) = table_blocks stride h H (v_bytes vw s0)"
    and out: "outer_kept h H (v_bytes vw s) (v_bytes vw s')" and H: "H \<in> v_live vw s0"
  shows "tbl_frame vw stride h H s0 s'"
proof -
  have o: "v_live vw s0 - table_blocks stride h H (v_bytes vw s0) = v_live vw s - insert q (table_blocks stride h H (v_bytes vw s))"
    using r q b by (auto simp: relived_def)
  have "same_on (insert reserved (v_live vw s0)) (v_bytes vw s0) (v_bytes vw s)" using r by (simp add: relived_def)
  then have "same_on (insert reserved (v_live vw s0 - table_blocks stride h H (v_bytes vw s0))) (v_bytes vw s0) (v_bytes vw s')"
    using assms(4) unfolding o [symmetric] by (auto simp: same_on_def)
  moreover have "outer_kept h H (v_bytes vw s0) (v_bytes vw s)"
    using r H by (intro outer_kept_same_on [of "insert reserved (v_live vw s0)"]) (auto simp: relived_def)
  then have "outer_kept h H (v_bytes vw s0) (v_bytes vw s')" using out by (rule outer_kept_trans)
  ultimately show ?thesis using assms(2,3) o unfolding tbl_frame_def Let_def by blast
qed

lemma grow_with_ok:
  assumes inv: "tbl_inv vw stride ksz handle H s" and m: "m = meta_at handle (v_bytes vw s)"
    and q: "q = (nt, nsz)" "q \<in> v_live vw s" "q \<notin> table_blocks stride handle H (v_bytes vw s)"
    and nsz: "nsz = ncap * stride" and lim: "unat ncap * unat stride < u64_limit"
    and pow: "unat ncap = 2 ^ p" "2 \<le> p" and more: "unat (m_cap m) < unat ncap"
    and osz: "unat osz = unat (m_cap m) * unat stride"
    and room: "4 * (unat (m_len m) + 1) \<le> 3 * unat ncap"
  obtains r s' where "grow_with io handle stride ksz 1 ncap nsz osz nt s = Some (r, s')"
    and "tbl_inv vw stride ksz handle H s'" and "tbl_abs vw stride ksz handle s' = tbl_abs vw stride ksz handle s"
    and "table_blocks stride handle H (v_bytes vw s') \<subseteq> insert q (table_blocks stride handle H (v_bytes vw s))"
    and "v_live vw s - insert q (table_blocks stride handle H (v_bytes vw s)) \<subseteq> v_live vw s'"
    and "same_on (insert reserved (v_live vw s - insert q (table_blocks stride handle H (v_bytes vw s))))
      (v_bytes vw s) (v_bytes vw s')"
    and "r = Inr () \<Longrightarrow> has_room vw handle s'" and "outer_kept handle H (v_bytes vw s) (v_bytes vw s')"
proof -
  let ?B = "table_blocks stride handle H (v_bytes vw s)"
  obtain rr s1 where rd: "grow_reads io handle stride osz ncap s = (rr, s1)"
    by (cases "grow_reads io handle stride osz ncap s")
  note gr = grow_reads_ok [OF inv m more osz rd]
  have b1: "v_bytes vw s1 = v_bytes vw s" and l1: "v_live vw s1 = v_live vw s" and g1: "v_good vw s1"
    using gr(1) by (simp_all add: unchanged_def)
  have inv1: "tbl_inv vw stride ksz handle H s1" and abs1: "tbl_abs vw stride ksz handle s1 = tbl_abs vw stride ksz handle s"
    using kept_unchanged [OF inv gr(1)] by (simp_all add: tbl_kept_def)
  have q1: "q \<in> v_live vw s1" "q \<notin> table_blocks stride handle H (v_bytes vw s1)" using q b1 l1 by simp_all
  show thesis
  proof (cases rr)
    case (Inl e)
    obtain rd s2 where d: "op_dealloc io q s1 = (rd, s2)" by (cases "op_dealloc io q s1")
    have run: "grow_with io handle stride ksz 1 ncap nsz osz nt s = Some (Inl e, s2)"
      using rd Inl d q(1) by (simp add: grow_with_def)
    note dk = dealloc_kept [OF inv1 q1 d]
    have lv: "v_live vw s - insert q ?B \<subseteq> v_live vw s2" using dk(4) l1 by auto
    have so: "same_on (insert reserved (v_live vw s - insert q ?B)) (v_bytes vw s) (v_bytes vw s2)"
      using dk(5) b1 l1 by (auto simp: same_on_def)
    show thesis
      by (rule that [OF run dk(1) _ _ lv so]) (use dk(2,3,6) abs1 b1 in auto)
  next
    case (Inr mo)
    with gr(2) obtain m' old where rr: "rr = Inr (Some (m', old))" by (cases mo) auto
    have mm: "m' = m" "old = slice (unat (m_table m)) (unat (m_cap m) * unat stride) (v_bytes vw s)"
      using gr(3) [OF rr] by simp_all
    note ic = inv_counts [OF inv m]
    have st8: "8 + ksz \<le> unat stride" using inv by (simp add: tbl_inv_def)
    have unz: "unat nsz = unat ncap * unat stride" using nsz lim by (simp add: unat_mult_u64)
    have blk: "m_cap m = 0 \<or> unat (m_table m) + unat (m_cap m) * unat stride \<le> length (v_bytes vw s)"
      using inv_parts(1) [OF inv m] by (auto simp: table_ok_def)
    have live: "live_count (meta_table stride ksz m (v_bytes vw s)) < unat ncap"
      using ic(2) room by simp
    have abs: "tbl_abs vw stride ksz handle s = table_map (meta_table stride ksz m (v_bytes vw s))"
      by (simp add: tbl_abs_def m)
    obtain img where img: "rebuild_loop (unat (m_cap m)) stride ksz 1 ncap old 0 (replicate (unat nsz) 0) = Some img"
      and il: "length img = unat ncap * unat stride" "states_in (unat stride) (unat ncap) img"
        "wf_table key_hash (image_table (unat stride) ksz (unat ncap) img)"
        "table_map (image_table (unat stride) ksz (unat ncap) img) = tbl_abs vw stride ksz handle s1"
        "used_count (image_table (unat stride) ksz (unat ncap) img) = unat (m_len m)"
        "live_count (image_table (unat stride) ksz (unat ncap) img) = unat (m_len m)"
    proof (cases "m_cap m = 0")
      case True
      have mt: "meta_table stride ksz m (v_bytes vw s) = []" using True by (simp add: meta_table_def table_of_def)
      show thesis
        by (rule that [of "replicate (unat nsz) 0"])
          (use True ic(2) in \<open>simp_all add: unz image_fresh wf_replicate abs abs1 mt table_map_def
            entries_def List.map_filter_def live_count_def used_count_def\<close>)
    next
      case False
      have "unat (m_table m) + unat (m_cap m) * unat stride \<le> length (v_bytes vw s)" using blk False by simp
      from grow_image [OF pow(1) lim st8 this _ ic(1) live] inv_handle(2) [OF inv] ic(2) abs abs1 show thesis
        by (auto simp: mm unz intro: that)
    qed
    obtain rc s2 where cm: "op_commit io (grow_writes handle nt ncap m img) s1 = (rc, s2)"
      by (cases "op_commit io (grow_writes handle nt ncap m img) s1")
    note cl = commit_law [OF g1 cm]
    show thesis
    proof (cases rc)
      case (Inl e)
      have run: "grow_with io handle stride ksz 1 ncap nsz osz nt s = Some (Inl e, s2)"
        using rd rr mm img cm Inl by (simp add: grow_with_def)
      have u: "unchanged vw s s2" using cl Inl unchanged_trans [OF gr(1)] by simp
      note k = kept_unchanged [OF inv u]
      show thesis
        by (rule that [OF run]) (use k u in \<open>auto simp: tbl_kept_def unchanged_def\<close>)
    next
      case (Inr uu)
      have w: "written vw s1 (apply_writes (grow_writes handle nt ncap m img) (v_bytes vw s1)) s2"
        using cl Inr by simp
      have m1: "m = meta_at handle (v_bytes vw s1)" using m b1 by simp
      note sw = swap_ok [OF inv1 m1 q(1) [unfolded nsz] q1 lim pow il room w]
      show thesis
      proof (cases "m_cap m = 0")
        case True
        have run: "grow_with io handle stride ksz 1 ncap nsz osz nt s = Some (Inr (), s2)"
          using rd rr mm img cm Inr True by (simp add: grow_with_def)
        have l2: "v_live vw s2 = v_live vw s" using w l1 by (simp add: written_def)
        have B: "?B = {H}" using True m by (simp add: table_blocks_def)
        show thesis
          by (rule that [OF run sw(1)]) (use sw abs1 l1 l2 b1 B in \<open>auto simp: same_on_def\<close>)
      next
        case False
        note P = inv_parts [OF inv1 m1 False]
        have olim: "unat (m_cap m) * unat stride < u64_limit"
          using P(8) good_live [OF g1, of "table_range stride m"] P(6,7) inv_handle(2) [OF inv1] by auto
        have old: "(m_table m, saturating_mul64 (m_cap m) stride) = table_range stride m"
          using olim by (simp add: table_range_def saturating_mul64_def)
        obtain rd3 s3 where d: "op_dealloc io (table_range stride m) s2 = (rd3, s3)"
          by (cases "op_dealloc io (table_range stride m) s2")
        have run: "grow_with io handle stride ksz 1 ncap nsz osz nt s = Some (Inr (), s3)"
          using rd rr mm img cm Inr False d old word_gt_0 [of "m_cap m"] by (simp add: grow_with_def)
        have l2: "v_live vw s2 = v_live vw s" using w l1 by (simp add: written_def)
        have o2: "table_range stride m \<in> v_live vw s2" using P(6,7) l1 l2 by auto
        have o3: "table_range stride m \<notin> table_blocks stride handle H (v_bytes vw s2)"
          using sw(4) q1(2) P(6) inv1 m1 False by (auto simp: tbl_inv_def Let_def)
        note dk = dealloc_kept [OF sw(1) o2 o3 d]
        have B: "?B = {H, table_range stride m}" using P(6) b1 by simp
        have lv: "v_live vw s - insert q ?B \<subseteq> v_live vw s3" using dk(4) l2 B by auto
        have so: "same_on (insert reserved (v_live vw s - insert q ?B)) (v_bytes vw s) (v_bytes vw s3)"
          using dk(5) sw(5) l1 l2 b1 unfolding B by (auto simp: same_on_def)
        have out: "outer_kept handle H (v_bytes vw s) (v_bytes vw s3)"
          using outer_kept_trans [OF sw(6) dk(6)] b1 by simp
        have hr: "has_room vw handle s3"
        proof -
          obtain L where r3: "relived vw s2 (v_live vw s2 - {table_range stride m}) L s3"
            using dealloc_law [OF inv_handle(3) [OF sw(1)] o2 d] by blast
          have "table_blocks stride handle H (v_bytes vw s2) \<subseteq> v_live vw s2 - {table_range stride m}"
            using blocks_live [OF sw(1)] o3 by blast
          from relived_meta [OF sw(1) r3 this] sw(3) show ?thesis by (simp add: has_room_def)
        qed
        show thesis
          by (rule that [OF run dk(1) _ _ lv so hr out]) (use dk(2,3) sw(2,4) abs1 B in auto)
      qed
    qed
  qed
qed

lemma read_cap:
  assumes inv: "tbl_inv vw stride ksz handle H s" and r: "read_u64 io (handle + HEADER_SIZE + 8) s = (rc, s')"
  shows "unchanged vw s s'" and "rc = Inr c \<Longrightarrow> c = m_cap (meta_at handle (v_bytes vw s))"
proof -
  have off: "unat (handle + HEADER_SIZE + 8) = unat handle + 24"
    using inv_handle(1,2) [OF inv] by (simp add: HEADER_SIZE_def unat_plus_u64)
  obtain rb s1 where rd: "op_read io (handle + HEADER_SIZE + 8) 8 s = (rb, s1)"
    by (cases "op_read io (handle + HEADER_SIZE + 8) 8 s")
  have s': "s' = s1" using r rd by (cases rb) (auto simp: read_u64_def)
  show "unchanged vw s s'" using read_bytes(1) [OF inv_handle(3) [OF inv] rd] s' by simp
  show "c = m_cap (meta_at handle (v_bytes vw s))" if rc: "rc = Inr c"
  proof -
    obtain b where b: "rb = Inr b" "c = from_le64 b" using r rd rc by (cases rb) (auto simp: read_u64_def)
    from read_bytes(2) [OF inv_handle(3) [OF inv] rd b(1)] b(2) off show ?thesis
      by (simp add: meta_at_fields)
  qed
qed

text \<open>Growing returns, keeps the map, and on success leaves room for an insertion.\<close>

lemma grow_table_ok:
  assumes inv: "tbl_inv vw stride ksz handle H s"
  shows "\<exists>r s'. grow_table io handle stride ksz 1 4 s = Some (r, s') \<and> tbl_kept vw stride ksz handle H s s'
     \<and> (r = Inr () \<longrightarrow> has_room vw handle s')"
proof -
  define m where "m = meta_at handle (v_bytes vw s)"
  define B where "B = table_blocks stride handle H (v_bytes vw s)"
  define ncap where "ncap = (if m_cap m = 0 then 4 else saturating_mul64 (m_cap m) 2)"
  obtain rc s1 where rd: "read_u64 io (handle + HEADER_SIZE + 8) s = (rc, s1)"
    by (cases "read_u64 io (handle + HEADER_SIZE + 8) s")
  note rcp = read_cap [OF inv rd]
  note k1 = kept_unchanged [OF inv rcp(1)]
  then have inv1: "tbl_inv vw stride ksz handle H s1" by (simp add: tbl_kept_def)
  have m1: "m = meta_at handle (v_bytes vw s1)" using rcp(1) by (simp add: m_def unchanged_def)
  have olim: "unat (m_cap m) * unat stride < 2 ^ 63"
  proof (cases "m_cap m = 0")
    case False
    then show ?thesis
      using inv_parts(1) [OF inv m_def] inv_handle(2) [OF inv] by (auto simp: table_ok_def)
  qed simp
  have st8: "8 \<le> unat stride" using inv by (simp add: tbl_inv_def)
  have "unat (m_cap m) * 8 \<le> unat (m_cap m) * unat stride" using st8 by (rule mult_le_mono2)
  from le_less_trans [OF this olim] have c60: "unat (m_cap m) * 2 < u64_limit" by simp
  have uncap: "unat ncap = (if m_cap m = 0 then 4 else unat (m_cap m) * 2)"
    using c60 by (simp add: ncap_def saturating_mul64_def unat_mult_u64)
  have more: "unat (m_cap m) < unat ncap" using uncap by (simp add: unat_gt_0)
  obtain p where pow: "unat ncap = 2 ^ p" "2 \<le> p"
  proof (cases "m_cap m = 0")
    case True
    then show thesis using uncap that [of 2] by simp
  next
    case False
    then obtain k where "unat (m_cap m) = 2 ^ k" "2 \<le> k"
      using inv_parts(1) [OF inv m_def] by (auto simp: table_ok_def)
    then show thesis using False uncap that [of "Suc k"] by simp
  qed
  have room: "4 * (unat (m_len m) + 1) \<le> 3 * unat ncap"
  proof -
    have "4 * unat (m_len m) \<le> 3 * unat (m_cap m)" by (rule inv_counts(3) [OF inv m_def])
    moreover have "m_cap m = 0 \<or> 4 \<le> unat (m_cap m)"
    proof (cases "m_cap m = 0")
      case False
      then obtain k where k: "unat (m_cap m) = 2 ^ k" "2 \<le> k"
        using inv_parts(1) [OF inv m_def] by (auto simp: table_ok_def)
      show ?thesis using power_increasing [OF k(2), of "2 :: nat"] k(1) by simp
    qed simp
    ultimately show ?thesis using uncap by auto
  qed
  show ?thesis
  proof (cases rc)
    case (Inl e)
    with rd k1 show ?thesis by (simp add: grow_table_def)
  next
    case (Inr c0)
    then have c0: "c0 = m_cap m" using rcp(2) by (simp add: m_def)
    show ?thesis
    proof (cases "checked_mul64 ncap stride")
      case None
      with rd Inr c0 k1 show ?thesis by (simp add: grow_table_def Let_def ncap_def [symmetric])
    next
      case (Some nsz)
      then have nsz: "nsz = ncap * stride" and lim: "unat ncap * unat stride < u64_limit"
        by (auto simp: checked_mul64_Some)
      obtain ra s2 where al: "op_alloc io nsz s1 = (ra, s2)" by (cases "op_alloc io nsz s1")
      have "0 < unat nsz" using nsz lim pow st8 by (simp add: unat_mult_u64)
      then have nz: "nsz \<noteq> 0" by auto
      note law = alloc_law [OF inv_handle(3) [OF inv1] al nz]
      have bl1: "table_blocks stride handle H (v_bytes vw s1) \<subseteq> v_live vw s1" by (rule blocks_live [OF inv1])
      show ?thesis
      proof (cases ra)
        case (Inl e)
        then have r: "relived vw s1 (v_live vw s1) (v_live vw s1) s2" using law by simp
        note rk = relived_kept [OF inv1 r order.refl]
        have "tbl_kept vw stride ksz handle H s1 s2"
          using rk bl1 r outer_kept_same_on [of "insert reserved (v_live vw s1)" _ _ H handle]
          by (auto simp: tbl_kept_def tbl_frame_def relived_def same_on_def table_blocks_def)
        with k1 have "tbl_kept vw stride ksz handle H s s2" by (rule tbl_kept_trans)
        with rd Inr c0 Some al Inl show ?thesis
          by (simp add: grow_table_def Let_def ncap_def [symmetric] split del: if_split)
      next
        case ra: (Inr q)
        then have q: "snd q = nsz" "q \<notin> v_live vw s1"
          and r: "relived vw s1 (v_live vw s1) (insert q (v_live vw s1)) s2" using law by simp_all
        have "table_blocks stride handle H (v_bytes vw s1) \<subseteq> v_live vw s1 \<inter> insert q (v_live vw s1)"
          using bl1 by auto
        note rk = relived_kept [OF inv1 r order.refl this]
        have m2: "m = meta_at handle (v_bytes vw s2)" using relived_meta [OF inv1 r bl1] m1 by simp
        have q2: "q \<in> v_live vw s2" "q \<notin> table_blocks stride handle H (v_bytes vw s2)"
          using r q(2) bl1 rk(3) by (auto simp: relived_def)
        have cm: "checked_mul64 (m_cap m) stride = Some (m_cap m * stride)"
          using olim by (simp add: checked_mul64_Some)
        have osz: "unat (m_cap m * stride) = unat (m_cap m) * unat stride"
          using olim by (simp add: unat_mult_u64)
        have qp: "q = (fst q, nsz)" using q(1) by (cases q) simp
        obtain r3 s3 where run: "grow_with io handle stride ksz 1 ncap nsz (m_cap m * stride) (fst q) s2 = Some (r3, s3)"
          and g: "tbl_inv vw stride ksz handle H s3" "tbl_abs vw stride ksz handle s3 = tbl_abs vw stride ksz handle s2"
            "table_blocks stride handle H (v_bytes vw s3) \<subseteq> insert q (table_blocks stride handle H (v_bytes vw s2))"
            "v_live vw s2 - insert q (table_blocks stride handle H (v_bytes vw s2)) \<subseteq> v_live vw s3"
            "same_on (insert reserved (v_live vw s2 - insert q (table_blocks stride handle H (v_bytes vw s2))))
              (v_bytes vw s2) (v_bytes vw s3)"
            "r3 = Inr () \<Longrightarrow> has_room vw handle s3" "outer_kept handle H (v_bytes vw s2) (v_bytes vw s3)"
          using grow_with_ok [OF rk(1) m2 qp q2 nsz lim pow more osz room] by metis
        have "tbl_frame vw stride handle H s1 s3"
          using spare_frame [OF q2(2) g(3-5) r q(2) rk(3) g(7)] inv1 by (simp add: tbl_inv_def)
        then have "tbl_kept vw stride ksz handle H s1 s3" using g(1,2) rk(2) by (simp add: tbl_kept_def)
        with k1 have k: "tbl_kept vw stride ksz handle H s s3" by (rule tbl_kept_trans)
        have "grow_table io handle stride ksz 1 4 s = Some (r3, s3)"
          using rd Inr c0 Some al ra cm run
          by (simp add: grow_table_def Let_def ncap_def [symmetric] split del: if_split)
        with k g(6) show ?thesis by blast
      qed
    qed
  qed
qed

end

end
