(* ===== verification/TableLookup.thy ===== *)
theory TableLookup
  imports TableGrow
begin

text \<open>
  Lookup in an open-addressing table, once for the map and the set: the loop both run, with what
  follows the key in the bucket as its result, computes the abstract \<open>seek\<close> and so the value of
  the key in the table's map. It writes nothing.
\<close>

fun seek_loop ::
    "nat \<Rightarrow> 's stack_ops \<Rightarrow> u64 \<Rightarrow> nat \<Rightarrow> u8 list \<Rightarrow> u64 \<Rightarrow> u64 \<Rightarrow> u64 \<Rightarrow> 's \<Rightarrow> u8 list option res \<times> 's" where
  "seek_loop 0 io stride ksz key table msk idx s = (Inr None, s)"
| "seek_loop (Suc n) io stride ksz key table msk idx s =
     try_in (checked_off_mul table idx stride) s (\<lambda>bucket.
     try_s (op_read io bucket (unat stride) s) (\<lambda>buf s1.
       if get_u64 (slice 0 8 buf) = 0 then (Inr None, s1)
       else if get_u64 (slice 0 8 buf) = 1 \<and> slice 8 ksz buf = key
         then (Inr (Some (drop (8 + ksz) buf)), s1)
       else seek_loop n io stride ksz key table msk ((idx + 1) AND msk) s1))"

definition table_lookup ::
    "'s stack_ops \<Rightarrow> u64 \<Rightarrow> nat \<Rightarrow> u64 \<Rightarrow> u8 list \<Rightarrow> 's \<Rightarrow> u8 list option res \<times> 's" where
  "table_lookup io stride ksz handle key s =
     try_s (read_fields io 2 (handle + HEADER_SIZE) s) (\<lambda>fs s1.
       if fs ! 1 = 0 then (Inr None, s1)
       else seek_loop (unat (fs ! 1)) io stride ksz key (fs ! 0) (fs ! 1 - 1) (fnv1a key AND (fs ! 1 - 1)) s1)"

lemma fields_of_nth: "i < n \<Longrightarrow> fields_of n b ! i = from_le64 (slice (8 * i) 8 b)"
  by (simp add: fields_of_def)

context stack_laws
begin

lemma seek_loop_ok:
  assumes "v_good vw s" and "unat (m_cap m) = 2 ^ p" and "8 + ksz \<le> unat stride"
    and "unat (m_table m) + unat (m_cap m) * unat stride \<le> length (v_bytes vw s)"
    and "unat cur < 2 ^ p" and "T = meta_table stride ksz m (v_bytes vw s)"
    and "seek_loop n io stride ksz key (m_table m) (m_cap m - 1) cur s = (r, s')"
  shows "unchanged vw s s' \<and> (\<forall>v. r = Inr v \<longrightarrow> v = seek T key (unat cur) n)
     \<and> (v_calm vw s \<longrightarrow> v_calm vw s' \<and> (\<exists>v. r = Inr v))"
  using assms
proof (induction n arbitrary: s cur)
  case 0
  then show ?case by (auto simp: unchanged_def)
next
  case (Suc n)
  let ?off = "m_table m + cur * stride"
  have cur: "unat cur < unat (m_cap m)" using Suc.prems(2,5) by simp
  note off = bucket_offset [OF Suc.prems(1,4) cur]
  have len: "unat ?off + unat stride \<le> length (v_bytes vw s)"
    using bucket_in_block [OF cur Suc.prems(4)] off(2) by simp
  obtain rb s1 where rd: "op_read io ?off (unat stride) s = (rb, s1)" by (cases "op_read io ?off (unat stride) s")
  note u1 = read_bytes [OF Suc.prems(1) rd]
  have calm: "v_calm vw s \<Longrightarrow> (\<exists>b. rb = Inr b) \<and> v_calm vw s1"
    using calm_read [OF Suc.prems(1) _ len] rd by auto
  show ?case
  proof (cases rb)
    case (Inl e)
    with Suc.prems(7) rd off(1) have "r = Inl e" "s' = s1" by auto
    with u1(1) calm Inl show ?thesis by auto
  next
    case (Inr b)
    let ?buf = "slice (unat (m_table m) + unat cur * unat stride) (unat stride) (v_bytes vw s)"
    have b: "b = ?buf" using u1(2) [OF Inr] off(2) by simp
    have lb: "8 \<le> length b" using len off(2) Suc.prems(3) by (simp add: b)
    have Tc: "T ! unat cur = decode_bucket ksz b"
      using cur Suc.prems(6) by (simp add: meta_table_def nth_table_of b)
    note s0 = get_u64_state [OF lb]
    have g1: "v_good vw s1" and b1: "v_bytes vw s1 = v_bytes vw s"
      using u1(1) by (simp_all add: unchanged_def)
    have lT: "length T = 2 ^ p" using Suc.prems(2,6) by (simp add: meta_table_def)
    have nxt: "unat ((cur + 1) AND (m_cap m - 1)) = Suc (unat cur) mod length T"
      using unat_step_mask [OF Suc.prems(2,5)] lT by simp
    have nl: "unat ((cur + 1) AND (m_cap m - 1)) < 2 ^ p" by (simp only: unat_and_mask [OF Suc.prems(2)]) simp
    have go: "unchanged vw s s' \<and> (\<forall>v. r = Inr v \<longrightarrow> v = seek T key (Suc (unat cur) mod length T) n)
        \<and> (v_calm vw s \<longrightarrow> v_calm vw s' \<and> (\<exists>v. r = Inr v))"
      if run: "seek_loop n io stride ksz key (m_table m) (m_cap m - 1) ((cur + 1) AND (m_cap m - 1)) s1 = (r, s')"
    proof -
      have "unchanged vw s1 s' \<and> (\<forall>v. r = Inr v \<longrightarrow> v = seek T key (unat ((cur + 1) AND (m_cap m - 1))) n)
        \<and> (v_calm vw s1 \<longrightarrow> v_calm vw s' \<and> (\<exists>v. r = Inr v))"
        using Suc.prems(2-4,6) b1 by (intro Suc.IH [OF g1 _ _ _ nl _ run]) simp_all
      then show ?thesis using unchanged_trans [OF u1(1)] calm nxt by auto
    qed
    show ?thesis
    proof (cases "T ! unat cur")
      case Empty
      then have "get_u64 b = 0" by (simp add: Tc decode_bucket_cases)
      with Suc.prems(7) rd off(1) Inr s0 have "r = Inr None" "s' = s1" by (simp_all del: get_u64_slice8)
      with Empty u1(1) calm show ?thesis by simp
    next
      case (Occupied k v)
      then have o: "get_u64 b = 1" "k = slice 8 ksz b" "v = drop (8 + ksz) b"
        by (simp_all add: Tc decode_bucket_cases)
      show ?thesis
      proof (cases "k = key")
        case True
        with Suc.prems(7) rd off(1) Inr s0 o have "r = Inr (Some v)" "s' = s1" by (simp_all del: get_u64_slice8)
        with Occupied True u1(1) calm show ?thesis by simp
      next
        case False
        with Suc.prems(7) rd off(1) Inr s0 o
        have "seek_loop n io stride ksz key (m_table m) (m_cap m - 1) ((cur + 1) AND (m_cap m - 1)) s1 = (r, s')"
          by (simp del: get_u64_slice8)
        with go Occupied False show ?thesis by simp
      qed
    next
      case Tombstone
      then have "get_u64 b \<noteq> 0" "get_u64 b \<noteq> 1" by (simp_all add: Tc decode_bucket_cases)
      with Suc.prems(7) rd off(1) Inr s0
      have "seek_loop n io stride ksz key (m_table m) (m_cap m - 1) ((cur + 1) AND (m_cap m - 1)) s1 = (r, s')"
        by (simp del: get_u64_slice8)
      with go Tombstone show ?thesis by simp
    qed
  qed
qed

text \<open>Reading consecutive metadata fields.\<close>

lemma read_fields_ok:
  assumes inv: "tbl_inv vw stride ksz handle H s" and off: "unat w + n * 8 \<le> 48"
    and r: "read_fields io n (handle + w) s = (rf, s')"
  shows "unchanged vw s s'"
    and "rf = Inr fs \<Longrightarrow> i < n \<Longrightarrow> fs ! i = from_le64 (slice (unat handle + unat w + 8 * i) 8 (v_bytes vw s))"
    and "v_calm vw s \<Longrightarrow> v_calm vw s' \<and> (\<exists>fs. rf = Inr fs)"
proof -
  have u: "unat (handle + w) = unat handle + unat w" using handle_off [OF inv, of w] off by simp
  have g: "v_good vw s" and len: "unat (handle + w) + n * 8 \<le> length (v_bytes vw s)"
    using inv_handle [OF inv] u off by simp_all
  obtain rb s1 where rd: "op_read io (handle + w) (n * 8) s = (rb, s1)" by (cases "op_read io (handle + w) (n * 8) s")
  have s': "s' = s1" and rf: "rf = (case rb of Inl e \<Rightarrow> Inl e | Inr b \<Rightarrow> Inr (fields_of n b))"
    using r rd by (cases rb; simp add: read_fields_def)+
  show "unchanged vw s s'" using read_bytes(1) [OF g rd] s' by simp
  show "fs ! i = from_le64 (slice (unat handle + unat w + 8 * i) 8 (v_bytes vw s))" if fs: "rf = Inr fs" and i: "i < n"
  proof -
    obtain b where b: "rb = Inr b" "fs = fields_of n b" using rf fs by (cases rb) auto
    have "b = slice (unat handle + unat w) (n * 8) (v_bytes vw s)" using read_bytes(2) [OF g rd b(1)] u by simp
    then show ?thesis using b(2) i by (simp add: fields_of_nth slice_slice)
  qed
  show "v_calm vw s' \<and> (\<exists>fs. rf = Inr fs)" if c: "v_calm vw s"
    using calm_read [OF g c len] rd rf s' by auto
qed

lemma lookup_ok:
  assumes inv: "tbl_inv vw stride ksz handle H s"
    and run: "table_lookup io stride ksz handle key s = (r, s')"
  shows "unchanged vw s s'" and "r = Inr v \<Longrightarrow> v = tbl_abs vw stride ksz handle s key"
    and "v_calm vw s \<Longrightarrow> v_calm vw s' \<and> (\<exists>v. r = Inr v)"
proof -
  define m where "m = meta_at handle (v_bytes vw s)"
  obtain rf s1 where rd: "read_fields io 2 (handle + HEADER_SIZE) s = (rf, s1)"
    by (cases "read_fields io 2 (handle + HEADER_SIZE) s")
  have w: "unat HEADER_SIZE + 2 * 8 \<le> 48" by (simp add: HEADER_SIZE_def)
  note rf = read_fields_ok [OF inv w rd]
  have "unchanged vw s s' \<and> (\<forall>v. r = Inr v \<longrightarrow> v = tbl_abs vw stride ksz handle s key)
    \<and> (v_calm vw s \<longrightarrow> v_calm vw s' \<and> (\<exists>v. r = Inr v))"
  proof (cases rf)
    case (Inl e)
    with run rd rf(1,3) show ?thesis by (auto simp: table_lookup_def)
  next
    case (Inr fs)
    have f: "fs ! 0 = m_table m" "fs ! 1 = m_cap m"
      using rf(2) [OF Inr, of 0] rf(2) [OF Inr, of 1] by (simp_all add: m_def meta_at_fields HEADER_SIZE_def add.commute [of 24])
    show ?thesis
    proof (cases "m_cap m = 0")
      case True
      with run rd Inr f have "r = Inr None" "s' = s1" by (auto simp: table_lookup_def)
      moreover have "tbl_abs vw stride ksz handle s key = None"
        using True by (simp add: tbl_abs_def m_def [symmetric] meta_table_def table_of_def table_map_def
            entries_def List.map_filter_def)
      ultimately show ?thesis using rf(1,3) by auto
    next
      case False
      note P = inv_parts [OF inv m_def False]
      obtain p where cap: "unat (m_cap m) = 2 ^ p" using P(1) by (auto simp: table_ok_def)
      have g1: "v_good vw s1" and b1: "v_bytes vw s1 = v_bytes vw s"
        using rf(1) by (simp_all add: unchanged_def)
      have blk: "unat (m_table m) + unat (m_cap m) * unat stride \<le> length (v_bytes vw s1)"
        using P(1) b1 by (simp add: table_ok_def)
      have st: "8 + ksz \<le> unat stride" using inv by (simp add: tbl_inv_def)
      let ?T = "meta_table stride ksz m (v_bytes vw s)"
      have cur: "unat (fnv1a key AND (m_cap m - 1)) = key_hash key mod length ?T"
        by (simp only: unat_and_mask [OF cap] P(5) cap key_hash_def)
      have cl: "unat (fnv1a key AND (m_cap m - 1)) < 2 ^ p" by (simp only: unat_and_mask [OF cap]) simp
      have run': "seek_loop (unat (m_cap m)) io stride ksz key (m_table m) (m_cap m - 1) (fnv1a key AND (m_cap m - 1)) s1 = (r, s')"
        using run rd Inr f False by (simp add: table_lookup_def)
      have "?T \<noteq> []" using P(5) cap by auto
      then have sk: "seek ?T key (unat (fnv1a key AND (m_cap m - 1))) (unat (m_cap m)) = tbl_abs vw stride ksz handle s key"
        using seek_correct [OF P(4), of key] unfolding cur P(5) [symmetric] by (simp add: tbl_abs_def m_def)
      have "unchanged vw s1 s' \<and> (\<forall>v. r = Inr v \<longrightarrow> v = seek ?T key (unat (fnv1a key AND (m_cap m - 1))) (unat (m_cap m)))
          \<and> (v_calm vw s1 \<longrightarrow> v_calm vw s' \<and> (\<exists>v. r = Inr v))"
        using seek_loop_ok [OF g1 cap st blk cl refl run'] b1 by simp
      with sk rf(1,3) unchanged_trans show ?thesis by auto
    qed
  qed
  then show "unchanged vw s s'" and "r = Inr v \<Longrightarrow> v = tbl_abs vw stride ksz handle s key"
    and "v_calm vw s \<Longrightarrow> v_calm vw s' \<and> (\<exists>v. r = Inr v)" by blast+
qed

text \<open>A probe of a table without buckets.\<close>

lemma commit_no_buckets:
  assumes inv: "tbl_inv vw stride ksz handle H s" and m: "m_cap (meta_at handle (v_bytes vw s)) = 0"
    and ex: "\<And>m. exhausted m c = (Inr [], c)"
    and run: "probe_commit io handle stride hash inspect exhausted c s = (r, s')"
  shows "unchanged vw s s'" and "r = Inr c' \<Longrightarrow> c' = c" and "v_calm vw s \<Longrightarrow> v_calm vw s' \<and> r = Inr c"
proof -
  obtain rb s1 where rd: "op_read io (handle + HEADER_SIZE) 32 s = (rb, s1)"
    by (cases "op_read io (handle + HEADER_SIZE) 32 s")
  note rm = read_meta [OF inv rd]
  obtain rc s2 where cm: "op_commit io [] s1 = (rc, s2)" by (cases "op_commit io [] s1")
  have u2: "unchanged vw s1 s2"
    using commit_law [OF unchanged_good [OF rm(1)] cm] by (auto simp: unchanged_def written_def split: sum.splits)
  have calm: "v_calm vw s1 \<Longrightarrow> rc = Inr () \<and> v_calm vw s2"
    using calm_commit [OF unchanged_good [OF rm(1)], of "[]"] cm by auto
  have res: "(r, s') = (case rb of Inl e \<Rightarrow> (Inl e, s1) | Inr _ \<Rightarrow> (case rc of Inl e \<Rightarrow> (Inl e, s2) | Inr _ \<Rightarrow> (Inr c, s2)))"
  proof (cases rb)
    case (Inr b)
    then have "m_cap (parse_meta b) = 0" using rm(2) m by simp
    with run rd Inr cm show ?thesis by (cases rc) (simp_all add: probe_commit_def Let_def ex)
  qed (use run rd in \<open>simp add: probe_commit_def\<close>)
  show "unchanged vw s s'" using res rm(1) u2 unchanged_trans by (auto split: sum.splits)
  show "c' = c" if "r = Inr c'" using res that by (auto split: sum.splits)
  show "v_calm vw s' \<and> r = Inr c" if "v_calm vw s" using res rm(3) [OF that] calm by auto
qed

end

end
