(* ===== verification/TableInsert.thy ===== *)
theory TableInsert
  imports TableLookup
begin

text \<open>
  Insertion into an open-addressing table, once for the map and the set: an insertion probe inside
  the store is a step of the abstract table, and the retry loop around it (reload the counters, grow
  while over the load factor, probe) ends in its second round at the latest.
\<close>

text \<open>The retry loop with a bound on its rounds; \<open>None\<close> is a loop that has not ended.\<close>

fun retry_insert ::
    "nat \<Rightarrow> 's stack_ops \<Rightarrow> u64 \<Rightarrow> nat \<Rightarrow> u64 \<Rightarrow> ('s \<Rightarrow> 'c res \<times> 's) \<Rightarrow> ('c \<Rightarrow> bool) \<Rightarrow> ('c \<Rightarrow> 'a) \<Rightarrow> 's
      \<Rightarrow> ('a res \<times> 's) option" where
  "retry_insert 0 io stride ksz handle attempt full result s = None"
| "retry_insert (Suc fuel) io stride ksz handle attempt full result s =
     (case read_fields io 3 (handle + (HEADER_SIZE + 8)) s of
        (Inl e, s1) \<Rightarrow> Some (Inl e, s1)
      | (Inr fs, s1) \<Rightarrow>
          if over_loaded (fs ! 0) (fs ! 2) then
            (case grow_table io handle stride ksz 1 4 s1 of
               None \<Rightarrow> None
             | Some (Inl e, s2) \<Rightarrow> Some (Inl e, s2)
             | Some (Inr _, s2) \<Rightarrow> retry_insert fuel io stride ksz handle attempt full result s2)
          else
            (case attempt s1 of
               (Inl e, s2) \<Rightarrow> Some (Inl e, s2)
             | (Inr c, s2) \<Rightarrow>
                 if full c then
                   (case grow_table io handle stride ksz 1 4 s2 of
                      None \<Rightarrow> None
                    | Some (Inl e, s3) \<Rightarrow> Some (Inl e, s3)
                    | Some (Inr _, s3) \<Rightarrow> retry_insert fuel io stride ksz handle attempt full result s3)
                 else Some (Inr (result c), s2)))"

lemma has_room_unchanged: "unchanged vw s s' \<Longrightarrow> has_room vw handle s' = has_room vw handle s"
  by (simp add: has_room_def unchanged_def)

text \<open>What an insertion may answer: an error that kept the table, or a result related by
  \<open>Q\<close> to the map before and after.\<close>

definition insert_effect ::
    "'s stack_view \<Rightarrow> u64 \<Rightarrow> nat \<Rightarrow> u64 \<Rightarrow> range \<Rightarrow> ('a \<Rightarrow> (u8 list \<rightharpoonup> u8 list) \<Rightarrow> (u8 list \<rightharpoonup> u8 list) \<Rightarrow> bool)
      \<Rightarrow> 's \<Rightarrow> 'a res \<Rightarrow> 's \<Rightarrow> bool" where
  "insert_effect vw stride ksz handle H Q s r s' \<longleftrightarrow>
     tbl_inv vw stride ksz handle H s' \<and> tbl_frame vw stride handle H s s'
     \<and> (case r of Inl e \<Rightarrow> tbl_abs vw stride ksz handle s' = tbl_abs vw stride ksz handle s
        | Inr a \<Rightarrow> Q a (tbl_abs vw stride ksz handle s) (tbl_abs vw stride ksz handle s'))"

lemma insert_effect_kept:
  assumes "tbl_kept vw stride ksz handle H s s1" and "insert_effect vw stride ksz handle H Q s1 r s'"
  shows "insert_effect vw stride ksz handle H Q s r s'"
proof -
  have "tbl_frame vw stride handle H s s'"
    using assms tbl_frame_trans [of vw stride handle H s s1 s'] by (simp add: tbl_kept_def insert_effect_def)
  with assms show ?thesis by (simp add: tbl_kept_def insert_effect_def split: sum.splits)
qed

lemma insert_effect_failed:
  "tbl_kept vw stride ksz handle H s s' \<Longrightarrow> insert_effect vw stride ksz handle H Q s (Inl e) s'"
  by (simp add: tbl_kept_def insert_effect_def)

context stack_laws
begin

lemma read_load:
  assumes inv: "tbl_inv vw stride ksz handle H s" and r: "read_fields io 3 (handle + (HEADER_SIZE + 8)) s = (rf, s')"
  shows "unchanged vw s s'" and "rf = Inr fs \<Longrightarrow> over_loaded (fs ! 0) (fs ! 2) = (\<not> has_room vw handle s)"
proof -
  have c: "unat (HEADER_SIZE + 8) = 24" by (simp add: HEADER_SIZE_def)
  have w: "unat (HEADER_SIZE + 8) + 3 * 8 \<le> 48" by (simp add: c)
  note rf = read_fields_ok [OF inv w r]
  show "unchanged vw s s'" by (rule rf(1))
  show "over_loaded (fs ! 0) (fs ! 2) = (\<not> has_room vw handle s)" if "rf = Inr fs"
  proof -
    have "fs ! 0 = m_cap (meta_at handle (v_bytes vw s))" "fs ! 2 = m_used (meta_at handle (v_bytes vw s))"
      using rf(2) [OF that, of 0] rf(2) [OF that, of 2] by (simp_all add: meta_at_fields c add.commute [of 40])
    then show ?thesis by (auto simp: over_loaded_def has_room_def Let_def)
  qed
qed

text \<open>The loop, for any attempt that is a step when the table has room.\<close>

definition attempt_ok ::
    "u64 \<Rightarrow> nat \<Rightarrow> u64 \<Rightarrow> range \<Rightarrow> ('s \<Rightarrow> 'c res \<times> 's) \<Rightarrow> ('c \<Rightarrow> bool) \<Rightarrow> ('c \<Rightarrow> 'a)
      \<Rightarrow> ('a \<Rightarrow> (u8 list \<rightharpoonup> u8 list) \<Rightarrow> (u8 list \<rightharpoonup> u8 list) \<Rightarrow> bool) \<Rightarrow> bool" where
  "attempt_ok stride ksz handle H attempt full result Q \<longleftrightarrow>
     (\<forall>s r s'. tbl_inv vw stride ksz handle H s \<longrightarrow> has_room vw handle s \<longrightarrow> attempt s = (r, s') \<longrightarrow>
       (case r of Inl e \<Rightarrow> unchanged vw s s'
        | Inr c \<Rightarrow> \<not> full c \<and> insert_effect vw stride ksz handle H Q s (Inr (result c)) s'))"

lemma retry_with_room:
  assumes inv: "tbl_inv vw stride ksz handle H s" and at: "attempt_ok stride ksz handle H attempt full result Q"
    and room: "has_room vw handle s"
  shows "\<exists>r s'. retry_insert (Suc fuel) io stride ksz handle attempt full result s = Some (r, s')
    \<and> insert_effect vw stride ksz handle H Q s r s'"
proof -
  obtain rf s1 where rd: "read_fields io 3 (handle + (HEADER_SIZE + 8)) s = (rf, s1)"
    by (cases "read_fields io 3 (handle + (HEADER_SIZE + 8)) s")
  note rl = read_load [OF inv rd]
  note k1 = kept_unchanged [OF inv rl(1)]
  have inv1: "tbl_inv vw stride ksz handle H s1" using k1 by (simp add: tbl_kept_def)
  show ?thesis
  proof (cases rf)
    case (Inl e)
    with rd insert_effect_failed [OF k1] show ?thesis by simp
  next
    case (Inr fs)
    have no: "\<not> over_loaded (fs ! 0) (fs ! 2)" using rl(2) [OF Inr] room by simp
    obtain rc s2 where a: "attempt s1 = (rc, s2)" by (cases "attempt s1")
    have r1: "has_room vw handle s1" using room has_room_unchanged [OF rl(1)] by simp
    have ac: "case rc of Inl e \<Rightarrow> unchanged vw s1 s2
        | Inr c \<Rightarrow> \<not> full c \<and> insert_effect vw stride ksz handle H Q s1 (Inr (result c)) s2"
      using at inv1 r1 a unfolding attempt_ok_def by blast
    show ?thesis
    proof (cases rc)
      case (Inl e)
      with ac have "tbl_kept vw stride ksz handle H s1 s2" using kept_unchanged [OF inv1] by simp
      with k1 have "tbl_kept vw stride ksz handle H s s2" by (rule tbl_kept_trans)
      from insert_effect_failed [OF this] rd Inr no a Inl show ?thesis by simp
    next
      case rc: (Inr c)
      with ac have c: "\<not> full c" "insert_effect vw stride ksz handle H Q s1 (Inr (result c)) s2" by simp_all
      from insert_effect_kept [OF k1 c(2)] rd Inr no a rc c(1) show ?thesis by simp
    qed
  qed
qed

lemma retry_insert_ok:
  assumes inv: "tbl_inv vw stride ksz handle H s" and at: "attempt_ok stride ksz handle H attempt full result Q"
  shows "\<exists>r s'. retry_insert (Suc (Suc fuel)) io stride ksz handle attempt full result s = Some (r, s')
    \<and> insert_effect vw stride ksz handle H Q s r s'"
proof (cases "has_room vw handle s")
  case True
  then show ?thesis by (rule retry_with_room [OF inv at])
next
  case False
  obtain rf s1 where rd: "read_fields io 3 (handle + (HEADER_SIZE + 8)) s = (rf, s1)"
    by (cases "read_fields io 3 (handle + (HEADER_SIZE + 8)) s")
  note rl = read_load [OF inv rd]
  note k1 = kept_unchanged [OF inv rl(1)]
  then have inv1: "tbl_inv vw stride ksz handle H s1" by (simp add: tbl_kept_def)
  show ?thesis
  proof (cases rf)
    case (Inl e)
    with rd insert_effect_failed [OF k1] show ?thesis by simp
  next
    case (Inr fs)
    have no: "over_loaded (fs ! 0) (fs ! 2)" using rl(2) [OF Inr] False by simp
    obtain rg s2 where g: "grow_table io handle stride ksz 1 4 s1 = Some (rg, s2)"
      and k2: "tbl_kept vw stride ksz handle H s1 s2" and rm: "rg = Inr () \<longrightarrow> has_room vw handle s2"
      using grow_table_ok [OF inv1] by blast
    have k: "tbl_kept vw stride ksz handle H s s2" using k1 k2 by (rule tbl_kept_trans)
    then have inv2: "tbl_inv vw stride ksz handle H s2" by (simp add: tbl_kept_def)
    show ?thesis
    proof (cases rg)
      case (Inl e)
      with rd Inr no g insert_effect_failed [OF k] show ?thesis by simp
    next
      case rg: (Inr u)
      then have "has_room vw handle s2" using rm by simp
      from retry_with_room [OF inv2 at this, of fuel] obtain r s' where
        "retry_insert (Suc fuel) io stride ksz handle attempt full result s2 = Some (r, s')"
        and "insert_effect vw stride ksz handle H Q s2 r s'" by blast
      with insert_effect_kept [OF k] rd Inr no g rg show ?thesis
        by (simp del: retry_insert.simps add: retry_insert.simps(2) [of "Suc fuel"])
    qed
  qed
qed

text \<open>An insertion probe is such an attempt.\<close>

lemma insert_attempt:
  assumes ip: "insert_probe inspect exhausted place hit tomb set_tomb mark_new mark_hit mark_full
      handle stride ksz key rest overwrites"
    and sz: "unat stride = 8 + ksz + length rest" "length key = ksz" and c0: "c0 = set_tomb None c0"
    and new: "\<And>t m. \<not> full (mark_new (set_tomb t c0))
      \<and> (m key = None \<longrightarrow> Q (result (mark_new (set_tomb t c0))) m (m(key \<mapsto> rest)))"
    and old: "\<And>t v m. \<not> full (mark_hit v (set_tomb t c0)) \<and> (m key = Some v \<longrightarrow>
      Q (result (mark_hit v (set_tomb t c0))) m (if overwrites then m(key \<mapsto> rest) else m))"
  shows "attempt_ok stride ksz handle H (probe_commit io handle stride (fnv1a key) inspect exhausted c0) full result Q"
  unfolding attempt_ok_def
proof (intro allI impI)
  fix s r s'
  assume inv: "tbl_inv vw stride ksz handle H s" and room: "has_room vw handle s"
    and run: "probe_commit io handle stride (fnv1a key) inspect exhausted c0 s = (r, s')"
  define m where "m = meta_at handle (v_bytes vw s)"
  have cp: "m_cap m \<noteq> 0" and rm: "4 * (unat (m_used m) + 1) \<le> 3 * unat (m_cap m)"
    using room by (simp_all add: has_room_def m_def Let_def)
  note P = inv_parts [OF inv m_def cp]
  let ?T = "meta_table stride ksz m (v_bytes vw s)"
  have abs: "tbl_abs vw stride ksz handle s = table_map ?T" by (simp add: tbl_abs_def m_def)
  obtain ws t T' c' where x: "pure_probe (unat (m_cap m)) m stride (m_cap m - 1) inspect exhausted
        (v_bytes vw s) (fnv1a key AND (m_cap m - 1)) c0 = Inr (ws, c')"
    and st: "table_step stride ksz handle m (v_bytes vw s) ws T'"
    and n: "table_map ?T key = None \<Longrightarrow> c' = mark_new (set_tomb t c0) \<and> table_map T' = (table_map ?T)(key \<mapsto> rest)"
    and o: "\<And>v. table_map ?T key = Some v \<Longrightarrow> c' = mark_hit v (set_tomb t c0)
      \<and> table_map T' = (if overwrites then (table_map ?T)(key \<mapsto> rest) else table_map ?T)"
    by (rule insert_probe.insert_step [OF ip P(1,3) m_def inv_handle(2) [OF inv] rm sz refl, of c0,
        folded c0]) (rule that; assumption)
  note cs = commit_step(1) [OF inv m_def cp run x st]
  have q: "\<not> full c' \<and> Q (result c') (table_map ?T) (table_map T')"
  proof (cases "table_map ?T key")
    case None
    with n new show ?thesis by simp
  next
    case (Some v)
    have "\<not> full (mark_hit v (set_tomb t c0)) \<and> (table_map ?T key = Some v \<longrightarrow>
        Q (result (mark_hit v (set_tomb t c0))) (table_map ?T)
          (if overwrites then (table_map ?T)(key \<mapsto> rest) else table_map ?T))"
      by (rule old)
    with Some o show ?thesis by simp
  qed
  show "case r of Inl e \<Rightarrow> unchanged vw s s'
    | Inr c \<Rightarrow> \<not> full c \<and> insert_effect vw stride ksz handle H Q s (Inr (result c)) s'"
    using cs q by (cases r) (auto simp: insert_effect_def abs)
qed

end

end
