(* ===== verification/HashMapCorrect.thy ===== *)
theory HashMapCorrect
  imports HashMap TableInsert
begin

text \<open>
  The map of \<^verbatim>\<open>src/stdlib/map.rs\<close> against its specification. A map whose table satisfies
  \<open>map_inv\<close> stands for the finite map \<open>map_view\<close> from keys to value offsets; lookup,
  insertion and removal are the three operations of that map, each failing operation leaves it
  alone, and insertion always ends. The closures of \<^verbatim>\<open>insert\<close> and \<^verbatim>\<open>remove\<close>
  satisfy the interfaces of \<open>TableSteps\<close>.
\<close>

section \<open>Maps in a store\<close>

text \<open>A key size a Rust type can have.\<close>

definition key_size_ok :: "nat \<Rightarrow> bool" where
  "key_size_ok ksz \<longleftrightarrow> ksz < 2 ^ 62"

definition map_inv :: "'s stack_view \<Rightarrow> nat \<Rightarrow> u64 \<Rightarrow> range \<Rightarrow> 's \<Rightarrow> bool" where
  "map_inv vw ksz handle H s \<longleftrightarrow> key_size_ok ksz \<and> tbl_inv vw (map_stride ksz) ksz handle H s"

definition map_view :: "'s stack_view \<Rightarrow> nat \<Rightarrow> u64 \<Rightarrow> 's \<Rightarrow> u8 list \<rightharpoonup> u64" where
  "map_view vw ksz handle s k = map_option get_u64 (tbl_abs vw (map_stride ksz) ksz handle s k)"

definition map_frame :: "'s stack_view \<Rightarrow> nat \<Rightarrow> u64 \<Rightarrow> range \<Rightarrow> 's \<Rightarrow> 's \<Rightarrow> bool" where
  "map_frame vw ksz handle H s s' \<longleftrightarrow> tbl_frame vw (map_stride ksz) handle H s s'"

lemma unat_map_stride: "key_size_ok ksz \<Longrightarrow> unat (map_stride ksz) = 16 + ksz"
proof -
  assume k: "key_size_ok ksz"
  then have "unat (of_nat ksz :: u64) = ksz"
    by (intro unat_of_nat_u64) (simp add: key_size_ok_def)
  with k show ?thesis
    by (simp add: map_stride_def unat_plus_u64 key_size_ok_def)
qed

lemmas bucket_words = EMPTY_def OCCUPIED_def TOMBSTONE_def

lemma map_view_upd:
  "tbl_abs vw (map_stride ksz) ksz handle s' = (tbl_abs vw (map_stride ksz) ksz handle s)(k \<mapsto> to_le64 v) \<Longrightarrow>
    map_view vw ksz handle s' = (map_view vw ksz handle s)(k \<mapsto> v)"
  using get_u64_item [of v "[]"] by (auto simp: map_view_def fun_eq_iff)

lemma map_view_del:
  "tbl_abs vw (map_stride ksz) ksz handle s' = (tbl_abs vw (map_stride ksz) ksz handle s)(k := None) \<Longrightarrow>
    map_view vw ksz handle s' = (map_view vw ksz handle s)(k := None)"
  by (auto simp: map_view_def fun_eq_iff)

section \<open>The closures\<close>

definition map_hit :: "nat \<Rightarrow> u64 \<Rightarrow> meta \<Rightarrow> u64 \<Rightarrow> writes res" where
  "map_hit ksz val m idx = try_r (checked_off_mul (m_table m) idx (map_stride ksz)) (\<lambda>b.
     try_r (checked_off b (8 + of_nat ksz)) (\<lambda>value_off. Inr [w8 value_off val]))"

interpretation map_ins: insert_probe "insert_inspect handle (map_stride ksz) ksz key val"
  "insert_exhausted handle (map_stride ksz) key val" "new_bucket_writes handle (map_stride ksz) key val"
  "map_hit ksz val" ic_tomb "\<lambda>t c. c\<lparr>ic_tomb := t\<rparr>" "\<lambda>c. c\<lparr>ic_new := True\<rparr>"
  "\<lambda>v c. c\<lparr>ic_old := get_u64 v, ic_new := False\<rparr>" "\<lambda>c. c\<lparr>ic_grow := True\<rparr>"
  handle "map_stride ksz" ksz key "to_le64 val" True
  for handle ksz key val
proof unfold_locales
  fix buf :: "u8 list" and m i c
  assume "8 \<le> length buf"
  note s0 = get_u64_state [OF this]
  show "get_u64 buf = 0 \<Longrightarrow> insert_inspect handle (map_stride ksz) ksz key val m i buf c =
      (Stop (new_bucket_writes handle (map_stride ksz) key val m (case ic_tomb c of None \<Rightarrow> i | Some t \<Rightarrow> t)
        (ic_tomb c = None)), c\<lparr>ic_new := True\<rparr>)"
    by (simp add: insert_inspect_def s0 bucket_words del: get_u64_slice8)
  show "get_u64 buf = 1 \<Longrightarrow> slice 8 ksz buf = key \<Longrightarrow> insert_inspect handle (map_stride ksz) ksz key val m i buf c =
      (Stop (map_hit ksz val m i), c\<lparr>ic_old := get_u64 (drop (8 + ksz) buf), ic_new := False\<rparr>)"
    using get_u64_rest [of ksz buf]
    by (simp add: insert_inspect_def s0 bucket_words map_hit_def del: get_u64_slice8)
  show "get_u64 buf = 1 \<Longrightarrow> slice 8 ksz buf \<noteq> key \<Longrightarrow>
      insert_inspect handle (map_stride ksz) ksz key val m i buf c = (Continue, c)"
    by (simp add: insert_inspect_def s0 bucket_words del: get_u64_slice8)
  show "get_u64 buf = 2 \<Longrightarrow> insert_inspect handle (map_stride ksz) ksz key val m i buf c =
      (Continue, if ic_tomb c = None then c\<lparr>ic_tomb := Some i\<rparr> else c)"
    by (simp add: insert_inspect_def s0 bucket_words del: get_u64_slice8)
qed (auto simp: insert_exhausted_def new_bucket_writes_def place_batch_def LEN_OFF_def USED_OFF_def
    OCCUPIED_def map_hit_def w8_def simp del: checked_off_mul_Inr checked_off_Inr split: option.splits,
  simp)

interpretation map_rem: remove_probe "remove_inspect handle (map_stride ksz) ksz key" "\<lambda>m c. (Inr [], c)"
  "\<lambda>v c. Some (get_u64 v)" handle "map_stride ksz" ksz key
  for handle ksz key
proof unfold_locales
  fix buf :: "u8 list" and m :: meta and i c off
  assume "8 \<le> length buf"
  note s0 = get_u64_state [OF this]
  show "get_u64 buf = 0 \<Longrightarrow> remove_inspect handle (map_stride ksz) ksz key m i buf c = (Stop (Inr []), c)"
    by (simp add: remove_inspect_def s0 bucket_words del: get_u64_slice8)
  show "get_u64 buf = 1 \<Longrightarrow> slice 8 ksz buf = key \<Longrightarrow> checked_off_mul (m_table m) i (map_stride ksz) = Inr off \<Longrightarrow>
      remove_inspect handle (map_stride ksz) ksz key m i buf c =
      (Stop (Inr [w8 off 2, w8 (handle + (HEADER_SIZE + 16)) (m_len m - 1)]), Some (get_u64 (drop (8 + ksz) buf)))"
    using get_u64_rest [of ksz buf]
    by (simp add: remove_inspect_def s0 bucket_words LEN_OFF_def del: get_u64_slice8 checked_off_mul_Inr)
  show "get_u64 buf \<noteq> 0 \<Longrightarrow> get_u64 buf \<noteq> 1 \<or> slice 8 ksz buf \<noteq> key \<Longrightarrow>
      remove_inspect handle (map_stride ksz) ksz key m i buf c = (Continue, c)"
    by (auto simp: remove_inspect_def s0 bucket_words simp del: get_u64_slice8)
qed simp

section \<open>Lookup\<close>

lemma get_loop_seek:
  "get_loop n io ksz key table msk idx s =
     (case seek_loop n io (map_stride ksz) ksz key table msk idx s of
        (Inl e, s1) \<Rightarrow> (Inl e, s1) | (Inr v, s1) \<Rightarrow> (Inr (map_option get_u64 v), s1))"
proof (induction n arbitrary: idx s)
  case (Suc n)
  show ?case
  proof (cases "checked_off_mul table idx (map_stride ksz)")
    case (Inl e)
    then show ?thesis unfolding get_loop.simps seek_loop.simps by simp
  next
    case (Inr off)
    obtain rb s1 where rd: "op_read io off (unat (map_stride ksz)) s = (rb, s1)"
      by (cases "op_read io off (unat (map_stride ksz)) s")
    show ?thesis
    proof (cases rb)
      case (Inl e)
      show ?thesis unfolding get_loop.simps seek_loop.simps Inr try_in_simps rd Inl by simp
    next
      case rb: (Inr b)
      show ?thesis
        unfolding get_loop.simps seek_loop.simps Inr try_in_simps rd rb try_s_simps Let_def bucket_words Suc.IH
        by (simp add: get_u64_rest del: get_u64_slice8)
    qed
  qed
qed simp

lemma map_get_lookup:
  "map_get io ksz handle key s =
     (case table_lookup io (map_stride ksz) ksz handle key s of
        (Inl e, s1) \<Rightarrow> (Inl e, s1) | (Inr v, s1) \<Rightarrow> (Inr (map_option get_u64 v), s1))"
proof -
  obtain rf s1 where "read_fields io 2 (handle + HEADER_SIZE) s = (rf, s1)"
    by (cases "read_fields io 2 (handle + HEADER_SIZE) s")
  then show ?thesis
    unfolding map_get_def table_lookup_def TABLE_OFF_def get_loop_seek Let_def
    by (cases rf) simp_all
qed

context stack_laws
begin

lemma map_get_ok:
  assumes inv: "map_inv vw ksz handle H s" and run: "map_get io ksz handle key s = (r, s')"
  shows "unchanged vw s s'" and "r = Inr v \<Longrightarrow> v = map_view vw ksz handle s key"
    and "v_calm vw s \<Longrightarrow> v_calm vw s' \<and> r = Inr (map_view vw ksz handle s key)"
proof -
  have ti: "tbl_inv vw (map_stride ksz) ksz handle H s" using inv by (simp add: map_inv_def)
  obtain rl s1 where l: "table_lookup io (map_stride ksz) ksz handle key s = (rl, s1)"
    by (cases "table_lookup io (map_stride ksz) ksz handle key s")
  note lo = lookup_ok [OF ti l]
  have res: "s' = s1" "r = (case rl of Inl e \<Rightarrow> Inl e | Inr v \<Rightarrow> Inr (map_option get_u64 v))"
    using run unfolding map_get_lookup l by (cases rl; simp)+
  show "unchanged vw s s'" using lo(1) res(1) by simp
  show "v = map_view vw ksz handle s key" if "r = Inr v"
  proof (cases rl)
    case (Inl e)
    with res(2) that show ?thesis by simp
  next
    case (Inr w)
    with res(2) that lo(2) [OF Inr] show ?thesis by (simp add: map_view_def)
  qed
  show "v_calm vw s' \<and> r = Inr (map_view vw ksz handle s key)" if calm: "v_calm vw s"
  proof -
    obtain w where w: "rl = Inr w" and c: "v_calm vw s1" using lo(3) [OF calm] by blast
    from lo(2) [OF w] w c res show ?thesis by (simp add: map_view_def)
  qed
qed

section \<open>Insertion and removal\<close>

lemma map_remove_ok:
  assumes inv: "map_inv vw ksz handle H s" and run: "map_remove io ksz handle key s = (r, s')"
  shows "map_inv vw ksz handle H s' \<and> map_frame vw ksz handle H s s'"
    and "case r of Inl e \<Rightarrow> unchanged vw s s'
      | Inr v \<Rightarrow> v = map_view vw ksz handle s key
          \<and> map_view vw ksz handle s' = (map_view vw ksz handle s)(key := None)"
    and "v_calm vw s \<Longrightarrow> v_calm vw s' \<and> (\<exists>v. r = Inr v)"
proof -
  define m where "m = meta_at handle (v_bytes vw s)"
  let ?S = "map_stride ksz"
  have ti: "tbl_inv vw ?S ksz handle H s" and ks: "key_size_ok ksz" using inv by (simp_all add: map_inv_def)
  have run': "probe_commit io handle ?S (fnv1a key) (remove_inspect handle ?S ksz key) (\<lambda>m c. (Inr [], c)) None s = (r, s')"
    using run by (simp add: map_remove_def)
  have "map_inv vw ksz handle H s' \<and> map_frame vw ksz handle H s s'
    \<and> (case r of Inl e \<Rightarrow> unchanged vw s s'
      | Inr v \<Rightarrow> v = map_view vw ksz handle s key
          \<and> map_view vw ksz handle s' = (map_view vw ksz handle s)(key := None))
    \<and> (v_calm vw s \<longrightarrow> v_calm vw s' \<and> (\<exists>v. r = Inr v))"
  proof (cases "m_cap m = 0")
    case True
    note cn = commit_no_buckets [OF ti True [unfolded m_def] refl run']
    have "tbl_abs vw ?S ksz handle s key = None"
      using True by (simp add: tbl_abs_def m_def [symmetric] meta_table_def table_of_def table_map_def
          entries_def List.map_filter_def)
    then have none: "map_view vw ksz handle s key = None" by (simp add: map_view_def)
    have same: "map_view vw ksz handle s' = map_view vw ksz handle s"
      using tbl_inv_unchanged(2) [OF cn(1)] by (simp add: map_view_def fun_eq_iff)
    show ?thesis
      using kept_unchanged [OF ti cn(1)] cn none same ks
      by (cases r) (auto simp: map_inv_def map_frame_def tbl_kept_def)
  next
    case False
    note P = inv_parts [OF ti m_def False]
    have s8: "8 \<le> unat ?S" using unat_map_stride [OF ks] by simp
    let ?T = "meta_table ?S ksz m (v_bytes vw s)"
    obtain ws T' c' where x: "pure_probe (unat (m_cap m)) m ?S (m_cap m - 1) (remove_inspect handle ?S ksz key)
          (\<lambda>m c. (Inr [], c)) (v_bytes vw s) (fnv1a key AND (m_cap m - 1)) None = Inr (ws, c')"
      and st: "table_step ?S ksz handle m (v_bytes vw s) ws T'"
      and up: "table_map T' = (table_map ?T)(key := None)"
      and c': "c' = (case table_map ?T key of None \<Rightarrow> None | Some v \<Rightarrow> Some (get_u64 v))"
      by (rule map_rem.remove_step [OF P(1,3) m_def inv_handle(2) [OF ti] refl s8, where c = None]) auto
    note cs = commit_step [OF ti m_def False run' x st]
    have abs: "tbl_abs vw ?S ksz handle s = table_map ?T" by (simp add: tbl_abs_def m_def)
    have v: "c' = map_view vw ksz handle s key" by (auto simp: c' map_view_def abs split: option.splits)
    show ?thesis
    proof (cases r)
      case (Inl e)
      with cs kept_unchanged [OF ti] ks show ?thesis
        by (auto simp: map_inv_def map_frame_def tbl_kept_def)
    next
      case (Inr c)
      with cs v map_view_del [of vw ksz handle s' s key] ks show ?thesis
        by (auto simp: map_inv_def map_frame_def abs up)
    qed
  qed
  then show "map_inv vw ksz handle H s' \<and> map_frame vw ksz handle H s s'"
    and "case r of Inl e \<Rightarrow> unchanged vw s s'
      | Inr v \<Rightarrow> v = map_view vw ksz handle s key
          \<and> map_view vw ksz handle s' = (map_view vw ksz handle s)(key := None)"
    and "v_calm vw s \<Longrightarrow> v_calm vw s' \<and> (\<exists>v. r = Inr v)" by blast+
qed

end

section \<open>The insertion loop\<close>

abbreviation map_attempt ::
    "'s stack_ops \<Rightarrow> nat \<Rightarrow> u64 \<Rightarrow> u8 list \<Rightarrow> u64 \<Rightarrow> 's \<Rightarrow> insert_cells res \<times> 's" where
  "map_attempt io ksz handle key val \<equiv> probe_commit io handle (map_stride ksz) (fnv1a key)
     (insert_inspect handle (map_stride ksz) ksz key val)
     (insert_exhausted handle (map_stride ksz) key val) insert_cells_init"

definition map_answer :: "insert_cells \<Rightarrow> u64 option" where
  "map_answer c = (if ic_new c then None else Some (ic_old c))"

lemma map_insert_loop_retry:
  "map_insert_loop fuel io ksz handle key val s =
     retry_insert fuel io (map_stride ksz) ksz handle (map_attempt io ksz handle key val) ic_grow map_answer s"
proof (induction fuel arbitrary: s)
  case (Suc fuel)
  show ?case
    unfolding map_insert_loop.simps retry_insert.simps Suc.IH CAP_OFF_def map_grow_def OCCUPIED_def MIN_CAP_def
    by (simp add: map_answer_def split: prod.split sum.split)
qed simp

text \<open>With room for the entry the loop ends in its first round, otherwise in its second.\<close>

definition insert_outcome ::
    "'a stack_view \<Rightarrow> nat \<Rightarrow> u64 \<Rightarrow> range \<Rightarrow> u8 list \<Rightarrow> u64 \<Rightarrow> 'a \<Rightarrow> u64 option res \<Rightarrow> 'a \<Rightarrow> bool" where
  "insert_outcome w ksz handle H key val s r s' \<longleftrightarrow>
     map_inv w ksz handle H s' \<and> map_frame w ksz handle H s s'
     \<and> (case r of Inl e \<Rightarrow> map_view w ksz handle s' = map_view w ksz handle s
        | Inr old \<Rightarrow> old = map_view w ksz handle s key
            \<and> map_view w ksz handle s' = (map_view w ksz handle s)(key \<mapsto> val))"

lemma kept_map:
  assumes inv: "map_inv vw ksz handle H s" and k: "tbl_kept vw (map_stride ksz) ksz handle H s s'"
  shows "map_inv vw ksz handle H s'" and "map_frame vw ksz handle H s s'"
    and "map_view vw ksz handle s' = map_view vw ksz handle s"
  using assms by (auto simp: map_inv_def map_frame_def map_view_def tbl_kept_def fun_eq_iff)

text \<open>The answer of an insertion over the table's payloads.\<close>

definition stored ::
    "u8 list \<Rightarrow> u64 \<Rightarrow> u64 option \<Rightarrow> (u8 list \<rightharpoonup> u8 list) \<Rightarrow> (u8 list \<rightharpoonup> u8 list) \<Rightarrow> bool" where
  "stored key val old m m' \<longleftrightarrow> old = map_option get_u64 (m key) \<and> m' = m(key \<mapsto> to_le64 val)"

context stack_laws
begin

lemma map_kept_unchanged:
  "map_inv vw ksz handle H s \<Longrightarrow> unchanged vw s s' \<Longrightarrow> tbl_kept vw (map_stride ksz) ksz handle H s s'"
  by (auto simp: map_inv_def intro: kept_unchanged)

lemma map_attempt_ok:
  assumes ks: "key_size_ok ksz" and key: "length key = ksz"
  shows "attempt_ok (map_stride ksz) ksz handle H (map_attempt io ksz handle key val) ic_grow map_answer (stored key val)"
  using unat_map_stride [OF ks] key
  by (intro insert_attempt [OF map_ins.insert_probe_axioms])
    (simp_all add: insert_cells_init_def map_answer_def stored_def)

lemma map_insert_loop_ok:
  assumes inv: "map_inv vw ksz handle H s" and key: "length key = ksz"
  shows "\<exists>r s'. map_insert_loop (Suc (Suc fuel)) io ksz handle key val s = Some (r, s')
    \<and> insert_outcome vw ksz handle H key val s r s'"
proof -
  have ks: "key_size_ok ksz" and ti: "tbl_inv vw (map_stride ksz) ksz handle H s" using inv by (simp_all add: map_inv_def)
  obtain r s' where r: "map_insert_loop (Suc (Suc fuel)) io ksz handle key val s = Some (r, s')"
    and e: "insert_effect vw (map_stride ksz) ksz handle H (stored key val) s r s'"
    using retry_insert_ok [OF ti map_attempt_ok [OF ks key]] unfolding map_insert_loop_retry by blast
  have "insert_outcome vw ksz handle H key val s r s'"
    using e ks map_view_upd [of vw ksz handle s' s key val]
    by (auto simp: insert_effect_def insert_outcome_def map_inv_def map_frame_def stored_def map_view_def
        split: sum.splits)
  with r show ?thesis by blast
qed

end

end
