(* ===== verification/MapProps.thy ===== *)
theory MapProps
  imports HashMapCorrect
begin

text \<open>
  What the hash map promises its callers, over any store that meets \<open>stack_laws\<close>: a new map is
  empty, lookup, insertion and removal are those of a finite map, a failed call leaves the map as it
  was and hands the value back, and no call touches another allocation. Witnesses run on the
  byte-array store \<open>mem_io\<close>.
\<close>

section \<open>A new map\<close>

lemma length_map_image: "length (map_image ksz vtag) = 48"
proof -
  have "wf_eightcc (map_eightcc ksz vtag)"
    unfolding map_eightcc_def by (intro wf_eightcc_ops) (simp add: wf_eightcc_def)
  then show ?thesis by (simp add: map_image_def wf_eightcc_def)
qed

lemma map_image_fields:
  "j \<in> {0, 1, 2, 3} \<Longrightarrow> slice (16 + 8 * j) 8 (map_image ksz vtag) = to_le64 0"
proof -
  assume j: "j \<in> {0, 1, 2, 3}"
  have l: "length (to_le64 MAP_SIZE @ cc_bytes (map_eightcc ksz vtag)) = 16"
    using length_map_image [of ksz vtag] by (simp add: map_image_def)
  have "map_image ksz vtag = (to_le64 MAP_SIZE @ cc_bytes (map_eightcc ksz vtag))
      @ (to_le64 0 @ to_le64 0 @ to_le64 0 @ to_le64 0)"
    by (simp add: map_image_def)
  then have "slice (16 + 8 * j) 8 (map_image ksz vtag) = slice (8 * j) 8 (to_le64 0 @ to_le64 0 @ to_le64 0 @ to_le64 0)"
    using l by (simp add: slice_append2)
  with j show ?thesis by (auto simp: slice_append1 slice_append2)
qed

context stack_laws
begin

lemma map_new_ok:
  assumes g: "v_good vw s" and ks: "key_size_ok ksz" and run: "map_new io ksz vtag s = (r, s')"
  shows "case r of
      Inl e \<Rightarrow> v_live vw s \<subseteq> v_live vw s' \<and> same_on (insert reserved (v_live vw s)) (v_bytes vw s) (v_bytes vw s')
    | Inr q \<Rightarrow> q \<notin> v_live vw s \<and> v_live vw s' = insert q (v_live vw s)
        \<and> map_inv vw ksz (fst q) q s' \<and> map_view vw ksz (fst q) s' = Map.empty
        \<and> same_on (insert reserved (v_live vw s)) (v_bytes vw s) (v_bytes vw s')"
proof -
  have ne: "map_image ksz vtag \<noteq> []" using length_map_image [of ksz vtag] by auto
  have "length (map_image ksz vtag) < 2 ^ 63" by (simp add: length_map_image)
  note ai = alloc_image_ok [OF g ne this run [unfolded map_new_def]]
  show ?thesis
  proof (cases r)
    case (Inl e)
    with ai show ?thesis by (auto simp: relived_def)
  next
    case (Inr q)
    with ai have q: "unat (snd q) = 48" "q \<notin> v_live vw s" "content (v_bytes vw s') q = map_image ksz vtag"
      and r: "relived vw s (v_live vw s) (insert q (v_live vw s)) s'"
      by (simp_all add: length_map_image)
    have g': "v_good vw s'" "v_live vw s' = insert q (v_live vw s)" using r by (simp_all add: relived_def)
    have fld: "slice (unat (fst q) + (16 + 8 * j)) 8 (v_bytes vw s') = to_le64 0" if "j \<in> {0, 1, 2, 3}" for j
    proof -
      have "slice (unat (fst q) + (16 + 8 * j)) 8 (v_bytes vw s') = slice (16 + 8 * j) 8 (content (v_bytes vw s') q)"
        using that q(1) by (simp add: content_def slice_slice) (auto simp: slice_slice)
      then show ?thesis using map_image_fields [OF that] q(3) by simp
    qed
    have m: "meta_at (fst q) (v_bytes vw s') = \<lparr>m_table = 0, m_cap = 0, m_len = 0, m_used = 0\<rparr>"
      using fld [of 0] fld [of 1] fld [of 2] fld [of 3] by (simp add: meta_at_fields)
    have "inside (unat (fst q)) 48 q" using q(1) by (simp add: inside_def range_end_def)
    then have "map_inv vw ksz (fst q) q s'"
      using g' ks unat_map_stride [OF ks] by (simp add: map_inv_def tbl_inv_def m)
    moreover have "map_view vw ksz (fst q) s' = Map.empty"
      by (simp add: map_view_def tbl_abs_def m meta_table_def table_of_def table_map_def entries_def
          List.map_filter_def fun_eq_iff)
    ultimately show ?thesis using Inr q g' r by (simp add: relived_def)
  qed
qed

lemma map_insert_ok:
  assumes inv: "map_inv vw ksz handle H s" and key: "length key = ksz"
  shows "\<exists>r s'. map_insert (Suc (Suc fuel)) io ksz handle key val s = Some (r, s')
    \<and> map_inv vw ksz handle H s' \<and> map_frame vw ksz handle H s s'
    \<and> (case r of Inr old \<Rightarrow> old = map_view vw ksz handle s key
          \<and> map_view vw ksz handle s' = (map_view vw ksz handle s)(key \<mapsto> val)
       | Inl (e, v) \<Rightarrow> v = val \<and> map_view vw ksz handle s' = map_view vw ksz handle s)"
proof -
  obtain r s' where "map_insert_loop (Suc (Suc fuel)) io ksz handle key val s = Some (r, s')"
    and "insert_outcome vw ksz handle H key val s r s'"
    using map_insert_loop_ok [OF inv key] by blast
  then show ?thesis
    by (cases r) (auto simp: map_insert_def insert_outcome_def finish_handback_def
        simp del: map_insert_loop.simps)
qed

end

section \<open>Sequences of operations\<close>

datatype map_op = OpGet "u8 list" | OpInsert "u8 list" u64 | OpRemove "u8 list"

fun op_key :: "map_op \<Rightarrow> u8 list" where
  "op_key (OpGet k) = k"
| "op_key (OpInsert k v) = k"
| "op_key (OpRemove k) = k"

definition map_exec :: "'s stack_ops \<Rightarrow> nat \<Rightarrow> u64 \<Rightarrow> map_op \<Rightarrow> 's \<Rightarrow> (u64 option res \<times> 's) option" where
  "map_exec io ksz handle oper s =
     (case oper of
        OpGet k \<Rightarrow> Some (map_get io ksz handle k s)
      | OpInsert k v \<Rightarrow> map_option (\<lambda>(r, s'). (case r of Inl (e, _) \<Rightarrow> Inl e | Inr old \<Rightarrow> Inr old, s'))
          (map_insert (Suc (Suc 0)) io ksz handle k v s)
      | OpRemove k \<Rightarrow> Some (map_remove io ksz handle k s))"

fun map_run :: "'s stack_ops \<Rightarrow> nat \<Rightarrow> u64 \<Rightarrow> map_op list \<Rightarrow> 's \<Rightarrow> (u64 option res list \<times> 's) option" where
  "map_run io ksz handle [] s = Some ([], s)"
| "map_run io ksz handle (oper # ops) s =
     (case map_exec io ksz handle oper s of
        None \<Rightarrow> None
      | Some (r, s1) \<Rightarrow> map_option (\<lambda>(rs, s2). (r # rs, s2)) (map_run io ksz handle ops s1))"

text \<open>The specification: each answer is that of a finite map, or an error that changes nothing.\<close>

fun spec_step :: "map_op \<Rightarrow> (u8 list \<rightharpoonup> u64) \<Rightarrow> (u8 list \<rightharpoonup> u64)" where
  "spec_step (OpGet k) m = m"
| "spec_step (OpInsert k v) m = m(k \<mapsto> v)"
| "spec_step (OpRemove k) m = m(k := None)"

fun agrees :: "(u8 list \<rightharpoonup> u64) \<Rightarrow> map_op list \<Rightarrow> u64 option res list \<Rightarrow> (u8 list \<rightharpoonup> u64) \<Rightarrow> bool" where
  "agrees m [] [] m' \<longleftrightarrow> m' = m"
| "agrees m (oper # ops) (r # rs) m' \<longleftrightarrow>
     (case r of Inl e \<Rightarrow> agrees m ops rs m'
      | Inr v \<Rightarrow> v = m (op_key oper) \<and> agrees (spec_step oper m) ops rs m')"
| "agrees m _ _ m' \<longleftrightarrow> False"

context stack_laws
begin

lemma map_exec_ok:
  assumes inv: "map_inv vw ksz handle H s" and key: "length (op_key oper) = ksz"
  shows "\<exists>r s'. map_exec io ksz handle oper s = Some (r, s')
    \<and> map_inv vw ksz handle H s' \<and> map_frame vw ksz handle H s s'
    \<and> (case r of Inl e \<Rightarrow> map_view vw ksz handle s' = map_view vw ksz handle s
       | Inr v \<Rightarrow> v = map_view vw ksz handle s (op_key oper)
          \<and> map_view vw ksz handle s' = spec_step oper (map_view vw ksz handle s))"
proof (cases oper)
  case (OpGet k)
  obtain r s' where e: "map_get io ksz handle k s = (r, s')" by (cases "map_get io ksz handle k s")
  note g = map_get_ok [OF inv e]
  note km = kept_map [OF inv map_kept_unchanged [OF inv g(1)]]
  from OpGet e g(2) km show ?thesis by (cases r) (simp_all add: map_exec_def)
next
  case (OpInsert k v)
  obtain r s' where "map_insert (Suc (Suc 0)) io ksz handle k v s = Some (r, s')"
    and "map_inv vw ksz handle H s' \<and> map_frame vw ksz handle H s s'
    \<and> (case r of Inr old \<Rightarrow> old = map_view vw ksz handle s k
          \<and> map_view vw ksz handle s' = (map_view vw ksz handle s)(k \<mapsto> v)
       | Inl (e, v') \<Rightarrow> v' = v \<and> map_view vw ksz handle s' = map_view vw ksz handle s)"
    using map_insert_ok [OF inv, of k 0 v] key OpInsert by auto
  with OpInsert show ?thesis by (cases r) (auto simp: map_exec_def)
next
  case (OpRemove k)
  obtain r s' where e: "map_remove io ksz handle k s = (r, s')" by (cases "map_remove io ksz handle k s")
  note g = map_remove_ok(1,2) [OF inv e]
  have "map_view vw ksz handle s' = map_view vw ksz handle s" if "unchanged vw s s'"
    using kept_map(3) [OF inv map_kept_unchanged [OF inv that]] .
  with OpRemove e g show ?thesis by (cases r) (simp_all add: map_exec_def)
qed

lemma map_frame_trans:
  "map_frame vw ksz handle H s s1 \<Longrightarrow> map_frame vw ksz handle H s1 s2 \<Longrightarrow> map_frame vw ksz handle H s s2"
  by (simp add: map_frame_def tbl_frame_trans [of vw "map_stride ksz" handle H s s1 s2])

lemma map_run_ok:
  assumes "map_inv vw ksz handle H s" and "\<forall>oper \<in> set ops. length (op_key oper) = ksz"
  shows "\<exists>rs s'. map_run io ksz handle ops s = Some (rs, s') \<and> map_inv vw ksz handle H s'
    \<and> map_frame vw ksz handle H s s' \<and> agrees (map_view vw ksz handle s) ops rs (map_view vw ksz handle s')"
  using assms
proof (induction ops arbitrary: s)
  case Nil
  then show ?case by (simp add: map_frame_def tbl_frame_refl)
next
  case (Cons oper ops)
  obtain r s1 where e: "map_exec io ksz handle oper s = Some (r, s1)"
    and i: "map_inv vw ksz handle H s1" and f: "map_frame vw ksz handle H s s1"
    and v: "case r of Inl e \<Rightarrow> map_view vw ksz handle s1 = map_view vw ksz handle s
       | Inr v \<Rightarrow> v = map_view vw ksz handle s (op_key oper)
          \<and> map_view vw ksz handle s1 = spec_step oper (map_view vw ksz handle s)"
    using map_exec_ok [OF Cons.prems(1), of oper] Cons.prems(2) by auto
  obtain rs s' where "map_run io ksz handle ops s1 = Some (rs, s')" and "map_inv vw ksz handle H s'"
    and "map_frame vw ksz handle H s1 s'" and "agrees (map_view vw ksz handle s1) ops rs (map_view vw ksz handle s')"
    using Cons.IH [OF i] Cons.prems(2) by auto
  with e v map_frame_trans [OF f] show ?case by (cases r) auto
qed

end

section \<open>Sample store\<close>

text \<open>A byte-array store with one map of 8-byte keys at offset 16, still without buckets.\<close>

definition sample_handle :: range where
  "sample_handle = (16, 48)"

definition sample_store :: mem where
  "sample_store = \<lparr>m_bytes = replicate 64 0, m_live = [sample_handle], m_faults = []\<rparr>"

lemma sample_good: "mem_good sample_store"
  by (simp add: mem_good_def sample_store_def sample_handle_def range_end_def)

lemma sample_meta: "meta_at 16 (m_bytes sample_store) = \<lparr>m_table = 0, m_cap = 0, m_len = 0, m_used = 0\<rparr>"
proof -
  have "slice a 8 (replicate 64 (0 :: u8)) = replicate 8 0" if "a + 8 \<le> 64" for a
    using that by (simp add: slice_def min_def)
  moreover have "from_le64 (replicate 8 0) = 0" by (simp add: from_le64_def numeral_eq_Suc)
  ultimately show ?thesis by (simp add: meta_at_fields sample_store_def)
qed

lemma sample_map_inv: "map_inv mem_view 8 16 sample_handle sample_store"
  using sample_good sample_meta
  by (simp add: map_inv_def key_size_ok_def tbl_inv_def mem_view_simps unat_map_stride)
    (simp add: sample_store_def sample_handle_def inside_def range_end_def)

section \<open>Claims\<close>



text \<open>C2: Inserting a key of the right size always ends, two rounds of the retry loop being enough.
  It returns the value the key had and maps the key to the new one, or fails, hands the new value back
  and leaves the map as it was; either way the map stays well formed and every other allocation keeps
  its bytes.\<close>

theorem map_insert_correct:
  assumes "stack_laws io vw" and "map_inv vw ksz handle H s" and "length key = ksz"
  shows "\<exists>r s'. map_insert (Suc (Suc fuel)) io ksz handle key val s = Some (r, s')
    \<and> map_inv vw ksz handle H s' \<and> map_frame vw ksz handle H s s'
    \<and> (case r of Inr old \<Rightarrow> old = map_view vw ksz handle s key
          \<and> map_view vw ksz handle s' = (map_view vw ksz handle s)(key \<mapsto> val)
       | Inl (e, v) \<Rightarrow> v = val \<and> map_view vw ksz handle s' = map_view vw ksz handle s)"
  using stack_laws.map_insert_ok [OF assms] .

theorem map_insert_correct_witness:
  "\<exists>r s'. map_insert (Suc (Suc 0)) mem_io 8 16 (to_le64 7) 9 sample_store = Some (r, s')
    \<and> map_inv mem_view 8 16 sample_handle s' \<and> map_frame mem_view 8 16 sample_handle sample_store s'
    \<and> (case r of Inr old \<Rightarrow> old = map_view mem_view 8 16 sample_store (to_le64 7)
          \<and> map_view mem_view 8 16 s' = (map_view mem_view 8 16 sample_store)(to_le64 7 \<mapsto> 9)
       | Inl (e, v) \<Rightarrow> v = 9 \<and> map_view mem_view 8 16 s' = map_view mem_view 8 16 sample_store)"
  using map_insert_correct [OF mem.stack_laws_axioms sample_map_inv length_to_le(1), of 0 7 9] .

text \<open>C13: Looking up a key changes nothing and, unless the store fails, returns the value the map has for
  it.\<close>

theorem map_get_correct:
  assumes "stack_laws io vw" and "map_inv vw ksz handle H s" and "map_get io ksz handle key s = (r, s')"
  shows "unchanged vw s s' \<and> (\<forall>v. r = Inr v \<longrightarrow> v = map_view vw ksz handle s key)
    \<and> (v_calm vw s \<longrightarrow> r = Inr (map_view vw ksz handle s key))"
  using stack_laws.map_get_ok [OF assms] by blast

theorem map_get_correct_witness:
  "fst (map_get mem_io 8 16 (to_le64 7) sample_store) = Inr (map_view mem_view 8 16 sample_store (to_le64 7))"
proof -
  obtain r s' where e: "map_get mem_io 8 16 (to_le64 7) sample_store = (r, s')"
    by (cases "map_get mem_io 8 16 (to_le64 7) sample_store")
  have "v_calm mem_view sample_store" by (simp add: mem_view_simps sample_store_def)
  then have "r = Inr (map_view mem_view 8 16 sample_store (to_le64 7))"
    using map_get_correct [OF mem.stack_laws_axioms sample_map_inv e] by blast
  then show ?thesis by (simp only: e fst_conv)
qed

text \<open>C14: Removing a key returns the value it had and unmaps it, or fails and changes nothing; the map
  stays well formed and every other allocation keeps its bytes.\<close>

theorem map_remove_correct:
  assumes "stack_laws io vw" and "map_inv vw ksz handle H s" and "map_remove io ksz handle key s = (r, s')"
  shows "map_inv vw ksz handle H s' \<and> map_frame vw ksz handle H s s'
    \<and> (case r of Inl e \<Rightarrow> unchanged vw s s'
       | Inr v \<Rightarrow> v = map_view vw ksz handle s key
          \<and> map_view vw ksz handle s' = (map_view vw ksz handle s)(key := None))"
  using stack_laws.map_remove_ok(1,2) [OF assms] by blast

theorem map_remove_correct_witness:
  "\<exists>r s'. map_remove mem_io 8 16 (to_le64 7) sample_store = (r, s')
    \<and> map_inv mem_view 8 16 sample_handle s' \<and> map_frame mem_view 8 16 sample_handle sample_store s'
    \<and> (case r of Inl e \<Rightarrow> unchanged mem_view sample_store s'
       | Inr v \<Rightarrow> v = map_view mem_view 8 16 sample_store (to_le64 7)
          \<and> map_view mem_view 8 16 s' = (map_view mem_view 8 16 sample_store)(to_le64 7 := None))"
proof -
  obtain r s' where e: "map_remove mem_io 8 16 (to_le64 7) sample_store = (r, s')"
    by (cases "map_remove mem_io 8 16 (to_le64 7) sample_store")
  from map_remove_correct [OF mem.stack_laws_axioms sample_map_inv e] e show ?thesis by blast
qed

text \<open>C1: A sequence of lookups, insertions and removals on a map over a store that may fail at any
  call simulates the same sequence on a finite map: it ends, and each answer is the finite map's or is
  an error that had no effect.\<close>

theorem map_run_refines:
  assumes "stack_laws io vw" and "map_inv vw ksz handle H s" and "\<forall>oper \<in> set ops. length (op_key oper) = ksz"
  shows "\<exists>rs s'. map_run io ksz handle ops s = Some (rs, s') \<and> map_inv vw ksz handle H s'
    \<and> map_frame vw ksz handle H s s' \<and> agrees (map_view vw ksz handle s) ops rs (map_view vw ksz handle s')"
  using stack_laws.map_run_ok [OF assms] .

theorem map_run_refines_witness:
  "\<exists>rs s'. map_run mem_io 8 16 [OpInsert (to_le64 7) 9, OpGet (to_le64 7), OpRemove (to_le64 7)] sample_store = Some (rs, s')
    \<and> map_inv mem_view 8 16 sample_handle s' \<and> map_frame mem_view 8 16 sample_handle sample_store s'
    \<and> agrees (map_view mem_view 8 16 sample_store) [OpInsert (to_le64 7) 9, OpGet (to_le64 7), OpRemove (to_le64 7)]
        rs (map_view mem_view 8 16 s')"
proof -
  have "\<forall>oper \<in> set [OpInsert (to_le64 7) 9, OpGet (to_le64 7), OpRemove (to_le64 7)]. length (op_key oper) = 8"
    by simp
  from map_run_refines [OF mem.stack_laws_axioms sample_map_inv this] show ?thesis .
qed

text \<open>C12: Growing a table always ends: the rebuild finds an empty slot for every entry. It keeps the keys and
  their payloads and every other allocation, whatever fails on the way, and when it succeeds the table
  has room for one more entry below the load factor.\<close>

theorem grow_table_correct:
  assumes "stack_laws io vw" and "tbl_inv vw stride ksz handle H s"
  shows "\<exists>r s'. grow_table io handle stride ksz OCCUPIED MIN_CAP s = Some (r, s')
    \<and> tbl_inv vw stride ksz handle H s' \<and> tbl_abs vw stride ksz handle s' = tbl_abs vw stride ksz handle s
    \<and> tbl_frame vw stride handle H s s' \<and> (r = Inr () \<longrightarrow> has_room vw handle s')"
  using stack_laws.grow_table_ok [OF assms] by (auto simp: tbl_kept_def OCCUPIED_def MIN_CAP_def)

theorem grow_table_correct_witness:
  "\<exists>r s'. grow_table mem_io 16 (map_stride 8) 8 OCCUPIED MIN_CAP sample_store = Some (r, s')
    \<and> tbl_inv mem_view (map_stride 8) 8 16 sample_handle s'
    \<and> tbl_abs mem_view (map_stride 8) 8 16 s' = tbl_abs mem_view (map_stride 8) 8 16 sample_store
    \<and> tbl_frame mem_view (map_stride 8) 16 sample_handle sample_store s' \<and> (r = Inr () \<longrightarrow> has_room mem_view 16 s')"
proof -
  have "tbl_inv mem_view (map_stride 8) 8 16 sample_handle sample_store"
    using sample_map_inv by (simp add: map_inv_def)
  from grow_table_correct [OF mem.stack_laws_axioms this] show ?thesis .
qed

end
