(* ===== verification/Updates.thy ===== *)
theory Updates
  imports Blocks
begin

text \<open>
  Facts the collections share: the words of a payload and what a batch of word writes does to them,
  the atomic read-modify-write of \<^verbatim>\<open>src/stdlib/util.rs\<close> as one step (it fails and
  changes nothing, or it commits the batch its closure computes from the words it read), and the
  frame of an operation that owns some of the live blocks.
\<close>

section \<open>Words of a payload\<close>

definition word_at :: "u8 list \<Rightarrow> nat \<Rightarrow> u64" where
  "word_at b off = from_le64 (slice off 8 b)"

definition poke :: "nat \<Rightarrow> u64 \<Rightarrow> u8 list \<Rightarrow> u8 list" where
  "poke off v b = overwrite off (to_le64 v) b"

lemma length_poke [simp]: "off + 8 \<le> length b \<Longrightarrow> length (poke off v b) = length b"
  by (simp add: poke_def)

lemma word_at_poke [simp]: "off + 8 \<le> length b \<Longrightarrow> word_at (poke off v b) off = v"
  by (simp add: word_at_def poke_def slice_overwrite_same)

lemma word_at_poke_other:
  "off + 8 \<le> length b \<Longrightarrow> p + 8 \<le> length b \<Longrightarrow> p + 8 \<le> off \<or> off + 8 \<le> p \<Longrightarrow>
    word_at (poke off v b) p = word_at b p"
  by (simp add: word_at_def poke_def slice_overwrite_disjoint)

lemma slice_words:
  "\<forall>w \<in> set ws. length w = 8 \<Longrightarrow> i < length ws \<Longrightarrow> slice (8 * i) 8 (concat ws @ rest) = ws ! i"
proof (induction ws arbitrary: i)
  case (Cons w ws)
  then show ?case
    by (cases i) (simp_all add: slice_append1 slice_append2 slice_full)
qed simp

lemma word_at_words: "i < length ws \<Longrightarrow> word_at (concat (map to_le64 ws) @ rest) (8 * i) = ws ! i"
  using slice_words [of "map to_le64 ws" i rest] by (simp add: word_at_def)

lemma length_words [simp]: "length (concat (map to_le64 ws)) = 8 * length ws"
  by (induction ws) simp_all

lemma overwrite_slice_id: "off + n \<le> length b \<Longrightarrow> overwrite off (slice off n b) b = b"
  by (intro nth_equalityI) (auto simp: nth_overwrite nth_slice)

lemma u64_of_unat: "of_nat (unat (w :: u64)) = w"
  by simp

lemma get_u64_slice_eq: "get_u64 (slice off 8 b) = word_at b off"
  by (simp add: get_u64_def word_at_def slice_def)

lemma word_at_slice: "a + 8 \<le> n \<Longrightarrow> word_at (slice off n b) a = word_at b (off + a)"
  by (simp add: word_at_def slice_slice)

lemma fields_of_words: "off + 8 * n \<le> length b \<Longrightarrow>
    fields_of n (slice off (n * 8) b) = map (\<lambda>i. word_at b (off + 8 * i)) [0..<n]"
  by (simp add: fields_of_def word_at_def slice_slice)

text \<open>A block that keeps its content keeps its words.\<close>

lemma content_word:
  assumes "content b' q = content b q" and "inside a 8 q"
  shows "word_at b' a = word_at b a"
proof -
  obtain j where a: "a = unat (fst q) + j" using assms(2) le_Suc_ex by (auto simp: inside_def)
  then have j: "j + 8 \<le> unat (snd q)" using assms(2) by (simp add: inside_def range_end_def)
  have "slice j 8 (content b' q) = slice j 8 (content b q)" using assms(1) by simp
  then show ?thesis using j by (simp add: content_def slice_slice a word_at_def)
qed

lemma same_on_word_at: "same_on R b b' \<Longrightarrow> q \<in> R \<Longrightarrow> inside a 8 q \<Longrightarrow> word_at b' a = word_at b a"
  by (rule content_word) (simp_all add: same_on_def)

section \<open>Batches\<close>

lemma apply_writes_append: "apply_writes (xs @ ys) b = apply_writes ys (apply_writes xs b)"
  by (induction xs b rule: apply_writes.induct) simp_all

lemma in_bounds_append: "in_bounds b (xs @ ys) \<longleftrightarrow> in_bounds b xs \<and> in_bounds b ys"
  by (auto simp: in_bounds_def)

lemma in_bounds_length: "length b' = length b \<Longrightarrow> in_bounds b' ws = in_bounds b ws"
  by (simp add: in_bounds_def)

lemma in_bounds_w8 [simp]: "in_bounds b (w8 off v # ws) \<longleftrightarrow> unat off + 8 \<le> length b \<and> in_bounds b ws"
  by (simp add: w8_def)

lemma apply_w8 [simp]: "apply_writes (w8 off v # ws) b = apply_writes ws (poke (unat off) v b)"
  by (simp add: w8_def poke_def)

text \<open>Whether a write stays clear of \<open>n\<close> bytes at \<open>a\<close>.\<close>

definition clear_of :: "nat \<Rightarrow> nat \<Rightarrow> u64 \<times> u8 list \<Rightarrow> bool" where
  "clear_of a n w \<longleftrightarrow> a + n \<le> unat (fst w) \<or> unat (fst w) + length (snd w) \<le> a"

lemma clear_of_w8 [simp]: "clear_of a n (w8 off v) \<longleftrightarrow> a + n \<le> unat off \<or> unat off + 8 \<le> a"
  by (simp add: clear_of_def w8_def)

lemma slice_apply_clear:
  assumes "in_bounds b ws" and "a + n \<le> length b" and "\<forall>w \<in> set ws. clear_of a n w"
  shows "slice a n (apply_writes ws b) = slice a n b"
proof (rule slice_apply_writes [OF assms(1,2)])
  fix off d assume "(off, d) \<in> set ws"
  with assms(3) have "clear_of a n (off, d)" by blast
  then show "a + n \<le> unat off \<or> unat off + length d \<le> a" by (simp add: clear_of_def)
qed

lemma word_apply_clear:
  "in_bounds b ws \<Longrightarrow> a + 8 \<le> length b \<Longrightarrow> \<forall>w \<in> set ws. clear_of a 8 w \<Longrightarrow>
    word_at (apply_writes ws b) a = word_at b a"
  by (simp add: word_at_def slice_apply_clear)

text \<open>A write whose bytes no later write touches is what is read back.\<close>

lemma slice_apply_at:
  assumes "in_bounds b (A @ (off, d) # C)"
    and "\<And>o2 d2. (o2, d2) \<in> set C \<Longrightarrow> unat off + length d \<le> unat o2 \<or> unat o2 + length d2 \<le> unat off"
  shows "slice (unat off) (length d) (apply_writes (A @ (off, d) # C) b) = d"
proof -
  let ?b = "apply_writes A b"
  have l: "length ?b = length b" and o1: "unat off + length d \<le> length b" and ibC: "in_bounds b C"
    using assms(1) by (simp_all add: in_bounds_append)
  have "slice (unat off) (length d) (apply_writes C (overwrite (unat off) d ?b))
      = slice (unat off) (length d) (overwrite (unat off) d ?b)"
    using assms(2) l o1 ibC in_bounds_length [of "overwrite (unat off) d ?b" b C]
    by (intro slice_apply_writes) auto
  with l o1 show ?thesis by (simp add: apply_writes_append slice_overwrite_same)
qed

lemma word_apply_last:
  assumes "in_bounds b (ws1 @ w8 off v # ws2)" and "\<forall>w \<in> set ws2. clear_of (unat off) 8 w"
  shows "word_at (apply_writes (ws1 @ w8 off v # ws2) b) (unat off) = v"
proof -
  have "slice (unat off) (length (to_le64 v)) (apply_writes (ws1 @ (off, to_le64 v) # ws2) b) = to_le64 v"
  proof (rule slice_apply_at)
    show "in_bounds b (ws1 @ (off, to_le64 v) # ws2)" using assms(1) by (simp add: w8_def)
    fix o2 d2 assume "(o2, d2) \<in> set ws2"
    then have "clear_of (unat off) 8 (o2, d2)" using assms(2) by blast
    then show "unat off + length (to_le64 v) \<le> unat o2 \<or> unat o2 + length d2 \<le> unat off"
      by (simp add: clear_of_def)
  qed
  then show ?thesis by (simp add: word_at_def w8_def)
qed

text \<open>The \<open>i\<close>-th write of a batch, nothing later touching it.\<close>

lemma word_apply_nth:
  assumes "in_bounds b ws" and "i < length ws" and "ws ! i = w8 off v"
    and "\<And>j. i < j \<Longrightarrow> j < length ws \<Longrightarrow> clear_of (unat off) 8 (ws ! j)"
  shows "word_at (apply_writes ws b) (unat off) = v"
proof -
  have ws: "ws = take i ws @ w8 off v # drop (Suc i) ws"
    using assms(2,3) by (metis id_take_nth_drop)
  have "\<forall>w \<in> set (drop (Suc i) ws). clear_of (unat off) 8 w"
  proof
    fix w assume "w \<in> set (drop (Suc i) ws)"
    then obtain k where "k < length ws - Suc i" "w = ws ! (Suc i + k)" by (auto simp: in_set_conv_nth)
    then show "clear_of (unat off) 8 w" using assms(4) [of "Suc i + k"] by simp
  qed
  with word_apply_last [of b "take i ws" off v "drop (Suc i) ws"] assms(1) ws show ?thesis by simp
qed

section \<open>Frames\<close>

text \<open>From \<open>s\<close> to \<open>s'\<close> the live blocks outside \<open>R\<close> stay and keep their bytes.\<close>

definition kept :: "'s stack_view \<Rightarrow> range set \<Rightarrow> 's \<Rightarrow> 's \<Rightarrow> bool" where
  "kept vw R s s' \<longleftrightarrow> v_good vw s' \<and> v_live vw s - R \<subseteq> v_live vw s'
     \<and> same_on (insert reserved (v_live vw s - R)) (v_bytes vw s) (v_bytes vw s')"

lemma frame_good: "kept vw R s s' \<Longrightarrow> v_good vw s'"
  by (simp add: kept_def)

lemma frame_live: "kept vw R s s' \<Longrightarrow> q \<in> v_live vw s \<Longrightarrow> q \<notin> R \<Longrightarrow> q \<in> v_live vw s'"
  by (auto simp: kept_def)

lemma frame_content: "kept vw R s s' \<Longrightarrow> q \<in> v_live vw s \<Longrightarrow> q \<notin> R \<Longrightarrow>
    content (v_bytes vw s') q = content (v_bytes vw s) q"
  by (auto simp: kept_def same_on_def)

lemma frame_word: "kept vw R s s' \<Longrightarrow> q \<in> v_live vw s \<Longrightarrow> q \<notin> R \<Longrightarrow> inside a 8 q \<Longrightarrow>
    word_at (v_bytes vw s') a = word_at (v_bytes vw s) a"
  by (rule content_word [OF frame_content])

lemma frame_mono: "kept vw R s s' \<Longrightarrow> R \<subseteq> R' \<Longrightarrow> kept vw R' s s'"
  by (auto simp: kept_def same_on_def)

lemma frame_refl: "v_good vw s \<Longrightarrow> kept vw R s s"
  by (simp add: kept_def)

lemma frame_unchanged: "unchanged vw s s' \<Longrightarrow> kept vw R s s'"
  by (simp add: kept_def unchanged_def)

lemma frame_trans:
  assumes "kept vw R s s1" and "kept vw R1 s1 s2" and "(v_live vw s - R) \<inter> R1 = {}"
  shows "kept vw R s s2"
proof -
  have sub: "v_live vw s - R \<subseteq> v_live vw s1 - R1" using assms(1,3) by (auto simp: kept_def)
  have "same_on (insert reserved (v_live vw s - R)) (v_bytes vw s) (v_bytes vw s2)"
    by (rule same_on_trans [of _ _ "v_bytes vw s1" "insert reserved (v_live vw s1 - R1)"])
      (use assms(1,2) sub in \<open>auto simp: kept_def\<close>)
  then show ?thesis using assms(2) sub by (auto simp: kept_def)
qed

lemma frame_after_unchanged: "unchanged vw s s1 \<Longrightarrow> kept vw R s1 s2 \<Longrightarrow> kept vw R s s2"
  by (simp add: kept_def unchanged_def)

lemma frame_relived: "relived vw s L L' s' \<Longrightarrow> v_live vw s - R \<subseteq> L \<Longrightarrow> L \<subseteq> L' \<Longrightarrow> kept vw R s s'"
  by (auto simp: kept_def relived_def same_on_def)

section \<open>The atomic read-modify-write\<close>

definition words_of :: "u8 list \<Rightarrow> u64 list \<Rightarrow> u64 list" where
  "words_of b offs = map (\<lambda>off. word_at b (unat off)) offs"

lemma words_of_simps [simp]:
  "words_of b [] = []" "words_of b (off # offs) = word_at b (unat off) # words_of b offs"
  by (simp_all add: words_of_def)

lemma length_words_of [simp]: "length (words_of b offs) = length offs"
  by (simp add: words_of_def)

lemma nth_words_of [simp]: "i < length offs \<Longrightarrow> words_of b offs ! i = word_at b (unat (offs ! i))"
  by (simp add: words_of_def)

context stack_laws
begin

text \<open>The words of a handle that lies in a live block.\<close>

lemma handle_words:
  assumes g: "v_good vw s" and H: "H \<in> v_live vw s" and i: "inside (unat (handle :: u64)) n H" and k: "k + 8 \<le> n"
  shows "unat (handle + of_nat k) = unat handle + k" and "unat handle + k + 8 \<le> length (v_bytes vw s)"
    and "inside (unat handle + k) 8 H"
proof -
  have e: "range_end H \<le> length (v_bytes vw s)" using good_live [OF g H] by simp
  show b: "unat handle + k + 8 \<le> length (v_bytes vw s)" using i k e by (simp add: inside_def)
  show "inside (unat handle + k) 8 H" using i k by (simp add: inside_def)
  have "unat handle + k < u64_limit" "k < u64_limit" using b good_store [OF g] by simp_all
  then show "unat (handle + of_nat k) = unat handle + k" by (simp add: unat_plus_u64 unat_of_nat_u64)
qed

lemma frame_commit:
  assumes g: "v_good vw s" and ib: "in_bounds (v_bytes vw s) ws" and w: "written vw s (apply_writes ws (v_bytes vw s)) s'"
    and R: "R \<subseteq> v_live vw s" and ins: "\<forall>(off, d) \<in> set ws. \<exists>q \<in> R. inside (unat off) (length d) q"
  shows "kept vw R s s'"
  using same_on_writes [OF g ib R ins] w by (simp add: kept_def written_def)

lemma frame_set:
  assumes g: "v_good vw s" and w: "written vw s (overwrite (unat off) d (v_bytes vw s)) s'"
    and q: "q \<in> v_live vw s" and i: "inside (unat (off :: u64)) (length d) q"
  shows "kept vw {q} s s'"
  using same_on_set [OF g q i] w by (simp add: kept_def written_def)

lemma frame_alloc:
  assumes "v_good vw s" and "op_alloc io sz s = (r, s')" and "sz \<noteq> 0"
  shows "kept vw {} s s'"
    and "r = Inr q \<Longrightarrow> snd q = sz \<and> q \<notin> v_live vw s \<and> v_live vw s' = insert q (v_live vw s)"
    and "r = Inl e \<Longrightarrow> v_live vw s' = v_live vw s"
proof -
  note law = alloc_law [OF assms]
  show "kept vw {} s s'"
    using law by (cases r) (auto intro: frame_relived)
  show "snd q = sz \<and> q \<notin> v_live vw s \<and> v_live vw s' = insert q (v_live vw s)" if "r = Inr q"
    using law that by (simp add: relived_def)
  show "v_live vw s' = v_live vw s" if "r = Inl e"
    using law that by (simp add: relived_def)
qed

lemma frame_dealloc:
  assumes "v_good vw s" and "q \<in> v_live vw s" and "op_dealloc io q s = (r, s')"
  shows "kept vw {q} s s'" and "v_live vw s' = v_live vw s - {q} \<or> (\<exists>e. r = Inl e) \<and> v_live vw s' = v_live vw s"
    and "v_calm vw s \<Longrightarrow> r = Inr () \<and> v_calm vw s' \<and> v_live vw s' = v_live vw s - {q}"
proof -
  note law = dealloc_law [OF assms]
  then show "kept vw {q} s s'" by (auto intro: frame_relived)
  show l: "v_live vw s' = v_live vw s - {q} \<or> (\<exists>e. r = Inl e) \<and> v_live vw s' = v_live vw s"
    using law by (auto simp: relived_def)
  show "r = Inr () \<and> v_calm vw s' \<and> v_live vw s' = v_live vw s - {q}" if "v_calm vw s"
    using calm_dealloc [OF assms(1) that assms(2)] assms(3) l by auto
qed

lemma read_word_ok:
  assumes g: "v_good vw s" and run: "read_u64 io off s = (r, s')"
  shows "unchanged vw s s'" and "r = Inr v \<Longrightarrow> v = word_at (v_bytes vw s) (unat off)"
    and "v_calm vw s \<Longrightarrow> unat off + 8 \<le> length (v_bytes vw s) \<Longrightarrow>
      r = Inr (word_at (v_bytes vw s) (unat off)) \<and> v_calm vw s'"
proof -
  obtain rb s1 where rd: "op_read io off 8 s = (rb, s1)" by (cases "op_read io off 8 s")
  note l = read_law [OF g rd]
  show u: "unchanged vw s s'" using l run rd by (cases rb) (auto simp: read_u64_def)
  show v: "v = word_at (v_bytes vw s) (unat off)" if "r = Inr v"
    using l run rd that by (cases rb) (auto simp: read_u64_def word_at_def)
  show "r = Inr (word_at (v_bytes vw s) (unat off)) \<and> v_calm vw s'"
    if "v_calm vw s" "unat off + 8 \<le> length (v_bytes vw s)"
    using calm_read [OF g that] l run rd by (auto simp: read_u64_def word_at_def)
qed

lemma read_words_ok:
  assumes g: "v_good vw s" and run: "read_fields io n off s = (r, s')"
  shows "unchanged vw s s'" and "r = Inr fs \<Longrightarrow> fs = map (\<lambda>i. word_at (v_bytes vw s) (unat off + 8 * i)) [0..<n]"
    and "v_calm vw s \<Longrightarrow> unat off + n * 8 \<le> length (v_bytes vw s) \<Longrightarrow> \<not> isl r \<and> v_calm vw s'"
proof -
  obtain rb s1 where rd: "op_read io off (n * 8) s = (rb, s1)" by (cases "op_read io off (n * 8) s")
  note l = read_law [OF g rd]
  show u: "unchanged vw s s'" using l run rd by (cases rb) (auto simp: read_fields_def)
  show "fs = map (\<lambda>i. word_at (v_bytes vw s) (unat off + 8 * i)) [0..<n]" if "r = Inr fs"
    using l run rd that by (cases rb) (auto simp: read_fields_def fields_of_words mult.commute)
  show "\<not> isl r \<and> v_calm vw s'" if "v_calm vw s" "unat off + n * 8 \<le> length (v_bytes vw s)"
    using calm_read [OF g that] run rd by (auto simp: read_fields_def)
qed

lemma read_each_ok:
  "v_good vw s \<Longrightarrow> read_each io offs s = (r, s') \<Longrightarrow> unchanged vw s s'
    \<and> (\<forall>vs. r = Inr vs \<longrightarrow> vs = words_of (v_bytes vw s) offs)"
proof (induction offs arbitrary: s r s')
  case (Cons off offs)
  obtain rb s1 where rd: "op_read io off 8 s = (rb, s1)" by (cases "op_read io off 8 s")
  note l1 = read_law [OF Cons.prems(1) rd]
  have g1: "v_good vw s1" using l1 by (simp add: unchanged_def)
  obtain rs s2 where re: "read_each io offs s1 = (rs, s2)" by (cases "read_each io offs s1")
  note l2 = Cons.IH [OF g1 re]
  have u: "unchanged vw s s2" using l1 l2 unchanged_trans by blast
  show ?case
    using Cons.prems(2) l1 l2 u rd re by (cases rb; cases rs) (auto simp: unchanged_def word_at_def)
qed (auto simp: unchanged_def)

lemma read_each_calm:
  "v_good vw s \<Longrightarrow> v_calm vw s \<Longrightarrow> \<forall>off \<in> set offs. unat off + 8 \<le> length (v_bytes vw s) \<Longrightarrow>
    \<exists>s'. read_each io offs s = (Inr (words_of (v_bytes vw s) offs), s') \<and> v_calm vw s' \<and> unchanged vw s s'"
proof (induction offs arbitrary: s)
  case (Cons off offs)
  then obtain b s1 where rd: "op_read io off 8 s = (Inr b, s1)" "v_calm vw s1"
    using calm_read [OF Cons.prems(1,2), of off 8] by auto
  note l = read_law [OF Cons.prems(1) rd(1)]
  then have u: "unchanged vw s s1" and g1: "v_good vw s1" and b1: "v_bytes vw s1 = v_bytes vw s"
    by (simp_all add: unchanged_def)
  obtain s' where "read_each io offs s1 = (Inr (words_of (v_bytes vw s) offs), s')" "v_calm vw s'" "unchanged vw s1 s'"
    using Cons.IH [OF g1 rd(2)] Cons.prems(3) b1 by auto
  then show ?case
    using rd l unchanged_trans [OF u] by (auto simp: word_at_def)
qed (auto simp: unchanged_def)

lemma atomic_update_cases:
  assumes g: "v_good vw s" and run: "atomic_update io offs1 reads2 plan s = (r, s')"
  obtains (Fail) e where "r = Inl e" and "unchanged vw s s'"
  | (Commit) offs2 ws c where "r = Inr c" and "reads2 (words_of (v_bytes vw s) offs1) = Inr offs2"
      and "plan (words_of (v_bytes vw s) offs1) (words_of (v_bytes vw s) offs2) = Inr (ws, c)"
      and "in_bounds (v_bytes vw s) ws" and "written vw s (apply_writes ws (v_bytes vw s)) s'"
proof -
  obtain r1 s1 where e1: "read_each io offs1 s = (r1, s1)" by (cases "read_each io offs1 s")
  note l1 = read_each_ok [OF g e1]
  have u1: "unchanged vw s s1" using l1 by simp
  then have g1: "v_good vw s1" and b1: "v_bytes vw s1 = v_bytes vw s" by (simp_all add: unchanged_def)
  show thesis
  proof (cases r1)
    case (Inl e)
    then show ?thesis using run e1 u1 by (intro Fail [of e]) (simp_all add: atomic_update_def)
  next
    case v1: (Inr v1)
    have v1_eq: "v1 = words_of (v_bytes vw s) offs1" using l1 v1 by simp
    show ?thesis
    proof (cases "reads2 v1")
      case (Inl e)
      then show ?thesis using run e1 v1 u1 by (intro Fail [of e]) (simp_all add: atomic_update_def)
    next
      case o2: (Inr offs2)
      obtain r2 s2 where e2: "read_each io offs2 s1 = (r2, s2)" by (cases "read_each io offs2 s1")
      note l2 = read_each_ok [OF g1 e2]
      have u2: "unchanged vw s s2" using unchanged_trans [OF u1] l2 by simp
      then have g2: "v_good vw s2" and b2: "v_bytes vw s2 = v_bytes vw s" by (simp_all add: unchanged_def)
      show ?thesis
      proof (cases r2)
        case (Inl e)
        then show ?thesis using run e1 v1 o2 e2 u2 by (intro Fail [of e]) (simp_all add: atomic_update_def)
      next
        case v2: (Inr v2)
        have v2_eq: "v2 = words_of (v_bytes vw s) offs2" using l2 v2 b1 by simp
        show ?thesis
        proof (cases "plan v1 v2")
          case (Inl e)
          then show ?thesis using run e1 v1 o2 e2 v2 u2 by (intro Fail [of e]) (simp_all add: atomic_update_def)
        next
          case p: (Inr wc)
          obtain ws c where wc: "wc = (ws, c)" by (cases wc)
          obtain r3 s3 where e3: "op_commit io ws s2 = (r3, s3)" by (cases "op_commit io ws s2")
          note l3 = commit_law [OF g2 e3]
          have out: "atomic_update io offs1 reads2 plan s = try_s (r3, s3) (\<lambda>_ s3. (Inr c, s3))"
            using e1 v1 o2 e2 v2 p wc e3 by (simp add: atomic_update_def)
          show ?thesis
          proof (cases r3)
            case (Inl e)
            then show ?thesis using run out l3 unchanged_trans [OF u2] by (intro Fail [of e]) simp_all
          next
            case (Inr u)
            then show ?thesis
              using run out l3 o2 p wc v1_eq v2_eq b2 written_after_unchanged [OF u2]
              by (intro Commit [of c offs2 ws]) simp_all
          qed
        qed
      qed
    qed
  qed
qed

lemma atomic_update_calm:
  assumes g: "v_good vw s" and calm: "v_calm vw s" and o1: "\<forall>off \<in> set offs1. unat off + 8 \<le> length (v_bytes vw s)"
    and r2: "reads2 (words_of (v_bytes vw s) offs1) = Inr offs2"
    and o2: "\<forall>off \<in> set offs2. unat off + 8 \<le> length (v_bytes vw s)"
    and pl: "plan (words_of (v_bytes vw s) offs1) (words_of (v_bytes vw s) offs2) = Inr (ws, c)"
    and ib: "in_bounds (v_bytes vw s) ws"
  obtains s' where "atomic_update io offs1 reads2 plan s = (Inr c, s')" and "v_calm vw s'"
proof -
  obtain s1 where e1: "read_each io offs1 s = (Inr (words_of (v_bytes vw s) offs1), s1)" "v_calm vw s1" "unchanged vw s s1"
    using read_each_calm [OF g calm o1] by blast
  then have g1: "v_good vw s1" and b1: "v_bytes vw s1 = v_bytes vw s" by (simp_all add: unchanged_def)
  obtain s2 where e2: "read_each io offs2 s1 = (Inr (words_of (v_bytes vw s) offs2), s2)" "v_calm vw s2" "unchanged vw s1 s2"
    using read_each_calm [OF g1 e1(2), of offs2] o2 b1 by auto
  then have g2: "v_good vw s2" and b2: "v_bytes vw s2 = v_bytes vw s" using b1 by (simp_all add: unchanged_def)
  obtain s3 where "op_commit io ws s2 = (Inr (), s3)" "v_calm vw s3"
    using calm_commit [OF g2 e2(2)] ib b2 by auto
  with e1 e2 r2 pl that show thesis by (simp add: atomic_update_def)
qed

text \<open>The same when the closures and the bounds are known in advance.\<close>

lemma atomic_update_run:
  assumes g: "v_good vw s" and run: "atomic_update io offs1 reads2 plan s = (r, s')"
    and o1: "\<forall>off \<in> set offs1. unat off + 8 \<le> length (v_bytes vw s)"
    and r2: "reads2 (words_of (v_bytes vw s) offs1) = Inr offs2"
    and o2: "\<forall>off \<in> set offs2. unat off + 8 \<le> length (v_bytes vw s)"
    and pl: "plan (words_of (v_bytes vw s) offs1) (words_of (v_bytes vw s) offs2) = Inr (ws, c)"
    and ib: "in_bounds (v_bytes vw s) ws"
  shows "(\<exists>e. r = Inl e) \<and> unchanged vw s s' \<or> r = Inr c \<and> written vw s (apply_writes ws (v_bytes vw s)) s'"
    and "v_calm vw s \<Longrightarrow> r = Inr c \<and> v_calm vw s'"
proof -
  show "(\<exists>e. r = Inl e) \<and> unchanged vw s s' \<or> r = Inr c \<and> written vw s (apply_writes ws (v_bytes vw s)) s'"
    by (rule atomic_update_cases [OF g run]) (use r2 pl in auto)
  assume calm: "v_calm vw s"
  show "r = Inr c \<and> v_calm vw s'"
    by (rule atomic_update_calm [where ?reads2.0 = reads2 and plan = plan, OF g calm o1 r2 o2 pl ib]) (use run in simp)
qed

end

end
