(* ===== verification/Collecting.thy ===== *)
theory Collecting
  imports Teardown Updates
begin

text \<open>
  What the teardown of a collection does with the frees. Inside the transaction of an owned teardown
  each goes to the sink and the store does not change (\<open>collected\<close>); without a sink each is done at
  once (\<open>frees_directly\<close>). The teardown of an element is an argument, with one hypothesis for each
  case.
\<close>

section \<open>Collecting\<close>

text \<open>\<open>t'\<close> is \<open>t\<close> with the same store content and \<open>fs\<close> added to its sink.\<close>

definition collected ::
    "'s stack_view \<Rightarrow> 's allocator \<Rightarrow> 's thread \<Rightarrow> (file_id \<times> range) list \<Rightarrow> 's thread \<Rightarrow> bool" where
  "collected vw al t fs t' \<longleftrightarrow>
     (\<exists>installer xs. th_sink t = Some (installer, xs) \<and> (al_file al \<noteq> FILE_SELF \<or> al_stack al = installer)
        \<and> th_sink t' = Some (installer, xs @ fs) \<and> th_depth t' = th_depth t
        \<and> unchanged vw (th_store t) (th_store t') \<and> v_calm vw (th_store t'))"

text \<open>What is assumed of the teardown of an element: with a sink it hands over the ranges \<open>fr v\<close>.\<close>

definition hands_over ::
    "'s stack_view \<Rightarrow> 's allocator \<Rightarrow> (u64 \<Rightarrow> (file_id \<times> range) list) \<Rightarrow> (u64 \<Rightarrow> 's thread \<Rightarrow> unit res \<times> 's thread) \<Rightarrow> bool" where
  "hands_over vw al fr drop_value \<longleftrightarrow>
     (\<forall>v t. collected vw al t [] t \<longrightarrow> (\<exists>t'. drop_value v t = (Inr (), t') \<and> collected vw al t (fr v) t'))"

definition element_frees :: "(u64 \<Rightarrow> (file_id \<times> range) list) \<Rightarrow> u64 \<Rightarrow> (file_id \<times> range) list" where
  "element_frees fr v = (if v \<noteq> 0 then fr v else [])"

lemma collected_trans: "collected vw al t fs t1 \<Longrightarrow> collected vw al t1 gs t2 \<Longrightarrow> collected vw al t (fs @ gs) t2"
  by (auto simp: collected_def unchanged_def)

lemma collected_here: "collected vw al t fs t' \<Longrightarrow> collected vw al t' [] t'"
  by (auto simp: collected_def unchanged_def)

lemma dealloc_collected:
  "collected vw al t [] t \<Longrightarrow> \<exists>t'. dealloc_range al q t = (Inr (), t') \<and> collected vw al t [(al_file al, q)] t'"
  by (auto simp: collected_def dealloc_range_def sink_dealloc_def sink_collect_def)

lemma element_collected:
  assumes "hands_over vw al fr drop_value" and "collected vw al t [] t"
  shows "\<exists>t'. (if v \<noteq> 0 then drop_value v t else (Inr (), t)) = (Inr (), t') \<and> collected vw al t (element_frees fr v) t'"
  using assms by (auto simp: hands_over_def element_frees_def)

lemma collected_stateD: "collected vw al t fs t' \<Longrightarrow> unchanged vw (th_store t) (th_store t') \<and> v_calm vw (th_store t')"
  by (auto simp: collected_def)

lemma on_store_collected:
  assumes "collected vw al t [] t" and "f (th_store t) = (r, s')" and "unchanged vw (th_store t) s'" and "v_calm vw s'"
  shows "\<exists>t'. on_store f t = (r, t') \<and> collected vw al t [] t' \<and> th_store t' = s'"
  using assms by (auto simp: on_store_def collected_def)

text \<open>Without a sink the teardown of an element frees the ranges \<open>fr v\<close> at once.\<close>

definition released ::
    "'s stack_view \<Rightarrow> 's thread \<Rightarrow> range list \<Rightarrow> 's thread \<Rightarrow> bool" where
  "released vw t qs t' \<longleftrightarrow> th_sink t' = None \<and> v_calm vw (th_store t')
     \<and> freed vw (th_store t) (set qs) {} (th_store t')"

definition frees_directly ::
    "'s stack_view \<Rightarrow> (u64 \<Rightarrow> (file_id \<times> range) list) \<Rightarrow> (u64 \<Rightarrow> 's thread \<Rightarrow> unit res \<times> 's thread) \<Rightarrow> bool" where
  "frees_directly vw fr drop_value \<longleftrightarrow>
     (\<forall>v t. released vw t [] t \<longrightarrow> distinct (map snd (fr v)) \<longrightarrow> set (map snd (fr v)) \<subseteq> v_live vw (th_store t)
        \<longrightarrow> (\<exists>t'. drop_value v t = (Inr (), t') \<and> released vw t (map snd (fr v)) t'))"

lemma released_trans: "released vw t qs t1 \<Longrightarrow> released vw t1 rs t2 \<Longrightarrow> released vw t (qs @ rs) t2"
  using freed_trans [of vw "th_store t" "set qs" "{}" "th_store t1" "set rs" "{}" "th_store t2"]
  by (auto simp: released_def)

lemma released_live: "released vw t qs t' \<Longrightarrow> v_live vw (th_store t') = v_live vw (th_store t) - set qs"
  using freed_live [of vw "th_store t" "set qs" "{}" "th_store t'"] by (auto simp: released_def)

section \<open>A sequence of elements\<close>

text \<open>Running a fallible action on each element, up to the first error.\<close>

fun each :: "('a \<Rightarrow> 's \<Rightarrow> unit res \<times> 's) \<Rightarrow> 'a list \<Rightarrow> 's \<Rightarrow> unit res \<times> 's" where
  "each f [] s = (Inr (), s)"
| "each f (x # xs) s = try_s (f x s) (\<lambda>_ s1. each f xs s1)"

lemma each_collected:
  assumes "hands_over vw al fr f"
  shows "collected vw al t [] t \<Longrightarrow> \<exists>t'. each f vs t = (Inr (), t') \<and> collected vw al t (concat (map fr vs)) t'"
proof (induction vs arbitrary: t)
  case (Cons v vs)
  from assms Cons.prems obtain t1 where t1: "f v t = (Inr (), t1)" "collected vw al t (fr v) t1"
    by (auto simp: hands_over_def)
  from Cons.IH [OF collected_here [OF t1(2)]] t1 collected_trans [OF t1(2)] show ?case by auto
qed simp

context stack_laws
begin

lemma released_here: "released vw t qs t' \<Longrightarrow> released vw t' [] t'"
  using freed_unchanged [of "th_store t'" "th_store t'"]
  by (auto simp: released_def unchanged_def dest: freed_good)

lemma each_released:
  assumes "frees_directly vw fr f"
  shows "released vw t [] t \<Longrightarrow> distinct (map snd (concat (map fr vs))) \<Longrightarrow>
    set (map snd (concat (map fr vs))) \<subseteq> v_live vw (th_store t) \<Longrightarrow>
    \<exists>t'. each f vs t = (Inr (), t') \<and> released vw t (map snd (concat (map fr vs))) t'"
proof (induction vs arbitrary: t)
  case (Cons v vs)
  define A where "A = map snd (fr v)"
  define B where "B = map snd (concat (map fr vs))"
  have AB: "map snd (concat (map fr (v # vs))) = A @ B" by (simp add: A_def B_def)
  have d: "distinct A" "distinct B" "set A \<inter> set B = {}" using Cons.prems(2) unfolding AB by simp_all
  have l: "set A \<subseteq> v_live vw (th_store t)" "set B \<subseteq> v_live vw (th_store t)" using Cons.prems(3) unfolding AB by simp_all
  obtain t1 where t1: "f v t = (Inr (), t1)" "released vw t A t1"
    using assms Cons.prems(1) d(1) l(1) unfolding frees_directly_def A_def by blast
  have "set B \<subseteq> v_live vw (th_store t1)" using released_live [OF t1(2)] d(3) l(2) by auto
  then obtain t2 where "each f vs t1 = (Inr (), t2)" "released vw t1 B t2"
    using Cons.IH [OF released_here [OF t1(2)]] d(2) unfolding B_def by blast
  with t1(1) released_trans [OF t1(2)] show ?case unfolding AB by simp
qed simp

lemma dealloc_released:
  assumes io: "al_io al = io" and t: "released vw t [] t" and q: "q \<in> v_live vw (th_store t)"
  shows "\<exists>t'. dealloc_range al q t = (Inr (), t') \<and> released vw t [q] t'"
proof -
  have g: "v_good vw (th_store t)" and c: "v_calm vw (th_store t)" and n: "th_sink t = None"
    using t by (auto simp: released_def dest: freed_good)
  obtain s' where d: "op_dealloc io q (th_store t) = (Inr (), s')" and c': "v_calm vw s'"
    using calm_dealloc [OF g c q] by blast
  have "freed vw (th_store t) {q} {} s'" using dealloc_freed [OF g q d] by simp
  with n c' d io show ?thesis by (simp add: dealloc_range_direct on_store_def released_def)
qed

lemma read_collected:
  assumes io: "al_io al = io" and c: "collected vw al t [] t" and g: "v_good vw (th_store t)" and b: "unat off + 8 \<le> length (v_bytes vw (th_store t))"
  shows "\<exists>t'. on_store (read_u64 (al_io al) off) t = (Inr (word_at (v_bytes vw (th_store t)) (unat off)), t') \<and> collected vw al t [] t'"
proof -
  obtain r s' where rd: "read_u64 io off (th_store t) = (r, s')" by fastforce
  note w = read_word_ok [OF g rd]
  have calm: "v_calm vw (th_store t)" using collected_stateD [OF c] by simp
  from on_store_collected [where f = "read_u64 io off", OF c rd w(1)] w(3) [OF calm b] io show ?thesis by auto
qed

end

section \<open>Samples\<close>

text \<open>A sample thread that collects, and a teardown of elements that hands over one range each.\<close>

definition sample_al :: "mem allocator" where
  "sample_al = \<lparr>al_io = mem_io, al_stack = 1, al_file = FILE_SELF\<rparr>"

definition sample_thread :: "mem \<Rightarrow> mem thread" where
  "sample_thread s = \<lparr>th_store = s, th_sink = Some (1, []), th_depth = 0\<rparr>"

lemma sample_collected:
  assumes "v_good mem_view s" and "v_calm mem_view s"
  shows "collected mem_view sample_al (sample_thread s) [] (sample_thread s)"
  using assms by (simp add: collected_def sample_al_def sample_thread_def unchanged_def)

lemma sample_hands:
  "hands_over mem_view sample_al (\<lambda>v. [(FILE_SELF, (v, 8))]) (\<lambda>v. drop_block sample_al (\<lambda>_ t. (Inr (), t)) (v, 8))"
  unfolding hands_over_def drop_block_def
  using dealloc_collected [where al = sample_al and vw = mem_view] by (simp add: sample_al_def)

definition bare_thread :: "mem \<Rightarrow> mem thread" where
  "bare_thread s = \<lparr>th_store = s, th_sink = None, th_depth = 0\<rparr>"

lemma sample_released:
  assumes "v_good mem_view s" and "v_calm mem_view s"
  shows "released mem_view (bare_thread s) [] (bare_thread s)"
  using assms mem.freed_unchanged [of s s] by (simp add: released_def bare_thread_def unchanged_def)

lemma sample_direct:
  "frees_directly mem_view (\<lambda>v. [(FILE_SELF, (v, 8))]) (\<lambda>v. drop_block sample_al (\<lambda>_ t. (Inr (), t)) (v, 8))"
  using mem.dealloc_released [of sample_al] by (simp add: frees_directly_def drop_block_def sample_al_def)

end
