(* ===== verification/MapTraverse.thy ===== *)
theory MapTraverse
  imports MapProps Collecting
begin

text \<open>
  Walking over a hash map: the iterator yields every entry once, the teardown hands every value to
  the value's own teardown once and then the bucket block to the sink or the store, and the fused entry operation
  inserts only when the key is absent.
\<close>

section \<open>Entries from a position on\<close>

lemma entries_Cons: "entries (b # bs) = (case entry b of None \<Rightarrow> entries bs | Some kv \<Rightarrow> kv # entries bs)"
  by (simp add: entries_def List.map_filter_def split: option.splits)

lemma entries_Nil [simp]: "entries [] = []"
  by (simp add: entries_def List.map_filter_def)

lemma entries_dropWhile: "entries (dropWhile (\<lambda>b. entry b = None) bs) = entries bs"
  by (induction bs) (auto simp: entries_Cons)

lemma entry_cases: "entry b = Some (k, v) \<longleftrightarrow> b = Occupied k v"
  by (cases b) auto

definition pairs_of :: "(u8 list, u8 list) bucket list \<Rightarrow> (u8 list \<times> u64) list" where
  "pairs_of T = map (\<lambda>(k, v). (k, get_u64 v)) (entries T)"

lemma pairs_of_distinct: "wf_table h T \<Longrightarrow> distinct (map fst (pairs_of T))"
  using wf_entries_distinct [of h T] by (simp add: pairs_of_def comp_def case_prod_unfold)

lemma pairs_of_map: "map_of (pairs_of T) k = map_option get_u64 (table_map T k)"
  by (simp add: pairs_of_def table_map_def map_of_map [unfolded comp_def])

section \<open>The iterator\<close>

fun iter_collect ::
    "nat \<Rightarrow> 's stack_ops \<Rightarrow> nat \<Rightarrow> map_iter \<Rightarrow> 's \<Rightarrow> ((u8 list \<times> u64) res list \<times> 's) option" where
  "iter_collect 0 io ksz it s = None"
| "iter_collect (Suc fuel) io ksz it s =
     (case map_iter_next io ksz it s of
        (None, it', s') \<Rightarrow> Some ([], s')
      | (Some x, it', s') \<Rightarrow> map_option (\<lambda>(xs, s''). (x # xs, s'')) (iter_collect fuel io ksz it' s'))"

context stack_laws
begin

lemma iter_scan_calm:
  assumes "v_good vw s" and "v_calm vw s" and "key_size_ok ksz"
    and "unat (m_table m) + unat (m_cap m) * unat (map_stride ksz) \<le> length (v_bytes vw s)"
    and "it_table it = m_table m" and "it_cap it = m_cap m" and "unat (it_idx it) + n = unat (m_cap m)"
    and "T = meta_table (map_stride ksz) ksz m (v_bytes vw s)"
  shows "\<exists>s'. unchanged vw s s' \<and> v_calm vw s' \<and> iter_scan n io ksz it s =
    (case dropWhile (\<lambda>b. entry b = None) (drop (unat (it_idx it)) T) of
       [] \<Rightarrow> (None, it\<lparr>it_idx := m_cap m\<rparr>, s')
     | b # bs \<Rightarrow> (Some (Inr (case the (entry b) of (k, v) \<Rightarrow> (k, get_u64 v))),
         it\<lparr>it_idx := of_nat (length T - length bs)\<rparr>, s'))"
  using assms
proof (induction n arbitrary: it s)
  case 0
  then have "it_idx it = m_cap m" by (simp add: word_unat_eq_iff)
  moreover have "drop (unat (it_idx it)) T = []" using 0 by (simp add: meta_table_def)
  ultimately show ?case using 0(1,2) by (auto simp: unchanged_def intro!: exI [of _ s])
next
  case (Suc n)
  let ?S = "map_stride ksz"
  let ?i = "unat (it_idx it)"
  have i: "?i < unat (m_cap m)" using Suc.prems(7) by simp
  note off = bucket_offset [OF Suc.prems(1,4) i]
  have len: "unat (m_table m + it_idx it * ?S) + unat ?S \<le> length (v_bytes vw s)"
    using bucket_in_block [OF i Suc.prems(4)] off(2) by simp
  obtain b s1 where rd: "op_read io (m_table m + it_idx it * ?S) (unat ?S) s = (Inr b, s1)" and c1: "v_calm vw s1"
    using calm_read [OF Suc.prems(1,2) len] by blast
  note u1 = read_bytes [OF Suc.prems(1) rd]
  have b: "b = slice (unat (m_table m) + ?i * unat ?S) (unat ?S) (v_bytes vw s)"
    using u1(2) [OF refl] off(2) by simp
  have lb: "8 \<le> length b" using len off(2) unat_map_stride [OF Suc.prems(3)] by (simp add: b)
  note s0 = get_u64_state [OF lb]
  have lT: "length T = unat (m_cap m)" using Suc.prems(8) by (simp add: meta_table_def)
  have Ti: "T ! ?i = decode_bucket ksz b"
    using i Suc.prems(8) by (simp add: meta_table_def nth_table_of b)
  have dr: "drop ?i T = T ! ?i # drop (Suc ?i) T" using i lT by (simp add: Cons_nth_drop_Suc)
  have i1: "unat (it_idx it + 1) = Suc ?i" using unat_Suc_cap [OF i] by simp
  show ?case
  proof (cases "entry (T ! ?i)")
    case None
    then have "get_u64 b \<noteq> 1" by (auto simp: Ti decode_bucket_def split: if_splits)
    then have step: "iter_scan (Suc n) io ksz it s = iter_scan n io ksz (it\<lparr>it_idx := it_idx it + 1\<rparr>) s1"
      using Suc.prems(5) off(1) rd s0 by (simp add: Let_def bucket_words del: get_u64_slice8 checked_off_mul_Inr)
    have g1: "v_good vw s1" and b1: "v_bytes vw s1 = v_bytes vw s" using u1(1) by (simp_all add: unchanged_def)
    have "\<exists>s'. unchanged vw s1 s' \<and> v_calm vw s' \<and> iter_scan n io ksz (it\<lparr>it_idx := it_idx it + 1\<rparr>) s1 =
      (case dropWhile (\<lambda>b. entry b = None) (drop (Suc ?i) T) of
         [] \<Rightarrow> (None, it\<lparr>it_idx := m_cap m\<rparr>, s')
       | b # bs \<Rightarrow> (Some (Inr (case the (entry b) of (k, v) \<Rightarrow> (k, get_u64 v))),
           it\<lparr>it_idx := of_nat (length T - length bs)\<rparr>, s'))"
      using Suc.IH [OF g1 c1 Suc.prems(3), of "it\<lparr>it_idx := it_idx it + 1\<rparr>"] Suc.prems(4-8) b1 i1
      by (simp cong: list.case_cong)
    with step u1(1) None dr show ?thesis using unchanged_trans [OF u1(1)] by auto
  next
    case (Some kv)
    obtain k v where kv: "kv = (k, v)" by (cases kv)
    then have "T ! ?i = Occupied k v" using Some by (simp add: entry_cases)
    then have o: "get_u64 b = 1" "k = slice 8 ksz b" "v = drop (8 + ksz) b"
      by (simp_all add: Ti decode_bucket_cases)
    have "length T - length (drop (Suc ?i) T) = Suc ?i" using i lT by simp
    then have ix: "it_idx it + 1 = of_nat (length T - length (drop (Suc ?i) T))" by simp
    have "iter_scan (Suc n) io ksz it s = (Some (Inr (k, get_u64 v)), it\<lparr>it_idx := it_idx it + 1\<rparr>, s1)"
      using Suc.prems(5) off(1) rd s0 o get_u64_rest [of ksz b]
      by (simp add: Let_def bucket_words del: get_u64_slice8 checked_off_mul_Inr)
    with u1(1) c1 Some kv dr ix show ?thesis by (auto simp del: length_drop)
  qed
qed

lemma iter_next_calm:
  assumes inv: "map_inv vw ksz handle H s" and c: "v_calm vw s" and m: "m = meta_at handle (v_bytes vw s)"
    and it: "it_block it = handle" "it_table it = m_table m" "it_cap it = m_cap m" "it_len it = m_len m"
      "unat (it_idx it) \<le> unat (m_cap m)"
    and T: "T = meta_table (map_stride ksz) ksz m (v_bytes vw s)"
  shows "\<exists>s' it'. unchanged vw s s' \<and> v_calm vw s' \<and> map_iter_next io ksz it s =
    (case dropWhile (\<lambda>b. entry b = None) (drop (unat (it_idx it)) T) of
       [] \<Rightarrow> (None, it', s')
     | b # bs \<Rightarrow> (Some (Inr (case the (entry b) of (k, v) \<Rightarrow> (k, get_u64 v))),
         it\<lparr>it_idx := of_nat (length T - length bs)\<rparr>, s'))"
proof (cases "it_idx it < it_cap it")
  case False
  then have "drop (unat (it_idx it)) T = []" using it(3) T by (simp add: meta_table_def word_less_nat_alt)
  with False inv c show ?thesis
    by (auto simp: map_iter_next_def unchanged_def map_inv_def tbl_inv_def Let_def intro!: exI [of _ s])
next
  case True
  have ti: "tbl_inv vw (map_stride ksz) ksz handle H s" and ks: "key_size_ok ksz" using inv by (simp_all add: map_inv_def)
  have c0: "m_cap m \<noteq> 0" using True it(3) by auto
  have w: "unat TABLE_OFF + 3 * 8 \<le> 48" by (simp add: TABLE_OFF_def HEADER_SIZE_def)
  obtain rf s1 where rd: "read_fields io 3 (handle + TABLE_OFF) s = (rf, s1)" by (cases "read_fields io 3 (handle + TABLE_OFF) s")
  note rf = read_fields_ok [OF ti w rd]
  obtain fs where fs: "rf = Inr fs" and c1: "v_calm vw s1" using rf(3) [OF c] by blast
  have f: "fs ! 0 = m_table m" "fs ! 1 = m_cap m" "fs ! 2 = m_len m"
    using rf(2) [OF fs, of 0] rf(2) [OF fs, of 1] rf(2) [OF fs, of 2]
    by (simp_all add: m meta_at_fields TABLE_OFF_def HEADER_SIZE_def add.commute [of 24] add.commute [of 32])
  have nx: "map_iter_next io ksz it s = iter_scan (unat (it_cap it) - unat (it_idx it)) io ksz it s1"
    using True rd fs f it by (simp add: map_iter_next_def)
  have g1: "v_good vw s1" and b1: "v_bytes vw s1 = v_bytes vw s" using rf(1) by (simp_all add: unchanged_def)
  have "unat (m_table m) + unat (m_cap m) * unat (map_stride ksz) \<le> length (v_bytes vw s1)"
    using inv_parts(1) [OF ti m c0] b1 by (simp add: table_ok_def)
  from iter_scan_calm [OF g1 c1 ks this it(2,3), of "unat (m_cap m) - unat (it_idx it)" T] it(3,5) T b1
  obtain s' where "unchanged vw s1 s'" "v_calm vw s'" "iter_scan (unat (m_cap m) - unat (it_idx it)) io ksz it s1 =
    (case dropWhile (\<lambda>b. entry b = None) (drop (unat (it_idx it)) T) of
       [] \<Rightarrow> (None, it\<lparr>it_idx := m_cap m\<rparr>, s')
     | b # bs \<Rightarrow> (Some (Inr (case the (entry b) of (k, v) \<Rightarrow> (k, get_u64 v))),
         it\<lparr>it_idx := of_nat (length T - length bs)\<rparr>, s'))" by auto
  with nx it(3) unchanged_trans [OF rf(1)] show ?thesis by auto
qed

lemma iter_collect_calm:
  assumes "map_inv vw ksz handle H s" and "v_calm vw s" and "m = meta_at handle (v_bytes vw s)"
    and "it_block it = handle" "it_table it = m_table m" "it_cap it = m_cap m" "it_len it = m_len m"
      "unat (it_idx it) \<le> unat (m_cap m)"
    and "T = meta_table (map_stride ksz) ksz m (v_bytes vw s)" and "length (drop (unat (it_idx it)) T) < fuel"
  shows "\<exists>s'. unchanged vw s s' \<and> iter_collect fuel io ksz it s =
    Some (map Inr (pairs_of (drop (unat (it_idx it)) T)), s')"
  using assms
proof (induction fuel arbitrary: it s)
  case (Suc fuel)
  let ?d = "dropWhile (\<lambda>b. entry b = None) (drop (unat (it_idx it)) T)"
  obtain s1 it1 where u: "unchanged vw s s1" "v_calm vw s1" and nx: "map_iter_next io ksz it s =
    (case ?d of [] \<Rightarrow> (None, it1, s1)
     | b # bs \<Rightarrow> (Some (Inr (case the (entry b) of (k, v) \<Rightarrow> (k, get_u64 v))),
         it\<lparr>it_idx := of_nat (length T - length bs)\<rparr>, s1))"
    using iter_next_calm [OF Suc.prems(1-9)] by blast
  have e: "entries (drop (unat (it_idx it)) T) = entries ?d" by (simp add: entries_dropWhile)
  show ?case
  proof (cases ?d)
    case Nil
    with nx u e show ?thesis by (auto simp: pairs_of_def)
  next
    case (Cons b bs)
    have nb: "entry b \<noteq> None" using Cons hd_dropWhile [of "\<lambda>b. entry b = None" "drop (unat (it_idx it)) T"] by auto
    obtain k v where kv: "entry b = Some (k, v)" using nb by force
    have lT: "length T = unat (m_cap m)" using Suc.prems(9) by (simp add: meta_table_def)
    obtain ys where ys: "drop (unat (it_idx it)) T = ys @ b # bs"
      using Cons takeWhile_dropWhile_id [of "\<lambda>b. entry b = None" "drop (unat (it_idx it)) T"] by metis
    then have le: "length bs < length (drop (unat (it_idx it)) T)" by simp
    then have lb: "length bs < length T" by simp
    have T: "T = (take (unat (it_idx it)) T @ ys @ [b]) @ bs"
      using append_take_drop_id [of "unat (it_idx it)" T] ys by simp
    have "length T - length bs = length (take (unat (it_idx it)) T @ ys @ [b])" by (subst T) simp
    then have dT: "drop (length T - length bs) T = bs" by (metis T append_eq_conv_conj)
    have "length T - length bs < u64_limit" unfolding lT by (rule le_less_trans [OF diff_le_self unat_u64_bound])
    then have ui: "unat (of_nat (length T - length bs) :: u64) = length T - length bs" by (rule unat_of_nat_u64)
    have inv1: "map_inv vw ksz handle H s1" using kept_map(1) [OF Suc.prems(1) map_kept_unchanged [OF Suc.prems(1) u(1)]] .
    have b1: "v_bytes vw s1 = v_bytes vw s" using u(1) by (simp add: unchanged_def)
    let ?it = "it\<lparr>it_idx := of_nat (length T - length bs)\<rparr>"
    have "\<exists>s'. unchanged vw s1 s' \<and> iter_collect fuel io ksz ?it s1 = Some (map Inr (pairs_of (drop (unat (it_idx ?it)) T)), s')"
      using Suc.prems(3-7,9,10) b1 ui dT le lT lb by (intro Suc.IH [OF inv1 u(2)]) simp_all
    with nx Cons kv u(1) e ui dT show ?thesis
      using unchanged_trans [OF u(1)] by (auto simp: pairs_of_def entries_Cons)
  qed
qed simp

lemma iter_all:
  assumes inv: "map_inv vw ksz handle H s" and c: "v_calm vw s"
  shows "\<exists>it s1 kvs s2. map_iter_new io handle s = (Inr it, s1)
    \<and> iter_collect (Suc (unat (m_cap (meta_at handle (v_bytes vw s))))) io ksz it s1 = Some (map Inr kvs, s2)
    \<and> unchanged vw s s2 \<and> distinct (map fst kvs) \<and> map_of kvs = map_view vw ksz handle s"
proof -
  define m where "m = meta_at handle (v_bytes vw s)"
  define T where "T = meta_table (map_stride ksz) ksz m (v_bytes vw s)"
  have ti: "tbl_inv vw (map_stride ksz) ksz handle H s" using inv by (simp add: map_inv_def)
  have w: "unat TABLE_OFF + 3 * 8 \<le> 48" by (simp add: TABLE_OFF_def HEADER_SIZE_def)
  obtain rf s1 where rd: "read_fields io 3 (handle + TABLE_OFF) s = (rf, s1)" by (cases "read_fields io 3 (handle + TABLE_OFF) s")
  note rf = read_fields_ok [OF ti w rd]
  obtain fs where fs: "rf = Inr fs" and c1: "v_calm vw s1" using rf(3) [OF c] by blast
  have f: "fs ! 0 = m_table m" "fs ! 1 = m_cap m" "fs ! 2 = m_len m"
    using rf(2) [OF fs, of 0] rf(2) [OF fs, of 1] rf(2) [OF fs, of 2]
    by (simp_all add: m_def meta_at_fields TABLE_OFF_def HEADER_SIZE_def add.commute [of 24] add.commute [of 32])
  let ?it = "\<lparr>it_block = handle, it_table = m_table m, it_cap = m_cap m, it_len = m_len m, it_idx = 0\<rparr>"
  have new: "map_iter_new io handle s = (Inr ?it, s1)" using rd fs f by (simp add: map_iter_new_def)
  have inv1: "map_inv vw ksz handle H s1" using kept_map(1) [OF inv map_kept_unchanged [OF inv rf(1)]] .
  have b1: "v_bytes vw s1 = v_bytes vw s" using rf(1) by (simp add: unchanged_def)
  have "\<exists>s2. unchanged vw s1 s2 \<and> iter_collect (Suc (unat (m_cap m))) io ksz ?it s1 =
      Some (map Inr (pairs_of (drop (unat (it_idx ?it)) T)), s2)"
    using b1 by (intro iter_collect_calm [OF inv1 c1, where m = m]) (simp_all add: m_def T_def meta_table_def)
  then obtain s2 where s2: "unchanged vw s1 s2" "iter_collect (Suc (unat (m_cap m))) io ksz ?it s1 = Some (map Inr (pairs_of T), s2)"
    by auto
  have "map_of (pairs_of T) = map_view vw ksz handle s"
    by (auto simp: fun_eq_iff pairs_of_map map_view_def tbl_abs_def T_def m_def)
  moreover have "distinct (map fst (pairs_of T))"
    using pairs_of_distinct [OF inv_counts(1) [OF ti m_def]] by (simp add: T_def)
  ultimately show ?thesis using new s2 unchanged_trans [OF rf(1)] by (auto simp: m_def)
qed

end

section \<open>Teardown\<close>

definition live_values :: "(u8 list \<times> u64) list \<Rightarrow> u64 list" where
  "live_values kvs = filter (\<lambda>v. v \<noteq> 0) (map snd kvs)"

lemma drop_values_each:
  assumes ks: "key_size_ok ksz" and img: "length img = cap * unat (map_stride ksz)"
    and T: "T = image_table (unat (map_stride ksz)) ksz cap img"
  shows "j + n = cap \<Longrightarrow> drop_values n f ksz img j s = each f (live_values (pairs_of (drop j T))) s"
proof (induction n arbitrary: j s)
  case 0
  then show ?case by (simp add: T pairs_of_def live_values_def)
next
  case (Suc n)
  let ?st = "unat (map_stride ksz)"
  have j: "j < cap" using Suc.prems by simp
  have st: "?st = 16 + ksz" by (rule unat_map_stride [OF ks])
  have blk: "j * ?st + ?st \<le> length img" using bucket_in_block [OF j, of 0 ?st "length img"] img by simp
  let ?buf = "slice (j * ?st) ?st img"
  have dr: "drop j T = T ! j # drop (Suc j) T" using j by (simp add: Cons_nth_drop_Suc T)
  have Tj: "T ! j = decode_bucket ksz ?buf" using j by (simp add: T nth_table_of)
  have g8: "get_u64 ?buf = get_u64 (slice (j * ?st) 8 img)" using st by (intro get_u64_slice_long) simp
  have vr: "get_u64 (slice (j * ?st + 8 + ksz) 8 img) = get_u64 (drop (8 + ksz) ?buf)"
  proof -
    have "drop (8 + ksz) ?buf = slice (j * ?st + 8 + ksz) 8 img" using st by (simp add: drop_slice add.assoc)
    then show ?thesis by (simp only:)
  qed
  have IH: "drop_values n f ksz img (Suc j) = each f (live_values (pairs_of (drop (Suc j) T)))"
    using Suc.IH [of "Suc j"] Suc.prems by (intro ext) simp
  show ?case
  proof (cases "get_u64 ?buf = 1")
    case True
    then have "T ! j = Occupied (slice 8 ksz ?buf) (drop (8 + ksz) ?buf)" by (simp add: Tj decode_bucket_cases)
    then have "pairs_of (drop j T) = (slice 8 ksz ?buf, get_u64 (drop (8 + ksz) ?buf)) # pairs_of (drop (Suc j) T)"
      by (simp add: dr pairs_of_def entries_Cons)
    then show ?thesis
      using True IH g8 vr by (simp add: Let_def bucket_words live_values_def del: get_u64_slice8)
  next
    case False
    then have "entry (T ! j) = None" by (simp add: Tj decode_bucket_def)
    then have "pairs_of (drop j T) = pairs_of (drop (Suc j) T)" by (simp add: dr pairs_of_def entries_Cons)
    then show ?thesis using False IH g8 by (simp add: Let_def bucket_words del: get_u64_slice8)
  qed
qed

text \<open>\<open>keeps_map\<close>: an action on values that does not touch the map.\<close>

definition keeps_map :: "'a stack_view \<Rightarrow> nat \<Rightarrow> u64 \<Rightarrow> range \<Rightarrow> ('a \<Rightarrow> 'b \<times> 'a) \<Rightarrow> bool" where
  "keeps_map w ksz handle H act \<longleftrightarrow> (\<forall>s r s'. map_inv w ksz handle H s \<longrightarrow> act s = (r, s') \<longrightarrow>
     map_inv w ksz handle H s' \<and> map_view w ksz handle s' = map_view w ksz handle s)"

context stack_laws
begin

lemma drop_children_ok:
  assumes io: "al_io al = io" and inv: "map_inv vw ksz (fst q) H (th_store t)" and c: "v_calm vw (th_store t)"
    and m: "m = meta_at (fst q) (v_bytes vw (th_store t))" and c0: "m_cap m \<noteq> 0"
    and len: "\<And>s1. unchanged vw (th_store t) s1 \<Longrightarrow> v_calm vw s1 \<Longrightarrow> \<exists>n s2. stack_len s1 = (Inr n, s2)
      \<and> unchanged vw (th_store t) s2 \<and> v_calm vw s2 \<and> unat n = length (v_bytes vw (th_store t))"
  shows "\<exists>kvs s1. distinct (map fst kvs) \<and> map_of kvs = map_view vw ksz (fst q) (th_store t)
    \<and> unchanged vw (th_store t) s1 \<and> v_calm vw s1 \<and> table_range (map_stride ksz) m \<in> v_live vw (th_store t)
    \<and> map_drop_children al stack_len ksz f q t =
      try_s (each f (live_values kvs) (t\<lparr>th_store := s1\<rparr>)) (\<lambda>_ t2. dealloc_range al (table_range (map_stride ksz) m) t2)"
proof -
  let ?S = "map_stride ksz"
  let ?s = "th_store t"
  have ti: "tbl_inv vw ?S ksz (fst q) H ?s" and ks: "key_size_ok ksz" using inv by (simp_all add: map_inv_def)
  have g: "v_good vw ?s" and tl: "table_range ?S m \<in> v_live vw ?s" using ti c0 by (simp_all add: tbl_inv_def m Let_def)
  have t0: "m_table m \<noteq> 0" using good_live [OF g tl] by (auto simp: table_range_def)
  note P = inv_parts [OF ti m c0]
  have blk: "unat (m_table m) + unat (m_cap m) * unat ?S \<le> length (v_bytes vw ?s)"
    using P(1) by (simp add: table_ok_def)
  have olim: "unat (m_cap m) * unat ?S < u64_limit" using blk inv_handle(2) [OF ti] by simp
  then have ts: "unat (m_cap m * ?S) = unat (m_cap m) * unat ?S" by (rule unat_mult_u64)
  have w: "unat TABLE_OFF + 2 * 8 \<le> 48" by (simp add: TABLE_OFF_def HEADER_SIZE_def)
  obtain rf s1 where rd: "read_fields io 2 (fst q + TABLE_OFF) ?s = (rf, s1)" by (cases "read_fields io 2 (fst q + TABLE_OFF) ?s")
  note rf = read_fields_ok [OF ti w rd]
  obtain fs where fs: "rf = Inr fs" and c1: "v_calm vw s1" using rf(3) [OF c] by blast
  have fl: "fs ! 0 = m_table m" "fs ! 1 = m_cap m"
    using rf(2) [OF fs, of 0] rf(2) [OF fs, of 1]
    by (simp_all add: m meta_at_fields TABLE_OFF_def HEADER_SIZE_def add.commute [of 24])
  obtain n s2 where ln: "stack_len s1 = (Inr n, s2)" "unchanged vw ?s s2" "v_calm vw s2" "unat n = length (v_bytes vw ?s)"
    using len [OF rf(1) c1] by blast
  have g2: "v_good vw s2" and b2: "v_bytes vw s2 = v_bytes vw ?s" using ln(2) by (simp_all add: unchanged_def)
  have "\<not> m_cap m * ?S > n" using ts ln(4) blk by (simp add: word_less_nat_alt)
  moreover have rl: "unat (m_table m) + unat (m_cap m * ?S) \<le> length (v_bytes vw s2)" using blk ts b2 by simp
  obtain img s3 where im: "op_read io (m_table m) (unat (m_cap m * ?S)) s2 = (Inr img, s3)" and c3: "v_calm vw s3"
    using calm_read [OF g2 ln(3) rl] by blast
  note ir = read_bytes [OF g2 im]
  have img: "img = slice (unat (m_table m)) (unat (m_cap m) * unat ?S) (v_bytes vw ?s)"
    using ir(2) [OF refl] ts b2 by simp
  then have il: "length img = unat (m_cap m) * unat ?S" using blk by simp
  let ?T = "meta_table ?S ksz m (v_bytes vw ?s)"
  have T: "?T = image_table (unat ?S) ksz (unat (m_cap m)) img" by (simp add: meta_table_snapshot img)
  have dv: "drop_values (unat (m_cap m)) f ksz img 0 t3 = each f (live_values (pairs_of ?T)) t3" for t3
    using drop_values_each [OF ks il T, of 0 "unat (m_cap m)"] by simp
  have cm: "checked_mul64 (m_cap m) ?S = Some (m_cap m * ?S)" using olim by (simp add: checked_mul64_Some)
  have "map_drop_children al stack_len ksz f q t =
      try_s (each f (live_values (pairs_of ?T)) (t\<lparr>th_store := s3\<rparr>)) (\<lambda>_ t4. dealloc_range al (table_range ?S m) t4)"
    using rd fs fl t0 cm ln(1) calculation im dv io by (simp add: map_drop_children_def Let_def table_range_def on_store_def)
  moreover have "map_of (pairs_of ?T) = map_view vw ksz (fst q) ?s"
    by (auto simp: fun_eq_iff pairs_of_map map_view_def tbl_abs_def m)
  moreover have "distinct (map fst (pairs_of ?T))" by (rule pairs_of_distinct [OF P(4)])
  moreover have "unchanged vw ?s s3" using unchanged_trans [OF ln(2) ir(1)] .
  ultimately show ?thesis using c3 tl by blast
qed

text \<open>With a sink every range is collected; without one every range is freed.\<close>

lemma drop_children_collects:
  assumes run: "map_drop_children al stack_len ksz f q t =
      try_s (each f vs (t\<lparr>th_store := s1\<rparr>)) (\<lambda>_ t2. dealloc_range al p t2)"
    and u: "unchanged vw (th_store t) s1" and c: "v_calm vw s1"
    and hands: "hands_over vw al fr f" and t: "collected vw al t [] t"
  shows "\<exists>t'. map_drop_children al stack_len ksz f q t = (Inr (), t')
    \<and> collected vw al t (concat (map fr vs) @ [(al_file al, p)]) t'"
proof -
  have c1: "collected vw al t [] (t\<lparr>th_store := s1\<rparr>)" using t u c by (auto simp: collected_def)
  obtain t2 where t2: "each f vs (t\<lparr>th_store := s1\<rparr>) = (Inr (), t2)"
    "collected vw al (t\<lparr>th_store := s1\<rparr>) (concat (map fr vs)) t2"
    using each_collected [OF hands collected_here [OF c1]] by blast
  obtain t3 where "dealloc_range al p t2 = (Inr (), t3)" "collected vw al t2 [(al_file al, p)] t3"
    using dealloc_collected [OF collected_here [OF t2(2)]] by blast
  with run t2 collected_trans [OF c1 collected_trans [OF t2(2)]] show ?thesis by auto
qed

lemma drop_children_releases:
  assumes io: "al_io al = io" and run: "map_drop_children al stack_len ksz f q t =
      try_s (each f vs (t\<lparr>th_store := s1\<rparr>)) (\<lambda>_ t2. dealloc_range al p t2)"
    and u: "unchanged vw (th_store t) s1" and c: "v_calm vw s1" and g: "v_good vw (th_store t)" and n: "th_sink t = None"
    and fd: "frees_directly vw fr f" and d: "distinct (map snd (concat (map fr vs)) @ [p])"
    and l: "set (map snd (concat (map fr vs)) @ [p]) \<subseteq> v_live vw (th_store t)"
  shows "\<exists>t'. map_drop_children al stack_len ksz f q t = (Inr (), t')
    \<and> released vw t (map snd (concat (map fr vs)) @ [p]) t'"
proof -
  let ?t = "t\<lparr>th_store := s1\<rparr>"
  have r1: "released vw t [] ?t" using freed_unchanged [OF u] c n by (simp add: released_def)
  have lv: "v_live vw (th_store ?t) = v_live vw (th_store t)" using released_live [OF r1] by simp
  obtain t2 where t2: "each f vs ?t = (Inr (), t2)" "released vw ?t (map snd (concat (map fr vs))) t2"
    using each_released [OF fd released_here [OF r1], of vs] d l lv by auto
  have "p \<in> v_live vw (th_store t2)" using released_live [OF t2(2)] lv d l by auto
  then obtain t3 where "dealloc_range al p t2 = (Inr (), t3)" "released vw t2 [p] t3"
    using dealloc_released [OF io released_here [OF t2(2)]] by blast
  with run t2 released_trans [OF r1 released_trans [OF t2(2)]] show ?thesis by auto
qed

section \<open>The entry operation\<close>

lemma get_or_insert_ok:
  assumes inv: "map_inv vw ksz handle H s" and key: "length key = ksz"
    and mk: "keeps_map vw ksz handle H mk" and f: "\<And>v. keeps_map vw ksz handle H (f v)"
  shows "\<exists>r s'. map_get_or_insert_with (Suc (Suc 0)) io ksz f handle key mk s = Some (r, s')
    \<and> map_inv vw ksz handle H s'
    \<and> (case r of Inl e \<Rightarrow> map_view vw ksz handle s' = map_view vw ksz handle s
       | Inr (v, fresh) \<Rightarrow> (case map_view vw ksz handle s key of
          Some v0 \<Rightarrow> v = v0 \<and> \<not> fresh \<and> unchanged vw s s'
        | None \<Rightarrow> fresh \<and> map_view vw ksz handle s' = (map_view vw ksz handle s)(key \<mapsto> v)))"
proof -
  obtain rg s1 where g: "map_get io ksz handle key s = (rg, s1)" by (cases "map_get io ksz handle key s")
  note mg = map_get_ok [OF inv g]
  note k1 = kept_map [OF inv map_kept_unchanged [OF inv mg(1)]]
  show ?thesis
  proof (cases rg)
    case (Inl e)
    with g k1 show ?thesis by (simp add: map_get_or_insert_with_def)
  next
    case rg: (Inr o1)
    have o1: "o1 = map_view vw ksz handle s key" using mg(2) [OF rg] .
    show ?thesis
    proof (cases o1)
      case (Some v0)
      with g rg o1 k1(1) mg(1) show ?thesis
        by (simp add: map_get_or_insert_with_def) (auto split: option.splits)
    next
      case None
      obtain rm s2 where m: "mk s1 = (rm, s2)" by (cases "mk s1")
      have k2: "map_inv vw ksz handle H s2" "map_view vw ksz handle s2 = map_view vw ksz handle s"
        using mk k1(1,3) m by (auto simp: keeps_map_def)
      show ?thesis
      proof (cases rm)
        case (Inl e)
        with g rg None m k2 show ?thesis by (simp add: map_get_or_insert_with_def)
      next
        case rm: (Inr val)
        obtain r s3 where i: "map_insert (Suc (Suc 0)) io ksz handle key val s2 = Some (r, s3)"
          and inv3: "map_inv vw ksz handle H s3"
          and ri: "case r of Inr old \<Rightarrow> old = map_view vw ksz handle s2 key
              \<and> map_view vw ksz handle s3 = (map_view vw ksz handle s2)(key \<mapsto> val)
           | Inl (e, v) \<Rightarrow> v = val \<and> map_view vw ksz handle s3 = map_view vw ksz handle s2"
          using map_insert_ok [OF k2(1) key, of 0 val] by blast
        have none: "map_view vw ksz handle s2 key = None" using k2 None o1 by simp
        show ?thesis
        proof (cases r)
          case (Inl ev)
          then obtain e v where ev: "r = Inl (e, v)" by (cases ev) auto
          obtain rf s4 where d: "f v s3 = (rf, s4)" by (cases "f v s3")
          have "map_inv vw ksz handle H s4" "map_view vw ksz handle s4 = map_view vw ksz handle s3"
            using f [of v] inv3 d by (auto simp: keeps_map_def)
          with g rg None m rm i ev d ri k2(2) show ?thesis
            by (simp add: map_get_or_insert_with_def insert_absent_def)
        next
          case (Inr old)
          with ri none have "r = Inr None" by simp
          with g rg None m rm i ri inv3 k2(2) none show ?thesis
            by (simp add: map_get_or_insert_with_def insert_absent_def)
        qed
      qed
    qed
  qed
qed

end

section \<open>A map with an entry\<close>

text \<open>A map of keys of size zero (\<^verbatim>\<open>()\<close>) with one entry, whose value is the block at
  offset 9; the bucket block is at 64.\<close>

definition full_store :: mem where
  "full_store = \<lparr>m_bytes = replicate 32 0 @ (to_le64 64 @ to_le64 4 @ to_le64 1 @ to_le64 1)
       @ replicate 16 0 @ (to_le64 1 @ to_le64 9) @ replicate 32 0,
     m_live = [(16, 48), (64, 64)], m_faults = []\<rparr>"

lemma full_length: "length (m_bytes full_store) = 128"
  by (simp add: full_store_def)

lemma full_good: "mem_good full_store"
  by (simp add: mem_good_def full_length) (simp add: full_store_def range_end_def apart_def)

lemma full_meta: "meta_at 16 (m_bytes full_store) = \<lparr>m_table = 64, m_cap = 4, m_len = 1, m_used = 1\<rparr>"
  by (simp add: meta_at_fields full_store_def slice_append1 slice_append2)

lemma slice_replicate: "a + n \<le> k \<Longrightarrow> slice a n (replicate k x) = replicate n x"
  by (simp add: slice_def min_def)

lemma full_bucket:
  "slice 64 16 (m_bytes full_store) = replicate 16 0"
  "slice 80 16 (m_bytes full_store) = to_le64 1 @ to_le64 9"
  "slice 96 16 (m_bytes full_store) = replicate 16 0"
  "slice 112 16 (m_bytes full_store) = replicate 16 0"
  by (simp_all add: full_store_def slice_append1 slice_append2 slice_replicate) (simp add: slice_def)

lemma get_u64_zeros: "get_u64 (replicate 16 0) = 0"
  using image_fresh(2) [of 16 1] image_fresh(1) [of 16 0 1]
  by (simp add: table_of_def slice_replicate decode_bucket_cases)

lemma full_table:
  "meta_table (map_stride 0) 0 (meta_at 16 (m_bytes full_store)) (m_bytes full_store)
    = [Empty, Occupied [] (to_le64 9), Empty, Empty]"
proof -
  have "[0..<4] = [0, 1, 2, 3 :: nat]" by (simp add: upt_rec)
  moreover have "decode_bucket 0 (replicate 16 0) = Empty" by (simp add: decode_bucket_cases get_u64_zeros)
  moreover have "decode_bucket 0 (to_le64 1 @ to_le64 9) = Occupied [] (to_le64 9)"
    using decode_item [of "[]" 0 "to_le64 9"] by simp
  ultimately show ?thesis
    by (simp add: meta_table_def full_meta table_of_def full_bucket map_stride_def)
qed

lemma full_map_inv: "map_inv mem_view 0 16 (16, 48) full_store"
proof -
  let ?T = "[Empty, Occupied [] (to_le64 9), Empty, Empty]"
  have pos: "probe_pos key_hash ?T [] 0 = 1" by (simp add: probe_pos_def key_hash_def fnv1a_def FNV_BASIS_def)
  have occ: "i = 1 \<and> k = []" if "i < length ?T" "?T ! i = Occupied k v" for i k v
    using that by (auto simp: nth_Cons' split: if_splits)
  have "reachable key_hash ?T [] 1" using pos by (auto simp: reachable_def intro!: exI [of _ 0])
  then have wf: "wf_table key_hash ?T"
    unfolding wf_table_def using occ by (metis One_nat_def)
  have st: "bucket_state_ok (slice (64 + j * 16) 16 (m_bytes full_store))" if "j < 4" for j
  proof -
    have "j = 0 \<or> j = 1 \<or> j = 2 \<or> j = 3" using that by auto
    then show ?thesis using full_bucket get_u64_zeros by (auto simp: bucket_state_ok_def)
  qed
  have "table_ok (map_stride 0) 0 (meta_at 16 (m_bytes full_store)) (m_bytes full_store)"
    unfolding table_ok_def full_table using wf st full_length
    by (simp add: full_meta map_stride_def live_count_def used_count_def entries_Cons exI [of _ 2])
  then show ?thesis
    using full_good full_meta
    by (simp add: map_inv_def key_size_ok_def tbl_inv_def mem_view_simps table_range_def map_stride_def)
      (simp add: full_store_def inside_def range_end_def)
qed

lemma full_view: "map_view mem_view 0 16 full_store = [[] \<mapsto> 9]"
  using get_u64_item [of 9 "[]"]
  by (simp add: map_view_def tbl_abs_def mem_view_simps full_table table_map_def entries_Cons fun_eq_iff)

section \<open>Claims\<close>

text \<open>C15: Tearing down the children of a map with buckets, on a store whose reads do not fail, runs the
  value teardown on each non-null value of the map exactly once, stopping at the first error, and then
  passes exactly the live bucket block to \<^verbatim>\<open>dealloc_range\<close>. Inside the transaction of an owned
  teardown it succeeds, the sink receives what the values hand over followed by the bucket block, and
  the store does not change. Without a sink it succeeds, and these blocks and no others are freed.\<close>

theorem map_teardown_frees_all:
  assumes "stack_laws (al_io al) vw" and "map_inv vw ksz (fst q) H (th_store t)" and "v_calm vw (th_store t)"
    and "m = meta_at (fst q) (v_bytes vw (th_store t))" and "m_cap m \<noteq> 0"
    and "\<And>s1. unchanged vw (th_store t) s1 \<Longrightarrow> v_calm vw s1 \<Longrightarrow> \<exists>n s2. stack_len s1 = (Inr n, s2)
      \<and> unchanged vw (th_store t) s2 \<and> v_calm vw s2 \<and> unat n = length (v_bytes vw (th_store t))"
    and "p = table_range (map_stride ksz) m"
  shows "\<exists>kvs s1. distinct (map fst kvs) \<and> map_of kvs = map_view vw ksz (fst q) (th_store t)
    \<and> unchanged vw (th_store t) s1 \<and> p \<in> v_live vw (th_store t)
    \<and> map_drop_children al stack_len ksz f q t =
      try_s (each f (live_values kvs) (t\<lparr>th_store := s1\<rparr>)) (\<lambda>_ t2. dealloc_range al p t2)
    \<and> (\<forall>fr. hands_over vw al fr f \<longrightarrow> collected vw al t [] t \<longrightarrow>
        (\<exists>t'. map_drop_children al stack_len ksz f q t = (Inr (), t')
          \<and> collected vw al t (concat (map fr (live_values kvs)) @ [(al_file al, p)]) t'))
    \<and> (\<forall>fr. frees_directly vw fr f \<longrightarrow> th_sink t = None \<longrightarrow>
        distinct (map snd (concat (map fr (live_values kvs))) @ [p]) \<longrightarrow>
        set (map snd (concat (map fr (live_values kvs)))) \<subseteq> v_live vw (th_store t) \<longrightarrow>
        (\<exists>t'. map_drop_children al stack_len ksz f q t = (Inr (), t')
          \<and> released vw t (map snd (concat (map fr (live_values kvs))) @ [p]) t'))"
proof -
  note laws = assms(1)
  have g: "v_good vw (th_store t)" using assms(2) by (simp add: map_inv_def tbl_inv_def)
  from stack_laws.drop_children_ok [where f = f and stack_len = stack_len, OF laws refl assms(2-6)] obtain kvs s1 where
    k: "distinct (map fst kvs)" "map_of kvs = map_view vw ksz (fst q) (th_store t)"
    and u: "unchanged vw (th_store t) s1" "v_calm vw s1" and p: "p \<in> v_live vw (th_store t)"
    and run: "map_drop_children al stack_len ksz f q t =
      try_s (each f (live_values kvs) (t\<lparr>th_store := s1\<rparr>)) (\<lambda>_ t2. dealloc_range al p t2)"
    unfolding assms(7) by blast
  note collects = stack_laws.drop_children_collects [OF laws run u]
    and releases = stack_laws.drop_children_releases [OF laws refl run u g]
  show ?thesis
    by (rule exI [of _ kvs], rule exI [of _ s1], intro conjI allI impI)
      (use k u(1) p run collects releases in \<open>auto\<close>)
qed

theorem map_teardown_frees_all_witness:
  "(\<exists>kvs t'. map_of kvs = [[] \<mapsto> 9]
      \<and> map_drop_children sample_al (\<lambda>s. (Inr (of_nat (length (m_bytes s))), s)) 0
          (\<lambda>v. drop_block sample_al (\<lambda>_ t. (Inr (), t)) (v, 8)) (16, 48) (sample_thread full_store) = (Inr (), t')
      \<and> collected mem_view sample_al (sample_thread full_store)
          (concat (map (\<lambda>v. [(FILE_SELF, (v, 8))]) (live_values kvs)) @ [(FILE_SELF, (64, 64))]) t')"
proof -
  define t where "t = sample_thread full_store"
  have ts: "th_store t = full_store" by (simp add: t_def sample_thread_def)
  define m where "m = meta_at 16 (v_bytes mem_view full_store)"
  have m: "m = \<lparr>m_table = 64, m_cap = 4, m_len = 1, m_used = 1\<rparr>"
    using full_meta by (simp add: m_def mem_view_simps)
  have calm: "v_calm mem_view full_store" by (simp add: mem_view_simps full_store_def)
  have good: "v_good mem_view full_store" using full_map_inv by (simp add: map_inv_def tbl_inv_def)
  have ln: "\<exists>n s2. (Inr (of_nat (length (m_bytes s1))) :: u64 res, s1) = (Inr n, s2)
      \<and> unchanged mem_view (th_store t) s2 \<and> v_calm mem_view s2 \<and> unat n = length (v_bytes mem_view (th_store t))"
    if "unchanged mem_view (th_store t) s1" "v_calm mem_view s1" for s1
  proof -
    have "length (m_bytes s1) = 128" using that(1) full_length by (simp add: unchanged_def mem_view_simps ts)
    with that full_length show ?thesis by (simp add: mem_view_simps ts)
  qed
  have laws: "stack_laws (al_io sample_al) mem_view" using mem.stack_laws_axioms by (simp add: sample_al_def)
  have pre: "map_inv mem_view 0 (fst (16 :: u64, 48 :: u64)) (16, 48) (th_store t)" "v_calm mem_view (th_store t)"
    "m = meta_at (fst (16 :: u64, 48 :: u64)) (v_bytes mem_view (th_store t))" "m_cap m \<noteq> 0"
    using full_map_inv calm m by (simp_all add: ts m_def)
  have c: "collected mem_view sample_al t [] t" unfolding t_def by (rule sample_collected [OF good calm])
  from map_teardown_frees_all [where stack_len = "\<lambda>s. (Inr (of_nat (length (m_bytes s))), s)"
      and f = "\<lambda>v. drop_block sample_al (\<lambda>_ t. (Inr (), t)) (v, 8)", OF laws pre ln refl]
    sample_hands c show ?thesis
    by (simp add: m full_view table_range_def map_stride_def ts t_def [symmetric]) (fastforce simp: sample_al_def)
qed

text \<open>C16: Iterating over a map that is not changed meanwhile, on a store that does not fail, ends, writes
  nothing, and yields each key of the map once with the value it is mapped to.\<close>

theorem map_iter_complete:
  assumes "stack_laws io vw" and "map_inv vw ksz handle H s" and "v_calm vw s"
  shows "\<exists>it s1 kvs s2. map_iter_new io handle s = (Inr it, s1)
    \<and> iter_collect (Suc (unat (m_cap (meta_at handle (v_bytes vw s))))) io ksz it s1 = Some (map Inr kvs, s2)
    \<and> unchanged vw s s2 \<and> distinct (map fst kvs) \<and> map_of kvs = map_view vw ksz handle s"
  using stack_laws.iter_all [OF assms] .

theorem map_iter_complete_witness:
  "\<exists>it s1 kvs s2. map_iter_new mem_io 16 sample_store = (Inr it, s1)
    \<and> iter_collect (Suc (unat (m_cap (meta_at 16 (v_bytes mem_view sample_store))))) mem_io 8 it s1 = Some (map Inr kvs, s2)
    \<and> unchanged mem_view sample_store s2 \<and> distinct (map fst kvs) \<and> map_of kvs = map_view mem_view 8 16 sample_store"
proof -
  have "v_calm mem_view sample_store" by (simp add: mem_view_simps sample_store_def)
  from map_iter_complete [OF mem.stack_laws_axioms sample_map_inv this] show ?thesis .
qed



end
