(* ===== verification/Refcount.thy ===== *)
theory Refcount
  imports Updates
begin

text \<open>
  The atomic operations on on-disk counters, \<^verbatim>\<open>src/io_core/refcount.rs\<close>. A
  read-modify-write is one \<open>op_process\<close> call; its closure leaves the buffer as it is where the new
  value would overflow or underflow, and the captured flag that reports this is a function of the
  value the closure saw.
\<close>

section \<open>Operations\<close>

definition overflow_err :: io_error where
  "overflow_err = IoError InvalidData ''refcount overflow''"

definition underflow_err :: io_error where
  "underflow_err = IoError InvalidData ''refcount underflow''"

definition rc_cas :: "'s stack_ops \<Rightarrow> non_null_offset \<Rightarrow> u64 \<Rightarrow> u64 \<Rightarrow> 's \<Rightarrow> bool res \<times> 's" where
  "rc_cas io off expected new s = op_cas io (nn_as_u64 off) (to_le64 expected) (to_le64 new) s"

definition rc_load :: "'s stack_ops \<Rightarrow> non_null_offset \<Rightarrow> 's \<Rightarrow> u64 res \<times> 's" where
  "rc_load io off s = try_s (op_read io (nn_as_u64 off) 8 s) (\<lambda>b s1. (Inr (from_le64 b), s1))"

text \<open>The shared shape: \<open>upd\<close> is the new value of the counter, \<open>None\<close> to leave it alone, and the
  result is the value that was seen.\<close>

definition counter_update :: "'s stack_ops \<Rightarrow> non_null_offset \<Rightarrow> (u64 \<Rightarrow> u64 option) \<Rightarrow> 's \<Rightarrow> u64 res \<times> 's" where
  "counter_update io off upd s =
     try_in (nn_checked_add off 8) s (\<lambda>z.
     try_s (op_process io (nn_as_u64 off) (nn_as_u64 z)
         (\<lambda>buf. case upd (get_u64 buf) of Some n \<Rightarrow> to_le64 n | None \<Rightarrow> buf) s) (\<lambda>buf s1.
     (Inr (get_u64 buf), s1)))"

definition fetch_add :: "'s stack_ops \<Rightarrow> non_null_offset \<Rightarrow> u64 \<Rightarrow> 's \<Rightarrow> u64 res \<times> 's" where
  "fetch_add io off delta s =
     try_s (counter_update io off (\<lambda>cur. checked_add64 cur delta) s) (\<lambda>prev s1.
       if checked_add64 prev delta = None then (Inl overflow_err, s1) else (Inr prev, s1))"

definition fetch_sub :: "'s stack_ops \<Rightarrow> non_null_offset \<Rightarrow> u64 \<Rightarrow> 's \<Rightarrow> u64 res \<times> 's" where
  "fetch_sub io off delta s =
     try_s (counter_update io off (\<lambda>cur. checked_sub64 cur delta) s) (\<lambda>prev s1.
       if checked_sub64 prev delta = None then (Inl underflow_err, s1) else (Inr prev, s1))"

definition increment_if_nonzero :: "'s stack_ops \<Rightarrow> non_null_offset \<Rightarrow> 's \<Rightarrow> u64 option res \<times> 's" where
  "increment_if_nonzero io off s =
     try_s (rc_load io off s) (\<lambda>v s1.
       if v = 0 then (Inr None, s1)
       else try_s (counter_update io off (\<lambda>cur. if cur = 0 then None else checked_add64 cur 1) s1) (\<lambda>cur s2.
         if cur = 0 then (Inr None, s2)
         else case checked_add64 cur 1 of
           None \<Rightarrow> (Inl overflow_err, s2)
         | Some n \<Rightarrow> (Inr (Some n), s2)))"

section \<open>What they do to a store\<close>

context stack_laws
begin

lemma counter_update_ok:
  assumes g: "v_good vw s" and run: "counter_update io off upd s = (r, s')"
  shows "case r of Inl e \<Rightarrow> unchanged vw s s'
    | Inr cur \<Rightarrow> unat (nn_as_u64 off) + 8 \<le> length (v_bytes vw s)
        \<and> cur = word_at (v_bytes vw s) (unat (nn_as_u64 off))
        \<and> (case upd cur of
             None \<Rightarrow> unchanged vw s s'
           | Some n \<Rightarrow> written vw s (poke (unat (nn_as_u64 off)) n (v_bytes vw s)) s')"
proof (cases "nn_checked_add off 8")
  case (Inl e)
  with run g show ?thesis by (auto simp: counter_update_def unchanged_def)
next
  case (Inr z)
  obtain a where a: "off = NonNullOffset a" by (cases off)
  have z: "unat a + 8 < u64_limit" "nn_as_u64 z = a + 8"
    using Inr by (auto simp: a ok_or_Inr checked_add64_Some)
  then have uz: "unat (a + 8) = unat a + 8" using unat_plus_u64 [of a 8] by simp
  let ?f = "\<lambda>buf. case upd (get_u64 buf) of Some n \<Rightarrow> to_le64 n | None \<Rightarrow> buf"
  obtain rb s1 where p: "op_process io a (a + 8) ?f s = (rb, s1)" by (cases "op_process io a (a + 8) ?f s")
  have "\<And>b. length b = unat (a + 8) - unat a \<Longrightarrow> length (?f b) = length b"
    by (simp add: uz split: option.split)
  note law = process_law [OF g p this, unfolded uz]
  show ?thesis
  proof (cases rb)
    case (Inl e)
    with law run Inr p show ?thesis by (auto simp: counter_update_def a z)
  next
    case ok: (Inr b)
    have b: "b = slice (unat a) 8 (v_bytes vw s)" and le: "unat a + 8 \<le> length (v_bytes vw s)"
      and w: "written vw s (overwrite (unat a) (?f b) (v_bytes vw s)) s1" using law ok by auto
    have r: "r = Inr (word_at (v_bytes vw s) (unat a))" "s' = s1"
      using run Inr p ok by (auto simp: counter_update_def a z b get_u64_slice_eq)
    have "written vw s (overwrite (unat a) b (v_bytes vw s)) s1 \<Longrightarrow> unchanged vw s s1"
      using le by (simp add: b overwrite_slice_id written_def unchanged_def)
    with w r le show ?thesis by (auto simp: a b get_u64_slice_eq poke_def split: option.splits)
  qed
qed

lemma rc_load_ok:
  assumes "v_good vw s" and "rc_load io off s = (r, s')"
  shows "unchanged vw s s' \<and> (\<forall>v. r = Inr v \<longrightarrow> v = word_at (v_bytes vw s) (unat (nn_as_u64 off))
    \<and> unat (nn_as_u64 off) + 8 \<le> length (v_bytes vw s))"
  using assms by (auto simp: rc_load_def word_at_def elim!: try_s_cases dest: read_law [OF assms(1)])

lemma fetch_add_ok:
  assumes g: "v_good vw s" and run: "fetch_add io off d s = (r, s')"
  shows "case r of Inl e \<Rightarrow> unchanged vw s s'
    | Inr v \<Rightarrow> unat (nn_as_u64 off) + 8 \<le> length (v_bytes vw s)
        \<and> v = word_at (v_bytes vw s) (unat (nn_as_u64 off)) \<and> unat v + unat d < u64_limit
        \<and> written vw s (poke (unat (nn_as_u64 off)) (v + d) (v_bytes vw s)) s'"
  using run counter_update_ok [OF g, of off "\<lambda>cur. checked_add64 cur d"]
  by (auto simp: fetch_add_def checked_add64_def split: if_splits elim!: try_s_cases)

lemma fetch_sub_ok:
  assumes g: "v_good vw s" and run: "fetch_sub io off d s = (r, s')"
  shows "case r of Inl e \<Rightarrow> unchanged vw s s'
    | Inr v \<Rightarrow> unat (nn_as_u64 off) + 8 \<le> length (v_bytes vw s)
        \<and> v = word_at (v_bytes vw s) (unat (nn_as_u64 off)) \<and> unat d \<le> unat v
        \<and> written vw s (poke (unat (nn_as_u64 off)) (v - d) (v_bytes vw s)) s'"
  using run counter_update_ok [OF g, of off "\<lambda>cur. checked_sub64 cur d"]
  by (auto simp: fetch_sub_def checked_sub64_def split: if_splits elim!: try_s_cases)

lemma increment_ok:
  assumes g: "v_good vw s" and run: "increment_if_nonzero io off s = (r, s')"
  shows "case r of Inl e \<Rightarrow> unchanged vw s s'
    | Inr None \<Rightarrow> unchanged vw s s' \<and> word_at (v_bytes vw s) (unat (nn_as_u64 off)) = 0
    | Inr (Some n) \<Rightarrow> unat (nn_as_u64 off) + 8 \<le> length (v_bytes vw s)
        \<and> word_at (v_bytes vw s) (unat (nn_as_u64 off)) \<noteq> 0
        \<and> n = word_at (v_bytes vw s) (unat (nn_as_u64 off)) + 1 \<and> n \<noteq> 0
        \<and> written vw s (poke (unat (nn_as_u64 off)) n (v_bytes vw s)) s'"
proof -
  obtain rl s1 where l: "rc_load io off s = (rl, s1)" by (cases "rc_load io off s")
  note u = rc_load_ok [OF g l]
  then have g1: "v_good vw s1" and b1: "v_bytes vw s1 = v_bytes vw s" and l1: "v_live vw s1 = v_live vw s"
    by (auto simp: unchanged_def)
  have nz: "n + 1 \<noteq> 0" if "unat n + 1 < u64_limit" for n :: u64
    using unat_plus_u64 [of n 1] that by (auto dest: arg_cong [of _ _ unat])
  show ?thesis
  proof (cases rl)
    case (Inl e)
    with run l u show ?thesis by (auto simp: increment_if_nonzero_def)
  next
    case (Inr v)
    show ?thesis
    proof (cases "v = 0")
      case True
      with run l u Inr show ?thesis by (auto simp: increment_if_nonzero_def)
    next
      case False
      obtain rc s2 where c: "counter_update io off (\<lambda>cur. if cur = 0 then None else checked_add64 cur 1) s1 = (rc, s2)"
        by (cases "counter_update io off (\<lambda>cur. if cur = 0 then None else checked_add64 cur 1) s1")
      note k = counter_update_ok [OF g1 c]
      show ?thesis
        using run l Inr False c k b1 l1 u nz
        by (cases rc) (auto simp: increment_if_nonzero_def checked_add64_def unchanged_def written_def
            split: if_splits)
    qed
  qed
qed

lemma rc_cas_ok:
  assumes "v_good vw s" and "rc_cas io off old new s = (r, s')"
  shows "case r of Inl e \<Rightarrow> unchanged vw s s'
    | Inr b \<Rightarrow> unat (nn_as_u64 off) + 8 \<le> length (v_bytes vw s)
        \<and> b = (word_at (v_bytes vw s) (unat (nn_as_u64 off)) = old)
        \<and> written vw s (if b then poke (unat (nn_as_u64 off)) new (v_bytes vw s) else v_bytes vw s) s'"
proof -
  have eq: "slice a 8 b = to_le64 old \<longleftrightarrow> word_at b a = old" if "a + 8 \<le> length b" for a b
    using that to_from_le64 [of "slice a 8 b"] by (auto simp: word_at_def)
  show ?thesis
    using cas_law [OF assms(1), of "nn_as_u64 off" "to_le64 old" "to_le64 new" r s'] assms(2)
    by (auto simp: rc_cas_def eq poke_def split: sum.splits)
qed

subsection \<open>On a store that does not fail by itself\<close>

lemma counter_update_calm:
  assumes g: "v_good vw s" and c: "v_calm vw s" and le: "unat a + 8 \<le> length (v_bytes vw s)"
  shows "\<exists>s'. counter_update io (NonNullOffset a) upd s = (Inr (word_at (v_bytes vw s) (unat a)), s') \<and> v_calm vw s'"
proof -
  have lim: "unat a + 8 < u64_limit" using le good_store [OF g] by simp
  then have uz: "unat (a + 8) = unat a + 8" using unat_plus_u64 [of a 8] by simp
  let ?f = "\<lambda>buf. case upd (get_u64 buf) of Some n \<Rightarrow> to_le64 n | None \<Rightarrow> buf"
  obtain b s' where p: "op_process io a (a + 8) ?f s = (Inr b, s')" "v_calm vw s'"
    using calm_process [OF g c, of a "a + 8" ?f] le uz by auto
  have "nn_checked_add (NonNullOffset a) 8 = Inr (NonNullOffset (a + 8))"
    using lim by (simp add: checked_add64_def)
  with p(1) have run: "counter_update io (NonNullOffset a) upd s = (Inr (get_u64 b), s')"
    by (simp add: counter_update_def)
  from counter_update_ok [OF g run] run p(2) show ?thesis by auto
qed

lemma fetch_add_calm:
  assumes "v_good vw s" and "v_calm vw s" and "unat a + 8 \<le> length (v_bytes vw s)"
    and "unat (word_at (v_bytes vw s) (unat a)) + unat d < u64_limit"
  shows "\<exists>s'. fetch_add io (NonNullOffset a) d s = (Inr (word_at (v_bytes vw s) (unat a)), s') \<and> v_calm vw s'"
  using counter_update_calm [OF assms(1-3), of "\<lambda>cur. checked_add64 cur d"] assms(4)
  by (auto simp: fetch_add_def checked_add64_def)

lemma fetch_sub_calm:
  assumes "v_good vw s" and "v_calm vw s" and "unat a + 8 \<le> length (v_bytes vw s)"
    and "unat d \<le> unat (word_at (v_bytes vw s) (unat a))"
  shows "\<exists>s'. fetch_sub io (NonNullOffset a) d s = (Inr (word_at (v_bytes vw s) (unat a)), s') \<and> v_calm vw s'"
  using counter_update_calm [OF assms(1-3), of "\<lambda>cur. checked_sub64 cur d"] assms(4)
  by (auto simp: fetch_sub_def checked_sub64_def)

lemma increment_calm:
  assumes g: "v_good vw s" and c: "v_calm vw s" and le: "unat a + 8 \<le> length (v_bytes vw s)"
    and lim: "unat (word_at (v_bytes vw s) (unat a)) + 1 < u64_limit"
  shows "\<exists>s'. increment_if_nonzero io (NonNullOffset a) s =
      (Inr (if word_at (v_bytes vw s) (unat a) = 0 then None else Some (word_at (v_bytes vw s) (unat a) + 1)), s')
    \<and> v_calm vw s'"
proof -
  let ?w = "word_at (v_bytes vw s) (unat a)"
  obtain b s1 where rd: "op_read io a 8 s = (Inr b, s1)" and c1: "v_calm vw s1"
    using calm_read [OF g c, of a 8] le by auto
  have u: "unchanged vw s s1" and b: "from_le64 b = ?w"
    using read_law [OF g rd] by (auto simp: word_at_def)
  have g1: "v_good vw s1" and b1: "v_bytes vw s1 = v_bytes vw s" using u by (auto simp: unchanged_def)
  show ?thesis
  proof (cases "?w = 0")
    case True
    with rd b c1 show ?thesis by (simp add: increment_if_nonzero_def rc_load_def)
  next
    case False
    obtain s2 where "counter_update io (NonNullOffset a) (\<lambda>cur. if cur = 0 then None else checked_add64 cur 1) s1
        = (Inr ?w, s2)" "v_calm vw s2"
      using counter_update_calm [OF g1 c1, of a] le b1 by auto
    with False rd b lim show ?thesis by (simp add: increment_if_nonzero_def rc_load_def checked_add64_def)
  qed
qed

end

end
