(* ===== verification/WalClone.thy ===== *)
theory WalClone
  imports WalProps
begin

text \<open>
  The allocations of a deep clone. \<open>clone_inv\<close> is the lockstep the source promises: the live
  entries of the log are exactly the blocks allocated so far. It is kept by every logged
  allocation, in place or through a grown block, and a rollback through \<^verbatim>\<open>finish\<close> frees
  exactly those blocks.
\<close>

definition txn_holds :: "'s stack_view \<Rightarrow> 's \<Rightarrow> range \<Rightarrow> wal_txn \<Rightarrow> range list \<Rightarrow> bool" where
  "txn_holds vw s q w allocated \<longleftrightarrow>
     wal_at vw s q (wal_header_new WPending (of_nat (length allocated)) (wt_capacity w)) (map (entry_alloc WPending) allocated)
     \<and> wt_block_off w = fst q \<and> wt_logged w = of_nat (length allocated)
     \<and> distinct allocated \<and> set allocated \<subseteq> v_live vw s - {q}"

definition clone_inv :: "'s stack_view \<Rightarrow> 's \<Rightarrow> range set \<Rightarrow> wal_txn option \<Rightarrow> range list \<Rightarrow> bool" where
  "clone_inv vw s B wal allocated \<longleftrightarrow>
     (case wal of None \<Rightarrow> allocated = [] \<and> wal_idle vw s B
      | Some w \<Rightarrow> \<exists>q. B = {q} \<and> txn_holds vw s q w allocated)"

lemma staged_alloc: "staged (wal_header_new WPending n cap) (map (entry_alloc WPending) qs) = qs"
  by (simp add: staged_new orphans_alloc_log)

lemma txn_recoverable:
  "txn_holds vw s q w allocated \<Longrightarrow>
    recoverable vw s q (wal_header_new WPending (of_nat (length allocated)) (wt_capacity w)) (map (entry_alloc WPending) allocated)"
  by (simp add: txn_holds_def recoverable_def staged_alloc)

lemma txn_safe: "txn_holds vw s q w allocated \<Longrightarrow> wal_safe vw s {q} (set allocated)"
  unfolding wal_safe_def using txn_recoverable [of vw s q w allocated] staged_alloc by (metis order_refl)

lemma clone_safe: "clone_inv vw s B wal allocated \<Longrightarrow> wal_safe vw s B (set allocated)"
  by (auto simp: clone_inv_def txn_safe wal_idle_safe split: option.splits)

lemma header_new_count: "(wal_header_new st n cap)\<lparr>wh_count := m\<rparr> = wal_header_new st m cap"
  by (simp add: wal_header_new_def)

context stack_laws
begin

lemma txn_relived:
  assumes "txn_holds vw s q w allocated" and "relived vw s (v_live vw s) L s'" and "v_live vw s \<subseteq> L"
  shows "txn_holds vw s' q w allocated"
proof -
  have q: "q \<in> v_live vw s" using assms(1) by (simp add: txn_holds_def wal_at_def)
  then have "q \<in> L" using assms(3) by blast
  with wal_at_relived [OF _ assms(2) q] assms show ?thesis by (auto simp: txn_holds_def relived_def)
qed

lemma clone_relived:
  assumes "clone_inv vw s B wal allocated" and "relived vw s (v_live vw s) L s'" and "v_live vw s \<subseteq> L"
  shows "clone_inv vw s' B wal allocated"
proof (cases wal)
  case None
  have "wal_idle vw s' B" if idle: "wal_idle vw s B"
  proof -
    from idle consider "B = {}" "no_block vw s" | q h es where "B = {q}" "wal_at vw s q h es" "header_txn_status h = WNone"
      by (auto simp: wal_idle_def)
    then show ?thesis
    proof cases
      case 1
      with no_block_relived [OF assms(2)] show ?thesis by (simp add: wal_idle_def)
    next
      case 2
      then have q: "q \<in> v_live vw s" by (simp add: wal_at_def)
      with wal_at_relived [OF 2(2) assms(2) q] assms(3) 2 show ?thesis unfolding wal_idle_def by blast
    qed
  qed
  with None assms(1) show ?thesis by (simp add: clone_inv_def)
next
  case (Some w)
  with assms(1) txn_relived [OF _ assms(2,3)] show ?thesis by (auto simp: clone_inv_def)
qed

text \<open>One more entry, in place.\<close>

lemma append_alloc_ok:
  assumes g: "v_good vw s" and t: "txn_holds vw s q w allocated" and room: "wt_logged w < wt_capacity w"
    and p: "p \<in> v_live vw s - insert q (set allocated)"
    and run: "append_alloc io (wt_block_off w) (wt_logged w) p s = (r, s')"
  shows "relived vw s (v_live vw s - {q}) (v_live vw s) s'
    \<and> (case r of Inl e \<Rightarrow> txn_holds vw s' q w allocated
       | Inr _ \<Rightarrow> txn_holds vw s' q (w\<lparr>wt_logged := wt_logged w + 1\<rparr>) (allocated @ [p]))"
proof -
  let ?n = "of_nat (length allocated) :: u64"
  let ?h = "wal_header_new WPending ?n (wt_capacity w)"
  let ?es = "map (entry_alloc WPending) allocated"
  have at: "wal_at vw s q ?h ?es" and wb: "wt_block_off w = fst q" "wt_logged w = ?n"
    and d: "distinct allocated" "set allocated \<subseteq> v_live vw s - {q}"
    using t by (simp_all add: txn_holds_def)
  note b = block_bounds [OF g at]
  have un: "unat ?n = length allocated" using b(6) by simp
  have lt: "?n < wt_capacity w" using room wb by simp
  then have ltn: "length allocated < unat (wt_capacity w)" using un by (simp add: word_less_nat_alt)
  have q: "q \<in> v_live vw s" and bh: "block_holds (content (v_bytes vw s) q) ?h ?es" using at by (simp_all add: wal_at_def)
  have m: "unat (?n * 32) = 32 * length allocated" using b un by (subst unat_mult_u64) simp_all
  have a: "unat (fst q + 32 :: u64) = unat (fst q) + 32" using b by (subst unat_plus_u64) simp_all
  have off1: "unat (fst q + 32 + ?n * 32) = unat (fst q) + (32 + 32 * length allocated)"
    using b a m ltn by (subst unat_plus_u64) simp_all
  have off2: "unat (fst q + 16) = unat (fst q) + 16" using b by (subst unat_plus_u64) simp_all
  let ?e = "entry_alloc WPending p"
  obtain r1 s1 where s1: "op_set io (fst q + 32 + ?n * 32) (entry_bytes ?e) s = (r1, s1)"
    by (cases "op_set io (fst q + 32 + ?n * 32) (entry_bytes ?e) s")
  have k1: "32 + 32 * length allocated + length (entry_bytes ?e) \<le> unat (snd q)" using b ltn by simp
  note l1 = set_in_block [OF g q k1 off1 s1]
  have run1: "append_alloc io (wt_block_off w) (wt_logged w) p s = try_s (r1, s1) (\<lambda>_ s1.
     try_s (op_set io (fst q + 16) (to_le64 (?n + 1)) s1) (\<lambda>_ s2. (Inr (), s2)))"
    by (simp add: append_alloc_def WAL_COUNT_OFFSET_def wb s1)
  show ?thesis
  proof (cases r1)
    case (Inl e)
    with l1 have u: "unchanged vw s s1" by simp
    have "r = Inl e" "s' = s1" using run run1 Inl by simp_all
    with t u wal_at_unchanged [OF at u] unchanged_relived [OF g u] show ?thesis
      by (auto simp: txn_holds_def unchanged_def)
  next
    case (Inr u)
    with l1 have w1: "relived vw s (v_live vw s - {q}) (v_live vw s) s1"
      "content (v_bytes vw s1) q = overwrite (32 + 32 * length allocated) (entry_bytes ?e) (content (v_bytes vw s) q)" by auto
    have g1: "v_good vw s1" and lv1: "v_live vw s1 = v_live vw s" and q1: "q \<in> v_live vw s1"
      using w1(1) q by (auto simp: relived_def)
    have hn: "wh_count ?h = ?n" "wh_count ?h < wh_capacity ?h" using lt by simp_all
    have "block_holds (content (v_bytes vw s1) q) ?h ?es"
      using holds_unseen [OF bh hn(2), of "entry_bytes ?e"] un by (simp add: w1(2))
    then have at1: "wal_at vw s1 q ?h ?es" by (rule wal_at_write [OF at w1(1)]) simp
    obtain r2 s2 where s2: "op_set io (fst q + 16) (to_le64 (?n + 1)) s1 = (r2, s2)"
      by (cases "op_set io (fst q + 16) (to_le64 (?n + 1)) s1")
    have k2: "16 + length (to_le64 (?n + 1)) \<le> unat (snd q)" using b by simp
    note l2 = set_in_block [OF g1 q1 k2 off2 s2]
    show ?thesis
    proof (cases r2)
      case (Inl e)
      with l2 have u: "unchanged vw s1 s2" by simp
      have "r = Inl e" "s' = s2" using run run1 Inr s2 Inl by simp_all
      moreover have "relived vw s (v_live vw s - {q}) (v_live vw s) s2"
        using w1(1) u by (simp add: relived_def unchanged_def)
      ultimately show ?thesis
        using t wal_at_unchanged [OF at1 u] u lv1 by (auto simp: txn_holds_def unchanged_def)
    next
      case ok: (Inr u2)
      with l2 have w2: "relived vw s1 (v_live vw s1 - {q}) (v_live vw s1) s2"
        "content (v_bytes vw s2) q = overwrite 16 (to_le64 (?n + 1)) (content (v_bytes vw s1) q)" by auto
      have "block_holds (content (v_bytes vw s2) q) (wal_header_new WPending (?n + 1) (wt_capacity w)) (?es @ [?e])"
        using holds_append [OF bh hn(2), of ?e] un by (simp add: w1(2) w2(2) header_new_count)
      then have at2: "wal_at vw s2 q (wal_header_new WPending (?n + 1) (wt_capacity w)) (?es @ [?e])"
        by (rule wal_at_write [OF at1 w2(1)]) simp
      have "relived vw s (v_live vw s - {q}) (v_live vw s) s2"
        using w1(1) w2(1) lv1 by (auto simp: relived_def same_on_def)
      moreover have "r = Inr ()" "s' = s2" using run run1 Inr s2 ok by simp_all
      moreover have "v_live vw s2 = v_live vw s" using w2(1) lv1 by (simp add: relived_def)
      ultimately show ?thesis using at2 d p wb by (auto simp: txn_holds_def add.commute)
    qed
  qed
qed

lemma capacity_of_block:
  assumes "v_good vw s" and "wal_at vw s q h es"
  shows "capacity_of q = wh_capacity h"
proof -
  note b = block_bounds [OF assms]
  have "unat (snd q - 32 :: u64) = unat (snd q) - 32" using b(1) by (simp add: unat_sub_if')
  then have "unat (capacity_of q) = unat (wh_capacity h)"
    using b(1) by (simp add: capacity_of_def unat_div)
  then show ?thesis by (simp add: word_unat_eq_iff)
qed

lemma persist_allocs:
  assumes g: "v_good vw s" and an: "op_anchor io = Some 8" and safe: "wal_safe vw s B A"
    and n: "length qs \<le> 1048576" and d: "distinct qs" "set qs \<subseteq> v_live vw s - B"
    and l: "wl_entries l = map (entry_alloc WPending) qs" and run: "persist io l WPending s = (r, s')"
  shows "guarded vw s B s' \<and> (case r of
      Inl e \<Rightarrow> \<exists>B'. wal_safe vw s' B' A \<and> B' \<inter> (v_live vw s - B) = {}
    | Inr q \<Rightarrow> txn_holds vw s' q \<lparr>wt_block_off = fst q, wt_capacity = capacity_of q, wt_logged = of_nat (length qs)\<rparr> qs
        \<and> q \<notin> v_live vw s - B)"
proof -
  have pads: "\<forall>e \<in> set (wl_entries l). length (we_pad e) = 6" using l by auto
  have len: "length (wl_entries l) \<le> 1048576" using l n by simp
  note p = persist_ok [OF g an safe len pads run]
  show ?thesis
  proof (cases r)
    case (Inl e)
    with p show ?thesis by simp
  next
    case (Inr q)
    with p l obtain cap where at: "wal_at vw s' q (wal_header_new WPending (of_nat (length qs)) cap) (map (entry_alloc WPending) qs)"
      and fresh: "q \<notin> v_live vw s - B" and lv: "v_live vw s' = insert q (v_live vw s - B)" by auto
    have "capacity_of q = cap" using capacity_of_block [OF _ at] p by (auto dest: guarded_good)
    with at fresh lv d p Inr show ?thesis by (auto simp: txn_holds_def)
  qed
qed

text \<open>A logged allocation.\<close>

lemma clone_holds:
  "txn_holds vw s q w allocated \<Longrightarrow> q \<notin> L \<Longrightarrow> \<exists>B. clone_inv vw s B (Some w) allocated \<and> B \<inter> L = {}"
  by (intro exI [of _ "{q}"]) (simp add: clone_inv_def)

lemma log_alloc_ok:
  assumes g: "v_good vw s" and an: "op_anchor io = Some 8" and inv: "clone_inv vw s B wal allocated"
    and n: "length allocated < 1048576" and p: "p \<in> v_live vw s - (B \<union> set allocated)"
    and run: "log_alloc io lock wal allocated p s = (r, s')"
  shows "guarded vw s B s' \<and> (case r of
      Inl e \<Rightarrow> \<exists>B'. wal_safe vw s' B' (set allocated) \<and> B' \<inter> (v_live vw s - B) = {}
    | Inr w \<Rightarrow> \<exists>B'. clone_inv vw s' B' (Some w) (allocated @ [p]) \<and> B' \<inter> (v_live vw s - B) = {})"
proof (cases wal)
  case None
  with inv have al: "allocated = []" and idle: "wal_idle vw s B" by (simp_all add: clone_inv_def)
  show ?thesis
  proof (cases lock)
    case (Inl e)
    with run None have "r = Inl e" "s' = s" by (simp_all add: log_alloc_def txn_begin_def txn_begin_many_def)
    with g wal_idle_safe [OF idle] show ?thesis by (auto simp: guarded_def same_on_def)
  next
    case (Inr u)
    obtain rp s1 where pe: "persist io (alloc_log [p]) WPending s = (rp, s1)" by (cases "persist io (alloc_log [p]) WPending s")
    have "set [p] \<subseteq> v_live vw s - B" "distinct [p]" "length [p] \<le> 1048576" using p by auto
    from persist_allocs [OF g an wal_idle_safe [OF idle, of "set allocated"] this(3,2,1) _ pe]
    have pr: "guarded vw s B s1 \<and> (case rp of Inl e \<Rightarrow> \<exists>B'. wal_safe vw s1 B' (set allocated) \<and> B' \<inter> (v_live vw s - B) = {}
      | Inr q \<Rightarrow> txn_holds vw s1 q \<lparr>wt_block_off = fst q, wt_capacity = capacity_of q, wt_logged = of_nat (length [p])\<rparr> [p]
          \<and> q \<notin> v_live vw s - B)"
      by (simp add: alloc_log_entries)
    have "log_alloc io lock wal allocated p s = try_s (rp, s1) (\<lambda>blk s1.
       (Inr \<lparr>wt_block_off = fst blk, wt_capacity = capacity_of blk, wt_logged = of_nat (length [p])\<rparr>, s1))"
      using None Inr pe by (simp add: log_alloc_def txn_begin_def txn_begin_many_def)
    with run pr al show ?thesis by (cases rp) (auto simp: clone_inv_def simp del: split_paired_Ex)
  qed
next
  case (Some w)
  with inv obtain q where B: "B = {q}" and t: "txn_holds vw s q w allocated" by (auto simp: clone_inv_def)
  have p': "p \<in> v_live vw s - insert q (set allocated)" using p B by auto
  show ?thesis
  proof (cases "wt_logged w < wt_capacity w")
    case True
    obtain ra s1 where ap: "append_alloc io (wt_block_off w) (wt_logged w) p s = (ra, s1)"
      by (cases "append_alloc io (wt_block_off w) (wt_logged w) p s")
    note l = append_alloc_ok [OF g t True p' ap]
    have "log_alloc io lock wal allocated p s = try_s (ra, s1) (\<lambda>_ s1. (Inr (w\<lparr>wt_logged := wt_logged w + 1\<rparr>), s1))"
      using Some True ap by (simp add: log_alloc_def txn_append_def)
    with run l have "guarded vw s B s'" and "case r of Inl e \<Rightarrow> txn_holds vw s' q w allocated
       | Inr w' \<Rightarrow> txn_holds vw s' q w' (allocated @ [p])"
      using B guarded_relived [of vw s "{q}" "v_live vw s" s'] by (cases ra; auto)+
    with txn_safe [of vw s' q w allocated] B show ?thesis
      by (cases r) (auto simp: clone_inv_def simp del: split_paired_Ex)
  next
    case False
    let ?l = "log_append (alloc_log allocated) (entry_alloc WPending p)"
    obtain rp s1 where pe: "persist io ?l WPending s = (rp, s1)" by (cases "persist io ?l WPending s")
    have d: "distinct (allocated @ [p])" "set (allocated @ [p]) \<subseteq> v_live vw s - B" "length (allocated @ [p]) \<le> 1048576"
      using t p n B by (auto simp: txn_holds_def)
    have le: "wl_entries ?l = map (entry_alloc WPending) (allocated @ [p])" by (simp add: alloc_log_entries)
    note pr = persist_allocs [OF g an clone_safe [OF inv] d(3,1,2) le pe]
    have "log_alloc io lock wal allocated p s = try_s (rp, s1) (\<lambda>blk s1.
       (Inr \<lparr>wt_block_off = fst blk, wt_capacity = capacity_of blk, wt_logged = of_nat (length allocated) + 1\<rparr>, s1))"
      using Some False pe by (simp add: log_alloc_def txn_append_def)
    note la = this
    show ?thesis
    proof (cases rp)
      case (Inl e)
      with run pr la show ?thesis by auto
    next
      case (Inr blk)
      have res: "r = Inr \<lparr>wt_block_off = fst blk, wt_capacity = capacity_of blk, wt_logged = of_nat (length (allocated @ [p]))\<rparr>"
        "s' = s1" using run la Inr by (simp_all add: add.commute)
      have gd: "guarded vw s B s1"
        and h: "txn_holds vw s1 blk \<lparr>wt_block_off = fst blk, wt_capacity = capacity_of blk,
            wt_logged = of_nat (length (allocated @ [p]))\<rparr> (allocated @ [p])"
        and fresh: "blk \<notin> v_live vw s - B" using pr Inr by simp_all
      from clone_holds [OF h fresh] gd res show ?thesis by simp
    qed
  qed
qed

lemma alloc_logged_ok:
  assumes g: "v_good vw s" and an: "op_anchor io = Some 8" and inv: "clone_inv vw s B wal allocated"
    and n: "length allocated < 1048576" and sz: "sz \<noteq> 0"
    and run: "alloc_logged io lock wal allocated sz s = ((r, wal', allocated'), s')"
  shows "guarded vw s B s' \<and> (case r of
      Inl e \<Rightarrow> allocated' = allocated \<and> (\<exists>B'. wal_safe vw s' B' (set allocated) \<and> B' \<inter> (v_live vw s - B) = {})
    | Inr q \<Rightarrow> snd q = sz \<and> q \<notin> v_live vw s \<and> allocated' = allocated @ [q]
        \<and> (\<exists>B'. clone_inv vw s' B' wal' allocated' \<and> B' \<inter> (v_live vw s - B) = {}))"
proof -
  obtain ra s1 where al: "op_alloc io sz s = (ra, s1)" by (cases "op_alloc io sz s")
  note law = alloc_law [OF g al sz]
  show ?thesis
  proof (cases ra)
    case (Inl e)
    with law have r1: "relived vw s (v_live vw s) (v_live vw s) s1" by simp
    have "r = Inl e" "allocated' = allocated" "s' = s1" using run al Inl by (simp_all add: alloc_logged_def)
    moreover have "guarded vw s B s1" using r1 by (auto simp: guarded_def relived_def same_on_def)
    ultimately show ?thesis using wal_safe_relived [OF clone_safe [OF inv] r1 wal_safe_live [OF clone_safe [OF inv]]] by auto
  next
    case (Inr q)
    with law have q: "snd q = sz" "q \<notin> v_live vw s" and r1: "relived vw s (v_live vw s) (insert q (v_live vw s)) s1" by auto
    have g1: "v_good vw s1" and lv1: "v_live vw s1 = insert q (v_live vw s)" using r1 by (auto simp: relived_def)
    have inv1: "clone_inv vw s1 B wal allocated" by (rule clone_relived [OF inv r1]) auto
    have old: "B \<union> set allocated \<subseteq> v_live vw s"
      using wal_safe_live [OF clone_safe [OF inv]] inv by (auto simp: clone_inv_def txn_holds_def split: option.splits)
    have gd1: "guarded vw s B s1" using r1 by (auto simp: guarded_def relived_def same_on_def)
    obtain rl s2 where lg: "log_alloc io lock wal allocated q s1 = (rl, s2)" by (cases "log_alloc io lock wal allocated q s1")
    have pin: "q \<in> v_live vw s1 - (B \<union> set allocated)" using q(2) old lv1 by auto
    note l = log_alloc_ok [OF g1 an inv1 n pin lg]
    have gd2: "guarded vw s B s2" by (rule guarded_trans [OF gd1]) (use l in auto)
    show ?thesis
    proof (cases rl)
      case ok: (Inr w)
      have "r = Inr q" "wal' = Some w" "allocated' = allocated @ [q]" "s' = s2"
        using run al Inr an lg ok by (simp_all add: alloc_logged_def)
      moreover obtain B' where "clone_inv vw s2 B' (Some w) (allocated @ [q])" "B' \<inter> (v_live vw s1 - B) = {}"
        using l ok by auto
      moreover from this(2) have "B' \<inter> (v_live vw s - B) = {}" using lv1 by auto
      ultimately show ?thesis using gd2 q by auto
    next
      case (Inl e)
      obtain B' where safe2: "wal_safe vw s2 B' (set allocated)" and B': "B' \<inter> (v_live vw s1 - B) = {}" using l Inl by auto
      have out: "r = Inl e" "allocated' = allocated" "s' = snd (op_dealloc io q s2)"
        using run al Inr an lg Inl by (simp_all add: alloc_logged_def)
      obtain rd s3 where de: "op_dealloc io q s2 = (rd, s3)" by (cases "op_dealloc io q s2")
      have q2: "q \<in> v_live vw s2"
      proof -
        have "q \<in> v_live vw s1 - B" using pin by auto
        with l show ?thesis by (auto simp: guarded_def)
      qed
      note f = dealloc_freed [OF guarded_good [OF gd2] q2 de]
      have "guarded vw s2 {q} s3" using guarded_settles [OF freed_settles [OF f, of "{}"]] by simp
      then have gd3: "guarded vw s B s3" by (rule guarded_trans [OF gd2]) (use q(2) in auto)
      have nq: "q \<notin> set allocated" using pin by simp
      have "q \<notin> B'" using B' pin by auto
      from safe2 consider "B' = {}" "no_block vw s2"
        | b h es where "B' = {b}" "recoverable vw s2 b h es" "set (staged h es) \<subseteq> set allocated"
        by (auto simp: wal_safe_def)
      then have "wal_safe vw s3 B' (set allocated)"
      proof cases
        case 1
        obtain L where "relived vw s2 (v_live vw s2 - {q}) L s3" using f by (auto simp: freed_def)
        from no_block_relived [OF this] 1 show ?thesis by (simp add: wal_safe_def)
      next
        case 2
        have "wal_at vw s3 b h es" using wal_at_freed [OF _ f] 2 \<open>q \<notin> B'\<close> by (simp add: recoverable_def)
        moreover have "set (staged h es) \<subseteq> v_live vw s3 - {b}"
          using 2 nq freed_live [OF f] by (auto simp: recoverable_def)
        ultimately have "recoverable vw s3 b h es" using 2(2) by (simp add: recoverable_def)
        with 2 show ?thesis unfolding wal_safe_def by blast
      qed
      moreover have "B' \<inter> (v_live vw s - B) = {}" using B' lv1 by auto
      ultimately show ?thesis using out de gd3 by auto
    qed
  qed
qed

end

end
