(* ===== verification/Tally.thy ===== *)
theory Tally
  imports Prelude
begin

text \<open>
  Two idioms of the crate that several components use: sorting a list of indices and collapsing equal
  neighbours to an index with its multiplicity (the counters of a clone plan in
  \<^verbatim>\<open>src/io_core/clone.rs\<close>, the counters of a Bloom filter in
  \<^verbatim>\<open>src/stdlib/bloom.rs\<close>), and saturating arithmetic of the standard library.
\<close>

section \<open>Multiplicities\<close>

definition tally_step :: "('a \<times> 'n::len word) list \<Rightarrow> 'a \<Rightarrow> ('a \<times> 'n word) list" where
  "tally_step acc x =
     (if acc \<noteq> [] \<and> fst (last acc) = x then butlast acc @ [(x, snd (last acc) + 1)] else acc @ [(x, 1)])"

definition tally :: "'a::linorder list \<Rightarrow> ('a \<times> 'n::len word) list" where
  "tally xs = foldl tally_step [] (sort xs)"

lemma sorted_last: "sorted xs \<Longrightarrow> x \<in> set xs \<Longrightarrow> x \<le> last xs"
  by (induction xs) auto

definition tallied :: "'a::linorder list \<Rightarrow> ('a \<times> 'n::len word) list \<Rightarrow> bool" where
  "tallied xs acc \<longleftrightarrow> distinct (map fst acc) \<and> fst ` set acc = set xs
     \<and> (\<forall>(x, n) \<in> set acc. n = of_nat (count_list xs x)) \<and> (xs \<noteq> [] \<longrightarrow> fst (last acc) = last xs)"

lemma tallied_new:
  assumes t: "tallied xs acc" and x: "x \<notin> set xs"
  shows "tallied (xs @ [x]) (acc @ [(x, 1)])"
proof -
  have "y \<noteq> x" if "(y, n) \<in> set acc" for y n
    using t x that by (force simp: tallied_def)
  moreover have "count_list xs x = 0" using x by (simp add: count_notin)
  moreover have "\<forall>(y, n) \<in> set acc. n = of_nat (count_list xs y)" using t by (simp add: tallied_def)
  ultimately have "\<forall>(y, n) \<in> set (acc @ [(x, 1)]). n = of_nat (count_list (xs @ [x]) y)" by fastforce
  moreover have "fst ` set (acc @ [(x, 1)]) = set (xs @ [x])" "distinct (map fst (acc @ [(x, 1)]))"
    using t x by (auto simp: tallied_def)
  ultimately show ?thesis unfolding tallied_def by simp
qed

lemma tallied_again:
  assumes t: "tallied xs (acc @ [(x, n)])"
  shows "tallied (xs @ [x]) (acc @ [(x, n + 1)])"
proof -
  have d: "x \<notin> fst ` set acc" and s: "insert x (fst ` set acc) = set xs"
    and c: "\<forall>(y, k) \<in> set acc. k = of_nat (count_list xs y)" and n: "n = of_nat (count_list xs x)"
    and m: "distinct (map fst acc)" using t by (auto simp: tallied_def)
  have "y \<noteq> x" if "(y, k) \<in> set acc" for y k using d that by force
  then have "\<forall>(y, k) \<in> set acc. k = of_nat (count_list (xs @ [x]) y)" using c by fastforce
  with d s n m show ?thesis by (auto simp: tallied_def)
qed

lemma tallied_foldl: "sorted xs \<Longrightarrow> tallied xs (foldl tally_step [] xs :: ('a::linorder \<times> 'n::len word) list)"
proof (induction xs rule: rev_induct)
  case (snoc x xs)
  have srt: "sorted xs" and le: "\<forall>y \<in> set xs. y \<le> x" using snoc.prems by (auto simp: sorted_append)
  define acc :: "('a \<times> 'n word) list" where "acc = foldl tally_step [] xs"
  have ih: "tallied xs acc" using snoc.IH [OF srt] by (simp add: acc_def)
  have step: "(foldl tally_step [] (xs @ [x]) :: ('a \<times> 'n word) list) = tally_step acc x" by (simp add: acc_def)
  show ?case
  proof (cases "acc \<noteq> [] \<and> fst (last acc) = x")
    case True
    then have "acc = butlast acc @ [(x, snd (last acc))]" by (auto simp: prod_eq_iff intro: append_butlast_last_id [symmetric])
    then obtain A k where A: "acc = A @ [(x, k)]" by metis
    then have "tally_step acc x = A @ [(x, k + 1)]" by (simp add: tally_step_def)
    then show ?thesis using tallied_again [OF ih [unfolded A]] unfolding step by simp
  next
    case False
    have "x \<notin> set xs"
    proof
      assume x: "x \<in> set xs"
      then have ne: "xs \<noteq> []" by auto
      have "x \<le> last xs" by (rule sorted_last [OF srt x])
      moreover have "last xs \<le> x" using le ne by simp
      moreover have "acc \<noteq> []" using ih ne by (auto simp: tallied_def)
      ultimately show False using ih ne False by (auto simp: tallied_def)
    qed
    moreover have "tally_step acc x = acc @ [(x, 1)]" using False by (auto simp: tally_step_def)
    ultimately show ?thesis using tallied_new [OF ih] unfolding step by simp
  qed
qed (simp add: tallied_def)

lemma count_insort: "count_list (insort x xs) a = count_list (x # xs) a"
  by (induction xs) auto

lemma count_sort: "count_list (sort xs) a = count_list xs a"
  by (induction xs) (simp_all add: count_insort)

lemma tally_ok:
  "distinct (map fst (tally xs))" "set (map fst (tally xs)) = set xs"
  "(x, n) \<in> set (tally xs) \<Longrightarrow> n = of_nat (count_list xs x)"
  using tallied_foldl [OF sorted_sort, of xs] unfolding tally_def [symmetric]
  by (auto simp: tallied_def count_sort)

section \<open>Saturating arithmetic\<close>

definition sat_add :: "'n::len word \<Rightarrow> 'n word \<Rightarrow> 'n word" where
  "sat_add a b = (if unat a + unat b < 2 ^ LENGTH('n) then a + b else - 1)"

definition sat_sub :: "'n::len word \<Rightarrow> 'n word \<Rightarrow> 'n word" where
  "sat_sub a b = (if b \<le> a then a - b else 0)"

lemma unat_sat_add: "unat (sat_add a b :: 'n::len word) = min (unat a + unat b) (2 ^ LENGTH('n) - 1)"
proof (cases "unat a + unat b < 2 ^ LENGTH('n)")
  case True
  then show ?thesis by (simp add: sat_add_def unat_word_ariths)
next
  case False
  then show ?thesis by (simp add: sat_add_def unsigned_minus_1_eq_mask mask_eq_exp_minus_1)
qed

lemma unat_sat_sub: "unat (sat_sub a b) = unat a - unat b"
  by (simp add: sat_sub_def unat_sub word_le_nat_alt)

end
