(* ===== verification/Clone.thy ===== *)
theory Clone
  imports WalClone Tally
begin

text \<open>
  The plan of a deep clone, \<^verbatim>\<open>ClonePlan\<close> of \<^verbatim>\<open>src/io_core/clone.rs\<close>:
  allocation in the three modes, staged writes and counter bumps, and the commit of everything as
  one batch that also flips the log. The descent over a block (the generated
  \<^verbatim>\<open>__bstack_clone_into\<close>) is a function argument; a method that takes
  \<^verbatim>\<open>&mut self\<close> returns the plan it leaves. \<open>strong_parts\<close> is the type's lookup of
  its data and control block.
\<close>

section \<open>Images and offsets\<close>

definition put_u64 :: "u8 list \<Rightarrow> u64 \<Rightarrow> u64 \<Rightarrow> u8 list" where
  "put_u64 buf off v = overwrite (unat off) (to_le64 v) buf"

definition BYTEVEC_HEADER :: u64 where "BYTEVEC_HEADER = 16"

definition bytevec_image :: "u64 \<Rightarrow> u64 \<Rightarrow> u8 list \<Rightarrow> u8 list" where
  "bytevec_image len cap data =
     (let img = replicate (unat BYTEVEC_HEADER + length data) 0;
          img = put_u64 img 0 len;
          img = put_u64 img 8 cap in
      overwrite (unat BYTEVEC_HEADER) data img)"

record vec_desc =
  vd_data_off :: offset
  vd_data_size :: u64

definition RC_REFCOUNT_OFFSET :: u64 where "RC_REFCOUNT_OFFSET = HEADER_SIZE"
definition CTRL_STRONG_OFFSET :: u64 where "CTRL_STRONG_OFFSET = HEADER_SIZE"
definition CTRL_WEAK_OFFSET :: u64 where "CTRL_WEAK_OFFSET = HEADER_SIZE + 8"

definition strong_counter_off :: "u64 \<Rightarrow> range option \<Rightarrow> u64 res" where
  "strong_counter_off data_start ctrl =
     (case ctrl of
        None \<Rightarrow> checked_off data_start RC_REFCOUNT_OFFSET
      | Some c \<Rightarrow> checked_off (fst c) CTRL_STRONG_OFFSET)"

definition saturating_add64 :: "u64 \<Rightarrow> u64 \<Rightarrow> u64" where
  "saturating_add64 a b = (if unat a + unat b < u64_limit then a + b else - 1)"

section \<open>The plan\<close>

datatype clone_mode = Direct | Measure | Build

record clone_plan =
  cp_mode :: clone_mode
  cp_allocated :: "range list"
  cp_sizes :: "u64 list"
  cp_cursor :: nat
  cp_fake_next :: u64
  cp_writes :: writes
  cp_bumps :: "u64 list"
  cp_wal :: "wal_txn option"

definition plan_new :: clone_plan where
  "plan_new = \<lparr>cp_mode = Direct, cp_allocated = [], cp_sizes = [], cp_cursor = 0, cp_fake_next = 1,
     cp_writes = [], cp_bumps = [], cp_wal = None\<rparr>"

definition plan_is_measuring :: "clone_plan \<Rightarrow> bool" where
  "plan_is_measuring p \<longleftrightarrow> cp_mode p = Measure"

definition clone_count_mismatch :: io_error where
  "clone_count_mismatch = IoError OtherKind ''clone build/measure block-count mismatch (source mutated mid-clone?)''"

definition clone_size_mismatch :: io_error where
  "clone_size_mismatch = IoError OtherKind ''clone build/measure size mismatch (source mutated mid-clone?)''"

definition plan_alloc_raw ::
    "'s stack_ops \<Rightarrow> unit res \<Rightarrow> u64 \<Rightarrow> clone_plan \<Rightarrow> 's \<Rightarrow> (range res \<times> clone_plan) \<times> 's" where
  "plan_alloc_raw io lock sz p s =
     (case cp_mode p of
        Measure \<Rightarrow>
          ((Inr (cp_fake_next p, sz),
            p\<lparr>cp_sizes := cp_sizes p @ [sz], cp_fake_next := saturating_add64 (cp_fake_next p) (max sz 1)\<rparr>), s)
      | Build \<Rightarrow>
          (if cp_cursor p < length (cp_allocated p) then
             let q = cp_allocated p ! cp_cursor p; p' = p\<lparr>cp_cursor := cp_cursor p + 1\<rparr> in
             if snd q \<noteq> sz then ((Inl clone_size_mismatch, p'), s) else ((Inr q, p'), s)
           else ((Inl clone_count_mismatch, p), s))
      | Direct \<Rightarrow>
          (case alloc_logged io lock (cp_wal p) (cp_allocated p) sz s of
             ((r, wal, allocated), s') \<Rightarrow> ((r, p\<lparr>cp_wal := wal, cp_allocated := allocated\<rparr>), s')))"

definition plan_write :: "u64 \<Rightarrow> u8 list \<Rightarrow> clone_plan \<Rightarrow> clone_plan" where
  "plan_write off bytes p = (if cp_mode p \<noteq> Measure then p\<lparr>cp_writes := cp_writes p @ [(off, bytes)]\<rparr> else p)"

definition plan_stage_bytevec ::
    "'s stack_ops \<Rightarrow> unit res \<Rightarrow> u8 list \<Rightarrow> clone_plan \<Rightarrow> 's \<Rightarrow> (vec_desc res \<times> clone_plan) \<times> 's" where
  "plan_stage_bytevec io lock data p s =
     (let len = of_nat (length data); sz = BYTEVEC_HEADER + len in
      case plan_alloc_raw io lock sz p s of
        ((Inl e, p1), s1) \<Rightarrow> ((Inl e, p1), s1)
      | ((Inr q, p1), s1) \<Rightarrow>
          ((Inr \<lparr>vd_data_off = Offset (fst q), vd_data_size = sz\<rparr>,
            if cp_mode p1 \<noteq> Measure then plan_write (fst q) (bytevec_image len len data) p1 else p1), s1))"

definition plan_bump_strong ::
    "('s \<Rightarrow> (u64 \<times> range option) res \<times> 's) \<Rightarrow> clone_plan \<Rightarrow> 's \<Rightarrow> (unit res \<times> clone_plan) \<times> 's" where
  "plan_bump_strong strong_parts p s =
     (if cp_mode p = Measure then ((Inr (), p), s)
      else case strong_parts s of
        (Inl e, s1) \<Rightarrow> ((Inl e, p), s1)
      | (Inr (data, ctrl), s1) \<Rightarrow>
          (case strong_counter_off data ctrl of
             Inl e \<Rightarrow> ((Inl e, p), s1)
           | Inr off \<Rightarrow> ((Inr (), p\<lparr>cp_bumps := cp_bumps p @ [off]\<rparr>), s1)))"

definition plan_bump_weak :: "u64 \<Rightarrow> clone_plan \<Rightarrow> unit res \<times> clone_plan" where
  "plan_bump_weak ctrl_off p =
     (if cp_mode p \<noteq> Measure then
        (case checked_off ctrl_off CTRL_WEAK_OFFSET of
           Inl e \<Rightarrow> (Inl e, p)
         | Inr off \<Rightarrow> (Inr (), p\<lparr>cp_bumps := cp_bumps p @ [off]\<rparr>))
      else (Inr (), p))"

section \<open>Rollback and commit\<close>

definition plan_reclaim :: "'s stack_ops \<Rightarrow> wal_txn option \<Rightarrow> range list \<Rightarrow> 's \<Rightarrow> 's" where
  "plan_reclaim io wal allocated s =
     (case wal of
        Some w \<Rightarrow> snd (txn_finish io w s)
      | None \<Rightarrow> snd (seq_free_many io allocated s))"

definition plan_rollback :: "'s stack_ops \<Rightarrow> clone_plan \<Rightarrow> 's \<Rightarrow> 's" where
  "plan_rollback io p s = plan_reclaim io (cp_wal p) (cp_allocated p) s"

text \<open>Equal neighbours of the sorted bumps become one counter with its increment.\<close>

definition bump_counters :: "u64 list \<Rightarrow> (u64 \<times> u64) list" where
  "bump_counters bumps = tally bumps"

fun add_counters :: "(u64 \<times> u64) list \<Rightarrow> u64 list \<Rightarrow> u64 list option" where
  "add_counters ((off, delta) # cs) (v # vs) =
     (case checked_add64 v delta of
        None \<Rightarrow> None
      | Some n \<Rightarrow> map_option (\<lambda>ns. n # ns) (add_counters cs vs))"
| "add_counters _ _ = Some []"

definition commit_overflow :: io_error where
  "commit_overflow = IoError InvalidData ''refcount overflow while committing clone''"

definition counter_writes :: "(u64 \<times> u64) list \<Rightarrow> u64 list \<Rightarrow> writes" where
  "counter_writes counters news = map2 (\<lambda>(off, delta) n. (off, to_le64 n)) counters news"

definition marker_write :: "wal_txn option \<Rightarrow> writes" where
  "marker_write wal = (case wal of None \<Rightarrow> [] | Some w \<Rightarrow> [(commit_marker_off w, [status_byte WComplete])])"

definition commit_writes :: "clone_plan \<Rightarrow> (u64 \<times> u64) list \<Rightarrow> u64 list \<Rightarrow> writes" where
  "commit_writes p counters news = counter_writes counters news @ cp_writes p @ marker_write (cp_wal p)"

definition plan_commit :: "'s stack_ops \<Rightarrow> clone_plan \<Rightarrow> 's \<Rightarrow> unit res \<times> 's" where
  "plan_commit io p s =
     (let counters = bump_counters (cp_bumps p) in
      case read_each io (map fst counters) s of
        (Inl e, s1) \<Rightarrow> (Inl e, plan_reclaim io (cp_wal p) (cp_allocated p) s1)
      | (Inr vals, s1) \<Rightarrow>
          (case add_counters counters vals of
             None \<Rightarrow> (Inl commit_overflow, plan_reclaim io (cp_wal p) (cp_allocated p) s1)
           | Some news \<Rightarrow>
               (case op_commit io (commit_writes p counters news) s1 of
                  (Inl e, s2) \<Rightarrow> (Inl e, plan_reclaim io (cp_wal p) (cp_allocated p) s2)
                | (Inr _, s2) \<Rightarrow>
                    (Inr (), case cp_wal p of None \<Rightarrow> s2 | Some w \<Rightarrow> snd (txn_set_idle io w s2)))))"

section \<open>Driving a clone\<close>

type_synonym 's descent = "clone_plan \<Rightarrow> 's \<Rightarrow> (range res \<times> clone_plan) \<times> 's"

definition plan_allocate :: "'s stack_ops \<Rightarrow> unit res \<Rightarrow> clone_plan \<Rightarrow> 's \<Rightarrow> clone_plan res \<times> 's" where
  "plan_allocate io lock p s =
     try_s (alloc_many io (cp_sizes p) s) (\<lambda>qs s1.
       if op_anchor io \<noteq> None \<and> qs \<noteq> [] then
         (case txn_begin_many io lock qs s1 of
            (Inl e, s2) \<Rightarrow> (Inl e, snd (free_many io qs s2))
          | (Inr w, s2) \<Rightarrow> (Inr (p\<lparr>cp_wal := Some w, cp_allocated := qs, cp_cursor := 0\<rparr>), s2))
       else (Inr (p\<lparr>cp_allocated := qs, cp_cursor := 0\<rparr>), s1))"

definition run_direct :: "'s stack_ops \<Rightarrow> 's descent \<Rightarrow> clone_plan \<Rightarrow> 's \<Rightarrow> range res \<times> 's" where
  "run_direct io descend p s =
     (case descend p s of
        ((Inl e, p1), s1) \<Rightarrow> (Inl e, plan_rollback io p1 s1)
      | ((Inr dst, p1), s1) \<Rightarrow> try_s (plan_commit io p1 s1) (\<lambda>_ s2. (Inr dst, s2)))"

definition run_clone :: "'s stack_ops \<Rightarrow> unit res \<Rightarrow> 's descent \<Rightarrow> 's \<Rightarrow> range res \<times> 's" where
  "run_clone io lock descend s =
     (if op_atomic_bulk io then
        (case descend (plan_new\<lparr>cp_mode := Measure\<rparr>) s of
           ((Inl e, p1), s1) \<Rightarrow> (Inl e, s1)
         | ((Inr _, p1), s1) \<Rightarrow>
             try_s (plan_allocate io lock p1 s1) (\<lambda>p2 s2. run_direct io descend (p2\<lparr>cp_mode := Build\<rparr>) s2))
      else run_direct io descend plan_new s)"

definition try_clone_in :: "'s stack_ops \<Rightarrow> 's descent \<Rightarrow> 's \<Rightarrow> range res \<times> 's" where
  "try_clone_in io clone_into s = run_direct io clone_into plan_new s"

end
