(* ===== verification/Rc.thy ===== *)
theory Rc
  imports Teardown Refcount Clone
begin

text \<open>
  Shared handles, \<^verbatim>\<open>src/types/compiled/rc.rs\<close>, and the cross-file helpers of
  \<^verbatim>\<open>src/io_core/foreign.rs\<close>. A strong handle is the block's range with, for an
  \<^verbatim>\<open>(rc, weak)\<close> block, the range of its control block; a weak handle is the range of the
  control block. Operations run on a thread's state. The per-file lock that
  \<^verbatim>\<open>set_weak_field\<close> and \<^verbatim>\<open>upgrade_weak_field\<close> hold makes each of them one step.
  \<open>drop_children\<close> is the generated teardown of the fields of the block's type, \<open>sz\<close> the size of
  its on-disk form, and \<^verbatim>\<open>BStack::swap\<close> is \<open>op_process\<close> with a constant closure.
\<close>

section \<open>Offsets and handles\<close>

definition CTRL_BACKPTR_OFFSET :: u64 where "CTRL_BACKPTR_OFFSET = HEADER_SIZE"
definition CTRL_DATA_OFFSET :: u64 where "CTRL_DATA_OFFSET = HEADER_SIZE + 16"
definition CONTROL_SIZE :: u64 where "CONTROL_SIZE = CTRL_DATA_OFFSET + 8"

definition counter_off :: "u64 \<Rightarrow> u64 \<Rightarrow> non_null_offset res" where
  "counter_off base field = try_r (checked_off base field) nn_from_field"

record rc_handle =
  rh_data :: range
  rh_ctrl :: "range option"

section \<open>Releasing a count\<close>

definition strong_ref_drop :: "'s allocator \<Rightarrow> 's dropper \<Rightarrow> 's dropper" where
  "strong_ref_drop al drop_children data t =
     with_depth (\<lambda>t.
       try_in (counter_off (fst data) RC_REFCOUNT_OFFSET) t (\<lambda>off.
       try_s (on_store (fetch_sub (al_io al) off 1) t) (\<lambda>v t1.
         if v = 1 then drop_block al drop_children data t1 else (Inr (), t1)))) t"

definition resolve_ctrl :: "'s allocator \<Rightarrow> range \<Rightarrow> 's thread \<Rightarrow> range res \<times> 's thread" where
  "resolve_ctrl al data t =
     try_in (checked_off (fst data) CTRL_BACKPTR_OFFSET) t (\<lambda>pos.
     try_s (on_store (op_read (al_io al) pos 8) t) (\<lambda>b t1. (Inr (from_le64 b, CONTROL_SIZE), t1)))"

definition release_weak :: "'s allocator \<Rightarrow> 's dropper" where
  "release_weak al ctrl t =
     try_in (counter_off (fst ctrl) CTRL_WEAK_OFFSET) t (\<lambda>off.
     try_s (on_store (fetch_sub (al_io al) off 1) t) (\<lambda>v t1.
       if v = 1 then dealloc_range al ctrl t1 else (Inr (), t1)))"

definition strong_release_ctrl :: "'s allocator \<Rightarrow> 's dropper \<Rightarrow> range \<Rightarrow> 's dropper" where
  "strong_release_ctrl al drop_children data ctrl t =
     with_depth (\<lambda>t.
       try_in (counter_off (fst ctrl) CTRL_STRONG_OFFSET) t (\<lambda>off.
       try_s (on_store (fetch_sub (al_io al) off 1) t) (\<lambda>v t1.
         if v = 1 then try_s (drop_block al drop_children data t1) (\<lambda>_ t2. release_weak al ctrl t2)
         else (Inr (), t1)))) t"

definition strong_weak_ref_from_disk :: "'s allocator \<Rightarrow> range \<Rightarrow> 's thread \<Rightarrow> (range \<times> range) res \<times> 's thread" where
  "strong_weak_ref_from_disk al data t = try_s (resolve_ctrl al data t) (\<lambda>ctrl t1. (Inr (data, ctrl), t1))"

definition strong_weak_ref_drop :: "'s allocator \<Rightarrow> 's dropper \<Rightarrow> range \<times> range \<Rightarrow> 's thread \<Rightarrow> unit res \<times> 's thread" where
  "strong_weak_ref_drop al drop_children r t = strong_release_ctrl al drop_children (fst r) (snd r) t"

definition weak_ref_drop :: "'s allocator \<Rightarrow> 's dropper" where
  "weak_ref_drop al ctrl t = release_weak al ctrl t"

definition strong_core_drop :: "'s allocator \<Rightarrow> 's dropper \<Rightarrow> rc_handle \<Rightarrow> 's thread \<Rightarrow> unit res \<times> 's thread" where
  "strong_core_drop al drop_children h t =
     (case rh_ctrl h of
        None \<Rightarrow> strong_ref_drop al drop_children (rh_data h) t
      | Some ctrl \<Rightarrow> strong_release_ctrl al drop_children (rh_data h) ctrl t)"

section \<open>Strong handles\<close>

definition strong_offset :: "rc_handle \<Rightarrow> non_null_offset res" where
  "strong_offset h = try_r (strong_counter_off (fst (rh_data h)) (rh_ctrl h)) nn_from_field"

definition rc_try_clone :: "'s allocator \<Rightarrow> rc_handle \<Rightarrow> 's thread \<Rightarrow> rc_handle res \<times> 's thread" where
  "rc_try_clone al h t =
     try_in (strong_offset h) t (\<lambda>off.
     try_s (on_store (fetch_add (al_io al) off 1) t) (\<lambda>_ t1. (Inr h, t1)))"

text \<open>\<^verbatim>\<open>downgrade\<close>; \<open>None\<close> is its panic on a handle without a control block.\<close>

definition rc_downgrade :: "'s allocator \<Rightarrow> rc_handle \<Rightarrow> 's thread \<Rightarrow> (range res \<times> 's thread) option" where
  "rc_downgrade al h t =
     map_option (\<lambda>ctrl.
       try_in (counter_off (fst ctrl) CTRL_WEAK_OFFSET) t (\<lambda>off.
       try_s (on_store (fetch_add (al_io al) off 1) t) (\<lambda>_ t1. (Inr ctrl, t1)))) (rh_ctrl h)"

text \<open>The handle's \<^verbatim>\<open>Drop\<close>.\<close>

definition rc_drop :: "'s allocator \<Rightarrow> 's dropper \<Rightarrow> rc_handle \<Rightarrow> 's thread \<Rightarrow> 's thread" where
  "rc_drop al drop_children h t = auto_drop (strong_core_drop al drop_children h) t"

text \<open>\<^verbatim>\<open>try_move\<close>: \<open>Inl\<close> hands the handle back. An error before the handle is taken apart
  drops it. \<open>move\<close> is the type's \<^verbatim>\<open>bstack_move\<close>.\<close>

definition rc_try_move ::
    "'s allocator \<Rightarrow> 's dropper \<Rightarrow> (range \<Rightarrow> 's thread \<Rightarrow> 'f res \<times> 's thread) \<Rightarrow> rc_handle \<Rightarrow> 's thread
      \<Rightarrow> (rc_handle + 'f) res \<times> 's thread" where
  "rc_try_move al drop_children move h t =
     (case strong_offset h of
        Inl e \<Rightarrow> (Inl e, rc_drop al drop_children h t)
      | Inr off \<Rightarrow>
          (case on_store (rc_cas (al_io al) off 1 0) t of
             (Inl e, t1) \<Rightarrow> (Inl e, rc_drop al drop_children h t1)
           | (Inr False, t1) \<Rightarrow> (Inr (Inl h), t1)
           | (Inr True, t1) \<Rightarrow>
               try_s (move (rh_data h) t1) (\<lambda>fields t2.
                 case rh_ctrl h of
                   None \<Rightarrow> (Inr (Inr fields), t2)
                 | Some ctrl \<Rightarrow>
                     try_in (counter_off (fst ctrl) CTRL_WEAK_OFFSET) t2 (\<lambda>woff.
                     try_s (on_store (fetch_sub (al_io al) woff 1) t2) (\<lambda>v t3.
                     try_s (if v = 1 then dealloc_range al ctrl t3 else (Inr (), t3)) (\<lambda>_ t4.
                       (Inr (Inr fields), t4)))))))"

section \<open>Weak handles\<close>

text \<open>What \<^verbatim>\<open>upgrade\<close> does when the data reference cannot be read: undo the claim.\<close>

definition upgrade_undo ::
    "'s allocator \<Rightarrow> 's dropper \<Rightarrow> u64 \<Rightarrow> non_null_offset \<Rightarrow> u64 \<Rightarrow> range \<Rightarrow> io_error \<Rightarrow> 's thread
      \<Rightarrow> rc_handle option res \<times> 's thread" where
  "upgrade_undo al drop_children sz strong_off data_pos ctrl e t =
     try_s (on_store (fetch_sub (al_io al) strong_off 1) t) (\<lambda>v t1.
       if v = 1 then
         (case on_store (op_read (al_io al) data_pos 8) t1 of
            (Inl _, t2) \<Rightarrow> (Inl e, t2)
          | (Inr retry, t2) \<Rightarrow> (Inl e, snd (strong_release_ctrl al drop_children (from_le64 retry, sz) ctrl t2)))
       else (Inl e, t1))"

definition weak_upgrade ::
    "'s allocator \<Rightarrow> 's dropper \<Rightarrow> u64 \<Rightarrow> range \<Rightarrow> 's thread \<Rightarrow> rc_handle option res \<times> 's thread" where
  "weak_upgrade al drop_children sz ctrl t =
     try_in (counter_off (fst ctrl) CTRL_STRONG_OFFSET) t (\<lambda>strong_off.
     try_in (checked_off (fst ctrl) CTRL_DATA_OFFSET) t (\<lambda>data_pos.
     try_s (on_store (increment_if_nonzero (al_io al) strong_off) t) (\<lambda>claimed t1.
       if claimed = None then (Inr None, t1)
       else
         (case on_store (op_read (al_io al) data_pos 8) t1 of
            (Inl e, t2) \<Rightarrow> upgrade_undo al drop_children sz strong_off data_pos ctrl e t2
          | (Inr b, t2) \<Rightarrow> (Inr (Some \<lparr>rh_data = (from_le64 b, sz), rh_ctrl = Some ctrl\<rparr>), t2)))))"

definition weak_try_clone :: "'s allocator \<Rightarrow> range \<Rightarrow> 's thread \<Rightarrow> range res \<times> 's thread" where
  "weak_try_clone al ctrl t =
     try_in (counter_off (fst ctrl) CTRL_WEAK_OFFSET) t (\<lambda>off.
     try_s (on_store (fetch_add (al_io al) off 1) t) (\<lambda>_ t1. (Inr ctrl, t1)))"

definition weak_drop :: "'s allocator \<Rightarrow> range \<Rightarrow> 's thread \<Rightarrow> 's thread" where
  "weak_drop al ctrl t = auto_drop (weak_ref_drop al ctrl) t"

section \<open>Control blocks and weak fields\<close>

definition build_control_payload :: "eightcc \<Rightarrow> u64 \<Rightarrow> u8 list" where
  "build_control_payload ctrl_tag data_start =
     (let payload = replicate (unat CONTROL_SIZE) 0;
          payload = overwrite 0 (to_le64 CONTROL_SIZE @ cc_bytes ctrl_tag) payload;
          payload = put_u64 payload CTRL_STRONG_OFFSET 1;
          payload = put_u64 payload CTRL_WEAK_OFFSET 1 in
      put_u64 payload CTRL_DATA_OFFSET data_start)"

record 'v replace_error =
  re_source :: io_error
  re_value :: "'v option"
  re_raw_old :: "range list"

definition re_recovered :: "io_error \<Rightarrow> 'v \<Rightarrow> 'v replace_error" where
  "re_recovered e v = \<lparr>re_source = e, re_value = Some v, re_raw_old = []\<rparr>"

definition re_lost :: "io_error \<Rightarrow> 'v replace_error" where
  "re_lost e = \<lparr>re_source = e, re_value = None, re_raw_old = []\<rparr>"

definition re_lost_raw :: "io_error \<Rightarrow> range list \<Rightarrow> 'v replace_error" where
  "re_lost_raw e qs = \<lparr>re_source = e, re_value = None, re_raw_old = qs\<rparr>"

definition re_discard_freeing ::
    "('v \<Rightarrow> 's thread \<Rightarrow> unit res \<times> 's thread) \<Rightarrow> 'v replace_error \<Rightarrow> 's thread \<Rightarrow> io_error \<times> 's thread" where
  "re_discard_freeing value_drop err t =
     (re_source err, case re_value err of None \<Rightarrow> t | Some v \<Rightarrow> snd (value_drop v t))"

definition swap_u64 :: "'s stack_ops \<Rightarrow> u64 \<Rightarrow> u64 \<Rightarrow> 's \<Rightarrow> u64 res \<times> 's" where
  "swap_u64 io off v s =
     try_s (op_process io off (off + 8) (\<lambda>_. to_le64 v) s) (\<lambda>old s1. (Inr (get_u64 old), s1))"

definition set_weak_field ::
    "'s allocator \<Rightarrow> non_null_offset \<Rightarrow> range \<Rightarrow> 's thread \<Rightarrow> (range replace_error + unit) \<times> 's thread" where
  "set_weak_field al field_off new_weak t =
     (case on_store (swap_u64 (al_io al) (nn_as_u64 field_off) (fst new_weak)) t of
        (Inl e, t1) \<Rightarrow> (Inl (re_recovered e (fst new_weak, CONTROL_SIZE)), t1)
      | (Inr old, t1) \<Rightarrow>
          if old \<noteq> 0 then
            (case weak_ref_drop al (old, CONTROL_SIZE) t1 of
               (Inl e, t2) \<Rightarrow> (Inl (re_lost e), t2)
             | (Inr _, t2) \<Rightarrow> (Inr (), t2))
          else (Inr (), t1))"

definition upgrade_weak_field ::
    "'s allocator \<Rightarrow> 's dropper \<Rightarrow> u64 \<Rightarrow> non_null_offset \<Rightarrow> 's thread \<Rightarrow> rc_handle option res \<times> 's thread" where
  "upgrade_weak_field al drop_children sz field_off t =
     try_s (on_store (read_u64 (al_io al) (nn_as_u64 field_off)) t) (\<lambda>off t1.
       if off = 0 then (Inr None, t1)
       else weak_upgrade al drop_children sz (off, CONTROL_SIZE) t1)"

section \<open>References into another file\<close>

text \<open>\<open>al\<close> is the allocator of the file the target lives in. \<open>drop_strong\<close> and \<open>strong_parts\<close>
  are the type's \<^verbatim>\<open>BStackShared\<close> methods, \<open>clone_into\<close> its clone descent.\<close>

definition foreign_drop_owned :: "'s allocator \<Rightarrow> 's dropper \<Rightarrow> u64 \<Rightarrow> non_null_offset \<Rightarrow> 's thread \<Rightarrow> unit res \<times> 's thread" where
  "foreign_drop_owned al drop_children sz off t = owned_ref_drop al drop_children (nn_as_u64 off, sz) t"

definition foreign_drop_strong :: "'s dropper \<Rightarrow> u64 \<Rightarrow> non_null_offset \<Rightarrow> 's thread \<Rightarrow> unit res \<times> 's thread" where
  "foreign_drop_strong drop_strong sz off t = drop_strong (nn_as_u64 off, sz) t"

definition foreign_drop_weak :: "'s allocator \<Rightarrow> non_null_offset \<Rightarrow> 's thread \<Rightarrow> unit res \<times> 's thread" where
  "foreign_drop_weak al ctrl_off t = weak_ref_drop al (nn_as_u64 ctrl_off, CONTROL_SIZE) t"

definition foreign_clone_owned ::
    "'s allocator \<Rightarrow> (range \<Rightarrow> 's descent) \<Rightarrow> u64 \<Rightarrow> non_null_offset \<Rightarrow> 's thread \<Rightarrow> u64 res \<times> 's thread" where
  "foreign_clone_owned al clone_into sz off t =
     try_s (on_store (try_clone_in (al_io al) (clone_into (nn_as_u64 off, sz))) t) (\<lambda>q t1. (Inr (fst q), t1))"

definition foreign_clone_strong ::
    "'s allocator \<Rightarrow> (range \<Rightarrow> 's thread \<Rightarrow> (range \<times> range option) res \<times> 's thread) \<Rightarrow> u64 \<Rightarrow> non_null_offset
      \<Rightarrow> 's thread \<Rightarrow> unit res \<times> 's thread" where
  "foreign_clone_strong al strong_parts sz off t =
     try_s (strong_parts (nn_as_u64 off, sz) t) (\<lambda>(data, ctrl) t1.
     try_in (strong_counter_off (fst data) ctrl) t1 (\<lambda>coff.
     try_in (nn_from_field coff) t1 (\<lambda>counter.
     try_s (on_store (fetch_add (al_io al) counter 1) t1) (\<lambda>_ t2. (Inr (), t2)))))"

definition foreign_clone_weak :: "'s allocator \<Rightarrow> non_null_offset \<Rightarrow> 's thread \<Rightarrow> unit res \<times> 's thread" where
  "foreign_clone_weak al ctrl_off t =
     try_in (nn_checked_add ctrl_off CTRL_WEAK_OFFSET) t (\<lambda>counter.
     try_s (on_store (fetch_add (al_io al) counter 1) t) (\<lambda>_ t1. (Inr (), t1)))"

end
