(* ===== verification/RcRuns.thy ===== *)
theory RcRuns
  imports RcProps
begin

text \<open>
  Runs of operations on the handles of one shared object. \<open>rc_step\<close> performs an operation through
  the code's own functions and counts the handles that are held; \<open>rc_count\<close> is the abstract
  counter that a store without faults follows exactly.
\<close>

section \<open>Runs\<close>

datatype rc_op = CloneStrong | Downgrade | DropStrong | Upgrade | CloneWeak | DropWeak

definition shared_handle :: "range \<Rightarrow> range \<Rightarrow> rc_handle" where
  "shared_handle d c = \<lparr>rh_data = d, rh_ctrl = Some c\<rparr>"

text \<open>An operation needs a handle of its kind; without one the step does nothing.\<close>

fun rc_step :: "'s allocator \<Rightarrow> 's dropper \<Rightarrow> range \<Rightarrow> range \<Rightarrow> rc_op \<Rightarrow> (nat \<times> nat) \<times> 's thread \<Rightarrow> (nat \<times> nat) \<times> 's thread" where
  "rc_step al dc d c CloneStrong ((n, m), t) =
     (if n = 0 then ((n, m), t) else
      case rc_try_clone al (shared_handle d c) t of
        (Inl _, t') \<Rightarrow> ((n, m), t') | (Inr _, t') \<Rightarrow> ((Suc n, m), t'))"
| "rc_step al dc d c Downgrade ((n, m), t) =
     (if n = 0 then ((n, m), t) else
      case rc_downgrade al (shared_handle d c) t of
        None \<Rightarrow> ((n, m), t) | Some (Inl _, t') \<Rightarrow> ((n, m), t') | Some (Inr _, t') \<Rightarrow> ((n, Suc m), t'))"
| "rc_step al dc d c DropStrong ((n, m), t) =
     (if n = 0 then ((n, m), t) else ((n - 1, m), rc_drop al dc (shared_handle d c) t))"
| "rc_step al dc d c Upgrade ((n, m), t) =
     (if m = 0 then ((n, m), t) else
      case weak_upgrade al dc (snd d) c t of
        (Inr (Some _), t') \<Rightarrow> ((Suc n, m), t') | (_, t') \<Rightarrow> ((n, m), t'))"
| "rc_step al dc d c CloneWeak ((n, m), t) =
     (if m = 0 then ((n, m), t) else
      case weak_try_clone al c t of
        (Inl _, t') \<Rightarrow> ((n, m), t') | (Inr _, t') \<Rightarrow> ((n, Suc m), t'))"
| "rc_step al dc d c DropWeak ((n, m), t) =
     (if m = 0 then ((n, m), t) else ((n, m - 1), weak_drop al c t))"

fun rc_run :: "'s allocator \<Rightarrow> 's dropper \<Rightarrow> range \<Rightarrow> range \<Rightarrow> rc_op list \<Rightarrow> (nat \<times> nat) \<times> 's thread \<Rightarrow> (nat \<times> nat) \<times> 's thread" where
  "rc_run al dc d c [] x = x"
| "rc_run al dc d c (op # ops) x = rc_run al dc d c ops (rc_step al dc d c op x)"

fun rc_count :: "rc_op \<Rightarrow> nat \<times> nat \<Rightarrow> nat \<times> nat" where
  "rc_count CloneStrong (n, m) = (if n = 0 then (n, m) else (Suc n, m))"
| "rc_count Downgrade (n, m) = (if n = 0 then (n, m) else (n, Suc m))"
| "rc_count DropStrong (n, m) = (n - 1, m)"
| "rc_count Upgrade (n, m) = (if n = 0 \<or> m = 0 then (n, m) else (Suc n, m))"
| "rc_count CloneWeak (n, m) = (if m = 0 then (n, m) else (n, Suc m))"
| "rc_count DropWeak (n, m) = (n, m - 1)"

text \<open>The exact state: the counters are the numbers of handles, and the blocks are there exactly as
  long as they are needed.\<close>

definition shared_exact ::
    "'s stack_view \<Rightarrow> range \<Rightarrow> range \<Rightarrow> range set \<Rightarrow> nat \<Rightarrow> nat \<Rightarrow> 's thread \<Rightarrow> bool" where
  "shared_exact vw d c R n m t \<longleftrightarrow> resting vw t \<and> th_depth t = 0 \<and> v_calm vw (th_store t)
     \<and> (if n = 0 then insert d R \<inter> t_live vw t = {} else insert d R \<subseteq> t_live vw t)
     \<and> (if n = 0 \<and> m = 0 then c \<notin> t_live vw t
        else c \<in> t_live vw t \<and> unat (strong_of vw c t) = n \<and> unat (weak_of vw c t) = m + of_bool (0 < n))
     \<and> (0 < n \<longrightarrow> data_of vw c t = fst d)"

text \<open>The blocks of a list of owned subtrees.\<close>

definition blocks_of :: "owned list \<Rightarrow> range set" where
  "blocks_of ks = set (concat (map frees_of ks))"

context stack_laws
begin

lemma rc_step_inv:
  assumes al: "al_io al = io" and td: "tears_down vw R dc" and cb: "control_block d c R"
    and inv: "shared_inv vw d c R b n m t" and run: "rc_step al dc d c op ((n, m), t) = ((n', m'), t')"
  shows "shared_inv vw d c R b n' m' t'"
proof (cases op)
  case CloneStrong
  obtain r t1 where s: "rc_try_clone al (shared_handle d c) t = (r, t1)" by (cases "rc_try_clone al (shared_handle d c) t")
  with run CloneStrong inv rc_try_clone_inv [OF al cb, of b n m t r t1] show ?thesis
    by (cases r) (auto simp: shared_inv_def shared_handle_def split: if_splits)
next
  case Downgrade
  obtain r t1 where s: "rc_downgrade al (shared_handle d c) t = Some (r, t1)"
    by (cases "rc_downgrade al (shared_handle d c) t") (auto simp: rc_downgrade_def shared_handle_def)
  with run Downgrade inv downgrade_inv [OF al cb, of b n m t r t1] show ?thesis
    by (cases r) (auto simp: shared_inv_def shared_handle_def split: if_splits)
next
  case DropStrong
  obtain r t1 where s: "strong_release_ctrl al dc d c t = (r, t1)" by (cases "strong_release_ctrl al dc d c t")
  show ?thesis
  proof (cases "n = 0")
    case False
    with run DropStrong s have "n' = n - 1" "m' = m" "t' = t1"
      by (simp_all add: rc_drop_def auto_drop_def strong_core_drop_def shared_handle_def)
    with strong_release_inv [OF al td cb inv _ s] False show ?thesis by simp
  qed (use run DropStrong inv in simp)
next
  case Upgrade
  obtain r t1 where s: "weak_upgrade al dc (snd d) c t = (r, t1)" by (cases "weak_upgrade al dc (snd d) c t")
  with run Upgrade inv weak_upgrade_inv [OF al cb, of b n m t dc r t1] show ?thesis
    by (auto simp: shared_inv_def split: if_splits sum.splits option.splits)
next
  case CloneWeak
  obtain r t1 where s: "weak_try_clone al c t = (r, t1)" by (cases "weak_try_clone al c t")
  with run CloneWeak inv weak_try_clone_inv [OF al cb, of b n m t r t1] show ?thesis
    by (cases r) (auto simp: shared_inv_def split: if_splits)
next
  case DropWeak
  obtain r t1 where s: "release_weak al c t = (r, t1)" by (cases "release_weak al c t")
  with run DropWeak inv weak_release_inv [OF al cb, of b n m t r t1] show ?thesis
    by (auto simp: shared_inv_def weak_drop_def auto_drop_def weak_ref_drop_def split: if_splits)
qed

lemma rc_run_inv:
  assumes al: "al_io al = io" and td: "tears_down vw R dc" and cb: "control_block d c R"
  shows "shared_inv vw d c R b n m t \<Longrightarrow> rc_run al dc d c ops ((n, m), t) = ((n', m'), t') \<Longrightarrow>
    shared_inv vw d c R b n' m' t'"
proof (induction ops arbitrary: n m t)
  case (Cons op ops)
  obtain n1 m1 t1 where s: "rc_step al dc d c op ((n, m), t) = ((n1, m1), t1)"
    by (metis surj_pair)
  from rc_step_inv [OF al td cb Cons.prems(1) s] Cons.IH [of n1 m1 t1] Cons.prems(2) s show ?case by simp
qed simp

section \<open>Without faults\<close>

lemma on_store_calm: "f (th_store t) = (r, s') \<Longrightarrow> on_store f t = (r, t\<lparr>th_store := s'\<rparr>)"
  by (simp add: on_store_def)

lemma counters_calm:
  assumes t: "resting vw t" and cl: "v_calm vw (th_store t)" and c: "c \<in> t_live vw t" "snd c = CONTROL_SIZE"
  shows "unat (strong_of vw c t) + 1 < u64_limit \<Longrightarrow>
      \<exists>t'. on_store (fetch_add io (NonNullOffset (fst c + 16)) 1) t = (Inr (strong_of vw c t), t')
        \<and> v_calm vw (th_store t') \<and> counted vw c (strong_of vw c t + 1) (weak_of vw c t) t t'"
    and "unat (weak_of vw c t) + 1 < u64_limit \<Longrightarrow>
      \<exists>t'. on_store (fetch_add io (NonNullOffset (fst c + 24)) 1) t = (Inr (weak_of vw c t), t')
        \<and> v_calm vw (th_store t') \<and> counted vw c (strong_of vw c t) (weak_of vw c t + 1) t t'"
    and "0 < unat (strong_of vw c t) \<Longrightarrow>
      \<exists>t'. on_store (fetch_sub io (NonNullOffset (fst c + 16)) 1) t = (Inr (strong_of vw c t), t')
        \<and> v_calm vw (th_store t') \<and> counted vw c (strong_of vw c t - 1) (weak_of vw c t) t t'"
    and "0 < unat (weak_of vw c t) \<Longrightarrow>
      \<exists>t'. on_store (fetch_sub io (NonNullOffset (fst c + 24)) 1) t = (Inr (weak_of vw c t), t')
        \<and> v_calm vw (th_store t') \<and> counted vw c (strong_of vw c t) (weak_of vw c t - 1) t t'"
proof -
  have g: "v_good vw (th_store t)" using t by (simp add: resting_def)
  note o1 = ctrl_offs(2) [OF t c] and o2 = ctrl_offs(4) [OF t c] and b = ctrl_bounds(2) [OF t c]
  have le: "unat (fst c + 16) + 8 \<le> length (t_bytes vw t)" "unat (fst c + 24) + 8 \<le> length (t_bytes vw t)"
    using b by (simp_all add: o1 o2)
  note words = strong_of_def [symmetric] weak_of_def [symmetric]
  show "\<exists>t'. on_store (fetch_add io (NonNullOffset (fst c + 16)) 1) t = (Inr (strong_of vw c t), t')
      \<and> v_calm vw (th_store t') \<and> counted vw c (strong_of vw c t + 1) (weak_of vw c t) t t'"
    if lim: "unat (strong_of vw c t) + 1 < u64_limit"
  proof -
    obtain s' where "fetch_add io (NonNullOffset (fst c + 16)) 1 (th_store t) = (Inr (strong_of vw c t), s')" "v_calm vw s'"
      using fetch_add_calm [OF g cl le(1), of 1] lim by (auto simp: o1 words)
    note f = this(2) on_store_calm [of "fetch_add io (NonNullOffset (fst c + 16)) 1", OF this(1)]
    from strong_add [OF t c f(2)] f show ?thesis by (intro exI conjI) auto
  qed
  show "\<exists>t'. on_store (fetch_add io (NonNullOffset (fst c + 24)) 1) t = (Inr (weak_of vw c t), t')
      \<and> v_calm vw (th_store t') \<and> counted vw c (strong_of vw c t) (weak_of vw c t + 1) t t'"
    if lim: "unat (weak_of vw c t) + 1 < u64_limit"
  proof -
    obtain s' where "fetch_add io (NonNullOffset (fst c + 24)) 1 (th_store t) = (Inr (weak_of vw c t), s')" "v_calm vw s'"
      using fetch_add_calm [OF g cl le(2), of 1] lim by (auto simp: o2 words)
    note f = this(2) on_store_calm [of "fetch_add io (NonNullOffset (fst c + 24)) 1", OF this(1)]
    from weak_add [OF t c f(2)] f show ?thesis by (intro exI conjI) auto
  qed
  show "\<exists>t'. on_store (fetch_sub io (NonNullOffset (fst c + 16)) 1) t = (Inr (strong_of vw c t), t')
      \<and> v_calm vw (th_store t') \<and> counted vw c (strong_of vw c t - 1) (weak_of vw c t) t t'"
    if lim: "0 < unat (strong_of vw c t)"
  proof -
    obtain s' where "fetch_sub io (NonNullOffset (fst c + 16)) 1 (th_store t) = (Inr (strong_of vw c t), s')" "v_calm vw s'"
      using fetch_sub_calm [OF g cl le(1), of 1] lim by (auto simp: o1 words)
    note f = this(2) on_store_calm [of "fetch_sub io (NonNullOffset (fst c + 16)) 1", OF this(1)]
    from strong_sub [OF t c f(2)] f show ?thesis by (intro exI conjI) auto
  qed
  show "\<exists>t'. on_store (fetch_sub io (NonNullOffset (fst c + 24)) 1) t = (Inr (weak_of vw c t), t')
      \<and> v_calm vw (th_store t') \<and> counted vw c (strong_of vw c t) (weak_of vw c t - 1) t t'"
    if lim: "0 < unat (weak_of vw c t)"
  proof -
    obtain s' where "fetch_sub io (NonNullOffset (fst c + 24)) 1 (th_store t) = (Inr (weak_of vw c t), s')" "v_calm vw s'"
      using fetch_sub_calm [OF g cl le(2), of 1] lim by (auto simp: o2 words)
    note f = this(2) on_store_calm [of "fetch_sub io (NonNullOffset (fst c + 24)) 1", OF this(1)]
    from weak_sub [OF t c f(2)] f show ?thesis by (intro exI conjI) auto
  qed
qed

lemma dealloc_range_calm:
  assumes al: "al_io al = io" and t: "resting vw t" and cl: "v_calm vw (th_store t)" and q: "q \<in> t_live vw t"
  shows "\<exists>t'. dealloc_range al q t = (Inr (), t') \<and> v_calm vw (th_store t') \<and> resting vw t'
    \<and> th_depth t' = th_depth t \<and> t_live vw t' = t_live vw t - {q}
    \<and> same_on (t_live vw t - {q}) (t_bytes vw t) (t_bytes vw t')"
proof -
  have g: "v_good vw (th_store t)" and none: "th_sink t = None" using t by (simp_all add: resting_def)
  obtain s' where d: "op_dealloc io q (th_store t) = (Inr (), s')" "v_calm vw s'" using calm_dealloc [OF g cl q] by blast
  have run: "dealloc_range al q t = (Inr (), t\<lparr>th_store := s'\<rparr>)"
    using none al on_store_calm [of "op_dealloc io q", OF d(1)]
    by (simp add: dealloc_range_def sink_dealloc_def sink_collect_def)
  have "v_live vw s' = t_live vw t - {q}" using dealloc_law [OF g q d(1)] by (auto simp: relived_def)
  with run d(2) dealloc_range_ok [OF al t q run] show ?thesis by auto
qed

lemma release_weak_calm:
  assumes al: "al_io al = io" and t: "resting vw t" and cl: "v_calm vw (th_store t)"
    and c: "c \<in> t_live vw t" "snd c = CONTROL_SIZE" and k: "unat (weak_of vw c t) = Suc k"
  shows "\<exists>t'. release_weak al c t = (Inr (), t') \<and> v_calm vw (th_store t') \<and> resting vw t'
    \<and> th_depth t' = th_depth t \<and> t_live vw t' = (if k = 0 then t_live vw t - {c} else t_live vw t)
    \<and> (0 < k \<longrightarrow> strong_of vw c t' = strong_of vw c t \<and> data_of vw c t' = data_of vw c t \<and> unat (weak_of vw c t') = k)"
proof -
  let ?w = "weak_of vw c t"
  obtain t1 where sub: "on_store (fetch_sub io (NonNullOffset (fst c + 24)) 1) t = (Inr ?w, t1)"
    and cl1: "v_calm vw (th_store t1)" and ct: "counted vw c (strong_of vw c t) (?w - 1) t t1"
    using counters_calm(4) [OF t cl c] k by auto
  have run: "release_weak al c t = (if ?w = 1 then dealloc_range al c t1 else (Inr (), t1))"
    using sub al ctrl_offs(3) [OF t c] by (simp add: release_weak_def)
  have one: "?w = 1 \<longleftrightarrow> k = 0" using k by (auto simp: word_unat_eq_iff)
  have rt1: "resting vw t1" and l1: "t_live vw t1 = t_live vw t" and d1: "th_depth t1 = th_depth t"
    using ct by (auto simp: counted_def)
  show ?thesis
  proof (cases "k = 0")
    case True
    have "c \<in> t_live vw t1" using c l1 by simp
    from dealloc_range_calm [OF al rt1 cl1 this] show ?thesis using run one True l1 d1 by auto
  next
    case False
    have "unat (?w - 1) = k" using k by (subst unat_minus_one) auto
    with run one False ct cl1 show ?thesis by (auto simp: counted_def)
  qed
qed

lemma exact_counted:
  assumes ex: "shared_exact vw d c R n m t" and held: "0 < n \<or> 0 < m" and ct: "counted vw c s w t t'"
    and cl: "v_calm vw (th_store t')" and n: "unat s = n'" and w: "unat w = m' + of_bool (0 < n')"
    and z: "n' = 0 \<longleftrightarrow> n = 0" and held': "0 < n' \<or> 0 < m'"
  shows "shared_exact vw d c R n' m' t'"
proof (cases "n = 0")
  case True
  then have "n' = 0" "0 < m" "0 < m'" using z held held' by simp_all
  with True ex ct cl n w show ?thesis unfolding shared_exact_def counted_def by simp
next
  case False
  then have "0 < n'" using z by simp
  with False ex ct cl n w show ?thesis unfolding shared_exact_def counted_def by simp
qed

lemma exact_facts:
  assumes "shared_exact vw d c R n m t" and "control_block d c R" and "0 < n \<or> 0 < m"
  shows "resting vw t" "v_calm vw (th_store t)" "c \<in> t_live vw t" "snd c = CONTROL_SIZE"
    "unat (strong_of vw c t) = n" "unat (weak_of vw c t) = m + of_bool (0 < n)" "th_depth t = 0"
  using assms by (auto simp: shared_exact_def control_block_def)

lemma frees_calm_seq:
  assumes f: "frees vw R f" "frees_calm vw h R f" and g: "frees_calm vw h' S g" and d: "R \<inter> S = {}"
  shows "frees_calm vw (max h h') (R \<union> S) (\<lambda>t. try_s (f t) (\<lambda>_ t1. g t1))"
  unfolding frees_calm_def
proof (intro allI impI)
  fix t
  assume t: "resting vw t" "v_calm vw (th_store t)" "unat (th_depth t) + max h h' \<le> 500" and live: "R \<union> S \<subseteq> t_live vw t"
  have R: "R \<subseteq> t_live vw t" and dp: "unat (th_depth t) \<le> 500" "unat (th_depth t) + h \<le> 500" using live t by simp_all
  obtain t1 where ft: "f t = (Inr (), t1)" and cl1: "v_calm vw (th_store t1)" and l1: "t_live vw t1 = t_live vw t - R"
    using f(2) t(1,2) dp(2) R unfolding frees_calm_def by blast
  note one = freesD [OF f(1) ft t(1) dp(1) R]
  have "S \<subseteq> t_live vw t1" "unat (th_depth t1) + h' \<le> 500" using live l1 d t(3) one(2) by auto
  then obtain t2 where "g t1 = (Inr (), t2)" "v_calm vw (th_store t2)" "t_live vw t2 = t_live vw t1 - S"
    using g one(1) cl1 unfolding frees_calm_def by blast
  with ft l1 show "\<exists>t'. try_s (f t) (\<lambda>_ t1. g t1) = (Inr (), t') \<and> v_calm vw (th_store t') \<and> t_live vw t' = t_live vw t - (R \<union> S)"
    by (auto simp: Diff_Un Diff_Int2)
qed

lemma frees_calm_dealloc: "al_io al = io \<Longrightarrow> frees_calm vw 0 {q} (dealloc_range al q)"
  using dealloc_range_calm [of al _ q] unfolding frees_calm_def by blast

lemma frees_calm_block:
  "al_io al = io \<Longrightarrow> frees vw R (dc q) \<Longrightarrow> frees_calm vw h R (dc q) \<Longrightarrow> q \<notin> R \<Longrightarrow>
    frees_calm vw h (insert q R) (drop_block al dc q)"
  using frees_calm_seq [OF _ _ frees_calm_dealloc, of R "dc q" h al q] by (simp add: drop_block_def [abs_def])

lemma drop_block_calm:
  assumes al: "al_io al = io" and td: "tears_down vw R dc" and tc: "tears_down_calm vw R dc" and d: "d \<notin> R"
    and t: "resting vw t" and cl: "v_calm vw (th_store t)" and dp: "th_depth t = 1" and live: "insert d R \<subseteq> t_live vw t"
  shows "\<exists>t'. drop_block al dc d t = (Inr (), t') \<and> v_calm vw (th_store t') \<and> t_live vw t' = t_live vw t - insert d R"
proof -
  have "frees_calm vw 499 (insert d R) (drop_block al dc d)"
    using frees_calm_block [OF al td [unfolded tears_down_def, rule_format] tc [unfolded tears_down_calm_def, rule_format] d] .
  moreover have "unat (th_depth t) + 499 \<le> 500" using dp by simp
  ultimately show ?thesis using t cl live unfolding frees_calm_def by blast
qed

lemma strong_drop_exact:
  assumes al: "al_io al = io" and td: "tears_down vw R dc" and tc: "tears_down_calm vw R dc" and cb: "control_block d c R"
    and ex: "shared_exact vw d c R n m t" and n: "0 < n"
  shows "\<exists>t'. strong_release_ctrl al dc d c t = (Inr (), t') \<and> shared_exact vw d c R (n - 1) m t'"
proof -
  let ?t0 = "t\<lparr>th_depth := 1\<rparr>"
  note f = exact_facts [OF ex cb, OF disjI1, OF n]
  have t0: "resting vw ?t0" "v_calm vw (th_store ?t0)" "c \<in> t_live vw ?t0" using f by simp_all
  have live: "insert d R \<subseteq> t_live vw t" using ex n by (simp add: shared_exact_def)
  obtain t1 where sub: "on_store (fetch_sub io (NonNullOffset (fst c + 16)) 1) ?t0 = (Inr (strong_of vw c t), t1)"
    and cl1: "v_calm vw (th_store t1)" and ct: "counted vw c (strong_of vw c t - 1) (weak_of vw c t) ?t0 t1"
    using counters_calm(3) [OF t0 f(4)] f(5) n by auto
  have leave: "\<exists>t'. strong_release_ctrl al dc d c t = (Inr (), t') \<and> shared_exact vw d c R (n - 1) m t'"
    if "(if strong_of vw c t = 1 then try_s (drop_block al dc d t1) (\<lambda>_. release_weak al c) else (Inr (), t1)) = (Inr (), t2)"
      and "th_depth t2 = 1" and "shared_exact vw d c R (n - 1) m (t2\<lparr>th_depth := 0\<rparr>)" for t2
    using that sub al ctrl_offs(1) [OF t0(1,3) f(4)] depth_enter_ok(1) [of t] f(7)
    by (simp add: strong_release_ctrl_def with_depth_def depth_leave_one)
  have rt1: "resting vw t1" and l1: "t_live vw t1 = t_live vw t" and dp1: "th_depth t1 = 1"
    and s1: "strong_of vw c t1 = strong_of vw c t - 1" and w1: "weak_of vw c t1 = weak_of vw c t"
    using ct by (auto simp: counted_def)
  have us: "unat (strong_of vw c t - 1) = n - 1" using f(5) n by (subst unat_minus_one) auto
  have one: "strong_of vw c t = 1 \<longleftrightarrow> n = 1" using f(5) by (auto simp: word_unat_eq_iff)
  show ?thesis
  proof (cases "n = 1")
    case False
    have "counted vw c (strong_of vw c t - 1) (weak_of vw c t) t (t1\<lparr>th_depth := 0\<rparr>)"
      using ct f(7) by (simp add: counted_def ctrl_words resting_def)
    then have "shared_exact vw d c R (n - 1) m (t1\<lparr>th_depth := 0\<rparr>)"
      by (rule exact_counted [OF ex disjI1, OF n]) (use cl1 us f(6) n False in auto)
    with leave [of t1] one False dp1 show ?thesis by simp
  next
    case True
    have dR: "d \<notin> R" and cK: "c \<in> t_live vw t1 - insert d R" using cb f(3) l1 by (auto simp: control_block_def)
    have live1: "insert d R \<subseteq> t_live vw t1" using live l1 by simp
    obtain t3 where db: "drop_block al dc d t1 = (Inr (), t3)" and cl3: "v_calm vw (th_store t3)"
      and l3: "t_live vw t3 = t_live vw t1 - insert d R"
      using drop_block_calm [OF al td tc dR rt1 cl1 dp1 live1] by blast
    note b3 = drop_block_ok [OF al td dR rt1 dp1 live1 db]
    then have rt3: "resting vw t3" and dp3: "th_depth t3 = 1"
      and same: "same_on (t_live vw t1 - insert d R) (t_bytes vw t1) (t_bytes vw t3)" using dp1 by auto
    note kept = words_kept [OF same cK f(4)]
    have w3: "unat (weak_of vw c t3) = Suc m" using kept w1 f(6) True by simp
    have c3: "c \<in> t_live vw t3" using cK l3 by simp
    obtain t2 where rw: "release_weak al c t3 = (Inr (), t2)" and cl2: "v_calm vw (th_store t2)" and rt2: "resting vw t2"
      and dp2: "th_depth t2 = 1" and l2: "t_live vw t2 = (if m = 0 then t_live vw t3 - {c} else t_live vw t3)"
      and e2: "0 < m \<longrightarrow> strong_of vw c t2 = strong_of vw c t3 \<and> unat (weak_of vw c t2) = m"
      using release_weak_calm [OF al rt3 cl3 c3 f(4) w3] dp3 by auto
    have "unat (strong_of vw c t3) = 0" using kept s1 us True by simp
    then have "shared_exact vw d c R (n - 1) m (t2\<lparr>th_depth := 0\<rparr>)"
      using rt2 cl2 l2 l3 c3 e2 True by (auto simp: shared_exact_def)
    with leave [of t2] one True db rw dp2 show ?thesis by simp
  qed
qed

lemma weak_drop_exact:
  assumes al: "al_io al = io" and cb: "control_block d c R" and ex: "shared_exact vw d c R n m t" and m: "0 < m"
  shows "\<exists>t'. release_weak al c t = (Inr (), t') \<and> shared_exact vw d c R n (m - 1) t'"
proof -
  note f = exact_facts [OF ex cb, OF disjI2, OF m]
  have k: "unat (weak_of vw c t) = Suc (m - 1 + of_bool (0 < n))" using f(6) m by simp
  obtain t' where rw: "release_weak al c t = (Inr (), t')" and r: "v_calm vw (th_store t')" "resting vw t'" "th_depth t' = th_depth t"
    and l: "t_live vw t' = (if m - 1 + of_bool (0 < n) = 0 then t_live vw t - {c} else t_live vw t)"
    and w: "0 < m - 1 + of_bool (0 < n) \<longrightarrow> strong_of vw c t' = strong_of vw c t \<and> data_of vw c t' = data_of vw c t
      \<and> unat (weak_of vw c t') = m - 1 + of_bool (0 < n)"
    using release_weak_calm [OF al f(1-4) k] by auto
  have "shared_exact vw d c R n (m - 1) t'"
  proof (cases "0 < n \<or> 0 < m - 1")
    case True
    then have k0: "0 < m - 1 + of_bool (0 < n)" by auto
    then have nz: "(m - 1 + of_bool (0 < n) = 0) = False" by (simp only: neq0_conv [symmetric] simp_thms)
    have "t_live vw t' = t_live vw t" using l unfolding nz by simp
    moreover have "strong_of vw c t' = strong_of vw c t" "data_of vw c t' = data_of vw c t"
      "unat (weak_of vw c t') = m - 1 + of_bool (0 < n)" using w k0 by blast+
    ultimately show ?thesis using True r f(3,5,7) ex unfolding shared_exact_def by (cases "n = 0") auto
  next
    case False
    then have "t_live vw t' = t_live vw t - {c}" "n = 0" "m - 1 = 0" using l by simp_all
    with r f(7) ex show ?thesis unfolding shared_exact_def by auto
  qed
  with rw show ?thesis by blast
qed

lemma clone_exact:
  assumes al: "al_io al = io" and cb: "control_block d c R" and ex: "shared_exact vw d c R n m t" and n: "0 < n"
    and lim: "Suc n < u64_limit"
  shows "\<exists>h t'. rc_try_clone al (shared_handle d c) t = (Inr h, t') \<and> shared_exact vw d c R (Suc n) m t'"
proof -
  note f = exact_facts [OF ex cb, OF disjI1, OF n]
  obtain t' where add: "on_store (fetch_add io (NonNullOffset (fst c + 16)) 1) t = (Inr (strong_of vw c t), t')"
    and cl: "v_calm vw (th_store t')" and ct: "counted vw c (strong_of vw c t + 1) (weak_of vw c t) t t'"
    using counters_calm(1) [OF f(1-4)] f(5) lim by auto
  have "strong_offset (shared_handle d c) = Inr (NonNullOffset (fst c + 16))"
    using ctrl_offs(1) [OF f(1,3,4)] by (simp add: strong_offset_def strong_counter_off_def counter_off_def shared_handle_def)
  moreover have "shared_exact vw d c R (Suc n) m t'"
    by (rule exact_counted [OF ex _ ct cl]) (use f n lim unat_inc [of "strong_of vw c t"] in auto)
  ultimately show ?thesis using add al by (simp add: rc_try_clone_def)
qed

lemma weak_acquire_exact:
  assumes cb: "control_block d c R" and ex: "shared_exact vw d c R n m t" and held: "0 < n \<or> 0 < m"
    and lim: "Suc (Suc m) < u64_limit"
  shows "\<exists>t'. on_store (fetch_add io (NonNullOffset (fst c + 24)) 1) t = (Inr (weak_of vw c t), t')
    \<and> shared_exact vw d c R n (Suc m) t'"
proof -
  note f = exact_facts [OF ex cb held]
  have w: "unat (weak_of vw c t) + 1 < u64_limit" using f(6) lim by auto
  obtain t' where add: "on_store (fetch_add io (NonNullOffset (fst c + 24)) 1) t = (Inr (weak_of vw c t), t')"
    and cl: "v_calm vw (th_store t')" and ct: "counted vw c (strong_of vw c t) (weak_of vw c t + 1) t t'"
    using counters_calm(2) [OF f(1-4) w] by auto
  have "shared_exact vw d c R n (Suc m) t'"
    by (rule exact_counted [OF ex held ct cl]) (use f unat_inc [OF w] in auto)
  with add show ?thesis by blast
qed

lemma upgrade_exact:
  assumes al: "al_io al = io" and cb: "control_block d c R" and ex: "shared_exact vw d c R n m t" and m: "0 < m"
    and lim: "Suc n < u64_limit"
  shows "\<exists>t'. weak_upgrade al dc (snd d) c t = (Inr (if n = 0 then None else Some (shared_handle d c)), t')
    \<and> shared_exact vw d c R (if n = 0 then 0 else Suc n) m t'"
proof -
  note f = exact_facts [OF ex cb, OF disjI2, OF m]
  have g: "v_good vw (th_store t)" using f(1) by (simp add: resting_def)
  note b = ctrl_bounds(2) [OF f(1,3,4)] and o = ctrl_offs [OF f(1,3,4)]
  let ?s = "strong_of vw c t"
  obtain s1 where i: "increment_if_nonzero io (NonNullOffset (fst c + 16)) (th_store t)
      = (Inr (if ?s = 0 then None else Some (?s + 1)), s1)" "v_calm vw s1"
    using increment_calm [OF g f(2), of "fst c + 16"] b f(5) lim by (auto simp: o(2) strong_of_def)
  define t1 where "t1 = t\<lparr>th_store := s1\<rparr>"
  have inc: "on_store (increment_if_nonzero io (NonNullOffset (fst c + 16))) t
      = (Inr (if ?s = 0 then None else Some (?s + 1)), t1)"
    using on_store_calm [of "increment_if_nonzero io (NonNullOffset (fst c + 16))", OF i(1)] by (simp add: t1_def)
  have cl1: "v_calm vw (th_store t1)" using i(2) by (simp add: t1_def)
  note law = strong_claim [OF f(1,3,4) inc]
  have sz: "?s = 0 \<longleftrightarrow> n = 0" using f(5) by (auto simp: word_unat_eq_iff)
  show ?thesis
  proof (cases "n = 0")
    case True
    then have "counted vw c ?s (weak_of vw c t) t t1" using law sz by simp
    then have "shared_exact vw d c R 0 m t1"
      by (rule exact_counted [OF ex disjI2, OF m _ cl1]) (use f True m in auto)
    moreover have "weak_upgrade al dc (snd d) c t = (Inr None, t1)"
      using inc al o(1,5) True sz by (simp add: weak_upgrade_def del: checked_off_Inr)
    ultimately show ?thesis using True by simp
  next
    case False
    then have ct: "counted vw c (?s + 1) (weak_of vw c t) t t1" using law sz by simp
    have us: "unat (?s + 1) = Suc n" using unat_inc [of ?s] f(5) lim by simp
    have ex1: "shared_exact vw d c R (Suc n) m t1"
      by (rule exact_counted [OF ex disjI2, OF m ct cl1]) (use f us m False in auto)
    note f1 = exact_facts [OF ex1 cb, OF disjI2, OF m]
    have g1: "v_good vw (th_store t1)" using f1(1) by (simp add: resting_def)
    obtain b' s2 where r: "op_read io (fst c + 32) 8 (th_store t1) = (Inr b', s2)" "v_calm vw s2"
      using calm_read [OF g1 cl1, of "fst c + 32" 8] ctrl_bounds(2) [OF f1(1,3,4)] by (auto simp: o(6))
    define t2 where "t2 = t1\<lparr>th_store := s2\<rparr>"
    have rd: "on_store (op_read io (fst c + 32) 8) t1 = (Inr b', t2)"
      using on_store_calm [of "op_read io (fst c + 32) 8", OF r(1)] by (simp add: t2_def)
    have cl2: "v_calm vw (th_store t2)" using r(2) by (simp add: t2_def)
    have ct2: "counted vw c (strong_of vw c t1) (weak_of vw c t1) t1 t2" and d: "from_le64 b' = data_of vw c t1"
      using read_data [OF f1(1,3,4) rd] by auto
    have "shared_exact vw d c R (Suc n) m t2"
      by (rule exact_counted [OF ex1 disjI2, OF m ct2 cl2]) (use f1 m in auto)
    moreover have "data_of vw c t1 = fst d" using ex1 by (simp add: shared_exact_def)
    ultimately show ?thesis
      using False inc rd al o(1,5) sz d by (auto simp: weak_upgrade_def shared_handle_def simp del: checked_off_Inr)
  qed
qed

lemma rc_step_exact:
  assumes al: "al_io al = io" and td: "tears_down vw R dc" and tc: "tears_down_calm vw R dc" and cb: "control_block d c R"
    and ex: "shared_exact vw d c R n m t" and lim: "Suc n < u64_limit" "Suc (Suc m) < u64_limit"
    and cnt: "rc_count op (n, m) = (n', m')"
  shows "\<exists>t'. rc_step al dc d c op ((n, m), t) = ((n', m'), t') \<and> shared_exact vw d c R n' m' t'"
proof (cases op)
  case CloneStrong
  with cnt ex clone_exact [OF al cb ex _ lim(1)] show ?thesis by (cases "n = 0") auto
next
  case Downgrade
  show ?thesis
  proof (cases "n = 0")
    case False
    then have held: "0 < n \<or> 0 < m" by simp
    note f = exact_facts [OF ex cb held]
    from weak_acquire_exact [OF cb ex held lim(2)] ctrl_offs(3) [OF f(1,3,4)] cnt Downgrade False al show ?thesis
      by (auto simp: rc_downgrade_def shared_handle_def)
  qed (use cnt Downgrade ex in auto)
next
  case DropStrong
  with cnt ex strong_drop_exact [OF al td tc cb ex] show ?thesis
    by (cases "n = 0") (auto simp: rc_drop_def auto_drop_def strong_core_drop_def shared_handle_def)
next
  case Upgrade
  with cnt ex upgrade_exact [OF al cb ex _ lim(1), of dc] show ?thesis
    by (cases "m = 0") (auto split: if_splits)
next
  case CloneWeak
  show ?thesis
  proof (cases "m = 0")
    case False
    then have held: "0 < n \<or> 0 < m" by simp
    note f = exact_facts [OF ex cb held]
    from weak_acquire_exact [OF cb ex held lim(2)] ctrl_offs(3) [OF f(1,3,4)] cnt CloneWeak False al show ?thesis
      by (auto simp: weak_try_clone_def)
  qed (use cnt CloneWeak ex in auto)
next
  case DropWeak
  with cnt ex weak_drop_exact [OF al cb ex] show ?thesis
    by (cases "m = 0") (auto simp: weak_drop_def auto_drop_def weak_ref_drop_def)
qed

lemma rc_count_grows: "rc_count op (n, m) = (n', m') \<Longrightarrow> n' + m' \<le> Suc (n + m)"
  by (cases op) (auto split: if_splits)

lemma rc_run_exact:
  assumes al: "al_io al = io" and td: "tears_down vw R dc" and tc: "tears_down_calm vw R dc" and cb: "control_block d c R"
  shows "shared_exact vw d c R n m t \<Longrightarrow> n + m + length ops + 2 < u64_limit \<Longrightarrow> fold rc_count ops (n, m) = (n', m') \<Longrightarrow>
    \<exists>t'. rc_run al dc d c ops ((n, m), t) = ((n', m'), t') \<and> shared_exact vw d c R n' m' t'"
proof (induction ops arbitrary: n m t)
  case (Cons op ops)
  obtain n1 m1 where c1: "rc_count op (n, m) = (n1, m1)" by (cases "rc_count op (n, m)")
  obtain t1 where "rc_step al dc d c op ((n, m), t) = ((n1, m1), t1)" "shared_exact vw d c R n1 m1 t1"
    using rc_step_exact [OF al td tc cb Cons.prems(1) _ _ c1] Cons.prems(2) by auto
  with Cons.IH [of n1 m1 t1] Cons.prems(2,3) c1 rc_count_grows [OF c1] show ?case by auto
qed auto

section \<open>Owned subtrees as children\<close>

lemma frees_depth:
  assumes f: "frees vw R f"
  shows "frees vw R (with_depth f)"
  unfolding frees_def
proof (intro allI impI)
  fix t r t'
  assume run: "with_depth f t = (r, t')" and t: "resting vw t" "unat (th_depth t) \<le> 500" and live: "R \<subseteq> t_live vw t"
  show "resting vw t' \<and> th_depth t' = th_depth t \<and> t_live vw t - R \<subseteq> t_live vw t'
      \<and> same_on (t_live vw t - R) (t_bytes vw t) (t_bytes vw t')"
  proof (cases "unat (th_depth t) < 500")
    case True
    let ?t = "t\<lparr>th_depth := th_depth t + 1\<rparr>"
    note en = depth_enter_ok [OF True]
    obtain t1 where ft: "f ?t = (r, t1)" and t': "t' = depth_leave t1"
      using run en(1) by (auto simp: with_depth_def split: prod.splits)
    have "resting vw ?t" "unat (th_depth ?t) \<le> 500" "R \<subseteq> t_live vw ?t" using t live en(2) True by simp_all
    note one = freesD [OF f ft this]
    have "th_depth t + 1 \<noteq> 0" using en(2) by (auto dest: arg_cong [of _ _ unat])
    then have "t' = t1\<lparr>th_depth := th_depth t\<rparr>" using one(2) t' by (simp add: depth_leave_def)
    with one show ?thesis by simp
  next
    case False
    then have "with_depth f t = (Inl too_deep, t)" using depth_enter_full [of t] t(2) by (simp add: with_depth_def)
    with run t show ?thesis by (auto simp: same_on_def)
  qed
qed

lemma frees_calm_depth:
  assumes f: "frees_calm vw h R f"
  shows "frees_calm vw (Suc h) R (with_depth f)"
  unfolding frees_calm_def
proof (intro allI impI)
  fix t
  assume t: "resting vw t" "v_calm vw (th_store t)" "unat (th_depth t) + Suc h \<le> 500" "R \<subseteq> t_live vw t"
  then have lt: "unat (th_depth t) < 500" by simp
  note en = depth_enter_ok [OF lt]
  have "resting vw (t\<lparr>th_depth := th_depth t + 1\<rparr>)" "v_calm vw (th_store (t\<lparr>th_depth := th_depth t + 1\<rparr>))"
    "unat (th_depth (t\<lparr>th_depth := th_depth t + 1\<rparr>)) + h \<le> 500" "R \<subseteq> t_live vw (t\<lparr>th_depth := th_depth t + 1\<rparr>)"
    using t en(2) by simp_all
  then obtain t1 where "f (t\<lparr>th_depth := th_depth t + 1\<rparr>) = (Inr (), t1)" "v_calm vw (th_store t1)"
    "t_live vw t1 = t_live vw t - R" using f unfolding frees_calm_def by fastforce
  with en(1) show "\<exists>t'. with_depth f t = (Inr (), t') \<and> v_calm vw (th_store t') \<and> t_live vw t' = t_live vw t - R"
    by (simp add: with_depth_def depth_leave_def)
qed

lemma frees_trees:
  assumes "\<And>k. k \<in> set ks \<Longrightarrow> distinct (frees_of k) \<Longrightarrow>
      frees vw (set (frees_of k)) (drop_tree al k) \<and> frees_calm vw (height k) (set (frees_of k)) (drop_tree al k)"
    and "distinct (concat (map frees_of ks))"
  shows "frees vw (blocks_of ks) (drop_trees al ks) \<and> frees_calm vw (heights ks) (blocks_of ks) (drop_trees al ks)"
  using assms
proof (induction ks)
  case Nil
  then show ?case by (auto simp: frees_def frees_calm_def blocks_of_def same_on_def)
next
  case (Cons k ks)
  have eq: "drop_trees al (k # ks) = (\<lambda>t. try_s (drop_tree al k t) (\<lambda>_ t1. drop_trees al ks t1))" by (intro ext) simp
  have un: "blocks_of (k # ks) = set (frees_of k) \<union> blocks_of ks" by (simp add: blocks_of_def)
  have d: "distinct (frees_of k)" "distinct (concat (map frees_of ks))" "set (frees_of k) \<inter> blocks_of ks = {}"
    using Cons.prems(2) by (auto simp: blocks_of_def)
  have k: "frees vw (set (frees_of k)) (drop_tree al k)" "frees_calm vw (height k) (set (frees_of k)) (drop_tree al k)"
    using Cons.prems(1) [of k] d(1) by auto
  have ks: "frees vw (blocks_of ks) (drop_trees al ks)" "frees_calm vw (heights ks) (blocks_of ks) (drop_trees al ks)"
    using Cons.IH [OF Cons.prems(1) d(2)] by auto
  show ?case
    unfolding eq un heights_simps using frees_seq [OF k(1) ks(1) d(3)] frees_calm_seq [OF k ks(2) d(3)] by blast
qed

lemma frees_tree:
  assumes al: "al_io al = io"
  shows "distinct (frees_of k) \<Longrightarrow>
    frees vw (set (frees_of k)) (drop_tree al k) \<and> frees_calm vw (height k) (set (frees_of k)) (drop_tree al k)"
proof (induction k)
  case (Owned q kids)
  have d: "distinct (concat (map frees_of kids))" "q \<notin> blocks_of kids" using Owned.prems by (auto simp: blocks_of_def)
  have ks: "frees vw (blocks_of kids) (drop_trees al kids)" "frees_calm vw (heights kids) (blocks_of kids) (drop_trees al kids)"
    using frees_trees [OF Owned.IH d(1)] by auto
  have eq: "drop_tree al (Owned q kids) = with_depth (drop_block al (\<lambda>_. drop_trees al kids) q)"
    by (intro ext) (simp add: owned_ref_drop_def)
  have un: "set (frees_of (Owned q kids)) = insert q (blocks_of kids)" by (simp add: blocks_of_def)
  show ?case
    unfolding eq un height_Owned
    using frees_depth [OF frees_block [OF al, of "blocks_of kids" "\<lambda>_. drop_trees al kids" q]]
      frees_calm_depth [OF frees_calm_block [OF al, of "blocks_of kids" "\<lambda>_. drop_trees al kids" q]] ks d(2) by blast
qed

text \<open>The teardown of owned fields meets the contract the shared handles rely on.\<close>

lemma drop_trees_tears_down:
  assumes "al_io al = io" and "distinct (concat (map frees_of kids))"
  shows "tears_down vw (blocks_of kids) (\<lambda>_. drop_trees al kids)"
    and "heights kids \<le> 499 \<Longrightarrow> tears_down_calm vw (blocks_of kids) (\<lambda>_. drop_trees al kids)"
  using frees_trees [OF frees_tree [OF assms(1)] assms(2)]
  by (auto simp: tears_down_def tears_down_calm_def frees_calm_def)

end

end
