(* ===== verification/RcObjects.thy ===== *)
theory RcObjects
  imports RcRuns
begin

text \<open>
  The life of a shared object around its handles: the control block it starts with, the unwrap of
  the sole owner, the undo of an upgrade, and the weak fields that hold a count of their own.
\<close>

section \<open>A new object\<close>

lemma put_u64_word:
  assumes "unat off + 8 \<le> length b" and "p + 8 \<le> length b" and "p = unat off \<or> p + 8 \<le> unat off \<or> unat off + 8 \<le> p"
  shows "word_at (put_u64 b off v) p = (if p = unat off then v else word_at b p)"
  using assms word_at_poke [of "unat off" b v] word_at_poke_other [of "unat off" b p v]
  by (auto simp: put_u64_def poke_def)

lemma control_payload:
  assumes "wf_eightcc tag"
  shows "length (build_control_payload tag x) = 40"
    and "word_at (build_control_payload tag x) 16 = 1"
    and "word_at (build_control_payload tag x) 24 = 1"
    and "word_at (build_control_payload tag x) 32 = x"
proof -
  let ?p0 = "overwrite 0 (to_le64 CONTROL_SIZE @ cc_bytes tag) (replicate (unat CONTROL_SIZE) 0)"
  have l0: "length ?p0 = 40" using assms by (simp add: wf_eightcc_def CONTROL_SIZE_40)
  define p1 where "p1 = put_u64 ?p0 CTRL_STRONG_OFFSET 1"
  define p2 where "p2 = put_u64 p1 CTRL_WEAK_OFFSET 1"
  have o: "unat CTRL_STRONG_OFFSET = 16" "unat CTRL_WEAK_OFFSET = 24" "unat CTRL_DATA_OFFSET = 32"
    by (simp_all add: CTRL_STRONG_OFFSET_def CTRL_WEAK_OFFSET_def CTRL_DATA_OFFSET_def HEADER_SIZE_def)
  have len: "length (put_u64 b off v) = length b" if "unat off + 8 \<le> length b" for b off v
    using that by (simp add: put_u64_def)
  have l1: "length p1 = 40" unfolding p1_def using l0 o len [of CTRL_STRONG_OFFSET ?p0] by simp
  have l2: "length p2 = 40" unfolding p2_def using l1 o len [of CTRL_WEAK_OFFSET p1] by simp
  have eq: "build_control_payload tag x = put_u64 p2 CTRL_DATA_OFFSET x"
    by (simp add: build_control_payload_def p1_def p2_def Let_def)
  show "length (build_control_payload tag x) = 40" unfolding eq using l2 o len [of CTRL_DATA_OFFSET p2] by simp
  have w1: "word_at p1 16 = 1" unfolding p1_def using put_u64_word [of CTRL_STRONG_OFFSET ?p0 16] l0 o by simp
  have w2: "word_at p2 16 = 1" "word_at p2 24 = 1"
    unfolding p2_def using put_u64_word [of CTRL_WEAK_OFFSET p1] l1 o w1 by simp_all
  show "word_at (build_control_payload tag x) 16 = 1" "word_at (build_control_payload tag x) 24 = 1"
    "word_at (build_control_payload tag x) 32 = x"
    unfolding eq using put_u64_word [of CTRL_DATA_OFFSET p2] l2 o w2 by simp_all
qed

lemma word_in_content: "j + 8 \<le> unat (snd q) \<Longrightarrow> word_at (content b q) j = word_at b (unat (fst q) + j)"
  by (simp add: content_def word_at_def slice_slice)

definition new_object :: "'s stack_view \<Rightarrow> eightcc \<Rightarrow> range \<Rightarrow> range \<Rightarrow> range set \<Rightarrow> 's thread \<Rightarrow> bool" where
  "new_object vw tag d c R t \<longleftrightarrow> resting vw t \<and> th_depth t = 0 \<and> wf_eightcc tag \<and> control_block d c R
     \<and> insert c (insert d R) \<subseteq> t_live vw t \<and> content (t_bytes vw t) c = build_control_payload tag (fst d)"

lemma new_object_words:
  assumes "new_object vw tag d c R t"
  shows "strong_of vw c t = 1" "weak_of vw c t = 1" "data_of vw c t = fst d"
proof -
  have "unat (snd c) = 40" and w: "wf_eightcc tag"
    and e: "content (t_bytes vw t) c = build_control_payload tag (fst d)"
    using assms by (auto simp: new_object_def control_block_def CONTROL_SIZE_40)
  then show "strong_of vw c t = 1" "weak_of vw c t = 1" "data_of vw c t = fst d"
    using word_in_content [of 16 c "t_bytes vw t"] word_in_content [of 24 c "t_bytes vw t"]
      word_in_content [of 32 c "t_bytes vw t"] control_payload(2-4) [OF w, of "fst d"]
    by (auto simp: ctrl_words)
qed

lemma new_object_inv:
  assumes "new_object vw tag d c R t"
  shows "shared_inv vw d c R (t_bytes vw t) 1 0 t"
    and "v_calm vw (th_store t) \<Longrightarrow> shared_exact vw d c R 1 0 t"
  using assms new_object_words [OF assms]
  by (auto simp: new_object_def shared_inv_def held_inv_def shared_exact_def)

context stack_laws
begin

section \<open>Unwrapping the sole owner\<close>

lemma strong_cas:
  assumes t: "resting vw t" and c: "c \<in> t_live vw t" "snd c = CONTROL_SIZE"
    and run: "on_store (rc_cas io (NonNullOffset (fst c + 16)) 1 0) t = (r, t')"
  shows "case r of Inl e \<Rightarrow> counted vw c (strong_of vw c t) (weak_of vw c t) t t'
    | Inr b \<Rightarrow> b = (strong_of vw c t = 1)
        \<and> counted vw c (if b then 0 else strong_of vw c t) (weak_of vw c t) t t'"
proof -
  have g: "v_good vw (th_store t)" using t by (simp add: resting_def)
  obtain s' where f: "rc_cas io (NonNullOffset (fst c + 16)) 1 0 (th_store t) = (r, s')" "t' = t\<lparr>th_store := s'\<rparr>"
    using run by (rule on_store_cases)
  note ok = rc_cas_ok [OF g f(1), unfolded nn_as_u64.simps ctrl_offs(2) [OF t c]]
  show ?thesis
  proof (cases r)
    case (Inl e)
    with ok unchanged_counted [OF t] f(2) show ?thesis by simp
  next
    case (Inr b)
    show ?thesis
    proof (cases b)
      case True
      with Inr ok have "strong_of vw c t = 1" "written vw (th_store t) (poke (unat (fst c) + 16) 0 (t_bytes vw t)) s'"
        by (auto simp: strong_of_def)
      with Inr True poke_counted(1) [OF t c this(2)] f(2) show ?thesis by simp
    next
      case False
      with Inr ok have "strong_of vw c t \<noteq> 1" "unchanged vw (th_store t) s'"
        by (auto simp: strong_of_def written_def unchanged_def)
      with Inr False unchanged_counted [OF t this(2)] f(2) show ?thesis by simp
    qed
  qed
qed

lemma try_move_inv:
  assumes al: "al_io al = io" and td: "tears_down vw R dc" and mv: "frees vw (insert d R) (move d)"
    and cb: "control_block d c R" and inv: "shared_inv vw d c R b n m t" and n: "0 < n"
    and run: "rc_try_move al dc move (shared_handle d c) t = (r, t')"
  shows "case r of
      Inr (Inl h) \<Rightarrow> h = shared_handle d c \<and> strong_of vw c t \<noteq> 1 \<and> shared_inv vw d c R b n m t'
    | Inr (Inr x) \<Rightarrow> n = 1 \<and> strong_of vw c t = 1 \<and> shared_inv vw d c R b 0 m t'
    | Inl e \<Rightarrow> shared_inv vw d c R b (n - 1) m t'"
proof -
  have held: "0 < n \<or> 0 < m" using n by simp
  have h: "held_inv vw d c R b n m t" and d0: "th_depth t = 0" using inv by (simp_all add: shared_inv_def)
  note f = held_facts [OF h cb held]
  obtain rk t1 where cas: "on_store (rc_cas io (NonNullOffset (fst c + 16)) 1 0) t = (rk, t1)"
    by (cases "on_store (rc_cas io (NonNullOffset (fst c + 16)) 1 0) t")
  note law = strong_cas [OF f(1-3) cas]
  have off: "strong_offset (shared_handle d c) = Inr (NonNullOffset (fst c + 16))"
    using ctrl_offs(1) [OF f(1-3)] by (simp add: strong_offset_def strong_counter_off_def counter_off_def shared_handle_def)
  show ?thesis
  proof (cases rk)
    case (Inl e)
    then have ct: "counted vw c (strong_of vw c t) (weak_of vw c t) t t1" using law by simp
    have i1: "shared_inv vw d c R b n m t1"
      using held_same [OF h cb held ct] ct d0 by (simp add: shared_inv_def counted_def)
    obtain rd t2 where dr: "strong_release_ctrl al dc d c t1 = (rd, t2)" by (cases "strong_release_ctrl al dc d c t1")
    have "r = Inl e" "t' = t2"
      using run off cas al Inl dr
      by (simp_all add: rc_try_move_def rc_drop_def auto_drop_def strong_core_drop_def shared_handle_def)
    with strong_release_inv [OF al td cb i1 n dr] show ?thesis by simp
  next
    case (Inr swapped)
    show ?thesis
    proof (cases swapped)
      case False
      then have ct: "counted vw c (strong_of vw c t) (weak_of vw c t) t t1" and ne: "strong_of vw c t \<noteq> 1"
        using law Inr by auto
      have "r = Inr (Inl (shared_handle d c))" "t' = t1" using run off cas al Inr False by (simp_all add: rc_try_move_def)
      with held_same [OF h cb held ct] ct d0 ne show ?thesis by (simp add: shared_inv_def counted_def)
    next
      case True
      then have one: "strong_of vw c t = 1" and ct: "counted vw c 0 (weak_of vw c t) t t1" using law Inr by auto
      then have n1: "n = 1" using n f(4) by simp
      have rt1: "resting vw t1" and l1: "t_live vw t1 = t_live vw t" and s1: "strong_of vw c t1 = 0"
        and w1: "weak_of vw c t1 = weak_of vw c t" and dp1: "th_depth t1 = 0" using ct d0 by (auto simp: counted_def)
      have live: "insert d R \<subseteq> t_live vw t1" using h held one l1 by (simp add: held_inv_def)
      have cK: "c \<in> t_live vw t1 - insert d R" using f(2) l1 cb by (auto simp: control_block_def)
      obtain rm t2 where m: "move d t1 = (rm, t2)" by (cases "move d t1")
      have "unat (th_depth t1) \<le> 500" using dp1 by simp
      note mk = freesD [OF mv m rt1 this live]
      note kept = words_kept [OF mk(4) cK f(3)]
      have c2: "c \<in> t_live vw t2" using mk(3) cK by auto
      have w2: "Suc m \<le> unat (weak_of vw c t2)" using f(5) one kept w1 by simp
      have i2: "shared_inv vw d c R b 0 m t2"
        using mk(1,2) dp1 c2 kept s1 w2 by (simp add: shared_inv_def held_inv_def)
      obtain rw t3 where rw: "release_weak al c t2 = (rw, t3)" by (cases "release_weak al c t2")
      have res: "(r, t') = (case rm of Inl e \<Rightarrow> (Inl e, t2)
          | Inr x \<Rightarrow> (case rw of Inl e \<Rightarrow> (Inl e, t3) | Inr _ \<Rightarrow> (Inr (Inr x), t3)))"
        using run off cas al Inr True m rw ctrl_offs(3) [OF mk(1) c2 f(3)]
        by (auto simp: rc_try_move_def release_weak_def shared_handle_def try_s_def split: sum.splits prod.splits)
      have "shared_inv vw d c R b 0 m t3"
        using release_weak_ok [OF al mk(1) c2 f(3) w2 rw] mk(2) dp1 kept s1 by (auto simp: shared_inv_def held_inv_def)
      with res i2 n1 one show ?thesis by (auto split: sum.splits)
    qed
  qed
qed

section \<open>The undo of an upgrade\<close>

text \<open>When the claim it gives back was the last count, the data block is not freed: the release it
  calls finds the counter at zero.\<close>

lemma release_at_zero:
  assumes al: "al_io al = io" and t: "resting vw t" "th_depth t = 0" and c: "c \<in> t_live vw t" "snd c = CONTROL_SIZE"
    and z: "strong_of vw c t = 0" and run: "strong_release_ctrl al dc d c t = (r, t')"
  shows "(\<exists>e. r = Inl e) \<and> counted vw c 0 (weak_of vw c t) t t'"
proof -
  let ?t0 = "t\<lparr>th_depth := 1\<rparr>"
  have t0: "resting vw ?t0" "c \<in> t_live vw ?t0" using t c by simp_all
  obtain rs t1 where sub: "on_store (fetch_sub io (NonNullOffset (fst c + 16)) 1) ?t0 = (rs, t1)"
    by (cases "on_store (fetch_sub io (NonNullOffset (fst c + 16)) 1) ?t0")
  obtain e where rs: "rs = Inl e" and ct: "counted vw c 0 (weak_of vw c t) ?t0 t1"
    using strong_sub [OF t0 c(2) sub] z by (cases rs) auto
  have "r = Inl e" "t' = depth_leave t1"
    using run sub al rs ctrl_offs(1) [OF t0 c(2)] depth_enter_ok(1) [of t] t(2)
    by (simp_all add: strong_release_ctrl_def with_depth_def)
  moreover have "th_depth t1 = 1" using ct by (simp add: counted_def)
  moreover have "counted vw c 0 (weak_of vw c t) t (t1\<lparr>th_depth := 0\<rparr>)"
    using ct t(2) by (simp add: counted_def ctrl_words resting_def)
  ultimately show ?thesis by (simp add: depth_leave_one)
qed

lemma undo_last:
  assumes al: "al_io al = io" and t: "resting vw t" "th_depth t = 0" and cl: "v_calm vw (th_store t)"
    and c: "c \<in> t_live vw t" "snd c = CONTROL_SIZE" and one: "strong_of vw c t = 1"
  shows "\<exists>t'. upgrade_undo al dc sz (NonNullOffset (fst c + 16)) (fst c + 32) c e t = (Inl e, t')
    \<and> t_live vw t' = t_live vw t \<and> strong_of vw c t' = 0 \<and> weak_of vw c t' = weak_of vw c t"
proof -
  obtain t1 where sub: "on_store (fetch_sub io (NonNullOffset (fst c + 16)) 1) t = (Inr 1, t1)"
    and cl1: "v_calm vw (th_store t1)" and ct: "counted vw c 0 (weak_of vw c t) t t1"
    using counters_calm(3) [OF t(1) cl c] one by auto
  have t1: "resting vw t1" "c \<in> t_live vw t1" "strong_of vw c t1 = 0" "th_depth t1 = 0"
    using ct c t(2) by (auto simp: counted_def)
  obtain rb t2 where rd: "on_store (op_read io (fst c + 32) 8) t1 = (rb, t2)"
    by (cases "on_store (op_read io (fst c + 32) 8) t1")
  have ct2: "counted vw c 0 (weak_of vw c t1) t1 t2" using read_data [OF t1(1,2) c(2) rd] t1(3) by simp
  have t2: "resting vw t2" "c \<in> t_live vw t2" "strong_of vw c t2 = 0" "th_depth t2 = 0" using ct2 t1 by (auto simp: counted_def)
  have fin: "counted vw c 0 (weak_of vw c t2) t2 (snd (strong_release_ctrl al dc q c t2))" for q
    using release_at_zero [OF al t2(1,4,2) c(2) t2(3), of dc q] by (metis prod.collapse)
  have all: "counted vw c 0 w t2 t3 \<Longrightarrow> t_live vw t3 = t_live vw t \<and> strong_of vw c t3 = 0 \<and> weak_of vw c t3 = w" for w t3
    using ct ct2 by (simp add: counted_def)
  have w2: "weak_of vw c t2 = weak_of vw c t" using ct ct2 by (simp add: counted_def)
  show ?thesis
  proof (cases rb)
    case (Inl e')
    then have "upgrade_undo al dc sz (NonNullOffset (fst c + 16)) (fst c + 32) c e t = (Inl e, t2)"
      using sub rd al by (simp add: upgrade_undo_def)
    with t2 ct ct2 w2 show ?thesis by (simp add: counted_def)
  next
    case (Inr b)
    then have "upgrade_undo al dc sz (NonNullOffset (fst c + 16)) (fst c + 32) c e t
        = (Inl e, snd (strong_release_ctrl al dc (from_le64 b, sz) c t2))"
      using sub rd al by (simp add: upgrade_undo_def)
    with all [OF fin] w2 show ?thesis by simp
  qed
qed

end

end
