(* ===== verification/CloneProps.thy ===== *)
theory CloneProps
  imports Clone Updates
begin

text \<open>
  What the commit and the rollback of a clone plan guarantee: the batch bumps every counter by the
  number of its recorded references, writes the staged images, and commits the log in the same
  step; a plan that fails leaves every other block alone and its own blocks reclaimable.
\<close>

section \<open>Counters\<close>

lemma bump_counters_ok:
  "distinct (map fst (bump_counters bumps))" "set (map fst (bump_counters bumps)) = set bumps"
  "(off, n) \<in> set (bump_counters bumps) \<Longrightarrow> n = of_nat (count_list bumps off)"
  unfolding bump_counters_def by (rule tally_ok, rule tally_ok, erule tally_ok)

lemma add_counters_ok:
  "add_counters cs vs = Some ns \<Longrightarrow> length vs = length cs \<Longrightarrow> length ns = length cs
    \<and> (\<forall>i < length cs. unat (ns ! i) = unat (vs ! i) + unat (snd (cs ! i)))"
proof (induction cs vs arbitrary: ns rule: add_counters.induct)
  case (1 off delta cs v vs)
  then obtain n ms where n: "checked_add64 v delta = Some n" "add_counters cs vs = Some ms" "ns = n # ms"
    by (auto split: option.splits)
  then have "unat n = unat v + unat delta" by (simp add: checked_add64_Some unat_plus_u64)
  moreover have "length ms = length cs \<and> (\<forall>i < length cs. unat (ms ! i) = unat (vs ! i) + unat (snd (cs ! i)))"
    using 1 n by auto
  ultimately show ?case using n by (auto simp: nth_Cons split: nat.splits)
qed auto

section \<open>Batches\<close>

text \<open>The bytes of a block depend on the writes inside it only.\<close>

lemma content_apply_writes:
  assumes "in_bounds b ws" and "content b q = content b' q" and "length b = length b'" and "range_end q \<le> length b"
    and "\<And>off d. (off, d) \<in> set ws \<Longrightarrow> inside (unat off) (length d) q
      \<or> unat off + length d \<le> unat (fst q) \<or> range_end q \<le> unat off"
  shows "content (apply_writes ws b) q = content (apply_writes ws b') q"
  using assms
proof (induction ws b arbitrary: b' rule: apply_writes.induct)
  case (2 off d ws b)
  have l: "unat off + length d \<le> length b" "in_bounds b ws" using 2(2) by simp_all
  have eq: "content (overwrite (unat off) d b) q = content (overwrite (unat off) d b') q"
  proof (cases "inside (unat off) (length d) q")
    case True
    then obtain k where k: "unat off = unat (fst q) + k" "k + length d \<le> unat (snd q)"
      by (auto simp: inside_def range_end_def le_iff_add)
    show ?thesis
      unfolding k(1) using k(2) 2(3-5) by (simp add: content_overwrite range_end_def)
  next
    case False
    then have "unat off + length d \<le> unat (fst q) \<or> range_end q \<le> unat off" using 2(6) by auto
    then show ?thesis using 2(3-5) l by (auto simp: content_def range_end_def slice_overwrite_disjoint)
  qed
  show ?case
    using "2.IH" [OF _ eq] 2(4-6) l in_bounds_length [of "overwrite (unat off) d b" b ws] by simp
qed simp

definition plan_ready :: "'s stack_view \<Rightarrow> 's \<Rightarrow> range set \<Rightarrow> range set \<Rightarrow> clone_plan \<Rightarrow> bool" where
  "plan_ready vw s B C p \<longleftrightarrow> clone_inv vw s B (cp_wal p) (cp_allocated p)
     \<and> C \<subseteq> v_live vw s - (B \<union> set (cp_allocated p))
     \<and> (\<forall>(off, d) \<in> set (cp_writes p). \<exists>q \<in> set (cp_allocated p). inside (unat off) (length d) q)
     \<and> (\<forall>off \<in> set (cp_bumps p). \<exists>c \<in> C. inside (unat off) 8 c)
     \<and> (\<forall>a \<in> set (cp_bumps p). \<forall>b \<in> set (cp_bumps p). a \<noteq> b \<longrightarrow>
          unat a + 8 \<le> unat b \<or> unat b + 8 \<le> unat a)"

definition counter_at :: "'s stack_view \<Rightarrow> 's \<Rightarrow> u64 \<Rightarrow> nat" where
  "counter_at vw s off = unat (word_at (v_bytes vw s) (unat off))"

context stack_laws
begin

text \<open>Giving up a plan.\<close>

lemma plan_reclaim_ok:
  assumes g: "v_good vw s" and an: "op_anchor io = Some 8" and inv: "clone_inv vw s B wal allocated"
  shows "guarded vw s (B \<union> set allocated) (plan_reclaim io wal allocated s)
    \<and> wal_safe vw (plan_reclaim io wal allocated s) B (set allocated)
    \<and> (v_calm vw s \<longrightarrow> v_live vw (plan_reclaim io wal allocated s) = v_live vw s - set allocated)"
proof (cases wal)
  case None
  with inv have "allocated = []" "wal_idle vw s B" by (simp_all add: clone_inv_def)
  with None g show ?thesis
    by (simp add: plan_reclaim_def seq_free_many_def guarded_def same_on_def wal_idle_safe)
next
  case (Some w)
  then obtain q where B: "B = {q}" and t: "txn_holds vw s q w allocated" using inv by (auto simp: clone_inv_def)
  note rec = txn_recoverable [OF t]
  obtain r s' where fi: "finish io s = (r, s')" by (cases "finish io s")
  have out: "plan_reclaim io wal allocated s = s'" using Some fi by (simp add: plan_reclaim_def txn_finish_def)
  have "v_live vw s' = v_live vw s - set allocated" if calm: "v_calm vw s"
  proof -
    obtain n where "r = Inr n" using finish_calm [OF g calm an rec] fi by auto
    with finish_ok [OF g an rec fi] obtain h' es' where "settles vw s {q} (set allocated) {} s'"
      by (auto simp: staged_alloc)
    from settles_live [OF this] show ?thesis by auto
  qed
  with finish_safe [OF g an txn_safe [OF t] fi] out B show ?thesis by simp
qed

lemma plan_blocks:
  assumes "plan_ready vw s B C p"
  shows "set (cp_allocated p) \<subseteq> v_live vw s - B" and "B \<subseteq> v_live vw s"
    and "C \<subseteq> v_live vw s - (B \<union> set (cp_allocated p))"
    and "clone_inv vw s B (cp_wal p) (cp_allocated p)"
  using assms wal_safe_live [OF clone_safe, of vw s B "cp_wal p" "cp_allocated p"]
  by (auto simp: plan_ready_def clone_inv_def txn_holds_def split: option.splits)

text \<open>Where the batch of a commit writes: its counters inside \<open>C\<close>, its images inside the plan's
  blocks, its marker inside the log.\<close>

lemma counter_write_of:
  assumes "(off, d) \<in> set (counter_writes (bump_counters bumps) news)"
  shows "off \<in> set bumps \<and> length d = 8"
proof -
  from assms obtain x n where "(x, n) \<in> set (zip (bump_counters bumps) news)" "off = fst x" "d = to_le64 n"
    by (auto simp: counter_writes_def)
  then show ?thesis using bump_counters_ok(2) [of bumps] by (auto dest: set_zip_leftD)
qed

lemma counter_write_inside:
  assumes "plan_ready vw s B C p" and "(off, d) \<in> set (counter_writes (bump_counters (cp_bumps p)) news)"
  shows "\<exists>c \<in> C. inside (unat off) (length d) c"
  using counter_write_of [OF assms(2)] assms(1) by (auto simp: plan_ready_def)

lemma bumps_apart:
  assumes "plan_ready vw s B C p" and "a \<in> set (cp_bumps p)" and "b \<in> set (cp_bumps p)" and "a \<noteq> b"
  shows "unat a + 8 \<le> unat b \<or> unat b + 8 \<le> unat a"
  using assms by (simp add: plan_ready_def)

lemma image_inside:
  assumes "plan_ready vw s B C p" and "(off, d) \<in> set (cp_writes p)"
  shows "\<exists>q \<in> set (cp_allocated p). inside (unat off) (length d) q"
  using assms unfolding plan_ready_def by (elim conjE) (drule (1) bspec, simp)

lemma marker_inside:
  assumes g: "v_good vw s" and rdy: "plan_ready vw s B C p" and od: "(off, d) \<in> set (marker_write (cp_wal p))"
  shows "\<exists>b \<in> B. inside (unat off) (length d) b"
proof -
  from od obtain w where w: "cp_wal p = Some w" "off = commit_marker_off w" "d = [2]"
    by (cases "cp_wal p") (auto simp: marker_write_def)
  with plan_blocks(4) [OF rdy] obtain b where b: "B = {b}" "txn_holds vw s b w (cp_allocated p)" by (auto simp: clone_inv_def)
  then have at: "wal_at vw s b (wal_header_new WPending (of_nat (length (cp_allocated p))) (wt_capacity w)) (map (entry_alloc WPending) (cp_allocated p))"
    and wo: "wt_block_off w = fst b" by (simp_all add: txn_holds_def)
  note bd = block_bounds [OF g at]
  have "unat off = unat (fst b) + 8"
    unfolding w(2) commit_marker_off_def WAL_STATUS_OFFSET_def wo using bd by (subst unat_plus_u64) simp_all
  with w b bd show ?thesis by (auto simp: inside_def range_end_def)
qed

lemma commit_write_cases:
  assumes "(off, d) \<in> set (commit_writes p cs news)"
  obtains (Counter) "(off, d) \<in> set (counter_writes cs news)" | (Image) "(off, d) \<in> set (cp_writes p)"
  | (Marker) "(off, d) \<in> set (marker_write (cp_wal p))"
  using assms by (auto simp: commit_writes_def)

lemma commit_inside:
  assumes g: "v_good vw s" and rdy: "plan_ready vw s B C p"
    and od: "(off, d) \<in> set (commit_writes p (bump_counters (cp_bumps p)) news)"
  shows "\<exists>q \<in> B \<union> set (cp_allocated p) \<union> C. inside (unat off) (length d) q"
  using od
proof (cases rule: commit_write_cases)
  case Counter
  with counter_write_inside [OF rdy] show ?thesis by blast
next
  case Image
  with image_inside [OF rdy] show ?thesis by blast
next
  case Marker
  with marker_inside [OF g rdy] show ?thesis by blast
qed

lemma commit_bounds:
  assumes g: "v_good vw s" and rdy: "plan_ready vw s B C p"
  shows "in_bounds (v_bytes vw s) (commit_writes p (bump_counters (cp_bumps p)) news)"
  unfolding in_bounds_def
proof (clarify)
  fix off d assume "(off, d) \<in> set (commit_writes p (bump_counters (cp_bumps p)) news)"
  from commit_inside [OF g rdy this] obtain q where q: "q \<in> B \<union> set (cp_allocated p) \<union> C" "inside (unat off) (length d) q" by blast
  with good_live [OF g, of q] plan_blocks(1-3) [OF rdy] show "unat off + length d \<le> length (v_bytes vw s)"
    by (auto simp: inside_def)
qed

lemma other_block:
  assumes g: "v_good vw s" and rdy: "plan_ready vw s B C p"
    and "inside (unat (off :: u64)) (length d) y" and "x \<in> B \<union> set (cp_allocated p) \<union> C"
    and "y \<in> B \<union> set (cp_allocated p) \<union> C" and "x \<noteq> y"
  shows "unat off + length d \<le> unat (fst x) \<or> range_end x \<le> unat off"
proof -
  have "apart y x" using good_apart [OF g, of y x] assms(4-6) plan_blocks(1-3) [OF rdy] by auto
  with inside_apart [OF assms(3)] show ?thesis by auto
qed

text \<open>The effect of the batch on the counters, on the plan's blocks, and on the log.\<close>

lemma commit_counter:
  assumes g: "v_good vw s" and rdy: "plan_ready vw s B C p" and len: "length news = length (bump_counters (cp_bumps p))"
    and i: "i < length news"
  shows "slice (unat (fst (bump_counters (cp_bumps p) ! i))) 8
      (apply_writes (commit_writes p (bump_counters (cp_bumps p)) news) (v_bytes vw s)) = to_le64 (news ! i)"
proof -
  let ?cs = "bump_counters (cp_bumps p)"
  let ?cw = "counter_writes ?cs news"
  let ?off = "fst (?cs ! i)"
  let ?rest = "drop (Suc i) ?cw @ cp_writes p @ marker_write (cp_wal p)"
  have nth: "?cw ! j = (fst (?cs ! j), to_le64 (news ! j))" if "j < length news" for j
    using that len by (simp add: counter_writes_def case_prod_unfold)
  have lcw: "length ?cw = length news" using len by (simp add: counter_writes_def)
  have "?cw = take i ?cw @ (?off, to_le64 (news ! i)) # drop (Suc i) ?cw"
    using nth [OF i] i lcw by (metis id_take_nth_drop)
  then have eq: "commit_writes p ?cs news = take i ?cw @ (?off, to_le64 (news ! i)) # ?rest"
    unfolding commit_writes_def by (metis append.assoc append_Cons)
  have "?off \<in> set (map fst ?cs)" using i len by simp
  then have offb: "?off \<in> set (cp_bumps p)" by (simp only: bump_counters_ok(2))
  have later: "unat ?off + length (to_le64 (news ! i)) \<le> unat o2 \<or> unat o2 + length d2 \<le> unat ?off"
    if m: "(o2, d2) \<in> set ?rest" for o2 d2
  proof (cases "(o2, d2) \<in> set (drop (Suc i) ?cw)")
    case True
    then obtain j where "j < length (drop (Suc i) ?cw)" "drop (Suc i) ?cw ! j = (o2, d2)"
      by (metis in_set_conv_nth)
    then have j: "Suc i + j < length news" "(o2, d2) = ?cw ! (Suc i + j)" using lcw by auto
    then have "o2 = map fst ?cs ! (Suc i + j)" using nth [OF j(1)] len by simp
    moreover have "?off = map fst ?cs ! i" using i len by simp
    ultimately have "o2 \<noteq> ?off"
      using bump_counters_ok(1) [of "cp_bumps p"] j(1) i len by (simp only: nth_eq_iff_index_eq length_map)
    moreover have "(o2, d2) \<in> set ?cw" using True by (meson in_set_dropD)
    note counter_write_of [OF this]
    ultimately show ?thesis using bumps_apart [OF rdy offb] by auto
  next
    case False
    obtain c where c: "c \<in> C" "inside (unat ?off) 8 c" using rdy offb by (auto simp: plan_ready_def)
    from False m have "(o2, d2) \<in> set (cp_writes p) \<union> set (marker_write (cp_wal p))" by auto
    then obtain y where y: "y \<in> B \<union> set (cp_allocated p)" "inside (unat o2) (length d2) y"
      using marker_inside [OF g rdy] image_inside [OF rdy] by blast
    have "c \<noteq> y" using c(1) y(1) plan_blocks(3) [OF rdy] by auto
    with other_block [OF g rdy y(2), of c] c y have "unat o2 + length d2 \<le> unat (fst c) \<or> range_end c \<le> unat o2" by auto
    with c(2) show ?thesis by (auto simp: inside_def range_end_def)
  qed
  have ib: "in_bounds (v_bytes vw s) (take i ?cw @ (?off, to_le64 (news ! i)) # ?rest)"
    using commit_bounds [OF g rdy, of news] by (simp only: eq)
  from slice_apply_at [OF ib later] show ?thesis by (simp add: eq)
qed

lemma commit_image:
  assumes g: "v_good vw s" and rdy: "plan_ready vw s B C p" and q: "q \<in> set (cp_allocated p)"
  shows "content (apply_writes (commit_writes p (bump_counters (cp_bumps p)) news) (v_bytes vw s)) q
    = content (apply_writes (cp_writes p) (v_bytes vw s)) q"
proof -
  let ?cw = "counter_writes (bump_counters (cp_bumps p)) news" and ?fl = "marker_write (cp_wal p)"
  let ?b = "v_bytes vw s"
  let ?b1 = "apply_writes ?cw ?b"
  have qe: "unat (fst q) + unat (snd q) \<le> length ?b"
    using good_live [OF g, of q] q plan_blocks(1) [OF rdy] by (auto simp: range_end_def)
  have ib: "in_bounds ?b ?cw" "in_bounds ?b (cp_writes p)" "in_bounds ?b ?fl"
    using commit_bounds [OF g rdy, of news] by (simp_all add: commit_writes_def in_bounds_append)
  have lb: "length ?b1 = length ?b" "length (apply_writes (cp_writes p) ?b1) = length ?b"
    using ib in_bounds_length [of ?b1 ?b "cp_writes p"] by simp_all
  have out: "unat (fst q) + unat (snd q) \<le> unat off \<or> unat off + length d \<le> unat (fst q)"
    if od: "(off, d) \<in> set ?cw \<union> set ?fl" for off d
  proof -
    from od counter_write_inside [OF rdy] marker_inside [OF g rdy]
    obtain y where y: "y \<in> B \<union> C" "inside (unat off) (length d) y" by blast
    have "q \<noteq> y" using y(1) q plan_blocks(1,3) [OF rdy] by auto
    with other_block [OF g rdy y(2), of q] y q show ?thesis by (auto simp: range_end_def)
  qed
  have "content ?b1 q = content ?b q"
    unfolding content_def using ib(1) qe out by (intro slice_apply_writes) auto
  then have "content (apply_writes (cp_writes p) ?b1) q = content (apply_writes (cp_writes p) ?b) q"
  proof (intro content_apply_writes)
    fix off d assume "(off, d) \<in> set (cp_writes p)"
    from image_inside [OF rdy this] obtain y where y: "y \<in> set (cp_allocated p)" "inside (unat off) (length d) y" by blast
    show "inside (unat off) (length d) q \<or> unat off + length d \<le> unat (fst q) \<or> range_end q \<le> unat off"
      using other_block [OF g rdy y(2), of q] y q by (cases "q = y") auto
  qed (use ib qe lb in_bounds_length [OF lb(1)] in \<open>auto simp: range_end_def\<close>)
  moreover have "content (apply_writes ?fl (apply_writes (cp_writes p) ?b1)) q = content (apply_writes (cp_writes p) ?b1) q"
    unfolding content_def using ib qe out lb in_bounds_length [OF lb(2)] by (intro slice_apply_writes) auto
  ultimately show ?thesis by (simp add: commit_writes_def apply_writes_append)
qed

lemma commit_marker:
  assumes g: "v_good vw s" and rdy: "plan_ready vw s B C p" and w: "cp_wal p = Some w"
  obtains b where "B = {b}" and "wt_block_off w = fst b"
    and "block_holds (content (apply_writes (commit_writes p (bump_counters (cp_bumps p)) news) (v_bytes vw s)) b)
      (wal_header_new WComplete (of_nat (length (cp_allocated p))) (wt_capacity w)) (map (entry_alloc WPending) (cp_allocated p))"
    and "wal_at vw s b (wal_header_new WPending (of_nat (length (cp_allocated p))) (wt_capacity w)) (map (entry_alloc WPending) (cp_allocated p))"
proof -
  let ?cw = "counter_writes (bump_counters (cp_bumps p)) news"
  let ?b2 = "apply_writes (?cw @ cp_writes p) (v_bytes vw s)"
  from w plan_blocks(4) [OF rdy] obtain b where b: "B = {b}" "txn_holds vw s b w (cp_allocated p)" by (auto simp: clone_inv_def)
  then have at: "wal_at vw s b (wal_header_new WPending (of_nat (length (cp_allocated p))) (wt_capacity w)) (map (entry_alloc WPending) (cp_allocated p))"
    and wo: "wt_block_off w = fst b" by (simp_all add: txn_holds_def)
  note bd = block_bounds [OF g at]
  have mo: "unat (commit_marker_off w) = unat (fst b) + 8"
    unfolding commit_marker_off_def WAL_STATUS_OFFSET_def wo using bd by (subst unat_plus_u64) simp_all
  have ib: "in_bounds (v_bytes vw s) (?cw @ cp_writes p)"
    using commit_bounds [OF g rdy, of news] by (simp add: commit_writes_def in_bounds_append)
  have bytes: "apply_writes (commit_writes p (bump_counters (cp_bumps p)) news) (v_bytes vw s)
      = overwrite (unat (fst b) + 8) [2] ?b2"
    using w mo by (simp add: commit_writes_def marker_write_def apply_writes_append)
  have "content ?b2 b = content (v_bytes vw s) b"
    unfolding content_def
  proof (rule slice_apply_writes [OF ib])
    show "unat (fst b) + unat (snd b) \<le> length (v_bytes vw s)" by (rule bd(3))
    fix off d assume "(off, d) \<in> set (?cw @ cp_writes p)"
    then obtain y where y: "y \<in> set (cp_allocated p) \<union> C" "inside (unat off) (length d) y"
      using counter_write_inside [OF rdy] image_inside [OF rdy] unfolding set_append by blast
    have "b \<noteq> y" using y(1) plan_blocks(1,3) [OF rdy] b(1) by auto
    with other_block [OF g rdy y(2), of b] y b
    show "unat (fst b) + unat (snd b) \<le> unat off \<or> unat off + length d \<le> unat (fst b)" by (auto simp: range_end_def)
  qed
  moreover have "content (overwrite (unat (fst b) + 8) [2] ?b2) b = overwrite 8 [2] (content ?b2 b)"
    using bd ib by (intro content_overwrite) simp_all
  ultimately have cb: "content (overwrite (unat (fst b) + 8) [2] ?b2) b
      = overwrite 8 [status_byte WComplete] (content (v_bytes vw s) b)" by simp
  have "block_holds (content (v_bytes vw s) b) (wal_header_new WPending (of_nat (length (cp_allocated p))) (wt_capacity w)) (map (entry_alloc WPending) (cp_allocated p))"
    using at by (simp add: wal_at_def)
  from holds_status [OF this, of "status_byte WComplete", unfolded header_new_status]
  show ?thesis by (intro that [OF b(1) wo _ at]) (simp only: bytes cb)
qed

lemma commit_batch:
  assumes g: "v_good vw s" and rdy: "plan_ready vw s B C p"
    and run: "op_commit io (commit_writes p (bump_counters (cp_bumps p)) news) s = (Inr u, s')"
  shows "relived vw s (v_live vw s - (B \<union> set (cp_allocated p) \<union> C)) (v_live vw s) s'"
    and "v_bytes vw s' = apply_writes (commit_writes p (bump_counters (cp_bumps p)) news) (v_bytes vw s)"
proof -
  let ?ws = "commit_writes p (bump_counters (cp_bumps p)) news"
  have law: "in_bounds (v_bytes vw s) ?ws" "written vw s (apply_writes ?ws (v_bytes vw s)) s'"
    using commit_law [OF g run] by auto
  have R: "B \<union> set (cp_allocated p) \<union> C \<subseteq> v_live vw s" using plan_blocks(1-3) [OF rdy] by auto
  have "\<forall>(off, d) \<in> set ?ws. \<exists>q \<in> B \<union> set (cp_allocated p) \<union> C. inside (unat off) (length d) q"
    using commit_inside [OF g rdy] by blast
  from same_on_writes [OF g law(1) R this] law(2)
  show "relived vw s (v_live vw s - (B \<union> set (cp_allocated p) \<union> C)) (v_live vw s) s'"
    by (simp add: relived_def written_def)
  show "v_bytes vw s' = apply_writes ?ws (v_bytes vw s)" using law(2) by (simp add: written_def)
qed

lemma counter_content:
  assumes "inside (unat off) 8 c" and "content b' c = content b c"
  shows "slice (unat off) 8 b' = slice (unat off) 8 b"
  using slice_mono_eq [of "unat (fst c)" "unat (snd c)" b' b "unat off" 8] assms
  by (simp add: inside_def range_end_def content_def)

text \<open>Flipping the log back to idle after the batch; its outcome is ignored.\<close>

lemma plan_idle_ok:
  assumes g: "v_good vw s" and wo: "wt_block_off w = fst b"
    and at: "wal_at vw s b (wal_header_new WComplete n cap) (map (entry_alloc WPending) qs)"
  shows "relived vw s (v_live vw s - {b}) (v_live vw s) (snd (txn_set_idle io w s))
    \<and> wal_safe vw (snd (txn_set_idle io w s)) {b} {}"
proof -
  obtain r s' where si: "op_set io (fst b + 8) [0] s = (r, s')" by (cases "op_set io (fst b + 8) [0] s")
  then have out: "snd (txn_set_idle io w s) = s'" by (simp add: txn_set_idle_def set_idle_def WAL_STATUS_OFFSET_def wo)
  note l = set_status_ok [OF g at si]
  have nil: "wal_safe vw t {b} {}" if "wal_at vw t b h (map (entry_alloc WPending) qs)" "header_txn_status h \<in> {WNone, WComplete}" for t h
  proof -
    have "staged h (map (entry_alloc WPending) qs) = []"
      using that(2) by (auto simp: staged_def committed_txn_def orphans_alloc_log)
    then show ?thesis using that(1) unfolding wal_safe_def recoverable_def by (intro disjI2 exI [of _ b] exI [of _ h]) auto
  qed
  show ?thesis
  proof (cases r)
    case (Inl e)
    with l have u: "unchanged vw s s'" by simp
    have "wal_safe vw s' {b} {}" by (rule nil [OF wal_at_unchanged [OF at u]]) (simp add: header_txn_status_def status_from_u8_def)
    with u out unchanged_relived [OF g u] show ?thesis by simp
  next
    case (Inr x)
    with l have w: "relived vw s (v_live vw s - {b}) (v_live vw s) s'"
      "wal_at vw s' b ((wal_header_new WComplete n cap)\<lparr>wh_status := 0\<rparr>) (map (entry_alloc WPending) qs)" by auto
    have "wal_safe vw s' {b} {}" by (rule nil [OF w(2)]) (simp add: header_txn_status_def status_from_u8_def)
    with w out show ?thesis by simp
  qed
qed

lemma commit_idle:
  assumes g: "v_good vw s" and rdy: "plan_ready vw s B C p"
    and run: "op_commit io (commit_writes p (bump_counters (cp_bumps p)) news) s = (Inr u, s')"
  shows "relived vw s' (v_live vw s' - B) (v_live vw s') (case cp_wal p of None \<Rightarrow> s' | Some w \<Rightarrow> snd (txn_set_idle io w s'))
    \<and> wal_safe vw (case cp_wal p of None \<Rightarrow> s' | Some w \<Rightarrow> snd (txn_set_idle io w s')) B {}"
proof -
  note bl = plan_blocks [OF rdy] and cm = commit_batch [OF g rdy run]
  have g': "v_good vw s'" and lv: "v_live vw s' = v_live vw s" using cm(1) by (auto simp: relived_def)
  show ?thesis
  proof (cases "cp_wal p")
    case None
    then have al: "cp_allocated p = []" and idle: "wal_idle vw s B" using bl(4) by (simp_all add: clone_inv_def)
    have "\<forall>(off, d) \<in> set (commit_writes p (bump_counters (cp_bumps p)) news). \<exists>c \<in> C. inside (unat off) (length d) c"
    proof (clarify)
      fix off d assume "(off, d) \<in> set (commit_writes p (bump_counters (cp_bumps p)) news)"
      then show "\<exists>c \<in> C. inside (unat off) (length d) c"
      proof (cases rule: commit_write_cases)
        case Counter
        with counter_write_inside [OF rdy] show ?thesis by blast
      next
        case Image
        with image_inside [OF rdy Image] al show ?thesis by simp
      qed (simp add: marker_write_def None)
    qed
    from same_on_writes [OF g commit_bounds [OF g rdy] _ this] bl(3)
    have "relived vw s (v_live vw s - C) (v_live vw s) s'"
      using g' lv cm(2) by (auto simp: relived_def)
    from wal_safe_relived [OF wal_idle_safe [OF idle] this] bl(2,3) have "wal_safe vw s' B {}" by auto
    with None g' show ?thesis by (simp add: relived_def)
  next
    case (Some w)
    from commit_marker [OF g rdy Some, of news] obtain b where b: "B = {b}" "wt_block_off w = fst b"
      "block_holds (content (v_bytes vw s') b) (wal_header_new WComplete (of_nat (length (cp_allocated p))) (wt_capacity w)) (map (entry_alloc WPending) (cp_allocated p))"
      "wal_at vw s b (wal_header_new WPending (of_nat (length (cp_allocated p))) (wt_capacity w)) (map (entry_alloc WPending) (cp_allocated p))"
      unfolding cm(2) by blast
    have "wal_at vw s' b (wal_header_new WComplete (of_nat (length (cp_allocated p))) (wt_capacity w)) (map (entry_alloc WPending) (cp_allocated p))"
      using b(3,4) cm(1) same_on_word [of _ "v_bytes vw s" "v_bytes vw s'"] by (auto simp: wal_at_def relived_def)
    from plan_idle_ok [OF g' b(2) this] Some b(1) show ?thesis by simp
  qed
qed

lemma plan_commit_ok:
  assumes g: "v_good vw s" and an: "op_anchor io = Some 8" and rdy: "plan_ready vw s B C p"
    and few: "length (cp_bumps p) < u64_limit" and run: "plan_commit io p s = (r, s')"
  shows "case r of
      Inr _ \<Rightarrow> v_live vw s' = v_live vw s \<and> guarded vw s (B \<union> set (cp_allocated p) \<union> C) s' \<and> wal_safe vw s' B {}
        \<and> (\<forall>off \<in> set (cp_bumps p). counter_at vw s' off = counter_at vw s off + count_list (cp_bumps p) off)
        \<and> (\<forall>q \<in> set (cp_allocated p). content (v_bytes vw s') q = content (apply_writes (cp_writes p) (v_bytes vw s)) q)
    | Inl e \<Rightarrow> guarded vw s (B \<union> set (cp_allocated p)) s' \<and> wal_safe vw s' B (set (cp_allocated p))
        \<and> (v_calm vw s \<longrightarrow> e = commit_overflow \<and> v_live vw s' = v_live vw s - set (cp_allocated p))"
proof -
  let ?cs = "bump_counters (cp_bumps p)" and ?al = "set (cp_allocated p)"
  note bl = plan_blocks [OF rdy]
  have fail: ?thesis if u: "unchanged vw s t" and rr: "r = Inl e" "s' = plan_reclaim io (cp_wal p) (cp_allocated p) t"
    and calm: "v_calm vw s \<longrightarrow> e = commit_overflow \<and> v_calm vw t" for t e
  proof -
    have gt: "v_good vw t" and lt: "v_live vw t = v_live vw s" using u by (simp_all add: unchanged_def)
    have "clone_inv vw t B (cp_wal p) (cp_allocated p)"
      using clone_relived [OF bl(4) unchanged_relived [OF g u]] by simp
    from plan_reclaim_ok [OF gt an this] rr calm lt show ?thesis using u by (simp add: guarded_def unchanged_def)
  qed
  obtain rr s1 where rd: "read_each io (map fst ?cs) s = (rr, s1)" by (cases "read_each io (map fst ?cs) s")
  note l1 = read_each_ok [OF g rd]
  have u1: "unchanged vw s s1" and g1: "v_good vw s1" using l1 by (auto simp: unchanged_def)
  show ?thesis
  proof (cases rr)
    case (Inl e)
    have "\<not> v_calm vw s"
    proof
      assume calm: "v_calm vw s"
      have "\<forall>off \<in> set (map fst ?cs). unat off + 8 \<le> length (v_bytes vw s)"
      proof
        fix off assume "off \<in> set (map fst ?cs)"
        with rdy obtain c where c: "c \<in> C" "inside (unat off) 8 c"
          unfolding bump_counters_ok(2) plan_ready_def by blast
        with bl(3) good_live [OF g, of c] show "unat off + 8 \<le> length (v_bytes vw s)" by (auto simp: inside_def)
      qed
      from read_each_calm [OF g calm this] rd Inl show False by auto
    qed
    with run rd Inl u1 show ?thesis by (intro fail [of s1 e]) (auto simp: plan_commit_def Let_def)
  next
    case (Inr vals)
    with l1 have vals: "vals = words_of (v_bytes vw s) (map fst ?cs)" by simp
    have c1: "v_calm vw s1" if calm: "v_calm vw s"
    proof -
      have "\<forall>off \<in> set (map fst ?cs). unat off + 8 \<le> length (v_bytes vw s)"
      proof
        fix off assume "off \<in> set (map fst ?cs)"
        with rdy obtain c where c: "c \<in> C" "inside (unat off) 8 c"
          unfolding bump_counters_ok(2) plan_ready_def by blast
        with bl(3) good_live [OF g, of c] show "unat off + 8 \<le> length (v_bytes vw s)" by (auto simp: inside_def)
      qed
      from read_each_calm [OF g calm this] rd show ?thesis by auto
    qed
    show ?thesis
    proof (cases "add_counters ?cs vals")
      case None
      with run rd Inr u1 c1 show ?thesis by (intro fail [of s1 commit_overflow]) (auto simp: plan_commit_def Let_def)
    next
      case (Some news)
      have len: "length news = length ?cs" and val: "\<And>i. i < length ?cs \<Longrightarrow> unat (news ! i) = unat (vals ! i) + unat (snd (?cs ! i))"
        using add_counters_ok [OF Some] vals by simp_all
      obtain rc s2 where co: "op_commit io (commit_writes p ?cs news) s1 = (rc, s2)"
        by (cases "op_commit io (commit_writes p ?cs news) s1")
      have rdy1: "plan_ready vw s1 B C p"
        using rdy clone_relived [OF bl(4) unchanged_relived [OF g u1]] u1 by (simp add: plan_ready_def unchanged_def)
      have by1: "v_bytes vw s1 = v_bytes vw s" and lv1: "v_live vw s1 = v_live vw s" using u1 by (simp_all add: unchanged_def)
      show ?thesis
      proof (cases rc)
        case (Inl e)
        have "unchanged vw s s2" using commit_law [OF g1 co] Inl u1 unchanged_trans by auto
        moreover have "\<not> v_calm vw s" using calm_commit [OF g1 c1 commit_bounds [OF g1 rdy1, of news]] co Inl by auto
        ultimately show ?thesis using run rd Inr Some co Inl by (intro fail [of s2 e]) (auto simp: plan_commit_def Let_def)
      next
        case ok: (Inr u)
        note cm = commit_batch [OF g1 rdy1 co [unfolded ok]]
        have g2: "v_good vw s2" and lv2: "v_live vw s2 = v_live vw s" using cm(1) lv1 by (auto simp: relived_def)
        define t where "t = (case cp_wal p of None \<Rightarrow> s2 | Some w \<Rightarrow> snd (txn_set_idle io w s2))"
        have out: "r = Inr ()" "s' = t" using run rd Inr Some co ok by (auto simp: plan_commit_def t_def Let_def)
        have idle: "relived vw s2 (v_live vw s2 - B) (v_live vw s2) t \<and> wal_safe vw t B {}"
          by (rule commit_idle [OF g1 rdy1 co [unfolded ok], folded t_def])
        have same: "content (v_bytes vw t) x = content (v_bytes vw s2) x" if "x \<in> v_live vw s - B" for x
          using idle that lv2 by (auto simp: relived_def same_on_def)
        have "guarded vw s (B \<union> ?al \<union> C) t"
          using cm(1) idle lv1 by1 by (auto simp: guarded_def relived_def same_on_def)
        moreover have "v_live vw t = v_live vw s" using idle lv2 by (simp add: relived_def)
        moreover have "counter_at vw t off = counter_at vw s off + count_list (cp_bumps p) off" if o: "off \<in> set (cp_bumps p)" for off
        proof -
          from o obtain i where i: "i < length ?cs" "map fst ?cs ! i = off"
            using bump_counters_ok(2) [of "cp_bumps p"] by (metis in_set_conv_nth length_map)
          then have off: "fst (?cs ! i) = off" by simp
          have "(off, snd (?cs ! i)) \<in> set ?cs" using i off by (metis nth_mem prod.collapse)
          then have "snd (?cs ! i) = of_nat (count_list (cp_bumps p) off)" by (rule bump_counters_ok(3))
          moreover have "unat (of_nat (count_list (cp_bumps p) off) :: u64) = count_list (cp_bumps p) off"
            using count_le_length [of "cp_bumps p" off] few by (intro unat_of_nat_u64) simp
          ultimately have n: "unat (news ! i) = counter_at vw s off + count_list (cp_bumps p) off"
            using val [OF i(1)] vals i off by (simp add: counter_at_def)
          obtain c where c: "c \<in> C" "inside (unat off) 8 c" using rdy o by (auto simp: plan_ready_def)
          have "slice (unat off) 8 (v_bytes vw t) = slice (unat off) 8 (v_bytes vw s2)"
            by (rule counter_content [OF c(2)], rule same) (use c bl(3) in auto)
          then have "slice (unat off) 8 (v_bytes vw t) = to_le64 (news ! i)"
            using commit_counter [OF g1 rdy1 len, of i] i len off cm(2) by simp
          with n show ?thesis by (simp add: counter_at_def word_at_def)
        qed
        moreover have "content (v_bytes vw t) x = content (apply_writes (cp_writes p) (v_bytes vw s)) x" if "x \<in> ?al" for x
          using same [of x] that bl(1) commit_image [OF g1 rdy1 that, of news] cm(2) by1 by auto
        ultimately show ?thesis using out idle by simp
      qed
    qed
  qed
qed

end

end
