(* ===== verification/Transactions.thy ===== *)
theory Transactions
  imports CloneProps
begin

text \<open>
  The properties of bulk allocation, of the write-ahead log and of deep clones, stated over the
  code's own functions, with a small store on which each applies.
\<close>

section \<open>Sample stores\<close>

lemma le_dec_zeros: "le_dec (replicate n 0) = 0"
  by (induction n) simp_all

lemma word_zeros: "from_le64 (slice a 8 (replicate n 0)) = 0"
  by (simp add: from_le64_def slice_def le_dec_zeros)

lemma mem_anchor: "op_anchor mem_io = Some 8"
  by (simp add: mem_io_def)

text \<open>Two live blocks and no log.\<close>

definition two_store :: mem where
  "two_store = \<lparr>m_bytes = replicate 32 0, m_live = [(16, 8), (24, 8)], m_faults = []\<rparr>"

lemma two_good: "v_good mem_view two_store"
  by (simp add: two_store_def mem_good_def mem_view_simps range_end_def apart_def)

lemma two_calm: "v_calm mem_view two_store"
  by (simp add: two_store_def mem_view_simps)

lemma two_live: "v_live mem_view two_store = {(16, 8), (24, 8)}"
  by (simp add: two_store_def mem_view_simps)

lemma two_idle: "wal_idle mem_view two_store {}"
  by (simp add: wal_idle_def no_block_def two_store_def mem_view_simps word_zeros)

text \<open>A committed log with one free still to do.\<close>

definition pending_log :: wal_log where
  "pending_log = dealloc_log [(FILE_SELF, (304, 8))]"

definition pending_block :: "u8 list" where
  "pending_block = overwrite 0 (block_image pending_log WComplete 8) (replicate 288 0)"

definition pending_store :: mem where
  "pending_store = \<lparr>m_bytes = replicate 8 0 @ to_le64 16 @ pending_block @ replicate 8 0,
     m_live = [(16, 288), (304, 8)], m_faults = []\<rparr>"

definition pending_header :: wal_header where
  "pending_header = wal_header_new WComplete 1 8"

lemma pending_pads: "\<forall>e \<in> set (wl_entries pending_log). length (we_pad e) = 6"
  by (simp add: pending_log_def dealloc_log_entries)

lemma pending_holds: "block_holds pending_block pending_header (wl_entries pending_log)"
proof -
  have n: "length (wl_entries pending_log) = 1" by (simp add: pending_log_def dealloc_log_entries)
  have "length (replicate 288 0 :: u8 list) = 32 + 32 * unat (8 :: u64)" by simp
  from holds_image [OF pending_pads _ _ this, of WComplete] n show ?thesis
    by (simp add: pending_block_def pending_header_def WAL_MAX_CAP_def push_bit_eq_mult)
qed

lemma length_pending: "length pending_block = 288"
  using pending_holds by (simp add: block_holds_def pending_header_def)

lemma pending_good: "v_good mem_view pending_store"
  by (simp add: pending_store_def mem_good_def mem_view_simps range_end_def apart_def length_pending)

lemma pending_calm: "v_calm mem_view pending_store"
  by (simp add: pending_store_def mem_view_simps)

lemma pending_live: "v_live mem_view pending_store = {(16, 288), (304, 8)}"
  by (simp add: pending_store_def mem_view_simps)

lemma pending_at: "wal_at mem_view pending_store (16, 288) pending_header (wl_entries pending_log)"
  using pending_holds
  by (simp add: wal_at_def mem_view_simps pending_store_def pending_header_def content_def slice_append1
      slice_append2 length_pending)

lemma pending_staged: "staged pending_header (wl_entries pending_log) = [(304, 8)]"
  by (simp add: staged_new pending_header_def pending_log_def dealloc_log_entries orphan_dealloc entry_file_dealloc)

lemma pending_recoverable:
  "recoverable mem_view pending_store (16, 288) pending_header (wl_entries pending_log)"
  unfolding recoverable_def pending_staged using pending_at by (simp add: pending_live)

section \<open>Many blocks at once\<close>



text \<open>C26: Allocating many blocks returns fresh, distinct blocks of the requested sizes and keeps every
  older block with its bytes. A failed call keeps every older block too. It leaves no other block
  behind if the allocator is atomic or the store fails only for lack of space; otherwise what is left
  is the state after the blocks of the partial sequence were freed again, newest first, and a block
  that is left is one whose free was refused there.\<close>

theorem alloc_many_correct:
  assumes "stack_laws io vw" and "v_good vw s" and "0 \<notin> set szs" and "alloc_many io szs s = (r, s')"
  shows "same_on (v_live vw s) (v_bytes vw s) (v_bytes vw s')
    \<and> (case r of
         Inr qs \<Rightarrow> map snd qs = szs \<and> distinct qs \<and> set qs \<inter> v_live vw s = {}
           \<and> v_live vw s' = set qs \<union> v_live vw s
       | Inl e \<Rightarrow> v_live vw s \<subseteq> v_live vw s'
           \<and> (op_atomic_bulk io \<or> v_calm vw s \<longrightarrow> v_live vw s' = v_live vw s)
           \<and> (v_live vw s' = v_live vw s \<or>
               (\<exists>n got s1 s2 fe un. n < length szs \<and> seq_alloc_many io (take n szs) s = (Inr got, s1)
                 \<and> op_alloc io (szs ! n) s1 = (Inl e, s2) \<and> free_each io None [] (rev got) s2 = ((fe, un), s')
                 \<and> set un \<subseteq> set got \<and> v_live vw s' \<subseteq> v_live vw s \<union> set un)))"
  using stack_laws.alloc_many_ok [OF assms] by (cases r) (simp_all add: relived_def same_on_def)

text \<open>The second of two blocks does not fit: the first is given back.\<close>

theorem alloc_many_correct_witness:
  "\<exists>e s'. alloc_many mem_io [8, 2 ^ 63] two_store = (Inl e, s')
    \<and> same_on (v_live mem_view two_store) (v_bytes mem_view two_store) (v_bytes mem_view s')
    \<and> v_live mem_view s' = {(16, 8), (24, 8)}"
proof -
  have "isl (fst (alloc_many mem_io [8, 2 ^ 63] two_store))"
    by (simp add: alloc_many_def seq_alloc_many_def mem_io_def mem_step_def mem_extend_def two_store_def Let_def)
  then obtain e s' where r: "alloc_many mem_io [8, 2 ^ 63] two_store = (Inl e, s')"
    by (cases "alloc_many mem_io [8, 2 ^ 63] two_store"; cases "fst (alloc_many mem_io [8, 2 ^ 63] two_store)") auto
  have "0 \<notin> set [8 :: u64, 2 ^ 63]" by simp
  from alloc_many_correct [OF mem.stack_laws_axioms two_good this r] r two_calm two_live show ?thesis by auto
qed

section \<open>The write-ahead log\<close>

text \<open>C24: The image of a log block reads back as the header it was written with, and its entries as
  the entries of the log, in order.\<close>

theorem wal_image_roundtrip:
  assumes "\<forall>e \<in> set (wl_entries l). length (we_pad e) = 6"
  shows "header_of (slice 0 32 (block_image l st cap)) = wal_header_new st (of_nat (length (wl_entries l))) cap
    \<and> entries_from_bytes (drop 32 (block_image l st cap)) = wl_entries l"
proof -
  have "slice 0 32 (block_image l st cap) = header_bytes (wal_header_new st (of_nat (length (wl_entries l))) cap)"
    by (simp add: block_image_def slice_def)
  then show ?thesis
    using entries_from_log [OF assms] by (simp add: header_of_bytes block_image_def log_as_bytes_def)
qed

theorem wal_image_roundtrip_witness:
  "entries_from_bytes (drop 32 (block_image pending_log WComplete 8)) = [entry_dealloc_in WPending FILE_SELF (304, 8)]"
  using wal_image_roundtrip [OF pending_pads, of WComplete 8] by (simp add: pending_log_def dealloc_log_entries)

text \<open>C3: Completion frees each staged slice of the right polarity at most once and nothing else. If it
  succeeds exactly those are freed, their number is returned and the block is idle. If any call
  fails, the log still names only live slices, so that completing again frees nothing twice.\<close>

theorem wal_finish_correct:
  assumes "stack_laws io vw" and "v_good vw s" and "op_anchor io = Some 8" and "recoverable vw s q h es"
    and "finish io s = (r, s')"
  shows "same_on (v_live vw s - set (staged h es) - {q}) (v_bytes vw s) (v_bytes vw s')
    \<and> (case r of
         Inr n \<Rightarrow> n = (if header_txn_status h = WNone then 0 else orphan_count (committed_txn h) es)
           \<and> v_live vw s' = v_live vw s - set (staged h es) \<and> wal_idle vw s' {q}
       | Inl e \<Rightarrow> v_live vw s - set (staged h es) \<subseteq> v_live vw s' \<and> v_live vw s' \<subseteq> v_live vw s
           \<and> (\<exists>es'. recoverable vw s' q h es' \<and> set (staged h es') \<subseteq> set (staged h es)))"
proof -
  from stack_laws.finish_ok [OF assms] obtain h' es' where f: "recoverable vw s' q h' es'"
    "settles vw s {q} (set (staged h es)) (case r of Inl e \<Rightarrow> set (staged h es) | Inr _ \<Rightarrow> {}) s'"
    "\<forall>n. r = Inr n \<longrightarrow> header_txn_status h' = WNone
       \<and> n = (if header_txn_status h = WNone then 0 else orphan_count (committed_txn h) es)"
    "\<forall>e. r = Inl e \<longrightarrow> h' = h \<and> set (staged h' es') \<subseteq> set (staged h es)" by blast
  have "set (staged h es) \<subseteq> v_live vw s" using assms(4) by (auto simp: recoverable_def)
  moreover have "same_on (v_live vw s - set (staged h es) - {q}) (v_bytes vw s) (v_bytes vw s')"
    using f(2) by (auto simp: settles_def relived_def same_on_def)
  moreover have "wal_idle vw s' {q}" if "r = Inr n" for n
    unfolding wal_idle_def using f(1,3) that by (intro disjI2) (auto simp: recoverable_def)
  ultimately show ?thesis using f settles_live [OF f(2)] by (auto split: sum.splits)
qed

theorem wal_finish_correct_witness:
  "\<exists>n s'. finish mem_io pending_store = (Inr n, s') \<and> n = 1 \<and> v_live mem_view s' = {(16, 288)}"
proof -
  obtain n s' where r: "finish mem_io pending_store = (Inr n, s')"
    using mem.finish_calm [OF pending_good pending_calm mem_anchor pending_recoverable] by blast
  have e: "header_txn_status pending_header = WComplete" "wl_entries pending_log = [entry_dealloc_in WPending FILE_SELF (304, 8)]"
    by (simp_all add: pending_header_def header_txn_status_def status_from_u8_def pending_log_def dealloc_log_entries)
  have n1: "orphan_count (committed_txn pending_header) (wl_entries pending_log) = 1"
    unfolding e(2) by (simp add: orphan_dealloc committed_txn_def e(1))
  note c = wal_finish_correct [OF mem.stack_laws_axioms pending_good mem_anchor pending_recoverable r,
      unfolded pending_staged sum.case]
  from c have "n = (if header_txn_status pending_header = WNone then 0
      else orphan_count (committed_txn pending_header) (wl_entries pending_log))" by (elim conjE)
  then have "n = 1" unfolding n1 e(1) by simp
  moreover from c have "v_live mem_view s' = v_live mem_view pending_store - set [(304, 8)]" by (elim conjE)
  moreover have "{(16 :: u64, 288 :: u64), (304, 8)} - set [(304, 8)] = {(16, 288)}" by (simp add: insert_Diff_if)
  ultimately have "n = 1" "v_live mem_view s' = {(16, 288)}" unfolding pending_live by simp_all
  with r show ?thesis by blast
qed

text \<open>C23: On a store that does not fail by itself, completing a recoverable log always succeeds.\<close>

theorem wal_finish_completes:
  assumes "stack_laws io vw" and "v_good vw s" and "v_calm vw s" and "op_anchor io = Some 8"
    and "recoverable vw s q h es"
  shows "\<exists>n s'. finish io s = (Inr n, s')"
  using stack_laws.finish_calm [OF assms] .

theorem wal_finish_completes_witness: "\<exists>n s'. finish mem_io pending_store = (Inr n, s')"
  by (rule wal_finish_completes [OF mem.stack_laws_axioms pending_good pending_calm mem_anchor pending_recoverable])

text \<open>C4: A batch of frees that succeeds frees the home ranges and nothing else, and leaves the log idle.
  A batch that fails has two outcomes. Before the commit point nothing was freed or written but the
  log, and replaying the log frees nothing either. After it the log is recoverable and committed, some
  of the home ranges may be gone, and a replay frees home ranges that are still live and nothing else;
  this second outcome needs a store with faults of its own: where calls fail only for lack of space,
  the batch is all or nothing.\<close>

theorem commit_frees_correct:
  assumes "stack_laws io vw" and "v_good vw s" and "op_anchor io = Some 8" and "wal_idle vw s B"
    and "distinct (home_ranges slices)" and "set (home_ranges slices) \<subseteq> v_live vw s - B"
    and "length slices \<le> 1048576" and "commit_frees io lock slices s = (r, s')"
  shows "guarded vw s (B \<union> set (home_ranges slices)) s' \<and> (case r of
      Inr _ \<Rightarrow> \<exists>B'. wal_idle vw s' B' \<and> v_live vw s' - B' = v_live vw s - B - set (home_ranges slices)
    | Inl e \<Rightarrow> guarded vw s B s' \<and> (\<exists>B'. wal_safe vw s' B' {})
        \<or> \<not> v_calm vw s \<and> (\<exists>q h es. recoverable vw s' q h es \<and> committed_txn h
            \<and> set (staged h es) \<subseteq> set (home_ranges slices)))"
  using stack_laws.commit_frees_ok [OF assms] .

theorem commit_frees_correct_witness:
  "\<exists>r s'. commit_frees mem_io (Inr ()) [(FILE_SELF, (24, 8))] two_store = (r, s')
    \<and> guarded mem_view two_store {(24, 8)} s' \<and> (case r of
      Inr _ \<Rightarrow> \<exists>B'. wal_idle mem_view s' B' \<and> v_live mem_view s' - B' = {(16, 8)}
    | Inl e \<Rightarrow> guarded mem_view two_store {} s' \<and> (\<exists>B'. wal_safe mem_view s' B' {}))"
proof -
  have hr: "home_ranges [(FILE_SELF, (24, 8))] = [(24, 8)]" by (simp add: home_ranges_def)
  have lv: "v_live mem_view two_store - {} - {(24, 8)} = {(16, 8)}" by (auto simp: two_live)
  obtain r s' where r: "commit_frees mem_io (Inr ()) [(FILE_SELF, (24, 8))] two_store = (r, s')"
    by (cases "commit_frees mem_io (Inr ()) [(FILE_SELF, (24, 8))] two_store")
  have "distinct (home_ranges [(FILE_SELF, (24, 8))])" "set (home_ranges [(FILE_SELF, (24, 8))]) \<subseteq> v_live mem_view two_store - {}"
    "length [(FILE_SELF, (24 :: u64, 8 :: u64))] \<le> 1048576" by (simp_all add: hr two_live)
  note c = commit_frees_correct [OF mem.stack_laws_axioms two_good mem_anchor two_idle this r, unfolded hr list.set lv sup_bot_left]
  show ?thesis
    by (rule exI [of _ r], rule exI [of _ s']) (use c r two_calm in \<open>auto split: sum.splits\<close>)
qed

section \<open>Deep clones\<close>

text \<open>C11: A logged allocation keeps the log's live entries equal to the blocks the clone has allocated,
  in place or in a grown block that is the old one or fresh. If it fails, nothing outside the log changes and recovery frees only
  blocks of the clone.\<close>

theorem alloc_logged_correct:
  assumes "stack_laws io vw" and "v_good vw s" and "op_anchor io = Some 8" and "clone_inv vw s B wal allocated"
    and "length allocated < 1048576" and "sz \<noteq> 0"
    and "alloc_logged io lock wal allocated sz s = ((r, wal', allocated'), s')"
  shows "guarded vw s B s' \<and> (case r of
      Inl e \<Rightarrow> allocated' = allocated \<and> (\<exists>B'. wal_safe vw s' B' (set allocated) \<and> B' \<inter> (v_live vw s - B) = {})
    | Inr q \<Rightarrow> snd q = sz \<and> q \<notin> v_live vw s \<and> allocated' = allocated @ [q]
        \<and> (\<exists>B'. clone_inv vw s' B' wal' allocated' \<and> B' \<inter> (v_live vw s - B) = {}))"
  using stack_laws.alloc_logged_ok [OF assms] .

lemma two_clone: "clone_inv mem_view two_store {} None []"
  by (simp add: clone_inv_def two_idle)

theorem alloc_logged_correct_witness:
  "\<exists>r wal' allocated' s'. alloc_logged mem_io (Inr ()) None [] 24 two_store = ((r, wal', allocated'), s')
    \<and> guarded mem_view two_store {} s' \<and> (case r of
      Inl e \<Rightarrow> allocated' = [] \<and> (\<exists>B'. wal_safe mem_view s' B' {} \<and> B' \<inter> (v_live mem_view two_store - {}) = {})
    | Inr q \<Rightarrow> snd q = 24 \<and> q \<notin> v_live mem_view two_store \<and> allocated' = [q]
        \<and> (\<exists>B'. clone_inv mem_view s' B' wal' allocated' \<and> B' \<inter> (v_live mem_view two_store - {}) = {}))"
proof -
  obtain r wal' allocated' s' where r: "alloc_logged mem_io (Inr ()) None [] 24 two_store = ((r, wal', allocated'), s')"
    by (metis surj_pair)
  have "length ([] :: range list) < 1048576" "(24 :: u64) \<noteq> 0" by simp_all
  from alloc_logged_correct [OF mem.stack_laws_axioms two_good mem_anchor two_clone this r] r show ?thesis
    unfolding list.set append_Nil by blast
qed

text \<open>C5: The commit of a clone is one atomic step: every counter it references grows by exactly the
  number of its references, every new block holds its staged image, and no other block changes. If
  the commit fails, no block outside the clone is touched and the clone's blocks are freed or left
  for recovery; on a store that does not fail by itself the only failure is a counter overflow, and
  then every block of the clone is freed.\<close>

theorem clone_commit_correct:
  assumes "stack_laws io vw" and "v_good vw s" and "op_anchor io = Some 8" and "plan_ready vw s B C p"
    and "length (cp_bumps p) < u64_limit" and "plan_commit io p s = (r, s')"
  shows "case r of
      Inr _ \<Rightarrow> v_live vw s' = v_live vw s \<and> guarded vw s (B \<union> set (cp_allocated p) \<union> C) s' \<and> wal_safe vw s' B {}
        \<and> (\<forall>off \<in> set (cp_bumps p). counter_at vw s' off = counter_at vw s off + count_list (cp_bumps p) off)
        \<and> (\<forall>q \<in> set (cp_allocated p). content (v_bytes vw s') q = content (apply_writes (cp_writes p) (v_bytes vw s)) q)
    | Inl e \<Rightarrow> guarded vw s (B \<union> set (cp_allocated p)) s' \<and> wal_safe vw s' B (set (cp_allocated p))
        \<and> (v_calm vw s \<longrightarrow> e = commit_overflow \<and> v_live vw s' = v_live vw s - set (cp_allocated p))"
  using stack_laws.plan_commit_ok [OF assms] .

definition bump_plan :: clone_plan where
  "bump_plan = plan_new\<lparr>cp_bumps := [16, 24, 16]\<rparr>"

theorem clone_commit_correct_witness:
  "\<exists>r s'. plan_commit mem_io bump_plan two_store = (r, s') \<and> (case r of
      Inr _ \<Rightarrow> v_live mem_view s' = v_live mem_view two_store \<and> counter_at mem_view s' 16 = 2 \<and> counter_at mem_view s' 24 = 1
    | Inl e \<Rightarrow> e = commit_overflow)"
proof -
  obtain r s' where r: "plan_commit mem_io bump_plan two_store = (r, s')" by (cases "plan_commit mem_io bump_plan two_store")
  have rdy: "plan_ready mem_view two_store {} {(16, 8), (24, 8)} bump_plan"
    using two_clone by (simp add: plan_ready_def bump_plan_def plan_new_def two_live inside_def range_end_def)
  have z: "counter_at mem_view two_store a = 0" for a
    by (simp add: counter_at_def word_at_def mem_view_simps two_store_def word_zeros)
  have "length (cp_bumps bump_plan) < u64_limit" by (simp add: bump_plan_def)
  from clone_commit_correct [OF mem.stack_laws_axioms two_good mem_anchor rdy this r] r two_calm z show ?thesis
    by (cases r) (auto simp: bump_plan_def)
qed

end
