(* ===== verification/Sharing.thy ===== *)
theory Sharing
  imports RcObjects Transactions
begin

text \<open>
  The properties of ownership on disk: the teardown of an owned subtree as one transaction, the
  counters, and the protocol of strong and weak handles. Each is applied to a small store.
\<close>

section \<open>Samples\<close>

definition mem_alloc :: "mem allocator" where
  "mem_alloc = \<lparr>al_io = mem_io, al_stack = 1, al_file = FILE_SELF\<rparr>"

definition idle_thread :: "mem \<Rightarrow> mem thread" where
  "idle_thread s = \<lparr>th_store = s, th_sink = None, th_depth = 0\<rparr>"

lemma mem_alloc_simps [simp]: "al_io mem_alloc = mem_io" "al_file mem_alloc = FILE_SELF"
  by (simp_all add: mem_alloc_def)

lemma idle_thread_simps [simp]: "th_store (idle_thread s) = s" "th_sink (idle_thread s) = None" "th_depth (idle_thread s) = 0"
  by (simp_all add: idle_thread_def)

text \<open>A data block of 24 bytes at 16 and its fresh control block at 40.\<close>

definition sample_tag :: eightcc where
  "sample_tag = EightCC (replicate 8 65)"

definition shared_store :: mem where
  "shared_store = \<lparr>m_bytes = replicate 40 0 @ build_control_payload sample_tag 16,
     m_live = [(16, 24), (40, 40)], m_faults = []\<rparr>"

lemma sample_tag_wf: "wf_eightcc sample_tag"
  by (simp add: sample_tag_def wf_eightcc_def)

lemma shared_good: "v_good mem_view shared_store"
  using control_payload(1) [OF sample_tag_wf, of 16]
  by (simp add: shared_store_def mem_good_def mem_view_simps range_end_def apart_def)

lemma shared_calm: "v_calm mem_view shared_store"
  by (simp add: shared_store_def mem_view_simps)

lemma shared_live: "v_live mem_view shared_store = {(16, 24), (40, 40)}"
  by (simp add: shared_store_def mem_view_simps)

lemma shared_new: "new_object mem_view sample_tag (16, 24) (40, 40) {} (idle_thread shared_store)"
proof -
  have "content (v_bytes mem_view shared_store) (40, 40) = build_control_payload sample_tag 16"
    using control_payload(1) [OF sample_tag_wf, of 16]
    by (simp add: content_def shared_store_def mem_view_simps slice_append2)
  then show ?thesis
    by (simp add: new_object_def resting_def shared_good shared_live sample_tag_wf control_block_def CONTROL_SIZE_40)
qed

text \<open>A block without owned fields.\<close>

lemma leaf_tears_down:
  "tears_down mem_view {} (\<lambda>_. drop_trees mem_alloc [])" "tears_down_calm mem_view {} (\<lambda>_. drop_trees mem_alloc [])"
  using mem.drop_trees_tears_down [of mem_alloc "[]"] by (simp_all add: blocks_of_def)

section \<open>Owned subtrees\<close>

text \<open>C19: The outermost teardown of an owned subtree is one transaction: it commits the blocks of the
  subtree, children before their parent, in a single \<^verbatim>\<open>commit_frees\<close>, and does nothing else. A
  subtree nested deeper than the limit is refused as invalid data, with nothing freed and the thread
  as it was.\<close>

theorem owned_teardown_transaction:
  assumes "op_anchor (al_io al) \<noteq> None" and "th_sink t = None" and "th_depth t = 0"
  shows "owned_drop lock al (\<lambda>_. drop_trees al kids) q t =
    (if heights kids \<le> 500
     then (case commit_frees (al_io al) lock (map (Pair (al_file al)) (frees_of (Owned q kids))) (th_store t) of
             (r, s') \<Rightarrow> (r, t\<lparr>th_store := s'\<rparr>))
     else (Inl (IoError InvalidData ''teardown recursion too deep (an owned-reference cycle?)''), t))"
  using owned_drop_tree [OF assms] by (simp only: too_deep_def)

theorem owned_teardown_transaction_witness:
  "owned_drop (Inr ()) mem_alloc (\<lambda>_. drop_trees mem_alloc [Owned (24, 8) []]) (16, 8) (idle_thread two_store) =
    (case commit_frees mem_io (Inr ()) [(FILE_SELF, (24, 8)), (FILE_SELF, (16, 8))] two_store of
       (r, s') \<Rightarrow> (r, (idle_thread two_store)\<lparr>th_store := s'\<rparr>))"
  using owned_teardown_transaction [of mem_alloc "idle_thread two_store" "Inr ()" "[Owned (24, 8) []]" "(16, 8)"]
  by (simp add: mem_anchor)

text \<open>C8: Tearing down an owned subtree of the home file frees its blocks and no others when it
  succeeds, and leaves the log idle. When it fails, every block outside the subtree and the log keeps
  its bytes, and what recovery may still free belongs to the subtree.\<close>

theorem owned_teardown_correct:
  assumes "stack_laws (al_io al) vw" and "op_anchor (al_io al) = Some 8" and "al_file al = FILE_SELF"
    and "resting vw t" and "th_depth t = 0" and "wal_idle vw (th_store t) B"
    and "distinct (frees_of (Owned q kids))" and "set (frees_of (Owned q kids)) \<subseteq> t_live vw t - B"
    and "length (frees_of (Owned q kids)) \<le> 1048576"
    and "owned_drop lock al (\<lambda>_. drop_trees al kids) q t = (r, t')"
  shows "th_sink t' = None \<and> th_depth t' = 0
    \<and> guarded vw (th_store t) (B \<union> set (frees_of (Owned q kids))) (th_store t')
    \<and> (case r of
         Inr _ \<Rightarrow> \<exists>B'. wal_idle vw (th_store t') B'
           \<and> t_live vw t' - B' = t_live vw t - B - set (frees_of (Owned q kids))
       | Inl e \<Rightarrow> \<exists>B'. wal_safe vw (th_store t') B' (set (frees_of (Owned q kids))))"
proof -
  let ?fs = "map (Pair (al_file al)) (frees_of (Owned q kids))"
  have hr: "home_ranges ?fs = frees_of (Owned q kids)"
    using home_ranges_all [of ?fs] assms(3) by (simp add: list_all_iff comp_def)
  have g: "v_good vw (th_store t)" and none: "th_sink t = None" using assms(4) by (simp_all add: resting_def)
  obtain rc s' where c: "commit_frees (al_io al) lock ?fs (th_store t) = (rc, s')"
    by (cases "commit_frees (al_io al) lock ?fs (th_store t)")
  have ok: "guarded vw (th_store t) (B \<union> set (frees_of (Owned q kids))) s' \<and> (case rc of
      Inr _ \<Rightarrow> \<exists>B'. wal_idle vw s' B' \<and> v_live vw s' - B' = t_live vw t - B - set (frees_of (Owned q kids))
    | Inl e \<Rightarrow> \<exists>B'. wal_safe vw s' B' (set (frees_of (Owned q kids))))"
    using stack_laws.commit_frees_safe [OF assms(1) g assms(2,6) _ _ _ c] assms(7-9) unfolding hr by simp
  have run: "(r, t') = (if heights kids \<le> 500 then (rc, t\<lparr>th_store := s'\<rparr>) else (Inl too_deep, t))"
    using owned_drop_tree [of al t lock kids q] assms(2,5,10) none c by (auto split: if_splits)
  show ?thesis
  proof (cases "heights kids \<le> 500")
    case True
    with run ok none assms(5) show ?thesis by (auto split: sum.splits)
  next
    case False
    have "guarded vw (th_store t) X (th_store t)" for X using g by (simp add: guarded_def)
    with run False none assms(5) wal_idle_safe [OF assms(6)] show ?thesis by auto
  qed
qed

theorem owned_teardown_correct_witness:
  "\<exists>r t'. owned_drop (Inr ()) mem_alloc (\<lambda>_. drop_trees mem_alloc [Owned (24, 8) []]) (16, 8) (idle_thread two_store) = (r, t')
    \<and> th_sink t' = None \<and> (\<forall>u. r = Inr u \<longrightarrow> (\<exists>B'. wal_idle mem_view (th_store t') B' \<and> t_live mem_view t' - B' = {}))"
proof -
  obtain r t' where r: "owned_drop (Inr ()) mem_alloc (\<lambda>_. drop_trees mem_alloc [Owned (24, 8) []]) (16, 8) (idle_thread two_store) = (r, t')"
    by (cases "owned_drop (Inr ()) mem_alloc (\<lambda>_. drop_trees mem_alloc [Owned (24, 8) []]) (16, 8) (idle_thread two_store)")
  have "stack_laws (al_io mem_alloc) mem_view" "op_anchor (al_io mem_alloc) = Some 8" "al_file mem_alloc = FILE_SELF"
    "resting mem_view (idle_thread two_store)" "th_depth (idle_thread two_store) = 0"
    "wal_idle mem_view (th_store (idle_thread two_store)) {}"
    "distinct (frees_of (Owned (16, 8) [Owned (24, 8) []]))"
    "set (frees_of (Owned (16, 8) [Owned (24, 8) []])) \<subseteq> t_live mem_view (idle_thread two_store) - {}"
    "length (frees_of (Owned (16, 8) [Owned (24, 8) []])) \<le> 1048576"
    using mem.stack_laws_axioms two_good two_idle by (simp_all add: mem_anchor resting_def two_live)
  note c = owned_teardown_correct [OF this r]
  have lv: "t_live mem_view (idle_thread two_store) - {} - set (frees_of (Owned (16, 8) [Owned (24, 8) []])) = {}"
    by (simp add: two_live)
  from c r show ?thesis unfolding lv by (auto split: sum.splits)
qed

section \<open>Counters\<close>

text \<open>C21: The counters never wrap. A successful addition or subtraction returns the old value and
  stores the exact new one; an overflow, an underflow or a failed call leaves the bytes as they were.\<close>

theorem counters_exact:
  assumes "stack_laws io vw" and "v_good vw s"
    and "fetch_add io off delta s = (ra, s1)" and "fetch_sub io off delta s = (rs, s2)"
  shows "(case ra of
      Inl e \<Rightarrow> v_bytes vw s1 = v_bytes vw s
    | Inr v \<Rightarrow> v = word_at (v_bytes vw s) (unat (nn_as_u64 off))
        \<and> unat (word_at (v_bytes vw s1) (unat (nn_as_u64 off))) = unat v + unat delta)
   \<and> (case rs of
      Inl e \<Rightarrow> v_bytes vw s2 = v_bytes vw s
    | Inr v \<Rightarrow> v = word_at (v_bytes vw s) (unat (nn_as_u64 off))
        \<and> unat (word_at (v_bytes vw s2) (unat (nn_as_u64 off))) + unat delta = unat v)"
proof -
  have a: "unat (v + delta) = unat v + unat delta" if "unat v + unat delta < u64_limit" for v
    by (rule unat_plus_u64 [OF that])
  have b: "unat (v - delta) + unat delta = unat v" if "unat delta \<le> unat v" for v
    using that by (simp add: unat_sub word_le_nat_alt)
  show ?thesis
    using stack_laws.fetch_add_ok [OF assms(1-3)] stack_laws.fetch_sub_ok [OF assms(1,2,4)]
    by (cases ra; cases rs) (auto simp: unchanged_def written_def a b)
qed

theorem counters_exact_witness:
  "\<exists>s2. fetch_sub mem_io (NonNullOffset 56) 1 shared_store = (Inr 1, s2) \<and> word_at (v_bytes mem_view s2) 56 = 0"
proof -
  have w: "word_at (v_bytes mem_view shared_store) 56 = 1"
    using new_object_words(1) [OF shared_new] by (simp add: strong_of_def)
  have "length (v_bytes mem_view shared_store) = 80"
    using control_payload(1) [OF sample_tag_wf, of 16] by (simp add: shared_store_def mem_view_simps)
  then obtain s2 where r: "fetch_sub mem_io (NonNullOffset 56) 1 shared_store = (Inr 1, s2)"
    using mem.fetch_sub_calm [OF shared_good shared_calm, of 56 1] w by auto
  obtain ra s1 where a: "fetch_add mem_io (NonNullOffset 56) 1 shared_store = (ra, s1)"
    by (cases "fetch_add mem_io (NonNullOffset 56) 1 shared_store")
  have "unat (word_at (v_bytes mem_view s2) 56) = 0"
    using counters_exact [OF mem.stack_laws_axioms shared_good a r] by simp
  then have "word_at (v_bytes mem_view s2) 56 = 0" by (simp only: unat_eq_0)
  with r show ?thesis by simp
qed

section \<open>Strong and weak handles\<close>

text \<open>C6: Handles never dangle, whatever calls fail. In any run of clones, downgrades, upgrades and
  drops on the handles of a new object, as long as a strong handle is held the data block, the blocks
  it owns and the control block are live and the data is as it was, and as long as a weak handle is
  held the control block is live.\<close>

theorem shared_run_safe:
  assumes "stack_laws (al_io al) vw" and "tears_down vw R dc" and "new_object vw tag d c R t"
    and "rc_run al dc d c ops ((1, 0), t) = ((n, m), t')"
  shows "(0 < n \<longrightarrow> insert c (insert d R) \<subseteq> t_live vw t' \<and> same_on (insert d R) (t_bytes vw t) (t_bytes vw t')
      \<and> n \<le> unat (strong_of vw c t'))
    \<and> (0 < m \<longrightarrow> c \<in> t_live vw t' \<and> m \<le> unat (weak_of vw c t'))"
proof -
  have cb: "control_block d c R" using assms(3) by (simp add: new_object_def)
  have "shared_inv vw d c R (t_bytes vw t) n m t'"
    by (rule stack_laws.rc_run_inv [OF assms(1) refl assms(2) cb new_object_inv(1) [OF assms(3)] assms(4)])
  then show ?thesis by (auto simp: shared_inv_def held_inv_def)
qed

theorem shared_run_safe_witness:
  "\<exists>n m t'. rc_run mem_alloc (\<lambda>_. drop_trees mem_alloc []) (16, 24) (40, 40) [CloneStrong, Downgrade, DropStrong]
      ((1, 0), idle_thread shared_store) = ((n, m), t') \<and> (0 < n \<longrightarrow> (16, 24) \<in> t_live mem_view t')"
proof -
  obtain n m t' where r: "rc_run mem_alloc (\<lambda>_. drop_trees mem_alloc []) (16, 24) (40, 40) [CloneStrong, Downgrade, DropStrong]
      ((1, 0), idle_thread shared_store) = ((n, m), t')" by (metis surj_pair)
  have "stack_laws (al_io mem_alloc) mem_view" using mem.stack_laws_axioms by simp
  from shared_run_safe [OF this leaf_tears_down(1) shared_new r] r show ?thesis by auto
qed

text \<open>C7: On a store that does not fail by itself a run follows the abstract counter of handles
  exactly: the counters are the numbers of handles held, the data block and what it owns are freed by
  the drop of the last strong handle and not before, the control block by the last drop of all.\<close>

theorem shared_run_exact:
  assumes "stack_laws (al_io al) vw" and "tears_down vw R dc" and "tears_down_calm vw R dc"
    and "new_object vw tag d c R t" and "v_calm vw (th_store t)" and "length ops + 3 < u64_limit"
    and "fold rc_count ops (1, 0) = (n, m)"
  shows "\<exists>t'. rc_run al dc d c ops ((1, 0), t) = ((n, m), t')
    \<and> (if 0 < n then insert d R \<subseteq> t_live vw t' else insert d R \<inter> t_live vw t' = {})
    \<and> (c \<in> t_live vw t' \<longleftrightarrow> 0 < n \<or> 0 < m)
    \<and> (0 < n \<or> 0 < m \<longrightarrow> unat (strong_of vw c t') = n \<and> unat (weak_of vw c t') = m + of_bool (0 < n))"
proof -
  have cb: "control_block d c R" using assms(4) by (simp add: new_object_def)
  obtain t' where "rc_run al dc d c ops ((1, 0), t) = ((n, m), t')" "shared_exact vw d c R n m t'"
    using stack_laws.rc_run_exact [OF assms(1) refl assms(2,3) cb new_object_inv(2) [OF assms(4,5)] _ assms(7)] assms(6)
    by auto
  then show ?thesis by (auto simp: shared_exact_def split: if_splits)
qed

theorem shared_run_exact_witness:
  "\<exists>t'. rc_run mem_alloc (\<lambda>_. drop_trees mem_alloc []) (16, 24) (40, 40) [Downgrade, CloneStrong, DropStrong, DropStrong, Upgrade]
      ((1, 0), idle_thread shared_store) = ((0, 1), t') \<and> (16, 24) \<notin> t_live mem_view t' \<and> (40, 40) \<in> t_live mem_view t'"
proof -
  have "stack_laws (al_io mem_alloc) mem_view" using mem.stack_laws_axioms by simp
  moreover have "v_calm mem_view (th_store (idle_thread shared_store))" using shared_calm by simp
  moreover have "length [Downgrade, CloneStrong, DropStrong, DropStrong, Upgrade] + 3 < u64_limit" by simp
  moreover have "fold rc_count [Downgrade, CloneStrong, DropStrong, DropStrong, Upgrade] (1, 0) = (0, 1)" by simp
  ultimately obtain t' where
    "rc_run mem_alloc (\<lambda>_. drop_trees mem_alloc []) (16, 24) (40, 40) [Downgrade, CloneStrong, DropStrong, DropStrong, Upgrade]
      ((1, 0), idle_thread shared_store) = ((0, 1), t')"
    "insert (16, 24) {} \<inter> t_live mem_view t' = {}" "(40, 40) \<in> t_live mem_view t'"
    using shared_run_exact [OF _ leaf_tears_down shared_new, of mem_alloc "[Downgrade, CloneStrong, DropStrong, DropStrong, Upgrade]" 0 1]
    by (auto simp del: rc_run.simps)
  then show ?thesis by (intro exI conjI) auto
qed

text \<open>C20: Unwrapping a handle succeeds only for the sole owner: it takes the object apart exactly when
  the strong count is one, hands the handle back untouched when it is not, and in every case, errors
  included, the remaining handles stay valid.\<close>

theorem try_move_sole_owner:
  assumes "stack_laws (al_io al) vw" and "tears_down vw R dc" and "frees vw (insert d R) (move d)"
    and "control_block d c R" and "shared_inv vw d c R b n m t" and "0 < n"
    and "rc_try_move al dc move (shared_handle d c) t = (r, t')"
  shows "case r of
      Inr (Inl h) \<Rightarrow> h = shared_handle d c \<and> strong_of vw c t \<noteq> 1 \<and> shared_inv vw d c R b n m t'
    | Inr (Inr x) \<Rightarrow> n = 1 \<and> strong_of vw c t = 1 \<and> shared_inv vw d c R b 0 m t'
    | Inl e \<Rightarrow> shared_inv vw d c R b (n - 1) m t'"
  by (rule stack_laws.try_move_inv [OF assms(1) refl assms(2-7)])

theorem try_move_sole_owner_witness:
  "\<exists>r t'. rc_try_move mem_alloc (\<lambda>_. drop_trees mem_alloc []) (dealloc_range mem_alloc) (shared_handle (16, 24) (40, 40))
      (idle_thread shared_store) = (r, t') \<and> (\<forall>h. r \<noteq> Inr (Inl h))"
proof -
  obtain r t' where r: "rc_try_move mem_alloc (\<lambda>_. drop_trees mem_alloc []) (dealloc_range mem_alloc)
      (shared_handle (16, 24) (40, 40)) (idle_thread shared_store) = (r, t')"
    by (cases "rc_try_move mem_alloc (\<lambda>_. drop_trees mem_alloc []) (dealloc_range mem_alloc)
      (shared_handle (16, 24) (40, 40)) (idle_thread shared_store)")
  have "stack_laws (al_io mem_alloc) mem_view" using mem.stack_laws_axioms by simp
  moreover have "frees mem_view (insert (16, 24) {}) (dealloc_range mem_alloc (16, 24))" by (rule mem.frees_dealloc) simp
  moreover have "control_block (16, 24) (40, 40) {}" by (simp add: control_block_def CONTROL_SIZE_40)
  ultimately have "case r of Inr (Inl h) \<Rightarrow> strong_of mem_view (40, 40) (idle_thread shared_store) \<noteq> 1 | _ \<Rightarrow> True"
    using try_move_sole_owner [OF _ leaf_tears_down(1) _ _ new_object_inv(1) [OF shared_new] _ r]
    by (auto split: sum.splits)
  with new_object_words(1) [OF shared_new] r show ?thesis by (auto split: sum.splits)
qed

text \<open>C22: The undo of an upgrade loses the object when its claim turns out to be the last count (the
  other owners dropped theirs in between): the count goes to zero, but neither the data block nor the
  phantom weak count is released, because the release it then calls subtracts from the counter again
  and fails on zero.\<close>

theorem upgrade_undo_leaks:
  assumes "stack_laws (al_io al) vw" and "resting vw t" and "th_depth t = 0" and "v_calm vw (th_store t)"
    and "c \<in> t_live vw t" and "snd c = CONTROL_SIZE" and "strong_of vw c t = 1"
  shows "\<exists>t'. upgrade_undo al dc sz (NonNullOffset (fst c + 16)) (fst c + 32) c e t = (Inl e, t')
    \<and> t_live vw t' = t_live vw t \<and> strong_of vw c t' = 0 \<and> weak_of vw c t' = weak_of vw c t"
  by (rule stack_laws.undo_last [OF assms(1) refl assms(2-7)])

theorem upgrade_undo_leaks_witness:
  "\<exists>t'. upgrade_undo mem_alloc (\<lambda>_. drop_trees mem_alloc []) 24 (NonNullOffset (40 + 16)) (40 + 32) (40, 40) mem_fault
      (idle_thread shared_store) = (Inl mem_fault, t') \<and> (16, 24) \<in> t_live mem_view t' \<and> strong_of mem_view (40, 40) t' = 0"
proof -
  have pre: "stack_laws (al_io mem_alloc) mem_view" "resting mem_view (idle_thread shared_store)"
    "th_depth (idle_thread shared_store) = 0" "v_calm mem_view (th_store (idle_thread shared_store))"
    "(40, 40) \<in> t_live mem_view (idle_thread shared_store)" "snd (40 :: u64, 40 :: u64) = CONTROL_SIZE"
    "strong_of mem_view (40, 40) (idle_thread shared_store) = 1"
    using mem.stack_laws_axioms shared_good shared_calm new_object_words(1) [OF shared_new]
    by (simp_all add: resting_def shared_live CONTROL_SIZE_40)
  obtain t' where t': "upgrade_undo mem_alloc (\<lambda>_. drop_trees mem_alloc []) 24 (NonNullOffset (40 + 16)) (40 + 32) (40, 40) mem_fault
      (idle_thread shared_store) = (Inl mem_fault, t')"
    "t_live mem_view t' = t_live mem_view (idle_thread shared_store)" "strong_of mem_view (40, 40) t' = 0"
    using upgrade_undo_leaks [OF pre, of "\<lambda>_. drop_trees mem_alloc []" 24 mem_fault] unfolding fst_conv by blast
  have "(16, 24) \<in> t_live mem_view t'" unfolding t'(2) by (simp add: shared_live)
  with t'(1,3) show ?thesis by blast
qed

end
