(* ===== verification/WalLock.thy ===== *)
theory WalLock
  imports Prelude
begin

text \<open>
  The per-file lock of the write-ahead log, \<^verbatim>\<open>wal_lock_for\<close> and \<^verbatim>\<open>HeldLock\<close> of
  \<^verbatim>\<open>src/io_core/wal.rs\<close>, with threads that interleave. The registry maps a file's address
  to a mutex through a weak reference: an entry is live as long as some thread holds or waits for its
  mutex, and dead entries are swept. A thread remembers the files it holds. The first lock a thread
  takes blocks; a further one is only tried. A thread is a number, a mutex the number under which it
  was created, and an error return leaves the thread running with the locks it had.
\<close>

section \<open>State\<close>

type_synonym file_key = u64

datatype phase = Running | Waiting file_key nat

record locks =
  lk_registry :: "file_key \<rightharpoonup> nat"
  lk_refs :: "nat \<Rightarrow> nat"
  lk_owner :: "nat \<Rightarrow> nat option"
  lk_held :: "nat \<Rightarrow> (file_key \<times> nat) list"
  lk_phase :: "nat \<Rightarrow> phase"
  lk_next :: nat

definition locks_init :: locks where
  "locks_init = \<lparr>lk_registry = Map.empty, lk_refs = (\<lambda>_. 0), lk_owner = (\<lambda>_. None), lk_held = (\<lambda>_. []),
     lk_phase = (\<lambda>_. Running), lk_next = 0\<rparr>"

section \<open>Operations\<close>

definition wal_lock_for :: "file_key \<Rightarrow> locks \<Rightarrow> nat \<times> locks" where
  "wal_lock_for key s =
     (case lk_registry s key of
        Some i \<Rightarrow>
          if 0 < lk_refs s i then (i, s\<lparr>lk_refs := (lk_refs s)(i := lk_refs s i + 1)\<rparr>)
          else (let fresh = lk_next s in
            (fresh, s\<lparr>lk_registry := (lk_registry s |` {k. \<exists>j. lk_registry s k = Some j \<and> 0 < lk_refs s j})(key \<mapsto> fresh),
              lk_refs := (lk_refs s)(fresh := 1), lk_next := fresh + 1\<rparr>))
      | None \<Rightarrow>
          (let fresh = lk_next s in
            (fresh, s\<lparr>lk_registry := (lk_registry s |` {k. \<exists>j. lk_registry s k = Some j \<and> 0 < lk_refs s j})(key \<mapsto> fresh),
              lk_refs := (lk_refs s)(fresh := 1), lk_next := fresh + 1\<rparr>)))"

definition clone_reentered :: io_error where
  "clone_reentered = IoError WouldBlock ''clone re-entered a file already being cloned on this thread''"

definition clone_contended :: io_error where
  "clone_contended = IoError WouldBlock ''clone contends for another file's WAL lock while already holding one''"

text \<open>\<^verbatim>\<open>HeldLock::acquire\<close> up to the point where it has the mutex, and from there; \<open>None\<close> is a
  lock call that blocks.\<close>

definition acquire_start :: "nat \<Rightarrow> file_key \<Rightarrow> locks \<Rightarrow> io_error + locks" where
  "acquire_start t key s =
     (if key \<in> fst ` set (lk_held s t) then Inl clone_reentered
      else case wal_lock_for key s of
        (i, s1) \<Rightarrow> Inr (s1\<lparr>lk_phase := (lk_phase s1)(t := Waiting key i)\<rparr>))"

definition acquire_lock :: "nat \<Rightarrow> locks \<Rightarrow> (unit res \<times> locks) option" where
  "acquire_lock t s =
     (case lk_phase s t of
        Running \<Rightarrow> None
      | Waiting key i \<Rightarrow>
          (let nested = lk_held s t \<noteq> [] in
           if lk_owner s i = None then
             Some (Inr (), s\<lparr>lk_owner := (lk_owner s)(i \<mapsto> t), lk_held := (lk_held s)(t := lk_held s t @ [(key, i)]),
               lk_phase := (lk_phase s)(t := Running)\<rparr>)
           else if nested then
             Some (Inl clone_contended, s\<lparr>lk_refs := (lk_refs s)(i := lk_refs s i - 1),
               lk_phase := (lk_phase s)(t := Running)\<rparr>)
           else None))"

text \<open>\<^verbatim>\<open>Vec::swap_remove\<close> at the last position of the key.\<close>

definition swap_remove :: "nat \<Rightarrow> 'a list \<Rightarrow> 'a list" where
  "swap_remove pos xs = (if Suc pos = length xs then butlast xs else (butlast xs)[pos := last xs])"

fun rposition :: "('a \<Rightarrow> bool) \<Rightarrow> 'a list \<Rightarrow> nat option" where
  "rposition p [] = None"
| "rposition p (x # xs) =
     (case rposition p xs of Some n \<Rightarrow> Some (Suc n) | None \<Rightarrow> if p x then Some 0 else None)"

definition release :: "nat \<Rightarrow> file_key \<times> nat \<Rightarrow> locks \<Rightarrow> locks" where
  "release t h s =
     (let v = lk_held s t;
          v' = (case rposition (\<lambda>x. fst x = fst h) v of Some pos \<Rightarrow> swap_remove pos v | None \<Rightarrow> v) in
      s\<lparr>lk_owner := (lk_owner s)(snd h := None), lk_held := (lk_held s)(t := v'),
        lk_refs := (lk_refs s)(snd h := lk_refs s (snd h) - 1)\<rparr>)"

section \<open>Interleavings\<close>

inductive lock_step :: "locks \<Rightarrow> locks \<Rightarrow> bool" where
  start: "lk_phase s t = Running \<Longrightarrow> acquire_start t key s = Inr s' \<Longrightarrow> lock_step s s'"
| lock: "acquire_lock t s = Some (r, s') \<Longrightarrow> lock_step s s'"
| unlock: "lk_phase s t = Running \<Longrightarrow> h \<in> set (lk_held s t) \<Longrightarrow> lock_step s (release t h s)"

inductive_cases lock_stepE: "lock_step s s'"

inductive reachable :: "locks \<Rightarrow> bool" where
  init: "reachable locks_init"
| step: "reachable s \<Longrightarrow> lock_step s s' \<Longrightarrow> reachable s'"

text \<open>\<open>t\<close> sits in a blocking lock call on a mutex that \<open>t'\<close> owns.\<close>

definition waits_for :: "locks \<Rightarrow> nat \<Rightarrow> nat \<Rightarrow> bool" where
  "waits_for s t t' \<longleftrightarrow> (\<exists>key i. lk_phase s t = Waiting key i \<and> acquire_lock t s = None \<and> lk_owner s i = Some t')"

section \<open>The invariant\<close>

definition waiters :: "locks \<Rightarrow> nat \<Rightarrow> nat set" where
  "waiters s i = {t. \<exists>k. lk_phase s t = Waiting k i}"

definition lock_inv :: "locks \<Rightarrow> bool" where
  "lock_inv s \<longleftrightarrow>
     (\<forall>t k i. (k, i) \<in> set (lk_held s t) \<longrightarrow> lk_registry s k = Some i \<and> lk_owner s i = Some t)
   \<and> (\<forall>t. distinct (lk_held s t))
   \<and> (\<forall>i t. lk_owner s i = Some t \<longrightarrow> (\<exists>k. (k, i) \<in> set (lk_held s t)))
   \<and> (\<forall>t k i. lk_phase s t = Waiting k i \<longrightarrow> lk_registry s k = Some i \<and> k \<notin> fst ` set (lk_held s t))
   \<and> (\<forall>k i. lk_registry s k = Some i \<longrightarrow> i < lk_next s)
   \<and> (\<forall>k k' i. lk_registry s k = Some i \<longrightarrow> lk_registry s k' = Some i \<longrightarrow> k = k')
   \<and> (\<forall>i. finite (waiters s i) \<and> lk_refs s i = card (waiters s i) + of_bool (lk_owner s i \<noteq> None))"

lemma lock_invD:
  assumes "lock_inv s"
  shows "(k, i) \<in> set (lk_held s t) \<Longrightarrow> lk_registry s k = Some i \<and> lk_owner s i = Some t"
    and "distinct (lk_held s t)"
    and "lk_owner s i = Some t \<Longrightarrow> \<exists>k. (k, i) \<in> set (lk_held s t)"
    and "lk_phase s t = Waiting k i \<Longrightarrow> lk_registry s k = Some i \<and> k \<notin> fst ` set (lk_held s t)"
    and "lk_registry s k = Some i \<Longrightarrow> i < lk_next s"
    and "lk_registry s k = Some i \<Longrightarrow> lk_registry s k' = Some i \<Longrightarrow> k = k'"
    and "finite (waiters s i)"
    and "lk_refs s i = card (waiters s i) + of_bool (lk_owner s i \<noteq> None)"
  using assms unfolding lock_inv_def by blast+

lemma lock_inv_init: "lock_inv locks_init"
  by (simp add: lock_inv_def locks_init_def waiters_def)

lemma refs_pos:
  assumes "lock_inv s" and "(k, i) \<in> set (lk_held s t) \<or> lk_phase s t = Waiting k i"
  shows "0 < lk_refs s i"
proof -
  have "lk_owner s i \<noteq> None \<or> t \<in> waiters s i"
    using assms lock_invD(1) [OF assms(1), of k i t] by (auto simp: waiters_def)
  then show ?thesis
    using lock_invD(7,8) [OF assms(1), of i] by (auto simp: card_gt_0_iff)
qed

text \<open>A mutex number that was never handed out is unused.\<close>

lemma fresh_unused:
  assumes "lock_inv s" and "lk_next s \<le> i"
  shows "waiters s i = {}" "lk_owner s i = None"
proof -
  show "waiters s i = {}"
    using lock_invD(4,5) [OF assms(1)] assms(2) by (fastforce simp: waiters_def)
  show "lk_owner s i = None"
  proof (cases "lk_owner s i")
    case (Some t)
    then obtain k where "(k, i) \<in> set (lk_held s t)" using lock_invD(3) [OF assms(1)] by blast
    with lock_invD(1,5) [OF assms(1)] assms(2) show ?thesis by fastforce
  qed
qed

lemma wal_lock_for_ok:
  assumes inv: "lock_inv s" and run: "wal_lock_for key s = (i, s1)"
  shows "lk_registry s1 key = Some i" and "lk_owner s1 = lk_owner s" and "lk_held s1 = lk_held s"
    and "lk_phase s1 = lk_phase s" and "lk_refs s1 = (lk_refs s)(i := lk_refs s i + 1)"
    and "i < lk_next s1" and "lk_next s \<le> lk_next s1"
    and "lk_registry s1 k = Some j \<Longrightarrow> (k = key \<and> j = i) \<or> lk_registry s k = Some j \<and> k \<noteq> key \<and> j \<noteq> i"
    and "lk_registry s k = Some j \<Longrightarrow> 0 < lk_refs s j \<Longrightarrow> lk_registry s1 k = Some j"
proof -
  have zero: "lk_refs s (lk_next s) = 0" using lock_invD(8) [OF inv, of "lk_next s"] fresh_unused [OF inv order_refl] by simp
  note d = lock_invD(5,6) [OF inv]
  show "lk_registry s1 key = Some i" "lk_owner s1 = lk_owner s" "lk_held s1 = lk_held s"
    "lk_phase s1 = lk_phase s" "lk_refs s1 = (lk_refs s)(i := lk_refs s i + 1)" "i < lk_next s1" "lk_next s \<le> lk_next s1"
    using run zero d(1) by (auto simp: wal_lock_for_def Let_def split: option.splits if_splits)
  show "(k = key \<and> j = i) \<or> lk_registry s k = Some j \<and> k \<noteq> key \<and> j \<noteq> i" if "lk_registry s1 k = Some j"
    using run that d(1) [of k j] d(2) [of k j key]
    by (auto simp: wal_lock_for_def Let_def restrict_map_def split: option.splits if_splits)
  show "lk_registry s1 k = Some j" if "lk_registry s k = Some j" "0 < lk_refs s j"
    using run that by (auto simp: wal_lock_for_def Let_def restrict_map_def split: option.splits if_splits)
qed

lemma start_inv:
  assumes inv: "lock_inv s" and run: "lk_phase s t = Running" "acquire_start t key s = Inr s'"
  shows "lock_inv s'"
proof -
  obtain i s1 where w: "wal_lock_for key s = (i, s1)" by (cases "wal_lock_for key s")
  note o = wal_lock_for_ok [OF inv w]
  have k: "key \<notin> fst ` set (lk_held s t)" and s': "s' = s1\<lparr>lk_phase := (lk_phase s1)(t := Waiting key i)\<rparr>"
    using run(2) w by (auto simp: acquire_start_def split: if_splits)
  have held: "lk_registry s1 k' = Some j" if "(k', j) \<in> set (lk_held s u)" for k' j u
    using o(9) lock_invD(1) [OF inv that] refs_pos [OF inv disjI1, OF that] by blast
  have wait: "lk_registry s1 k' = Some j" if "lk_phase s u = Waiting k' j" for k' j u
    using o(9) lock_invD(4) [OF inv that] refs_pos [OF inv disjI2, OF that] by blast
  have ws: "waiters s' j = (if j = i then insert t (waiters s i) else waiters s j)" for j
    using run(1) by (auto simp: s' waiters_def o(4))
  have tn: "t \<notin> waiters s j" for j using run(1) by (simp add: waiters_def)
  show ?thesis
    unfolding lock_inv_def
  proof (intro conjI allI impI)
    fix u k' j assume "(k', j) \<in> set (lk_held s' u)"
    then show "lk_registry s' k' = Some j" "lk_owner s' j = Some u"
      using held lock_invD(1) [OF inv, of k' j u] by (simp_all add: s' o(2,3))
  next
    fix u show "distinct (lk_held s' u)" using lock_invD(2) [OF inv] by (simp add: s' o(3))
  next
    fix j u assume "lk_owner s' j = Some u"
    then show "\<exists>k. (k, j) \<in> set (lk_held s' u)" using lock_invD(3) [OF inv] by (simp add: s' o(2,3))
  next
    fix u k' j assume "lk_phase s' u = Waiting k' j"
    then show "lk_registry s' k' = Some j" "k' \<notin> fst ` set (lk_held s' u)"
      using wait [of u k' j] lock_invD(4) [OF inv, of u k' j] o(1) k by (auto simp: s' o(3,4) split: if_splits)
  next
    fix k' j assume "lk_registry s' k' = Some j"
    then show "j < lk_next s'" using o(8) [of k' j] o(6,7) lock_invD(5) [OF inv, of k' j] by (auto simp: s')
  next
    fix k1 k2 j assume "lk_registry s' k1 = Some j" "lk_registry s' k2 = Some j"
    then show "k1 = k2" using o(8) [of k1 j] o(8) [of k2 j] lock_invD(6) [OF inv, of k1 j k2] by (auto simp: s')
  next
    fix j show "finite (waiters s' j)" using lock_invD(7) [OF inv] by (simp add: ws)
    show "lk_refs s' j = card (waiters s' j) + of_bool (lk_owner s' j \<noteq> None)"
      unfolding ws using lock_invD(7,8) [OF inv, of j] tn by (cases "j = i") (simp_all add: s' o(2,5))
  qed
qed

lemma lock_inv_step:
  assumes inv: "lock_inv s" and run: "acquire_lock t s = Some (r, s')"
  shows "lock_inv s'"
proof -
  obtain key i where ph: "lk_phase s t = Waiting key i" using run by (auto simp: acquire_lock_def split: phase.splits)
  note w = lock_invD(4) [OF inv ph]
  have tw: "t \<in> waiters s i" using ph by (auto simp: waiters_def)
  have ws: "waiters (s\<lparr>lk_phase := (lk_phase s)(t := Running)\<rparr>) j = waiters s j - {t}" for j by (auto simp: waiters_def)
  have only: "t \<in> waiters s j \<longleftrightarrow> j = i" for j using ph by (auto simp: waiters_def)
  have cd: "card (waiters s j - {t}) = card (waiters s j) - of_bool (j = i)" for j
    using only lock_invD(7) [OF inv, of j] by (auto simp: card_Diff_singleton)
  have pos: "0 < card (waiters s i)" using tw lock_invD(7) [OF inv, of i] by (auto simp: card_gt_0_iff)
  show ?thesis
  proof (cases "lk_owner s i")
    case None
    then have s': "s' = s\<lparr>lk_owner := (lk_owner s)(i \<mapsto> t), lk_held := (lk_held s)(t := lk_held s t @ [(key, i)]),
        lk_phase := (lk_phase s)(t := Running)\<rparr>" using run ph by (simp add: acquire_lock_def Let_def)
    have ws': "waiters s' j = waiters s j - {t}" for j by (auto simp: s' waiters_def)
    have fresh: "(k, i) \<notin> set (lk_held s u)" for k u using lock_invD(1) [OF inv, of k i u] None by auto
    show ?thesis
      unfolding lock_inv_def
    proof (intro conjI allI impI)
      fix u k j assume h: "(k, j) \<in> set (lk_held s' u)"
      show "lk_registry s' k = Some j" "lk_owner s' j = Some u"
        using h w lock_invD(1) [OF inv, of k j u] fresh by (auto simp: s' split: if_splits)
    next
      fix u show "distinct (lk_held s' u)" using lock_invD(2) [OF inv] fresh by (simp add: s')
    next
      fix j u assume "lk_owner s' j = Some u"
      then show "\<exists>k. (k, j) \<in> set (lk_held s' u)" using lock_invD(3) [OF inv, of j u] by (auto simp: s' split: if_splits)
    next
      fix u k j assume "lk_phase s' u = Waiting k j"
      then show "lk_registry s' k = Some j" "k \<notin> fst ` set (lk_held s' u)"
        using lock_invD(4) [OF inv, of u k j] by (auto simp: s' split: if_splits)
    next
      fix k j assume "lk_registry s' k = Some j" then show "j < lk_next s'" using lock_invD(5) [OF inv] by (simp add: s')
    next
      fix k1 k2 j assume "lk_registry s' k1 = Some j" "lk_registry s' k2 = Some j"
      then show "k1 = k2" using lock_invD(6) [OF inv] by (simp add: s')
    next
      fix j show "finite (waiters s' j)" using lock_invD(7) [OF inv] by (simp add: ws')
      show "lk_refs s' j = card (waiters s' j) + of_bool (lk_owner s' j \<noteq> None)"
        unfolding ws' cd using lock_invD(8) [OF inv, of j] None pos by (simp add: s')
    qed
  next
    case (Some u')
    then have s': "s' = s\<lparr>lk_refs := (lk_refs s)(i := lk_refs s i - 1), lk_phase := (lk_phase s)(t := Running)\<rparr>"
      using run ph by (auto simp: acquire_lock_def Let_def split: if_splits)
    have ws': "waiters s' j = waiters s j - {t}" for j by (auto simp: s' waiters_def)
    have ph': "lk_phase s u = Waiting k j" if "lk_phase s' u = Waiting k j" for u k j
      using that by (auto simp: s' split: if_splits)
    have refs: "lk_refs s' j = card (waiters s' j) + of_bool (lk_owner s' j \<noteq> None)" for j
      unfolding ws' cd using lock_invD(8) [OF inv, of j] pos by (cases "j = i") (simp_all add: s')
    have fin: "finite (waiters s' j)" for j using lock_invD(7) [OF inv] by (simp add: ws')
    have same: "lk_registry s' = lk_registry s" "lk_held s' = lk_held s" "lk_owner s' = lk_owner s" "lk_next s' = lk_next s"
      by (simp_all add: s')
    show ?thesis
      unfolding lock_inv_def same
    proof (intro conjI allI impI)
      show "lk_refs s' j = card (waiters s' j) + of_bool (lk_owner s j \<noteq> None)" for j using refs [of j] by (simp add: same)
    qed (use lock_invD(1-6) [OF inv] fin ph' in \<open>blast+\<close>)
  qed
qed

lemma rposition_Some:
  "rposition p xs = Some n \<Longrightarrow> n < length xs \<and> p (xs ! n)"
  by (induction xs arbitrary: n) (auto split: option.splits if_splits)

lemma rposition_None: "rposition p xs = None \<longleftrightarrow> (\<forall>x \<in> set xs. \<not> p x)"
  by (induction xs) (auto split: option.splits)

lemma swap_remove_set:
  assumes "distinct xs" and "pos < length xs"
  shows "set (swap_remove pos xs) = set xs - {xs ! pos}" and "distinct (swap_remove pos xs)"
proof -
  obtain as y bs where xs: "xs = as @ y # bs" "length as = pos"
    using id_take_nth_drop [OF assms(2)] assms(2) by (metis length_take min.absorb4)
  then have y: "xs ! pos = y" by auto
  have "set (swap_remove pos xs) = set xs - {y} \<and> distinct (swap_remove pos xs)"
  proof (cases bs rule: rev_cases)
    case Nil
    then show ?thesis using assms(1) xs by (auto simp: swap_remove_def butlast_append)
  next
    case (snoc bs' x)
    then have "swap_remove pos xs = as @ x # bs'"
      using xs by (auto simp: swap_remove_def butlast_append list_update_append)
    then show ?thesis using assms(1) xs snoc by auto
  qed
  then show "set (swap_remove pos xs) = set xs - {xs ! pos}" "distinct (swap_remove pos xs)" by (simp_all add: y)
qed

lemma release_inv:
  assumes inv: "lock_inv s" and run: "lk_phase s t = Running" and h: "h \<in> set (lk_held s t)"
  shows "lock_inv (release t h s)" and "set (lk_held (release t h s) t) = set (lk_held s t) - {h}"
    and "lk_owner (release t h s) (snd h) = None"
proof -
  obtain key i where hk: "h = (key, i)" by (cases h)
  let ?v = "lk_held s t"
  have own: "lk_registry s key = Some i" "lk_owner s i = Some t" using lock_invD(1) [OF inv] h hk by auto
  obtain pos where pos: "rposition (\<lambda>x. fst x = key) ?v = Some pos"
    using h hk rposition_None [of "\<lambda>x. fst x = key" ?v] by (cases "rposition (\<lambda>x. fst x = key) ?v") auto
  have p: "pos < length ?v" "fst (?v ! pos) = key" using rposition_Some [OF pos] by auto
  obtain j where j: "?v ! pos = (key, j)" using p(2) by (cases "?v ! pos") simp
  then have "(key, j) \<in> set ?v" using nth_mem [OF p(1)] by simp
  then have "?v ! pos = h" using lock_invD(1) [OF inv, of key j t] own(1) hk j by simp
  note v' = swap_remove_set [OF lock_invD(2) [OF inv] p(1), unfolded this]
  have s': "release t h s = s\<lparr>lk_owner := (lk_owner s)(i := None), lk_held := (lk_held s)(t := swap_remove pos ?v),
      lk_refs := (lk_refs s)(i := lk_refs s i - 1)\<rparr>"
    by (simp add: release_def Let_def hk pos)
  show "set (lk_held (release t h s) t) = set ?v - {h}" "lk_owner (release t h s) (snd h) = None"
    using v'(1) unfolding s' by (simp_all add: hk)
  have only: "(k, i) \<in> set (lk_held s u) \<Longrightarrow> k = key \<and> u = t" for k u
    using lock_invD(1) [OF inv, of k i u] own lock_invD(6) [OF inv, of k i key] by auto
  have ws: "waiters (release t h s) j = waiters s j" for j by (simp add: s' waiters_def)
  show "lock_inv (release t h s)"
    unfolding lock_inv_def
  proof (intro conjI allI impI)
    fix u k j assume u: "(k, j) \<in> set (lk_held (release t h s) u)"
    then have o: "(k, j) \<in> set (lk_held s u)" "(k, j) \<noteq> h \<or> u \<noteq> t" using v'(1) by (auto simp: s' split: if_splits)
    then have "j \<noteq> i" using only [of k u] hk by auto
    with lock_invD(1) [OF inv o(1)] show "lk_registry (release t h s) k = Some j" "lk_owner (release t h s) j = Some u"
      by (simp_all add: s')
  next
    fix u show "distinct (lk_held (release t h s) u)" using lock_invD(2) [OF inv] v'(2) by (simp add: s')
  next
    fix j u assume "lk_owner (release t h s) j = Some u"
    then have "j \<noteq> i" "lk_owner s j = Some u" by (auto simp: s' split: if_splits)
    then show "\<exists>k. (k, j) \<in> set (lk_held (release t h s) u)"
      using lock_invD(3) [OF inv, of j u] v'(1) unfolding s' by (auto simp: hk)
  next
    fix u k j assume "lk_phase (release t h s) u = Waiting k j"
    then show "lk_registry (release t h s) k = Some j" "k \<notin> fst ` set (lk_held (release t h s) u)"
      using lock_invD(4) [OF inv, of u k j] v'(1) by (auto simp: s')
  next
    fix k j assume "lk_registry (release t h s) k = Some j"
    then show "j < lk_next (release t h s)" using lock_invD(5) [OF inv] by (simp add: s')
  next
    fix k1 k2 j assume "lk_registry (release t h s) k1 = Some j" "lk_registry (release t h s) k2 = Some j"
    then show "k1 = k2" using lock_invD(6) [OF inv] by (simp add: s')
  next
    fix j show "finite (waiters (release t h s) j)" using lock_invD(7) [OF inv] by (simp add: ws)
    show "lk_refs (release t h s) j = card (waiters (release t h s) j) + of_bool (lk_owner (release t h s) j \<noteq> None)"
      unfolding ws using lock_invD(8) [OF inv, of j] own by (cases "j = i") (simp_all add: s')
  qed
qed

lemma reachable_inv: "reachable s \<Longrightarrow> lock_inv s"
proof (induction rule: reachable.induct)
  case init
  then show ?case by (rule lock_inv_init)
next
  case (step s s')
  from step(2,3) show ?case
    by (cases rule: lock_stepE) (auto intro: start_inv lock_inv_step release_inv(1))
qed

section \<open>Mutual exclusion and progress\<close>

text \<open>Thread 0 takes the lock of file 5, then thread 1 asks for it.\<close>

definition sample_locks :: locks where
  "sample_locks = locks_init\<lparr>lk_registry := [5 \<mapsto> 0], lk_refs := (\<lambda>_. 0)(0 := 2), lk_owner := [0 \<mapsto> 0],
     lk_held := (\<lambda>_. [])(0 := [(5, 0)]), lk_phase := (\<lambda>_. Running)(1 := Waiting 5 0), lk_next := 1\<rparr>"

lemma sample_reachable: "reachable sample_locks"
proof -
  let ?s1 = "locks_init\<lparr>lk_registry := [5 \<mapsto> 0], lk_refs := (\<lambda>_. 0)(0 := 1),
    lk_phase := (\<lambda>_. Running)(0 := Waiting 5 0), lk_next := 1\<rparr>"
  let ?s2 = "?s1\<lparr>lk_owner := [0 \<mapsto> 0], lk_held := (\<lambda>_. [])(0 := [(5, 0)]), lk_phase := (\<lambda>_. Running)\<rparr>"
  have "acquire_start 0 5 locks_init = Inr ?s1"
    by (simp add: acquire_start_def wal_lock_for_def locks_init_def Let_def)
  then have 1: "reachable ?s1" using lock_step.start [of locks_init 0] reachable.intros by (simp add: locks_init_def)
  have "acquire_lock 0 ?s1 = Some (Inr (), ?s2)"
    by (simp add: acquire_lock_def locks_init_def Let_def fun_upd_idem)
  then have 2: "reachable ?s2" using 1 lock_step.lock reachable.step by blast
  have "acquire_start 1 5 ?s2 = Inr sample_locks"
    by (simp add: acquire_start_def wal_lock_for_def locks_init_def sample_locks_def numeral_2_eq_2)
  then show ?thesis using 2 lock_step.start [of ?s2 1] reachable.step by (simp add: locks_init_def)
qed

lemma sample_waits: "waits_for sample_locks 1 0"
  by (simp add: waits_for_def acquire_lock_def sample_locks_def locks_init_def)

text \<open>C10: Whatever the interleaving, two threads never hold the log lock of one file, a thread never
  holds it twice, and whoever holds it holds the mutex the registry gives out for the file.\<close>

theorem wal_lock_exclusive:
  assumes "reachable s" and "(key, i) \<in> set (lk_held s t)" and "(key, j) \<in> set (lk_held s t')"
  shows "t = t' \<and> i = j \<and> distinct (map fst (lk_held s t)) \<and> snd (wal_lock_for key s) = s\<lparr>lk_refs := (lk_refs s)(i := lk_refs s i + 1)\<rparr>"
proof -
  note inv = reachable_inv [OF assms(1)]
  note a = lock_invD(1) [OF inv assms(2)] and b = lock_invD(1) [OF inv assms(3)]
  have "inj_on fst (set (lk_held s t))"
  proof (rule inj_onI)
    fix x y assume x: "x \<in> set (lk_held s t)" "y \<in> set (lk_held s t)" "fst x = fst y"
    obtain k u v where "x = (k, u)" "y = (k, v)" using x(3) by (cases x; cases y) auto
    with lock_invD(1) [OF inv, of k u t] lock_invD(1) [OF inv, of k v t] x show "x = y" by simp
  qed
  then have "distinct (map fst (lk_held s t))" using lock_invD(2) [OF inv] by (simp add: distinct_map)
  with a b refs_pos [OF inv disjI1, OF assms(2)] show ?thesis by (simp add: wal_lock_for_def)
qed

theorem wal_lock_exclusive_witness: "snd (wal_lock_for 5 sample_locks) = sample_locks\<lparr>lk_refs := (lk_refs sample_locks)(0 := 3)\<rparr>"
proof -
  have h: "(5, 0) \<in> set (lk_held sample_locks 0)" "lk_refs sample_locks 0 = 2" by (simp_all add: sample_locks_def locks_init_def)
  from wal_lock_exclusive [OF sample_reachable h(1) h(1)] h(2) show ?thesis by (simp add: numeral_eq_Suc)
qed

text \<open>C9: Deadlock is impossible: a thread that another one waits for is never itself waiting in a
  blocking call, so no chain of waiting threads is longer than one; such a thread either runs and can
  release its lock, or is in a nested attempt that returns at once.\<close>

theorem wal_lock_no_deadlock:
  assumes "reachable s" and "waits_for s t t'"
  shows "t \<noteq> t' \<and> \<not> waits_for s t' t''
    \<and> (lk_phase s t' = Running \<and> lk_held s t' \<noteq> [] \<or> (\<exists>r s'. acquire_lock t' s = Some (r, s')))"
proof -
  note inv = reachable_inv [OF assms(1)]
  obtain key i where w: "lk_phase s t = Waiting key i" "acquire_lock t s = None" "lk_owner s i = Some t'"
    using assms(2) by (auto simp: waits_for_def)
  have nil: "lk_held s t = []" using w by (auto simp: acquire_lock_def Let_def split: if_splits)
  obtain k where k: "(k, i) \<in> set (lk_held s t')" using lock_invD(3) [OF inv w(3)] by blast
  then have ne: "lk_held s t' \<noteq> []" by auto
  then have go: "acquire_lock t' s \<noteq> None" if "lk_phase s t' \<noteq> Running"
    using that by (auto simp: acquire_lock_def Let_def split: phase.splits)
  have "\<not> waits_for s t' t''" using go by (auto simp: waits_for_def)
  moreover have "t \<noteq> t'" using nil ne by auto
  ultimately show ?thesis using ne go by fastforce
qed

theorem wal_lock_no_deadlock_witness: "\<forall>t. \<not> waits_for sample_locks 0 t"
  using wal_lock_no_deadlock [OF sample_reachable sample_waits] by blast

end
