(* ===== verification/Descent.thy ===== *)
theory Descent
  imports Teardown Clone
begin

text \<open>
  The steps of a clone descent that the blocks of \<^verbatim>\<open>src/stdlib\<close> share with the generated
  ones, with \<^verbatim>\<open>__bstack_clone_into\<close> of \<^verbatim>\<open>src/types/traits/block.rs\<close>.
\<close>

text \<open>A clone descent threads the plan and the store; its steps are the plan's operations and plain
  store operations.\<close>

definition clone_bind ::
    "('a res \<times> clone_plan) \<times> 's \<Rightarrow> ('a \<Rightarrow> clone_plan \<Rightarrow> 's \<Rightarrow> ('b res \<times> clone_plan) \<times> 's)
      \<Rightarrow> ('b res \<times> clone_plan) \<times> 's" where
  "clone_bind m f = (case m of ((Inl e, p), s) \<Rightarrow> ((Inl e, p), s) | ((Inr x, p), s) \<Rightarrow> f x p s)"

definition clone_store :: "('s \<Rightarrow> 'a res \<times> 's) \<Rightarrow> clone_plan \<Rightarrow> 's \<Rightarrow> ('a res \<times> clone_plan) \<times> 's" where
  "clone_store f p s = (case f s of (r, s') \<Rightarrow> ((r, p), s'))"

definition clone_image ::
    "'s stack_ops \<Rightarrow> unit res \<Rightarrow> u8 list \<Rightarrow> clone_plan \<Rightarrow> 's \<Rightarrow> (range res \<times> clone_plan) \<times> 's" where
  "clone_image io lock img p s =
     clone_bind (plan_alloc_raw io lock (of_nat (length img)) p s) (\<lambda>dst p1 s1.
       ((Inr dst, plan_write (fst dst) img p1), s1))"

text \<open>A copy of a range whose size was read from disk.\<close>

definition clone_range ::
    "'s stack_ops \<Rightarrow> unit res \<Rightarrow> ('s \<Rightarrow> u64 res \<times> 's) \<Rightarrow> io_error \<Rightarrow> range \<Rightarrow> clone_plan \<Rightarrow> 's
      \<Rightarrow> (range res \<times> clone_plan) \<times> 's" where
  "clone_range io lock stack_len too_large q p s =
     clone_bind (clone_store stack_len p s) (\<lambda>len p1 s1.
       if snd q > len then ((Inl too_large, p1), s1)
       else clone_bind (clone_store (op_read io (fst q) (unat (snd q))) p1 s1) (\<lambda>bytes p2 s2.
         clone_bind (plan_alloc_raw io lock (snd q) p2 s2) (\<lambda>dst p3 s3.
           ((Inr dst, plan_write (fst dst) bytes p3), s3))))"

text \<open>\<^verbatim>\<open>__bstack_clone_into\<close> of \<^verbatim>\<open>src/types/traits/block.rs\<close>, for a type given
  by the clone of its children.\<close>

definition clone_into ::
    "'s stack_ops \<Rightarrow> unit res \<Rightarrow> (clone_plan \<Rightarrow> 's \<Rightarrow> (u8 list res \<times> clone_plan) \<times> 's) \<Rightarrow> clone_plan \<Rightarrow> 's
      \<Rightarrow> (range res \<times> clone_plan) \<times> 's" where
  "clone_into io lock clone_children p s =
     clone_bind (clone_children p s) (\<lambda>od p1 s1. clone_image io lock od p1 s1)"

end
