(* ===== verification/Bloom.thy ===== *)
theory Bloom
  imports Probing Tally Descent
begin

text \<open>
  \<^verbatim>\<open>BStackCountingBloomFilter\<close> of \<^verbatim>\<open>src/stdlib/bloom.rs\<close>: one byte
  counter per slot, the indices of a key by double hashing, and an adjustment that reads every touched
  counter and writes it back in one \<^verbatim>\<open>inplace_gen\<close>. A key is its bytes.
  \<^verbatim>\<open>with_capacity\<close> computes the two parameters of \<^verbatim>\<open>new\<close> in floating point
  and \<^verbatim>\<open>estimated_fp_rate\<close> reports a floating-point number; they are not modelled.
\<close>

section \<open>Layout\<close>

definition DATA_OFF :: u64 where "DATA_OFF = HEADER_SIZE"
definition M_OFF :: u64 where "M_OFF = HEADER_SIZE + 8"
definition N_OFF :: u64 where "N_OFF = HEADER_SIZE + 24"
definition BLOOM_SIZE :: u64 where "BLOOM_SIZE = 48"

definition bloom_eightcc :: "nat \<Rightarrow> eightcc" where
  "bloom_eightcc ksz = eightcc_mix (EightCC [66, 108, 109, 0x80, 0x81, 0x82, 0x83, 0x84])
     (EightCC (to_le64 (of_nat ksz)))"

definition bloom_image :: "nat \<Rightarrow> u64 \<Rightarrow> u64 \<Rightarrow> u64 \<Rightarrow> u64 \<Rightarrow> u8 list" where
  "bloom_image ksz data m k n = to_le64 BLOOM_SIZE @ cc_bytes (bloom_eightcc ksz)
     @ to_le64 data @ to_le64 m @ to_le64 k @ to_le64 n"

definition bloom_zero_count :: io_error where
  "bloom_zero_count = IoError InvalidData ''corrupt bloom filter: zero counter count''"

definition bloom_overflow :: io_error where
  "bloom_overflow = IoError InvalidData ''bloom filter offset overflow''"

definition bloom_too_large :: io_error where
  "bloom_too_large = IoError InvalidData ''bloom filter counter array larger than the stack''"

section \<open>Indices\<close>

definition bloom_indices :: "u64 \<Rightarrow> u64 \<Rightarrow> u8 list \<Rightarrow> u64 list res" where
  "bloom_indices m k key =
     (if m = 0 then Inl bloom_zero_count
      else case double_hash key of (h1, h2) \<Rightarrow>
        Inr (map (\<lambda>i. (h1 + of_nat i * h2) mod m) [0..<unat k]))"

definition aggregate :: "u64 list \<Rightarrow> (u64 \<times> u32) list" where
  "aggregate idxs = tally idxs"

section \<open>Construction\<close>

definition bloom_new :: "'s stack_ops \<Rightarrow> nat \<Rightarrow> u64 \<Rightarrow> u64 \<Rightarrow> 's \<Rightarrow> range res \<times> 's" where
  "bloom_new io ksz m0 k0 s =
     (let m = max m0 1; k = max k0 1 in
      try_s (op_alloc io m s) (\<lambda>q s1.
        case op_set io (fst q) (replicate (unat m) 0) s1 of
          (Inl e, s2) \<Rightarrow> (Inl e, snd (op_dealloc io q s2))
        | (Inr _, s2) \<Rightarrow>
            (case alloc_image io (bloom_image ksz (fst q) m k 0) s2 of
               (Inr r, s3) \<Rightarrow> (Inr r, s3)
             | (Inl e, s3) \<Rightarrow> (Inl e, snd (op_dealloc io (fst q, m) s3)))))"

section \<open>Queries\<close>

definition bloom_count :: "'s stack_ops \<Rightarrow> u64 \<Rightarrow> 's \<Rightarrow> u64 res \<times> 's" where
  "bloom_count io handle s = read_u64 io (handle + N_OFF) s"

definition bloom_is_empty :: "'s stack_ops \<Rightarrow> u64 \<Rightarrow> 's \<Rightarrow> bool res \<times> 's" where
  "bloom_is_empty io handle s = try_s (bloom_count io handle s) (\<lambda>n s1. (Inr (n = 0), s1))"

fun contains_loop :: "'s stack_ops \<Rightarrow> u64 \<Rightarrow> u64 list \<Rightarrow> 's \<Rightarrow> bool res \<times> 's" where
  "contains_loop io data [] s = (Inr True, s)"
| "contains_loop io data (idx # idxs) s =
     try_in (ok_or bloom_overflow (checked_add64 data idx)) s (\<lambda>off.
     try_s (op_read io off 1 s) (\<lambda>b s1.
       if b ! 0 = 0 then (Inr False, s1) else contains_loop io data idxs s1))"

definition bloom_contains :: "'s stack_ops \<Rightarrow> u64 \<Rightarrow> u8 list \<Rightarrow> 's \<Rightarrow> bool res \<times> 's" where
  "bloom_contains io handle key s =
     try_s (read_fields io 3 (handle + DATA_OFF) s) (\<lambda>fs s1.
     try_in (bloom_indices (fs ! 1) (fs ! 2) key) s1 (\<lambda>idxs. contains_loop io (fs ! 0) idxs s1))"

section \<open>Adjusting the counters\<close>

text \<open>A counter that ever saturated is pinned at 255.\<close>

definition adjust_counter :: "bool \<Rightarrow> u32 \<Rightarrow> u8 \<Rightarrow> u8" where
  "adjust_counter add n c =
     (let mult = (ucast (min n 255) :: u8) in
      if \<not> add \<and> c = 255 then 255 else if add then sat_add c mult else sat_sub c mult)"

definition adjust_count :: "bool \<Rightarrow> u64 \<Rightarrow> u64" where
  "adjust_count add n = (if add then sat_add n 1 else sat_sub n 1)"

fun counter_offsets :: "u64 \<Rightarrow> (u64 \<times> u32) list \<Rightarrow> u64 list res" where
  "counter_offsets data [] = Inr []"
| "counter_offsets data ((idx, n) # agg) =
     try_r (ok_or bloom_overflow (checked_add64 data idx)) (\<lambda>off.
     try_r (counter_offsets data agg) (\<lambda>offs. Inr (off # offs)))"

fun read_counters :: "'s stack_ops \<Rightarrow> u64 list \<Rightarrow> 's \<Rightarrow> u8 list res \<times> 's" where
  "read_counters io [] s = (Inr [], s)"
| "read_counters io (off # offs) s =
     try_s (op_read io off 1 s) (\<lambda>b s1.
     try_s (read_counters io offs s1) (\<lambda>cs s2. (Inr (b ! 0 # cs), s2)))"

definition adjust_writes :: "u64 \<Rightarrow> bool \<Rightarrow> (u64 \<times> u32) list \<Rightarrow> u64 list \<Rightarrow> u8 list \<Rightarrow> u64 \<Rightarrow> writes" where
  "adjust_writes handle add agg offs cs n =
     map2 (\<lambda>off c. (off, [c])) offs (map2 (\<lambda>a c. adjust_counter add (snd a) c) agg cs)
     @ [w8 (handle + N_OFF) (adjust_count add n)]"

definition bloom_adjust :: "'s stack_ops \<Rightarrow> u64 \<Rightarrow> u8 list \<Rightarrow> bool \<Rightarrow> 's \<Rightarrow> unit res \<times> 's" where
  "bloom_adjust io handle key add s =
     try_s (read_fields io 3 (handle + DATA_OFF) s) (\<lambda>fs s1.
     try_in (bloom_indices (fs ! 1) (fs ! 2) key) s1 (\<lambda>idxs.
       let agg = aggregate idxs in
     try_in (counter_offsets (fs ! 0) agg) s1 (\<lambda>offs.
     try_s (read_counters io offs s1) (\<lambda>cs s2.
     try_s (op_read io (handle + N_OFF) 8 s2) (\<lambda>nb s3.
       op_commit io (adjust_writes handle add agg offs cs (from_le64 nb)) s3)))))"

definition bloom_insert :: "'s stack_ops \<Rightarrow> u64 \<Rightarrow> u8 list \<Rightarrow> 's \<Rightarrow> unit res \<times> 's" where
  "bloom_insert io handle key s = bloom_adjust io handle key True s"

definition bloom_remove :: "'s stack_ops \<Rightarrow> u64 \<Rightarrow> u8 list \<Rightarrow> 's \<Rightarrow> unit res \<times> 's" where
  "bloom_remove io handle key s = bloom_adjust io handle key False s"

text \<open>\<open>stack_len\<close> is the allocator's length query.\<close>

definition bloom_clear :: "'s stack_ops \<Rightarrow> ('s \<Rightarrow> u64 res \<times> 's) \<Rightarrow> u64 \<Rightarrow> 's \<Rightarrow> unit res \<times> 's" where
  "bloom_clear io stack_len handle s =
     try_s (read_fields io 2 (handle + DATA_OFF) s) (\<lambda>fs s1.
     try_s (stack_len s1) (\<lambda>len s2.
       if fs ! 1 > len then (Inl bloom_too_large, s2)
       else op_commit io [(fs ! 0, replicate (unat (fs ! 1)) 0), w8 (handle + N_OFF) 0] s2))"

section \<open>Teardown and clone\<close>

definition bloom_drop_children :: "'s allocator \<Rightarrow> 's dropper" where
  "bloom_drop_children al q t =
     try_s (on_store (read_fields (al_io al) 2 (fst q + DATA_OFF)) t) (\<lambda>fs t1.
       if fs ! 0 \<noteq> 0 then dealloc_range al (fs ! 0, fs ! 1) t1 else (Inr (), t1))"

definition bloom_clone_children ::
    "'s stack_ops \<Rightarrow> unit res \<Rightarrow> ('s \<Rightarrow> u64 res \<times> 's) \<Rightarrow> nat \<Rightarrow> u64 \<Rightarrow> clone_plan \<Rightarrow> 's
      \<Rightarrow> (u8 list res \<times> clone_plan) \<times> 's" where
  "bloom_clone_children io lock stack_len ksz handle p s =
     clone_bind (clone_store (read_fields io 4 (handle + DATA_OFF)) p s) (\<lambda>fs p1 s1.
       let data = fs ! 0; m = fs ! 1; k = fs ! 2; n = fs ! 3 in
       if m \<noteq> 0 then
         clone_bind (clone_range io lock stack_len bloom_too_large (data, m) p1 s1) (\<lambda>dst p2 s2.
           ((Inr (bloom_image ksz (fst dst) m k n), p2), s2))
       else ((Inr (bloom_image ksz 0 m k n), p1), s1))"

end
