(* ===== verification/HashSet.thy ===== *)
theory HashSet
  imports HashMap Bloom
begin

text \<open>
  \<^verbatim>\<open>BStackHashSet\<close> of \<^verbatim>\<open>src/stdlib/hashset.rs\<close>: the open-addressing
  table of the map without a value column, with a counting Bloom filter in front. The file repeats the
  constants of \<^verbatim>\<open>map.rs\<close> for the metadata offsets, bucket states and the smallest
  capacity; those of the theory HashMap are used. The cells captured by the closures of
  \<^verbatim>\<open>table_insert\<close> are the record \<open>set_cells\<close>. The sizes of the filter, which
  the constructor computes in floating point, are arguments.
\<close>

section \<open>Layout\<close>

definition BLOOM_OFF :: u64 where "BLOOM_OFF = HEADER_SIZE + 32"
definition SET_SIZE :: u64 where "SET_SIZE = 56"

definition set_stride :: "nat \<Rightarrow> u64" where
  "set_stride ksz = 8 + of_nat ksz"

definition set_eightcc :: "nat \<Rightarrow> eightcc" where
  "set_eightcc ksz = eightcc_mix (EightCC [72, 83, 116, 0x80, 0x81, 0x82, 0x83, 0x84])
     (EightCC (to_le64 (of_nat ksz)))"

definition set_image :: "nat \<Rightarrow> u64 \<Rightarrow> u64 \<Rightarrow> u64 \<Rightarrow> u64 \<Rightarrow> u64 \<Rightarrow> u8 list" where
  "set_image ksz table cap len used bloom = to_le64 SET_SIZE @ cc_bytes (set_eightcc ksz)
     @ to_le64 table @ to_le64 cap @ to_le64 len @ to_le64 used @ to_le64 bloom"

definition set_bloom :: "'s stack_ops \<Rightarrow> u64 \<Rightarrow> 's \<Rightarrow> u64 res \<times> 's" where
  "set_bloom io handle s = read_u64 io (handle + BLOOM_OFF) s"

definition set_with_capacity ::
    "unit res \<Rightarrow> 's allocator \<Rightarrow> nat \<Rightarrow> u64 \<Rightarrow> u64 \<Rightarrow> 's thread \<Rightarrow> range res \<times> 's thread" where
  "set_with_capacity lock al ksz m k t =
     try_s (on_store (bloom_new (al_io al) ksz m k) t) (\<lambda>bloom t1.
       case on_store (alloc_image (al_io al) (set_image ksz 0 0 0 0 (fst bloom))) t1 of
         (Inr r, t2) \<Rightarrow> (Inr r, t2)
       | (Inl e, t2) \<Rightarrow>
           (Inl e, snd (owned_drop lock al (bloom_drop_children al) (fst bloom, BLOOM_SIZE) t2)))"

definition set_len :: "'s stack_ops \<Rightarrow> u64 \<Rightarrow> 's \<Rightarrow> u64 res \<times> 's" where
  "set_len io handle s = read_u64 io (handle + LEN_OFF) s"

definition set_is_empty :: "'s stack_ops \<Rightarrow> u64 \<Rightarrow> 's \<Rightarrow> bool res \<times> 's" where
  "set_is_empty io handle s = try_s (set_len io handle s) (\<lambda>n s1. (Inr (n = 0), s1))"

section \<open>The table\<close>

definition place_writes :: "u64 \<Rightarrow> u64 \<Rightarrow> u8 list \<Rightarrow> meta \<Rightarrow> u64 \<Rightarrow> bool \<Rightarrow> writes res" where
  "place_writes handle stride key m target slot_was_empty =
     try_r (checked_off_mul (m_table m) target stride) (\<lambda>off.
       Inr ([(off, to_le64 OCCUPIED @ key), w8 (handle + LEN_OFF) (m_len m + 1)]
         @ (if slot_was_empty then [w8 (handle + USED_OFF) (m_used m + 1)] else [])))"

record set_cells =
  sc_tomb :: "u64 option"
  sc_new :: bool
  sc_grow :: bool

definition set_cells_init :: set_cells where
  "set_cells_init = \<lparr>sc_tomb = None, sc_new = False, sc_grow = False\<rparr>"

definition set_insert_inspect ::
    "u64 \<Rightarrow> u64 \<Rightarrow> nat \<Rightarrow> u8 list \<Rightarrow> meta \<Rightarrow> u64 \<Rightarrow> u8 list \<Rightarrow> set_cells \<Rightarrow> probe_step \<times> set_cells" where
  "set_insert_inspect handle stride ksz key m idx buf c =
     (let state = get_u64 (slice 0 8 buf) in
      if state = EMPTY then
        (Stop (place_writes handle stride key m
           (case sc_tomb c of Some t \<Rightarrow> t | None \<Rightarrow> idx) (sc_tomb c = None)), c\<lparr>sc_new := True\<rparr>)
      else if state = OCCUPIED \<and> slice 8 ksz buf = key then (Stop (Inr []), c)
      else (Continue,
        if state = TOMBSTONE \<and> sc_tomb c = None then c\<lparr>sc_tomb := Some idx\<rparr> else c))"

definition set_insert_exhausted ::
    "u64 \<Rightarrow> u64 \<Rightarrow> u8 list \<Rightarrow> meta \<Rightarrow> set_cells \<Rightarrow> writes res \<times> set_cells" where
  "set_insert_exhausted handle stride key m c =
     (case sc_tomb c of
        Some t \<Rightarrow> (place_writes handle stride key m t False, c\<lparr>sc_new := True\<rparr>)
      | None \<Rightarrow> (Inr [], c\<lparr>sc_grow := True\<rparr>))"

definition set_grow :: "'s stack_ops \<Rightarrow> nat \<Rightarrow> u64 \<Rightarrow> 's \<Rightarrow> (unit res \<times> 's) option" where
  "set_grow io ksz handle s = grow_table io handle (set_stride ksz) ksz OCCUPIED MIN_CAP s"

text \<open>The retry loop with a bound on its iterations; \<open>None\<close> is a loop that has not ended.\<close>

fun table_insert :: "nat \<Rightarrow> 's stack_ops \<Rightarrow> nat \<Rightarrow> u64 \<Rightarrow> u8 list \<Rightarrow> 's \<Rightarrow> (bool res \<times> 's) option" where
  "table_insert 0 io ksz handle key s = None"
| "table_insert (Suc fuel) io ksz handle key s =
     (case read_fields io 3 (handle + CAP_OFF) s of
        (Inl e, s1) \<Rightarrow> Some (Inl e, s1)
      | (Inr fs, s1) \<Rightarrow>
          if over_loaded (fs ! 0) (fs ! 2) then
            (case set_grow io ksz handle s1 of
               None \<Rightarrow> None
             | Some (Inl e, s2) \<Rightarrow> Some (Inl e, s2)
             | Some (Inr _, s2) \<Rightarrow> table_insert fuel io ksz handle key s2)
          else
            (case probe_commit io handle (set_stride ksz) (fnv1a key)
                    (set_insert_inspect handle (set_stride ksz) ksz key)
                    (set_insert_exhausted handle (set_stride ksz) key) set_cells_init s1 of
               (Inl e, s2) \<Rightarrow> Some (Inl e, s2)
             | (Inr c, s2) \<Rightarrow>
                 if sc_grow c then
                   (case set_grow io ksz handle s2 of
                      None \<Rightarrow> None
                    | Some (Inl e, s3) \<Rightarrow> Some (Inl e, s3)
                    | Some (Inr _, s3) \<Rightarrow> table_insert fuel io ksz handle key s3)
                 else Some (Inr (sc_new c), s2)))"

definition set_remove_inspect ::
    "u64 \<Rightarrow> u64 \<Rightarrow> nat \<Rightarrow> u8 list \<Rightarrow> meta \<Rightarrow> u64 \<Rightarrow> u8 list \<Rightarrow> bool \<Rightarrow> probe_step \<times> bool" where
  "set_remove_inspect handle stride ksz key m idx buf c =
     (let state = get_u64 (slice 0 8 buf) in
      if state = EMPTY then (Stop (Inr []), c)
      else if state = OCCUPIED \<and> slice 8 ksz buf = key then
        (Stop (try_r (checked_off_mul (m_table m) idx stride) (\<lambda>off.
           Inr [w8 off TOMBSTONE, w8 (handle + LEN_OFF) (m_len m - 1)])), True)
      else (Continue, c))"

definition table_remove :: "'s stack_ops \<Rightarrow> nat \<Rightarrow> u64 \<Rightarrow> u8 list \<Rightarrow> 's \<Rightarrow> bool res \<times> 's" where
  "table_remove io ksz handle key s =
     probe_commit io handle (set_stride ksz) (fnv1a key)
       (set_remove_inspect handle (set_stride ksz) ksz key) (\<lambda>m c. (Inr [], c)) False s"

fun table_contains_loop ::
    "nat \<Rightarrow> 's stack_ops \<Rightarrow> nat \<Rightarrow> u8 list \<Rightarrow> u64 \<Rightarrow> u64 \<Rightarrow> u64 \<Rightarrow> 's \<Rightarrow> bool res \<times> 's" where
  "table_contains_loop 0 io ksz key table msk idx s = (Inr False, s)"
| "table_contains_loop (Suc n) io ksz key table msk idx s =
     try_in (checked_off_mul table idx (set_stride ksz)) s (\<lambda>bucket.
     try_s (op_read io bucket (unat (set_stride ksz)) s) (\<lambda>buf s1.
       let state = get_u64 (slice 0 8 buf) in
       if state = EMPTY then (Inr False, s1)
       else if state = OCCUPIED \<and> slice 8 ksz buf = key then (Inr True, s1)
       else table_contains_loop n io ksz key table msk ((idx + 1) AND msk) s1))"

definition table_contains :: "'s stack_ops \<Rightarrow> nat \<Rightarrow> u64 \<Rightarrow> u8 list \<Rightarrow> 's \<Rightarrow> bool res \<times> 's" where
  "table_contains io ksz handle key s =
     try_s (read_fields io 2 (handle + TABLE_OFF) s) (\<lambda>fs s1.
       let table = fs ! 0; cap = fs ! 1 in
       if cap = 0 then (Inr False, s1)
       else table_contains_loop (unat cap) io ksz key table (cap - 1) (fnv1a key AND (cap - 1)) s1)"

section \<open>The set operations\<close>

text \<open>The filter is raised before the table and lowered after it.\<close>

definition set_insert ::
    "nat \<Rightarrow> 's stack_ops \<Rightarrow> nat \<Rightarrow> u64 \<Rightarrow> u8 list \<Rightarrow> 's \<Rightarrow> (bool res \<times> 's) option" where
  "set_insert fuel io ksz handle key s =
     (case set_bloom io handle s of
        (Inl e, s1) \<Rightarrow> Some (Inl e, s1)
      | (Inr bloom, s1) \<Rightarrow>
          (case bloom_insert io bloom key s1 of
             (Inl e, s2) \<Rightarrow> Some (Inl e, s2)
           | (Inr _, s2) \<Rightarrow>
               (case table_insert fuel io ksz handle key s2 of
                  None \<Rightarrow> None
                | Some (Inl e, s3) \<Rightarrow> Some (Inl e, s3)
                | Some (Inr was_new, s3) \<Rightarrow>
                    Some (if \<not> was_new then try_s (bloom_remove io bloom key s3) (\<lambda>_ s4. (Inr was_new, s4))
                          else (Inr was_new, s3)))))"

definition set_remove :: "'s stack_ops \<Rightarrow> nat \<Rightarrow> u64 \<Rightarrow> u8 list \<Rightarrow> 's \<Rightarrow> bool res \<times> 's" where
  "set_remove io ksz handle key s =
     try_s (table_remove io ksz handle key s) (\<lambda>was_present s1.
       (Inr was_present,
        if was_present then snd (try_s (set_bloom io handle s1) (\<lambda>bloom s2. bloom_remove io bloom key s2))
        else s1))"

definition set_contains :: "'s stack_ops \<Rightarrow> nat \<Rightarrow> u64 \<Rightarrow> u8 list \<Rightarrow> 's \<Rightarrow> bool res \<times> 's" where
  "set_contains io ksz handle key s =
     try_s (set_bloom io handle s) (\<lambda>bloom s1.
     try_s (bloom_contains io bloom key s1) (\<lambda>maybe s2.
       if \<not> maybe then (Inr False, s2) else table_contains io ksz handle key s2))"

section \<open>Iteration\<close>

record set_iter =
  si_block :: u64
  si_table :: u64
  si_cap :: u64
  si_len :: u64
  si_idx :: u64

definition set_iter_new :: "'s stack_ops \<Rightarrow> u64 \<Rightarrow> 's \<Rightarrow> set_iter res \<times> 's" where
  "set_iter_new io handle s =
     try_s (read_fields io 3 (handle + TABLE_OFF) s) (\<lambda>fs s1.
       (Inr \<lparr>si_block = handle, si_table = fs ! 0, si_cap = fs ! 1, si_len = fs ! 2, si_idx = 0\<rparr>, s1))"

definition set_iter_mutated :: io_error where
  "set_iter_mutated = IoError InvalidData ''BStackHashSet was mutated during iteration (its table/len changed); the iterator is invalidated''"

fun set_iter_scan ::
    "nat \<Rightarrow> 's stack_ops \<Rightarrow> nat \<Rightarrow> set_iter \<Rightarrow> 's \<Rightarrow> u8 list res option \<times> set_iter \<times> 's" where
  "set_iter_scan 0 io ksz it s = (None, it, s)"
| "set_iter_scan (Suc n) io ksz it s =
     (let it' = it\<lparr>si_idx := si_idx it + 1\<rparr> in
      case checked_off_mul (si_table it) (si_idx it) (set_stride ksz) of
        Inl e \<Rightarrow> (Some (Inl e), it\<lparr>si_idx := si_cap it\<rparr>, s)
      | Inr bucket \<Rightarrow>
          (case op_read io bucket (unat (set_stride ksz)) s of
             (Inl e, s1) \<Rightarrow> (Some (Inl e), it\<lparr>si_idx := si_cap it\<rparr>, s1)
           | (Inr buf, s1) \<Rightarrow>
               if get_u64 (slice 0 8 buf) = OCCUPIED then (Some (Inr (slice 8 ksz buf)), it', s1)
               else set_iter_scan n io ksz it' s1))"

definition set_iter_next ::
    "'s stack_ops \<Rightarrow> nat \<Rightarrow> set_iter \<Rightarrow> 's \<Rightarrow> u8 list res option \<times> set_iter \<times> 's" where
  "set_iter_next io ksz it s =
     (if si_idx it < si_cap it then
        (case read_fields io 3 (si_block it + TABLE_OFF) s of
           (Inl e, s1) \<Rightarrow> (Some (Inl e), it\<lparr>si_idx := si_cap it\<rparr>, s1)
         | (Inr fs, s1) \<Rightarrow>
             if fs ! 0 = si_table it \<and> fs ! 1 = si_cap it \<and> fs ! 2 = si_len it
             then set_iter_scan (unat (si_cap it) - unat (si_idx it)) io ksz it s1
             else (Some (Inl set_iter_mutated), it\<lparr>si_idx := si_cap it\<rparr>, s1))
      else (None, it, s))"

section \<open>Teardown and clone\<close>

definition set_capacity_overflow :: io_error where
  "set_capacity_overflow = IoError InvalidData ''hash set capacity overflow''"

definition set_block_too_large :: io_error where
  "set_block_too_large = IoError InvalidData ''hash set bucket block larger than the stack''"

text \<open>\<open>stack_len\<close> is the allocator's length query.\<close>

definition set_drop_children :: "unit res \<Rightarrow> 's allocator \<Rightarrow> ('s \<Rightarrow> u64 res \<times> 's) \<Rightarrow> nat \<Rightarrow> 's dropper" where
  "set_drop_children lock al stack_len ksz q t =
     try_s (on_store (read_fields (al_io al) 5 (fst q + TABLE_OFF)) t) (\<lambda>fs t1.
       let table = fs ! 0; cap = fs ! 1; bloom = fs ! 4 in
       try_s (if table \<noteq> 0 then
                try_in (ok_or set_capacity_overflow (checked_mul64 cap (set_stride ksz))) t1 (\<lambda>table_size.
                try_s (on_store stack_len t1) (\<lambda>len t2.
                  if table_size > len then (Inl set_block_too_large, t2)
                  else dealloc_range al (table, table_size) t2))
              else (Inr (), t1)) (\<lambda>_ t3.
         if bloom \<noteq> 0 then owned_drop lock al (bloom_drop_children al) (bloom, BLOOM_SIZE) t3
         else (Inr (), t3)))"

definition set_clone_children ::
    "'s stack_ops \<Rightarrow> unit res \<Rightarrow> ('s \<Rightarrow> u64 res \<times> 's) \<Rightarrow> nat \<Rightarrow> u64 \<Rightarrow> clone_plan \<Rightarrow> 's
      \<Rightarrow> (u8 list res \<times> clone_plan) \<times> 's" where
  "set_clone_children io lock stack_len ksz handle p s =
     clone_bind (clone_store (read_fields io 5 (handle + TABLE_OFF)) p s) (\<lambda>fs p1 s1.
       let table = fs ! 0; cap = fs ! 1; len = fs ! 2; used = fs ! 3; bloom = fs ! 4 in
       clone_bind
         (if cap \<noteq> 0 then
            (case checked_mul64 cap (set_stride ksz) of
               None \<Rightarrow> ((Inl set_capacity_overflow, p1), s1)
             | Some table_size \<Rightarrow>
                 clone_bind (clone_range io lock stack_len set_block_too_large (table, table_size) p1 s1)
                   (\<lambda>dst p2 s2. ((Inr (fst dst), p2), s2)))
          else ((Inr 0, p1), s1)) (\<lambda>new_table p3 s3.
       clone_bind (clone_into io lock (bloom_clone_children io lock stack_len ksz bloom) p3 s3) (\<lambda>nb p4 s4.
         ((Inr (set_image ksz new_table cap len used (fst nb)), p4), s4))))"

end
