(* ===== verification/BloomProps.thy ===== *)
theory BloomProps
  imports Bloom Blocks CloneProps "HOL-Library.Multiset"
begin

text \<open>
  The counting Bloom filter never reports a key absent that it holds: as long as every removed key was
  inserted before, each counter is at least the number of times the held keys map to it, or pinned at
  255. An adjustment is one atomic step, and a failed one changes nothing.
\<close>

section \<open>Indices and counters\<close>

definition key_indices :: "u64 \<Rightarrow> u64 \<Rightarrow> u8 list \<Rightarrow> u64 list" where
  "key_indices m k key = (case double_hash key of (h1, h2) \<Rightarrow> map (\<lambda>i. (h1 + of_nat i * h2) mod m) [0..<unat k])"

lemma bloom_indices_ok: "m \<noteq> 0 \<Longrightarrow> bloom_indices m k key = Inr (key_indices m k key)"
  by (simp add: bloom_indices_def key_indices_def split: prod.split)

lemma length_key_indices [simp]: "length (key_indices m k key) = unat k"
  by (simp add: key_indices_def split: prod.split)

lemma key_index_less: "m \<noteq> 0 \<Longrightarrow> x \<in> set (key_indices m k key) \<Longrightarrow> unat x < unat m"
  by (auto simp: key_indices_def unat_mod unat_gt_0 split: prod.splits)

text \<open>How often a key maps to a slot.\<close>

definition hits :: "u64 \<Rightarrow> u64 \<Rightarrow> u8 list \<Rightarrow> nat \<Rightarrow> nat" where
  "hits m k key i = count_list (key_indices m k key) (of_nat i)"

lemma hits_bound: "hits m k key i \<le> unat k"
  using count_le_length [of "key_indices m k key"] by (simp add: hits_def)

definition slot :: "u8 list \<Rightarrow> u64 \<Rightarrow> nat \<Rightarrow> u8" where
  "slot b data i = b ! (unat data + i)"

text \<open>The filter holds the keys of \<open>M\<close>, with multiplicity.\<close>

definition covers :: "u64 \<Rightarrow> u64 \<Rightarrow> u64 \<Rightarrow> u8 list multiset \<Rightarrow> u8 list \<Rightarrow> bool" where
  "covers data m k M b \<longleftrightarrow> (\<forall>i < unat m.
     slot b data i = 255 \<or> (\<Sum>key \<in># M. hits m k key i) \<le> unat (slot b data i))"

lemma covers_mono:
  assumes "covers data m k M b" and "M' \<subseteq># M"
  shows "covers data m k M' b"
proof -
  obtain N where N: "M = M' + N" using assms(2) by (metis subset_mset.add_diff_inverse)
  have "(\<Sum>key \<in># M'. hits m k key i) \<le> (\<Sum>key \<in># M. hits m k key i)" for i by (simp add: N)
  with assms(1) show ?thesis unfolding covers_def by (meson order.trans)
qed

lemma adjust_counter_unat:
  assumes "n < 2 ^ 32"
  shows "unat (adjust_counter True (of_nat n) c) = min (unat c + min n 255) 255"
    and "unat (adjust_counter False (of_nat n) c) = (if c = 255 then 255 else unat c - min n 255)"
proof -
  have "unat (min (of_nat n :: u32) 255) = min n 255"
    using assms by (auto simp: min_def word_le_nat_alt unat_of_nat)
  then have "unat (ucast (min (of_nat n :: u32) 255) :: u8) = min n 255"
    by (simp add: unsigned_ucast_eq min_def take_bit_nat_eq_self)
  then show "unat (adjust_counter True (of_nat n) c) = min (unat c + min n 255) 255"
    and "unat (adjust_counter False (of_nat n) c) = (if c = 255 then 255 else unat c - min n 255)"
    by (simp_all add: adjust_counter_def Let_def unat_sat_add unat_sat_sub)
qed

text \<open>The effect of an adjustment on the counters.\<close>

definition adjusted :: "bool \<Rightarrow> u64 \<Rightarrow> u64 \<Rightarrow> u64 \<Rightarrow> u8 list \<Rightarrow> u8 list \<Rightarrow> u8 list \<Rightarrow> bool" where
  "adjusted add data m k key b b' \<longleftrightarrow> (\<forall>i < unat m. slot b' data i =
     (if hits m k key i = 0 then slot b data i
      else adjust_counter add (of_nat (hits m k key i)) (slot b data i)))"

lemma u8_255: "(c :: u8) = 255 \<longleftrightarrow> unat c = 255"
  by (simp add: word_unat_eq_iff)

lemma covers_insert:
  assumes a: "adjusted True data m k key b b'" and k: "unat k < 2 ^ 32" and c: "covers data m k M b"
  shows "covers data m k (add_mset key M) b'"
  unfolding covers_def
proof (intro allI impI)
  fix i assume i: "i < unat m"
  have h: "hits m k key i < 2 ^ 32" using hits_bound [of m k key i] k by simp
  have s: "slot b' data i = (if hits m k key i = 0 then slot b data i
      else adjust_counter True (of_nat (hits m k key i)) (slot b data i))" using a i by (simp add: adjusted_def)
  then have u: "unat (slot b' data i) = (if hits m k key i = 0 then unat (slot b data i)
      else min (unat (slot b data i) + min (hits m k key i) 255) 255)"
    using adjust_counter_unat(1) [OF h] by simp
  have "slot b data i = 255 \<or> (\<Sum>key \<in># M. hits m k key i) \<le> unat (slot b data i)"
    using c i by (simp add: covers_def)
  then show "slot b' data i = 255 \<or> (\<Sum>key \<in># add_mset key M. hits m k key i) \<le> unat (slot b' data i)"
    unfolding u8_255 u by (auto simp: min_def split: if_splits)
qed

lemma covers_remove:
  assumes a: "adjusted False data m k key b b'" and k: "unat k < 2 ^ 32" and c: "covers data m k M b"
    and key: "key \<in># M"
  shows "covers data m k (M - {#key#}) b'"
  unfolding covers_def
proof (intro allI impI)
  fix i assume i: "i < unat m"
  have h: "hits m k key i < 2 ^ 32" using hits_bound [of m k key i] k by simp
  have s: "slot b' data i = (if hits m k key i = 0 then slot b data i
      else adjust_counter False (of_nat (hits m k key i)) (slot b data i))" using a i by (simp add: adjusted_def)
  then have u: "unat (slot b' data i) = (if hits m k key i = 0 then unat (slot b data i)
      else if slot b data i = 255 then 255 else unat (slot b data i) - min (hits m k key i) 255)"
    using adjust_counter_unat(2) [OF h] by simp
  have "slot b data i = 255 \<or> (\<Sum>key \<in># M. hits m k key i) \<le> unat (slot b data i)"
    using c i by (simp add: covers_def)
  moreover obtain M' where M: "M = add_mset key M'" using key by (meson mset_add)
  ultimately show "slot b' data i = 255 \<or> (\<Sum>key \<in># M - {#key#}. hits m k key i) \<le> unat (slot b' data i)"
    unfolding u8_255 u by (auto simp: M min_def)
qed

text \<open>A held key has no zero counter.\<close>

lemma covers_present:
  assumes "covers data m k M b" and "key \<in># M" and "m \<noteq> 0" and x: "x \<in> set (key_indices m k key)"
  shows "slot b data (unat x) \<noteq> 0"
proof -
  have "unat x < unat m" using key_index_less assms(3) x by blast
  then have c: "slot b data (unat x) = 255 \<or> (\<Sum>key \<in># M. hits m k key (unat x)) \<le> unat (slot b data (unat x))"
    using assms(1) by (simp add: covers_def)
  obtain M' where M: "M = add_mset key M'" using assms(2) by (meson mset_add)
  have "hits m k key (unat x) \<noteq> 0"
    using x by (simp add: hits_def count_list_0_iff)
  then have ne: "(\<Sum>key \<in># M. hits m k key (unat x)) \<noteq> 0" by (simp add: M)
  show ?thesis
  proof
    assume "slot b data (unat x) = 0"
    with c have "(\<Sum>key \<in># M. hits m k key (unat x)) \<le> 0" unfolding u8_255 by simp
    with ne show False by (simp only: le_zero_eq)
  qed
qed

section \<open>The filter in the store\<close>

definition bloom_at ::
    "'s stack_view \<Rightarrow> u64 \<Rightarrow> range \<Rightarrow> u64 \<Rightarrow> u64 \<Rightarrow> u64 \<Rightarrow> 's \<Rightarrow> bool" where
  "bloom_at vw h Hb data m k s \<longleftrightarrow> v_good vw s \<and> Hb \<in> v_live vw s \<and> inside (unat h) 48 Hb
     \<and> (data, m) \<in> v_live vw s \<and> (data, m) \<noteq> Hb \<and> unat k < 2 ^ 32
     \<and> from_le64 (slice (unat h + 16) 8 (v_bytes vw s)) = data
     \<and> from_le64 (slice (unat h + 24) 8 (v_bytes vw s)) = m
     \<and> from_le64 (slice (unat h + 32) 8 (v_bytes vw s)) = k"

lemma nth_apply_bytes:
  assumes "length cs = length offs" and "distinct offs" and "\<forall>off \<in> set offs. unat off < length b" and "j < length b"
  shows "apply_writes (map2 (\<lambda>off c. (off, [c])) offs cs) b ! j =
    (case map_of (zip (map unat offs) cs) j of Some c \<Rightarrow> c | None \<Rightarrow> b ! j)"
  using assms
proof (induction offs cs arbitrary: b rule: list_induct2')
  case (4 off offs c cs)
  have l: "length (overwrite (unat off) [c] b) = length b" using 4 by simp
  have o: "overwrite (unat off) [c] b ! j = (if j = unat off then c else b ! j)"
    using 4 by (auto simp: nth_overwrite)
  have "unat off \<notin> set (map unat offs)" using 4(3) by (auto simp: word_unat_eq_iff [symmetric])
  then have "map_of (zip (map unat offs) cs) (unat off) = None"
    by (auto simp: map_of_eq_None_iff dest: set_zip_leftD)
  moreover have "apply_writes (map2 (\<lambda>off c. (off, [c])) offs cs) (overwrite (unat off) [c] b) ! j =
      (case map_of (zip (map unat offs) cs) j of Some c \<Rightarrow> c | None \<Rightarrow> overwrite (unat off) [c] b ! j)"
    by (rule "4.IH") (use 4 l in auto)
  ultimately show ?case using o by (auto split: option.splits)
qed simp_all

context stack_laws
begin

text \<open>Consecutive words anywhere in the store.\<close>

lemma fields_at:
  assumes g: "v_good vw s" and r: "read_fields io n off s = (rf, s')"
  shows "unchanged vw s s'"
    and "rf = Inr fs \<Longrightarrow> i < n \<Longrightarrow> fs ! i = from_le64 (slice (unat off + 8 * i) 8 (v_bytes vw s))"
    and "v_calm vw s \<Longrightarrow> unat off + n * 8 \<le> length (v_bytes vw s) \<Longrightarrow> v_calm vw s' \<and> (\<exists>fs. rf = Inr fs)"
proof -
  obtain rb s1 where rd: "op_read io off (n * 8) s = (rb, s1)" by (cases "op_read io off (n * 8) s")
  note rb = read_bytes [OF g rd]
  have res: "s' = s1" "rf = (case rb of Inl e \<Rightarrow> Inl e | Inr b \<Rightarrow> Inr (fields_of n b))"
    using r rd by (cases rb; simp add: read_fields_def)+
  show "unchanged vw s s'" using rb(1) res(1) by simp
  show "fs ! i = from_le64 (slice (unat off + 8 * i) 8 (v_bytes vw s))" if "rf = Inr fs" "i < n"
  proof (cases rb)
    case (Inl e)
    with res(2) that show ?thesis by simp
  next
    case (Inr b)
    with res(2) that rb(2) [OF Inr] show ?thesis by (simp add: fields_of_def slice_slice)
  qed
  show "v_calm vw s' \<and> (\<exists>fs. rf = Inr fs)" if "v_calm vw s" "unat off + n * 8 \<le> length (v_bytes vw s)"
    using calm_read [OF g that] rd res by auto
qed

lemma bloom_geom:
  assumes "bloom_at vw h Hb data m k s"
  shows "unat data + unat m \<le> length (v_bytes vw s)" and "length (v_bytes vw s) < 2 ^ 63"
    and "unat h + 48 \<le> length (v_bytes vw s)" and "m \<noteq> 0"
    and "unat h + 48 \<le> unat data \<or> unat data + unat m \<le> unat h" and "v_good vw s"
proof -
  have g: "v_good vw s" and Hb: "Hb \<in> v_live vw s" "inside (unat h) 48 Hb"
    and D: "(data, m) \<in> v_live vw s" "(data, m) \<noteq> Hb" using assms by (simp_all add: bloom_at_def)
  show "v_good vw s" by (rule g)
  show "unat data + unat m \<le> length (v_bytes vw s)" "m \<noteq> 0"
    using good_live [OF g D(1)] by (auto simp: range_end_def)
  show "length (v_bytes vw s) < 2 ^ 63" using good_store [OF g] by simp
  show "unat h + 48 \<le> length (v_bytes vw s)" using good_live [OF g Hb(1)] Hb(2) by (simp add: inside_def)
  have "apart Hb (data, m)" using good_apart [OF g Hb(1) D(1)] D(2) by blast
  from inside_apart [OF Hb(2) this] show "unat h + 48 \<le> unat data \<or> unat data + unat m \<le> unat h"
    by (auto simp: range_end_def)
qed

lemma bloom_word:
  assumes "bloom_at vw h Hb data m k s" and "unat w \<le> 48"
  shows "unat (h + w) = unat h + unat w"
  using bloom_geom [OF assms(1)] assms(2) by (intro unat_plus_u64) simp

lemma bloom_fields:
  assumes at: "bloom_at vw h Hb data m k s" and r: "read_fields io 3 (h + DATA_OFF) s = (rf, s')"
  shows "unchanged vw s s'" and "rf = Inr fs \<Longrightarrow> fs ! 0 = data \<and> fs ! 1 = m \<and> fs ! 2 = k"
    and "v_calm vw s \<Longrightarrow> v_calm vw s' \<and> (\<exists>fs. rf = Inr fs)"
proof -
  have o: "unat (h + DATA_OFF) = unat h + 16"
    using bloom_word [OF at, of DATA_OFF] by (simp add: DATA_OFF_def HEADER_SIZE_def)
  note f = fields_at [OF bloom_geom(6) [OF at] r, unfolded o]
  show "unchanged vw s s'" by (rule f(1))
  show "fs ! 0 = data \<and> fs ! 1 = m \<and> fs ! 2 = k" if "rf = Inr fs"
    using f(2) [OF that, of 0] f(2) [OF that, of 1] f(2) [OF that, of 2] at
    by (simp add: bloom_at_def add.commute [of 24] add.commute [of 32])
  show "v_calm vw s' \<and> (\<exists>fs. rf = Inr fs)" if "v_calm vw s"
    using f(3) [OF that] bloom_geom(3) [OF at] by simp
qed

lemma bloom_at_unchanged: "bloom_at vw h Hb data m k s \<Longrightarrow> unchanged vw s s' \<Longrightarrow> bloom_at vw h Hb data m k s'"
  by (simp add: bloom_at_def unchanged_def)

section \<open>Queries\<close>

lemma contains_loop_ok:
  assumes "v_good vw s" and "unat data + unat m \<le> length (v_bytes vw s)" and "length (v_bytes vw s) < 2 ^ 63"
    and "\<forall>x \<in> set idxs. unat x < unat m" and "contains_loop io data idxs s = (r, s')"
  shows "unchanged vw s s' \<and> (\<forall>v. r = Inr v \<longrightarrow> v = (\<forall>x \<in> set idxs. slot (v_bytes vw s) data (unat x) \<noteq> 0))
    \<and> (v_calm vw s \<longrightarrow> v_calm vw s' \<and> (\<exists>v. r = Inr v))"
  using assms
proof (induction idxs arbitrary: s r s')
  case (Cons x idxs)
  have x: "unat x < unat m" using Cons.prems(4) by simp
  have u: "unat data + unat x < u64_limit" using Cons.prems(2,3) x by simp
  then have ca: "checked_add64 data x = Some (data + x)" by (simp add: checked_add64_def)
  have ud: "unat (data + x) = unat data + unat x" using u by (rule unat_plus_u64)
  obtain rb s1 where rd: "op_read io (data + x) 1 s = (rb, s1)" by (cases "op_read io (data + x) 1 s")
  note rb = read_bytes [OF Cons.prems(1) rd]
  have g1: "v_good vw s1" and b1: "v_bytes vw s1 = v_bytes vw s" using rb(1) by (simp_all add: unchanged_def)
  have run: "contains_loop io data (x # idxs) s = (case rb of Inl e \<Rightarrow> (Inl e, s1)
      | Inr b \<Rightarrow> if b ! 0 = 0 then (Inr False, s1) else contains_loop io data idxs s1)"
    using rd by (cases rb) (simp_all add: ca)
  have calm: "v_calm vw s1 \<and> (\<exists>b. rb = Inr b)" if "v_calm vw s"
  proof -
    have "unat (data + x) + 1 \<le> length (v_bytes vw s)" using ud x Cons.prems(2) by simp
    from calm_read [OF Cons.prems(1) that this] rd show ?thesis by auto
  qed
  show ?case
  proof (cases rb)
    case (Inl e)
    with run Cons.prems(5) rb(1) calm show ?thesis by auto
  next
    case (Inr b)
    have b: "b ! 0 = slot (v_bytes vw s) data (unat x)"
      using rb(2,3) [OF Inr] ud by (simp add: nth_slice slot_def)
    show ?thesis
    proof (cases "b ! 0 = 0")
      case True
      with run Cons.prems(5) Inr rb(1) calm b show ?thesis by auto
    next
      case False
      have "contains_loop io data idxs s1 = (r, s')" using run Cons.prems(5) Inr False by simp
      from Cons.IH [OF g1 _ _ _ this] Cons.prems(2-4) b1
      have ih: "unchanged vw s1 s' \<and> (\<forall>v. r = Inr v \<longrightarrow> v = (\<forall>x \<in> set idxs. slot (v_bytes vw s) data (unat x) \<noteq> 0))
        \<and> (v_calm vw s1 \<longrightarrow> v_calm vw s' \<and> (\<exists>v. r = Inr v))" by simp
      have "unchanged vw s s'" using rb(1) ih unchanged_trans by blast
      with ih calm b False show ?thesis by auto
    qed
  qed
qed (auto simp: unchanged_def)

lemma bloom_contains_ok:
  assumes at: "bloom_at vw h Hb data m k s" and run: "bloom_contains io h key s = (r, s')"
  shows "unchanged vw s s'" and "covers data m k M (v_bytes vw s) \<Longrightarrow> key \<in># M \<Longrightarrow> r \<noteq> Inr False"
    and "v_calm vw s \<Longrightarrow> v_calm vw s' \<and> (\<exists>v. r = Inr v)"
proof -
  obtain rf s1 where rd: "read_fields io 3 (h + DATA_OFF) s = (rf, s1)" by (cases "read_fields io 3 (h + DATA_OFF) s")
  note f = bloom_fields [OF at rd]
  note g = bloom_geom [OF at]
  have "unchanged vw s s' \<and> (covers data m k M (v_bytes vw s) \<longrightarrow> key \<in># M \<longrightarrow> r \<noteq> Inr False)
    \<and> (v_calm vw s \<longrightarrow> v_calm vw s' \<and> (\<exists>v. r = Inr v))"
  proof (cases rf)
    case (Inl e)
    with run rd f show ?thesis by (auto simp: bloom_contains_def)
  next
    case (Inr fs)
    have run': "contains_loop io data (key_indices m k key) s1 = (r, s')"
      using run rd Inr f(2) [OF Inr] bloom_indices_ok [OF g(4)] by (simp add: bloom_contains_def)
    have g1: "v_good vw s1" and b1: "v_bytes vw s1 = v_bytes vw s" using f(1) by (simp_all add: unchanged_def)
    have lt: "\<forall>x \<in> set (key_indices m k key). unat x < unat m" using key_index_less [OF g(4)] by blast
    from contains_loop_ok [OF g1 _ _ lt run'] g(1,2) b1
    have c: "unchanged vw s1 s' \<and> (\<forall>v. r = Inr v \<longrightarrow>
        v = (\<forall>x \<in> set (key_indices m k key). slot (v_bytes vw s) data (unat x) \<noteq> 0))
      \<and> (v_calm vw s1 \<longrightarrow> v_calm vw s' \<and> (\<exists>v. r = Inr v))" by simp
    have "unchanged vw s s'" using f(1) c unchanged_trans by blast
    with c f(3) covers_present [of data m k M "v_bytes vw s" key] g(4) show ?thesis by blast
  qed
  then show "unchanged vw s s'" and "covers data m k M (v_bytes vw s) \<Longrightarrow> key \<in># M \<Longrightarrow> r \<noteq> Inr False"
    and "v_calm vw s \<Longrightarrow> v_calm vw s' \<and> (\<exists>v. r = Inr v)" by blast+
qed

section \<open>Adjustment\<close>

lemma counter_offsets_ok:
  assumes "unat data + unat m < u64_limit" and "\<forall>a \<in> set agg. unat (fst a) < unat m"
  shows "counter_offsets data agg = Inr (map (\<lambda>a. data + fst a) agg)"
  using assms by (induction data agg rule: counter_offsets.induct) (simp_all add: checked_add64_def)

lemma read_counters_ok:
  assumes "v_good vw s" and "read_counters io offs s = (r, s')"
  shows "unchanged vw s s' \<and> (\<forall>cs. r = Inr cs \<longrightarrow> cs = map (\<lambda>off. v_bytes vw s ! unat off) offs)
    \<and> (v_calm vw s \<longrightarrow> (\<forall>off \<in> set offs. unat off < length (v_bytes vw s)) \<longrightarrow> v_calm vw s' \<and> (\<exists>cs. r = Inr cs))"
  using assms
proof (induction offs arbitrary: s r s')
  case (Cons off offs)
  obtain rb s1 where rd: "op_read io off 1 s = (rb, s1)" by (cases "op_read io off 1 s")
  note rb = read_bytes [OF Cons.prems(1) rd]
  have g1: "v_good vw s1" and b1: "v_bytes vw s1 = v_bytes vw s" using rb(1) by (simp_all add: unchanged_def)
  obtain rs s2 where rs: "read_counters io offs s1 = (rs, s2)" by (cases "read_counters io offs s1")
  note ih = Cons.IH [OF g1 rs, unfolded b1]
  have calm: "v_calm vw s1 \<and> (\<exists>b. rb = Inr b)" if "v_calm vw s" "unat off < length (v_bytes vw s)"
    using calm_read [OF Cons.prems(1) that(1), of off 1] that(2) rd by auto
  show ?case
  proof (cases rb)
    case (Inl e)
    then have "r = Inl e" "s' = s1" using Cons.prems(2) rd by simp_all
    moreover have "\<not> (v_calm vw s \<and> unat off < length (v_bytes vw s))" using calm Inl by blast
    ultimately show ?thesis using rb(1) by simp
  next
    case (Inr b)
    have b: "b ! 0 = v_bytes vw s ! unat off" using rb(2,3) [OF Inr] by (simp add: nth_slice)
    have res: "s' = s2" "r = (case rs of Inl e \<Rightarrow> Inl e | Inr cs \<Rightarrow> Inr (b ! 0 # cs))"
    proof -
      have "(case rs of Inl e \<Rightarrow> (Inl e, s2) | Inr cs \<Rightarrow> (Inr (b ! 0 # cs), s2)) = (r, s')"
        using Cons.prems(2) unfolding read_counters.simps rd Inr by (simp add: rs try_s_def)
      then show "s' = s2" "r = (case rs of Inl e \<Rightarrow> Inl e | Inr cs \<Rightarrow> Inr (b ! 0 # cs))"
        by (auto split: sum.splits)
    qed
    have u: "unchanged vw s s'" using rb(1) ih unchanged_trans res(1) by blast
    have v: "cs = map (\<lambda>off. v_bytes vw s ! unat off) (off # offs)" if "r = Inr cs" for cs
    proof (cases rs)
      case (Inl e)
      with that res(2) show ?thesis by simp
    next
      case (Inr ds)
      then have "ds = map (\<lambda>off. v_bytes vw s ! unat off) offs" using ih by blast
      with that res(2) Inr b show ?thesis by simp
    qed
    have "v_calm vw s' \<and> (\<exists>cs. r = Inr cs)"
      if c: "v_calm vw s" "\<forall>x \<in> set (off # offs). unat x < length (v_bytes vw s)"
    proof -
      have "v_calm vw s1" using calm c by simp
      then obtain cs where "rs = Inr cs" "v_calm vw s2" using ih c(2) by auto
      with res show ?thesis by simp
    qed
    with u v show ?thesis by blast
  qed
qed (auto simp: unchanged_def)

text \<open>The bytes an adjustment leaves.\<close>

lemma adjust_bytes:
  assumes at: "bloom_at vw h Hb data m k s" and b: "b = v_bytes vw s"
    and agg: "agg = aggregate (key_indices m k key)" and offs: "offs = map (\<lambda>a. data + fst a) agg"
    and cs: "cs = map (\<lambda>off. b ! unat off) offs"
  shows "in_bounds b (adjust_writes h add agg offs cs n)"
    and "\<forall>(off, d) \<in> set (adjust_writes h add agg offs cs n). \<exists>q \<in> {Hb, (data, m)}. inside (unat off) (length d) q"
    and "adjusted add data m k key b (apply_writes (adjust_writes h add agg offs cs n) b)"
    and "a + 8 \<le> 40 \<Longrightarrow> slice (unat h + a) 8 (apply_writes (adjust_writes h add agg offs cs n) b) = slice (unat h + a) 8 b"
proof -
  note g = bloom_geom [OF at, folded b]
  let ?ix = "key_indices m k key"
  define news where "news = map2 (\<lambda>a c. adjust_counter add (snd a) c) agg cs"
  define W where "W = map2 (\<lambda>off c. (off, [c])) offs news"
  have w: "adjust_writes h add agg offs cs n = W @ [w8 (h + N_OFF) (adjust_count add n)]"
    by (simp add: adjust_writes_def W_def news_def)
  have hn: "unat (h + N_OFF) = unat h + 40"
    using bloom_word [OF at, of N_OFF] by (simp add: N_OFF_def HEADER_SIZE_def)
  have lens: "length offs = length agg" "length cs = length agg" "length news = length agg"
    by (simp_all add: offs cs news_def)
  have sf: "fst ` set agg = set ?ix" and df: "distinct (map fst agg)"
    unfolding agg aggregate_def by (rule tally_ok(2) [unfolded set_map], rule tally_ok(1))
  have lt: "unat (fst x) < unat m" if "x \<in> set agg" for x
    using that sf key_index_less [OF g(4)] by blast
  have uo: "unat (data + fst x) = unat data + unat (fst x)" if "x \<in> set agg" for x
    using lt [OF that] g(1,2) by (intro unat_plus_u64) simp
  have mo: "map unat offs = map (\<lambda>x. unat data + unat (fst x)) agg"
    using uo by (simp add: offs)
  have du: "distinct (map (\<lambda>x. unat data + unat (fst x)) agg)"
    using df by (auto simp: distinct_map inj_on_def word_unat_eq_iff)
  then have do: "distinct offs" unfolding mo [symmetric] by (simp add: distinct_map)
  have so: "unat data \<le> unat off \<and> unat off < unat data + unat m" if "off \<in> set offs" for off
    using that lt uo by (auto simp: offs)
  have sW: "unat data \<le> unat off \<and> unat off + length d \<le> unat data + unat m \<and> length d = 1"
    if "(off, d) \<in> set W" for off d
    using that so by (force simp: W_def dest: set_zip_leftD)
  show ib: "in_bounds b (adjust_writes h add agg offs cs n)"
    unfolding w in_bounds_def using sW g(1,3) hn by (force simp: w8_def)
  have ibW: "in_bounds b W" unfolding in_bounds_def using sW g(1) by force
  have Hb: "inside (unat h) 48 Hb" using at by (simp add: bloom_at_def)
  show "\<forall>(off, d) \<in> set (adjust_writes h add agg offs cs n). \<exists>q \<in> {Hb, (data, m)}. inside (unat off) (length d) q"
    unfolding w using sW Hb hn by (force simp: w8_def inside_def range_end_def)
  have fin: "apply_writes (adjust_writes h add agg offs cs n) b =
      overwrite (unat h + 40) (to_le64 (adjust_count add n)) (apply_writes W b)"
    by (simp add: w apply_writes_append w8_def hn)
  have lW: "length (apply_writes W b) = length b" using ibW by simp
  show "adjusted add data m k key b (apply_writes (adjust_writes h add agg offs cs n) b)"
    unfolding adjusted_def
  proof (intro allI impI)
    fix i assume i: "i < unat m"
    have ui: "unat (of_nat i :: u64) = i" using less_trans [OF i unat_u64_bound] by (rule unat_of_nat_u64)
    have "slot (apply_writes (adjust_writes h add agg offs cs n) b) data i = apply_writes W b ! (unat data + i)"
      unfolding slot_def fin using i g lW by (subst nth_overwrite) auto
    also have "\<dots> = (case map_of (zip (map unat offs) news) (unat data + i) of Some c \<Rightarrow> c | None \<Rightarrow> b ! (unat data + i))"
      unfolding W_def using lens do so g(1) i by (intro nth_apply_bytes) force+
    also have "\<dots> = (if hits m k key i = 0 then slot b data i
      else adjust_counter add (of_nat (hits m k key i)) (slot b data i))"
    proof (cases "of_nat i \<in> set ?ix")
      case False
      have "unat data + i \<notin> set (map unat offs)"
      proof
        assume "unat data + i \<in> set (map unat offs)"
        then obtain x where x: "x \<in> set agg" "unat (fst x) = i" unfolding mo by auto
        then have "fst x = of_nat i" by (simp add: word_unat_eq_iff ui)
        with x(1) sf False show False by force
      qed
      then have "map_of (zip (map unat offs) news) (unat data + i) = None"
        by (auto simp: map_of_eq_None_iff dest: set_zip_leftD)
      with False show ?thesis by (simp add: hits_def slot_def count_list_0_iff)
    next
      case True
      then obtain c where c: "(of_nat i, c) \<in> set agg" using sf by force
      then obtain j where j: "j < length agg" "agg ! j = (of_nat i, c)" by (auto simp: in_set_conv_nth)
      have "c = of_nat (hits m k key i)" using tally_ok(3) c by (simp add: agg aggregate_def hits_def)
      moreover have "map unat offs ! j = unat data + i" unfolding mo using j by (simp add: ui)
      moreover have "map_of (zip (map unat offs) news) (map unat offs ! j) = Some (news ! j)"
        using du lens j(1) unfolding mo by (intro map_of_zip_nth) simp_all
      moreover have "cs ! j = slot b data i"
        using j lens uo [OF nth_mem [OF j(1)]] by (simp add: cs offs slot_def ui)
      moreover have "hits m k key i \<noteq> 0" using True by (simp add: hits_def count_list_0_iff)
      ultimately show ?thesis using j lens by (simp add: news_def)
    qed
    finally show "slot (apply_writes (adjust_writes h add agg offs cs n) b) data i =
      (if hits m k key i = 0 then slot b data i
       else adjust_counter add (of_nat (hits m k key i)) (slot b data i))" .
  qed
  show "slice (unat h + a) 8 (apply_writes (adjust_writes h add agg offs cs n) b) = slice (unat h + a) 8 b"
    if "a + 8 \<le> 40"
    using that g(3,5) sW hn by (intro slice_apply_writes [OF ib]) (force simp: w w8_def)+
qed

text \<open>What an operation of the filter keeps.\<close>

definition bloom_step ::
    "u64 \<Rightarrow> range \<Rightarrow> u64 \<Rightarrow> u64 \<Rightarrow> u64 \<Rightarrow> 's \<Rightarrow> 's \<Rightarrow> bool" where
  "bloom_step h Hb data m k s s' \<longleftrightarrow> bloom_at vw h Hb data m k s' \<and> v_live vw s' = v_live vw s
     \<and> same_on (insert reserved (v_live vw s - {Hb, (data, m)})) (v_bytes vw s) (v_bytes vw s')"

lemma bloom_step_unchanged:
  "bloom_at vw h Hb data m k s \<Longrightarrow> unchanged vw s s' \<Longrightarrow> bloom_step h Hb data m k s s'"
  using bloom_at_unchanged [of h Hb data m k s s'] by (simp add: bloom_step_def unchanged_def)

lemma bloom_adjust_ok:
  assumes at: "bloom_at vw h Hb data m k s" and run: "bloom_adjust io h key add s = (r, s')"
  shows "case r of Inl e \<Rightarrow> unchanged vw s s'
      | Inr _ \<Rightarrow> bloom_step h Hb data m k s s' \<and> adjusted add data m k key (v_bytes vw s) (v_bytes vw s')"
    and "v_calm vw s \<Longrightarrow> v_calm vw s' \<and> r = Inr ()"
proof -
  note g = bloom_geom [OF at]
  define agg where "agg = aggregate (key_indices m k key)"
  define offs where "offs = map (\<lambda>a. data + fst a) agg"
  define cs where "cs = map (\<lambda>off. v_bytes vw s ! unat off) offs"
  note ab = adjust_bytes [OF at refl agg_def offs_def cs_def]
  have sf: "fst ` set agg = set (key_indices m k key)"
    unfolding agg_def aggregate_def by (rule tally_ok(2) [unfolded set_map])
  have lt: "\<forall>a \<in> set agg. unat (fst a) < unat m" using sf key_index_less [OF g(4)] by blast
  have co: "counter_offsets data agg = Inr offs"
    unfolding offs_def using g(1,2) by (intro counter_offsets_ok [OF _ lt]) simp
  have inb: "\<forall>off \<in> set offs. unat off < length (v_bytes vw s)"
  proof
    fix off assume "off \<in> set offs"
    then obtain a where a: "a \<in> set agg" "off = data + fst a" by (auto simp: offs_def)
    have "unat (fst a) < unat m" using lt a(1) by blast
    moreover from this have "unat (data + fst a) = unat data + unat (fst a)" using g(1,2) by (intro unat_plus_u64) simp
    ultimately show "unat off < length (v_bytes vw s)" using g(1) a(2) by simp
  qed
  obtain rf s1 where rd: "read_fields io 3 (h + DATA_OFF) s = (rf, s1)" by (cases "read_fields io 3 (h + DATA_OFF) s")
  note f = bloom_fields [OF at rd]
  obtain rc s2 where rc: "read_counters io offs s1 = (rc, s2)" by (cases "read_counters io offs s1")
  have g1: "v_good vw s1" and b1: "v_bytes vw s1 = v_bytes vw s" using f(1) by (simp_all add: unchanged_def)
  note rco = read_counters_ok [OF g1 rc, unfolded b1]
  obtain rn s3 where rn: "op_read io (h + N_OFF) 8 s2 = (rn, s3)" by (cases "op_read io (h + N_OFF) 8 s2")
  have u2: "unchanged vw s s2" using f(1) rco unchanged_trans by blast
  note rno = read_bytes [OF unchanged_good [OF u2] rn]
  have u3: "unchanged vw s s3" using u2 rno(1) by (rule unchanged_trans)
  have hn: "unat (h + N_OFF) = unat h + 40"
    using bloom_word [OF at, of N_OFF] by (simp add: N_OFF_def HEADER_SIZE_def)
  have res: "(r, s') = (case rf of Inl e \<Rightarrow> (Inl e, s1) | Inr fs \<Rightarrow> (case rc of Inl e \<Rightarrow> (Inl e, s2)
      | Inr cs' \<Rightarrow> (case rn of Inl e \<Rightarrow> (Inl e, s3)
      | Inr nb \<Rightarrow> op_commit io (adjust_writes h add agg offs cs' (from_le64 nb)) s3)))"
  proof (cases rf)
    case (Inl e)
    with run rd show ?thesis by (simp add: bloom_adjust_def)
  next
    case (Inr fs)
    then have "fs ! 0 = data" "fs ! 1 = m" "fs ! 2 = k" using f(2) by simp_all
    with run rd Inr bloom_indices_ok [OF g(4)] co rc rn show ?thesis
      by (cases rc; cases rn) (simp_all add: bloom_adjust_def Let_def agg_def [symmetric])
  qed
  have csE: "cs' = cs" if "rc = Inr cs'" for cs' using rco that by (simp add: cs_def)
  have "(case r of Inl e \<Rightarrow> unchanged vw s s'
      | Inr _ \<Rightarrow> bloom_step h Hb data m k s s' \<and> adjusted add data m k key (v_bytes vw s) (v_bytes vw s'))
    \<and> (v_calm vw s \<longrightarrow> v_calm vw s' \<and> r = Inr ())"
  proof (cases "\<exists>fs cs' nb. rf = Inr fs \<and> rc = Inr cs' \<and> rn = Inr nb")
    case False
    have "\<not> v_calm vw s"
    proof
      assume c: "v_calm vw s"
      obtain fs where fs: "rf = Inr fs" and c1: "v_calm vw s1" using f(3) [OF c] by blast
      obtain cs' where cs': "rc = Inr cs'" and c2: "v_calm vw s2" using rco c1 inb by blast
      have "unat (h + N_OFF) + 8 \<le> length (v_bytes vw s2)" using g(3) hn u2 by (simp add: unchanged_def)
      from calm_read [OF unchanged_good [OF u2] c2 this] rn fs cs' False show False by auto
    qed
    moreover have "unchanged vw s s' \<and> (\<exists>e. r = Inl e)"
      using False res f(1) u2 u3 by (cases rf; cases rc; cases rn) simp_all
    ultimately show ?thesis by auto
  next
    case True
    then obtain fs cs' nb where ok: "rf = Inr fs" "rc = Inr cs'" "rn = Inr nb" by blast
    let ?ws = "adjust_writes h add agg offs cs (from_le64 nb)"
    have cm: "op_commit io ?ws s3 = (r, s')" using res ok csE [OF ok(2)] by simp
    have b3: "v_bytes vw s3 = v_bytes vw s" and l3: "v_live vw s3 = v_live vw s" using u3 by (simp_all add: unchanged_def)
    note cl = commit_law [OF unchanged_good [OF u3] cm, unfolded b3]
    have calm: "v_calm vw s' \<and> r = Inr ()" if c: "v_calm vw s"
    proof -
      have "v_calm vw s3"
      proof -
        have "v_calm vw s1" using f(3) [OF c] by blast
        then have "v_calm vw s2" using rco inb by blast
        moreover have "unat (h + N_OFF) + 8 \<le> length (v_bytes vw s2)" using g(3) hn u2 by (simp add: unchanged_def)
        ultimately show ?thesis using calm_read [OF unchanged_good [OF u2]] rn by force
      qed
      from calm_commit [OF unchanged_good [OF u3] this, of ?ws] ab(1) b3 cm show ?thesis by auto
    qed
    show ?thesis
    proof (cases r)
      case (Inl e)
      with cl u3 unchanged_trans calm show ?thesis by auto
    next
      case (Inr u)
      then have w: "written vw s3 (apply_writes ?ws (v_bytes vw s)) s'" using cl by simp
      have so: "same_on (insert reserved (v_live vw s - {Hb, (data, m)})) (v_bytes vw s) (apply_writes ?ws (v_bytes vw s))"
        by (rule same_on_writes [OF g(6) ab(1) _ ab(2)]) (use at in \<open>auto simp: bloom_at_def\<close>)
      have "bloom_at vw h Hb data m k s'"
        using at w l3 ab(4) [of 16 add] ab(4) [of 24 add] ab(4) [of 32 add] by (simp add: bloom_at_def written_def)
      then have "bloom_step h Hb data m k s s'" using w l3 so by (simp add: bloom_step_def written_def)
      then show ?thesis using Inr w ab(3) [of add] calm by (simp add: written_def)
    qed
  qed
  then show "case r of Inl e \<Rightarrow> unchanged vw s s'
      | Inr _ \<Rightarrow> bloom_step h Hb data m k s s' \<and> adjusted add data m k key (v_bytes vw s) (v_bytes vw s')"
    and "v_calm vw s \<Longrightarrow> v_calm vw s' \<and> r = Inr ()" by blast+
qed

lemma bloom_insert_ok:
  assumes at: "bloom_at vw h Hb data m k s" and c: "covers data m k M (v_bytes vw s)"
    and run: "bloom_insert io h key s = (r, s')"
  shows "bloom_step h Hb data m k s s'"
    and "covers data m k (if r = Inr () then add_mset key M else M) (v_bytes vw s')"
    and "v_calm vw s \<Longrightarrow> v_calm vw s' \<and> r = Inr ()"
proof -
  note a = bloom_adjust_ok [OF at run [unfolded bloom_insert_def]]
  have k: "unat k < 2 ^ 32" using at by (simp add: bloom_at_def)
  show "bloom_step h Hb data m k s s'" using a(1) bloom_step_unchanged [OF at] by (auto split: sum.splits)
  show "covers data m k (if r = Inr () then add_mset key M else M) (v_bytes vw s')"
    using a(1) covers_insert [OF _ k c] c by (cases r) (auto simp: unchanged_def)
  show "v_calm vw s \<Longrightarrow> v_calm vw s' \<and> r = Inr ()" by (rule a(2))
qed

lemma bloom_remove_ok:
  assumes at: "bloom_at vw h Hb data m k s" and c: "covers data m k M (v_bytes vw s)" and key: "key \<in># M"
    and run: "bloom_remove io h key s = (r, s')"
  shows "bloom_step h Hb data m k s s'" and "covers data m k (M - {#key#}) (v_bytes vw s')"
    and "v_calm vw s \<Longrightarrow> v_calm vw s' \<and> r = Inr ()"
proof -
  note a = bloom_adjust_ok [OF at run [unfolded bloom_remove_def]]
  have k: "unat k < 2 ^ 32" using at by (simp add: bloom_at_def)
  show "bloom_step h Hb data m k s s'" using a(1) bloom_step_unchanged [OF at] by (auto split: sum.splits)
  have "covers data m k (M - {#key#}) (v_bytes vw s)" using covers_mono [OF c] by simp
  then show "covers data m k (M - {#key#}) (v_bytes vw s')"
    using a(1) covers_remove [OF _ k c key] by (cases r) (auto simp: unchanged_def)
  show "v_calm vw s \<Longrightarrow> v_calm vw s' \<and> r = Inr ()" by (rule a(2))
qed

end

end
