(* ===== verification/HashSetProps.thy ===== *)
theory HashSetProps
  imports HashSet HashMapCorrect BloomProps
begin

text \<open>
  The set of \<^verbatim>\<open>src/stdlib/hashset.rs\<close> against its specification. The invariant ties the
  table to its Bloom filter: the filter holds at least the keys of the table, so the fast reject of
  \<^verbatim>\<open>contains\<close> is sound, and the order of the two updates in \<^verbatim>\<open>insert\<close> and
  \<^verbatim>\<open>remove\<close> keeps that true at every failure.
\<close>

section \<open>The table of a set\<close>

lemma unat_set_stride: "key_size_ok ksz \<Longrightarrow> unat (set_stride ksz) = 8 + ksz"
proof -
  assume k: "key_size_ok ksz"
  then have "unat (of_nat ksz :: u64) = ksz" by (intro unat_of_nat_u64) (simp add: key_size_ok_def)
  with k show ?thesis by (simp add: set_stride_def unat_plus_u64 key_size_ok_def)
qed

interpretation set_ins: insert_probe "set_insert_inspect handle (set_stride ksz) ksz key"
  "set_insert_exhausted handle (set_stride ksz) key" "place_writes handle (set_stride ksz) key"
  "\<lambda>m i. Inr []" sc_tomb "\<lambda>t c. c\<lparr>sc_tomb := t\<rparr>" "\<lambda>c. c\<lparr>sc_new := True\<rparr>" "\<lambda>v c. c" "\<lambda>c. c\<lparr>sc_grow := True\<rparr>"
  handle "set_stride ksz" ksz key "[]" False
  for handle ksz key
proof unfold_locales
  fix buf :: "u8 list" and m :: meta and i c
  assume "8 \<le> length buf"
  note s0 = get_u64_state [OF this]
  show "get_u64 buf = 0 \<Longrightarrow> set_insert_inspect handle (set_stride ksz) ksz key m i buf c =
      (Stop (place_writes handle (set_stride ksz) key m (case sc_tomb c of None \<Rightarrow> i | Some t \<Rightarrow> t)
        (sc_tomb c = None)), c\<lparr>sc_new := True\<rparr>)"
    by (simp add: set_insert_inspect_def s0 bucket_words del: get_u64_slice8)
  show "get_u64 buf = 1 \<Longrightarrow> slice 8 ksz buf = key \<Longrightarrow>
      set_insert_inspect handle (set_stride ksz) ksz key m i buf c = (Stop (Inr []), c)"
    by (simp add: set_insert_inspect_def s0 bucket_words del: get_u64_slice8)
  show "get_u64 buf = 1 \<Longrightarrow> slice 8 ksz buf \<noteq> key \<Longrightarrow>
      set_insert_inspect handle (set_stride ksz) ksz key m i buf c = (Continue, c)"
    by (simp add: set_insert_inspect_def s0 bucket_words del: get_u64_slice8)
  show "get_u64 buf = 2 \<Longrightarrow> set_insert_inspect handle (set_stride ksz) ksz key m i buf c =
      (Continue, if sc_tomb c = None then c\<lparr>sc_tomb := Some i\<rparr> else c)"
    by (simp add: set_insert_inspect_def s0 bucket_words del: get_u64_slice8)
qed (auto simp: set_insert_exhausted_def place_writes_def place_batch_def LEN_OFF_def USED_OFF_def
    OCCUPIED_def w8_def simp del: checked_off_mul_Inr checked_off_Inr split: option.splits, simp)

interpretation set_rem: remove_probe "set_remove_inspect handle (set_stride ksz) ksz key" "\<lambda>m c. (Inr [], c)"
  "\<lambda>v c. True" handle "set_stride ksz" ksz key
  for handle ksz key
proof unfold_locales
  fix buf :: "u8 list" and m :: meta and i c off
  assume "8 \<le> length buf"
  note s0 = get_u64_state [OF this]
  show "get_u64 buf = 0 \<Longrightarrow> set_remove_inspect handle (set_stride ksz) ksz key m i buf c = (Stop (Inr []), c)"
    by (simp add: set_remove_inspect_def s0 bucket_words del: get_u64_slice8)
  show "get_u64 buf = 1 \<Longrightarrow> slice 8 ksz buf = key \<Longrightarrow> checked_off_mul (m_table m) i (set_stride ksz) = Inr off \<Longrightarrow>
      set_remove_inspect handle (set_stride ksz) ksz key m i buf c =
      (Stop (Inr [w8 off 2, w8 (handle + (HEADER_SIZE + 16)) (m_len m - 1)]), True)"
    by (simp add: set_remove_inspect_def s0 bucket_words LEN_OFF_def del: get_u64_slice8 checked_off_mul_Inr)
  show "get_u64 buf \<noteq> 0 \<Longrightarrow> get_u64 buf \<noteq> 1 \<or> slice 8 ksz buf \<noteq> key \<Longrightarrow>
      set_remove_inspect handle (set_stride ksz) ksz key m i buf c = (Continue, c)"
    by (auto simp: set_remove_inspect_def s0 bucket_words simp del: get_u64_slice8)
qed simp

abbreviation set_attempt ::
    "'s stack_ops \<Rightarrow> nat \<Rightarrow> u64 \<Rightarrow> u8 list \<Rightarrow> 's \<Rightarrow> set_cells res \<times> 's" where
  "set_attempt io ksz handle key \<equiv> probe_commit io handle (set_stride ksz) (fnv1a key)
     (set_insert_inspect handle (set_stride ksz) ksz key)
     (set_insert_exhausted handle (set_stride ksz) key) set_cells_init"

lemma table_insert_retry:
  "table_insert fuel io ksz handle key s =
     retry_insert fuel io (set_stride ksz) ksz handle (set_attempt io ksz handle key) sc_grow sc_new s"
proof (induction fuel arbitrary: s)
  case (Suc fuel)
  show ?case
    unfolding table_insert.simps retry_insert.simps Suc.IH CAP_OFF_def set_grow_def OCCUPIED_def MIN_CAP_def
    by (simp split: prod.split sum.split)
qed simp

text \<open>The answer of an insertion: whether the key is new.\<close>

definition added :: "u8 list \<Rightarrow> bool \<Rightarrow> (u8 list \<rightharpoonup> u8 list) \<Rightarrow> (u8 list \<rightharpoonup> u8 list) \<Rightarrow> bool" where
  "added key new m m' \<longleftrightarrow> new = (key \<notin> dom m) \<and> dom m' = insert key (dom m)"

lemma table_contains_loop_seek:
  "table_contains_loop n io ksz key table msk idx s =
     (case seek_loop n io (set_stride ksz) ksz key table msk idx s of
        (Inl e, s1) \<Rightarrow> (Inl e, s1) | (Inr v, s1) \<Rightarrow> (Inr (v \<noteq> None), s1))"
proof (induction n arbitrary: idx s)
  case (Suc n)
  show ?case
  proof (cases "checked_off_mul table idx (set_stride ksz)")
    case (Inl e)
    then show ?thesis unfolding table_contains_loop.simps seek_loop.simps by simp
  next
    case (Inr off)
    obtain rb s1 where rd: "op_read io off (unat (set_stride ksz)) s = (rb, s1)"
      by (cases "op_read io off (unat (set_stride ksz)) s")
    show ?thesis
    proof (cases rb)
      case (Inl e)
      show ?thesis unfolding table_contains_loop.simps seek_loop.simps Inr try_in_simps rd Inl by simp
    next
      case rb: (Inr b)
      show ?thesis
        unfolding table_contains_loop.simps seek_loop.simps Inr try_in_simps rd rb try_s_simps Let_def bucket_words Suc.IH
        by (simp del: get_u64_slice8)
    qed
  qed
qed simp

lemma table_contains_lookup:
  "table_contains io ksz handle key s =
     (case table_lookup io (set_stride ksz) ksz handle key s of
        (Inl e, s1) \<Rightarrow> (Inl e, s1) | (Inr v, s1) \<Rightarrow> (Inr (v \<noteq> None), s1))"
proof -
  obtain rf s1 where "read_fields io 2 (handle + HEADER_SIZE) s = (rf, s1)"
    by (cases "read_fields io 2 (handle + HEADER_SIZE) s")
  then show ?thesis
    unfolding table_contains_def table_lookup_def TABLE_OFF_def table_contains_loop_seek Let_def
    by (cases rf) simp_all
qed

context stack_laws
begin

lemma set_attempt_ok:
  assumes ks: "key_size_ok ksz" and key: "length key = ksz"
  shows "attempt_ok (set_stride ksz) ksz handle H (set_attempt io ksz handle key) sc_grow sc_new (added key)"
  using unat_set_stride [OF ks] key
  by (intro insert_attempt [OF set_ins.insert_probe_axioms])
    (auto simp: set_cells_init_def added_def)

lemma table_insert_ok:
  assumes inv: "tbl_inv vw (set_stride ksz) ksz handle H s" and ks: "key_size_ok ksz" and key: "length key = ksz"
  shows "\<exists>r s'. table_insert (Suc (Suc fuel)) io ksz handle key s = Some (r, s')
    \<and> insert_effect vw (set_stride ksz) ksz handle H (added key) s r s'"
  using retry_insert_ok [OF inv set_attempt_ok [OF ks key]] unfolding table_insert_retry .

text \<open>Removal and lookup.\<close>

lemma table_remove_ok:
  assumes inv: "tbl_inv vw (set_stride ksz) ksz handle H s" and ks: "key_size_ok ksz"
    and run: "table_remove io ksz handle key s = (r, s')"
  shows "tbl_inv vw (set_stride ksz) ksz handle H s' \<and> tbl_frame vw (set_stride ksz) handle H s s'
    \<and> (case r of Inl e \<Rightarrow> unchanged vw s s'
       | Inr was \<Rightarrow> was = (key \<in> dom (tbl_abs vw (set_stride ksz) ksz handle s))
          \<and> tbl_abs vw (set_stride ksz) ksz handle s' = (tbl_abs vw (set_stride ksz) ksz handle s)(key := None))"
    and "v_calm vw s \<Longrightarrow> v_calm vw s' \<and> (\<exists>was. r = Inr was)"
proof -
  define m where "m = meta_at handle (v_bytes vw s)"
  let ?S = "set_stride ksz"
  have run': "probe_commit io handle ?S (fnv1a key) (set_remove_inspect handle ?S ksz key) (\<lambda>m c. (Inr [], c)) False s = (r, s')"
    using run by (simp add: table_remove_def)
  have "(tbl_inv vw ?S ksz handle H s' \<and> tbl_frame vw ?S handle H s s'
    \<and> (case r of Inl e \<Rightarrow> unchanged vw s s'
       | Inr was \<Rightarrow> was = (key \<in> dom (tbl_abs vw ?S ksz handle s))
          \<and> tbl_abs vw ?S ksz handle s' = (tbl_abs vw ?S ksz handle s)(key := None)))
    \<and> (v_calm vw s \<longrightarrow> v_calm vw s' \<and> (\<exists>was. r = Inr was))"
  proof (cases "m_cap m = 0")
    case True
    note cn = commit_no_buckets [OF inv True [unfolded m_def] refl run']
    have "tbl_abs vw ?S ksz handle s = Map.empty"
      using True by (simp add: tbl_abs_def m_def [symmetric] meta_table_def table_of_def table_map_def
          entries_def List.map_filter_def)
    then show ?thesis
      using kept_unchanged [OF inv cn(1)] cn by (cases r) (auto simp: tbl_kept_def)
  next
    case False
    note P = inv_parts [OF inv m_def False]
    have s8: "8 \<le> unat ?S" using unat_set_stride [OF ks] by simp
    let ?T = "meta_table ?S ksz m (v_bytes vw s)"
    obtain ws T' c' where x: "pure_probe (unat (m_cap m)) m ?S (m_cap m - 1) (set_remove_inspect handle ?S ksz key)
          (\<lambda>m c. (Inr [], c)) (v_bytes vw s) (fnv1a key AND (m_cap m - 1)) False = Inr (ws, c')"
      and st: "table_step ?S ksz handle m (v_bytes vw s) ws T'"
      and up: "table_map T' = (table_map ?T)(key := None)"
      and c': "c' = (case table_map ?T key of None \<Rightarrow> False | Some v \<Rightarrow> True)"
      by (rule set_rem.remove_step [OF P(1,3) m_def inv_handle(2) [OF inv] refl s8, where c = False]) (rule that; assumption)
    note cs = commit_step [OF inv m_def False run' x st]
    have abs: "tbl_abs vw ?S ksz handle s = table_map ?T" by (simp add: tbl_abs_def m_def)
    have v: "c' = (key \<in> dom (table_map ?T))" by (auto simp: c' split: option.splits)
    show ?thesis
    proof (cases r)
      case (Inl e)
      with cs kept_unchanged [OF inv] show ?thesis by (auto simp: tbl_kept_def)
    next
      case (Inr c)
      with cs v show ?thesis by (auto simp: abs up)
    qed
  qed
  then show "tbl_inv vw ?S ksz handle H s' \<and> tbl_frame vw ?S handle H s s'
    \<and> (case r of Inl e \<Rightarrow> unchanged vw s s'
       | Inr was \<Rightarrow> was = (key \<in> dom (tbl_abs vw ?S ksz handle s))
          \<and> tbl_abs vw ?S ksz handle s' = (tbl_abs vw ?S ksz handle s)(key := None))"
    and "v_calm vw s \<Longrightarrow> v_calm vw s' \<and> (\<exists>was. r = Inr was)" by blast+
qed

lemma table_contains_ok:
  assumes inv: "tbl_inv vw (set_stride ksz) ksz handle H s" and run: "table_contains io ksz handle key s = (r, s')"
  shows "unchanged vw s s'" and "r = Inr v \<Longrightarrow> v = (key \<in> dom (tbl_abs vw (set_stride ksz) ksz handle s))"
    and "v_calm vw s \<Longrightarrow> v_calm vw s' \<and> (\<exists>v. r = Inr v)"
proof -
  obtain rl s1 where l: "table_lookup io (set_stride ksz) ksz handle key s = (rl, s1)"
    by (cases "table_lookup io (set_stride ksz) ksz handle key s")
  note lo = lookup_ok [OF inv l]
  have res: "s' = s1" "r = (case rl of Inl e \<Rightarrow> Inl e | Inr v \<Rightarrow> Inr (v \<noteq> None))"
    using run unfolding table_contains_lookup l by (cases rl; simp)+
  show "unchanged vw s s'" using lo(1) res(1) by simp
  show "v = (key \<in> dom (tbl_abs vw (set_stride ksz) ksz handle s))" if "r = Inr v"
  proof (cases rl)
    case (Inl e)
    with res(2) that show ?thesis by simp
  next
    case (Inr w)
    with res(2) that lo(2) [OF Inr] show ?thesis by (simp add: dom_def)
  qed
  show "v_calm vw s' \<and> (\<exists>v. r = Inr v)" if "v_calm vw s" using lo(3) [OF that] res by auto
qed

end

end
