(* ===== verification/SetCorrect.thy ===== *)
theory SetCorrect
  imports HashSetProps
begin

text \<open>
  The invariant of a whole set, table and filter together, and its operations: any run of
  \<^verbatim>\<open>contains\<close>, \<^verbatim>\<open>insert\<close> and \<^verbatim>\<open>remove\<close> over a store that may fail at
  any call simulates the same run on a finite set of keys.
\<close>

section \<open>Invariant\<close>

definition filter_blocks :: "u64 \<Rightarrow> u8 list \<Rightarrow> range set" where
  "filter_blocks handle b =
     (let bh = word_at b (unat handle + 48) in
      {(bh, 48), (word_at b (unat bh + 16), word_at b (unat bh + 24))})"

definition set_blocks :: "nat \<Rightarrow> u64 \<Rightarrow> range \<Rightarrow> u8 list \<Rightarrow> range set" where
  "set_blocks ksz handle H b = table_blocks (set_stride ksz) handle H b \<union> filter_blocks handle b"

text \<open>A set whose filter holds the keys of \<open>M\<close>.\<close>

definition set_held ::
    "'s stack_view \<Rightarrow> nat \<Rightarrow> u64 \<Rightarrow> range \<Rightarrow> u64 \<Rightarrow> u64 \<Rightarrow> u64 \<Rightarrow> u64 \<Rightarrow> u8 list multiset \<Rightarrow> 's \<Rightarrow> bool" where
  "set_held vw ksz handle H bh data m k M s \<longleftrightarrow>
     key_size_ok ksz \<and> tbl_inv vw (set_stride ksz) ksz handle H s \<and> inside (unat handle) 56 H
     \<and> word_at (v_bytes vw s) (unat handle + 48) = bh \<and> bloom_at vw bh (bh, 48) data m k s
     \<and> {(bh, 48), (data, m)} \<inter> table_blocks (set_stride ksz) handle H (v_bytes vw s) = {}
     \<and> covers data m k M (v_bytes vw s)"

definition set_view :: "'s stack_view \<Rightarrow> nat \<Rightarrow> u64 \<Rightarrow> 's \<Rightarrow> u8 list set" where
  "set_view vw ksz handle s = dom (tbl_abs vw (set_stride ksz) ksz handle s)"

definition set_inv :: "'s stack_view \<Rightarrow> nat \<Rightarrow> u64 \<Rightarrow> range \<Rightarrow> 's \<Rightarrow> bool" where
  "set_inv vw ksz handle H s \<longleftrightarrow>
     (\<exists>bh data m k. set_held vw ksz handle H bh data m k (mset_set (set_view vw ksz handle s)) s)"

definition set_frame :: "'s stack_view \<Rightarrow> nat \<Rightarrow> u64 \<Rightarrow> range \<Rightarrow> 's \<Rightarrow> 's \<Rightarrow> bool" where
  "set_frame vw ksz handle H s s' \<longleftrightarrow>
     (let others = v_live vw s - set_blocks ksz handle H (v_bytes vw s) in
      others \<subseteq> v_live vw s' - set_blocks ksz handle H (v_bytes vw s')
      \<and> same_on (insert reserved others) (v_bytes vw s) (v_bytes vw s'))"

lemma set_frame_trans:
  "set_frame vw ksz handle H s s1 \<Longrightarrow> set_frame vw ksz handle H s1 s2 \<Longrightarrow> set_frame vw ksz handle H s s2"
  unfolding set_frame_def Let_def using same_on_trans by blast

lemma finite_view: "finite (set_view vw ksz handle s)"
  by (simp add: set_view_def tbl_abs_def table_map_def finite_dom_map_of)

lemma held_filter: "set_held vw ksz handle H bh data m k M s \<Longrightarrow> filter_blocks handle (v_bytes vw s) = {(bh, 48), (data, m)}"
  by (simp add: set_held_def filter_blocks_def bloom_at_def word_at_def)

lemma covers_same:
  assumes "covers data m k M b" and c: "content b' (data, m) = content b (data, m)"
    and l: "unat data + unat m \<le> length b" "unat data + unat m \<le> length b'"
  shows "covers data m k M b'"
proof -
  have "slot b' data i = slot b data i" if "i < unat m" for i
  proof -
    have "content b' (data, m) ! i = content b (data, m) ! i" using c by simp
    then show ?thesis using that l by (simp add: content_def nth_slice slot_def)
  qed
  with assms(1) show ?thesis by (simp add: covers_def)
qed

context stack_laws
begin

text \<open>A step of the table keeps the filter.\<close>

lemma held_table_step:
  assumes h: "set_held vw ksz handle H bh data m k M s" and inv': "tbl_inv vw (set_stride ksz) ksz handle H s'"
    and fr: "tbl_frame vw (set_stride ksz) handle H s s'"
  shows "set_held vw ksz handle H bh data m k M s'" and "set_frame vw ksz handle H s s'"
proof -
  let ?tb = "table_blocks (set_stride ksz) handle H"
  have at: "bloom_at vw bh (bh, 48) data m k s" and ins: "inside (unat handle) 56 H"
    and w: "word_at (v_bytes vw s) (unat handle + 48) = bh" and ks: "key_size_ok ksz"
    and dis: "{(bh, 48), (data, m)} \<inter> ?tb (v_bytes vw s) = {}" and c: "covers data m k M (v_bytes vw s)"
    using h by (simp_all add: set_held_def)
  define others where "others = v_live vw s - ?tb (v_bytes vw s)"
  have o1: "others \<subseteq> v_live vw s' - ?tb (v_bytes vw s')"
    and so: "same_on (insert reserved others) (v_bytes vw s) (v_bytes vw s')"
    and out: "outer_kept handle H (v_bytes vw s) (v_bytes vw s')"
    using fr by (simp_all add: tbl_frame_def others_def Let_def)
  have fl: "{(bh, 48), (data, m)} \<subseteq> others" using at dis by (auto simp: bloom_at_def others_def)
  have g': "v_good vw s'" using inv' by (simp add: tbl_inv_def)
  have "inside (unat handle + 48) 8 H" using ins by (simp add: inside_def)
  then have w': "word_at (v_bytes vw s') (unat handle + 48) = bh"
    using out w by (simp add: outer_kept_def word_at_def)
  have cb: "content (v_bytes vw s') (bh, 48) = content (v_bytes vw s) (bh, 48)"
    and cd: "content (v_bytes vw s') (data, m) = content (v_bytes vw s) (data, m)"
    using so fl by (auto simp: same_on_def)
  have words: "from_le64 (slice (unat bh + a) 8 (v_bytes vw s')) = from_le64 (slice (unat bh + a) 8 (v_bytes vw s))"
    if "a + 8 \<le> 48" for a
    by (rule content_word [OF cb, unfolded word_at_def]) (use that in \<open>simp add: inside_def range_end_def\<close>)
  have l': "(bh, 48) \<in> v_live vw s'" "(data, m) \<in> v_live vw s'"
    and d': "{(bh, 48), (data, m)} \<inter> ?tb (v_bytes vw s') = {}" using o1 fl by auto
  have at': "bloom_at vw bh (bh, 48) data m k s'"
    using at g' l' words [of 16] words [of 24] words [of 32] by (simp add: bloom_at_def)
  have c': "covers data m k M (v_bytes vw s')"
    by (rule covers_same [OF c cd]) (use bloom_geom(1) [OF at] bloom_geom(1) [OF at'] in simp_all)
  show h': "set_held vw ksz handle H bh data m k M s'"
    using ks inv' ins w' at' d' c' by (simp add: set_held_def)
  have "v_live vw s - set_blocks ksz handle H (v_bytes vw s) \<subseteq> others" by (auto simp: set_blocks_def others_def)
  then show "set_frame vw ksz handle H s s'"
    using o1 so held_filter [OF h] held_filter [OF h'] unfolding set_frame_def Let_def
    by (auto simp: set_blocks_def same_on_def)
qed

text \<open>A step of the filter keeps the table.\<close>

lemma held_filter_step:
  assumes h: "set_held vw ksz handle H bh data m k M s" and st: "bloom_step bh (bh, 48) data m k s s'"
    and c: "covers data m k M' (v_bytes vw s')"
  shows "set_held vw ksz handle H bh data m k M' s'" and "set_view vw ksz handle s' = set_view vw ksz handle s"
    and "set_frame vw ksz handle H s s'"
proof -
  let ?tb = "table_blocks (set_stride ksz) handle H" and ?F = "{(bh, 48), (data, m)}"
  have inv: "tbl_inv vw (set_stride ksz) ksz handle H s" and ins: "inside (unat handle) 56 H"
    and w: "word_at (v_bytes vw s) (unat handle + 48) = bh" and ks: "key_size_ok ksz"
    and dis: "?F \<inter> ?tb (v_bytes vw s) = {}" using h by (simp_all add: set_held_def)
  have at': "bloom_at vw bh (bh, 48) data m k s'" and l: "v_live vw s' = v_live vw s"
    and so: "same_on (insert reserved (v_live vw s - ?F)) (v_bytes vw s) (v_bytes vw s')"
    using st by (simp_all add: bloom_step_def)
  have r: "relived vw s (v_live vw s - ?F) (v_live vw s) s'"
    using at' l so by (simp add: relived_def bloom_at_def)
  have B: "?tb (v_bytes vw s) \<subseteq> (v_live vw s - ?F) \<inter> v_live vw s"
    using blocks_live [OF inv] dis by blast
  note k' = relived_kept [OF inv r Diff_subset B]
  have "H \<in> v_live vw s - ?F" using B by (auto simp: table_blocks_def)
  then have "content (v_bytes vw s') H = content (v_bytes vw s) H" using so by (simp add: same_on_def)
  from content_word [OF this, of "unat handle + 48"] ins
  have w': "word_at (v_bytes vw s') (unat handle + 48) = bh"
    using w by (simp add: inside_def)
  show h': "set_held vw ksz handle H bh data m k M' s'"
    using ks k'(1,3) ins w' at' dis c by (simp add: set_held_def)
  show "set_view vw ksz handle s' = set_view vw ksz handle s" by (simp add: set_view_def k'(2))
  show "set_frame vw ksz handle H s s'"
    using so l k'(3) held_filter [OF h] held_filter [OF h'] unfolding set_frame_def Let_def
    by (auto simp: set_blocks_def same_on_def)
qed

lemma held_mono: "set_held vw ksz handle H bh data m k M s \<Longrightarrow> M' \<subseteq># M \<Longrightarrow> set_held vw ksz handle H bh data m k M' s"
  using covers_mono by (auto simp: set_held_def)

lemma held_unchanged:
  assumes h: "set_held vw ksz handle H bh data m k M s" and u: "unchanged vw s s'"
  shows "set_held vw ksz handle H bh data m k M s'" and "set_view vw ksz handle s' = set_view vw ksz handle s"
    and "set_frame vw ksz handle H s s'"
  using h u bloom_at_unchanged [OF _ u] tbl_inv_unchanged(1) [OF u, of "set_stride ksz" ksz handle H]
    tbl_inv_unchanged(2) [OF u, of "set_stride ksz" ksz handle]
  by (auto simp: set_held_def set_view_def set_frame_def Let_def unchanged_def bloom_at_def)

lemma set_bloom_ok:
  assumes h: "set_held vw ksz handle H bh data m k M s" and r: "set_bloom io handle s = (rb, s')"
  shows "unchanged vw s s'" and "rb = Inr b \<Longrightarrow> b = bh" and "v_calm vw s \<Longrightarrow> v_calm vw s' \<and> rb = Inr bh"
proof -
  have g: "v_good vw s" and i: "inside (unat handle) 56 H" and H: "H \<in> v_live vw s"
    and w: "word_at (v_bytes vw s) (unat handle + 48) = bh"
    using h by (auto simp: set_held_def tbl_inv_def)
  have b: "unat handle + 56 \<le> length (v_bytes vw s)" using good_live [OF g H] i by (simp add: inside_def)
  have o: "unat (handle + BLOOM_OFF) = unat handle + 48"
    using b good_store [OF g] by (simp add: BLOOM_OFF_def HEADER_SIZE_def unat_plus_u64)
  obtain rx s1 where rd: "op_read io (handle + BLOOM_OFF) 8 s = (rx, s1)" by (cases "op_read io (handle + BLOOM_OFF) 8 s")
  note x = read_bytes [OF g rd]
  have res: "s' = s1" "rb = (case rx of Inl e \<Rightarrow> Inl e | Inr y \<Rightarrow> Inr (from_le64 y))"
    using r rd by (cases rx; simp add: set_bloom_def read_u64_def)+
  show "unchanged vw s s'" using x(1) res by simp
  show v: "rb = Inr b \<Longrightarrow> b = bh" for b
    using res(2) x(2) w o by (cases rx) (auto simp: word_at_def)
  show "v_calm vw s' \<and> rb = Inr bh" if "v_calm vw s"
    using calm_read [OF g that, of "handle + BLOOM_OFF" 8] b o rd res v by auto
qed

section \<open>The operations\<close>

lemma set_contains_ok:
  assumes inv: "set_inv vw ksz handle H s" and run: "set_contains io ksz handle key s = (r, s')"
  shows "unchanged vw s s'" and "r = Inr v \<Longrightarrow> v = (key \<in> set_view vw ksz handle s)"
    and "v_calm vw s \<Longrightarrow> v_calm vw s' \<and> (\<exists>v. r = Inr v)"
proof -
  obtain bh data m k where h: "set_held vw ksz handle H bh data m k (mset_set (set_view vw ksz handle s)) s"
    using inv by (auto simp: set_inv_def)
  obtain rb s1 where rb: "set_bloom io handle s = (rb, s1)" by (cases "set_bloom io handle s")
  note b = set_bloom_ok [OF h rb]
  note h1 = held_unchanged [OF h b(1)]
  have "unchanged vw s s' \<and> (\<forall>v. r = Inr v \<longrightarrow> v = (key \<in> set_view vw ksz handle s))
    \<and> (v_calm vw s \<longrightarrow> v_calm vw s' \<and> (\<exists>v. r = Inr v))"
  proof (cases rb)
    case (Inl e)
    with run rb b show ?thesis by (auto simp: set_contains_def)
  next
    case (Inr x)
    with b(2) have x: "x = bh" by simp
    obtain rc s2 where rc: "bloom_contains io bh key s1 = (rc, s2)" by (cases "bloom_contains io bh key s1")
    have at1: "bloom_at vw bh (bh, 48) data m k s1" and cov: "covers data m k (mset_set (set_view vw ksz handle s)) (v_bytes vw s1)"
      using h1(1) by (simp_all add: set_held_def)
    note c = bloom_contains_ok [OF at1 rc]
    have u2: "unchanged vw s s2" using b(1) c(1) by (rule unchanged_trans)
    show ?thesis
    proof (cases rc)
      case (Inl e)
      with run rb Inr x rc u2 b(3) c(3) show ?thesis by (auto simp: set_contains_def)
    next
      case rc2: (Inr maybe)
      show ?thesis
      proof (cases maybe)
        case False
        have "key \<notin> set_view vw ksz handle s"
        proof
          assume "key \<in> set_view vw ksz handle s"
          then have "key \<in># mset_set (set_view vw ksz handle s)"
            using finite_view [of vw ksz handle s] by simp
          from c(2) [OF cov this] rc2 False show False by simp
        qed
        with run rb Inr x rc rc2 False u2 b(3) c(3) show ?thesis by (auto simp: set_contains_def)
      next
        case True
        have tc: "table_contains io ksz handle key s2 = (r, s')"
          using run rb Inr x rc rc2 True by (simp add: set_contains_def)
        note h2 = held_unchanged [OF h u2]
        have "tbl_inv vw (set_stride ksz) ksz handle H s2" using h2(1) by (simp add: set_held_def)
        note t = table_contains_ok [OF this tc]
        have "unchanged vw s s'" using u2 t(1) by (rule unchanged_trans)
        moreover have "v = (key \<in> set_view vw ksz handle s)" if "r = Inr v" for v
          using t(2) [OF that] h2(2) by (simp add: set_view_def)
        moreover have "v_calm vw s' \<and> (\<exists>v. r = Inr v)" if "v_calm vw s"
          using t(3) c(3) b(3) that by blast
        ultimately show ?thesis by blast
      qed
    qed
  qed
  then show "unchanged vw s s'" and "r = Inr v \<Longrightarrow> v = (key \<in> set_view vw ksz handle s)"
    and "v_calm vw s \<Longrightarrow> v_calm vw s' \<and> (\<exists>v. r = Inr v)" by blast+
qed

text \<open>What an update answers.\<close>

definition set_update ::
    "nat \<Rightarrow> u64 \<Rightarrow> range \<Rightarrow> bool \<Rightarrow> u8 list set \<Rightarrow> 's \<Rightarrow> bool res \<Rightarrow> 's \<Rightarrow> bool" where
  "set_update ksz handle H answer V s r s' \<longleftrightarrow>
     set_inv vw ksz handle H s' \<and> set_frame vw ksz handle H s s'
     \<and> (case r of Inl e \<Rightarrow> set_view vw ksz handle s' = set_view vw ksz handle s
        | Inr a \<Rightarrow> a = answer \<and> set_view vw ksz handle s' = V)"

lemma set_remove_ok:
  assumes inv: "set_inv vw ksz handle H s" and run: "set_remove io ksz handle key s = (r, s')"
  shows "set_update ksz handle H (key \<in> set_view vw ksz handle s) (set_view vw ksz handle s - {key}) s r s'"
    and "v_calm vw s \<Longrightarrow> \<exists>a. r = Inr a"
proof -
  let ?V = "set_view vw ksz handle s"
  obtain bh data m k where h: "set_held vw ksz handle H bh data m k (mset_set ?V) s"
    using inv by (auto simp: set_inv_def)
  have ti: "tbl_inv vw (set_stride ksz) ksz handle H s" and ks: "key_size_ok ksz" using h by (simp_all add: set_held_def)
  obtain rt s1 where rt: "table_remove io ksz handle key s = (rt, s1)" by (cases "table_remove io ksz handle key s")
  note t = table_remove_ok [OF ti ks rt]
  have t1: "tbl_inv vw (set_stride ksz) ksz handle H s1" "tbl_frame vw (set_stride ksz) handle H s s1"
    using t(1) by simp_all
  note h1 = held_table_step [OF h t1]
  show "set_update ksz handle H (key \<in> ?V) (?V - {key}) s r s'"
  proof (cases rt)
    case (Inl e)
    then have u: "unchanged vw s s1" and res: "r = Inl e" "s' = s1" using t(1) run rt by (simp_all add: set_remove_def)
    from held_unchanged [OF h u] res show ?thesis by (auto simp: set_update_def set_inv_def)
  next
    case (Inr was)
    have was: "was = (key \<in> ?V)" and v1: "set_view vw ksz handle s1 = ?V - {key}"
      using t(1) Inr by (auto simp: set_view_def)
    show ?thesis
    proof (cases was)
      case False
      with was have "key \<notin> ?V" by simp
      with h1 v1 run rt Inr False was show ?thesis
        by (auto simp: set_remove_def set_update_def set_inv_def)
    next
      case True
      with was have key: "key \<in># mset_set ?V" using finite_view [of vw ksz handle s] by simp
      have M: "mset_set ?V - {#key#} = mset_set (?V - {key})"
        using finite_view [of vw ksz handle s] key by (simp add: mset_set_Diff)
      obtain rb s2 where rb: "set_bloom io handle s1 = (rb, s2)" by (cases "set_bloom io handle s1")
      note b = set_bloom_ok [OF h1(1) rb]
      note h2 = held_unchanged [OF h1(1) b(1)]
      have "set_held vw ksz handle H bh data m k (mset_set (?V - {key})) s' \<and> set_view vw ksz handle s' = ?V - {key}
        \<and> set_frame vw ksz handle H s1 s'"
      proof (cases rb)
        case (Inl e)
        then have "s' = s2" using run rt Inr True rb by (simp add: set_remove_def)
        with h2 v1 held_mono [OF h2(1), of "mset_set (?V - {key})"] M show ?thesis
          by (metis diff_subset_eq_self)
      next
        case rb2: (Inr x)
        with b(2) have x: "x = bh" by simp
        obtain rr s3 where rr: "bloom_remove io bh key s2 = (rr, s3)" by (cases "bloom_remove io bh key s2")
        have s': "s' = s3" using run rt Inr True rb rb2 x rr by (simp add: set_remove_def)
        have "bloom_at vw bh (bh, 48) data m k s2" "covers data m k (mset_set ?V) (v_bytes vw s2)"
          using h2(1) by (simp_all add: set_held_def)
        note br = bloom_remove_ok [OF this key rr]
        note h3 = held_filter_step [OF h2(1) br(1) br(2) [unfolded M]]
        show ?thesis using h3 h2 v1 s' set_frame_trans [of vw ksz handle H s1 s2 s3] by auto
      qed
      moreover have "r = Inr True" using run rt Inr True by (simp add: set_remove_def)
      ultimately show ?thesis using True was set_frame_trans [OF h1(2)]
        by (auto simp: set_update_def set_inv_def)
    qed
  qed
  show "\<exists>a. r = Inr a" if "v_calm vw s"
    using t(2) [OF that] run rt by (auto simp: set_remove_def)
qed

lemma set_insert_ok:
  assumes inv: "set_inv vw ksz handle H s" and key: "length key = ksz"
  shows "\<exists>r s'. set_insert (Suc (Suc fuel)) io ksz handle key s = Some (r, s')
    \<and> set_update ksz handle H (key \<notin> set_view vw ksz handle s) (insert key (set_view vw ksz handle s)) s r s'"
proof -
  let ?V = "set_view vw ksz handle s" and ?M = "mset_set (set_view vw ksz handle s)"
  obtain bh data m k where h: "set_held vw ksz handle H bh data m k ?M s"
    using inv by (auto simp: set_inv_def)
  obtain rb s1 where rb: "set_bloom io handle s = (rb, s1)" by (cases "set_bloom io handle s")
  note b = set_bloom_ok [OF h rb]
  note h1 = held_unchanged [OF h b(1)]
  show ?thesis
  proof (cases rb)
    case (Inl e)
    with rb h1 show ?thesis by (auto simp: set_insert_def set_update_def set_inv_def)
  next
    case (Inr x)
    with b(2) have x: "x = bh" by simp
    obtain ri s2 where ri: "bloom_insert io bh key s1 = (ri, s2)" by (cases "bloom_insert io bh key s1")
    have "bloom_at vw bh (bh, 48) data m k s1" "covers data m k ?M (v_bytes vw s1)"
      using h1(1) by (simp_all add: set_held_def)
    note bi = bloom_insert_ok [OF this ri]
    note h2 = held_filter_step [OF h1(1) bi(1,2)]
    have v2: "set_view vw ksz handle s2 = ?V" using h2(2) h1(2) by simp
    have f2: "set_frame vw ksz handle H s s2" using h1(3) h2(3) by (rule set_frame_trans)
    show ?thesis
    proof (cases ri)
      case (Inl e)
      with rb Inr x ri h2(1) v2 f2 show ?thesis
        by (auto simp: set_insert_def set_update_def set_inv_def)
    next
      case ri2: (Inr u)
      have h2': "set_held vw ksz handle H bh data m k (add_mset key ?M) s2" using h2(1) ri2 by simp
      then have ti: "tbl_inv vw (set_stride ksz) ksz handle H s2" and ks: "key_size_ok ksz"
        by (simp_all add: set_held_def)
      obtain rt s3 where rt: "table_insert (Suc (Suc fuel)) io ksz handle key s2 = Some (rt, s3)"
        and e: "insert_effect vw (set_stride ksz) ksz handle H (added key) s2 rt s3"
        using table_insert_ok [OF ti ks key] by blast
      have t: "tbl_inv vw (set_stride ksz) ksz handle H s3" "tbl_frame vw (set_stride ksz) handle H s2 s3"
        using e by (simp_all add: insert_effect_def)
      note h3 = held_table_step [OF h2' t]
      have f3: "set_frame vw ksz handle H s s3" using f2 h3(2) by (rule set_frame_trans)
      have v3: "case rt of Inl e \<Rightarrow> set_view vw ksz handle s3 = ?V
          | Inr new \<Rightarrow> new = (key \<notin> ?V) \<and> set_view vw ksz handle s3 = insert key ?V"
        using e v2 by (auto simp: insert_effect_def added_def set_view_def split: sum.splits)
      show ?thesis
      proof (cases rt)
        case (Inl err)
        have "set_held vw ksz handle H bh data m k (mset_set (set_view vw ksz handle s3)) s3"
          using held_mono [OF h3(1), of ?M] v3 Inl by simp
        with rb Inr x ri ri2 rt Inl v3 f3 show ?thesis
          by (auto simp: set_insert_def set_update_def set_inv_def)
      next
        case rt2: (Inr new)
        show ?thesis
        proof (cases new)
          case True
          with v3 rt2 have "key \<notin> ?V" "set_view vw ksz handle s3 = insert key ?V" by simp_all
          then have "set_held vw ksz handle H bh data m k (mset_set (set_view vw ksz handle s3)) s3"
            using h3(1) finite_view [of vw ksz handle s] by simp
          with rb Inr x ri ri2 rt rt2 True v3 f3 show ?thesis
            by (auto simp: set_insert_def set_update_def set_inv_def)
        next
          case False
          with v3 rt2 have k: "key \<in> ?V" "set_view vw ksz handle s3 = ?V" by auto
          obtain rr s4 where rr: "bloom_remove io bh key s3 = (rr, s4)" by (cases "bloom_remove io bh key s3")
          have "bloom_at vw bh (bh, 48) data m k s3" "covers data m k (add_mset key ?M) (v_bytes vw s3)"
            using h3(1) by (simp_all add: set_held_def)
          note br = bloom_remove_ok [OF this _ rr]
          have "covers data m k ?M (v_bytes vw s4)" using br(2) by simp
          note h4 = held_filter_step [OF h3(1) br(1) this, simplified]
          have "set_inv vw ksz handle H s4" using h4(1,2) k(2) by (auto simp: set_inv_def)
          moreover have "set_frame vw ksz handle H s s4" using f3 h4(3) by (rule set_frame_trans)
          moreover have "insert key ?V = ?V" using k(1) by blast
          ultimately show ?thesis
            using rb Inr x ri ri2 rt rt2 False rr k h4(2)
            by (cases rr) (simp_all add: set_insert_def set_update_def)
        qed
      qed
    qed
  qed
qed

end

section \<open>Runs\<close>

datatype set_op = SetContains "u8 list" | SetInsert "u8 list" | SetRemove "u8 list"

fun set_op_key :: "set_op \<Rightarrow> u8 list" where
  "set_op_key (SetContains k) = k"
| "set_op_key (SetInsert k) = k"
| "set_op_key (SetRemove k) = k"

definition set_exec :: "'s stack_ops \<Rightarrow> nat \<Rightarrow> u64 \<Rightarrow> set_op \<Rightarrow> 's \<Rightarrow> (bool res \<times> 's) option" where
  "set_exec io ksz handle oper s =
     (case oper of
        SetContains k \<Rightarrow> Some (set_contains io ksz handle k s)
      | SetInsert k \<Rightarrow> set_insert (Suc (Suc 0)) io ksz handle k s
      | SetRemove k \<Rightarrow> Some (set_remove io ksz handle k s))"

fun set_run :: "'s stack_ops \<Rightarrow> nat \<Rightarrow> u64 \<Rightarrow> set_op list \<Rightarrow> 's \<Rightarrow> (bool res list \<times> 's) option" where
  "set_run io ksz handle [] s = Some ([], s)"
| "set_run io ksz handle (oper # ops) s =
     (case set_exec io ksz handle oper s of
        None \<Rightarrow> None
      | Some (r, s1) \<Rightarrow> map_option (\<lambda>(rs, s2). (r # rs, s2)) (set_run io ksz handle ops s1))"

text \<open>The specification over a set of keys: the answer of each operation and the set it leaves; an
  error has no effect.\<close>

fun set_answer :: "set_op \<Rightarrow> u8 list set \<Rightarrow> bool" where
  "set_answer (SetContains k) V = (k \<in> V)"
| "set_answer (SetInsert k) V = (k \<notin> V)"
| "set_answer (SetRemove k) V = (k \<in> V)"

fun set_after :: "set_op \<Rightarrow> u8 list set \<Rightarrow> u8 list set" where
  "set_after (SetContains k) V = V"
| "set_after (SetInsert k) V = insert k V"
| "set_after (SetRemove k) V = V - {k}"

fun set_agrees :: "u8 list set \<Rightarrow> set_op list \<Rightarrow> bool res list \<Rightarrow> u8 list set \<Rightarrow> bool" where
  "set_agrees V [] [] V' \<longleftrightarrow> V' = V"
| "set_agrees V (oper # ops) (r # rs) V' \<longleftrightarrow>
     (case r of Inl e \<Rightarrow> set_agrees V ops rs V'
      | Inr a \<Rightarrow> a = set_answer oper V \<and> set_agrees (set_after oper V) ops rs V')"
| "set_agrees V _ _ V' \<longleftrightarrow> False"

context stack_laws
begin

lemma set_exec_ok:
  assumes inv: "set_inv vw ksz handle H s" and key: "length (set_op_key oper) = ksz"
  shows "\<exists>r s'. set_exec io ksz handle oper s = Some (r, s')
    \<and> set_update ksz handle H (set_answer oper (set_view vw ksz handle s)) (set_after oper (set_view vw ksz handle s)) s r s'"
proof (cases oper)
  case (SetContains k)
  obtain r s' where run: "set_contains io ksz handle k s = (r, s')" by (cases "set_contains io ksz handle k s")
  note c = set_contains_ok [OF inv run]
  obtain bh data m q where h: "set_held vw ksz handle H bh data m q (mset_set (set_view vw ksz handle s)) s"
    using inv by (auto simp: set_inv_def)
  from held_unchanged [OF h c(1)] c(2) run SetContains show ?thesis
    by (cases r) (auto simp: set_exec_def set_update_def set_inv_def)
next
  case (SetInsert k)
  with set_insert_ok [OF inv, of k 0] key show ?thesis by (simp add: set_exec_def)
next
  case (SetRemove k)
  obtain r s' where run: "set_remove io ksz handle k s = (r, s')" by (cases "set_remove io ksz handle k s")
  from set_remove_ok(1) [OF inv run] run SetRemove show ?thesis by (simp add: set_exec_def)
qed

lemma set_run_ok:
  assumes "set_inv vw ksz handle H s" and "\<forall>oper \<in> set ops. length (set_op_key oper) = ksz"
  shows "\<exists>rs s'. set_run io ksz handle ops s = Some (rs, s') \<and> set_inv vw ksz handle H s'
    \<and> set_frame vw ksz handle H s s' \<and> set_agrees (set_view vw ksz handle s) ops rs (set_view vw ksz handle s')"
  using assms
proof (induction ops arbitrary: s)
  case Nil
  then show ?case by (auto simp: set_frame_def)
next
  case (Cons oper ops)
  obtain r s1 where e: "set_exec io ksz handle oper s = Some (r, s1)"
    and u: "set_update ksz handle H (set_answer oper (set_view vw ksz handle s)) (set_after oper (set_view vw ksz handle s)) s r s1"
    using set_exec_ok [OF Cons.prems(1)] Cons.prems(2) by (metis list.set_intros(1))
  have inv1: "set_inv vw ksz handle H s1" and f1: "set_frame vw ksz handle H s s1" using u by (simp_all add: set_update_def)
  obtain rs s' where rest: "set_run io ksz handle ops s1 = Some (rs, s')" "set_inv vw ksz handle H s'"
    "set_frame vw ksz handle H s1 s'" "set_agrees (set_view vw ksz handle s1) ops rs (set_view vw ksz handle s')"
    using Cons.IH [OF inv1] Cons.prems(2) by (metis list.set_intros(2))
  have "set_agrees (set_view vw ksz handle s) (oper # ops) (r # rs) (set_view vw ksz handle s')"
    using rest(4) u by (cases r) (simp_all add: set_update_def)
  then show ?case using e rest set_frame_trans [OF f1 rest(3)] by auto
qed

end

section \<open>A sample set\<close>

text \<open>A set of 8-byte keys at 16, its filter of four counters and two hashes at 72, the counters at
  120.\<close>

definition sample_words :: "u8 list list" where
  "sample_words = [to_le64 0, to_le64 0,
     to_le64 SET_SIZE, cc_bytes (set_eightcc 8), to_le64 0, to_le64 0, to_le64 0, to_le64 0, to_le64 72,
     to_le64 BLOOM_SIZE, cc_bytes (bloom_eightcc 8), to_le64 120, to_le64 4, to_le64 2, to_le64 0]"

definition sample_set :: mem where
  "sample_set = \<lparr>m_bytes = concat sample_words @ replicate 4 0,
     m_live = [(16, 56), (72, 48), (120, 4)], m_faults = []\<rparr>"

lemma sample_words_len: "\<forall>w \<in> set sample_words. length w = 8"
proof -
  have "wf_eightcc (set_eightcc 8)" "wf_eightcc (bloom_eightcc 8)"
    unfolding set_eightcc_def bloom_eightcc_def by (intro wf_eightcc_ops; simp add: wf_eightcc_def)+
  then show ?thesis by (simp add: sample_words_def wf_eightcc_def)
qed

lemma sample_word: "i < length sample_words \<Longrightarrow> slice (8 * i) 8 (m_bytes sample_set) = sample_words ! i"
  unfolding sample_set_def by (simp add: slice_words [OF sample_words_len])

lemma sample_set_length: "length (m_bytes sample_set) = 124"
proof -
  have "length (concat ws) = 8 * length ws" if "\<forall>w \<in> set ws. length w = 8" for ws :: "u8 list list"
    using that by (induction ws) simp_all
  from this [OF sample_words_len] show ?thesis by (simp add: sample_set_def) (simp add: sample_words_def)
qed

lemma sample_set_good: "v_good mem_view sample_set"
  using sample_set_length by (simp add: mem_view_simps mem_good_def range_end_def apart_def) (auto simp: sample_set_def)

lemma sample_set_meta: "meta_at 16 (m_bytes sample_set) = \<lparr>m_table = 0, m_cap = 0, m_len = 0, m_used = 0\<rparr>"
  using sample_word [of 4] sample_word [of 5] sample_word [of 6] sample_word [of 7]
  by (simp add: meta_at_fields sample_words_def)

lemma sample_set_inv: "set_inv mem_view 8 16 (16, 56) sample_set"
proof -
  let ?b = "m_bytes sample_set"
  have w: "from_le64 (slice 64 8 ?b) = 72" "from_le64 (slice 88 8 ?b) = 120" "from_le64 (slice 96 8 ?b) = 4"
    "from_le64 (slice 104 8 ?b) = 2"
    using sample_word [of 8] sample_word [of 11] sample_word [of 12] sample_word [of 13]
    by (simp_all add: sample_words_def)
  have live: "m_live sample_set = [(16, 56), (72, 48), (120, 4)]" by (simp add: sample_set_def)
  have t: "tbl_inv mem_view (set_stride 8) 8 16 (16, 56) sample_set"
    using sample_set_good sample_set_meta unat_set_stride [of 8] live
    by (simp add: tbl_inv_def mem_view_simps key_size_ok_def inside_def range_end_def)
  have v: "set_view mem_view 8 16 sample_set = {}"
    using sample_set_meta by (simp add: set_view_def tbl_abs_def mem_view_simps meta_table_def table_of_def
        table_map_def entries_def List.map_filter_def)
  have at: "bloom_at mem_view 72 (72, 48) 120 4 2 sample_set"
    using sample_set_good w live by (simp add: bloom_at_def mem_view_simps inside_def range_end_def)
  have tb: "table_blocks (set_stride 8) 16 (16, 56) ?b = {(16, 56)}"
    using sample_set_meta by (simp add: table_blocks_def)
  have "set_held mem_view 8 16 (16, 56) 72 120 4 2 (mset_set (set_view mem_view 8 16 sample_set)) sample_set"
    using t at w tb v
    by (simp add: set_held_def key_size_ok_def inside_def range_end_def word_at_def mem_view_simps covers_def)
  then show ?thesis by (auto simp: set_inv_def)
qed

section \<open>Claims\<close>

text \<open>C32: A sequence of membership tests, insertions and removals on a set over a store that may fail
  at any call simulates the same sequence on a finite set of keys: it ends, each answer is the finite
  set's or is an error that had no effect on the set, and only blocks of the set change. The Bloom
  filter in front never hides a key that the table holds.\<close>

theorem set_run_refines:
  assumes "stack_laws io vw" and "set_inv vw ksz handle H s" and "\<forall>oper \<in> set ops. length (set_op_key oper) = ksz"
  shows "\<exists>rs s'. set_run io ksz handle ops s = Some (rs, s') \<and> set_inv vw ksz handle H s'
    \<and> set_frame vw ksz handle H s s' \<and> set_agrees (set_view vw ksz handle s) ops rs (set_view vw ksz handle s')"
  using stack_laws.set_run_ok [OF assms] .

theorem set_run_refines_witness:
  "\<exists>rs s'. set_run mem_io 8 16 [SetInsert (to_le64 7), SetContains (to_le64 7), SetRemove (to_le64 7)] sample_set = Some (rs, s')
    \<and> set_inv mem_view 8 16 (16, 56) s' \<and> set_frame mem_view 8 16 (16, 56) sample_set s'
    \<and> set_agrees (set_view mem_view 8 16 sample_set) [SetInsert (to_le64 7), SetContains (to_le64 7), SetRemove (to_le64 7)]
        rs (set_view mem_view 8 16 s')"
proof -
  have "\<forall>oper \<in> set [SetInsert (to_le64 7), SetContains (to_le64 7), SetRemove (to_le64 7)]. length (set_op_key oper) = 8"
    by simp
  from set_run_refines [OF mem.stack_laws_axioms sample_set_inv this] show ?thesis .
qed

text \<open>C33: A membership test changes nothing and answers exactly whether the set holds the key; on a
  store that does not fail by itself it always answers.\<close>

theorem set_contains_correct:
  assumes "stack_laws io vw" and "set_inv vw ksz handle H s" and "set_contains io ksz handle key s = (r, s')"
  shows "unchanged vw s s' \<and> (\<forall>v. r = Inr v \<longrightarrow> v = (key \<in> set_view vw ksz handle s))
    \<and> (v_calm vw s \<longrightarrow> r = Inr (key \<in> set_view vw ksz handle s))"
proof -
  note c = stack_laws.set_contains_ok [OF assms]
  have answer: "\<forall>v. r = Inr v \<longrightarrow> v = (key \<in> set_view vw ksz handle s)"
    by (intro allI impI) (rule c(2))
  moreover have "r = Inr (key \<in> set_view vw ksz handle s)" if calm: "v_calm vw s"
  proof -
    obtain v where v: "r = Inr v" using c(3) [OF calm] by blast
    with answer show ?thesis by simp
  qed
  ultimately show ?thesis using c(1) by blast
qed

theorem set_contains_correct_witness:
  "fst (set_contains mem_io 8 16 (to_le64 7) sample_set) = Inr (to_le64 7 \<in> set_view mem_view 8 16 sample_set)"
proof -
  obtain r s' where e: "set_contains mem_io 8 16 (to_le64 7) sample_set = (r, s')"
    by (cases "set_contains mem_io 8 16 (to_le64 7) sample_set")
  have "v_calm mem_view sample_set" by (simp add: mem_view_simps sample_set_def)
  then have "r = Inr (to_le64 7 \<in> set_view mem_view 8 16 sample_set)"
    using set_contains_correct [OF mem.stack_laws_axioms sample_set_inv e] by blast
  with e show ?thesis by simp
qed

end
