(* ===== verification/Deque.thy ===== *)
theory Deque
  imports Probing Descent
begin

text \<open>
  \<^verbatim>\<open>BStackDeque\<close> of \<^verbatim>\<open>src/stdlib/deque.rs\<close>: a ring of references to the
  elements' blocks in one data block, with the pointer, capacity, head and length in the handle. Every
  mutation is one \<open>atomic_update\<close>; a full ring is replaced by one of twice its capacity. An element is the
  offset of its block; the teardown and the clone of an element are function arguments. The closure of
  a push reports whether it found the ring full, that of a pop the element it removed, that of
  \<open>deque_grow\<close> the ring it replaced.
\<close>

section \<open>Layout\<close>

definition DEQ_DATA_OFF :: u64 where "DEQ_DATA_OFF = HEADER_SIZE"
definition DEQ_CAP_OFF :: u64 where "DEQ_CAP_OFF = HEADER_SIZE + 8"
definition DEQ_HEAD_OFF :: u64 where "DEQ_HEAD_OFF = HEADER_SIZE + 16"
definition DEQ_LEN_OFF :: u64 where "DEQ_LEN_OFF = HEADER_SIZE + 24"
definition DEQUE_SIZE :: u64 where "DEQUE_SIZE = 48"
definition DEQ_MIN_CAP :: u64 where "DEQ_MIN_CAP = 4"

lemmas deque_offsets = DEQ_DATA_OFF_def DEQ_CAP_OFF_def DEQ_HEAD_OFF_def DEQ_LEN_OFF_def HEADER_SIZE_def

definition deque_eightcc :: "eightcc \<Rightarrow> eightcc" where
  "deque_eightcc vtag = eightcc_mix (EightCC [68, 101, 113, 0x80, 0x81, 0x82, 0x83, 0x84]) vtag"

definition deque_image :: "eightcc \<Rightarrow> u64 \<Rightarrow> u64 \<Rightarrow> u64 \<Rightarrow> u64 \<Rightarrow> u8 list" where
  "deque_image vtag data cap head len = to_le64 DEQUE_SIZE @ cc_bytes (deque_eightcc vtag)
     @ to_le64 data @ to_le64 cap @ to_le64 head @ to_le64 len"

definition deque_zero_cap :: io_error where
  "deque_zero_cap = IoError InvalidData ''corrupt deque: zero capacity with a nonzero length''"

definition deque_cap_overflow :: io_error where
  "deque_cap_overflow = IoError InvalidData ''deque capacity overflow''"

definition deque_offset_overflow :: io_error where
  "deque_offset_overflow = IoError InvalidData ''deque offset overflow''"

definition deque_len_overflow :: io_error where
  "deque_len_overflow = IoError InvalidData ''deque length overflow''"

definition deque_too_long :: io_error where
  "deque_too_long = IoError InvalidData ''deque length larger than the stack''"

text \<open>The four words of the handle, in the order head, length, capacity, data.\<close>

definition deque_read_meta :: "'s stack_ops \<Rightarrow> u64 \<Rightarrow> 's \<Rightarrow> (u64 \<times> u64 \<times> u64 \<times> u64) res \<times> 's" where
  "deque_read_meta io handle s =
     try_s (read_fields io 4 (handle + DEQ_DATA_OFF) s) (\<lambda>fs s1. (Inr (fs ! 2, fs ! 3, fs ! 1, fs ! 0), s1))"

definition ring_index :: "u64 \<Rightarrow> u64 \<Rightarrow> u64 \<Rightarrow> u64 res" where
  "ring_index head x cap = (if cap = 0 then Inl deque_zero_cap else Inr ((head + x) mod cap))"

definition slot_addr :: "u64 \<Rightarrow> u64 \<Rightarrow> u64 res" where
  "slot_addr data idx = checked_off_mul data idx 8"

definition ring_slot :: "u64 \<Rightarrow> u64 \<Rightarrow> u64 \<Rightarrow> u64 \<Rightarrow> u64 res" where
  "ring_slot data head x cap = try_r (ring_index head x cap) (\<lambda>idx. slot_addr data idx)"

section \<open>Construction\<close>

definition deque_with_image :: "'s stack_ops \<Rightarrow> eightcc \<Rightarrow> u64 \<Rightarrow> u64 \<Rightarrow> 's \<Rightarrow> range res \<times> 's" where
  "deque_with_image io vtag data cap s = alloc_image io (deque_image vtag data cap 0 0) s"

definition deque_new :: "'s stack_ops \<Rightarrow> eightcc \<Rightarrow> 's \<Rightarrow> range res \<times> 's" where
  "deque_new io vtag s = deque_with_image io vtag 0 0 s"

definition deque_with_capacity :: "'s stack_ops \<Rightarrow> eightcc \<Rightarrow> u64 \<Rightarrow> 's \<Rightarrow> range res \<times> 's" where
  "deque_with_capacity io vtag cap s =
     (if cap = 0 then deque_new io vtag s
      else
        let size = saturating_mul64 cap 8 in
        try_s (op_alloc io size s) (\<lambda>q s1.
          case deque_with_image io vtag (fst q) cap s1 of
            (Inr r, s2) \<Rightarrow> (Inr r, s2)
          | (Inl e, s2) \<Rightarrow> (Inl e, snd (op_dealloc io (fst q, size) s2))))"

definition deque_len :: "'s stack_ops \<Rightarrow> u64 \<Rightarrow> 's \<Rightarrow> u64 res \<times> 's" where
  "deque_len io handle s = read_u64 io (handle + DEQ_LEN_OFF) s"

definition deque_is_empty :: "'s stack_ops \<Rightarrow> u64 \<Rightarrow> 's \<Rightarrow> bool res \<times> 's" where
  "deque_is_empty io handle s = try_s (deque_len io handle s) (\<lambda>n s1. (Inr (n = 0), s1))"

definition deque_capacity :: "'s stack_ops \<Rightarrow> u64 \<Rightarrow> 's \<Rightarrow> u64 res \<times> 's" where
  "deque_capacity io handle s = read_u64 io (handle + DEQ_CAP_OFF) s"

section \<open>Growth\<close>

text \<open>The words every update reads: head, length, capacity, data.\<close>

definition deque_words :: "u64 \<Rightarrow> u64 list" where
  "deque_words handle = [handle + DEQ_HEAD_OFF, handle + DEQ_LEN_OFF, handle + DEQ_CAP_OFF, handle + DEQ_DATA_OFF]"

definition grow_needless :: "u64 \<Rightarrow> u64 \<Rightarrow> u64 \<Rightarrow> bool" where
  "grow_needless newcap len cap \<longleftrightarrow> (cap \<noteq> 0 \<and> len < cap) \<or> newcap \<le> cap"

fun collect_res :: "'a res list \<Rightarrow> 'a list res" where
  "collect_res [] = Inr []"
| "collect_res (r # rs) = try_r r (\<lambda>x. try_r (collect_res rs) (\<lambda>xs. Inr (x # xs)))"

definition deque_grow_reads :: "u64 \<Rightarrow> u64 list \<Rightarrow> u64 list res" where
  "deque_grow_reads newcap v1 =
     (let head = v1 ! 0; len = v1 ! 1; cap = v1 ! 2; data = v1 ! 3 in
      if grow_needless newcap len cap then Inr []
      else collect_res (map (\<lambda>i. ring_slot data head (of_nat i) cap) [0..<unat len]))"

definition ring_copy :: "u64 \<Rightarrow> u64 list \<Rightarrow> writes res" where
  "ring_copy newring v2 =
     collect_res (map (\<lambda>i.
       try_r (ok_or deque_offset_overflow (checked_mul64 (of_nat i) 8)) (\<lambda>d.
       try_r (ok_or deque_offset_overflow (checked_add64 newring d)) (\<lambda>off. Inr (w8 off (v2 ! i)))))
       [0..<length v2])"

definition deque_grow_plan ::
    "u64 \<Rightarrow> u64 \<Rightarrow> u64 \<Rightarrow> u64 list \<Rightarrow> u64 list \<Rightarrow> (writes \<times> (u64 \<times> u64) option) res" where
  "deque_grow_plan handle newring newcap v1 v2 =
     (let len = v1 ! 1; cap = v1 ! 2; data = v1 ! 3 in
      if grow_needless newcap len cap then Inr ([], None)
      else try_r (ring_copy newring v2) (\<lambda>ws.
        Inr (ws @ [w8 (handle + DEQ_DATA_OFF) newring, w8 (handle + DEQ_CAP_OFF) newcap,
                   w8 (handle + DEQ_HEAD_OFF) 0], Some (data, cap))))"

definition deque_grow :: "'s stack_ops \<Rightarrow> u64 \<Rightarrow> 's \<Rightarrow> unit res \<times> 's" where
  "deque_grow io handle s =
     try_s (read_u64 io (handle + DEQ_CAP_OFF) s) (\<lambda>cap0 s1.
       let newcap = (if cap0 = 0 then DEQ_MIN_CAP else saturating_mul64 cap0 2) in
     try_in (ok_or deque_cap_overflow (checked_mul64 newcap 8)) s1 (\<lambda>new_size.
     try_s (op_alloc io new_size s1) (\<lambda>q s2.
     try_s (atomic_update io (deque_words handle) (deque_grow_reads newcap)
              (deque_grow_plan handle (fst q) newcap) s2) (\<lambda>grown s3.
       (Inr (),
        case grown of
          Some (old_ring, old_cap) \<Rightarrow>
            if old_cap > 0 then snd (op_dealloc io (old_ring, saturating_mul64 old_cap 8) s3) else s3
        | None \<Rightarrow> snd (op_dealloc io (fst q, new_size) s3))))))"

section \<open>Pushing\<close>

definition push_back_plan :: "u64 \<Rightarrow> u64 \<Rightarrow> u64 list \<Rightarrow> u64 list \<Rightarrow> (writes \<times> bool) res" where
  "push_back_plan handle val v1 v2 =
     (let head = v1 ! 0; len = v1 ! 1; cap = v1 ! 2; data = v1 ! 3 in
      if len < cap then
        try_r (slot_addr data ((head + len) mod cap)) (\<lambda>slot.
          Inr ([w8 slot val, w8 (handle + DEQ_LEN_OFF) (len + 1)], False))
      else Inr ([], True))"

definition push_front_plan :: "u64 \<Rightarrow> u64 \<Rightarrow> u64 list \<Rightarrow> u64 list \<Rightarrow> (writes \<times> bool) res" where
  "push_front_plan handle val v1 v2 =
     (let head = v1 ! 0; len = v1 ! 1; cap = v1 ! 2; data = v1 ! 3 in
      if len < cap then
        let idx = (head + (cap - 1)) mod cap in
        try_r (slot_addr data idx) (\<lambda>slot.
          Inr ([w8 slot val, w8 (handle + DEQ_HEAD_OFF) idx, w8 (handle + DEQ_LEN_OFF) (len + 1)], False))
      else Inr ([], True))"

text \<open>The retry loop of both pushes, with a bound on its rounds; \<open>None\<close> is a loop that has not ended.\<close>

fun push_loop ::
    "nat \<Rightarrow> 's stack_ops \<Rightarrow> u64 \<Rightarrow> (u64 list \<Rightarrow> u64 list \<Rightarrow> (writes \<times> bool) res) \<Rightarrow> 's \<Rightarrow> (unit res \<times> 's) option" where
  "push_loop 0 io handle plan s = None"
| "push_loop (Suc fuel) io handle plan s =
     (case atomic_update io (deque_words handle) (\<lambda>_. Inr []) plan s of
        (Inl e, s1) \<Rightarrow> Some (Inl e, s1)
      | (Inr full, s1) \<Rightarrow>
          if \<not> full then Some (Inr (), s1)
          else (case deque_grow io handle s1 of
                  (Inl e, s2) \<Rightarrow> Some (Inl e, s2)
                | (Inr _, s2) \<Rightarrow> push_loop fuel io handle plan s2))"

definition deque_push_back ::
    "nat \<Rightarrow> 's stack_ops \<Rightarrow> u64 \<Rightarrow> u64 \<Rightarrow> 's \<Rightarrow> (((io_error \<times> u64) + unit) \<times> 's) option" where
  "deque_push_back fuel io handle val s =
     map_option (\<lambda>(r, s'). (finish_handback val r, s')) (push_loop fuel io handle (push_back_plan handle val) s)"

definition deque_push_front ::
    "nat \<Rightarrow> 's stack_ops \<Rightarrow> u64 \<Rightarrow> u64 \<Rightarrow> 's \<Rightarrow> (((io_error \<times> u64) + unit) \<times> 's) option" where
  "deque_push_front fuel io handle val s =
     map_option (\<lambda>(r, s'). (finish_handback val r, s')) (push_loop fuel io handle (push_front_plan handle val) s)"

section \<open>Popping\<close>

definition pop_back_reads :: "u64 list \<Rightarrow> u64 list res" where
  "pop_back_reads v1 =
     (let head = v1 ! 0; len = v1 ! 1; cap = v1 ! 2; data = v1 ! 3 in
      if len = 0 then Inr [] else try_r (ring_slot data head (len - 1) cap) (\<lambda>off. Inr [off]))"

definition pop_back_plan :: "u64 \<Rightarrow> u64 list \<Rightarrow> u64 list \<Rightarrow> (writes \<times> u64 option) res" where
  "pop_back_plan handle v1 v2 =
     (let len = v1 ! 1 in
      if len \<noteq> 0 then Inr ([w8 (handle + DEQ_LEN_OFF) (len - 1)], Some (v2 ! 0)) else Inr ([], None))"

definition deque_pop_back :: "'s stack_ops \<Rightarrow> u64 \<Rightarrow> 's \<Rightarrow> u64 option res \<times> 's" where
  "deque_pop_back io handle s = atomic_update io (deque_words handle) pop_back_reads (pop_back_plan handle) s"

definition pop_front_reads :: "u64 list \<Rightarrow> u64 list res" where
  "pop_front_reads v1 =
     (let head = v1 ! 0; len = v1 ! 1; cap = v1 ! 2; data = v1 ! 3 in
      if len = 0 then Inr [] else try_r (ring_slot data head 0 cap) (\<lambda>off. Inr [off]))"

definition pop_front_plan :: "u64 \<Rightarrow> u64 list \<Rightarrow> u64 list \<Rightarrow> (writes \<times> u64 option) res" where
  "pop_front_plan handle v1 v2 =
     (let head = v1 ! 0; len = v1 ! 1; cap = v1 ! 2 in
      if len \<noteq> 0 then
        try_r (ring_index head 1 cap) (\<lambda>idx.
          Inr ([w8 (handle + DEQ_HEAD_OFF) idx, w8 (handle + DEQ_LEN_OFF) (len - 1)], Some (v2 ! 0)))
      else Inr ([], None))"

definition deque_pop_front :: "'s stack_ops \<Rightarrow> u64 \<Rightarrow> 's \<Rightarrow> u64 option res \<times> 's" where
  "deque_pop_front io handle s = atomic_update io (deque_words handle) pop_front_reads (pop_front_plan handle) s"

section \<open>Reading\<close>

definition deque_front :: "'s stack_ops \<Rightarrow> u64 \<Rightarrow> 's \<Rightarrow> u64 option res \<times> 's" where
  "deque_front io handle s =
     try_s (deque_read_meta io handle s) (\<lambda>(head, len, cap, data) s1.
       if len = 0 then (Inr None, s1)
       else try_in (ring_slot data head 0 cap) s1 (\<lambda>off.
         try_s (read_u64 io off s1) (\<lambda>v s2. (Inr (Some v), s2))))"

definition deque_back :: "'s stack_ops \<Rightarrow> u64 \<Rightarrow> 's \<Rightarrow> u64 option res \<times> 's" where
  "deque_back io handle s =
     try_s (deque_read_meta io handle s) (\<lambda>(head, len, cap, data) s1.
       if len = 0 then (Inr None, s1)
       else try_in (ring_slot data head (len - 1) cap) s1 (\<lambda>off.
         try_s (read_u64 io off s1) (\<lambda>v s2. (Inr (Some v), s2))))"

text \<open>The first argument counts the elements still to be read.\<close>

fun ring_read_loop :: "nat \<Rightarrow> 's stack_ops \<Rightarrow> u64 \<Rightarrow> u64 \<Rightarrow> u64 \<Rightarrow> u64 \<Rightarrow> 's \<Rightarrow> u64 list res \<times> 's" where
  "ring_read_loop 0 io data head cap i s = (Inr [], s)"
| "ring_read_loop (Suc n) io data head cap i s =
     try_in (ring_slot data head i cap) s (\<lambda>off.
     try_s (read_u64 io off s) (\<lambda>v s1.
     try_s (ring_read_loop n io data head cap (i + 1) s1) (\<lambda>vs s2. (Inr (v # vs), s2))))"

text \<open>\<open>stack_len\<close> is the store's length query.\<close>

definition deque_to_vec :: "'s stack_ops \<Rightarrow> ('s \<Rightarrow> u64 res \<times> 's) \<Rightarrow> u64 \<Rightarrow> 's \<Rightarrow> u64 list res \<times> 's" where
  "deque_to_vec io stack_len handle s =
     try_s (deque_read_meta io handle s) (\<lambda>(head, len, cap, data) s1.
     try_in (ok_or deque_len_overflow (checked_mul64 len 8)) s1 (\<lambda>ring_bytes.
     try_s (stack_len s1) (\<lambda>total s2.
       if ring_bytes > total then (Inl deque_too_long, s2)
       else ring_read_loop (unat len) io data head cap 0 s2)))"

section \<open>Iteration\<close>

record deque_iter =
  di_block :: u64
  di_data :: u64
  di_cap :: u64
  di_head :: u64
  di_len :: u64
  di_pos :: u64

definition deque_iter_new :: "'s stack_ops \<Rightarrow> u64 \<Rightarrow> 's \<Rightarrow> deque_iter res \<times> 's" where
  "deque_iter_new io handle s =
     try_s (deque_read_meta io handle s) (\<lambda>(head, len, cap, data) s1.
       (Inr \<lparr>di_block = handle, di_data = data, di_cap = cap, di_head = head, di_len = len, di_pos = 0\<rparr>, s1))"

definition deque_iter_mutated :: io_error where
  "deque_iter_mutated = IoError InvalidData ''BStackDeque was mutated during iteration (its head/len/ring changed); the iterator is invalidated''"

definition deque_iter_next ::
    "'s stack_ops \<Rightarrow> deque_iter \<Rightarrow> 's \<Rightarrow> u64 res option \<times> deque_iter \<times> 's" where
  "deque_iter_next io it s =
     (let stop = it\<lparr>di_pos := di_len it\<rparr> in
      if di_pos it \<ge> di_len it then (None, it, s)
      else
        (case deque_read_meta io (di_block it) s of
           (Inl e, s1) \<Rightarrow> (Some (Inl e), stop, s1)
         | (Inr (head, len, cap, data), s1) \<Rightarrow>
             if data = di_data it \<and> cap = di_cap it \<and> head = di_head it \<and> len = di_len it then
               (case ring_slot (di_data it) (di_head it) (di_pos it) (di_cap it) of
                  Inl e \<Rightarrow> (Some (Inl e), stop, s1)
                | Inr slot \<Rightarrow>
                    (case read_u64 io slot s1 of
                       (Inl e, s2) \<Rightarrow> (Some (Inl e), stop, s2)
                     | (Inr v, s2) \<Rightarrow> (Some (Inr v), it\<lparr>di_pos := di_pos it + 1\<rparr>, s2)))
             else (Some (Inl deque_iter_mutated), stop, s1)))"

section \<open>Teardown and clone\<close>

fun ring_drop_loop ::
    "nat \<Rightarrow> 's allocator \<Rightarrow> (u64 \<Rightarrow> 's thread \<Rightarrow> unit res \<times> 's thread) \<Rightarrow> u64 \<Rightarrow> u64 \<Rightarrow> u64 \<Rightarrow> u64 \<Rightarrow> 's thread
      \<Rightarrow> unit res \<times> 's thread" where
  "ring_drop_loop 0 al drop_value data head cap i t = (Inr (), t)"
| "ring_drop_loop (Suc n) al drop_value data head cap i t =
     try_in (ring_slot data head i cap) t (\<lambda>off.
     try_s (on_store (read_u64 (al_io al) off) t) (\<lambda>r t1.
     try_s (if r \<noteq> 0 then drop_value r t1 else (Inr (), t1)) (\<lambda>_ t2.
       ring_drop_loop n al drop_value data head cap (i + 1) t2)))"

definition deque_drop_children ::
    "'s allocator \<Rightarrow> (u64 \<Rightarrow> 's thread \<Rightarrow> unit res \<times> 's thread) \<Rightarrow> 's dropper" where
  "deque_drop_children al drop_value q t =
     try_s (on_store (deque_read_meta (al_io al) (fst q)) t) (\<lambda>(head, len, cap, data) t1.
     try_s (ring_drop_loop (unat len) al drop_value data head cap 0 t1) (\<lambda>_ t2.
       if data \<noteq> 0 then
         try_in (ok_or deque_cap_overflow (checked_mul64 cap 8)) t2 (\<lambda>size. dealloc_range al (data, size) t2)
       else (Inr (), t2)))"

fun ring_clone_loop ::
    "nat \<Rightarrow> 's stack_ops \<Rightarrow> (u64 \<Rightarrow> clone_plan \<Rightarrow> 's \<Rightarrow> (range res \<times> clone_plan) \<times> 's) \<Rightarrow> u64 \<Rightarrow> u64 \<Rightarrow> u64 \<Rightarrow> u64
      \<Rightarrow> clone_plan \<Rightarrow> 's \<Rightarrow> (u64 list res \<times> clone_plan) \<times> 's" where
  "ring_clone_loop 0 io clone_value data head cap i p s = ((Inr [], p), s)"
| "ring_clone_loop (Suc n) io clone_value data head cap i p s =
     (case ring_slot data head i cap of
        Inl e \<Rightarrow> ((Inl e, p), s)
      | Inr off \<Rightarrow>
          clone_bind (clone_store (read_u64 io off) p s) (\<lambda>r p1 s1.
          clone_bind (if r \<noteq> 0 then clone_bind (clone_value r p1 s1) (\<lambda>dst p2 s2. ((Inr (fst dst), p2), s2))
                      else ((Inr 0, p1), s1)) (\<lambda>d p3 s3.
          clone_bind (ring_clone_loop n io clone_value data head cap (i + 1) p3 s3) (\<lambda>ds p4 s4.
            ((Inr (d # ds), p4), s4)))))"

definition deque_clone_children ::
    "'s stack_ops \<Rightarrow> unit res \<Rightarrow> ('s \<Rightarrow> u64 res \<times> 's) \<Rightarrow> eightcc
      \<Rightarrow> (u64 \<Rightarrow> clone_plan \<Rightarrow> 's \<Rightarrow> (range res \<times> clone_plan) \<times> 's) \<Rightarrow> u64 \<Rightarrow> clone_plan \<Rightarrow> 's
      \<Rightarrow> (u8 list res \<times> clone_plan) \<times> 's" where
  "deque_clone_children io lock stack_len vtag clone_value handle p s =
     clone_bind (clone_store (deque_read_meta io handle) p s) (\<lambda>(head, len, cap, data) p1 s1.
       case checked_mul64 len 8 of
         None \<Rightarrow> ((Inl deque_len_overflow, p1), s1)
       | Some ring_bytes \<Rightarrow>
           clone_bind (clone_store stack_len p1 s1) (\<lambda>total p2 s2.
             if ring_bytes > total then ((Inl deque_too_long, p2), s2)
             else clone_bind (ring_clone_loop (unat len) io clone_value data head cap 0 p2 s2) (\<lambda>dsts p3 s3.
               if len > 0 then
                 clone_bind (plan_alloc_raw io lock ring_bytes p3 s3) (\<lambda>ring p4 s4.
                   ((Inr (deque_image vtag (fst ring) len 0 len),
                     plan_write (fst ring) (concat (map to_le64 dsts)) p4), s4))
               else ((Inr (deque_image vtag 0 0 0 len), p3), s3))))"

end
