(* ===== verification/Containers.thy ===== *)
theory Containers
  imports Updates
begin

text \<open>
  What a collection promises its caller over a run of operations, once for all collections. A
  collection in a state owns a set of live blocks and stands for an abstract value. The locale
  \<open>container\<close> is the contract of one operation: it ends, keeps the invariant, touches no block outside
  those it owned, takes only fresh ones, and relates the abstract values before and after by \<open>step\<close>; on
  a calm store an operation for which \<open>sure\<close> holds does not fail. The same then holds of any run. The
  last section is the specification of the sequences that can be changed at both ends.
\<close>

section \<open>Runs\<close>

fun run_ops :: "('op \<Rightarrow> 's \<Rightarrow> ('r \<times> 's) option) \<Rightarrow> 'op list \<Rightarrow> 's \<Rightarrow> ('r list \<times> 's) option" where
  "run_ops exec [] s = Some ([], s)"
| "run_ops exec (oper # ops) s =
     (case exec oper s of
        None \<Rightarrow> None
      | Some (r, s1) \<Rightarrow> map_option (\<lambda>(rs, s2). (r # rs, s2)) (run_ops exec ops s1))"

inductive trace :: "('a \<Rightarrow> 'op \<Rightarrow> 'r \<Rightarrow> 'a \<Rightarrow> bool) \<Rightarrow> 'a \<Rightarrow> 'op list \<Rightarrow> 'r list \<Rightarrow> 'a \<Rightarrow> bool"
  for step where
  trace_done: "trace step a [] [] a"
| trace_step: "step a oper r a1 \<Longrightarrow> trace step a1 ops rs a2 \<Longrightarrow> trace step a (oper # ops) (r # rs) a2"

inductive_simps trace_simps:
  "trace step a [] rs a2"
  "trace step a (oper # ops) rs a2"

text \<open>The usual step: an answer and an effect, or an error without effect.\<close>

definition answers :: "('op \<Rightarrow> 'a \<Rightarrow> 'v) \<Rightarrow> ('op \<Rightarrow> 'a \<Rightarrow> 'a) \<Rightarrow> 'a \<Rightarrow> 'op \<Rightarrow> 'v res \<Rightarrow> 'a \<Rightarrow> bool" where
  "answers answer after a oper r a1 \<longleftrightarrow>
     (case r of Inl e \<Rightarrow> a1 = a | Inr v \<Rightarrow> v = answer oper a \<and> a1 = after oper a)"

lemma answers_simps [simp]:
  "answers answer after a oper (Inl e) a1 \<longleftrightarrow> a1 = a"
  "answers answer after a oper (Inr v) a1 \<longleftrightarrow> v = answer oper a \<and> a1 = after oper a"
  by (simp_all add: answers_def)

section \<open>The frame of a collection\<close>

text \<open>From a state where the collection owns \<open>R\<close> to one where it owns \<open>R'\<close>.\<close>

definition owns_frame :: "'s stack_view \<Rightarrow> 's \<Rightarrow> range set \<Rightarrow> 's \<Rightarrow> range set \<Rightarrow> bool" where
  "owns_frame vw s R s' R' \<longleftrightarrow> kept vw R s s' \<and> R' \<inter> (v_live vw s - R) = {}"

lemma owns_frame_refl: "v_good vw s \<Longrightarrow> owns_frame vw s R s R"
  by (auto simp: owns_frame_def frame_refl)

lemma owns_frame_same: "kept vw R s s' \<Longrightarrow> R' \<subseteq> R \<Longrightarrow> owns_frame vw s R s' R'"
  by (auto simp: owns_frame_def)

lemma owns_frame_trans:
  assumes "owns_frame vw s R s1 R1" and "owns_frame vw s1 R1 s2 R2"
  shows "owns_frame vw s R s2 R2"
proof -
  have "kept vw R s s2"
    by (rule frame_trans) (use assms in \<open>auto simp: owns_frame_def\<close>)
  moreover have "v_live vw s - R \<subseteq> v_live vw s1 - R1" using assms(1) by (auto simp: owns_frame_def kept_def)
  ultimately show ?thesis using assms(2) by (auto simp: owns_frame_def)
qed

section \<open>The contract\<close>

locale container =
  fixes vw :: "'s stack_view" and exec :: "'op \<Rightarrow> 's \<Rightarrow> ('v res \<times> 's) option"
    and inv :: "'s \<Rightarrow> range set \<Rightarrow> 'a \<Rightarrow> bool"
    and step :: "'a \<Rightarrow> 'op \<Rightarrow> 'v res \<Rightarrow> 'a \<Rightarrow> bool" and allowed sure :: "'op \<Rightarrow> bool"
  assumes inv_good: "inv s R a \<Longrightarrow> v_good vw s"
    and exec_step: "inv s R a \<Longrightarrow> allowed oper \<Longrightarrow>
      \<exists>r s' R' a'. exec oper s = Some (r, s') \<and> inv s' R' a' \<and> owns_frame vw s R s' R' \<and> step a oper r a'
        \<and> (v_calm vw s \<longrightarrow> v_calm vw s' \<and> (sure oper \<longrightarrow> \<not> isl r))"
begin

lemma run_simulates:
  "inv s R a \<Longrightarrow> \<forall>oper \<in> set ops. allowed oper \<Longrightarrow>
    \<exists>rs s' R' a'. run_ops exec ops s = Some (rs, s') \<and> inv s' R' a' \<and> owns_frame vw s R s' R' \<and> trace step a ops rs a'
      \<and> (v_calm vw s \<longrightarrow> v_calm vw s' \<and> list_all2 (\<lambda>oper r. sure oper \<longrightarrow> \<not> isl r) ops rs)"
proof (induction ops arbitrary: s R a)
  case Nil
  then show ?case by (auto simp: inv_good owns_frame_refl trace_simps)
next
  case (Cons oper ops)
  obtain r s1 R1 a1 where e: "exec oper s = Some (r, s1)" and i: "inv s1 R1 a1" and f: "owns_frame vw s R s1 R1"
    and st: "step a oper r a1" and c: "v_calm vw s \<longrightarrow> v_calm vw s1 \<and> (sure oper \<longrightarrow> \<not> isl r)"
    using exec_step [OF Cons.prems(1), of oper] Cons.prems(2) by auto
  obtain rs s' R' a' where rest: "run_ops exec ops s1 = Some (rs, s')" "inv s' R' a'" "owns_frame vw s1 R1 s' R'"
    "trace step a1 ops rs a'"
    "v_calm vw s1 \<longrightarrow> v_calm vw s' \<and> list_all2 (\<lambda>oper r. sure oper \<longrightarrow> \<not> isl r) ops rs"
    using Cons.IH [OF i] Cons.prems(2) by auto
  have "run_ops exec (oper # ops) s = Some (r # rs, s')" using e rest(1) by simp
  moreover have "owns_frame vw s R s' R'" using f rest(3) by (rule owns_frame_trans)
  moreover have "trace step a (oper # ops) (r # rs) a'" using st rest(4) by (rule trace_step)
  ultimately show ?case using rest(2,5) c by (intro exI [of _ "r # rs"]) auto
qed

end

section \<open>Sequences with two ends\<close>

datatype ends_op = PushBack u64 | PushFront u64 | PopBack | PopFront | Front | Back | Len

text \<open>The specification: a list, its two ends and its length.\<close>

fun ends_answer :: "ends_op \<Rightarrow> u64 list \<Rightarrow> u64 option" where
  "ends_answer (PushBack v) xs = None"
| "ends_answer (PushFront v) xs = None"
| "ends_answer PopBack xs = (if xs = [] then None else Some (last xs))"
| "ends_answer PopFront xs = (if xs = [] then None else Some (hd xs))"
| "ends_answer Front xs = (if xs = [] then None else Some (hd xs))"
| "ends_answer Back xs = (if xs = [] then None else Some (last xs))"
| "ends_answer Len xs = Some (of_nat (length xs))"

fun ends_after :: "ends_op \<Rightarrow> u64 list \<Rightarrow> u64 list" where
  "ends_after (PushBack v) xs = xs @ [v]"
| "ends_after (PushFront v) xs = v # xs"
| "ends_after PopBack xs = butlast xs"
| "ends_after PopFront xs = tl xs"
| "ends_after _ xs = xs"

text \<open>Only a push allocates, so only a push can fail on a calm store.\<close>

fun no_alloc :: "ends_op \<Rightarrow> bool" where
  "no_alloc (PushBack v) = False"
| "no_alloc (PushFront v) = False"
| "no_alloc _ = True"

section \<open>Iterators\<close>

text \<open>The calls of \<open>next\<close> up to the first that yields nothing; the first argument bounds them.\<close>

fun drain :: "nat \<Rightarrow> ('i \<Rightarrow> 's \<Rightarrow> 'v res option \<times> 'i \<times> 's) \<Rightarrow> 'i \<Rightarrow> 's \<Rightarrow> ('v res list \<times> 's) option" where
  "drain 0 next_of it s = None"
| "drain (Suc fuel) next_of it s =
     (case next_of it s of
        (None, it1, s1) \<Rightarrow> Some ([], s1)
      | (Some r, it1, s1) \<Rightarrow> map_option (\<lambda>(rs, s2). (r # rs, s2)) (drain fuel next_of it1 s1))"

text \<open>What an iteration may yield: all the elements, or some and then an error.\<close>

definition yields :: "'a list \<Rightarrow> 'a res list \<Rightarrow> bool" where
  "yields xs rs \<longleftrightarrow> rs = map Inr xs \<or> (\<exists>k e. k < Suc (length xs) \<and> rs = map Inr (take k xs) @ [Inl e])"

lemma yields_Nil [simp]: "yields [] []"
  by (simp add: yields_def)

lemma yields_error: "yields xs [Inl e]"
  unfolding yields_def by (intro disjI2 exI [of _ 0] exI [of _ e]) simp

lemma yields_Cons: "yields xs rs \<Longrightarrow> yields (x # xs) (Inr x # rs)"
  unfolding yields_def by (metis (no_types, lifting) Suc_less_eq append_Cons length_Cons list.simps(9) take_Suc_Cons)

text \<open>\<open>inv s xs it\<close> says that in state \<open>s\<close> the iterator is about to yield \<open>xs\<close>.\<close>

locale iterator =
  fixes vw :: "'s stack_view" and next_of :: "'i \<Rightarrow> 's \<Rightarrow> 'v res option \<times> 'i \<times> 's"
    and inv :: "'s \<Rightarrow> 'v list \<Rightarrow> 'i \<Rightarrow> bool"
  assumes next_end: "inv s [] it \<Longrightarrow> next_of it s = (None, it, s)"
    and inv_state: "inv s xs it \<Longrightarrow> v_good vw s"
    and next_step: "inv s (x # xs) it \<Longrightarrow> next_of it s = (r, it', s') \<Longrightarrow> unchanged vw s s'
      \<and> (r = Some (Inr x) \<and> inv s' xs it' \<or> (\<exists>e. r = Some (Inl e)) \<and> next_of it' s' = (None, it', s'))
      \<and> (v_calm vw s \<longrightarrow> r = Some (Inr x) \<and> v_calm vw s')"
begin

lemma drain_yields:
  "inv s xs it \<Longrightarrow> \<exists>rs s'. drain (length xs + 2) next_of it s = Some (rs, s')
    \<and> unchanged vw s s' \<and> yields xs rs \<and> (v_calm vw s \<longrightarrow> rs = map Inr xs)"
proof (induction xs arbitrary: s it)
  case Nil
  then show ?case using next_end [OF Nil] inv_state [OF Nil] by (simp add: unchanged_def)
next
  case (Cons x xs)
  obtain r it' s1 where e: "next_of it s = (r, it', s1)" by (metis prod_cases3)
  note st = next_step [OF Cons.prems e]
  then have u: "unchanged vw s s1" by simp
  show ?case
  proof (cases "r = Some (Inr x) \<and> inv s1 xs it'")
    case True
    then obtain rs s' where ih: "drain (length xs + 2) next_of it' s1 = Some (rs, s')" "unchanged vw s1 s'"
      "yields xs rs" "v_calm vw s1 \<longrightarrow> rs = map Inr xs"
      using Cons.IH by blast
    have "drain (length (x # xs) + 2) next_of it s = Some (Inr x # rs, s')" using e True ih(1) by simp
    moreover have "unchanged vw s s'" using u ih(2) by (simp add: unchanged_def)
    moreover have "v_calm vw s \<longrightarrow> Inr x # rs = map Inr (x # xs)" using st ih(4) by simp
    ultimately show ?thesis using yields_Cons [OF ih(3)] by (intro exI conjI)
  next
    case False
    then obtain e' where e': "r = Some (Inl e')" "next_of it' s1 = (None, it', s1)" using st by blast
    have "drain (length (x # xs) + 2) next_of it s = Some ([Inl e'], s1)" using e e' by simp
    moreover have "v_calm vw s \<longrightarrow> [Inl e'] = map Inr (x # xs)" using st e' by simp
    ultimately show ?thesis using u yields_error by (intro exI conjI)
  qed
qed

end

end
