(* ===== verification/DequeProps.thy ===== *)
theory DequeProps
  imports Deque Containers
begin

text \<open>
  The deque of \<^verbatim>\<open>src/stdlib/deque.rs\<close> against lists. \<open>ring_holds\<close> reads a list out of a ring;
  the pushes and pops are the list operations at its two ends; growth rewrites the ring from head 0
  and keeps the list.
\<close>

section \<open>Rings\<close>

definition ring_holds :: "u8 list \<Rightarrow> nat \<Rightarrow> nat \<Rightarrow> nat \<Rightarrow> u64 list \<Rightarrow> bool" where
  "ring_holds b data cap head xs \<longleftrightarrow>
     length xs \<le> cap \<and> (\<forall>i < length xs. word_at b (data + 8 * ((head + i) mod cap)) = xs ! i)"

lemma ring_holdsD: "ring_holds b data cap head xs \<Longrightarrow> i < length xs \<Longrightarrow>
    word_at b (data + 8 * ((head + i) mod cap)) = xs ! i"
  by (simp add: ring_holds_def)

lemma ring_index_inj:
  assumes "(h + i) mod c = (h + j) mod c" and "i < c" and "j < (c :: nat)"
  shows "i = j"
proof -
  have le: "x = y" if "x \<le> y" "(h + y) mod c = (h + x) mod c" "y < c" for x y
  proof -
    have "c dvd (h + y) - (h + x)" using that(1,2) by (subst mod_eq_dvd_iff_nat [symmetric]) simp_all
    then have "c dvd y - x" by simp
    then have "y - x = 0" using that(3) by (metis dvd_imp_le less_imp_diff_less not_gr0 not_less)
    with that(1) show ?thesis by simp
  qed
  show ?thesis using le [of i j] le [of j i] assms by (cases "i \<le> j") auto
qed

text \<open>Two slots are equal or apart.\<close>

lemma slot_bound: "x < c \<Longrightarrow> data + 8 * c \<le> n \<Longrightarrow> data + 8 * x + 8 \<le> (n :: nat)"
  by linarith

lemma word_at_slot_poke:
  assumes "x < c" and "y < c" and "data + 8 * c \<le> length b"
  shows "word_at (poke (data + 8 * x) v b) (data + 8 * y) = (if y = x then v else word_at b (data + 8 * y))"
proof (cases "y = x")
  case False
  then have "y + 1 \<le> x \<or> x + 1 \<le> y" by linarith
  then have "data + 8 * y + 8 \<le> data + 8 * x \<or> data + 8 * x + 8 \<le> data + 8 * y" by linarith
  with False slot_bound [OF assms(1,3)] slot_bound [OF assms(2,3)] show ?thesis
    by (simp add: word_at_poke_other)
qed (use slot_bound [OF assms(1,3)] in simp)

lemma ring_push_back:
  assumes "ring_holds b data cap head xs" and "length xs < cap" and "data + 8 * cap \<le> length b"
  shows "ring_holds (poke (data + 8 * ((head + length xs) mod cap)) v b) data cap head (xs @ [v])"
proof -
  have "word_at (poke (data + 8 * ((head + length xs) mod cap)) v b) (data + 8 * ((head + i) mod cap)) = (xs @ [v]) ! i"
    if i: "i < Suc (length xs)" for i
  proof -
    have "((head + i) mod cap = (head + length xs) mod cap) = (i = length xs)"
      using ring_index_inj [of head i cap "length xs"] i assms(2) by auto
    then show ?thesis
      using word_at_slot_poke [OF _ _ assms(3), of "(head + length xs) mod cap" "(head + i) mod cap" v]
        ring_holdsD [OF assms(1), of i] i assms(2)
      by (auto simp: nth_append)
  qed
  with assms(2) show ?thesis by (simp add: ring_holds_def)
qed

lemma ring_push_front:
  assumes "ring_holds b data cap head xs" and "length xs < cap" and "data + 8 * cap \<le> length b" and "head < cap"
  shows "ring_holds (poke (data + 8 * ((head + (cap - 1)) mod cap)) v b) data cap ((head + (cap - 1)) mod cap) (v # xs)"
proof -
  let ?h = "(head + (cap - 1)) mod cap"
  have suc: "(?h + Suc i) mod cap = (head + i) mod cap" for i
  proof -
    have "(?h + Suc i) mod cap = (head + (cap - 1) + Suc i) mod cap" by (rule mod_add_left_eq)
    also have "head + (cap - 1) + Suc i = head + i + cap" using assms(4) by simp
    finally show ?thesis by simp
  qed
  have "word_at (poke (data + 8 * ?h) v b) (data + 8 * ((?h + i) mod cap)) = (v # xs) ! i"
    if i: "i < Suc (length xs)" for i
  proof -
    have "((?h + i) mod cap = (?h + 0) mod cap) = (i = 0)"
      using ring_index_inj [of ?h i cap 0] i assms(2) by auto
    moreover have "word_at b (data + 8 * ((?h + i) mod cap)) = xs ! (i - 1)" if "i \<noteq> 0"
      using that i suc [of "i - 1"] ring_holdsD [OF assms(1), of "i - 1"] by simp
    ultimately show ?thesis
      using word_at_slot_poke [OF _ _ assms(3), of ?h "(?h + i) mod cap" v] assms(2)
      by (cases i) auto
  qed
  with assms(2) show ?thesis by (simp add: ring_holds_def)
qed

lemma ring_pop_back: "ring_holds b data cap head xs \<Longrightarrow> ring_holds b data cap head (butlast xs)"
  by (auto simp: ring_holds_def nth_butlast)

lemma ring_pop_front:
  assumes "ring_holds b data cap head xs" and "xs \<noteq> []"
  shows "ring_holds b data cap ((head + 1) mod cap) (tl xs)"
proof -
  have e: "((head + 1) mod cap + i) mod cap = (head + Suc i) mod cap" for i
    using mod_add_left_eq [of "head + 1" cap i] by simp
  have "word_at b (data + 8 * (((head + 1) mod cap + i) mod cap)) = tl xs ! i" if "i < length (tl xs)" for i
    using ring_holdsD [OF assms(1), of "Suc i"] that assms(2) unfolding e by (simp add: nth_tl)
  with assms(1) show ?thesis by (auto simp: ring_holds_def)
qed

lemma ring_cong:
  "ring_holds b data cap head xs \<Longrightarrow> 0 < cap \<Longrightarrow> (\<And>x. x < cap \<Longrightarrow> word_at b' (data + 8 * x) = word_at b (data + 8 * x)) \<Longrightarrow>
    ring_holds b' data cap head xs"
  by (simp add: ring_holds_def)

section \<open>The invariant\<close>

text \<open>The handle's 48 bytes lie in \<open>H\<close>; a ring is a live block of its own.\<close>

definition deque_at ::
    "'s stack_view \<Rightarrow> u64 \<Rightarrow> range \<Rightarrow> u64 \<Rightarrow> u64 \<Rightarrow> u64 \<Rightarrow> 's \<Rightarrow> u64 list \<Rightarrow> bool" where
  "deque_at vw handle H data cap head s xs \<longleftrightarrow>
     v_good vw s \<and> H \<in> v_live vw s \<and> inside (unat handle) 48 H
     \<and> word_at (v_bytes vw s) (unat handle + 16) = data \<and> word_at (v_bytes vw s) (unat handle + 24) = cap
     \<and> word_at (v_bytes vw s) (unat handle + 32) = head \<and> unat (word_at (v_bytes vw s) (unat handle + 40)) = length xs
     \<and> (if cap = 0 then data = 0 \<and> xs = []
        else (data, cap * 8) \<in> v_live vw s \<and> (data, cap * 8) \<noteq> H \<and> unat cap * 8 < u64_limit
          \<and> head < cap \<and> ring_holds (v_bytes vw s) (unat data) (unat cap) (unat head) xs)"

definition deque_blocks :: "range \<Rightarrow> u64 \<Rightarrow> u64 \<Rightarrow> range set" where
  "deque_blocks H data cap = (if cap = 0 then {H} else {H, (data, cap * 8)})"

definition deque_inv :: "'s stack_view \<Rightarrow> u64 \<Rightarrow> range \<Rightarrow> 's \<Rightarrow> range set \<Rightarrow> u64 list \<Rightarrow> bool" where
  "deque_inv vw handle H s R xs \<longleftrightarrow>
     (\<exists>data cap head. R = deque_blocks H data cap \<and> deque_at vw handle H data cap head s xs)"

context stack_laws
begin

text \<open>The words of the handle, as the code addresses them.\<close>

lemma deque_addr:
  assumes "deque_at vw handle H data cap head s xs"
  shows "unat (handle + DEQ_DATA_OFF) = unat handle + 16" "unat (handle + DEQ_CAP_OFF) = unat handle + 24"
    "unat (handle + DEQ_HEAD_OFF) = unat handle + 32" "unat (handle + DEQ_LEN_OFF) = unat handle + 40"
    and "unat handle + 48 \<le> length (v_bytes vw s)"
proof -
  have g: "v_good vw s" and H: "H \<in> v_live vw s" and i: "inside (unat handle) 48 H"
    using assms by (simp_all add: deque_at_def)
  note w = handle_words [OF g H i]
  show "unat (handle + DEQ_DATA_OFF) = unat handle + 16" "unat (handle + DEQ_CAP_OFF) = unat handle + 24"
    "unat (handle + DEQ_HEAD_OFF) = unat handle + 32" "unat (handle + DEQ_LEN_OFF) = unat handle + 40"
    using w(1) [of 16] w(1) [of 24] w(1) [of 32] w(1) [of 40] by (simp_all add: deque_offsets)
  show "unat handle + 48 \<le> length (v_bytes vw s)" using w(2) [of 40] by simp
qed

lemma deque_words_of:
  assumes "deque_at vw handle H data cap head s xs"
  shows "words_of (v_bytes vw s) (deque_words handle) = [head, of_nat (length xs), cap, data]"
    and "\<forall>off \<in> set (deque_words handle). unat off + 8 \<le> length (v_bytes vw s)"
proof -
  note a = deque_addr [OF assms]
  have "word_at (v_bytes vw s) (unat handle + 40) = of_nat (length xs)"
    using assms unfolding deque_at_def by (metis u64_of_unat)
  then show "words_of (v_bytes vw s) (deque_words handle) = [head, of_nat (length xs), cap, data]"
    using assms by (simp add: deque_words_def a deque_at_def)
  show "\<forall>off \<in> set (deque_words handle). unat off + 8 \<le> length (v_bytes vw s)"
    using a(5) by (simp add: deque_words_def a(1-4))
qed

lemma deque_len_word: "deque_at vw handle H data cap head s xs \<Longrightarrow> unat (of_nat (length xs) :: u64) = length xs"
proof -
  assume "deque_at vw handle H data cap head s xs"
  then have "unat (word_at (v_bytes vw s) (unat handle + 40)) = length xs" by (simp add: deque_at_def)
  then show ?thesis by (metis u64_of_unat)
qed

text \<open>Slots of the ring.\<close>

lemma deque_ring:
  assumes "deque_at vw handle H data cap head s xs" and "cap \<noteq> 0"
  shows "unat (cap * 8) = unat cap * 8" and "unat data + 8 * unat cap \<le> length (v_bytes vw s)" and "0 < unat cap"
    and "unat head < unat cap" and "x < unat cap \<Longrightarrow> inside (unat data + 8 * x) 8 (data, cap * 8)"
proof -
  have g: "v_good vw s" and l: "(data, cap * 8) \<in> v_live vw s" and c: "unat cap * 8 < u64_limit" and h: "head < cap"
    using assms by (simp_all add: deque_at_def)
  show m: "unat (cap * 8) = unat cap * 8" using c by (simp add: unat_mult_u64)
  show "unat data + 8 * unat cap \<le> length (v_bytes vw s)"
    using good_live [OF g l] m by (simp add: range_end_def mult.commute)
  show "0 < unat cap" using assms(2) by (simp add: unat_gt_0)
  show "unat head < unat cap" using h by (simp add: word_less_nat_alt)
  show "inside (unat data + 8 * x) 8 (data, cap * 8)" if "x < unat cap"
    using that m by (simp add: inside_def range_end_def)
qed

lemma deque_slot:
  assumes at: "deque_at vw handle H data cap head s xs" and c: "cap \<noteq> 0" and x: "unat x \<le> unat cap"
  shows "unat ((head + x) mod cap) = (unat head + unat x) mod unat cap"
    and "slot_addr data ((head + x) mod cap) = Inr (data + ((head + x) mod cap) * 8)"
    and "unat (data + ((head + x) mod cap) * 8) = unat data + 8 * ((unat head + unat x) mod unat cap)"
    and "ring_slot data head x cap = Inr (data + ((head + x) mod cap) * 8)"
proof -
  note r = deque_ring [OF at c]
  have "v_good vw s" using at by (simp add: deque_at_def)
  from good_store [OF this] have small: "length (v_bytes vw s) < 9223372036854775808" by simp
  have "unat head + unat x < u64_limit"
    using r(2,4) x small by linarith
  then show m: "unat ((head + x) mod cap) = (unat head + unat x) mod unat cap"
    by (simp add: unat_mod_distrib unat_plus_u64)
  have "unat data + 8 * ((unat head + unat x) mod unat cap) < u64_limit"
    using r(2) mod_less_divisor [OF r(3), of "unat head + unat x"] small by linarith
  then have lim: "unat data + unat ((head + x) mod cap) * unat (8 :: u64) < u64_limit" by (simp add: m)
  show a: "slot_addr data ((head + x) mod cap) = Inr (data + ((head + x) mod cap) * 8)"
    unfolding slot_addr_def by (rule checked_off_mul_ok [OF lim])
  from checked_off_mul_unat [OF a [unfolded slot_addr_def]]
  show "unat (data + ((head + x) mod cap) * 8) = unat data + 8 * ((unat head + unat x) mod unat cap)"
    unfolding m by simp
  show "ring_slot data head x cap = Inr (data + ((head + x) mod cap) * 8)"
    using c a by (simp add: ring_slot_def ring_index_def)
qed

lemma deque_apart:
  assumes at: "deque_at vw handle H data cap head s xs" and c: "cap \<noteq> 0" and x: "x < unat cap" and k: "k + 8 \<le> 48"
  shows "unat data + 8 * x + 8 \<le> unat handle + k \<or> unat handle + k + 8 \<le> unat data + 8 * x"
proof -
  have "apart H (data, cap * 8)"
    using at c good_apart [of s H "(data, cap * 8)"] by (auto simp: deque_at_def)
  moreover have "inside (unat handle + k) 8 H" using at k by (simp add: deque_at_def inside_def)
  ultimately show ?thesis
    using deque_ring(5) [OF at c x] by (auto simp: inside_def apart_def range_end_def)
qed

text \<open>A word of the handle and a slot of the ring do not disturb each other, in any later bytes.\<close>

lemma deque_poke_handle:
  assumes at: "deque_at vw handle H data cap head s xs" and c: "cap \<noteq> 0" and l: "length b = length (v_bytes vw s)"
    and x: "x < unat cap" and k: "k + 8 \<le> 48"
  shows "word_at (poke (unat handle + k) v b) (unat data + 8 * x) = word_at b (unat data + 8 * x)"
    and "word_at (poke (unat data + 8 * x) v b) (unat handle + k) = word_at b (unat handle + k)"
proof -
  have h: "unat handle + k + 8 \<le> length b" using deque_addr(5) [OF at] k l by simp
  have d: "unat data + 8 * x + 8 \<le> length b" using slot_bound [OF x deque_ring(2) [OF at c]] l by simp
  note ap = deque_apart [OF at c x k]
  show "word_at (poke (unat handle + k) v b) (unat data + 8 * x) = word_at b (unat data + 8 * x)"
    by (rule word_at_poke_other [OF h d ap])
  from ap have "unat handle + k + 8 \<le> unat data + 8 * x \<or> unat data + 8 * x + 8 \<le> unat handle + k" by blast
  then show "word_at (poke (unat data + 8 * x) v b) (unat handle + k) = word_at b (unat handle + k)"
    by (rule word_at_poke_other [OF d h])
qed

lemma deque_ring_poke:
  assumes at: "deque_at vw handle H data cap head s xs" and c: "cap \<noteq> 0" and l: "length b = length (v_bytes vw s)"
    and k: "k + 8 \<le> 48"
  shows "ring_holds (poke (unat handle + k) v b) (unat data) (unat cap) h ys \<longleftrightarrow> ring_holds b (unat data) (unat cap) h ys"
  using deque_poke_handle(1) [OF at c l _ k] deque_ring(3) [OF at c] by (simp add: ring_holds_def)

lemma deque_at_kept:
  assumes at: "deque_at vw handle H data cap head s xs" and k: "kept vw R s s'" and d: "R \<inter> deque_blocks H data cap = {}"
  shows "deque_at vw handle H data cap head s' xs"
proof -
  have H: "H \<in> v_live vw s" "H \<notin> R" and i: "inside (unat handle) 48 H"
    using at d by (auto simp: deque_at_def deque_blocks_def)
  have w: "word_at (v_bytes vw s') (unat handle + j) = word_at (v_bytes vw s) (unat handle + j)" if "j + 8 \<le> 48" for j
    by (rule frame_word [OF k H]) (use i that in \<open>simp add: inside_def\<close>)
  show ?thesis
  proof (cases "cap = 0")
    case True
    with at w frame_good [OF k] frame_live [OF k H] show ?thesis by (simp add: deque_at_def)
  next
    case False
    have q: "(data, cap * 8) \<in> v_live vw s" "(data, cap * 8) \<notin> R" using at d False by (auto simp: deque_at_def deque_blocks_def)
    have r: "ring_holds (v_bytes vw s) (unat data) (unat cap) (unat head) xs" using at False by (simp add: deque_at_def)
    have "ring_holds (v_bytes vw s') (unat data) (unat cap) (unat head) xs"
      by (rule ring_cong [OF r]) (use deque_ring(3,5) [OF at False] frame_word [OF k q] in auto)
    with at w False frame_good [OF k] frame_live [OF k H] frame_live [OF k q] show ?thesis by (simp add: deque_at_def)
  qed
qed

lemma deque_at_unchanged:
  "deque_at vw handle H data cap head s xs \<Longrightarrow> unchanged vw s s' \<Longrightarrow> deque_at vw handle H data cap head s' xs"
  by (simp add: deque_at_def unchanged_def)

text \<open>One update whose closures are evaluated on the words of the handle.\<close>

lemma deque_update:
  assumes at: "deque_at vw handle H data cap head s xs" and run: "atomic_update io (deque_words handle) reads2 plan s = (r, s')"
    and "reads2 [head, of_nat (length xs), cap, data] = Inr offs2"
    and "\<forall>off \<in> set offs2. unat off + 8 \<le> length (v_bytes vw s)"
    and "plan [head, of_nat (length xs), cap, data] (words_of (v_bytes vw s) offs2) = Inr (ws, c)"
    and "in_bounds (v_bytes vw s) ws"
  shows "(\<exists>e. r = Inl e) \<and> unchanged vw s s' \<or> r = Inr c \<and> written vw s (apply_writes ws (v_bytes vw s)) s'"
    and "v_calm vw s \<Longrightarrow> r = Inr c \<and> v_calm vw s'"
proof -
  have g: "v_good vw s" using at by (simp add: deque_at_def)
  note w = deque_words_of [OF at]
  note u = atomic_update_run [where ?offs2.0 = offs2 and ws = ws and c = c, OF g run w(2)]
  show "(\<exists>e. r = Inl e) \<and> unchanged vw s s' \<or> r = Inr c \<and> written vw s (apply_writes ws (v_bytes vw s)) s'"
    by (rule u(1)) (use assms(3-6) w(1) in simp_all)
  show "v_calm vw s \<Longrightarrow> r = Inr c \<and> v_calm vw s'"
    by (rule u(2)) (use assms(3-6) w(1) in simp_all)
qed

end

end
