(* ===== verification/DequeCorrect.thy ===== *)
theory DequeCorrect
  imports DequeProps
begin

text \<open>
  The operations of the deque over a store that may fail: each is the list operation at its end of
  the deque or an error that changes nothing, a push ends in its second round at the latest, and any
  run simulates the run on a list.
\<close>

section \<open>Updates of the ring\<close>

definition deque_becomes ::
    "'s stack_view \<Rightarrow> u64 \<Rightarrow> range \<Rightarrow> u64 \<Rightarrow> u64 \<Rightarrow> 's \<Rightarrow> 'a res \<Rightarrow> 'a \<Rightarrow> u64 list \<Rightarrow> 's \<Rightarrow> bool" where
  "deque_becomes vw handle H data cap s r v ys s' \<longleftrightarrow>
     (\<exists>e. r = Inl e) \<and> unchanged vw s s'
     \<or> r = Inr v \<and> (\<exists>head. deque_at vw handle H data cap head s' ys) \<and> kept vw (deque_blocks H data cap) s s'"

text \<open>What one growth does: the list stays; when it succeeds there is room.\<close>

definition deque_grown ::
    "'s stack_view \<Rightarrow> u64 \<Rightarrow> range \<Rightarrow> 's \<Rightarrow> range set \<Rightarrow> u64 list \<Rightarrow> unit res \<Rightarrow> 's \<Rightarrow> bool" where
  "deque_grown vw handle H s R xs r s' \<longleftrightarrow>
     (\<exists>data cap head. deque_at vw handle H data cap head s' xs \<and> owns_frame vw s R s' (deque_blocks H data cap)
        \<and> (r = Inr () \<longrightarrow> (of_nat (length xs) :: u64) < cap))"

context stack_laws
begin

lemma written_frame:
  assumes at: "deque_at vw handle H data cap head s xs" and ib: "in_bounds (v_bytes vw s) ws"
    and w: "written vw s (apply_writes ws (v_bytes vw s)) s'"
    and ins: "\<forall>(off, d) \<in> set ws. \<exists>q \<in> deque_blocks H data cap. inside (unat off) (length d) q"
  shows "kept vw (deque_blocks H data cap) s s'" "v_bytes vw s' = apply_writes ws (v_bytes vw s)" "v_live vw s' = v_live vw s"
proof -
  have "deque_blocks H data cap \<subseteq> v_live vw s" using at by (auto simp: deque_blocks_def deque_at_def)
  with frame_commit [OF _ ib w _ ins] at show "kept vw (deque_blocks H data cap) s s'" by (auto simp: deque_at_def)
  show "v_bytes vw s' = apply_writes ws (v_bytes vw s)" "v_live vw s' = v_live vw s" using w by (simp_all add: written_def)
qed

lemma deque_pop_empty:
  assumes at: "deque_at vw handle H data cap head s []"
    and run: "atomic_update io (deque_words handle) reads2 plan s = (r, s')"
    and "reads2 [head, 0, cap, data] = Inr []" and "plan [head, 0, cap, data] [] = Inr ([], v)"
  shows "deque_becomes vw handle H data cap s r v [] s'" and "v_calm vw s \<Longrightarrow> r = Inr v \<and> v_calm vw s'"
proof -
  have in1: "\<forall>off \<in> set []. unat off + 8 \<le> length (v_bytes vw s)" by simp
  note u = deque_update [where ?offs2.0 = "[]" and ws = "[]" and c = v, OF at run]
  have e: "reads2 [head, of_nat (length ([] :: u64 list)), cap, data] = Inr []"
    "plan [head, of_nat (length ([] :: u64 list)), cap, data] (words_of (v_bytes vw s) []) = Inr ([], v)"
    using assms(3,4) by simp_all
  have "(\<exists>e. r = Inl e) \<and> unchanged vw s s' \<or> r = Inr v \<and> unchanged vw s s'"
    using u(1) [OF e(1) in1 e(2)] by (auto simp: written_def unchanged_def)
  with deque_at_unchanged [OF at] show "deque_becomes vw handle H data cap s r v [] s'"
    by (auto simp: deque_becomes_def intro: frame_unchanged)
  show "v_calm vw s \<Longrightarrow> r = Inr v \<and> v_calm vw s'" using u(2) [OF e(1) in1 e(2)] by simp
qed

lemma deque_nonempty:
  assumes at: "deque_at vw handle H data cap head s xs" and ne: "xs \<noteq> []"
  shows "cap \<noteq> 0" and "length xs \<le> unat cap" and "(of_nat (length xs) :: u64) \<noteq> 0"
    and "unat (of_nat (length xs) - 1 :: u64) = length xs - 1"
    and "ring_holds (v_bytes vw s) (unat data) (unat cap) (unat head) xs"
proof -
  show c: "cap \<noteq> 0" using at ne by (auto simp: deque_at_def)
  with at show h: "ring_holds (v_bytes vw s) (unat data) (unat cap) (unat head) xs" by (simp add: deque_at_def)
  then show "length xs \<le> unat cap" by (simp add: ring_holds_def)
  have l: "unat (of_nat (length xs) :: u64) = length xs" by (rule deque_len_word [OF at])
  with ne show nz: "(of_nat (length xs) :: u64) \<noteq> 0" by (metis length_0_conv unat_0)
  from ne have "length xs = Suc (length xs - 1)" by simp
  then have e: "(of_nat (length xs) - 1 :: u64) = of_nat (length xs - 1)" by (metis add_diff_cancel_left' of_nat_Suc)
  have "length xs - 1 < u64_limit" using l unat_u64_bound [of "of_nat (length xs)"] by linarith
  then show "unat (of_nat (length xs) - 1 :: u64) = length xs - 1" unfolding e by (rule unat_of_nat_u64)
qed

text \<open>The word a pop hands out.\<close>

lemma deque_slot_word:
  assumes at: "deque_at vw handle H data cap head s xs" and x: "unat x < length xs"
  obtains off where "ring_slot data head x cap = Inr off" and "unat off + 8 \<le> length (v_bytes vw s)"
    and "word_at (v_bytes vw s) (unat off) = xs ! unat x"
proof -
  have ne: "xs \<noteq> []" using x by auto
  note n = deque_nonempty [OF at ne]
  have "unat x \<le> unat cap" using x n(2) by simp
  note sl = deque_slot [OF at n(1) this]
  note rg = deque_ring [OF at n(1)]
  show thesis
    by (rule that [OF sl(4)])
      (use sl(3) rg(2) mod_less_divisor [OF rg(3), of "unat head + unat x"] ring_holdsD [OF n(5) x] in simp_all)
qed

lemma deque_pop_back_ok:
  assumes at: "deque_at vw handle H data cap head s xs" and run: "deque_pop_back io handle s = (r, s')"
  shows "deque_becomes vw handle H data cap s r (if xs = [] then None else Some (last xs)) (butlast xs) s'"
    and "v_calm vw s \<Longrightarrow> \<not> isl r \<and> v_calm vw s'"
proof -
  note run' = run [unfolded deque_pop_back_def]
  have both: "deque_becomes vw handle H data cap s r (if xs = [] then None else Some (last xs)) (butlast xs) s'
      \<and> (v_calm vw s \<longrightarrow> \<not> isl r \<and> v_calm vw s')"
  proof (cases "xs = []")
    case True
    have e: "pop_back_reads [head, 0, cap, data] = Inr []" "pop_back_plan handle [head, 0, cap, data] [] = Inr ([], None)"
      by (simp_all add: pop_back_reads_def pop_back_plan_def)
    from deque_pop_empty [OF at [unfolded True] run' e] True show ?thesis by auto
  next
    case False
    note n = deque_nonempty [OF at False]
    define len :: u64 where "len = of_nat (length xs)"
    obtain off where off: "ring_slot data head (len - 1) cap = Inr off" "unat off + 8 \<le> length (v_bytes vw s)"
      "word_at (v_bytes vw s) (unat off) = last xs"
      using deque_slot_word [OF at, of "len - 1"] n(4) False
      by (metis One_nat_def last_conv_nth len_def length_greater_0_conv lessI diff_less)
    have e: "pop_back_reads [head, len, cap, data] = Inr [off]"
      "pop_back_plan handle [head, len, cap, data] (words_of (v_bytes vw s) [off]) = Inr ([w8 (handle + DEQ_LEN_OFF) (len - 1)], Some (last xs))"
      using off n(3) by (simp_all add: pop_back_reads_def pop_back_plan_def len_def)
    note ad = deque_addr [OF at]
    have ib: "in_bounds (v_bytes vw s) [w8 (handle + DEQ_LEN_OFF) (len - 1)]" using ad by simp
    have o2: "\<forall>o2 \<in> set [off]. unat o2 + 8 \<le> length (v_bytes vw s)" using off(2) by simp
    note u = deque_update [OF at run' e(1) [unfolded len_def] o2 e(2) [unfolded len_def] ib [unfolded len_def]]
    have "deque_becomes vw handle H data cap s r (Some (last xs)) (butlast xs) s'"
      if w: "written vw s (apply_writes [w8 (handle + DEQ_LEN_OFF) (len - 1)] (v_bytes vw s)) s'" and r: "r = Inr (Some (last xs))"
    proof -
      have i: "inside (unat handle + 40) 8 H" using at by (simp add: deque_at_def inside_def)
      have "\<forall>(a, d) \<in> set [w8 (handle + DEQ_LEN_OFF) (len - 1)]. \<exists>q \<in> deque_blocks H data cap. inside (unat a) (length d) q"
        using i ad(4) by (auto simp: w8_def deque_blocks_def)
      note f = written_frame [OF at ib w this]
      have b: "v_bytes vw s' = poke (unat handle + 40) (len - 1) (v_bytes vw s)" using f(2) ad(4) by simp
      have "ring_holds (v_bytes vw s') (unat data) (unat cap) (unat head) (butlast xs)"
        unfolding b by (subst deque_ring_poke [OF at n(1)]) (simp_all add: ring_pop_back [OF n(5)])
      moreover have "unat (word_at (v_bytes vw s') (unat handle + 40)) = length (butlast xs)"
        using n(4) ad(5) by (simp add: b len_def)
      ultimately have "deque_at vw handle H data cap head s' (butlast xs)"
        using at ad(5) n(1) f(3) frame_good [OF f(1)] by (simp add: deque_at_def b word_at_poke_other)
      with r f(1) show ?thesis by (auto simp: deque_becomes_def)
    qed
    then show ?thesis using u(1) u(2) False by (auto simp: deque_becomes_def len_def)
  qed
  then show "deque_becomes vw handle H data cap s r (if xs = [] then None else Some (last xs)) (butlast xs) s'"
    "v_calm vw s \<Longrightarrow> \<not> isl r \<and> v_calm vw s'" by simp_all
qed

text \<open>A committed batch whose bytes hold the new head, length and ring.\<close>

lemma deque_committed:
  assumes at: "deque_at vw handle H data cap head s xs" and c: "cap \<noteq> 0" and ib: "in_bounds (v_bytes vw s) ws"
    and w: "written vw s (apply_writes ws (v_bytes vw s)) s'"
    and ins: "\<forall>(off, d) \<in> set ws. \<exists>q \<in> deque_blocks H data cap. inside (unat off) (length d) q"
    and b: "apply_writes ws (v_bytes vw s) = b"
    and words: "word_at b (unat handle + 16) = data" "word_at b (unat handle + 24) = cap"
      "word_at b (unat handle + 32) = h" "unat (word_at b (unat handle + 40)) = length ys"
    and ring: "h < cap" "ring_holds b (unat data) (unat cap) (unat h) ys"
  shows "deque_becomes vw handle H data cap s (Inr v) v ys s'"
proof -
  note f = written_frame [OF at ib w ins]
  have "deque_at vw handle H data cap h s' ys"
    using at c f(2,3) frame_good [OF f(1)] words ring unfolding b by (simp add: deque_at_def)
  with f(1) show ?thesis by (auto simp: deque_becomes_def)
qed

lemma deque_inside:
  assumes at: "deque_at vw handle H data cap head s xs"
  shows "k + 8 \<le> 48 \<Longrightarrow> inside (unat handle + k) 8 H" and "H \<in> deque_blocks H data cap"
    and "cap \<noteq> 0 \<Longrightarrow> (data, cap * 8) \<in> deque_blocks H data cap"
  using at by (simp_all add: deque_at_def inside_def deque_blocks_def)

lemma head_of: "deque_at vw handle H data cap head s xs \<Longrightarrow> cap \<noteq> 0 \<Longrightarrow> (head + x) mod cap < cap"
  by (simp add: word_mod_less_divisor word_gt_0)

lemma deque_pop_front_ok:
  assumes at: "deque_at vw handle H data cap head s xs" and run: "deque_pop_front io handle s = (r, s')"
  shows "deque_becomes vw handle H data cap s r (if xs = [] then None else Some (hd xs)) (tl xs) s'"
    and "v_calm vw s \<Longrightarrow> \<not> isl r \<and> v_calm vw s'"
proof -
  note run' = run [unfolded deque_pop_front_def]
  have both: "deque_becomes vw handle H data cap s r (if xs = [] then None else Some (hd xs)) (tl xs) s'
      \<and> (v_calm vw s \<longrightarrow> \<not> isl r \<and> v_calm vw s')"
  proof (cases "xs = []")
    case True
    have e: "pop_front_reads [head, 0, cap, data] = Inr []" "pop_front_plan handle [head, 0, cap, data] [] = Inr ([], None)"
      by (simp_all add: pop_front_reads_def pop_front_plan_def)
    from deque_pop_empty [OF at [unfolded True] run' e] True show ?thesis by auto
  next
    case False
    note n = deque_nonempty [OF at False]
    define len :: u64 where "len = of_nat (length xs)"
    define idx where "idx = (head + 1) mod cap"
    obtain off where off: "ring_slot data head 0 cap = Inr off" "unat off + 8 \<le> length (v_bytes vw s)"
      "word_at (v_bytes vw s) (unat off) = hd xs"
      using deque_slot_word [OF at, of 0] False by (auto simp: hd_conv_nth)
    let ?ws = "[w8 (handle + DEQ_HEAD_OFF) idx, w8 (handle + DEQ_LEN_OFF) (len - 1)]"
    have e: "pop_front_reads [head, len, cap, data] = Inr [off]"
      "pop_front_plan handle [head, len, cap, data] (words_of (v_bytes vw s) [off]) = Inr (?ws, Some (hd xs))"
      using off n(1,3) by (simp_all add: pop_front_reads_def pop_front_plan_def len_def idx_def ring_index_def)
    note ad = deque_addr [OF at]
    have ib: "in_bounds (v_bytes vw s) ?ws" using ad by simp
    have o2: "\<forall>o2 \<in> set [off]. unat o2 + 8 \<le> length (v_bytes vw s)" using off(2) by simp
    note u = deque_update [OF at run' e(1) [unfolded len_def] o2 e(2) [unfolded len_def] ib [unfolded len_def]]
    have ui: "unat idx = (unat head + 1) mod unat cap"
      using deque_slot(1) [OF at n(1), of 1] deque_ring(3) [OF at n(1)] by (simp add: idx_def)
    let ?b = "poke (unat handle + 40) (len - 1) (poke (unat handle + 32) idx (v_bytes vw s))"
    have "deque_becomes vw handle H data cap s (Inr (Some (hd xs))) (Some (hd xs)) (tl xs) s'"
      if w: "written vw s (apply_writes ?ws (v_bytes vw s)) s'"
    proof (rule deque_committed [OF at n(1) ib w])
      show "\<forall>(a, d) \<in> set ?ws. \<exists>q \<in> deque_blocks H data cap. inside (unat a) (length d) q"
        using deque_inside(1) [OF at, of 32] deque_inside(1) [OF at, of 40] deque_inside(2) [OF at] ad by (auto simp: w8_def)
      show "apply_writes ?ws (v_bytes vw s) = ?b" using ad by simp
      show "idx < cap" unfolding idx_def by (rule head_of [OF at n(1)])
      show "ring_holds ?b (unat data) (unat cap) (unat idx) (tl xs)"
        unfolding ui using ring_pop_front [OF n(5) False] ad(5)
        by (simp add: deque_ring_poke [OF at n(1)])
    qed (use at ad(5) n(4) in \<open>simp_all add: deque_at_def word_at_poke_other len_def\<close>)
    then show ?thesis using u(1) u(2) False by (auto simp: deque_becomes_def len_def)
  qed
  then show "deque_becomes vw handle H data cap s r (if xs = [] then None else Some (hd xs)) (tl xs) s'"
    "v_calm vw s \<Longrightarrow> \<not> isl r \<and> v_calm vw s'" by simp_all
qed

section \<open>Pushes into a ring with room\<close>

lemma deque_room:
  assumes at: "deque_at vw handle H data cap head s xs" and room: "(of_nat (length xs) :: u64) < cap"
  shows "cap \<noteq> 0" and "length xs < unat cap" and "unat (of_nat (length xs) + 1 :: u64) = Suc (length xs)"
    and "ring_holds (v_bytes vw s) (unat data) (unat cap) (unat head) xs"
proof -
  note l = deque_len_word [OF at]
  show c: "cap \<noteq> 0" using room by auto
  show lt: "length xs < unat cap" using room l by (simp add: word_less_nat_alt)
  have "Suc (length xs) < u64_limit" using lt unat_u64_bound [of cap] by linarith
  then show "unat (of_nat (length xs) + 1 :: u64) = Suc (length xs)"
    using l by (simp add: unat_plus_u64)
  show "ring_holds (v_bytes vw s) (unat data) (unat cap) (unat head) xs" using at c by (simp add: deque_at_def)
qed

lemma push_back_room:
  assumes at: "deque_at vw handle H data cap head s xs" and room: "(of_nat (length xs) :: u64) < cap"
    and run: "atomic_update io (deque_words handle) (\<lambda>_. Inr []) (push_back_plan handle val) s = (r, s')"
  shows "deque_becomes vw handle H data cap s r False (xs @ [val]) s'" and "v_calm vw s \<Longrightarrow> r = Inr False \<and> v_calm vw s'"
proof -
  note n = deque_room [OF at room]
  define len :: u64 where "len = of_nat (length xs)"
  have ul: "unat len = length xs" unfolding len_def by (rule deque_len_word [OF at])
  define slot where "slot = data + ((head + len) mod cap) * 8"
  have le: "unat len \<le> unat cap" using n(2) ul by simp
  note sl = deque_slot [OF at n(1) le]
  let ?x = "(unat head + length xs) mod unat cap"
  have us: "unat slot = unat data + 8 * ?x" using sl(3) by (simp add: slot_def ul)
  have x: "?x < unat cap" using deque_ring(3) [OF at n(1)] by simp
  note ad = deque_addr [OF at]
  let ?ws = "[w8 slot val, w8 (handle + DEQ_LEN_OFF) (len + 1)]"
  have ib: "in_bounds (v_bytes vw s) ?ws"
    using ad us slot_bound [OF x deque_ring(2) [OF at n(1)]] by simp
  have e: "push_back_plan handle val [head, len, cap, data] (words_of (v_bytes vw s) []) = Inr (?ws, False)"
    using room sl(2) by (simp add: push_back_plan_def len_def slot_def Let_def)
  note u = deque_update [OF at run refl _ e [unfolded len_def] ib [unfolded len_def]]
  let ?b = "poke (unat handle + 40) (len + 1) (poke (unat data + 8 * ?x) val (v_bytes vw s))"
  have "deque_becomes vw handle H data cap s (Inr False) False (xs @ [val]) s'"
    if w: "written vw s (apply_writes ?ws (v_bytes vw s)) s'"
  proof (rule deque_committed [OF at n(1) ib w])
    show "\<forall>(a, d) \<in> set ?ws. \<exists>q \<in> deque_blocks H data cap. inside (unat a) (length d) q"
      using deque_inside(1) [OF at, of 40] deque_inside(2,3) [OF at] deque_ring(5) [OF at n(1) x] us ad n(1)
      by (auto simp: w8_def)
    show "apply_writes ?ws (v_bytes vw s) = ?b" using ad us by simp
    show "head < cap" using at n(1) by (simp add: deque_at_def)
    show "ring_holds ?b (unat data) (unat cap) (unat head) (xs @ [val])"
      using ring_push_back [OF n(4,2) deque_ring(2) [OF at n(1)]] slot_bound [OF x deque_ring(2) [OF at n(1)]]
      by (simp add: deque_ring_poke [OF at n(1)])
  qed (use at ad(5) n(3) slot_bound [OF x deque_ring(2) [OF at n(1)]] in
      \<open>simp_all add: deque_at_def word_at_poke_other deque_poke_handle(2) [OF at n(1) refl x] len_def\<close>)
  then show "deque_becomes vw handle H data cap s r False (xs @ [val]) s'"
    using u(1) by (auto simp: deque_becomes_def len_def)
  show "v_calm vw s \<Longrightarrow> r = Inr False \<and> v_calm vw s'" using u(2) by simp
qed

lemma push_front_room:
  assumes at: "deque_at vw handle H data cap head s xs" and room: "(of_nat (length xs) :: u64) < cap"
    and run: "atomic_update io (deque_words handle) (\<lambda>_. Inr []) (push_front_plan handle val) s = (r, s')"
  shows "deque_becomes vw handle H data cap s r False (val # xs) s'" and "v_calm vw s \<Longrightarrow> r = Inr False \<and> v_calm vw s'"
proof -
  note n = deque_room [OF at room]
  define len :: u64 where "len = of_nat (length xs)"
  have uc: "unat (cap - 1) = unat cap - 1" using n(1) by (simp add: unat_minus_one)
  have le: "unat (cap - 1) \<le> unat cap" using uc by simp
  define idx where "idx = (head + (cap - 1)) mod cap"
  define slot where "slot = data + idx * 8"
  note sl = deque_slot [OF at n(1) le]
  let ?x = "(unat head + (unat cap - 1)) mod unat cap"
  have ui: "unat idx = ?x" using sl(1) uc by (simp add: idx_def)
  have us: "unat slot = unat data + 8 * ?x" using sl(3) by (simp add: slot_def idx_def uc)
  have x: "?x < unat cap" using deque_ring(3) [OF at n(1)] by simp
  note ad = deque_addr [OF at]
  note sb = slot_bound [OF x deque_ring(2) [OF at n(1)]]
  let ?ws = "[w8 slot val, w8 (handle + DEQ_HEAD_OFF) idx, w8 (handle + DEQ_LEN_OFF) (len + 1)]"
  have ib: "in_bounds (v_bytes vw s) ?ws" using ad us sb by simp
  have e: "push_front_plan handle val [head, len, cap, data] (words_of (v_bytes vw s) []) = Inr (?ws, False)"
    using room sl(2) by (simp add: push_front_plan_def len_def slot_def idx_def Let_def)
  note u = deque_update [OF at run refl _ e [unfolded len_def] ib [unfolded len_def]]
  let ?b = "poke (unat handle + 40) (len + 1) (poke (unat handle + 32) idx (poke (unat data + 8 * ?x) val (v_bytes vw s)))"
  have "deque_becomes vw handle H data cap s (Inr False) False (val # xs) s'"
    if w: "written vw s (apply_writes ?ws (v_bytes vw s)) s'"
  proof (rule deque_committed [OF at n(1) ib w])
    show "\<forall>(a, d) \<in> set ?ws. \<exists>q \<in> deque_blocks H data cap. inside (unat a) (length d) q"
      using deque_inside(1) [OF at, of 40] deque_inside(1) [OF at, of 32] deque_inside(2,3) [OF at]
        deque_ring(5) [OF at n(1) x] us ad n(1)
      by (auto simp: w8_def)
    show "apply_writes ?ws (v_bytes vw s) = ?b" using ad us by simp
    show "idx < cap" unfolding idx_def by (rule head_of [OF at n(1)])
    show "ring_holds ?b (unat data) (unat cap) (unat idx) (val # xs)"
      using ring_push_front [OF n(4,2) deque_ring(2,4) [OF at n(1)]] sb ad(5) ui
      by (simp add: deque_ring_poke [OF at n(1)])
  qed (use at ad(5) n(3) sb in
      \<open>simp_all add: deque_at_def word_at_poke_other deque_poke_handle(2) [OF at n(1) refl x [unfolded One_nat_def]] len_def\<close>)
  then show "deque_becomes vw handle H data cap s r False (val # xs) s'"
    using u(1) by (auto simp: deque_becomes_def len_def)
  show "v_calm vw s \<Longrightarrow> r = Inr False \<and> v_calm vw s'" using u(2) by simp
qed

text \<open>A push that finds the ring full changes nothing and says so.\<close>

lemma push_full:
  assumes at: "deque_at vw handle H data cap head s xs"
    and run: "atomic_update io (deque_words handle) (\<lambda>_. Inr []) plan s = (r, s')"
    and full: "plan [head, of_nat (length xs), cap, data] [] = Inr ([], True)"
  shows "unchanged vw s s' \<and> ((\<exists>e. r = Inl e) \<or> r = Inr True)" and "v_calm vw s \<Longrightarrow> r = Inr True \<and> v_calm vw s'"
proof -
  have e: "plan [head, of_nat (length xs), cap, data] (words_of (v_bytes vw s) []) = Inr ([], True)" using full by simp
  note u = deque_update [OF at run refl _ e]
  show "unchanged vw s s' \<and> ((\<exists>e. r = Inl e) \<or> r = Inr True)" using u(1) by (auto simp: written_def unchanged_def)
  show "v_calm vw s \<Longrightarrow> r = Inr True \<and> v_calm vw s'" using u(2) by simp
qed

section \<open>Growth\<close>

lemma grow_capacity:
  assumes "newcap = (if cap = 0 then DEQ_MIN_CAP else saturating_mul64 cap 2)"
    and "checked_mul64 newcap 8 = Some sz" and "cap \<noteq> 0 \<longrightarrow> unat cap * 8 < u64_limit"
  shows "unat newcap * 8 < u64_limit" and "sz = newcap * 8" and "sz \<noteq> 0" and "cap < newcap" and "newcap \<noteq> 0"
proof -
  show n: "unat newcap * 8 < u64_limit" "sz = newcap * 8" using assms(2) by (auto simp: checked_mul64_Some)
  show lt: "cap < newcap"
  proof (cases "cap = 0")
    case True
    then show ?thesis using assms(1) by (simp add: DEQ_MIN_CAP_def)
  next
    case False
    then have "unat cap * unat (2 :: u64) < u64_limit" using assms(3) by simp
    then have "newcap = cap * 2" "unat (cap * 2) = unat cap * 2"
      using assms(1) False unat_mult_u64 [of cap 2] by (simp_all add: saturating_mul64_def)
    with False show ?thesis by (simp add: word_less_nat_alt unat_gt_0)
  qed
  then show nz: "newcap \<noteq> 0" by auto
  have "unat sz = unat newcap * 8" using n unat_mult_u64 [of newcap 8] by simp
  with nz show "sz \<noteq> 0" by (metis mult_is_0 unat_0 unat_eq_zero zero_neq_numeral)
qed

lemma collect_res_Inr: "collect_res (map (\<lambda>i. Inr (f i)) xs) = Inr (map f xs)"
  by (induction xs) simp_all

lemma collect_res_map: "\<forall>i \<in> set xs. g i = Inr (f i) \<Longrightarrow> collect_res (map g xs) = Inr (map f xs)"
  using collect_res_Inr [of f xs] by (metis (mono_tags, lifting) map_eq_conv)

text \<open>The references as growth reads them, and the words it writes to the new ring.\<close>

lemma deque_grow_reads_ok:
  assumes at: "deque_at vw handle H data cap head s xs" and full: "\<not> grow_needless newcap (of_nat (length xs)) cap"
  obtains offs where "deque_grow_reads newcap [head, of_nat (length xs), cap, data] = Inr offs"
    and "\<forall>off \<in> set offs. unat off + 8 \<le> length (v_bytes vw s)" and "words_of (v_bytes vw s) offs = xs"
proof -
  define f where "f = (\<lambda>i. data + ((head + of_nat i) mod cap) * 8)"
  note l = deque_len_word [OF at]
  have slot: "ring_slot data head (of_nat i) cap = Inr (f i) \<and> unat (f i) + 8 \<le> length (v_bytes vw s)
      \<and> word_at (v_bytes vw s) (unat (f i)) = xs ! i" if i: "i < length xs" for i
  proof -
    have ne: "xs \<noteq> []" using i by auto
    note n = deque_nonempty [OF at ne]
    have ui: "unat (of_nat i :: u64) = i"
      using i l unat_u64_bound [of "of_nat (length xs)"] by (intro unat_of_nat_u64) linarith
    obtain off where "ring_slot data head (of_nat i) cap = Inr off" "unat off + 8 \<le> length (v_bytes vw s)"
      "word_at (v_bytes vw s) (unat off) = xs ! i"
      using deque_slot_word [OF at, of "of_nat i"] i ui by metis
    moreover have "ring_slot data head (of_nat i) cap = Inr (f i)"
      using deque_slot(4) [OF at n(1), of "of_nat i"] ui i n(2) by (simp add: f_def)
    ultimately show ?thesis by simp
  qed
  show thesis
  proof (rule that [of "map f [0..<length xs]"])
    show "deque_grow_reads newcap [head, of_nat (length xs), cap, data] = Inr (map f [0..<length xs])"
      using full slot l by (simp add: deque_grow_reads_def collect_res_map [where f = f])
    show "words_of (v_bytes vw s) (map f [0..<length xs]) = xs"
      using slot by (intro nth_equalityI) simp_all
  qed (use slot in auto)
qed

lemma ring_copy_ok:
  assumes "unat ring + 8 * length xs < u64_limit"
  shows "ring_copy ring xs = Inr (map (\<lambda>i. w8 (ring + of_nat (8 * i)) (xs ! i)) [0..<length xs])"
    and "i < length xs \<Longrightarrow> unat (ring + of_nat (8 * i)) = unat ring + 8 * i"
proof -
  have u: "unat (of_nat i :: u64) = i" "unat (of_nat (8 * i) :: u64) = 8 * i" if "i < length xs" for i
    using that assms by (simp_all add: unat_of_nat_u64 del: of_nat_mult)
  have m: "checked_mul64 (of_nat i) 8 = Some (of_nat (8 * i))" if "i < length xs" for i
    using u [OF that] that assms by (simp add: checked_mul64_Some mult.commute)
  have a: "checked_add64 ring (of_nat (8 * i)) = Some (ring + of_nat (8 * i))" if "i < length xs" for i
    using u(2) [OF that] that assms by (simp add: checked_add64_Some)
  show "ring_copy ring xs = Inr (map (\<lambda>i. w8 (ring + of_nat (8 * i)) (xs ! i)) [0..<length xs])"
    unfolding ring_copy_def by (rule collect_res_map) (simp add: m a del: of_nat_mult)
  show "unat (ring + of_nat (8 * i)) = unat ring + 8 * i" if "i < length xs"
    using u(2) [OF that] that assms by (simp add: unat_plus_u64 del: of_nat_mult)
qed

lemma deque_grow_swap:
  assumes at: "deque_at vw handle H data cap head s xs" and full: "\<not> grow_needless newcap (of_nat (length xs)) cap"
    and nc: "cap < newcap" "unat newcap * 8 < u64_limit"
    and q: "(ring, newcap * 8) \<in> v_live vw s" "(ring, newcap * 8) \<noteq> H"
    and run: "atomic_update io (deque_words handle) (deque_grow_reads newcap) (deque_grow_plan handle ring newcap) s = (r, s')"
  shows "(\<exists>e. r = Inl e) \<and> unchanged vw s s'
      \<or> r = Inr (Some (data, cap)) \<and> deque_at vw handle H ring newcap 0 s' xs \<and> kept vw {H, (ring, newcap * 8)} s s'
        \<and> v_live vw s' = v_live vw s"
    and "v_calm vw s \<Longrightarrow> r = Inr (Some (data, cap)) \<and> v_calm vw s'"
proof -
  let ?b = "v_bytes vw s" and ?n = "length xs"
  have g: "v_good vw s" and H: "H \<in> v_live vw s" using at by (simp_all add: deque_at_def)
  have un: "unat (newcap * 8) = unat newcap * 8" using nc(2) by (simp add: unat_mult_u64)
  have fin: "unat ring + 8 * unat newcap \<le> length ?b" using good_live [OF g q(1)] un by (simp add: range_end_def mult.commute)
  have nle: "?n \<le> unat cap" using at by (auto simp: deque_at_def ring_holds_def split: if_splits)
  then have nlt: "?n < unat newcap" using nc(1) by (simp add: word_less_nat_alt)
  then have fits: "unat ring + 8 * ?n < u64_limit" using fin good_store [OF g] by simp
  note cp = ring_copy_ok [OF fits]
  note ad = deque_addr [OF at]
  obtain offs where offs: "deque_grow_reads newcap [head, of_nat ?n, cap, data] = Inr offs"
    "\<forall>off \<in> set offs. unat off + 8 \<le> length ?b" "words_of ?b offs = xs"
    using deque_grow_reads_ok [OF at full] by blast
  let ?copies = "map (\<lambda>i. w8 (ring + of_nat (8 * i)) (xs ! i)) [0..<?n]"
  let ?meta = "[w8 (handle + DEQ_DATA_OFF) ring, w8 (handle + DEQ_CAP_OFF) newcap, w8 (handle + DEQ_HEAD_OFF) 0]"
  have e: "deque_grow_plan handle ring newcap [head, of_nat ?n, cap, data] (words_of ?b offs) = Inr (?copies @ ?meta, Some (data, cap))"
    unfolding offs(3) using full by (simp add: deque_grow_plan_def cp(1) del: of_nat_mult)
  have slot_in: "inside (unat ring + 8 * i) 8 (ring, newcap * 8)" if "i < ?n" for i
    using that nlt un by (simp add: inside_def range_end_def)
  have ibc: "in_bounds ?b ?copies"
    unfolding in_bounds_def
    using cp(2) slot_bound [OF _ fin] nlt by (auto simp: w8_def simp del: of_nat_mult)
  then have ib: "in_bounds ?b (?copies @ ?meta)" using ad by (simp add: in_bounds_append)
  note u = deque_update [OF at run offs(1,2) e ib]
  have "deque_at vw handle H ring newcap 0 s' xs \<and> kept vw {H, (ring, newcap * 8)} s s' \<and> v_live vw s' = v_live vw s"
    if w: "written vw s (apply_writes (?copies @ ?meta) ?b) s'"
  proof -
    let ?R = "{H, (ring, newcap * 8)}"
    have "\<forall>(a, d) \<in> set (?copies @ ?meta). \<exists>x \<in> ?R. inside (unat a) (length d) x"
      using slot_in cp(2) deque_inside(1) [OF at, of 16] deque_inside(1) [OF at, of 24] deque_inside(1) [OF at, of 32] ad
      by (auto simp: w8_def simp del: of_nat_mult)
    then have k: "kept vw ?R s s'" by (intro frame_commit [OF g ib w]) (use H q in auto)
    have b': "v_bytes vw s' = apply_writes ?meta (apply_writes ?copies ?b)"
      using w by (simp add: written_def apply_writes_append)
    define b1 where "b1 = apply_writes ?copies ?b"
    have l1: "length b1 = length ?b" using ibc by (simp add: b1_def)
    have b2: "v_bytes vw s' = poke (unat handle + 32) 0 (poke (unat handle + 24) newcap (poke (unat handle + 16) ring b1))"
      unfolding b' b1_def [symmetric] using ad by simp
    have ap: "apart H (ring, newcap * 8)" using good_apart [OF g H q(1)] q(2) by auto
    have far: "unat ring + 8 * i + 8 \<le> unat handle + j \<or> unat handle + j + 8 \<le> unat ring + 8 * i"
      if "i < ?n" "j + 8 \<le> 48" for i j
      using inside_apart [OF deque_inside(1) [OF at that(2)] ap] slot_in [OF that(1)] by (auto simp: inside_def)
    have copied: "word_at b1 (unat ring + 8 * i) = xs ! i" if i: "i < ?n" for i
    proof -
      have "word_at (apply_writes ?copies ?b) (unat (ring + of_nat (8 * i))) = xs ! i"
      proof (rule word_apply_nth [OF ibc, of i])
        fix j assume "i < j" "j < length ?copies"
        then show "clear_of (unat (ring + of_nat (8 * i))) 8 (?copies ! j)"
          using cp(2) [of i] cp(2) [of j] i by (simp del: of_nat_mult)
      qed (use i in simp_all)
      then show ?thesis using cp(2) [OF i] by (simp add: b1_def)
    qed
    have old: "word_at b1 (unat handle + 40) = word_at ?b (unat handle + 40)"
      unfolding b1_def
    proof (rule word_apply_clear [OF ibc])
      show "\<forall>w \<in> set ?copies. clear_of (unat handle + 40) 8 w"
        using far [of _ 40] cp(2) by (fastforce simp del: of_nat_mult)
    qed (use ad(5) in simp)
    have "word_at (v_bytes vw s') (unat ring + 8 * i) = xs ! i" if i: "i < ?n" for i
    proof -
      note fi = far [OF i]
      show ?thesis
        unfolding b2 using l1 ad(5) fi [of 16] fi [of 24] fi [of 32] slot_bound [OF _ fin, of i] i nlt copied [OF i]
        by (simp add: word_at_poke_other)
    qed
    then have "ring_holds (v_bytes vw s') (unat ring) (unat newcap) (unat 0) xs"
      using nlt by (simp add: ring_holds_def)
    moreover have "word_at (v_bytes vw s') (unat handle + 16) = ring" "word_at (v_bytes vw s') (unat handle + 24) = newcap"
      "word_at (v_bytes vw s') (unat handle + 32) = 0"
      "word_at (v_bytes vw s') (unat handle + 40) = word_at ?b (unat handle + 40)"
      unfolding b2 using l1 ad(5) old by (simp_all add: word_at_poke_other)
    moreover have live: "v_live vw s' = v_live vw s" using w by (simp add: written_def)
    moreover have "newcap \<noteq> 0" "0 < newcap" using nc(1) by (auto simp: word_gt_0)
    ultimately have "deque_at vw handle H ring newcap 0 s' xs"
      using at frame_good [OF k] q nc(2) by (simp add: deque_at_def)
    with k live show ?thesis by blast
  qed
  then show "(\<exists>e. r = Inl e) \<and> unchanged vw s s'
      \<or> r = Inr (Some (data, cap)) \<and> deque_at vw handle H ring newcap 0 s' xs \<and> kept vw {H, (ring, newcap * 8)} s s'
        \<and> v_live vw s' = v_live vw s"
    using u(1) by blast
  show "v_calm vw s \<Longrightarrow> r = Inr (Some (data, cap)) \<and> v_calm vw s'" by (rule u(2))
qed

lemma blocks_subset: "deque_at vw handle H data cap head s xs \<Longrightarrow> deque_blocks H data cap \<subseteq> v_live vw s"
  by (auto simp: deque_at_def deque_blocks_def)

lemma deque_grow_ok:
  assumes at: "deque_at vw handle H data cap head s xs" and run: "deque_grow io handle s = (r, s')"
  shows "deque_grown vw handle H s (deque_blocks H data cap) xs r s'" and "v_calm vw s \<Longrightarrow> v_calm vw s'"
proof -
  let ?R = "deque_blocks H data cap"
  have g: "v_good vw s" using at by (simp add: deque_at_def)
  note ad = deque_addr [OF at]
  obtain rc s1 where rd: "read_u64 io (handle + DEQ_CAP_OFF) s = (rc, s1)" by (cases "read_u64 io (handle + DEQ_CAP_OFF) s")
  note r1 = read_word_ok [OF g rd]
  have at1: "deque_at vw handle H data cap head s1 xs" by (rule deque_at_unchanged [OF at r1(1)])
  have g1: "v_good vw s1" using at1 by (simp add: deque_at_def)
  have same: "deque_grown vw handle H s ?R xs r s'"
    if "deque_at vw handle H data cap head s' xs" "kept vw {} s s'" "r = Inr () \<longrightarrow> (of_nat (length xs) :: u64) < cap"
    using that owns_frame_same [OF frame_mono [OF that(2)], of ?R ?R] unfolding deque_grown_def by blast
  have "deque_grown vw handle H s ?R xs r s' \<and> (v_calm vw s \<longrightarrow> v_calm vw s')"
  proof (cases rc)
    case (Inl e)
    then have "r = Inl e" "s' = s1" using run rd by (simp_all add: deque_grow_def)
    with same [OF _ frame_unchanged] at1 r1(1,3) ad Inl show ?thesis by auto
  next
    case (Inr cap0)
    then have cap0: "cap0 = cap" using r1(2) ad at by (simp add: deque_at_def)
    have c1: "v_calm vw s \<Longrightarrow> v_calm vw s1" using r1(3) ad by simp
    define newcap where "newcap = (if cap = 0 then DEQ_MIN_CAP else saturating_mul64 cap 2)"
    show ?thesis
    proof (cases "checked_mul64 newcap 8")
      case None
      then have "r = Inl deque_cap_overflow" "s' = s1"
        using run rd Inr cap0 by (simp_all add: deque_grow_def newcap_def [symmetric] Let_def)
      with same [OF _ frame_unchanged] at1 r1(1) c1 show ?thesis by auto
    next
      case (Some sz)
      have "cap \<noteq> 0 \<longrightarrow> unat cap * 8 < u64_limit" using at by (simp add: deque_at_def)
      note nc = grow_capacity [OF newcap_def Some this]
      obtain rq s2 where al: "op_alloc io sz s1 = (rq, s2)" by (cases "op_alloc io sz s1")
      note ka = frame_alloc [OF g1 al nc(3)]
      have k2: "kept vw {} s s2" using frame_after_unchanged [OF r1(1) ka(1)] .
      have at2: "deque_at vw handle H data cap head s2 xs" by (rule deque_at_kept [OF at k2]) simp
      have g2: "v_good vw s2" using at2 by (simp add: deque_at_def)
      have c2: "v_calm vw s \<Longrightarrow> v_calm vw s2" using calm_alloc [OF g1 _ al] c1 by simp
      show ?thesis
      proof (cases rq)
        case rl: (Inl e)
        then have "r = Inl e" "s' = s2"
          using run rd Inr cap0 Some al by (simp_all add: deque_grow_def newcap_def [symmetric] Let_def)
        with same at2 k2 c2 show ?thesis by auto
      next
        case rr: (Inr q)
        have q: "q = (fst q, newcap * 8)" "q \<notin> v_live vw s" "v_live vw s2 = insert q (v_live vw s)"
          using ka(2) [OF rr] nc(2) r1(1) by (auto simp: unchanged_def prod_eq_iff)
        let ?u = "atomic_update io (deque_words handle) (deque_grow_reads newcap) (deque_grow_plan handle (fst q) newcap) s2"
        obtain ru s3 where up: "?u = (ru, s3)" by (cases ?u)
        have out: "(r, s') = try_s (ru, s3) (\<lambda>grown s3. (Inr (),
            case grown of
              Some (old_ring, old_cap) \<Rightarrow>
                if old_cap > 0 then snd (op_dealloc io (old_ring, saturating_mul64 old_cap 8) s3) else s3
            | None \<Rightarrow> snd (op_dealloc io (fst q, sz) s3)))"
          using run rd Inr cap0 Some al rr up by (simp add: deque_grow_def newcap_def [symmetric] Let_def)
        have qH: "(fst q, newcap * 8) \<noteq> H" "(fst q, newcap * 8) \<in> v_live vw s2" "q \<notin> ?R"
          using q at blocks_subset [OF at] by (auto simp: deque_at_def)
        show ?thesis
        proof (cases "grow_needless newcap (of_nat (length xs)) cap")
          case needless: True
          then have room: "(of_nat (length xs) :: u64) < cap" using nc(4) by (auto simp: grow_needless_def)
          have e: "deque_grow_reads newcap [head, of_nat (length xs), cap, data] = Inr []"
            "deque_grow_plan handle (fst q) newcap [head, of_nat (length xs), cap, data] (words_of (v_bytes vw s2) []) = Inr ([], None)"
            using needless by (simp_all add: deque_grow_reads_def deque_grow_plan_def)
          note u = deque_update [OF at2 up e(1) _ e(2)]
          have un: "unchanged vw s2 s3" and ru: "(\<exists>e. ru = Inl e) \<or> ru = Inr None"
            using u(1) by (auto simp: written_def unchanged_def)
          have k3: "kept vw {} s s3" using frame_trans [OF k2 frame_unchanged [OF un, of "{}"]] by simp
          have at3: "deque_at vw handle H data cap head s3 xs" by (rule deque_at_unchanged [OF at2 un])
          show ?thesis
          proof (cases ru)
            case (Inl e)
            with out have "r = Inl e" "s' = s3" by simp_all
            with same at3 k3 u(2) c2 Inl show ?thesis by auto
          next
            case rn: (Inr v)
            then have v: "v = None" using ru by simp
            obtain rd4 s4 where de: "op_dealloc io q s3 = (rd4, s4)" by (cases "op_dealloc io q s3")
            have q3: "q \<in> v_live vw s3" using un q(3) by (simp add: unchanged_def)
            have g3: "v_good vw s3" using at3 by (simp add: deque_at_def)
            note d = frame_dealloc [OF g3 q3 de]
            have s': "r = Inr ()" "s' = s4" using out rn v q(1) nc(2) de by auto
            have "deque_at vw handle H data cap head s4 xs" by (rule deque_at_kept [OF at3 d(1)]) (use qH(3) in auto)
            moreover have "kept vw {} s s4" by (rule frame_trans [OF k3 d(1)]) (use q(2) in auto)
            ultimately show ?thesis using same s' room d(3) u(2) c2 by auto
          qed
        next
          case full: False
          note w = deque_grow_swap [OF at2 full nc(4,1) qH(2,1) up]
          show ?thesis
          proof (cases ru)
            case (Inl e)
            then have un: "unchanged vw s2 s3" and out': "r = Inl e" "s' = s3" using w(1) out by auto
            have "kept vw {} s s3" using frame_trans [OF k2 frame_unchanged [OF un, of "{}"]] by simp
            with same deque_at_unchanged [OF at2 un] out' w(2) c2 Inl show ?thesis by auto
          next
            case rn: (Inr v)
            then have v: "v = Some (data, cap)" and at3: "deque_at vw handle H (fst q) newcap 0 s3 xs"
              and k3: "kept vw {H, q} s2 s3" and l3: "v_live vw s3 = v_live vw s2" using w(1) q(1) by auto
            have k03: "kept vw ?R s s3"
              by (rule frame_trans [OF frame_mono [OF k2] k3]) (use q(2) deque_inside(2) [OF at] in auto)
            have room: "(of_nat (length xs) :: u64) < newcap"
              using at nc(4) deque_len_word [OF at]
              by (auto simp: deque_at_def ring_holds_def word_less_nat_alt split: if_splits)
            have nb: "deque_blocks H (fst q) newcap = {H, q}" using nc(5) q(1) by (simp add: deque_blocks_def)
            show ?thesis
            proof (cases "cap = 0")
              case True
              with out rn v have "r = Inr ()" "s' = s3" by simp_all
              moreover have "owns_frame vw s ?R s3 {H, q}"
                using k03 q(2) deque_inside(2) [OF at] by (auto simp: owns_frame_def)
              ultimately show ?thesis using at3 nb room w(2) c2 unfolding deque_grown_def by metis
            next
              case False
              have old: "saturating_mul64 cap 8 = cap * 8" "(data, cap * 8) \<in> v_live vw s3" "(data, cap * 8) \<noteq> H"
                "(data, cap * 8) \<noteq> q" "(data, cap * 8) \<in> ?R"
                using at False l3 q(2,3) by (auto simp: deque_at_def saturating_mul64_def deque_blocks_def)
              obtain rd4 s4 where de: "op_dealloc io (data, cap * 8) s3 = (rd4, s4)" by (cases "op_dealloc io (data, cap * 8) s3")
              have g3: "v_good vw s3" using at3 by (simp add: deque_at_def)
              note d = frame_dealloc [OF g3 old(2) de]
              have "r = Inr ()" "s' = s4" using out rn v old(1) False de by (simp_all add: word_gt_0)
              moreover have "deque_at vw handle H (fst q) newcap 0 s4 xs"
                by (rule deque_at_kept [OF at3 d(1)]) (use old nb in auto)
              moreover have "kept vw ?R s s4" by (rule frame_trans [OF k03 d(1)]) (use old(5) in auto)
              then have "owns_frame vw s ?R s4 {H, q}"
                using q(2) deque_inside(2) [OF at] by (auto simp: owns_frame_def)
              ultimately show ?thesis using nb room d(3) w(2) c2 unfolding deque_grown_def by metis
            qed
          qed
        qed
      qed
    qed
  qed
  then show "deque_grown vw handle H s ?R xs r s'" "v_calm vw s \<Longrightarrow> v_calm vw s'" by simp_all
qed

section \<open>The retry loop of the pushes\<close>

lemma becomes_inv:
  assumes at: "deque_at vw handle H data cap head s xs" and b: "deque_becomes vw handle H data cap s r v ys s'"
  shows "\<exists>R'. owns_frame vw s (deque_blocks H data cap) s' R'
    \<and> (case r of Inl e \<Rightarrow> deque_inv vw handle H s' R' xs | Inr x \<Rightarrow> x = v \<and> deque_inv vw handle H s' R' ys)"
proof -
  let ?R = "deque_blocks H data cap"
  from b consider e where "r = Inl e" "unchanged vw s s'"
    | h where "r = Inr v" "deque_at vw handle H data cap h s' ys" "kept vw ?R s s'"
    by (auto simp: deque_becomes_def)
  then show ?thesis
  proof cases
    case 1
    have "owns_frame vw s ?R s' ?R" by (rule owns_frame_same [OF frame_unchanged [OF 1(2)] subset_refl])
    with 1 deque_at_unchanged [OF at 1(2)] show ?thesis by (auto simp: deque_inv_def)
  next
    case 2
    have "owns_frame vw s ?R s' ?R" by (rule owns_frame_same [OF 2(3) subset_refl])
    with 2 show ?thesis by (auto simp: deque_inv_def)
  qed
qed

lemma push_loop_room:
  assumes at: "deque_at vw handle H data cap head s xs" and room: "(of_nat (length xs) :: u64) < cap"
    and step: "\<And>r s'. atomic_update io (deque_words handle) (\<lambda>_. Inr []) plan s = (r, s') \<Longrightarrow>
      deque_becomes vw handle H data cap s r False ys s' \<and> (v_calm vw s \<longrightarrow> r = Inr False \<and> v_calm vw s')"
  shows "\<exists>r s' R'. push_loop (Suc fuel) io handle plan s = Some (r, s') \<and> owns_frame vw s (deque_blocks H data cap) s' R'
    \<and> (case r of Inl e \<Rightarrow> deque_inv vw handle H s' R' xs | Inr _ \<Rightarrow> deque_inv vw handle H s' R' ys)
    \<and> (v_calm vw s \<longrightarrow> v_calm vw s')"
proof -
  obtain r s' where up: "atomic_update io (deque_words handle) (\<lambda>_. Inr []) plan s = (r, s')" by fastforce
  note st = step [OF up]
  obtain R' where R': "owns_frame vw s (deque_blocks H data cap) s' R'"
    "case r of Inl e \<Rightarrow> deque_inv vw handle H s' R' xs | Inr x \<Rightarrow> x = False \<and> deque_inv vw handle H s' R' ys"
    using becomes_inv [OF at conjunct1 [OF st]] by (elim exE conjE)
  with up st show ?thesis by (cases r) auto
qed

lemma push_loop_ok:
  assumes at: "deque_at vw handle H data cap head s xs"
    and room: "\<And>data cap head s r s'. deque_at vw handle H data cap head s xs \<Longrightarrow> (of_nat (length xs) :: u64) < cap \<Longrightarrow>
      atomic_update io (deque_words handle) (\<lambda>_. Inr []) plan s = (r, s') \<Longrightarrow>
      deque_becomes vw handle H data cap s r False ys s' \<and> (v_calm vw s \<longrightarrow> r = Inr False \<and> v_calm vw s')"
    and full: "\<And>head data cap. \<not> (of_nat (length xs) :: u64) < cap \<Longrightarrow> plan [head, of_nat (length xs), cap, data] [] = Inr ([], True)"
  shows "\<exists>r s' R'. push_loop (Suc (Suc fuel)) io handle plan s = Some (r, s') \<and> owns_frame vw s (deque_blocks H data cap) s' R'
    \<and> (case r of Inl e \<Rightarrow> deque_inv vw handle H s' R' xs | Inr _ \<Rightarrow> deque_inv vw handle H s' R' ys)
    \<and> (v_calm vw s \<longrightarrow> v_calm vw s')"
proof (cases "(of_nat (length xs) :: u64) < cap")
  case True
  then show ?thesis by (rule push_loop_room [OF at _ room [OF at True]])
next
  case False
  let ?R = "deque_blocks H data cap"
  obtain r1 s1 where up: "atomic_update io (deque_words handle) (\<lambda>_. Inr []) plan s = (r1, s1)" by fastforce
  note f = push_full [OF at up full [OF False]]
  have u: "unchanged vw s s1" using f(1) by simp
  have at1: "deque_at vw handle H data cap head s1 xs" by (rule deque_at_unchanged [OF at u])
  have fr1: "owns_frame vw s ?R s1 ?R" by (rule owns_frame_same [OF frame_unchanged [OF u] subset_refl])
  show ?thesis
  proof (cases r1)
    case (Inl e)
    then have "push_loop (Suc (Suc fuel)) io handle plan s = Some (Inl e, s1)" using up by simp
    with fr1 at1 f(2) Inl show ?thesis by (auto simp: deque_inv_def)
  next
    case (Inr v)
    then have v: "v = True" using f(1) by simp
    obtain r2 s2 where gr: "deque_grow io handle s1 = (r2, s2)" by (cases "deque_grow io handle s1")
    note g = deque_grow_ok [OF at1 gr]
    obtain data' cap' head' where at2: "deque_at vw handle H data' cap' head' s2 xs"
      and fr2: "owns_frame vw s1 ?R s2 (deque_blocks H data' cap')"
      and rm: "r2 = Inr () \<longrightarrow> (of_nat (length xs) :: u64) < cap'"
      using g(1) unfolding deque_grown_def by blast
    note fr = owns_frame_trans [OF fr1 fr2]
    show ?thesis
    proof (cases r2)
      case (Inl e)
      then have "push_loop (Suc (Suc fuel)) io handle plan s = Some (Inl e, s2)" using up v Inr gr by simp
      with fr at2 f(2) g(2) Inr show ?thesis by (auto simp: deque_inv_def)
    next
      case rr: (Inr x)
      then have lt: "(of_nat (length xs) :: u64) < cap'" using rm by simp
      obtain r s' R' where rest: "push_loop (Suc fuel) io handle plan s2 = Some (r, s')"
        "owns_frame vw s2 (deque_blocks H data' cap') s' R'"
        "case r of Inl e \<Rightarrow> deque_inv vw handle H s' R' xs | Inr _ \<Rightarrow> deque_inv vw handle H s' R' ys"
        "v_calm vw s2 \<longrightarrow> v_calm vw s'"
        using push_loop_room [OF at2 lt room [OF at2 lt], where fuel = fuel] by blast
      have "push_loop (Suc (Suc fuel)) io handle plan s = Some (r, s')" using up v Inr gr rr rest(1) by simp
      with owns_frame_trans [OF fr rest(2)] rest(3,4) f(2) g(2) show ?thesis by blast
    qed
  qed
qed

lemma push_back_ok:
  assumes at: "deque_at vw handle H data cap head s xs"
  shows "\<exists>r s' R'. push_loop (Suc (Suc fuel)) io handle (push_back_plan handle val) s = Some (r, s')
    \<and> owns_frame vw s (deque_blocks H data cap) s' R'
    \<and> (case r of Inl e \<Rightarrow> deque_inv vw handle H s' R' xs | Inr _ \<Rightarrow> deque_inv vw handle H s' R' (xs @ [val]))
    \<and> (v_calm vw s \<longrightarrow> v_calm vw s')"
  by (rule push_loop_ok [OF at]) (use push_back_room in \<open>auto simp: push_back_plan_def\<close>)

lemma push_front_ok:
  assumes at: "deque_at vw handle H data cap head s xs"
  shows "\<exists>r s' R'. push_loop (Suc (Suc fuel)) io handle (push_front_plan handle val) s = Some (r, s')
    \<and> owns_frame vw s (deque_blocks H data cap) s' R'
    \<and> (case r of Inl e \<Rightarrow> deque_inv vw handle H s' R' xs | Inr _ \<Rightarrow> deque_inv vw handle H s' R' (val # xs))
    \<and> (v_calm vw s \<longrightarrow> v_calm vw s')"
  by (rule push_loop_ok [OF at]) (use push_front_room in \<open>auto simp: push_front_plan_def\<close>)

section \<open>Reads\<close>

lemma deque_meta_ok:
  assumes at: "deque_at vw handle H data cap head s xs" and run: "deque_read_meta io handle s = (r, s')"
  shows "unchanged vw s s'" and "\<forall>v. r = Inr v \<longrightarrow> v = (head, of_nat (length xs), cap, data)"
    and "v_calm vw s \<Longrightarrow> \<not> isl r \<and> v_calm vw s'"
proof -
  have g: "v_good vw s" using at by (simp add: deque_at_def)
  note ad = deque_addr [OF at]
  obtain rf s1 where rd: "read_fields io 4 (handle + DEQ_DATA_OFF) s = (rf, s1)" by (cases "read_fields io 4 (handle + DEQ_DATA_OFF) s")
  note rw = read_words_ok [OF g rd]
  have len: "word_at (v_bytes vw s) (unat handle + 40) = of_nat (length xs)"
    using at unfolding deque_at_def by (metis u64_of_unat)
  show "unchanged vw s s'" using rw(1) run rd by (cases rf) (auto simp: deque_read_meta_def)
  show "\<forall>v. r = Inr v \<longrightarrow> v = (head, of_nat (length xs), cap, data)"
    using run rd rw(2) at ad len
    by (cases rf) (auto simp: deque_read_meta_def deque_at_def upt_rec add.commute add.left_commute)
  show "\<not> isl r \<and> v_calm vw s'" if calm: "v_calm vw s"
    using rw(3) [OF calm] run rd ad by (cases rf) (auto simp: deque_read_meta_def)
qed

text \<open>Reading one element, from a position counted from the front.\<close>

lemma deque_element:
  assumes at: "deque_at vw handle H data cap head s xs" and x: "unat x < length xs"
    and run: "try_in (ring_slot data head x cap) s (\<lambda>off. read_u64 io off s) = (r, s')"
  shows "unchanged vw s s'" and "\<forall>v. r = Inr v \<longrightarrow> v = xs ! unat x" and "v_calm vw s \<Longrightarrow> \<not> isl r \<and> v_calm vw s'"
proof -
  have g: "v_good vw s" using at by (simp add: deque_at_def)
  obtain off where off: "ring_slot data head x cap = Inr off" "unat off + 8 \<le> length (v_bytes vw s)"
    "word_at (v_bytes vw s) (unat off) = xs ! unat x"
    using deque_slot_word [OF at x] by blast
  have rd: "read_u64 io off s = (r, s')" using run off(1) by simp
  note rw = read_word_ok [OF g rd]
  show "unchanged vw s s'" by (rule rw(1))
  show "\<forall>v. r = Inr v \<longrightarrow> v = xs ! unat x" using rw(2) off(3) by simp
  show "v_calm vw s \<Longrightarrow> \<not> isl r \<and> v_calm vw s'" using rw(3) off(2) by auto
qed

end

end
