(* ===== verification/DequeRuns.thy ===== *)
theory DequeRuns
  imports DequeCorrect
begin

text \<open>
  Runs of operations on a deque against a list, and its iteration: the deque is an instance of
  \<open>container\<close>, and a drained iterator has yielded the list.
\<close>

section \<open>Runs\<close>

definition deque_exec :: "'s stack_ops \<Rightarrow> u64 \<Rightarrow> ends_op \<Rightarrow> 's \<Rightarrow> (u64 option res \<times> 's) option" where
  "deque_exec io handle oper s =
     (case oper of
        PushBack v \<Rightarrow> map_option (\<lambda>(r, s'). (case r of Inl (e, _) \<Rightarrow> Inl e | Inr _ \<Rightarrow> Inr None, s'))
          (deque_push_back (Suc (Suc 0)) io handle v s)
      | PushFront v \<Rightarrow> map_option (\<lambda>(r, s'). (case r of Inl (e, _) \<Rightarrow> Inl e | Inr _ \<Rightarrow> Inr None, s'))
          (deque_push_front (Suc (Suc 0)) io handle v s)
      | PopBack \<Rightarrow> Some (deque_pop_back io handle s)
      | PopFront \<Rightarrow> Some (deque_pop_front io handle s)
      | Front \<Rightarrow> Some (deque_front io handle s)
      | Back \<Rightarrow> Some (deque_back io handle s)
      | Len \<Rightarrow> Some (try_s (deque_len io handle s) (\<lambda>n s1. (Inr (Some n), s1))))"

context stack_laws
begin

lemma deque_reads:
  assumes at: "deque_at vw handle H data cap head s xs"
  shows "deque_front io handle s = (r, s') \<Longrightarrow> unchanged vw s s' \<and> (\<forall>v. r = Inr v \<longrightarrow> v = ends_answer Front xs)
      \<and> (v_calm vw s \<longrightarrow> \<not> isl r \<and> v_calm vw s')"
    and "deque_back io handle s = (r, s') \<Longrightarrow> unchanged vw s s' \<and> (\<forall>v. r = Inr v \<longrightarrow> v = ends_answer Back xs)
      \<and> (v_calm vw s \<longrightarrow> \<not> isl r \<and> v_calm vw s')"
proof -
  obtain rm s1 where rd: "deque_read_meta io handle s = (rm, s1)" by (cases "deque_read_meta io handle s")
  note m = deque_meta_ok [OF at rd]
  have at1: "deque_at vw handle H data cap head s1 xs" by (rule deque_at_unchanged [OF at m(1)])
  have elem: "unchanged vw s s' \<and> (\<forall>v. r = Inr v \<longrightarrow> v = Some (xs ! unat x)) \<and> (v_calm vw s1 \<longrightarrow> \<not> isl r \<and> v_calm vw s')"
    if x: "unat x < length xs" and e: "try_in (ring_slot data head x cap) s1 (\<lambda>off.
         try_s (read_u64 io off s1) (\<lambda>v s2. (Inr (Some v), s2))) = (r, s')" for x and r :: "u64 option res" and s'
  proof -
    obtain re s2 where ee: "try_in (ring_slot data head x cap) s1 (\<lambda>off. read_u64 io off s1) = (re, s2)" by fastforce
    note l = deque_element [OF at1 x ee]
    have "(r, s') = try_s (re, s2) (\<lambda>v s2. (Inr (Some v), s2))"
    proof (cases "ring_slot data head x cap")
      case (Inl a)
      with e ee have "r = Inl a" "s' = s1" "re = Inl a" "s2 = s1" by simp_all
      then show ?thesis by simp
    next
      case (Inr off)
      with e ee show ?thesis by simp
    qed
    with l unchanged_trans [OF m(1)] show ?thesis by (cases re) auto
  qed
  have len0: "((of_nat (length xs) :: u64) = 0) = (xs = [])"
  proof (cases "xs = []")
    case False
    then have "unat (of_nat (length xs) :: u64) \<noteq> 0" using deque_len_word [OF at] by simp
    then have "(of_nat (length xs) :: u64) \<noteq> 0" by (metis unat_0)
    with False show ?thesis by simp
  qed simp
  show "unchanged vw s s' \<and> (\<forall>v. r = Inr v \<longrightarrow> v = ends_answer Front xs) \<and> (v_calm vw s \<longrightarrow> \<not> isl r \<and> v_calm vw s')"
    if run: "deque_front io handle s = (r, s')"
  proof (cases rm)
    case (Inl e)
    with run rd m show ?thesis by (auto simp: deque_front_def)
  next
    case (Inr v)
    then have v: "v = (head, of_nat (length xs), cap, data)" using m(2) by simp
    show ?thesis
    proof (cases "xs = []")
      case True
      with run rd Inr v m show ?thesis by (auto simp: deque_front_def)
    next
      case False
      with run rd Inr v len0 have "try_in (ring_slot data head 0 cap) s1 (\<lambda>off.
         try_s (read_u64 io off s1) (\<lambda>v s2. (Inr (Some v), s2))) = (r, s')" by (simp add: deque_front_def)
      from elem [OF _ this] False m(3) show ?thesis by (auto simp: hd_conv_nth)
    qed
  qed
  show "unchanged vw s s' \<and> (\<forall>v. r = Inr v \<longrightarrow> v = ends_answer Back xs) \<and> (v_calm vw s \<longrightarrow> \<not> isl r \<and> v_calm vw s')"
    if run: "deque_back io handle s = (r, s')"
  proof (cases rm)
    case (Inl e)
    with run rd m show ?thesis by (auto simp: deque_back_def)
  next
    case (Inr v)
    then have v: "v = (head, of_nat (length xs), cap, data)" using m(2) by simp
    show ?thesis
    proof (cases "xs = []")
      case True
      with run rd Inr v m show ?thesis by (auto simp: deque_back_def)
    next
      case False
      note n = deque_nonempty [OF at False]
      from False run rd Inr v len0 have "try_in (ring_slot data head (of_nat (length xs) - 1) cap) s1 (\<lambda>off.
         try_s (read_u64 io off s1) (\<lambda>v s2. (Inr (Some v), s2))) = (r, s')" by (simp add: deque_back_def)
      from elem [OF _ this] False m(3) n(4) show ?thesis by (auto simp: last_conv_nth)
    qed
  qed
qed

lemma deque_exec_ok:
  assumes inv: "deque_inv vw handle H s R xs"
  shows "\<exists>r s' R' ys. deque_exec io handle oper s = Some (r, s') \<and> deque_inv vw handle H s' R' ys
    \<and> owns_frame vw s R s' R' \<and> answers ends_answer ends_after xs oper r ys
    \<and> (v_calm vw s \<longrightarrow> v_calm vw s' \<and> (no_alloc oper \<longrightarrow> \<not> isl r))"
proof -
  obtain data cap head where R: "R = deque_blocks H data cap" and at: "deque_at vw handle H data cap head s xs"
    using inv by (auto simp: deque_inv_def)
  have g: "v_good vw s" using at by (simp add: deque_at_def)
  have reads: ?thesis
    if e: "deque_exec io handle oper s = Some (r, s')" and u: "unchanged vw s s'"
      and a: "\<forall>v. r = Inr v \<longrightarrow> v = ends_answer oper xs" and k: "ends_after oper xs = xs"
      and c: "v_calm vw s \<longrightarrow> \<not> isl r \<and> v_calm vw s'" for r s'
  proof -
    have "answers ends_answer ends_after xs oper r xs" using a k by (cases r) simp_all
    moreover have "owns_frame vw s R s' R" by (rule owns_frame_same [OF frame_unchanged [OF u] subset_refl])
    moreover have "deque_inv vw handle H s' R xs" using deque_at_unchanged [OF at u] R by (auto simp: deque_inv_def)
    ultimately show ?thesis using e c by blast
  qed
  have pops: ?thesis
    if e: "deque_exec io handle oper s = Some (r, s')"
      and b: "deque_becomes vw handle H data cap s r (ends_answer oper xs) (ends_after oper xs) s'"
      and c: "v_calm vw s \<longrightarrow> \<not> isl r \<and> v_calm vw s'" for r s'
  proof -
    obtain R' where R': "owns_frame vw s R s' R'" and i: "case r of Inl e \<Rightarrow> deque_inv vw handle H s' R' xs
        | Inr x \<Rightarrow> x = ends_answer oper xs \<and> deque_inv vw handle H s' R' (ends_after oper xs)"
      using becomes_inv [OF at b] R by blast
    show ?thesis
    proof (cases r)
      case (Inl x)
      with e R' i c show ?thesis by (intro exI [of _ r] exI [of _ s'] exI [of _ R'] exI [of _ xs]) simp
    next
      case (Inr x)
      with e R' i c show ?thesis
        by (intro exI [of _ r] exI [of _ s'] exI [of _ R'] exI [of _ "ends_after oper xs"]) simp
    qed
  qed
  have pushes: ?thesis
    if e: "deque_exec io handle oper s = map_option (\<lambda>(r, s'). (case finish_handback val r of Inl (e, _) \<Rightarrow> Inl e | Inr _ \<Rightarrow> Inr None, s'))
        (push_loop (Suc (Suc 0)) io handle plan s)"
      and l: "push_loop (Suc (Suc 0)) io handle plan s = Some (r, s')" and fr: "owns_frame vw s (deque_blocks H data cap) s' R'"
      and i: "case r of Inl e \<Rightarrow> deque_inv vw handle H s' R' xs | Inr _ \<Rightarrow> deque_inv vw handle H s' R' (ends_after oper xs)"
      and c: "v_calm vw s \<longrightarrow> v_calm vw s'" and a: "ends_answer oper xs = None" "\<not> no_alloc oper"
      for val r s' R' plan
    using that R by (cases r) (fastforce simp: finish_handback_def)+
  show ?thesis
  proof (cases oper)
    case (PushBack v)
    have la: "ends_after oper xs = xs @ [v]" using PushBack by simp
    obtain r s' R' where p: "push_loop (Suc (Suc 0)) io handle (push_back_plan handle v) s = Some (r, s')"
      "owns_frame vw s (deque_blocks H data cap) s' R'"
      "case r of Inl e \<Rightarrow> deque_inv vw handle H s' R' xs | Inr _ \<Rightarrow> deque_inv vw handle H s' R' (ends_after oper xs)"
      "v_calm vw s \<longrightarrow> v_calm vw s'"
      using push_back_ok [OF at, of 0 v] unfolding la by blast
    show ?thesis
      by (rule pushes [where val = v, OF _ p])
        (use PushBack in \<open>simp_all add: deque_exec_def deque_push_back_def option.map_comp comp_def split_def del: push_loop.simps\<close>)
  next
    case (PushFront v)
    have la: "ends_after oper xs = v # xs" using PushFront by simp
    obtain r s' R' where p: "push_loop (Suc (Suc 0)) io handle (push_front_plan handle v) s = Some (r, s')"
      "owns_frame vw s (deque_blocks H data cap) s' R'"
      "case r of Inl e \<Rightarrow> deque_inv vw handle H s' R' xs | Inr _ \<Rightarrow> deque_inv vw handle H s' R' (ends_after oper xs)"
      "v_calm vw s \<longrightarrow> v_calm vw s'"
      using push_front_ok [OF at, of 0 v] unfolding la by blast
    show ?thesis
      by (rule pushes [where val = v, OF _ p])
        (use PushFront in \<open>simp_all add: deque_exec_def deque_push_front_def option.map_comp comp_def split_def del: push_loop.simps\<close>)
  next
    case PopBack
    obtain r s' where p: "deque_pop_back io handle s = (r, s')" by (cases "deque_pop_back io handle s")
    show ?thesis
      by (rule pops [of r s']) (use PopBack p deque_pop_back_ok [OF at p] in \<open>simp_all add: deque_exec_def\<close>)
  next
    case PopFront
    obtain r s' where p: "deque_pop_front io handle s = (r, s')" by (cases "deque_pop_front io handle s")
    show ?thesis
      by (rule pops [of r s']) (use PopFront p deque_pop_front_ok [OF at p] in \<open>simp_all add: deque_exec_def\<close>)
  next
    case Front
    obtain r s' where p: "deque_front io handle s = (r, s')" by (cases "deque_front io handle s")
    show ?thesis
      by (rule reads [of r s']) (use Front p deque_reads(1) [OF at p] in \<open>simp_all add: deque_exec_def\<close>)
  next
    case Back
    obtain r s' where p: "deque_back io handle s = (r, s')" by (cases "deque_back io handle s")
    show ?thesis
      by (rule reads [of r s']) (use Back p deque_reads(2) [OF at p] in \<open>simp_all add: deque_exec_def\<close>)
  next
    case Len
    obtain rn s' where p: "deque_len io handle s = (rn, s')" by (cases "deque_len io handle s")
    note rw = read_word_ok [OF g p [unfolded deque_len_def]]
    note ad = deque_addr [OF at]
    have "word_at (v_bytes vw s) (unat handle + 40) = of_nat (length xs)"
      using at unfolding deque_at_def by (metis u64_of_unat)
    with Len p rw ad show ?thesis
      by (intro reads [of "try_r rn (\<lambda>n. Inr (Some n))" s']; cases rn) (auto simp: deque_exec_def)
  qed
qed

end

text \<open>A position of an iterator over a deque that has not changed since.\<close>

definition iter_over :: "u64 \<Rightarrow> u64 \<Rightarrow> u64 \<Rightarrow> u64 \<Rightarrow> nat \<Rightarrow> nat \<Rightarrow> deque_iter" where
  "iter_over handle data cap head n i =
     \<lparr>di_block = handle, di_data = data, di_cap = cap, di_head = head, di_len = of_nat n, di_pos = of_nat i\<rparr>"

definition deque_left :: "'s stack_view \<Rightarrow> u64 \<Rightarrow> range \<Rightarrow> 's \<Rightarrow> u64 list \<Rightarrow> deque_iter \<Rightarrow> bool" where
  "deque_left vw handle H s ys it \<longleftrightarrow>
     (\<exists>data cap head xs i. deque_at vw handle H data cap head s xs \<and> i \<le> length xs \<and> ys = drop i xs
        \<and> it = iter_over handle data cap head (length xs) i)"

context stack_laws
begin

lemma deque_iter_next_ok:
  assumes at: "deque_at vw handle H data cap head s xs" and i: "i < length xs"
    and run: "deque_iter_next io (iter_over handle data cap head (length xs) i) s = (r, it', s')"
  shows "unchanged vw s s'"
    and "r = Some (Inr (xs ! i)) \<and> it' = iter_over handle data cap head (length xs) (Suc i)
      \<or> (\<exists>e. r = Some (Inl e)) \<and> di_pos it' = di_len it'"
    and "v_calm vw s \<Longrightarrow> r = Some (Inr (xs ! i)) \<and> v_calm vw s'"
proof -
  let ?n = "of_nat (length xs) :: u64" and ?i = "of_nat i :: u64"
  note l = deque_len_word [OF at]
  have li: "unat ?i = i" using i l unat_u64_bound [of ?n] by (simp add: unat_of_nat_u64)
  have lt: "\<not> ?n \<le> ?i" using i l li by (simp add: word_le_nat_alt)
  obtain rm s1 where rd: "deque_read_meta io handle s = (rm, s1)" by (cases "deque_read_meta io handle s")
  note m = deque_meta_ok [OF at rd]
  have at1: "deque_at vw handle H data cap head s1 xs" by (rule deque_at_unchanged [OF at m(1)])
  obtain off where off: "ring_slot data head ?i cap = Inr off" using deque_slot_word [OF at1, of ?i] i li by auto
  obtain re s2 where re: "read_u64 io off s1 = (re, s2)" by fastforce
  then have "try_in (ring_slot data head ?i cap) s1 (\<lambda>off. read_u64 io off s1) = (re, s2)" by (simp add: off)
  note el = deque_element [OF at1 _ this]
  have el: "unchanged vw s1 s2" "\<forall>v. re = Inr v \<longrightarrow> v = xs ! i" "v_calm vw s1 \<Longrightarrow> \<not> isl re \<and> v_calm vw s2"
    using el i li by simp_all
  have step: "deque_iter_next io (iter_over handle data cap head (length xs) i) s =
     (case rm of
        Inl e \<Rightarrow> (Some (Inl e), (iter_over handle data cap head (length xs) i)\<lparr>di_pos := ?n\<rparr>, s1)
      | Inr _ \<Rightarrow> (case re of
          Inl e \<Rightarrow> (Some (Inl e), (iter_over handle data cap head (length xs) i)\<lparr>di_pos := ?n\<rparr>, s2)
        | Inr v \<Rightarrow> (Some (Inr v), iter_over handle data cap head (length xs) (Suc i), s2)))"
    using lt rd re off m(2)
    by (cases rm; cases re) (auto simp: deque_iter_next_def iter_over_def Let_def)
  show "unchanged vw s s'"
    using step run m(1) unchanged_trans [OF m(1) el(1)] by (cases rm; cases re) simp_all
  show "r = Some (Inr (xs ! i)) \<and> it' = iter_over handle data cap head (length xs) (Suc i)
      \<or> (\<exists>e. r = Some (Inl e)) \<and> di_pos it' = di_len it'"
    using step run el(2) by (cases rm; cases re) (auto simp: iter_over_def)
  show "v_calm vw s \<Longrightarrow> r = Some (Inr (xs ! i)) \<and> v_calm vw s'"
    using step run el m(3) by (cases rm; cases re) auto
qed

end

sublocale stack_laws \<subseteq> deque_iteration: iterator vw "deque_iter_next io" "deque_left vw handle H" for handle H
proof unfold_locales
  show "v_good vw s" if "deque_left vw handle H s xs it" for s xs it
    using that by (auto simp: deque_left_def deque_at_def)
  show "deque_iter_next io it s = (None, it, s)" if "deque_left vw handle H s [] it" for s it
    using that by (auto simp: deque_left_def deque_iter_next_def iter_over_def)
  fix s x xs it r it' s'
  assume l: "deque_left vw handle H s (x # xs) it" and run: "deque_iter_next io it s = (r, it', s')"
  then obtain data cap head ys i where at: "deque_at vw handle H data cap head s ys" and dr: "x # xs = drop i ys"
    and it: "it = iter_over handle data cap head (length ys) i" unfolding deque_left_def by blast
  have i: "i < length ys" using dr by (metis drop_eq_Nil leI list.distinct(1))
  have d: "x = ys ! i" "xs = drop (Suc i) ys" using dr unfolding Cons_nth_drop_Suc [OF i, symmetric] by simp_all
  note nx = deque_iter_next_ok [OF at i run [unfolded it]]
  have "deque_left vw handle H s' xs (iter_over handle data cap head (length ys) (Suc i))"
    using deque_at_unchanged [OF at nx(1)] i d unfolding deque_left_def by (metis Suc_leI)
  moreover have "deque_iter_next io it' s' = (None, it', s')" if "di_pos it' = di_len it'"
    using that by (simp add: deque_iter_next_def)
  ultimately show "unchanged vw s s' \<and> (r = Some (Inr x) \<and> deque_left vw handle H s' xs it'
      \<or> (\<exists>e. r = Some (Inl e)) \<and> deque_iter_next io it' s' = (None, it', s'))
    \<and> (v_calm vw s \<longrightarrow> r = Some (Inr x) \<and> v_calm vw s')"
    using nx d by auto
qed

context stack_laws
begin

lemma deque_iter_starts:
  assumes inv: "deque_inv vw handle H s R xs" and calm: "v_calm vw s"
  shows "\<exists>it s1. deque_iter_new io handle s = (Inr it, s1)"
proof -
  obtain data cap head where at: "deque_at vw handle H data cap head s xs" using inv by (auto simp: deque_inv_def)
  obtain rm s1 where rd: "deque_read_meta io handle s = (rm, s1)" by (cases "deque_read_meta io handle s")
  from deque_meta_ok(3) [OF at rd calm] rd show ?thesis by (cases rm) (auto simp: deque_iter_new_def)
qed

lemma deque_iterates:
  assumes inv: "deque_inv vw handle H s R xs" and new: "deque_iter_new io handle s = (Inr it, s1)"
  shows "\<exists>rs s'. drain (length xs + 2) (deque_iter_next io) it s1 = Some (rs, s') \<and> unchanged vw s s' \<and> yields xs rs
    \<and> (v_calm vw s \<longrightarrow> rs = map Inr xs)"
proof -
  obtain data cap head where at: "deque_at vw handle H data cap head s xs" using inv by (auto simp: deque_inv_def)
  obtain rm s2 where rd: "deque_read_meta io handle s = (rm, s2)" by (cases "deque_read_meta io handle s")
  note m = deque_meta_ok [OF at rd]
  have it: "it = iter_over handle data cap head (length xs) 0" "s2 = s1"
    using new rd m(2) by (cases rm; auto simp: deque_iter_new_def iter_over_def)+
  have at1: "deque_at vw handle H data cap head s1 xs" by (rule deque_at_unchanged [OF at m(1) [unfolded it(2)]])
  have "deque_left vw handle H s1 xs it" using at1 it(1) unfolding deque_left_def by (metis drop0 le0)
  then obtain rs s' where "drain (length xs + 2) (deque_iter_next io) it s1 = Some (rs, s')" "unchanged vw s1 s'" "yields xs rs"
    "v_calm vw s1 \<longrightarrow> rs = map Inr xs"
    using deque_iteration.drain_yields by blast
  with m(3) unchanged_trans [OF m(1) [unfolded it(2)]] it(2) show ?thesis by blast
qed

end

sublocale stack_laws \<subseteq> deque: container vw "deque_exec io handle" "deque_inv vw handle H"
  "answers ends_answer ends_after" "\<lambda>_. True" no_alloc for handle H
proof unfold_locales
  show "v_good vw s" if "deque_inv vw handle H s R a" for s R a
    using that by (auto simp: deque_inv_def deque_at_def)
qed (rule deque_exec_ok)

context stack_laws
begin

lemma deque_run:
  assumes "deque_inv vw handle H s R xs"
  shows "\<exists>rs s' R' ys. run_ops (deque_exec io handle) ops s = Some (rs, s') \<and> deque_inv vw handle H s' R' ys
    \<and> owns_frame vw s R s' R' \<and> trace (answers ends_answer ends_after) xs ops rs ys
    \<and> (v_calm vw s \<longrightarrow> list_all2 (\<lambda>oper r. no_alloc oper \<longrightarrow> \<not> isl r) ops rs)"
  using deque.run_simulates [OF assms, of ops] by blast

end

section \<open>A sample deque\<close>

text \<open>A deque at 16 with a ring of four slots at 64, of which the last and the first hold 11 and 22.\<close>

definition sample_deque :: mem where
  "sample_deque = \<lparr>m_bytes = concat (map to_le64 [0, 0, 48, 0, 64, 4, 3, 2, 22, 0, 0, 11]) @ [],
     m_live = [(16, 48), (64, 32)], m_faults = []\<rparr>"

lemma sample_deque_inv: "deque_inv mem_view 16 (16, 48) sample_deque {(16, 48), (64, 32)} [11, 22]"
proof -
  let ?b = "m_bytes sample_deque"
  have w: "word_at ?b (8 * i) = [0, 0, 48, 0, 64, 4, 3, 2, 22, 0, 0, 11] ! i" if "i < 12" for i
    using word_at_words [of i "[0, 0, 48, 0, 64, 4, 3, 2, 22, 0, 0, 11]" "[]"] that unfolding sample_deque_def by simp
  have "length ?b = 96" by (simp add: sample_deque_def)
  then have g: "v_good mem_view sample_deque"
    by (simp add: mem_view_simps mem_good_def range_end_def apart_def) (auto simp: sample_deque_def)
  have live: "m_live sample_deque = [(16, 48), (64, 32)]" by (simp add: sample_deque_def)
  have "ring_holds ?b 64 4 3 [11, 22]"
    using w [of 8] w [of 11] by (simp add: ring_holds_def less_Suc_eq all_conj_distrib)
  then have "deque_at mem_view 16 (16, 48) 64 4 3 sample_deque [11, 22]"
    using g w [of 4] w [of 5] w [of 6] w [of 7] live
    by (simp add: deque_at_def mem_view_simps inside_def range_end_def)
  then show ?thesis unfolding deque_inv_def
    by (intro exI [of _ 64] exI [of _ 4] exI [of _ 3]) (simp add: deque_blocks_def)
qed

section \<open>Claims\<close>

text \<open>C34: A sequence of pushes, pops, peeks and length queries at both ends of a deque, over a store that
  may fail at any call, simulates the same sequence on a list: it ends (a push within two rounds of its
  retry loop), each answer is the list's or is an error that left the list as it was, and only blocks of
  the deque change. On a store that does not fail by itself only a push can fail.\<close>

theorem deque_run_refines:
  assumes "stack_laws io vw" and "deque_inv vw handle H s R xs"
  shows "\<exists>rs s' R' ys. run_ops (deque_exec io handle) ops s = Some (rs, s') \<and> deque_inv vw handle H s' R' ys
    \<and> owns_frame vw s R s' R' \<and> trace (answers ends_answer ends_after) xs ops rs ys
    \<and> (v_calm vw s \<longrightarrow> list_all2 (\<lambda>oper r. no_alloc oper \<longrightarrow> \<not> isl r) ops rs)"
  using stack_laws.deque_run [OF assms] by blast

theorem deque_run_refines_witness:
  "\<exists>rs s' R' ys. run_ops (deque_exec mem_io 16) [PushFront 7, PopBack, Len] sample_deque = Some (rs, s')
    \<and> deque_inv mem_view 16 (16, 48) s' R' ys \<and> owns_frame mem_view sample_deque {(16, 48), (64, 32)} s' R'
    \<and> trace (answers ends_answer ends_after) [11, 22] [PushFront 7, PopBack, Len] rs ys
    \<and> (v_calm mem_view sample_deque
        \<longrightarrow> list_all2 (\<lambda>oper r. no_alloc oper \<longrightarrow> \<not> isl r) [PushFront 7, PopBack, Len] rs)"
  by (rule deque_run_refines [OF mem.stack_laws_axioms sample_deque_inv])

text \<open>C40: Iterating over a deque changes nothing and ends: it yields the elements from front to back, all
  of them or some followed by one error, and all of them when the store does not fail by itself.\<close>

theorem deque_iteration_complete:
  assumes "stack_laws io vw" and "deque_inv vw handle H s R xs" and "deque_iter_new io handle s = (Inr it, s1)"
  shows "\<exists>rs s'. drain (length xs + 2) (deque_iter_next io) it s1 = Some (rs, s') \<and> unchanged vw s s' \<and> yields xs rs
    \<and> (v_calm vw s \<longrightarrow> rs = map Inr xs)"
  by (rule stack_laws.deque_iterates [OF assms])

theorem deque_iteration_complete_witness:
  "\<exists>it s1 rs s'. deque_iter_new mem_io 16 sample_deque = (Inr it, s1)
    \<and> drain (length [11, 22 :: u64] + 2) (deque_iter_next mem_io) it s1 = Some (rs, s') \<and> rs = [Inr 11, Inr 22]"
proof -
  obtain it s1 where e: "deque_iter_new mem_io 16 sample_deque = (Inr it, s1)"
    using stack_laws.deque_iter_starts [OF mem.stack_laws_axioms sample_deque_inv]
    by (auto simp: mem_view_simps sample_deque_def)
  have "v_calm mem_view sample_deque" by (simp add: mem_view_simps sample_deque_def)
  with deque_iteration_complete [OF mem.stack_laws_axioms sample_deque_inv e] e show ?thesis by auto
qed

end
