(* ===== verification/LinkedList.thy ===== *)
theory LinkedList
  imports Probing Descent
begin

text \<open>
  \<^verbatim>\<open>BStackLinkedList\<close> of \<^verbatim>\<open>src/stdlib/list.rs\<close>: a doubly linked
  chain of node blocks, each with the offset of an element's block; the handle has the first node, the
  last node and the length. An update is one \<open>atomic_update\<close>; a push allocates its node before and a
  pop frees its node after. The closure of a pop reports the node and the element it removed, or zeros.
\<close>

section \<open>Layout\<close>

definition LIST_HEAD_OFF :: u64 where "LIST_HEAD_OFF = HEADER_SIZE"
definition LIST_TAIL_OFF :: u64 where "LIST_TAIL_OFF = HEADER_SIZE + 8"
definition LIST_LEN_OFF :: u64 where "LIST_LEN_OFF = HEADER_SIZE + 16"
definition NPREV_OFF :: u64 where "NPREV_OFF = HEADER_SIZE"
definition NNEXT_OFF :: u64 where "NNEXT_OFF = HEADER_SIZE + 8"
definition NVAL_OFF :: u64 where "NVAL_OFF = HEADER_SIZE + 16"
definition LIST_SIZE :: u64 where "LIST_SIZE = 40"
definition NODE_SIZE :: u64 where "NODE_SIZE = 40"

lemmas list_offsets = LIST_HEAD_OFF_def LIST_TAIL_OFF_def LIST_LEN_OFF_def NPREV_OFF_def NNEXT_OFF_def NVAL_OFF_def HEADER_SIZE_def

definition node_tag :: "eightcc \<Rightarrow> eightcc" where
  "node_tag vtag = eightcc_mix (EightCC [76, 78, 100, 0x80, 0x81, 0x82, 0x83, 0x84]) vtag"

definition list_eightcc :: "eightcc \<Rightarrow> eightcc" where
  "list_eightcc vtag = eightcc_mix (EightCC [76, 105, 115, 116, 0x80, 0x81, 0x82, 0x83]) vtag"

definition node_image :: "eightcc \<Rightarrow> u64 \<Rightarrow> u64 \<Rightarrow> u64 \<Rightarrow> u8 list" where
  "node_image vtag prev next_node val =
     to_le64 NODE_SIZE @ cc_bytes (node_tag vtag) @ to_le64 prev @ to_le64 next_node @ to_le64 val"

definition list_image :: "eightcc \<Rightarrow> u64 \<Rightarrow> u64 \<Rightarrow> u64 \<Rightarrow> u8 list" where
  "list_image vtag head tail len =
     to_le64 LIST_SIZE @ cc_bytes (list_eightcc vtag) @ to_le64 head @ to_le64 tail @ to_le64 len"

definition chain_too_long :: io_error where
  "chain_too_long = IoError InvalidData ''linked list chain longer than its stored len (a next-pointer cycle?)''"

definition list_new :: "'s stack_ops \<Rightarrow> eightcc \<Rightarrow> 's \<Rightarrow> range res \<times> 's" where
  "list_new io vtag s = alloc_image io (list_image vtag 0 0 0) s"

definition list_len :: "'s stack_ops \<Rightarrow> u64 \<Rightarrow> 's \<Rightarrow> u64 res \<times> 's" where
  "list_len io list s = read_u64 io (list + LIST_LEN_OFF) s"

definition list_is_empty :: "'s stack_ops \<Rightarrow> u64 \<Rightarrow> 's \<Rightarrow> bool res \<times> 's" where
  "list_is_empty io list s = try_s (list_len io list s) (\<lambda>n s1. (Inr (n = 0), s1))"

section \<open>Pushing\<close>

definition list_push_back_plan ::
    "eightcc \<Rightarrow> u64 \<Rightarrow> u64 \<Rightarrow> u64 \<Rightarrow> u64 list \<Rightarrow> u64 list \<Rightarrow> (writes \<times> unit) res" where
  "list_push_back_plan vtag list node val v1 v2 =
     (let old_tail = v1 ! 0; len = v1 ! 1 in
      try_r (if old_tail \<noteq> 0 then checked_off old_tail NNEXT_OFF else Inr (list + LIST_HEAD_OFF)) (\<lambda>link.
        Inr ([(node, node_image vtag old_tail 0 val), w8 link node, w8 (list + LIST_TAIL_OFF) node,
              w8 (list + LIST_LEN_OFF) (len + 1)], ())))"

definition list_push_front_plan ::
    "eightcc \<Rightarrow> u64 \<Rightarrow> u64 \<Rightarrow> u64 \<Rightarrow> u64 list \<Rightarrow> u64 list \<Rightarrow> (writes \<times> unit) res" where
  "list_push_front_plan vtag list node val v1 v2 =
     (let old_head = v1 ! 0; len = v1 ! 1 in
      try_r (if old_head \<noteq> 0 then checked_off old_head NPREV_OFF else Inr (list + LIST_TAIL_OFF)) (\<lambda>link.
        Inr ([(node, node_image vtag 0 old_head val), w8 link node, w8 (list + LIST_HEAD_OFF) node,
              w8 (list + LIST_LEN_OFF) (len + 1)], ())))"

text \<open>The shared shape of both pushes: allocate, update, and give the node back if the update failed.\<close>

definition list_link ::
    "'s stack_ops \<Rightarrow> u64 list \<Rightarrow> (u64 \<Rightarrow> u64 list \<Rightarrow> u64 list \<Rightarrow> (writes \<times> unit) res) \<Rightarrow> 's \<Rightarrow> unit res \<times> 's" where
  "list_link io offs plan s =
     try_s (op_alloc io NODE_SIZE s) (\<lambda>q s1.
       case atomic_update io offs (\<lambda>_. Inr []) (plan (fst q)) s1 of
         (Inl e, s2) \<Rightarrow> (Inl e, snd (op_dealloc io (fst q, NODE_SIZE) s2))
       | (Inr u, s2) \<Rightarrow> (Inr u, s2))"

definition list_push_back ::
    "'s stack_ops \<Rightarrow> eightcc \<Rightarrow> u64 \<Rightarrow> u64 \<Rightarrow> 's \<Rightarrow> ((io_error \<times> u64) + unit) \<times> 's" where
  "list_push_back io vtag list val s =
     (let (outcome, s') = list_link io [list + LIST_TAIL_OFF, list + LIST_LEN_OFF]
        (\<lambda>node. list_push_back_plan vtag list node val) s in (finish_handback val outcome, s'))"

definition list_push_front ::
    "'s stack_ops \<Rightarrow> eightcc \<Rightarrow> u64 \<Rightarrow> u64 \<Rightarrow> 's \<Rightarrow> ((io_error \<times> u64) + unit) \<times> 's" where
  "list_push_front io vtag list val s =
     (let (outcome, s') = list_link io [list + LIST_HEAD_OFF, list + LIST_LEN_OFF]
        (\<lambda>node. list_push_front_plan vtag list node val) s in (finish_handback val outcome, s'))"

section \<open>Popping\<close>

definition list_pop_back_reads :: "u64 list \<Rightarrow> u64 list res" where
  "list_pop_back_reads v1 =
     (let tail = v1 ! 0 in
      if tail = 0 then Inr []
      else try_r (checked_off tail NPREV_OFF) (\<lambda>p. try_r (checked_off tail NVAL_OFF) (\<lambda>v. Inr [p, v])))"

definition list_pop_back_plan :: "u64 \<Rightarrow> u64 list \<Rightarrow> u64 list \<Rightarrow> (writes \<times> u64 \<times> u64) res" where
  "list_pop_back_plan list v1 v2 =
     (let tail = v1 ! 0; len = v1 ! 1 in
      if tail \<noteq> 0 then
        let prev = v2 ! 0; val = v2 ! 1 in
        if prev \<noteq> 0 then
          try_r (checked_off prev NNEXT_OFF) (\<lambda>off.
            Inr ([w8 off 0, w8 (list + LIST_TAIL_OFF) prev, w8 (list + LIST_LEN_OFF) (len - 1)], tail, val))
        else
          Inr ([w8 (list + LIST_HEAD_OFF) 0, w8 (list + LIST_TAIL_OFF) 0, w8 (list + LIST_LEN_OFF) (len - 1)], tail, val)
      else Inr ([], 0, 0))"

definition list_pop_front_reads :: "u64 list \<Rightarrow> u64 list res" where
  "list_pop_front_reads v1 =
     (let head = v1 ! 0 in
      if head = 0 then Inr []
      else try_r (checked_off head NNEXT_OFF) (\<lambda>n. try_r (checked_off head NVAL_OFF) (\<lambda>v. Inr [n, v])))"

definition list_pop_front_plan :: "u64 \<Rightarrow> u64 list \<Rightarrow> u64 list \<Rightarrow> (writes \<times> u64 \<times> u64) res" where
  "list_pop_front_plan list v1 v2 =
     (let head = v1 ! 0; len = v1 ! 1 in
      if head \<noteq> 0 then
        let next_node = v2 ! 0; val = v2 ! 1 in
        if next_node \<noteq> 0 then
          try_r (checked_off next_node NPREV_OFF) (\<lambda>off.
            Inr ([w8 off 0, w8 (list + LIST_HEAD_OFF) next_node, w8 (list + LIST_LEN_OFF) (len - 1)], head, val))
        else
          Inr ([w8 (list + LIST_HEAD_OFF) 0, w8 (list + LIST_TAIL_OFF) 0, w8 (list + LIST_LEN_OFF) (len - 1)], head, val)
      else Inr ([], 0, 0))"

text \<open>What follows the unlinking in both pops: the node is freed, and only then the element returned.\<close>

definition list_unlinked :: "'s stack_ops \<Rightarrow> (u64 \<times> u64) res \<times> 's \<Rightarrow> u64 option res \<times> 's" where
  "list_unlinked io m =
     try_s m (\<lambda>(node, val) s1.
       if node = 0 then (Inr None, s1)
       else try_s (op_dealloc io (node, NODE_SIZE) s1) (\<lambda>_ s2. (Inr (Some val), s2)))"

definition list_pop_back :: "'s stack_ops \<Rightarrow> u64 \<Rightarrow> 's \<Rightarrow> u64 option res \<times> 's" where
  "list_pop_back io list s =
     list_unlinked io (atomic_update io [list + LIST_TAIL_OFF, list + LIST_LEN_OFF] list_pop_back_reads
       (list_pop_back_plan list) s)"

definition list_pop_front :: "'s stack_ops \<Rightarrow> u64 \<Rightarrow> 's \<Rightarrow> u64 option res \<times> 's" where
  "list_pop_front io list s =
     list_unlinked io (atomic_update io [list + LIST_HEAD_OFF, list + LIST_LEN_OFF] list_pop_front_reads
       (list_pop_front_plan list) s)"

section \<open>Reading\<close>

definition list_front :: "'s stack_ops \<Rightarrow> u64 \<Rightarrow> 's \<Rightarrow> u64 option res \<times> 's" where
  "list_front io list s =
     try_s (read_u64 io (list + LIST_HEAD_OFF) s) (\<lambda>head s1.
       if head = 0 then (Inr None, s1)
       else try_in (checked_off head NVAL_OFF) s1 (\<lambda>off. try_s (read_u64 io off s1) (\<lambda>v s2. (Inr (Some v), s2))))"

definition list_back :: "'s stack_ops \<Rightarrow> u64 \<Rightarrow> 's \<Rightarrow> u64 option res \<times> 's" where
  "list_back io list s =
     try_s (read_u64 io (list + LIST_TAIL_OFF) s) (\<lambda>tail s1.
       if tail = 0 then (Inr None, s1)
       else try_in (checked_off tail NVAL_OFF) s1 (\<lambda>off. try_s (read_u64 io off s1) (\<lambda>v s2. (Inr (Some v), s2))))"

text \<open>The first argument is the count of nodes the stored length still allows.\<close>

fun list_walk :: "nat \<Rightarrow> 's stack_ops \<Rightarrow> u64 \<Rightarrow> 's \<Rightarrow> u64 list res \<times> 's" where
  "list_walk 0 io cur s = (if cur = 0 then Inr [] else Inl chain_too_long, s)"
| "list_walk (Suc n) io cur s =
     (if cur = 0 then (Inr [], s)
      else try_in (checked_off cur NNEXT_OFF) s (\<lambda>off.
        try_s (read_fields io 2 off s) (\<lambda>fs s1.
        try_s (list_walk n io (fs ! 0) s1) (\<lambda>vs s2. (Inr (fs ! 1 # vs), s2)))))"

definition list_to_vec :: "'s stack_ops \<Rightarrow> u64 \<Rightarrow> 's \<Rightarrow> u64 list res \<times> 's" where
  "list_to_vec io list s =
     try_s (read_u64 io (list + LIST_HEAD_OFF) s) (\<lambda>head s1.
     try_s (list_len io list s1) (\<lambda>len s2. list_walk (unat len) io head s2))"

section \<open>Iteration\<close>

record list_iter =
  li_block :: u64
  li_len0 :: u64
  li_cur :: u64
  li_remaining :: u64

definition list_iter_new :: "'s stack_ops \<Rightarrow> u64 \<Rightarrow> 's \<Rightarrow> list_iter res \<times> 's" where
  "list_iter_new io list s =
     try_s (read_u64 io (list + LIST_HEAD_OFF) s) (\<lambda>head s1.
     try_s (list_len io list s1) (\<lambda>len s2.
       (Inr \<lparr>li_block = list, li_len0 = len, li_cur = head, li_remaining = len\<rparr>, s2)))"

definition list_iter_mutated :: io_error where
  "list_iter_mutated = IoError InvalidData ''BStackLinkedList was mutated during iteration (its length changed); the iterator is invalidated''"

definition list_iter_next :: "'s stack_ops \<Rightarrow> list_iter \<Rightarrow> 's \<Rightarrow> u64 res option \<times> list_iter \<times> 's" where
  "list_iter_next io it s =
     (let stop = it\<lparr>li_cur := 0\<rparr> in
      if li_cur it = 0 then (None, it, s)
      else
        (case read_u64 io (li_block it + LIST_LEN_OFF) s of
           (Inl e, s1) \<Rightarrow> (Some (Inl e), stop, s1)
         | (Inr len, s1) \<Rightarrow>
             if len \<noteq> li_len0 it then (Some (Inl list_iter_mutated), stop, s1)
             else if li_remaining it = 0 then (Some (Inl chain_too_long), stop, s1)
             else
               let it1 = it\<lparr>li_remaining := li_remaining it - 1\<rparr> in
               (case checked_off (li_cur it) NNEXT_OFF of
                  Inl e \<Rightarrow> (Some (Inl e), it1\<lparr>li_cur := 0\<rparr>, s1)
                | Inr off \<Rightarrow>
                    (case read_fields io 2 off s1 of
                       (Inl e, s2) \<Rightarrow> (Some (Inl e), it1\<lparr>li_cur := 0\<rparr>, s2)
                     | (Inr fs, s2) \<Rightarrow> (Some (Inr (fs ! 1)), it1\<lparr>li_cur := fs ! 0\<rparr>, s2)))))"

section \<open>Teardown and clone\<close>

fun list_drop_loop ::
    "nat \<Rightarrow> 's allocator \<Rightarrow> (u64 \<Rightarrow> 's thread \<Rightarrow> unit res \<times> 's thread) \<Rightarrow> u64 \<Rightarrow> 's thread \<Rightarrow> unit res \<times> 's thread" where
  "list_drop_loop 0 al drop_value cur t = (if cur = 0 then Inr () else Inl chain_too_long, t)"
| "list_drop_loop (Suc n) al drop_value cur t =
     (if cur = 0 then (Inr (), t)
      else try_in (checked_off cur NNEXT_OFF) t (\<lambda>noff.
        try_s (on_store (read_u64 (al_io al) noff) t) (\<lambda>next_node t1.
        try_in (checked_off cur NVAL_OFF) t1 (\<lambda>voff.
        try_s (on_store (read_u64 (al_io al) voff) t1) (\<lambda>val t2.
        try_s (if val \<noteq> 0 then drop_value val t2 else (Inr (), t2)) (\<lambda>_ t3.
        try_s (dealloc_range al (cur, NODE_SIZE) t3) (\<lambda>_ t4.
          list_drop_loop n al drop_value next_node t4)))))))"

definition list_drop_children ::
    "'s allocator \<Rightarrow> (u64 \<Rightarrow> 's thread \<Rightarrow> unit res \<times> 's thread) \<Rightarrow> 's dropper" where
  "list_drop_children al drop_value q t =
     try_s (on_store (read_u64 (al_io al) (fst q + LIST_HEAD_OFF)) t) (\<lambda>head t1.
     try_s (on_store (read_u64 (al_io al) (fst q + LIST_LEN_OFF)) t1) (\<lambda>len t2.
       list_drop_loop (unat len) al drop_value head t2))"

fun list_gather :: "nat \<Rightarrow> 's stack_ops \<Rightarrow> u64 \<Rightarrow> 's \<Rightarrow> u64 list res \<times> 's" where
  "list_gather 0 io cur s = (if cur = 0 then Inr [] else Inl chain_too_long, s)"
| "list_gather (Suc n) io cur s =
     (if cur = 0 then (Inr [], s)
      else try_in (checked_off cur NVAL_OFF) s (\<lambda>voff.
        try_s (read_u64 io voff s) (\<lambda>val s1.
        try_in (checked_off cur NNEXT_OFF) s1 (\<lambda>noff.
        try_s (read_u64 io noff s1) (\<lambda>next_node s2.
        try_s (list_gather n io next_node s2) (\<lambda>vals s3. (Inr (val # vals), s3)))))))"

fun clone_each ::
    "(u64 \<Rightarrow> clone_plan \<Rightarrow> 's \<Rightarrow> (range res \<times> clone_plan) \<times> 's) \<Rightarrow> u64 list \<Rightarrow> clone_plan \<Rightarrow> 's
      \<Rightarrow> (u64 list res \<times> clone_plan) \<times> 's" where
  "clone_each clone_value [] p s = ((Inr [], p), s)"
| "clone_each clone_value (v # vs) p s =
     clone_bind (if v \<noteq> 0 then clone_bind (clone_value v p s) (\<lambda>dst p1 s1. ((Inr (fst dst), p1), s1))
                 else ((Inr 0, p), s)) (\<lambda>d p2 s2.
     clone_bind (clone_each clone_value vs p2 s2) (\<lambda>ds p3 s3. ((Inr (d # ds), p3), s3)))"

fun reserve_nodes ::
    "nat \<Rightarrow> 's stack_ops \<Rightarrow> unit res \<Rightarrow> clone_plan \<Rightarrow> 's \<Rightarrow> (u64 list res \<times> clone_plan) \<times> 's" where
  "reserve_nodes 0 io lock p s = ((Inr [], p), s)"
| "reserve_nodes (Suc n) io lock p s =
     clone_bind (plan_alloc_raw io lock NODE_SIZE p s) (\<lambda>q p1 s1.
     clone_bind (reserve_nodes n io lock p1 s1) (\<lambda>qs p2 s2. ((Inr (fst q # qs), p2), s2)))"

definition stage_nodes :: "eightcc \<Rightarrow> u64 list \<Rightarrow> u64 list \<Rightarrow> clone_plan \<Rightarrow> clone_plan" where
  "stage_nodes vtag nodes vals p =
     fold (\<lambda>i p1.
       let prev = (if i > 0 then nodes ! (i - 1) else 0);
           next_node = (if i + 1 < length vals then nodes ! (i + 1) else 0) in
       plan_write (nodes ! i) (node_image vtag prev next_node (vals ! i)) p1) [0..<length vals] p"

definition list_clone_children ::
    "'s stack_ops \<Rightarrow> unit res \<Rightarrow> eightcc \<Rightarrow> (u64 \<Rightarrow> clone_plan \<Rightarrow> 's \<Rightarrow> (range res \<times> clone_plan) \<times> 's)
      \<Rightarrow> u64 \<Rightarrow> clone_plan \<Rightarrow> 's \<Rightarrow> (u8 list res \<times> clone_plan) \<times> 's" where
  "list_clone_children io lock vtag clone_value src p s =
     clone_bind (clone_store (read_u64 io (src + LIST_HEAD_OFF)) p s) (\<lambda>head p1 s1.
     clone_bind (clone_store (read_u64 io (src + LIST_LEN_OFF)) p1 s1) (\<lambda>len p2 s2.
     clone_bind (clone_store (list_gather (unat len) io head) p2 s2) (\<lambda>vals p3 s3.
     clone_bind (clone_each clone_value vals p3 s3) (\<lambda>val_dsts p4 s4.
     clone_bind (reserve_nodes (length vals) io lock p4 s4) (\<lambda>node_dsts p5 s5.
       ((Inr (list_image vtag (case node_dsts of [] \<Rightarrow> 0 | n # _ \<Rightarrow> n)
            (if node_dsts = [] then 0 else last node_dsts) (of_nat (length vals))),
         stage_nodes vtag node_dsts val_dsts p5), s5))))))"

end
