(* ===== verification/LinkedListProps.thy ===== *)
theory LinkedListProps
  imports LinkedList Containers
begin

text \<open>
  The invariant of a linked list, stated along one of its two directions: the operations at the two
  ends mirror each other, so each is proved once along the direction it works in.
\<close>

section \<open>Words of equally sized blocks\<close>

text \<open>Blocks of \<open>z\<close> bytes at the addresses \<open>A\<close>, apart from one another, within \<open>n\<close> bytes.\<close>

definition spaced :: "nat \<Rightarrow> nat set \<Rightarrow> nat \<Rightarrow> bool" where
  "spaced z A n \<longleftrightarrow> (\<forall>a \<in> A. a + z \<le> n) \<and> (\<forall>a \<in> A. \<forall>a' \<in> A. a \<noteq> a' \<longrightarrow> a + z \<le> a' \<or> a' + z \<le> a)"

lemma spaced_bound: "spaced z A n \<Longrightarrow> a \<in> A \<Longrightarrow> k + 8 \<le> z \<Longrightarrow> a + k + 8 \<le> n"
  by (fastforce simp: spaced_def)

lemma word_at_poke_spaced:
  assumes "spaced z A (length b)" and "a \<in> A" and "a' \<in> A" and "k + 8 \<le> z" and "k' + 8 \<le> z"
    and "k = k' \<or> k + 8 \<le> k' \<or> k' + 8 \<le> k"
  shows "word_at (poke (a + k) v b) (a' + k') = (if a = a' \<and> k = k' then v else word_at b (a' + k'))"
proof -
  have l: "a + k + 8 \<le> length b" "a' + k' + 8 \<le> length b" using assms(1-5) by (auto intro: spaced_bound)
  show ?thesis
  proof (cases "a = a' \<and> k = k'")
    case False
    have "a' + k' + 8 \<le> a + k \<or> a + k + 8 \<le> a' + k'"
    proof (cases "a = a'")
      case True
      with \<open>\<not> (a = a' \<and> k = k')\<close> assms(6) show ?thesis by auto
    next
      case False
      then have "a + z \<le> a' \<or> a' + z \<le> a" using assms(1-3) by (simp add: spaced_def)
      with assms(4,5) show ?thesis by linarith
    qed
    with l \<open>\<not> (a = a' \<and> k = k')\<close> show ?thesis by (auto simp: word_at_poke_other)
  qed (use l in simp)
qed

lemma word_at_overwrite_spaced:
  assumes "spaced z A (length b)" and "a \<in> A" and "a' \<in> A" and "length d = z" and "k + 8 \<le> z"
  shows "word_at (overwrite a d b) (a' + k) = (if a = a' then word_at d k else word_at b (a' + k))"
proof (cases "a = a'")
  case True
  have "a + z \<le> length b" using assms(1,2) by (simp add: spaced_def)
  then have "slice a z (overwrite a d b) = d" using assms(4) slice_overwrite_same by blast
  then have "word_at d k = word_at (slice a z (overwrite a d b)) k" by simp
  also have "\<dots> = word_at (overwrite a d b) (a + k)" by (rule word_at_slice [OF assms(5)])
  finally show ?thesis using True by simp
next
  case False
  then have "a' + z \<le> a \<or> a + z \<le> a'" "a + z \<le> length b" "a' + z \<le> length b" using assms(1-3) by (auto simp: spaced_def)
  with False assms(4,5) show ?thesis
    by (auto simp: word_at_def slice_overwrite_disjoint)
qed

lemma poke_commute:
  assumes "a + 8 \<le> length b" and "c + 8 \<le> length b" and "a + 8 \<le> c \<or> c + 8 \<le> a"
  shows "poke c w (poke a v b) = poke a v (poke c w b)"
  using assms by (intro nth_equalityI) (auto simp: poke_def nth_overwrite)

section \<open>Chains\<close>

text \<open>Each node's word \<open>k\<close> holds the next node, the last one's \<open>z\<close>.\<close>

fun chain :: "u8 list \<Rightarrow> nat \<Rightarrow> u64 \<Rightarrow> u64 list \<Rightarrow> bool" where
  "chain b k z [] = True"
| "chain b k z (n # ns) = (word_at b (unat n + k) = (case ns of [] \<Rightarrow> z | m # _ \<Rightarrow> m) \<and> chain b k z ns)"

definition end_of :: "u64 list \<Rightarrow> u64" where
  "end_of ns = (if ns = [] then 0 else last ns)"

lemma end_of_simps [simp]: "end_of [] = 0" "end_of [n] = n" "end_of (ns @ [n]) = n"
  by (simp_all add: end_of_def)

lemma end_of_rev: "end_of (rev ns) = (case ns of [] \<Rightarrow> 0 | n # _ \<Rightarrow> n)"
  by (cases ns) (simp_all add: end_of_def)

lemma chain_append: "chain b k z (ns @ ms) \<longleftrightarrow> chain b k (case ms of [] \<Rightarrow> z | m # _ \<Rightarrow> m) ns \<and> chain b k z ms"
  by (induction ns rule: induct_list012) (auto split: list.splits)

lemma chain_cong:
  "\<forall>n \<in> set ns. word_at b' (unat n + k) = word_at b (unat n + k) \<Longrightarrow> chain b' k z ns = chain b k z ns"
  by (induction ns) auto

lemma chain_nth: "chain b k z ns \<Longrightarrow> i < length ns \<Longrightarrow>
    word_at b (unat (ns ! i) + k) = (if Suc i < length ns then ns ! Suc i else z)"
proof (induction ns arbitrary: i)
  case (Cons n ns)
  then show ?case by (cases i; cases ns) auto
qed simp

section \<open>The invariant\<close>

definition node_blocks :: "u64 list \<Rightarrow> range set" where
  "node_blocks ns = (\<lambda>n. (n, NODE_SIZE)) ` set ns"

definition list_blocks :: "range \<Rightarrow> u64 list \<Rightarrow> range set" where
  "list_blocks H ns = insert H (node_blocks ns)"

text \<open>In a direction the handle's word \<open>E\<close> holds the last node and \<open>F\<close> the first, and a node's word \<open>kf\<close>
  the next and \<open>kb\<close> the previous one.\<close>

definition list_dir ::
    "nat \<Rightarrow> nat \<Rightarrow> nat \<Rightarrow> nat \<Rightarrow> u8 list \<Rightarrow> nat \<Rightarrow> u64 list \<Rightarrow> u64 list \<Rightarrow> bool" where
  "list_dir E F kf kb b h ns xs \<longleftrightarrow>
     word_at b (h + E) = end_of ns \<and> word_at b (h + F) = end_of (rev ns)
     \<and> chain b kf 0 ns \<and> chain b kb 0 (rev ns) \<and> xs = map (\<lambda>n. word_at b (unat n + 32)) ns
     \<and> unat (word_at b (h + 32)) = length ns"

definition list_along ::
    "'s stack_view \<Rightarrow> u64 \<Rightarrow> range \<Rightarrow> nat \<Rightarrow> nat \<Rightarrow> nat \<Rightarrow> nat \<Rightarrow> 's \<Rightarrow> u64 list \<Rightarrow> u64 list \<Rightarrow> bool" where
  "list_along vw handle H E F kf kb s ns xs \<longleftrightarrow>
     v_good vw s \<and> H \<in> v_live vw s \<and> inside (unat handle) 40 H
     \<and> node_blocks ns \<subseteq> v_live vw s \<and> H \<notin> node_blocks ns \<and> distinct ns
     \<and> list_dir E F kf kb (v_bytes vw s) (unat handle) ns xs"

text \<open>Front to back.\<close>

abbreviation list_at :: "'s stack_view \<Rightarrow> u64 \<Rightarrow> range \<Rightarrow> 's \<Rightarrow> u64 list \<Rightarrow> u64 list \<Rightarrow> bool" where
  "list_at vw handle H \<equiv> list_along vw handle H 24 16 24 16"

lemma list_dir_rev: "list_dir E F kf kb b h ns xs \<longleftrightarrow> list_dir F E kb kf b h (rev ns) (rev xs)"
proof -
  have "(rev xs = map f (rev ns)) = (xs = map f ns)" for f :: "u64 \<Rightarrow> u64"
    by (metis rev_map rev_rev_ident)
  then show ?thesis by (auto simp: list_dir_def)
qed

lemma node_blocks_rev [simp]: "node_blocks (rev ns) = node_blocks ns"
  by (simp add: node_blocks_def)

lemma list_blocks_rev [simp]: "list_blocks H (rev ns) = list_blocks H ns"
  by (simp add: list_blocks_def)

lemma list_along_rev: "list_along vw handle H E F kf kb s ns xs \<longleftrightarrow> list_along vw handle H F E kb kf s (rev ns) (rev xs)"
  by (simp add: list_along_def list_dir_rev [of E F kf kb])

definition list_inv :: "'s stack_view \<Rightarrow> u64 \<Rightarrow> range \<Rightarrow> 's \<Rightarrow> range set \<Rightarrow> u64 list \<Rightarrow> bool" where
  "list_inv vw handle H s R xs \<longleftrightarrow> (\<exists>ns. R = list_blocks H ns \<and> list_at vw handle H s ns xs)"

section \<open>The chain under a batch\<close>

text \<open>The batch of a push at the end of a direction, on the bytes.\<close>

definition linked_bytes :: "nat \<Rightarrow> nat \<Rightarrow> nat \<Rightarrow> nat \<Rightarrow> u64 list \<Rightarrow> u64 \<Rightarrow> u8 list \<Rightarrow> u64 \<Rightarrow> u8 list \<Rightarrow> u8 list" where
  "linked_bytes E F kf h ns n img len b =
     poke (h + 32) (len + 1) (poke (h + E) n
       (poke (if ns = [] then h + F else unat (last ns) + kf) n (overwrite (unat n) img b)))"

text \<open>The batch of a pop at the end of a direction: \<open>p\<close> is the node before the last.\<close>

definition unlinked_bytes :: "nat \<Rightarrow> nat \<Rightarrow> nat \<Rightarrow> nat \<Rightarrow> u64 list \<Rightarrow> u64 \<Rightarrow> u8 list \<Rightarrow> u8 list" where
  "unlinked_bytes E F kf h ms len b =
     poke (h + 32) (len - 1) (poke (h + E) (end_of ms) (poke (if ms = [] then h + F else unat (last ms) + kf) 0 b))"

definition dir_ok :: "nat \<Rightarrow> nat \<Rightarrow> nat \<Rightarrow> nat \<Rightarrow> bool" where
  "dir_ok E F kf kb \<longleftrightarrow> (E, F, kf, kb) = (24, 16, 24, 16) \<or> (E, F, kf, kb) = (16, 24, 16, 24)"

lemma list_dir_cong:
  assumes "dir_ok E F kf kb" and "\<And>a k. a \<in> insert h (unat ` set ns) \<Longrightarrow> k \<in> {16, 24, 32} \<Longrightarrow> word_at b' (a + k) = word_at b (a + k)"
  shows "list_dir E F kf kb b' h ns xs = list_dir E F kf kb b h ns xs"
proof -
  have ks: "E \<in> {16, 24, 32}" "F \<in> {16, 24, 32}" "kf \<in> {16, 24, 32}" "kb \<in> {16, 24, 32}"
    using assms(1) by (auto simp: dir_ok_def)
  have "chain b' kf 0 ns = chain b kf 0 ns" "chain b' kb 0 (rev ns) = chain b kb 0 (rev ns)"
    by (rule chain_cong; use assms(2) ks in auto)+
  moreover have m: "map (\<lambda>n. word_at b' (unat n + 32)) ns = map (\<lambda>n. word_at b (unat n + 32)) ns"
    using assms(2) by auto
  moreover have "word_at b' (h + E) = word_at b (h + E)" "word_at b' (h + F) = word_at b (h + F)"
    "word_at b' (h + 32) = word_at b (h + 32)" using assms(2) [of h] ks by simp_all
  ultimately show ?thesis unfolding list_dir_def m by simp
qed

lemma list_dir_link:
  assumes d: "dir_ok E F kf kb" and sp: "spaced 40 (insert h (insert (unat n) (unat ` set ns))) (length b)"
    and h: "h \<notin> insert (unat n) (unat ` set ns)" and n: "n \<notin> set ns" and di: "distinct ns"
    and ld: "list_dir E F kf kb b h ns xs" and im: "length img = 40" "word_at img kf = 0" "word_at img kb = end_of ns"
      "word_at img 32 = val" and len: "unat (len + 1) = Suc (length ns)"
  shows "list_dir E F kf kb (linked_bytes E F kf h ns n img len b) h (ns @ [n]) (xs @ [val])"
proof -
  let ?A = "insert h (insert (unat n) (unat ` set ns))"
  let ?b1 = "overwrite (unat n) img b"
  define l where "l = (if ns = [] then (h, F) else (unat (last ns), kf))"
  let ?b2 = "poke (fst l + snd l) n ?b1"
  let ?b3 = "poke (h + E) n ?b2"
  let ?b = "poke (h + 32) (len + 1) ?b3"
  have ks: "E + 8 \<le> 40" "F + 8 \<le> 40" "kf + 8 \<le> 40" "kb + 8 \<le> 40" "E \<noteq> F" "kf \<noteq> kb"
    "E \<in> {16, 24, 32}" "F \<in> {16, 24, 32}" "kf \<in> {16, 24, 32}" "kb \<in> {16, 24, 32}" "E \<noteq> 32" "F \<noteq> 32" "kf \<noteq> 32" "kb \<noteq> 32"
    using d by (auto simp: dir_ok_def)
  have l: "fst l \<in> ?A" "snd l \<in> {16, 24, 32}" using ks(8,9) by (auto simp: l_def)
  have len1: "length ?b1 = length b" using sp im(1) by (simp add: spaced_def)
  have bd: "a \<in> ?A \<Longrightarrow> k \<in> {16, 24, 32} \<Longrightarrow> a + k + 8 \<le> length b" for a k
    using spaced_bound [OF sp, of a k] by auto
  have len2: "length ?b2 = length b" using bd [OF l] len1 by simp
  have len3: "length ?b3 = length b" using bd [of h E] ks(7) len2 by simp
  have w: "word_at ?b (a + k) = (if h = a \<and> 32 = k then len + 1 else if h = a \<and> E = k then n
      else if fst l = a \<and> snd l = k then n else if unat n = a then word_at img k else word_at b (a + k))"
    if "a \<in> ?A" "k \<in> {16, 24, 32}" for a k
  proof -
    have k: "k + 8 \<le> 40" using that(2) by auto
    have gap: "j = k \<or> j + 8 \<le> k \<or> k + 8 \<le> j" if "j \<in> {16, 24, 32}" for j
      using that \<open>k \<in> {16, 24, 32}\<close> by auto
    have "word_at ?b (a + k) = (if h = a \<and> 32 = k then len + 1 else word_at ?b3 (a + k))"
      by (rule word_at_poke_spaced [of 40 ?A]) (use sp len3 that k gap [of 32] in simp_all)
    also have "word_at ?b3 (a + k) = (if h = a \<and> E = k then n else word_at ?b2 (a + k))"
      by (rule word_at_poke_spaced [of 40 ?A]) (use sp len2 that k ks(1) gap [OF ks(7)] in simp_all)
    also have "word_at ?b2 (a + k) = (if fst l = a \<and> snd l = k then n else word_at ?b1 (a + k))"
      by (rule word_at_poke_spaced [of 40 ?A]) (use sp len1 that k l gap [OF l(2)] in auto)
    also have "word_at ?b1 (a + k) = (if unat n = a then word_at img k else word_at b (a + k))"
      by (rule word_at_overwrite_spaced [of 40 ?A]) (use sp that k im(1) in simp_all)
    finally show ?thesis .
  qed
  have lb: "linked_bytes E F kf h ns n img len b = ?b" by (simp add: linked_bytes_def l_def)
  have inj: "m \<in> set ns \<Longrightarrow> unat m \<noteq> unat n \<and> unat m \<noteq> h" for m using n h by (metis image_eqI insert_iff word_unat_eq_iff)
  have keep: "word_at ?b (unat m + k) = word_at b (unat m + k)" if "m \<in> set ns" "k \<in> {16, 24, 32}" "unat m \<noteq> fst l \<or> k \<noteq> snd l" for m k
    using w [of "unat m" k] inj [OF that(1)] that by auto
  have own: "word_at ?b (unat n + k) = word_at img k" if "k \<in> {16, 24, 32}" for k
  proof -
    have "unat n \<noteq> h" using h by auto
    moreover have "unat n \<noteq> fst l" using h inj [of "last ns"] by (auto simp: l_def)
    ultimately show ?thesis using w [of "unat n" k] that by auto
  qed
  have nl: "ns \<noteq> [] \<Longrightarrow> fst l = unat (last ns) \<and> snd l = kf" "ns = [] \<Longrightarrow> fst l = h \<and> snd l = F" by (simp_all add: l_def)
  show ?thesis unfolding lb list_dir_def
  proof (intro conjI)
    show "word_at ?b (h + E) = end_of (ns @ [n])" using w [of h E] ks by simp
    show "unat (word_at ?b (h + 32)) = length (ns @ [n])" using w [of h 32] len by simp
    show "word_at ?b (h + F) = end_of (rev (ns @ [n]))"
    proof (cases "ns = []")
      case True
      then show ?thesis using w [of h F] ks nl(2) by simp
    next
      case False
      then have "fst l \<noteq> h" using nl(1) inj [of "last ns"] by simp
      then show ?thesis using w [of h F] ks ld False h by (simp add: list_dir_def end_of_def)
    qed
    have kb: "chain ?b kb 0 (rev ns) = chain b kb 0 (rev ns)"
      by (rule chain_cong) (use keep ks nl inj in \<open>auto simp: l_def\<close>)
    show "chain ?b kb 0 (rev (ns @ [n]))"
      using kb own [OF ks(10)] im(3) ld end_of_rev [of "rev ns"] by (simp add: list_dir_def)
    show "chain ?b kf 0 (ns @ [n])"
    proof (cases ns rule: rev_cases)
      case Nil
      then show ?thesis using own [OF ks(9)] im(2) by simp
    next
      case (snoc ms t)
      have "chain ?b kf t ms = chain b kf t ms"
      proof (rule chain_cong, intro ballI)
        fix m assume m: "m \<in> set ms"
        then have "unat m \<noteq> fst l" using di snoc nl(1) by (auto simp flip: word_unat_eq_iff)
        then show "word_at ?b (unat m + kf) = word_at b (unat m + kf)" using keep [of m kf] ks(9) m snoc by simp
      qed
      moreover have "word_at ?b (unat t + kf) = n" using w [of "unat t" kf] inj [of t] ks nl(1) snoc by auto
      ultimately show ?thesis using own [OF ks(9)] im(2) ld snoc by (simp add: list_dir_def chain_append)
    qed
    show "xs @ [val] = map (\<lambda>n. word_at ?b (unat n + 32)) (ns @ [n])"
      using own [of 32] im(4) keep [of _ 32] ks ld nl inj by (auto simp: list_dir_def l_def)
  qed
qed

lemma list_dir_unlink:
  assumes d: "dir_ok E F kf kb" and sp: "spaced 40 (insert h (unat ` set (ms @ [t]))) (length b)"
    and h: "h \<notin> unat ` set (ms @ [t])" and di: "distinct (ms @ [t])"
    and ld: "list_dir E F kf kb b h (ms @ [t]) xs" and len: "unat (len - 1) = length ms"
  shows "list_dir E F kf kb (unlinked_bytes E F kf h ms len b) h ms (butlast xs)"
    and "length (unlinked_bytes E F kf h ms len b) = length b"
proof -
  let ?A = "insert h (unat ` set (ms @ [t]))"
  define l where "l = (if ms = [] then (h, F) else (unat (last ms), kf))"
  let ?b1 = "poke (fst l + snd l) 0 b"
  let ?b2 = "poke (h + E) (end_of ms) ?b1"
  let ?b = "poke (h + 32) (len - 1) ?b2"
  have ks: "E \<in> {16, 24, 32}" "F \<in> {16, 24, 32}" "kf \<in> {16, 24, 32}" "kb \<in> {16, 24, 32}"
    "E \<noteq> F" "kf \<noteq> kb" "E \<noteq> 32" "F \<noteq> 32" "kf \<noteq> 32" "kb \<noteq> 32"
    using d by (auto simp: dir_ok_def)
  have l: "fst l \<in> ?A" "snd l \<in> {16, 24, 32}" using ks(2,3) by (auto simp: l_def)
  have bd: "a \<in> ?A \<Longrightarrow> k \<in> {16, 24, 32} \<Longrightarrow> a + k + 8 \<le> length b" for a k
    using spaced_bound [OF sp, of a k] by auto
  have len1: "length ?b1 = length b" using bd [OF l] by simp
  have len2: "length ?b2 = length b" using bd [of h E] ks(1) len1 by simp
  have ub: "unlinked_bytes E F kf h ms len b = ?b" by (simp add: unlinked_bytes_def l_def)
  then show "length (unlinked_bytes E F kf h ms len b) = length b" using bd [of h 32] len2 by simp
  have w: "word_at ?b (a + k) = (if h = a \<and> 32 = k then len - 1 else if h = a \<and> E = k then end_of ms
      else if fst l = a \<and> snd l = k then 0 else word_at b (a + k))"
    if "a \<in> ?A" "k \<in> {16, 24, 32}" for a k
  proof -
    have k: "k + 8 \<le> 40" using that(2) by auto
    have gap: "j = k \<or> j + 8 \<le> k \<or> k + 8 \<le> j" if "j \<in> {16, 24, 32}" for j
      using that \<open>k \<in> {16, 24, 32}\<close> by auto
    have "word_at ?b (a + k) = (if h = a \<and> 32 = k then len - 1 else word_at ?b2 (a + k))"
      by (rule word_at_poke_spaced [of 40 ?A]) (use sp len2 that k gap [of 32] in simp_all)
    also have "word_at ?b2 (a + k) = (if h = a \<and> E = k then end_of ms else word_at ?b1 (a + k))"
      by (rule word_at_poke_spaced [of 40 ?A]) (use sp len1 that k ks(1) gap [OF ks(1)] in auto)
    also have "word_at ?b1 (a + k) = (if fst l = a \<and> snd l = k then 0 else word_at b (a + k))"
      by (rule word_at_poke_spaced [of 40 ?A]) (use sp that k l gap [OF l(2)] in auto)
    finally show ?thesis .
  qed
  have inj: "m \<in> set ms \<Longrightarrow> unat m \<noteq> h" for m using h by auto
  have keep: "word_at ?b (unat m + k) = word_at b (unat m + k)" if "m \<in> set ms" "k \<in> {16, 24, 32}" "unat m \<noteq> fst l \<or> k \<noteq> snd l" for m k
    using w [of "unat m" k] inj [OF that(1)] that by auto
  have nl: "ms \<noteq> [] \<Longrightarrow> fst l = unat (last ms) \<and> snd l = kf" "ms = [] \<Longrightarrow> fst l = h \<and> snd l = F" by (simp_all add: l_def)
  show "list_dir E F kf kb (unlinked_bytes E F kf h ms len b) h ms (butlast xs)" unfolding ub list_dir_def
  proof (intro conjI)
    show "word_at ?b (h + E) = end_of ms" using w [of h E] ks by simp
    show "unat (word_at ?b (h + 32)) = length ms" using w [of h 32] len by simp
    show "word_at ?b (h + F) = end_of (rev ms)"
    proof (cases "ms = []")
      case True
      then show ?thesis using w [of h F] ks nl(2) by simp
    next
      case False
      then have "fst l \<noteq> h" using nl(1) inj [of "last ms"] by simp
      then show ?thesis using w [of h F] ks ld False by (simp add: list_dir_def end_of_def)
    qed
    have "chain ?b kb 0 (rev ms) = chain b kb 0 (rev ms)"
      by (rule chain_cong) (use keep ks nl inj in \<open>auto simp: l_def\<close>)
    then show "chain ?b kb 0 (rev ms)" using ld by (simp add: list_dir_def)
    show "chain ?b kf 0 ms"
    proof (cases ms rule: rev_cases)
      case Nil
      then show ?thesis by simp
    next
      case (snoc ns u)
      have "chain ?b kf u ns = chain b kf u ns"
      proof (rule chain_cong, intro ballI)
        fix m assume m: "m \<in> set ns"
        then have "unat m \<noteq> fst l" using di snoc nl(1) by (auto simp flip: word_unat_eq_iff)
        then show "word_at ?b (unat m + kf) = word_at b (unat m + kf)" using keep [of m kf] ks(3) m snoc by simp
      qed
      moreover have "word_at ?b (unat u + kf) = 0" using w [of "unat u" kf] inj [of u] ks nl(1) snoc by auto
      ultimately show ?thesis using ld snoc by (simp add: list_dir_def chain_append)
    qed
    show "butlast xs = map (\<lambda>n. word_at ?b (unat n + 32)) ms"
      using keep [of _ 32] ks ld nl inj by (auto simp: list_dir_def l_def)
  qed
qed

text \<open>What the words of the handle and of the last node say.\<close>

lemma list_dir_words:
  assumes "list_dir E F kf kb b h ns xs"
  shows "word_at b (h + E) = end_of ns" and "word_at b (h + F) = end_of (rev ns)" and "unat (word_at b (h + 32)) = length ns"
    and "length xs = length ns" and "i < length ns \<Longrightarrow> word_at b (unat (ns ! i) + 32) = xs ! i"
    and "i < length ns \<Longrightarrow> word_at b (unat (ns ! i) + kf) = (if Suc i < length ns then ns ! Suc i else 0)"
  using assms chain_nth [of b kf 0 ns i] by (auto simp: list_dir_def)

lemma list_dir_last:
  assumes "list_dir E F kf kb b h (ms @ [t]) xs"
  shows "word_at b (unat t + kb) = end_of ms" and "word_at b (unat t + 32) = last xs" and "xs \<noteq> []"
  using assms end_of_rev [of "rev ms"] by (auto simp: list_dir_def)

end
