(* ===== verification/LinkedListCorrect.thy ===== *)
theory LinkedListCorrect
  imports LinkedListProps
begin

text \<open>
  The operations of a linked list over a store that may fail: a push or a pop is the list operation at
  its end, or an error. A push that fails leaves the list as it was; so does a pop, unless the element
  was unlinked and freeing its node failed.
\<close>

section \<open>Blocks and addresses\<close>

lemma spaced_card: "spaced z A n \<Longrightarrow> card A \<le> Suc n"
proof -
  assume "spaced z A n"
  then have "A \<subseteq> {..n}" by (auto simp: spaced_def)
  then show ?thesis using card_mono [of "{..n}" A] by simp
qed

section \<open>What a push and a pop do\<close>

text \<open>What the code has to supply: the batch as the direction describes it.\<close>

definition link_plan ::
    "u64 \<Rightarrow> nat \<Rightarrow> nat \<Rightarrow> nat \<Rightarrow> u64 list \<Rightarrow> (u64 \<Rightarrow> u8 list) \<Rightarrow> (u64 \<Rightarrow> u64 list \<Rightarrow> u64 list \<Rightarrow> (writes \<times> unit) res) \<Rightarrow> bool" where
  "link_plan handle E F kf ns img plan \<longleftrightarrow> (\<forall>n len.
     (ns \<noteq> [] \<longrightarrow> last ns \<noteq> 0 \<and> checked_off (last ns) (of_nat kf) = Inr (last ns + of_nat kf)) \<longrightarrow>
     plan n [end_of ns, len] [] =
       Inr ([(n, img n), w8 (if ns = [] then handle + of_nat F else last ns + of_nat kf) n, w8 (handle + of_nat E) n,
             w8 (handle + 32) (len + 1)], ()))"

definition list_linked ::
    "'s stack_view \<Rightarrow> u64 \<Rightarrow> range \<Rightarrow> nat \<Rightarrow> nat \<Rightarrow> nat \<Rightarrow> nat \<Rightarrow> 's \<Rightarrow> u64 list \<Rightarrow> u64 list \<Rightarrow> u64 \<Rightarrow> 'a res \<Rightarrow> 's \<Rightarrow> bool" where
  "list_linked vw handle H E F kf kb s ns xs val r s' \<longleftrightarrow>
     (\<exists>ms. owns_frame vw s (list_blocks H ns) s' (list_blocks H ms)
        \<and> list_along vw handle H E F kf kb s' ms (case r of Inl _ \<Rightarrow> xs | Inr _ \<Rightarrow> xs @ [val]))
     \<and> (v_calm vw s \<longrightarrow> v_calm vw s')"

definition unlink_reads :: "nat \<Rightarrow> (u64 list \<Rightarrow> u64 list res) \<Rightarrow> bool" where
  "unlink_reads kb reads2 \<longleftrightarrow> (\<forall>t len. reads2 [0, len] = Inr [] \<and>
     (t \<noteq> 0 \<and> checked_off t (of_nat kb) = Inr (t + of_nat kb) \<and> checked_off t 32 = Inr (t + 32) \<longrightarrow>
       reads2 [t, len] = Inr [t + of_nat kb, t + 32]))"

definition unlink_plan ::
    "u64 \<Rightarrow> nat \<Rightarrow> nat \<Rightarrow> nat \<Rightarrow> u64 list \<Rightarrow> (u64 list \<Rightarrow> u64 list \<Rightarrow> (writes \<times> u64 \<times> u64) res) \<Rightarrow> bool" where
  "unlink_plan handle E F kf ms plan \<longleftrightarrow> (\<forall>t len val. plan [0, len] [] = Inr ([], 0, 0) \<and>
     (t \<noteq> 0 \<and> (ms \<noteq> [] \<longrightarrow> last ms \<noteq> 0 \<and> checked_off (last ms) (of_nat kf) = Inr (last ms + of_nat kf)) \<longrightarrow>
       (\<exists>ws. (ws = [w8 (if ms = [] then handle + of_nat F else last ms + of_nat kf) 0, w8 (handle + of_nat E) (end_of ms),
               w8 (handle + 32) (len - 1)]
             \<or> ms = [] \<and> ws = [w8 (handle + of_nat E) 0, w8 (handle + of_nat F) 0, w8 (handle + 32) (len - 1)]) \<and> plan [t, len] [end_of ms, val] = Inr (ws, t, val))))"

text \<open>A pop of an empty direction answers none; one that fails has no effect, or lost the element it unlinked.\<close>

definition list_popped ::
    "'s stack_view \<Rightarrow> u64 \<Rightarrow> range \<Rightarrow> nat \<Rightarrow> nat \<Rightarrow> nat \<Rightarrow> nat \<Rightarrow> 's \<Rightarrow> u64 list \<Rightarrow> u64 list \<Rightarrow> u64 option res \<Rightarrow> 's \<Rightarrow> bool" where
  "list_popped vw handle H E F kf kb s ns xs r s' \<longleftrightarrow>
     (\<exists>ms ys. owns_frame vw s (list_blocks H ns) s' (list_blocks H ms) \<and> list_along vw handle H E F kf kb s' ms ys
        \<and> (case r of Inl _ \<Rightarrow> ys = xs \<or> xs \<noteq> [] \<and> ys = butlast xs
            | Inr v \<Rightarrow> ys = butlast xs \<and> v = (if xs = [] then None else Some (last xs))))
     \<and> (v_calm vw s \<longrightarrow> v_calm vw s' \<and> \<not> isl r)"

context stack_laws
begin

lemma nodes_spaced:
  assumes g: "v_good vw s" and H: "H \<in> v_live vw s" and i: "inside (unat (handle :: u64)) 40 H"
    and N: "\<forall>n \<in> N. (n, NODE_SIZE) \<in> v_live vw s \<and> (n, NODE_SIZE) \<noteq> H"
  shows "spaced 40 (insert (unat handle) (unat ` N)) (length (v_bytes vw s))" and "unat handle \<notin> unat ` N"
proof -
  have e: "unat handle + 40 \<le> length (v_bytes vw s)" using i good_live [OF g H] by (simp add: inside_def)
  have nb: "unat n + 40 \<le> length (v_bytes vw s)" if "n \<in> N" for n
    using N that good_live [OF g, of "(n, NODE_SIZE)"] by (simp add: range_end_def NODE_SIZE_def)
  have nn: "unat n + 40 \<le> unat m \<or> unat m + 40 \<le> unat n" if "n \<in> N" "m \<in> N" "unat n \<noteq> unat m" for n m
  proof -
    have "apart (n, NODE_SIZE) (m, NODE_SIZE)" by (rule good_apart [OF g]) (use N that in auto)
    then show ?thesis by (simp add: apart_def range_end_def NODE_SIZE_def)
  qed
  have nh: "unat n + 40 \<le> unat handle \<or> unat handle + 40 \<le> unat n" if "n \<in> N" for n
  proof -
    have "apart H (n, NODE_SIZE)" by (rule good_apart [OF g H]) (use N that in auto)
    from inside_apart [OF i this] show ?thesis by (auto simp: range_end_def NODE_SIZE_def)
  qed
  show "unat handle \<notin> unat ` N" using nh by force
  show "spaced 40 (insert (unat handle) (unat ` N)) (length (v_bytes vw s))"
    using e nb nn nh by (auto simp: spaced_def)
qed

lemma list_spaced:
  assumes "list_along vw handle H E F kf kb s ns xs"
  shows "spaced 40 (insert (unat handle) (unat ` set ns)) (length (v_bytes vw s))" and "unat handle \<notin> unat ` set ns"
  by (rule nodes_spaced [of s H]; use assms in \<open>auto simp: list_along_def node_blocks_def\<close>)+

lemma list_addr:
  assumes "list_along vw handle H E F kf kb s ns xs" and "k + 8 \<le> 40"
  shows "unat (handle + of_nat k) = unat handle + k" and "unat handle + k + 8 \<le> length (v_bytes vw s)"
    and "inside (unat handle + k) 8 H"
proof -
  have g: "v_good vw s" and H: "H \<in> v_live vw s" and i: "inside (unat handle) 40 H"
    using assms(1) by (simp_all add: list_along_def)
  from handle_words [OF g H i assms(2)] show "unat (handle + of_nat k) = unat handle + k"
    "unat handle + k + 8 \<le> length (v_bytes vw s)" "inside (unat handle + k) 8 H" .
qed

lemma node_addr:
  assumes g: "v_good vw s" and n: "(n, NODE_SIZE) \<in> v_live vw s" and k: "k + 8 \<le> 40"
  shows "checked_off n (of_nat k) = Inr (n + of_nat k)" and "unat (n + of_nat k) = unat n + k"
    and "unat n + k + 8 \<le> length (v_bytes vw s)" and "inside (unat n + k) 8 (n, NODE_SIZE)" and "n \<noteq> 0"
proof -
  have l: "16 \<le> unat n" "unat n + 40 \<le> length (v_bytes vw s)"
    using good_live [OF g n] by (simp_all add: range_end_def NODE_SIZE_def)
  then show b: "unat n + k + 8 \<le> length (v_bytes vw s)" using k by simp
  show "inside (unat n + k) 8 (n, NODE_SIZE)" using k by (simp add: inside_def range_end_def NODE_SIZE_def)
  show "n \<noteq> 0" using l(1) by auto
  have u: "unat n + k < u64_limit" "k < u64_limit" using b good_store [OF g] by simp_all
  then show "unat (n + of_nat k) = unat n + k" by (simp add: unat_plus_u64 unat_of_nat_u64)
  show "checked_off n (of_nat k) = Inr (n + of_nat k)" using u by (simp add: unat_of_nat_u64)
qed

lemma list_length:
  assumes al: "list_along vw handle H E F kf kb s ns xs" and len: "unat len = length ns"
  shows "unat (len + 1 :: u64) = Suc (length ns)"
proof -
  have "card (unat ` set ns) = length ns"
    using al by (simp add: list_along_def distinct_card card_image inj_on_def flip: word_unat_eq_iff)
  moreover have "card (unat ` set ns) \<le> Suc (length (v_bytes vw s))"
  proof -
    have "spaced 40 (unat ` set ns) (length (v_bytes vw s))" using list_spaced(1) [OF al] by (simp add: spaced_def)
    then show ?thesis by (rule spaced_card)
  qed
  moreover have "length (v_bytes vw s) < 2 ^ 63" using al good_store by (simp add: list_along_def)
  ultimately have "unat len + 1 < u64_limit" using len by simp
  then show ?thesis using len by (simp add: unat_plus_u64)
qed

lemma list_along_kept:
  assumes al: "list_along vw handle H E F kf kb s ns xs" and d: "dir_ok E F kf kb"
    and k: "kept vw R s s'" and dis: "R \<inter> list_blocks H ns = {}"
  shows "list_along vw handle H E F kf kb s' ns xs"
proof -
  have live: "list_blocks H ns \<subseteq> v_live vw s" and i: "inside (unat handle) 40 H"
    using al by (auto simp: list_along_def list_blocks_def)
  have "word_at (v_bytes vw s') (a + j) = word_at (v_bytes vw s) (a + j)"
    if "a \<in> insert (unat handle) (unat ` set ns)" "j \<in> {16, 24, 32}" for a j
  proof -
    have "\<exists>q \<in> list_blocks H ns. inside (a + j) 8 q"
    proof (cases "a = unat handle")
      case True
      with i that(2) show ?thesis by (auto simp: list_blocks_def inside_def)
    next
      case False
      then have "a \<in> unat ` set ns" using that(1) by simp
      then obtain n where "n \<in> set ns" "a = unat n" by blast
      with that(2) show ?thesis
        by (intro bexI [of _ "(n, NODE_SIZE)"]) (auto simp: list_blocks_def node_blocks_def inside_def range_end_def NODE_SIZE_def)
    qed
    then obtain q where q: "q \<in> list_blocks H ns" "inside (a + j) 8 q" by blast
    show ?thesis by (rule frame_word [OF k, of q]) (use q live dis in auto)
  qed
  from list_dir_cong [OF d this] have "list_dir E F kf kb (v_bytes vw s') (unat handle) ns xs"
    using al by (simp add: list_along_def)
  moreover have "list_blocks H ns \<subseteq> v_live vw s'" using frame_live [OF k] live dis by auto
  ultimately show ?thesis using al frame_good [OF k] by (auto simp: list_along_def list_blocks_def)
qed

section \<open>Pushing at the end of a direction\<close>

text \<open>The node of a push that fails is given back, so whatever the deallocation does nothing of the caller's changes.\<close>

lemma frame_of_spare:
  assumes k1: "kept vw {} s s1" and l1: "v_live vw s1 = insert q (v_live vw s)" and q: "q \<notin> v_live vw s"
    and u: "unchanged vw s1 s2" and de: "op_dealloc io q s2 = (rd, s3)"
  shows "kept vw {} s s3" and "v_calm vw s2 \<Longrightarrow> v_calm vw s3"
proof -
  have g2: "v_good vw s2" and q2: "q \<in> v_live vw s2" using u l1 by (simp_all add: unchanged_def)
  note fd = frame_dealloc [OF g2 q2 de]
  have "kept vw {q} s1 s3" by (rule frame_after_unchanged [OF u fd(1)])
  from frame_trans [OF k1 this] q show "kept vw {} s s3" by simp
  show "v_calm vw s2 \<Longrightarrow> v_calm vw s3" using fd(3) by simp
qed

lemma last_node:
  assumes al: "list_along vw handle H E F kf kb s ns xs" and ne: "ns \<noteq> []" and k: "k + 8 \<le> 40"
  shows "last ns \<noteq> 0" and "checked_off (last ns) (of_nat k) = Inr (last ns + of_nat k)"
    and "unat (last ns + of_nat k) = unat (last ns) + k" and "unat (last ns) + k + 8 \<le> length (v_bytes vw s)"
    and "\<exists>q \<in> list_blocks H ns. inside (unat (last ns) + k) 8 q"
proof -
  have m: "(last ns, NODE_SIZE) \<in> list_blocks H ns" using ne by (simp add: list_blocks_def node_blocks_def)
  then have l: "(last ns, NODE_SIZE) \<in> v_live vw s" and g: "v_good vw s" using al by (auto simp: list_along_def list_blocks_def)
  from node_addr [OF g l k] m show "last ns \<noteq> 0" "checked_off (last ns) (of_nat k) = Inr (last ns + of_nat k)"
    "unat (last ns + of_nat k) = unat (last ns) + k" "unat (last ns) + k + 8 \<le> length (v_bytes vw s)"
    "\<exists>q \<in> list_blocks H ns. inside (unat (last ns) + k) 8 q" by blast+
qed

lemma list_link_update:
  assumes al: "list_along vw handle H E F kf kb s ns xs" and d: "dir_ok E F kf kb"
    and q: "(n, NODE_SIZE) \<in> v_live vw s" "(n, NODE_SIZE) \<notin> list_blocks H ns"
    and plan: "link_plan handle E F kf ns img plan"
    and img: "length (img n) = 40" "word_at (img n) kf = 0" "word_at (img n) kb = end_of ns" "word_at (img n) 32 = val"
    and run: "atomic_update io [handle + of_nat E, handle + 32] (\<lambda>_. Inr []) (plan n) s = (r, s')"
  shows "(\<exists>e. r = Inl e) \<and> unchanged vw s s' \<or> r = Inr () \<and> list_along vw handle H E F kf kb s' (ns @ [n]) (xs @ [val])
      \<and> kept vw (insert (n, NODE_SIZE) (list_blocks H ns)) s s' \<and> v_live vw s' = v_live vw s"
    and "v_calm vw s \<Longrightarrow> r = Inr () \<and> v_calm vw s'"
proof -
  have g: "v_good vw s" and H: "H \<in> v_live vw s" "inside (unat handle) 40 H" and di: "distinct ns"
    and ld: "list_dir E F kf kb (v_bytes vw s) (unat handle) ns xs" using al by (simp_all add: list_along_def)
  have ks: "E + 8 \<le> 40" "F + 8 \<le> 40" "kf + 8 \<le> 40" using d by (auto simp: dir_ok_def)
  note ad = list_addr [OF al] and lw = list_dir_words [OF ld] and last = last_node [OF al _ ks(3)]
  define len where "len = word_at (v_bytes vw s) (unat handle + 32)"
  define link where "link = (if ns = [] then handle + of_nat F else last ns + of_nat kf)"
  have ul: "unat link = (if ns = [] then unat handle + F else unat (last ns) + kf)"
    using ad(1) [OF ks(2)] last(3) by (simp add: link_def)
  let ?ws = "[(n, img n), w8 link n, w8 (handle + of_nat E) n, w8 (handle + 32) (len + 1)]"
  let ?offs = "[handle + of_nat E, handle + 32]"
  have pl: "plan n (words_of (v_bytes vw s) ?offs) (words_of (v_bytes vw s) []) = Inr (?ws, ())"
    using plan last(1,2) ad(1) [OF ks(1)] ad(1) [of 32] lw(1) by (simp add: link_plan_def link_def len_def)
  have in_n: "unat n + 40 \<le> length (v_bytes vw s)" using good_live [OF g q(1)] by (simp add: range_end_def NODE_SIZE_def)
  have ib: "in_bounds (v_bytes vw s) ?ws"
    using in_n img(1) ul ad [OF ks(1)] ad [OF ks(2)] ad [of 32] last(4) by simp
  have o1: "\<forall>off \<in> set ?offs. unat off + 8 \<le> length (v_bytes vw s)" using ad [OF ks(1)] ad [of 32] by simp
  have o2: "\<forall>off \<in> set []. unat off + 8 \<le> length (v_bytes vw s)" by simp
  note au = atomic_update_run [where ?reads2.0 = "\<lambda>_. Inr []" and ?offs2.0 = "[]", OF g run o1 refl o2 pl ib]
  show "v_calm vw s \<Longrightarrow> r = Inr () \<and> v_calm vw s'" by (rule au(2))
  have new: "n \<notin> set ns" "(n, NODE_SIZE) \<noteq> H" using q(2) by (auto simp: list_blocks_def node_blocks_def)
  have N: "\<forall>m \<in> insert n (set ns). (m, NODE_SIZE) \<in> v_live vw s \<and> (m, NODE_SIZE) \<noteq> H"
    using al q(1) new(2) by (auto simp: list_along_def node_blocks_def)
  have ins: "\<forall>(off, dt) \<in> set ?ws. \<exists>p \<in> insert (n, NODE_SIZE) (list_blocks H ns). inside (unat off) (length dt) p"
  proof -
    have "inside (unat n) 40 (n, NODE_SIZE)" by (simp add: inside_def range_end_def NODE_SIZE_def)
    moreover have "\<exists>p \<in> insert (n, NODE_SIZE) (list_blocks H ns). inside (unat link) 8 p"
      using ul ad(3) [OF ks(2)] last(5) by (cases "ns = []") (auto simp: list_blocks_def)
    ultimately show ?thesis using img(1) ad [OF ks(1)] ad [of 32] by (auto simp: w8_def list_blocks_def)
  qed
  have "list_along vw handle H E F kf kb s' (ns @ [n]) (xs @ [val])
      \<and> kept vw (insert (n, NODE_SIZE) (list_blocks H ns)) s s' \<and> v_live vw s' = v_live vw s"
    if w: "written vw s (apply_writes ?ws (v_bytes vw s)) s'"
  proof -
    have bytes: "v_bytes vw s' = linked_bytes E F kf (unat handle) ns n (img n) len (v_bytes vw s)"
      using w ad(1) [OF ks(1)] ad(1) [of 32] ul by (simp add: written_def linked_bytes_def)
    have "list_dir E F kf kb (v_bytes vw s') (unat handle) (ns @ [n]) (xs @ [val])"
      unfolding bytes by (rule list_dir_link [OF d _ _ new(1) di ld])
        (use nodes_spaced [OF g H N] img list_length [OF al, of len] lw(3) len_def in simp_all)
    moreover have "kept vw (insert (n, NODE_SIZE) (list_blocks H ns)) s s'"
      by (rule frame_commit [OF g ib w _ ins]) (use al q(1) in \<open>auto simp: list_along_def list_blocks_def\<close>)
    ultimately show ?thesis using al w q(1) new by (auto simp: list_along_def node_blocks_def written_def)
  qed
  with au(1) show "(\<exists>e. r = Inl e) \<and> unchanged vw s s' \<or> r = Inr () \<and> list_along vw handle H E F kf kb s' (ns @ [n]) (xs @ [val])
      \<and> kept vw (insert (n, NODE_SIZE) (list_blocks H ns)) s s' \<and> v_live vw s' = v_live vw s" by blast
qed

lemma list_link_ok:
  assumes al: "list_along vw handle H E F kf kb s ns xs" and d: "dir_ok E F kf kb"
    and plan: "link_plan handle E F kf ns img plan"
    and img: "\<And>n. length (img n) = 40" "\<And>n. word_at (img n) kf = 0" "\<And>n. word_at (img n) kb = end_of ns" "\<And>n. word_at (img n) 32 = val"
    and run: "list_link io [handle + of_nat E, handle + 32] plan s = (r, s')"
  shows "list_linked vw handle H E F kf kb s ns xs val r s'"
proof -
  have g: "v_good vw s" and blocks: "list_blocks H ns \<subseteq> v_live vw s" using al by (auto simp: list_along_def list_blocks_def)
  have fail: "list_linked vw handle H E F kf kb s ns xs val (Inl e :: 'b res) t"
    if k: "kept vw {} s t" and c: "v_calm vw s \<longrightarrow> v_calm vw t" for t e
    using list_along_kept [OF al d k] owns_frame_same [OF frame_mono [OF k]] c by (auto simp: list_linked_def)
  obtain ra s1 where a: "op_alloc io NODE_SIZE s = (ra, s1)" by (cases "op_alloc io NODE_SIZE s")
  have nz: "NODE_SIZE \<noteq> 0" by (simp add: NODE_SIZE_def)
  note fa = frame_alloc [OF g a nz] and ca = calm_alloc [OF g _ a]
  show ?thesis
  proof (cases ra)
    case (Inl e)
    then have "r = Inl e" "s' = s1" using run a by (simp_all add: list_link_def)
    with fail [OF fa(1)] ca show ?thesis by blast
  next
    case (Inr q)
    define n where "n = fst q"
    have q: "q = (n, NODE_SIZE)" "q \<notin> v_live vw s" and l1: "v_live vw s1 = insert q (v_live vw s)"
      using fa(2) [OF Inr] by (auto simp: n_def prod_eq_iff)
    have al1: "list_along vw handle H E F kf kb s1 ns xs" by (rule list_along_kept [OF al d fa(1)]) simp
    have lq: "(n, NODE_SIZE) \<in> v_live vw s1" "(n, NODE_SIZE) \<notin> list_blocks H ns" using q l1 blocks by auto
    obtain ru s2 where up: "atomic_update io [handle + of_nat E, handle + 32] (\<lambda>_. Inr []) (plan n) s1 = (ru, s2)" by fastforce
    note lu = list_link_update [OF al1 d lq plan img up]
    show ?thesis
    proof (cases ru)
      case err: (Inl e)
      then have u: "unchanged vw s1 s2" using lu(1) by auto
      obtain rd s3 where de: "op_dealloc io q s2 = (rd, s3)" by (cases "op_dealloc io q s2")
      have "r = Inl e" "s' = s3" using run a Inr up err de q(1) by (simp_all add: list_link_def n_def [symmetric])
      moreover have "\<not> v_calm vw s" using lu(2) ca err by auto
      ultimately show ?thesis using fail [OF frame_of_spare(1) [OF fa(1) l1 q(2) u de]] by blast
    next
      case ok: (Inr x)
      have r: "r = Inr x" "s' = s2" using run a Inr up ok by (simp_all add: list_link_def n_def [symmetric])
      have l: "list_along vw handle H E F kf kb s2 (ns @ [n]) (xs @ [val])" "kept vw (insert q (list_blocks H ns)) s1 s2"
        using lu(1) ok q(1) by auto
      have "kept vw (list_blocks H ns) s s2"
        by (rule frame_trans [OF frame_mono [OF fa(1)] l(2)]) (use q(2) in auto)
      then have "owns_frame vw s (list_blocks H ns) s2 (list_blocks H (ns @ [n]))"
        using q by (auto simp: owns_frame_def list_blocks_def node_blocks_def)
      moreover have "v_calm vw s \<longrightarrow> v_calm vw s2" using lu(2) ca by auto
      ultimately show ?thesis using l(1) r unfolding list_linked_def by auto
    qed
  qed
qed

section \<open>Popping at the end of a direction\<close>

lemma list_unlink_update:
  assumes al: "list_along vw handle H E F kf kb s (ms @ [t]) xs" and d: "dir_ok E F kf kb"
    and reads: "unlink_reads kb reads2" and plan: "unlink_plan handle E F kf ms plan"
    and run: "atomic_update io [handle + of_nat E, handle + 32] reads2 plan s = (r, s')"
  shows "(\<exists>e. r = Inl e) \<and> unchanged vw s s' \<or> r = Inr (t, last xs) \<and> list_along vw handle H E F kf kb s' ms (butlast xs)
      \<and> kept vw (list_blocks H (ms @ [t])) s s' \<and> v_live vw s' = v_live vw s"
    and "v_calm vw s \<Longrightarrow> r = Inr (t, last xs) \<and> v_calm vw s'"
proof -
  have g: "v_good vw s" and di: "distinct (ms @ [t])" and H: "H \<in> v_live vw s" "inside (unat handle) 40 H"
    and ld: "list_dir E F kf kb (v_bytes vw s) (unat handle) (ms @ [t]) xs" using al by (simp_all add: list_along_def)
  have ks: "E + 8 \<le> 40" "F + 8 \<le> 40" "kf + 8 \<le> 40" "kb + 8 \<le> 40" using d by (auto simp: dir_ok_def)
  have tl: "(t, NODE_SIZE) \<in> v_live vw s" using al by (simp add: list_along_def node_blocks_def)
  note ad = list_addr [OF al] and lw = list_dir_words [OF ld] and ll = list_dir_last [OF ld]
  note ta = node_addr [OF g tl]
  define len where "len = word_at (v_bytes vw s) (unat handle + 32)"
  have prev: "last ms \<noteq> 0" "checked_off (last ms) (of_nat kf) = Inr (last ms + of_nat kf)"
    "unat (last ms + of_nat kf) = unat (last ms) + kf" "unat (last ms) + kf + 8 \<le> length (v_bytes vw s)"
    "\<exists>q \<in> list_blocks H (ms @ [t]). inside (unat (last ms) + kf) 8 q" if "ms \<noteq> []"
  proof -
    have l: "(last ms, NODE_SIZE) \<in> v_live vw s" "(last ms, NODE_SIZE) \<in> list_blocks H (ms @ [t])"
      using al that by (auto simp: list_along_def list_blocks_def node_blocks_def)
    from node_addr [OF g l(1) ks(3)] l(2) show "last ms \<noteq> 0"
      "checked_off (last ms) (of_nat kf) = Inr (last ms + of_nat kf)" "unat (last ms + of_nat kf) = unat (last ms) + kf"
      "unat (last ms) + kf + 8 \<le> length (v_bytes vw s)" "\<exists>q \<in> list_blocks H (ms @ [t]). inside (unat (last ms) + kf) 8 q"
      by blast+
  qed
  define link where "link = (if ms = [] then handle + of_nat F else last ms + of_nat kf)"
  have ul: "unat link = (if ms = [] then unat handle + F else unat (last ms) + kf)"
    using ad(1) [OF ks(2)] prev(3) by (simp add: link_def)
  let ?offs = "[handle + of_nat E, handle + 32]" and ?offs2 = "[t + of_nat kb, t + 32]"
  have wo: "words_of (v_bytes vw s) ?offs = [t, len]" "words_of (v_bytes vw s) ?offs2 = [end_of ms, last xs]"
    using ad(1) [OF ks(1)] ad(1) [of 32] lw(1) ta(2) [OF ks(4)] ta(2) [of 32] ll by (simp_all add: len_def)
  have rd: "reads2 (words_of (v_bytes vw s) ?offs) = Inr ?offs2"
    using reads ta(1) [OF ks(4)] ta(1) [of 32] ta(5) [OF ks(4)] unfolding wo by (simp add: unlink_reads_def)
  have pre: "t \<noteq> 0 \<and> (ms \<noteq> [] \<longrightarrow> last ms \<noteq> 0 \<and> checked_off (last ms) (of_nat kf) = Inr (last ms + of_nat kf))"
    using prev(1,2) ta(5) [OF ks(1)] by (simp del: checked_off_Inr)
  obtain ws where ws: "ws = [w8 link 0, w8 (handle + of_nat E) (end_of ms), w8 (handle + 32) (len - 1)]
      \<or> ms = [] \<and> ws = [w8 (handle + of_nat E) 0, w8 (handle + of_nat F) 0, w8 (handle + 32) (len - 1)]"
    and pl: "plan (words_of (v_bytes vw s) ?offs) (words_of (v_bytes vw s) ?offs2) = Inr (ws, t, last xs)"
    using plan [unfolded unlink_plan_def, THEN spec, THEN spec, THEN spec, of len t "last xs", THEN conjunct2, THEN mp, OF pre,
        folded link_def]
    by (elim exE conjE) (rule that, assumption, simp only: wo)
  have ib: "in_bounds (v_bytes vw s) ws" using ws ul ad [OF ks(1)] ad [OF ks(2)] ad [of 32] prev(4) by auto
  have EF: "E + 8 \<le> F \<or> F + 8 \<le> E" using d by (auto simp: dir_ok_def)
  have ap: "apply_writes ws (v_bytes vw s) = unlinked_bytes E F kf (unat handle) ms len (v_bytes vw s)"
    using ws
  proof
    assume "ms = [] \<and> ws = [w8 (handle + of_nat E) 0, w8 (handle + of_nat F) 0, w8 (handle + 32) (len - 1)]"
    then show ?thesis
      using ad(1,2) [OF ks(1)] ad(1,2) [OF ks(2)] ad(1) [of 32] EF
        poke_commute [of "unat handle + E" "v_bytes vw s" "unat handle + F" 0 0] by (simp add: unlinked_bytes_def)
  qed (use ul ad(1) [OF ks(1)] ad(1) [of 32] in \<open>simp add: unlinked_bytes_def\<close>)
  have o1: "\<forall>off \<in> set ?offs. unat off + 8 \<le> length (v_bytes vw s)" using ad [OF ks(1)] ad [of 32] by simp
  have o2: "\<forall>off \<in> set ?offs2. unat off + 8 \<le> length (v_bytes vw s)"
    using ta(2,3) [OF ks(4)] ta(2,3) [of 32] by simp
  note au = atomic_update_run [where ?reads2.0 = reads2 and ?offs2.0 = ?offs2, OF g run o1 rd o2 pl ib]
  show "v_calm vw s \<Longrightarrow> r = Inr (t, last xs) \<and> v_calm vw s'" by (rule au(2))
  have ins: "\<forall>(off, dt) \<in> set ws. \<exists>p \<in> list_blocks H (ms @ [t]). inside (unat off) (length dt) p"
  proof -
    have "\<exists>p \<in> list_blocks H (ms @ [t]). inside (unat link) 8 p"
      using ul ad(3) [OF ks(2)] prev(5) by (cases "ms = []") (auto simp: list_blocks_def)
    then show ?thesis using ws ad [OF ks(1)] ad [OF ks(2)] ad [of 32] by (auto simp: w8_def list_blocks_def)
  qed
  have len1: "unat (len - 1) = length ms"
  proof -
    have "len \<noteq> 0" using lw(3) by (auto simp: len_def)
    then show ?thesis using lw(3) by (simp add: unat_minus_one len_def)
  qed
  have "list_along vw handle H E F kf kb s' ms (butlast xs) \<and> kept vw (list_blocks H (ms @ [t])) s s'
      \<and> v_live vw s' = v_live vw s"
    if w: "written vw s (apply_writes ws (v_bytes vw s)) s'"
  proof -
    have bytes: "v_bytes vw s' = unlinked_bytes E F kf (unat handle) ms len (v_bytes vw s)"
      using w ap by (simp add: written_def)
    have "list_dir E F kf kb (v_bytes vw s') (unat handle) ms (butlast xs)"
      unfolding bytes by (rule list_dir_unlink [OF d list_spaced [OF al] di ld len1])
    moreover have "kept vw (list_blocks H (ms @ [t])) s s'"
      by (rule frame_commit [OF g ib w _ ins]) (use al in \<open>auto simp: list_along_def list_blocks_def\<close>)
    ultimately show ?thesis using al w by (auto simp: list_along_def node_blocks_def written_def)
  qed
  with au(1) show "(\<exists>e. r = Inl e) \<and> unchanged vw s s' \<or> r = Inr (t, last xs) \<and> list_along vw handle H E F kf kb s' ms (butlast xs)
      \<and> kept vw (list_blocks H (ms @ [t])) s s' \<and> v_live vw s' = v_live vw s" by blast
qed

lemma list_unlink_empty:
  assumes al: "list_along vw handle H E F kf kb s [] xs" and d: "dir_ok E F kf kb"
    and reads: "unlink_reads kb reads2" and plan: "unlink_plan handle E F kf ms plan"
    and run: "atomic_update io [handle + of_nat E, handle + 32] reads2 plan s = (r, s')"
  shows "unchanged vw s s' \<and> ((\<exists>e. r = Inl e) \<or> r = Inr (0, 0))" and "v_calm vw s \<Longrightarrow> r = Inr (0, 0) \<and> v_calm vw s'"
proof -
  have g: "v_good vw s" and ld: "list_dir E F kf kb (v_bytes vw s) (unat handle) [] xs" using al by (simp_all add: list_along_def)
  have ks: "E + 8 \<le> 40" using d by (auto simp: dir_ok_def)
  note ad = list_addr [OF al] and lw = list_dir_words [OF ld]
  let ?offs = "[handle + of_nat E, handle + 32]"
  have wo: "words_of (v_bytes vw s) ?offs = [0, word_at (v_bytes vw s) (unat handle + 32)]"
    using ad(1) [OF ks] ad(1) [of 32] lw(1) by simp
  have rd: "reads2 (words_of (v_bytes vw s) ?offs) = Inr []" using reads unfolding wo by (simp add: unlink_reads_def)
  have pl: "plan (words_of (v_bytes vw s) ?offs) (words_of (v_bytes vw s) []) = Inr ([], 0, 0)"
    using plan unfolding wo by (simp add: unlink_plan_def)
  have o1: "\<forall>off \<in> set ?offs. unat off + 8 \<le> length (v_bytes vw s)" using ad [OF ks] ad [of 32] by simp
  have o2: "\<forall>off \<in> set []. unat off + 8 \<le> length (v_bytes vw s)" by simp
  have ib: "in_bounds (v_bytes vw s) []" by simp
  note au = atomic_update_run [where ?reads2.0 = reads2 and ?offs2.0 = "[]", OF g run o1 rd o2 pl ib]
  show "unchanged vw s s' \<and> ((\<exists>e. r = Inl e) \<or> r = Inr (0, 0))" using au(1) by (auto simp: written_def unchanged_def)
  show "v_calm vw s \<Longrightarrow> r = Inr (0, 0) \<and> v_calm vw s'" by (rule au(2))
qed

lemma list_unlink_ok:
  assumes al: "list_along vw handle H E F kf kb s ns xs" and d: "dir_ok E F kf kb"
    and reads: "unlink_reads kb reads2" and plan: "\<And>ms. unlink_plan handle E F kf ms plan"
    and run: "list_unlinked io (atomic_update io [handle + of_nat E, handle + 32] reads2 plan s) = (r, s')"
  shows "list_popped vw handle H E F kf kb s ns xs r s'"
proof -
  obtain ru s1 where up: "atomic_update io [handle + of_nat E, handle + 32] reads2 plan s = (ru, s1)" by fastforce
  have stay: "list_popped vw handle H E F kf kb s ns xs (Inl e) s'" if "unchanged vw s s'" "\<not> v_calm vw s" for e
  proof -
    have k: "kept vw {} s s'" by (rule frame_unchanged [OF that(1)])
    with list_along_kept [OF al d k] owns_frame_same [OF frame_mono [OF k]] that(2) show ?thesis
      by (auto simp: list_popped_def)
  qed
  show ?thesis
  proof (cases ns rule: rev_cases)
    case Nil
    note ue = list_unlink_empty [OF al [unfolded Nil] d reads plan up]
    have xs: "xs = []" using al Nil by (simp add: list_along_def list_dir_def)
    show ?thesis
    proof (cases ru)
      case (Inl e)
      with run up have "r = Inl e" "s' = s1" by (simp_all add: list_unlinked_def)
      with ue Inl stay show ?thesis by auto
    next
      case (Inr x)
      then have "x = (0, 0)" using ue(1) by auto
      with run up Inr have r: "r = Inr None" "s' = s1" by (simp_all add: list_unlinked_def)
      have k: "kept vw {} s s'" using ue(1) r by (simp add: frame_unchanged)
      from list_along_kept [OF al d k] owns_frame_same [OF frame_mono [OF k]] r ue(2) xs Nil show ?thesis
        by (auto simp: list_popped_def)
    qed
  next
    case (snoc ms t)
    note uu = list_unlink_update [OF al [unfolded snoc] d reads plan up]
    have ne: "xs \<noteq> []" using al snoc by (simp add: list_along_def list_dir_def)
    show ?thesis
    proof (cases ru)
      case (Inl e)
      with run up have "r = Inl e" "s' = s1" by (simp_all add: list_unlinked_def)
      with uu Inl stay show ?thesis by auto
    next
      case (Inr x)
      then have x: "x = (t, last xs)" and al1: "list_along vw handle H E F kf kb s1 ms (butlast xs)"
        and k1: "kept vw (list_blocks H ns) s s1" and l1: "v_live vw s1 = v_live vw s" using uu(1) snoc by auto
      have tl: "(t, NODE_SIZE) \<in> v_live vw s1" using al snoc l1 by (simp add: list_along_def node_blocks_def)
      have t0: "t \<noteq> 0" using good_live [OF frame_good [OF k1] tl] by auto
      obtain rd s2 where de: "op_dealloc io (t, NODE_SIZE) s1 = (rd, s2)" by (cases "op_dealloc io (t, NODE_SIZE) s1")
      note fd = frame_dealloc [OF frame_good [OF k1] tl de]
      have r: "r = (case rd of Inl e \<Rightarrow> Inl e | Inr _ \<Rightarrow> Inr (Some (last xs)))" "s' = s2"
        using run up Inr x t0 de by (cases rd; simp add: list_unlinked_def)+
      have "(t, NODE_SIZE) \<notin> list_blocks H ms" using al snoc by (auto simp: list_along_def list_blocks_def node_blocks_def)
      then have al2: "list_along vw handle H E F kf kb s2 ms (butlast xs)"
        by (intro list_along_kept [OF al1 d fd(1)]) simp
      have "kept vw (list_blocks H ns) s s2"
        by (rule frame_trans [OF k1 fd(1)]) (use snoc in \<open>auto simp: list_blocks_def node_blocks_def\<close>)
      then have "owns_frame vw s (list_blocks H ns) s2 (list_blocks H ms)"
        by (rule owns_frame_same) (use snoc in \<open>auto simp: list_blocks_def node_blocks_def\<close>)
      moreover have "v_calm vw s \<longrightarrow> v_calm vw s2 \<and> rd = Inr ()" using uu(2) fd(3) by auto
      ultimately show ?thesis using r al2 ne by (cases rd) (auto simp: list_popped_def)
    qed
  qed
qed

end

end
