(* ===== verification/LinkedListRuns.thy ===== *)
theory LinkedListRuns
  imports LinkedListCorrect
begin

text \<open>
  The two directions joined: the operations of the linked list against a list, as an instance of
  \<open>container\<close>, and its iteration as an instance of \<open>iterator\<close>.
\<close>

section \<open>The code along the two directions\<close>

lemma dir_back: "dir_ok 24 16 24 16" and dir_front: "dir_ok 16 24 16 24"
  by (simp_all add: dir_ok_def)

lemma length_node_image: "wf_eightcc vtag \<Longrightarrow> length (node_image vtag p n v) = 40"
proof -
  assume "wf_eightcc vtag"
  then have "wf_eightcc (node_tag vtag)" unfolding node_tag_def by (intro wf_eightcc_ops; simp add: wf_eightcc_def)
  then show ?thesis by (simp add: node_image_def wf_eightcc_def)
qed

lemma node_image_words:
  assumes "wf_eightcc vtag"
  shows "word_at (node_image vtag p n v) 16 = p" and "word_at (node_image vtag p n v) 24 = n"
    and "word_at (node_image vtag p n v) 32 = v"
proof -
  have "wf_eightcc (node_tag vtag)" unfolding node_tag_def using assms by (intro wf_eightcc_ops; simp add: wf_eightcc_def)
  then have l: "\<forall>w \<in> set [to_le64 NODE_SIZE, cc_bytes (node_tag vtag), to_le64 p, to_le64 n, to_le64 v]. length w = 8"
    by (simp add: wf_eightcc_def)
  have e: "node_image vtag p n v
      = concat [to_le64 NODE_SIZE, cc_bytes (node_tag vtag), to_le64 p, to_le64 n, to_le64 v] @ []"
    by (simp add: node_image_def)
  show "word_at (node_image vtag p n v) 16 = p" "word_at (node_image vtag p n v) 24 = n" "word_at (node_image vtag p n v) 32 = v"
    unfolding e word_at_def using slice_words [OF l, of 2 "[]"] slice_words [OF l, of 3 "[]"] slice_words [OF l, of 4 "[]"]
    by simp_all
qed

lemma push_back_linked: "link_plan list 24 16 24 ns (\<lambda>n. node_image vtag (end_of ns) 0 val) (\<lambda>node. list_push_back_plan vtag list node val)"
  by (auto simp: link_plan_def list_push_back_plan_def list_offsets end_of_def Let_def simp del: checked_off_Inr)

lemma push_front_linked: "link_plan list 16 24 16 ns (\<lambda>n. node_image vtag 0 (end_of ns) val) (\<lambda>node. list_push_front_plan vtag list node val)"
  by (auto simp: link_plan_def list_push_front_plan_def list_offsets end_of_def Let_def simp del: checked_off_Inr)

lemma pop_back_unlinked: "unlink_reads 16 list_pop_back_reads" "unlink_plan list 24 16 24 ms (list_pop_back_plan list)"
  by (auto simp: unlink_reads_def unlink_plan_def list_pop_back_reads_def list_pop_back_plan_def list_offsets end_of_def Let_def simp del: checked_off_Inr)

lemma pop_front_unlinked: "unlink_reads 24 list_pop_front_reads" "unlink_plan list 16 24 16 ms (list_pop_front_plan list)"
  by (auto simp: unlink_reads_def unlink_plan_def list_pop_front_reads_def list_pop_front_plan_def list_offsets end_of_def Let_def simp del: checked_off_Inr)

section \<open>Runs\<close>

definition list_exec :: "'s stack_ops \<Rightarrow> eightcc \<Rightarrow> u64 \<Rightarrow> ends_op \<Rightarrow> 's \<Rightarrow> (u64 option res \<times> 's) option" where
  "list_exec io vtag handle oper s =
     Some (case oper of
        PushBack v \<Rightarrow> (case list_push_back io vtag handle v s of (Inl (e, _), s') \<Rightarrow> (Inl e, s') | (Inr _, s') \<Rightarrow> (Inr None, s'))
      | PushFront v \<Rightarrow> (case list_push_front io vtag handle v s of (Inl (e, _), s') \<Rightarrow> (Inl e, s') | (Inr _, s') \<Rightarrow> (Inr None, s'))
      | PopBack \<Rightarrow> list_pop_back io handle s
      | PopFront \<Rightarrow> list_pop_front io handle s
      | Front \<Rightarrow> list_front io handle s
      | Back \<Rightarrow> list_back io handle s
      | Len \<Rightarrow> try_s (list_len io handle s) (\<lambda>n s1. (Inr (Some n), s1)))"

text \<open>The specification of a step: as for the deque, but a pop may fail after it removed the element.\<close>

definition list_step :: "u64 list \<Rightarrow> ends_op \<Rightarrow> u64 option res \<Rightarrow> u64 list \<Rightarrow> bool" where
  "list_step xs oper r ys \<longleftrightarrow> answers ends_answer ends_after xs oper r ys
     \<or> oper \<in> {PopBack, PopFront} \<and> isl r \<and> xs \<noteq> [] \<and> ys = ends_after oper xs"

context stack_laws
begin

lemma list_peek_ok:
  assumes al: "list_along vw handle H E F kf kb s ns xs" and d: "dir_ok E F kf kb"
    and run: "try_s (read_u64 io (handle + of_nat E) s) (\<lambda>n s1.
       if n = 0 then (Inr None, s1)
       else try_in (checked_off n 32) s1 (\<lambda>off. try_s (read_u64 io off s1) (\<lambda>v s2. (Inr (Some v), s2)))) = (r, s')"
  shows "unchanged vw s s'" and "\<forall>v. r = Inr v \<longrightarrow> v = (if xs = [] then None else Some (last xs))"
    and "v_calm vw s \<Longrightarrow> \<not> isl r \<and> v_calm vw s'"
proof -
  have g: "v_good vw s" and ld: "list_dir E F kf kb (v_bytes vw s) (unat handle) ns xs" using al by (simp_all add: list_along_def)
  have ks: "E + 8 \<le> 40" using d by (auto simp: dir_ok_def)
  note ad = list_addr [OF al ks]
  obtain rn s1 where rd: "read_u64 io (handle + of_nat E) s = (rn, s1)" by fastforce
  note r1 = read_word_ok [OF g rd]
  have w: "word_at (v_bytes vw s) (unat (handle + of_nat E)) = end_of ns"
    unfolding ad(1) by (rule list_dir_words(1) [OF ld])
  have "unchanged vw s s' \<and> (\<forall>v. r = Inr v \<longrightarrow> v = (if xs = [] then None else Some (last xs)))
      \<and> (v_calm vw s \<longrightarrow> \<not> isl r \<and> v_calm vw s')"
  proof (cases rn)
    case (Inl e)
    with run rd r1 w ad show ?thesis by auto
  next
    case (Inr n)
    then have n: "n = end_of ns" using r1(2) w by simp
    show ?thesis
    proof (cases "ns = []")
      case True
      have "xs = []" using ld True by (simp add: list_dir_def)
      with run rd Inr n True r1 w ad show ?thesis by auto
    next
      case False
      then have ne: "xs \<noteq> []" using ld by (simp add: list_dir_def)
      have al1: "list_along vw handle H E F kf kb s1 ns xs"
        by (rule list_along_kept [OF al d frame_unchanged [OF r1(1), of "{}"]]) simp
      have ln: "n = last ns" using n False by (simp add: end_of_def)
      note la = last_node [OF al1 False, of 32]
      obtain rv s2 where rd2: "read_u64 io (n + 32) s1 = (rv, s2)" by fastforce
      have g1: "v_good vw s1" using al1 by (simp add: list_along_def)
      note r2 = read_word_ok [OF g1 rd2]
      have w2: "word_at (v_bytes vw s1) (unat (n + 32)) = last xs"
      proof -
        have "list_dir E F kf kb (v_bytes vw s1) (unat handle) ns xs" using al1 by (simp add: list_along_def)
        then have "last xs = word_at (v_bytes vw s1) (unat (last ns) + 32)" using False by (simp add: list_dir_def last_map)
        with la(3) ln show ?thesis by simp
      qed
      have "(r, s') = try_s (rv, s2) (\<lambda>v s2. (Inr (Some v), s2))"
        using run rd Inr la(1) rd2 ln la(2) [unfolded of_nat_numeral] by (simp del: checked_off_Inr)
      with r1 r2 w2 la(3,4) ln ne w ad unchanged_trans [OF r1(1) r2(1)] show ?thesis by (cases rv) auto
    qed
  qed
  then show "unchanged vw s s'" "\<forall>v. r = Inr v \<longrightarrow> v = (if xs = [] then None else Some (last xs))"
    "v_calm vw s \<Longrightarrow> \<not> isl r \<and> v_calm vw s'" by simp_all
qed

lemma list_inv_along:
  "list_along vw handle H 24 16 24 16 s ns xs \<Longrightarrow> list_inv vw handle H s (list_blocks H ns) xs"
  "list_along vw handle H 16 24 16 24 s ns xs \<Longrightarrow> list_inv vw handle H s (list_blocks H ns) (rev xs)"
proof -
  show "list_at vw handle H s ns xs \<Longrightarrow> list_inv vw handle H s (list_blocks H ns) xs" by (auto simp: list_inv_def)
  show "list_along vw handle H 16 24 16 24 s ns xs \<Longrightarrow> list_inv vw handle H s (list_blocks H ns) (rev xs)"
    using list_along_rev [of vw handle H 16 24 16 24 s ns xs] unfolding list_inv_def by (intro exI [of _ "rev ns"]) simp
qed

text \<open>The two outcomes, read from front to back: \<open>turn\<close> is the identity or the reversal.\<close>

lemma linked_step:
  assumes l: "list_linked vw handle H E F kf kb s ns ys val r s'"
    and conv: "\<And>s ms zs. list_along vw handle H E F kf kb s ms zs \<Longrightarrow> list_inv vw handle H s (list_blocks H ms) (turn zs)"
    and at: "turn ys = xs" "turn (ys @ [val]) = ends_after oper xs" "ends_answer oper xs = None" "\<not> no_alloc oper"
    and q: "q = (case r of Inl e \<Rightarrow> Inl e | Inr _ \<Rightarrow> Inr None)"
  shows "\<exists>R' zs. list_inv vw handle H s' R' zs \<and> owns_frame vw s (list_blocks H ns) s' R' \<and> list_step xs oper q zs
    \<and> (v_calm vw s \<longrightarrow> v_calm vw s' \<and> (no_alloc oper \<longrightarrow> \<not> isl q))"
proof -
  obtain ms where ms: "owns_frame vw s (list_blocks H ns) s' (list_blocks H ms)"
    "list_along vw handle H E F kf kb s' ms (case r of Inl _ \<Rightarrow> ys | Inr _ \<Rightarrow> ys @ [val])" "v_calm vw s \<longrightarrow> v_calm vw s'"
    using l by (auto simp: list_linked_def)
  have "list_step xs oper q (turn (case r of Inl _ \<Rightarrow> ys | Inr _ \<Rightarrow> ys @ [val]))"
    using at q by (cases r) (simp_all add: list_step_def)
  with conv [OF ms(2)] ms(1,3) at(4) show ?thesis by blast
qed

lemma popped_step:
  assumes l: "list_popped vw handle H E F kf kb s ns ys r s'"
    and conv: "\<And>s ms zs. list_along vw handle H E F kf kb s ms zs \<Longrightarrow> list_inv vw handle H s (list_blocks H ms) (turn zs)"
    and at: "turn ys = xs" "turn (butlast ys) = ends_after oper xs" "ends_answer oper xs = (if ys = [] then None else Some (last ys))"
      "(xs = []) = (ys = [])" "oper \<in> {PopBack, PopFront}"
  shows "\<exists>R' zs. list_inv vw handle H s' R' zs \<and> owns_frame vw s (list_blocks H ns) s' R' \<and> list_step xs oper r zs
    \<and> (v_calm vw s \<longrightarrow> v_calm vw s' \<and> (no_alloc oper \<longrightarrow> \<not> isl r))"
proof -
  obtain ms zs where ms: "owns_frame vw s (list_blocks H ns) s' (list_blocks H ms)" "list_along vw handle H E F kf kb s' ms zs"
    and c: "case r of Inl _ \<Rightarrow> zs = ys \<or> ys \<noteq> [] \<and> zs = butlast ys
      | Inr v \<Rightarrow> zs = butlast ys \<and> v = (if ys = [] then None else Some (last ys))"
    and calm: "v_calm vw s \<longrightarrow> v_calm vw s' \<and> \<not> isl r"
    using l by (auto simp: list_popped_def)
  have "list_step xs oper r (turn zs)"
    using at c by (cases r) (auto simp: list_step_def)
  with conv [OF ms(2)] ms(1) calm show ?thesis by blast
qed

lemma list_exec_ok:
  assumes inv: "list_inv vw handle H s R xs" and wf: "wf_eightcc vtag"
  shows "\<exists>r s' R' ys. list_exec io vtag handle oper s = Some (r, s') \<and> list_inv vw handle H s' R' ys
    \<and> owns_frame vw s R s' R' \<and> list_step xs oper r ys \<and> (v_calm vw s \<longrightarrow> v_calm vw s' \<and> (no_alloc oper \<longrightarrow> \<not> isl r))"
proof -
  obtain ns where R: "R = list_blocks H ns" and at: "list_along vw handle H 24 16 24 16 s ns xs"
    using inv by (auto simp: list_inv_def)
  have fr: "list_along vw handle H 16 24 16 24 s (rev ns) (rev xs)" using at list_along_rev [of vw handle H 24 16 24 16 s ns xs] by simp
  have nv: "NVAL_OFF = 32" by (simp add: list_offsets)
  have reads: ?thesis
    if e: "list_exec io vtag handle oper s = Some (r, s')" and u: "unchanged vw s s'"
      and a: "\<forall>v. r = Inr v \<longrightarrow> v = ends_answer oper xs" and k: "ends_after oper xs = xs"
      and c: "v_calm vw s \<Longrightarrow> \<not> isl r \<and> v_calm vw s'" for r s'
  proof -
    have k0: "kept vw {} s s'" by (rule frame_unchanged [OF u])
    have "list_step xs oper r xs" using a k by (cases r) (simp_all add: list_step_def)
    moreover have "owns_frame vw s R s' R" by (rule owns_frame_same [OF frame_unchanged [OF u] subset_refl])
    moreover have "list_inv vw handle H s' R xs"
      unfolding R by (intro list_inv_along(1) list_along_kept [OF at dir_back k0]) simp
    ultimately show ?thesis using e c by blast
  qed
  show ?thesis
  proof (cases oper)
    case (PushBack v)
    obtain r s' where l: "list_link io [handle + LIST_TAIL_OFF, handle + LIST_LEN_OFF]
        (\<lambda>node. list_push_back_plan vtag handle node v) s = (r, s')" by fastforce
    have "list_linked vw handle H 24 16 24 16 s ns xs v r s'"
      by (rule list_link_ok [OF at dir_back push_back_linked])
        (use l wf in \<open>simp_all add: length_node_image node_image_words list_offsets\<close>)
    from linked_step [OF this list_inv_along(1), where oper = oper and xs = xs and q = "case r of Inl e \<Rightarrow> Inl e | Inr _ \<Rightarrow> Inr None"] PushBack l R
    show ?thesis by (cases r) (auto simp: list_exec_def list_push_back_def finish_handback_def)
  next
    case (PushFront v)
    obtain r s' where l: "list_link io [handle + LIST_HEAD_OFF, handle + LIST_LEN_OFF]
        (\<lambda>node. list_push_front_plan vtag handle node v) s = (r, s')" by fastforce
    have "list_linked vw handle H 16 24 16 24 s (rev ns) (rev xs) v r s'"
      by (rule list_link_ok [OF fr dir_front push_front_linked])
        (use l wf in \<open>simp_all add: length_node_image node_image_words list_offsets\<close>)
    from linked_step [OF this list_inv_along(2), where oper = oper and xs = xs and q = "case r of Inl e \<Rightarrow> Inl e | Inr _ \<Rightarrow> Inr None"] PushFront l R
    show ?thesis by (cases r) (auto simp: list_exec_def list_push_front_def finish_handback_def)
  next
    case PopBack
    obtain r s' where p: "list_pop_back io handle s = (r, s')" by (cases "list_pop_back io handle s")
    have "list_popped vw handle H 24 16 24 16 s ns xs r s'"
      by (rule list_unlink_ok [OF at dir_back pop_back_unlinked])
        (use p in \<open>simp add: list_pop_back_def list_offsets\<close>)
    then have "\<exists>R' zs. list_inv vw handle H s' R' zs \<and> owns_frame vw s (list_blocks H ns) s' R' \<and> list_step xs oper r zs
        \<and> (v_calm vw s \<longrightarrow> v_calm vw s' \<and> (no_alloc oper \<longrightarrow> \<not> isl r))"
      by (rule popped_step [OF _ list_inv_along(1)]) (use PopBack in simp_all)
    moreover have "list_exec io vtag handle oper s = Some (r, s')" using PopBack p by (simp add: list_exec_def)
    ultimately show ?thesis using R by blast
  next
    case PopFront
    obtain r s' where p: "list_pop_front io handle s = (r, s')" by (cases "list_pop_front io handle s")
    have pp: "list_popped vw handle H 16 24 16 24 s (rev ns) (rev xs) r s'"
      by (rule list_unlink_ok [OF fr dir_front pop_front_unlinked])
        (use p in \<open>simp add: list_pop_front_def list_offsets\<close>)
    have tl: "rev (butlast (rev xs)) = tl xs" by (cases xs) simp_all
    have "\<exists>R' zs. list_inv vw handle H s' R' zs \<and> owns_frame vw s (list_blocks H (rev ns)) s' R' \<and> list_step xs oper r zs
        \<and> (v_calm vw s \<longrightarrow> v_calm vw s' \<and> (no_alloc oper \<longrightarrow> \<not> isl r))"
      by (rule popped_step [where turn = rev, OF pp list_inv_along(2)]) (use PopFront tl in \<open>simp_all add: last_rev\<close>)
    moreover have "list_exec io vtag handle oper s = Some (r, s')" using PopFront p by (simp add: list_exec_def)
    ultimately show ?thesis using R by (simp only: list_blocks_rev) blast
  next
    case Front
    obtain r s' where p: "list_front io handle s = (r, s')" by (cases "list_front io handle s")
    have "try_s (read_u64 io (handle + of_nat 16) s) (\<lambda>n s1.
       if n = 0 then (Inr None, s1)
       else try_in (checked_off n 32) s1 (\<lambda>off. try_s (read_u64 io off s1) (\<lambda>v s2. (Inr (Some v), s2)))) = (r, s')"
      using p unfolding list_front_def nv by (simp add: list_offsets del: checked_off_Inr)
    note pk = list_peek_ok [OF fr dir_front this]
    have "(if rev xs = [] then None else Some (last (rev xs))) = ends_answer oper xs" using Front by (simp add: last_rev)
    note answer = pk(2) [unfolded this]
    show ?thesis by (rule reads [OF _ pk(1) answer _ pk(3)]) (use Front p in \<open>simp_all add: list_exec_def\<close>)
  next
    case Back
    obtain r s' where p: "list_back io handle s = (r, s')" by (cases "list_back io handle s")
    have "try_s (read_u64 io (handle + of_nat 24) s) (\<lambda>n s1.
       if n = 0 then (Inr None, s1)
       else try_in (checked_off n 32) s1 (\<lambda>off. try_s (read_u64 io off s1) (\<lambda>v s2. (Inr (Some v), s2)))) = (r, s')"
      using p unfolding list_back_def nv by (simp add: list_offsets del: checked_off_Inr)
    note pk = list_peek_ok [OF at dir_back this]
    show ?thesis by (rule reads [of r s']) (use Back p pk in \<open>simp_all add: list_exec_def\<close>)
  next
    case Len
    obtain rn s' where p: "list_len io handle s = (rn, s')" by (cases "list_len io handle s")
    have g: "v_good vw s" and ld: "list_dir 24 16 24 16 (v_bytes vw s) (unat handle) ns xs" using at by (simp_all add: list_along_def)
    note rw = read_word_ok [OF g p [unfolded list_len_def]] and ad = list_addr [OF at, of 32]
    have "of_nat (length xs) = (of_nat (unat (word_at (v_bytes vw s) (unat handle + 32))) :: u64)"
      using list_dir_words(3,4) [OF ld] by simp
    then have "word_at (v_bytes vw s) (unat handle + 32) = of_nat (length xs)" by simp
    with Len p rw ad show ?thesis
      by (intro reads [of "try_r rn (\<lambda>n. Inr (Some n))" s']; cases rn) (auto simp: list_exec_def list_offsets)
  qed
qed

end

sublocale stack_laws \<subseteq> linked: container vw "list_exec io vtag handle" "\<lambda>s R xs. wf_eightcc vtag \<and> list_inv vw handle H s R xs"
  list_step "\<lambda>_. True" no_alloc for vtag handle H
proof unfold_locales
  show "v_good vw s" if "wf_eightcc vtag \<and> list_inv vw handle H s R a" for s R a
    using that by (auto simp: list_inv_def list_along_def)
qed (use list_exec_ok in blast)

section \<open>Iteration\<close>

definition list_left :: "'s stack_view \<Rightarrow> u64 \<Rightarrow> range \<Rightarrow> 's \<Rightarrow> u64 list \<Rightarrow> list_iter \<Rightarrow> bool" where
  "list_left vw handle H s ys it \<longleftrightarrow>
     (\<exists>ns xs i. list_at vw handle H s ns xs \<and> i \<le> length ns \<and> ys = drop i xs
        \<and> li_block it = handle \<and> unat (li_len0 it) = length ns \<and> li_cur it = (if i < length ns then ns ! i else 0)
        \<and> unat (li_remaining it) = length ns - i)"

context stack_laws
begin

lemma list_iter_next_ok:
  assumes left: "list_left vw handle H s (x # xs) it" and run: "list_iter_next io it s = (r, it', s')"
  shows "unchanged vw s s' \<and> (r = Some (Inr x) \<and> list_left vw handle H s' xs it'
      \<or> (\<exists>e. r = Some (Inl e)) \<and> list_iter_next io it' s' = (None, it', s'))
    \<and> (v_calm vw s \<longrightarrow> r = Some (Inr x) \<and> v_calm vw s')"
proof -
  obtain ns ys i where at: "list_at vw handle H s ns ys" and dr: "x # xs = drop i ys" and b: "li_block it = handle"
    and l0: "unat (li_len0 it) = length ns" and cur: "li_cur it = (if i < length ns then ns ! i else 0)"
    and rem: "unat (li_remaining it) = length ns - i"
    using left unfolding list_left_def by blast
  have g: "v_good vw s" and ld: "list_dir 24 16 24 16 (v_bytes vw s) (unat handle) ns ys" using at by (simp_all add: list_along_def)
  note lw = list_dir_words [OF ld] and ad = list_addr [OF at, of 32]
  have iy: "i < length ys" using dr by (metis drop_eq_Nil leI list.distinct(1))
  then have i: "i < length ns" using lw(4) by simp
  have d: "x = ys ! i" "xs = drop (Suc i) ys" using dr unfolding Cons_nth_drop_Suc [OF iy, symmetric] by simp_all
  define n where "n = ns ! i"
  have nl: "(n, NODE_SIZE) \<in> v_live vw s" using at i by (auto simp: n_def list_along_def node_blocks_def)
  note na = node_addr [OF g nl, of 24] and na32 = node_addr [OF g nl, of 32]
  have n0: "n \<noteq> 0" using na by simp
  have cn: "li_cur it = n" using cur i by (simp add: n_def)
  have rz: "li_remaining it \<noteq> 0" using rem i by auto
  obtain rl s1 where r1: "read_u64 io (handle + LIST_LEN_OFF) s = (rl, s1)" by (cases "read_u64 io (handle + LIST_LEN_OFF) s")
  note w1 = read_word_ok [OF g r1]
  have len: "word_at (v_bytes vw s) (unat (handle + LIST_LEN_OFF)) = li_len0 it"
    using lw(3) l0 ad by (simp add: list_offsets word_unat_eq_iff)
  have g1: "v_good vw s1" and b1: "v_bytes vw s1 = v_bytes vw s" using w1(1) by (simp_all add: unchanged_def)
  have co: "checked_off n NNEXT_OFF = Inr (n + 24)" using na(1) by (simp add: list_offsets)
  obtain rf s2 where r2: "read_fields io 2 (n + 24) s1 = (rf, s2)" by (cases "read_fields io 2 (n + 24) s1")
  note w2 = read_words_ok [OF g1 r2]
  have fs: "fs = [word_at (v_bytes vw s) (unat n + 24), x]" if "rf = Inr fs" for fs
    using w2(2) [OF that] na na32 lw(5) [OF i] d(1) by (simp add: b1 n_def upt_rec numeral_2_eq_2 add.assoc)
  have calm: "\<not> isl rl \<and> \<not> isl rf \<and> v_calm vw s2" if "v_calm vw s"
    using w1(3) [OF that] w2(3) that ad na32(3) na(2) b1 by (auto simp: list_offsets)
  have step: "list_iter_next io it s =
     (case rl of
        Inl e \<Rightarrow> (Some (Inl e), it\<lparr>li_cur := 0\<rparr>, s1)
      | Inr _ \<Rightarrow> (case rf of
          Inl e \<Rightarrow> (Some (Inl e), it\<lparr>li_remaining := li_remaining it - 1, li_cur := 0\<rparr>, s2)
        | Inr fs \<Rightarrow> (Some (Inr (fs ! 1)), it\<lparr>li_remaining := li_remaining it - 1, li_cur := fs ! 0\<rparr>, s2)))"
  proof (cases rl)
    case (Inl e)
    with cn n0 b r1 show ?thesis by (simp add: list_iter_next_def Let_def)
  next
    case (Inr v)
    then have "v = li_len0 it" using w1(2) len by simp
    with Inr cn n0 b r1 rz co r2 show ?thesis by (simp add: list_iter_next_def Let_def del: checked_off_Inr split: sum.split)
  qed
  have stop: "list_iter_next io it2 t = (None, it2, t)" if "li_cur it2 = 0" for it2 t
    using that by (simp add: list_iter_next_def)
  show ?thesis
  proof (cases rl)
    case (Inl e)
    with step run w1(1) calm stop show ?thesis by auto
  next
    case r: (Inr v)
    have u: "unchanged vw s s2" by (rule unchanged_trans [OF w1(1) w2(1)])
    show ?thesis
    proof (cases rf)
      case (Inl e)
      with r step run u calm stop show ?thesis by auto
    next
      case (Inr fs)
      have out: "r = Some (Inr x)" "it' = it\<lparr>li_remaining := li_remaining it - 1, li_cur := fs ! 0\<rparr>" "s' = s2"
        using step run r Inr fs by auto
      have k0: "kept vw {} s s2" by (rule frame_unchanged [OF u])
      have "list_left vw handle H s2 xs it'"
        unfolding list_left_def
      proof (intro exI conjI)
        show "list_at vw handle H s2 ns ys" by (rule list_along_kept [OF at dir_back k0]) simp
        show "Suc i \<le> length ns" "xs = drop (Suc i) ys" "li_block it' = handle" "unat (li_len0 it') = length ns"
          using i d(2) out(2) b l0 by simp_all
        show "li_cur it' = (if Suc i < length ns then ns ! Suc i else 0)"
          using out(2) fs [OF Inr] lw(6) [OF i] by (simp add: n_def)
        show "unat (li_remaining it') = length ns - Suc i"
          using out(2) rem rz by (simp add: unat_minus_one)
      qed
      with out u calm show ?thesis by auto
    qed
  qed
qed

end

sublocale stack_laws \<subseteq> linked_iteration: iterator vw "list_iter_next io" "list_left vw handle H" for handle H
proof unfold_locales
  show "v_good vw s" if "list_left vw handle H s xs it" for s xs it
    using that by (auto simp: list_left_def list_along_def)
  show "list_iter_next io it s = (None, it, s)" if "list_left vw handle H s [] it" for s it
    using that by (auto simp: list_left_def list_iter_next_def list_along_def list_dir_def)
qed (rule list_iter_next_ok)

context stack_laws
begin

lemma list_iter_new_ok:
  assumes inv: "list_inv vw handle H s R xs" and new: "list_iter_new io handle s = (r, s')"
  shows "unchanged vw s s'" and "r = Inr it \<Longrightarrow> list_left vw handle H s' xs it" and "v_calm vw s \<Longrightarrow> \<not> isl r \<and> v_calm vw s'"
proof -
  obtain ns where at: "list_at vw handle H s ns xs" using inv by (auto simp: list_inv_def)
  have g: "v_good vw s" and ld: "list_dir 24 16 24 16 (v_bytes vw s) (unat handle) ns xs" using at by (simp_all add: list_along_def)
  note lw = list_dir_words [OF ld] and ad = list_addr [OF at, of 16] and ad32 = list_addr [OF at, of 32]
  obtain rh s1 where r1: "read_u64 io (handle + LIST_HEAD_OFF) s = (rh, s1)" by (cases "read_u64 io (handle + LIST_HEAD_OFF) s")
  note w1 = read_word_ok [OF g r1]
  have g1: "v_good vw s1" and b1: "v_bytes vw s1 = v_bytes vw s" using w1(1) by (simp_all add: unchanged_def)
  obtain rl s2 where r2: "list_len io handle s1 = (rl, s2)" by (cases "list_len io handle s1")
  note w2 = read_word_ok [OF g1 r2 [unfolded list_len_def]]
  show u: "unchanged vw s s'"
    using new r1 r2 w1(1) unchanged_trans [OF w1(1) w2(1)] by (cases rh; cases rl) (simp_all add: list_iter_new_def)
  show "v_calm vw s \<Longrightarrow> \<not> isl r \<and> v_calm vw s'"
    using new r1 r2 w1(3) w2(3) ad(1,2) ad32(1,2) b1
    by (cases rh; cases rl) (simp_all add: list_iter_new_def, simp_all add: list_offsets, metis isl_def sum.disc(2))
  assume it: "r = Inr it"
  obtain head where h1: "rh = Inr head" using it new r1 by (cases rh) (simp_all add: list_iter_new_def)
  obtain len where h2: "rl = Inr len" using it new r1 r2 h1 by (cases rl) (simp_all add: list_iter_new_def)
  have h: "rh = Inr head" "rl = Inr len" "s' = s2" "it = \<lparr>li_block = handle, li_len0 = len, li_cur = head, li_remaining = len\<rparr>"
    using it new r1 r2 h1 h2 by (simp_all add: list_iter_new_def)
  have v: "head = end_of (rev ns)" "unat len = length ns"
    using w1(2) [OF h(1)] w2(2) [OF h(2)] lw(2,3) ad ad32 b1 by (simp_all add: list_offsets)
  have k0: "kept vw {} s s'" by (rule frame_unchanged [OF u])
  show "list_left vw handle H s' xs it"
    unfolding list_left_def
  proof (intro exI conjI)
    show "list_at vw handle H s' ns xs" by (rule list_along_kept [OF at dir_back k0]) simp
    show "(0::nat) \<le> length ns" "xs = drop 0 xs" by simp_all
    show "li_cur it = (if 0 < length ns then ns ! 0 else 0)" using v(1) h(4) by (cases ns) (simp_all add: end_of_rev)
  qed (use h(4) v(2) in simp_all)
qed

lemma linked_run:
  assumes "wf_eightcc vtag" and "list_inv vw handle H s R xs"
  shows "\<exists>rs s' R' ys. run_ops (list_exec io vtag handle) ops s = Some (rs, s') \<and> list_inv vw handle H s' R' ys
    \<and> owns_frame vw s R s' R' \<and> trace list_step xs ops rs ys
    \<and> (v_calm vw s \<longrightarrow> list_all2 (\<lambda>oper r. no_alloc oper \<longrightarrow> \<not> isl r) ops rs)"
  using linked.run_simulates [of vtag handle H s R xs ops] assms by blast

lemma list_iterates:
  assumes inv: "list_inv vw handle H s R xs" and new: "list_iter_new io handle s = (Inr it, s1)"
  shows "\<exists>rs s'. drain (length xs + 2) (list_iter_next io) it s1 = Some (rs, s') \<and> unchanged vw s s' \<and> yields xs rs
    \<and> (v_calm vw s \<longrightarrow> rs = map Inr xs)"
proof -
  note n = list_iter_new_ok [OF inv new]
  obtain rs s' where "drain (length xs + 2) (list_iter_next io) it s1 = Some (rs, s')" "unchanged vw s1 s'" "yields xs rs"
    "v_calm vw s1 \<longrightarrow> rs = map Inr xs"
    using linked_iteration.drain_yields [OF n(2) [OF refl]] by blast
  with n(3) unchanged_trans [OF n(1)] show ?thesis by blast
qed

end

section \<open>A sample list\<close>

text \<open>A list at 16 with the nodes at 56 and 96 and the elements 11 and 22.\<close>

definition sample_list :: mem where
  "sample_list = \<lparr>m_bytes = concat (map to_le64 [0, 0, 40, 0, 56, 96, 2, 40, 0, 0, 96, 11, 40, 0, 56, 0, 22]) @ [],
     m_live = [(16, 40), (56, 40), (96, 40)], m_faults = []\<rparr>"

lemma sample_list_inv: "list_inv mem_view 16 (16, 40) sample_list {(16, 40), (56, 40), (96, 40)} [11, 22]"
proof -
  let ?b = "m_bytes sample_list"
  have w: "word_at ?b (8 * i) = [0, 0, 40, 0, 56, 96, 2, 40, 0, 0, 96, 11, 40, 0, 56, 0, 22] ! i" if "i < 17" for i
    using word_at_words [of i "[0, 0, 40, 0, 56, 96, 2, 40, 0, 0, 96, 11, 40, 0, 56, 0, 22]" "[]"] that
    unfolding sample_list_def by simp
  have "length ?b = 136" by (simp add: sample_list_def)
  then have g: "v_good mem_view sample_list"
    by (simp add: mem_view_simps mem_good_def range_end_def apart_def) (auto simp: sample_list_def)
  have live: "m_live sample_list = [(16, 40), (56, 40), (96, 40)]" by (simp add: sample_list_def)
  have "list_dir 24 16 24 16 ?b 16 [56, 96] [11, 22]"
    using w [of 4] w [of 5] w [of 6] w [of 9] w [of 10] w [of 11] w [of 14] w [of 15] w [of 16]
    by (simp add: list_dir_def end_of_def)
  then have "list_at mem_view 16 (16, 40) sample_list [56, 96] [11, 22]"
    using g live by (simp add: list_along_def mem_view_simps inside_def range_end_def node_blocks_def NODE_SIZE_def)
  then show ?thesis unfolding list_inv_def
    by (intro exI [of _ "[56, 96]"]) (simp add: list_blocks_def node_blocks_def NODE_SIZE_def)
qed

section \<open>Claims\<close>

text \<open>C37: A sequence of pushes, pops, peeks and length queries at both ends of a linked list, over a store
  that may fail at any call, simulates the same sequence on a list: each answer is the list's or is an
  error that left the list as it was, except that a pop whose node could not be freed reports an error
  for an element it removed. Only blocks of the list change, and on a store that does not fail by itself
  only a push can fail.\<close>

theorem list_run_refines:
  assumes "stack_laws io vw" and "wf_eightcc vtag" and "list_inv vw handle H s R xs"
  shows "\<exists>rs s' R' ys. run_ops (list_exec io vtag handle) ops s = Some (rs, s') \<and> list_inv vw handle H s' R' ys
    \<and> owns_frame vw s R s' R' \<and> trace list_step xs ops rs ys
    \<and> (v_calm vw s \<longrightarrow> list_all2 (\<lambda>oper r. no_alloc oper \<longrightarrow> \<not> isl r) ops rs)"
  using stack_laws.linked_run [OF assms] .

theorem list_run_refines_witness:
  "\<exists>rs s' R' ys. run_ops (list_exec mem_io (EightCC (replicate 8 1)) 16) [PushFront 7, PopBack, Len] sample_list = Some (rs, s')
    \<and> list_inv mem_view 16 (16, 40) s' R' ys
    \<and> owns_frame mem_view sample_list {(16, 40), (56, 40), (96, 40)} s' R'
    \<and> trace list_step [11, 22] [PushFront 7, PopBack, Len] rs ys
    \<and> (v_calm mem_view sample_list \<longrightarrow> list_all2 (\<lambda>oper r. no_alloc oper \<longrightarrow> \<not> isl r) [PushFront 7, PopBack, Len] rs)"
  by (rule list_run_refines [OF mem.stack_laws_axioms _ sample_list_inv]) (simp add: wf_eightcc_def)

text \<open>C39: Iterating over a linked list changes nothing and ends: it yields the elements from front to
  back, all of them or some followed by one error, and all of them when the store does not fail by itself.\<close>

theorem list_iteration_complete:
  assumes "stack_laws io vw" and "list_inv vw handle H s R xs" and "list_iter_new io handle s = (Inr it, s1)"
  shows "\<exists>rs s'. drain (length xs + 2) (list_iter_next io) it s1 = Some (rs, s') \<and> unchanged vw s s' \<and> yields xs rs
    \<and> (v_calm vw s \<longrightarrow> rs = map Inr xs)"
  by (rule stack_laws.list_iterates [OF assms])

theorem list_iteration_complete_witness:
  "\<exists>it s1 rs s'. list_iter_new mem_io 16 sample_list = (Inr it, s1)
    \<and> drain (length [11, 22 :: u64] + 2) (list_iter_next mem_io) it s1 = Some (rs, s') \<and> rs = [Inr 11, Inr 22]"
proof -
  have calm: "v_calm mem_view sample_list" by (simp add: mem_view_simps sample_list_def)
  obtain r s1 where n: "list_iter_new mem_io 16 sample_list = (r, s1)" by (cases "list_iter_new mem_io 16 sample_list")
  with stack_laws.list_iter_new_ok(3) [OF mem.stack_laws_axioms sample_list_inv n calm]
  obtain it where e: "list_iter_new mem_io 16 sample_list = (Inr it, s1)" by (cases r) auto
  with list_iteration_complete [OF mem.stack_laws_axioms sample_list_inv e] calm show ?thesis by auto
qed

end
