(* ===== verification/Emptying.thy ===== *)
theory Emptying
  imports DequeRuns LinkedListRuns Collecting
begin

text \<open>
  The teardown of the children of a deque and of a linked list inside the transaction of an owned
  teardown: the frees go to the sink, each element's and each block of the collection once.
\<close>

section \<open>The linked list\<close>

context stack_laws
begin

lemma list_drop_loop_ok:
  assumes io: "al_io al = io" and hands: "hands_over vw al fr drop_value"
  shows "collected vw al t [] t \<Longrightarrow> list_at vw handle H (th_store t) ns xs \<Longrightarrow> n = length ns - i \<Longrightarrow> i \<le> length ns \<Longrightarrow>
    \<exists>t'. list_drop_loop n al drop_value (if i < length ns then ns ! i else 0) t = (Inr (), t')
      \<and> collected vw al t (concat (map (\<lambda>(m, x). element_frees fr x @ [(al_file al, (m, NODE_SIZE))]) (zip (drop i ns) (drop i xs)))) t'"
proof (induction n arbitrary: i t)
  case 0
  then show ?case by simp
next
  case (Suc n)
  note c = Suc.prems(1) and at = Suc.prems(2)
  have g: "v_good vw (th_store t)" and ld: "list_dir 24 16 24 16 (v_bytes vw (th_store t)) (unat handle) ns xs"
    using at by (simp_all add: list_along_def)
  note lw = list_dir_words [OF ld]
  have i: "i < length ns" "n = length ns - Suc i" using Suc.prems(3) by simp_all
  define m where "m = ns ! i"
  have ml: "(m, NODE_SIZE) \<in> v_live vw (th_store t)" using at i by (auto simp: m_def list_along_def node_blocks_def)
  note a24 = node_addr [OF g ml, of 24, simplified] and a32 = node_addr [OF g ml, of 32, simplified]
  let ?nx = "if Suc i < length ns then ns ! Suc i else 0"
  obtain t1 where r1: "on_store (read_u64 (al_io al) (m + 24)) t = (Inr ?nx, t1)" and c1: "collected vw al t [] t1"
    using read_collected [OF io c g, of "m + 24"] a24(2,3) lw(6) [OF i(1)] by (auto simp: m_def)
  have g1: "v_good vw (th_store t1)" and b1: "v_bytes vw (th_store t1) = v_bytes vw (th_store t)"
    using collected_stateD [OF c1] by (simp_all add: unchanged_def)
  obtain t2 where r2: "on_store (read_u64 (al_io al) (m + 32)) t1 = (Inr (xs ! i), t2)" and c2: "collected vw al t1 [] t2"
    using read_collected [OF io collected_here [OF c1] g1, of "m + 32"] a32(2,3) lw(5) [OF i(1)] b1 by (auto simp: m_def)
  obtain t3 where r3: "(if xs ! i \<noteq> 0 then drop_value (xs ! i) t2 else (Inr (), t2)) = (Inr (), t3)"
    and c3: "collected vw al t2 (element_frees fr (xs ! i)) t3"
    using element_collected [OF hands collected_here [OF c2]] by blast
  obtain t4 where r4: "dealloc_range al (m, NODE_SIZE) t3 = (Inr (), t4)" and c4: "collected vw al t3 [(al_file al, (m, NODE_SIZE))] t4"
    using dealloc_collected [OF collected_here [OF c3]] by blast
  have c04: "collected vw al t (element_frees fr (xs ! i) @ [(al_file al, (m, NODE_SIZE))]) t4"
    using collected_trans [OF collected_trans [OF collected_trans [OF c1 c2] c3] c4] by simp
  have k: "kept vw {} (th_store t) (th_store t4)" using collected_stateD [OF c04] by (simp add: frame_unchanged)
  have at4: "list_at vw handle H (th_store t4) ns xs" by (rule list_along_kept [OF at dir_back k]) simp
  obtain t' where l: "list_drop_loop n al drop_value ?nx t4 = (Inr (), t')"
    and ct: "collected vw al t4 (concat (map (\<lambda>(m, x). element_frees fr x @ [(al_file al, (m, NODE_SIZE))])
      (zip (drop (Suc i) ns) (drop (Suc i) xs)))) t'"
    using Suc.IH [OF collected_here [OF c4] at4 i(2)] i(1) by auto
  have co: "checked_off m NNEXT_OFF = Inr (m + 24)" "checked_off m NVAL_OFF = Inr (m + 32)"
    using a24(1) a32(1) by (simp_all add: list_offsets)
  have "m \<noteq> 0" using a24 by simp
  then have "list_drop_loop (Suc n) al drop_value m t = (Inr (), t')"
    using co r1 r2 r3 r4 l by (simp del: checked_off_Inr)
  moreover have "drop i ns = m # drop (Suc i) ns" "drop i xs = xs ! i # drop (Suc i) xs"
    using i(1) lw(4) by (simp_all add: Cons_nth_drop_Suc m_def)
  ultimately show ?case using collected_trans [OF c04 ct] i(1) by (simp add: m_def)
qed

lemma list_teardown_ok:
  assumes io: "al_io al = io" and hands: "hands_over vw al fr drop_value"
    and c: "collected vw al t [] t" and inv: "list_inv vw (fst q) H (th_store t) R xs"
  shows "\<exists>ns t'. list_drop_children al drop_value q t = (Inr (), t') \<and> R = list_blocks H ns \<and> distinct ns \<and> length ns = length xs
    \<and> collected vw al t (concat (map (\<lambda>(m, x). element_frees fr x @ [(al_file al, (m, NODE_SIZE))]) (zip ns xs))) t'"
proof -
  obtain ns where R: "R = list_blocks H ns" and at: "list_at vw (fst q) H (th_store t) ns xs"
    using inv by (auto simp: list_inv_def)
  have g: "v_good vw (th_store t)" and ld: "list_dir 24 16 24 16 (v_bytes vw (th_store t)) (unat (fst q)) ns xs" and di: "distinct ns"
    using at by (simp_all add: list_along_def)
  note lw = list_dir_words [OF ld] and a16 = list_addr [OF at, of 16, simplified] and a32 = list_addr [OF at, of 32, simplified]
  obtain t1 where r1: "on_store (read_u64 (al_io al) (fst q + LIST_HEAD_OFF)) t = (Inr (end_of (rev ns)), t1)" and c1: "collected vw al t [] t1"
    using read_collected [OF io c g, of "fst q + LIST_HEAD_OFF"] a16 lw(2) by (auto simp: list_offsets)
  have g1: "v_good vw (th_store t1)" and b1: "v_bytes vw (th_store t1) = v_bytes vw (th_store t)"
    using collected_stateD [OF c1] by (simp_all add: unchanged_def)
  obtain len t2 where r2: "on_store (read_u64 (al_io al) (fst q + LIST_LEN_OFF)) t1 = (Inr len, t2)" and c2: "collected vw al t1 [] t2"
    and len: "unat len = length ns"
    using read_collected [OF io collected_here [OF c1] g1, of "fst q + LIST_LEN_OFF"] a32 lw(3) b1 by (auto simp: list_offsets)
  have c02: "collected vw al t [] t2" using collected_trans [OF c1 c2] by simp
  have k: "kept vw {} (th_store t) (th_store t2)" using collected_stateD [OF c02] by (simp add: frame_unchanged)
  have at2: "list_at vw (fst q) H (th_store t2) ns xs" by (rule list_along_kept [OF at dir_back k]) simp
  have first: "end_of (rev ns) = (if 0 < length ns then ns ! 0 else 0)" by (cases ns) (simp_all add: end_of_rev)
  obtain t' where l: "list_drop_loop (length ns) al drop_value (end_of (rev ns)) t2 = (Inr (), t')"
    and ct: "collected vw al t2 (concat (map (\<lambda>(m, x). element_frees fr x @ [(al_file al, (m, NODE_SIZE))]) (zip ns xs))) t'"
    using list_drop_loop_ok [OF io hands collected_here [OF c02] at2, of "length ns" 0] unfolding first by auto
  have "list_drop_children al drop_value q t = (Inr (), t')"
    using r1 r2 len l by (simp add: list_drop_children_def)
  with R di lw(4) collected_trans [OF c02 ct] show ?thesis by (intro exI [of _ ns] exI [of _ t']) simp
qed

section \<open>The deque\<close>

lemma ring_drop_loop_ok:
  assumes io: "al_io al = io" and hands: "hands_over vw al fr drop_value"
  shows "collected vw al t [] t \<Longrightarrow> deque_at vw handle H data cap head (th_store t) xs \<Longrightarrow> n = length xs - i \<Longrightarrow> i \<le> length xs \<Longrightarrow>
    \<exists>t'. ring_drop_loop n al drop_value data head cap (of_nat i) t = (Inr (), t')
      \<and> collected vw al t (concat (map (element_frees fr) (drop i xs))) t'"
proof (induction n arbitrary: i t)
  case 0
  then show ?case by simp
next
  case (Suc n)
  note c = Suc.prems(1) and at = Suc.prems(2)
  have i: "i < length xs" "n = length xs - Suc i" using Suc.prems(3) by simp_all
  have g: "v_good vw (th_store t)" using at by (simp add: deque_at_def)
  have u: "unat (of_nat i :: u64) = i"
    using i(1) deque_len_word [OF at] unat_u64_bound [of "of_nat (length xs)"] by (intro unat_of_nat_u64) linarith
  obtain off where off: "ring_slot data head (of_nat i) cap = Inr off" "unat off + 8 \<le> length (v_bytes vw (th_store t))"
    "word_at (v_bytes vw (th_store t)) (unat off) = xs ! i"
    using deque_slot_word [OF at, of "of_nat i"] i(1) u by auto
  obtain t1 where r1: "on_store (read_u64 (al_io al) off) t = (Inr (xs ! i), t1)" and c1: "collected vw al t [] t1"
    using read_collected [OF io c g off(2)] off(3) by auto
  obtain t2 where r2: "(if xs ! i \<noteq> 0 then drop_value (xs ! i) t1 else (Inr (), t1)) = (Inr (), t2)"
    and c2: "collected vw al t1 (element_frees fr (xs ! i)) t2"
    using element_collected [OF hands collected_here [OF c1]] by blast
  have c02: "collected vw al t (element_frees fr (xs ! i)) t2" using collected_trans [OF c1 c2] by simp
  have at2: "deque_at vw handle H data cap head (th_store t2) xs"
    by (rule deque_at_unchanged [OF at]) (use collected_stateD [OF c02] in simp)
  obtain t' where l: "ring_drop_loop n al drop_value data head cap (of_nat (Suc i)) t2 = (Inr (), t')"
    and ct: "collected vw al t2 (concat (map (element_frees fr) (drop (Suc i) xs))) t'"
    using Suc.IH [OF collected_here [OF c02] at2 i(2)] i(1) by auto
  have "ring_drop_loop (Suc n) al drop_value data head cap (of_nat i) t = (Inr (), t')"
    using off(1) r1 r2 l by (simp add: add.commute)
  moreover have "drop i xs = xs ! i # drop (Suc i) xs" using i(1) by (simp add: Cons_nth_drop_Suc)
  ultimately show ?case using collected_trans [OF c02 ct] by simp
qed

lemma deque_teardown_ok:
  assumes io: "al_io al = io" and hands: "hands_over vw al fr drop_value"
    and c: "collected vw al t [] t" and inv: "deque_inv vw (fst q) H (th_store t) R xs"
  shows "\<exists>data cap t'. deque_drop_children al drop_value q t = (Inr (), t') \<and> R = deque_blocks H data cap
    \<and> collected vw al t (concat (map (element_frees fr) xs) @ (if cap = 0 then [] else [(al_file al, (data, cap * 8))])) t'"
proof -
  obtain data cap head where R: "R = deque_blocks H data cap" and at: "deque_at vw (fst q) H data cap head (th_store t) xs"
    using inv by (auto simp: deque_inv_def)
  obtain rm s1 where rd: "deque_read_meta io (fst q) (th_store t) = (rm, s1)" by fastforce
  note m = deque_meta_ok [OF at rd]
  have "\<not> isl rm \<and> v_calm vw s1" using m(3) collected_stateD [OF c] by simp
  then have rm: "rm = Inr (head, of_nat (length xs), cap, data)" and cs: "v_calm vw s1" using m(2) by (cases rm; simp)+
  obtain t1 where r1: "on_store (deque_read_meta io (fst q)) t = (Inr (head, of_nat (length xs), cap, data), t1)"
    and c1: "collected vw al t [] t1"
    using on_store_collected [where f = "deque_read_meta io (fst q)", OF c rd m(1) cs] rm by blast
  have at1: "deque_at vw (fst q) H data cap head (th_store t1) xs"
    by (rule deque_at_unchanged [OF at]) (use collected_stateD [OF c1] in simp)
  obtain t2 where r2: "ring_drop_loop (length xs) al drop_value data head cap 0 t1 = (Inr (), t2)"
    and c2: "collected vw al t1 (concat (map (element_frees fr) xs)) t2"
    using ring_drop_loop_ok [OF io hands collected_here [OF c1] at1, of "length xs" 0] by auto
  have c02: "collected vw al t (concat (map (element_frees fr) xs)) t2" using collected_trans [OF c1 c2] by simp
  have run: "deque_drop_children al drop_value q t = (if data \<noteq> 0 then
      try_in (ok_or deque_cap_overflow (checked_mul64 cap 8)) t2 (\<lambda>size. dealloc_range al (data, size) t2) else (Inr (), t2))"
    using r1 r2 deque_len_word [OF at] by (simp add: deque_drop_children_def io)
  show ?thesis
  proof (cases "cap = 0")
    case True
    then have "data = 0" using at by (simp add: deque_at_def)
    with run True R c02 show ?thesis by (intro exI [of _ data] exI [of _ cap] exI [of _ t2]) simp
  next
    case False
    then have l: "(data, cap * 8) \<in> v_live vw (th_store t)" and lt: "unat cap * 8 < u64_limit" and g: "v_good vw (th_store t)"
      using at by (simp_all add: deque_at_def)
    have "data \<noteq> 0" using good_live [OF g l] by auto
    moreover have "checked_mul64 cap 8 = Some (cap * 8)" using lt by (simp add: checked_mul64_Some)
    moreover obtain t3 where d: "dealloc_range al (data, cap * 8) t2 = (Inr (), t3)" "collected vw al t2 [(al_file al, (data, cap * 8))] t3"
      using dealloc_collected [OF collected_here [OF c02]] by blast
    ultimately have "deque_drop_children al drop_value q t = (Inr (), t3)" using run by simp
    with False R collected_trans [OF c02 d(2)] show ?thesis by (intro exI [of _ data] exI [of _ cap] exI [of _ t3]) simp
  qed
qed

end

section \<open>Claims\<close>

text \<open>C38: Inside the transaction of an owned teardown, on a store whose reads do not fail, tearing down the
  children of a linked list succeeds and puts into the sink, front to back, what each element's teardown
  hands over followed by its node: every block of the list other than the handle's exactly once. The
  store itself does not change.\<close>

theorem list_teardown_collects:
  assumes "stack_laws (al_io al) vw" and "list_inv vw (fst q) H (th_store t) R xs"
    and "hands_over vw al fr drop_value" and "collected vw al t [] t"
  shows "\<exists>ns t'. list_drop_children al drop_value q t = (Inr (), t') \<and> R = list_blocks H ns \<and> distinct ns \<and> length ns = length xs
    \<and> collected vw al t (concat (map (\<lambda>(m, x). element_frees fr x @ [(al_file al, (m, NODE_SIZE))]) (zip ns xs))) t'"
  using stack_laws.list_teardown_ok [OF assms(1) refl assms(3,4,2)] .

theorem list_teardown_collects_witness:
  "\<exists>ns t'. list_drop_children sample_al (\<lambda>v. drop_block sample_al (\<lambda>_ t. (Inr (), t)) (v, 8)) (16, 40) (sample_thread sample_list)
      = (Inr (), t') \<and> {(16, 40), (56, 40), (96, 40)} = list_blocks (16, 40) ns \<and> distinct ns \<and> length ns = length [11, 22 :: u64]
    \<and> collected mem_view sample_al (sample_thread sample_list)
        (concat (map (\<lambda>(m, x). element_frees (\<lambda>v. [(FILE_SELF, (v, 8))]) x @ [(al_file sample_al, (m, NODE_SIZE))]) (zip ns [11, 22]))) t'"
proof -
  have laws: "stack_laws (al_io sample_al) mem_view" using mem.stack_laws_axioms by (simp add: sample_al_def)
  have inv: "list_inv mem_view (fst (16, 40 :: u64)) (16, 40) (th_store (sample_thread sample_list)) {(16, 40), (56, 40), (96, 40)} [11, 22]"
    using sample_list_inv by (simp add: sample_thread_def)
  have c: "collected mem_view sample_al (sample_thread sample_list) [] (sample_thread sample_list)"
    by (rule sample_collected) (use sample_list_inv in \<open>auto simp: list_inv_def list_along_def mem_view_simps sample_list_def\<close>)
  from list_teardown_collects [OF laws inv sample_hands c] show ?thesis .
qed

end
