(* ===== verification/BinaryHeap.thy ===== *)
theory BinaryHeap
  imports Probing Descent
begin

text \<open>
  \<^verbatim>\<open>BStackBinaryHeap\<close> of \<^verbatim>\<open>src/stdlib/heap.rs\<close>: a binary min-heap in
  one block of slots, each a priority followed by the offset of its value's block. A priority is its
  \<open>ksz\<close> bytes; its type's order is the argument \<open>lt\<close>. An update reads a path of slots and commits its
  moves with the new length as one batch.
\<close>

section \<open>Layout\<close>

definition HEAP_DATA_OFF :: u64 where "HEAP_DATA_OFF = HEADER_SIZE"
definition HEAP_CAP_OFF :: u64 where "HEAP_CAP_OFF = HEADER_SIZE + 8"
definition HEAP_LEN_OFF :: u64 where "HEAP_LEN_OFF = HEADER_SIZE + 16"
definition HEAP_SIZE :: u64 where "HEAP_SIZE = 40"
definition HEAP_MIN_CAP :: u64 where "HEAP_MIN_CAP = 4"

lemmas heap_offsets = HEAP_DATA_OFF_def HEAP_CAP_OFF_def HEAP_LEN_OFF_def HEADER_SIZE_def

definition heap_stride :: "nat \<Rightarrow> u64" where
  "heap_stride ksz = of_nat ksz + 8"

definition heap_eightcc :: "nat \<Rightarrow> eightcc \<Rightarrow> eightcc" where
  "heap_eightcc ksz vtag =
     eightcc_mix (eightcc_mix (EightCC [72, 101, 112, 0x80, 0x81, 0x82, 0x83, 0x84]) (EightCC (to_le64 (of_nat ksz)))) vtag"

definition heap_image :: "nat \<Rightarrow> eightcc \<Rightarrow> u64 \<Rightarrow> u64 \<Rightarrow> u64 \<Rightarrow> u8 list" where
  "heap_image ksz vtag data cap len =
     to_le64 HEAP_SIZE @ cc_bytes (heap_eightcc ksz vtag) @ to_le64 data @ to_le64 cap @ to_le64 len"

definition heap_cap_overflow :: io_error where
  "heap_cap_overflow = IoError InvalidData ''heap capacity overflow''"

definition heap_len_overflow :: io_error where
  "heap_len_overflow = IoError InvalidData ''heap length overflow''"

definition heap_corrupt_cap :: io_error where
  "heap_corrupt_cap = IoError InvalidData ''corrupt heap capacity''"

definition heap_too_large :: io_error where
  "heap_too_large = IoError InvalidData ''heap element array larger than the stack''"

definition heap_slot_off :: "nat \<Rightarrow> u64 \<Rightarrow> u64 \<Rightarrow> u64 res" where
  "heap_slot_off ksz data i = checked_off_mul data i (heap_stride ksz)"

definition heap_read_key :: "nat \<Rightarrow> u8 list \<Rightarrow> u8 list" where
  "heap_read_key ksz slot = take ksz slot"

definition heap_slot_val :: "nat \<Rightarrow> u8 list \<Rightarrow> u64" where
  "heap_slot_val ksz slot = get_u64 (slice ksz 8 slot)"

definition heap_read_meta :: "'s stack_ops \<Rightarrow> u64 \<Rightarrow> 's \<Rightarrow> (u64 \<times> u64 \<times> u64) res \<times> 's" where
  "heap_read_meta io handle s =
     try_s (read_fields io 3 (handle + HEAP_DATA_OFF) s) (\<lambda>fs s1. (Inr (fs ! 0, fs ! 1, fs ! 2), s1))"

definition heap_read_slot :: "'s stack_ops \<Rightarrow> nat \<Rightarrow> u64 \<Rightarrow> u64 \<Rightarrow> 's \<Rightarrow> u8 list res \<times> 's" where
  "heap_read_slot io ksz data i s =
     try_in (heap_slot_off ksz data i) s (\<lambda>off. op_read io off (unat (heap_stride ksz)) s)"

section \<open>Construction\<close>

definition heap_with_image :: "'s stack_ops \<Rightarrow> nat \<Rightarrow> eightcc \<Rightarrow> u64 \<Rightarrow> u64 \<Rightarrow> 's \<Rightarrow> range res \<times> 's" where
  "heap_with_image io ksz vtag data cap s = alloc_image io (heap_image ksz vtag data cap 0) s"

definition heap_new :: "'s stack_ops \<Rightarrow> nat \<Rightarrow> eightcc \<Rightarrow> 's \<Rightarrow> range res \<times> 's" where
  "heap_new io ksz vtag s = heap_with_image io ksz vtag 0 0 s"

definition heap_with_capacity :: "'s stack_ops \<Rightarrow> nat \<Rightarrow> eightcc \<Rightarrow> u64 \<Rightarrow> 's \<Rightarrow> range res \<times> 's" where
  "heap_with_capacity io ksz vtag cap s =
     (if cap = 0 then heap_new io ksz vtag s
      else
        try_in (ok_or heap_cap_overflow (checked_mul64 cap (heap_stride ksz))) s (\<lambda>size.
        try_s (op_alloc io size s) (\<lambda>q s1.
          case heap_with_image io ksz vtag (fst q) cap s1 of
            (Inr r, s2) \<Rightarrow> (Inr r, s2)
          | (Inl e, s2) \<Rightarrow> (Inl e, snd (op_dealloc io (fst q, size) s2)))))"

definition heap_len :: "'s stack_ops \<Rightarrow> u64 \<Rightarrow> 's \<Rightarrow> u64 res \<times> 's" where
  "heap_len io handle s = read_u64 io (handle + HEAP_LEN_OFF) s"

definition heap_is_empty :: "'s stack_ops \<Rightarrow> u64 \<Rightarrow> 's \<Rightarrow> bool res \<times> 's" where
  "heap_is_empty io handle s = try_s (heap_len io handle s) (\<lambda>n s1. (Inr (n = 0), s1))"

definition heap_capacity :: "'s stack_ops \<Rightarrow> u64 \<Rightarrow> 's \<Rightarrow> u64 res \<times> 's" where
  "heap_capacity io handle s = read_u64 io (handle + HEAP_CAP_OFF) s"

definition heap_peek :: "'s stack_ops \<Rightarrow> nat \<Rightarrow> u64 \<Rightarrow> 's \<Rightarrow> (u8 list \<times> u64) option res \<times> 's" where
  "heap_peek io ksz handle s =
     try_s (heap_read_meta io handle s) (\<lambda>(data, cap, len) s1.
       if len = 0 then (Inr None, s1)
       else try_s (heap_read_slot io ksz data 0 s1) (\<lambda>slot s2.
         (Inr (Some (heap_read_key ksz slot, heap_slot_val ksz slot)), s2)))"

section \<open>Growth\<close>

definition heap_grow :: "'s stack_ops \<Rightarrow> nat \<Rightarrow> u64 \<Rightarrow> 's \<Rightarrow> unit res \<times> 's" where
  "heap_grow io ksz handle s =
     try_s (heap_read_meta io handle s) (\<lambda>(data, cap, len) s1.
       let newcap = (if cap = 0 then HEAP_MIN_CAP else saturating_mul64 cap 2) in
       if newcap \<le> cap then (Inl heap_corrupt_cap, s1)
       else
         try_in (ok_or heap_cap_overflow (checked_mul64 newcap (heap_stride ksz))) s1 (\<lambda>new_size.
         try_s (op_alloc io new_size s1) (\<lambda>q s2.
         try_s (if len > 0 then
                  try_in (ok_or heap_len_overflow (checked_mul64 len (heap_stride ksz))) s2 (\<lambda>len_size.
                  try_s (op_read io data (unat len_size) s2) (\<lambda>buf s3. op_set io (fst q) buf s3))
                else (Inr (), s2)) (\<lambda>_ s4.
         try_s (op_set io (handle + HEAP_DATA_OFF) (to_le64 (fst q) @ to_le64 newcap) s4) (\<lambda>_ s5.
           (Inr (), if data \<noteq> 0 then snd (op_dealloc io (data, saturating_mul64 cap (heap_stride ksz)) s5) else s5))))))"

section \<open>Pushing\<close>

text \<open>The loop that moves greater parents down: the final hole and the moves before it.\<close>

function heap_sift_up ::
    "'s stack_ops \<Rightarrow> nat \<Rightarrow> (u8 list \<Rightarrow> u8 list \<Rightarrow> bool) \<Rightarrow> u64 \<Rightarrow> u8 list \<Rightarrow> u64 \<Rightarrow> 's \<Rightarrow> (u64 \<times> writes) res \<times> 's" where
  "heap_sift_up io ksz lt data key hole s =
     (if hole = 0 then (Inr (0, []), s)
      else
        let parent = (hole - 1) div 2 in
        try_s (heap_read_slot io ksz data parent s) (\<lambda>parent_slot s1.
          if lt key (heap_read_key ksz parent_slot) then
            try_in (heap_slot_off ksz data hole) s1 (\<lambda>off.
            try_s (heap_sift_up io ksz lt data key parent s1) (\<lambda>(h, ws) s2. (Inr (h, (off, parent_slot) # ws), s2)))
          else (Inr (hole, []), s1)))"
  by pat_completeness auto

termination heap_sift_up
proof (relation "measure (\<lambda>(io, ksz, lt, data, key, hole, s). unat hole)")
  fix hole parent :: u64
  assume "hole \<noteq> 0" and "parent = (hole - 1) div 2"
  then have "unat parent = (unat hole - 1) div 2" "unat hole \<noteq> 0"
    by (simp_all add: unat_div unat_minus_one unat_eq_0)
  then have "unat parent < unat hole" by linarith
  then show "((io, ksz, lt, data, key, parent, s1), io, ksz, lt, data, key, hole, s)
      \<in> measure (\<lambda>(io, ksz, lt, data, key, hole, s). unat hole)"
    for io :: "'s stack_ops" and ksz :: nat and lt :: "u8 list \<Rightarrow> u8 list \<Rightarrow> bool" and data key s1 s
    by simp
qed simp

text \<open>The outer loop retries after a growth; the first argument bounds its rounds.\<close>

fun heap_push_loop ::
    "nat \<Rightarrow> 's stack_ops \<Rightarrow> nat \<Rightarrow> (u8 list \<Rightarrow> u8 list \<Rightarrow> bool) \<Rightarrow> u64 \<Rightarrow> u8 list \<Rightarrow> u64 \<Rightarrow> 's \<Rightarrow> (unit res \<times> 's) option" where
  "heap_push_loop 0 io ksz lt handle key val_ref s = None"
| "heap_push_loop (Suc fuel) io ksz lt handle key val_ref s =
     (case heap_read_meta io handle s of
        (Inl e, s1) \<Rightarrow> Some (Inl e, s1)
      | (Inr (data, cap, len), s1) \<Rightarrow>
          if data = 0 \<or> len \<ge> cap then
            (case heap_grow io ksz handle s1 of
               (Inl e, s2) \<Rightarrow> Some (Inl e, s2)
             | (Inr _, s2) \<Rightarrow> heap_push_loop fuel io ksz lt handle key val_ref s2)
          else
            Some (
              try_s (heap_sift_up io ksz lt data key len s1) (\<lambda>(hole, ws) s2.
              try_in (heap_slot_off ksz data hole) s2 (\<lambda>off.
                op_commit io (ws @ [(off, key @ to_le64 val_ref), w8 (handle + HEAP_LEN_OFF) (len + 1)]) s2))))"

definition heap_push ::
    "nat \<Rightarrow> 's stack_ops \<Rightarrow> nat \<Rightarrow> (u8 list \<Rightarrow> u8 list \<Rightarrow> bool) \<Rightarrow> u64 \<Rightarrow> u8 list \<Rightarrow> u64 \<Rightarrow> 's
      \<Rightarrow> (((io_error \<times> u64) + unit) \<times> 's) option" where
  "heap_push fuel io ksz lt handle key val_ref s =
     map_option (\<lambda>(r, s'). (finish_handback val_ref r, s')) (heap_push_loop fuel io ksz lt handle key val_ref s)"

section \<open>Popping\<close>

text \<open>The smaller child of a hole with at least one.\<close>

definition heap_smaller_child ::
    "'s stack_ops \<Rightarrow> nat \<Rightarrow> (u8 list \<Rightarrow> u8 list \<Rightarrow> bool) \<Rightarrow> u64 \<Rightarrow> u64 \<Rightarrow> u64 \<Rightarrow> 's \<Rightarrow> (u64 \<times> u8 list) res \<times> 's" where
  "heap_smaller_child io ksz lt data newlen child s =
     try_s (heap_read_slot io ksz data child s) (\<lambda>smaller s1.
       if child + 1 < newlen then
         try_s (heap_read_slot io ksz data (child + 1) s1) (\<lambda>right s2.
           if lt (heap_read_key ksz right) (heap_read_key ksz smaller) then (Inr (child + 1, right), s2)
           else (Inr (child, smaller), s2))
       else (Inr (child, smaller), s1))"

text \<open>The loop that moves smaller children up, with a bound on its rounds.\<close>

fun heap_sift_down ::
    "nat \<Rightarrow> 's stack_ops \<Rightarrow> nat \<Rightarrow> (u8 list \<Rightarrow> u8 list \<Rightarrow> bool) \<Rightarrow> u64 \<Rightarrow> u64 \<Rightarrow> u8 list \<Rightarrow> u64 \<Rightarrow> 's
      \<Rightarrow> ((u64 \<times> writes) res \<times> 's) option" where
  "heap_sift_down 0 io ksz lt data newlen last_key hole s = None"
| "heap_sift_down (Suc fuel) io ksz lt data newlen last_key hole s =
     (let child = 2 * hole + 1 in
      if child \<ge> newlen then Some (Inr (hole, []), s)
      else
        (case heap_smaller_child io ksz lt data newlen child s of
           (Inl e, s1) \<Rightarrow> Some (Inl e, s1)
         | (Inr (c, smaller), s1) \<Rightarrow>
             if lt (heap_read_key ksz smaller) last_key then
               (case heap_slot_off ksz data hole of
                  Inl e \<Rightarrow> Some (Inl e, s1)
                | Inr off \<Rightarrow>
                    map_option (\<lambda>m. try_s m (\<lambda>(h, ws) s2. (Inr (h, (off, smaller) # ws), s2)))
                      (heap_sift_down fuel io ksz lt data newlen last_key c s1))
             else Some (Inr (hole, []), s1)))"

definition heap_pop ::
    "nat \<Rightarrow> 's stack_ops \<Rightarrow> nat \<Rightarrow> (u8 list \<Rightarrow> u8 list \<Rightarrow> bool) \<Rightarrow> u64 \<Rightarrow> 's
      \<Rightarrow> ((u8 list \<times> u64) option res \<times> 's) option" where
  "heap_pop fuel io ksz lt handle s =
     (case heap_read_meta io handle s of
        (Inl e, s1) \<Rightarrow> Some (Inl e, s1)
      | (Inr (data, cap, len), s1) \<Rightarrow>
          if len = 0 then Some (Inr None, s1)
          else
            (case heap_read_slot io ksz data 0 s1 of
               (Inl e, s2) \<Rightarrow> Some (Inl e, s2)
             | (Inr min_slot, s2) \<Rightarrow>
                 let min_entry = (heap_read_key ksz min_slot, heap_slot_val ksz min_slot) in
                 if len = 1 then
                   Some (try_s (op_set io (handle + HEAP_LEN_OFF) (to_le64 0) s2) (\<lambda>_ s3. (Inr (Some min_entry), s3)))
                 else
                   (case heap_read_slot io ksz data (len - 1) s2 of
                      (Inl e, s3) \<Rightarrow> Some (Inl e, s3)
                    | (Inr last_slot, s3) \<Rightarrow>
                        map_option (\<lambda>m.
                          try_s m (\<lambda>(hole, ws) s4.
                          try_in (heap_slot_off ksz data hole) s4 (\<lambda>off.
                          try_s (op_commit io (ws @ [(off, last_slot), w8 (handle + HEAP_LEN_OFF) (len - 1)]) s4) (\<lambda>_ s5.
                            (Inr (Some min_entry), s5)))))
                          (heap_sift_down fuel io ksz lt data (len - 1) (heap_read_key ksz last_slot) 0 s3))))"

section \<open>Teardown and clone\<close>

fun heap_drop_loop ::
    "nat \<Rightarrow> 's allocator \<Rightarrow> nat \<Rightarrow> (u64 \<Rightarrow> 's thread \<Rightarrow> unit res \<times> 's thread) \<Rightarrow> u64 \<Rightarrow> u64 \<Rightarrow> 's thread \<Rightarrow> unit res \<times> 's thread" where
  "heap_drop_loop 0 al ksz drop_value data i t = (Inr (), t)"
| "heap_drop_loop (Suc n) al ksz drop_value data i t =
     try_s (on_store (heap_read_slot (al_io al) ksz data i) t) (\<lambda>slot t1.
       let v = heap_slot_val ksz slot in
       try_s (if v \<noteq> 0 then drop_value v t1 else (Inr (), t1)) (\<lambda>_ t2.
         heap_drop_loop n al ksz drop_value data (i + 1) t2))"

definition heap_drop_children ::
    "'s allocator \<Rightarrow> nat \<Rightarrow> (u64 \<Rightarrow> 's thread \<Rightarrow> unit res \<times> 's thread) \<Rightarrow> 's dropper" where
  "heap_drop_children al ksz drop_value q t =
     try_s (on_store (heap_read_meta (al_io al) (fst q)) t) (\<lambda>(data, cap, len) t1.
     try_s (heap_drop_loop (unat len) al ksz drop_value data 0 t1) (\<lambda>_ t2.
       if data \<noteq> 0 then
         try_in (ok_or heap_cap_overflow (checked_mul64 cap (heap_stride ksz))) t2 (\<lambda>size. dealloc_range al (data, size) t2)
       else (Inr (), t2)))"

text \<open>The first argument counts the elements still to be cloned.\<close>

fun heap_clone_loop ::
    "nat \<Rightarrow> nat \<Rightarrow> (u64 \<Rightarrow> clone_plan \<Rightarrow> 's \<Rightarrow> (range res \<times> clone_plan) \<times> 's) \<Rightarrow> nat \<Rightarrow> u8 list \<Rightarrow> clone_plan \<Rightarrow> 's
      \<Rightarrow> (u8 list res \<times> clone_plan) \<times> 's" where
  "heap_clone_loop 0 ksz clone_value i img p s = ((Inr img, p), s)"
| "heap_clone_loop (Suc n) ksz clone_value i img p s =
     (let vo = i * unat (heap_stride ksz) + ksz in
      clone_bind (clone_value (get_u64 (slice vo 8 img)) p s) (\<lambda>dst p1 s1.
        heap_clone_loop n ksz clone_value (i + 1) (overwrite vo (to_le64 (fst dst)) img) p1 s1))"

definition heap_clone_children ::
    "'s stack_ops \<Rightarrow> unit res \<Rightarrow> ('s \<Rightarrow> u64 res \<times> 's) \<Rightarrow> nat \<Rightarrow> eightcc
      \<Rightarrow> (u64 \<Rightarrow> clone_plan \<Rightarrow> 's \<Rightarrow> (range res \<times> clone_plan) \<times> 's) \<Rightarrow> u64 \<Rightarrow> clone_plan \<Rightarrow> 's
      \<Rightarrow> (u8 list res \<times> clone_plan) \<times> 's" where
  "heap_clone_children io lock stack_len ksz vtag clone_value handle p s =
     clone_bind (clone_store (heap_read_meta io handle) p s) (\<lambda>(data, cap, len) p1 s1.
       if len > 0 then
         (case checked_mul64 len (heap_stride ksz) of
            None \<Rightarrow> ((Inl heap_len_overflow, p1), s1)
          | Some arr_size \<Rightarrow>
              clone_bind (clone_store stack_len p1 s1) (\<lambda>total p2 s2.
                if arr_size > total then ((Inl heap_too_large, p2), s2)
                else
                  clone_bind (clone_store (op_read io data (unat arr_size)) p2 s2) (\<lambda>img0 p3 s3.
                  clone_bind (heap_clone_loop (unat len) ksz clone_value 0 img0 p3 s3) (\<lambda>img p4 s4.
                  clone_bind (plan_alloc_raw io lock arr_size p4 s4) (\<lambda>dst p5 s5.
                    ((Inr (heap_image ksz vtag (fst dst) len len), plan_write (fst dst) img p5), s5))))))
       else ((Inr (heap_image ksz vtag 0 0 len), p1), s1))"

end
