(* ===== verification/HeapArray.thy ===== *)
theory HeapArray
  imports Prelude "HOL-Library.Multiset"
begin

text \<open>
  Binary heaps as lists: the two sifts, each as the swaps of an array and as the list of slot writes
  computed from the array before them, which is how the code does it. The order of the priorities is
  the locale \<open>priority\<close>, what \<^verbatim>\<open>K: Ord\<close> promises.
\<close>

section \<open>Priorities\<close>

locale priority =
  fixes lt :: "'e \<Rightarrow> 'e \<Rightarrow> bool"
  assumes lt_asym: "lt a b \<Longrightarrow> \<not> lt b a"
    and le_trans: "\<not> lt b a \<Longrightarrow> \<not> lt c b \<Longrightarrow> \<not> lt c a"

definition par :: "nat \<Rightarrow> nat" where
  "par i = (i - 1) div 2"

lemma par_less [simp]: "0 < i \<Longrightarrow> par i < i"
  by (simp add: par_def)

lemma par_iff: "0 < i \<Longrightarrow> par i = h \<longleftrightarrow> i = 2 * h + 1 \<or> i = 2 * h + 2"
  unfolding par_def by presburger

lemma par_child [simp]: "par (Suc (2 * h)) = h" "par (Suc (Suc (2 * h))) = h"
  by (simp_all add: par_def)

definition is_heap :: "('e \<Rightarrow> 'e \<Rightarrow> bool) \<Rightarrow> 'e list \<Rightarrow> bool" where
  "is_heap lt xs \<longleftrightarrow> (\<forall>i. 0 < i \<and> i < length xs \<longrightarrow> \<not> lt (xs ! i) (xs ! par i))"

lemma is_heap_take: "is_heap lt xs \<Longrightarrow> is_heap lt (take n xs)"
  unfolding is_heap_def by (metis length_take less_trans min_less_iff_conj nth_take par_less)

lemma is_heap_butlast: "is_heap lt xs \<Longrightarrow> is_heap lt (butlast xs)"
  by (simp add: butlast_conv_take is_heap_take)

section \<open>Slot writes\<close>

definition put_slots :: "(nat \<times> 'e) list \<Rightarrow> 'e list \<Rightarrow> 'e list" where
  "put_slots ws xs = fold (\<lambda>(i, x) ys. ys[i := x]) ws xs"

lemma put_slots_simps [simp]:
  "put_slots [] xs = xs" "put_slots ((i, x) # ws) xs = put_slots ws (xs[i := x])"
  by (simp_all add: put_slots_def)

lemma length_put_slots [simp]: "length (put_slots ws xs) = length xs"
  by (induction ws arbitrary: xs) auto

lemma put_slots_snoc: "put_slots (ws @ [(i, x)]) xs = (put_slots ws xs)[i := x]"
  by (simp add: put_slots_def)

section \<open>Sifting up\<close>

function up :: "('e \<Rightarrow> 'e \<Rightarrow> bool) \<Rightarrow> 'e list \<Rightarrow> nat \<Rightarrow> 'e \<Rightarrow> 'e list" where
  "up lt ys h e = (if h = 0 \<or> \<not> lt e (ys ! par h) then ys[h := e] else up lt (ys[h := ys ! par h]) (par h) e)"
  by pat_completeness auto
termination by (relation "measure (\<lambda>(lt, ys, h, e). h)") simp_all

text \<open>The moves computed from the array \<open>xs\<close> of before, and the last hole.\<close>

function up_moves :: "('e \<Rightarrow> 'e \<Rightarrow> bool) \<Rightarrow> 'e list \<Rightarrow> nat \<Rightarrow> 'e \<Rightarrow> nat \<times> (nat \<times> 'e) list" where
  "up_moves lt xs h e =
     (if h = 0 \<or> \<not> lt e (xs ! par h) then (h, [])
      else case up_moves lt xs (par h) e of (h', ws) \<Rightarrow> (h', (h, xs ! par h) # ws))"
  by pat_completeness auto
termination by (relation "measure (\<lambda>(lt, ys, h, e). h)") simp_all

declare up.simps [simp del] up_moves.simps [simp del]

lemma up_moves_up:
  "\<forall>i < h. ys ! i = xs ! i \<Longrightarrow> up_moves lt xs h e = (h', ws) \<Longrightarrow> put_slots (ws @ [(h', e)]) ys = up lt ys h e"
proof (induction lt xs h e arbitrary: ys h' ws rule: up_moves.induct)
  case (1 lt xs h e)
  show ?case
  proof (cases "h = 0 \<or> \<not> lt e (xs ! par h)")
    case True
    then have "h = 0 \<or> \<not> lt e (ys ! par h)" using "1.prems"(1) par_less by (metis gr_zeroI)
    with True "1.prems"(2) show ?thesis by (simp add: up.simps [of lt ys] up_moves.simps [of lt xs])
  next
    case False
    then have p: "ys ! par h = xs ! par h" using "1.prems"(1) by simp
    obtain h1 ws1 where m: "up_moves lt xs (par h) e = (h1, ws1)" by (cases "up_moves lt xs (par h) e")
    have w: "h' = h1" "ws = (h, xs ! par h) # ws1" using "1.prems"(2) False m by (simp_all add: up_moves.simps [of lt xs h])
    have "\<forall>i < par h. ys[h := xs ! par h] ! i = xs ! i"
      using "1.prems"(1) False by (metis less_trans nth_list_update_neq par_less gr_zeroI less_irrefl)
    from "1.IH" [OF False this m] have "put_slots (ws1 @ [(h1, e)]) (ys[h := xs ! par h]) = up lt (ys[h := xs ! par h]) (par h) e" .
    with False p w show ?thesis by (simp add: up.simps [of lt ys h])
  qed
qed

lemma up_moves_bound: "up_moves lt xs h e = (h', ws) \<Longrightarrow> h' \<le> h \<and> (\<forall>(i, x) \<in> set ws. i \<le> h \<and> 0 < i \<and> x = xs ! par i)"
proof (induction lt xs h e arbitrary: h' ws rule: up_moves.induct)
  case (1 lt xs h e)
  show ?case
  proof (cases "h = 0 \<or> \<not> lt e (xs ! par h)")
    case True
    with "1.prems" show ?thesis by (simp add: up_moves.simps [of lt xs h])
  next
    case False
    obtain h1 ws1 where m: "up_moves lt xs (par h) e = (h1, ws1)" by (cases "up_moves lt xs (par h) e")
    have w: "h' = h1" "ws = (h, xs ! par h) # ws1" using "1.prems" False m by (simp_all add: up_moves.simps [of lt xs h])
    have pl: "par h < h" using False by simp
    note ih = "1.IH" [OF False m]
    have "i \<le> h \<and> 0 < i \<and> x = xs ! par i" if "(i, x) \<in> set ws1" for i x
    proof -
      from ih that have "i \<le> par h \<and> 0 < i \<and> x = xs ! par i" by blast
      with pl show ?thesis by simp
    qed
    with ih w pl False show ?thesis by auto
  qed
qed

lemma mset_move: "h < length ys \<Longrightarrow> p < length ys \<Longrightarrow> p \<noteq> h \<Longrightarrow> mset (ys[h := ys ! p, p := e]) = mset (ys[h := e])"
proof -
  assume l: "h < length ys" "p < length ys" "p \<noteq> h"
  let ?zs = "ys[h := e]"
  have "ys[h := ys ! p, p := e] = ?zs[h := ?zs ! p, p := ?zs ! h]" using l by simp
  moreover have "mset (?zs[h := ?zs ! p, p := ?zs ! h]) = mset ?zs" using l by (intro mset_swap) simp_all
  ultimately show ?thesis by simp
qed

lemma mset_up: "h < length ys \<Longrightarrow> mset (up lt ys h e) = mset (ys[h := e]) \<and> length (up lt ys h e) = length ys"
proof (induction lt ys h e rule: up.induct)
  case (1 lt ys h e)
  show ?case
  proof (cases "h = 0 \<or> \<not> lt e (ys ! par h)")
    case True
    then show ?thesis by (simp add: up.simps [of lt ys h])
  next
    case False
    then have "par h < h" by simp
    with "1.prems" have p: "par h < length ys" "par h \<noteq> h" by simp_all
    with "1.IH" [OF False] mset_move [OF "1.prems" p] False show ?thesis by (simp add: up.simps [of lt ys h])
  qed
qed

text \<open>Heap order but for the hole \<open>h\<close> and its parent; the hole's children are above its parent.\<close>

definition up_inv :: "('e \<Rightarrow> 'e \<Rightarrow> bool) \<Rightarrow> 'e list \<Rightarrow> nat \<Rightarrow> bool" where
  "up_inv lt zs h \<longleftrightarrow> (\<forall>i. 0 < i \<and> i < length zs \<and> i \<noteq> h \<longrightarrow> \<not> lt (zs ! i) (zs ! par i))
     \<and> (0 < h \<longrightarrow> (\<forall>i. 0 < i \<and> i < length zs \<and> par i = h \<longrightarrow> \<not> lt (zs ! i) (zs ! par h)))"

text \<open>Heap order but for the hole and its children, which are above the hole's parent.\<close>

definition down_inv :: "('e \<Rightarrow> 'e \<Rightarrow> bool) \<Rightarrow> 'e list \<Rightarrow> nat \<Rightarrow> bool" where
  "down_inv lt zs h \<longleftrightarrow> (\<forall>i. 0 < i \<and> i < length zs \<and> par i \<noteq> h \<longrightarrow> \<not> lt (zs ! i) (zs ! par i))
     \<and> (0 < h \<longrightarrow> (\<forall>i. 0 < i \<and> i < length zs \<and> par i = h \<longrightarrow> \<not> lt (zs ! i) (zs ! par h)))"

section \<open>Sifting down\<close>

definition smaller :: "('e \<Rightarrow> 'e \<Rightarrow> bool) \<Rightarrow> 'e list \<Rightarrow> nat \<Rightarrow> nat" where
  "smaller lt xs c = (if c + 1 < length xs \<and> lt (xs ! (c + 1)) (xs ! c) then c + 1 else c)"

lemma smaller_cases: "smaller lt xs c = c \<or> smaller lt xs c = c + 1 \<and> c + 1 < length xs"
  by (simp add: smaller_def)

function down :: "('e \<Rightarrow> 'e \<Rightarrow> bool) \<Rightarrow> 'e list \<Rightarrow> nat \<Rightarrow> 'e \<Rightarrow> 'e list" where
  "down lt ys h e =
     (if 2 * h + 1 \<ge> length ys \<or> \<not> lt (ys ! smaller lt ys (2 * h + 1)) e then ys[h := e]
      else down lt (ys[h := ys ! smaller lt ys (2 * h + 1)]) (smaller lt ys (2 * h + 1)) e)"
  by pat_completeness auto
termination
proof (relation "measure (\<lambda>(lt, ys, h, e). length ys - h)")
  fix lt :: "'e \<Rightarrow> 'e \<Rightarrow> bool" and ys h e
  assume "\<not> (2 * h + 1 \<ge> length ys \<or> \<not> lt (ys ! smaller lt ys (2 * h + 1)) e)"
  then show "((lt, ys[h := ys ! smaller lt ys (2 * h + 1)], smaller lt ys (2 * h + 1), e), lt, ys, h, e)
      \<in> measure (\<lambda>(lt, ys, h, e). length ys - h)"
    using smaller_cases [of lt ys "2 * h + 1"] by auto
qed simp

function down_moves :: "('e \<Rightarrow> 'e \<Rightarrow> bool) \<Rightarrow> 'e list \<Rightarrow> nat \<Rightarrow> 'e \<Rightarrow> nat \<times> (nat \<times> 'e) list" where
  "down_moves lt xs h e =
     (if 2 * h + 1 \<ge> length xs \<or> \<not> lt (xs ! smaller lt xs (2 * h + 1)) e then (h, [])
      else case down_moves lt xs (smaller lt xs (2 * h + 1)) e of
             (h', ws) \<Rightarrow> (h', (h, xs ! smaller lt xs (2 * h + 1)) # ws))"
  by pat_completeness auto
termination
proof (relation "measure (\<lambda>(lt, xs, h, e). length xs - h)")
  fix lt :: "'e \<Rightarrow> 'e \<Rightarrow> bool" and xs h e
  assume "\<not> (2 * h + 1 \<ge> length xs \<or> \<not> lt (xs ! smaller lt xs (2 * h + 1)) e)"
  then show "((lt, xs, smaller lt xs (2 * h + 1), e), lt, xs, h, e) \<in> measure (\<lambda>(lt, xs, h, e). length xs - h)"
    using smaller_cases [of lt xs "2 * h + 1"] by auto
qed simp

declare down.simps [simp del] down_moves.simps [simp del]

lemma down_moves_down:
  "\<forall>i > h. ys ! i = xs ! i \<Longrightarrow> length ys = length xs \<Longrightarrow> down_moves lt xs h e = (h', ws) \<Longrightarrow>
    put_slots (ws @ [(h', e)]) ys = down lt ys h e"
proof (induction lt xs h e arbitrary: ys h' ws rule: down_moves.induct)
  case (1 lt xs h e)
  let ?c = "2 * h + 1"
  let ?m = "smaller lt xs ?c"
  have sm: "smaller lt ys ?c = ?m" using "1.prems"(1,2) by (simp add: smaller_def)
  have mh: "h < ?m" using smaller_cases [of lt xs ?c] by auto
  have ym: "ys ! ?m = xs ! ?m" using "1.prems"(1) mh by blast
  show ?case
  proof (cases "?c \<ge> length xs \<or> \<not> lt (xs ! ?m) e")
    case True
    with "1.prems"(3) have "h' = h" "ws = []" by (simp_all add: down_moves.simps [of lt xs h])
    with True "1.prems"(2) sm ym show ?thesis by (simp add: down.simps [of lt ys h])
  next
    case False
    obtain h1 ws1 where m: "down_moves lt xs ?m e = (h1, ws1)" by (cases "down_moves lt xs ?m e")
    have w: "h' = h1" "ws = (h, xs ! ?m) # ws1" using "1.prems"(3) False m by (simp_all add: down_moves.simps [of lt xs h])
    have "\<forall>i > ?m. ys[h := xs ! ?m] ! i = xs ! i" using "1.prems"(1) mh by simp
    from "1.IH" [OF False this _ m] "1.prems"(2)
    have "put_slots (ws1 @ [(h1, e)]) (ys[h := xs ! ?m]) = down lt (ys[h := xs ! ?m]) ?m e" by simp
    with False w sm ym "1.prems"(2) show ?thesis by (simp add: down.simps [of lt ys h])
  qed
qed

lemma down_moves_bound:
  "down_moves lt xs h e = (h', ws) \<Longrightarrow> h < length xs \<Longrightarrow> h' < length xs \<and> (\<forall>(i, x) \<in> set ws. i < length xs \<and> x \<in> set xs)"
proof (induction lt xs h e arbitrary: h' ws rule: down_moves.induct)
  case (1 lt xs h e)
  let ?m = "smaller lt xs (2 * h + 1)"
  show ?case
  proof (cases "2 * h + 1 \<ge> length xs \<or> \<not> lt (xs ! ?m) e")
    case True
    with "1.prems" show ?thesis by (simp add: down_moves.simps [of lt xs h])
  next
    case False
    obtain h1 ws1 where m: "down_moves lt xs ?m e = (h1, ws1)" by (cases "down_moves lt xs ?m e")
    have w: "h' = h1" "ws = (h, xs ! ?m) # ws1" using "1.prems"(1) False m by (simp_all add: down_moves.simps [of lt xs h])
    have "?m < length xs" using False smaller_cases [of lt xs "2 * h + 1"] by auto
    with "1.IH" [OF False m] w "1.prems"(2) show ?thesis by auto
  qed
qed

lemma mset_down: "h < length ys \<Longrightarrow> mset (down lt ys h e) = mset (ys[h := e]) \<and> length (down lt ys h e) = length ys"
proof (induction lt ys h e rule: down.induct)
  case (1 lt ys h e)
  let ?m = "smaller lt ys (2 * h + 1)"
  show ?case
  proof (cases "2 * h + 1 \<ge> length ys \<or> \<not> lt (ys ! ?m) e")
    case True
    then show ?thesis by (simp add: down.simps [of lt ys h])
  next
    case False
    have "?m < length ys" "?m \<noteq> h" using False smaller_cases [of lt ys "2 * h + 1"] by auto
    with "1.IH" [OF False] mset_move [OF "1.prems"] False show ?thesis by (simp add: down.simps [of lt ys h])
  qed
qed

section \<open>Both keep the heap\<close>

context priority
begin

lemma heap_up: "h < length ys \<Longrightarrow> up_inv lt (ys[h := e]) h \<Longrightarrow> is_heap lt (up lt ys h e)"
proof (induction h arbitrary: ys rule: less_induct)
  case (less h)
  let ?zs = "ys[h := e]" and ?p = "par h"
  have A: "\<not> lt (?zs ! i) (?zs ! par i)" if "0 < i" "i < length ys" "i \<noteq> h" for i
    using less.prems(2) that by (simp add: up_inv_def)
  have B: "\<not> lt (?zs ! i) (?zs ! ?p)" if "0 < h" "0 < i" "i < length ys" "par i = h" for i
    using less.prems(2) that by (simp add: up_inv_def)
  show ?case
  proof (cases "h = 0 \<or> \<not> lt e (ys ! ?p)")
    case True
    have "\<not> lt (?zs ! i) (?zs ! par i)" if "0 < i" "i < length ys" for i
    proof (cases "i = h")
      case True
      then have "par i \<noteq> h" using that(1) by (metis less_irrefl par_less)
      with True that \<open>h = 0 \<or> \<not> lt e (ys ! ?p)\<close> show ?thesis by simp
    qed (rule A [OF that])
    with True show ?thesis by (simp add: up.simps [of lt ys h] is_heap_def)
  next
    case False
    then have h: "0 < h" "lt e (ys ! ?p)" "?p < h" by simp_all
    have pl: "?p < length ys" using h(3) less.prems(1) by simp
    let ?ys = "ys[h := ys ! ?p]"
    let ?zs' = "?ys[?p := e]"
    have zh: "?zs' ! h = ys ! ?p" "?zs' ! ?p = e" and zo: "j \<noteq> h \<Longrightarrow> j \<noteq> ?p \<Longrightarrow> ?zs' ! j = ys ! j" for j
      using h pl less.prems(1) by simp_all
    have yo: "j \<noteq> h \<Longrightarrow> ?zs ! j = ys ! j" for j by simp
    have pe: "\<not> lt (ys ! ?p) e" using h(2) by (rule lt_asym)
    have "up_inv lt ?zs' ?p"
      unfolding up_inv_def
    proof (intro conjI allI impI)
      fix i assume i: "0 < i \<and> i < length ?zs' \<and> i \<noteq> ?p"
      show "\<not> lt (?zs' ! i) (?zs' ! par i)"
      proof (cases "i = h")
        case True
        with zh pe show ?thesis by simp
      next
        case ih: False
        then have zi: "?zs' ! i = ys ! i" "?zs ! i = ys ! i" using zo i yo by simp_all
        show ?thesis
        proof (cases "par i = h")
          case True
          with B [of i] h(1,3) i zi zh(1) yo [of ?p] show ?thesis by simp
        next
          case ph: False
          show ?thesis
          proof (cases "par i = ?p")
            case True
            have "\<not> lt (ys ! i) (ys ! ?p)" using A [of i] i ih zi yo [of ?p] h(3) True by simp
            with pe zi zh(2) True show ?thesis by (simp add: le_trans)
          next
            case False
            with A [of i] i ih zi yo [of "par i"] zo [of "par i"] ph show ?thesis by simp
          qed
        qed
      qed
    next
      fix i assume p0: "0 < ?p" and i: "0 < i \<and> i < length ?zs' \<and> par i = ?p"
      have pp: "par ?p < ?p" using p0 by simp
      have g: "\<not> lt (ys ! ?p) (ys ! par ?p)" using A [of ?p] p0 pl h(3) pp yo [of ?p] yo [of "par ?p"] by simp
      have zpp: "?zs' ! par ?p = ys ! par ?p" using zo [of "par ?p"] pp h(3) by simp
      show "\<not> lt (?zs' ! i) (?zs' ! par ?p)"
      proof (cases "i = h")
        case True
        with zh(1) g zpp show ?thesis by simp
      next
        case False
        have "i \<noteq> ?p" using i by (metis less_irrefl par_less)
        then have "?zs' ! i = ys ! i" using zo False by simp
        moreover have "\<not> lt (ys ! i) (ys ! ?p)" using A [of i] i False yo [of i] yo [of ?p] h(3) by simp
        ultimately show ?thesis using g zpp by (simp add: le_trans)
      qed
    qed
    from less.IH [OF h(3), of ?ys] this pl False show ?thesis by (simp add: up.simps [of lt ys h])
  qed
qed

lemma heap_down: "h < length ys \<Longrightarrow> down_inv lt (ys[h := e]) h \<Longrightarrow> is_heap lt (down lt ys h e)"
proof (induction "length ys - h" arbitrary: ys h rule: less_induct)
  case less
  let ?zs = "ys[h := e]" and ?c = "2 * h + 1"
  let ?m = "smaller lt ys ?c"
  have A: "\<not> lt (?zs ! i) (?zs ! par i)" if "0 < i" "i < length ys" "par i \<noteq> h" for i
    using less.prems(2) that by (simp add: down_inv_def)
  have B: "\<not> lt (?zs ! i) (?zs ! par h)" if "0 < h" "0 < i" "i < length ys" "par i = h" for i
    using less.prems(2) that by (simp add: down_inv_def)
  have yo: "j \<noteq> h \<Longrightarrow> ?zs ! j = ys ! j" for j by simp
  have kid: "i \<noteq> h \<and> ?c < length ys \<and> \<not> lt (ys ! i) (ys ! ?m)" if "0 < i" "i < length ys" "par i = h" for i
  proof -
    have i: "i = ?c \<or> i = ?c + 1" using par_iff [OF that(1), of h] that(3) by auto
    have "\<not> lt x x" for x using lt_asym by blast
    then have "\<not> lt (ys ! i) (ys ! ?m)" using i that(2) lt_asym by (auto simp: smaller_def)
    with i that(2) show ?thesis by auto
  qed
  show ?case
  proof (cases "?c \<ge> length ys \<or> \<not> lt (ys ! ?m) e")
    case True
    have "\<not> lt (?zs ! i) (?zs ! par i)" if "0 < i" "i < length ys" for i
    proof (cases "par i = h")
      case pi: True
      note k = kid [OF that pi]
      then have "\<not> lt (ys ! ?m) e" using True by auto
      then have "\<not> lt (ys ! i) e" using k le_trans by blast
      with k pi less.prems(1) show ?thesis by simp
    qed (rule A [OF that])
    with True show ?thesis by (simp add: down.simps [of lt ys h] is_heap_def)
  next
    case False
    then have m: "?m < length ys" "h < ?m" "lt (ys ! ?m) e" "0 < ?m" "par ?m = h"
      using smaller_cases [of lt ys ?c] by auto
    let ?ys = "ys[h := ys ! ?m]"
    let ?zs' = "?ys[?m := e]"
    have zh: "?zs' ! h = ys ! ?m" "?zs' ! ?m = e" and zo: "j \<noteq> h \<Longrightarrow> j \<noteq> ?m \<Longrightarrow> ?zs' ! j = ys ! j" for j
      using m less.prems(1) by simp_all
    have "down_inv lt ?zs' ?m"
      unfolding down_inv_def
    proof (intro conjI allI impI)
      fix i assume i: "0 < i \<and> i < length ?zs' \<and> par i \<noteq> ?m"
      show "\<not> lt (?zs' ! i) (?zs' ! par i)"
      proof (cases "par i = h")
        case True
        then have k: "i \<noteq> h" "\<not> lt (ys ! i) (ys ! ?m)" using kid i by auto
        show ?thesis
        proof (cases "i = ?m")
          case True
          with zh m(3,5) lt_asym show ?thesis by simp
        next
          case False
          with k zo [of i] zh(1) True show ?thesis by simp
        qed
      next
        case ph: False
        show ?thesis
        proof (cases "i = h")
          case True
          have "par h < h" using i True by simp
          then have "?zs' ! par h = ys ! par h" using zo [of "par h"] m(2) by simp
          with B [of ?m] True i m zh yo [of ?m] yo [of "par h"] ph show ?thesis by simp
        next
          case False
          have "i \<noteq> ?m" using ph m(5) by auto
          with A [of i] i ph False zo [of i] zo [of "par i"] yo [of i] yo [of "par i"] show ?thesis by simp
        qed
      qed
    next
      fix i assume i: "0 < i \<and> i < length ?zs' \<and> par i = ?m"
      then have "i \<noteq> ?m" by (metis less_irrefl par_less)
      moreover have "i \<noteq> h" using i m(2) par_less [of i] by auto
      ultimately have "?zs' ! i = ys ! i" "?zs ! i = ys ! i" using zo yo by simp_all
      with A [of i] i m(2) zh(1) m(5) yo [of ?m] show "\<not> lt (?zs' ! i) (?zs' ! par ?m)" by simp
    qed
    moreover have "length ?ys - ?m < length ys - h" using m less.prems(1) by simp
    ultimately have "is_heap lt (down lt ?ys ?m e)" using less.hyps [of ?ys ?m] m(1) by simp
    with False show ?thesis by (simp add: down.simps [of lt ys h])
  qed
qed

section \<open>Push, pop and the root\<close>

lemma push_heap:
  assumes hp: "is_heap lt xs"
  shows "is_heap lt (up lt (xs @ [z]) (length xs) e)" and "mset (up lt (xs @ [z]) (length xs) e) = add_mset e (mset xs)"
proof -
  have u: "(xs @ [z])[length xs := e] = xs @ [e]" by simp
  have "up_inv lt (xs @ [e]) (length xs)"
    unfolding up_inv_def
  proof (intro conjI allI impI)
    fix i assume i: "0 < i \<and> i < length (xs @ [e]) \<and> i \<noteq> length xs"
    then have "i < length xs" "par i < i" by auto
    then have "i < length xs" "par i < length xs" by simp_all
    then show "\<not> lt ((xs @ [e]) ! i) ((xs @ [e]) ! par i)" using hp i by (simp add: is_heap_def nth_append)
  next
    fix i assume "0 < i \<and> i < length (xs @ [e]) \<and> par i = length xs"
    then have False using par_less [of i] by auto
    then show "\<not> lt ((xs @ [e]) ! i) ((xs @ [e]) ! par (length xs))" ..
  qed
  then show "is_heap lt (up lt (xs @ [z]) (length xs) e)" using heap_up [of "length xs" "xs @ [z]"] by simp
  show "mset (up lt (xs @ [z]) (length xs) e) = add_mset e (mset xs)" using mset_up [of "length xs" "xs @ [z]"] by simp
qed

lemma pop_heap:
  assumes hp: "is_heap lt (x # xs)" and ne: "xs \<noteq> []"
  shows "is_heap lt (down lt (butlast (x # xs)) 0 (last (x # xs)))"
    and "mset (down lt (butlast (x # xs)) 0 (last (x # xs))) = mset xs"
proof -
  let ?ys = "butlast (x # xs)" and ?e = "last (x # xs)"
  have ys: "?ys = x # butlast xs" "?e = last xs" using ne by simp_all
  have b: "is_heap lt ?ys" by (rule is_heap_butlast [OF hp])
  have "down_inv lt (?ys[0 := ?e]) 0"
    using b unfolding down_inv_def is_heap_def by (auto simp: nth_list_update)
  then show "is_heap lt (down lt ?ys 0 ?e)" using heap_down [of 0 ?ys] ys by simp
  have "mset (down lt ?ys 0 ?e) = mset (?ys[0 := ?e])" using mset_down [of 0 ?ys] ys by simp
  also have "\<dots> = add_mset (last xs) (mset (butlast xs))" using ys by simp
  also have "\<dots> = mset (butlast xs @ [last xs])" by simp
  also have "\<dots> = mset xs" using ne by simp
  finally show "mset (down lt ?ys 0 ?e) = mset xs" .
qed

lemma root_least: "is_heap lt xs \<Longrightarrow> i < length xs \<Longrightarrow> \<not> lt (xs ! i) (xs ! 0)"
proof (induction i rule: less_induct)
  case (less i)
  show ?case
  proof (cases "i = 0")
    case True
    then show ?thesis using lt_asym by blast
  next
    case False
    then have "\<not> lt (xs ! i) (xs ! par i)" "par i < i" using less.prems by (simp_all add: is_heap_def)
    with less.IH [of "par i"] less.prems le_trans show ?thesis by (metis less_trans)
  qed
qed

end

end
