(* ===== verification/BinaryHeapProps.thy ===== *)
theory BinaryHeapProps
  imports BinaryHeap HeapArray Containers
begin

text \<open>
  The stored heap: its slots as a list, the invariant, and the sifts over the store, which compute the
  moves of the sifts on the list.
\<close>

section \<open>Slots\<close>

definition heap_slots :: "nat \<Rightarrow> nat \<Rightarrow> nat \<Rightarrow> u8 list \<Rightarrow> u8 list list" where
  "heap_slots w data n b = map (\<lambda>i. slice (data + i * w) w b) [0..<n]"

lemma length_heap_slots [simp]: "length (heap_slots w data n b) = n"
  by (simp add: heap_slots_def)

lemma nth_heap_slots [simp]: "i < n \<Longrightarrow> heap_slots w data n b ! i = slice (data + i * w) w b"
  by (simp add: heap_slots_def)

lemma butlast_heap_slots: "butlast (heap_slots w data n b) = heap_slots w data (n - 1) b"
  by (rule nth_equalityI) (auto simp: nth_butlast)

lemma heap_slots_Suc: "heap_slots w data (Suc n) b = heap_slots w data n b @ [slice (data + n * w) w b]"
  by (simp add: heap_slots_def)

lemma slot_within: "i < n \<Longrightarrow> data + n * w \<le> l \<Longrightarrow> data + i * w + w \<le> (l :: nat)"
proof -
  assume "i < n" "data + n * w \<le> l"
  moreover have "Suc i * w \<le> n * w" using \<open>i < n\<close> by (intro mult_le_mono1) simp
  ultimately show ?thesis by simp
qed

lemma slots_apart: "i \<noteq> j \<Longrightarrow> data + i * w + w \<le> data + j * w \<or> data + j * w + w \<le> data + i * (w :: nat)"
proof -
  assume "i \<noteq> j"
  then have "Suc i * w \<le> j * w \<or> Suc j * w \<le> i * w" by (metis Suc_leI linorder_neqE_nat mult_le_mono1)
  then show ?thesis by auto
qed

lemma heap_slots_put:
  assumes "data + cap * w \<le> length b" and "i < cap" and "n \<le> cap" and "length x = w"
  shows "heap_slots w data n (overwrite (data + i * w) x b) = (heap_slots w data n b)[i := x]"
proof (rule nth_equalityI)
  fix j assume "j < length (heap_slots w data n (overwrite (data + i * w) x b))"
  then have j: "j < n" by simp
  have l: "data + i * w + w \<le> length b" "data + j * w + w \<le> length b"
    using slot_within [OF _ assms(1)] assms(2,3) j by simp_all
  show "heap_slots w data n (overwrite (data + i * w) x b) ! j = (heap_slots w data n b)[i := x] ! j"
  proof (cases "i = j")
    case True
    with j l assms(4) show ?thesis by (simp add: slice_overwrite_same)
  next
    case False
    with j l assms(4) slots_apart [of j i data w] show ?thesis by (auto simp: slice_overwrite_disjoint)
  qed
qed simp

text \<open>A batch of slot writes.\<close>

definition slot_writes :: "u64 \<Rightarrow> u64 \<Rightarrow> (nat \<times> u8 list) list \<Rightarrow> writes" where
  "slot_writes data stride ws = map (\<lambda>(i, x). (data + of_nat i * stride, x)) ws"

lemma slot_writes_simps [simp]:
  "slot_writes data stride [] = []"
  "slot_writes data stride ((i, x) # ws) = (data + of_nat i * stride, x) # slot_writes data stride ws"
  "slot_writes data stride (ws @ ws') = slot_writes data stride ws @ slot_writes data stride ws'"
  by (simp_all add: slot_writes_def)

lemma slot_address:
  fixes data cap stride :: u64
  assumes "unat data + unat cap * unat stride < u64_limit" and "i < unat cap"
  shows "unat (data + of_nat i * stride) = unat data + i * unat stride"
    and "checked_off_mul data (of_nat i) stride = Inr (data + of_nat i * stride)"
proof -
  have u: "unat (of_nat i :: u64) = i" using assms(2) unat_u64_bound [of cap] by (intro unat_of_nat_u64) linarith
  have "i * unat stride \<le> unat cap * unat stride" using assms(2) by simp
  then have l: "unat data + unat (of_nat i :: u64) * unat stride < u64_limit" unfolding u using assms(1) by linarith
  show "checked_off_mul data (of_nat i) stride = Inr (data + of_nat i * stride)"
    by (rule checked_off_mul_ok(1) [OF l])
  show "unat (data + of_nat i * stride) = unat data + i * unat stride"
    using checked_off_mul_ok(2) [OF l] u by simp
qed

lemma apply_slot_writes:
  fixes data cap stride :: u64
  assumes lim: "unat data + unat cap * unat stride < u64_limit"
  shows "unat data + unat cap * unat stride \<le> length b \<Longrightarrow> \<forall>(i, x) \<in> set ws. i < unat cap \<and> length x = unat stride \<Longrightarrow> n \<le> unat cap \<Longrightarrow>
    in_bounds b (slot_writes data stride ws) \<and> length (apply_writes (slot_writes data stride ws) b) = length b
    \<and> heap_slots (unat stride) (unat data) n (apply_writes (slot_writes data stride ws) b) = put_slots ws (heap_slots (unat stride) (unat data) n b)
    \<and> (\<forall>a k. a + k \<le> length b \<and> (a + k \<le> unat data \<or> unat data + unat cap * unat stride \<le> a) \<longrightarrow>
        slice a k (apply_writes (slot_writes data stride ws) b) = slice a k b)"
proof (induction ws arbitrary: b)
  case Nil
  then show ?case by (simp add: in_bounds_def)
next
  case (Cons w ws)
  obtain i x where w: "w = (i, x)" by (cases w)
  have i: "i < unat cap" "length x = unat stride" using Cons.prems(2) w by simp_all
  note ad = slot_address(1) [OF lim i(1)]
  have e: "unat data + i * unat stride + unat stride \<le> length b" by (rule slot_within [OF i(1) Cons.prems(1)])
  let ?b = "overwrite (unat data + i * unat stride) x b"
  have l: "length ?b = length b" using e i(2) by simp
  note ih = Cons.IH [of ?b]
  have ih: "in_bounds ?b (slot_writes data stride ws)" "length (apply_writes (slot_writes data stride ws) ?b) = length b"
    "heap_slots (unat stride) (unat data) n (apply_writes (slot_writes data stride ws) ?b) = put_slots ws (heap_slots (unat stride) (unat data) n ?b)"
    "\<And>a k. a + k \<le> length b \<Longrightarrow> a + k \<le> unat data \<or> unat data + unat cap * unat stride \<le> a \<Longrightarrow>
        slice a k (apply_writes (slot_writes data stride ws) ?b) = slice a k ?b"
    using Cons.IH [of ?b] Cons.prems l by auto
  have "slice a k ?b = slice a k b" if "a + k \<le> length b" "a + k \<le> unat data \<or> unat data + unat cap * unat stride \<le> a" for a k
  proof (rule slice_overwrite_disjoint)
    show "a + k \<le> unat data + i * unat stride \<or> unat data + i * unat stride + length x \<le> a"
      using that(2) i slot_within [OF i(1), of "unat data" "unat stride" "unat data + unat cap * unat stride"] by auto
  qed (use that(1) e i(2) in simp_all)
  moreover have "in_bounds b (slot_writes data stride ws)" using ih(1) l by (simp add: in_bounds_def)
  ultimately show ?case
    using ih(2-4) w ad e i heap_slots_put [OF Cons.prems(1) i(1) Cons.prems(3) i(2)] by simp
qed

section \<open>The invariant\<close>

definition slot_lt :: "nat \<Rightarrow> (u8 list \<Rightarrow> u8 list \<Rightarrow> bool) \<Rightarrow> u8 list \<Rightarrow> u8 list \<Rightarrow> bool" where
  "slot_lt ksz lt a b \<longleftrightarrow> lt (heap_read_key ksz a) (heap_read_key ksz b)"

definition heap_entry :: "nat \<Rightarrow> u8 list \<Rightarrow> u8 list \<times> u64" where
  "heap_entry ksz slot = (heap_read_key ksz slot, heap_slot_val ksz slot)"

definition heap_at ::
    "'s stack_view \<Rightarrow> nat \<Rightarrow> (u8 list \<Rightarrow> u8 list \<Rightarrow> bool) \<Rightarrow> u64 \<Rightarrow> range \<Rightarrow> u64 \<Rightarrow> u64 \<Rightarrow> 's \<Rightarrow> u8 list list \<Rightarrow> bool" where
  "heap_at vw ksz lt handle H data cap s xs \<longleftrightarrow>
     v_good vw s \<and> H \<in> v_live vw s \<and> inside (unat handle) 40 H \<and> ksz < 2 ^ 62
     \<and> word_at (v_bytes vw s) (unat handle + 16) = data \<and> word_at (v_bytes vw s) (unat handle + 24) = cap
     \<and> unat (word_at (v_bytes vw s) (unat handle + 32)) = length xs
     \<and> (if cap = 0 then data = 0 \<and> xs = []
        else (data, cap * heap_stride ksz) \<in> v_live vw s \<and> (data, cap * heap_stride ksz) \<noteq> H
          \<and> unat cap * (ksz + 8) < u64_limit \<and> length xs \<le> unat cap
          \<and> xs = heap_slots (ksz + 8) (unat data) (length xs) (v_bytes vw s))
     \<and> is_heap (slot_lt ksz lt) xs"

definition heap_blocks :: "nat \<Rightarrow> range \<Rightarrow> u64 \<Rightarrow> u64 \<Rightarrow> range set" where
  "heap_blocks ksz H data cap = (if cap = 0 then {H} else {H, (data, cap * heap_stride ksz)})"

definition heap_inv ::
    "'s stack_view \<Rightarrow> nat \<Rightarrow> (u8 list \<Rightarrow> u8 list \<Rightarrow> bool) \<Rightarrow> u64 \<Rightarrow> range \<Rightarrow> 's \<Rightarrow> range set \<Rightarrow> (u8 list \<times> u64) multiset \<Rightarrow> bool" where
  "heap_inv vw ksz lt handle H s R M \<longleftrightarrow>
     (\<exists>data cap xs. R = heap_blocks ksz H data cap \<and> heap_at vw ksz lt handle H data cap s xs
        \<and> M = mset (map (heap_entry ksz) xs))"

lemma unat_heap_stride: "ksz < 2 ^ 62 \<Longrightarrow> unat (heap_stride ksz) = ksz + 8"
  by (simp add: heap_stride_def unat_plus_u64 unat_of_nat_u64)

context stack_laws
begin

lemma heap_addr:
  assumes "heap_at vw ksz lt handle H data cap s xs" and "k + 8 \<le> 40"
  shows "unat (handle + of_nat k) = unat handle + k" and "unat handle + k + 8 \<le> length (v_bytes vw s)"
    and "inside (unat handle + k) 8 H"
  by (rule handle_words [of s H handle 40]; use assms in \<open>simp add: heap_at_def\<close>)+

lemma heap_array:
  assumes at: "heap_at vw ksz lt handle H data cap s xs" and c: "cap \<noteq> 0"
  shows "unat (heap_stride ksz) = ksz + 8" and "unat (cap * heap_stride ksz) = unat cap * (ksz + 8)"
    and "unat data + unat cap * (ksz + 8) \<le> length (v_bytes vw s)" and "unat data + unat cap * (ksz + 8) < u64_limit"
    and "unat cap < 2 ^ 60" and "data \<noteq> 0" and "apart H (data, cap * heap_stride ksz)"
proof -
  have g: "v_good vw s" and l: "(data, cap * heap_stride ksz) \<in> v_live vw s" and lim: "unat cap * (ksz + 8) < u64_limit"
    and k: "ksz < 2 ^ 62" and H: "H \<in> v_live vw s" "(data, cap * heap_stride ksz) \<noteq> H"
    using at c by (simp_all add: heap_at_def)
  show st: "unat (heap_stride ksz) = ksz + 8" by (rule unat_heap_stride [OF k])
  show m: "unat (cap * heap_stride ksz) = unat cap * (ksz + 8)" using lim st by (simp add: unat_mult_u64)
  show b: "unat data + unat cap * (ksz + 8) \<le> length (v_bytes vw s)" using good_live [OF g l] m by (simp add: range_end_def)
  have sm: "length (v_bytes vw s) < 2 ^ 63" using good_store [OF g] by simp
  then show "unat data + unat cap * (ksz + 8) < u64_limit" using b by simp
  have "unat cap * 8 \<le> unat cap * (ksz + 8)" by simp
  then have "unat cap * 8 < 2 ^ 63" using b sm by linarith
  then show "unat cap < 2 ^ 60" by simp
  show "data \<noteq> 0" using good_live [OF g l] by auto
  show "apart H (data, cap * heap_stride ksz)" by (rule good_apart [OF g H(1) l]) (use H(2) in auto)
qed

lemma heap_at_unchanged:
  "heap_at vw ksz lt handle H data cap s xs \<Longrightarrow> unchanged vw s s' \<Longrightarrow> heap_at vw ksz lt handle H data cap s' xs"
  by (simp add: heap_at_def unchanged_def)

lemma heap_at_kept:
  assumes at: "heap_at vw ksz lt handle H data cap s xs" and k: "kept vw R s s'" and d: "R \<inter> heap_blocks ksz H data cap = {}"
  shows "heap_at vw ksz lt handle H data cap s' xs"
proof -
  have H: "H \<in> v_live vw s" "H \<notin> R" and i: "inside (unat handle) 40 H"
    using at d by (auto simp: heap_at_def heap_blocks_def)
  have w: "word_at (v_bytes vw s') (unat handle + j) = word_at (v_bytes vw s) (unat handle + j)" if "j + 8 \<le> 40" for j
    by (rule frame_word [OF k H]) (use i that in \<open>simp add: inside_def\<close>)
  show ?thesis
  proof (cases "cap = 0")
    case True
    with at w frame_good [OF k] frame_live [OF k H] show ?thesis by (auto simp: heap_at_def)
  next
    case False
    note ar = heap_array [OF at False]
    let ?q = "(data, cap * heap_stride ksz)"
    have q: "?q \<in> v_live vw s" "?q \<notin> R" using at d False by (auto simp: heap_at_def heap_blocks_def)
    have n: "length xs \<le> unat cap" "xs = heap_slots (ksz + 8) (unat data) (length xs) (v_bytes vw s)"
      using at False by (simp_all add: heap_at_def)
    have c: "slice (unat data) (unat cap * (ksz + 8)) (v_bytes vw s') = slice (unat data) (unat cap * (ksz + 8)) (v_bytes vw s)"
      using frame_content [OF k q] ar(2) by (simp add: content_def)
    have "heap_slots (ksz + 8) (unat data) (length xs) (v_bytes vw s') = heap_slots (ksz + 8) (unat data) (length xs) (v_bytes vw s)"
    proof (rule nth_equalityI)
      fix j assume "j < length (heap_slots (ksz + 8) (unat data) (length xs) (v_bytes vw s'))"
      then have j: "j < length xs" by simp
      then have "unat data + j * (ksz + 8) + (ksz + 8) \<le> unat data + unat cap * (ksz + 8)"
        using n(1) by (intro slot_within) simp_all
      with slice_mono_eq [OF c, of "unat data + j * (ksz + 8)" "ksz + 8"] j
      show "heap_slots (ksz + 8) (unat data) (length xs) (v_bytes vw s') ! j
          = heap_slots (ksz + 8) (unat data) (length xs) (v_bytes vw s) ! j" by simp
    qed simp
    with at w False frame_good [OF k] frame_live [OF k H] frame_live [OF k q] show ?thesis by (simp add: heap_at_def)
  qed
qed

section \<open>Reading slots\<close>

lemma heap_read_ok:
  assumes at: "heap_at vw ksz lt handle H data cap s xs" and i: "i < length xs"
    and run: "heap_read_slot io ksz data (of_nat i) s = (r, s')"
  shows "unchanged vw s s'" and "\<forall>v. r = Inr v \<longrightarrow> v = xs ! i" and "v_calm vw s \<Longrightarrow> r = Inr (xs ! i) \<and> v_calm vw s'"
proof -
  have g: "v_good vw s" using at by (simp add: heap_at_def)
  have c: "cap \<noteq> 0" using at i by (auto simp: heap_at_def)
  note ar = heap_array [OF at c]
  have n: "length xs \<le> unat cap" and xs: "xs = heap_slots (ksz + 8) (unat data) (length xs) (v_bytes vw s)"
    using at c by (simp_all add: heap_at_def)
  have ic: "i < unat cap" using i n by simp
  have lim: "unat data + unat cap * unat (heap_stride ksz) < u64_limit" using ar(1,4) by simp
  note sa = slot_address [OF lim ic]
  have e: "unat data + i * (ksz + 8) + (ksz + 8) \<le> length (v_bytes vw s)" by (rule slot_within [OF ic ar(3)])
  have x: "xs ! i = slice (unat data + i * (ksz + 8)) (ksz + 8) (v_bytes vw s)" by (subst xs) (simp add: i)
  have rd: "op_read io (data + of_nat i * heap_stride ksz) (ksz + 8) s = (r, s')"
    using run sa(2) ar(1) by (simp add: heap_read_slot_def heap_slot_off_def del: checked_off_mul_Inr)
  note l = read_law [OF g rd]
  show "unchanged vw s s'" "\<forall>v. r = Inr v \<longrightarrow> v = xs ! i" using l x sa(1) ar(1) by simp_all
  show "r = Inr (xs ! i) \<and> v_calm vw s'" if "v_calm vw s"
    using calm_read [OF g that, of "data + of_nat i * heap_stride ksz" "ksz + 8"] e rd l x sa(1) ar(1) by auto
qed

lemma heap_meta_ok:
  assumes at: "heap_at vw ksz lt handle H data cap s xs" and run: "heap_read_meta io handle s = (r, s')"
  shows "unchanged vw s s'" and "\<forall>v. r = Inr v \<longrightarrow> v = (data, cap, of_nat (length xs))"
    and "v_calm vw s \<Longrightarrow> r = Inr (data, cap, of_nat (length xs)) \<and> v_calm vw s'"
proof -
  have g: "v_good vw s" using at by (simp add: heap_at_def)
  note ad = heap_addr [OF at, of 16] heap_addr [OF at, of 32]
  obtain rf s1 where rd: "read_fields io 3 (handle + HEAP_DATA_OFF) s = (rf, s1)" by (cases "read_fields io 3 (handle + HEAP_DATA_OFF) s")
  note rw = read_words_ok [OF g rd]
  have len: "word_at (v_bytes vw s) (unat handle + 32) = of_nat (length xs)"
    using at unfolding heap_at_def by (metis u64_of_unat)
  have o: "unat (handle + HEAP_DATA_OFF) = unat handle + 16" using ad by (simp add: heap_offsets)
  show "unchanged vw s s'" using rw(1) run rd by (cases rf) (simp_all add: heap_read_meta_def)
  have fs: "fs = [data, cap, of_nat (length xs)]" if "rf = Inr fs" for fs
    using rw(2) [OF that] at len by (simp add: heap_at_def o upt_rec add.commute [of _ "unat handle"])
  show v: "\<forall>v. r = Inr v \<longrightarrow> v = (data, cap, of_nat (length xs))"
    using run rd fs by (cases rf) (auto simp: heap_read_meta_def)
  show "v_calm vw s \<Longrightarrow> r = Inr (data, cap, of_nat (length xs)) \<and> v_calm vw s'"
    using rw(3) run rd ad fs o by (cases rf) (auto simp: heap_read_meta_def)
qed

end

end
