(* ===== verification/BinaryHeapCorrect.thy ===== *)
theory BinaryHeapCorrect
  imports BinaryHeapProps
begin

text \<open>
  The operations of the stored heap over a store that may fail: the sifts compute the moves of the
  sifts on the list, the batch of a push or a pop puts them in place, a growth keeps the list.
\<close>

section \<open>Sifts\<close>

context stack_laws
begin

lemma heap_sift_up_ok:
  assumes key: "heap_read_key ksz e = key"
  shows "heap_at vw ksz lt handle H data cap s xs \<Longrightarrow> unat hole < unat cap \<Longrightarrow> unat hole \<le> length xs \<Longrightarrow>
    up_moves (slot_lt ksz lt) xs (unat hole) e = (h', ws) \<Longrightarrow> heap_sift_up io ksz lt data key hole s = (r, s') \<Longrightarrow>
    unchanged vw s s' \<and> (\<forall>v. r = Inr v \<longrightarrow> v = (of_nat h', slot_writes data (heap_stride ksz) ws))
    \<and> (v_calm vw s \<longrightarrow> \<not> isl r \<and> v_calm vw s')"
proof (induction "unat hole" arbitrary: hole s h' ws r s' rule: less_induct)
  case less
  note at = less.prems(1)
  have g: "v_good vw s" using at by (simp add: heap_at_def)
  show ?case
  proof (cases "hole = 0")
    case True
    then have "h' = 0" "ws = []" using less.prems(4) by (simp_all add: up_moves.simps [of _ xs 0])
    with True less.prems(5) g show ?thesis by (auto simp: heap_sift_up.simps [of io ksz lt data key hole] unchanged_def)
  next
    case False
    define p where "p = (hole - 1) div 2"
    have u0: "0 < unat hole" using False by (simp add: unat_gt_0)
    have up: "unat p = par (unat hole)" using False by (simp add: p_def par_def unat_div unat_minus_one)
    have pl: "unat p < unat hole" "unat p < length xs" using up par_less [OF u0] less.prems(3) by simp_all
    obtain rp s1 where rd: "heap_read_slot io ksz data p s = (rp, s1)" by (cases "heap_read_slot io ksz data p s")
    have rd': "heap_read_slot io ksz data (of_nat (unat p)) s = (rp, s1)" using rd by simp
    note rk = heap_read_ok [OF at pl(2) rd']
    have at1: "heap_at vw ksz lt handle H data cap s1 xs" by (rule heap_at_unchanged [OF at rk(1)])
    have run: "(r, s') = try_s (rp, s1) (\<lambda>parent_slot s1.
          if lt key (heap_read_key ksz parent_slot) then
            try_in (heap_slot_off ksz data hole) s1 (\<lambda>off.
            try_s (heap_sift_up io ksz lt data key p s1) (\<lambda>(h, ws) s2. (Inr (h, (off, parent_slot) # ws), s2)))
          else (Inr (hole, []), s1))"
      using less.prems(5) False rd unfolding p_def by (simp add: heap_sift_up.simps [of io ksz lt data key hole] Let_def)
    show ?thesis
    proof (cases rp)
      case (Inl e)
      with run rk show ?thesis by auto
    next
      case (Inr ps)
      then have ps: "ps = xs ! par (unat hole)" using rk(2) up by simp
      have c1: "v_calm vw s \<longrightarrow> v_calm vw s1" using rk(3) by simp
      show ?thesis
      proof (cases "lt key (heap_read_key ksz ps)")
        case no: False
        then have "h' = unat hole" "ws = []"
          using less.prems(4) ps key by (simp_all add: up_moves.simps [of _ xs "unat hole"] slot_lt_def)
        with run Inr no rk(1) c1 show ?thesis by simp
      next
        case yes: True
        obtain h1 ws1 where m: "up_moves (slot_lt ksz lt) xs (unat p) e = (h1, ws1)" by (cases "up_moves (slot_lt ksz lt) xs (unat p) e")
        have w: "h' = h1" "ws = (unat hole, ps) # ws1"
          using less.prems(4) yes m ps u0 up key by (simp_all add: up_moves.simps [of _ xs "unat hole"] slot_lt_def)
        have cz: "cap \<noteq> 0" using less.prems(2) by auto
        note ar = heap_array [OF at cz]
        have off: "heap_slot_off ksz data hole = Inr (data + hole * heap_stride ksz)"
          using slot_address(2) [of data cap "heap_stride ksz", OF _ less.prems(2)] ar(1,4)
          by (simp add: heap_slot_off_def del: checked_off_mul_Inr)
        obtain r2 s2 where rec: "heap_sift_up io ksz lt data key p s1 = (r2, s2)" by (cases "heap_sift_up io ksz lt data key p s1")
        have "unat p < unat cap" "unat p \<le> length xs" using pl less.prems(2) by simp_all
        note ih = less.hyps [OF pl(1) at1 this m rec]
        have out: "(r, s') = try_s (r2, s2) (\<lambda>(h, ws) s2. (Inr (h, (data + hole * heap_stride ksz, ps) # ws), s2))"
          using run Inr yes off rec by simp
        show ?thesis
        proof (cases r2)
          case (Inl e)
          with out ih c1 unchanged_trans [OF rk(1)] show ?thesis by auto
        next
          case ok: (Inr v)
          then have v: "v = (of_nat h1, slot_writes data (heap_stride ksz) ws1)" using ih by simp
          have rs: "r = Inr (of_nat h', slot_writes data (heap_stride ksz) ws)" "s' = s2"
            using out unfolding ok v w by simp_all
          have "unchanged vw s s2" using unchanged_trans [OF rk(1)] ih by blast
          moreover have "v_calm vw s \<longrightarrow> v_calm vw s2" using ih c1 by blast
          ultimately show ?thesis unfolding rs by simp
        qed
      qed
    qed
  qed
qed

lemma heap_smaller_child_ok:
  assumes at: "heap_at vw ksz lt handle H data cap s xs" and n: "newlen = of_nat n" "unat newlen = n" "Suc n \<le> length xs"
    and c: "unat child < n" and run: "heap_smaller_child io ksz lt data newlen child s = (r, s')"
  shows "unchanged vw s s'"
    and "\<forall>v. r = Inr v \<longrightarrow> v = (of_nat (smaller (slot_lt ksz lt) (take n xs) (unat child)), xs ! smaller (slot_lt ksz lt) (take n xs) (unat child))"
    and "v_calm vw s \<Longrightarrow> \<not> isl r \<and> v_calm vw s'"
proof -
  obtain rc s1 where r1: "heap_read_slot io ksz data child s = (rc, s1)" by (cases "heap_read_slot io ksz data child s")
  have r1': "heap_read_slot io ksz data (of_nat (unat child)) s = (rc, s1)" using r1 by simp
  have cl: "unat child < length xs" using c n(3) by simp
  note k1 = heap_read_ok [OF at cl r1']
  have at1: "heap_at vw ksz lt handle H data cap s1 xs" by (rule heap_at_unchanged [OF at k1(1)])
  obtain rr s2 where r2: "heap_read_slot io ksz data (child + 1) s1 = (rr, s2)" by (cases "heap_read_slot io ksz data (child + 1) s1")
  have small: "Suc (unat child) < u64_limit" using c n(2) unat_u64_bound [of newlen] by linarith
  then have uc: "unat (child + 1) = Suc (unat child)" by (simp add: unat_plus_u64)
  have lt: "child + 1 < newlen \<longleftrightarrow> Suc (unat child) < n" using uc n(2) by (simp add: word_less_nat_alt)
  have eq: "of_nat (Suc (unat child)) = child + 1" by simp
  have r2': "heap_read_slot io ksz data (of_nat (Suc (unat child))) s1 = (rr, s2)" using r2 unfolding eq .
  have all: "unchanged vw s s' \<and> (\<forall>v. r = Inr v \<longrightarrow> v = (of_nat (smaller (slot_lt ksz lt) (take n xs) (unat child)),
        xs ! smaller (slot_lt ksz lt) (take n xs) (unat child))) \<and> (v_calm vw s \<longrightarrow> \<not> isl r \<and> v_calm vw s')"
  proof (cases "\<not> isl rc \<and> Suc (unat child) < n")
    case False
    then show ?thesis using run r1 k1 lt c by (cases rc) (auto simp: heap_smaller_child_def smaller_def)
  next
    case True
    have rl: "Suc (unat child) < length xs" using True n(3) by simp
    note k2 = heap_read_ok [OF at1 rl r2']
    have sm: "smaller (slot_lt ksz lt) (take n xs) (unat child) =
        (if lt (heap_read_key ksz (xs ! Suc (unat child))) (heap_read_key ksz (xs ! unat child)) then Suc (unat child) else unat child)"
      using True n(3) by (simp add: smaller_def slot_lt_def min_def)
    obtain v where v: "rc = Inr v" "v = xs ! unat child" using True k1(2) by (cases rc) auto
    have run': "(r, s') = try_s (rr, s2) (\<lambda>right s2.
        if lt (heap_read_key ksz right) (heap_read_key ksz v) then (Inr (child + 1, right), s2) else (Inr (child, v), s2))"
      using run r1 v(1) True lt r2 by (simp add: heap_smaller_child_def)
    have u: "unchanged vw s s2" by (rule unchanged_trans [OF k1(1) k2(1)])
    have calm: "v_calm vw s \<longrightarrow> \<not> isl rr \<and> v_calm vw s2" using k1(3) k2(3) by auto
    show ?thesis
    proof (cases rr)
      case (Inl e)
      with run' u calm show ?thesis by simp
    next
      case (Inr w)
      then have "w = xs ! Suc (unat child)" using k2(2) by simp
      with run' Inr u calm sm v(2) eq show ?thesis by auto
    qed
  qed
  then show "unchanged vw s s'" "\<forall>v. r = Inr v \<longrightarrow> v = (of_nat (smaller (slot_lt ksz lt) (take n xs) (unat child)),
        xs ! smaller (slot_lt ksz lt) (take n xs) (unat child))" "v_calm vw s \<Longrightarrow> \<not> isl r \<and> v_calm vw s'" by blast+
qed

lemma heap_sift_down_ok:
  assumes key: "heap_read_key ksz e = key" and n: "newlen = of_nat n" "unat newlen = n" "n < 2 ^ 60"
  shows "heap_at vw ksz lt handle H data cap s xs \<Longrightarrow> Suc n \<le> length xs \<Longrightarrow> unat hole < n \<Longrightarrow> n \<le> 2 ^ f * (unat hole + 1) \<Longrightarrow>
    down_moves (slot_lt ksz lt) (take n xs) (unat hole) e = (h', ws) \<Longrightarrow>
    \<exists>r s'. heap_sift_down (Suc f) io ksz lt data newlen key hole s = Some (r, s') \<and> unchanged vw s s'
      \<and> (\<forall>v. r = Inr v \<longrightarrow> v = (of_nat h', slot_writes data (heap_stride ksz) ws))
      \<and> (v_calm vw s \<longrightarrow> \<not> isl r \<and> v_calm vw s')"
proof (induction f arbitrary: hole s h' ws)
  case 0
  have g: "v_good vw s" using 0(1) by (simp add: heap_at_def)
  have uc: "unat (2 * hole + 1) = 2 * unat hole + 1" using 0(3) n(3) by (simp add: unat_plus_u64 unat_mult_u64)
  have ge: "newlen \<le> 2 * hole + 1" using 0(4) uc n(2) by (simp add: word_le_nat_alt)
  have "h' = unat hole" "ws = []" using 0(2,4,5) by (simp_all add: down_moves.simps [of _ "take n xs"])
  with ge g show ?case by (simp add: unchanged_def)
next
  case (Suc f)
  note at = Suc.prems(1)
  have g: "v_good vw s" using at by (simp add: heap_at_def)
  have uc: "unat (2 * hole + 1) = 2 * unat hole + 1" using Suc.prems(3) n(3) by (simp add: unat_plus_u64 unat_mult_u64)
  have len: "length (take n xs) = n" using Suc.prems(2) by simp
  show ?case
  proof (cases "n \<le> 2 * unat hole + 1")
    case True
    then have ge: "newlen \<le> 2 * hole + 1" using uc n(2) by (simp add: word_le_nat_alt)
    have "h' = unat hole" "ws = []" using Suc.prems(5) True len by (simp_all add: down_moves.simps [of _ "take n xs"])
    with ge g show ?thesis by (simp add: unchanged_def)
  next
    case False
    then have nge: "\<not> newlen \<le> 2 * hole + 1" using uc n(2) by (simp add: word_le_nat_alt)
    let ?m = "smaller (slot_lt ksz lt) (take n xs) (2 * unat hole + 1)"
    obtain rc s1 where ch: "heap_smaller_child io ksz lt data newlen (2 * hole + 1) s = (rc, s1)" by fastforce
    have cn: "unat (2 * hole + 1) < n" using False uc by simp
    note sc = heap_smaller_child_ok [OF at n(1,2) Suc.prems(2) cn ch, unfolded uc]
    have m: "?m < n" "2 * unat hole + 1 \<le> ?m" using smaller_cases [of "slot_lt ksz lt" "take n xs" "2 * unat hole + 1"] False len by auto
    then have um: "unat (of_nat ?m :: u64) = ?m" using n(3) by (intro unat_of_nat_u64) simp
    have at1: "heap_at vw ksz lt handle H data cap s1 xs" by (rule heap_at_unchanged [OF at sc(1)])
    have cmp: "slot_lt ksz lt (take n xs ! ?m) e = lt (heap_read_key ksz (xs ! ?m)) key" using m(1) key by (simp add: slot_lt_def)
    have dm: "down_moves (slot_lt ksz lt) (take n xs) (unat hole) e =
        (if \<not> lt (heap_read_key ksz (xs ! ?m)) key then (unat hole, [])
         else case down_moves (slot_lt ksz lt) (take n xs) ?m e of (h1, ws1) \<Rightarrow> (h1, (unat hole, xs ! ?m) # ws1))"
      using False m(1) len by (subst down_moves.simps) (simp only: cmp, simp)
    show ?thesis
    proof (cases rc)
      case (Inl e)
      then have "heap_sift_down (Suc (Suc f)) io ksz lt data newlen key hole s = Some (Inl e, s1)"
        using nge ch by (simp only: heap_sift_down.simps(2) [of "Suc f"] Let_def) simp
      with sc Inl show ?thesis by auto
    next
      case (Inr v)
      then have v: "rc = Inr (of_nat ?m, xs ! ?m)" using sc(2) by simp
      have c1: "v_calm vw s \<longrightarrow> v_calm vw s1" using sc(3) by simp
      show ?thesis
      proof (cases "lt (heap_read_key ksz (xs ! ?m)) key")
        case no: False
        have "h' = unat hole" "ws = []"
          using Suc.prems(5) no unfolding dm by simp_all
        moreover have "heap_sift_down (Suc (Suc f)) io ksz lt data newlen key hole s = Some (Inr (hole, []), s1)"
          using nge ch v no by (simp only: heap_sift_down.simps(2) [of "Suc f"] Let_def) simp
        ultimately show ?thesis using sc(1) c1 by simp
      next
        case yes: True
        obtain h1 ws1 where mv: "down_moves (slot_lt ksz lt) (take n xs) ?m e = (h1, ws1)" by fastforce
        have w: "h' = h1" "ws = (unat hole, xs ! ?m) # ws1"
          using Suc.prems(5) yes mv unfolding dm by simp_all
        have cz: "cap \<noteq> 0" and hc: "unat hole < unat cap" using at Suc.prems(2,3) by (auto simp: heap_at_def split: if_splits)
        note ar = heap_array [OF at cz]
        have off: "heap_slot_off ksz data hole = Inr (data + hole * heap_stride ksz)"
          using slot_address(2) [of data cap "heap_stride ksz", OF _ hc] ar(1,4)
          by (simp add: heap_slot_off_def del: checked_off_mul_Inr)
        have "2 ^ Suc f * (unat hole + 1) \<le> 2 ^ f * (?m + 1)" 
        proof -
          have "2 ^ Suc f * (unat hole + 1) = 2 ^ f * (2 * unat hole + 1 + 1)" by simp
          also have "\<dots> \<le> 2 ^ f * (?m + 1)" using m(2) by (intro mult_le_mono2) simp
          finally show ?thesis .
        qed
        then have fm: "n \<le> 2 ^ f * (unat (of_nat ?m :: u64) + 1)" using Suc.prems(4) um by simp
        obtain r2 s2 where rec: "heap_sift_down (Suc f) io ksz lt data newlen key (of_nat ?m) s1 = Some (r2, s2)"
          and u2: "unchanged vw s1 s2" and v2: "\<forall>v. r2 = Inr v \<longrightarrow> v = (of_nat h1, slot_writes data (heap_stride ksz) ws1)"
          and c2: "v_calm vw s1 \<longrightarrow> \<not> isl r2 \<and> v_calm vw s2"
          using Suc.IH [OF at1 Suc.prems(2) _ fm, of h1 ws1] m(1) um mv by auto
        have "heap_sift_down (Suc (Suc f)) io ksz lt data newlen key hole s =
            Some (try_s (r2, s2) (\<lambda>(h, ws) s2. (Inr (h, (data + hole * heap_stride ksz, xs ! ?m) # ws), s2)))"
          using nge ch v yes off rec by (simp only: heap_sift_down.simps(2) [of "Suc f"] Let_def) simp
        then show ?thesis using unchanged_trans [OF sc(1) u2] v2 c1 c2 w by (cases r2) auto
      qed
    qed
  qed
qed

section \<open>Commits\<close>

lemma heap_slots_cong:
  assumes "\<And>i. i < n \<Longrightarrow> slice (data + i * w) w b' = slice (data + i * w) w b"
  shows "heap_slots w data n b' = heap_slots w data n b"
  by (rule nth_equalityI) (simp_all add: assms)

lemma heap_blocks_live: "heap_at vw ksz lt handle H data cap s xs \<Longrightarrow> heap_blocks ksz H data cap \<subseteq> v_live vw s"
  by (auto simp: heap_at_def heap_blocks_def)

text \<open>Slot writes, and the length with them.\<close>

lemma heap_commit_ok:
  assumes at: "heap_at vw ksz lt handle H data cap s xs" and cz: "cap \<noteq> 0" and n: "n \<le> unat cap"
    and ws: "\<forall>(i, x) \<in> set ws. i < unat cap \<and> length x = ksz + 8"
    and ys: "put_slots ws (heap_slots (ksz + 8) (unat data) n (v_bytes vw s)) = ys" and hp: "is_heap (slot_lt ksz lt) ys"
    and run: "op_commit io (slot_writes data (heap_stride ksz) ws @ [w8 (handle + HEAP_LEN_OFF) (of_nat n)]) s = (r, s')"
  shows "(\<exists>e. r = Inl e) \<and> unchanged vw s s' \<or> r = Inr () \<and> heap_at vw ksz lt handle H data cap s' ys \<and> kept vw (heap_blocks ksz H data cap) s s'"
    and "v_calm vw s \<Longrightarrow> r = Inr () \<and> v_calm vw s'"
proof -
  let ?b = "v_bytes vw s" and ?sw = "slot_writes data (heap_stride ksz) ws"
  let ?ws = "?sw @ [w8 (handle + HEAP_LEN_OFF) (of_nat n)]"
  let ?b1 = "apply_writes ?sw ?b"
  have g: "v_good vw s" using at by (simp add: heap_at_def)
  note ar = heap_array [OF at cz]
  note ad = heap_addr [OF at]
  have lim: "unat data + unat cap * unat (heap_stride ksz) < u64_limit" using ar(1,4) by simp
  note sw = apply_slot_writes [OF lim _ _ n, of ?b ws, unfolded ar(1), OF ar(3) ws]
  have ib1: "in_bounds ?b ?sw" and l1: "length ?b1 = length ?b"
    and sl: "heap_slots (ksz + 8) (unat data) n ?b1 = ys"
    and out: "\<And>a k. a + k \<le> length ?b \<Longrightarrow> a + k \<le> unat data \<or> unat data + unat cap * (ksz + 8) \<le> a \<Longrightarrow> slice a k ?b1 = slice a k ?b"
    using sw ys by auto
  have lo: "unat (handle + HEAP_LEN_OFF) = unat handle + 32" using ad(1) [of 32] by (simp add: heap_offsets)
  have ib: "in_bounds ?b ?ws" using ib1 ad(2) [of 32] lo by (simp add: in_bounds_append)
  have ab: "apply_writes ?ws ?b = poke (unat handle + 32) (of_nat n) ?b1" using lo by (simp add: apply_writes_append)
  show "r = Inr () \<and> v_calm vw s'" if "v_calm vw s" using calm_commit [OF g that ib] run by auto
  show "(\<exists>e. r = Inl e) \<and> unchanged vw s s' \<or> r = Inr () \<and> heap_at vw ksz lt handle H data cap s' ys \<and> kept vw (heap_blocks ksz H data cap) s s'"
  proof (cases r)
    case (Inl e)
    with commit_law [OF g run] show ?thesis by simp
  next
    case (Inr u)
    then have w: "written vw s (apply_writes ?ws ?b) s'" using commit_law [OF g run] by simp
    then have b': "v_bytes vw s' = poke (unat handle + 32) (of_nat n) ?b1" and g': "v_good vw s'" and l': "v_live vw s' = v_live vw s"
      by (simp_all add: written_def ab)
    have in_arr: "inside (unat data + i * (ksz + 8)) (ksz + 8) (data, cap * heap_stride ksz)" if "i < unat cap" for i
      using slot_within [OF that, of "unat data" "ksz + 8" "unat data + unat cap * (ksz + 8)"] ar(2)
      by (simp add: inside_def range_end_def)
    have "\<exists>q \<in> heap_blocks ksz H data cap. inside (unat off) (length d) q" if "(off, d) \<in> set ?ws" for off d
    proof (cases "(off, d) \<in> set ?sw")
      case True
      then obtain i where "off = data + of_nat i * heap_stride ksz" "(i, d) \<in> set ws" by (auto simp: slot_writes_def)
      then have i: "i < unat cap" "length d = ksz + 8" and "unat off = unat data + i * (ksz + 8)"
        using ws slot_address(1) [OF lim, of i] ar(1) by auto
      with in_arr [OF i(1)] cz show ?thesis by (auto simp: heap_blocks_def)
    next
      case False
      with that have "unat off = unat handle + 32" "length d = 8" using lo by (simp_all add: w8_def)
      with ad(3) [of 32] show ?thesis by (auto simp: heap_blocks_def)
    qed
    then have k: "kept vw (heap_blocks ksz H data cap) s s'"
      by (intro frame_commit [OF g ib w heap_blocks_live [OF at]]) blast
    have words: "word_at (v_bytes vw s') (unat handle + j) = word_at ?b (unat handle + j)" if "j + 8 \<le> 32" for j
    proof -
      have i: "inside (unat handle + j) 8 H" and le: "unat handle + j + 8 \<le> length ?b" using ad(2,3) [of j] that by simp_all
      have "unat handle + j + 8 \<le> unat data \<or> unat data + unat cap * (ksz + 8) \<le> unat handle + j"
        using inside_apart [OF i ar(7)] ar(2) by (simp add: range_end_def)
      with out [OF le] have "word_at ?b1 (unat handle + j) = word_at ?b (unat handle + j)" by (simp add: word_at_def)
      with that le ad(2) [of 32] l1 show ?thesis by (simp add: b' word_at_poke_other)
    qed
    have len: "word_at (v_bytes vw s') (unat handle + 32) = of_nat n" using b' l1 ad(2) [of 32] by simp
    have un: "unat (of_nat n :: u64) = n" using n ar(5) by (intro unat_of_nat_u64) simp
    have ly: "length ys = n" using sl by auto
    have "heap_slots (ksz + 8) (unat data) n (v_bytes vw s') = ys"
    proof -
      have "slice (unat data + i * (ksz + 8)) (ksz + 8) (v_bytes vw s') = slice (unat data + i * (ksz + 8)) (ksz + 8) ?b1" if "i < n" for i
      proof -
        have i: "i < unat cap" using that n by simp
        have "unat handle + 40 \<le> unat data + i * (ksz + 8) \<or> unat data + i * (ksz + 8) + (ksz + 8) \<le> unat handle + 32"
          using inside_apart [OF ad(3) [of 32] ar(7)] in_arr [OF i] ar(2) by (auto simp: inside_def range_end_def)
        moreover have "unat data + i * (ksz + 8) + (ksz + 8) \<le> length ?b" by (rule slot_within [OF i ar(3)])
        ultimately show ?thesis using ad(2) [of 32] l1 by (auto simp: b' poke_def slice_overwrite_disjoint)
      qed
      then show ?thesis using heap_slots_cong sl by metis
    qed
    then have "heap_at vw ksz lt handle H data cap s' ys"
      using at words [of 16] words [of 24] len un ly g' l' hp n cz by (simp add: heap_at_def)
    with k Inr show ?thesis by simp
  qed
qed

end

section \<open>Growth\<close>

text \<open>A new block for the array, with room for it.\<close>

definition heap_spare ::
    "'s stack_view \<Rightarrow> nat \<Rightarrow> range \<Rightarrow> u64 \<Rightarrow> u64 \<Rightarrow> u64 \<Rightarrow> u64 \<Rightarrow> 's \<Rightarrow> u8 list list \<Rightarrow> bool" where
  "heap_spare vw ksz H data cap data' cap' s xs \<longleftrightarrow>
     (data', cap' * heap_stride ksz) \<in> v_live vw s \<and> (data', cap' * heap_stride ksz) \<notin> heap_blocks ksz H data cap
     \<and> cap' \<noteq> 0 \<and> unat cap' * (ksz + 8) < u64_limit \<and> length xs \<le> unat cap'"

context stack_laws
begin

lemma heap_copy_ok:
  assumes at: "heap_at vw ksz lt handle H data cap s xs" and sp: "heap_spare vw ksz H data cap data' cap' s xs"
    and run: "(if (of_nat (length xs) :: u64) > 0 then
                try_in (ok_or heap_len_overflow (checked_mul64 (of_nat (length xs)) (heap_stride ksz))) s (\<lambda>len_size.
                try_s (op_read io data (unat len_size) s) (\<lambda>buf s3. op_set io data' buf s3))
              else (Inr (), s)) = (r, s')"
  shows "(\<exists>e. r = Inl e) \<and> unchanged vw s s'
      \<or> r = Inr () \<and> kept vw {(data', cap' * heap_stride ksz)} s s' \<and> v_live vw s' = v_live vw s
        \<and> heap_slots (ksz + 8) (unat data') (length xs) (v_bytes vw s') = xs"
    and "v_calm vw s \<Longrightarrow> r = Inr () \<and> v_calm vw s'"
proof -
  let ?q = "(data', cap' * heap_stride ksz)" and ?b = "v_bytes vw s"
  have g: "v_good vw s" and k62: "ksz < 2 ^ 62" using at by (simp_all add: heap_at_def)
  have st: "unat (heap_stride ksz) = ksz + 8" by (rule unat_heap_stride [OF k62])
  have all: "((\<exists>e. r = Inl e) \<and> unchanged vw s s'
      \<or> r = Inr () \<and> kept vw {?q} s s' \<and> v_live vw s' = v_live vw s
        \<and> heap_slots (ksz + 8) (unat data') (length xs) (v_bytes vw s') = xs) \<and> (v_calm vw s \<longrightarrow> r = Inr () \<and> v_calm vw s')"
  proof (cases "xs = []")
    case True
    then have "r = Inr ()" "s' = s" using run by simp_all
    with True show ?thesis using frame_refl [OF g] by (simp add: heap_slots_def)
  next
    case False
    then have cz: "cap \<noteq> 0" using at by (auto simp: heap_at_def)
    note ar = heap_array [OF at cz]
    have n: "length xs \<le> unat cap" and xs: "xs = heap_slots (ksz + 8) (unat data) (length xs) ?b" using at cz by (simp_all add: heap_at_def)
    have un: "unat (of_nat (length xs) :: u64) = length xs" using n ar(5) by (intro unat_of_nat_u64) simp
    have "length xs * (ksz + 8) \<le> unat cap * (ksz + 8)" using n by (rule mult_le_mono1)
    then have sz: "length xs * (ksz + 8) < u64_limit" "unat data + length xs * (ksz + 8) \<le> length ?b" using ar(3,4) by linarith+
    let ?k = "length xs * (ksz + 8)"
    have uk: "unat (of_nat (length xs) * heap_stride ksz) = ?k" using un st sz(1) by (simp add: unat_mult_u64)
    have cm: "checked_mul64 (of_nat (length xs)) (heap_stride ksz) = Some (of_nat (length xs) * heap_stride ksz)"
      using un st sz(1) by (simp add: checked_mul64_def)
    obtain rb s1 where rd: "op_read io data ?k s = (rb, s1)" by fastforce
    note l = read_law [OF g rd]
    have u1: "unchanged vw s s1" using l by simp
    then have g1: "v_good vw s1" and b1: "v_bytes vw s1 = ?b" and l1: "v_live vw s1 = v_live vw s" by (simp_all add: unchanged_def)
    have "(of_nat (length xs) :: u64) > 0" using un False by (simp add: word_less_nat_alt)
    with run cm uk rd have out: "(r, s') = try_s (rb, s1) (\<lambda>buf s3. op_set io data' buf s3)" by simp
    have q: "?q \<in> v_live vw s1" "unat (cap' * heap_stride ksz) = unat cap' * (ksz + 8)" "length xs \<le> unat cap'"
      using sp l1 st by (simp_all add: heap_spare_def unat_mult_u64)
    have qe: "unat data' + unat cap' * (ksz + 8) \<le> length ?b" using good_live [OF g1 q(1)] q(2) b1 by (simp add: range_end_def)
    have "length xs * (ksz + 8) \<le> unat cap' * (ksz + 8)" using q(3) by (rule mult_le_mono1)
    moreover from this have "unat data' + ?k \<le> length ?b" using qe by linarith
    ultimately have fit: "unat data' + ?k \<le> length ?b" "inside (unat data') ?k ?q" using q(2) by (simp_all add: inside_def range_end_def)
    show ?thesis
    proof (cases rb)
      case (Inl e)
      with out u1 calm_read [OF g, of data ?k] sz(2) rd show ?thesis by auto
    next
      case (Inr buf)
      then have buf: "buf = slice (unat data) ?k ?b" using l by simp
      then have lb: "length buf = ?k" using sz(2) by simp
      have set: "op_set io data' buf s1 = (r, s')" using out Inr by simp
      have calm: "r = Inr () \<and> v_calm vw s'" if "v_calm vw s"
        using calm_read [OF g that sz(2)] calm_set [OF g1, of data' buf] set rd lb fit(1) b1 by auto
      show ?thesis
      proof (cases r)
        case e: (Inl e)
        have "unchanged vw s1 s'" using set_law [OF g1 set] e by simp
        with unchanged_trans [OF u1] e calm show ?thesis by blast
      next
        case ok: (Inr u)
        then have w: "written vw s1 (overwrite (unat data') buf (v_bytes vw s1)) s'" using set_law [OF g1 set] by simp
        have "kept vw {?q} s1 s'" by (rule frame_set [OF g1 w q(1)]) (use fit(2) lb in simp)
        then have "kept vw {?q} s s'" by (rule frame_after_unchanged [OF u1])
        moreover have "v_live vw s' = v_live vw s" using w l1 by (simp add: written_def)
        moreover have "heap_slots (ksz + 8) (unat data') (length xs) (v_bytes vw s') = xs"
        proof (rule nth_equalityI)
          fix i assume "i < length (heap_slots (ksz + 8) (unat data') (length xs) (v_bytes vw s'))"
          then have i: "i < length xs" by simp
          then have e: "0 + i * (ksz + 8) + (ksz + 8) \<le> ?k" using slot_within [OF i, of 0 "ksz + 8" ?k] by simp
          have "slice (unat data' + i * (ksz + 8)) (ksz + 8) (v_bytes vw s') = slice (i * (ksz + 8)) (ksz + 8) buf"
            using w e fit(1) lb b1 by (simp add: written_def slice_overwrite_inside)
          also have "\<dots> = slice (unat data + i * (ksz + 8)) (ksz + 8) ?b" using e by (simp add: buf slice_slice)
          also have "\<dots> = xs ! i" by (subst xs) (simp add: i)
          finally show "heap_slots (ksz + 8) (unat data') (length xs) (v_bytes vw s') ! i = xs ! i" using i by simp
        qed simp
        ultimately show ?thesis using ok calm by simp
      qed
    qed
  qed
  then show "(\<exists>e. r = Inl e) \<and> unchanged vw s s'
      \<or> r = Inr () \<and> kept vw {?q} s s' \<and> v_live vw s' = v_live vw s
        \<and> heap_slots (ksz + 8) (unat data') (length xs) (v_bytes vw s') = xs" "v_calm vw s \<Longrightarrow> r = Inr () \<and> v_calm vw s'" by blast+
qed

lemma heap_swap_ok:
  assumes at: "heap_at vw ksz lt handle H data cap s xs" and sp: "heap_spare vw ksz H data cap data' cap' s xs"
    and same: "heap_slots (ksz + 8) (unat data') (length xs) (v_bytes vw s) = xs"
    and run: "op_set io (handle + HEAP_DATA_OFF) (to_le64 data' @ to_le64 cap') s = (r, s')"
  shows "(\<exists>e. r = Inl e) \<and> unchanged vw s s'
      \<or> r = Inr () \<and> kept vw {H} s s' \<and> v_live vw s' = v_live vw s \<and> heap_at vw ksz lt handle H data' cap' s' xs"
    and "v_calm vw s \<Longrightarrow> r = Inr () \<and> v_calm vw s'"
proof -
  let ?q = "(data', cap' * heap_stride ksz)" and ?b = "v_bytes vw s" and ?d = "to_le64 data' @ to_le64 cap'"
  have g: "v_good vw s" and H: "H \<in> v_live vw s" and k62: "ksz < 2 ^ 62" and iH: "inside (unat handle) 40 H"
    using at by (simp_all add: heap_at_def)
  note ad = heap_addr [OF at]
  have o: "unat (handle + HEAP_DATA_OFF) = unat handle + 16" using ad(1) [of 16] by (simp add: heap_offsets)
  have le: "unat handle + 40 \<le> length ?b" using ad(2) [of 32] by simp
  show "r = Inr () \<and> v_calm vw s'" if "v_calm vw s" using calm_set [OF g that, of "handle + HEAP_DATA_OFF" ?d] run o le by auto
  show "(\<exists>e. r = Inl e) \<and> unchanged vw s s'
      \<or> r = Inr () \<and> kept vw {H} s s' \<and> v_live vw s' = v_live vw s \<and> heap_at vw ksz lt handle H data' cap' s' xs"
  proof (cases r)
    case (Inl e)
    with set_law [OF g run] show ?thesis by simp
  next
    case (Inr u)
    then have w: "written vw s (overwrite (unat handle + 16) ?d ?b) s'" using set_law [OF g run] o by simp
    have k: "kept vw {H} s s'"
      by (rule frame_set [OF g w [folded o] H]) (use o iH in \<open>simp add: inside_def\<close>)
    have b': "v_bytes vw s' = overwrite (unat handle + 16) ?d ?b" and l': "v_live vw s' = v_live vw s" and g': "v_good vw s'"
      using w by (simp_all add: written_def)
    have w1: "word_at (v_bytes vw s') (unat handle + 16) = data'"
      using le by (simp add: b' word_at_def slice_overwrite_inside slice_append1)
    have w2: "word_at (v_bytes vw s') (unat handle + 24) = cap'"
      using le by (simp add: b' word_at_def slice_overwrite_inside slice_append2)
    have w3: "word_at (v_bytes vw s') (unat handle + 32) = word_at ?b (unat handle + 32)"
      using le by (simp add: b' word_at_def slice_overwrite_disjoint)
    have q: "?q \<in> v_live vw s" "?q \<noteq> H" using sp by (auto simp: heap_spare_def heap_blocks_def split: if_splits)
    have c: "content (v_bytes vw s') ?q = content ?b ?q" by (rule frame_content [OF k q(1)]) (use q(2) in simp)
    have uq: "unat (cap' * heap_stride ksz) = unat cap' * (ksz + 8)"
      using sp unat_heap_stride [OF k62] by (simp add: heap_spare_def unat_mult_u64)
    have "slice (unat data' + i * (ksz + 8)) (ksz + 8) (v_bytes vw s') = slice (unat data' + i * (ksz + 8)) (ksz + 8) ?b"
      if "i < length xs" for i
    proof (rule slice_mono_eq)
      show "slice (unat data') (unat cap' * (ksz + 8)) (v_bytes vw s') = slice (unat data') (unat cap' * (ksz + 8)) ?b"
        using c uq by (simp add: content_def)
      have "i < unat cap'" using that sp by (simp add: heap_spare_def)
      then show "unat data' + i * (ksz + 8) + (ksz + 8) \<le> unat data' + unat cap' * (ksz + 8)" by (rule slot_within [OF _ order_refl])
    qed simp
    then have "heap_slots (ksz + 8) (unat data') (length xs) (v_bytes vw s') = xs" using heap_slots_cong same by metis
    then have "heap_at vw ksz lt handle H data' cap' s' xs"
      using at w1 w2 w3 q l' g' sp by (simp add: heap_at_def heap_spare_def)
    with Inr k l' show ?thesis by simp
  qed
qed

end

text \<open>What one growth does: the list stays; when it succeeds there is room.\<close>

definition heap_grown ::
    "'s stack_view \<Rightarrow> nat \<Rightarrow> (u8 list \<Rightarrow> u8 list \<Rightarrow> bool) \<Rightarrow> u64 \<Rightarrow> range \<Rightarrow> 's \<Rightarrow> range set \<Rightarrow> u8 list list \<Rightarrow> unit res \<Rightarrow> 's \<Rightarrow> bool" where
  "heap_grown vw ksz lt handle H s R xs r s' \<longleftrightarrow>
     (\<exists>data cap. heap_at vw ksz lt handle H data cap s' xs \<and> owns_frame vw s R s' (heap_blocks ksz H data cap)
        \<and> (r = Inr () \<longrightarrow> length xs < unat cap))"

lemma heap_array_iff: "heap_at vw ksz lt handle H data cap s xs \<Longrightarrow> length xs \<le> unat cap"
  by (auto simp: heap_at_def split: if_splits)

context stack_laws
begin

lemma heap_grow_ok:
  assumes at: "heap_at vw ksz lt handle H data cap s xs" and run: "heap_grow io ksz handle s = (r, s')"
  shows "heap_grown vw ksz lt handle H s (heap_blocks ksz H data cap) xs r s' \<and> (v_calm vw s \<longrightarrow> v_calm vw s')"
proof -
  let ?R = "heap_blocks ksz H data cap"
  have k62: "ksz < 2 ^ 62" and HR: "H \<in> ?R" using at by (simp_all add: heap_at_def heap_blocks_def)
  obtain rm s1 where rd: "heap_read_meta io handle s = (rm, s1)" by fastforce
  note m = heap_meta_ok [OF at rd]
  have at1: "heap_at vw ksz lt handle H data cap s1 xs" by (rule heap_at_unchanged [OF at m(1)])
  have g1: "v_good vw s1" using at1 by (simp add: heap_at_def)
  have fail: "heap_grown vw ksz lt handle H s ?R xs (Inl e) s'"
    if "heap_at vw ksz lt handle H data cap s' xs" "kept vw {} s s'" for s' and e
    using that owns_frame_same [OF frame_mono [OF that(2)], of ?R ?R] unfolding heap_grown_def by blast
  have f1: "kept vw {} s s1" by (rule frame_unchanged [OF m(1)])
  show ?thesis
  proof (cases rm)
    case (Inl e)
    then have "r = Inl e" "s' = s1" using run rd by (simp_all add: heap_grow_def)
    with fail [OF at1 f1] m(3) Inl show ?thesis by auto
  next
    case (Inr v)
    then have v: "v = (data, cap, of_nat (length xs))" and c1: "v_calm vw s \<longrightarrow> v_calm vw s1" using m(2,3) by auto
    define nc where "nc = (if cap = 0 then HEAP_MIN_CAP else saturating_mul64 cap 2)"
    have run1: "(r, s') = (if nc \<le> cap then (Inl heap_corrupt_cap, s1)
       else
         try_in (ok_or heap_cap_overflow (checked_mul64 nc (heap_stride ksz))) s1 (\<lambda>new_size.
         try_s (op_alloc io new_size s1) (\<lambda>q s2.
         try_s (if (of_nat (length xs) :: u64) > 0 then
                  try_in (ok_or heap_len_overflow (checked_mul64 (of_nat (length xs)) (heap_stride ksz))) s2 (\<lambda>len_size.
                  try_s (op_read io data (unat len_size) s2) (\<lambda>buf s3. op_set io (fst q) buf s3))
                else (Inr (), s2)) (\<lambda>_ s4.
         try_s (op_set io (handle + HEAP_DATA_OFF) (to_le64 (fst q) @ to_le64 nc) s4) (\<lambda>_ s5.
           (Inr (), if data \<noteq> 0 then snd (op_dealloc io (data, saturating_mul64 cap (heap_stride ksz)) s5) else s5))))))"
      using run rd unfolding nc_def Inr v by (simp add: heap_grow_def Let_def)
    show ?thesis
    proof (cases "nc \<le> cap \<or> checked_mul64 nc (heap_stride ksz) = None")
      case True
      then have "\<exists>e. r = Inl e" "s' = s1" by (cases "nc \<le> cap"; use run1 in simp)+
      with fail [OF at1 f1] c1 show ?thesis by blast
    next
      case False
      then obtain sz where sz: "checked_mul64 nc (heap_stride ksz) = Some sz" and lt: "cap < nc" by auto
      have st: "unat (heap_stride ksz) = ksz + 8" by (rule unat_heap_stride [OF k62])
      have lim: "unat nc * (ksz + 8) < u64_limit" and szq: "sz = nc * heap_stride ksz"
        using sz st by (auto simp: checked_mul64_Some)
      have nz: "nc \<noteq> 0" using lt by auto
      have "unat sz = unat nc * (ksz + 8)" using lim szq st by (simp add: unat_mult_u64)
      then have sz0: "sz \<noteq> 0" using nz by (metis add_is_0 mult_is_0 unat_0 unat_eq_zero zero_neq_numeral)
      obtain rq s2 where al: "op_alloc io sz s1 = (rq, s2)" by fastforce
      note ka = frame_alloc [OF g1 al sz0]
      have k2: "kept vw {} s s2" by (rule frame_after_unchanged [OF m(1) ka(1)])
      have at2: "heap_at vw ksz lt handle H data cap s2 xs" by (rule heap_at_kept [OF at k2]) simp
      have c2: "v_calm vw s \<longrightarrow> v_calm vw s2" using calm_alloc [OF g1 _ al] c1 by simp
      show ?thesis
      proof (cases rq)
        case e: (Inl e)
        then have "r = Inl e" "s' = s2" using run1 False sz al by simp_all
        with fail [OF at2 k2] c2 show ?thesis by blast
      next
        case q': (Inr q)
        let ?q = "(fst q, nc * heap_stride ksz)"
        have q: "q = ?q" "q \<notin> v_live vw s" "q \<in> v_live vw s2"
          using ka(2) [OF q'] szq m(1) by (auto simp: unchanged_def prod_eq_iff)
        have nR: "?q \<notin> ?R" using q heap_blocks_live [OF at] by auto
        have room: "length xs < unat nc" using heap_array_iff [OF at] lt by (simp add: word_less_nat_alt)
        have sp: "heap_spare vw ksz H data cap (fst q) nc s' xs" if "v_live vw s' = v_live vw s2" for s'
          using q that nR nz lim room by (simp add: heap_spare_def)
        obtain rc s4 where cp: "(if (of_nat (length xs) :: u64) > 0 then
                  try_in (ok_or heap_len_overflow (checked_mul64 (of_nat (length xs)) (heap_stride ksz))) s2 (\<lambda>len_size.
                  try_s (op_read io data (unat len_size) s2) (\<lambda>buf s3. op_set io (fst q) buf s3))
                else (Inr (), s2)) = (rc, s4)" by fastforce
        note c = heap_copy_ok [OF at2 sp [OF refl] cp]
        have run2: "(r, s') = try_s (rc, s4) (\<lambda>_ s4.
            try_s (op_set io (handle + HEAP_DATA_OFF) (to_le64 (fst q) @ to_le64 nc) s4) (\<lambda>_ s5.
              (Inr (), if data \<noteq> 0 then snd (op_dealloc io (data, saturating_mul64 cap (heap_stride ksz)) s5) else s5)))"
          using run1 False sz al q' cp by simp
        have k4: "kept vw {q} s2 s4" and cc4: "v_calm vw s \<longrightarrow> rc = Inr () \<and> v_calm vw s4"
          using c c2 frame_unchanged q(1) by auto
        have kk4: "kept vw {} s s4" by (rule frame_trans [OF k2 k4]) (use q(2) in auto)
        have at4: "heap_at vw ksz lt handle H data cap s4 xs" by (rule heap_at_kept [OF at2 k4]) (use nR q(1) in auto)
        show ?thesis
        proof (cases rc)
          case e: (Inl e)
          then have "r = Inl e" "s' = s4" using run2 by simp_all
          with fail [OF at4 kk4] cc4 e show ?thesis by auto
        next
          case ok: (Inr u)
          then have l4: "v_live vw s4 = v_live vw s2" and same: "heap_slots (ksz + 8) (unat (fst q)) (length xs) (v_bytes vw s4) = xs"
            using c(1) by auto
          obtain rs s5 where sw: "op_set io (handle + HEAP_DATA_OFF) (to_le64 (fst q) @ to_le64 nc) s4 = (rs, s5)" by fastforce
          note w = heap_swap_ok [OF at4 sp [OF l4] same sw]
          have run3: "(r, s') = try_s (rs, s5) (\<lambda>_ s5.
              (Inr (), if data \<noteq> 0 then snd (op_dealloc io (data, saturating_mul64 cap (heap_stride ksz)) s5) else s5))"
            using run2 ok sw by simp
          show ?thesis
          proof (cases rs)
            case e: (Inl e)
            then have u: "unchanged vw s4 s5" and out: "r = Inl e" "s' = s5" using w(1) run3 by auto
            have "kept vw {} s s5" by (rule frame_trans [OF kk4 frame_unchanged [OF u, of "{}"]]) simp
            with fail [OF heap_at_unchanged [OF at4 u]] w(2) cc4 e out show ?thesis by auto
          next
            case swapped: (Inr u')
            then have k5: "kept vw {H} s4 s5" and l5: "v_live vw s5 = v_live vw s2" and at5: "heap_at vw ksz lt handle H (fst q) nc s5 xs"
              using w(1) l4 by auto
            have c5: "v_calm vw s \<longrightarrow> v_calm vw s5" using w(2) cc4 by simp
            have kk5: "kept vw ?R s s5"
              by (rule frame_trans [OF frame_mono [OF kk4] k5]) (use HR in auto)
            have nb: "heap_blocks ksz H (fst q) nc = {H, q}" using nz q(1) by (simp add: heap_blocks_def)
            have own: "owns_frame vw s ?R s' {H, q}" if "kept vw ?R s s'" for s'
              using that q(2) HR by (auto simp: owns_frame_def)
            show ?thesis
            proof (cases "cap = 0")
              case True
              then have "data = 0" using at by (simp add: heap_at_def)
              with run3 swapped have "r = Inr ()" "s' = s5" by simp_all
              with own [OF kk5] at5 nb room c5 show ?thesis unfolding heap_grown_def by metis
            next
              case cz: False
              note ar = heap_array [OF at cz]
              let ?o = "(data, cap * heap_stride ksz)"
              have old: "saturating_mul64 cap (heap_stride ksz) = cap * heap_stride ksz" "?o \<in> v_live vw s5" "?o \<noteq> H" "?o \<noteq> q" "?o \<in> ?R"
                using at cz st l5 ar(2,4) nR q(1) frame_live [OF k2] by (auto simp: heap_at_def saturating_mul64_def heap_blocks_def)
              obtain rd6 s6 where de: "op_dealloc io ?o s5 = (rd6, s6)" by fastforce
              have g5: "v_good vw s5" using at5 by (simp add: heap_at_def)
              note d = frame_dealloc [OF g5 old(2) de]
              have out: "r = Inr ()" "s' = s6" using run3 swapped old(1) ar(6) de by simp_all
              have "heap_at vw ksz lt handle H (fst q) nc s6 xs" by (rule heap_at_kept [OF at5 d(1)]) (use old nb in auto)
              moreover have "kept vw ?R s s6" by (rule frame_trans [OF kk5 d(1)]) (use old(5) in auto)
              ultimately show ?thesis using own nb room d(3) c5 out unfolding heap_grown_def by metis
            qed
          qed
        qed
      qed
    qed
  qed
qed

end

section \<open>Pushing and popping\<close>

lemma priority_slots: "priority lt \<Longrightarrow> priority (slot_lt ksz lt)"
  unfolding priority_def slot_lt_def by (intro conjI allI; metis)

lemma new_slot [simp]:
  "length key = ksz \<Longrightarrow> heap_read_key ksz (key @ to_le64 v) = key"
  "length key = ksz \<Longrightarrow> heap_slot_val ksz (key @ to_le64 v) = v"
  by (simp_all add: heap_read_key_def heap_slot_val_def get_u64_def slice_append2)

definition heap_becomes ::
    "'s stack_view \<Rightarrow> nat \<Rightarrow> (u8 list \<Rightarrow> u8 list \<Rightarrow> bool) \<Rightarrow> u64 \<Rightarrow> range \<Rightarrow> u64 \<Rightarrow> u64 \<Rightarrow> 's \<Rightarrow> 'a res
      \<Rightarrow> ('a \<Rightarrow> (u8 list \<times> u64) multiset \<Rightarrow> bool) \<Rightarrow> 's \<Rightarrow> bool" where
  "heap_becomes vw ksz lt handle H data cap s r Q s' \<longleftrightarrow>
     (\<exists>e. r = Inl e) \<and> unchanged vw s s'
     \<or> (\<exists>v ys. r = Inr v \<and> heap_at vw ksz lt handle H data cap s' ys \<and> kept vw (heap_blocks ksz H data cap) s s'
          \<and> Q v (mset (map (heap_entry ksz) ys)))"

context stack_laws
begin

lemma heap_slot_length:
  assumes at: "heap_at vw ksz lt handle H data cap s xs" and i: "i < length xs"
  shows "length (xs ! i) = ksz + 8"
proof -
  have c: "cap \<noteq> 0" using at i by (auto simp: heap_at_def)
  note ar = heap_array [OF at c]
  have xs: "xs = heap_slots (ksz + 8) (unat data) (length xs) (v_bytes vw s)" using at c by (simp add: heap_at_def)
  have "i < unat cap" using i heap_array_iff [OF at] by simp
  from slot_within [OF this ar(3)] show ?thesis by (subst xs) (simp add: i)
qed

lemma heap_push_room:
  assumes pr: "priority lt" and at: "heap_at vw ksz lt handle H data cap s xs" and room: "length xs < unat cap"
    and k: "length key = ksz"
  shows "\<exists>r s'. heap_push_loop (Suc fuel) io ksz lt handle key val s = Some (r, s')
    \<and> heap_becomes vw ksz lt handle H data cap s r (\<lambda>_ M. M = add_mset (key, val) (mset (map (heap_entry ksz) xs))) s'
    \<and> (v_calm vw s \<longrightarrow> r = Inr () \<and> v_calm vw s')"
proof -
  let ?n = "length xs" and ?e = "key @ to_le64 val" and ?lt = "slot_lt ksz lt" and ?st = "heap_stride ksz"
  have cz: "cap \<noteq> 0" using room by auto
  have hp: "is_heap ?lt xs" using at by (simp add: heap_at_def)
  note ar = heap_array [OF at cz]
  have un: "unat (of_nat ?n :: u64) = ?n" using room ar(5) by (intro unat_of_nat_u64) simp
  obtain rm s1 where rd: "heap_read_meta io handle s = (rm, s1)" by fastforce
  note m = heap_meta_ok [OF at rd]
  have at1: "heap_at vw ksz lt handle H data cap s1 xs" by (rule heap_at_unchanged [OF at m(1)])
  show ?thesis
  proof (cases rm)
    case (Inl e)
    then have "heap_push_loop (Suc fuel) io ksz lt handle key val s = Some (Inl e, s1)" using rd by simp
    with m Inl show ?thesis by (auto simp: heap_becomes_def)
  next
    case (Inr v)
    then have v: "rm = Inr (data, cap, of_nat ?n)" and c1: "v_calm vw s \<longrightarrow> v_calm vw s1" using m(2,3) by auto
    have ok: "\<not> (data = 0 \<or> (of_nat ?n :: u64) \<ge> cap)" using ar(6) room un by (simp add: word_le_nat_alt)
    obtain h' ws where mv: "up_moves ?lt xs (unat (of_nat ?n :: u64)) ?e = (h', ws)" by fastforce
    obtain rs s2 where su: "heap_sift_up io ksz lt data key (of_nat ?n) s1 = (rs, s2)" by fastforce
    have "unat (of_nat ?n :: u64) < unat cap" "unat (of_nat ?n :: u64) \<le> ?n" using un room by simp_all
    note sift = heap_sift_up_ok [OF new_slot(1) [OF k] at1 this mv su]
    have u2: "unchanged vw s s2" using unchanged_trans [OF m(1)] sift by blast
    have at2: "heap_at vw ksz lt handle H data cap s2 xs" by (rule heap_at_unchanged [OF at u2])
    have run: "heap_push_loop (Suc fuel) io ksz lt handle key val s = Some (
              try_s (rs, s2) (\<lambda>(hole, ws) s2.
              try_in (heap_slot_off ksz data hole) s2 (\<lambda>off.
                op_commit io (ws @ [(off, ?e), w8 (handle + HEAP_LEN_OFF) (of_nat ?n + 1)]) s2)))"
      using rd v ok su by simp
    show ?thesis
    proof (cases rs)
      case (Inl e)
      then show ?thesis using run sift u2 c1 by (auto simp: heap_becomes_def)
    next
      case rs: (Inr w)
      then have w: "w = (of_nat h', slot_writes data ?st ws)" using sift by simp
      note bd = up_moves_bound [OF mv, unfolded un]
      have hc: "h' < unat cap" using bd room by simp
      have off: "heap_slot_off ksz data (of_nat h') = Inr (data + of_nat h' * ?st)"
        using slot_address(2) [OF _ hc, of data ?st] ar(1,4) by (simp add: heap_slot_off_def del: checked_off_mul_Inr)
      let ?ws = "ws @ [(h', ?e)]" and ?ys = "up ?lt (xs @ [slice (unat data + ?n * (ksz + 8)) (ksz + 8) (v_bytes vw s2)]) ?n ?e"
      obtain r s' where co: "op_commit io (slot_writes data ?st ?ws @ [w8 (handle + HEAP_LEN_OFF) (of_nat (Suc ?n))]) s2 = (r, s')" by fastforce
      have out: "heap_push_loop (Suc fuel) io ksz lt handle key val s = Some (r, s')"
        using run rs w off co by (simp add: add.commute)
      have wl: "\<forall>(i, x) \<in> set ?ws. i < unat cap \<and> length x = ksz + 8"
      proof -
        have "i < unat cap \<and> length x = ksz + 8" if "(i, x) \<in> set ws" for i x
        proof -
          have i: "i \<le> ?n" "0 < i" "x = xs ! par i" using bd that by blast+
          then have "par i < ?n" using par_less [of i] by linarith
          with i room heap_slot_length [OF at] show ?thesis by simp
        qed
        then show ?thesis using hc k by auto
      qed
      have xs: "xs = heap_slots (ksz + 8) (unat data) ?n (v_bytes vw s2)" using at2 cz by (simp add: heap_at_def)
      have put: "put_slots ?ws (heap_slots (ksz + 8) (unat data) (Suc ?n) (v_bytes vw s2)) = ?ys"
        unfolding heap_slots_Suc xs [symmetric]
        by (rule up_moves_up [OF _ mv [unfolded un]]) (simp add: nth_append)
      note ph = priority.push_heap [OF priority_slots [OF pr] hp]
      have "Suc ?n \<le> unat cap" using room by simp
      note cm = heap_commit_ok [OF at2 cz this wl put ph(1) co]
      have "heap_becomes vw ksz lt handle H data cap s r (\<lambda>_ M. M = add_mset (key, val) (mset (map (heap_entry ksz) xs))) s'"
      proof (cases "\<exists>e. r = Inl e")
        case True
        with cm(1) unchanged_trans [OF u2] show ?thesis by (auto simp: heap_becomes_def)
      next
        case False
        then have f: "r = Inr ()" "heap_at vw ksz lt handle H data cap s' ?ys" "kept vw (heap_blocks ksz H data cap) s2 s'"
          using cm(1) by auto
        have "mset (map (heap_entry ksz) ?ys) = add_mset (key, val) (mset (map (heap_entry ksz) xs))"
          using ph(2) [of "slice (unat data + ?n * (ksz + 8)) (ksz + 8) (v_bytes vw s2)" ?e] k by (simp add: heap_entry_def)
        with f frame_after_unchanged [OF u2 f(3)] show ?thesis unfolding heap_becomes_def by blast
      qed
      with out cm(2) sift c1 show ?thesis by auto
    qed
  qed
qed

lemma heap_becomes_inv:
  assumes at: "heap_at vw ksz lt handle H data cap s xs" and b: "heap_becomes vw ksz lt handle H data cap s r Q s'"
  shows "\<exists>M'. heap_inv vw ksz lt handle H s' (heap_blocks ksz H data cap) M'
    \<and> owns_frame vw s (heap_blocks ksz H data cap) s' (heap_blocks ksz H data cap)
    \<and> (case r of Inl e \<Rightarrow> M' = mset (map (heap_entry ksz) xs) | Inr v \<Rightarrow> Q v M')"
proof -
  let ?R = "heap_blocks ksz H data cap"
  from b consider e where "r = Inl e" "unchanged vw s s'"
    | v ys where "r = Inr v" "heap_at vw ksz lt handle H data cap s' ys" "kept vw ?R s s'" "Q v (mset (map (heap_entry ksz) ys))"
    unfolding heap_becomes_def by blast
  then show ?thesis
  proof cases
    case 1
    have "owns_frame vw s ?R s' ?R" by (rule owns_frame_same [OF frame_unchanged [OF 1(2)] subset_refl])
    moreover have "heap_inv vw ksz lt handle H s' ?R (mset (map (heap_entry ksz) xs))"
      unfolding heap_inv_def using heap_at_unchanged [OF at 1(2)] by blast
    ultimately show ?thesis using 1(1) by auto
  next
    case 2
    have "owns_frame vw s ?R s' ?R" by (rule owns_frame_same [OF 2(3) subset_refl])
    moreover have "heap_inv vw ksz lt handle H s' ?R (mset (map (heap_entry ksz) ys))" unfolding heap_inv_def using 2(2) by blast
    ultimately show ?thesis using 2(1,4) by auto
  qed
qed

lemma heap_push_ok:
  assumes pr: "priority lt" and inv: "heap_inv vw ksz lt handle H s R M" and k: "length key = ksz"
  shows "\<exists>r s' R' M'. heap_push_loop (Suc (Suc fuel)) io ksz lt handle key val s = Some (r, s')
    \<and> heap_inv vw ksz lt handle H s' R' M' \<and> owns_frame vw s R s' R'
    \<and> (case r of Inl e \<Rightarrow> M' = M | Inr _ \<Rightarrow> M' = add_mset (key, val) M) \<and> (v_calm vw s \<longrightarrow> v_calm vw s')"
proof -
  obtain data cap xs where R: "R = heap_blocks ksz H data cap" and at: "heap_at vw ksz lt handle H data cap s xs"
    and M: "M = mset (map (heap_entry ksz) xs)" using inv unfolding heap_inv_def by blast
  have fits: "\<exists>r s' R' M'. heap_push_loop (Suc f) io ksz lt handle key val s = Some (r, s')
      \<and> heap_inv vw ksz lt handle H s' R' M' \<and> owns_frame vw s (heap_blocks ksz H data cap) s' R'
      \<and> (case r of Inl e \<Rightarrow> M' = M | Inr _ \<Rightarrow> M' = add_mset (key, val) M) \<and> (v_calm vw s \<longrightarrow> v_calm vw s')"
    if t: "heap_at vw ksz lt handle H data cap s xs" "length xs < unat cap" for f s data cap
  proof -
    obtain r s' where p: "heap_push_loop (Suc f) io ksz lt handle key val s = Some (r, s')"
      "heap_becomes vw ksz lt handle H data cap s r (\<lambda>_ N. N = add_mset (key, val) (mset (map (heap_entry ksz) xs))) s'"
      "v_calm vw s \<longrightarrow> r = Inr () \<and> v_calm vw s'"
      using heap_push_room [OF pr t k] by blast
    from heap_becomes_inv [OF t(1) p(2)] p(1,3) M show ?thesis by blast
  qed
  show ?thesis
  proof (cases "length xs < unat cap")
    case True
    from fits [OF at this] show ?thesis unfolding R .
  next
    case full: False
    obtain rm s1 where rd: "heap_read_meta io handle s = (rm, s1)" by fastforce
    note m = heap_meta_ok [OF at rd]
    have at1: "heap_at vw ksz lt handle H data cap s1 xs" by (rule heap_at_unchanged [OF at m(1)])
    have f1: "owns_frame vw s R s1 R" by (rule owns_frame_same [OF frame_unchanged [OF m(1)] subset_refl])
    have inv1: "heap_inv vw ksz lt handle H s1 R M" using at1 R M unfolding heap_inv_def by blast
    show ?thesis
    proof (cases rm)
      case (Inl e)
      then have "heap_push_loop (Suc (Suc fuel)) io ksz lt handle key val s = Some (Inl e, s1)" using rd by simp
      moreover have "\<not> v_calm vw s" using m(3) Inl by blast
      ultimately show ?thesis using f1 inv1 by (intro exI [of _ "Inl e"] exI [of _ s1] exI [of _ R] exI [of _ M]) simp
    next
      case (Inr v)
      then have v: "rm = Inr (data, cap, of_nat (length xs))" and c1: "v_calm vw s \<longrightarrow> v_calm vw s1" using m(2,3) by auto
      have no: "data = 0 \<or> (of_nat (length xs) :: u64) \<ge> cap"
      proof -
        have "unat (of_nat (length xs) :: u64) = length xs" using at unfolding heap_at_def by (metis u64_of_unat)
        then show ?thesis using full by (simp add: word_le_nat_alt)
      qed
      obtain rg s2 where gr: "heap_grow io ksz handle s1 = (rg, s2)" by fastforce
      obtain data' cap' where g: "heap_at vw ksz lt handle H data' cap' s2 xs"
        "owns_frame vw s1 (heap_blocks ksz H data cap) s2 (heap_blocks ksz H data' cap')" "rg = Inr () \<longrightarrow> length xs < unat cap'"
        "v_calm vw s1 \<longrightarrow> v_calm vw s2"
        using heap_grow_ok [OF at1 gr] unfolding heap_grown_def by blast
      have f2: "owns_frame vw s R s2 (heap_blocks ksz H data' cap')" using owns_frame_trans [OF f1] g(2) R by simp
      show ?thesis
      proof (cases rg)
        case (Inl e)
        then have "heap_push_loop (Suc (Suc fuel)) io ksz lt handle key val s = Some (Inl e, s2)" using rd v no gr by simp
        moreover have "heap_inv vw ksz lt handle H s2 (heap_blocks ksz H data' cap') M" using g(1) M unfolding heap_inv_def by blast
        ultimately show ?thesis using f2 c1 g(4)
          by (intro exI [of _ "Inl e"] exI [of _ s2] exI [of _ "heap_blocks ksz H data' cap'"] exI [of _ M]) simp
      next
        case (Inr u)
        then have rm: "length xs < unat cap'" using g(3) by simp
        obtain r s' R' M' where p: "heap_push_loop (Suc fuel) io ksz lt handle key val s2 = Some (r, s')"
          "heap_inv vw ksz lt handle H s' R' M'" "owns_frame vw s2 (heap_blocks ksz H data' cap') s' R'"
          "case r of Inl e \<Rightarrow> M' = M | Inr _ \<Rightarrow> M' = add_mset (key, val) M" "v_calm vw s2 \<longrightarrow> v_calm vw s'"
          using fits [OF g(1) rm, of fuel] by blast
        have "heap_push_loop (Suc (Suc fuel)) io ksz lt handle key val s = Some (r, s')"
          using p(1) rd v no gr Inr by (subst heap_push_loop.simps(2)) simp
        with p owns_frame_trans [OF f2 p(3)] c1 g(4) show ?thesis by blast
      qed
    qed
  qed
qed

text \<open>The only element: the length is set to zero.\<close>

lemma heap_clear_ok:
  assumes at: "heap_at vw ksz lt handle H data cap s xs" and run: "op_set io (handle + HEAP_LEN_OFF) (to_le64 0) s = (r, s')"
  shows "(\<exists>e. r = Inl e) \<and> unchanged vw s s' \<or> r = Inr () \<and> heap_at vw ksz lt handle H data cap s' [] \<and> kept vw (heap_blocks ksz H data cap) s s'"
    and "v_calm vw s \<Longrightarrow> r = Inr () \<and> v_calm vw s'"
proof -
  let ?b = "v_bytes vw s"
  have g: "v_good vw s" and H: "H \<in> v_live vw s" "H \<in> heap_blocks ksz H data cap" using at by (simp_all add: heap_at_def heap_blocks_def)
  note ad = heap_addr [OF at]
  have lo: "unat (handle + HEAP_LEN_OFF) = unat handle + 32" using ad(1) [of 32] by (simp add: heap_offsets)
  show "r = Inr () \<and> v_calm vw s'" if "v_calm vw s"
    using calm_set [OF g that, of "handle + HEAP_LEN_OFF" "to_le64 0"] run lo ad(2) [of 32] by auto
  show "(\<exists>e. r = Inl e) \<and> unchanged vw s s' \<or> r = Inr () \<and> heap_at vw ksz lt handle H data cap s' [] \<and> kept vw (heap_blocks ksz H data cap) s s'"
  proof (cases r)
    case (Inl e)
    with set_law [OF g run] show ?thesis by simp
  next
    case (Inr u)
    then have w: "written vw s (overwrite (unat (handle + HEAP_LEN_OFF)) (to_le64 0) ?b) s'" using set_law [OF g run] by simp
    have k: "kept vw {H} s s'" by (rule frame_set [OF g w H(1)]) (use lo ad(3) [of 32] in simp)
    have b': "v_bytes vw s' = poke (unat handle + 32) 0 ?b" and g': "v_good vw s'" and l': "v_live vw s' = v_live vw s"
      using w lo by (simp_all add: written_def poke_def)
    have "word_at (v_bytes vw s') (unat handle + j) = word_at ?b (unat handle + j)" if "j + 8 \<le> 32" for j
      using ad(2) [of j] ad(2) [of 32] that by (simp add: b' word_at_poke_other)
    from this [of 16] this [of 24] have "heap_at vw ksz lt handle H data cap s' []"
      using at g' l' ad(2) [of 32] by (auto simp: heap_at_def b' heap_slots_def is_heap_def)
    with Inr frame_mono [OF k] H(2) show ?thesis by simp
  qed
qed

text \<open>The last element sifts down from the root and the batch puts the moves in place.\<close>

lemma heap_settle_ok:
  assumes pr: "priority lt" and at: "heap_at vw ksz lt handle H data cap s xs" and n: "Suc n = length xs" "0 < n"
  shows "\<exists>r s'. map_option (\<lambda>m.
        try_s m (\<lambda>(hole, ws) s4.
        try_in (heap_slot_off ksz data hole) s4 (\<lambda>off.
        try_s (op_commit io (ws @ [(off, last xs), w8 (handle + HEAP_LEN_OFF) (of_nat n)]) s4) (\<lambda>_ s5. (Inr v, s5)))))
        (heap_sift_down (Suc 63) io ksz lt data (of_nat n) (heap_read_key ksz (last xs)) 0 s) = Some (r, s')
    \<and> heap_becomes vw ksz lt handle H data cap s r (\<lambda>v' M. v' = v \<and> M = mset (map (heap_entry ksz) (tl xs))) s'
    \<and> (v_calm vw s \<longrightarrow> \<not> isl r \<and> v_calm vw s')"
proof -
  let ?lt = "slot_lt ksz lt" and ?st = "heap_stride ksz"
  have ne: "xs \<noteq> []" using n(1) by auto
  have hp: "is_heap ?lt xs" using at by (simp add: heap_at_def)
  have cz: "cap \<noteq> 0" using at ne by (auto simp: heap_at_def)
  note ar = heap_array [OF at cz]
  have ncap: "length xs \<le> unat cap" by (rule heap_array_iff [OF at])
  have n60: "n < 2 ^ 60" using n ncap ar(5) by simp
  then have nu: "unat (of_nat n :: u64) = n" by (intro unat_of_nat_u64) simp
  have bl: "take n xs = butlast xs" by (simp add: butlast_conv_take n(1) [symmetric])
  obtain h' ws where mv: "down_moves ?lt (take n xs) (unat (0 :: u64)) (last xs) = (h', ws)" by fastforce
  have fits: "Suc n \<le> length xs" "unat (0 :: u64) < n" "n \<le> 2 ^ 63 * (unat (0 :: u64) + 1)" using n n60 by simp_all
  obtain rd4 s4 where sd: "heap_sift_down (Suc 63) io ksz lt data (of_nat n) (heap_read_key ksz (last xs)) 0 s = Some (rd4, s4)"
    and u4: "unchanged vw s s4" and r4: "\<forall>v. rd4 = Inr v \<longrightarrow> v = (of_nat h', slot_writes data ?st ws)"
    and c4: "v_calm vw s \<longrightarrow> \<not> isl rd4 \<and> v_calm vw s4"
    using heap_sift_down_ok [OF refl refl nu n60 at fits mv] by blast
  have at4: "heap_at vw ksz lt handle H data cap s4 xs" by (rule heap_at_unchanged [OF at u4])
  show ?thesis
  proof (cases rd4)
    case (Inl e)
    with sd u4 c4 show ?thesis by (auto simp: heap_becomes_def simp del: heap_sift_down.simps)
  next
    case (Inr w)
    then have w: "rd4 = Inr (of_nat h', slot_writes data ?st ws)" using r4 by simp
    have "0 < length (take n xs)" using n by simp
    note bd = down_moves_bound [OF mv, unfolded unat_0, OF this]
    have hc: "h' < unat cap" using bd n ncap by simp
    have off: "heap_slot_off ksz data (of_nat h') = Inr (data + of_nat h' * ?st)"
      using slot_address(2) [OF _ hc, of data ?st] ar(1,4) by (simp add: heap_slot_off_def del: checked_off_mul_Inr)
    let ?ws = "ws @ [(h', last xs)]" and ?ys = "down ?lt (butlast xs) 0 (last xs)"
    obtain rc s5 where co: "op_commit io (slot_writes data ?st ?ws @ [w8 (handle + HEAP_LEN_OFF) (of_nat n)]) s4 = (rc, s5)" by fastforce
    have len: "\<forall>x \<in> set xs. length x = ksz + 8" using heap_slot_length [OF at] by (metis in_set_conv_nth)
    have ni: "i < length (take n xs) \<Longrightarrow> i < unat cap" for i using n ncap by simp
    have "i < unat cap \<and> length x = ksz + 8" if "(i, x) \<in> set ws" for i x
      using bd that ni len set_take_subset [of n xs] by blast
    moreover have "length (last xs) = ksz + 8" using len last_in_set [OF ne] by blast
    ultimately have wl: "\<forall>(i, x) \<in> set ?ws. i < unat cap \<and> length x = ksz + 8" using hc by auto
    have xs: "xs = heap_slots (ksz + 8) (unat data) (length xs) (v_bytes vw s4)" using at4 cz by (simp add: heap_at_def)
    have bs: "heap_slots (ksz + 8) (unat data) n (v_bytes vw s4) = butlast xs"
      using arg_cong [OF xs, of butlast] by (simp add: butlast_heap_slots n(1) [symmetric])
    have put: "put_slots ?ws (heap_slots (ksz + 8) (unat data) n (v_bytes vw s4)) = ?ys"
      unfolding bs by (rule down_moves_down [OF _ _ mv [unfolded unat_0 bl]]) simp_all
    obtain z zs where z: "xs = z # zs" "zs \<noteq> []" using ne n by (cases xs) auto
    note ph = priority.pop_heap [OF priority_slots [OF pr] hp [unfolded z(1)] z(2), folded z(1)]
    have "n \<le> unat cap" using n ncap by simp
    note cm = heap_commit_ok [OF at4 cz this wl put ph(1) co]
    have "heap_becomes vw ksz lt handle H data cap s (map_sum id (\<lambda>_. v) rc) (\<lambda>v' M. v' = v \<and> M = mset (map (heap_entry ksz) (tl xs))) s5"
    proof (cases rc)
      case (Inl e)
      then show ?thesis using cm(1) unchanged_trans [OF u4] by (auto simp: heap_becomes_def)
    next
      case (Inr u)
      then have "heap_at vw ksz lt handle H data cap s5 ?ys" "kept vw (heap_blocks ksz H data cap) s s5"
        using cm(1) frame_after_unchanged [OF u4] by auto
      moreover have "mset (map (heap_entry ksz) ?ys) = mset (map (heap_entry ksz) (tl xs))" using ph(2) z(1) by simp
      ultimately show ?thesis unfolding heap_becomes_def using Inr by (intro disjI2 exI [of _ v] exI [of _ ?ys]) simp
    qed
    moreover have "try_s (rc, s5) (\<lambda>_ s5. (Inr v, s5)) = (map_sum id (\<lambda>_. v) rc, s5)" by (cases rc) simp_all
    ultimately show ?thesis using sd w off co cm(2) c4 by (auto simp del: heap_sift_down.simps)
  qed
qed

lemma heap_pop_ok:
  assumes pr: "priority lt" and at: "heap_at vw ksz lt handle H data cap s xs"
  shows "\<exists>r s'. heap_pop (Suc 63) io ksz lt handle s = Some (r, s')
    \<and> heap_becomes vw ksz lt handle H data cap s r
        (\<lambda>v M. if xs = [] then v = None \<and> M = {#}
              else v = Some (heap_entry ksz (hd xs)) \<and> M = mset (map (heap_entry ksz) (tl xs))) s'
    \<and> (v_calm vw s \<longrightarrow> \<not> isl r \<and> v_calm vw s')"
proof -
  let ?n = "length xs" and ?lt = "slot_lt ksz lt" and ?st = "heap_stride ksz"
  let ?Q = "\<lambda>v M. if xs = [] then v = None \<and> M = {#}
      else v = Some (heap_entry ksz (hd xs)) \<and> M = mset (map (heap_entry ksz) (tl xs))"
  have hp: "is_heap ?lt xs" using at by (simp add: heap_at_def)
  have un: "unat (of_nat ?n :: u64) = ?n" using at unfolding heap_at_def by (metis u64_of_unat)
  obtain rm s1 where rd: "heap_read_meta io handle s = (rm, s1)" by fastforce
  note m = heap_meta_ok [OF at rd]
  have at1: "heap_at vw ksz lt handle H data cap s1 xs" by (rule heap_at_unchanged [OF at m(1)])
  have err: "heap_becomes vw ksz lt handle H data cap s (Inl e) Q s'" if "unchanged vw s s'" for e s' Q
    using that by (simp add: heap_becomes_def)
  show ?thesis
  proof (cases rm)
    case (Inl e)
    then have "heap_pop (Suc 63) io ksz lt handle s = Some (Inl e, s1)" using rd by (simp add: heap_pop_def)
    with err [OF m(1)] m(3) Inl show ?thesis by auto
  next
    case (Inr v)
    then have v: "rm = Inr (data, cap, of_nat ?n)" and c1: "v_calm vw s \<longrightarrow> v_calm vw s1" using m(2,3) by auto
    show ?thesis
    proof (cases "xs = []")
      case True
      then have "heap_pop (Suc 63) io ksz lt handle s = Some (Inr None, s1)" using rd v by (simp add: heap_pop_def)
      moreover have "heap_becomes vw ksz lt handle H data cap s (Inr None) ?Q s1"
        unfolding heap_becomes_def using at1 frame_unchanged [OF m(1)] True by auto
      ultimately show ?thesis using c1 by auto
    next
      case ne: False
      have n0: "(of_nat ?n :: u64) \<noteq> 0" using un ne by (metis length_0_conv unat_0)
      have cz: "cap \<noteq> 0" using at ne by (auto simp: heap_at_def)
      note ar = heap_array [OF at cz]
      have ncap: "?n \<le> unat cap" by (rule heap_array_iff [OF at])
      obtain r0 s2 where rd0: "heap_read_slot io ksz data 0 s1 = (r0, s2)" by fastforce
      have "heap_read_slot io ksz data (of_nat 0) s1 = (r0, s2)" using rd0 by simp
      moreover have "0 < length xs" using ne by simp
      ultimately have k0: "unchanged vw s1 s2" "\<forall>v. r0 = Inr v \<longrightarrow> v = xs ! 0" "v_calm vw s1 \<Longrightarrow> r0 = Inr (xs ! 0) \<and> v_calm vw s2"
        using heap_read_ok [OF at1] by blast+
      have u2: "unchanged vw s s2" by (rule unchanged_trans [OF m(1) k0(1)])
      have at2: "heap_at vw ksz lt handle H data cap s2 xs" by (rule heap_at_unchanged [OF at u2])
      have run0: "heap_pop (Suc 63) io ksz lt handle s =
          (case (r0, s2) of
             (Inl e, s2) \<Rightarrow> Some (Inl e, s2)
           | (Inr min_slot, s2) \<Rightarrow>
                 let min_entry = (heap_read_key ksz min_slot, heap_slot_val ksz min_slot) in
                 if (of_nat ?n :: u64) = 1 then
                   Some (try_s (op_set io (handle + HEAP_LEN_OFF) (to_le64 0) s2) (\<lambda>_ s3. (Inr (Some min_entry), s3)))
                 else
                   (case heap_read_slot io ksz data (of_nat ?n - 1) s2 of
                      (Inl e, s3) \<Rightarrow> Some (Inl e, s3)
                    | (Inr last_slot, s3) \<Rightarrow>
                        map_option (\<lambda>m.
                          try_s m (\<lambda>(hole, ws) s4.
                          try_in (heap_slot_off ksz data hole) s4 (\<lambda>off.
                          try_s (op_commit io (ws @ [(off, last_slot), w8 (handle + HEAP_LEN_OFF) (of_nat ?n - 1)]) s4) (\<lambda>_ s5.
                            (Inr (Some min_entry), s5)))))
                          (heap_sift_down (Suc 63) io ksz lt data (of_nat ?n - 1) (heap_read_key ksz last_slot) 0 s3)))"
        using rd v n0 rd0 unfolding heap_pop_def by (simp del: heap_sift_down.simps)
      show ?thesis
      proof (cases r0)
        case (Inl e)
        with run0 err [OF u2] k0(3) c1 show ?thesis by auto
      next
        case r0: (Inr x)
        then have x: "r0 = Inr (hd xs)" and c2: "v_calm vw s \<longrightarrow> v_calm vw s2" using k0(2,3) c1 ne by (auto simp: hd_conv_nth)
        let ?me = "(heap_read_key ksz (hd xs), heap_slot_val ksz (hd xs))"
        have me: "heap_entry ksz (hd xs) = ?me" by (simp add: heap_entry_def)
        show ?thesis
        proof (cases "?n = 1")
          case one: True
          then have tl: "tl xs = []" by (cases xs) auto
          have w1: "(of_nat ?n :: u64) = 1" using one by simp
          obtain rs s3 where st: "op_set io (handle + HEAP_LEN_OFF) (to_le64 0) s2 = (rs, s3)" by fastforce
          note cl = heap_clear_ok [OF at2 st]
          have run: "heap_pop (Suc 63) io ksz lt handle s = Some (try_s (rs, s3) (\<lambda>_ s3. (Inr (Some ?me), s3)))"
            unfolding run0 x w1 using st by (simp add: Let_def)
          show ?thesis
          proof (cases rs)
            case (Inl e)
            then have "unchanged vw s s3" using cl(1) unchanged_trans [OF u2] by auto
            with err run cl(2) c2 Inl show ?thesis by auto
          next
            case (Inr u)
            then have "heap_at vw ksz lt handle H data cap s3 []" "kept vw (heap_blocks ksz H data cap) s s3"
              using cl(1) frame_after_unchanged [OF u2] by auto
            then have "heap_becomes vw ksz lt handle H data cap s (Inr (Some ?me)) ?Q s3"
              unfolding heap_becomes_def using ne tl me by (intro disjI2 exI [of _ "Some ?me"] exI [of _ "[]"]) simp
            with run Inr cl(2) c2 show ?thesis by auto
          qed
        next
          case more: False
          define n where "n = ?n - 1"
          have n: "Suc n = ?n" "0 < n" using more ne by (cases xs; simp add: n_def)+
          have nw: "(of_nat ?n :: u64) - 1 = of_nat n" and n1: "(of_nat ?n :: u64) \<noteq> 1"
            using n(1) un more by (auto simp: n(1) [symmetric])
          obtain rl s3 where rdl: "heap_read_slot io ksz data (of_nat n) s2 = (rl, s3)" by fastforce
          have "n < length xs" using n by simp
          note kl = heap_read_ok [OF at2 this rdl]
          have u3: "unchanged vw s s3" by (rule unchanged_trans [OF u2 kl(1)])
          have at3: "heap_at vw ksz lt handle H data cap s3 xs" by (rule heap_at_unchanged [OF at u3])
          have lastx: "xs ! n = last xs" using ne by (simp add: last_conv_nth n_def)
          have run1: "heap_pop (Suc 63) io ksz lt handle s =
              (case (rl, s3) of
                      (Inl e, s3) \<Rightarrow> Some (Inl e, s3)
                    | (Inr last_slot, s3) \<Rightarrow>
                        map_option (\<lambda>m.
                          try_s m (\<lambda>(hole, ws) s4.
                          try_in (heap_slot_off ksz data hole) s4 (\<lambda>off.
                          try_s (op_commit io (ws @ [(off, last_slot), w8 (handle + HEAP_LEN_OFF) (of_nat n)]) s4) (\<lambda>_ s5.
                            (Inr (Some ?me), s5)))))
                          (heap_sift_down (Suc 63) io ksz lt data (of_nat n) (heap_read_key ksz last_slot) 0 s3))"
            unfolding run0 x nw using n1 rdl by (simp add: Let_def del: heap_sift_down.simps)
          show ?thesis
          proof (cases rl)
            case (Inl e)
            with run1 err [OF u3] kl(3) c2 show ?thesis by auto
          next
            case rl: (Inr y)
            then have y: "rl = Inr (last xs)" and c3: "v_calm vw s \<longrightarrow> v_calm vw s3" using kl(2,3) c2 lastx by auto
            obtain r s' where t: "map_option (\<lambda>m.
                  try_s m (\<lambda>(hole, ws) s4.
                  try_in (heap_slot_off ksz data hole) s4 (\<lambda>off.
                  try_s (op_commit io (ws @ [(off, last xs), w8 (handle + HEAP_LEN_OFF) (of_nat n)]) s4) (\<lambda>_ s5. (Inr (Some ?me), s5)))))
                  (heap_sift_down (Suc 63) io ksz lt data (of_nat n) (heap_read_key ksz (last xs)) 0 s3) = Some (r, s')"
              "heap_becomes vw ksz lt handle H data cap s3 r (\<lambda>v' M. v' = Some ?me \<and> M = mset (map (heap_entry ksz) (tl xs))) s'"
              "v_calm vw s3 \<longrightarrow> \<not> isl r \<and> v_calm vw s'"
              using heap_settle_ok [OF pr at3 n, of "Some ?me"] by blast
            have "heap_becomes vw ksz lt handle H data cap s r ?Q s'"
              using t(2) unchanged_trans [OF u3] frame_after_unchanged [OF u3] ne me unfolding heap_becomes_def by auto
            moreover have "heap_pop (Suc 63) io ksz lt handle s = Some (r, s')" unfolding run1 y using t(1) by simp
            ultimately show ?thesis using t(3) c3 by blast
          qed
        qed
      qed
    qed
  qed
qed

end

end
