(* ===== verification/BinaryHeapRuns.thy ===== *)
theory BinaryHeapRuns
  imports BinaryHeapCorrect
begin

text \<open>
  Runs of operations on a stored heap against a multiset of entries: the heap is an instance of
  \<open>container\<close>, an entry that comes out has a least priority, and popping until nothing is left sorts.
\<close>

section \<open>The specification\<close>

datatype heap_op = HeapPush "u8 list" u64 | HeapPop | HeapPeek | HeapLen

datatype heap_answer = Pushed | Entry "(u8 list \<times> u64) option" | Count u64

text \<open>A least entry, or none if there is none.\<close>

definition least_entry :: "(u8 list \<Rightarrow> u8 list \<Rightarrow> bool) \<Rightarrow> (u8 list \<times> u64) multiset \<Rightarrow> (u8 list \<times> u64) option \<Rightarrow> bool" where
  "least_entry lt M v \<longleftrightarrow>
     (case v of None \<Rightarrow> M = {#} | Some e \<Rightarrow> e \<in># M \<and> (\<forall>x \<in># M. \<not> lt (fst x) (fst e)))"

fun heap_step ::
    "(u8 list \<Rightarrow> u8 list \<Rightarrow> bool) \<Rightarrow> (u8 list \<times> u64) multiset \<Rightarrow> heap_op \<Rightarrow> heap_answer res \<Rightarrow> (u8 list \<times> u64) multiset \<Rightarrow> bool" where
  "heap_step lt M oper (Inl e) M' = (M' = M)"
| "heap_step lt M (HeapPush k v) (Inr a) M' = (a = Pushed \<and> M' = add_mset (k, v) M)"
| "heap_step lt M HeapPop (Inr a) M' =
     (\<exists>e. a = Entry e \<and> least_entry lt M e \<and> M' = (case e of None \<Rightarrow> M | Some x \<Rightarrow> M - {#x#}))"
| "heap_step lt M HeapPeek (Inr a) M' = ((\<exists>e. a = Entry e \<and> least_entry lt M e) \<and> M' = M)"
| "heap_step lt M HeapLen (Inr a) M' = (a = Count (of_nat (size M)) \<and> M' = M)"

text \<open>A priority has the size of its type; only a push allocates.\<close>

fun key_sized :: "nat \<Rightarrow> heap_op \<Rightarrow> bool" where
  "key_sized ksz (HeapPush k v) = (length k = ksz)"
| "key_sized ksz _ = True"

fun not_push :: "heap_op \<Rightarrow> bool" where
  "not_push (HeapPush k v) = False"
| "not_push _ = True"

definition heap_exec ::
    "'s stack_ops \<Rightarrow> nat \<Rightarrow> (u8 list \<Rightarrow> u8 list \<Rightarrow> bool) \<Rightarrow> u64 \<Rightarrow> heap_op \<Rightarrow> 's \<Rightarrow> (heap_answer res \<times> 's) option" where
  "heap_exec io ksz lt handle oper s =
     (case oper of
        HeapPush k v \<Rightarrow> map_option (\<lambda>(r, s'). (case r of Inl (e, _) \<Rightarrow> Inl e | Inr _ \<Rightarrow> Inr Pushed, s'))
          (heap_push (Suc (Suc 0)) io ksz lt handle k v s)
      | HeapPop \<Rightarrow> map_option (\<lambda>m. try_s m (\<lambda>e s1. (Inr (Entry e), s1))) (heap_pop (Suc 63) io ksz lt handle s)
      | HeapPeek \<Rightarrow> Some (try_s (heap_peek io ksz handle s) (\<lambda>e s1. (Inr (Entry e), s1)))
      | HeapLen \<Rightarrow> Some (try_s (heap_len io handle s) (\<lambda>n s1. (Inr (Count n), s1))))"

section \<open>The heap is a container\<close>

lemma least_root:
  assumes pr: "priority lt" and hp: "is_heap (slot_lt ksz lt) xs"
  shows "least_entry lt (mset (map (heap_entry ksz) xs)) (if xs = [] then None else Some (heap_entry ksz (hd xs)))"
proof (cases xs)
  case (Cons x ys)
  have "\<not> slot_lt ksz lt y x" if y: "y \<in> set xs" for y
  proof -
    obtain i where i: "i < length xs" "y = xs ! i" using y by (metis in_set_conv_nth)
    have "\<not> slot_lt ksz lt (xs ! i) (xs ! 0)" by (rule priority.root_least [OF priority_slots [OF pr] hp i(1)])
    then show ?thesis using i(2) Cons by simp
  qed
  then have "\<forall>y \<in> set xs. \<not> lt (fst (heap_entry ksz y)) (fst (heap_entry ksz x))" by (simp add: slot_lt_def heap_entry_def)
  with Cons show ?thesis by (simp add: least_entry_def)
qed (simp add: least_entry_def)

locale heap_over = stack_laws io vw + priority lt
  for io :: "'s stack_ops" and vw :: "'s stack_view" and lt :: "u8 list \<Rightarrow> u8 list \<Rightarrow> bool"
begin

lemma heap_peek_ok:
  assumes at: "heap_at vw ksz lt handle H data cap s xs" and run: "heap_peek io ksz handle s = (r, s')"
  shows "unchanged vw s s'" and "\<forall>v. r = Inr v \<longrightarrow> v = (if xs = [] then None else Some (heap_entry ksz (hd xs)))"
    and "v_calm vw s \<Longrightarrow> \<not> isl r \<and> v_calm vw s'"
proof -
  obtain rm s1 where rd: "heap_read_meta io handle s = (rm, s1)" by fastforce
  note m = heap_meta_ok [OF at rd]
  have at1: "heap_at vw ksz lt handle H data cap s1 xs" by (rule heap_at_unchanged [OF at m(1)])
  have un: "unat (of_nat (length xs) :: u64) = length xs" using at unfolding heap_at_def by (metis u64_of_unat)
  have "unchanged vw s s' \<and> (\<forall>v. r = Inr v \<longrightarrow> v = (if xs = [] then None else Some (heap_entry ksz (hd xs))))
    \<and> (v_calm vw s \<longrightarrow> \<not> isl r \<and> v_calm vw s')"
  proof (cases "isl rm \<or> xs = []")
    case True
    then show ?thesis
    proof (cases rm)
      case (Inr v)
      then have "rm = Inr (data, cap, 0)" "xs = []" using m(2) True by auto
      with run rd m show ?thesis by (auto simp: heap_peek_def)
    qed (use run rd m in \<open>auto simp: heap_peek_def\<close>)
  next
    case False
    then have v: "rm = Inr (data, cap, of_nat (length xs))" and n0: "(of_nat (length xs) :: u64) \<noteq> 0" and l: "0 < length xs"
      using m(2) un by (cases rm; auto)+
    obtain r0 s2 where r0: "heap_read_slot io ksz data 0 s1 = (r0, s2)" by fastforce
    have r0': "heap_read_slot io ksz data (of_nat 0) s1 = (r0, s2)" using r0 by simp
    note k = heap_read_ok [OF at1 l r0']
    have out: "(r, s') = try_s (r0, s2) (\<lambda>slot s2. (Inr (Some (heap_read_key ksz slot, heap_slot_val ksz slot)), s2))"
      using run rd v n0 r0 by (simp add: heap_peek_def)
    have "unchanged vw s s2" by (rule unchanged_trans [OF m(1) k(1)])
    with out k m(3) False show ?thesis by (cases r0) (auto simp: heap_entry_def hd_conv_nth)
  qed
  then show "unchanged vw s s'" "\<forall>v. r = Inr v \<longrightarrow> v = (if xs = [] then None else Some (heap_entry ksz (hd xs)))"
    "v_calm vw s \<Longrightarrow> \<not> isl r \<and> v_calm vw s'" by blast+
qed

lemma heap_exec_ok:
  assumes inv: "heap_inv vw ksz lt handle H s R M" and ks: "key_sized ksz oper"
  shows "\<exists>r s' R' M'. heap_exec io ksz lt handle oper s = Some (r, s') \<and> heap_inv vw ksz lt handle H s' R' M'
    \<and> owns_frame vw s R s' R' \<and> heap_step lt M oper r M' \<and> (v_calm vw s \<longrightarrow> v_calm vw s' \<and> (not_push oper \<longrightarrow> \<not> isl r))"
proof -
  have pr: "priority lt" by (rule priority_axioms)
  obtain data cap xs where R: "R = heap_blocks ksz H data cap" and at: "heap_at vw ksz lt handle H data cap s xs"
    and M: "M = mset (map (heap_entry ksz) xs)" using inv unfolding heap_inv_def by blast
  have hp: "is_heap (slot_lt ksz lt) xs" and g: "v_good vw s" using at by (simp_all add: heap_at_def)
  note root = least_root [OF pr hp, folded M]
  have reads: ?thesis
    if "heap_exec io ksz lt handle oper s = Some (r, s')" "unchanged vw s s'" "heap_step lt M oper r M"
      "v_calm vw s \<longrightarrow> \<not> isl r \<and> v_calm vw s'" for r s'
  proof -
    have "heap_inv vw ksz lt handle H s' R M" using heap_at_unchanged [OF at that(2)] R M unfolding heap_inv_def by blast
    with that owns_frame_same [OF frame_unchanged [OF that(2)] subset_refl] show ?thesis by blast
  qed
  show ?thesis
  proof (cases oper)
    case (HeapPush k v)
    obtain r s' R' M' where p: "heap_push_loop (Suc (Suc 0)) io ksz lt handle k v s = Some (r, s')"
      "heap_inv vw ksz lt handle H s' R' M'" "owns_frame vw s R s' R'"
      "case r of Inl e \<Rightarrow> M' = M | Inr _ \<Rightarrow> M' = add_mset (k, v) M" "v_calm vw s \<longrightarrow> v_calm vw s'"
      using heap_push_ok [OF pr inv, of k 0 v] ks HeapPush by auto
    let ?r = "case r of Inl e \<Rightarrow> Inl e | Inr _ \<Rightarrow> Inr Pushed"
    have "heap_exec io ksz lt handle oper s = Some (?r, s')"
      using p(1) HeapPush by (cases r) (simp_all add: heap_exec_def heap_push_def finish_handback_def del: heap_push_loop.simps)
    moreover have "heap_step lt M oper ?r M'" using p(4) HeapPush by (cases r) simp_all
    ultimately show ?thesis using p HeapPush by auto
  next
    case HeapPop
    obtain r s' where p: "heap_pop (Suc 63) io ksz lt handle s = Some (r, s')"
      "heap_becomes vw ksz lt handle H data cap s r
        (\<lambda>v M. if xs = [] then v = None \<and> M = {#}
              else v = Some (heap_entry ksz (hd xs)) \<and> M = mset (map (heap_entry ksz) (tl xs))) s'"
      "v_calm vw s \<longrightarrow> \<not> isl r \<and> v_calm vw s'"
      using heap_pop_ok [OF pr at] by blast
    obtain M' where i: "heap_inv vw ksz lt handle H s' R M'" "owns_frame vw s R s' R"
      "case r of Inl e \<Rightarrow> M' = M | Inr v \<Rightarrow> if xs = [] then v = None \<and> M' = {#}
        else v = Some (heap_entry ksz (hd xs)) \<and> M' = mset (map (heap_entry ksz) (tl xs))"
      using heap_becomes_inv [OF at p(2)] R M by blast
    let ?r = "case r of Inl e \<Rightarrow> Inl e | Inr e \<Rightarrow> Inr (Entry e)"
    have "heap_exec io ksz lt handle oper s = Some (?r, s')" using p(1) HeapPop by (cases r) (simp_all add: heap_exec_def)
    moreover have "heap_step lt M oper ?r M'"
    proof (cases r)
      case (Inl e)
      with i(3) show ?thesis by simp
    next
      case (Inr v)
      with i(3) root HeapPop M show ?thesis by (cases xs) auto
    qed
    ultimately show ?thesis using i(1,2) p(3) by (intro exI [of _ ?r] exI [of _ s'] exI [of _ R] exI [of _ M']) (cases r; simp)
  next
    case HeapPeek
    obtain r s' where p: "heap_peek io ksz handle s = (r, s')" by fastforce
    note k = heap_peek_ok [OF at p]
    show ?thesis
      by (rule reads [of "case r of Inl e \<Rightarrow> Inl e | Inr e \<Rightarrow> Inr (Entry e)" s']; use HeapPeek p k root in \<open>cases r; auto simp: heap_exec_def\<close>)
  next
    case HeapLen
    obtain r s' where p: "heap_len io handle s = (r, s')" by fastforce
    note rw = read_word_ok [OF g p [unfolded heap_len_def]]
    have "unat (handle + HEAP_LEN_OFF) = unat handle + 32" "unat handle + 40 \<le> length (v_bytes vw s)"
      using heap_addr [OF at, of 32] by (simp_all add: heap_offsets)
    moreover have "word_at (v_bytes vw s) (unat handle + 32) = of_nat (length xs)"
      using at unfolding heap_at_def by (metis u64_of_unat)
    ultimately show ?thesis using rw M HeapLen p
      by (intro reads [of "case r of Inl e \<Rightarrow> Inl e | Inr n \<Rightarrow> Inr (Count n)" s']; cases r; auto simp: heap_exec_def)
  qed
qed

end

sublocale heap_over \<subseteq> heap: container vw "heap_exec io ksz lt handle" "heap_inv vw ksz lt handle H"
  "heap_step lt" "key_sized ksz" not_push for ksz handle H
proof unfold_locales
  show "v_good vw s" if "heap_inv vw ksz lt handle H s R M" for s R M
    using that by (auto simp: heap_inv_def heap_at_def)
qed (rule heap_exec_ok)

text \<open>Priorities that are little-endian words, as \<^verbatim>\<open>u64\<close> keys are.\<close>

definition word_lt :: "u8 list \<Rightarrow> u8 list \<Rightarrow> bool" where
  "word_lt a b \<longleftrightarrow> from_le64 a < from_le64 b"

interpretation word_keys: priority word_lt
  by unfold_locales (auto simp: word_lt_def)

interpretation mem_heap: heap_over mem_io mem_view word_lt
  by unfold_locales

section \<open>Popping everything\<close>

lemma trace_pops:
  "trace (heap_step lt) M ops rs M' \<Longrightarrow> ops = replicate (size M) HeapPop \<Longrightarrow> list_all2 (\<lambda>oper r. \<not> isl r) ops rs \<Longrightarrow>
    \<exists>es. rs = map (\<lambda>e. Inr (Entry (Some e))) es \<and> mset es = M \<and> sorted_wrt (\<lambda>a b. \<not> lt (fst b) (fst a)) es \<and> M' = {#}"
proof (induction M ops rs M' rule: trace.induct)
  case (trace_done M)
  then show ?case by simp
next
  case (trace_step M oper r M1 ops rs M')
  have oper: "oper = HeapPop" and ops: "ops = replicate (size M - 1) HeapPop" and ne: "M \<noteq> {#}"
    using trace_step.prems(1) by (cases "size M"; auto)+
  obtain a where "r = Inr a" using trace_step.prems(2) by (cases r) auto
  then obtain x where x: "r = Inr (Entry (Some x))" "least_entry lt M (Some x)" "M1 = M - {#x#}"
    using trace_step.hyps(1) oper ne by (auto simp: least_entry_def split: option.splits)
  then have sz: "size M1 = size M - 1" and in_M: "x \<in># M" by (simp_all add: least_entry_def size_Diff_singleton)
  then obtain es where es: "rs = map (\<lambda>e. Inr (Entry (Some e))) es" "mset es = M1"
    "sorted_wrt (\<lambda>a b. \<not> lt (fst b) (fst a)) es" "M' = {#}"
    using trace_step.IH ops trace_step.prems(2) by auto
  have "\<not> lt (fst b) (fst x)" if "b \<in> set es" for b
  proof -
    have "b \<in># M" using that es(2) x(3) by (metis in_diffD set_mset_mset)
    with x(2) show ?thesis by (simp add: least_entry_def)
  qed
  with es x in_M show ?case by (intro exI [of _ "x # es"]) simp
qed

context heap_over
begin

lemma heap_run:
  assumes "heap_inv vw ksz lt handle H s R M" and "\<forall>oper \<in> set ops. key_sized ksz oper"
  shows "\<exists>rs s' R' M'. run_ops (heap_exec io ksz lt handle) ops s = Some (rs, s') \<and> heap_inv vw ksz lt handle H s' R' M'
    \<and> owns_frame vw s R s' R' \<and> trace (heap_step lt) M ops rs M'
    \<and> (v_calm vw s \<longrightarrow> list_all2 (\<lambda>oper r. not_push oper \<longrightarrow> \<not> isl r) ops rs)"
  using heap.run_simulates [OF assms] by blast

lemma heap_pops:
  assumes inv: "heap_inv vw ksz lt handle H s R M" and calm: "v_calm vw s"
  shows "\<exists>es s' R'. run_ops (heap_exec io ksz lt handle) (replicate (size M) HeapPop) s = Some (map (\<lambda>e. Inr (Entry (Some e))) es, s')
    \<and> mset es = M \<and> sorted_wrt (\<lambda>a b. \<not> lt (fst b) (fst a)) es \<and> heap_inv vw ksz lt handle H s' R' {#}"
proof -
  let ?ops = "replicate (size M) HeapPop"
  obtain rs s' R' M' where r: "run_ops (heap_exec io ksz lt handle) ?ops s = Some (rs, s')" "heap_inv vw ksz lt handle H s' R' M'"
    "trace (heap_step lt) M ?ops rs M'" "list_all2 (\<lambda>oper r. not_push oper \<longrightarrow> \<not> isl r) ?ops rs"
    using heap_run [OF inv, of ?ops] calm by auto
  have "list_all2 (\<lambda>oper r. \<not> isl r) ?ops rs"
    using r(4) by (auto simp: list_all2_conv_all_nth)
  from trace_pops [OF r(3) refl this] r(1,2) show ?thesis by blast
qed

end

section \<open>A sample heap\<close>

text \<open>A heap at 16 with an array of four slots at 56: priorities 5 and 9 of the values 50 and 90.\<close>

definition sample_heap :: mem where
  "sample_heap = \<lparr>m_bytes = concat (map to_le64 [0, 0, 40, 0, 56, 4, 2, 5, 50, 9, 90, 0, 0, 0, 0]) @ [],
     m_live = [(16, 40), (56, 64)], m_faults = []\<rparr>"

lemma slice_at_words: "i < length ws \<Longrightarrow> slice (8 * i) 8 (concat (map to_le64 ws) @ rest) = to_le64 (ws ! i)"
  using slice_words [of "map to_le64 ws" i rest] by simp

lemma sample_heap_inv: "heap_inv mem_view 8 word_lt 16 (16, 40) sample_heap {(16, 40), (56, 64)} {#(to_le64 5, 50), (to_le64 9, 90)#}"
proof -
  let ?b = "m_bytes sample_heap" and ?ws = "[0, 0, 40, 0, 56, 4, 2, 5, 50, 9, 90, 0, 0, 0, 0] :: u64 list"
  have sw: "slice (8 * i) 8 ?b = to_le64 (?ws ! i)" if "i < 15" for i
    using slice_at_words [of i ?ws "[]"] that unfolding sample_heap_def by simp
  have w: "word_at ?b (8 * i) = ?ws ! i" if "i < 15" for i using sw [OF that] by (simp add: word_at_def)
  have "length ?b = 120" by (simp add: sample_heap_def)
  then have g: "v_good mem_view sample_heap"
    by (simp add: mem_view_simps mem_good_def range_end_def apart_def) (auto simp: sample_heap_def)
  have live: "m_live sample_heap = [(16, 40), (56, 64)]" by (simp add: sample_heap_def)
  have sl: "heap_slots 16 56 2 ?b = [to_le64 5 @ to_le64 50, to_le64 9 @ to_le64 90]"
    using sw [of 7] sw [of 8] sw [of 9] sw [of 10] slice_append_split [of 56 8 8 ?b] slice_append_split [of 72 8 8 ?b]
    by (simp add: heap_slots_def numeral_2_eq_2)
  let ?xs = "[to_le64 5 @ to_le64 50, to_le64 9 @ to_le64 90]"
  have "is_heap (slot_lt 8 word_lt) ?xs"
    by (auto simp: is_heap_def slot_lt_def word_lt_def par_def less_Suc_eq)
  then have "heap_at mem_view 8 word_lt 16 (16, 40) 56 4 sample_heap ?xs"
    using g w [of 4] w [of 5] w [of 6] live sl [symmetric, unfolded numeral_2_eq_2]
    by (simp add: heap_at_def mem_view_simps inside_def range_end_def heap_stride_def)
  then show ?thesis unfolding heap_inv_def
    by (intro exI [of _ 56] exI [of _ 4] exI [of _ ?xs]) (simp add: heap_blocks_def heap_stride_def heap_entry_def)
qed

section \<open>Claims\<close>

text \<open>C35: A sequence of pushes, pops, peeks and length queries on a heap, over a store that may fail at any
  call, simulates the same sequence on a multiset of entries: it ends (a push within two rounds of its
  retry loop, a pop within 64 levels), a pop takes out and a peek shows an entry of a least priority, an
  error leaves the entries as they were, and only blocks of the heap change. On a store that does not
  fail by itself only a push can fail.\<close>

theorem heap_run_refines:
  assumes "stack_laws io vw" and "priority lt" and "heap_inv vw ksz lt handle H s R M"
    and "\<forall>oper \<in> set ops. key_sized ksz oper"
  shows "\<exists>rs s' R' M'. run_ops (heap_exec io ksz lt handle) ops s = Some (rs, s') \<and> heap_inv vw ksz lt handle H s' R' M'
    \<and> owns_frame vw s R s' R' \<and> trace (heap_step lt) M ops rs M'
    \<and> (v_calm vw s \<longrightarrow> list_all2 (\<lambda>oper r. not_push oper \<longrightarrow> \<not> isl r) ops rs)"
  using heap_over.heap_run [OF heap_over.intro [OF assms(1,2)] assms(3,4)] .

theorem heap_run_refines_witness:
  "\<exists>rs s' R' M'. run_ops (heap_exec mem_io 8 word_lt 16) [HeapPush (to_le64 7) 70, HeapPop, HeapLen] sample_heap = Some (rs, s')
    \<and> heap_inv mem_view 8 word_lt 16 (16, 40) s' R' M' \<and> owns_frame mem_view sample_heap {(16, 40), (56, 64)} s' R'
    \<and> trace (heap_step word_lt) {#(to_le64 5, 50), (to_le64 9, 90)#} [HeapPush (to_le64 7) 70, HeapPop, HeapLen] rs M'
    \<and> (v_calm mem_view sample_heap
        \<longrightarrow> list_all2 (\<lambda>oper r. not_push oper \<longrightarrow> \<not> isl r) [HeapPush (to_le64 7) 70, HeapPop, HeapLen] rs)"
  by (rule heap_run_refines [OF mem.stack_laws_axioms word_keys.priority_axioms sample_heap_inv]) simp

text \<open>C36: Popping a heap until it is empty, on a store that does not fail by itself, returns all its entries
  and returns them in the order of their priorities.\<close>

theorem heap_drain_sorts:
  assumes "stack_laws io vw" and "priority lt" and "heap_inv vw ksz lt handle H s R M" and "v_calm vw s"
  shows "\<exists>es s' R'. run_ops (heap_exec io ksz lt handle) (replicate (size M) HeapPop) s = Some (map (\<lambda>e. Inr (Entry (Some e))) es, s')
    \<and> mset es = M \<and> sorted_wrt (\<lambda>a b. \<not> lt (fst b) (fst a)) es \<and> heap_inv vw ksz lt handle H s' R' {#}"
  using heap_over.heap_pops [OF heap_over.intro [OF assms(1,2)] assms(3,4)] .

theorem heap_drain_sorts_witness:
  "\<exists>es s' R'. run_ops (heap_exec mem_io 8 word_lt 16) (replicate 2 HeapPop) sample_heap = Some (map (\<lambda>e. Inr (Entry (Some e))) es, s')
    \<and> mset es = {#(to_le64 5, 50), (to_le64 9, 90)#} \<and> sorted_wrt (\<lambda>a b. \<not> word_lt (fst b) (fst a)) es
    \<and> heap_inv mem_view 8 word_lt 16 (16, 40) s' R' {#}"
proof -
  have "v_calm mem_view sample_heap" by (simp add: mem_view_simps sample_heap_def)
  from heap_drain_sorts [OF mem.stack_laws_axioms word_keys.priority_axioms sample_heap_inv this] show ?thesis
    by (simp add: numeral_2_eq_2 del: replicate_Suc)
qed

end
