(* ===== verification/Spec2Isabelle.thy ===== *)
theory Spec2Isabelle
  imports SchemaSafety MapTraverse Sharing WalLock SetCorrect Emptying BinaryHeapRuns
begin

text \<open>
  A model of \<^verbatim>\<open>bstack_raii\<close>, a Rust crate of owned, reference-counted and collection
  types that live in a \<^verbatim>\<open>BStack\<close> file. Paths below are under \<^verbatim>\<open>src/src/\<close>.

  \<^bold>\<open>The program.\<close> A block is a range of the file behind a header of 16 bytes. An owned handle frees its
  block and, through generated code, the blocks its fields own; strong and weak handles share a block
  through counters in the file. Any call on the store may fail, and the process may die between two
  calls, so multi-block work goes through a write-ahead log at a fixed anchor: the teardown of an
  owned subtree stages its frees and commits them together; a deep clone logs every block it allocates
  and commits all staged bytes in one batch. The collections store their elements in blocks of their
  own and commit every structural change as one batch. A schema codec describes types to code that
  was compiled without them.

  \<^bold>\<open>The store.\<close> \<^verbatim>\<open>bstack\<close> is another crate. Its operations are the record
  \<open>stack_ops\<close>, over an abstract state, and what the crate relies on is the locale \<open>stack_laws\<close> (theory
  Stack): a failed call changes nothing a caller can see, a batch is applied whole, allocations are
  apart, each call keeps the bytes of allocations it was not given. The laws allow every call to fail
  at any time; a store that is \<open>v_calm\<close> fails only on bad arguments, and liveness is stated for those.
  The byte-array store \<open>mem_io\<close>, with a list of injected faults, interprets the locale; every witness
  runs on it.

  \<^bold>\<open>Theories.\<close>

  \<^item> Prelude, Tally: machine integers, errors as sums, \<^verbatim>\<open>?\<close> as \<open>try_r\<close>, \<open>try_s\<close>,
    \<open>try_in\<close>, the little-endian codec, slices of bytes; counting equal indices.
  \<^item> Pointers, Hash: \<^verbatim>\<open>primitives/\<close> and \<^verbatim>\<open>stdlib/hash.rs\<close>.
  \<^item> Cursor, Schema, SchemaType, SchemaSafety: \<^verbatim>\<open>util/reader.rs\<close>,
    \<^verbatim>\<open>util/writer.rs\<close>, \<^verbatim>\<open>rtti/schema.rs\<close>, \<^verbatim>\<open>rtti/shape.rs\<close>. An item
    with an encoder and a decoder is an instance of the locale \<open>wire_format\<close>; the decoder's depth limit
    bounds the recursion of \<open>shape_decode_at\<close>.
  \<^item> Stack, Blocks, Updates: the store, single blocks, batches of words, the frame of an operation.
  \<^item> OpenAddr, Probing, TableOps, TableSteps, TableGrow, TableLookup, TableInsert:
    \<^verbatim>\<open>stdlib/util.rs\<close>. OpenAddr is the abstract table (\<open>scan\<close>, \<open>table_map\<close>, \<open>wf_table\<close>); the
    others show that a probe, a growth and a lookup over the file compute on it. The closures a
    collection passes to \<^verbatim>\<open>probe_commit\<close> are instances of the locales
    \<open>insert_probe\<close> and \<open>remove_probe\<close>.
  \<^item> HashMap, HashMapCorrect, MapProps, MapTraverse: \<^verbatim>\<open>stdlib/map.rs\<close> as a finite map; its
    teardown with and without a sink.
  \<^item> Bloom, BloomProps, HashSet, HashSetProps, SetCorrect: \<^verbatim>\<open>stdlib/bloom.rs\<close>,
    \<^verbatim>\<open>stdlib/hashset.rs\<close> as a finite set behind a filter that never hides a member.
  \<^item> Descent, Containers: what a clone and a run of any collection share. \<open>container\<close> is the contract of an
    operation (it ends, keeps the invariant, changes only blocks of the collection, answers as the
    specification or fails without effect), and a run of operations simulates the specification's;
    \<open>iterator\<close> is the contract of a \<^verbatim>\<open>next\<close>, and a drained iterator has yielded the
    elements.
  \<^item> Deque, DequeProps, DequeCorrect, DequeRuns: \<^verbatim>\<open>stdlib/deque.rs\<close> as a list.
  \<^item> LinkedList, LinkedListProps, LinkedListCorrect, LinkedListRuns: \<^verbatim>\<open>stdlib/list.rs\<close> as a
    list. The chain is described once for a direction, and the operations at the two ends are the two
    directions. Emptying: the teardown of a list and of a deque inside the transaction of their owner.
  \<^item> BinaryHeap, HeapArray, BinaryHeapProps, BinaryHeapCorrect, BinaryHeapRuns:
    \<^verbatim>\<open>stdlib/heap.rs\<close> as a multiset of entries. HeapArray has the two sifts on lists, in the locale
    \<open>priority\<close> of what \<^verbatim>\<open>K: Ord\<close> promises: as swaps and as the writes computed from the array
    before them, which is how the code does it.
    \<open>stack_laws\<close> gives \<open>container\<close> on the operations of each of the three.
  \<^item> Bulk: \<^verbatim>\<open>io_core/bulk.rs\<close> and the dispatch in \<^verbatim>\<open>types/alloc/mod.rs\<close>.
  \<^item> Wal, WalBlock, WalFinish, WalCommit, WalAtomic, WalProps, WalClone: \<^verbatim>\<open>io_core/wal.rs\<close>, the log over
    the bytes of its block; Clone, CloneProps: \<^verbatim>\<open>io_core/clone.rs\<close>. Transactions states their
    properties. WalLock: the per-file lock over interleaving threads, an inductive step relation.
  \<^item> Refcount, Teardown, Collecting, Rc, RcProps, RcRuns, RcObjects, Sharing: \<^verbatim>\<open>io_core/refcount.rs\<close>,
    \<^verbatim>\<open>io_core/teardown.rs\<close>, \<^verbatim>\<open>types/traits/drop.rs\<close>,
    \<^verbatim>\<open>types/compiled/owned.rs\<close>, \<^verbatim>\<open>types/compiled/rc.rs\<close>,
    \<^verbatim>\<open>io_core/foreign.rs\<close>, \<^verbatim>\<open>handback/replace.rs\<close>. Collecting: what a
    teardown puts into the sink or, without one, frees.

  \<^bold>\<open>Conventions.\<close> A state is threaded explicitly and returned with the result; an error is \<open>Inl\<close> and every
  \<^verbatim>\<open>?\<close>, check and early return is a branch. Machine arithmetic wraps, as in a release
  build. A key or an element is its bytes or its offset, and what the compiler generates per type (the
  teardown and the clone of a type's fields) is a function argument. A captured
  \<^verbatim>\<open>Cell\<close> is a value the closure returns. The hypothesis on such arguments is what the
  generated code promises: it frees the children's blocks and no others. \<^verbatim>\<open>dealloc_range\<close> consults
  the sink of the thread. Teardown code is modelled over the thread with its sink; every other operation
  runs with no sink installed, where \<^verbatim>\<open>dealloc_range\<close> frees at once (\<open>dealloc_range_direct\<close>)
  and the model calls the allocator.

  \<^bold>\<open>Loops.\<close> A loop that the source bounds has its bound as fuel and no other result when it runs out. The
  retry loops of the insertions and of the pushes take a fuel of which two rounds suffice, which the
  properties prove: after one growth there is room. A pop of the heap takes 64 levels, and a heap inside a
  file has fewer than \<open>2 ^ 60\<close> slots. \<open>place_loop\<close> walks a table once; a longer walk only
  revisits buckets, and growth is proved never to need it. \<open>None\<close> is a loop that does not end, and no
  property holds of it by default: each claims \<open>Some\<close>.

  \<^bold>\<open>Bounds.\<close> A file is shorter than \<open>2 ^ 63\<close> bytes, so offsets do not wrap inside it. A run on shared handles
  is shorter than \<open>2 ^ 64\<close> operations. A transaction of the log has at most \<open>2 ^ 20\<close> entries, the limit the
  loader enforces. A filter has fewer than \<open>2 ^ 32\<close> hashes per key.

  \<^bold>\<open>Not modelled.\<close> The procedural macros of \<^verbatim>\<open>derive/\<close> produce Rust source from Rust source;
  their output enters as the function arguments above. \<^verbatim>\<open>rtti/\<close> beyond the codec interprets a
  schema over a file with a process-wide registry of loaded schemas. \<^verbatim>\<open>io_core/registry.rs\<close> maps
  paths to open files. The vectors of \<^verbatim>\<open>types/compiled/vec.rs\<close> delegate to
  \<^verbatim>\<open>BStackByteVec\<close> of the other crate. The B-trees of \<^verbatim>\<open>stdlib/tree.rs\<close> and
  \<^verbatim>\<open>stdlib/btreeset.rs\<close>, strings, boxes and cow handles, the allocators of
  \<^verbatim>\<open>types/alloc/\<close>, and the small buffers of \<^verbatim>\<open>util/\<close> are left out, the last because a
  list stands for them. Sizes computed in floating point (the constructor of the filter) are arguments.
\<close>

end
